(* ===== verification/RT_Prelude.thy ===== *)
theory RT_Prelude
  imports Main "HOL-Library.Word" "HOL-Library.Monad_Syntax"
begin

unbundle bit_operations_syntax

text \<open>
  Shared vocabulary of the development: the integer types of \<open>src/include/rtdef.h\<close> as machine
  words, the error codes, the alignment macros, and the generic lemmas on options, lists and words
  that the component theories use.

  Conventions used everywhere. A kernel routine that may fail to return (an \<open>RT_ASSERT\<close> that does
  not hold, whose handler \<open>rt_assert_handler\<close> spins for ever; an index outside a kernel table; a
  loop without end) has an option result, and \<^const>\<open>None\<close> means that the call does not return.
  Error codes are values: \<open>rt_err_t\<close> is modelled by \<^typ>\<open>int\<close>, with the sign the code gives it.
\<close>

section \<open>Types of \<open>rtdef.h\<close>\<close>

type_synonym u8 = "8 word"
type_synonym u16 = "16 word"
type_synonym u32 = "32 word"
type_synonym ptr = "32 word"
type_synonym rt_tick_t = "32 word"
type_synonym rt_size_t = "32 word"
type_synonym rt_int32_t = "32 word"
type_synonym rt_err_t = int

abbreviation (input) RT_NULL :: ptr where "RT_NULL \<equiv> 0"
abbreviation (input) RT_EOK :: rt_err_t where "RT_EOK \<equiv> 0"
abbreviation (input) RT_ERROR :: rt_err_t where "RT_ERROR \<equiv> 1"
abbreviation (input) RT_ETIMEOUT :: rt_err_t where "RT_ETIMEOUT \<equiv> 2"
abbreviation (input) RT_EFULL :: rt_err_t where "RT_EFULL \<equiv> 3"
abbreviation (input) RT_TICK_MAX :: rt_tick_t where "RT_TICK_MAX \<equiv> 0xffffffff"
abbreviation (input) RT_ALIGN_SIZE :: u32 where "RT_ALIGN_SIZE \<equiv> 4"

text \<open>\<open>RT_ASSERT(EX)\<close>: when the condition fails the handler never returns.\<close>

definition RT_ASSERT :: "bool \<Rightarrow> unit option" where
  "RT_ASSERT b = (if b then Some () else None)"

definition RT_ALIGN :: "u32 \<Rightarrow> u32 \<Rightarrow> u32" where
  "RT_ALIGN sz align = (sz + align - 1) AND NOT (align - 1)"

definition RT_ALIGN_DOWN :: "u32 \<Rightarrow> u32 \<Rightarrow> u32" where
  "RT_ALIGN_DOWN sz align = sz AND NOT (align - 1)"

section \<open>Rule collections\<close>

named_theorems rt_split "case splits for the option-valued kernel routines"
named_theorems rt_field "what a kernel routine keeps of the state fields it does not write"

section \<open>Options\<close>

lemma RT_ASSERT_simps [simp]: "RT_ASSERT True = Some ()" "RT_ASSERT False = None"
  by (simp_all add: RT_ASSERT_def)

lemma RT_ASSERT_eq_Some [simp]: "RT_ASSERT b = Some u \<longleftrightarrow> b"
  by (simp add: RT_ASSERT_def)

lemma bind_eq_SomeD:
  assumes "Option.bind m f = Some y"
  obtains x where "m = Some x" "f x = Some y"
  using assms by (cases m) auto

lemmas bind_Some_conv = Option.bind_eq_Some_conv

section \<open>Lists\<close>

lemma filter_neq_id: "x \<notin> set xs \<Longrightarrow> filter (\<lambda>y. y \<noteq> x) xs = xs"
  by (induction xs) auto

lemma removeAll_last: "x \<notin> set xs \<Longrightarrow> removeAll x (xs @ [x]) = xs"
  by simp

lemma hd_removeAll: "xs \<noteq> [] \<Longrightarrow> hd xs \<noteq> x \<Longrightarrow> hd (removeAll x xs) = hd xs"
  by (cases xs) auto

lemma set_hd: "xs \<noteq> [] \<Longrightarrow> hd xs \<in> set xs"
  by simp

lemma set_takeWhile_sorted:
  fixes f :: "'a \<Rightarrow> nat"
  assumes "sorted (map f xs)"
  shows "set (takeWhile (\<lambda>x. f x \<le> c) xs) = {x \<in> set xs. f x \<le> c}"
  using assms by (induction xs) fastforce+

section \<open>Words\<close>

lemma unat_u32_less: "unat (x :: u32) < 4294967296"
  using unsigned_less [of x, where ?'a = nat] by simp

lemma unat_u8_less: "unat (x :: u8) < 256"
  using unsigned_less [of x, where ?'a = nat] by simp

lemma unat_u16_less: "unat (x :: u16) < 65536"
  using unsigned_less [of x, where ?'a = nat] by simp

lemma unat_u32_minus_1: "unat (- 1 :: u32) = 4294967295"
  by (simp add: unsigned_minus_1_eq_mask mask_eq_exp_minus_1)

lemma unat_inc:
  fixes x :: "'a :: len word"
  assumes "unat x + 1 < 2 ^ LENGTH('a)"
  shows "unat (x + 1) = unat x + 1"
  using assms by (subst unat_word_ariths) simp

lemma and_0xff: "(c :: u32) AND 0xff = take_bit 8 c"
  by (simp add: take_bit_eq_mask mask_eq_exp_minus_1)

lemma word_and_not_mask_eq:
  fixes x :: "'a::len word"
  shows "x AND NOT (mask n) = x - take_bit n x"
proof -
  have "x AND NOT (mask n) = push_bit n (drop_bit n x)"
    by (rule bit_word_eqI) (auto simp: bit_simps)
  then show ?thesis by (metis add_diff_cancel_right' bits_ident)
qed

lemma unat_and_not_mask:
  fixes x :: "'a::len word"
  assumes "n < LENGTH('a)"
  shows "unat (x AND NOT (mask n)) = unat x - unat x mod 2 ^ n"
proof -
  have "unat (take_bit n x) = unat x mod 2 ^ n"
    by (metis take_bit_eq_mod unsigned_take_bit_eq)
  moreover have "take_bit n x \<le> x"
    by (metis calculation mod_less_eq_dividend word_le_nat_alt)
  ultimately show ?thesis
    by (simp add: word_and_not_mask_eq unat_sub)
qed

lemma RT_ALIGN_DOWN_4: "unat (RT_ALIGN_DOWN x 4) = unat x - unat x mod 4"
proof -
  have "(4 - 1 :: u32) = mask 2" by (simp add: mask_eq_exp_minus_1)
  then show ?thesis
    unfolding RT_ALIGN_DOWN_def using unat_and_not_mask [of 2 x] by simp
qed

lemma RT_ALIGN_4_conv: "RT_ALIGN x 4 = RT_ALIGN_DOWN (x + 3) 4"
  by (simp add: RT_ALIGN_def RT_ALIGN_DOWN_def add.commute)

text \<open>Rounding up is exact as long as the addition does not wrap.\<close>

lemma RT_ALIGN_4:
  assumes "unat x \<le> 2 ^ 32 - 4"
  shows "unat (RT_ALIGN x 4) = (unat x + 3) div 4 * 4"
proof -
  have "unat (x + 3) = unat x + 3"
    using assms by (subst unat_add_lem [THEN iffD1]) simp_all
  then show ?thesis
    by (simp add: RT_ALIGN_4_conv RT_ALIGN_DOWN_4 minus_mod_eq_div_mult)
qed

lemma RT_ALIGN_4_dvd: "4 dvd unat (RT_ALIGN x 4)"
  by (simp add: RT_ALIGN_4_conv RT_ALIGN_DOWN_4 minus_mod_eq_mult_div)

end
