(* ===== verification/Rt_List.thy ===== *)
theory Rt_List
  imports RT_Prelude
begin

text \<open>
  The intrusive doubly linked lists of \<open>src/include/rtservice.h\<close>, twice.

  First the code: a store of nodes with their \<open>next\<close> and \<open>prev\<close> pointers, and the inline
  functions as the pointer assignments they are, in the order of the source.  Then what the rest of
  the kernel relies on: a family of queues, one list of elements per list head, with insertion at
  either end, insertion in front of an element and removal.  The locale \<open>list_service\<close> states that
  contract; it is interpreted on the pointer functions (the refinement) and on the queue functions
  the kernel model uses.
\<close>

section \<open>The pointer functions\<close>

record 'n rt_list_node =
  nxt :: 'n
  prv :: 'n

type_synonym 'n links = "'n \<Rightarrow> 'n rt_list_node"

definition set_nxt :: "'n \<Rightarrow> 'n \<Rightarrow> 'n links \<Rightarrow> 'n links" where
  "set_nxt n v m = m(n := (m n)\<lparr>nxt := v\<rparr>)"

definition set_prv :: "'n \<Rightarrow> 'n \<Rightarrow> 'n links \<Rightarrow> 'n links" where
  "set_prv n v m = m(n := (m n)\<lparr>prv := v\<rparr>)"

definition rt_list_init :: "'n \<Rightarrow> 'n links \<Rightarrow> 'n links" where
  "rt_list_init l m0 =
     (let m1 = set_prv l l m0
      in set_nxt l (prv (m1 l)) m1)"

definition rt_list_insert_after :: "'n \<Rightarrow> 'n \<Rightarrow> 'n links \<Rightarrow> 'n links" where
  "rt_list_insert_after l n m0 =
     (let m1 = set_prv (nxt (m0 l)) n m0;
          m2 = set_nxt n (nxt (m1 l)) m1;
          m3 = set_nxt l n m2
      in set_prv n l m3)"

definition rt_list_insert_before :: "'n \<Rightarrow> 'n \<Rightarrow> 'n links \<Rightarrow> 'n links" where
  "rt_list_insert_before l n m0 =
     (let m1 = set_nxt (prv (m0 l)) n m0;
          m2 = set_prv n (prv (m1 l)) m1;
          m3 = set_prv l n m2
      in set_nxt n l m3)"

definition rt_list_remove :: "'n \<Rightarrow> 'n links \<Rightarrow> 'n links" where
  "rt_list_remove n m0 =
     (let m1 = set_prv (nxt (m0 n)) (prv (m0 n)) m0;
          m2 = set_nxt (prv (m1 n)) (nxt (m1 n)) m1;
          m3 = set_prv n n m2
      in set_nxt n (prv (m3 n)) m3)"

definition rt_list_isempty :: "'n \<Rightarrow> 'n links \<Rightarrow> bool" where
  "rt_list_isempty l m \<longleftrightarrow> nxt (m l) = l"

text \<open>The traversal every kernel loop over a list uses: from \<open>l->next\<close> until \<open>l\<close> comes back.\<close>

partial_function (option) rt_list_walk :: "'n links \<Rightarrow> 'n \<Rightarrow> 'n \<Rightarrow> 'n list option" where
  "rt_list_walk m l n =
     (if n = l then Some []
      else Option.bind (rt_list_walk m l (nxt (m n))) (\<lambda>ns. Some (n # ns)))"

lemma nxt_set_nxt [simp]: "nxt (set_nxt n v m x) = (if x = n then v else nxt (m x))"
  and prv_set_nxt [simp]: "prv (set_nxt n v m x) = prv (m x)"
  and nxt_set_prv [simp]: "nxt (set_prv n v m x) = nxt (m x)"
  and prv_set_prv [simp]: "prv (set_prv n v m x) = (if x = n then v else prv (m x))"
  by (simp_all add: set_nxt_def set_prv_def)

lemma nxt_insert_after:
  "n \<noteq> l \<Longrightarrow> nxt (rt_list_insert_after l n m x) =
     (if x = n then nxt (m l) else if x = l then n else nxt (m x))"
  by (simp add: rt_list_insert_after_def Let_def)

lemma prv_insert_after:
  "n \<noteq> l \<Longrightarrow> prv (rt_list_insert_after l n m x) =
     (if x = n then l else if x = nxt (m l) then n else prv (m x))"
  by (simp add: rt_list_insert_after_def Let_def)

lemma nxt_insert_before:
  "n \<noteq> l \<Longrightarrow> nxt (rt_list_insert_before l n m x) =
     (if x = n then l else if x = prv (m l) then n else nxt (m x))"
  by (simp add: rt_list_insert_before_def Let_def)

lemma prv_insert_before:
  "n \<noteq> l \<Longrightarrow> prv (rt_list_insert_before l n m x) =
     (if x = n then prv (m l) else if x = l then n else prv (m x))"
  by (simp add: rt_list_insert_before_def Let_def)

lemma nxt_remove:
  "nxt (m n) \<noteq> n \<Longrightarrow> nxt (rt_list_remove n m x) =
     (if x = n then n else if x = prv (m n) then nxt (m n) else nxt (m x))"
  by (simp add: rt_list_remove_def Let_def)

lemma prv_remove:
  "nxt (m n) \<noteq> n \<Longrightarrow> prv (rt_list_remove n m x) =
     (if x = n then n else if x = nxt (m n) then prv (m n) else prv (m x))"
  by (simp add: rt_list_remove_def Let_def)

section \<open>Chains of nodes\<close>

definition linked :: "'n links \<Rightarrow> 'n \<Rightarrow> 'n \<Rightarrow> bool" where
  "linked m a b \<longleftrightarrow> nxt (m a) = b \<and> prv (m b) = a"

fun chain :: "'n links \<Rightarrow> 'n \<Rightarrow> 'n list \<Rightarrow> 'n \<Rightarrow> bool" where
  "chain m a [] b \<longleftrightarrow> linked m a b"
| "chain m a (x # xs) b \<longleftrightarrow> linked m a x \<and> chain m x xs b"

definition is_list :: "'n links \<Rightarrow> 'n \<Rightarrow> 'n list \<Rightarrow> bool" where
  "is_list m h xs \<longleftrightarrow> chain m h xs h \<and> distinct (h # xs)"

lemma chain_append: "chain m a (xs @ y # ys) b \<longleftrightarrow> chain m a xs y \<and> chain m y ys b"
  by (induction xs arbitrary: a) auto

lemma chain_frame:
  assumes "chain m a xs b"
    and "\<And>x. x \<in> insert a (set xs) \<Longrightarrow> nxt (m' x) = nxt (m x)"
    and "\<And>x. x \<in> insert b (set xs) \<Longrightarrow> prv (m' x) = prv (m x)"
  shows "chain m' a xs b"
  using assms by (induction xs arbitrary: a) (auto simp: linked_def)

lemma chain_prv: "chain m a xs b \<Longrightarrow> prv (m b) = last (a # xs)"
  by (induction xs arbitrary: a) (auto simp: linked_def)

lemma chain_nxt: "chain m a xs b \<Longrightarrow> nxt (m a) = hd (xs @ [b])"
  by (cases xs) (auto simp: linked_def)

text \<open>Linking a fresh node between two neighbours, and taking a node out again.\<close>

lemma chain_splice:
  assumes c: "chain m a (xs @ ys) b" and d: "distinct (a # xs @ ys)"
    and n: "n \<notin> set (a # b # xs @ ys)" and b: "b \<notin> set (xs @ ys)"
    and nx: "\<And>x. nxt (m' x) =
      (if x = n then hd (ys @ [b]) else if x = last (a # xs) then n else nxt (m x))"
    and pv: "\<And>x. prv (m' x) =
      (if x = n then last (a # xs) else if x = hd (ys @ [b]) then n else prv (m x))"
  shows "chain m' a (xs @ n # ys) b"
proof -
  have "chain m' a xs n"
  proof (cases xs rule: rev_cases)
    case Nil
    then show ?thesis using n by (auto simp: linked_def nx pv)
  next
    case (snoc zs z)
    then have "chain m a zs z" using c by (cases ys) (simp_all add: chain_append)
    then have "chain m' a zs z"
    proof (rule chain_frame)
      fix x assume "x \<in> insert a (set zs)"
      then have "x \<noteq> n" "x \<noteq> last (a # xs)" using snoc d n by auto
      then show "nxt (m' x) = nxt (m x)" by (simp add: nx)
    next
      fix x assume "x \<in> insert z (set zs)"
      then have "x \<noteq> n" "x \<noteq> hd (ys @ [b])" using snoc d n b by (cases ys; auto)+
      then show "prv (m' x) = prv (m x)" by (simp add: pv)
    qed
    moreover have "linked m' z n" using n snoc by (auto simp: linked_def nx pv)
    ultimately show ?thesis using snoc by (simp add: chain_append)
  qed
  moreover have "chain m' n ys b"
  proof (cases ys)
    case Nil
    then show ?thesis using n by (auto simp: linked_def nx pv)
  next
    case (Cons y ys')
    then have "chain m y ys' b" using c by (simp add: chain_append)
    then have "chain m' y ys' b"
    proof (rule chain_frame)
      fix x assume "x \<in> insert y (set ys')"
      then have "x \<noteq> n" "x \<notin> set (a # xs)" using Cons d n by auto
      then have "x \<noteq> n" "x \<noteq> last (a # xs)" by (metis last_in_set list.distinct(1))+
      then show "nxt (m' x) = nxt (m x)" by (simp add: nx)
    next
      fix x assume "x \<in> insert b (set ys')"
      then have "x \<noteq> n" "x \<noteq> y" using Cons d n b by auto
      then show "prv (m' x) = prv (m x)" using Cons by (simp add: pv)
    qed
    then show ?thesis using Cons n by (auto simp: linked_def nx pv)
  qed
  ultimately show ?thesis by (simp add: chain_append)
qed

lemma chain_unsplice:
  assumes c: "chain m a (xs @ n # ys) b" and d: "distinct (a # xs @ n # ys)"
    and b: "b \<notin> set (xs @ n # ys)"
    and nx: "\<And>x. x \<noteq> n \<Longrightarrow> nxt (m' x) = (if x = last (a # xs) then hd (ys @ [b]) else nxt (m x))"
    and pv: "\<And>x. x \<noteq> n \<Longrightarrow> prv (m' x) = (if x = hd (ys @ [b]) then last (a # xs) else prv (m x))"
  shows "chain m' a (xs @ ys) b"
proof -
  have cs: "chain m a xs n" "chain m n ys b" using c by (simp_all add: chain_append)
  have left: "chain m' a zs z" if "xs = zs @ [z]" for zs z
  proof -
    have "chain m a zs z" using cs(1) that by (simp add: chain_append)
    then show ?thesis
    proof (rule chain_frame)
      fix x assume "x \<in> insert a (set zs)"
      then have "x \<noteq> n" "x \<noteq> last (a # xs)" using that d by auto
      then show "nxt (m' x) = nxt (m x)" by (simp add: nx)
    next
      fix x assume "x \<in> insert z (set zs)"
      then have "x \<noteq> n" "x \<noteq> hd (ys @ [b])" using that d b by (cases ys; auto)+
      then show "prv (m' x) = prv (m x)" by (simp add: pv)
    qed
  qed
  have right: "chain m' y zs b" if "ys = y # zs" for y zs
  proof -
    have "chain m y zs b" using cs(2) that by simp
    then show ?thesis
    proof (rule chain_frame)
      fix x assume "x \<in> insert y (set zs)"
      then have "x \<noteq> n" "x \<notin> set (a # xs)" using that d by auto
      then have "x \<noteq> n" "x \<noteq> last (a # xs)" by (metis last_in_set list.distinct(1))+
      then show "nxt (m' x) = nxt (m x)" by (simp add: nx)
    next
      fix x assume "x \<in> insert b (set zs)"
      then have "x \<noteq> n" "x \<noteq> y" using that d b by auto
      then show "prv (m' x) = prv (m x)" using that by (simp add: pv)
    qed
  qed
  have "last (a # xs) \<noteq> n" "hd (ys @ [b]) \<noteq> n" using d b by (cases ys; auto)+
  then have l: "linked m' (last (a # xs)) (hd (ys @ [b]))" by (simp add: linked_def nx pv)
  show ?thesis
  proof (cases xs rule: rev_cases)
    case Nil
    then show ?thesis using l right by (cases ys) auto
  next
    case (snoc zs z)
    have "chain m' z ys b" using l right snoc by (cases ys) auto
    with left [OF snoc] snoc show ?thesis by (simp add: chain_append)
  qed
qed

text \<open>The same two facts for whole circular lists.\<close>

lemma is_list_insert_after:
  assumes "is_list m h xs" "n \<notin> set (h # xs)"
  shows "is_list (rt_list_insert_after h n m) h (n # xs)"
proof -
  have "chain (rt_list_insert_after h n m) h ([] @ n # xs) h"
    using assms
    by (intro chain_splice [of m])
       (auto simp: is_list_def nxt_insert_after prv_insert_after chain_nxt [of m h xs h])
  then show ?thesis using assms by (auto simp: is_list_def)
qed

lemma is_list_insert_before:
  assumes l: "is_list m h (xs @ ys)" and n: "n \<notin> set (h # xs @ ys)" and y: "y = hd (ys @ [h])"
  shows "is_list (rt_list_insert_before y n m) h (xs @ n # ys)"
proof -
  have c: "chain m h (xs @ ys) h" "distinct (h # xs @ ys)" using l by (auto simp: is_list_def)
  have "n \<noteq> y" using n y by (cases ys) auto
  moreover have "prv (m y) = last (h # xs)"
    using c y by (cases ys) (auto simp: chain_append dest: chain_prv)
  ultimately have "chain (rt_list_insert_before y n m) h (xs @ n # ys) h"
    using c n y by (intro chain_splice [of m]) (auto simp: nxt_insert_before prv_insert_before)
  then show ?thesis using l n by (auto simp: is_list_def)
qed

lemma is_list_nxt_neq: "is_list m h (xs @ n # ys) \<Longrightarrow> nxt (m n) \<noteq> n"
  by (cases ys) (auto simp: is_list_def chain_append linked_def)

lemma is_list_remove:
  assumes l: "is_list m h (xs @ n # ys)"
  shows "is_list (rt_list_remove n m) h (xs @ ys)"
proof -
  have c: "chain m h xs n" "chain m n ys h" "distinct (h # xs @ n # ys)"
    using l by (auto simp: is_list_def chain_append)
  note ne = is_list_nxt_neq [OF l]
  have "chain (rt_list_remove n m) h (xs @ ys) h"
  proof (rule chain_unsplice)
    show "chain m h (xs @ n # ys) h" "distinct (h # xs @ n # ys)" "h \<notin> set (xs @ n # ys)"
      using c by (auto simp: chain_append)
  qed (simp_all only: nxt_remove [of m n, OF ne] prv_remove [of m n, OF ne]
         chain_prv [OF c(1)] chain_nxt [OF c(2)] if_False)
  then show ?thesis using c(3) by (simp add: is_list_def)
qed

lemma is_list_frame:
  assumes "is_list m h xs" "\<And>x. x \<in> set (h # xs) \<Longrightarrow> m' x = m x"
  shows "is_list m' h xs"
  using assms chain_frame [of m h xs h m'] by (auto simp: is_list_def)

lemma is_list_isempty: "is_list m h xs \<Longrightarrow> rt_list_isempty h m \<longleftrightarrow> xs = []"
  by (cases xs) (auto simp: is_list_def rt_list_isempty_def linked_def)

lemma rt_list_walk_chain:
  "chain m a xs h \<Longrightarrow> h \<notin> set xs \<Longrightarrow> rt_list_walk m h (nxt (m a)) = Some xs"
proof (induction xs arbitrary: a)
  case Nil
  then show ?case by (simp add: linked_def rt_list_walk.simps)
next
  case (Cons x xs)
  then have "rt_list_walk m h (nxt (m x)) = Some xs" by auto
  with Cons.prems show ?case
    by (subst rt_list_walk.simps) (auto simp: linked_def)
qed

text \<open>A node must not be inserted while it is on a list: inserted twice behind the same head it becomes its own successor, and no traversal
  of the list comes to an end.\<close>

lemma insert_twice_loops:
  fixes m :: "'n links"
  assumes "n \<noteq> l"
  defines "m2 \<equiv> rt_list_insert_after l n (rt_list_insert_after l n m)"
  shows "nxt (m2 n) = n" "rt_list_walk m2 l (nxt (m2 l)) = None"
proof -
  show n: "nxt (m2 n) = n" using assms(1) by (simp add: m2_def nxt_insert_after)
  have "rt_list_walk m2 l n \<noteq> Some ns" for ns
  proof
    assume "rt_list_walk m2 l n = Some ns"
    moreover have "rt_list_walk m2 l n = Option.bind (rt_list_walk m2 l n) (\<lambda>ns. Some (n # ns))"
      using n assms(1) by (subst rt_list_walk.simps) simp
    ultimately show False by simp
  qed
  then show "rt_list_walk m2 l (nxt (m2 l)) = None" using assms(1) by (auto simp: m2_def nxt_insert_after)
qed

section \<open>Queue families\<close>

text \<open>
  What the kernel uses of the lists: for every list head \<open>h\<close> the elements linked on it, in order.
  An element is on one list at most, because it has one list node (\<open>thread->tlist\<close>,
  \<open>object->list\<close>, \<open>timer->row[0]\<close>).
\<close>

type_synonym ('h, 'e) queues = "'h \<Rightarrow> 'e list"

definition q_insert_after :: "'h \<Rightarrow> 'e \<Rightarrow> ('h, 'e) queues \<Rightarrow> ('h, 'e) queues" where
  "q_insert_after h e q = q(h := e # q h)"

definition q_insert_before :: "'h \<Rightarrow> 'e \<Rightarrow> ('h, 'e) queues \<Rightarrow> ('h, 'e) queues" where
  "q_insert_before h e q = q(h := q h @ [e])"

fun insert_in_front :: "'e \<Rightarrow> 'e \<Rightarrow> 'e list \<Rightarrow> 'e list" where
  "insert_in_front y e [] = []"
| "insert_in_front y e (x # xs) = (if x = y then e # x # xs else x # insert_in_front y e xs)"

definition q_insert_before_elem :: "'e \<Rightarrow> 'e \<Rightarrow> ('h, 'e) queues \<Rightarrow> ('h, 'e) queues" where
  "q_insert_before_elem y e q = (\<lambda>h. insert_in_front y e (q h))"

definition q_remove :: "'e \<Rightarrow> ('h, 'e) queues \<Rightarrow> ('h, 'e) queues" where
  "q_remove e q = (\<lambda>h. removeAll e (q h))"

definition unlinked :: "'e \<Rightarrow> ('h, 'e) queues \<Rightarrow> bool" where
  "unlinked e q \<longleftrightarrow> (\<forall>h. e \<notin> set (q h))"

definition wf_queues :: "('h, 'e) queues \<Rightarrow> bool" where
  "wf_queues q \<longleftrightarrow>
     (\<forall>h. distinct (q h)) \<and> (\<forall>h h' e. e \<in> set (q h) \<and> e \<in> set (q h') \<longrightarrow> h = h')"

lemma insert_in_front_split:
  "y \<notin> set xs \<Longrightarrow> insert_in_front y e (xs @ y # ys) = xs @ e # y # ys"
  by (induction xs) auto

lemma insert_in_front_id: "y \<notin> set xs \<Longrightarrow> insert_in_front y e xs = xs"
  by (induction xs) auto

lemma set_insert_in_front:
  "set (insert_in_front y e xs) = (if y \<in> set xs then insert e (set xs) else set xs)"
  by (induction xs) auto

lemma distinct_insert_in_front:
  "distinct xs \<Longrightarrow> e \<notin> set xs \<Longrightarrow> distinct (insert_in_front y e xs)"
  by (induction xs) (auto simp: set_insert_in_front)

lemma wf_queuesD:
  "wf_queues q \<Longrightarrow> distinct (q h)"
  "wf_queues q \<Longrightarrow> e \<in> set (q h) \<Longrightarrow> e \<in> set (q h') \<Longrightarrow> h = h'"
  by (auto simp: wf_queues_def)

lemma unlinked_remove [simp]: "unlinked e (q_remove e q)"
  by (simp add: unlinked_def q_remove_def)

lemma q_remove_unlinked: "unlinked e q \<Longrightarrow> q_remove e q = q"
  by (simp add: unlinked_def q_remove_def)

lemma wf_queuesI:
  "(\<And>h. distinct (q h)) \<Longrightarrow> (\<And>h h' e. e \<in> set (q h) \<Longrightarrow> e \<in> set (q h') \<Longrightarrow> h = h') \<Longrightarrow> wf_queues q"
  unfolding wf_queues_def by blast

lemma wf_queues_remove [intro]: "wf_queues q \<Longrightarrow> wf_queues (q_remove e q)"
  by (rule wf_queuesI) (auto simp: q_remove_def distinct_removeAll wf_queuesD(1) dest: wf_queuesD(2))

lemma wf_queues_insert_after [intro]:
  "wf_queues q \<Longrightarrow> unlinked e q \<Longrightarrow> wf_queues (q_insert_after h e q)"
  by (rule wf_queuesI)
     (auto simp: q_insert_after_def unlinked_def wf_queuesD(1) dest: wf_queuesD(2) split: if_splits)

lemma wf_queues_insert_before [intro]:
  "wf_queues q \<Longrightarrow> unlinked e q \<Longrightarrow> wf_queues (q_insert_before h e q)"
  by (rule wf_queuesI)
     (auto simp: q_insert_before_def unlinked_def wf_queuesD(1) dest: wf_queuesD(2) split: if_splits)

lemma wf_queues_insert_before_elem [intro]:
  "wf_queues q \<Longrightarrow> unlinked e q \<Longrightarrow> wf_queues (q_insert_before_elem y e q)"
  by (rule wf_queuesI)
     (auto simp: q_insert_before_elem_def unlinked_def distinct_insert_in_front wf_queuesD(1)
        set_insert_in_front dest: wf_queuesD(2) split: if_splits)

section \<open>The contract\<close>

text \<open>
  A service that keeps queues: its state represents a family of queues, and each operation acts
  on the represented family as the queue function does.  \<open>valid\<close> are the elements whose node has
  been initialised.
\<close>

locale list_service =
  fixes rep :: "'s \<Rightarrow> ('h, 'e) queues \<Rightarrow> bool"
    and valid :: "'e set"
    and push_front push_back :: "'h \<Rightarrow> 'e \<Rightarrow> 's \<Rightarrow> 's"
    and put_before :: "'e \<Rightarrow> 'e \<Rightarrow> 's \<Rightarrow> 's"
    and unlink :: "'e \<Rightarrow> 's \<Rightarrow> 's"
  assumes rep_wf: "rep s q \<Longrightarrow> wf_queues q"
    and rep_push_front:
      "rep s q \<Longrightarrow> e \<in> valid \<Longrightarrow> unlinked e q \<Longrightarrow> rep (push_front h e s) (q_insert_after h e q)"
    and rep_push_back:
      "rep s q \<Longrightarrow> e \<in> valid \<Longrightarrow> unlinked e q \<Longrightarrow> rep (push_back h e s) (q_insert_before h e q)"
    and rep_put_before:
      "rep s q \<Longrightarrow> e \<in> valid \<Longrightarrow> unlinked e q \<Longrightarrow> y \<in> set (q h) \<Longrightarrow>
         rep (put_before y e s) (q_insert_before_elem y e q)"
    and rep_unlink: "rep s q \<Longrightarrow> e \<in> valid \<Longrightarrow> rep (unlink e s) (q_remove e q)"

text \<open>Scripts of list operations, as the kernel routines perform them.\<close>

datatype ('h, 'e) list_op =
  Push_front 'h 'e | Push_back 'h 'e | Put_before 'e 'e | Unlink 'e

fun run_list_ops ::
  "('h \<Rightarrow> 'e \<Rightarrow> 's \<Rightarrow> 's) \<Rightarrow> ('h \<Rightarrow> 'e \<Rightarrow> 's \<Rightarrow> 's) \<Rightarrow> ('e \<Rightarrow> 'e \<Rightarrow> 's \<Rightarrow> 's) \<Rightarrow> ('e \<Rightarrow> 's \<Rightarrow> 's) \<Rightarrow>
     ('h, 'e) list_op list \<Rightarrow> 's \<Rightarrow> 's" where
  "run_list_ops pf pb ib ul [] s = s"
| "run_list_ops pf pb ib ul (Push_front h e # os) s = run_list_ops pf pb ib ul os (pf h e s)"
| "run_list_ops pf pb ib ul (Push_back h e # os) s = run_list_ops pf pb ib ul os (pb h e s)"
| "run_list_ops pf pb ib ul (Put_before y e # os) s = run_list_ops pf pb ib ul os (ib y e s)"
| "run_list_ops pf pb ib ul (Unlink e # os) s = run_list_ops pf pb ib ul os (ul e s)"

abbreviation run_q_ops :: "('h, 'e) list_op list \<Rightarrow> ('h, 'e) queues \<Rightarrow> ('h, 'e) queues" where
  "run_q_ops \<equiv> run_list_ops q_insert_after q_insert_before q_insert_before_elem q_remove"

text \<open>A script is legal when it inserts initialised elements that are on no list at that moment.\<close>

fun legal_ops :: "'e set \<Rightarrow> ('h, 'e) list_op list \<Rightarrow> ('h, 'e) queues \<Rightarrow> bool" where
  "legal_ops V [] q = True"
| "legal_ops V (Push_front h e # os) q \<longleftrightarrow>
     e \<in> V \<and> unlinked e q \<and> legal_ops V os (q_insert_after h e q)"
| "legal_ops V (Push_back h e # os) q \<longleftrightarrow>
     e \<in> V \<and> unlinked e q \<and> legal_ops V os (q_insert_before h e q)"
| "legal_ops V (Put_before y e # os) q \<longleftrightarrow>
     e \<in> V \<and> unlinked e q \<and> (\<exists>h. y \<in> set (q h)) \<and> legal_ops V os (q_insert_before_elem y e q)"
| "legal_ops V (Unlink e # os) q \<longleftrightarrow> e \<in> V \<and> legal_ops V os (q_remove e q)"

context list_service
begin

lemma rep_run_ops:
  assumes "rep s q" "legal_ops valid os q"
  shows "rep (run_list_ops push_front push_back put_before unlink os s) (run_q_ops os q)"
  using assms
proof (induction os arbitrary: s q)
  case Nil
  then show ?case by simp
next
  case (Cons op os)
  then show ?case
    by (cases op) (auto intro: rep_push_front rep_push_back rep_put_before rep_unlink)
qed

text \<open>The move every wake-up performs: off whatever list the element is on, to the back of another.\<close>

lemma rep_move_back:
  "rep s q \<Longrightarrow> e \<in> valid \<Longrightarrow>
     rep (push_back h e (unlink e s)) (q_insert_before h e (q_remove e q))"
  by (intro rep_push_back rep_unlink) simp_all

lemma rep_one_list: "rep s q \<Longrightarrow> e \<in> set (q h) \<Longrightarrow> e \<in> set (q h') \<Longrightarrow> h = h'"
  using rep_wf wf_queuesD(2) by metis

end

text \<open>The queue functions themselves provide the contract.\<close>

interpretation q_service: list_service
  "\<lambda>s q. s = q \<and> wf_queues q" UNIV q_insert_after q_insert_before q_insert_before_elem q_remove
  by unfold_locales auto

section \<open>The pointer functions provide the contract\<close>

datatype ('h, 'e) node = Head 'h | Elem 'e

definition list_rep :: "'e set \<Rightarrow> ('h, 'e) node links \<Rightarrow> ('h, 'e) queues \<Rightarrow> bool" where
  "list_rep V m q \<longleftrightarrow>
     (\<forall>h. is_list m (Head h) (map Elem (q h))) \<and> wf_queues q \<and>
     (\<forall>e \<in> V. unlinked e q \<longrightarrow> nxt (m (Elem e)) = Elem e \<and> prv (m (Elem e)) = Elem e)"

lemma is_list_neighbours:
  assumes "is_list m h xs" "x \<in> set (h # xs)"
  shows "nxt (m x) \<in> set (h # xs)" and "prv (m x) \<in> set (h # xs)"
proof -
  have c: "chain m h xs h" using assms(1) by (simp add: is_list_def)
  have "nxt (m x) \<in> set (h # xs) \<and> prv (m x) \<in> set (h # xs)"
  proof (cases "x = h")
    case True
    then show ?thesis using chain_nxt [OF c] chain_prv [OF c] by (cases xs) auto
  next
    case False
    then obtain us vs where xs: "xs = us @ x # vs" using assms(2) by (auto dest: split_list)
    then have "chain m h us x" "chain m x vs h" using c by (simp_all add: chain_append)
    then show ?thesis
      using chain_nxt [of m x vs h] chain_prv [of m h us x] xs by (cases vs) auto
  qed
  then show "nxt (m x) \<in> set (h # xs)" "prv (m x) \<in> set (h # xs)" by auto
qed

lemma insert_after_other:
  "x \<notin> {l, n, nxt (m l)} \<Longrightarrow> rt_list_insert_after l n m x = m x"
  by (auto simp: rt_list_insert_after_def Let_def set_nxt_def set_prv_def)

lemma insert_before_other:
  "x \<notin> {l, n, prv (m l)} \<Longrightarrow> rt_list_insert_before l n m x = m x"
  by (auto simp: rt_list_insert_before_def Let_def set_nxt_def set_prv_def)

lemma remove_other: "x \<notin> {n, nxt (m n), prv (m n)} \<Longrightarrow> rt_list_remove n m x = m x"
  by (auto simp: rt_list_remove_def Let_def set_nxt_def set_prv_def)

lemma list_rep_nodes: "list_rep V m q \<Longrightarrow> is_list m (Head h) (map Elem (q h))"
  by (simp add: list_rep_def)

text \<open>A change confined to one list and one element.\<close>

lemma list_rep_update:
  assumes r: "list_rep V m q" and w: "wf_queues q'"
    and l: "is_list m' (Head h) (map Elem (q' h))"
    and same: "\<And>h'. h' \<noteq> h \<Longrightarrow> q' h' = q h' \<and> e \<notin> set (q h')"
    and keep: "set (q h) - {e} \<subseteq> set (q' h)"
    and frame: "\<And>x. x \<notin> insert (Elem e) (set (Head h # map Elem (q h))) \<Longrightarrow> m' x = m x"
    and self: "unlinked e q' \<Longrightarrow> nxt (m' (Elem e)) = Elem e \<and> prv (m' (Elem e)) = Elem e"
  shows "list_rep V m' q'"
proof -
  have lists: "is_list m' (Head g) (map Elem (q' g))" for g
  proof (cases "g = h")
    case True
    then show ?thesis using l by simp
  next
    case False
    have "m' x = m x" if "x \<in> set (Head g # map Elem (q g))" for x
      using that False same [OF False] r
      by (intro frame) (auto simp: list_rep_def dest: wf_queuesD(2))
    then show ?thesis
      using is_list_frame [OF list_rep_nodes [OF r, of g], of m'] same [OF False] by auto
  qed
  have "nxt (m' (Elem a)) = Elem a \<and> prv (m' (Elem a)) = Elem a" if "a \<in> V" "unlinked a q'" for a
  proof (cases "a = e")
    case True
    then show ?thesis using self that by simp
  next
    case False
    have "a \<notin> set (q g)" for g
    proof (cases "g = h")
      case True
      then show ?thesis using that(2) keep False by (auto simp: unlinked_def)
    next
      assume "g \<noteq> h"
      then show ?thesis using that(2) same [of g] by (metis unlinked_def)
    qed
    then have "unlinked a q" "m' (Elem a) = m (Elem a)"
      using False by (auto simp: unlinked_def intro!: frame)
    then show ?thesis using r that(1) by (auto simp: list_rep_def)
  qed
  with lists w show ?thesis by (auto simp: list_rep_def)
qed

lemma list_rep_insert_after:
  assumes r: "list_rep V m q" and u: "unlinked e q"
  shows "list_rep V (rt_list_insert_after (Head h) (Elem e) m) (q_insert_after h e q)"
proof (rule list_rep_update [OF r])
  show "wf_queues (q_insert_after h e q)" using r u by (auto simp: list_rep_def)
  show "is_list (rt_list_insert_after (Head h) (Elem e) m) (Head h)
          (map Elem (q_insert_after h e q h))"
    using is_list_insert_after [OF list_rep_nodes [OF r, of h], of "Elem e"] u
    by (auto simp: unlinked_def q_insert_after_def)
  show "x \<notin> insert (Elem e) (set (Head h # map Elem (q h))) \<Longrightarrow>
          rt_list_insert_after (Head h) (Elem e) m x = m x" for x
    using is_list_neighbours(1) [OF list_rep_nodes [OF r], of "Head h" h]
    by (intro insert_after_other) auto
  show "unlinked e (q_insert_after h e q) \<Longrightarrow>
      nxt (rt_list_insert_after (Head h) (Elem e) m (Elem e)) = Elem e \<and>
      prv (rt_list_insert_after (Head h) (Elem e) m (Elem e)) = Elem e"
    by (auto simp: unlinked_def q_insert_after_def dest!: spec [of _ h])
qed (use u in \<open>auto simp: q_insert_after_def unlinked_def\<close>)

lemma list_rep_insert_before:
  assumes r: "list_rep V m q" and u: "unlinked e q"
  shows "list_rep V (rt_list_insert_before (Head h) (Elem e) m) (q_insert_before h e q)"
proof (rule list_rep_update [OF r])
  show "wf_queues (q_insert_before h e q)" using r u by (auto simp: list_rep_def)
  show "is_list (rt_list_insert_before (Head h) (Elem e) m) (Head h)
          (map Elem (q_insert_before h e q h))"
    using is_list_insert_before [of m "Head h" "map Elem (q h)" "[]" "Elem e"]
      list_rep_nodes [OF r, of h] u
    by (auto simp: unlinked_def q_insert_before_def)
  show "x \<notin> insert (Elem e) (set (Head h # map Elem (q h))) \<Longrightarrow>
          rt_list_insert_before (Head h) (Elem e) m x = m x" for x
    using is_list_neighbours(2) [OF list_rep_nodes [OF r], of "Head h" h]
    by (intro insert_before_other) auto
  show "unlinked e (q_insert_before h e q) \<Longrightarrow>
      nxt (rt_list_insert_before (Head h) (Elem e) m (Elem e)) = Elem e \<and>
      prv (rt_list_insert_before (Head h) (Elem e) m (Elem e)) = Elem e"
    by (auto simp: unlinked_def q_insert_before_def dest!: spec [of _ h])
qed (use u in \<open>auto simp: q_insert_before_def unlinked_def\<close>)

lemma list_rep_insert_before_elem:
  assumes r: "list_rep V m q" and u: "unlinked e q" and y: "y \<in> set (q h)"
  shows "list_rep V (rt_list_insert_before (Elem y) (Elem e) m) (q_insert_before_elem y e q)"
proof -
  have wf: "wf_queues q" using r by (simp add: list_rep_def)
  then obtain us vs where q: "q h = us @ y # vs" "y \<notin> set us"
    using y by (metis split_list_first)
  have new: "q_insert_before_elem y e q h = us @ e # y # vs"
    by (simp add: q_insert_before_elem_def q insert_in_front_split)
  have fresh: "e \<notin> set (us @ y # vs)" using u q by (metis unlinked_def)
  have other: "q_insert_before_elem y e q g = q g" if "g \<noteq> h" for g
    using wf y that
    by (auto simp: q_insert_before_elem_def wf_queues_def intro!: insert_in_front_id)
  show ?thesis
  proof (rule list_rep_update [OF r, where h = h and e = e])
    show "wf_queues (q_insert_before_elem y e q)" using wf u by auto
    show "is_list (rt_list_insert_before (Elem y) (Elem e) m) (Head h)
            (map Elem (q_insert_before_elem y e q h))"
    proof -
      have "is_list m (Head h) (map Elem us @ map Elem (y # vs))"
        using list_rep_nodes [OF r, of h] by (simp only: q map_append)
      then have "is_list (rt_list_insert_before (Elem y) (Elem e) m) (Head h)
          (map Elem us @ Elem e # map Elem (y # vs))"
        by (rule is_list_insert_before) (use fresh in auto)
      then show ?thesis by (simp only: new map_append list.map)
    qed
    show "x \<notin> insert (Elem e) (set (Head h # map Elem (q h))) \<Longrightarrow>
            rt_list_insert_before (Elem y) (Elem e) m x = m x" for x
      using is_list_neighbours(2) [OF list_rep_nodes [OF r], of "Elem y" h] y
      by (intro insert_before_other) auto
    show "unlinked e (q_insert_before_elem y e q) \<Longrightarrow>
      nxt (rt_list_insert_before (Elem y) (Elem e) m (Elem e)) = Elem e \<and>
      prv (rt_list_insert_before (Elem y) (Elem e) m (Elem e)) = Elem e"
      using new by (auto simp: unlinked_def dest!: spec [of _ h])
  qed (use u q new other in \<open>auto simp: unlinked_def\<close>)
qed

lemma list_rep_remove:
  assumes r: "list_rep V m q" and e: "e \<in> V"
  shows "list_rep V (rt_list_remove (Elem e) m) (q_remove e q)"
proof (cases "unlinked e q")
  case True
  then have "nxt (m (Elem e)) = Elem e" "prv (m (Elem e)) = Elem e"
    using r e by (auto simp: list_rep_def)
  then have "rt_list_remove (Elem e) m = m"
    by (auto simp: rt_list_remove_def Let_def set_nxt_def set_prv_def fun_eq_iff)
  then show ?thesis using r True by (simp add: q_remove_unlinked)
next
  case False
  have wf: "wf_queues q" using r by (simp add: list_rep_def)
  obtain h where h: "e \<in> set (q h)" using False by (auto simp: unlinked_def)
  then obtain us vs where q: "q h = us @ e # vs" by (meson split_list)
  have d: "e \<notin> set us" "e \<notin> set vs" using wf_queuesD(1) [OF wf, of h] q by auto
  have other: "e \<notin> set (q g)" if "g \<noteq> h" for g using wf h that by (auto simp: wf_queues_def)
  have l: "is_list m (Head h) (map Elem us @ Elem e # map Elem vs)"
    using list_rep_nodes [OF r, of h] q by simp
  have nx: "nxt (m (Elem e)) \<noteq> Elem e" by (rule is_list_nxt_neq [OF l])
  show ?thesis
  proof (rule list_rep_update [OF r, where h = h and e = e])
    show "wf_queues (q_remove e q)" using wf by auto
    show "is_list (rt_list_remove (Elem e) m) (Head h) (map Elem (q_remove e q h))"
      using is_list_remove [OF l] q d by (simp add: q_remove_def)
    show "x \<notin> insert (Elem e) (set (Head h # map Elem (q h))) \<Longrightarrow>
            rt_list_remove (Elem e) m x = m x" for x
      using is_list_neighbours [OF list_rep_nodes [OF r], of "Elem e" h] h
      by (intro remove_other) auto
    show "nxt (rt_list_remove (Elem e) m (Elem e)) = Elem e \<and>
          prv (rt_list_remove (Elem e) m (Elem e)) = Elem e"
      using nx by (simp add: nxt_remove prv_remove)
  qed (use other in \<open>auto simp: q_remove_def\<close>)
qed

interpretation ptr_service: list_service
  "list_rep V" V "\<lambda>h e. rt_list_insert_after (Head h) (Elem e)"
  "\<lambda>h e. rt_list_insert_before (Head h) (Elem e)"
  "\<lambda>y e. rt_list_insert_before (Elem y) (Elem e)" "\<lambda>e. rt_list_remove (Elem e)"
  for V
proof unfold_locales
  show "list_rep V m q \<Longrightarrow> wf_queues q" for m q by (simp add: list_rep_def)
qed (blast intro: list_rep_insert_after list_rep_insert_before list_rep_insert_before_elem
       list_rep_remove)+

text \<open>Freshly initialised nodes represent empty queues.\<close>

lemma rt_list_init_self:
  "nxt (rt_list_init l m l) = l" "prv (rt_list_init l m l) = l"
  by (simp_all add: rt_list_init_def Let_def)

lemma list_rep_empty:
  assumes "\<And>n. nxt (m n) = n" "\<And>n. prv (m n) = n"
  shows "list_rep V m (\<lambda>_. [])"
  using assms by (simp add: list_rep_def is_list_def linked_def wf_queues_def)

lemma list_rep_walk:
  "list_rep V m q \<Longrightarrow> rt_list_walk m (Head h) (nxt (m (Head h))) = Some (map Elem (q h))"
  using list_rep_nodes [of V m q h] by (auto simp: is_list_def intro!: rt_list_walk_chain)

lemma list_rep_isempty: "list_rep V m q \<Longrightarrow> rt_list_isempty (Head h) m \<longleftrightarrow> q h = []"
  using is_list_isempty [OF list_rep_nodes] by fastforce

section \<open>Properties\<close>

text \<open>
  C38. Every sequence of the inline list functions of \<open>rtservice.h\<close>, applied to nodes whose pointers
  form the lists \<open>q\<close> and inserting only nodes that are on no list at that moment, leaves pointers
  that form exactly the lists the queue functions compute; on each of them the kernel's traversal
  loop terminates and visits precisely the linked elements in order, and \<open>rt_list_isempty\<close> answers
  correctly.
\<close>

theorem rt_list_functions_refine_queues:
  fixes m :: "('h, 'e) node links"
  assumes "list_rep V m q" "legal_ops V os q"
  defines "m' \<equiv> run_list_ops (\<lambda>h e. rt_list_insert_after (Head h) (Elem e))
      (\<lambda>h e. rt_list_insert_before (Head h) (Elem e))
      (\<lambda>y e. rt_list_insert_before (Elem y) (Elem e)) (\<lambda>e. rt_list_remove (Elem e)) os m"
  shows "list_rep V m' (run_q_ops os q) \<and>
    (\<forall>h. rt_list_walk m' (Head h) (nxt (m' (Head h))) = Some (map Elem (run_q_ops os q h)) \<and>
         (rt_list_isempty (Head h) m' \<longleftrightarrow> run_q_ops os q h = []))"
proof -
  have "list_rep V m' (run_q_ops os q)"
    unfolding m'_def by (rule ptr_service.rep_run_ops [OF assms(1,2)])
  then show ?thesis by (intro conjI allI list_rep_walk list_rep_isempty) assumption+
qed

theorem rt_list_functions_refine_queues_witness:
  "(let m' = run_list_ops (\<lambda>h e. rt_list_insert_after (Head h) (Elem e))
        (\<lambda>h e. rt_list_insert_before (Head h) (Elem e))
        (\<lambda>y e. rt_list_insert_before (Elem y) (Elem e)) (\<lambda>e. rt_list_remove (Elem e))
        [Push_back 0 10, Push_front 0 11, Put_before 10 12, Push_back 1 13, Unlink 11]
        (\<lambda>n. \<lparr>nxt = n, prv = n\<rparr>)
    in rt_list_walk m' (Head (0::nat)) (nxt (m' (Head 0)))) = Some [Elem (12::nat), Elem 10]"
proof -
  let ?m = "\<lambda>n :: (nat, nat) node. \<lparr>nxt = n, prv = n\<rparr>"
  let ?os = "[Push_back 0 10, Push_front 0 11, Put_before 10 12, Push_back 1 13, Unlink 11]
     :: (nat, nat) list_op list"
  note q_defs = q_insert_before_def q_insert_after_def q_insert_before_elem_def q_remove_def
  have rep: "list_rep UNIV ?m (\<lambda>_. [])" by (rule list_rep_empty) simp_all
  have legal: "legal_ops UNIV ?os (\<lambda>_. [])"
    by (auto simp: unlinked_def q_defs intro: exI [of _ 0])
  have "run_q_ops ?os (\<lambda>_. []) 0 = [12, 10]" by (simp add: q_defs)
  with rt_list_functions_refine_queues [OF rep legal, THEN conjunct2, THEN spec, of 0]
  show ?thesis by (simp only: Let_def list.map)
qed

end
