(* ===== verification/Kservice.thy ===== *)
theory Kservice
  imports RT_Prelude
begin

text \<open>
  The service routines of \<open>src/src/kservice.c\<close> that the kernel is built on: the memory and string
  functions over a byte memory of 32-bit addresses (little endian, \<open>char\<close> unsigned, as on the ARM
  targets of the build), and the bit search the scheduler picks the next priority with.

  Each optimised routine is proved equal to a reference definition: \<open>fill\<close> for \<open>rt_memset\<close>,
  \<open>copy\<close> for \<open>rt_memcpy\<close> and \<open>rt_memmove\<close>, and the lowest set bit for \<open>__rt_ffs\<close>.
\<close>

section \<open>Byte memory\<close>

type_synonym bytes = "ptr \<Rightarrow> u8"

definition load32 :: "bytes \<Rightarrow> ptr \<Rightarrow> u32" where
  "load32 m p = ucast (m p) OR push_bit 8 (ucast (m (p + 1))) OR
     push_bit 16 (ucast (m (p + 2))) OR push_bit 24 (ucast (m (p + 3)))"

definition store32 :: "ptr \<Rightarrow> u32 \<Rightarrow> bytes \<Rightarrow> bytes" where
  "store32 p v m = m(p := ucast v, p + 1 := ucast (drop_bit 8 v),
     p + 2 := ucast (drop_bit 16 v), p + 3 := ucast (drop_bit 24 v))"

section \<open>\<open>rt_memset\<close>\<close>

text \<open>\<open>while (count--) *m++ = (char)d;\<close>\<close>

function memset_bytes :: "u32 \<Rightarrow> ptr \<Rightarrow> u8 \<Rightarrow> bytes \<Rightarrow> bytes" where
  "memset_bytes count p d m =
     (if count = 0 then m else memset_bytes (count - 1) (p + 1) d (m(p := d)))"
  by auto
termination by (relation "measure (\<lambda>(count, _). unat count)") (auto simp: unat_minus_one unat_gt_0)

text \<open>\<open>while (count >= LBLOCKSIZE * 4) { ... }\<close>: four words per round.\<close>

function memset_blocks :: "u32 \<Rightarrow> ptr \<Rightarrow> u32 \<Rightarrow> bytes \<Rightarrow> u32 \<times> ptr \<times> bytes" where
  "memset_blocks count a buffer m =
     (if 16 \<le> count
      then memset_blocks (count - 16) (a + 16) buffer
             (store32 (a + 12) buffer (store32 (a + 8) buffer
               (store32 (a + 4) buffer (store32 a buffer m))))
      else (count, a, m))"
  by auto
termination
  by (relation "measure (\<lambda>(count, _). unat count)") (auto simp: unat_sub word_le_nat_alt)

text \<open>\<open>while (count >= LBLOCKSIZE) { ... }\<close>: one word per round.\<close>

function memset_words :: "u32 \<Rightarrow> ptr \<Rightarrow> u32 \<Rightarrow> bytes \<Rightarrow> u32 \<times> ptr \<times> bytes" where
  "memset_words count a buffer m =
     (if 4 \<le> count then memset_words (count - 4) (a + 4) buffer (store32 a buffer m)
      else (count, a, m))"
  by auto
termination
  by (relation "measure (\<lambda>(count, _). unat count)") (auto simp: unat_sub word_le_nat_alt)

declare memset_bytes.simps [simp del] memset_blocks.simps [simp del] memset_words.simps [simp del]

definition rt_memset :: "ptr \<Rightarrow> u32 \<Rightarrow> u32 \<Rightarrow> bytes \<Rightarrow> bytes" where
  "rt_memset s c count m =
     (let d = c AND 0xff in
      if \<not> count < 4 \<and> s AND 3 = 0
      then let buffer0 = push_bit 8 d OR d;
               buffer = buffer0 OR push_bit 16 buffer0;
               (count1, a1, m1) = memset_blocks count s buffer m;
               (count2, a2, m2) = memset_words count1 a1 buffer m1
           in memset_bytes count2 a2 (ucast d) m2
      else memset_bytes count s (ucast d) m)"

text \<open>The reference: the bytes at distance less than \<open>n\<close> from \<open>p\<close> are set.\<close>

definition fill :: "ptr \<Rightarrow> nat \<Rightarrow> u8 \<Rightarrow> bytes \<Rightarrow> bytes" where
  "fill p n d m = (\<lambda>a. if unat (a - p) < n then d else m a)"

lemma unat_diff_of_nat:
  fixes x :: u32
  assumes "k \<le> unat x"
  shows "unat (x - of_nat k) = unat x - k"
proof -
  have "k < 2 ^ 32" using assms unat_u32_less [of x] by simp
  then have "unat (of_nat k :: u32) = k" by (simp add: unat_of_nat take_bit_nat_eq_self)
  then show ?thesis using assms by (simp add: unat_sub word_le_nat_alt)
qed

lemma unat_diff_of_nat_wrap:
  fixes x :: u32
  assumes "unat x < k" "k \<le> 2 ^ 32"
  shows "unat (x - of_nat k) = 2 ^ 32 - k + unat x"
proof -
  have "x - of_nat k = of_nat (2 ^ 32 - k + unat x)"
    using assms(2) by (simp add: of_nat_diff)
  moreover have "2 ^ 32 - k + unat x < 2 ^ 32" using assms by simp
  ultimately show ?thesis by (simp only: unat_of_nat) (simp add: take_bit_nat_eq_self)
qed

lemma fill_append: "fill (p + of_nat k) n d (fill p k d m) = fill p (k + n) d m"
proof (rule ext)
  fix a
  have "unat (a - (p + of_nat k)) = unat (a - p) - k" if "k \<le> unat (a - p)"
    using unat_diff_of_nat [OF that] by (simp add: diff_diff_eq)
  then show "fill (p + of_nat k) n d (fill p k d m) a = fill p (k + n) d m a"
    by (cases "k \<le> unat (a - p)") (auto simp: fill_def)
qed

lemma fill_0 [simp]: "fill p 0 d m = m"
  by (simp add: fill_def)

lemma fill_1: "m(p := d) = fill p 1 d m"
  by (auto simp: fill_def fun_eq_iff unat_eq_zero)

lemma fill_4:
  assumes "buffer = (push_bit 8 d OR d) OR push_bit 16 (push_bit 8 d OR d)" "d = c AND 0xff"
  shows "store32 p buffer m = fill p 4 (ucast d) m"
proof -
  have e: "ucast buffer = (ucast d :: u8)" "ucast (drop_bit 8 buffer) = (ucast d :: u8)"
    "ucast (drop_bit 16 buffer) = (ucast d :: u8)" "ucast (drop_bit 24 buffer) = (ucast d :: u8)"
    unfolding assms by (rule bit_word_eqI; auto simp: bit_simps)+
  have "store32 p buffer m =
      fill (p + of_nat 3) 1 (ucast d) (fill (p + of_nat 2) 1 (ucast d)
        (fill (p + of_nat 1) 1 (ucast d) (fill p 1 (ucast d) m)))"
    by (simp add: store32_def e fill_1)
  also have "\<dots> = fill p 4 (ucast d) m"
    using fill_append [of p 1 1] fill_append [of p 2 1] fill_append [of p 3 1]
    by (simp add: eval_nat_numeral)
  finally show ?thesis .
qed

lemma memset_bytes_fill: "memset_bytes count p d m = fill p (unat count) d m"
proof (induction count p d m rule: memset_bytes.induct)
  case (1 count p d m)
  show ?case
  proof (cases "count = 0")
    case False
    then have "unat count = Suc (unat (count - 1))" by (simp add: unat_minus_one unat_gt_0)
    with 1 [OF False] False fill_append [of p 1 "unat (count - 1)" d m] show ?thesis
      by (subst memset_bytes.simps) (simp add: fill_1)
  qed (simp add: memset_bytes.simps)
qed

text \<open>A word loop sets a whole prefix and hands over what is left.\<close>

lemma memset_words_fill:
  "memset_words count a buffer m = (count', a', m') \<Longrightarrow>
   (\<And>q m'. store32 q buffer m' = fill q 4 d m') \<Longrightarrow>
   fill a' (unat count') d m' = fill a (unat count) d m"
proof (induction count a buffer m rule: memset_words.induct)
  case (1 count a buffer m)
  show ?case
  proof (cases "4 \<le> count")
    case True
    then have "fill a' (unat count') d m' = fill (a + 4) (unat (count - 4)) d (store32 a buffer m)"
      using 1 by (subst (asm) memset_words.simps) simp
    then show ?thesis using True fill_append [of a 4 "unat (count - 4)" d m] 1(3)
      by (simp add: unat_sub word_le_nat_alt)
  next
    case False
    then show ?thesis using 1(2) by (subst (asm) memset_words.simps) simp
  qed
qed

lemma fill_16:
  assumes "\<And>q m'. store32 q buffer m' = fill q 4 d m'"
  shows "store32 (a + 12) buffer (store32 (a + 8) buffer
           (store32 (a + 4) buffer (store32 a buffer m))) = fill a 16 d m"
  using fill_append [of a 4 4 d] fill_append [of a 8 4 d] fill_append [of a 12 4 d]
  by (simp add: assms)

lemma memset_blocks_fill:
  "memset_blocks count a buffer m = (count', a', m') \<Longrightarrow>
   (\<And>q m'. store32 q buffer m' = fill q 4 d m') \<Longrightarrow>
   fill a' (unat count') d m' = fill a (unat count) d m"
proof (induction count a buffer m rule: memset_blocks.induct)
  case (1 count a buffer m)
  show ?case
  proof (cases "16 \<le> count")
    case True
    have "memset_blocks (count - 16) (a + 16) buffer (fill a 16 d m) = (count', a', m')"
      using 1(2) True by (subst (asm) memset_blocks.simps) (simp only: if_True fill_16 [OF 1(3)])
    with 1(1) [OF True, unfolded fill_16 [OF 1(3)], OF _ 1(3)]
    have "fill a' (unat count') d m' = fill (a + 16) (unat (count - 16)) d (fill a 16 d m)" by blast
    then show ?thesis using True fill_append [of a 16 "unat (count - 16)" d m]
      by (simp add: unat_sub word_le_nat_alt)
  next
    case False
    then show ?thesis using 1(2) by (subst (asm) memset_blocks.simps) simp
  qed
qed

lemma rt_memset_fill: "rt_memset s c count m = fill s (unat count) (ucast c) m"
proof -
  define dd where "dd = c AND 0xff"
  let ?d = dd
  let ?b = "(push_bit 8 ?d OR ?d) OR push_bit 16 (push_bit 8 ?d OR ?d)"
  have d: "ucast ?d = (ucast c :: u8)"
    unfolding dd_def and_0xff by (rule bit_word_eqI) (auto simp: bit_simps)
  have w: "store32 q ?b m' = fill q 4 (ucast ?d) m'" for q m'
    by (rule fill_4 [OF _ dd_def]) (rule refl)
  obtain c1 a1 m1 where 1: "memset_blocks count s ?b m = (c1, a1, m1)" by (metis prod_cases3)
  obtain c2 a2 m2 where 2: "memset_words c1 a1 ?b m1 = (c2, a2, m2)" by (metis prod_cases3)
  from memset_blocks_fill [OF 1 w] memset_words_fill [OF 2 w] show ?thesis
    by (simp only: rt_memset_def Let_def 1 2 prod.case memset_bytes_fill d if_cancel flip: dd_def)
qed

section \<open>\<open>rt_memcpy\<close> and \<open>rt_memmove\<close>\<close>

text \<open>\<open>while (len--) *dst_ptr++ = *src_ptr++;\<close>\<close>

function memcpy_bytes :: "u32 \<Rightarrow> ptr \<Rightarrow> ptr \<Rightarrow> bytes \<Rightarrow> bytes" where
  "memcpy_bytes len d s m =
     (if len = 0 then m else memcpy_bytes (len - 1) (d + 1) (s + 1) (m(d := m s)))"
  by auto
termination by (relation "measure (\<lambda>(len, _). unat len)") (auto simp: unat_minus_one unat_gt_0)

definition copy_word :: "ptr \<Rightarrow> ptr \<Rightarrow> bytes \<Rightarrow> bytes" where
  "copy_word d s m = store32 d (load32 m s) m"

function memcpy_blocks :: "u32 \<Rightarrow> ptr \<Rightarrow> ptr \<Rightarrow> bytes \<Rightarrow> u32 \<times> ptr \<times> ptr \<times> bytes" where
  "memcpy_blocks len d s m =
     (if 16 \<le> len
      then memcpy_blocks (len - 16) (d + 16) (s + 16)
             (copy_word (d + 12) (s + 12) (copy_word (d + 8) (s + 8)
               (copy_word (d + 4) (s + 4) (copy_word d s m))))
      else (len, d, s, m))"
  by auto
termination by (relation "measure (\<lambda>(len, _). unat len)") (auto simp: unat_sub word_le_nat_alt)

function memcpy_words :: "u32 \<Rightarrow> ptr \<Rightarrow> ptr \<Rightarrow> bytes \<Rightarrow> u32 \<times> ptr \<times> ptr \<times> bytes" where
  "memcpy_words len d s m =
     (if 4 \<le> len then memcpy_words (len - 4) (d + 4) (s + 4) (copy_word d s m) else (len, d, s, m))"
  by auto
termination by (relation "measure (\<lambda>(len, _). unat len)") (auto simp: unat_sub word_le_nat_alt)

text \<open>\<open>len\<close> is an \<open>int\<close> compared with the unsigned \<open>sizeof\<close>, so all comparisons are unsigned.\<close>

definition rt_memcpy :: "ptr \<Rightarrow> ptr \<Rightarrow> u32 \<Rightarrow> bytes \<Rightarrow> bytes" where
  "rt_memcpy dst src count m =
     (if \<not> count < 16 \<and> (src AND 3) OR (dst AND 3) = 0
      then let (len1, d1, s1, m1) = memcpy_blocks count dst src m;
               (len2, d2, s2, m2) = memcpy_words len1 d1 s1 m1
           in memcpy_bytes len2 d2 s2 m2
      else memcpy_bytes count dst src m)"

text \<open>\<open>while (n--) *(--tmp) = *(--s);\<close>\<close>

function memmove_back :: "u32 \<Rightarrow> ptr \<Rightarrow> ptr \<Rightarrow> bytes \<Rightarrow> bytes" where
  "memmove_back n tmp s m =
     (if n = 0 then m
      else memmove_back (n - 1) (tmp - 1) (s - 1) (m(tmp - 1 := m (s - 1))))"
  by auto
termination by (relation "measure (\<lambda>(n, _). unat n)") (auto simp: unat_minus_one unat_gt_0)

declare memcpy_bytes.simps [simp del] memcpy_blocks.simps [simp del] memcpy_words.simps [simp del]
  memmove_back.simps [simp del]

definition rt_memmove :: "ptr \<Rightarrow> ptr \<Rightarrow> u32 \<Rightarrow> bytes \<Rightarrow> bytes" where
  "rt_memmove dest src n m =
     (if src < dest \<and> dest < src + n then memmove_back n (dest + n) (src + n) m
      else memcpy_bytes n dest src m)"

text \<open>The reference: all source bytes are read before any byte is written.\<close>

definition copy :: "ptr \<Rightarrow> ptr \<Rightarrow> nat \<Rightarrow> bytes \<Rightarrow> bytes" where
  "copy d s n m = (\<lambda>a. if unat (a - d) < n then m (s + (a - d)) else m a)"

text \<open>A forward copy may start below its source or at least \<open>n\<close> bytes above it.\<close>

definition fwd_safe :: "ptr \<Rightarrow> ptr \<Rightarrow> nat \<Rightarrow> bool" where
  "fwd_safe d s n \<longleftrightarrow> n \<le> 2 ^ 32 \<and> (d = s \<or> n \<le> unat (d - s))"

lemma copy_0 [simp]: "copy d s 0 m = m"
  by (simp add: copy_def)

lemma copy_1: "m(d := m s) = copy d s 1 m"
  by (auto simp: copy_def fun_eq_iff unat_eq_zero)

lemma fwd_safe_mono: "fwd_safe d s n \<Longrightarrow> k \<le> n \<Longrightarrow> fwd_safe d s k"
  by (auto simp: fwd_safe_def)

lemma fwd_safe_shift: "fwd_safe (d + k) (s + k) n \<longleftrightarrow> fwd_safe d s n"
  by (simp add: fwd_safe_def)

lemma unat_minus_wrap:
  fixes x y :: u32
  assumes "unat x < unat y"
  shows "unat (x - y) = 2 ^ 32 - unat y + unat x"
  using unat_diff_of_nat_wrap [OF assms] unat_u32_less [of y] by simp

lemma copy_append:
  assumes "fwd_safe d s (k + n)"
  shows "copy (d + of_nat k) (s + of_nat k) n (copy d s k m) = copy d s (k + n) m"
proof (rule ext)
  fix a
  define x where "x = a - d"
  have a: "a - (d + of_nat k) = x - of_nat k" "s + of_nat k + (x - of_nat k) = s + x"
    "s + x - d = x - (d - s)" by (simp_all add: x_def)
  show "copy (d + of_nat k) (s + of_nat k) n (copy d s k m) a = copy d s (k + n) m a"
  proof (cases "unat x < k")
    case True
    then have "\<not> unat (x - of_nat k) < n"
      using unat_diff_of_nat_wrap [of x k] assms by (auto simp: fwd_safe_def)
    then show ?thesis using True by (simp add: copy_def a flip: x_def)
  next
    case False
    then have x: "unat (x - of_nat k) = unat x - k" by (intro unat_diff_of_nat) simp
    have "\<not> unat (x - (d - s)) < k" if "unat x < k + n"
    proof (cases "d = s")
      case False
      then have "unat x < unat (d - s)" using that assms by (simp add: fwd_safe_def)
      then show ?thesis using unat_minus_wrap [of x "d - s"] unat_u32_less [of "d - s"] \<open>\<not> unat x < k\<close>
        by simp
    qed (use False in simp)
    then show ?thesis using False by (simp add: copy_def a x flip: x_def) linarith
  qed
qed

lemma unat_less_4: "unat (x :: u32) < 4 \<longleftrightarrow> x = 0 \<or> x = 1 \<or> x = 2 \<or> x = 3"
proof
  assume "unat x < 4"
  then have "unat x = 0 \<or> unat x = 1 \<or> unat x = 2 \<or> unat x = 3" by auto
  then show "x = 0 \<or> x = 1 \<or> x = 2 \<or> x = 3" by (simp add: word_unat_eq_iff)
qed auto

lemma copy_word_copy: "copy_word d s m = copy d s 4 m"
proof -
  have byte: "ucast (load32 m s) = m s" "ucast (drop_bit 8 (load32 m s)) = m (s + 1)"
    "ucast (drop_bit 16 (load32 m s)) = m (s + 2)" "ucast (drop_bit 24 (load32 m s)) = m (s + 3)"
    unfolding load32_def
    by (rule bit_word_eqI; auto simp: bit_simps dest: bit_imp_le_length)+
  show ?thesis
  proof (rule ext)
    fix a
    define x where "x = a - d"
    have a: "a = d + x" by (simp add: x_def)
    show "copy_word d s m a = copy d s 4 m a"
      unfolding a copy_word_def store32_def copy_def byte by (auto simp: unat_less_4)
  qed
qed

lemma memcpy_bytes_copy:
  "fwd_safe d s (unat len) \<Longrightarrow> memcpy_bytes len d s m = copy d s (unat len) m"
proof (induction len d s m rule: memcpy_bytes.induct)
  case (1 len d s m)
  show ?case
  proof (cases "len = 0")
    case False
    then have len: "unat len = Suc (unat (len - 1))" by (simp add: unat_minus_one unat_gt_0)
    then have "fwd_safe (d + 1) (s + 1) (unat (len - 1))"
      unfolding fwd_safe_shift by (intro fwd_safe_mono [OF 1(2)]) simp
    with 1(1) [OF False] False len copy_append [of d s 1 "unat (len - 1)" m] 1(2) show ?thesis
      by (subst memcpy_bytes.simps) (simp add: copy_1)
  qed (simp add: memcpy_bytes.simps)
qed

lemma memcpy_words_copy:
  "memcpy_words len d s m = (len', d', s', m') \<Longrightarrow> fwd_safe d s (unat len) \<Longrightarrow>
   fwd_safe d' s' (unat len') \<and> copy d' s' (unat len') m' = copy d s (unat len) m"
proof (induction len d s m rule: memcpy_words.induct)
  case (1 len d s m)
  show ?case
  proof (cases "4 \<le> len")
    case True
    then have len: "unat len = 4 + unat (len - 4)" by (simp add: unat_sub word_le_nat_alt)
    then have "fwd_safe (d + 4) (s + 4) (unat (len - 4))"
      unfolding fwd_safe_shift by (intro fwd_safe_mono [OF 1(3)]) simp
    moreover have "memcpy_words (len - 4) (d + 4) (s + 4) (copy_word d s m) = (len', d', s', m')"
      using 1(2) True by (subst (asm) memcpy_words.simps) simp
    ultimately show ?thesis
      using 1(1) [OF True] copy_append [of d s 4 "unat (len - 4)" m] 1(3) len
      by (simp add: copy_word_copy)
  next
    case False
    then show ?thesis using 1(2,3) by (subst (asm) memcpy_words.simps) simp
  qed
qed

lemma copy_16:
  assumes "fwd_safe d s 16"
  shows "copy_word (d + 12) (s + 12) (copy_word (d + 8) (s + 8)
           (copy_word (d + 4) (s + 4) (copy_word d s m))) = copy d s 16 m"
  using copy_append [of d s 4 4] copy_append [of d s 8 4] copy_append [of d s 12 4]
    fwd_safe_mono [OF assms, of 8] fwd_safe_mono [OF assms, of 12] assms
  by (simp add: copy_word_copy)

lemma memcpy_blocks_copy:
  "memcpy_blocks len d s m = (len', d', s', m') \<Longrightarrow> fwd_safe d s (unat len) \<Longrightarrow>
   fwd_safe d' s' (unat len') \<and> copy d' s' (unat len') m' = copy d s (unat len) m"
proof (induction len d s m rule: memcpy_blocks.induct)
  case (1 len d s m)
  show ?case
  proof (cases "16 \<le> len")
    case True
    then have len: "unat len = 16 + unat (len - 16)" by (simp add: unat_sub word_le_nat_alt)
    then have "fwd_safe d s 16" by (intro fwd_safe_mono [OF 1(3)]) simp
    note c = copy_16 [OF this, of m]
    have "fwd_safe (d + 16) (s + 16) (unat (len - 16))"
      unfolding fwd_safe_shift using len by (intro fwd_safe_mono [OF 1(3)]) simp
    moreover have "memcpy_blocks (len - 16) (d + 16) (s + 16) (copy d s 16 m) = (len', d', s', m')"
      using 1(2) True by (subst (asm) memcpy_blocks.simps) (simp only: if_True c)
    ultimately show ?thesis
      using 1(1) [OF True, unfolded c] copy_append [of d s 16 "unat (len - 16)" m] 1(3) len
      by simp
  next
    case False
    then show ?thesis using 1(2,3) by (subst (asm) memcpy_blocks.simps) simp
  qed
qed

lemma rt_memcpy_copy:
  assumes "fwd_safe dst src (unat count)"
  shows "rt_memcpy dst src count m = copy dst src (unat count) m"
proof -
  obtain l1 d1 s1 m1 where 1: "memcpy_blocks count dst src m = (l1, d1, s1, m1)"
    by (metis prod_cases4)
  obtain l2 d2 s2 m2 where 2: "memcpy_words l1 d1 s1 m1 = (l2, d2, s2, m2)"
    by (metis prod_cases4)
  show ?thesis
    using memcpy_blocks_copy [OF 1 assms] memcpy_words_copy [OF 2] memcpy_bytes_copy assms
    by (simp add: rt_memcpy_def 1 2)
qed

text \<open>The backward loop is the mirror image: safe when the source is not just above.\<close>

lemma memmove_back_copy:
  "s = d \<or> unat n \<le> unat (s - d) \<Longrightarrow>
   memmove_back n (d + n) (s + n) m = copy d s (unat n) m"
proof (induction "unat n" arbitrary: n m)
  case 0
  then show ?case by (simp add: memmove_back.simps unat_eq_zero)
next
  case (Suc k)
  have n0: "n \<noteq> 0" using Suc(2) by auto
  with Suc(2) have n: "n \<noteq> 0" "unat (n - 1) = k" "unat n = Suc k" by (simp_all add: unat_minus_one)
  let ?m = "m(d + (n - 1) := m (s + (n - 1)))"
  have "memmove_back n (d + n) (s + n) m = memmove_back (n - 1) (d + (n - 1)) (s + (n - 1)) ?m"
    using n by (subst memmove_back.simps) (simp add: add_diff_eq)
  also have "\<dots> = copy d s k ?m"
    using Suc(1) [of "n - 1" ?m] Suc(3) n by fastforce
  also have "\<dots> = copy d s (unat n) m"
  proof (rule ext)
    fix a
    define x where "x = a - d"
    have a: "a = d + x" "s + x = d + (x + (s - d))" by (simp_all add: x_def)
    have nx: "x = n - 1 \<longleftrightarrow> unat x = k" using n(2) by (auto simp: word_unat_eq_iff)
    have "s + x \<noteq> d + (n - 1)" if "unat x < k"
    proof (cases "s = d")
      case False
      then have far: "unat n \<le> unat (s - d)" using Suc(3) by simp
      show ?thesis
      proof
        assume "s + x = d + (n - 1)"
        then have "s - d = (n - 1) - x" by (simp add: algebra_simps)
        moreover have "unat ((n - 1) - x) = k - unat x"
          using that n(2) by (simp add: unat_sub word_le_nat_alt)
        ultimately show False using far n by simp
      qed
    qed (use that nx in auto)
    then show "copy d s k ?m a = copy d s (unat n) m a"
      using nx n(3) by (auto simp: copy_def a(1) less_Suc_eq)
  qed
  finally show ?case .
qed

lemma rt_memmove_copy:
  assumes "unat src + unat n < 2 ^ 32" "unat dest + unat n < 2 ^ 32"
  shows "rt_memmove dest src n m = copy dest src (unat n) m"
proof (cases "src < dest \<and> dest < src + n")
  case True
  have "unat (src - dest) = 2 ^ 32 - unat dest + unat src"
    using True by (intro unat_minus_wrap) (simp add: word_less_nat_alt)
  then have "unat n \<le> unat (src - dest)" using assms by simp
  then show ?thesis using True memmove_back_copy [of src dest n m] by (simp add: rt_memmove_def)
next
  case False
  have "unat (src + n) = unat src + unat n"
    using assms by (subst unat_add_lem [THEN iffD1]) simp_all
  have "fwd_safe dest src (unat n)"
  proof (cases "src < dest")
    case True
    then have "unat (dest - src) = unat dest - unat src" by (simp add: unat_sub)
    moreover have "unat src + unat n \<le> unat dest"
      using True False \<open>unat (src + n) = _\<close> by (simp add: word_less_nat_alt)
    ultimately show ?thesis using assms by (auto simp: fwd_safe_def)
  next
    case False
    then consider "dest = src" | "unat dest < unat src" by (fastforce simp: word_less_nat_alt word_unat_eq_iff)
    then show ?thesis
      using unat_minus_wrap [of dest src] assms by cases (auto simp: fwd_safe_def)
  qed
  then show ?thesis using False memcpy_bytes_copy [of dest src n m] by (auto simp: rt_memmove_def)
qed

section \<open>Strings\<close>

lemma unat_pred_pred: "(n :: u32) \<noteq> 1 \<Longrightarrow> unat (n - 2) < unat (n - 1)"
  using unat_minus_one [of "n - 1"] unat_gt_0 [of "n - 1"] by (simp add: diff_diff_eq)

text \<open>\<open>while (--n != 0) *d++ = 0;\<close>\<close>

function strncpy_pad :: "u32 \<Rightarrow> ptr \<Rightarrow> bytes \<Rightarrow> bytes" where
  "strncpy_pad n d m = (if n - 1 = 0 then m else strncpy_pad (n - 1) (d + 1) (m(d := 0)))"
  by auto
termination
  by (relation "measure (\<lambda>(n, _). unat (n - 1))") (auto simp: unat_pred_pred)

function strncpy_loop :: "u32 \<Rightarrow> ptr \<Rightarrow> ptr \<Rightarrow> bytes \<Rightarrow> bytes" where
  "strncpy_loop n d s m =
     (let c = m s; m1 = m(d := c) in
      if c = 0 then strncpy_pad n (d + 1) m1
      else if n - 1 \<noteq> 0 then strncpy_loop (n - 1) (d + 1) (s + 1) m1 else m1)"
  by auto
termination
  by (relation "measure (\<lambda>(n, _). unat (n - 1))") (auto simp: unat_pred_pred)

definition rt_strncpy :: "ptr \<Rightarrow> ptr \<Rightarrow> u32 \<Rightarrow> bytes \<Rightarrow> bytes" where
  "rt_strncpy dst src n m = (if n \<noteq> 0 then strncpy_loop n dst src m else m)"

function strncmp_loop :: "u32 \<Rightarrow> ptr \<Rightarrow> ptr \<Rightarrow> u8 \<Rightarrow> bytes \<Rightarrow> u8" where
  "strncmp_loop count cs ct res m =
     (if count = 0 then res
      else let r = m cs - m ct in
        if r \<noteq> 0 \<or> m cs = 0 then r else strncmp_loop (count - 1) (cs + 1) (ct + 1) r m)"
  by auto
termination by (relation "measure (\<lambda>(count, _). unat count)") (auto simp: unat_minus_one unat_gt_0)

text \<open>The difference is kept in a \<open>signed char\<close> and sign-extended on return.\<close>

definition rt_strncmp :: "ptr \<Rightarrow> ptr \<Rightarrow> u32 \<Rightarrow> bytes \<Rightarrow> u32" where
  "rt_strncmp cs ct count m = scast (strncmp_loop count cs ct 0 m)"

function memcmp_loop :: "u32 \<Rightarrow> ptr \<Rightarrow> ptr \<Rightarrow> u32 \<Rightarrow> bytes \<Rightarrow> u32" where
  "memcmp_loop count su1 su2 res m =
     (if 0 < count
      then let r = ucast (m su1) - ucast (m su2) in
        if r \<noteq> 0 then r else memcmp_loop (count - 1) (su1 + 1) (su2 + 1) r m
      else res)"
  by auto
termination by (relation "measure (\<lambda>(count, _). unat count)") (auto simp: unat_minus_one unat_gt_0)

declare strncpy_pad.simps [simp del] strncpy_loop.simps [simp del] strncmp_loop.simps [simp del]
  memcmp_loop.simps [simp del]

definition rt_memcmp :: "ptr \<Rightarrow> ptr \<Rightarrow> u32 \<Rightarrow> bytes \<Rightarrow> u32" where
  "rt_memcmp cs ct count m = memcmp_loop count cs ct 0 m"

text \<open>\<open>rt_strlen\<close> and \<open>rt_strcmp\<close> run until they meet a NUL, which need not exist.\<close>

partial_function (option) strlen_scan :: "bytes \<Rightarrow> ptr \<Rightarrow> ptr option" where
  "strlen_scan m sc = (if m sc \<noteq> 0 then strlen_scan m (sc + 1) else Some sc)"

definition rt_strlen :: "bytes \<Rightarrow> ptr \<Rightarrow> rt_size_t option" where
  "rt_strlen m s = Option.bind (strlen_scan m s) (\<lambda>sc. Some (sc - s))"

partial_function (option) rt_strcmp :: "bytes \<Rightarrow> ptr \<Rightarrow> ptr \<Rightarrow> u32 option" where
  "rt_strcmp m cs ct =
     (if m cs \<noteq> 0 \<and> m cs = m ct then rt_strcmp m (cs + 1) (ct + 1)
      else Some (ucast (m cs) - ucast (m ct)))"

text \<open>Byte lists: the bytes at an address, a C string in an array of \<open>n\<close> bytes, and the array that
  \<open>rt_strncpy\<close> makes of one.\<close>

fun bytes_at :: "bytes \<Rightarrow> ptr \<Rightarrow> nat \<Rightarrow> u8 list" where
  "bytes_at m p 0 = []"
| "bytes_at m p (Suc n) = m p # bytes_at m (p + 1) n"

definition cstr :: "nat \<Rightarrow> u8 list \<Rightarrow> u8 list" where
  "cstr n bs = takeWhile (\<lambda>c. c \<noteq> 0) (take n bs)"

definition name_copy :: "nat \<Rightarrow> u8 list \<Rightarrow> u8 list" where
  "name_copy n bs = (let t = cstr n bs in t @ replicate (n - length t) 0)"

lemma length_bytes_at [simp]: "length (bytes_at m p n) = n"
  by (induction n arbitrary: p) auto

lemma bytes_at_numeral:
  "bytes_at m p (numeral k) = m p # bytes_at m (p + 1) (pred_numeral k)"
  by (simp add: numeral_eq_Suc)

lemma nth_bytes_at: "i < n \<Longrightarrow> bytes_at m p n ! i = m (p + of_nat i)"
proof (induction n arbitrary: p i)
  case (Suc n)
  then show ?case by (cases i) (auto simp: add.assoc)
qed simp

lemma bytes_at_eqI: "(\<And>i. i < n \<Longrightarrow> m (p + of_nat i) = m' (q + of_nat i)) \<Longrightarrow> bytes_at m p n = bytes_at m' q n"
  by (intro nth_equalityI) (auto simp: nth_bytes_at)

lemma bytes_at_append: "bytes_at m p (k + n) = bytes_at m p k @ bytes_at m (p + of_nat k) n"
  by (induction k arbitrary: p) (auto simp: add.assoc)

lemma unat_of_nat_u32: "i < 2 ^ 32 \<Longrightarrow> unat (of_nat i :: u32) = i"
  by (simp add: unat_of_nat take_bit_nat_eq_self)

lemma bytes_at_fill: "n \<le> 2 ^ 32 \<Longrightarrow> bytes_at (fill p n d m) p n = replicate n d"
  by (intro nth_equalityI) (auto simp: nth_bytes_at fill_def unat_of_nat_u32)

lemma bytes_at_copy: "n \<le> 2 ^ 32 \<Longrightarrow> bytes_at (copy d s n m) d n = bytes_at m s n"
  by (intro bytes_at_eqI) (auto simp: copy_def unat_of_nat_u32)

text \<open>The copy loop: \<open>k\<close> bytes up to the terminator, zeros up to \<open>n\<close>.\<close>

abbreviation "zlen m s n \<equiv> length (cstr n (bytes_at m s n))"

lemma zlen_le: "zlen m s n \<le> n"
  unfolding cstr_def using length_takeWhile_le by (metis length_bytes_at take_all order_refl)

lemma cstr_Cons [simp]: "cstr (Suc n) (c # bs) = (if c = 0 then [] else c # cstr n bs)"
  by (simp add: cstr_def)

lemma cstr_0 [simp]: "cstr 0 bs = []"
  by (simp add: cstr_def)

lemma strncpy_pad_fill: "strncpy_pad n d m = fill d (unat (n - 1)) 0 m"
proof (induction n d m rule: strncpy_pad.induct)
  case (1 n d m)
  show ?case
  proof (cases "n - 1 = 0")
    case False
    then have "unat (n - 1) = Suc (unat (n - 1 - 1))"
      using unat_minus_one [OF False] unat_gt_0 [THEN iffD2, OF False] by linarith
    with 1 [OF False] False fill_append [of d 1 "unat (n - 1 - 1)" 0 m] show ?thesis
      by (subst strncpy_pad.simps) (simp add: fill_1)
  qed (simp add: strncpy_pad.simps)
qed

lemma fwd_safe_ahead:
  assumes "fwd_safe d s n" "0 < j" "j < n"
  shows "s + of_nat j \<noteq> d"
proof
  assume e: "s + of_nat j = d"
  have "unat (of_nat j :: u32) = j"
    using assms by (intro unat_of_nat_u32) (simp add: fwd_safe_def)
  with e assms show False by (auto simp: fwd_safe_def)
qed

lemma strncpy_loop_copy:
  "n \<noteq> 0 \<Longrightarrow> fwd_safe d s (unat n) \<Longrightarrow>
   strncpy_loop n d s m =
     fill (d + of_nat (zlen m s (unat n))) (unat n - zlen m s (unat n)) 0
       (copy d s (zlen m s (unat n)) m)"
proof (induction "unat n" arbitrary: n d s m)
  case 0
  then show ?case by (simp add: unat_eq_zero)
next
  case (Suc k)
  have k: "unat (n - 1) = k" using Suc(2,3) by (simp add: unat_minus_one)
  have n: "unat n = Suc k" using Suc(2) by simp
  let ?m = "m(d := m s)"
  show ?case
  proof (cases "m s = 0")
    case True
    then have "strncpy_loop n d s m = fill (d + 1) k 0 (fill d 1 0 m)"
      by (simp add: strncpy_loop.simps strncpy_pad_fill k fill_1)
    then show ?thesis using True fill_append [of d 1 k 0 m] by (simp add: n)
  next
    case False
    have z: "zlen ?m (s + 1) k = zlen m (s + 1) k"
      using fwd_safe_ahead [OF Suc(4), of "Suc i" for i] n
      by (intro arg_cong [where f = "\<lambda>b. length (cstr k b)"] bytes_at_eqI) (auto simp: add.assoc)
    have c: "copy (d + 1) (s + 1) j ?m = copy d s (Suc j) m" if "j \<le> k" for j
      using copy_append [of d s 1 j m] fwd_safe_mono [OF Suc(4), of "Suc j"] that n
      by (simp add: copy_1)
    show ?thesis
    proof (cases "n - 1 = 0")
      case True
      then have "k = 0" using k by simp
      then show ?thesis using False True n c [of 0] by (simp add: strncpy_loop.simps)
    next
      assume "n - 1 \<noteq> 0"
      moreover have "fwd_safe (d + 1) (s + 1) (unat (n - 1))"
        unfolding fwd_safe_shift k by (rule fwd_safe_mono [OF Suc(4)]) (simp add: n)
      ultimately have "strncpy_loop n d s m =
          fill (d + 1 + of_nat (zlen m (s + 1) k)) (k - zlen m (s + 1) k) 0
            (copy (d + 1) (s + 1) (zlen m (s + 1) k) ?m)"
        using Suc(1) [of "n - 1" "d + 1" "s + 1" ?m] False k
        by (subst strncpy_loop.simps) (simp add: z Let_def)
      then show ?thesis using c [OF zlen_le] False by (simp add: n add.assoc)
    qed
  qed
qed

lemma cstr_bytes_at: "cstr n (bytes_at m s n) = bytes_at m s (zlen m s n)"
  by (induction n arbitrary: s) auto

lemma rt_strncpy_name_copy:
  assumes "fwd_safe dst src (unat n)"
  shows "bytes_at (rt_strncpy dst src n m) dst (unat n) = name_copy (unat n) (bytes_at m src (unat n))"
    and "unat n \<le> unat (a - dst) \<Longrightarrow> rt_strncpy dst src n m a = m a"
proof -
  let ?k = "zlen m src (unat n)" and ?n = "unat n"
  let ?r = "fill (dst + of_nat ?k) (?n - ?k) 0 (copy dst src ?k m)"
  have r: "rt_strncpy dst src n m = ?r"
    using strncpy_loop_copy [OF _ assms, of m] by (cases "n = 0") (simp_all add: rt_strncpy_def)
  have k: "?k \<le> ?n" "?n < 2 ^ 32" "?k < 2 ^ 32"
    using zlen_le [of ?n m src] unat_u32_less [of n] by auto
  have pre: "bytes_at ?r dst ?k = bytes_at m src ?k"
  proof (rule bytes_at_eqI)
    fix i assume i: "i < ?k"
    have "unat (dst + of_nat i - (dst + of_nat ?k)) = 2 ^ 32 - ?k + i"
      using unat_diff_of_nat_wrap [of "of_nat i" ?k] i k by (simp add: unat_of_nat_u32)
    then show "?r (dst + of_nat i) = m (src + of_nat i)"
      using i k by (auto simp: fill_def copy_def unat_of_nat_u32)
  qed
  have "bytes_at ?r dst ?n = bytes_at ?r dst ?k @ bytes_at ?r (dst + of_nat ?k) (?n - ?k)"
    using bytes_at_append [of ?r dst ?k "?n - ?k"] k by simp
  then show "bytes_at (rt_strncpy dst src n m) dst ?n = name_copy ?n (bytes_at m src ?n)"
    using k by (simp add: r pre bytes_at_fill name_copy_def Let_def flip: cstr_bytes_at)
  show "rt_strncpy dst src n m a = m a" if "?n \<le> unat (a - dst)"
    using unat_diff_of_nat [of ?k "a - dst"] that k
    by (auto simp: r fill_def copy_def diff_diff_eq)
qed

lemma Suc_eq_unatD: "Suc k = unat (n :: u32) \<Longrightarrow> n \<noteq> 0 \<and> unat (n - 1) = k"
  by (metis diff_Suc_1 nat.distinct(1) unat_0 unat_minus_one)

lemma strncmp_loop_0:
  "strncmp_loop count cs ct 0 m = 0 \<longleftrightarrow>
     cstr (unat count) (bytes_at m cs (unat count)) = cstr (unat count) (bytes_at m ct (unat count))"
proof (induction "unat count" arbitrary: count cs ct)
  case 0
  then show ?case by (simp add: strncmp_loop.simps unat_eq_zero)
next
  case (Suc k)
  then have k: "unat (count - 1) = k" "count \<noteq> 0" "unat count = Suc k"
    using Suc_eq_unatD by auto
  show ?case
    using Suc(1) [of "count - 1" "cs + 1" "ct + 1"] k
    by (subst strncmp_loop.simps) (auto simp: Let_def)
qed

lemma rt_strncmp_eq:
  "rt_strncmp cs ct count m = 0 \<longleftrightarrow>
     cstr (unat count) (bytes_at m cs (unat count)) = cstr (unat count) (bytes_at m ct (unat count))"
proof -
  have "scast (x :: u8) = (0 :: u32) \<longleftrightarrow> x = 0" for x
  proof -
    have "ucast (scast x :: u32) = x" by (rule bit_word_eqI) (auto simp: bit_simps)
    then show ?thesis by (metis scast_0 ucast_0)
  qed
  then show ?thesis by (simp add: rt_strncmp_def strncmp_loop_0)
qed

lemma ucast_ucast_8: "ucast (ucast (x :: u8) :: u32) = x"
  by (rule bit_word_eqI) (auto simp: bit_simps)

lemma memcmp_loop_0:
  "memcmp_loop count p q 0 m = 0 \<longleftrightarrow> bytes_at m p (unat count) = bytes_at m q (unat count)"
proof (induction "unat count" arbitrary: count p q)
  case 0
  then show ?case by (simp add: memcmp_loop.simps unat_eq_zero)
next
  case (Suc k)
  then have k: "unat (count - 1) = k" "0 < count" "unat count = Suc k"
    using Suc_eq_unatD by (auto simp: word_gt_0)
  have "ucast (m p) - ucast (m q) = (0 :: u32) \<longleftrightarrow> m p = m q"
    using ucast_ucast_8 [of "m p"] ucast_ucast_8 [of "m q"] by (metis right_minus_eq)
  then show ?case
    using Suc(1) [of "count - 1" "p + 1" "q + 1"] k
    by (subst memcmp_loop.simps) (auto simp: Let_def)
qed

section \<open>\<open>__rt_ffs\<close>\<close>

definition lowest_bit_bitmap :: "u8 list" where
  "lowest_bit_bitmap =
  [0,0,1,0,2,0,1,0,3,0,1,0,2,0,1,0,
   4,0,1,0,2,0,1,0,3,0,1,0,2,0,1,0,
   5,0,1,0,2,0,1,0,3,0,1,0,2,0,1,0,
   4,0,1,0,2,0,1,0,3,0,1,0,2,0,1,0,
   6,0,1,0,2,0,1,0,3,0,1,0,2,0,1,0,
   4,0,1,0,2,0,1,0,3,0,1,0,2,0,1,0,
   5,0,1,0,2,0,1,0,3,0,1,0,2,0,1,0,
   4,0,1,0,2,0,1,0,3,0,1,0,2,0,1,0,
   7,0,1,0,2,0,1,0,3,0,1,0,2,0,1,0,
   4,0,1,0,2,0,1,0,3,0,1,0,2,0,1,0,
   5,0,1,0,2,0,1,0,3,0,1,0,2,0,1,0,
   4,0,1,0,2,0,1,0,3,0,1,0,2,0,1,0,
   6,0,1,0,2,0,1,0,3,0,1,0,2,0,1,0,
   4,0,1,0,2,0,1,0,3,0,1,0,2,0,1,0,
   5,0,1,0,2,0,1,0,3,0,1,0,2,0,1,0,
   4,0,1,0,2,0,1,0,3,0,1,0,2,0,1,0]"

definition rt_ffs :: "u32 \<Rightarrow> u32" where
  "rt_ffs v =
     (if v = 0 then 0
      else if v AND 0xff \<noteq> 0 then ucast (lowest_bit_bitmap ! unat (v AND 0xff)) + 1
      else if v AND 0xff00 \<noteq> 0
      then ucast (lowest_bit_bitmap ! unat (drop_bit 8 (v AND 0xff00))) + 9
      else if v AND 0xff0000 \<noteq> 0
      then ucast (lowest_bit_bitmap ! unat (drop_bit 16 (v AND 0xff0000))) + 17
      else ucast (lowest_bit_bitmap ! unat (drop_bit 24 (v AND 0xff000000))) + 25)"

definition lowest_bit :: "u32 \<Rightarrow> nat \<Rightarrow> bool" where
  "lowest_bit v k \<longleftrightarrow> bit v k \<and> (\<forall>j < k. \<not> bit v j)"

text \<open>The table, checked entry by entry.\<close>

lemma bitmap_entries:
  "list_all (\<lambda>(b, t). t < 8 \<and> b mod (2 * 2 ^ unat t) = 2 ^ unat t)
     (zip [1..<256] (tl lowest_bit_bitmap))"
  unfolding lowest_bit_bitmap_def by (simp add: upt_rec)

lemma mod_exp_lowest:
  fixes b :: nat
  assumes "b mod (2 * 2 ^ k) = 2 ^ k" "j \<le> k"
  shows "bit b j \<longleftrightarrow> j = k"
proof -
  have "take_bit (Suc k) b = 2 ^ k" using assms(1) by (simp add: take_bit_eq_mod)
  then have "bit (take_bit (Suc k) b) j = bit (2 ^ k :: nat) j" by simp
  then show ?thesis using assms(2) by (simp add: bit_simps)
qed

lemma bitmap_table:
  assumes "b \<in> {1..<256}"
  shows "let k = unat (lowest_bit_bitmap ! b) in k < 8 \<and> bit b k \<and> (\<forall>j < k. \<not> bit b j)"
proof -
  have len: "length lowest_bit_bitmap = 256" by (simp add: lowest_bit_bitmap_def)
  have "(b, lowest_bit_bitmap ! b) \<in> set (zip [1..<256] (tl lowest_bit_bitmap))"
    unfolding in_set_zip using assms len
    by (intro exI [of _ "b - 1"]) (auto simp: nth_tl)
  from bspec [OF bitmap_entries [unfolded list_all_iff] this]
  have "lowest_bit_bitmap ! b < 8"
    "b mod (2 * 2 ^ unat (lowest_bit_bitmap ! b)) = 2 ^ unat (lowest_bit_bitmap ! b)" by auto
  then show ?thesis by (auto simp: Let_def mod_exp_lowest word_less_nat_alt)
qed

lemma bitmap_byte:
  fixes x :: u32
  assumes "take_bit 8 x \<noteq> 0"
  defines "k \<equiv> unat (lowest_bit_bitmap ! unat (take_bit 8 x))"
  shows "k < 8" "lowest_bit x k"
proof -
  have "unat (take_bit 8 x) \<in> {1..<256}"
    using assms(1) unat_gt_0 [of "take_bit 8 x"]
    by (simp add: unsigned_take_bit_eq take_bit_nat_less_exp [of 8, simplified] Suc_le_eq)
  from bitmap_table [OF this]
  have t: "k < 8" "bit (unat (take_bit 8 x)) k" "\<forall>j < k. \<not> bit (unat (take_bit 8 x)) j"
    by (auto simp: k_def Let_def)
  then show "k < 8" "lowest_bit x k"
    by (auto simp: lowest_bit_def bit_simps unsigned_take_bit_eq)
qed

lemma rt_ffs_bytes:
  "v AND 0xff = take_bit 8 (v :: u32)"
  "drop_bit 8 (v AND 0xff00) = take_bit 8 (drop_bit 8 v)"
  "drop_bit 16 (v AND 0xff0000) = take_bit 8 (drop_bit 16 v)"
  "drop_bit 24 (v AND 0xff000000) = take_bit 8 (drop_bit 24 v)"
  "v AND 0xff00 = 0 \<longleftrightarrow> take_bit 8 (drop_bit 8 v) = 0"
  "v AND 0xff0000 = 0 \<longleftrightarrow> take_bit 8 (drop_bit 16 v) = 0"
proof -
  have m: "0xff00 = push_bit 8 (mask 8 :: u32)" "0xff0000 = push_bit 16 (mask 8 :: u32)"
    "0xff000000 = push_bit 24 (mask 8 :: u32)" by (simp_all add: mask_eq_exp_minus_1 push_bit_eq_mult)
  show "v AND 0xff = take_bit 8 v" by (rule and_0xff)
  show d: "drop_bit 8 (v AND 0xff00) = take_bit 8 (drop_bit 8 v)"
    "drop_bit 16 (v AND 0xff0000) = take_bit 8 (drop_bit 16 v)"
    "drop_bit 24 (v AND 0xff000000) = take_bit 8 (drop_bit 24 v)"
    unfolding m by (rule bit_word_eqI; auto simp: bit_simps simp del: mask_numeral)+
  have p: "v AND 0xff00 = push_bit 8 (take_bit 8 (drop_bit 8 v))"
    "v AND 0xff0000 = push_bit 16 (take_bit 8 (drop_bit 16 v))"
    unfolding m by (rule bit_word_eqI; auto simp: bit_simps simp del: mask_numeral)+
  show "v AND 0xff00 = 0 \<longleftrightarrow> take_bit 8 (drop_bit 8 v) = 0"
    using d(1) p(1) by (metis drop_bit_of_0 push_bit_of_0)
  show "v AND 0xff0000 = 0 \<longleftrightarrow> take_bit 8 (drop_bit 16 v) = 0"
    using d(2) p(2) by (metis drop_bit_of_0 push_bit_of_0)
qed

lemma bitmap_shifted:
  assumes "take_bit 8 (drop_bit i v) \<noteq> 0" "take_bit i v = 0" "i \<le> 24"
  shows "\<exists>k < 32. lowest_bit v k \<and>
    ucast (lowest_bit_bitmap ! unat (take_bit 8 (drop_bit i v))) + of_nat (Suc i) = (of_nat (Suc k) :: u32)"
proof -
  define e where "e = lowest_bit_bitmap ! unat (take_bit 8 (drop_bit i v))"
  have b: "unat e < 8" "lowest_bit (drop_bit i v) (unat e)"
    using bitmap_byte [OF assms(1)] by (simp_all add: e_def)
  have "\<not> bit v j" if "j < i + unat e" for j
  proof (cases "j < i")
    case True
    then have "bit (take_bit i v) j = bit v j" by (simp add: bit_simps)
    then show ?thesis using assms(2) by simp
  next
    case False
    then have "bit (drop_bit i v) (j - i) = bit v j" by (simp add: bit_simps)
    then show ?thesis using b(2) that False by (auto simp: lowest_bit_def)
  qed
  moreover have "bit v (i + unat e)" using b(2) by (simp add: lowest_bit_def bit_simps)
  moreover have "ucast e + of_nat (Suc i) = (of_nat (Suc (i + unat e)) :: u32)"
    by (simp add: add.commute)
  ultimately show ?thesis using b(1) assms(3)
    by (intro exI [of _ "i + unat e"]) (simp add: lowest_bit_def flip: e_def)
qed

lemma take_bit_step:
  assumes "take_bit i v = 0" "take_bit 8 (drop_bit i v) = (0 :: u32)"
  shows "take_bit (i + 8) v = 0"
proof (rule bit_word_eqI)
  fix n
  have "bit (take_bit 8 (drop_bit i v)) (n - i) = bit (0 :: u32) (n - i)"
    "bit (take_bit i v) n = bit (0 :: u32) n" using assms by simp_all
  then show "bit (take_bit (i + 8) v) n = bit 0 n" by (auto simp: bit_simps)
qed

lemma rt_ffs_lowest_bit:
  assumes "v \<noteq> 0"
  shows "\<exists>k < 32. lowest_bit v k \<and> rt_ffs v = of_nat (Suc k)"
proof -
  have s1: "take_bit 8 v = 0 \<Longrightarrow> take_bit 8 (drop_bit 8 v) = 0 \<Longrightarrow> take_bit 16 v = 0"
    using take_bit_step [of 8 v] by simp
  have s2: "take_bit 16 v = 0 \<Longrightarrow> take_bit 8 (drop_bit 16 v) = 0 \<Longrightarrow> take_bit 24 v = 0"
    using take_bit_step [of 16 v] by simp
  have s3: "take_bit 24 v = 0 \<Longrightarrow> take_bit 8 (drop_bit 24 v) \<noteq> 0"
    using take_bit_step [of 24 v] assms by (auto simp: take_bit_word_eq_self)
  show ?thesis
  proof (cases "take_bit 8 v = 0")
    case False
    then show ?thesis
      using bitmap_shifted [of 0 v] assms by (simp add: rt_ffs_def rt_ffs_bytes)
  next
    case b0: True
    show ?thesis
    proof (cases "take_bit 8 (drop_bit 8 v) = 0")
      case False
      then show ?thesis
        using bitmap_shifted [of 8 v] assms b0 by (simp add: rt_ffs_def rt_ffs_bytes)
    next
      case b1: True
      show ?thesis
        using bitmap_shifted [of 16 v] bitmap_shifted [of 24 v] assms b0 b1 s1 [OF b0 b1] s2 s3
        by (cases "take_bit 8 (drop_bit 16 v) = 0") (simp_all add: rt_ffs_def rt_ffs_bytes)
    qed
  qed
qed

lemma lowest_bit_unique: "lowest_bit v j \<Longrightarrow> lowest_bit v k \<Longrightarrow> j = k"
  by (metis lowest_bit_def linorder_neqE_nat)

section \<open>Decimal digits\<close>

text \<open>\<open>divide\<close>: the digit and the remaining number, for base 10 and (any other base) 16.\<close>

definition divide :: "u32 \<Rightarrow> u32 \<Rightarrow> u32 \<times> u32" where
  "divide n base = (if base = 10 then (n mod 10, n div 10) else (n mod 16, n div 16))"

section \<open>Properties\<close>

text \<open>
  \<open>rt_memset\<close>, with its word-at-a-time fast path, sets exactly the \<open>count\<close> bytes from \<open>s\<close> to
  the low byte of \<open>c\<close> and no other byte, for every address, alignment and count.
\<close>

theorem rt_memset_correct:
  "rt_memset s c count m = (\<lambda>a. if unat (a - s) < unat count then ucast c else m a)"
  by (simp add: rt_memset_fill fill_def)

text \<open>
  \<open>rt_memcpy\<close> copies exactly the \<open>count\<close> source bytes to the destination, by blocks of four
  words, words and bytes, whenever the destination does not start inside the source beyond its first
  byte (in particular for disjoint areas, and for overlapping ones with the destination below).
\<close>

theorem rt_memcpy_correct:
  assumes "dst = src \<or> unat count \<le> unat (dst - src)"
  shows "rt_memcpy dst src count m =
    (\<lambda>a. if unat (a - dst) < unat count then m (src + (a - dst)) else m a)"
proof -
  have "fwd_safe dst src (unat count)" using assms unat_u32_less [of count] by (simp add: fwd_safe_def)
  then show ?thesis by (simp add: rt_memcpy_copy copy_def)
qed

theorem rt_memcpy_correct_witness:
  "bytes_at (rt_memcpy 0x100 0x104 23 (\<lambda>a. ucast a)) 0x100 3 = [4, 5, 6]"
  by (subst rt_memcpy_correct) (simp_all add: numeral_3_eq_3)

text \<open>
  \<open>rt_memmove\<close> copies the \<open>n\<close> source bytes as they were before the call, whatever the overlap,
  as long as neither area reaches the end of the address space.
\<close>

theorem rt_memmove_correct:
  assumes "unat src + unat n < 2 ^ 32" "unat dest + unat n < 2 ^ 32"
  shows "rt_memmove dest src n m =
    (\<lambda>a. if unat (a - dest) < unat n then m (src + (a - dest)) else m a)"
  using rt_memmove_copy [OF assms] by (simp add: copy_def)

theorem rt_memmove_correct_witness:
  "bytes_at (rt_memmove 0x102 0x100 5 (\<lambda>a. ucast a)) 0x102 3 = [0, 1, 2]"
  by (subst rt_memmove_correct) (simp_all add: numeral_3_eq_3)

text \<open>
  \<open>rt_strncpy\<close> leaves in the destination array the source string up to its terminator, padded
  with NUL bytes to exactly \<open>n\<close> bytes, and touches nothing outside; \<open>rt_strncmp\<close> of two arrays is
  zero exactly when the strings they hold within \<open>count\<close> bytes are equal.  These are the two
  routines object names are stored and looked up with.
\<close>

theorem rt_strncpy_strncmp_correct:
  assumes "dst = src \<or> unat n \<le> unat (dst - src)"
  shows "bytes_at (rt_strncpy dst src n m) dst (unat n) =
      name_copy (unat n) (bytes_at m src (unat n)) \<and>
    (unat n \<le> unat (a - dst) \<longrightarrow> rt_strncpy dst src n m a = m a) \<and>
    (rt_strncmp cs ct count m = 0 \<longleftrightarrow>
       cstr (unat count) (bytes_at m cs (unat count)) = cstr (unat count) (bytes_at m ct (unat count)))"
proof -
  have "fwd_safe dst src (unat n)" using assms unat_u32_less [of n] by (simp add: fwd_safe_def)
  then show ?thesis using rt_strncpy_name_copy rt_strncmp_eq by simp
qed

theorem rt_strncpy_strncmp_correct_witness:
  "bytes_at (rt_strncpy 0x100 0x200 4 (\<lambda>a. if a = 0x202 then 0 else 65)) 0x100 4 = [65, 65, 0, 0]"
proof -
  let ?m = "\<lambda>a :: ptr. if a = 0x202 then 0 else 65 :: u8"
  have "bytes_at (rt_strncpy 0x100 0x200 4 ?m) 0x100 (unat (4 :: u32)) =
      name_copy (unat (4 :: u32)) (bytes_at ?m 0x200 (unat (4 :: u32)))"
    by (rule rt_strncpy_strncmp_correct [of "0x100" "0x200" 4 ?m, THEN conjunct1]) simp
  also have "\<dots> = [65, 65, 0, 0]" by (simp add: bytes_at_numeral name_copy_def cstr_def) (simp add: numeral_2_eq_2)
  finally show ?thesis by simp
qed

text \<open>
  C40. \<open>__rt_ffs\<close> of a non-zero word is one more than the index of its lowest set bit: the table
  lookup agrees with the bit-by-bit definition for every 32-bit value.
\<close>

theorem rt_ffs_correct:
  assumes "v \<noteq> 0"
  shows "\<exists>k < 32. rt_ffs v = of_nat (Suc k) \<and> bit v k \<and> (\<forall>j < k. \<not> bit v j)"
  using rt_ffs_lowest_bit [OF assms] by (auto simp: lowest_bit_def)

theorem rt_ffs_correct_witness: "rt_ffs 0x00140000 = 19"
proof -
  obtain k where k: "k < 32" "rt_ffs 0x00140000 = of_nat (Suc k)" "bit (0x00140000 :: u32) k"
      "\<forall>j < k. \<not> bit (0x00140000 :: u32) j"
    using rt_ffs_correct [of "0x00140000"] by auto
  have "bit (0x00140000 :: u32) 18" by simp
  then have "k \<le> 18" using k(4) by (metis not_le)
  then have "k \<in> set [0..<19]" by simp
  moreover have "\<forall>j \<in> set [0..<18]. \<not> bit (0x00140000 :: u32) j" by (simp add: upt_rec)
  ultimately have "k = 18" using k(3) by (auto simp: less_Suc_eq_le le_less)
  then show ?thesis using k(2) by simp
qed

end
