(* ===== verification/Kernel_State.thy ===== *)
theory Kernel_State
  imports Rt_List Kservice
begin

text \<open>
  The data of the kernel: the control blocks of \<open>src/include/rtdef.h\<close> as records, and one record
  \<open>kstate\<close> for the global variables of \<open>src/src/*.c\<close> and the stores the pointers of the code
  point into.  Configuration: \<open>src/bsp/stm32f10x-curer/rtconfig.h\<close> (32 priorities, names of 8
  bytes, hooks unset, no soft timers, no modules, overflow check on).

  Addresses are 32-bit words, \<open>0\<close> is \<open>RT_NULL\<close>.  A control block embeds its \<open>rt_object\<close> as the
  first member, so both have one address; the timer a thread embeds is at \<open>TmrOf t\<close>.  The list nodes
  embedded in control blocks (\<open>list\<close>, \<open>tlist\<close>, \<open>row[0]\<close>) are not fields: the lists they form are
  the queue families \<open>containers\<close> and \<open>tqs\<close> and the list \<open>timer_list\<close>, with the operations whose
  pointer-level counterparts are verified in theory Rt_List.
\<close>

section \<open>Addresses and list heads\<close>

text \<open>\<open>At p\<close>: a control block at address \<open>p\<close>; \<open>TmrOf t\<close>: \<open>&(t->thread_timer)\<close>.\<close>

datatype oref = At ptr | TmrOf ptr

text \<open>The heads of thread lists: \<open>rt_thread_priority_table[p]\<close>, the \<open>suspend_thread\<close> list of the
  control block at an address, the \<open>suspend_sender_thread\<close> list of a mailbox, and
  \<open>rt_thread_defunct\<close>.\<close>

datatype tq = Ready nat | Susp ptr | SuspSender ptr | Defunct

section \<open>Kernel objects\<close>

abbreviation (input) RT_NAME_MAX :: nat where "RT_NAME_MAX \<equiv> 8"
abbreviation (input) RT_THREAD_PRIORITY_MAX :: nat where "RT_THREAD_PRIORITY_MAX \<equiv> 32"

record rt_object =
  ob_name :: "u8 list"
  ob_type :: u8
  ob_flag :: u8

abbreviation (input) RT_Object_Class_Thread :: u8 where "RT_Object_Class_Thread \<equiv> 0"
abbreviation (input) RT_Object_Class_Semaphore :: u8 where "RT_Object_Class_Semaphore \<equiv> 1"
abbreviation (input) RT_Object_Class_Mutex :: u8 where "RT_Object_Class_Mutex \<equiv> 2"
abbreviation (input) RT_Object_Class_Event :: u8 where "RT_Object_Class_Event \<equiv> 3"
abbreviation (input) RT_Object_Class_MailBox :: u8 where "RT_Object_Class_MailBox \<equiv> 4"
abbreviation (input) RT_Object_Class_MessageQueue :: u8 where "RT_Object_Class_MessageQueue \<equiv> 5"
abbreviation (input) RT_Object_Class_MemPool :: u8 where "RT_Object_Class_MemPool \<equiv> 6"
abbreviation (input) RT_Object_Class_Device :: u8 where "RT_Object_Class_Device \<equiv> 7"
abbreviation (input) RT_Object_Class_Timer :: u8 where "RT_Object_Class_Timer \<equiv> 8"
abbreviation (input) RT_Object_Class_Unknown :: u8 where "RT_Object_Class_Unknown \<equiv> 9"
abbreviation (input) RT_Object_Class_Static :: u8 where "RT_Object_Class_Static \<equiv> 0x80"

section \<open>Timers and threads\<close>

text \<open>The timeout function of a timer: the kernel's own \<open>rt_thread_timeout\<close>, or a function of the
  application.\<close>

datatype timeout_fn = Thread_timeout | User_fn ptr

record rt_timer =
  tm_timeout_func :: timeout_fn
  tm_parameter :: ptr
  tm_init_tick :: rt_tick_t
  tm_timeout_tick :: rt_tick_t

abbreviation (input) RT_TIMER_FLAG_ACTIVATED :: u8 where "RT_TIMER_FLAG_ACTIVATED \<equiv> 0x1"
abbreviation (input) RT_TIMER_FLAG_PERIODIC :: u8 where "RT_TIMER_FLAG_PERIODIC \<equiv> 0x2"
abbreviation (input) RT_TIMER_FLAG_SOFT_TIMER :: u8 where "RT_TIMER_FLAG_SOFT_TIMER \<equiv> 0x4"

abbreviation (input) RT_THREAD_INIT :: u8 where "RT_THREAD_INIT \<equiv> 0"
abbreviation (input) RT_THREAD_READY :: u8 where "RT_THREAD_READY \<equiv> 1"
abbreviation (input) RT_THREAD_SUSPEND :: u8 where "RT_THREAD_SUSPEND \<equiv> 2"
abbreviation (input) RT_THREAD_CLOSE :: u8 where "RT_THREAD_CLOSE \<equiv> 4"

record rt_thread =
  th_sp :: ptr
  th_entry :: ptr
  th_parameter :: ptr
  th_stack_addr :: ptr
  th_stack_size :: u16
  th_error :: rt_err_t
  th_stat :: u8
  th_current_priority :: u8
  th_init_priority :: u8
  th_number_mask :: u32
  th_event_set :: u32
  th_event_info :: u8
  th_init_tick :: u32
  th_remaining_tick :: u32
  th_cleanup :: ptr
  th_user_data :: u32

section \<open>IPC objects and memory pools\<close>

abbreviation (input) RT_IPC_FLAG_FIFO :: u8 where "RT_IPC_FLAG_FIFO \<equiv> 0"
abbreviation (input) RT_IPC_FLAG_PRIO :: u8 where "RT_IPC_FLAG_PRIO \<equiv> 1"
abbreviation (input) RT_IPC_CMD_RESET :: u8 where "RT_IPC_CMD_RESET \<equiv> 1"
abbreviation (input) RT_EVENT_FLAG_AND :: u8 where "RT_EVENT_FLAG_AND \<equiv> 1"
abbreviation (input) RT_EVENT_FLAG_OR :: u8 where "RT_EVENT_FLAG_OR \<equiv> 2"
abbreviation (input) RT_EVENT_FLAG_CLEAR :: u8 where "RT_EVENT_FLAG_CLEAR \<equiv> 4"

record rt_semaphore =
  sem_value :: u16

record rt_mutex =
  mtx_value :: u16
  mtx_original_priority :: u8
  mtx_hold :: u8
  mtx_owner :: ptr

record rt_event =
  evt_set :: u32

text \<open>The message buffer of a mailbox: the address \<open>msg_pool\<close> and the array there.\<close>

record rt_mailbox =
  mb_pool_addr :: ptr
  mb_msg_pool :: "u32 list"
  mb_size :: u16
  mb_entry :: u16
  mb_in_offset :: u16
  mb_out_offset :: u16

text \<open>A node of a message queue: the header \<open>struct rt_mq_message\<close> and the bytes behind it, by their
  offset from \<open>msg + 1\<close>.\<close>

record rt_mq_message =
  msg_next :: ptr
  msg_payload :: "nat \<Rightarrow> u8"

record rt_messagequeue =
  mq_msg_pool :: ptr
  mq_msg_size :: u16
  mq_max_msgs :: u16
  mq_entry :: u16
  mq_msg_queue_head :: ptr
  mq_msg_queue_tail :: ptr
  mq_msg_queue_free :: ptr

record rt_mempool =
  mp_start_address :: ptr
  mp_size :: u32
  mp_block_size :: u32
  mp_block_list :: ptr
  mp_block_total_count :: u32
  mp_block_free_count :: u32
  mp_suspend_thread_count :: u32

section \<open>The kernel heap of \<open>mem.c\<close>\<close>

text \<open>The headers in the heap, by their offset from \<open>heap_ptr\<close>, and the statics of \<open>mem.c\<close>.\<close>

record heap_mem =
  hm_magic :: u16
  hm_used :: u16
  hm_next :: u32
  hm_prev :: u32

record heap =
  hp_mem :: "u32 \<Rightarrow> heap_mem"
  heap_ptr :: ptr
  heap_end :: u32
  lfree :: u32
  mem_size_aligned :: u32
  used_mem :: u32
  max_mem :: u32

section \<open>The kernel state\<close>

record kstate =
  objects :: "oref \<Rightarrow> rt_object"
  containers :: "(nat, oref) queues"
  threads :: "ptr \<Rightarrow> rt_thread"
  tqs :: "(tq, ptr) queues"
  timers :: "oref \<Rightarrow> rt_timer"
  timer_list :: "oref list"
  sems :: "ptr \<Rightarrow> rt_semaphore"
  mutexes :: "ptr \<Rightarrow> rt_mutex"
  events :: "ptr \<Rightarrow> rt_event"
  mailboxes :: "ptr \<Rightarrow> rt_mailbox"
  mqs :: "ptr \<Rightarrow> rt_messagequeue"
  mq_nodes :: "ptr \<Rightarrow> rt_mq_message"
  mempools :: "ptr \<Rightarrow> rt_mempool"
  mp_links :: "ptr \<Rightarrow> ptr"
  kheap :: heap
  heap_sem :: ptr
  ready_group :: u32
  rt_current_thread :: ptr
  rt_current_priority :: u8
  rt_scheduler_lock_nest :: u16
  rt_interrupt_nest :: u8
  rt_tick :: rt_tick_t
  k_errno :: rt_err_t
  switches :: "(ptr \<times> ptr) list"

text \<open>
  \<open>switches\<close> records the calls of \<open>rt_hw_context_switch\<close>, \<open>rt_hw_context_switch_interrupt\<close> and
  \<open>rt_hw_context_switch_to\<close> (from \<open>0\<close>), newest first: the assembler port that carries them out is
  not part of the model.

  A routine that gives up the processor and reads the state again when it runs again takes the rest
  of the system as an argument: a function from the state at the context switch to the state in which
  the calling thread continues, the work of the other threads and of interrupts in between.
\<close>

type_synonym world = "kstate \<Rightarrow> kstate"

definition set_thread :: "ptr \<Rightarrow> (rt_thread \<Rightarrow> rt_thread) \<Rightarrow> kstate \<Rightarrow> kstate" where
  "set_thread t f s = s\<lparr>threads := (threads s)(t := f (threads s t))\<rparr>"

definition set_object :: "oref \<Rightarrow> (rt_object \<Rightarrow> rt_object) \<Rightarrow> kstate \<Rightarrow> kstate" where
  "set_object r f s = s\<lparr>objects := (objects s)(r := f (objects s r))\<rparr>"

definition set_timer :: "oref \<Rightarrow> (rt_timer \<Rightarrow> rt_timer) \<Rightarrow> kstate \<Rightarrow> kstate" where
  "set_timer r f s = s\<lparr>timers := (timers s)(r := f (timers s r))\<rparr>"

lemmas set_defs = set_thread_def set_object_def set_timer_def

lemma threads_set_thread [simp]:
  "threads (set_thread t f s) = (threads s)(t := f (threads s t))"
  by (simp add: set_thread_def)

lemma objects_set_object [simp]:
  "objects (set_object r f s) = (objects s)(r := f (objects s r))"
  by (simp add: set_object_def)

lemma timers_set_timer [simp]:
  "timers (set_timer r f s) = (timers s)(r := f (timers s r))"
  by (simp add: set_timer_def)

lemma set_thread_fields [simp]:
  "objects (set_thread t f s) = objects s" "containers (set_thread t f s) = containers s"
  "tqs (set_thread t f s) = tqs s" "timers (set_thread t f s) = timers s"
  "timer_list (set_thread t f s) = timer_list s" "sems (set_thread t f s) = sems s"
  "mutexes (set_thread t f s) = mutexes s" "events (set_thread t f s) = events s"
  "mailboxes (set_thread t f s) = mailboxes s" "mqs (set_thread t f s) = mqs s"
  "mq_nodes (set_thread t f s) = mq_nodes s" "mempools (set_thread t f s) = mempools s"
  "mp_links (set_thread t f s) = mp_links s" "kheap (set_thread t f s) = kheap s"
  "heap_sem (set_thread t f s) = heap_sem s" "ready_group (set_thread t f s) = ready_group s"
  "rt_current_thread (set_thread t f s) = rt_current_thread s"
  "rt_current_priority (set_thread t f s) = rt_current_priority s"
  "rt_scheduler_lock_nest (set_thread t f s) = rt_scheduler_lock_nest s"
  "rt_interrupt_nest (set_thread t f s) = rt_interrupt_nest s" "rt_tick (set_thread t f s) = rt_tick s"
  "k_errno (set_thread t f s) = k_errno s" "switches (set_thread t f s) = switches s"
  by (simp_all add: set_thread_def)

lemma set_object_fields [simp]:
  "threads (set_object r f s) = threads s" "containers (set_object r f s) = containers s"
  "tqs (set_object r f s) = tqs s" "timers (set_object r f s) = timers s"
  "timer_list (set_object r f s) = timer_list s" "sems (set_object r f s) = sems s"
  "mutexes (set_object r f s) = mutexes s" "events (set_object r f s) = events s"
  "mailboxes (set_object r f s) = mailboxes s" "mqs (set_object r f s) = mqs s"
  "mq_nodes (set_object r f s) = mq_nodes s" "mempools (set_object r f s) = mempools s"
  "mp_links (set_object r f s) = mp_links s" "kheap (set_object r f s) = kheap s"
  "heap_sem (set_object r f s) = heap_sem s" "ready_group (set_object r f s) = ready_group s"
  "rt_current_thread (set_object r f s) = rt_current_thread s"
  "rt_current_priority (set_object r f s) = rt_current_priority s"
  "rt_scheduler_lock_nest (set_object r f s) = rt_scheduler_lock_nest s"
  "rt_interrupt_nest (set_object r f s) = rt_interrupt_nest s" "rt_tick (set_object r f s) = rt_tick s"
  "k_errno (set_object r f s) = k_errno s" "switches (set_object r f s) = switches s"
  by (simp_all add: set_object_def)

lemma set_timer_fields [simp]:
  "threads (set_timer r f s) = threads s" "containers (set_timer r f s) = containers s"
  "tqs (set_timer r f s) = tqs s" "objects (set_timer r f s) = objects s"
  "timer_list (set_timer r f s) = timer_list s" "sems (set_timer r f s) = sems s"
  "mutexes (set_timer r f s) = mutexes s" "events (set_timer r f s) = events s"
  "mailboxes (set_timer r f s) = mailboxes s" "mqs (set_timer r f s) = mqs s"
  "mq_nodes (set_timer r f s) = mq_nodes s" "mempools (set_timer r f s) = mempools s"
  "mp_links (set_timer r f s) = mp_links s" "kheap (set_timer r f s) = kheap s"
  "heap_sem (set_timer r f s) = heap_sem s" "ready_group (set_timer r f s) = ready_group s"
  "rt_current_thread (set_timer r f s) = rt_current_thread s"
  "rt_current_priority (set_timer r f s) = rt_current_priority s"
  "rt_scheduler_lock_nest (set_timer r f s) = rt_scheduler_lock_nest s"
  "rt_interrupt_nest (set_timer r f s) = rt_interrupt_nest s" "rt_tick (set_timer r f s) = rt_tick s"
  "k_errno (set_timer r f s) = k_errno s" "switches (set_timer r f s) = switches s"
  by (simp_all add: set_timer_def)

section \<open>Zeroed control blocks\<close>

text \<open>The statics before any initialisation (the zeroed data segment), with empty lists.\<close>

definition zero_object :: rt_object where
  "zero_object = \<lparr>ob_name = replicate RT_NAME_MAX 0, ob_type = 0, ob_flag = 0\<rparr>"

definition zero_timer :: rt_timer where
  "zero_timer = \<lparr>tm_timeout_func = User_fn 0, tm_parameter = 0, tm_init_tick = 0, tm_timeout_tick = 0\<rparr>"

definition zero_thread :: rt_thread where
  "zero_thread = \<lparr>th_sp = 0, th_entry = 0, th_parameter = 0, th_stack_addr = 0, th_stack_size = 0,
     th_error = 0, th_stat = 0, th_current_priority = 0, th_init_priority = 0, th_number_mask = 0,
     th_event_set = 0, th_event_info = 0, th_init_tick = 0, th_remaining_tick = 0, th_cleanup = 0,
     th_user_data = 0\<rparr>"

definition zero_state :: kstate where
  "zero_state = \<lparr>objects = (\<lambda>_. zero_object), containers = (\<lambda>_. []), threads = (\<lambda>_. zero_thread),
     tqs = (\<lambda>_. []), timers = (\<lambda>_. zero_timer), timer_list = [],
     sems = (\<lambda>_. \<lparr>sem_value = 0\<rparr>),
     mutexes = (\<lambda>_. \<lparr>mtx_value = 0, mtx_original_priority = 0, mtx_hold = 0, mtx_owner = 0\<rparr>),
     events = (\<lambda>_. \<lparr>evt_set = 0\<rparr>),
     mailboxes = (\<lambda>_. \<lparr>mb_pool_addr = 0, mb_msg_pool = [], mb_size = 0, mb_entry = 0, mb_in_offset = 0, mb_out_offset = 0\<rparr>),
     mqs = (\<lambda>_. \<lparr>mq_msg_pool = 0, mq_msg_size = 0, mq_max_msgs = 0, mq_entry = 0,
       mq_msg_queue_head = 0, mq_msg_queue_tail = 0, mq_msg_queue_free = 0\<rparr>),
     mq_nodes = (\<lambda>_. \<lparr>msg_next = 0, msg_payload = (\<lambda>_. 0)\<rparr>),
     mempools = (\<lambda>_. \<lparr>mp_start_address = 0, mp_size = 0, mp_block_size = 0, mp_block_list = 0,
       mp_block_total_count = 0, mp_block_free_count = 0, mp_suspend_thread_count = 0\<rparr>),
     mp_links = (\<lambda>_. 0),
     kheap = \<lparr>hp_mem = (\<lambda>_. \<lparr>hm_magic = 0, hm_used = 0, hm_next = 0, hm_prev = 0\<rparr>), heap_ptr = 0,
       heap_end = 0, lfree = 0, mem_size_aligned = 0, used_mem = 0, max_mem = 0\<rparr>,
     heap_sem = 0, ready_group = 0, rt_current_thread = 0, rt_current_priority = 0,
     rt_scheduler_lock_nest = 0, rt_interrupt_nest = 0, rt_tick = 0, k_errno = 0, switches = []\<rparr>"

lemma zero_state_sel [simp]:
  "objects zero_state r = zero_object" "containers zero_state = (\<lambda>_. [])"
  "threads zero_state t = zero_thread" "tqs zero_state = (\<lambda>_. [])" "timers zero_state r = zero_timer"
  "timer_list zero_state = []" "sems zero_state = (\<lambda>_. \<lparr>sem_value = 0\<rparr>)"
  "heap_sem zero_state = 0" "ready_group zero_state = 0"
  "rt_current_thread zero_state = 0" "rt_current_priority zero_state = 0"
  "rt_scheduler_lock_nest zero_state = 0" "rt_interrupt_nest zero_state = 0" "rt_tick zero_state = 0"
  "k_errno zero_state = 0" "switches zero_state = []"
  by (simp_all add: zero_state_def)

text \<open>A started thread of priority \<open>p\<close> with a stack of its own, for concrete states.\<close>

definition demo_thread :: "nat \<Rightarrow> rt_thread" where
  "demo_thread p = zero_thread\<lparr>th_sp := 0x20000400, th_stack_addr := 0x20000000,
     th_stack_size := 0x800, th_stat := RT_THREAD_SUSPEND, th_current_priority := of_nat p,
     th_init_priority := of_nat p, th_number_mask := push_bit p 1,
     th_init_tick := 10, th_remaining_tick := 10\<rparr>"

lemma demo_thread_sel [simp]:
  "th_sp (demo_thread p) = 0x20000400" "th_stack_addr (demo_thread p) = 0x20000000"
  "th_stack_size (demo_thread p) = 0x800" "th_stat (demo_thread p) = RT_THREAD_SUSPEND"
  "th_current_priority (demo_thread p) = of_nat p" "th_init_priority (demo_thread p) = of_nat p"
  "th_number_mask (demo_thread p) = push_bit p 1"
  "th_init_tick (demo_thread p) = 10" "th_remaining_tick (demo_thread p) = 10"
  "th_error (demo_thread p) = 0"
  by (simp_all add: demo_thread_def zero_thread_def)

end
