(* ===== verification/Scheduler.thy ===== *)
theory Scheduler
  imports Kernel_State
begin

text \<open>
  \<open>src/src/scheduler.c\<close>: the ready queues, the priority bitmap and the choice of the thread to run.

  The invariant \<open>ready_inv\<close> ties the bitmap, the ready queues and the threads' priority fields
  together; insertion, removal and scheduling keep it.  The locale \<open>priority_table\<close> is the interface
  the thread and IPC code uses: insertion at the back of the queue of the thread's priority, removal,
  and the choice of the front of the first non-empty queue.
\<close>

section \<open>The code\<close>

definition rt_system_scheduler_init :: "kstate \<Rightarrow> kstate" where
  "rt_system_scheduler_init s =
     s\<lparr>rt_scheduler_lock_nest := 0,
       tqs := (\<lambda>q. case q of Ready p \<Rightarrow> if p < RT_THREAD_PRIORITY_MAX then [] else tqs s q
                  | Defunct \<Rightarrow> [] | _ \<Rightarrow> tqs s q),
       rt_current_priority := of_nat (RT_THREAD_PRIORITY_MAX - 1),
       rt_current_thread := RT_NULL,
       ready_group := 0\<rparr>"

text \<open>\<open>rt_list_entry(rt_thread_priority_table[highest_ready_priority].next, ...)\<close>: with an empty group
  the index is \<open>0xffffffff\<close>, outside the table.\<close>

definition highest_ready_thread :: "kstate \<Rightarrow> (u32 \<times> ptr) option" where
  "highest_ready_thread s =
     (let highest_ready_priority = rt_ffs (ready_group s) - 1 in
      if unat highest_ready_priority < RT_THREAD_PRIORITY_MAX
      then case tqs s (Ready (unat highest_ready_priority)) of
          [] \<Rightarrow> None
        | t # _ \<Rightarrow> Some (highest_ready_priority, t)
      else None)"

text \<open>\<open>_rt_scheduler_stack_check\<close>: on overflow the kernel stops in \<open>while (level);\<close>, interrupts being
  disabled already; the warning near the end of the stack only prints.\<close>

definition rt_scheduler_stack_check :: "ptr \<Rightarrow> kstate \<Rightarrow> unit option" where
  "rt_scheduler_stack_check t s = do {
     RT_ASSERT (t \<noteq> RT_NULL);
     let th = threads s t;
     if th_sp th \<le> th_stack_addr th \<or> th_stack_addr th + ucast (th_stack_size th) < th_sp th
     then None else Some ()
   }"

definition rt_system_scheduler_start :: "kstate \<Rightarrow> kstate option" where
  "rt_system_scheduler_start s = do {
     (_, to_thread) \<leftarrow> highest_ready_thread s;
     Some (s\<lparr>rt_current_thread := to_thread, switches := (0, to_thread) # switches s\<rparr>)
   }"

definition rt_schedule :: "kstate \<Rightarrow> kstate option" where
  "rt_schedule s =
     (if rt_scheduler_lock_nest s = 0
      then do {
        (highest_ready_priority, to_thread) \<leftarrow> highest_ready_thread s;
        if to_thread \<noteq> rt_current_thread s
        then do {
          let from_thread = rt_current_thread s;
          let s1 = s\<lparr>rt_current_priority := ucast highest_ready_priority,
                     rt_current_thread := to_thread\<rparr>;
          rt_scheduler_stack_check to_thread s1;
          Some (s1\<lparr>switches := (from_thread, to_thread) # switches s1\<rparr>)
        }
        else Some s
      }
      else Some s)"

definition rt_schedule_insert_thread :: "ptr \<Rightarrow> kstate \<Rightarrow> kstate option" where
  "rt_schedule_insert_thread thread s = do {
     RT_ASSERT (thread \<noteq> RT_NULL);
     let p = unat (th_current_priority (threads s thread));
     RT_ASSERT (p < RT_THREAD_PRIORITY_MAX);
     let s = set_thread thread (th_stat_update (\<lambda>_. RT_THREAD_READY)) s;
     let s = s\<lparr>tqs := q_insert_before (Ready p) thread (tqs s)\<rparr>;
     Some (s\<lparr>ready_group := ready_group s OR th_number_mask (threads s thread)\<rparr>)
   }"

text \<open>The table index \<open>thread->current_priority\<close> is unchecked in the code; outside the table the
  access is undefined, which the model shows as a call that does not return.\<close>

definition rt_schedule_remove_thread :: "ptr \<Rightarrow> kstate \<Rightarrow> kstate option" where
  "rt_schedule_remove_thread thread s = do {
     RT_ASSERT (thread \<noteq> RT_NULL);
     let s = s\<lparr>tqs := q_remove thread (tqs s)\<rparr>;
     let p = unat (th_current_priority (threads s thread));
     RT_ASSERT (p < RT_THREAD_PRIORITY_MAX);
     if tqs s (Ready p) = []
     then Some (s\<lparr>ready_group := ready_group s AND NOT (th_number_mask (threads s thread))\<rparr>)
     else Some s
   }"

definition rt_enter_critical :: "kstate \<Rightarrow> kstate" where
  "rt_enter_critical s = s\<lparr>rt_scheduler_lock_nest := rt_scheduler_lock_nest s + 1\<rparr>"

definition rt_exit_critical :: "kstate \<Rightarrow> kstate option" where
  "rt_exit_critical s =
     (let s = s\<lparr>rt_scheduler_lock_nest := rt_scheduler_lock_nest s - 1\<rparr> in
      if sint (rt_scheduler_lock_nest s) \<le> 0
      then rt_schedule (s\<lparr>rt_scheduler_lock_nest := 0\<rparr>)
      else Some s)"

definition rt_critical_level :: "kstate \<Rightarrow> u16" where
  "rt_critical_level s = rt_scheduler_lock_nest s"

section \<open>The invariant\<close>

text \<open>A thread's priority fields agree, as \<open>rt_thread_startup\<close> and \<open>rt_thread_control\<close> set them.\<close>

definition prio_ok :: "rt_thread \<Rightarrow> bool" where
  "prio_ok th \<longleftrightarrow> unat (th_current_priority th) < RT_THREAD_PRIORITY_MAX \<and>
     th_number_mask th = push_bit (unat (th_current_priority th)) 1"

definition ready_inv :: "kstate \<Rightarrow> bool" where
  "ready_inv s \<longleftrightarrow> wf_queues (tqs s) \<and>
     (\<forall>p. bit (ready_group s) p \<longleftrightarrow> tqs s (Ready p) \<noteq> []) \<and>
     (\<forall>p. \<forall>t \<in> set (tqs s (Ready p)). t \<noteq> RT_NULL \<and> prio_ok (threads s t) \<and>
        unat (th_current_priority (threads s t)) = p \<and> th_stat (threads s t) = RT_THREAD_READY)"

text \<open>The reference the bitmap search is measured against: scan the table from priority 0.\<close>

fun first_ready :: "(tq, ptr) queues \<Rightarrow> nat \<Rightarrow> nat \<Rightarrow> (nat \<times> ptr) option" where
  "first_ready q p 0 = None"
| "first_ready q p (Suc n) =
     (case q (Ready p) of [] \<Rightarrow> first_ready q (Suc p) n | t # _ \<Rightarrow> Some (p, t))"

section \<open>The operations keep the invariant\<close>

lemma rt_schedule_insert_thread_eq:
  assumes "t \<noteq> RT_NULL" "unat (th_current_priority (threads s t)) < 32"
  shows "rt_schedule_insert_thread t s =
    Some (s\<lparr>threads := (threads s)(t := threads s t\<lparr>th_stat := RT_THREAD_READY\<rparr>),
            tqs := q_insert_before (Ready (unat (th_current_priority (threads s t)))) t (tqs s),
            ready_group := ready_group s OR th_number_mask (threads s t)\<rparr>)"
  using assms by (simp add: rt_schedule_insert_thread_def set_thread_def Let_def)

lemma rt_schedule_insert_thread_Some:
  "rt_schedule_insert_thread t s = Some s' \<Longrightarrow>
     t \<noteq> RT_NULL \<and> unat (th_current_priority (threads s t)) < 32 \<and>
     s' = s\<lparr>threads := (threads s)(t := threads s t\<lparr>th_stat := RT_THREAD_READY\<rparr>),
            tqs := q_insert_before (Ready (unat (th_current_priority (threads s t)))) t (tqs s),
            ready_group := ready_group s OR th_number_mask (threads s t)\<rparr>"
  by (auto simp: rt_schedule_insert_thread_def Let_def bind_Some_conv set_thread_def)

lemma rt_schedule_remove_thread_eq:
  assumes "t \<noteq> RT_NULL" "unat (th_current_priority (threads s t)) < 32"
  shows "rt_schedule_remove_thread t s =
    Some (s\<lparr>tqs := q_remove t (tqs s),
            ready_group :=
              (if q_remove t (tqs s) (Ready (unat (th_current_priority (threads s t)))) = []
               then ready_group s AND NOT (th_number_mask (threads s t)) else ready_group s)\<rparr>)"
  using assms by (simp add: rt_schedule_remove_thread_def Let_def)

lemma rt_schedule_remove_thread_Some:
  "rt_schedule_remove_thread t s = Some s' \<Longrightarrow>
     t \<noteq> RT_NULL \<and> unat (th_current_priority (threads s t)) < 32"
  by (auto simp: rt_schedule_remove_thread_def Let_def bind_Some_conv)

lemma bit_push_1: "p < 32 \<Longrightarrow> bit (push_bit p 1 :: u32) q \<longleftrightarrow> q = p"
  by (auto simp: bit_simps)

lemma ready_invD:
  assumes "ready_inv s"
  shows "wf_queues (tqs s)" "bit (ready_group s) p \<longleftrightarrow> tqs s (Ready p) \<noteq> []"
    "t \<in> set (tqs s (Ready p)) \<Longrightarrow> t \<noteq> RT_NULL"
    "t \<in> set (tqs s (Ready p)) \<Longrightarrow> prio_ok (threads s t)"
    "t \<in> set (tqs s (Ready p)) \<Longrightarrow> unat (th_current_priority (threads s t)) = p"
    "t \<in> set (tqs s (Ready p)) \<Longrightarrow> th_stat (threads s t) = RT_THREAD_READY"
  using assms unfolding ready_inv_def by auto

lemma ready_inv_cong:
  assumes "tqs s' = tqs s" "ready_group s' = ready_group s"
    "\<And>t p. t \<in> set (tqs s (Ready p)) \<Longrightarrow> th_stat (threads s' t) = th_stat (threads s t) \<and>
       th_current_priority (threads s' t) = th_current_priority (threads s t) \<and>
       th_number_mask (threads s' t) = th_number_mask (threads s t)"
  shows "ready_inv s' = ready_inv s"
  unfolding ready_inv_def prio_ok_def assms(1,2) using assms(3) by (intro conj_cong refl) metis

lemma ready_inv_insert:
  assumes inv: "ready_inv s" and t: "t \<noteq> RT_NULL" "prio_ok (threads s t)" "unlinked t (tqs s)"
    and s': "rt_schedule_insert_thread t s = Some s'"
  shows "ready_inv s'"
proof -
  let ?p = "unat (th_current_priority (threads s t))"
  have p: "?p < 32" "th_number_mask (threads s t) = push_bit ?p 1" using t(2) by (auto simp: prio_ok_def)
  note s'' = rt_schedule_insert_thread_Some [OF s', THEN conjunct2, THEN conjunct2]
  have q: "tqs s' = q_insert_before (Ready ?p) t (tqs s)" by (simp add: s'')
  show ?thesis unfolding ready_inv_def
  proof (intro conjI allI ballI)
    show "wf_queues (tqs s')" unfolding q using ready_invD(1) [OF inv] t(3) by blast
    show "bit (ready_group s') r = (tqs s' (Ready r) \<noteq> [])" for r
      using ready_invD(2) [OF inv, of r] p
      by (simp add: s'' bit_simps bit_push_1 q_insert_before_def)
    fix r u assume u: "u \<in> set (tqs s' (Ready r))"
    show "u \<noteq> RT_NULL" "prio_ok (threads s' u)" "unat (th_current_priority (threads s' u)) = r"
      "th_stat (threads s' u) = RT_THREAD_READY"
      using u t ready_invD(3-6) [OF inv, of u r]
      by (auto simp: s'' q_insert_before_def prio_ok_def unlinked_def split: if_splits)
  qed
qed

lemma ready_inv_remove:
  assumes inv: "ready_inv s" and t: "prio_ok (threads s t)"
    and s': "rt_schedule_remove_thread t s = Some s'"
  shows "ready_inv s'"
proof -
  let ?p = "unat (th_current_priority (threads s t))"
  have p: "?p < 32" "th_number_mask (threads s t) = push_bit ?p 1" using t by (auto simp: prio_ok_def)
  have t0: "t \<noteq> RT_NULL" using rt_schedule_remove_thread_Some [OF s'] by simp
  note eq = rt_schedule_remove_thread_eq [of t s, OF t0 p(1)]
  have f: "tqs s' = q_remove t (tqs s)" "threads s' = threads s"
    "ready_group s' = (if tqs s' (Ready ?p) = [] then ready_group s AND NOT (push_bit ?p 1)
       else ready_group s)" using s' eq p(2) by auto
  have other: "tqs s' (Ready r) = tqs s (Ready r)" if "r \<noteq> ?p" for r
    using that ready_invD(5) [OF inv, of t r] by (auto simp: f(1) q_remove_def intro: removeAll_id)
  show ?thesis unfolding ready_inv_def
  proof (intro conjI allI ballI)
    show "wf_queues (tqs s')" unfolding f(1) using ready_invD(1) [OF inv] by blast
    show "bit (ready_group s') r = (tqs s' (Ready r) \<noteq> [])" for r
    proof (cases "r = ?p")
      case True
      have "tqs s' (Ready ?p) \<noteq> [] \<Longrightarrow> tqs s (Ready ?p) \<noteq> []" by (auto simp: f(1) q_remove_def)
      then show ?thesis using True ready_invD(2) [OF inv, of ?p] p(1)
        by (auto simp: f(3) bit_simps bit_push_1)
    next
      case False
      then show ?thesis using ready_invD(2) [OF inv, of r] p(1) other [OF False]
        by (auto simp: f(3) bit_simps bit_push_1 dest: bit_imp_le_length)
    qed
    fix r u assume "u \<in> set (tqs s' (Ready r))"
    then have "u \<in> set (tqs s (Ready r))" by (simp add: f(1) q_remove_def)
    then show "u \<noteq> RT_NULL" "prio_ok (threads s' u)" "unat (th_current_priority (threads s' u)) = r"
      "th_stat (threads s' u) = RT_THREAD_READY"
      using ready_invD(3-6) [OF inv] by (auto simp: f(2))
  qed
qed

section \<open>The choice of the next thread\<close>

lemma first_ready_Some:
  "first_ready q p n = Some (r, t) \<longleftrightarrow>
     p \<le> r \<and> r < p + n \<and> (\<exists>ts. q (Ready r) = t # ts) \<and> (\<forall>j. p \<le> j \<and> j < r \<longrightarrow> q (Ready j) = [])"
proof (induction n arbitrary: p)
  case (Suc n)
  show ?case
  proof (cases "q (Ready p)")
    case Nil
    then show ?thesis using Suc [of "Suc p"] by (auto simp: Suc_le_eq) (metis le_neq_implies_less list.distinct(1) Suc_leI)+
  next
    case (Cons u us)
    then show ?thesis by (auto, metis le_neq_implies_less list.distinct(1) order_refl list.inject)
  qed
qed auto

lemma first_ready_None: "first_ready q p n = None \<longleftrightarrow> (\<forall>j. p \<le> j \<and> j < p + n \<longrightarrow> q (Ready j) = [])"
proof (induction n arbitrary: p)
  case (Suc n)
  show ?case
  proof (cases "q (Ready p)")
    case Nil
    then show ?thesis using Suc [of "Suc p"] by (auto simp: Suc_le_eq) (metis le_neq_implies_less)
  qed auto
qed auto

text \<open>The bitmap search finds what scanning the table finds.\<close>

lemma highest_ready_thread_first_ready:
  assumes "ready_inv s"
  shows "map_option (\<lambda>(p, t). (unat p, t)) (highest_ready_thread s) = first_ready (tqs s) 0 32"
proof (cases "ready_group s = 0")
  case True
  then have "first_ready (tqs s) 0 32 = None"
    using ready_invD(2) [OF assms] by (simp add: first_ready_None)
  then show ?thesis using True by (simp add: highest_ready_thread_def rt_ffs_def Let_def unat_u32_minus_1)
next
  case False
  then obtain k where k: "k < 32" "lowest_bit (ready_group s) k" "rt_ffs (ready_group s) = of_nat (Suc k)"
    using rt_ffs_lowest_bit by blast
  have "rt_ffs (ready_group s) - 1 = of_nat k" by (simp add: k(3))
  moreover have "unat (of_nat k :: u32) = k" using k(1) by (simp add: unat_of_nat_u32)
  moreover obtain t ts where "tqs s (Ready k) = t # ts"
    using k(2) ready_invD(2) [OF assms, of k] by (auto simp: lowest_bit_def neq_Nil_conv)
  moreover have "first_ready (tqs s) 0 32 = Some (k, t)"
    using k(1,2) ready_invD(2) [OF assms] \<open>tqs s (Ready k) = t # ts\<close>
    by (auto simp: first_ready_Some lowest_bit_def)
  ultimately show ?thesis using k(1) by (simp add: highest_ready_thread_def)
qed

lemma highest_ready_thread_Some:
  assumes "ready_inv s" "highest_ready_thread s = Some (p, t)"
  shows "first_ready (tqs s) 0 32 = Some (unat p, t)" "t \<in> set (tqs s (Ready (unat p)))"
proof -
  show f: "first_ready (tqs s) 0 32 = Some (unat p, t)"
    using highest_ready_thread_first_ready [OF assms(1)] assms(2) by simp
  then show "t \<in> set (tqs s (Ready (unat p)))" by (auto simp: first_ready_Some)
qed

lemma rt_schedule_Some:
  assumes "rt_schedule s = Some s'"
  obtains "s' = s"
  | p t where "rt_scheduler_lock_nest s = 0" "highest_ready_thread s = Some (p, t)"
      "t \<noteq> rt_current_thread s"
      "s' = s\<lparr>rt_current_priority := ucast p, rt_current_thread := t,
              switches := (rt_current_thread s, t) # switches s\<rparr>"
proof (cases "s' = s")
  case False
  then have lock: "rt_scheduler_lock_nest s = 0" using assms by (auto simp: rt_schedule_def split: if_splits)
  with assms obtain p t where h: "highest_ready_thread s = Some (p, t)"
    by (auto simp: rt_schedule_def elim!: bind_eq_SomeD)
  then have ne: "t \<noteq> rt_current_thread s" using assms lock False by (auto simp: rt_schedule_def)
  have "s' = s\<lparr>rt_current_priority := ucast p, rt_current_thread := t,
      switches := (rt_current_thread s, t) # switches s\<rparr>"
    using assms lock h ne by (auto simp: rt_schedule_def Let_def elim!: bind_eq_SomeD)
  then show ?thesis using that(2) lock h ne by blast
qed (rule that(1))

lemma rt_schedule_current:
  assumes "ready_inv s" "rt_schedule s = Some s'" "rt_scheduler_lock_nest s = 0"
  shows "\<exists>p. rt_current_thread s' \<in> set (tqs s (Ready p))"
proof -
  obtain p t where h: "highest_ready_thread s = Some (p, t)"
    using assms(2,3) by (auto simp: rt_schedule_def elim!: bind_eq_SomeD)
  have "rt_current_thread s' = t"
    using assms(2,3) h by (auto simp: rt_schedule_def Let_def split: if_splits elim!: bind_eq_SomeD)
  then show ?thesis using highest_ready_thread_Some(2) [OF assms(1) h] by blast
qed

lemma rt_schedule_fields [rt_field]:
  assumes "rt_schedule s = Some s'"
  shows "objects s' = objects s" "containers s' = containers s" "threads s' = threads s"
    "tqs s' = tqs s" "timers s' = timers s" "timer_list s' = timer_list s" "sems s' = sems s"
    "mutexes s' = mutexes s" "events s' = events s" "mailboxes s' = mailboxes s" "mqs s' = mqs s"
    "mq_nodes s' = mq_nodes s" "mempools s' = mempools s" "mp_links s' = mp_links s"
    "kheap s' = kheap s" "heap_sem s' = heap_sem s" "ready_group s' = ready_group s"
    "rt_scheduler_lock_nest s' = rt_scheduler_lock_nest s"
    "rt_interrupt_nest s' = rt_interrupt_nest s" "rt_tick s' = rt_tick s" "k_errno s' = k_errno s"
  by (rule rt_schedule_Some [OF assms]; simp)+

lemma ready_inv_schedule: "ready_inv s \<Longrightarrow> rt_schedule s = Some s' \<Longrightarrow> ready_inv s'"
  by (subst ready_inv_cong [where s = s]) (simp_all add: rt_schedule_fields)

lemma ready_inv_lock [simp]:
  "ready_inv (s\<lparr>rt_scheduler_lock_nest := n\<rparr>) = ready_inv s"
  "ready_inv (rt_enter_critical s) = ready_inv s"
  by (simp_all add: ready_inv_def rt_enter_critical_def)

lemma ready_inv_exit_critical: "ready_inv s \<Longrightarrow> rt_exit_critical s = Some s' \<Longrightarrow> ready_inv s'"
  by (auto simp: rt_exit_critical_def Let_def dest: ready_inv_schedule [rotated] split: if_splits)

section \<open>The interface of the ready queues\<close>

text \<open>
  A table of queues by priority: \<open>insert\<close> appends a thread that is on no queue to the queue of its
  priority, \<open>remove\<close> takes a thread out, \<open>pick\<close> is the front of the first non-empty queue.
\<close>

locale priority_table =
  fixes inv :: "'s \<Rightarrow> bool"
    and ready :: "'s \<Rightarrow> nat \<Rightarrow> 't list"
    and prio :: "'s \<Rightarrow> 't \<Rightarrow> nat"
    and known fresh :: "'s \<Rightarrow> 't \<Rightarrow> bool"
    and insert remove :: "'t \<Rightarrow> 's \<Rightarrow> 's option"
    and pick :: "'s \<Rightarrow> (nat \<times> 't) option"
  assumes fresh_known: "fresh s t \<Longrightarrow> known s t"
    and ready_prio: "inv s \<Longrightarrow> t \<in> set (ready s p) \<Longrightarrow> prio s t = p"
    and insert_ok: "inv s \<Longrightarrow> fresh s t \<Longrightarrow> \<exists>s'. insert t s = Some s' \<and> inv s' \<and>
        ready s' = (ready s)(prio s t := ready s (prio s t) @ [t]) \<and> prio s' = prio s"
    and remove_ok: "inv s \<Longrightarrow> known s t \<Longrightarrow> \<exists>s'. remove t s = Some s' \<and> inv s' \<and>
        ready s' = (\<lambda>p. removeAll t (ready s p)) \<and> prio s' = prio s \<and> fresh s' t"
    and pick_ok: "inv s \<Longrightarrow> pick s = Some (p, t) \<longleftrightarrow>
        (\<exists>ts. ready s p = t # ts) \<and> (\<forall>q < p. ready s q = [])"
begin

text \<open>What becomes ready pre-empts exactly when its priority is strictly better.\<close>

lemma pick_insert:
  assumes "inv s" "fresh s t" "pick s = Some (p, c)" "insert t s = Some s'"
  shows "pick s' = (if prio s t < p then Some (prio s t, t) else Some (p, c))"
proof -
  obtain r where r: "inv s'" "ready s' = (ready s)(prio s t := ready s (prio s t) @ [t])"
    using insert_ok [OF assms(1,2)] assms(4) by auto
  obtain ts where c: "ready s p = c # ts" "\<forall>q < p. ready s q = []"
    using pick_ok [OF assms(1), of p c] assms(3) by auto
  have "pick s' = Some (prio s t, t)" if "prio s t < p"
    using that c r by (subst pick_ok) auto
  moreover have "pick s' = Some (p, c)" if "\<not> prio s t < p"
    using that c r by (subst pick_ok) auto
  ultimately show ?thesis by simp
qed

text \<open>Taking a thread out and putting it back moves it behind its peers.\<close>

lemma requeue:
  assumes "inv s" "known s t"
  obtains s1 s2 where "remove t s = Some s1" "insert t s1 = Some s2" "inv s2" "prio s2 = prio s"
    "ready s2 = (\<lambda>p. removeAll t (ready s p) @ (if p = prio s t then [t] else []))"
proof -
  from remove_ok [OF assms] obtain s1 where 1: "remove t s = Some s1" "inv s1" "fresh s1 t"
    "ready s1 = (\<lambda>p. removeAll t (ready s p))" "prio s1 = prio s" by auto
  from insert_ok [OF 1(2,3)] obtain s2 where 2: "insert t s1 = Some s2" "inv s2" "prio s2 = prio s1"
    "ready s2 = (ready s1)(prio s1 t := ready s1 (prio s1 t) @ [t])" by auto
  show ?thesis
    by (rule that [OF 1(1) 2(1,2)]) (auto simp: 1 2 fun_eq_iff)
qed

text \<open>So a thread that gives way to a peer runs again after all of them.\<close>

lemma requeue_pick:
  assumes "inv s" "known s t" "pick s = Some (p, t)" "ready s p = t # u # us" "t \<notin> set (u # us)"
    "remove t s = Some s1" "insert t s1 = Some s2"
  shows "pick s2 = Some (p, u) \<and> ready s2 p = u # us @ [t]"
proof -
  have "prio s t = p" using ready_prio [OF assms(1), of t p] assms(4) by simp
  moreover obtain s1' s2' where *: "remove t s = Some s1'" "insert t s1' = Some s2'" "inv s2'"
    "ready s2' = (\<lambda>p. removeAll t (ready s p) @ (if p = prio s t then [t] else []))"
    using requeue [OF assms(1,2)] by metis
  moreover have "\<forall>q < p. ready s q = []" using pick_ok [OF assms(1)] assms(3) by auto
  moreover have "s2' = s2" using * assms(6,7) by simp
  ultimately show ?thesis using assms(4,5) by (subst pick_ok) auto
qed

end

definition pick_ready :: "kstate \<Rightarrow> (nat \<times> ptr) option" where
  "pick_ready s = map_option (\<lambda>(p, t). (unat p, t)) (highest_ready_thread s)"

definition ready_of :: "kstate \<Rightarrow> nat \<Rightarrow> ptr list" where
  "ready_of s p = tqs s (Ready p)"

definition prio_of :: "kstate \<Rightarrow> ptr \<Rightarrow> nat" where
  "prio_of s t = unat (th_current_priority (threads s t))"

definition schedulable :: "kstate \<Rightarrow> ptr \<Rightarrow> bool" where
  "schedulable s t \<longleftrightarrow> t \<noteq> RT_NULL \<and> prio_ok (threads s t)"

interpretation ready_queues: priority_table
  ready_inv ready_of prio_of schedulable "\<lambda>s t. schedulable s t \<and> unlinked t (tqs s)"
  rt_schedule_insert_thread rt_schedule_remove_thread pick_ready
proof unfold_locales
  show "ready_inv s \<Longrightarrow> t \<in> set (ready_of s p) \<Longrightarrow> prio_of s t = p" for s t p
    using ready_invD(5) by (auto simp: ready_of_def prio_of_def)
next
  fix s t assume inv: "ready_inv s" and t: "schedulable s t \<and> unlinked t (tqs s)"
  then have p: "t \<noteq> RT_NULL" "unat (th_current_priority (threads s t)) < 32"
    by (auto simp: schedulable_def prio_ok_def)
  note e = rt_schedule_insert_thread_eq [of t s, OF p]
  show "\<exists>s'. rt_schedule_insert_thread t s = Some s' \<and> ready_inv s' \<and>
      ready_of s' = (ready_of s)(prio_of s t := ready_of s (prio_of s t) @ [t]) \<and> prio_of s' = prio_of s"
    using ready_inv_insert [OF inv _ _ _ e] t unfolding e schedulable_def
    by (auto simp: ready_of_def prio_of_def q_insert_before_def fun_eq_iff)
next
  fix s t assume inv: "ready_inv s" and t: "schedulable s t"
  then have p: "t \<noteq> RT_NULL" "unat (th_current_priority (threads s t)) < 32" "prio_ok (threads s t)"
    by (auto simp: schedulable_def prio_ok_def)
  note e = rt_schedule_remove_thread_eq [of t s, OF p(1,2)]
  show "\<exists>s'. rt_schedule_remove_thread t s = Some s' \<and> ready_inv s' \<and>
      ready_of s' = (\<lambda>p. removeAll t (ready_of s p)) \<and> prio_of s' = prio_of s \<and>
      schedulable s' t \<and> unlinked t (tqs s')"
    using ready_inv_remove [OF inv p(3) e] p unfolding e
    by (auto simp: ready_of_def prio_of_def q_remove_def schedulable_def unlinked_def)
next
  fix s p t assume inv: "ready_inv s"
  have "q < 32" if "ready_of s q \<noteq> []" for q
    using that ready_invD(2) [OF inv, of q] by (auto simp: ready_of_def dest: bit_imp_le_length)
  then show "pick_ready s = Some (p, t) \<longleftrightarrow> (\<exists>ts. ready_of s p = t # ts) \<and> (\<forall>q < p. ready_of s q = [])"
    unfolding pick_ready_def highest_ready_thread_first_ready [OF inv]
    by (auto simp: first_ready_Some ready_of_def)
qed auto

section \<open>Properties\<close>

lemma rt_schedule_locked: "rt_scheduler_lock_nest s \<noteq> 0 \<Longrightarrow> rt_schedule s = Some s"
  by (simp add: rt_schedule_def)

lemma stack_check_fields [simp]:
  "rt_scheduler_stack_check t (s\<lparr>rt_current_priority := a, rt_current_thread := b\<rparr>) =
     rt_scheduler_stack_check t s"
  by (simp add: rt_scheduler_stack_check_def)

lemma rt_schedule_pick:
  assumes "ready_inv s" "rt_scheduler_lock_nest s = 0" "pick_ready s = Some (p, t)"
    and "t = rt_current_thread s \<or> rt_scheduler_stack_check t s = Some ()"
  shows "rt_schedule s =
    Some (if t = rt_current_thread s then s
          else s\<lparr>rt_current_priority := of_nat p, rt_current_thread := t,
                 switches := (rt_current_thread s, t) # switches s\<rparr>)"
proof -
  obtain w where "highest_ready_thread s = Some (w, t)" "unat w = p"
    using assms(3) by (auto simp: pick_ready_def)
  then show ?thesis using assms(2,4) by (auto simp: rt_schedule_def Let_def)
qed

text \<open>The running thread is the one the scheduler would choose, so a critical section ends without a switch.\<close>

definition settled :: "kstate \<Rightarrow> bool" where
  "settled s \<longleftrightarrow> rt_scheduler_lock_nest s = 0 \<and> rt_schedule s = Some s"

lemma settled_schedule:
  assumes "rt_scheduler_lock_nest s = 0" "rt_schedule s = Some s'"
  shows "settled s'"
proof (rule rt_schedule_Some [OF assms(2)])
  assume "s' = s"
  then show ?thesis using assms by (simp add: settled_def)
next
  fix p t
  assume h: "highest_ready_thread s = Some (p, t)"
    and s': "s' = s\<lparr>rt_current_priority := ucast p, rt_current_thread := t, switches := (rt_current_thread s, t) # switches s\<rparr>"
  have "highest_ready_thread s' = highest_ready_thread s" by (simp add: s' highest_ready_thread_def Let_def)
  with h show ?thesis using assms(1) by (simp add: settled_def rt_schedule_def s')
qed

lemma exit_enter_critical:
  assumes "settled s"
  shows "rt_exit_critical (rt_enter_critical s) = Some s"
proof -
  have e: "s\<lparr>rt_scheduler_lock_nest := 0\<rparr> = s" using assms by (simp add: settled_def)
  show ?thesis using assms by (simp add: settled_def rt_exit_critical_def rt_enter_critical_def e)
qed

text \<open>With consistent queues: the running thread is the first of the best queue.\<close>

lemma settled_iff:
  "settled s \<longleftrightarrow> rt_scheduler_lock_nest s = 0 \<and> (\<exists>p. highest_ready_thread s = Some (p, rt_current_thread s))"
proof (cases "highest_ready_thread s")
  case (Some pt)
  moreover have "s\<lparr>rt_current_priority := a, rt_current_thread := b, switches := x # switches s\<rparr> \<noteq> s" for a b x
  proof
    assume "s\<lparr>rt_current_priority := a, rt_current_thread := b, switches := x # switches s\<rparr> = s"
    then have "x # switches s = switches s" by (metis kstate.select_convs kstate.surjective kstate.update_convs)
    then show False by simp
  qed
  ultimately show ?thesis by (cases pt) (auto simp: settled_def rt_schedule_def Let_def split: bind_splits)
qed (simp add: settled_def rt_schedule_def)

lemma settledD:
  assumes "settled s" "ready_inv s"
  obtains p ts where "p < 32" "tqs s (Ready p) = rt_current_thread s # ts" "\<forall>q < p. tqs s (Ready q) = []"
proof -
  obtain w where "highest_ready_thread s = Some (w, rt_current_thread s)" using assms(1) by (auto simp: settled_iff)
  from highest_ready_thread_Some(1) [OF assms(2) this] show ?thesis using that by (auto simp: first_ready_Some)
qed

text \<open>
  C1. Scheduling picks the best thread: in a consistent state with the scheduler unlocked and a thread
  ready, \<open>rt_schedule\<close> returns with the front thread of the first non-empty priority queue as
  \<open>rt_current_thread\<close> (the bitmap search agrees with scanning the table), requests exactly one context
  switch, from the old to the new thread, when they differ and none otherwise, and changes no queue
  and no thread; \<open>t\<close> must pass the stack overflow check when it is switched to.
\<close>

theorem rt_schedule_selects_highest_ready:
  assumes "ready_inv s" "rt_scheduler_lock_nest s = 0" "first_ready (tqs s) 0 32 = Some (p, t)"
    and "t = rt_current_thread s \<or> rt_scheduler_stack_check t s = Some ()"
  shows "\<exists>s'. rt_schedule s = Some s' \<and> rt_current_thread s' = t \<and> ready_inv s' \<and>
    switches s' = (if t = rt_current_thread s then [] else [(rt_current_thread s, t)]) @ switches s \<and>
    tqs s' = tqs s \<and> threads s' = threads s \<and> ready_group s' = ready_group s"
proof -
  have "pick_ready s = Some (p, t)"
    using assms(3) by (simp add: pick_ready_def highest_ready_thread_first_ready [OF assms(1)])
  note e = rt_schedule_pick [OF assms(1,2) this assms(4)]
  show ?thesis using ready_inv_schedule [OF assms(1) e] unfolding e by simp
qed

text \<open>Two threads of priorities 3 and 7, the second one running.\<close>

definition two_threads :: kstate where
  "two_threads = zero_state\<lparr>threads := (\<lambda>_. zero_thread)(0x100 := demo_thread 3, 0x200 := demo_thread 7),
     rt_current_thread := 0x200\<rparr>"

definition two_ready :: kstate where
  "two_ready = (case rt_schedule_insert_thread 0x200 two_threads of
     None \<Rightarrow> two_threads
   | Some s \<Rightarrow> (case rt_schedule_insert_thread 0x100 s of None \<Rightarrow> s | Some s' \<Rightarrow> s'))"

lemma two_ready_eq:
  "two_ready = two_threads\<lparr>
     threads := (threads two_threads)
       (0x100 := (demo_thread 3)\<lparr>th_stat := RT_THREAD_READY\<rparr>,
        0x200 := (demo_thread 7)\<lparr>th_stat := RT_THREAD_READY\<rparr>),
     tqs := (\<lambda>_. [])(Ready 3 := [0x100], Ready 7 := [0x200]), ready_group := 0x88\<rparr>"
  by (simp add: two_ready_def two_threads_def rt_schedule_insert_thread_eq q_insert_before_def
      fun_upd_twist push_bit_eq_mult)

lemma ready_inv_two_threads: "ready_inv two_threads"
  by (simp add: ready_inv_def two_threads_def wf_queues_def)

lemma ready_inv_two_ready: "ready_inv two_ready"
proof -
  have p: "prio_ok (demo_thread 7)" "prio_ok (demo_thread 3)" by (simp_all add: prio_ok_def)
  obtain s where s: "rt_schedule_insert_thread 0x200 two_threads = Some s"
    by (simp add: rt_schedule_insert_thread_eq two_threads_def)
  have th: "threads s 0x100 = demo_thread 3" "tqs s = (\<lambda>_. [])(Ready 7 := [0x200])"
    using rt_schedule_insert_thread_Some [OF s] by (auto simp: two_threads_def q_insert_before_def)
  have inv: "ready_inv s"
    by (rule ready_inv_insert [OF ready_inv_two_threads _ _ _ s])
      (simp_all add: two_threads_def p unlinked_def)
  obtain s' where s': "rt_schedule_insert_thread 0x100 s = Some s'"
    using th by (simp add: rt_schedule_insert_thread_eq)
  have "ready_inv s'"
    by (rule ready_inv_insert [OF inv _ _ _ s']) (simp_all add: th p unlinked_def)
  then show ?thesis by (simp add: two_ready_def s s')
qed

theorem rt_schedule_selects_highest_ready_witness:
  "\<exists>s'. rt_schedule two_ready = Some s' \<and> rt_current_thread s' = 0x100 \<and>
     switches s' = [(0x200, 0x100)]"
proof -
  have "first_ready (tqs two_ready) 0 32 = Some (3, 0x100)"
    by (simp add: two_ready_eq numeral_eq_Suc)
  from rt_schedule_selects_highest_ready [OF ready_inv_two_ready _ this]
  show ?thesis by (auto simp: two_ready_eq two_threads_def rt_scheduler_stack_check_def)
qed

text \<open>
  C2. Pre-emption: when a thread becomes ready while the best ready thread is running, the scheduling
  that follows switches to it exactly when its priority number is strictly smaller than that of the
  running thread; otherwise the running thread keeps the processor and no switch is requested.
\<close>

theorem insert_then_schedule_preempts_iff_better:
  assumes "ready_inv s" "rt_scheduler_lock_nest s = 0" "pick_ready s = Some (p, rt_current_thread s)"
    and t: "schedulable s t" "unlinked t (tqs s)" "rt_scheduler_stack_check t s = Some ()"
  shows "\<exists>s1 s2. rt_schedule_insert_thread t s = Some s1 \<and> rt_schedule s1 = Some s2 \<and> ready_inv s2 \<and>
    (if prio_of s t < p
     then rt_current_thread s2 = t \<and> switches s2 = (rt_current_thread s, t) # switches s
     else rt_current_thread s2 = rt_current_thread s \<and> switches s2 = switches s)"
proof -
  obtain s1 where s1: "rt_schedule_insert_thread t s = Some s1" "ready_inv s1"
    using ready_queues.insert_ok [OF assms(1), of t] t by auto
  have f: "rt_scheduler_lock_nest s1 = 0" "rt_current_thread s1 = rt_current_thread s"
    "switches s1 = switches s" "rt_scheduler_stack_check t s1 = Some ()"
    using rt_schedule_insert_thread_Some [OF s1(1)] assms(2) t(3)
    by (auto simp: rt_scheduler_stack_check_def)
  note pick = ready_queues.pick_insert [OF assms(1) _ assms(3) s1(1)]
  have p1: "pick_ready s1 = (if prio_of s t < p then Some (prio_of s t, t)
      else Some (p, rt_current_thread s))"
    using t pick by blast
  let ?q = "if prio_of s t < p then prio_of s t else p"
  let ?u = "if prio_of s t < p then t else rt_current_thread s"
  define s2 where "s2 = (if ?u = rt_current_thread s1 then s1
      else s1\<lparr>rt_current_priority := of_nat ?q, rt_current_thread := ?u,
              switches := (rt_current_thread s1, ?u) # switches s1\<rparr>)"
  have e: "rt_schedule s1 = Some s2"
    unfolding s2_def using p1 f by (intro rt_schedule_pick [OF s1(2)]) auto
  have "t \<noteq> rt_current_thread s" if "prio_of s t < p"
  proof -
    have "rt_current_thread s \<in> set (tqs s (Ready p))"
      using assms(3) ready_queues.pick_ok [OF assms(1)] by (auto simp: ready_of_def)
    then show ?thesis using t(2) by (auto simp: unlinked_def)
  qed
  then have "if prio_of s t < p
     then rt_current_thread s2 = t \<and> switches s2 = (rt_current_thread s, t) # switches s
     else rt_current_thread s2 = rt_current_thread s \<and> switches s2 = switches s"
    using f by (simp add: s2_def)
  then show ?thesis using s1(1) e ready_inv_schedule [OF s1(2) e] by blast
qed

theorem insert_then_schedule_preempts_iff_better_witness:
  "\<exists>s1 s2. rt_schedule_insert_thread 0x300 (two_ready\<lparr>rt_current_thread := 0x100,
        threads := (threads two_ready)(0x300 := demo_thread 1)\<rparr>) = Some s1 \<and>
     rt_schedule s1 = Some s2 \<and> rt_current_thread s2 = 0x300"
proof -
  let ?s = "two_ready\<lparr>rt_current_thread := 0x100, threads := (threads two_ready)(0x300 := demo_thread 1)\<rparr>"
  have inv: "ready_inv ?s"
    using ready_inv_two_ready
    by (subst ready_inv_cong [where s = two_ready]) (auto simp: two_ready_eq split: if_splits)
  have "pick_ready ?s = Some (3, rt_current_thread ?s)"
    by (subst ready_queues.pick_ok [OF inv]) (auto simp: ready_of_def two_ready_eq)
  moreover have "rt_scheduler_lock_nest ?s = 0" "schedulable ?s 0x300" "unlinked 0x300 (tqs ?s)"
    "rt_scheduler_stack_check 0x300 ?s = Some ()" "prio_of ?s 0x300 < 3"
    by (simp_all add: two_ready_eq two_threads_def schedulable_def prio_ok_def unlinked_def prio_of_def
        rt_scheduler_stack_check_def)
  ultimately show ?thesis
    using insert_then_schedule_preempts_iff_better [OF inv, of 3 "0x300"] by (auto split: if_splits)
qed

end
