(* ===== verification/Object.thy ===== *)
theory Object
  imports Scheduler
begin

text \<open>
  \<open>src/src/object.c\<close>: the object containers (one list of objects per class) and the operations on
  static objects.  Allocation and deletion of dynamic objects are in theory Create, after the heap.

  Names are arrays of \<open>RT_NAME_MAX\<close> bytes; \<open>name_copy\<close> and \<open>cstr\<close> are what \<open>rt_strncpy\<close> and
  \<open>rt_strncmp\<close> compute (theory Kservice).  The \<open>name\<close> argument of the routines is the list of the
  bytes from the pointer on, up to and including the terminator.
\<close>

section \<open>Contexts\<close>

text \<open>\<open>RT_DEBUG_NOT_IN_INTERRUPT\<close> and \<open>RT_DEBUG_IN_THREAD_CONTEXT\<close> of \<open>rtdebug.h\<close>: a violated check
  is a failed assertion.\<close>

definition RT_DEBUG_NOT_IN_INTERRUPT :: "kstate \<Rightarrow> unit option" where
  "RT_DEBUG_NOT_IN_INTERRUPT s = RT_ASSERT (rt_interrupt_nest s = 0)"

definition RT_DEBUG_IN_THREAD_CONTEXT :: "kstate \<Rightarrow> unit option" where
  "RT_DEBUG_IN_THREAD_CONTEXT s = do {
     RT_ASSERT (rt_current_thread s \<noteq> RT_NULL);
     RT_DEBUG_NOT_IN_INTERRUPT s
   }"

definition in_thread_context :: "kstate \<Rightarrow> bool" where
  "in_thread_context s \<longleftrightarrow> rt_current_thread s \<noteq> RT_NULL \<and> rt_interrupt_nest s = 0"

lemma RT_DEBUG_IN_THREAD_CONTEXT_eq [simp]:
  "RT_DEBUG_IN_THREAD_CONTEXT s = RT_ASSERT (in_thread_context s)"
  by (auto simp: RT_DEBUG_IN_THREAD_CONTEXT_def RT_DEBUG_NOT_IN_INTERRUPT_def in_thread_context_def
      RT_ASSERT_def split: if_splits)

section \<open>The code\<close>

text \<open>\<open>rt_object_container\<close> has nine entries in this configuration; other indices are outside it.\<close>

definition object_classes :: nat where
  "object_classes = 9"

definition rt_object_get_information :: "u8 \<Rightarrow> nat option" where
  "rt_object_get_information type = (if unat type < object_classes then Some (unat type) else None)"

definition rt_object_init :: "oref \<Rightarrow> u8 \<Rightarrow> u8 list \<Rightarrow> kstate \<Rightarrow> kstate option" where
  "rt_object_init object type name s = do {
     information \<leftarrow> rt_object_get_information type;
     let s = set_object object (ob_type_update (\<lambda>_. type OR RT_Object_Class_Static)) s;
     let s = set_object object (ob_name_update (\<lambda>_. name_copy RT_NAME_MAX name)) s;
     Some (s\<lparr>containers := q_insert_after information object (containers s)\<rparr>)
   }"

definition rt_object_detach :: "oref \<Rightarrow> kstate \<Rightarrow> kstate option" where
  "rt_object_detach object s = do {
     RT_ASSERT (object \<noteq> At RT_NULL);
     Some (s\<lparr>containers := q_remove object (containers s)\<rparr>)
   }"

definition rt_object_is_systemobject :: "oref \<Rightarrow> kstate \<Rightarrow> bool option" where
  "rt_object_is_systemobject object s = do {
     RT_ASSERT (object \<noteq> At RT_NULL);
     Some (ob_type (objects s object) AND RT_Object_Class_Static \<noteq> 0)
   }"

text \<open>The search loop of \<open>rt_object_find\<close>: the first object of the list whose name compares equal.\<close>

fun find_object :: "(oref \<Rightarrow> rt_object) \<Rightarrow> u8 list \<Rightarrow> oref list \<Rightarrow> oref" where
  "find_object obs name [] = At RT_NULL"
| "find_object obs name (r # rs) =
     (if cstr RT_NAME_MAX (ob_name (obs r)) = cstr RT_NAME_MAX name then r
      else find_object obs name rs)"

definition rt_object_find :: "u8 list option \<Rightarrow> u8 \<Rightarrow> kstate \<Rightarrow> (oref \<times> kstate) option" where
  "rt_object_find name type s =
     (case name of None \<Rightarrow> Some (At RT_NULL, s)
      | Some nm \<Rightarrow>
          if RT_Object_Class_Unknown < type then Some (At RT_NULL, s)
          else do {
            RT_DEBUG_NOT_IN_INTERRUPT s;
            let s = rt_enter_critical s;
            information \<leftarrow> rt_object_get_information type;
            let object = find_object (objects s) nm (containers s information);
            s \<leftarrow> rt_exit_critical s;
            Some (object, s)
          })"

section \<open>Lemmas\<close>

lemma cstr_name_copy [simp]: "cstr n (name_copy n bs) = cstr n bs"
proof -
  have len: "length (cstr n bs) \<le> n"
    by (simp add: cstr_def order_trans [OF length_takeWhile_le])
  have "takeWhile (\<lambda>c. c \<noteq> 0) (take n bs) = cstr n bs" by (simp add: cstr_def)
  then have all: "\<forall>c \<in> set (cstr n bs). c \<noteq> 0" by (metis set_takeWhileD)
  have "cstr n (name_copy n bs) =
      takeWhile (\<lambda>c. c \<noteq> 0) (cstr n bs @ replicate (n - length (cstr n bs)) 0)"
    using len by (subst cstr_def) (simp add: name_copy_def Let_def)
  also have "\<dots> = cstr n bs"
    using all by (subst takeWhile_append2) (auto simp: takeWhile_replicate)
  finally show ?thesis .
qed

lemma rt_object_init_Some:
  "rt_object_init object type name s = Some s' \<longleftrightarrow> unat type < 9 \<and>
     s' = s\<lparr>objects := (objects s)(object := (objects s object)
              \<lparr>ob_type := type OR 0x80, ob_name := name_copy 8 name\<rparr>),
            containers := q_insert_after (unat type) object (containers s)\<rparr>"
  by (auto simp: rt_object_init_def rt_object_get_information_def object_classes_def set_object_def
      Let_def split: if_splits)

lemma rt_object_detach_Some:
  "rt_object_detach object s = Some s' \<longleftrightarrow> object \<noteq> At RT_NULL \<and>
     s' = s\<lparr>containers := q_remove object (containers s)\<rparr>"
  by (auto simp: rt_object_detach_def RT_ASSERT_def)

lemma q_remove_insert_after: "unlinked e q \<Longrightarrow> q_remove e (q_insert_after h e q) = q"
  by (auto simp: q_remove_def q_insert_after_def unlinked_def fun_eq_iff)

lemma find_object_cong:
  "(\<And>r. r \<in> set rs \<Longrightarrow> ob_name (obs r) = ob_name (obs' r)) \<Longrightarrow>
     find_object obs name rs = find_object obs' name rs"
  by (induction rs) auto

section \<open>Properties\<close>

text \<open>
  Registration and lookup: after \<open>rt_object_init\<close> of an object with a name (of any length, as
  \<open>RT_NAME_MAX\<close> bytes of it are kept), \<open>rt_object_find\<close> of that name in that class returns the object,
  whatever else is registered; after \<open>rt_object_detach\<close> a lookup in any class gives what it gave before
  the object was registered.
\<close>

theorem rt_object_find_after_init_and_detach:
  assumes "unat type < 9" "object \<noteq> At RT_NULL" "unlinked object (containers s)"
    and "rt_interrupt_nest s = 0"
  shows "\<exists>s1 s2. rt_object_init object type name s = Some s1 \<and>
    rt_object_detach object s1 = Some s2 \<and>
    (\<forall>s'. rt_exit_critical (rt_enter_critical s1) = Some s' \<longrightarrow>
       rt_object_find (Some name) type s1 = Some (object, s')) \<and>
    (\<forall>n cls. map_option fst (rt_object_find n cls s2) = map_option fst (rt_object_find n cls s))"
proof -
  obtain s1 where 1: "rt_object_init object type name s = Some s1" "unat type < 9"
    "s1 = s\<lparr>objects := (objects s)(object := (objects s object)
              \<lparr>ob_type := type OR 0x80, ob_name := name_copy 8 name\<rparr>),
            containers := q_insert_after (unat type) object (containers s)\<rparr>"
    using rt_object_init_Some [of object type name s] assms(1) by blast
  obtain s2 where 2: "rt_object_detach object s1 = Some s2"
    "s2 = s\<lparr>objects := objects s1\<rparr>"
    using rt_object_detach_Some [of object s1] assms(2,3) by (auto simp: 1(3) q_remove_insert_after)
  have "\<not> RT_Object_Class_Unknown < type" using 1(2) by (simp add: word_less_nat_alt)
  then have find: "rt_object_find (Some name) type s1 = Some (object, s')"
    if "rt_exit_critical (rt_enter_critical s1) = Some s'" for s'
    using that 1(2) assms(4)
    by (simp add: rt_object_find_def rt_object_get_information_def object_classes_def
        RT_DEBUG_NOT_IN_INTERRUPT_def rt_enter_critical_def 1(3) q_insert_after_def)
  have exit: "(rt_exit_critical (rt_enter_critical s2) = None) =
      (rt_exit_critical (rt_enter_critical s) = None)"
    by (auto simp: 2(2) rt_enter_critical_def rt_exit_critical_def Let_def rt_schedule_def
        highest_ready_thread_def rt_scheduler_stack_check_def split: option.splits list.splits
        bind_splits)
  have same: "find_object (objects s2) n (containers s c) = find_object (objects s) n (containers s c)"
    for n c
    using assms(3) by (intro find_object_cong) (auto simp: 2(2) 1(3) unlinked_def)
  have "map_option fst (rt_object_find n cls s2) = map_option fst (rt_object_find n cls s)" for n cls
    using exit same
    by (auto simp: rt_object_find_def rt_enter_critical_def 2(2) RT_DEBUG_NOT_IN_INTERRUPT_def
        rt_object_get_information_def Let_def split: option.splits bind_splits)
  with 1(1) 2(1) find show ?thesis by blast
qed

theorem rt_object_find_after_init_and_detach_witness:
  "\<exists>s1 s'. rt_object_init (At 0x100) RT_Object_Class_Semaphore [115, 0]
       (zero_state\<lparr>rt_scheduler_lock_nest := 1\<rparr>) = Some s1 \<and>
     rt_object_find (Some [115, 0]) RT_Object_Class_Semaphore s1 = Some (At 0x100, s')"
proof -
  let ?s = "zero_state\<lparr>rt_scheduler_lock_nest := 1\<rparr>"
  obtain s1 where s1: "rt_object_init (At 0x100) 1 [115, 0] ?s = Some s1"
    and f: "\<forall>s'. rt_exit_critical (rt_enter_critical s1) = Some s' \<longrightarrow>
       rt_object_find (Some [115, 0]) 1 s1 = Some (At 0x100, s')"
    using rt_object_find_after_init_and_detach [of 1 "At 0x100" ?s "[115, 0]"]
    by (auto simp: unlinked_def)
  have "rt_scheduler_lock_nest s1 = 1" using s1 by (auto simp: rt_object_init_Some)
  then have "\<exists>s'. rt_exit_critical (rt_enter_critical s1) = Some s'"
    by (simp add: rt_exit_critical_def rt_enter_critical_def Let_def)
  with s1 f show ?thesis by blast
qed

end
