(* ===== verification/Timer.thy ===== *)
theory Timer
  imports Object
begin

text \<open>
  \<open>src/src/timer.c\<close>, hard timers with one list level (\<open>RT_TIMER_SKIP_LIST_LEVEL\<close> is 1 and soft timers
  are off in the configuration): the timer list ordered by expiry, and the check the tick interrupt
  runs.  Ticks are 32-bit counters that wrap; the code compares them by the sign of their difference.

  A timeout function is applied through the parameter \<open>cb\<close> of \<open>rt_timer_check\<close>: the kernel's own
  \<open>rt_thread_timeout\<close> comes later (theory Thread), others belong to the application.  The contract
  such a function keeps is the locale \<open>timeout_handler\<close>.
\<close>

section \<open>The code\<close>

type_synonym callback = "timeout_fn \<Rightarrow> ptr \<Rightarrow> kstate \<Rightarrow> kstate option"

text \<open>\<open>RT_TICK_MAX / 2\<close>.\<close>

abbreviation (input) TICK_HALF :: rt_tick_t where "TICK_HALF \<equiv> 0x7fffffff"

definition rt_tick_get :: "kstate \<Rightarrow> rt_tick_t" where
  "rt_tick_get s = rt_tick s"

definition rt_timer_remove :: "oref \<Rightarrow> kstate \<Rightarrow> kstate" where
  "rt_timer_remove timer s = s\<lparr>timer_list := removeAll timer (timer_list s)\<rparr>"

definition set_flag :: "oref \<Rightarrow> (u8 \<Rightarrow> u8) \<Rightarrow> kstate \<Rightarrow> kstate" where
  "set_flag timer f s = set_object timer (\<lambda>r. r\<lparr>ob_flag := f (ob_flag r)\<rparr>) s"

text \<open>\<open>_rt_timer_init\<close>: \<open>rt_list_init\<close> of the row leaves the timer on no list.\<close>

definition rt_timer_init' :: "oref \<Rightarrow> timeout_fn \<Rightarrow> ptr \<Rightarrow> rt_tick_t \<Rightarrow> u8 \<Rightarrow> kstate \<Rightarrow> kstate" where
  "rt_timer_init' timer timeout parameter time flag s =
     (let s = set_flag timer (\<lambda>_. flag) s;
          s = set_flag timer (\<lambda>f. f AND NOT RT_TIMER_FLAG_ACTIVATED) s
      in set_timer timer (\<lambda>_. \<lparr>tm_timeout_func = timeout, tm_parameter = parameter,
           tm_init_tick = time, tm_timeout_tick = 0\<rparr>) s)"

definition rt_timer_list_next_timeout :: "kstate \<Rightarrow> rt_tick_t" where
  "rt_timer_list_next_timeout s =
     (case timer_list s of [] \<Rightarrow> RT_TICK_MAX | t # _ \<Rightarrow> tm_timeout_tick (timers s t))"

definition rt_timer_init ::
  "oref \<Rightarrow> u8 list \<Rightarrow> timeout_fn \<Rightarrow> ptr \<Rightarrow> rt_tick_t \<Rightarrow> u8 \<Rightarrow> kstate \<Rightarrow> kstate option" where
  "rt_timer_init timer name timeout parameter time flag s = do {
     RT_ASSERT (timer \<noteq> At RT_NULL);
     s \<leftarrow> rt_object_init timer RT_Object_Class_Timer name s;
     Some (rt_timer_init' timer timeout parameter time flag s)
   }"

definition rt_timer_detach :: "oref \<Rightarrow> kstate \<Rightarrow> (rt_err_t \<times> kstate) option" where
  "rt_timer_detach timer s = do {
     RT_ASSERT (timer \<noteq> At RT_NULL);
     let s = rt_timer_remove timer s;
     s \<leftarrow> rt_object_detach timer s;
     Some (- RT_EOK, s)
   }"

text \<open>The search for the insertion point and the insertion behind it: past every timer that expires
  earlier or at the same time.\<close>

fun timer_insert :: "(oref \<Rightarrow> rt_timer) \<Rightarrow> oref \<Rightarrow> oref list \<Rightarrow> oref list" where
  "timer_insert tms timer [] = [timer]"
| "timer_insert tms timer (t # ts) =
     (let d = tm_timeout_tick (tms t) - tm_timeout_tick (tms timer) in
      if d = 0 then t # timer_insert tms timer ts
      else if d < TICK_HALF then timer # t # ts
      else t # timer_insert tms timer ts)"

definition rt_timer_start :: "oref \<Rightarrow> kstate \<Rightarrow> (rt_err_t \<times> kstate) option" where
  "rt_timer_start timer s = do {
     RT_ASSERT (timer \<noteq> At RT_NULL);
     let s = rt_timer_remove timer s;
     let s = set_flag timer (\<lambda>f. f AND NOT RT_TIMER_FLAG_ACTIVATED) s;
     RT_ASSERT (tm_init_tick (timers s timer) < TICK_HALF);
     let s = set_timer timer (\<lambda>t. t\<lparr>tm_timeout_tick := rt_tick_get s + tm_init_tick t\<rparr>) s;
     let s = s\<lparr>timer_list := timer_insert (timers s) timer (timer_list s)\<rparr>;
     let s = set_flag timer (\<lambda>f. f OR RT_TIMER_FLAG_ACTIVATED) s;
     Some (- RT_EOK, s)
   }"

definition rt_timer_stop :: "oref \<Rightarrow> kstate \<Rightarrow> (rt_err_t \<times> kstate) option" where
  "rt_timer_stop timer s = do {
     RT_ASSERT (timer \<noteq> At RT_NULL);
     if ob_flag (objects s timer) AND RT_TIMER_FLAG_ACTIVATED = 0
     then Some (- RT_ERROR, s)
     else Some (RT_EOK, set_flag timer (\<lambda>f. f AND NOT RT_TIMER_FLAG_ACTIVATED) (rt_timer_remove timer s))
   }"

text \<open>\<open>rt_timer_control\<close>: \<open>arg\<close> is the word behind the pointer, before and after the call.\<close>

definition rt_timer_control :: "oref \<Rightarrow> u8 \<Rightarrow> u32 \<Rightarrow> kstate \<Rightarrow> (rt_err_t \<times> u32 \<times> kstate) option" where
  "rt_timer_control timer cmd arg s = do {
     RT_ASSERT (timer \<noteq> At RT_NULL);
     if cmd = 1 then Some (RT_EOK, tm_init_tick (timers s timer), s)
     else if cmd = 0 then Some (RT_EOK, arg, set_timer timer (\<lambda>t. t\<lparr>tm_init_tick := arg\<rparr>) s)
     else if cmd = 2
     then Some (RT_EOK, arg, set_flag timer (\<lambda>f. f AND NOT RT_TIMER_FLAG_PERIODIC) s)
     else if cmd = 3 then Some (RT_EOK, arg, set_flag timer (\<lambda>f. f OR RT_TIMER_FLAG_PERIODIC) s)
     else Some (RT_EOK, arg, s)
   }"

text \<open>The body of the loop of \<open>rt_timer_check\<close> for a timer \<open>t\<close> that has expired.\<close>

definition timer_expire :: "callback \<Rightarrow> oref \<Rightarrow> kstate \<Rightarrow> kstate option" where
  "timer_expire cb t s = do {
     let s = rt_timer_remove t s;
     s \<leftarrow> cb (tm_timeout_func (timers s t)) (tm_parameter (timers s t)) s;
     if ob_flag (objects s t) AND RT_TIMER_FLAG_PERIODIC \<noteq> 0 \<and>
        ob_flag (objects s t) AND RT_TIMER_FLAG_ACTIVATED \<noteq> 0
     then do {
       let s = set_flag t (\<lambda>f. f AND NOT RT_TIMER_FLAG_ACTIVATED) s;
       (_, s) \<leftarrow> rt_timer_start t s;
       Some s
     }
     else Some (set_flag t (\<lambda>f. f AND NOT RT_TIMER_FLAG_ACTIVATED) s)
   }"

text \<open>The loop; besides the state it returns the timers it expired, in order.\<close>

partial_function (option) timer_check_loop ::
  "callback \<Rightarrow> rt_tick_t \<Rightarrow> kstate \<Rightarrow> (oref list \<times> kstate) option" where
  "timer_check_loop cb current_tick s =
     (case timer_list s of
        [] \<Rightarrow> Some ([], s)
      | t # _ \<Rightarrow>
          if current_tick - tm_timeout_tick (timers s t) < TICK_HALF
          then Option.bind (timer_expire cb t s) (\<lambda>s.
                 Option.bind (timer_check_loop cb (rt_tick_get s) s) (\<lambda>(ts, s). Some (t # ts, s)))
          else Some ([], s))"

definition rt_timer_check :: "callback \<Rightarrow> kstate \<Rightarrow> (oref list \<times> kstate) option" where
  "rt_timer_check cb s = timer_check_loop cb (rt_tick_get s) s"

definition rt_timer_next_timeout_tick :: "kstate \<Rightarrow> rt_tick_t" where
  "rt_timer_next_timeout_tick s = rt_timer_list_next_timeout s"

definition rt_system_timer_init :: "kstate \<Rightarrow> kstate" where
  "rt_system_timer_init s = s\<lparr>timer_list := []\<rparr>"

section \<open>The order of the list\<close>

text \<open>
  The time left, counted from the previous tick so that a timer which expires in the current tick or
  expired in the previous one still has its place: \<open>0\<close> and \<open>1\<close> mean due.
\<close>

definition time_left :: "kstate \<Rightarrow> oref \<Rightarrow> nat" where
  "time_left s t = unat (tm_timeout_tick (timers s t) - (rt_tick s - 1))"

definition timer_inv :: "kstate \<Rightarrow> bool" where
  "timer_inv s \<longleftrightarrow> distinct (timer_list s) \<and> sorted (map (time_left s) (timer_list s)) \<and>
     (\<forall>t \<in> set (timer_list s). time_left s t \<le> 0x7fffffff)"

lemma time_left_cong:
  "timers s' = timers s \<Longrightarrow> rt_tick s' = rt_tick s \<Longrightarrow> time_left s' = time_left s"
  by (simp add: time_left_def fun_eq_iff)

lemma timer_inv_cong:
  "timers s' = timers s \<Longrightarrow> rt_tick s' = rt_tick s \<Longrightarrow> timer_list s' = timer_list s \<Longrightarrow>
     timer_inv s' = timer_inv s"
  using time_left_cong [of s' s] by (simp add: timer_inv_def)

lemma tick_compare:
  fixes a b base :: u32
  assumes "unat (a - base) \<le> 0x7fffffff" "0 < unat (b - base)" "unat (b - base) \<le> 0x7fffffff"
  shows "a - b \<noteq> 0 \<and> a - b < TICK_HALF \<longleftrightarrow> unat (b - base) < unat (a - base)"
proof -
  have d: "a - b = (a - base) - (b - base)" by simp
  consider "unat (b - base) < unat (a - base)" | "a - base = b - base"
    | "unat (a - base) < unat (b - base)"
    by (metis linorder_neqE_nat word_unat_eq_iff)
  then show ?thesis
  proof cases
    case 1
    then have "unat (a - b) = unat (a - base) - unat (b - base)"
      unfolding d by (intro unat_sub) (simp add: word_le_nat_alt)
    then show ?thesis using 1 assms by (auto simp: word_less_nat_alt)
  next
    case 2
    then show ?thesis by simp
  next
    case 3
    then have "unat (a - b) = 2 ^ 32 - unat (b - base) + unat (a - base)"
      unfolding d by (rule unat_minus_wrap)
    then show ?thesis using 3 assms by (auto simp: word_less_nat_alt)
  qed
qed

lemma timer_insert_split:
  assumes "\<And>t. t \<in> set ts \<Longrightarrow> time_left s t \<le> 0x7fffffff"
    and "0 < time_left s x" "time_left s x \<le> 0x7fffffff"
  shows "timer_insert (timers s) x ts =
    takeWhile (\<lambda>t. time_left s t \<le> time_left s x) ts @ x #
    dropWhile (\<lambda>t. time_left s t \<le> time_left s x) ts"
  using assms(1)
proof (induction ts)
  case (Cons t ts)
  have "tm_timeout_tick (timers s t) - tm_timeout_tick (timers s x) \<noteq> 0 \<and>
      tm_timeout_tick (timers s t) - tm_timeout_tick (timers s x) < TICK_HALF \<longleftrightarrow>
      time_left s x < time_left s t"
    using Cons.prems [of t] assms(2,3) unfolding time_left_def by (intro tick_compare) auto
  then show ?case using Cons by (auto simp: Let_def)
qed simp

lemma set_insert_split:
  "set (takeWhile P ts @ x # dropWhile P ts) = insert x (set ts)"
  by (metis Un_insert_right list.simps(15) set_append takeWhile_dropWhile_id)

lemma sorted_insert_split:
  fixes f :: "'a \<Rightarrow> nat"
  assumes "sorted (map f ts)"
  shows "sorted (map f (takeWhile (\<lambda>t. f t \<le> f x) ts @ x # dropWhile (\<lambda>t. f t \<le> f x) ts))"
    (is "sorted (map f (?ins ts))")
  using assms
proof (induction ts)
  case (Cons t ts)
  show ?case
  proof (cases "f t \<le> f x")
    case True
    have "f t \<le> f u" if "u \<in> set (?ins ts)" for u
      using that True Cons.prems unfolding set_insert_split by auto
    then show ?thesis using True Cons by (simp del: map_append)
  next
    case False
    then show ?thesis using Cons.prems by (auto intro: less_imp_le less_le_trans)
  qed
qed simp

lemma distinct_insert_split:
  assumes "distinct ts" "x \<notin> set ts"
  shows "distinct (takeWhile P ts @ x # dropWhile P ts)"
proof -
  have "distinct (takeWhile P ts @ dropWhile P ts)" using assms(1) by simp
  then show ?thesis using assms(2) by (auto dest: set_takeWhileD set_dropWhileD simp del: takeWhile_dropWhile_id)
qed

section \<open>Starting and stopping\<close>

lemma set_flag_fields [simp]:
  "threads (set_flag r f s) = threads s" "containers (set_flag r f s) = containers s"
  "tqs (set_flag r f s) = tqs s" "timers (set_flag r f s) = timers s"
  "timer_list (set_flag r f s) = timer_list s" "ready_group (set_flag r f s) = ready_group s"
  "rt_current_thread (set_flag r f s) = rt_current_thread s"
  "rt_scheduler_lock_nest (set_flag r f s) = rt_scheduler_lock_nest s"
  "rt_interrupt_nest (set_flag r f s) = rt_interrupt_nest s" "rt_tick (set_flag r f s) = rt_tick s"
  "switches (set_flag r f s) = switches s" "sems (set_flag r f s) = sems s"
  by (simp_all add: set_flag_def)

lemma objects_set_flag:
  "objects (set_flag r f s) = (objects s)(r := (objects s r)\<lparr>ob_flag := f (ob_flag (objects s r))\<rparr>)"
  by (simp add: set_flag_def)

lemma rt_timer_remove_fields [simp]:
  "threads (rt_timer_remove r s) = threads s" "containers (rt_timer_remove r s) = containers s"
  "tqs (rt_timer_remove r s) = tqs s" "timers (rt_timer_remove r s) = timers s"
  "objects (rt_timer_remove r s) = objects s" "ready_group (rt_timer_remove r s) = ready_group s"
  "rt_current_thread (rt_timer_remove r s) = rt_current_thread s"
  "rt_scheduler_lock_nest (rt_timer_remove r s) = rt_scheduler_lock_nest s"
  "rt_interrupt_nest (rt_timer_remove r s) = rt_interrupt_nest s"
  "rt_tick (rt_timer_remove r s) = rt_tick s" "switches (rt_timer_remove r s) = switches s"
  "sems (rt_timer_remove r s) = sems s"
  "timer_list (rt_timer_remove r s) = removeAll r (timer_list s)"
  by (simp_all add: rt_timer_remove_def)

text \<open>What \<open>rt_timer_start\<close> does to the state, in one record update.\<close>

definition started :: "oref \<Rightarrow> kstate \<Rightarrow> kstate" where
  "started timer s =
     (let tms = (timers s)(timer := (timers s timer)
          \<lparr>tm_timeout_tick := rt_tick s + tm_init_tick (timers s timer)\<rparr>)
      in s\<lparr>timers := tms, timer_list := timer_insert tms timer (removeAll timer (timer_list s)),
           objects := (objects s)(timer := (objects s timer)
             \<lparr>ob_flag := ob_flag (objects s timer) AND NOT 1 OR 1\<rparr>)\<rparr>)"

lemma rt_timer_start_eq:
  "rt_timer_start timer s =
     (if timer \<noteq> At RT_NULL \<and> tm_init_tick (timers s timer) < TICK_HALF
      then Some (RT_EOK, started timer s) else None)"
  by (simp add: rt_timer_start_def started_def rt_timer_remove_def set_flag_def set_object_def
      set_timer_def rt_tick_get_def RT_ASSERT_def Let_def)

lemma started_fields [simp]:
  "threads (started r s) = threads s" "containers (started r s) = containers s"
  "tqs (started r s) = tqs s" "ready_group (started r s) = ready_group s"
  "rt_current_thread (started r s) = rt_current_thread s"
  "rt_scheduler_lock_nest (started r s) = rt_scheduler_lock_nest s"
  "rt_interrupt_nest (started r s) = rt_interrupt_nest s" "rt_tick (started r s) = rt_tick s"
  "switches (started r s) = switches s" "sems (started r s) = sems s"
  "timers (started timer s) = (timers s)(timer := (timers s timer)
     \<lparr>tm_timeout_tick := rt_tick s + tm_init_tick (timers s timer)\<rparr>)"
  by (simp_all add: started_def Let_def)

lemma time_left_started:
  "time_left (started r s) t = (if t = r then unat (tm_init_tick (timers s r) + 1) else time_left s t)"
  by (simp add: time_left_def algebra_simps)

lemma timer_list_started:
  assumes "timer_inv s" "tm_init_tick (timers s r) < TICK_HALF"
  defines "k \<equiv> \<lambda>t. time_left (started r s) t \<le> time_left (started r s) r"
  shows "timer_list (started r s) =
    takeWhile k (removeAll r (timer_list s)) @ r # dropWhile k (removeAll r (timer_list s))"
    "0 < time_left (started r s) r" "time_left (started r s) r \<le> 0x7fffffff"
    "time_left (started r s) r = unat (tm_init_tick (timers s r)) + 1"
proof -
  have i: "unat (tm_init_tick (timers s r) + 1) = unat (tm_init_tick (timers s r)) + 1"
    using assms(2) by (subst unat_add_lem [THEN iffD1]) (simp_all add: word_less_nat_alt)
  then show l: "0 < time_left (started r s) r" "time_left (started r s) r \<le> 0x7fffffff"
    "time_left (started r s) r = unat (tm_init_tick (timers s r)) + 1"
    using assms(2) by (simp_all add: time_left_started word_less_nat_alt)
  have "time_left (started r s) t \<le> 0x7fffffff" if "t \<in> set (removeAll r (timer_list s))" for t
    using that assms(1) by (auto simp: timer_inv_def time_left_started)
  from timer_insert_split [of _ "started r s" r, OF this l(1,2)]
  have "timer_insert (timers (started r s)) r (removeAll r (timer_list s)) =
    takeWhile k (removeAll r (timer_list s)) @ r # dropWhile k (removeAll r (timer_list s))"
    unfolding k_def .
  moreover have "timer_list (started r s) =
      timer_insert (timers (started r s)) r (removeAll r (timer_list s))"
    by (simp add: started_def Let_def)
  ultimately show "timer_list (started r s) =
    takeWhile k (removeAll r (timer_list s)) @ r # dropWhile k (removeAll r (timer_list s))" by simp
qed

lemma sorted_removeAll: "sorted (map f xs) \<Longrightarrow> sorted (map f (removeAll x xs))"
  by (metis removeAll_filter_not_eq sorted_filter)

lemma timer_inv_remove: "timer_inv s \<Longrightarrow> timer_inv (rt_timer_remove r s)"
proof -
  have "time_left (rt_timer_remove r s) = time_left s" by (simp add: time_left_def fun_eq_iff)
  then show "timer_inv s \<Longrightarrow> timer_inv (rt_timer_remove r s)"
    by (auto simp: timer_inv_def sorted_removeAll distinct_removeAll)
qed

lemma timer_inv_started:
  assumes "timer_inv s" "tm_init_tick (timers s r) < TICK_HALF"
  shows "timer_inv (started r s)" "set (timer_list (started r s)) = insert r (set (timer_list s))"
proof -
  let ?ts = "removeAll r (timer_list s)" and ?f = "time_left (started r s)"
  note e = timer_list_started [OF assms]
  have same: "map ?f ?ts = map (time_left s) ?ts" by (simp add: time_left_started)
  have "sorted (map ?f ?ts)" using assms(1) unfolding same by (simp add: timer_inv_def sorted_removeAll)
  from sorted_insert_split [OF this, of r] distinct_insert_split [of ?ts r]
  show "timer_inv (started r s)"
    using assms(1) e(2-4) unfolding timer_inv_def e(1)
    by (auto simp: distinct_removeAll time_left_started dest!: set_takeWhileD set_dropWhileD)
  show "set (timer_list (started r s)) = insert r (set (timer_list s))"
    unfolding e(1) set_insert_split by auto
qed

lemma time_left_tick:
  assumes "0 < time_left s t"
  shows "time_left (s\<lparr>rt_tick := rt_tick s + 1\<rparr>) t = time_left s t - 1"
proof -
  have "tm_timeout_tick (timers s t) - rt_tick s = (tm_timeout_tick (timers s t) - (rt_tick s - 1)) - 1"
    by simp
  moreover have "tm_timeout_tick (timers s t) - (rt_tick s - 1) \<noteq> 0"
    using assms by (auto simp: time_left_def)
  ultimately have "unat (tm_timeout_tick (timers s t) - rt_tick s) = time_left s t - 1"
    unfolding time_left_def by (metis unat_minus_one)
  then show ?thesis by (simp add: time_left_def)
qed

lemma timer_inv_tick:
  assumes "timer_inv s" "\<And>t. t \<in> set (timer_list s) \<Longrightarrow> 0 < time_left s t"
  shows "timer_inv (s\<lparr>rt_tick := rt_tick s + 1\<rparr>)"
proof -
  have "map (time_left (s\<lparr>rt_tick := rt_tick s + 1\<rparr>)) (timer_list s) =
      map (\<lambda>t. time_left s t - 1) (timer_list s)"
    using assms(2) by (simp add: time_left_tick)
  moreover have "sorted (map (\<lambda>t. time_left s t - 1) (timer_list s))"
    using assms(1) by (auto simp: timer_inv_def sorted_map intro: sorted_wrt_mono_rel [rotated])
  ultimately have "sorted (map (time_left (s\<lparr>rt_tick := rt_tick s + 1\<rparr>)) (timer_list s))"
    by (simp only:)
  then show ?thesis using assms by (auto simp: timer_inv_def time_left_tick le_diff_conv)
qed

text \<open>The test of \<open>rt_timer_check\<close>.\<close>

lemma due_iff:
  assumes "time_left s t \<le> 0x7fffffff"
  shows "rt_tick s - tm_timeout_tick (timers s t) < TICK_HALF \<longleftrightarrow> time_left s t \<le> 1"
proof -
  define x where "x = tm_timeout_tick (timers s t) - (rt_tick s - 1)"
  have d: "rt_tick s - tm_timeout_tick (timers s t) = 1 - x" by (simp add: x_def)
  have l: "time_left s t = unat x" by (simp add: time_left_def x_def)
  show ?thesis
  proof (cases "unat x \<le> 1")
    case True
    then have "unat (1 - x) = 1 - unat x" by (simp add: unat_sub word_le_nat_alt)
    then show ?thesis using True by (simp add: d l word_less_nat_alt)
  next
    case False
    then have "unat (1 - x) = 2 ^ 32 - unat x + 1" using unat_minus_wrap [of 1 x] by simp
    then show ?thesis using False assms by (simp add: d l word_less_nat_alt)
  qed
qed

section \<open>The check in the tick interrupt\<close>

definition periodic :: "kstate \<Rightarrow> oref \<Rightarrow> bool" where
  "periodic s t \<longleftrightarrow> ob_flag (objects s t) AND RT_TIMER_FLAG_PERIODIC \<noteq> 0"

definition activated :: "kstate \<Rightarrow> oref \<Rightarrow> bool" where
  "activated s t \<longleftrightarrow> ob_flag (objects s t) AND RT_TIMER_FLAG_ACTIVATED \<noteq> 0"

text \<open>Periods are positive and below half the tick range, as \<open>rt_timer_start\<close> demands.\<close>

definition periods_ok :: "kstate \<Rightarrow> bool" where
  "periods_ok s \<longleftrightarrow> (\<forall>t \<in> set (timer_list s). t \<noteq> At RT_NULL \<and>
     (periodic s t \<longrightarrow> 0 < tm_init_tick (timers s t) \<and> tm_init_tick (timers s t) < TICK_HALF))"

definition same_timers :: "kstate \<Rightarrow> kstate \<Rightarrow> bool" where
  "same_timers s s' \<longleftrightarrow> timers s' = timers s \<and> timer_list s' = timer_list s \<and>
     objects s' = objects s \<and> rt_tick s' = rt_tick s"

text \<open>
  The contract of timeout functions: started in a state that satisfies \<open>P\<close> for a timer that has just
  been taken off the list, the function returns, leaves the timers alone, keeps \<open>P\<close> and has its effect
  \<open>E t\<close> on the threads without undoing that of another timer; and \<open>P\<close> survives what the check itself
  does to timers.
\<close>

locale timeout_handler =
  fixes cb :: callback and P :: "kstate \<Rightarrow> bool" and E :: "oref \<Rightarrow> kstate \<Rightarrow> bool"
  assumes handles: "P s \<Longrightarrow> t \<in> set (timer_list s) \<Longrightarrow>
      \<exists>s'. cb (tm_timeout_func (timers s t)) (tm_parameter (timers s t)) (rt_timer_remove t s) = Some s' \<and>
           P s' \<and> same_timers (rt_timer_remove t s) s' \<and> E t s' \<and> (\<forall>u. E u s \<longrightarrow> E u s')"
    and E_frame: "threads s' = threads s \<Longrightarrow> E u s \<Longrightarrow> E u s'"
    and P_deactivate: "P s \<Longrightarrow> t \<notin> set (timer_list s) \<Longrightarrow>
      P (set_flag t (\<lambda>f. f AND NOT RT_TIMER_FLAG_ACTIVATED) s)"
    and P_restart: "P s0 \<Longrightarrow> t \<in> set (timer_list s0) \<Longrightarrow> periodic s0 t \<Longrightarrow>
      P s \<Longrightarrow> timers s = timers s0 \<Longrightarrow> timer_inv s \<Longrightarrow> tm_init_tick (timers s t) < TICK_HALF \<Longrightarrow>
      P (started t s)"

lemma takeWhile_insert_split:
  "(\<And>u. R u \<Longrightarrow> Q u) \<Longrightarrow> \<not> R x \<Longrightarrow>
     takeWhile R (takeWhile Q ts @ x # dropWhile Q ts) = takeWhile R ts"
  by (induction ts) auto

lemma flag_bits:
  "(f AND - 2) AND 2 = f AND (2 :: u8)" "(f AND - 2 OR 1) AND 2 = f AND (2 :: u8)"
  by (simp_all add: bit.conj_disj_distrib2 and.assoc)

lemma periodic_set_flag [simp]:
  "periodic (set_flag r (\<lambda>f. f AND - 2) s) t = periodic s t"
  by (simp only: periodic_def objects_set_flag fun_upd_apply) (simp add: flag_bits)

lemma periodic_started [simp]: "periodic (started r s) t = periodic s t"
  by (simp add: periodic_def started_def Let_def flag_bits)

lemma periodic_remove [simp]:
  "periodic (rt_timer_remove r s) t = periodic s t" "activated (rt_timer_remove r s) t = activated s t"
  by (simp_all add: periodic_def activated_def)

lemma activated_other [simp]:
  "u \<noteq> r \<Longrightarrow> activated (started r s) u = activated s u"
  "u \<noteq> r \<Longrightarrow> activated (set_flag r f s) u = activated s u"
  by (simp_all add: activated_def started_def set_flag_def Let_def)

lemma time_left_set_flag [simp]: "time_left (set_flag r f s) = time_left s"
  by (simp add: time_left_def fun_eq_iff)

lemma time_left_remove [simp]: "time_left (rt_timer_remove r s) = time_left s"
  by (simp add: time_left_def fun_eq_iff)

lemma timer_inv_set_flag [simp]: "timer_inv (set_flag r f s) = timer_inv s"
  by (simp add: timer_inv_def)

lemma same_timersD:
  assumes "same_timers s s'"
  shows "time_left s' = time_left s" "timer_list s' = timer_list s" "objects s' = objects s"
    "timers s' = timers s" "rt_tick s' = rt_tick s" "timer_inv s' = timer_inv s"
    "periods_ok s' = periods_ok s" "periodic s' = periodic s" "activated s' = activated s"
proof -
  show l: "time_left s' = time_left s"
    using assms by (simp add: same_timers_def time_left_def fun_eq_iff)
  show "timer_inv s' = timer_inv s" using assms by (simp add: l timer_inv_def same_timers_def)
  show p: "periodic s' = periodic s" "activated s' = activated s"
    using assms by (simp_all add: same_timers_def periodic_def activated_def fun_eq_iff)
  show "periods_ok s' = periods_ok s" using assms by (simp add: p periods_ok_def same_timers_def)
qed (use assms in \<open>simp_all add: same_timers_def\<close>)

context timeout_handler
begin

text \<open>One expired timer: it is gone from the list, or back with a full period.\<close>

lemma expire_one:
  assumes "P s" "timer_inv s" "periods_ok s" "timer_list s = t # ts" "time_left s t \<le> 1"
  obtains s' where "timer_expire cb t s = Some s'" "P s'" "timer_inv s'" "periods_ok s'"
    "rt_tick s' = rt_tick s" "\<And>u. u \<noteq> t \<Longrightarrow> time_left s' u = time_left s u"
    "\<And>u. periodic s' u = periodic s u" "\<And>u. u \<noteq> t \<Longrightarrow> activated s' u = activated s u"
    "takeWhile (\<lambda>u. time_left s' u \<le> 1) (timer_list s') = takeWhile (\<lambda>u. time_left s u \<le> 1) ts"
    "set (timer_list s') = set ts \<union> (if periodic s t \<and> activated s t then {t} else {})"
    "periodic s t \<and> activated s t \<Longrightarrow> 2 \<le> time_left s' t" "E t s'" "\<And>u. E u s \<Longrightarrow> E u s'"
    "\<And>u. u \<noteq> t \<Longrightarrow> timers s' u = timers s u"
proof -
  let ?s1 = "rt_timer_remove t s"
  have d: "t \<notin> set ts" using assms(2,4) by (simp add: timer_inv_def)
  obtain s2 where cb: "cb (tm_timeout_func (timers s t)) (tm_parameter (timers s t)) ?s1 = Some s2"
    and P2: "P s2" and same: "same_timers ?s1 s2" and E2: "E t s2" "\<forall>u. E u s \<longrightarrow> E u s2"
    using handles [OF assms(1), of t] assms(4) by auto
  note f = same_timersD [OF same]
  have l2: "timer_list s2 = ts" using d assms(4) by (simp add: f)
  have per: "periodic s2 u = periodic s u" "activated s2 u = activated s u" for u
    by (simp_all add: f periodic_def activated_def)
  have inv2: "timer_inv s2" unfolding f(6) by (rule timer_inv_remove [OF assms(2)])
  let ?s3 = "set_flag t (\<lambda>f. f AND NOT RT_TIMER_FLAG_ACTIVATED) s2"
  have tw: "takeWhile (\<lambda>u. time_left s2 u \<le> 1) ts = takeWhile (\<lambda>u. time_left s u \<le> 1) ts"
    by (simp add: f)
  have e: "timer_expire cb t s = (if periodic s t \<and> activated s t
      then Option.bind (rt_timer_start t ?s3) (\<lambda>(_, s). Some s) else Some ?s3)"
    using cb f(3) by (auto simp: timer_expire_def periodic_def activated_def f(4) Let_def)
  have t: "t \<noteq> At RT_NULL" using assms(3,4) by (simp add: periods_ok_def)
  show ?thesis
  proof (cases "periodic s t \<and> activated s t")
    case True
    then have init: "0 < tm_init_tick (timers ?s3 t)" "tm_init_tick (timers ?s3 t) < TICK_HALF"
      using assms(3,4) by (auto simp: periods_ok_def f)
    let ?s4 = "started t ?s3"
    have inv3: "timer_inv ?s3" using inv2 by simp
    have left: "time_left ?s4 t = unat (tm_init_tick (timers ?s3 t)) + 1"
      by (rule timer_list_started(4) [OF inv3 init(2)])
    have two: "2 \<le> time_left ?s4 t" using init(1) unfolding left by (simp add: word_less_nat_alt)
    have other: "time_left ?s4 u = time_left s u" if "u \<noteq> t" for u
      using that by (simp add: time_left_started f)
    have rm: "removeAll t (timer_list ?s3) = ts" using d l2 by simp
    have tw4: "takeWhile (\<lambda>u. time_left ?s4 u \<le> 1) (timer_list ?s4) = takeWhile (\<lambda>u. time_left s u \<le> 1) ts"
    proof -
      have "takeWhile (\<lambda>u. time_left ?s4 u \<le> 1) (timer_list ?s4) = takeWhile (\<lambda>u. time_left ?s4 u \<le> 1) ts"
        unfolding timer_list_started(1) [OF inv3 init(2)] rm
        by (rule takeWhile_insert_split) (use two in auto)
      also have "\<dots> = takeWhile (\<lambda>u. time_left s u \<le> 1) ts"
      proof (rule takeWhile_cong [OF refl])
        fix u assume "u \<in> set ts"
        then have "u \<noteq> t" using d by auto
        then show "(time_left ?s4 u \<le> 1) = (time_left s u \<le> 1)" 
          using other [of u] by (simp only: simp_thms)
      qed
      finally show ?thesis .
    qed
    show ?thesis
    proof (rule that [of ?s4])
      show "timer_expire cb t s = Some ?s4" using True t init by (simp add: e rt_timer_start_eq)
      show "P ?s4"
      proof (rule P_restart [OF assms(1)])
        show "P ?s3" using P_deactivate [OF P2] d l2 by simp
      qed (use True assms(4) f inv3 init in auto)
      show "timer_inv ?s4" by (rule timer_inv_started(1) [OF inv3 init(2)])
      show "set (timer_list ?s4) = set ts \<union> (if periodic s t \<and> activated s t then {t} else {})"
        using True timer_inv_started(2) [OF inv3 init(2)] l2 by simp
      then show "periods_ok ?s4"
        using assms(3,4) init t True by (auto simp: periods_ok_def per f split: if_splits)
      show "E t ?s4" "\<And>u. E u s \<Longrightarrow> E u ?s4" using E2 by (auto intro: E_frame [of _ s2])
    qed (use other two tw4 per f(4,5) in auto)
  next
    case False
    show ?thesis
    proof (rule that [of ?s3])
      show "periods_ok ?s3" using assms(3,4) by (auto simp: periods_ok_def per f l2)
      show "P ?s3" using P_deactivate [OF P2] d l2 by simp
      show "E t ?s3" "\<And>u. E u s \<Longrightarrow> E u ?s3" using E2 by (auto intro: E_frame [of _ s2])
    qed (use False e inv2 l2 tw per f in auto)
  qed
qed

text \<open>The whole check: it returns, having expired exactly the timers that are due, in order.\<close>

lemma check_loop:
  assumes "P s" "timer_inv s" "periods_ok s"
  shows "\<exists>s'. timer_check_loop cb (rt_tick s) s =
      Some (takeWhile (\<lambda>t. time_left s t \<le> 1) (timer_list s), s') \<and>
    P s' \<and> timer_inv s' \<and> periods_ok s' \<and> rt_tick s' = rt_tick s \<and>
    (\<forall>t. time_left s t \<le> 1 \<and> t \<in> set (timer_list s) \<or> E t s \<longrightarrow> E t s') \<and>
    (\<forall>t \<in> set (timer_list s'). 2 \<le> time_left s' t) \<and>
    (\<forall>t. 2 \<le> time_left s t \<longrightarrow> timers s' t = timers s t) \<and>
    set (timer_list s') = {t \<in> set (timer_list s). 2 \<le> time_left s t \<or> periodic s t \<and> activated s t}"
  using assms
proof (induction "length (takeWhile (\<lambda>t. time_left s t \<le> 1) (timer_list s))" arbitrary: s)
  case 0
  have late: "2 \<le> time_left s t" if t: "t \<in> set (timer_list s)" for t
  proof -
    obtain u us where l: "timer_list s = u # us" using t by (cases "timer_list s") auto
    then have "2 \<le> time_left s u" using 0(1) by (cases "time_left s u \<le> 1") simp_all
    then show ?thesis using t l 0(3) by (auto simp: timer_inv_def)
  qed
  have "timer_check_loop cb (rt_tick s) s = Some ([], s)"
  proof (cases "timer_list s")
    case Nil
    then show ?thesis by (simp add: timer_check_loop.simps)
  next
    case (Cons u us)
    then have "\<not> rt_tick s - tm_timeout_tick (timers s u) < TICK_HALF"
      using due_iff [of s u] late [of u] 0(3) by (auto simp: timer_inv_def)
    then show ?thesis using Cons by (simp add: timer_check_loop.simps)
  qed
  moreover have "takeWhile (\<lambda>t. time_left s t \<le> 1) (timer_list s) = []" using 0(1) by simp
  ultimately show ?case using 0 late by fastforce
next
  case (Suc n)
  then obtain t ts where l: "timer_list s = t # ts" by (cases "timer_list s") auto
  have due: "time_left s t \<le> 1" using Suc(2) l by (cases "time_left s t \<le> 1") simp_all
  obtain s1 where s1: "timer_expire cb t s = Some s1" "P s1" "timer_inv s1" "periods_ok s1"
    "rt_tick s1 = rt_tick s" "\<And>u. u \<noteq> t \<Longrightarrow> time_left s1 u = time_left s u"
    "\<And>u. periodic s1 u = periodic s u" "\<And>u. u \<noteq> t \<Longrightarrow> activated s1 u = activated s u"
    "takeWhile (\<lambda>u. time_left s1 u \<le> 1) (timer_list s1) = takeWhile (\<lambda>u. time_left s u \<le> 1) ts"
    "set (timer_list s1) = set ts \<union> (if periodic s t \<and> activated s t then {t} else {})"
    "periodic s t \<and> activated s t \<Longrightarrow> 2 \<le> time_left s1 t" "E t s1" "\<And>u. E u s \<Longrightarrow> E u s1"
    "\<And>u. u \<noteq> t \<Longrightarrow> timers s1 u = timers s u"
    by (rule expire_one [OF Suc(3-5) l due]) blast
  have d: "t \<notin> set ts" using Suc(4) l by (simp add: timer_inv_def)
  have "n = length (takeWhile (\<lambda>u. time_left s1 u \<le> 1) (timer_list s1))"
    using Suc(2) l due unfolding s1(9) by simp
  from Suc(1) [OF this s1(2-4)] obtain s' where s':
    "timer_check_loop cb (rt_tick s1) s1 = Some (takeWhile (\<lambda>t. time_left s1 t \<le> 1) (timer_list s1), s')"
    "P s'" "timer_inv s'" "periods_ok s'" "rt_tick s' = rt_tick s1"
    "\<forall>t. time_left s1 t \<le> 1 \<and> t \<in> set (timer_list s1) \<or> E t s1 \<longrightarrow> E t s'"
    "\<forall>t \<in> set (timer_list s'). 2 \<le> time_left s' t"
    "\<forall>t. 2 \<le> time_left s1 t \<longrightarrow> timers s' t = timers s1 t"
    "set (timer_list s') = {t \<in> set (timer_list s1). 2 \<le> time_left s1 t \<or> periodic s1 t \<and> activated s1 t}"
    by blast
  have "rt_tick s - tm_timeout_tick (timers s t) < TICK_HALF"
    using due_iff [of s t] due Suc(4) l by (simp add: timer_inv_def)
  then have "timer_check_loop cb (rt_tick s) s =
      Some (takeWhile (\<lambda>t. time_left s t \<le> 1) (timer_list s), s')"
    using s1(1,5,9) s'(1) due
    by (subst timer_check_loop.simps) (simp add: l rt_tick_get_def)
  moreover have "set (timer_list s') =
      {t \<in> set (timer_list s). 2 \<le> time_left s t \<or> periodic s t \<and> activated s t}"
  proof -
    have "(u \<in> set (timer_list s')) =
        (u \<in> set (timer_list s) \<and> (2 \<le> time_left s u \<or> periodic s u \<and> activated s u))" for u
      using s1(6-8,10,11) due d unfolding s'(9) l by (cases "u = t") (auto split: if_splits)
    then show ?thesis by blast
  qed
  moreover have "E u s'" if "time_left s u \<le> 1 \<and> u \<in> set (timer_list s) \<or> E u s" for u
    using that s'(6) s1(6,10,12,13) l by (cases "u = t") auto
  moreover have "timers s' u = timers s u" if "2 \<le> time_left s u" for u
    using that due s'(8) s1(6,14) by (cases "u = t") auto
  ultimately show ?case using s'(2-5,7) s1(5) by auto
qed

end

section \<open>Properties\<close>

text \<open>
  C8. Starting a timer keeps the list sorted by the time left and stable: \<open>rt_timer_start\<close> (for a period
  below half the tick range) puts the timer behind every running timer that expires no later and before
  every one that expires later, across the wrap-around of the tick counter, sets it to expire exactly
  its period from now, and \<open>rt_timer_next_timeout_tick\<close> of a sorted list is the expiry of a timer
  with the least time left.
\<close>

theorem rt_timer_start_sorted_stable:
  assumes "timer_inv s" "timer \<noteq> At RT_NULL" "tm_init_tick (timers s timer) < TICK_HALF"
  shows "\<exists>s' us vs. rt_timer_start timer s = Some (RT_EOK, s') \<and> timer_inv s' \<and>
    timer_list s' = us @ timer # vs \<and> us @ vs = removeAll timer (timer_list s) \<and>
    tm_timeout_tick (timers s' timer) = rt_tick s + tm_init_tick (timers s timer) \<and>
    (\<forall>u \<in> set us. time_left s' u \<le> time_left s' timer) \<and>
    (\<forall>v \<in> set vs. time_left s' timer < time_left s' v) \<and>
    (\<forall>t \<in> set (timer_list s'). unat (rt_timer_next_timeout_tick s' - (rt_tick s - 1)) \<le> time_left s' t)"
proof -
  let ?s = "started timer s" and ?ts = "removeAll timer (timer_list s)"
  define k where "k t \<longleftrightarrow> time_left ?s t \<le> time_left ?s timer" for t
  have l: "timer_list ?s = takeWhile k ?ts @ timer # dropWhile k ?ts"
    using timer_list_started(1) [OF assms(1,3)] unfolding k_def .
  have inv: "timer_inv ?s" by (rule timer_inv_started [OF assms(1,3)])
  have after: "time_left ?s timer < time_left ?s v" if v: "v \<in> set (dropWhile k ?ts)" for v
  proof -
    obtain d ds where dd: "dropWhile k ?ts = d # ds" using v by (cases "dropWhile k ?ts") auto
    then have "\<not> k d" by (metis dropWhile_eq_Cons_conv)
    moreover have "time_left ?s d \<le> time_left ?s v"
      using inv v unfolding timer_inv_def l dd by (auto simp: sorted_append)
    ultimately show ?thesis by (simp add: k_def)
  qed
  have "unat (rt_timer_next_timeout_tick ?s - (rt_tick s - 1)) \<le> time_left ?s t"
    if "t \<in> set (timer_list ?s)" for t
    using that inv
    by (cases "timer_list ?s")
      (auto simp: rt_timer_next_timeout_tick_def rt_timer_list_next_timeout_def timer_inv_def time_left_def)
  moreover have "\<forall>u \<in> set (takeWhile k ?ts). time_left ?s u \<le> time_left ?s timer"
    by (metis k_def set_takeWhileD)
  moreover have "rt_timer_start timer s = Some (RT_EOK, ?s)" using assms by (simp add: rt_timer_start_eq)
  ultimately show ?thesis
    using inv l after by (intro exI [of _ ?s] exI [of _ "takeWhile k ?ts"] exI [of _ "dropWhile k ?ts"]) auto
qed

text \<open>The tick counter about to wrap, one timer due after the wrap.\<close>

definition wrap_timers :: kstate where
  "wrap_timers = zero_state\<lparr>rt_tick := 0xfffffffe, timer_list := [At 0x10],
     timers := (\<lambda>_. zero_timer)(At 0x10 := zero_timer\<lparr>tm_init_tick := 7, tm_timeout_tick := 4\<rparr>,
       At 0x20 := zero_timer\<lparr>tm_init_tick := 5\<rparr>)\<rparr>"

theorem rt_timer_start_sorted_stable_witness:
  "\<exists>s'. rt_timer_start (At 0x20) wrap_timers = Some (RT_EOK, s') \<and>
     timer_list s' = [At 0x20, At 0x10] \<and> tm_timeout_tick (timers s' (At 0x20)) = 3"
proof -
  have inv: "timer_inv wrap_timers" by (simp add: timer_inv_def wrap_timers_def time_left_def)
  obtain s' us vs where s': "rt_timer_start (At 0x20) wrap_timers = Some (RT_EOK, s')"
    "timer_list s' = us @ At 0x20 # vs" "us @ vs = removeAll (At 0x20) (timer_list wrap_timers)"
    "tm_timeout_tick (timers s' (At 0x20)) =
       rt_tick wrap_timers + tm_init_tick (timers wrap_timers (At 0x20))"
    "\<forall>u \<in> set us. time_left s' u \<le> time_left s' (At 0x20)"
    using rt_timer_start_sorted_stable [OF inv, of "At 0x20"] by (auto simp: wrap_timers_def)
  have "s' = started (At 0x20) wrap_timers" using s'(1) by (simp add: rt_timer_start_eq split: if_splits)
  then have "\<not> time_left s' (At 0x10) \<le> time_left s' (At 0x20)"
    by (simp add: time_left_started) (simp add: time_left_def wrap_timers_def)
  moreover have "us @ vs = [At 0x10]" using s'(3) by (simp add: wrap_timers_def)
  ultimately have "us = [] \<and> vs = [At 0x10]" using s'(5) by (auto simp: append_eq_Cons_conv)
  then show ?thesis using s' by (auto simp: wrap_timers_def)
qed

end
