(* ===== verification/Thread.thy ===== *)
theory Thread
  imports Timer
begin

text \<open>
  \<open>src/src/thread.c\<close>, \<open>src/src/clock.c\<close> and \<open>src/src/irq.c\<close>: the life of a thread (initialised,
  ready, suspended, closed), the time slice and the tick interrupt.  Creation from the heap and the
  idle thread are in theory Create.

  \<open>thread_inv\<close> is the invariant of threads, ready queues, waiting lists and thread timers; every
  operation keeps it.  The kernel's timeout function \<open>rt_thread_timeout\<close> keeps the contract of the
  timer module, so the tick interrupt wakes exactly the threads whose time is up.
\<close>

section \<open>The code\<close>

text \<open>
  \<open>rt_schedule\<close> called by a thread: when another thread is switched to, the caller goes on in the
  state \<open>w\<close> makes of it.  In an interrupt the switch is only requested and the call returns at once.
\<close>

definition schedule_switch :: "world \<Rightarrow> kstate \<Rightarrow> kstate option" where
  "schedule_switch w s = do {
     s' \<leftarrow> rt_schedule s;
     Some (if rt_current_thread s' \<noteq> rt_current_thread s \<and> rt_interrupt_nest s = 0 then w s' else s')
   }"

definition rt_thread_self :: "kstate \<Rightarrow> ptr" where
  "rt_thread_self s = rt_current_thread s"

text \<open>\<open>rt_hw_stack_init\<close> of the Cortex-M3 port: the stack pointer of the new thread, below an initial
  frame of 16 words.  The contents of thread stacks are not modelled.\<close>

definition rt_hw_stack_init :: "ptr \<Rightarrow> ptr" where
  "rt_hw_stack_init stack_addr = RT_ALIGN_DOWN (stack_addr + 4) 8 - 64"

text \<open>\<open>_rt_thread_init\<close>; \<open>rt_list_init\<close> of \<open>tlist\<close> leaves the thread on no list.\<close>

definition rt_thread_init' ::
  "ptr \<Rightarrow> ptr \<Rightarrow> ptr \<Rightarrow> ptr \<Rightarrow> u32 \<Rightarrow> u8 \<Rightarrow> u32 \<Rightarrow> kstate \<Rightarrow> (rt_err_t \<times> kstate) option" where
  "rt_thread_init' thread entry parameter stack_start stack_size priority tick s = do {
     let s = set_thread thread (\<lambda>t. t\<lparr>th_entry := entry, th_parameter := parameter,
       th_stack_addr := stack_start, th_stack_size := ucast stack_size\<rparr>) s;
     let s = set_thread thread (\<lambda>t. t\<lparr>th_sp :=
       rt_hw_stack_init (th_stack_addr t + ucast (th_stack_size t) - 4)\<rparr>) s;
     RT_ASSERT (unat priority < RT_THREAD_PRIORITY_MAX);
     let s = set_thread thread (\<lambda>t. t\<lparr>th_init_priority := priority, th_current_priority := priority,
       th_init_tick := tick, th_remaining_tick := tick, th_error := RT_EOK, th_stat := RT_THREAD_INIT,
       th_cleanup := 0, th_user_data := 0\<rparr>) s;
     s \<leftarrow> rt_timer_init (TmrOf thread) (ob_name (objects s (At thread))) Thread_timeout thread 0 0 s;
     Some (RT_EOK, s)
   }"

definition rt_thread_init ::
  "ptr \<Rightarrow> u8 list \<Rightarrow> ptr \<Rightarrow> ptr \<Rightarrow> ptr \<Rightarrow> u32 \<Rightarrow> u8 \<Rightarrow> u32 \<Rightarrow> kstate \<Rightarrow> (rt_err_t \<times> kstate) option" where
  "rt_thread_init thread name entry parameter stack_start stack_size priority tick s = do {
     RT_ASSERT (thread \<noteq> RT_NULL);
     RT_ASSERT (stack_start \<noteq> RT_NULL);
     s \<leftarrow> rt_object_init (At thread) RT_Object_Class_Thread name s;
     rt_thread_init' thread entry parameter stack_start stack_size priority tick s
   }"

definition rt_thread_suspend :: "ptr \<Rightarrow> kstate \<Rightarrow> (rt_err_t \<times> kstate) option" where
  "rt_thread_suspend thread s = do {
     RT_ASSERT (thread \<noteq> RT_NULL);
     if th_stat (threads s thread) \<noteq> RT_THREAD_READY
     then Some (- RT_ERROR, s)
     else do {
       let s = set_thread thread (\<lambda>t. t\<lparr>th_stat := RT_THREAD_SUSPEND\<rparr>) s;
       s \<leftarrow> rt_schedule_remove_thread thread s;
       (_, s) \<leftarrow> rt_timer_stop (TmrOf thread) s;
       Some (RT_EOK, s)
     }
   }"

definition rt_thread_resume :: "ptr \<Rightarrow> kstate \<Rightarrow> (rt_err_t \<times> kstate) option" where
  "rt_thread_resume thread s = do {
     RT_ASSERT (thread \<noteq> RT_NULL);
     if th_stat (threads s thread) \<noteq> RT_THREAD_SUSPEND
     then Some (- RT_ERROR, s)
     else do {
       let s = s\<lparr>tqs := q_remove thread (tqs s)\<rparr>;
       (_, s) \<leftarrow> rt_timer_stop (TmrOf thread) s;
       s \<leftarrow> rt_schedule_insert_thread thread s;
       Some (RT_EOK, s)
     }
   }"

definition rt_thread_timeout :: "ptr \<Rightarrow> kstate \<Rightarrow> kstate option" where
  "rt_thread_timeout thread s = do {
     RT_ASSERT (thread \<noteq> RT_NULL);
     RT_ASSERT (th_stat (threads s thread) = RT_THREAD_SUSPEND);
     let s = set_thread thread (\<lambda>t. t\<lparr>th_error := - RT_ETIMEOUT\<rparr>) s;
     let s = s\<lparr>tqs := q_remove thread (tqs s)\<rparr>;
     s \<leftarrow> rt_schedule_insert_thread thread s;
     rt_schedule s
   }"

definition rt_thread_startup :: "ptr \<Rightarrow> kstate \<Rightarrow> (rt_err_t \<times> kstate) option" where
  "rt_thread_startup thread s = do {
     RT_ASSERT (thread \<noteq> RT_NULL);
     RT_ASSERT (th_stat (threads s thread) = RT_THREAD_INIT);
     let s = set_thread thread (\<lambda>t. t\<lparr>th_current_priority := th_init_priority t\<rparr>) s;
     let s = set_thread thread (\<lambda>t. t\<lparr>th_number_mask := push_bit (unat (th_current_priority t)) 1\<rparr>) s;
     let s = set_thread thread (\<lambda>t. t\<lparr>th_stat := RT_THREAD_SUSPEND\<rparr>) s;
     (_, s) \<leftarrow> rt_thread_resume thread s;
     s \<leftarrow> (if rt_thread_self s \<noteq> RT_NULL then rt_schedule s else Some s);
     Some (RT_EOK, s)
   }"

definition rt_thread_detach :: "ptr \<Rightarrow> kstate \<Rightarrow> (rt_err_t \<times> kstate) option" where
  "rt_thread_detach thread s = do {
     RT_ASSERT (thread \<noteq> RT_NULL);
     s \<leftarrow> rt_schedule_remove_thread thread s;
     (_, s) \<leftarrow> rt_timer_detach (TmrOf thread) s;
     let s = set_thread thread (\<lambda>t. t\<lparr>th_stat := RT_THREAD_CLOSE\<rparr>) s;
     s \<leftarrow> rt_object_detach (At thread) s;
     let s = (if th_cleanup (threads s thread) \<noteq> RT_NULL
              then s\<lparr>tqs := q_insert_after Defunct thread (tqs s)\<rparr> else s);
     Some (RT_EOK, s)
   }"

definition rt_thread_delete :: "ptr \<Rightarrow> kstate \<Rightarrow> (rt_err_t \<times> kstate) option" where
  "rt_thread_delete thread s = do {
     RT_ASSERT (thread \<noteq> RT_NULL);
     s \<leftarrow> rt_schedule_remove_thread thread s;
     (_, s) \<leftarrow> rt_timer_detach (TmrOf thread) s;
     let s = set_thread thread (\<lambda>t. t\<lparr>th_stat := RT_THREAD_CLOSE\<rparr>) s;
     Some (RT_EOK, s\<lparr>tqs := q_insert_after Defunct thread (tqs s)\<rparr>)
   }"

definition rt_thread_exit :: "kstate \<Rightarrow> kstate option" where
  "rt_thread_exit s = do {
     let thread = rt_current_thread s;
     s \<leftarrow> rt_schedule_remove_thread thread s;
     let s = set_thread thread (\<lambda>t. t\<lparr>th_stat := RT_THREAD_CLOSE\<rparr>) s;
     (_, s) \<leftarrow> rt_timer_detach (TmrOf thread) s;
     sys \<leftarrow> rt_object_is_systemobject (At thread) s;
     s \<leftarrow> (if sys \<and> th_cleanup (threads s thread) = RT_NULL
          then rt_object_detach (At thread) s
          else Some (s\<lparr>tqs := q_insert_after Defunct thread (tqs s)\<rparr>));
     rt_schedule s
   }"

text \<open>\<open>thread->tlist.next != thread->tlist.prev\<close>: the thread shares its ready queue.\<close>

definition shares_ready_queue :: "ptr \<Rightarrow> kstate \<Rightarrow> bool" where
  "shares_ready_queue t s \<longleftrightarrow>
     (let q = tqs s (Ready (unat (th_current_priority (threads s t)))) in t \<in> set q \<and> 2 \<le> length q)"

definition rt_thread_yield :: "kstate \<Rightarrow> (rt_err_t \<times> kstate) option" where
  "rt_thread_yield s =
     (let thread = rt_current_thread s in
      if th_stat (threads s thread) = RT_THREAD_READY \<and> shares_ready_queue thread s
      then do {
        let s = s\<lparr>tqs := q_remove thread (tqs s)\<rparr>;
        let s = s\<lparr>tqs := q_insert_before
          (Ready (unat (th_current_priority (threads s thread)))) thread (tqs s)\<rparr>;
        s \<leftarrow> rt_schedule s;
        Some (RT_EOK, s)
      }
      else Some (RT_EOK, s))"

definition rt_thread_sleep :: "world \<Rightarrow> rt_tick_t \<Rightarrow> kstate \<Rightarrow> (rt_err_t \<times> kstate) option" where
  "rt_thread_sleep w tick s = do {
     let thread = rt_current_thread s;
     RT_ASSERT (thread \<noteq> RT_NULL);
     (_, s) \<leftarrow> rt_thread_suspend thread s;
     (_, _, s) \<leftarrow> rt_timer_control (TmrOf thread) 0 tick s;
     (_, s) \<leftarrow> rt_timer_start (TmrOf thread) s;
     s \<leftarrow> schedule_switch w s;
     let s = (if th_error (threads s thread) = - RT_ETIMEOUT
              then set_thread thread (\<lambda>t. t\<lparr>th_error := RT_EOK\<rparr>) s else s);
     Some (RT_EOK, s)
   }"

definition rt_thread_delay :: "world \<Rightarrow> rt_tick_t \<Rightarrow> kstate \<Rightarrow> (rt_err_t \<times> kstate) option" where
  "rt_thread_delay w tick s = rt_thread_sleep w tick s"

text \<open>\<open>RT_THREAD_CTRL_CHANGE_PRIORITY\<close>, with \<open>arg\<close> the byte behind the pointer.\<close>

definition change_priority :: "ptr \<Rightarrow> u8 \<Rightarrow> kstate \<Rightarrow> kstate option" where
  "change_priority thread arg s =
     (if th_stat (threads s thread) = RT_THREAD_READY
      then do {
        s \<leftarrow> rt_schedule_remove_thread thread s;
        let s = set_thread thread (\<lambda>t. t\<lparr>th_current_priority := arg\<rparr>) s;
        let s = set_thread thread (\<lambda>t. t\<lparr>th_number_mask := push_bit (unat (th_current_priority t)) 1\<rparr>) s;
        rt_schedule_insert_thread thread s
      }
      else do {
        let s = set_thread thread (\<lambda>t. t\<lparr>th_current_priority := arg\<rparr>) s;
        Some (set_thread thread (\<lambda>t. t\<lparr>th_number_mask := push_bit (unat (th_current_priority t)) 1\<rparr>) s)
      })"

definition rt_thread_control :: "ptr \<Rightarrow> u8 \<Rightarrow> u8 \<Rightarrow> kstate \<Rightarrow> (rt_err_t \<times> kstate) option" where
  "rt_thread_control thread cmd arg s = do {
     RT_ASSERT (thread \<noteq> RT_NULL);
     if cmd = 2 then do { s \<leftarrow> change_priority thread arg s; Some (RT_EOK, s) }
     else if cmd = 0 then rt_thread_startup thread s
     else if cmd = 1 then rt_thread_delete thread s
     else Some (RT_EOK, s)
   }"

definition rt_thread_find :: "u8 list \<Rightarrow> kstate \<Rightarrow> (oref \<times> kstate) option" where
  "rt_thread_find name s = do {
     let s = (if rt_thread_self s \<noteq> RT_NULL then rt_enter_critical s else s);
     let object = find_object (objects s) name (containers s (unat RT_Object_Class_Thread));
     s \<leftarrow> (if rt_thread_self s \<noteq> RT_NULL then rt_exit_critical s else Some s);
     Some (object, s)
   }"

section \<open>Ticks and interrupts\<close>

definition rt_tick_set :: "rt_tick_t \<Rightarrow> kstate \<Rightarrow> kstate" where
  "rt_tick_set tick s = s\<lparr>rt_tick := tick\<rparr>"

text \<open>The timeout functions of a running system: the kernel's own, and the application's.\<close>

definition kernel_callback :: "(ptr \<Rightarrow> ptr \<Rightarrow> kstate \<Rightarrow> kstate option) \<Rightarrow> callback" where
  "kernel_callback user f p s = (case f of Thread_timeout \<Rightarrow> rt_thread_timeout p s | User_fn a \<Rightarrow> user a p s)"

definition rt_tick_increase ::
  "(ptr \<Rightarrow> ptr \<Rightarrow> kstate \<Rightarrow> kstate option) \<Rightarrow> kstate \<Rightarrow> (oref list \<times> kstate) option" where
  "rt_tick_increase user s = do {
     let s = s\<lparr>rt_tick := rt_tick s + 1\<rparr>;
     let thread = rt_thread_self s;
     let s = set_thread thread (\<lambda>t. t\<lparr>th_remaining_tick := th_remaining_tick t - 1\<rparr>) s;
     s \<leftarrow> (if th_remaining_tick (threads s thread) = 0
          then do {
            let s = set_thread thread (\<lambda>t. t\<lparr>th_remaining_tick := th_init_tick t\<rparr>) s;
            (_, s) \<leftarrow> rt_thread_yield s;
            Some s
          }
          else Some s);
     rt_timer_check (kernel_callback user) s
   }"

text \<open>\<open>RT_TICK_PER_SECOND\<close> is 1000; the product is a 32-bit one.\<close>

definition rt_tick_from_millisecond :: "u32 \<Rightarrow> rt_tick_t" where
  "rt_tick_from_millisecond ms = (1000 * ms + 999) div 1000"

definition rt_interrupt_enter :: "kstate \<Rightarrow> kstate" where
  "rt_interrupt_enter s = s\<lparr>rt_interrupt_nest := rt_interrupt_nest s + 1\<rparr>"

definition rt_interrupt_leave :: "kstate \<Rightarrow> kstate" where
  "rt_interrupt_leave s = s\<lparr>rt_interrupt_nest := rt_interrupt_nest s - 1\<rparr>"

definition rt_interrupt_get_nest :: "kstate \<Rightarrow> u8" where
  "rt_interrupt_get_nest s = rt_interrupt_nest s"

definition rt_get_errno :: "kstate \<Rightarrow> rt_err_t" where
  "rt_get_errno s =
     (if rt_interrupt_get_nest s \<noteq> 0 then k_errno s
      else if rt_thread_self s = RT_NULL then k_errno s
      else th_error (threads s (rt_thread_self s)))"

definition rt_set_errno :: "rt_err_t \<Rightarrow> kstate \<Rightarrow> kstate" where
  "rt_set_errno error s =
     (if rt_interrupt_get_nest s \<noteq> 0 then s\<lparr>k_errno := error\<rparr>
      else if rt_thread_self s = RT_NULL then s\<lparr>k_errno := error\<rparr>
      else set_thread (rt_thread_self s) (\<lambda>t. t\<lparr>th_error := error\<rparr>) s)"

section \<open>The invariant\<close>

definition stack_ok :: "rt_thread \<Rightarrow> bool" where
  "stack_ok th \<longleftrightarrow> th_stack_addr th < th_sp th \<and> th_sp th \<le> th_stack_addr th + ucast (th_stack_size th)"

text \<open>A thread that has been initialised and started: coherent priority fields, a stack pointer inside
  its stack, and its timer set up by \<open>_rt_thread_init\<close>.\<close>

definition good :: "kstate \<Rightarrow> ptr \<Rightarrow> bool" where
  "good s t \<longleftrightarrow> t \<noteq> RT_NULL \<and> prio_ok (threads s t) \<and> stack_ok (threads s t) \<and>
     tm_timeout_func (timers s (TmrOf t)) = Thread_timeout \<and> tm_parameter (timers s (TmrOf t)) = t \<and>
     \<not> periodic s (TmrOf t)"

definition waiting_lists_ok :: "kstate \<Rightarrow> bool" where
  "waiting_lists_ok s \<longleftrightarrow> (\<forall>q. q \<noteq> Defunct \<longrightarrow> (\<forall>t \<in> set (tqs s q). good s t \<and>
     ((\<forall>p. q \<noteq> Ready p) \<longrightarrow> th_stat (threads s t) = RT_THREAD_SUSPEND)))"

text \<open>Only suspended threads have their timer running, and its flag says so; timers of the application
  do not run the kernel's timeout function.\<close>

definition thread_timers_ok :: "kstate \<Rightarrow> bool" where
  "thread_timers_ok s \<longleftrightarrow> (\<forall>r \<in> set (timer_list s).
     case r of TmrOf t \<Rightarrow> good s t \<and> th_stat (threads s t) = RT_THREAD_SUSPEND \<and> activated s r
     | At p \<Rightarrow> tm_timeout_func (timers s r) \<noteq> Thread_timeout)"

definition thread_inv :: "kstate \<Rightarrow> bool" where
  "thread_inv s \<longleftrightarrow> ready_inv s \<and> waiting_lists_ok s \<and> thread_timers_ok s"

lemma stack_check_iff: "t \<noteq> RT_NULL \<Longrightarrow> rt_scheduler_stack_check t s = Some () \<longleftrightarrow> stack_ok (threads s t)"
  by (auto simp: rt_scheduler_stack_check_def stack_ok_def Let_def not_le not_less)

lemma thread_invD:
  assumes "thread_inv s"
  shows "ready_inv s"
    "t \<in> set (tqs s q) \<Longrightarrow> q \<noteq> Defunct \<Longrightarrow> good s t"
    "t \<in> set (tqs s q) \<Longrightarrow> q \<noteq> Defunct \<Longrightarrow> (\<And>p. q \<noteq> Ready p) \<Longrightarrow>
       th_stat (threads s t) = RT_THREAD_SUSPEND"
    "TmrOf t \<in> set (timer_list s) \<Longrightarrow>
       good s t \<and> th_stat (threads s t) = RT_THREAD_SUSPEND \<and> activated s (TmrOf t)"
    "At p \<in> set (timer_list s) \<Longrightarrow> tm_timeout_func (timers s (At p)) \<noteq> Thread_timeout"
  using assms by (auto simp: thread_inv_def waiting_lists_ok_def thread_timers_ok_def)

lemma thread_invI:
  assumes "ready_inv s"
    "\<And>t q. t \<in> set (tqs s q) \<Longrightarrow> q \<noteq> Defunct \<Longrightarrow> good s t"
    "\<And>t q. t \<in> set (tqs s q) \<Longrightarrow> q \<noteq> Defunct \<Longrightarrow> (\<And>p. q \<noteq> Ready p) \<Longrightarrow>
       th_stat (threads s t) = RT_THREAD_SUSPEND"
    "\<And>t. TmrOf t \<in> set (timer_list s) \<Longrightarrow>
       good s t \<and> th_stat (threads s t) = RT_THREAD_SUSPEND \<and> activated s (TmrOf t)"
    "\<And>p. At p \<in> set (timer_list s) \<Longrightarrow> tm_timeout_func (timers s (At p)) \<noteq> Thread_timeout"
  shows "thread_inv s"
  using assms by (auto simp: thread_inv_def waiting_lists_ok_def thread_timers_ok_def split: oref.split)

text \<open>The invariant looks at a few fields only.\<close>

lemma good_cong:
  assumes "threads s' t = threads s t" "timers s' = timers s" "objects s' = objects s"
  shows "good s' t = good s t"
  using assms by (simp add: good_def periodic_def)

lemma thread_inv_cong:
  assumes "threads s' = threads s" "timers s' = timers s" "objects s' = objects s" "tqs s' = tqs s"
    "timer_list s' = timer_list s" "ready_group s' = ready_group s"
  shows "thread_inv s' = thread_inv s"
proof -
  have "good s' t = good s t" "activated s' r = activated s r" for t r
    using assms by (simp_all add: good_def periodic_def activated_def)
  moreover have "ready_inv s' = ready_inv s" using assms by (intro ready_inv_cong) auto
  ultimately show ?thesis
    using assms by (simp add: thread_inv_def waiting_lists_ok_def thread_timers_ok_def split: oref.split)
qed

lemma thread_inv_schedule: "thread_inv s \<Longrightarrow> rt_schedule s = Some s' \<Longrightarrow> thread_inv s'"
  by (subst thread_inv_cong [where s = s]) (simp_all add: rt_schedule_fields)

text \<open>In a consistent state with a ready thread, scheduling returns.\<close>

lemma rt_schedule_total:
  assumes "thread_inv s" "ready_group s \<noteq> 0"
  shows "\<exists>s'. rt_schedule s = Some s' \<and> thread_inv s'"
proof (cases "rt_scheduler_lock_nest s = 0")
  case False
  then show ?thesis using assms(1) by (simp add: rt_schedule_locked)
next
  case True
  note inv = thread_invD(1) [OF assms(1)]
  obtain k where "lowest_bit (ready_group s) k" using rt_ffs_lowest_bit [OF assms(2)] by blast
  then have "tqs s (Ready k) \<noteq> []" "\<forall>j < k. tqs s (Ready j) = []"
    using ready_invD(2) [OF inv] by (auto simp: lowest_bit_def)
  then obtain t where p: "pick_ready s = Some (k, t)" "t \<in> set (tqs s (Ready k))"
    using ready_queues.pick_ok [OF inv, of k] by (auto simp: ready_of_def neq_Nil_conv)
  have "good s t" using thread_invD(2) [OF assms(1) p(2)] by simp
  then have "rt_scheduler_stack_check t s = Some ()" by (simp add: good_def stack_check_iff)
  from rt_schedule_pick [OF inv True p(1) disjI2 [OF this]]
  show ?thesis using thread_inv_schedule [OF assms(1)] by blast
qed

section \<open>Waking up\<close>

text \<open>Off whatever list it is on and to the back of the ready queue of its priority: the common part of
  \<open>rt_thread_resume\<close> and \<open>rt_thread_timeout\<close>.\<close>

definition woken :: "ptr \<Rightarrow> kstate \<Rightarrow> kstate" where
  "woken t s = s\<lparr>threads := (threads s)(t := (threads s t)\<lparr>th_stat := RT_THREAD_READY\<rparr>),
     tqs := q_insert_before (Ready (unat (th_current_priority (threads s t)))) t (q_remove t (tqs s)),
     ready_group := ready_group s OR th_number_mask (threads s t)\<rparr>"

lemma insert_woken:
  "good s t \<Longrightarrow> rt_schedule_insert_thread t (s\<lparr>tqs := q_remove t (tqs s)\<rparr>) = Some (woken t s)"
  by (subst rt_schedule_insert_thread_eq) (simp_all add: good_def prio_ok_def woken_def)

lemma ready_inv_q_remove:
  assumes "ready_inv s" "\<And>p. t \<notin> set (tqs s (Ready p))"
  shows "ready_inv (s\<lparr>tqs := q_remove t (tqs s)\<rparr>)"
proof -
  have "q_remove t (tqs s) (Ready p) = tqs s (Ready p)" for p
    using assms(2) by (simp add: q_remove_def)
  then show ?thesis using assms(1) by (auto simp: ready_inv_def)
qed

lemma suspended_not_ready:
  "ready_inv s \<Longrightarrow> th_stat (threads s t) \<noteq> RT_THREAD_READY \<Longrightarrow> t \<notin> set (tqs s (Ready p))"
  using ready_invD(6) by blast

lemma ready_inv_woken:
  assumes "ready_inv s" "good s t" "th_stat (threads s t) = RT_THREAD_SUSPEND"
  shows "ready_inv (woken t s)"
proof (rule ready_inv_insert [OF _ _ _ _ insert_woken [OF assms(2)]])
  show "ready_inv (s\<lparr>tqs := q_remove t (tqs s)\<rparr>)"
    using assms by (intro ready_inv_q_remove suspended_not_ready) auto
qed (use assms(2) in \<open>simp_all add: good_def\<close>)

lemma good_woken [simp]: "good (woken t s) u = good s u"
  by (simp add: good_def woken_def prio_ok_def stack_ok_def periodic_def)

lemma woken_fields [simp]:
  "objects (woken t s) = objects s" "containers (woken t s) = containers s"
  "timers (woken t s) = timers s" "timer_list (woken t s) = timer_list s" "sems (woken t s) = sems s"
  "mutexes (woken t s) = mutexes s" "events (woken t s) = events s" "mailboxes (woken t s) = mailboxes s"
  "mqs (woken t s) = mqs s" "mq_nodes (woken t s) = mq_nodes s" "mempools (woken t s) = mempools s"
  "mp_links (woken t s) = mp_links s" "kheap (woken t s) = kheap s" "heap_sem (woken t s) = heap_sem s"
  "rt_current_thread (woken t s) = rt_current_thread s"
  "rt_scheduler_lock_nest (woken t s) = rt_scheduler_lock_nest s"
  "rt_interrupt_nest (woken t s) = rt_interrupt_nest s" "rt_tick (woken t s) = rt_tick s"
  "switches (woken t s) = switches s"
  "threads (woken t s) = (threads s)(t := (threads s t)\<lparr>th_stat := RT_THREAD_READY\<rparr>)"
  by (simp_all add: woken_def)

lemma tqs_woken:
  "tqs (woken t s) q = removeAll t (tqs s q) @
     (if q = Ready (unat (th_current_priority (threads s t))) then [t] else [])"
  by (simp add: woken_def q_insert_before_def q_remove_def)

lemma thread_inv_woken:
  assumes inv: "thread_inv s" and t: "good s t" "th_stat (threads s t) = RT_THREAD_SUSPEND"
    "TmrOf t \<notin> set (timer_list s)"
  shows "thread_inv (woken t s)"
proof (rule thread_invI)
  show "ready_inv (woken t s)" by (rule ready_inv_woken [OF thread_invD(1) [OF inv] t(1,2)])
  show "good (woken t s) u" if "u \<in> set (tqs (woken t s) q)" "q \<noteq> Defunct" for u q
    using that t(1) thread_invD(2) [OF inv, of u q] by (auto simp: tqs_woken split: if_splits)
  show "th_stat (threads (woken t s) u) = RT_THREAD_SUSPEND"
    if "u \<in> set (tqs (woken t s) q)" "q \<noteq> Defunct" "\<And>p. q \<noteq> Ready p" for u q
    using that thread_invD(3) [OF inv, of u q] by (auto simp: tqs_woken)
  show "good (woken t s) u \<and> th_stat (threads (woken t s) u) = RT_THREAD_SUSPEND \<and>
      activated (woken t s) (TmrOf u)" if "TmrOf u \<in> set (timer_list (woken t s))" for u
    using that t(3) thread_invD(4) [OF inv, of u] by (auto simp: activated_def)
qed (use thread_invD(5) [OF inv] in simp)

lemma ready_group_woken: "good s t \<Longrightarrow> ready_group (woken t s) \<noteq> 0"
proof -
  assume g: "good s t"
  let ?p = "unat (th_current_priority (threads s t))"
  have "bit (ready_group (woken t s)) ?p"
    using g by (simp add: woken_def good_def prio_ok_def bit_or_iff bit_exp_iff)
  then show ?thesis by (metis bit_0_eq bot_apply bot_bool_def)
qed

section \<open>Stopping the thread timer\<close>

text \<open>What \<open>rt_timer_stop\<close> does, whether or not the timer runs.\<close>

definition timer_stopped :: "oref \<Rightarrow> kstate \<Rightarrow> kstate" where
  "timer_stopped r s = (if activated s r
     then set_flag r (\<lambda>f. f AND NOT RT_TIMER_FLAG_ACTIVATED) (rt_timer_remove r s) else s)"

lemma rt_timer_stop_eq:
  "r \<noteq> At RT_NULL \<Longrightarrow> rt_timer_stop r s =
     Some (if activated s r then RT_EOK else - RT_ERROR, timer_stopped r s)"
  by (simp add: rt_timer_stop_def timer_stopped_def activated_def)

lemma timer_stopped_fields [simp]:
  "threads (timer_stopped r s) = threads s" "containers (timer_stopped r s) = containers s"
  "tqs (timer_stopped r s) = tqs s" "timers (timer_stopped r s) = timers s"
  "ready_group (timer_stopped r s) = ready_group s"
  "rt_current_thread (timer_stopped r s) = rt_current_thread s"
  "rt_scheduler_lock_nest (timer_stopped r s) = rt_scheduler_lock_nest s"
  "rt_interrupt_nest (timer_stopped r s) = rt_interrupt_nest s"
  "rt_tick (timer_stopped r s) = rt_tick s" "switches (timer_stopped r s) = switches s"
  "sems (timer_stopped r s) = sems s"
  by (simp_all add: timer_stopped_def)

lemma timer_stopped_more [simp]:
  "mutexes (timer_stopped r s) = mutexes s" "events (timer_stopped r s) = events s"
  "mailboxes (timer_stopped r s) = mailboxes s" "mqs (timer_stopped r s) = mqs s"
  "mq_nodes (timer_stopped r s) = mq_nodes s" "mempools (timer_stopped r s) = mempools s"
  "mp_links (timer_stopped r s) = mp_links s" "kheap (timer_stopped r s) = kheap s"
  "heap_sem (timer_stopped r s) = heap_sem s" "k_errno (timer_stopped r s) = k_errno s"
  by (simp_all add: timer_stopped_def set_flag_def set_object_def rt_timer_remove_def)

lemma timer_list_stopped:
  "(r \<in> set (timer_list s) \<Longrightarrow> activated s r) \<Longrightarrow> timer_list (timer_stopped r s) = removeAll r (timer_list s)"
  by (cases "activated s r") (auto simp: timer_stopped_def intro!: removeAll_id [symmetric])

lemma periodic_stopped [simp]: "periodic (timer_stopped r s) u = periodic s u"
  by (simp add: timer_stopped_def)

lemma activated_stopped [simp]: "u \<noteq> r \<Longrightarrow> activated (timer_stopped r s) u = activated s u"
  by (simp add: timer_stopped_def)

lemma good_stopped [simp]: "good (timer_stopped r s) u = good s u"
  by (simp add: good_def)

lemma timer_inv_stopped: "timer_inv s \<Longrightarrow> timer_inv (timer_stopped r s)"
  by (simp add: timer_stopped_def timer_inv_remove)

lemma thread_inv_stopped:
  assumes "thread_inv s"
  shows "thread_inv (timer_stopped (TmrOf t) s)" "TmrOf t \<notin> set (timer_list (timer_stopped (TmrOf t) s))"
proof -
  let ?s = "timer_stopped (TmrOf t) s"
  have l: "timer_list ?s = removeAll (TmrOf t) (timer_list s)"
    using thread_invD(4) [OF assms, of t] by (intro timer_list_stopped) blast
  then show "TmrOf t \<notin> set (timer_list ?s)" by simp
  show "thread_inv ?s"
  proof (rule thread_invI)
    show "ready_inv ?s" using thread_invD(1) [OF assms] by (subst ready_inv_cong [where s = s]) auto
  qed (use thread_invD(2-5) [OF assms] l in auto)
qed

lemma set_flag_tqs:
  "set_flag r f (s\<lparr>tqs := q\<rparr>) = (set_flag r f s)\<lparr>tqs := q\<rparr>"
  "rt_timer_remove r (s\<lparr>tqs := q\<rparr>) = (rt_timer_remove r s)\<lparr>tqs := q\<rparr>"
  by (simp_all add: set_flag_def set_object_def rt_timer_remove_def)

lemma timer_stopped_tqs: "timer_stopped r (s\<lparr>tqs := q\<rparr>) = (timer_stopped r s)\<lparr>tqs := q\<rparr>"
  by (simp add: timer_stopped_def set_flag_tqs activated_def)

section \<open>Resuming and suspending\<close>

text \<open>\<open>rt_thread_resume\<close> on a suspended thread.\<close>

definition resumed :: "ptr \<Rightarrow> kstate \<Rightarrow> kstate" where
  "resumed t s = woken t (timer_stopped (TmrOf t) s)"

lemma rt_thread_resume_eq:
  assumes "good s t" "th_stat (threads s t) = RT_THREAD_SUSPEND"
  shows "rt_thread_resume t s = Some (RT_EOK, resumed t s)"
proof -
  have "rt_schedule_insert_thread t (timer_stopped (TmrOf t) (s\<lparr>tqs := q_remove t (tqs s)\<rparr>)) =
      Some (resumed t s)"
    using insert_woken [of "timer_stopped (TmrOf t) s" t] assms(1)
    by (simp add: timer_stopped_tqs resumed_def)
  then show ?thesis using assms by (simp add: rt_thread_resume_def rt_timer_stop_eq good_def)
qed

lemma rt_thread_resume_other:
  "t \<noteq> RT_NULL \<Longrightarrow> th_stat (threads s t) \<noteq> RT_THREAD_SUSPEND \<Longrightarrow>
     rt_thread_resume t s = Some (- RT_ERROR, s)"
  by (simp add: rt_thread_resume_def)

lemma thread_inv_resumed:
  assumes "thread_inv s" "good s t" "th_stat (threads s t) = RT_THREAD_SUSPEND"
  shows "thread_inv (resumed t s)" "ready_group (resumed t s) \<noteq> 0"
  unfolding resumed_def using thread_inv_stopped [OF assms(1), of t] assms(2,3)
    ready_group_woken [of "timer_stopped (TmrOf t) s" t]
  by (auto intro: thread_inv_woken)

lemma resumed_fields [simp]:
  "threads (resumed t s) = (threads s)(t := (threads s t)\<lparr>th_stat := RT_THREAD_READY\<rparr>)"
  "timers (resumed t s) = timers s" "containers (resumed t s) = containers s"
  "sems (resumed t s) = sems s" "mutexes (resumed t s) = mutexes s" "events (resumed t s) = events s"
  "mailboxes (resumed t s) = mailboxes s" "mqs (resumed t s) = mqs s" "mq_nodes (resumed t s) = mq_nodes s"
  "mempools (resumed t s) = mempools s" "mp_links (resumed t s) = mp_links s"
  "kheap (resumed t s) = kheap s" "heap_sem (resumed t s) = heap_sem s"
  "rt_current_thread (resumed t s) = rt_current_thread s"
  "rt_scheduler_lock_nest (resumed t s) = rt_scheduler_lock_nest s"
  "rt_interrupt_nest (resumed t s) = rt_interrupt_nest s" "rt_tick (resumed t s) = rt_tick s"
  "switches (resumed t s) = switches s"
  by (simp_all add: resumed_def)

lemma tqs_resumed:
  "tqs (resumed t s) q = removeAll t (tqs s q) @
     (if q = Ready (unat (th_current_priority (threads s t))) then [t] else [])"
  by (simp add: resumed_def tqs_woken)

lemma good_resumed [simp]: "good (resumed t s) u = good s u"
  by (simp add: resumed_def)

text \<open>\<open>rt_thread_suspend\<close> on a ready thread.\<close>

definition suspended :: "ptr \<Rightarrow> kstate \<Rightarrow> kstate" where
  "suspended t s = timer_stopped (TmrOf t)
     (s\<lparr>threads := (threads s)(t := (threads s t)\<lparr>th_stat := RT_THREAD_SUSPEND\<rparr>),
        tqs := q_remove t (tqs s),
        ready_group :=
          (if q_remove t (tqs s) (Ready (unat (th_current_priority (threads s t)))) = []
           then ready_group s AND NOT (th_number_mask (threads s t)) else ready_group s)\<rparr>)"

lemma rt_thread_suspend_eq:
  assumes "good s t" "th_stat (threads s t) = RT_THREAD_READY"
  shows "rt_thread_suspend t s = Some (RT_EOK, suspended t s)"
proof -
  let ?s = "set_thread t (\<lambda>th. th\<lparr>th_stat := RT_THREAD_SUSPEND\<rparr>) s"
  have p: "t \<noteq> RT_NULL" "unat (th_current_priority (threads ?s t)) < 32"
    using assms(1) by (simp_all add: good_def prio_ok_def)
  show ?thesis
    using assms(2) p(1) rt_schedule_remove_thread_eq [OF p]
    by (simp add: rt_thread_suspend_def rt_timer_stop_eq suspended_def) (simp add: set_thread_def)
qed

lemma rt_thread_suspend_other:
  "t \<noteq> RT_NULL \<Longrightarrow> th_stat (threads s t) \<noteq> RT_THREAD_READY \<Longrightarrow>
     rt_thread_suspend t s = Some (- RT_ERROR, s)"
  by (simp add: rt_thread_suspend_def)

lemma suspended_fields [simp]:
  "threads (suspended t s) = (threads s)(t := (threads s t)\<lparr>th_stat := RT_THREAD_SUSPEND\<rparr>)"
  "timers (suspended t s) = timers s" "containers (suspended t s) = containers s"
  "sems (suspended t s) = sems s" "mutexes (suspended t s) = mutexes s" "events (suspended t s) = events s"
  "mailboxes (suspended t s) = mailboxes s" "mqs (suspended t s) = mqs s"
  "mq_nodes (suspended t s) = mq_nodes s" "mempools (suspended t s) = mempools s"
  "mp_links (suspended t s) = mp_links s" "kheap (suspended t s) = kheap s"
  "heap_sem (suspended t s) = heap_sem s" "rt_current_thread (suspended t s) = rt_current_thread s"
  "rt_scheduler_lock_nest (suspended t s) = rt_scheduler_lock_nest s"
  "rt_interrupt_nest (suspended t s) = rt_interrupt_nest s" "rt_tick (suspended t s) = rt_tick s"
  "switches (suspended t s) = switches s" "tqs (suspended t s) = q_remove t (tqs s)"
  by (simp_all add: suspended_def)

lemma good_suspended [simp]: "good (suspended t s) u = good s u"
  unfolding suspended_def good_stopped
  by (auto simp: good_def prio_ok_def stack_ok_def periodic_def)

lemma timer_list_suspended:
  assumes "thread_inv s"
  shows "timer_list (suspended t s) = removeAll (TmrOf t) (timer_list s)"
  using thread_invD(4) [OF assms, of t] unfolding suspended_def
  by (subst timer_list_stopped) (auto simp: activated_def)

lemma activated_suspended [simp]: "r \<noteq> TmrOf t \<Longrightarrow> activated (suspended t s) r = activated s r"
  by (simp add: suspended_def) (simp add: activated_def)

lemma ready_inv_suspended:
  assumes "ready_inv s" "good s t"
  shows "ready_inv (suspended t s)"
proof -
  have t: "t \<noteq> RT_NULL" "unat (th_current_priority (threads s t)) < 32" "prio_ok (threads s t)"
    using assms(2) by (auto simp: good_def prio_ok_def)
  note r = ready_inv_remove [OF assms(1) t(3) rt_schedule_remove_thread_eq [of t s, OF t(1,2)]]
  then show ?thesis
    by (subst (asm) ready_inv_cong [symmetric, where s' = "suspended t s"])
      (auto simp: suspended_def q_remove_def)
qed

lemma thread_inv_suspended:
  assumes inv: "thread_inv s" and t: "good s t"
  shows "thread_inv (suspended t s)" "unlinked t (tqs (suspended t s))"
    "TmrOf t \<notin> set (timer_list (suspended t s))"
proof -
  show "unlinked t (tqs (suspended t s))" by simp
  show "TmrOf t \<notin> set (timer_list (suspended t s))" by (simp add: timer_list_suspended [OF inv])
  show "thread_inv (suspended t s)"
  proof (rule thread_invI)
    show "ready_inv (suspended t s)" by (rule ready_inv_suspended [OF thread_invD(1) [OF inv] t])
    show "good (suspended t s) u" if "u \<in> set (tqs (suspended t s) q)" "q \<noteq> Defunct" for u q
      using that thread_invD(2) [OF inv, of u q] by (auto simp: q_remove_def)
    show "th_stat (threads (suspended t s) u) = RT_THREAD_SUSPEND"
      if "u \<in> set (tqs (suspended t s) q)" "q \<noteq> Defunct" "\<And>p. q \<noteq> Ready p" for u q
      using that thread_invD(3) [OF inv, of u q] by (auto simp: q_remove_def)
  qed (use thread_invD(4,5) [OF inv] in \<open>auto simp: timer_list_suspended [OF inv]\<close>)
qed

text \<open>A suspended thread that is on no list may be linked on a waiting list.\<close>

lemma thread_inv_enqueue:
  assumes inv: "thread_inv s" and t: "good s t" "th_stat (threads s t) = RT_THREAD_SUSPEND"
    and q: "\<And>p. q \<noteq> Ready p" "q \<noteq> Defunct"
    and l: "set (l q) = insert t (set (tqs s q))" "\<And>q'. q' \<noteq> q \<Longrightarrow> l q' = tqs s q'" "wf_queues l"
  shows "thread_inv (s\<lparr>tqs := l\<rparr>)"
proof (rule thread_invI)
  have "l (Ready p) = tqs s (Ready p)" for p using l(2) [of "Ready p"] q(1) by metis
  then show "ready_inv (s\<lparr>tqs := l\<rparr>)"
    using thread_invD(1) [OF inv] l(3) by (auto simp: ready_inv_def)
  have g: "good (s\<lparr>tqs := l\<rparr>) u = good s u" for u by (simp add: good_def periodic_def)
  have mem: "u \<in> set (l q') \<Longrightarrow> u \<in> set (tqs s q') \<or> u = t \<and> q' = q" for u q'
    using l(1) l(2) [of q'] by (cases "q' = q") auto
  show "good (s\<lparr>tqs := l\<rparr>) u" if "u \<in> set (tqs (s\<lparr>tqs := l\<rparr>) q')" "q' \<noteq> Defunct" for u q'
    using that mem [of u q'] thread_invD(2) [OF inv, of u q'] t(1) by (auto simp: g)
  show "th_stat (threads (s\<lparr>tqs := l\<rparr>) u) = RT_THREAD_SUSPEND"
    if "u \<in> set (tqs (s\<lparr>tqs := l\<rparr>) q')" "q' \<noteq> Defunct" "\<And>p. q' \<noteq> Ready p" for u q'
    using that mem [of u q'] thread_invD(3) [OF inv, of u q'] t(2) by auto
qed (use thread_invD(4,5) [OF inv] in \<open>auto simp: good_def periodic_def activated_def\<close>)

lemma good_started [simp]: "good (started r s) t = good s t"
  by (simp add: good_def)

lemma thread_inv_started:
  assumes inv: "thread_inv s" and t: "timer_inv s" "good s t" "th_stat (threads s t) = RT_THREAD_SUSPEND"
    "tm_init_tick (timers s (TmrOf t)) < TICK_HALF"
  shows "thread_inv (started (TmrOf t) s)"
proof (rule thread_invI)
  have "ready_inv (started (TmrOf t) s) = ready_inv s" by (rule ready_inv_cong) auto
  then show "ready_inv (started (TmrOf t) s)" using thread_invD(1) [OF inv] by simp
  have act: "activated (started (TmrOf t) s) (TmrOf t)"
    by (simp add: activated_def started_def Let_def bit.conj_disj_distrib2)
  note l = timer_inv_started(2) [OF t(1,4)]
  show "good (started (TmrOf t) s) u \<and> th_stat (threads (started (TmrOf t) s) u) = RT_THREAD_SUSPEND \<and>
      activated (started (TmrOf t) s) (TmrOf u)"
    if "TmrOf u \<in> set (timer_list (started (TmrOf t) s))" for u
    using that l t act thread_invD(4) [OF inv, of u] by (cases "u = t") auto
qed (use thread_invD(2,3,5) [OF inv] timer_inv_started(2) [OF t(1,4)] in auto)

section \<open>The timeout of a waiting thread\<close>

definition timed_out :: "ptr \<Rightarrow> kstate \<Rightarrow> kstate" where
  "timed_out t s = woken t (set_thread t (\<lambda>th. th\<lparr>th_error := - RT_ETIMEOUT\<rparr>) s)"

lemma good_set_error [simp]: "good (set_thread u (\<lambda>th. th\<lparr>th_error := e\<rparr>) s) t = good s t"
  by (auto simp: good_def prio_ok_def stack_ok_def periodic_def)

lemma thread_inv_set_thread:
  assumes "\<And>th. th_stat (f th) = th_stat th" "\<And>th. prio_ok (f th) = prio_ok th"
    "\<And>th. th_current_priority (f th) = th_current_priority th"
    "\<And>th. stack_ok (f th) = stack_ok th" "\<And>th. th_number_mask (f th) = th_number_mask th"
  shows "thread_inv (set_thread t f s) = thread_inv s"
proof -
  have g: "good (set_thread t f s) u = good s u" for u
    using assms by (auto simp: good_def periodic_def)
  have "ready_inv (set_thread t f s) = ready_inv s"
    using assms by (intro ready_inv_cong) auto
  moreover have "waiting_lists_ok (set_thread t f s) = waiting_lists_ok s"
    using assms by (auto simp: waiting_lists_ok_def g)
  moreover have "thread_timers_ok (set_thread t f s) = thread_timers_ok s"
    using assms unfolding thread_timers_ok_def
    by (intro ball_cong) (auto simp: g activated_def split: oref.splits)
  ultimately show ?thesis by (simp add: thread_inv_def)
qed

lemma thread_inv_set_error [simp]:
  "thread_inv (set_thread t (\<lambda>th. th\<lparr>th_error := e\<rparr>) s) = thread_inv s"
  by (rule thread_inv_set_thread) (simp_all add: prio_ok_def stack_ok_def)

lemma rt_thread_timeout_eq:
  assumes "good s t" "th_stat (threads s t) = RT_THREAD_SUSPEND"
  shows "rt_thread_timeout t s = rt_schedule (timed_out t s)"
proof -
  let ?s = "set_thread t (\<lambda>th. th\<lparr>th_error := - RT_ETIMEOUT\<rparr>) s"
  have "good ?s t" using assms(1) by simp
  from insert_woken [OF this] show ?thesis
    using assms by (simp add: rt_thread_timeout_def timed_out_def good_def)
qed

lemma rt_thread_timeout_total:
  assumes "thread_inv s" "good s t" "th_stat (threads s t) = RT_THREAD_SUSPEND"
    "TmrOf t \<notin> set (timer_list s)"
  shows "\<exists>s'. rt_thread_timeout t s = Some s' \<and> thread_inv s' \<and> same_timers s s' \<and>
    threads s' = threads (timed_out t s) \<and> tqs s' = tqs (timed_out t s)"
proof -
  have inv: "thread_inv (timed_out t s)"
    unfolding timed_out_def using assms by (intro thread_inv_woken) simp_all
  moreover have "ready_group (timed_out t s) \<noteq> 0"
    unfolding timed_out_def using assms(2) by (intro ready_group_woken) simp
  ultimately obtain s' where s': "rt_schedule (timed_out t s) = Some s'" "thread_inv s'"
    using rt_schedule_total by blast
  then show ?thesis
    using rt_thread_timeout_eq [OF assms(2,3)] rt_schedule_fields [OF s'(1)]
    by (auto simp: same_timers_def timed_out_def)
qed

text \<open>What is asked of the application's timeout functions: they return, leave the kernel's timers, the objects and the tick to
  the kernel, and call only what keeps the thread invariant and the threads that are ready.  The contract is strong, and asked for in every state:
  it admits functions that work on variables of the application and functions that wake only threads whose timers do not run; it excludes
  those that start or stop timers, such as \<open>examples/kernel/timer_stop_self.c\<close>, and those that may wake a thread whose timer
  runs, as \<open>timeout_dec\<close>, \<open>timeout_shutdown\<close> and \<open>timeout_music\<close> of \<open>light_wave_curer_button.c\<close> do when they call \<open>rt_event_send\<close>.\<close>

definition user_ok :: "(ptr \<Rightarrow> ptr \<Rightarrow> kstate \<Rightarrow> kstate option) \<Rightarrow> bool" where
  "user_ok user \<longleftrightarrow> (\<forall>a p s. thread_inv s \<longrightarrow>
     (\<exists>s'. user a p s = Some s' \<and> thread_inv s' \<and> same_timers s s' \<and>
        (\<forall>t. th_stat (threads s t) = RT_THREAD_READY \<longrightarrow> threads s' t = threads s t)))"

text \<open>The effect of the kernel's timeout function on the thread it is for.\<close>

definition woken_by_timeout :: "oref \<Rightarrow> kstate \<Rightarrow> bool" where
  "woken_by_timeout r s \<longleftrightarrow> (\<forall>t. r = TmrOf t \<longrightarrow>
     th_stat (threads s t) = RT_THREAD_READY \<and> th_error (threads s t) = - RT_ETIMEOUT)"

lemma thread_inv_timer_remove: "thread_inv s \<Longrightarrow> thread_inv (rt_timer_remove r s)"
proof (rule thread_invI)
  assume inv: "thread_inv s"
  have g: "good (rt_timer_remove r s) t = good s t" for t by (simp add: good_def)
  have "ready_inv (rt_timer_remove r s) = ready_inv s" by (rule ready_inv_cong) auto
  then show "ready_inv (rt_timer_remove r s)" using thread_invD(1) [OF inv] by simp
qed (auto simp: good_def dest: thread_invD)

lemma thread_inv_set_flag:
  assumes "thread_inv s" "r \<notin> set (timer_list s)"
  shows "thread_inv (set_flag r (\<lambda>f. f AND NOT RT_TIMER_FLAG_ACTIVATED) s)"
proof (rule thread_invI)
  let ?s = "set_flag r (\<lambda>f. f AND NOT RT_TIMER_FLAG_ACTIVATED) s"
  have "ready_inv ?s = ready_inv s" by (rule ready_inv_cong) auto
  then show "ready_inv ?s" using thread_invD(1) [OF assms(1)] by simp
  have g: "good ?s t = good s t" for t by (simp add: good_def)
  show "good ?s t" if "t \<in> set (tqs ?s q)" "q \<noteq> Defunct" for t q
    using that thread_invD(2) [OF assms(1), of t q] unfolding g by simp
  show "good ?s t \<and> th_stat (threads ?s t) = RT_THREAD_SUSPEND \<and> activated ?s (TmrOf t)"
    if "TmrOf t \<in> set (timer_list ?s)" for t
    using that thread_invD(4) [OF assms(1), of t] assms(2) unfolding g by (cases "r = TmrOf t") auto
qed (use thread_invD(3,5) [OF assms(1)] in auto)

lemma thread_inv_restart:
  assumes "thread_inv s" "timer_inv s" "tm_init_tick (timers s (At p)) < TICK_HALF"
    "tm_timeout_func (timers s (At p)) \<noteq> Thread_timeout"
  shows "thread_inv (started (At p) s)"
proof (rule thread_invI)
  have "ready_inv (started (At p) s) = ready_inv s" by (rule ready_inv_cong) auto
  then show "ready_inv (started (At p) s)" using thread_invD(1) [OF assms(1)] by simp
qed (use thread_invD(2-5) [OF assms(1)] timer_inv_started(2) [OF assms(2,3)] assms(4) in auto)

interpretation tick_timers: timeout_handler
  "kernel_callback user" "\<lambda>s. user_ok user \<and> thread_inv s" woken_by_timeout for user
proof unfold_locales
  fix s r assume P: "user_ok user \<and> thread_inv s" and r: "r \<in> set (timer_list s)"
  let ?s = "rt_timer_remove r s"
  have inv: "thread_inv ?s" using P by (simp add: thread_inv_timer_remove)
  show "\<exists>s'. kernel_callback user (tm_timeout_func (timers s r)) (tm_parameter (timers s r)) ?s = Some s' \<and>
      (user_ok user \<and> thread_inv s') \<and> same_timers ?s s' \<and> woken_by_timeout r s' \<and>
      (\<forall>u. woken_by_timeout u s \<longrightarrow> woken_by_timeout u s')"
  proof (cases r)
    case (At p)
    then obtain a where "tm_timeout_func (timers s r) = User_fn a"
      using thread_invD(5) [of s p] P r by (cases "tm_timeout_func (timers s r)") auto
    moreover obtain s' where "user a (tm_parameter (timers s r)) ?s = Some s'" "thread_inv s'"
      "same_timers ?s s'" "\<forall>t. th_stat (threads ?s t) = RT_THREAD_READY \<longrightarrow> threads s' t = threads ?s t"
      using P inv unfolding user_ok_def by blast
    ultimately show ?thesis using P At by (auto simp: kernel_callback_def woken_by_timeout_def)
  next
    case (TmrOf t)
    then have t: "good s t" "th_stat (threads s t) = RT_THREAD_SUSPEND"
      using thread_invD(4) [of s t] P r by auto
    have "\<exists>s'. rt_thread_timeout t ?s = Some s' \<and> thread_inv s' \<and> same_timers ?s s' \<and>
      threads s' = threads (timed_out t ?s) \<and> tqs s' = tqs (timed_out t ?s)"
      using t TmrOf by (intro rt_thread_timeout_total [OF inv]) (simp_all add: good_def)
    then show ?thesis
      using P t(1) TmrOf by (auto simp: kernel_callback_def good_def woken_by_timeout_def timed_out_def)
  qed
next
  fix s0 t s
  assume "user_ok user \<and> thread_inv s0" "t \<in> set (timer_list s0)" "periodic s0 t"
    "user_ok user \<and> thread_inv s" "timers s = timers s0" "timer_inv s"
    "tm_init_tick (timers s t) < TICK_HALF"
  then show "user_ok user \<and> thread_inv (started t s)"
    using thread_invD(4,5) [of s0] by (cases t) (auto intro: thread_inv_restart simp: good_def)
qed (use thread_inv_set_flag in \<open>auto simp: woken_by_timeout_def\<close>)

section \<open>Yielding\<close>

text \<open>The list moves of \<open>rt_thread_yield\<close> are a removal from and an insertion into the ready queue.\<close>

definition requeued :: "ptr \<Rightarrow> kstate \<Rightarrow> kstate" where
  "requeued t s = s\<lparr>tqs := q_insert_before (Ready (unat (th_current_priority (threads s t)))) t
     (q_remove t (tqs s))\<rparr>"

lemma requeued_remove_insert:
  assumes "ready_inv s" "schedulable s t" "shares_ready_queue t s"
  shows "Option.bind (rt_schedule_remove_thread t s) (rt_schedule_insert_thread t) = Some (requeued t s)"
proof -
  let ?p = "unat (th_current_priority (threads s t))" and ?q = "tqs s (Ready (unat (th_current_priority (threads s t))))"
  have p: "t \<noteq> RT_NULL" "?p < 32" using assms(2) by (auto simp: schedulable_def prio_ok_def)
  have q: "t \<in> set ?q" "2 \<le> length ?q" "distinct ?q"
    using assms(3) wf_queuesD(1) [OF ready_invD(1) [OF assms(1)]]
    by (auto simp: shares_ready_queue_def Let_def)
  then have "card (set ?q - {t}) \<noteq> 0" by (simp add: distinct_card)
  then have ne: "q_remove t (tqs s) (Ready ?p) \<noteq> []"
    by (metis card.empty list.set(1) q_remove_def set_removeAll)
  have bit: "ready_group s OR th_number_mask (threads s t) = ready_group s"
  proof (rule bit_word_eqI)
    fix n
    have "bit (ready_group s) ?p" using ready_invD(2) [OF assms(1), of ?p] q(1) by auto
    then show "bit (ready_group s OR th_number_mask (threads s t)) n = bit (ready_group s) n"
      using assms(2) by (auto simp: schedulable_def prio_ok_def bit_or_iff bit_exp_iff)
  qed
  have "(threads s t)\<lparr>th_stat := RT_THREAD_READY\<rparr> = threads s t"
    using ready_invD(6) [OF assms(1) q(1)] by simp
  then show ?thesis
    using p ne rt_schedule_remove_thread_eq [OF p]
    by (simp add: rt_schedule_insert_thread_eq requeued_def bit fun_upd_idem)
qed

lemma shares_in_ready: "shares_ready_queue t s \<Longrightarrow> t \<in> set (tqs s (Ready (prio_of s t)))"
  by (simp add: shares_ready_queue_def Let_def prio_of_def)

lemma rt_thread_yield_eq:
  "rt_thread_yield s =
     (if th_stat (threads s (rt_current_thread s)) = RT_THREAD_READY \<and>
         shares_ready_queue (rt_current_thread s) s
      then Option.bind (rt_schedule (requeued (rt_current_thread s) s)) (\<lambda>s. Some (RT_EOK, s))
      else Some (RT_EOK, s))"
  by (simp add: rt_thread_yield_def requeued_def Let_def)

lemma tqs_requeued:
  "tqs (requeued t s) q = removeAll t (tqs s q) @
     (if q = Ready (unat (th_current_priority (threads s t))) then [t] else [])"
  by (simp add: requeued_def q_insert_before_def q_remove_def)

lemma thread_inv_requeued:
  assumes inv: "thread_inv s" and t: "shares_ready_queue t s"
  shows "thread_inv (requeued t s)"
proof (rule thread_invI)
  have g: "good s t" using shares_in_ready [OF t] thread_invD(2) [OF inv] by blast
  then have sc: "schedulable s t" by (simp add: good_def schedulable_def)
  from requeued_remove_insert [OF thread_invD(1) [OF inv] sc t]
  obtain s1 where s1: "rt_schedule_remove_thread t s = Some s1"
    "rt_schedule_insert_thread t s1 = Some (requeued t s)" by (auto elim: bind_eq_SomeD)
  have "ready_inv s1 \<and> schedulable s1 t \<and> unlinked t (tqs s1)"
    using ready_queues.remove_ok [OF thread_invD(1) [OF inv] sc] s1(1) by auto
  then show "ready_inv (requeued t s)"
    using ready_queues.insert_ok [of s1 t] s1(2) by auto
  have gg: "good (requeued t s) u = good s u" for u by (simp add: requeued_def good_def periodic_def)
  show "good (requeued t s) u" if "u \<in> set (tqs (requeued t s) q)" "q \<noteq> Defunct" for u q
    using that g thread_invD(2) [OF inv, of u q] unfolding gg by (auto simp: tqs_requeued split: if_splits)
  show "th_stat (threads (requeued t s) u) = RT_THREAD_SUSPEND"
    if "u \<in> set (tqs (requeued t s) q)" "q \<noteq> Defunct" "\<And>p. q \<noteq> Ready p" for u q
    using that thread_invD(3) [OF inv, of u q] by (auto simp: tqs_requeued) (simp add: requeued_def)
qed (use thread_invD(4,5) [OF inv] in \<open>auto simp: requeued_def good_def periodic_def activated_def\<close>)

lemma rt_thread_yield_total:
  assumes "thread_inv s"
  shows "\<exists>s'. rt_thread_yield s = Some (RT_EOK, s') \<and> thread_inv s' \<and> same_timers s s' \<and> threads s' = threads s"
proof (cases "th_stat (threads s (rt_current_thread s)) = RT_THREAD_READY \<and>
    shares_ready_queue (rt_current_thread s) s")
  case True
  let ?t = "rt_current_thread s"
  have inv: "thread_inv (requeued ?t s)" using True thread_inv_requeued [OF assms] by blast
  have "tqs s (Ready (prio_of s ?t)) \<noteq> []" using shares_in_ready True by (metis empty_iff list.set(1))
  then have "ready_group (requeued ?t s) \<noteq> 0"
    using ready_invD(2) [OF thread_invD(1) [OF assms], of "prio_of s ?t"]
    by (auto simp: requeued_def)
  from rt_schedule_total [OF inv this] obtain s' where s': "rt_schedule (requeued ?t s) = Some s'" "thread_inv s'"
    by blast
  then show ?thesis
    using True rt_schedule_fields [OF s'(1)]
    by (auto simp: rt_thread_yield_eq same_timers_def requeued_def)
qed (use assms in \<open>auto simp: rt_thread_yield_eq same_timers_def\<close>)

section \<open>Changing the priority\<close>

abbreviation with_prio :: "u8 \<Rightarrow> rt_thread \<Rightarrow> rt_thread" where
  "with_prio p th \<equiv> th\<lparr>th_current_priority := p, th_number_mask := push_bit (unat p) 1\<rparr>"

lemma change_priority_not_ready:
  "th_stat (threads s t) \<noteq> RT_THREAD_READY \<Longrightarrow>
     change_priority t p s = Some (s\<lparr>threads := (threads s)(t := with_prio p (threads s t))\<rparr>)"
  by (simp add: change_priority_def set_thread_def Let_def)

lemma thread_inv_prio_not_ready:
  assumes inv: "thread_inv s" and "th_stat (threads s t) \<noteq> RT_THREAD_READY" "unat p < 32"
  shows "thread_inv (s\<lparr>threads := (threads s)(t := with_prio p (threads s t))\<rparr>)" (is "thread_inv ?s")
proof (rule thread_invI)
  have notin: "t \<notin> set (tqs s (Ready q))" for q
    using suspended_not_ready [OF thread_invD(1) [OF inv] assms(2)] .
  have "ready_inv ?s = ready_inv s" by (rule ready_inv_cong) (use notin in auto)
  then show "ready_inv ?s" using thread_invD(1) [OF inv] by simp
  have g: "good s u \<Longrightarrow> good ?s u" for u
    using assms(3) by (auto simp: good_def prio_ok_def stack_ok_def periodic_def)
  show "good ?s u" if "u \<in> set (tqs ?s q)" "q \<noteq> Defunct" for u q
    using that thread_invD(2) [OF inv, of u q] g by simp
  show "good ?s u \<and> th_stat (threads ?s u) = RT_THREAD_SUSPEND \<and> activated ?s (TmrOf u)"
    if "TmrOf u \<in> set (timer_list ?s)" for u
    using that thread_invD(4) [OF inv, of u] g [of u] by (auto simp: activated_def)
qed (use thread_invD(3,5) [OF inv] in auto)

text \<open>On a ready thread: out of the old queue, to the back of the new one.\<close>

lemma change_priority_ready:
  assumes inv: "thread_inv s" and t: "good s t" "th_stat (threads s t) = RT_THREAD_READY" "unat p < 32"
  obtains s' where "change_priority t p s = Some s'" "thread_inv s'"
    "threads s' = (threads s)(t := with_prio p (threads s t))"
    "\<And>q. tqs s' q = removeAll t (tqs s q) @ (if q = Ready (unat p) then [t] else [])"
    "timer_list s' = timer_list s" "timers s' = timers s" "objects s' = objects s"
    "rt_current_thread s' = rt_current_thread s" "mutexes s' = mutexes s" "rt_tick s' = rt_tick s"
    "rt_scheduler_lock_nest s' = rt_scheduler_lock_nest s" "rt_interrupt_nest s' = rt_interrupt_nest s"
proof -
  note rinv = thread_invD(1) [OF inv]
  have sc: "schedulable s t" using t(1) by (simp add: good_def schedulable_def)
  have p0: "t \<noteq> RT_NULL" "unat (th_current_priority (threads s t)) < 32"
    using t(1) by (auto simp: good_def prio_ok_def)
  define s1 where "s1 = s\<lparr>tqs := q_remove t (tqs s), ready_group :=
     (if q_remove t (tqs s) (Ready (unat (th_current_priority (threads s t)))) = []
      then ready_group s AND NOT (th_number_mask (threads s t)) else ready_group s)\<rparr>"
  have r1: "rt_schedule_remove_thread t s = Some s1"
    unfolding s1_def by (rule rt_schedule_remove_thread_eq [OF p0])
  have "prio_ok (threads s t)" using t(1) by (simp add: good_def)
  from ready_inv_remove [OF rinv this r1] have inv1: "ready_inv s1" .
  define s2 where "s2 = s1\<lparr>threads := (threads s1)(t := with_prio p (threads s1 t))\<rparr>"
  have inv2: "ready_inv s2" "unlinked t (tqs s2)" "prio_ok (threads s2 t)" "unat (th_current_priority (threads s2 t)) < 32"
  proof -
    have "ready_inv s2 = ready_inv s1"
      by (rule ready_inv_cong) (auto simp: s2_def s1_def q_remove_def)
    then show "ready_inv s2" using inv1 by simp
  qed (use t(3) in \<open>simp_all add: s2_def s1_def prio_ok_def\<close>)
  note e = rt_schedule_insert_thread_eq [OF p0(1) inv2(4)]
  define s' where "s' = s2\<lparr>threads := (threads s2)(t := (threads s2 t)\<lparr>th_stat := RT_THREAD_READY\<rparr>),
     tqs := q_insert_before (Ready (unat (th_current_priority (threads s2 t)))) t (tqs s2),
     ready_group := ready_group s2 OR th_number_mask (threads s2 t)\<rparr>"
  have ins: "rt_schedule_insert_thread t s2 = Some s'" unfolding s'_def by (rule e)
  have c: "change_priority t p s = Some s'"
    using t(2) r1 ins by (simp add: change_priority_def set_thread_def s2_def Let_def)
  have th: "threads s' = (threads s)(t := with_prio p (threads s t))"
    using t(2) by (cases "threads s t") (simp add: s'_def s2_def s1_def)
  have q: "tqs s' q = removeAll t (tqs s q) @ (if q = Ready (unat p) then [t] else [])" for q
    by (simp add: s'_def s2_def s1_def q_insert_before_def q_remove_def)
  have f: "timer_list s' = timer_list s" "timers s' = timers s" "objects s' = objects s"
    "rt_current_thread s' = rt_current_thread s" "mutexes s' = mutexes s" "rt_tick s' = rt_tick s"
    "rt_scheduler_lock_nest s' = rt_scheduler_lock_nest s" "rt_interrupt_nest s' = rt_interrupt_nest s"
    by (simp_all add: s'_def s2_def s1_def)
  have g: "good s u \<Longrightarrow> good s' u" for u
    using t(3) by (auto simp: good_def prio_ok_def stack_ok_def periodic_def th f)
  have "thread_inv s'"
  proof (rule thread_invI)
    show "ready_inv s'" by (rule ready_inv_insert [OF inv2(1) p0(1) inv2(3,2) ins])
    show "good s' u" if "u \<in> set (tqs s' r)" "r \<noteq> Defunct" for u r
      using that thread_invD(2) [OF inv, of u r] g t(1) by (auto simp: q split: if_splits)
    show "th_stat (threads s' u) = RT_THREAD_SUSPEND"
      if "u \<in> set (tqs s' r)" "r \<noteq> Defunct" "\<And>p. r \<noteq> Ready p" for u r
      using that thread_invD(3) [OF inv, of u r] by (auto simp: q th)
    show "good s' u \<and> th_stat (threads s' u) = RT_THREAD_SUSPEND \<and> activated s' (TmrOf u)"
      if "TmrOf u \<in> set (timer_list s')" for u
      using that thread_invD(4) [OF inv, of u] g [of u] t(2) by (auto simp: activated_def th f)
  qed (use thread_invD(5) [OF inv] in \<open>simp add: f\<close>)
  then show ?thesis using that [OF c _ th q] f by blast
qed

text \<open>Both cases: the thread stays ready or not, and no waiting list changes.\<close>

lemma rt_thread_control_priority:
  assumes inv: "thread_inv s" and t: "good s t" "unat p < 32"
  obtains s' where "rt_thread_control t 2 p s = Some (RT_EOK, s')" "thread_inv s'"
    "threads s' = (threads s)(t := with_prio p (threads s t))"
    "\<And>q. (\<And>n. q \<noteq> Ready n) \<Longrightarrow> q \<noteq> Defunct \<Longrightarrow> tqs s' q = tqs s q"
    "\<And>u n. u \<in> set (tqs s (Ready n)) \<Longrightarrow> \<exists>m. u \<in> set (tqs s' (Ready m))"
    "timer_list s' = timer_list s" "timers s' = timers s" "objects s' = objects s"
    "rt_current_thread s' = rt_current_thread s" "mutexes s' = mutexes s" "rt_tick s' = rt_tick s"
    "rt_scheduler_lock_nest s' = rt_scheduler_lock_nest s" "rt_interrupt_nest s' = rt_interrupt_nest s"
proof (cases "th_stat (threads s t) = RT_THREAD_READY")
  case True
  obtain s' where s': "change_priority t p s = Some s'" "thread_inv s'"
    "threads s' = (threads s)(t := with_prio p (threads s t))"
    "\<And>q. tqs s' q = removeAll t (tqs s q) @ (if q = Ready (unat p) then [t] else [])"
    "timer_list s' = timer_list s" "timers s' = timers s" "objects s' = objects s"
    "rt_current_thread s' = rt_current_thread s" "mutexes s' = mutexes s" "rt_tick s' = rt_tick s"
    "rt_scheduler_lock_nest s' = rt_scheduler_lock_nest s" "rt_interrupt_nest s' = rt_interrupt_nest s"
    using change_priority_ready [OF inv t(1) True t(2)] by blast
  have "tqs s' q = tqs s q" if "\<And>n. q \<noteq> Ready n" "q \<noteq> Defunct" for q
  proof -
    have "t \<notin> set (tqs s q)" using thread_invD(3) [OF inv, of t q] that True by force
    then show ?thesis using that(1) [of "unat p"] by (simp add: s'(4))
  qed
  moreover have "\<exists>m. u \<in> set (tqs s' (Ready m))" if "u \<in> set (tqs s (Ready n))" for u n
    using that by (intro exI [of _ "if u = t then unat p else n"]) (simp add: s'(4))
  ultimately show ?thesis
    using that [of s'] s' t(1) by (simp add: rt_thread_control_def good_def)
next
  case False
  show ?thesis
    by (rule that [OF _ thread_inv_prio_not_ready [OF inv False t(2)]])
      (use change_priority_not_ready [OF False, of p] t(1) in \<open>auto simp: rt_thread_control_def good_def\<close>)
qed

section \<open>Properties\<close>

text \<open>
  Suspending and resuming: in a consistent state \<open>rt_thread_suspend\<close> takes a ready thread out of
  every queue, stops its timer and marks it suspended, and \<open>rt_thread_resume\<close> of it then puts it at the
  back of the ready queue of its priority; both keep the invariant.  A thread that is not ready is not
  suspended, and one that is not suspended is not resumed: the calls return \<open>-RT_ERROR\<close> and change
  nothing.
\<close>

theorem rt_thread_suspend_resume:
  assumes "thread_inv s" "good s t"
  shows "if th_stat (threads s t) = RT_THREAD_READY
    then \<exists>s1 s2. rt_thread_suspend t s = Some (RT_EOK, s1) \<and> thread_inv s1 \<and>
      unlinked t (tqs s1) \<and> TmrOf t \<notin> set (timer_list s1) \<and>
      th_stat (threads s1 t) = RT_THREAD_SUSPEND \<and>
      rt_thread_resume t s1 = Some (RT_EOK, s2) \<and> thread_inv s2 \<and>
      th_stat (threads s2 t) = RT_THREAD_READY \<and>
      tqs s2 (Ready (prio_of s t)) = removeAll t (tqs s (Ready (prio_of s t))) @ [t]
    else rt_thread_suspend t s = Some (- RT_ERROR, s) \<and>
      (th_stat (threads s t) \<noteq> RT_THREAD_SUSPEND \<longrightarrow> rt_thread_resume t s = Some (- RT_ERROR, s))"
proof (cases "th_stat (threads s t) = RT_THREAD_READY")
  case True
  note sus = thread_inv_suspended [OF assms]
  have g: "good (suspended t s) t" "th_stat (threads (suspended t s) t) = RT_THREAD_SUSPEND"
    using assms(2) by simp_all
  have "tqs (resumed t (suspended t s)) (Ready (prio_of s t)) =
      removeAll t (tqs s (Ready (prio_of s t))) @ [t]"
    by (simp add: tqs_resumed prio_of_def q_remove_def)
  then show ?thesis
    using True rt_thread_suspend_eq [OF assms(2) True] sus rt_thread_resume_eq [OF g]
      thread_inv_resumed [OF sus(1) g] by auto
next
  case False
  then show ?thesis
    using assms(2) by (simp add: rt_thread_suspend_other rt_thread_resume_other good_def)
qed

text \<open>The two threads of the scheduler example, with timers as \<open>rt_thread_init\<close> sets them up.\<close>

definition two_started :: kstate where
  "two_started = two_ready\<lparr>rt_current_thread := 0x100, timers := (\<lambda>_. zero_timer)
     (TmrOf 0x100 := zero_timer\<lparr>tm_timeout_func := Thread_timeout, tm_parameter := 0x100\<rparr>,
      TmrOf 0x200 := zero_timer\<lparr>tm_timeout_func := Thread_timeout, tm_parameter := 0x200\<rparr>)\<rparr>"

lemma two_started_sel [simp]:
  "tqs two_started = (\<lambda>_. [])(Ready 3 := [0x100], Ready 7 := [0x200])"
  "timer_list two_started = []" "rt_current_thread two_started = 0x100"
  "rt_scheduler_lock_nest two_started = 0" "rt_interrupt_nest two_started = 0"
  "rt_tick two_started = 0" "switches two_started = []"
  "threads two_started 0x100 = (demo_thread 3)\<lparr>th_stat := RT_THREAD_READY\<rparr>"
  "threads two_started 0x200 = (demo_thread 7)\<lparr>th_stat := RT_THREAD_READY\<rparr>"
  "objects two_started r = zero_object" "ready_group two_started = 0x88"
  "containers two_started = (\<lambda>_. [])" "sems two_started = (\<lambda>_. \<lparr>sem_value = 0\<rparr>)"
  by (simp_all add: two_started_def two_ready_eq two_threads_def)

lemma good_two_started: "good two_started 0x100" "good two_started 0x200"
  by (simp_all add: good_def prio_ok_def stack_ok_def periodic_def zero_object_def)
    (simp_all add: two_started_def)

lemma thread_inv_two_started: "thread_inv two_started"
proof (rule thread_invI)
  have "ready_inv two_started = ready_inv two_ready"
    by (rule ready_inv_cong) (auto simp: two_started_def)
  then show "ready_inv two_started" using ready_inv_two_ready by simp
qed (use good_two_started in \<open>auto split: if_splits\<close>)

theorem rt_thread_suspend_resume_witness:
  "\<exists>s1. rt_thread_suspend 0x200 two_started = Some (RT_EOK, s1) \<and> thread_inv s1 \<and>
     th_stat (threads s1 0x200) = RT_THREAD_SUSPEND"
  using rt_thread_suspend_resume [OF thread_inv_two_started good_two_started(2)] by auto

text \<open>
  Round robin: when the running thread is at the front of the best ready queue and shares it,
  \<open>rt_thread_yield\<close> moves it behind its peers and switches to the next of them; alone in its queue it
  keeps running and nothing changes.
\<close>

theorem rt_thread_yield_round_robin:
  assumes "thread_inv s" "rt_scheduler_lock_nest s = 0"
    and "pick_ready s = Some (p, c)" "c = rt_current_thread s" "tqs s (Ready p) = c # ts"
  shows "case ts of
      [] \<Rightarrow> rt_thread_yield s = Some (RT_EOK, s)
    | u # us \<Rightarrow> \<exists>s'. rt_thread_yield s = Some (RT_EOK, s') \<and> thread_inv s' \<and>
        tqs s' (Ready p) = u # us @ [c] \<and> rt_current_thread s' = u \<and> switches s' = (c, u) # switches s"
proof -
  note rinv = thread_invD(1) [OF assms(1)]
  have c: "c \<in> set (tqs s (Ready p))" using assms(5) by simp
  have prio: "prio_of s c = p" using ready_invD(5) [OF rinv c] by (simp add: prio_of_def)
  have stat: "th_stat (threads s c) = RT_THREAD_READY" using ready_invD(6) [OF rinv c] .
  have d: "c \<notin> set ts" using wf_queuesD(1) [OF ready_invD(1) [OF rinv], of "Ready p"] assms(5) by simp
  have shares: "shares_ready_queue c s \<longleftrightarrow> ts \<noteq> []"
    using assms(5) prio by (cases ts) (auto simp: shares_ready_queue_def prio_of_def Let_def)
  show ?thesis
  proof (cases ts)
    case Nil
    then show ?thesis using shares assms(4) by (simp add: rt_thread_yield_eq)
  next
    case (Cons u us)
    have g: "good s c" using thread_invD(2) [OF assms(1) c] by simp
    then have sc: "schedulable s c" by (simp add: good_def schedulable_def)
    have sh: "shares_ready_queue c s" using shares Cons by simp
    obtain s1 where s1: "rt_schedule_remove_thread c s = Some s1"
      "rt_schedule_insert_thread c s1 = Some (requeued c s)"
      using requeued_remove_insert [OF rinv sc sh] by (auto elim: bind_eq_SomeD)
    have pick: "pick_ready (requeued c s) = Some (p, u) \<and> ready_of (requeued c s) p = u # us @ [c]"
      by (rule ready_queues.requeue_pick [OF rinv sc assms(3) _ _ s1])
        (use assms(5) Cons d in \<open>auto simp: ready_of_def\<close>)
    note inv = thread_inv_requeued [OF assms(1) sh]
    have u: "good (requeued c s) u"
      using thread_invD(2) [OF inv, of u "Ready p"] pick by (simp add: ready_of_def)
    have cur: "rt_current_thread (requeued c s) = c" "switches (requeued c s) = switches s"
      "rt_scheduler_lock_nest (requeued c s) = 0" using assms(2,4) by (simp_all add: requeued_def)
    have ne: "u \<noteq> c" using d Cons by auto
    have "rt_schedule (requeued c s) = Some ((requeued c s)\<lparr>rt_current_priority := of_nat p,
        rt_current_thread := u, switches := (c, u) # switches s\<rparr>)"
      using rt_schedule_pick [OF thread_invD(1) [OF inv] cur(3) conjunct1 [OF pick]] u ne cur
      by (simp add: stack_check_iff good_def)
    then show ?thesis
      using Cons sh stat assms(4) pick thread_inv_schedule [OF inv]
      by (simp add: rt_thread_yield_eq ready_of_def)
  qed
qed

theorem rt_thread_yield_round_robin_witness:
  "rt_thread_yield two_started = Some (RT_EOK, two_started)"
proof -
  have "pick_ready two_started = Some (3, 0x100)"
    by (subst ready_queues.pick_ok) (auto simp: thread_invD(1) [OF thread_inv_two_started] ready_of_def)
  from rt_thread_yield_round_robin [OF thread_inv_two_started _ this]
  show ?thesis by simp
qed

text \<open>The part of the tick interrupt before the timer check: count the tick and the time slice.\<close>

definition tick_slice :: "kstate \<Rightarrow> kstate option" where
  "tick_slice s = do {
     let s = s\<lparr>rt_tick := rt_tick s + 1\<rparr>;
     let thread = rt_thread_self s;
     let s = set_thread thread (\<lambda>t. t\<lparr>th_remaining_tick := th_remaining_tick t - 1\<rparr>) s;
     if th_remaining_tick (threads s thread) = 0
     then do {
       let s = set_thread thread (\<lambda>t. t\<lparr>th_remaining_tick := th_init_tick t\<rparr>) s;
       (_, s) \<leftarrow> rt_thread_yield s;
       Some s
     }
     else Some s
   }"

lemma rt_tick_increase_slice:
  "rt_tick_increase user s = Option.bind (tick_slice s) (rt_timer_check (kernel_callback user))"
  by (simp add: rt_tick_increase_def tick_slice_def Let_def)

lemma thread_inv_tick [simp]: "thread_inv (s\<lparr>rt_tick := n\<rparr>) = thread_inv s"
  by (rule thread_inv_cong) simp_all

lemma thread_inv_remaining [simp]:
  "thread_inv (set_thread t (\<lambda>th. th\<lparr>th_remaining_tick := f th\<rparr>) s) = thread_inv s"
  by (rule thread_inv_set_thread) (simp_all add: prio_ok_def stack_ok_def)

lemma same_timers_trans: "same_timers a b \<Longrightarrow> same_timers b c \<Longrightarrow> same_timers a c"
  by (simp add: same_timers_def)

lemma tick_slice_total:
  assumes "thread_inv s"
  shows "\<exists>s'. tick_slice s = Some s' \<and> thread_inv s' \<and> same_timers (s\<lparr>rt_tick := rt_tick s + 1\<rparr>) s'"
proof -
  let ?t = "rt_current_thread s"
  let ?s1 = "set_thread ?t (\<lambda>t. t\<lparr>th_remaining_tick := th_remaining_tick t - 1\<rparr>) (s\<lparr>rt_tick := rt_tick s + 1\<rparr>)"
  let ?s2 = "set_thread ?t (\<lambda>t. t\<lparr>th_remaining_tick := th_init_tick t\<rparr>) ?s1"
  have "thread_inv ?s2" using assms by (simp only: thread_inv_remaining thread_inv_tick)
  then obtain s' where s': "rt_thread_yield ?s2 = Some (RT_EOK, s')" "thread_inv s'" "same_timers ?s2 s'"
    using rt_thread_yield_total by blast
  have "same_timers (s\<lparr>rt_tick := rt_tick s + 1\<rparr>) ?s1" "same_timers (s\<lparr>rt_tick := rt_tick s + 1\<rparr>) ?s2"
    by (simp_all add: same_timers_def)
  moreover have "thread_inv ?s1" using assms by (simp only: thread_inv_remaining thread_inv_tick)
  ultimately show ?thesis
    using s' by (auto simp: tick_slice_def rt_thread_self_def Let_def intro: same_timers_trans)
qed

lemma tick_expires_due:
  assumes "user_ok user" "thread_inv s" "timer_inv s" "periods_ok s"
    and "\<forall>t \<in> set (timer_list s). 2 \<le> time_left s t"
  shows "\<exists>fired s'. rt_tick_increase user s = Some (fired, s') \<and> rt_tick s' = rt_tick s + 1 \<and>
    set fired = {r \<in> set (timer_list s). tm_timeout_tick (timers s r) = rt_tick s + 1} \<and>
    (\<exists>rest. timer_list s = fired @ rest) \<and>
    (\<forall>t. TmrOf t \<in> set fired \<longrightarrow>
       th_stat (threads s' t) = RT_THREAD_READY \<and> th_error (threads s' t) = - RT_ETIMEOUT) \<and>
    set (timer_list s') = {r \<in> set (timer_list s). r \<notin> set fired \<or> periodic s r \<and> activated s r} \<and>
    (\<forall>r \<in> set (timer_list s). r \<notin> set fired \<longrightarrow> timers s' r = timers s r) \<and>
    thread_inv s' \<and> timer_inv s' \<and> periods_ok s' \<and> (\<forall>t \<in> set (timer_list s'). 2 \<le> time_left s' t)"
proof -
  let ?s1 = "s\<lparr>rt_tick := rt_tick s + 1\<rparr>"
  obtain s2 where s2: "tick_slice s = Some s2" "thread_inv s2" "same_timers ?s1 s2"
    using tick_slice_total [OF assms(2)] by blast
  note f = same_timersD [OF s2(3)]
  have left: "time_left s2 t = time_left s t - 1" if "t \<in> set (timer_list s)" for t
    using assms(5) that time_left_tick [of s t] by (auto simp: f(1))
  have inv1: "timer_inv ?s1" using assms(5) by (intro timer_inv_tick [OF assms(3)]) force
  then have inv2: "timer_inv s2" "periods_ok s2"
    using assms(4) by (simp_all add: f(6,7)) (simp add: periods_ok_def periodic_def)
  have due: "time_left s2 t \<le> 1 \<longleftrightarrow> tm_timeout_tick (timers s t) = rt_tick s + 1"
    if "t \<in> set (timer_list s)" for t
  proof -
    have "time_left s2 t = unat (tm_timeout_tick (timers s t) - rt_tick s)" by (simp add: f time_left_def)
    moreover have "time_left s2 t \<ge> 1" using left [OF that] assms(5) that by force
    ultimately have "time_left s2 t \<le> 1 \<longleftrightarrow> unat (tm_timeout_tick (timers s t) - rt_tick s) = unat (1 :: u32)"
      by simp
    then show ?thesis by (simp only: word_unat_eq_iff [symmetric]) (simp add: diff_eq_eq add.commute)
  qed
  let ?fired = "takeWhile (\<lambda>t. time_left s2 t \<le> 1) (timer_list s2)"
  have P: "user_ok user \<and> thread_inv s2" using assms(1) s2(2) by simp
  from tick_timers.check_loop [OF P inv2] obtain s' where s':
    "timer_check_loop (kernel_callback user) (rt_tick s2) s2 = Some (?fired, s')"
    "thread_inv s'" "timer_inv s'" "periods_ok s'" "rt_tick s' = rt_tick s2"
    "\<forall>t. time_left s2 t \<le> 1 \<and> t \<in> set (timer_list s2) \<or> woken_by_timeout t s2 \<longrightarrow> woken_by_timeout t s'"
    "\<forall>t \<in> set (timer_list s'). 2 \<le> time_left s' t"
    "\<forall>t. 2 \<le> time_left s2 t \<longrightarrow> timers s' t = timers s2 t"
    "set (timer_list s') = {t \<in> set (timer_list s2). 2 \<le> time_left s2 t \<or> periodic s2 t \<and> activated s2 t}"
    by blast
  have l: "timer_list s2 = timer_list s" by (simp add: f(2))
  have sf: "set ?fired = {r \<in> set (timer_list s). time_left s2 r \<le> 1}"
    using inv2(1) unfolding l by (intro set_takeWhile_sorted) (simp add: timer_inv_def l)
  have late: "r \<in> set (timer_list s) \<Longrightarrow> r \<notin> set ?fired \<longleftrightarrow> 2 \<le> time_left s2 r" for r
    unfolding sf by auto
  have fired: "set ?fired = {r \<in> set (timer_list s). tm_timeout_tick (timers s r) = rt_tick s + 1}"
    unfolding sf using due by blast
  have "\<exists>rest. timer_list s = ?fired @ rest" unfolding l by (metis takeWhile_dropWhile_id)
  moreover have "th_stat (threads s' t) = RT_THREAD_READY \<and> th_error (threads s' t) = - RT_ETIMEOUT"
    if "TmrOf t \<in> set ?fired" for t
    using that s'(6) by (auto simp: woken_by_timeout_def dest!: set_takeWhileD)
  moreover have "set (timer_list s') =
      {r \<in> set (timer_list s). r \<notin> set ?fired \<or> periodic s r \<and> activated s r}"
    using late unfolding s'(9) l by (auto simp: f periodic_def activated_def)
  moreover have "\<forall>r \<in> set (timer_list s). r \<notin> set ?fired \<longrightarrow> timers s' r = timers s r"
    using late s'(8) by (simp add: f(4))
  moreover have "rt_tick_increase user s = Some (?fired, s')"
    using s2(1) s'(1) by (simp add: rt_tick_increase_slice rt_timer_check_def rt_tick_get_def)
  moreover have "rt_tick s' = rt_tick s + 1" using s'(5) f(5) by simp
  ultimately show ?thesis using fired s'(2-4,7) by (intro exI [of _ ?fired] exI [of _ s']) blast
qed

text \<open>A thread going to sleep: the state at the scheduling in \<open>rt_thread_sleep\<close>.\<close>

definition sleeping :: "ptr \<Rightarrow> rt_tick_t \<Rightarrow> kstate \<Rightarrow> kstate" where
  "sleeping t tick s =
     started (TmrOf t) (set_timer (TmrOf t) (\<lambda>r. r\<lparr>tm_init_tick := tick\<rparr>) (suspended t s))"

definition no_overdue :: "kstate \<Rightarrow> bool" where
  "no_overdue s \<longleftrightarrow> timer_inv s \<and> periods_ok s \<and> (\<forall>t \<in> set (timer_list s). 2 \<le> time_left s t)"

lemma good_set_init [simp]:
  "good (set_timer r (\<lambda>x. x\<lparr>tm_init_tick := n\<rparr>) s) t = good s t"
  by (auto simp: good_def periodic_def)

lemma activated_set_timer [simp]: "activated (set_timer r f s) = activated s"
  "periodic (set_timer r f s) = periodic s"
  by (simp_all add: activated_def periodic_def fun_eq_iff)

lemma thread_inv_set_init:
  "thread_inv (set_timer r (\<lambda>x. x\<lparr>tm_init_tick := n\<rparr>) s) = thread_inv s"
proof -
  let ?s = "set_timer r (\<lambda>x. x\<lparr>tm_init_tick := n\<rparr>) s"
  have "ready_inv ?s = ready_inv s" by (rule ready_inv_cong) auto
  moreover have "thread_timers_ok ?s = thread_timers_ok s"
    unfolding thread_timers_ok_def by (intro ball_cong) (auto split: oref.splits)
  ultimately show ?thesis by (simp add: thread_inv_def waiting_lists_ok_def)
qed

lemma time_left_set_init: "time_left (set_timer r (\<lambda>x. x\<lparr>tm_init_tick := n\<rparr>) s) = time_left s"
  by (simp add: time_left_def fun_eq_iff)

lemma timer_inv_suspended: "timer_inv s \<Longrightarrow> timer_inv (suspended t s)"
  unfolding suspended_def by (intro timer_inv_stopped) (subst timer_inv_cong [where s = s], simp_all)

lemma sleeping_inv:
  assumes "thread_inv s" "no_overdue s" "good s t" "0 < tick" "tick < TICK_HALF"
  shows "thread_inv (sleeping t tick s)" "no_overdue (sleeping t tick s)"
    "TmrOf t \<in> set (timer_list (sleeping t tick s))"
    "tm_timeout_tick (timers (sleeping t tick s) (TmrOf t)) = rt_tick s + tick"
    "unlinked t (tqs (sleeping t tick s))"
proof -
  let ?s1 = "set_timer (TmrOf t) (\<lambda>r. r\<lparr>tm_init_tick := tick\<rparr>) (suspended t s)"
  have inv1: "thread_inv ?s1" using thread_inv_suspended [OF assms(1,3)] by (simp add: thread_inv_set_init)
  have "timer_inv (suspended t s)" using assms(2) by (simp add: no_overdue_def timer_inv_suspended)
  then have tinv: "timer_inv ?s1" by (simp add: timer_inv_def time_left_set_init)
  have init: "tm_init_tick (timers ?s1 (TmrOf t)) < TICK_HALF" using assms(5) by simp
  note st = timer_inv_started [OF tinv init]
  show "thread_inv (sleeping t tick s)"
    unfolding sleeping_def using assms(3) by (intro thread_inv_started [OF inv1 tinv]) (auto simp: assms(5))
  show "TmrOf t \<in> set (timer_list (sleeping t tick s))" unfolding sleeping_def using st(2) by simp
  show "tm_timeout_tick (timers (sleeping t tick s) (TmrOf t)) = rt_tick s + tick"
    by (simp add: sleeping_def)
  show "unlinked t (tqs (sleeping t tick s))" by (simp add: sleeping_def)
  have l1: "set (timer_list ?s1) = set (timer_list s) - {TmrOf t}"
    by (simp add: timer_list_suspended [OF assms(1)])
  have left: "time_left (started (TmrOf t) ?s1) (TmrOf t) = unat tick + 1"
    using timer_list_started(4) [OF tinv init] by simp
  have "time_left (suspended t s) u = time_left s u" for u by (simp add: time_left_def)
  then have "2 \<le> time_left (started (TmrOf t) ?s1) u" if "u \<in> set (timer_list (started (TmrOf t) ?s1))" for u
    using that st(2) l1 left assms(2,4)
    by (cases "u = TmrOf t") (auto simp: time_left_started time_left_set_init no_overdue_def word_less_nat_alt)
  moreover have "periodic (suspended t s) u = periodic s u" for u
    unfolding suspended_def periodic_stopped by (simp add: periodic_def)
  then have "periods_ok (started (TmrOf t) ?s1)"
    using assms(2,3) l1 by (auto simp: periods_ok_def st(2) no_overdue_def good_def)
  ultimately show "no_overdue (sleeping t tick s)" using st(1) by (simp add: no_overdue_def sleeping_def)
qed

lemma rt_thread_sleep_eq:
  assumes "good s (rt_current_thread s)" "th_stat (threads s (rt_current_thread s)) = RT_THREAD_READY"
    "tick < TICK_HALF"
  shows "rt_thread_sleep w tick s =
    Option.bind (schedule_switch w (sleeping (rt_current_thread s) tick s))
      (\<lambda>s'. Some (RT_EOK, if th_error (threads s' (rt_current_thread s)) = - RT_ETIMEOUT
        then set_thread (rt_current_thread s) (\<lambda>t. t\<lparr>th_error := RT_EOK\<rparr>) s' else s'))"
  using assms rt_thread_suspend_eq [OF assms(1,2)]
  by (simp add: rt_thread_sleep_def rt_timer_control_def rt_timer_start_eq sleeping_def good_def Let_def)

text \<open>Successive tick interrupts.\<close>

fun run_ticks :: "(ptr \<Rightarrow> ptr \<Rightarrow> kstate \<Rightarrow> kstate option) \<Rightarrow> nat \<Rightarrow> kstate \<Rightarrow> kstate option" where
  "run_ticks user 0 s = Some s"
| "run_ticks user (Suc n) s =
     Option.bind (rt_tick_increase user s) (\<lambda>(_, s). run_ticks user n s)"

lemma run_ticks_wake:
  assumes "user_ok user" "thread_inv s" "no_overdue s" "TmrOf t \<in> set (timer_list s)"
    "tm_timeout_tick (timers s (TmrOf t)) = rt_tick s + of_nat (Suc n)" "Suc n < 2 ^ 32"
  shows "\<exists>s1 s2 fired. run_ticks user n s = Some s1 \<and> th_stat (threads s1 t) = RT_THREAD_SUSPEND \<and>
    rt_tick_increase user s1 = Some (fired, s2) \<and> thread_inv s2 \<and>
    th_stat (threads s2 t) = RT_THREAD_READY \<and> th_error (threads s2 t) = - RT_ETIMEOUT"
  using assms
proof (induction n arbitrary: s)
  case 0
  have "timer_inv s" "periods_ok s" "\<forall>t \<in> set (timer_list s). 2 \<le> time_left s t"
    using 0(3) by (auto simp: no_overdue_def)
  from tick_expires_due [OF 0(1,2) this] obtain fired s2 where
    "rt_tick_increase user s = Some (fired, s2)" "thread_inv s2"
    "set fired = {r \<in> set (timer_list s). tm_timeout_tick (timers s r) = rt_tick s + 1}"
    "\<forall>t. TmrOf t \<in> set fired \<longrightarrow>
       th_stat (threads s2 t) = RT_THREAD_READY \<and> th_error (threads s2 t) = - RT_ETIMEOUT" by blast
  moreover have "th_stat (threads s t) = RT_THREAD_SUSPEND" using thread_invD(4) [OF 0(2,4)] by simp
  ultimately show ?case using 0(4,5) by simp
next
  case (Suc n)
  have "timer_inv s" "periods_ok s" "\<forall>t \<in> set (timer_list s). 2 \<le> time_left s t"
    using Suc(4) by (auto simp: no_overdue_def)
  from tick_expires_due [OF Suc(2,3) this] obtain fired s' where s':
    "rt_tick_increase user s = Some (fired, s')" "rt_tick s' = rt_tick s + 1"
    "set fired = {r \<in> set (timer_list s). tm_timeout_tick (timers s r) = rt_tick s + 1}"
    "set (timer_list s') = {r \<in> set (timer_list s). r \<notin> set fired \<or> periodic s r \<and> activated s r}"
    "\<forall>r \<in> set (timer_list s). r \<notin> set fired \<longrightarrow> timers s' r = timers s r"
    "thread_inv s'" "no_overdue s'" unfolding no_overdue_def by blast
  have "(of_nat (Suc n) :: u32) \<noteq> 0" using Suc(7) unat_of_nat_u32 [of "Suc n"] by auto
  then have nf: "TmrOf t \<notin> set fired" using Suc(6) by (auto simp: s'(3))
  have "\<exists>s1 s2 fired. run_ticks user n s' = Some s1 \<and> th_stat (threads s1 t) = RT_THREAD_SUSPEND \<and>
    rt_tick_increase user s1 = Some (fired, s2) \<and> thread_inv s2 \<and>
    th_stat (threads s2 t) = RT_THREAD_READY \<and> th_error (threads s2 t) = - RT_ETIMEOUT"
    by (rule Suc.IH [OF Suc(2) s'(6,7)]) (use Suc(5,6,7) nf s'(2,4,5) in \<open>auto simp: algebra_simps\<close>)
  then show ?case using s'(1) by simp
qed

text \<open>
  C6. The tick interrupt: in a consistent state in which no timer is overdue, \<open>rt_tick_increase\<close>
  advances the tick by one (modulo the wrap), returns, and expires exactly the running timers whose
  timeout tick has been reached, in the order of the list; every thread that was waiting with such a
  timer is ready with error \<open>-RT_ETIMEOUT\<close> afterwards, periodic timers are running again, the other
  expired timers are not, and again no timer is overdue.  The application's timeout functions are the
  parameter \<open>user\<close>; they keep the contract \<open>user_ok\<close>, so they start and stop no timers and wake no thread whose timer runs (which excludes
  some callbacks of the repository, see there).
\<close>

theorem rt_tick_increase_expires_due_timers:
  assumes "user_ok user" "thread_inv s" "timer_inv s" "periods_ok s"
    and "\<forall>t \<in> set (timer_list s). 2 \<le> time_left s t"
  shows "\<exists>fired s'. rt_tick_increase user s = Some (fired, s') \<and> rt_tick s' = rt_tick s + 1 \<and>
    set fired = {r \<in> set (timer_list s). tm_timeout_tick (timers s r) = rt_tick s + 1} \<and>
    (\<exists>rest. timer_list s = fired @ rest) \<and>
    (\<forall>t. TmrOf t \<in> set fired \<longrightarrow>
       th_stat (threads s' t) = RT_THREAD_READY \<and> th_error (threads s' t) = - RT_ETIMEOUT) \<and>
    set (timer_list s') = {r \<in> set (timer_list s). r \<notin> set fired \<or> periodic s r \<and> activated s r} \<and>
    (\<forall>r \<in> set (timer_list s). r \<notin> set fired \<longrightarrow> timers s' r = timers s r) \<and>
    thread_inv s' \<and> timer_inv s' \<and> periods_ok s' \<and> (\<forall>t \<in> set (timer_list s'). 2 \<le> time_left s' t)"
  by (rule tick_expires_due [OF assms])

lemma no_overdue_two_started: "no_overdue two_started"
  by (simp add: no_overdue_def timer_inv_def periods_ok_def)

lemma user_ok_skip: "user_ok (\<lambda>a p s. Some s)"
  by (simp add: user_ok_def same_timers_def)

theorem rt_tick_increase_expires_due_timers_witness:
  "\<exists>fired s'. rt_tick_increase (\<lambda>a p s. Some s) (sleeping 0x200 1 two_started) = Some (fired, s') \<and>
     TmrOf 0x200 \<in> set fired \<and> th_error (threads s' 0x200) = - RT_ETIMEOUT"
proof -
  note sl = sleeping_inv [OF thread_inv_two_started no_overdue_two_started good_two_started(2), of 1, simplified]
  from sl(2) have "timer_inv (sleeping 0x200 1 two_started)" "periods_ok (sleeping 0x200 1 two_started)"
    "\<forall>t \<in> set (timer_list (sleeping 0x200 1 two_started)). 2 \<le> time_left (sleeping 0x200 1 two_started) t"
    by (auto simp: no_overdue_def)
  from rt_tick_increase_expires_due_timers [OF user_ok_skip sl(1) this] obtain fired s' where
    "rt_tick_increase (\<lambda>a p s. Some s) (sleeping 0x200 1 two_started) = Some (fired, s')"
    "set fired = {r \<in> set (timer_list (sleeping 0x200 1 two_started)).
       tm_timeout_tick (timers (sleeping 0x200 1 two_started) r) = rt_tick (sleeping 0x200 1 two_started) + 1}"
    "\<forall>t. TmrOf t \<in> set fired \<longrightarrow>
       th_stat (threads s' t) = RT_THREAD_READY \<and> th_error (threads s' t) = - RT_ETIMEOUT"
    by blast
  moreover have "rt_tick (sleeping 0x200 1 two_started) = 0" by (simp add: sleeping_def)
  ultimately show ?thesis using sl(3,4) by auto
qed

text \<open>
  C7. Sleeping: \<open>rt_thread_sleep(tick)\<close>, called by a ready thread with another thread ready and
  \<open>0 < tick < RT_TICK_MAX/2\<close>, switches away; through the next \<open>tick - 1\<close> tick interrupts the caller
  stays suspended, the \<open>tick\<close>-th one makes it ready, and when it runs again in that state the call
  returns \<open>RT_EOK\<close> with the thread's error cleared.  The application's timeout functions that run in those tick interrupts keep the
  contract \<open>user_ok\<close>.
\<close>

theorem rt_thread_sleep_wakes_after_tick:
  assumes "user_ok user" "thread_inv s" "no_overdue s" "c = rt_current_thread s" "good s c"
    "th_stat (threads s c) = RT_THREAD_READY" "0 < tick" "tick < TICK_HALF"
    "rt_scheduler_lock_nest s = 0" "rt_interrupt_nest s = 0" "ready_group (suspended c s) \<noteq> 0"
  shows "\<exists>s0 s1 s2 fired. rt_schedule (sleeping c tick s) = Some s0 \<and> rt_current_thread s0 \<noteq> c \<and>
    run_ticks user (unat tick - 1) s0 = Some s1 \<and> th_stat (threads s1 c) = RT_THREAD_SUSPEND \<and>
    rt_tick_increase user s1 = Some (fired, s2) \<and> th_stat (threads s2 c) = RT_THREAD_READY \<and>
    (\<forall>w. w s0 = s2 \<longrightarrow> rt_thread_sleep w tick s =
       Some (RT_EOK, set_thread c (\<lambda>t. t\<lparr>th_error := RT_EOK\<rparr>) s2))"
proof -
  let ?s = "sleeping c tick s"
  note sl = sleeping_inv [OF assms(2,3,5,7,8)]
  have f: "rt_current_thread ?s = c" "rt_interrupt_nest ?s = 0" "rt_scheduler_lock_nest ?s = 0"
    "rt_tick ?s = rt_tick s" "ready_group ?s = ready_group (suspended c s)"
    using assms by (simp_all add: sleeping_def)
  obtain s0 where s0: "rt_schedule ?s = Some s0" "thread_inv s0"
    using rt_schedule_total [OF sl(1)] assms(11) f(5) by auto
  note k = rt_schedule_fields [OF s0(1)]
  have "\<exists>p. rt_current_thread s0 \<in> set (tqs ?s (Ready p))"
    by (rule rt_schedule_current [OF thread_invD(1) [OF sl(1)] s0(1) f(3)])
  then have ne: "rt_current_thread s0 \<noteq> c" using sl(5) by (auto simp: unlinked_def)
  have same: "same_timers ?s s0" using k by (simp add: same_timers_def)
  have od: "no_overdue s0" using sl(2) same_timersD [OF same] by (simp add: no_overdue_def)
  have n: "Suc (unat tick - 1) = unat tick" using assms(7) by (simp add: word_less_nat_alt)
  have "tm_timeout_tick (timers s0 (TmrOf c)) = rt_tick s0 + of_nat (Suc (unat tick - 1))"
    using sl(4) f(4) by (simp only: n same_timersD [OF same]) simp
  moreover have "Suc (unat tick - 1) < 2 ^ 32" using n unat_u32_less [of tick] by simp
  ultimately obtain s1 s2 fired where w: "run_ticks user (unat tick - 1) s0 = Some s1"
    "th_stat (threads s1 c) = RT_THREAD_SUSPEND" "rt_tick_increase user s1 = Some (fired, s2)"
    "th_stat (threads s2 c) = RT_THREAD_READY" "th_error (threads s2 c) = - RT_ETIMEOUT"
    using run_ticks_wake [OF assms(1) s0(2) od, of c "unat tick - 1"] sl(3) same_timersD [OF same] by auto
  have "rt_thread_sleep v tick s = Some (RT_EOK, set_thread c (\<lambda>t. t\<lparr>th_error := RT_EOK\<rparr>) s2)"
    if "v s0 = s2" for v
    using that rt_thread_sleep_eq [of s tick v] assms(4,5,6,8) s0(1) ne f w(5)
    by (simp add: schedule_switch_def)
  then show ?thesis using s0(1) ne w by blast
qed

theorem rt_thread_sleep_wakes_after_tick_witness:
  "\<exists>s0 s2. rt_schedule (sleeping 0x100 1 two_started) = Some s0 \<and>
     rt_thread_sleep (\<lambda>_. s2) 1 two_started =
       Some (RT_EOK, set_thread 0x100 (\<lambda>t. t\<lparr>th_error := RT_EOK\<rparr>) s2)"
proof -
  have "ready_group (suspended 0x100 two_started) \<noteq> 0"
    by (simp add: suspended_def q_remove_def)
  with rt_thread_sleep_wakes_after_tick [OF user_ok_skip thread_inv_two_started no_overdue_two_started,
      of "0x100" 1] good_two_started(1)
  show ?thesis by auto
qed

end
