(* ===== verification/Ipc.thy ===== *)
theory Ipc
  imports Thread
begin

text \<open>
  The common part of \<open>src/src/ipc.c\<close>: the list of threads waiting on an IPC object, in arrival order
  or by priority, and the routines that put a thread on it and take threads off it.

  \<open>parked\<close> and \<open>waiting\<close> describe the state in which a blocking call gives up the processor;
  waking takes the first thread of the list, \<open>rt_ipc_list_resume_all\<close> terminates and wakes all.
\<close>

section \<open>The code\<close>

definition rt_ipc_object_init :: "ptr \<Rightarrow> kstate \<Rightarrow> rt_err_t \<times> kstate" where
  "rt_ipc_object_init ipc s = (RT_EOK, s\<lparr>tqs := (tqs s)(Susp ipc := [])\<rparr>)"

text \<open>\<open>RT_IPC_FLAG_PRIO\<close>: in front of the first thread with a lower priority (a greater number).\<close>

fun prio_insert :: "(ptr \<Rightarrow> rt_thread) \<Rightarrow> ptr \<Rightarrow> ptr list \<Rightarrow> ptr list" where
  "prio_insert ths t [] = [t]"
| "prio_insert ths t (u # us) =
     (if th_current_priority (ths t) < th_current_priority (ths u) then t # u # us
      else u # prio_insert ths t us)"

definition rt_ipc_list_suspend :: "tq \<Rightarrow> ptr \<Rightarrow> u8 \<Rightarrow> kstate \<Rightarrow> (rt_err_t \<times> kstate) option" where
  "rt_ipc_list_suspend list thread flag s = do {
     (_, s) \<leftarrow> rt_thread_suspend thread s;
     let s = (if flag = RT_IPC_FLAG_FIFO
              then s\<lparr>tqs := q_insert_before list thread (tqs s)\<rparr>
              else if flag = RT_IPC_FLAG_PRIO
              then s\<lparr>tqs := (tqs s)(list := prio_insert (threads s) thread (tqs s list))\<rparr>
              else s);
     Some (RT_EOK, s)
   }"

text \<open>\<open>rt_list_entry(list->next, ...)\<close> of an empty list is no thread; the callers test first.\<close>

definition rt_ipc_list_resume :: "tq \<Rightarrow> kstate \<Rightarrow> (rt_err_t \<times> kstate) option" where
  "rt_ipc_list_resume list s =
     (case tqs s list of
        [] \<Rightarrow> None
      | thread # _ \<Rightarrow> do { (_, s) \<leftarrow> rt_thread_resume thread s; Some (RT_EOK, s) })"

partial_function (option) rt_ipc_list_resume_all :: "tq \<Rightarrow> kstate \<Rightarrow> kstate option" where
  "rt_ipc_list_resume_all list s =
     (case tqs s list of
        [] \<Rightarrow> Some s
      | thread # _ \<Rightarrow>
          Option.bind (rt_thread_resume thread (set_thread thread (\<lambda>t. t\<lparr>th_error := - RT_ERROR\<rparr>) s))
            (\<lambda>(_, s). rt_ipc_list_resume_all list s))"

text \<open>
  The sequence every blocking call of \<open>ipc.c\<close> performs with interrupts disabled, after it has
  reset the thread's error: suspend the thread on the list and, for a positive waiting time, start its
  timer.
\<close>

definition ipc_wait :: "tq \<Rightarrow> ptr \<Rightarrow> u8 \<Rightarrow> rt_int32_t \<Rightarrow> kstate \<Rightarrow> kstate option" where
  "ipc_wait list thread flag time s = do {
     (_, s) \<leftarrow> rt_ipc_list_suspend list thread flag s;
     if 0 < sint time
     then do {
       (_, _, s) \<leftarrow> rt_timer_control (TmrOf thread) 0 time s;
       (_, s) \<leftarrow> rt_timer_start (TmrOf thread) s;
       Some s
     }
     else Some s
   }"

section \<open>Waiting in order\<close>

definition enqueue :: "u8 \<Rightarrow> (ptr \<Rightarrow> rt_thread) \<Rightarrow> ptr \<Rightarrow> ptr list \<Rightarrow> ptr list" where
  "enqueue flag ths t ts = (if flag = RT_IPC_FLAG_FIFO then ts @ [t] else prio_insert ths t ts)"

lemma set_prio_insert [simp]: "set (prio_insert ths t ts) = insert t (set ts)"
  by (induction ts) auto

lemma distinct_prio_insert [simp]: "distinct (prio_insert ths t ts) \<longleftrightarrow> t \<notin> set ts \<and> distinct ts"
  by (induction ts) auto

lemma set_enqueue [simp]: "set (enqueue flag ths t ts) = insert t (set ts)"
  by (simp add: enqueue_def)

lemma distinct_enqueue [simp]: "distinct (enqueue flag ths t ts) \<longleftrightarrow> t \<notin> set ts \<and> distinct ts"
  by (auto simp: enqueue_def)

lemma enqueue_not_Nil [simp]: "enqueue flag ths t ts \<noteq> []"
  by (metis empty_iff insertI1 list.set(1) set_enqueue)

lemma prio_insert_split:
  "prio_insert ths t ts =
     takeWhile (\<lambda>u. \<not> th_current_priority (ths t) < th_current_priority (ths u)) ts @ t #
     dropWhile (\<lambda>u. \<not> th_current_priority (ths t) < th_current_priority (ths u)) ts"
  by (induction ts) auto

lemma prio_insert_sorted:
  "sorted (map (\<lambda>u. unat (th_current_priority (ths u))) ts) \<Longrightarrow>
   sorted (map (\<lambda>u. unat (th_current_priority (ths u))) (prio_insert ths t ts))"
  using sorted_insert_split [of "\<lambda>u. unat (th_current_priority (ths u))" ts t]
  by (simp add: prio_insert_split word_less_nat_alt not_less)

lemma prio_insert_cong:
  "(\<And>u. u \<in> insert t (set ts) \<Longrightarrow> th_current_priority (ths u) = th_current_priority (ths' u)) \<Longrightarrow>
     prio_insert ths t ts = prio_insert ths' t ts"
  by (induction ts) auto

lemma enqueue_cong:
  "(\<And>u. u \<in> insert t (set ts) \<Longrightarrow> th_current_priority (ths u) = th_current_priority (ths' u)) \<Longrightarrow>
     enqueue flag ths t ts = enqueue flag ths' t ts"
  unfolding enqueue_def using prio_insert_cong [of t ts ths ths'] by simp

lemma wf_queues_enqueue:
  assumes "wf_queues q" "unlinked t q"
  shows "wf_queues (q(h := enqueue flag ths t (q h)))"
  using assms
  by (intro wf_queuesI) (auto simp: unlinked_def wf_queuesD(1) dest: wf_queuesD(2) split: if_splits)

section \<open>Parking the running thread\<close>

definition parked :: "tq \<Rightarrow> u8 \<Rightarrow> ptr \<Rightarrow> kstate \<Rightarrow> kstate" where
  "parked l flag t s = (suspended t s)\<lparr>tqs := (q_remove t (tqs s))
     (l := enqueue flag (threads s) t (removeAll t (tqs s l)))\<rparr>"

definition wait_list :: "tq \<Rightarrow> bool" where
  "wait_list l \<longleftrightarrow> (case l of Susp p \<Rightarrow> True | SuspSender p \<Rightarrow> True | _ \<Rightarrow> False)"

lemma wait_listD: "wait_list l \<Longrightarrow> l \<noteq> Defunct" "wait_list l \<Longrightarrow> l \<noteq> Ready p"
  by (auto simp: wait_list_def)

lemma wait_list_simps [simp]: "wait_list (Susp p)" "wait_list (SuspSender p)"
  by (simp_all add: wait_list_def)

lemma rt_ipc_list_suspend_eq:
  assumes "good s t" "th_stat (threads s t) = RT_THREAD_READY" "flag \<in> {RT_IPC_FLAG_FIFO, RT_IPC_FLAG_PRIO}"
  shows "rt_ipc_list_suspend l t flag s = Some (RT_EOK, parked l flag t s)"
proof -
  have "prio_insert (threads (suspended t s)) t ts = prio_insert (threads s) t ts" for ts
    by (rule prio_insert_cong) auto
  then show ?thesis
    using assms(3) rt_thread_suspend_eq [OF assms(1,2)]
    by (auto simp: rt_ipc_list_suspend_def parked_def enqueue_def q_insert_before_def q_remove_def)
qed

lemma parked_fields [simp]:
  "threads (parked l flag t s) = (threads s)(t := (threads s t)\<lparr>th_stat := RT_THREAD_SUSPEND\<rparr>)"
  "timers (parked l flag t s) = timers s" "timer_list (parked l flag t s) = timer_list (suspended t s)"
  "sems (parked l flag t s) = sems s" "mutexes (parked l flag t s) = mutexes s"
  "events (parked l flag t s) = events s" "mailboxes (parked l flag t s) = mailboxes s"
  "mqs (parked l flag t s) = mqs s" "mq_nodes (parked l flag t s) = mq_nodes s"
  "mempools (parked l flag t s) = mempools s" "mp_links (parked l flag t s) = mp_links s"
  "kheap (parked l flag t s) = kheap s" "heap_sem (parked l flag t s) = heap_sem s"
  "containers (parked l flag t s) = containers s"
  "rt_current_thread (parked l flag t s) = rt_current_thread s"
  "rt_scheduler_lock_nest (parked l flag t s) = rt_scheduler_lock_nest s"
  "rt_interrupt_nest (parked l flag t s) = rt_interrupt_nest s" "rt_tick (parked l flag t s) = rt_tick s"
  "switches (parked l flag t s) = switches s" "ready_group (parked l flag t s) = ready_group (suspended t s)"
  "objects (parked l flag t s) = objects (suspended t s)"
  by (simp_all add: parked_def)

lemma tqs_parked:
  "tqs (parked l flag t s) q =
     (if q = l then enqueue flag (threads s) t (removeAll t (tqs s l)) else removeAll t (tqs s q))"
  by (simp add: parked_def q_remove_def)

lemma thread_inv_parked:
  assumes inv: "thread_inv s" and t: "good s t" and l: "wait_list l"
  shows "thread_inv (parked l flag t s)"
  unfolding parked_def
proof (rule thread_inv_enqueue [where t = t and q = l])
  show "thread_inv (suspended t s)" by (rule thread_inv_suspended [OF inv t])
  have "wf_queues (q_remove t (tqs s))" "unlinked t (q_remove t (tqs s))"
    using ready_invD(1) [OF thread_invD(1) [OF inv]] by auto
  from wf_queues_enqueue [OF this]
  show "wf_queues ((q_remove t (tqs s))(l := enqueue flag (threads s) t (removeAll t (tqs s l))))"
    by (simp add: q_remove_def)
qed (use t wait_listD [OF l] in \<open>auto simp: q_remove_def\<close>)

lemma good_parked [simp]: "good (parked l flag t s) u = good s u"
proof -
  have "good (parked l flag t s) u = good (suspended t s) u"
    by (simp add: parked_def good_def periodic_def)
  then show ?thesis by simp
qed

text \<open>With a time limit, the timer runs as well.\<close>

definition waiting :: "tq \<Rightarrow> u8 \<Rightarrow> rt_int32_t \<Rightarrow> ptr \<Rightarrow> kstate \<Rightarrow> kstate" where
  "waiting l flag time t s =
     (if 0 < sint time
      then started (TmrOf t) (set_timer (TmrOf t) (\<lambda>r. r\<lparr>tm_init_tick := time\<rparr>) (parked l flag t s))
      else parked l flag t s)"

definition time_ok :: "rt_int32_t \<Rightarrow> bool" where
  "time_ok time \<longleftrightarrow> (0 < sint time \<longrightarrow> time < TICK_HALF)"

lemma ipc_wait_eq:
  assumes "good s t" "th_stat (threads s t) = RT_THREAD_READY" "flag \<in> {RT_IPC_FLAG_FIFO, RT_IPC_FLAG_PRIO}"
    "time_ok time"
  shows "ipc_wait l t flag time s = Some (waiting l flag time t s)"
  using rt_ipc_list_suspend_eq [OF assms(1-3), of l] assms(4)
  by (auto simp: ipc_wait_def rt_timer_control_def rt_timer_start_eq waiting_def time_ok_def)

lemma timer_inv_parked: "timer_inv s \<Longrightarrow> timer_inv (parked l flag t s)"
  using timer_inv_suspended [of s t]
  by (subst timer_inv_cong [where s = "suspended t s"]) simp_all

lemma waiting_fields [simp]:
  "threads (waiting l flag time t s) = (threads s)(t := (threads s t)\<lparr>th_stat := RT_THREAD_SUSPEND\<rparr>)"
  "sems (waiting l flag time t s) = sems s" "containers (waiting l flag time t s) = containers s"
  "rt_current_thread (waiting l flag time t s) = rt_current_thread s"
  "rt_scheduler_lock_nest (waiting l flag time t s) = rt_scheduler_lock_nest s"
  "rt_interrupt_nest (waiting l flag time t s) = rt_interrupt_nest s"
  "rt_tick (waiting l flag time t s) = rt_tick s" "switches (waiting l flag time t s) = switches s"
  "ready_group (waiting l flag time t s) = ready_group (suspended t s)"
  "tqs (waiting l flag time t s) = tqs (parked l flag t s)"
  by (simp_all add: waiting_def)

lemma started_more [simp]:
  "mutexes (started r s) = mutexes s" "events (started r s) = events s"
  "mailboxes (started r s) = mailboxes s" "mqs (started r s) = mqs s" "mq_nodes (started r s) = mq_nodes s"
  "mempools (started r s) = mempools s" "mp_links (started r s) = mp_links s"
  "kheap (started r s) = kheap s" "heap_sem (started r s) = heap_sem s"
  by (simp_all add: started_def Let_def)

lemma waiting_more [simp]:
  "mutexes (waiting l flag time t s) = mutexes s" "events (waiting l flag time t s) = events s"
  "mailboxes (waiting l flag time t s) = mailboxes s" "mqs (waiting l flag time t s) = mqs s"
  "mq_nodes (waiting l flag time t s) = mq_nodes s" "mempools (waiting l flag time t s) = mempools s"
  "mp_links (waiting l flag time t s) = mp_links s" "kheap (waiting l flag time t s) = kheap s"
  "heap_sem (waiting l flag time t s) = heap_sem s"
  by (simp_all add: waiting_def)

lemma good_waiting [simp]: "good (waiting l flag time t s) u = good s u"
  by (simp add: waiting_def)

lemma thread_inv_waiting:
  assumes inv: "thread_inv s" "timer_inv s" and t: "good s t" and l: "wait_list l" and time: "time_ok time"
  shows "thread_inv (waiting l flag time t s)"
proof (cases "0 < sint time")
  case True
  let ?s = "set_timer (TmrOf t) (\<lambda>r. r\<lparr>tm_init_tick := time\<rparr>) (parked l flag t s)"
  have "thread_inv ?s" using thread_inv_parked [OF inv(1) t l] by (simp add: thread_inv_set_init)
  moreover have "timer_inv ?s"
    using timer_inv_parked [OF inv(2), of l flag t] by (simp add: timer_inv_def time_left_set_init)
  ultimately have "thread_inv (started (TmrOf t) ?s)"
    using True time t by (intro thread_inv_started) (auto simp: time_ok_def)
  then show ?thesis using True by (simp add: waiting_def)
qed (use thread_inv_parked [OF inv(1) t l] in \<open>simp add: waiting_def\<close>)

section \<open>Waking\<close>

lemma rt_ipc_list_resume_eq:
  assumes "thread_inv s" "wait_list l" "tqs s l = t # ts"
  shows "rt_ipc_list_resume l s = Some (RT_EOK, resumed t s)" "good s t"
    "th_stat (threads s t) = RT_THREAD_SUSPEND" "thread_inv (resumed t s)" "ready_group (resumed t s) \<noteq> 0"
    "tqs (resumed t s) l = ts"
proof -
  have t: "t \<in> set (tqs s l)" using assms(3) by simp
  show g: "good s t" using thread_invD(2) [OF assms(1) t] wait_listD(1) [OF assms(2)] by simp
  show st: "th_stat (threads s t) = RT_THREAD_SUSPEND"
    using thread_invD(3) [OF assms(1) t] wait_listD [OF assms(2)] by blast
  show "rt_ipc_list_resume l s = Some (RT_EOK, resumed t s)"
    using assms(3) rt_thread_resume_eq [OF g st] by (simp add: rt_ipc_list_resume_def)
  show "thread_inv (resumed t s)" "ready_group (resumed t s) \<noteq> 0" by (rule thread_inv_resumed [OF assms(1) g st])+
  have "distinct (t # ts)"
    using wf_queuesD(1) [OF ready_invD(1) [OF thread_invD(1) [OF assms(1)]], of l] assms(3) by simp
  then show "tqs (resumed t s) l = ts"
    using assms(3) wait_listD(2) [OF assms(2)] by (simp add: tqs_resumed)
qed

text \<open>What waking threads leaves alone; lists and timers only lose or move what they held.\<close>

definition waking_frame :: "kstate \<Rightarrow> kstate \<Rightarrow> bool" where
  "waking_frame s s' \<longleftrightarrow> kheap s' = kheap s \<and> heap_sem s' = heap_sem s \<and> mempools s' = mempools s \<and>
     mp_links s' = mp_links s \<and> timers s' = timers s \<and> (\<forall>p. objects s' (At p) = objects s (At p)) \<and>
     (\<forall>r. ob_type (objects s' r) = ob_type (objects s r)) \<and>
     set (timer_list s') \<subseteq> set (timer_list s) \<and>
     (\<forall>q t. t \<in> set (tqs s' q) \<longrightarrow> (\<exists>q'. t \<in> set (tqs s q')))"

lemma waking_frame_trans: "waking_frame s s1 \<Longrightarrow> waking_frame s1 s2 \<Longrightarrow> waking_frame s s2"
  unfolding waking_frame_def by (simp, blast)

lemma waking_frame_resumed: "t \<in> set (tqs s q) \<Longrightarrow> waking_frame s (resumed t s)"
proof -
  assume t: "t \<in> set (tqs s q)"
  have "objects (resumed t s) = objects (timer_stopped (TmrOf t) s)"
    "timer_list (resumed t s) = timer_list (timer_stopped (TmrOf t) s)"
    by (simp_all add: resumed_def woken_def)
  then have "objects (resumed t s) (At p) = objects s (At p)" "ob_type (objects (resumed t s) r) = ob_type (objects s r)"
    "set (timer_list (resumed t s)) \<subseteq> set (timer_list s)" for p r
    by (auto simp: timer_stopped_def set_flag_def rt_timer_remove_def)
  moreover have "\<exists>q'. u \<in> set (tqs s q')" if "u \<in> set (tqs (resumed t s) q'')" for u q''
    using that t by (auto simp: tqs_resumed split: if_splits)
  ultimately show ?thesis by (auto simp: waking_frame_def)
qed

text \<open>The loop that wakes all waiters ends, and each of them finds \<open>-RT_ERROR\<close>.\<close>

lemma rt_ipc_list_resume_all_total:
  assumes "thread_inv s" "wait_list l"
  shows "\<exists>s'. rt_ipc_list_resume_all l s = Some s' \<and> thread_inv s' \<and> tqs s' l = [] \<and>
    (\<forall>q. wait_list q \<and> q \<noteq> l \<longrightarrow> tqs s' q = tqs s q) \<and>
    (\<forall>t. threads s' t = (if t \<in> set (tqs s l)
       then (threads s t)\<lparr>th_stat := RT_THREAD_READY, th_error := - RT_ERROR\<rparr> else threads s t)) \<and>
    (tqs s l \<noteq> [] \<or> ready_group s \<noteq> 0 \<longrightarrow> ready_group s' \<noteq> 0) \<and>
    sems s' = sems s \<and> mutexes s' = mutexes s \<and> events s' = events s \<and> mailboxes s' = mailboxes s \<and>
    mqs s' = mqs s \<and> mq_nodes s' = mq_nodes s \<and> containers s' = containers s \<and>
    rt_current_thread s' = rt_current_thread s \<and> rt_interrupt_nest s' = rt_interrupt_nest s \<and>
    waking_frame s s'"
  using assms(1)
proof (induction "tqs s l" arbitrary: s)
  case Nil
  then show ?case by (subst rt_ipc_list_resume_all.simps) (auto simp: waking_frame_def)
next
  case (Cons t ts)
  let ?s = "set_thread t (\<lambda>th. th\<lparr>th_error := - RT_ERROR\<rparr>) s"
  have inv: "thread_inv ?s" using Cons(3) by simp
  have l: "tqs ?s l = t # ts" using Cons(2) by simp
  note r = rt_ipc_list_resume_eq [OF inv assms(2) l]
  have d: "t \<notin> set ts" "distinct ts"
    using wf_queuesD(1) [OF ready_invD(1) [OF thread_invD(1) [OF Cons(3)]], of l] Cons(2)
    by (metis distinct.simps(2))+
  have other: "t \<notin> set (tqs s q)" if "q \<noteq> l" for q
    using that wf_queuesD(2) [OF ready_invD(1) [OF thread_invD(1) [OF Cons(3)]], of t l q] Cons(2)
    by (metis list.set_intros(1))
  have step: "rt_ipc_list_resume_all l s = rt_ipc_list_resume_all l (resumed t ?s)"
    using Cons(2) [symmetric] rt_thread_resume_eq [OF r(2,3)]
    by (subst rt_ipc_list_resume_all.simps) simp
  from Cons(1) [OF r(6) [symmetric] r(4)] obtain s' where s':
    "rt_ipc_list_resume_all l (resumed t ?s) = Some s'" "thread_inv s'" "tqs s' l = []"
    "\<forall>q. wait_list q \<and> q \<noteq> l \<longrightarrow> tqs s' q = tqs (resumed t ?s) q"
    "\<forall>u. threads s' u = (if u \<in> set ts
       then (threads (resumed t ?s) u)\<lparr>th_stat := RT_THREAD_READY, th_error := - RT_ERROR\<rparr>
       else threads (resumed t ?s) u)"
    "ready_group s' \<noteq> 0" "sems s' = sems s" "mutexes s' = mutexes s" "events s' = events s"
    "mailboxes s' = mailboxes s" "mqs s' = mqs s" "mq_nodes s' = mq_nodes s" "containers s' = containers s"
    "rt_current_thread s' = rt_current_thread s" "rt_interrupt_nest s' = rt_interrupt_nest s"
    "waking_frame (resumed t ?s) s'"
    using r(5,6) by auto
  have "waking_frame s (resumed t ?s)"
    using waking_frame_resumed [of t ?s l] l by (simp add: waking_frame_def)
  with s'(16) have fr: "waking_frame s s'" by (rule waking_frame_trans [rotated])
  have "tqs s' q = tqs s q" if "wait_list q \<and> q \<noteq> l" for q
    using that s'(4) other [of q] wait_listD(2) [of q] by (auto simp: tqs_resumed)
  moreover have "threads s' u = (if u \<in> set (tqs s l)
      then (threads s u)\<lparr>th_stat := RT_THREAD_READY, th_error := - RT_ERROR\<rparr> else threads s u)" for u
    using s'(5) d Cons(2) [symmetric] by auto
  ultimately show ?case using step s' fr by auto
qed

section \<open>The caller of a blocking operation\<close>

text \<open>The running thread, ready, outside interrupts.\<close>

definition runnable :: "kstate \<Rightarrow> bool" where
  "runnable s \<longleftrightarrow> in_thread_context s \<and> good s (rt_current_thread s) \<and>
     th_stat (threads s (rt_current_thread s)) = RT_THREAD_READY"

definition fifo_or_prio :: "ptr \<Rightarrow> kstate \<Rightarrow> bool" where
  "fifo_or_prio obj s \<longleftrightarrow> ob_flag (objects s (At obj)) \<in> {RT_IPC_FLAG_FIFO, RT_IPC_FLAG_PRIO}"

text \<open>The state in which a thread that has to wait on the list \<open>l\<close> of \<open>obj\<close> calls the scheduler.\<close>

definition blocked_on :: "tq \<Rightarrow> u8 \<Rightarrow> rt_int32_t \<Rightarrow> kstate \<Rightarrow> kstate" where
  "blocked_on l flag time s = waiting l flag time (rt_current_thread s)
     (set_thread (rt_current_thread s) (\<lambda>t. t\<lparr>th_error := RT_EOK\<rparr>) s)"

abbreviation ipc_blocked :: "tq \<Rightarrow> ptr \<Rightarrow> rt_int32_t \<Rightarrow> kstate \<Rightarrow> kstate" where
  "ipc_blocked l obj time s \<equiv> blocked_on l (ob_flag (objects s (At obj))) time s"

text \<open>Another thread is ready besides the caller (the idle thread always is), and the scheduler is not
  locked, so the caller can be switched out.\<close>

definition can_switch :: "kstate \<Rightarrow> bool" where
  "can_switch s \<longleftrightarrow> rt_scheduler_lock_nest s = 0 \<and> ready_group (suspended (rt_current_thread s) s) \<noteq> 0"

lemma ready_not_waiting:
  assumes "thread_inv s" "wait_list l" "th_stat (threads s t) = RT_THREAD_READY"
  shows "t \<notin> set (tqs s l)"
proof
  assume "t \<in> set (tqs s l)"
  then have "th_stat (threads s t) = RT_THREAD_SUSPEND"
    using thread_invD(3) [OF assms(1)] wait_listD [OF assms(2)] by blast
  then show False using assms(3) by simp
qed

lemma ready_group_set_error:
  "ready_group (suspended t (set_thread t (\<lambda>th. th\<lparr>th_error := e\<rparr>) s)) = ready_group (suspended t s)"
  by (simp add: suspended_def)

lemma ipc_wait_blocked_on:
  assumes "runnable s" "flag \<in> {RT_IPC_FLAG_FIFO, RT_IPC_FLAG_PRIO}" "time_ok time"
  shows "ipc_wait l (rt_current_thread s) flag time
      (set_thread (rt_current_thread s) (\<lambda>t. t\<lparr>th_error := RT_EOK\<rparr>) s) = Some (blocked_on l flag time s)"
  unfolding blocked_on_def using assms by (intro ipc_wait_eq) (auto simp: runnable_def)

lemma ipc_wait_blocked:
  assumes "runnable s" "fifo_or_prio obj s" "time_ok time"
  shows "ipc_wait l (rt_current_thread s) (ob_flag (objects s (At obj))) time
      (set_thread (rt_current_thread s) (\<lambda>t. t\<lparr>th_error := RT_EOK\<rparr>) s) = Some (ipc_blocked l obj time s)"
  using assms by (intro ipc_wait_blocked_on) (simp_all add: fifo_or_prio_def)

lemma ipc_blocked_fields [simp]:
  "rt_current_thread (blocked_on l flag time s) = rt_current_thread s"
  "rt_interrupt_nest (blocked_on l flag time s) = rt_interrupt_nest s"
  "rt_scheduler_lock_nest (blocked_on l flag time s) = rt_scheduler_lock_nest s"
  "rt_tick (blocked_on l flag time s) = rt_tick s" "switches (blocked_on l flag time s) = switches s"
  "sems (blocked_on l flag time s) = sems s" "mutexes (blocked_on l flag time s) = mutexes s"
  "events (blocked_on l flag time s) = events s" "mailboxes (blocked_on l flag time s) = mailboxes s"
  "mqs (blocked_on l flag time s) = mqs s" "mq_nodes (blocked_on l flag time s) = mq_nodes s"
  "containers (blocked_on l flag time s) = containers s"
  "ready_group (blocked_on l flag time s) = ready_group (suspended (rt_current_thread s) s)"
  by (simp_all add: blocked_on_def ready_group_set_error)

lemma ipc_blocked_thread:
  "threads (blocked_on l flag time s) = (threads s)(rt_current_thread s :=
     (threads s (rt_current_thread s))\<lparr>th_error := RT_EOK, th_stat := RT_THREAD_SUSPEND\<rparr>)"
  by (simp add: blocked_on_def)

lemma tqs_ipc_blocked:
  assumes "thread_inv s" "runnable s" "wait_list l"
  shows "tqs (blocked_on l flag time s) l =
      enqueue flag (threads s) (rt_current_thread s) (tqs s l)"
    "q \<noteq> l \<Longrightarrow> wait_list q \<Longrightarrow> tqs (blocked_on l flag time s) q = tqs s q"
    "rt_current_thread s \<notin> set (tqs (blocked_on l flag time s) (Ready p))"
proof -
  let ?c = "rt_current_thread s"
  have st: "th_stat (threads s ?c) = RT_THREAD_READY" using assms(2) by (simp add: runnable_def)
  have e: "enqueue flag (threads (set_thread ?c (\<lambda>t. t\<lparr>th_error := RT_EOK\<rparr>) s)) ?c ts =
      enqueue flag (threads s) ?c ts" for flag ts
    unfolding enqueue_def by (auto intro: prio_insert_cong)
  show "tqs (blocked_on l flag time s) l =
      enqueue flag (threads s) ?c (tqs s l)"
    using ready_not_waiting [OF assms(1,3) st] e by (simp add: blocked_on_def tqs_parked)
  show "tqs (blocked_on l flag time s) q = tqs s q" if "q \<noteq> l" "wait_list q"
    using ready_not_waiting [OF assms(1) that(2) st] that by (simp add: blocked_on_def tqs_parked)
  show "?c \<notin> set (tqs (blocked_on l flag time s) (Ready p))"
    using wait_listD(2) [OF assms(3), of p] by (auto simp: blocked_on_def tqs_parked)
qed

lemma thread_inv_ipc_blocked:
  assumes "thread_inv s" "timer_inv s" "runnable s" "wait_list l" "time_ok time"
  shows "thread_inv (blocked_on l flag time s)"
proof -
  let ?s = "set_thread (rt_current_thread s) (\<lambda>t. t\<lparr>th_error := RT_EOK\<rparr>) s"
  have "timer_inv ?s" using assms(2) by (subst timer_inv_cong [where s = s]) simp_all
  then show ?thesis
    unfolding blocked_on_def using assms by (intro thread_inv_waiting) (auto simp: runnable_def)
qed

lemma good_ipc_blocked [simp]: "good (blocked_on l flag time s) t = good s t"
  by (simp add: blocked_on_def)

lemma good_schedule: "rt_schedule s = Some s' \<Longrightarrow> good s' t = good s t"
  by (rule good_cong) (simp_all add: rt_schedule_fields)

text \<open>The optional scheduling at the end of an operation.\<close>

lemma schedule_if:
  assumes "thread_inv s" "b \<Longrightarrow> ready_group s \<noteq> 0"
  shows "\<exists>s'. (if b then rt_schedule s else Some s) = Some s' \<and> thread_inv s' \<and> threads s' = threads s \<and>
    tqs s' = tqs s \<and> objects s' = objects s \<and> timers s' = timers s \<and> timer_list s' = timer_list s \<and>
    sems s' = sems s \<and> mutexes s' = mutexes s \<and> events s' = events s \<and> mailboxes s' = mailboxes s \<and>
    mqs s' = mqs s \<and> mq_nodes s' = mq_nodes s \<and> mempools s' = mempools s \<and> mp_links s' = mp_links s \<and>
    kheap s' = kheap s"
proof (cases b)
  case True
  then obtain s' where "rt_schedule s = Some s'" "thread_inv s'" using rt_schedule_total [OF assms(1)] assms(2) by blast
  then show ?thesis using True rt_schedule_fields [of s s'] by simp
qed (use assms(1) in simp)

text \<open>Setting the error code of a thread changes none of the conditions on the state.\<close>

lemma timer_inv_set_thread [simp]: "timer_inv (set_thread t f s) = timer_inv s"
  by (rule timer_inv_cong) simp_all

lemma runnable_set_error [simp]: "runnable (set_thread t (\<lambda>th. th\<lparr>th_error := e\<rparr>) s) = runnable s"
  by (simp add: runnable_def in_thread_context_def)

lemma can_switch_set_error [simp]: "can_switch (set_thread t (\<lambda>th. th\<lparr>th_error := e\<rparr>) s) = can_switch s"
  by (auto simp: can_switch_def suspended_def)

text \<open>The caller is switched out and the call goes on in the state the world makes of that.\<close>

lemma blocked_switch:
  assumes "thread_inv s" "timer_inv s" "runnable s" "wait_list l" "time_ok time" "can_switch s"
  obtains s0 where "rt_schedule (blocked_on l flag time s) = Some s0" "thread_inv s0"
    "rt_current_thread s0 \<noteq> rt_current_thread s" "tqs s0 = tqs (blocked_on l flag time s)"
    "threads s0 = threads (blocked_on l flag time s)"
    "\<And>w. schedule_switch w (blocked_on l flag time s) = Some (w s0)"
proof -
  let ?b = "blocked_on l flag time s"
  have inv: "thread_inv ?b" by (rule thread_inv_ipc_blocked [OF assms(1-5)])
  obtain s0 where s0: "rt_schedule ?b = Some s0" "thread_inv s0"
    using rt_schedule_total [OF inv] assms(6) by (auto simp: can_switch_def)
  have "\<exists>p. rt_current_thread s0 \<in> set (tqs ?b (Ready p))"
    using rt_schedule_current [OF thread_invD(1) [OF inv] s0(1)] assms(6) by (simp add: can_switch_def)
  then have ne: "rt_current_thread s0 \<noteq> rt_current_thread s"
    using tqs_ipc_blocked(3) [OF assms(1,3,4)] by metis
  have "schedule_switch w ?b = Some (w s0)" for w
    using s0(1) ne assms(3) by (simp add: schedule_switch_def runnable_def in_thread_context_def)
  then show ?thesis using that [OF s0 ne] rt_schedule_fields [OF s0(1)] by simp
qed

section \<open>Waiting in a loop\<close>

text \<open>
  \<open>rt_mb_send_wait\<close>, \<open>rt_mb_recv\<close> and \<open>rt_mq_recv\<close> test again when they are woken, because another thread
  may have been faster, and wait for the rest of the time.  The loop they share is given by the test
  \<open>blocked\<close>, what it does when no time is left (\<open>expired\<close>), the waiting list and its object; each round
  that gives the processor up takes the next of the worlds.  \<open>Inl\<close> is a return from the function,
  \<open>Inr\<close> the end of the loop, \<open>None\<close> a failed assertion or a call that has not come back when the worlds
  are used up.
\<close>

definition retime :: "rt_int32_t \<Rightarrow> rt_tick_t \<Rightarrow> rt_int32_t" where
  "retime timeout tick_delta =
     (if 0 < sint timeout
      then let timeout = timeout - tick_delta in if sint timeout < 0 then 0 else timeout
      else timeout)"

fun ipc_wait_loop ::
  "(kstate \<Rightarrow> bool) \<Rightarrow> (kstate \<Rightarrow> rt_err_t \<times> kstate) \<Rightarrow> tq \<Rightarrow> ptr \<Rightarrow> ptr \<Rightarrow> world list \<Rightarrow> rt_int32_t \<Rightarrow>
     kstate \<Rightarrow> ((rt_err_t \<times> kstate) + kstate) option" where
  "ipc_wait_loop blocked expired list obj thread ws timeout s =
     (if \<not> blocked s then Some (Inr s)
      else do {
        let s = set_thread thread (\<lambda>t. t\<lparr>th_error := RT_EOK\<rparr>) s;
        if timeout = 0 then Some (Inl (expired s))
        else (case ws of
            [] \<Rightarrow> None
          | w # ws \<Rightarrow> do {
              RT_DEBUG_IN_THREAD_CONTEXT s;
              let tick_start = rt_tick_get s;
              s \<leftarrow> ipc_wait list thread (ob_flag (objects s (At obj))) timeout s;
              s \<leftarrow> schedule_switch w s;
              if th_error (threads s thread) \<noteq> RT_EOK
              then Some (Inl (th_error (threads s thread), s))
              else ipc_wait_loop blocked expired list obj thread ws
                     (retime timeout (rt_tick_get s - tick_start)) s
            })
      })"

declare ipc_wait_loop.simps [simp del]

lemma ipc_wait_loop_free [simp]:
  "\<not> blocked s \<Longrightarrow> ipc_wait_loop blocked expired l obj t ws timeout s = Some (Inr s)"
  by (subst ipc_wait_loop.simps) simp

lemma ipc_wait_loop_expired:
  "blocked s \<Longrightarrow> ipc_wait_loop blocked expired l obj t ws 0 s =
     Some (Inl (expired (set_thread t (\<lambda>t. t\<lparr>th_error := RT_EOK\<rparr>) s)))"
  by (subst ipc_wait_loop.simps) simp

lemma ipc_wait_loop_blocks:
  assumes "blocked s" "timeout \<noteq> 0" "runnable s" "fifo_or_prio obj s" "time_ok timeout"
  shows "ipc_wait_loop blocked expired l obj (rt_current_thread s) (w # ws) timeout s =
    Option.bind (schedule_switch w (ipc_blocked l obj timeout s)) (\<lambda>s'.
      if th_error (threads s' (rt_current_thread s)) \<noteq> RT_EOK
      then Some (Inl (th_error (threads s' (rt_current_thread s)), s'))
      else ipc_wait_loop blocked expired l obj (rt_current_thread s) ws
        (retime timeout (rt_tick s' - rt_tick s)) s')"
proof -
  have c: "in_thread_context s" using assms(3) by (simp add: runnable_def)
  show ?thesis
    using assms(1,2) c ipc_wait_blocked [OF assms(3-5), of l]
    by (subst ipc_wait_loop.simps) (simp add: rt_tick_get_def Let_def in_thread_context_def cong: if_cong)
qed

text \<open>A blocking round with the switch carried out.\<close>

lemma ipc_wait_loop_round:
  assumes "thread_inv s" "timer_inv s" "runnable s" "can_switch s" "wait_list l"
    "blocked s" "timeout \<noteq> 0" "fifo_or_prio obj s" "time_ok timeout"
  obtains s0 where "thread_inv s0" "rt_current_thread s0 \<noteq> rt_current_thread s"
    "tqs s0 l = enqueue (ob_flag (objects s (At obj))) (threads s) (rt_current_thread s) (tqs s l)"
    "mailboxes s0 = mailboxes s" "mqs s0 = mqs s" "mq_nodes s0 = mq_nodes s"
    "th_error (threads s0 (rt_current_thread s)) = RT_EOK"
    "\<And>w ws expired. ipc_wait_loop blocked expired l obj (rt_current_thread s) (w # ws) timeout s =
      (if th_error (threads (w s0) (rt_current_thread s)) \<noteq> RT_EOK
       then Some (Inl (th_error (threads (w s0) (rt_current_thread s)), w s0))
       else ipc_wait_loop blocked expired l obj (rt_current_thread s) ws
         (retime timeout (rt_tick (w s0) - rt_tick s)) (w s0))"
proof -
  obtain s0 where s0: "rt_schedule (ipc_blocked l obj timeout s) = Some s0" "thread_inv s0"
    "rt_current_thread s0 \<noteq> rt_current_thread s" "tqs s0 = tqs (ipc_blocked l obj timeout s)"
    "threads s0 = threads (ipc_blocked l obj timeout s)"
    "\<And>w. schedule_switch w (ipc_blocked l obj timeout s) = Some (w s0)"
    by (rule blocked_switch [OF assms(1-3,5,9,4)]) blast
  show ?thesis
  proof (rule that [of s0])
    show "tqs s0 l = enqueue (ob_flag (objects s (At obj))) (threads s) (rt_current_thread s) (tqs s l)"
      by (simp add: s0(4) tqs_ipc_blocked(1) [OF assms(1,3,5)])
  qed (use s0 rt_schedule_fields [OF s0(1)] ipc_wait_loop_blocks [of blocked s, OF assms(6,7,3,8,9)] in
      \<open>simp_all add: ipc_blocked_thread\<close>)
qed

text \<open>The time that is left after a round is the timeout less the time spent, never more.\<close>

lemma retime_bounds:
  assumes "0 < sint timeout" "unat d < 2 ^ 31"
  shows "sint (retime timeout d) = max 0 (sint timeout - int (unat d))"
proof -
  have t: "sint timeout < 2 ^ 31" using sint_lt [of timeout] by simp
  have "int (unat d) < int (2 ^ 31)" using assms(2) by (simp only: of_nat_less_iff)
  then have d: "int (unat d) < 2 ^ 31" by (simp del: of_nat_unat)
  let ?k = "sint timeout - int (unat d)"
  have "timeout - d = word_of_int ?k" by simp
  then have "sint (timeout - d) = signed_take_bit 31 ?k" by (simp only: signed_of_int) simp
  also have "\<dots> = ?k"
    by (rule signed_take_bit_int_eq_self) (use assms(1) t d in linarith)+
  finally have "sint (timeout - d) = ?k" .
  then show ?thesis using assms(1) by (simp add: retime_def Let_def)
qed

lemma retime_forever: "sint timeout < 0 \<Longrightarrow> retime timeout d = timeout"
  by (simp add: retime_def)

section \<open>Waking one thread\<close>

text \<open>The end of the calls that hand something over: wake the first thread of a list, if there is one,
  and schedule.\<close>

definition wake_one :: "tq \<Rightarrow> kstate \<Rightarrow> kstate option" where
  "wake_one list s =
     (if tqs s list \<noteq> []
      then do { (_, s) \<leftarrow> rt_ipc_list_resume list s; rt_schedule s }
      else Some s)"

lemma wake_one_total:
  assumes "thread_inv s" "wait_list l"
  shows "\<exists>s'. wake_one l s = Some s' \<and> thread_inv s' \<and> mailboxes s' = mailboxes s \<and> mqs s' = mqs s \<and>
    mq_nodes s' = mq_nodes s \<and> tqs s' l = tl (tqs s l) \<and>
    (\<forall>t ts. tqs s l = t # ts \<longrightarrow> th_stat (threads s' t) = RT_THREAD_READY \<and>
       th_error (threads s' t) = th_error (threads s t))"
proof (cases "tqs s l")
  case Nil
  then show ?thesis using assms(1) by (simp add: wake_one_def)
next
  case (Cons t ts)
  note r = rt_ipc_list_resume_eq [OF assms Cons]
  obtain s' where s': "rt_schedule (resumed t s) = Some s'" "thread_inv s'"
    using rt_schedule_total [OF r(4,5)] by blast
  then show ?thesis
    using Cons r(1,6) rt_schedule_fields [OF s'(1)] by (auto simp: wake_one_def)
qed

end
