(* ===== verification/Semaphore.thy ===== *)
theory Semaphore
  imports Ipc
begin

text \<open>
  The semaphores of \<open>src/src/ipc.c\<close> (\<open>rt_sem_*\<close>; creation from the heap is in theory Create).

  \<open>sem_inv\<close>: a semaphore with a positive value has no waiters.  The counting specification
  \<open>sem_spec\<close> (a number and a queue) is refined by \<open>rt_sem_take\<close> and \<open>rt_sem_release\<close>.
\<close>

section \<open>The code\<close>

definition set_sem :: "ptr \<Rightarrow> u16 \<Rightarrow> kstate \<Rightarrow> kstate" where
  "set_sem sem v s = s\<lparr>sems := (sems s)(sem := \<lparr>sem_value = v\<rparr>)\<rparr>"

definition rt_sem_init :: "ptr \<Rightarrow> u8 list \<Rightarrow> u32 \<Rightarrow> u8 \<Rightarrow> kstate \<Rightarrow> (rt_err_t \<times> kstate) option" where
  "rt_sem_init sem name value flag s = do {
     RT_ASSERT (sem \<noteq> RT_NULL);
     s \<leftarrow> rt_object_init (At sem) RT_Object_Class_Semaphore name s;
     let (_, s) = rt_ipc_object_init sem s;
     let s = set_sem sem (ucast value) s;
     let s = set_object (At sem) (\<lambda>r. r\<lparr>ob_flag := flag\<rparr>) s;
     Some (RT_EOK, s)
   }"

definition rt_sem_detach :: "ptr \<Rightarrow> kstate \<Rightarrow> (rt_err_t \<times> kstate) option" where
  "rt_sem_detach sem s = do {
     RT_ASSERT (sem \<noteq> RT_NULL);
     s \<leftarrow> rt_ipc_list_resume_all (Susp sem) s;
     s \<leftarrow> rt_object_detach (At sem) s;
     Some (RT_EOK, s)
   }"

definition rt_sem_take :: "world \<Rightarrow> ptr \<Rightarrow> rt_int32_t \<Rightarrow> kstate \<Rightarrow> (rt_err_t \<times> kstate) option" where
  "rt_sem_take w sem time s = do {
     RT_ASSERT (sem \<noteq> RT_NULL);
     if 0 < sem_value (sems s sem)
     then Some (RT_EOK, set_sem sem (sem_value (sems s sem) - 1) s)
     else if time = 0 then Some (- RT_ETIMEOUT, s)
     else do {
       RT_DEBUG_IN_THREAD_CONTEXT s;
       let thread = rt_thread_self s;
       let s = set_thread thread (\<lambda>t. t\<lparr>th_error := RT_EOK\<rparr>) s;
       s \<leftarrow> ipc_wait (Susp sem) thread (ob_flag (objects s (At sem))) time s;
       s \<leftarrow> schedule_switch w s;
       if th_error (threads s thread) \<noteq> RT_EOK
       then Some (th_error (threads s thread), s)
       else Some (RT_EOK, s)
     }
   }"

definition rt_sem_trytake :: "ptr \<Rightarrow> kstate \<Rightarrow> (rt_err_t \<times> kstate) option" where
  "rt_sem_trytake sem s = rt_sem_take id sem 0 s"

definition rt_sem_release :: "ptr \<Rightarrow> kstate \<Rightarrow> (rt_err_t \<times> kstate) option" where
  "rt_sem_release sem s = do {
     (need_schedule, s) \<leftarrow>
       (if tqs s (Susp sem) \<noteq> []
        then do { (_, s) \<leftarrow> rt_ipc_list_resume (Susp sem) s; Some (True, s) }
        else Some (False, set_sem sem (sem_value (sems s sem) + 1) s));
     s \<leftarrow> (if need_schedule then rt_schedule s else Some s);
     Some (RT_EOK, s)
   }"

text \<open>\<open>rt_sem_control\<close>: the argument is the value itself, cast to a pointer by the caller.\<close>

definition rt_sem_control :: "ptr \<Rightarrow> u8 \<Rightarrow> u32 \<Rightarrow> kstate \<Rightarrow> (rt_err_t \<times> kstate) option" where
  "rt_sem_control sem cmd arg s = do {
     RT_ASSERT (sem \<noteq> RT_NULL);
     if cmd = RT_IPC_CMD_RESET
     then do {
       s \<leftarrow> rt_ipc_list_resume_all (Susp sem) s;
       let s = set_sem sem (ucast arg) s;
       s \<leftarrow> rt_schedule s;
       Some (RT_EOK, s)
     }
     else Some (- RT_ERROR, s)
   }"

section \<open>The counting specification\<close>

text \<open>A counting semaphore: a value and the queue of those who wait.\<close>

type_synonym sem_spec = "nat \<times> ptr list"

definition abs_sem :: "ptr \<Rightarrow> kstate \<Rightarrow> sem_spec" where
  "abs_sem sem s = (unat (sem_value (sems s sem)), tqs s (Susp sem))"

definition spec_take :: "(ptr list \<Rightarrow> ptr list) \<Rightarrow> sem_spec \<Rightarrow> sem_spec" where
  "spec_take enq = (\<lambda>(n, q). if 0 < n then (n - 1, q) else (0, enq q))"

definition spec_release :: "sem_spec \<Rightarrow> sem_spec" where
  "spec_release = (\<lambda>(n, q). case q of [] \<Rightarrow> (n + 1, []) | _ # q' \<Rightarrow> (n, q'))"

definition sem_inv :: "ptr \<Rightarrow> kstate \<Rightarrow> bool" where
  "sem_inv sem s \<longleftrightarrow> (0 < sem_value (sems s sem) \<longrightarrow> tqs s (Susp sem) = [])"

lemma sems_set_sem [simp]: "sems (set_sem sem v s) = (sems s)(sem := \<lparr>sem_value = v\<rparr>)"
  by (simp add: set_sem_def)

lemma set_sem_fields [simp]:
  "threads (set_sem p v s) = threads s" "tqs (set_sem p v s) = tqs s" "objects (set_sem p v s) = objects s"
  "timers (set_sem p v s) = timers s" "timer_list (set_sem p v s) = timer_list s"
  "containers (set_sem p v s) = containers s" "ready_group (set_sem p v s) = ready_group s"
  "rt_current_thread (set_sem p v s) = rt_current_thread s" "rt_tick (set_sem p v s) = rt_tick s"
  "rt_interrupt_nest (set_sem p v s) = rt_interrupt_nest s" "switches (set_sem p v s) = switches s"
  "rt_scheduler_lock_nest (set_sem p v s) = rt_scheduler_lock_nest s"
  by (simp_all add: set_sem_def)

lemma thread_inv_set_sem [simp]: "thread_inv (set_sem p v s) = thread_inv s"
  by (rule thread_inv_cong) simp_all

section \<open>Lemmas\<close>

lemma rt_sem_take_available:
  "sem \<noteq> RT_NULL \<Longrightarrow> 0 < sem_value (sems s sem) \<Longrightarrow>
     rt_sem_take w sem time s = Some (RT_EOK, set_sem sem (sem_value (sems s sem) - 1) s)"
  by (simp add: rt_sem_take_def)

lemma rt_sem_take_blocks:
  assumes "sem \<noteq> RT_NULL" "sem_value (sems s sem) = 0" "time \<noteq> 0"
    "runnable s" "fifo_or_prio sem s" "time_ok time"
  shows "rt_sem_take w sem time s =
    Option.bind (schedule_switch w (ipc_blocked (Susp sem) sem time s))
      (\<lambda>s'. Some (th_error (threads s' (rt_current_thread s)), s'))"
proof -
  have c: "in_thread_context s" using assms(4) by (simp add: runnable_def)
  have "(if e \<noteq> RT_EOK then Some (e, s') else Some (RT_EOK, s')) = Some (e, s')" for e and s' :: kstate
    by simp
  then show ?thesis
    using assms c ipc_wait_blocked [OF assms(4,5,6), of "Susp sem"]
    by (simp add: rt_sem_take_def rt_thread_self_def Let_def cong: bind_option_cong)
qed

lemma rt_sem_release_waiter:
  assumes "thread_inv s" "tqs s (Susp sem) = t # ts"
  obtains s' where "rt_sem_release sem s = Some (RT_EOK, s')" "rt_schedule (resumed t s) = Some s'"
    "thread_inv s'" "tqs s' = tqs (resumed t s)" "threads s' = threads (resumed t s)" "sems s' = sems s"
proof -
  note r = rt_ipc_list_resume_eq [OF assms(1) wait_list_simps(1) assms(2)]
  obtain s' where s': "rt_schedule (resumed t s) = Some s'" "thread_inv s'"
    using rt_schedule_total [OF r(4,5)] by blast
  have "rt_sem_release sem s = Some (RT_EOK, s')"
    using assms(2) r(1) s'(1) by (simp add: rt_sem_release_def)
  then show ?thesis using that s' rt_schedule_fields [OF s'(1)] by simp
qed

section \<open>Properties\<close>

text \<open>
  C9. \<open>rt_sem_take\<close> refines the counting specification, for every waiting time: with a positive value it takes one at once,
  switching to no other thread; with value 0 and the time 0 it returns \<open>-RT_ETIMEOUT\<close> and changes nothing at all; with
  value 0 and any other time the caller enters the waiting list (at the end, or in
  front of the lower priorities, as the object's flag says), another thread runs, and the call returns
  the error code found in the thread when it runs again (\<open>RT_EOK\<close> is what it was set to before
  waiting).  In each case the thread invariant and the semaphore invariant hold, in the last one at the switch.  Only the
  last case has hypotheses besides the invariants: the caller is a ready thread outside interrupts, another thread is ready and the
  scheduler is not locked, the object's flag is one of the two the kernel knows, and a positive waiting time is below half the tick range
  (which \<open>rt_timer_start\<close> asserts).
\<close>

theorem rt_sem_take_refines_counting:
  assumes "thread_inv s" "sem \<noteq> RT_NULL" "sem_inv sem s"
    and "sem_value (sems s sem) = 0 \<and> time \<noteq> 0 \<longrightarrow>
      timer_inv s \<and> runnable s \<and> can_switch s \<and> fifo_or_prio sem s \<and> time_ok time"
  shows "\<exists>s0. abs_sem sem s0 = spec_take (if time = 0 then id
        else enqueue (ob_flag (objects s (At sem))) (threads s) (rt_current_thread s)) (abs_sem sem s) \<and>
    thread_inv s0 \<and> sem_inv sem s0 \<and>
    (if 0 < sem_value (sems s sem)
     then (\<forall>w. rt_sem_take w sem time s = Some (RT_EOK, s0)) \<and> switches s0 = switches s
     else if time = 0 then (\<forall>w. rt_sem_take w sem time s = Some (- RT_ETIMEOUT, s0)) \<and> s0 = s
     else rt_current_thread s0 \<noteq> rt_current_thread s \<and>
       th_error (threads s0 (rt_current_thread s)) = RT_EOK \<and>
       (\<forall>w. rt_sem_take w sem time s = Some (th_error (threads (w s0) (rt_current_thread s)), w s0)))"
proof -
  consider "0 < sem_value (sems s sem)" | "sem_value (sems s sem) = 0" "time = 0" | "sem_value (sems s sem) = 0" "time \<noteq> 0"
    by (auto simp: word_gt_0)
  then show ?thesis
  proof cases
    case 1
    let ?v = "sem_value (sems s sem)"
    have "unat (?v - 1) = unat ?v - 1" "0 < unat ?v" using 1 by (simp_all add: unat_minus_one word_gt_0 unat_gt_0)
    then show ?thesis
      using 1 assms(1-3) rt_sem_take_available [OF assms(2) 1]
      by (intro exI [of _ "set_sem sem (?v - 1) s"]) (simp add: abs_sem_def spec_take_def sem_inv_def)
  next
    case 2
    then show ?thesis
      using assms(1-3) by (intro exI [of _ s]) (simp add: rt_sem_take_def abs_sem_def spec_take_def)
  next
    case 3
    then have h: "timer_inv s" "runnable s" "can_switch s" "fifo_or_prio sem s" "time_ok time" using assms(4) by simp_all
    obtain s0 where s0: "rt_schedule (ipc_blocked (Susp sem) sem time s) = Some s0" "thread_inv s0"
      "rt_current_thread s0 \<noteq> rt_current_thread s" "tqs s0 = tqs (ipc_blocked (Susp sem) sem time s)"
      "threads s0 = threads (ipc_blocked (Susp sem) sem time s)"
      "\<And>w. schedule_switch w (ipc_blocked (Susp sem) sem time s) = Some (w s0)"
      by (rule blocked_switch [OF assms(1) h(1,2) wait_list_simps(1) h(5,3)]) blast
    have "sems s0 = sems s" using rt_schedule_fields(7) [OF s0(1)] by simp
    moreover have "tqs s0 (Susp sem) =
        enqueue (ob_flag (objects s (At sem))) (threads s) (rt_current_thread s) (tqs s (Susp sem))"
      unfolding s0(4) by (rule tqs_ipc_blocked(1) [OF assms(1) h(2)]) simp
    moreover have "rt_sem_take w sem time s = Some (th_error (threads (w s0) (rt_current_thread s)), w s0)" for w
      using rt_sem_take_blocks [OF assms(2) 3 h(2,4,5)] s0(6) by simp
    ultimately show ?thesis
      using 3 s0(2,3,5)
      by (intro exI [of _ s0]) (simp add: abs_sem_def spec_take_def sem_inv_def ipc_blocked_thread)
  qed
qed

text \<open>A state in which thread \<open>0x100\<close> runs, \<open>0x200\<close> is ready and a semaphore at \<open>0x500\<close> has value 0.\<close>

lemma runnable_two_started: "runnable two_started"
  using good_two_started(1) by (simp add: runnable_def in_thread_context_def)

lemma can_switch_two_started: "can_switch two_started"
  by (simp add: can_switch_def suspended_def q_remove_def)

lemma timer_inv_two_started: "timer_inv two_started"
  by (simp add: timer_inv_def)

lemma fifo_two_started: "fifo_or_prio p two_started"
  by (simp add: fifo_or_prio_def zero_object_def)

theorem rt_sem_take_refines_counting_witness:
  "\<exists>s0. abs_sem 0x500 s0 = (0, [0x100]) \<and>
     rt_sem_take (\<lambda>_. s0) 0x500 (- 1) two_started = Some (RT_EOK, s0)"
proof -
  have "sem_inv 0x500 two_started" "time_ok (- 1)" by (simp_all add: sem_inv_def time_ok_def)
  then show ?thesis
    using rt_sem_take_refines_counting [OF thread_inv_two_started _ \<open>sem_inv 0x500 two_started\<close>, of "- 1"]
      timer_inv_two_started runnable_two_started fifo_two_started can_switch_two_started
    by (auto simp: abs_sem_def spec_take_def enqueue_def zero_object_def)
qed

text \<open>
  C10. \<open>rt_sem_release\<close> refines the counting specification: with no waiter the value grows by one (below
  the 16-bit maximum); with waiters the value stays and the first of the list becomes ready, at the
  back of the ready queue of its priority and with its error code untouched, so that its pending
  \<open>rt_sem_take\<close> returns \<open>RT_EOK\<close>: the unit is handed over, never both counted and given away.
\<close>

theorem rt_sem_release_refines_counting:
  assumes "thread_inv s" "sem_inv sem s" "unat (sem_value (sems s sem)) < 65535"
  shows "\<exists>s'. rt_sem_release sem s = Some (RT_EOK, s') \<and> thread_inv s' \<and> sem_inv sem s' \<and>
    abs_sem sem s' = spec_release (abs_sem sem s) \<and>
    (\<forall>t ts. tqs s (Susp sem) = t # ts \<longrightarrow>
       threads s' t = (threads s t)\<lparr>th_stat := RT_THREAD_READY\<rparr> \<and>
       tqs s' (Ready (prio_of s t)) = tqs s (Ready (prio_of s t)) @ [t])"
proof (cases "tqs s (Susp sem)")
  case Nil
  let ?v = "sem_value (sems s sem)"
  have "unat (?v + 1) = unat ?v + 1"
    using assms(3) by (subst unat_add_lem [THEN iffD1]) simp_all
  then show ?thesis
    using Nil assms(1) by (simp add: rt_sem_release_def abs_sem_def spec_release_def sem_inv_def)
next
  case (Cons t ts)
  obtain s' where s': "rt_sem_release sem s = Some (RT_EOK, s')" "thread_inv s'"
    "tqs s' = tqs (resumed t s)" "threads s' = threads (resumed t s)" "sems s' = sems s"
    by (rule rt_sem_release_waiter [OF assms(1) Cons]) blast
  note r = rt_ipc_list_resume_eq [OF assms(1) wait_list_simps(1) Cons]
  have "t \<notin> set (tqs s (Ready p))" for p
    using suspended_not_ready [OF thread_invD(1) [OF assms(1)]] r(3) by simp
  then have "tqs s' (Ready (prio_of s t)) = tqs s (Ready (prio_of s t)) @ [t]"
    by (simp add: s'(3) tqs_resumed prio_of_def)
  moreover have "sem_value (sems s sem) = 0" using assms(2) Cons by (simp add: sem_inv_def word_gt_0)
  ultimately show ?thesis
    using s' Cons r(6) by (auto simp: abs_sem_def spec_release_def sem_inv_def)
qed

theorem rt_sem_release_refines_counting_witness:
  "\<exists>s'. rt_sem_release 0x500 two_started = Some (RT_EOK, s') \<and> abs_sem 0x500 s' = (1, [])"
  using rt_sem_release_refines_counting [OF thread_inv_two_started, of "0x500"]
  by (auto simp: sem_inv_def abs_sem_def spec_release_def)

text \<open>
  The 16-bit count wraps: releasing a semaphore without waiters whose value is 65535 succeeds and
  leaves the value 0, so 65536 releases in a row are forgotten.
\<close>

lemma rt_sem_release_wraps_at_65535:
  assumes "sem_value (sems s sem) = 65535" "tqs s (Susp sem) = []"
  shows "\<exists>s'. rt_sem_release sem s = Some (RT_EOK, s') \<and> sem_value (sems s' sem) = 0"
  using assms by (simp add: rt_sem_release_def)

text \<open>
  With the scheduler locked a blocking \<open>rt_sem_take\<close> of an empty semaphore comes back at once with
  \<open>RT_EOK\<close> although it has taken nothing: the value is still 0 and the running thread is in the waiting
  list, marked suspended.
\<close>

theorem rt_sem_take_scheduler_locked:
  assumes "thread_inv s" "runnable s" "fifo_or_prio sem s" "sem \<noteq> RT_NULL" "sem_value (sems s sem) = 0"
    "time \<noteq> 0" "time_ok time" "rt_scheduler_lock_nest s \<noteq> 0"
  shows "\<exists>s'. rt_sem_take w sem time s = Some (RT_EOK, s') \<and> sem_value (sems s' sem) = 0 \<and>
    rt_current_thread s' = rt_current_thread s \<and> rt_current_thread s \<in> set (tqs s' (Susp sem)) \<and>
    th_stat (threads s' (rt_current_thread s)) = RT_THREAD_SUSPEND"
proof -
  let ?b = "ipc_blocked (Susp sem) sem time s"
  have "schedule_switch w ?b = Some ?b"
    using assms(8) by (simp add: schedule_switch_def rt_schedule_locked)
  then show ?thesis
    using rt_sem_take_blocks [OF assms(4,5,6,2,3,7)] assms(5)
      tqs_ipc_blocked(1) [OF assms(1,2), of "Susp sem" _ time]
    by (simp add: ipc_blocked_thread)
qed

theorem rt_sem_take_scheduler_locked_witness:
  "\<exists>s'. rt_sem_take id 0x500 (- 1) (rt_enter_critical two_started) = Some (RT_EOK, s') \<and>
     sem_value (sems s' 0x500) = 0 \<and> 0x100 \<in> set (tqs s' (Susp 0x500))"
proof -
  let ?s = "rt_enter_critical two_started"
  have "thread_inv ?s"
    using thread_inv_two_started by (subst thread_inv_cong [where s = two_started]) (simp_all add: rt_enter_critical_def)
  moreover have "runnable ?s" using runnable_two_started
    by (simp add: runnable_def in_thread_context_def good_def rt_enter_critical_def periodic_def)
  ultimately show ?thesis
    using rt_sem_take_scheduler_locked [of ?s "0x500" "- 1" id] fifo_two_started [of "0x500"]
    by (auto simp: rt_enter_critical_def time_ok_def fifo_or_prio_def)
qed

end
