(* ===== verification/Kernel_Run.thy ===== *)
theory Kernel_Run
  imports Semaphore
begin

text \<open>
  The running system: threads that call the kernel one after the other as the scheduler chooses them, and tick interrupts
  between the calls.  A call that waits is left in the state in which another thread was chosen, and goes on, with what is left of
  it, when its thread is chosen again; so every interleaving of the calls of all threads is a run of the relation \<open>run_step\<close>.

  The calls are those of \<open>thread.c\<close>, \<open>clock.c\<close> and of the semaphores of \<open>ipc.c\<close> as the theories Thread and Semaphore model them.  The idle
  thread does not wait, as \<open>idle.c\<close> keeps it.
\<close>

section \<open>Runs\<close>

text \<open>The present state and, for each thread inside a call, the rest of the call.\<close>

type_synonym 's rest = "'s \<Rightarrow> (rt_err_t \<times> 's) option"

type_synonym 's kcall = "('s \<Rightarrow> 's) \<Rightarrow> 's rest"

type_synonym ('t, 's) config = "'s \<times> ('t \<Rightarrow> 's rest option)"

inductive run_step :: "('s \<Rightarrow> 't) \<Rightarrow> ('s \<Rightarrow> 's kcall \<Rightarrow> bool) \<Rightarrow> ('s \<Rightarrow> 's option) \<Rightarrow> ('t, 's) config \<Rightarrow> ('t, 's) config \<Rightarrow> bool"
  for cur allowed intr where
  returns: "\<lbrakk>pend (cur s) = None; allowed s f; \<forall>w. f w s = Some (e, s')\<rbrakk> \<Longrightarrow>
    run_step cur allowed intr (s, pend) (s', pend)"
| waits: "\<lbrakk>pend (cur s) = None; allowed s f; \<nexists>r. \<forall>w. f w s = r; \<forall>w. f w s = k (w s')\<rbrakk> \<Longrightarrow>
    run_step cur allowed intr (s, pend) (s', pend(cur s \<mapsto> k))"
| goes_on: "\<lbrakk>pend (cur s) = Some k; k s = Some (e, s')\<rbrakk> \<Longrightarrow>
    run_step cur allowed intr (s, pend) (s', pend(cur s := None))"
| interrupt: "intr s = Some s' \<Longrightarrow> run_step cur allowed intr (s, pend) (s', pend)"

inductive_cases run_stepE: "run_step cur allowed intr (s, pend) cfg"

text \<open>
  The contract of the calls: in a state that satisfies the invariant an allowed call either returns, or hands the processor
  over and can be finished from every later state in which its thread runs; the interrupt returns.  All keep the invariant.
\<close>

locale kernel_calls =
  fixes inv :: "'s \<Rightarrow> bool" and cur :: "'s \<Rightarrow> 't" and allowed :: "'s \<Rightarrow> 's kcall \<Rightarrow> bool" and intr :: "'s \<Rightarrow> 's option"
  assumes outcome: "inv s \<Longrightarrow> allowed s f \<Longrightarrow>
      (\<exists>e s'. (\<forall>w. f w s = Some (e, s')) \<and> inv s') \<or>
      (\<exists>s0 k. (\<forall>w. f w s = k (w s0)) \<and> inv s0 \<and> cur s0 \<noteq> cur s \<and>
         (\<forall>s'. inv s' \<longrightarrow> cur s' = cur s \<longrightarrow> (\<exists>e s''. k s' = Some (e, s'') \<and> inv s'')))"
    and tick: "inv s \<Longrightarrow> \<exists>s'. intr s = Some s' \<and> inv s'"
begin

definition config_inv :: "('t, 's) config \<Rightarrow> bool" where
  "config_inv = (\<lambda>(s, pend). inv s \<and>
     (\<forall>t k s'. pend t = Some k \<longrightarrow> inv s' \<longrightarrow> cur s' = t \<longrightarrow> (\<exists>e s''. k s' = Some (e, s'') \<and> inv s'')))"

text \<open>What a call that waits leaves behind is determined by the call: the state in which it waits and the rest of it.\<close>

lemma waits_unique:
  fixes s :: 's
  assumes "\<nexists>r. \<forall>w :: 's \<Rightarrow> 's. f w s = r" "\<forall>w. f w s = k (w s')" "\<forall>w. f w s = k' (w s0)"
  shows "k = k' \<and> s' = s0"
proof
  show k: "k = k'"
  proof
    fix x
    show "k x = k' x" using assms(2) [THEN spec, of "\<lambda>_. x"] assms(3) [THEN spec, of "\<lambda>_. x"] by simp
  qed
  show "s' = s0"
  proof (rule ccontr)
    assume ne: "s' \<noteq> s0"
    have "k a = k b" for a b
      using assms(2) [THEN spec, of "\<lambda>x. if x = s' then a else b"] assms(3) [THEN spec, of "\<lambda>x. if x = s' then a else b"] ne k by simp
    then have "\<forall>w. f w s = k s'" using assms(2) by metis
    then show False using assms(1) by blast
  qed
qed

lemma preserved:
  assumes "config_inv cfg" "run_step cur allowed intr cfg cfg'"
  shows "config_inv cfg'"
  using assms(2,1)
proof (induction rule: run_step.induct)
  case (returns pend s f e s')
  then have i: "inv s" by (simp add: config_inv_def)
  have "inv s'"
    using outcome [OF i returns(2)]
  proof (elim disjE exE conjE)
    fix e1 s1 assume "\<forall>w. f w s = Some (e1, s1)" "inv s1"
    then show ?thesis using returns(3) by simp
  next
    fix s0 k assume k: "\<forall>w. f w s = k (w s0)"
      "\<forall>s'. inv s' \<longrightarrow> cur s' = cur s \<longrightarrow> (\<exists>e s''. k s' = Some (e, s'') \<and> inv s'')"
    have "k s = Some (e, s')" using k(1) [THEN spec, of "\<lambda>_. s"] returns(3) by simp
    then show ?thesis using k(2) i by force
  qed
  then show ?case using returns(4) by (simp add: config_inv_def)
next
  case (waits pend s f k s')
  then have i: "inv s" by (simp add: config_inv_def)
  obtain s0 k' where o: "\<forall>w. f w s = k' (w s0)" "inv s0" "cur s0 \<noteq> cur s"
    "\<forall>s'. inv s' \<longrightarrow> cur s' = cur s \<longrightarrow> (\<exists>e s''. k' s' = Some (e, s'') \<and> inv s'')"
    using outcome [OF i waits(2)] waits(3) by blast
  have "k = k' \<and> s' = s0" using waits_unique [of f s k s' k' s0] waits(3,4) o(1) by blast
  then show ?case using o(2-4) waits(5) by (auto simp: config_inv_def)
next
  case (goes_on pend s k e s')
  then show ?case by (force simp: config_inv_def)
next
  case (interrupt s s' pend)
  then show ?case using tick [of s] by (auto simp: config_inv_def)
qed

lemma invariant:
  assumes "(run_step cur allowed intr)\<^sup>*\<^sup>* (s, \<lambda>_. None) cfg" "inv s"
  shows "config_inv cfg"
  using assms(1)
proof (induction rule: rtranclp_induct)
  case base
  show ?case using assms(2) by (simp add: config_inv_def)
qed (rule preserved)

text \<open>Nothing gets stuck: the running thread can finish the call it is in, or make any call that is allowed.\<close>

lemma progress:
  assumes "config_inv (s, pend)"
  shows "case pend (cur s) of Some k \<Rightarrow> \<exists>e s'. k s = Some (e, s')
    | None \<Rightarrow> \<forall>f. allowed s f \<longrightarrow> (\<exists>e s'. \<forall>w. f w s = Some (e, s')) \<or> (\<exists>s0 k. \<forall>w. f w s = k (w s0) \<and> cur s0 \<noteq> cur s)"
    "\<exists>s'. intr s = Some s'"
  using assms outcome [of s] tick [of s] by (auto simp: config_inv_def split: option.split) blast+

end

section \<open>The invariant of the running kernel\<close>

text \<open>In a thread or, with \<open>n\<close> nested interrupts, in an interrupt: threads and queues are consistent, the idle thread is ready, and a semaphore
  with a positive value has no waiting thread.  Between calls the running thread is the one to run, and no timer is overdue.\<close>

definition idle_ready :: "ptr \<Rightarrow> kstate \<Rightarrow> bool" where
  "idle_ready idle s \<longleftrightarrow> (\<exists>p. idle \<in> set (tqs s (Ready p)))"

definition run_part :: "ptr \<Rightarrow> u8 \<Rightarrow> kstate \<Rightarrow> bool" where
  "run_part idle n s \<longleftrightarrow> thread_inv s \<and> idle_ready idle s \<and> (\<forall>sem. sem_inv sem s) \<and> rt_scheduler_lock_nest s = 0 \<and>
     rt_interrupt_nest s = n"

definition run_inv :: "ptr \<Rightarrow> kstate \<Rightarrow> bool" where
  "run_inv idle s \<longleftrightarrow> run_part idle 0 s \<and> settled s \<and> no_overdue s"

lemma run_partD:
  assumes "run_part idle n s"
  shows "thread_inv s" "idle_ready idle s" "sem_inv sem s" "rt_scheduler_lock_nest s = 0" "rt_interrupt_nest s = n"
  using assms by (simp_all add: run_part_def)

text \<open>Moves between the ready queues, off the waiting lists or out of the queues, but not of the idle thread.\<close>

lemma run_part_moved:
  assumes "run_part idle n s" "thread_inv s'" "\<And>sem. set (tqs s' (Susp sem)) \<subseteq> set (tqs s (Susp sem))"
    "\<And>p. idle \<in> set (tqs s (Ready p)) \<Longrightarrow> idle_ready idle s'" "sems s' = sems s"
    "rt_scheduler_lock_nest s' = rt_scheduler_lock_nest s" "rt_interrupt_nest s' = rt_interrupt_nest s"
  shows "run_part idle n s'"
proof -
  have "tqs s' (Susp sem) = []" if "tqs s (Susp sem) = []" for sem using assms(3) [of sem] that by simp
  then have "sem_inv sem s'" for sem using run_partD(3) [OF assms(1), of sem] assms(5) by (auto simp: sem_inv_def)
  then show ?thesis using assms by (auto simp: run_part_def idle_ready_def)
qed

lemma run_part_cong:
  assumes "run_part idle n s" "thread_inv s'" "tqs s' = tqs s" "sems s' = sems s"
    "rt_scheduler_lock_nest s' = rt_scheduler_lock_nest s" "rt_interrupt_nest s' = rt_interrupt_nest s"
  shows "run_part idle n s'"
  by (rule run_part_moved [OF assms(1,2)]) (use assms(3-6) in \<open>auto simp: idle_ready_def\<close>)

lemma idle_not_suspended:
  assumes "run_part idle n s" "th_stat (threads s t) = RT_THREAD_SUSPEND"
  shows "t \<noteq> idle"
proof -
  obtain p where "idle \<in> set (tqs s (Ready p))" using run_partD(2) [OF assms(1)] by (auto simp: idle_ready_def)
  then have "th_stat (threads s idle) = RT_THREAD_READY"
    using ready_invD(6) [OF thread_invD(1) [OF run_partD(1) [OF assms(1)]]] by blast
  then show ?thesis using assms(2) by auto
qed

lemma run_part_schedule:
  assumes "run_part idle n s"
  obtains s' where "rt_schedule s = Some s'" "run_part idle n s'" "settled s'" "same_timers s s'" "threads s' = threads s"
    "tqs s' = tqs s" "sems s' = sems s"
proof -
  note inv = run_partD(1) [OF assms]
  obtain p where "tqs s (Ready p) \<noteq> []" using run_partD(2) [OF assms] by (force simp: idle_ready_def)
  then have "ready_group s \<noteq> 0" using ready_invD(2) [OF thread_invD(1) [OF inv], of p] by auto
  then obtain s' where s': "rt_schedule s = Some s'" "thread_inv s'" using rt_schedule_total [OF inv] by blast
  note f = rt_schedule_fields [OF s'(1)]
  show ?thesis
    using that [OF s'(1) _ settled_schedule [OF run_partD(4) [OF assms] s'(1)]] f run_part_cong [OF assms s'(2)]
    by (simp add: same_timers_def)
qed

text \<open>The running thread.\<close>

lemma running:
  assumes "run_part idle n s" "settled s"
  obtains p where "rt_current_thread s \<in> set (tqs s (Ready p))" "good s (rt_current_thread s)"
    "th_stat (threads s (rt_current_thread s)) = RT_THREAD_READY"
proof -
  note inv = run_partD(1) [OF assms(1)]
  obtain p ts where "tqs s (Ready p) = rt_current_thread s # ts" using settledD [OF assms(2) thread_invD(1) [OF inv]] by blast
  then have p: "rt_current_thread s \<in> set (tqs s (Ready p))" by simp
  show ?thesis using that [OF p] thread_invD(2) [OF inv p] ready_invD(6) [OF thread_invD(1) [OF inv] p] by simp
qed

lemma run_inv_runnable:
  assumes "run_inv idle s"
  shows "runnable s"
proof -
  have r: "run_part idle 0 s" "settled s" using assms by (simp_all add: run_inv_def)
  show ?thesis by (rule running [OF r]) (use run_partD(5) [OF r(1)] in \<open>auto simp: runnable_def in_thread_context_def good_def\<close>)
qed

lemma run_part_suspended:
  assumes "run_part idle n s" "good s t" "t \<noteq> idle"
  shows "run_part idle n (suspended t s)"
  by (rule run_part_moved [OF assms(1) thread_inv_suspended(1) [OF run_partD(1) [OF assms(1)] assms(2)]])
    (use assms(3) in \<open>auto simp: q_remove_def idle_ready_def\<close>)

lemma run_part_resumed:
  assumes "run_part idle n s" "good s t" "th_stat (threads s t) = RT_THREAD_SUSPEND"
  shows "run_part idle n (resumed t s)"
  by (rule run_part_moved [OF assms(1) thread_inv_resumed(1) [OF run_partD(1) [OF assms(1)] assms(2,3)]])
    (use idle_not_suspended [OF assms(1,3)] in \<open>auto simp: tqs_resumed idle_ready_def\<close>)

lemma run_inv_can_switch:
  assumes "run_inv idle s" "rt_current_thread s \<noteq> idle"
  shows "can_switch s"
proof -
  have r: "run_part idle 0 s" "settled s" using assms(1) by (simp_all add: run_inv_def)
  obtain p where "tqs (suspended (rt_current_thread s) s) (Ready p) \<noteq> []"
    using run_partD(2) [OF run_part_suspended [OF r(1) _ assms(2)]] running [OF r] by (force simp: idle_ready_def)
  moreover have "ready_inv (suspended (rt_current_thread s) s)"
    using running [OF r] ready_inv_suspended [OF thread_invD(1) [OF run_partD(1) [OF r(1)]]] by blast
  ultimately show ?thesis using run_partD(4) [OF r(1)] ready_invD(2) by (fastforce simp: can_switch_def)
qed

section \<open>The calls\<close>

text \<open>Suspending oneself and resuming another thread, each followed by \<open>rt_schedule\<close> as their comments ask, are the patterns of the
  kernel's clients.\<close>

definition suspend_self :: "kstate kcall" where
  "suspend_self w s = do {
     (e, s) \<leftarrow> rt_thread_suspend (rt_thread_self s) s;
     s \<leftarrow> schedule_switch w s;
     Some (e, s)
   }"

definition resume_thread :: "ptr \<Rightarrow> kstate kcall" where
  "resume_thread t w s = do {
     (e, s) \<leftarrow> rt_thread_resume t s;
     s \<leftarrow> rt_schedule s;
     Some (e, s)
   }"

inductive kernel_call :: "ptr \<Rightarrow> kstate \<Rightarrow> kstate kcall \<Rightarrow> bool" for idle s where
  yield: "kernel_call idle s (\<lambda>w. rt_thread_yield)"
| delay: "\<lbrakk>rt_current_thread s \<noteq> idle; 0 < tick; tick < TICK_HALF\<rbrakk> \<Longrightarrow> kernel_call idle s (\<lambda>w. rt_thread_delay w tick)"
| suspend: "rt_current_thread s \<noteq> idle \<Longrightarrow> kernel_call idle s suspend_self"
| resume: "good s t \<Longrightarrow> kernel_call idle s (resume_thread t)"
| sem_take: "\<lbrakk>sem \<noteq> RT_NULL; fifo_or_prio sem s; time_ok time; time = 0 \<or> rt_current_thread s \<noteq> idle\<rbrakk> \<Longrightarrow>
    kernel_call idle s (\<lambda>w. rt_sem_take w sem time)"
| sem_release: "sem \<noteq> RT_NULL \<Longrightarrow> kernel_call idle s (\<lambda>w. rt_sem_release sem)"

text \<open>The tick interrupt of the board, \<open>src/bsp/stm32f10x-curer/drivers/board.c\<close>; the tick of the vendor library is not modelled.\<close>

definition SysTick_Handler :: "(ptr \<Rightarrow> ptr \<Rightarrow> kstate \<Rightarrow> kstate option) \<Rightarrow> kstate \<Rightarrow> kstate option" where
  "SysTick_Handler user s = do {
     (_, s) \<leftarrow> rt_tick_increase user (rt_interrupt_enter s);
     Some (rt_interrupt_leave s)
   }"

section \<open>The calls keep the invariant\<close>

lemma no_overdue_same: "same_timers s s' \<Longrightarrow> no_overdue s' = no_overdue s"
  using same_timersD [of s s'] by (simp add: no_overdue_def)

lemma schedule_inv:
  assumes "run_part idle 0 s" "no_overdue s"
  obtains s' where "rt_schedule s = Some s'" "run_inv idle s'"
  using run_part_schedule [OF assms(1)] no_overdue_same assms(2) by (metis run_inv_def)

text \<open>Stopping and starting timers makes none overdue.\<close>

lemma no_overdue_stopped:
  assumes "no_overdue s"
  shows "no_overdue (timer_stopped r s)"
proof -
  have l: "set (timer_list (timer_stopped r s)) \<subseteq> set (timer_list s)" by (simp add: timer_stopped_def)
  have "time_left (timer_stopped r s) = time_left s" by (simp add: time_left_def fun_eq_iff)
  then show ?thesis
    using assms l timer_inv_stopped [of s r] by (auto simp: no_overdue_def periods_ok_def)
qed

lemma no_overdue_started:
  assumes "no_overdue s" "0 < tm_init_tick (timers s r)" "tm_init_tick (timers s r) < TICK_HALF" "r \<noteq> At RT_NULL"
  shows "no_overdue (started r s)"
proof -
  have ti: "timer_inv s" using assms(1) by (simp add: no_overdue_def)
  note st = timer_inv_started [OF ti assms(3)]
  have "2 \<le> time_left (started r s) u" if "u \<in> set (timer_list (started r s))" for u
    using that assms(1,2) timer_list_started(4) [OF ti assms(3)] st(2)
    by (cases "u = r") (auto simp: time_left_started no_overdue_def word_less_nat_alt)
  moreover have "periods_ok (started r s)"
    using assms by (auto simp: periods_ok_def st(2) no_overdue_def)
  ultimately show ?thesis using st(1) by (simp add: no_overdue_def)
qed

lemma no_overdue_resumed: "no_overdue s \<Longrightarrow> no_overdue (resumed t s)"
  using no_overdue_stopped [of s "TmrOf t"] no_overdue_same [of "timer_stopped (TmrOf t) s" "resumed t s"]
  by (simp add: resumed_def same_timers_def woken_def)

lemma no_overdue_suspended: "no_overdue s \<Longrightarrow> no_overdue (suspended t s)"
  unfolding suspended_def by (rule no_overdue_stopped) (subst no_overdue_same [of s], simp_all add: same_timers_def)

lemma no_overdue_waiting:
  assumes "no_overdue s" "time_ok time"
  shows "no_overdue (waiting l flag time t s)"
proof -
  let ?p = "parked l flag t s" let ?i = "set_timer (TmrOf t) (\<lambda>r. r\<lparr>tm_init_tick := time\<rparr>) ?p"
  have p: "no_overdue ?p"
    using no_overdue_suspended [OF assms(1)] no_overdue_same [of "suspended t s" ?p] by (simp add: same_timers_def parked_def)
  show ?thesis
  proof (cases "0 < sint time")
    case True
    have "no_overdue ?i"
      using p True assms(2) by (auto simp: no_overdue_def periods_ok_def timer_inv_def time_left_set_init time_ok_def word_gt_0)
    then have "no_overdue (started (TmrOf t) ?i)"
      by (rule no_overdue_started) (use True assms(2) in \<open>auto simp: time_ok_def word_gt_0\<close>)
    then show ?thesis using True by (simp add: waiting_def)
  qed (use p in \<open>simp add: waiting_def\<close>)
qed

text \<open>Handing over: the thread is on no ready queue.\<close>

lemma handed_over:
  assumes "run_part idle 0 b" "no_overdue b" "rt_current_thread b = c" "\<And>p. c \<notin> set (tqs b (Ready p))"
  obtains s0 where "run_inv idle s0" "rt_current_thread s0 \<noteq> c" "\<And>w. schedule_switch w b = Some (w s0)"
proof -
  obtain s0 where s0: "rt_schedule b = Some s0" "run_inv idle s0" using schedule_inv [OF assms(1,2)] by blast
  have "rt_current_thread s0 \<noteq> c"
    using rt_schedule_current [OF thread_invD(1) [OF run_partD(1) [OF assms(1)]] s0(1) run_partD(4) [OF assms(1)]] assms(4) by metis
  moreover have "schedule_switch w b = Some (w s0)" for w
    using s0(1) calculation assms(3) run_partD(5) [OF assms(1)] by (simp add: schedule_switch_def)
  ultimately show ?thesis using that s0(2) by blast
qed

lemma run_part_requeued:
  assumes "run_part idle n s" "shares_ready_queue t s"
  shows "run_part idle n (requeued t s)"
proof (rule run_part_moved [OF assms(1) thread_inv_requeued [OF run_partD(1) [OF assms(1)] assms(2)]])
  show "idle_ready idle (requeued t s)" if "idle \<in> set (tqs s (Ready p))" for p
    using that by (cases "idle = t") (auto simp: idle_ready_def tqs_requeued)
qed (auto simp: tqs_requeued, simp_all add: requeued_def)

lemma yield_part:
  assumes "run_part idle n s" "settled s"
  obtains s' where "rt_thread_yield s = Some (RT_EOK, s')" "run_part idle n s'" "settled s'" "same_timers s s'"
proof (cases "shares_ready_queue (rt_current_thread s) s")
  case True
  let ?r = "requeued (rt_current_thread s) s"
  obtain s' where s': "rt_schedule ?r = Some s'" "run_part idle n s'" "settled s'" "same_timers ?r s'"
    using run_part_schedule [OF run_part_requeued [OF assms(1) True]] by blast
  have "rt_thread_yield s = Some (RT_EOK, s')"
    by (rule running [OF assms]) (simp add: rt_thread_yield_eq True s'(1))
  moreover have "same_timers s s'" using s'(4) by (simp add: same_timers_def requeued_def)
  ultimately show ?thesis using that s'(2,3) by blast
qed (use assms that in \<open>auto simp: rt_thread_yield_eq same_timers_def\<close>)

lemma settled_cong:
  assumes "settled s" "tqs s' = tqs s" "ready_group s' = ready_group s" "rt_current_thread s' = rt_current_thread s"
    "rt_scheduler_lock_nest s' = rt_scheduler_lock_nest s"
  shows "settled s'"
proof -
  have "highest_ready_thread s' = highest_ready_thread s" using assms by (simp add: highest_ready_thread_def Let_def)
  then show ?thesis using assms by (simp add: settled_iff)
qed

lemma run_inv_set_error:
  assumes "run_inv idle s"
  shows "run_inv idle (set_thread t (\<lambda>th. th\<lparr>th_error := e\<rparr>) s)"
proof -
  let ?s = "set_thread t (\<lambda>th. th\<lparr>th_error := e\<rparr>) s"
  have r: "run_part idle 0 s" "settled s" "no_overdue s" using assms by (simp_all add: run_inv_def)
  have "run_part idle 0 ?s" by (rule run_part_cong [OF r(1)]) (use run_partD(1) [OF r(1)] in simp_all)
  moreover have "no_overdue ?s" using r(3) by (subst no_overdue_same [of s]) (simp_all add: same_timers_def)
  ultimately show ?thesis using settled_cong [OF r(2), of ?s] by (simp add: run_inv_def)
qed

lemma sleeping_part:
  assumes "run_inv idle s" "rt_current_thread s = c" "c \<noteq> idle" "0 < tick" "tick < TICK_HALF"
  shows "run_part idle 0 (sleeping c tick s)" "no_overdue (sleeping c tick s)" "rt_current_thread (sleeping c tick s) = c"
    "c \<notin> set (tqs (sleeping c tick s) (Ready p))"
proof -
  have r: "run_part idle 0 s" "no_overdue s" "runnable s" using assms(1) run_inv_runnable by (simp_all add: run_inv_def)
  then have g: "good s c" using assms(2) by (simp add: runnable_def)
  note sl = sleeping_inv [OF run_partD(1) [OF r(1)] r(2) g assms(4,5)]
  have f: "tqs (sleeping c tick s) = tqs (suspended c s)" "sems (sleeping c tick s) = sems (suspended c s)"
    "rt_scheduler_lock_nest (sleeping c tick s) = rt_scheduler_lock_nest (suspended c s)"
    "rt_interrupt_nest (sleeping c tick s) = rt_interrupt_nest (suspended c s)"
    by (simp_all add: sleeping_def)
  show "run_part idle 0 (sleeping c tick s)" by (rule run_part_cong [OF run_part_suspended [OF r(1) g assms(3)] sl(1) f])
  show "no_overdue (sleeping c tick s)" by (rule sl(2))
  show "rt_current_thread (sleeping c tick s) = c" using assms(2) by (simp add: sleeping_def)
  show "c \<notin> set (tqs (sleeping c tick s) (Ready p))" using sl(5) by (simp add: unlinked_def)
qed

lemma blocked_part:
  assumes "run_inv idle s" "rt_current_thread s = c" "c \<noteq> idle" "time_ok time" "sem_value (sems s sem) = 0"
  shows "run_part idle 0 (blocked_on (Susp sem) flag time s)" "no_overdue (blocked_on (Susp sem) flag time s)"
    "rt_current_thread (blocked_on (Susp sem) flag time s) = c"
    "c \<notin> set (tqs (blocked_on (Susp sem) flag time s) (Ready p))"
proof -
  let ?b = "blocked_on (Susp sem) flag time s"
  have r: "run_part idle 0 s" "no_overdue s" "runnable s" using assms(1) run_inv_runnable by (simp_all add: run_inv_def)
  note inv = run_partD(1) [OF r(1)]
  show "rt_current_thread ?b = c" "c \<notin> set (tqs ?b (Ready p))"
    using tqs_ipc_blocked(3) [OF inv r(3) wait_list_simps(1)] assms(2) by auto
  have "no_overdue (set_thread c (\<lambda>t. t\<lparr>th_error := RT_EOK\<rparr>) s)"
    using r(2) by (subst no_overdue_same [of s]) (simp_all add: same_timers_def)
  then show "no_overdue ?b" using assms(2,4) by (simp add: blocked_on_def no_overdue_waiting)
  have ti: "thread_inv ?b" using thread_inv_ipc_blocked [OF inv _ r(3) wait_list_simps(1) assms(4)] r(2) by (simp add: no_overdue_def)
  have "sem_inv q ?b" for q
    using run_partD(3) [OF r(1), of q] tqs_ipc_blocked(2) [OF inv r(3) wait_list_simps(1), of "Susp q"] assms(5)
    by (cases "q = sem") (auto simp: sem_inv_def)
  moreover have "idle_ready idle ?b"
    using run_partD(2) [OF r(1)] assms(2,3) by (auto simp: idle_ready_def blocked_on_def tqs_parked)
  ultimately show "run_part idle 0 ?b" using ti run_partD(4,5) [OF r(1)] by (simp add: run_part_def)
qed

lemma sem_take_outcome:
  assumes "run_inv idle s" "sem \<noteq> RT_NULL" "fifo_or_prio sem s" "time_ok time" "time = 0 \<or> rt_current_thread s \<noteq> idle"
  shows "(\<exists>e s'. (\<forall>w. rt_sem_take w sem time s = Some (e, s')) \<and> run_inv idle s') \<or>
    (\<exists>s0. run_inv idle s0 \<and> rt_current_thread s0 \<noteq> rt_current_thread s \<and>
       (\<forall>w. rt_sem_take w sem time s = Some (th_error (threads (w s0) (rt_current_thread s)), w s0)))"
proof -
  have r: "run_part idle 0 s" "settled s" "no_overdue s" "runnable s"
    using assms(1) run_inv_runnable by (simp_all add: run_inv_def)
  consider "0 < sem_value (sems s sem)" | "sem_value (sems s sem) = 0" "time = 0" | "sem_value (sems s sem) = 0" "time \<noteq> 0"
    by (auto simp: word_gt_0)
  then show ?thesis
  proof cases
    case 1
    let ?s = "set_sem sem (sem_value (sems s sem) - 1) s"
    have "run_part idle 0 ?s"
      using r(1) 1 unfolding run_part_def by (auto simp: idle_ready_def sem_inv_def)
    moreover have "settled ?s" "no_overdue ?s"
      using settled_cong [OF r(2), of ?s] r(3) no_overdue_same [of s ?s] by (simp_all add: same_timers_def)
    ultimately show ?thesis using rt_sem_take_available [OF assms(2) 1] by (auto simp: run_inv_def)
  next
    case 2
    then show ?thesis using assms(1,2) by (auto simp: rt_sem_take_def)
  next
    case 3
    then have c: "rt_current_thread s \<noteq> idle" using assms(5) by blast
    note b = blocked_part [OF assms(1) refl c assms(4) 3(1), of "ob_flag (objects s (At sem))"]
    show ?thesis
      by (rule handed_over [OF b]) (use rt_sem_take_blocks [OF assms(2) 3(1,2) r(4) assms(3,4)] in auto)
  qed
qed

lemma sem_release_outcome:
  assumes "run_inv idle s"
  shows "\<exists>e s'. rt_sem_release sem s = Some (e, s') \<and> run_inv idle s'"
proof (cases "tqs s (Susp sem)")
  case Nil
  let ?s = "set_sem sem (sem_value (sems s sem) + 1) s"
  have r: "run_part idle 0 s" "settled s" "no_overdue s" using assms by (simp_all add: run_inv_def)
  have "run_part idle 0 ?s" using r(1) Nil unfolding run_part_def by (auto simp: idle_ready_def sem_inv_def)
  moreover have "settled ?s" "no_overdue ?s"
    using settled_cong [OF r(2), of ?s] r(3) no_overdue_same [of s ?s] by (simp_all add: same_timers_def)
  ultimately show ?thesis using Nil by (simp add: rt_sem_release_def run_inv_def)
next
  case (Cons t ts)
  have r: "run_part idle 0 s" "no_overdue s" using assms by (simp_all add: run_inv_def)
  note rs = rt_ipc_list_resume_eq [OF run_partD(1) [OF r(1)] wait_list_simps(1) Cons]
  obtain s' where s': "rt_sem_release sem s = Some (RT_EOK, s')" "rt_schedule (resumed t s) = Some s'"
    using rt_sem_release_waiter [OF run_partD(1) [OF r(1)] Cons] by blast
  have "no_overdue (resumed t s)" by (rule no_overdue_resumed [OF r(2)])
  then show ?thesis using schedule_inv [OF run_part_resumed [OF r(1) rs(2,3)]] s' by (metis option.inject)
qed

lemma suspend_outcome:
  assumes "run_inv idle s" "rt_current_thread s \<noteq> idle"
  obtains s0 where "run_inv idle s0" "rt_current_thread s0 \<noteq> rt_current_thread s" "\<And>w. suspend_self w s = Some (RT_EOK, w s0)"
proof -
  let ?c = "rt_current_thread s"
  have r: "run_part idle 0 s" "no_overdue s" "runnable s" using assms(1) run_inv_runnable by (simp_all add: run_inv_def)
  then have c: "good s ?c" "th_stat (threads s ?c) = RT_THREAD_READY" by (simp_all add: runnable_def)
  obtain s0 where "run_inv idle s0" "rt_current_thread s0 \<noteq> ?c" "\<And>w. schedule_switch w (suspended ?c s) = Some (w s0)"
    by (rule handed_over [OF run_part_suspended [OF r(1) c(1) assms(2)] no_overdue_suspended [OF r(2)], of ?c])
      (auto simp: q_remove_def)
  then show ?thesis
    using that rt_thread_suspend_eq [OF c] by (simp add: suspend_self_def rt_thread_self_def)
qed

lemma resume_outcome:
  assumes "run_inv idle s" "good s t"
  shows "\<exists>e s'. resume_thread t w s = Some (e, s') \<and> run_inv idle s'"
proof (cases "th_stat (threads s t) = RT_THREAD_SUSPEND")
  case True
  have r: "run_part idle 0 s" "no_overdue s" using assms(1) by (simp_all add: run_inv_def)
  obtain s' where "rt_schedule (resumed t s) = Some s'" "run_inv idle s'"
    using schedule_inv [OF run_part_resumed [OF r(1) assms(2) True] no_overdue_resumed [OF r(2)]] by blast
  then show ?thesis using rt_thread_resume_eq [OF assms(2) True] by (simp add: resume_thread_def)
next
  case False
  have "rt_schedule s = Some s" using assms(1) by (simp add: run_inv_def settled_def)
  then show ?thesis using assms False by (simp add: resume_thread_def rt_thread_resume_other good_def)
qed

lemma delay_outcome:
  assumes "run_inv idle s" "rt_current_thread s \<noteq> idle" "0 < tick" "tick < TICK_HALF"
  obtains s0 where "run_inv idle s0" "rt_current_thread s0 \<noteq> rt_current_thread s"
    "\<And>w. rt_thread_delay w tick s = Some (RT_EOK, if th_error (threads (w s0) (rt_current_thread s)) = - RT_ETIMEOUT
      then set_thread (rt_current_thread s) (\<lambda>t. t\<lparr>th_error := RT_EOK\<rparr>) (w s0) else w s0)"
proof -
  let ?c = "rt_current_thread s"
  have c: "good s ?c" "th_stat (threads s ?c) = RT_THREAD_READY" using run_inv_runnable [OF assms(1)] by (simp_all add: runnable_def)
  obtain s0 where "run_inv idle s0" "rt_current_thread s0 \<noteq> ?c" "\<And>w. schedule_switch w (sleeping ?c tick s) = Some (w s0)"
    by (rule handed_over [OF sleeping_part [OF assms(1) refl assms(2-4)]]) blast
  then show ?thesis using that rt_thread_sleep_eq [OF c assms(4)] by (simp add: rt_thread_delay_def)
qed

section \<open>The tick interrupt keeps the invariant\<close>

text \<open>What is asked of the timeout functions of the application, beside \<open>user_ok\<close>.\<close>

definition user_runs :: "ptr \<Rightarrow> (ptr \<Rightarrow> ptr \<Rightarrow> kstate \<Rightarrow> kstate option) \<Rightarrow> bool" where
  "user_runs idle user \<longleftrightarrow> user_ok user \<and> (\<forall>a p n s s'. run_part idle n s \<longrightarrow> settled s \<longrightarrow> user a p s = Some s' \<longrightarrow>
     run_part idle n s' \<and> settled s')"

lemma run_part_timed_out:
  assumes "run_part idle n s" "good s t" "th_stat (threads s t) = RT_THREAD_SUSPEND" "TmrOf t \<notin> set (timer_list s)"
  shows "run_part idle n (timed_out t s)"
proof (rule run_part_moved [OF assms(1)])
  show "thread_inv (timed_out t s)"
    unfolding timed_out_def using assms run_partD(1) [OF assms(1)] by (intro thread_inv_woken) simp_all
  show "idle_ready idle (timed_out t s)" if "idle \<in> set (tqs s (Ready p))" for p
    using that idle_not_suspended [OF assms(1,3)] by (auto simp: idle_ready_def timed_out_def tqs_woken)
qed (force simp: timed_out_def tqs_woken, simp_all add: timed_out_def woken_def)

interpretation run_timers: timeout_handler
  "kernel_callback user" "\<lambda>s. user_runs idle user \<and> run_part idle n s \<and> settled s" "\<lambda>r s. True" for user idle n
proof unfold_locales
  fix s r assume P: "user_runs idle user \<and> run_part idle n s \<and> settled s" and r: "r \<in> set (timer_list s)"
  let ?s = "rt_timer_remove r s"
  have inv: "thread_inv s" using P run_partD(1) by blast
  have part: "run_part idle n ?s" "settled ?s"
    using run_part_cong [of idle n s ?s] settled_cong [of s ?s] P thread_inv_timer_remove [OF inv, of r] by simp_all
  have "\<exists>s'. kernel_callback user (tm_timeout_func (timers s r)) (tm_parameter (timers s r)) ?s = Some s' \<and>
      run_part idle n s' \<and> settled s' \<and> same_timers ?s s'"
  proof (cases r)
    case (At p)
    then obtain a where "tm_timeout_func (timers s r) = User_fn a"
      using thread_invD(5) [OF inv, of p] r by (cases "tm_timeout_func (timers s r)") auto
    moreover obtain s' where s': "user a (tm_parameter (timers s r)) ?s = Some s'" "same_timers ?s s'"
      using P run_partD(1) [OF part(1)] unfolding user_runs_def user_ok_def by blast
    moreover have "run_part idle n s' \<and> settled s'" using P part s'(1) unfolding user_runs_def by blast
    ultimately show ?thesis by (simp add: kernel_callback_def)
  next
    case (TmrOf t)
    then have t: "good ?s t" "th_stat (threads ?s t) = RT_THREAD_SUSPEND" "TmrOf t \<notin> set (timer_list ?s)"
      using thread_invD(4) [OF inv, of t] r by (auto simp: good_def)
    obtain s' where s': "rt_schedule (timed_out t ?s) = Some s'" "run_part idle n s'" "settled s'" "same_timers (timed_out t ?s) s'"
      using run_part_schedule [OF run_part_timed_out [OF part(1) t]] by blast
    have "tm_timeout_func (timers s r) = Thread_timeout" "tm_parameter (timers s r) = t" using t(1) TmrOf by (simp_all add: good_def)
    moreover have "same_timers ?s s'" using s'(4) by (simp add: same_timers_def timed_out_def)
    ultimately show ?thesis using s' rt_thread_timeout_eq [OF t(1,2)] by (simp add: kernel_callback_def)
  qed
  then show "\<exists>s'. kernel_callback user (tm_timeout_func (timers s r)) (tm_parameter (timers s r)) ?s = Some s' \<and>
      (user_runs idle user \<and> run_part idle n s' \<and> settled s') \<and> same_timers ?s s' \<and> True \<and> (\<forall>u. True \<longrightarrow> True)"
    using P by blast
next
  fix s r assume P: "user_runs idle user \<and> run_part idle n s \<and> settled s" and r: "r \<notin> set (timer_list s)"
  let ?s = "set_flag r (\<lambda>f. f AND NOT RT_TIMER_FLAG_ACTIVATED) s"
  show "user_runs idle user \<and> run_part idle n ?s \<and> settled ?s"
    using run_part_cong [of idle n s ?s] settled_cong [of s ?s] P thread_inv_set_flag [OF _ r] run_partD(1) [of idle n s] by simp
next
  fix s0 t s
  assume a: "user_runs idle user \<and> run_part idle n s0 \<and> settled s0" "t \<in> set (timer_list s0)" "periodic s0 t"
    "user_runs idle user \<and> run_part idle n s \<and> settled s" "timers s = timers s0" "timer_inv s" "tm_init_tick (timers s t) < TICK_HALF"
  have "thread_inv s0" "thread_inv s" using a(1,4) run_partD(1) by blast+
  then have "thread_inv (started t s)"
    using a thread_invD(4,5) [of s0] by (cases t) (auto intro: thread_inv_restart simp: good_def)
  then show "user_runs idle user \<and> run_part idle n (started t s) \<and> settled (started t s)"
    using run_part_cong [of idle n s "started t s"] settled_cong [of s "started t s"] a(4) by simp
qed simp

lemma slice_part:
  assumes "run_part idle n s" "settled s"
  obtains s' where "tick_slice s = Some s'" "run_part idle n s'" "settled s'" "same_timers (s\<lparr>rt_tick := rt_tick s + 1\<rparr>) s'"
proof -
  let ?t = "rt_current_thread s"
  let ?s1 = "set_thread ?t (\<lambda>t. t\<lparr>th_remaining_tick := th_remaining_tick t - 1\<rparr>) (s\<lparr>rt_tick := rt_tick s + 1\<rparr>)"
  let ?s2 = "set_thread ?t (\<lambda>t. t\<lparr>th_remaining_tick := th_init_tick t\<rparr>) ?s1"
  have inv: "thread_inv ?s1" "thread_inv ?s2" using run_partD(1) [OF assms(1)] by (simp_all only: thread_inv_remaining thread_inv_tick)
  have p: "run_part idle n ?s1" "settled ?s1" "run_part idle n ?s2" "settled ?s2"
    using run_part_cong [OF assms(1) inv(1)] run_part_cong [OF assms(1) inv(2)] settled_cong [OF assms(2), of ?s1]
      settled_cong [OF assms(2), of ?s2] by simp_all
  have t: "same_timers (s\<lparr>rt_tick := rt_tick s + 1\<rparr>) ?s1" "same_timers (s\<lparr>rt_tick := rt_tick s + 1\<rparr>) ?s2"
    by (simp_all add: same_timers_def)
  obtain s3 where s3: "rt_thread_yield ?s2 = Some (RT_EOK, s3)" "run_part idle n s3" "settled s3" "same_timers ?s2 s3"
    using yield_part [OF p(3,4)] by blast
  show ?thesis
  proof (cases "th_remaining_tick (threads ?s1 ?t) = 0")
    case True
    then have "tick_slice s = Some s3" using s3(1) by (simp add: tick_slice_def rt_thread_self_def Let_def)
    then show ?thesis using that s3(2,3) same_timers_trans [OF t(2) s3(4)] by blast
  next
    case False
    then have "tick_slice s = Some ?s1" by (simp add: tick_slice_def rt_thread_self_def Let_def)
    then show ?thesis using that p(1,2) t(1) by blast
  qed
qed

lemma tick_outcome:
  assumes "user_runs idle user" "run_inv idle s"
  shows "\<exists>s'. SysTick_Handler user s = Some s' \<and> run_inv idle s'"
proof -
  let ?e = "rt_interrupt_enter s" let ?e1 = "?e\<lparr>rt_tick := rt_tick ?e + 1\<rparr>"
  have r: "run_part idle 0 s" "settled s" "no_overdue s" using assms(2) by (simp_all add: run_inv_def)
  have ti: "thread_inv ?e" using run_partD(1) [OF r(1)] by (subst thread_inv_cong [where s = s]) (simp_all add: rt_interrupt_enter_def)
  have e: "run_part idle 1 ?e" "settled ?e" "no_overdue ?e"
    using r(1) ti settled_cong [OF r(2), of ?e] no_overdue_same [of s ?e] r(3)
    by (simp_all add: run_part_def idle_ready_def sem_inv_def rt_interrupt_enter_def same_timers_def)
  obtain s2 where s2: "tick_slice ?e = Some s2" "run_part idle 1 s2" "settled s2" "same_timers ?e1 s2"
    using slice_part [OF e(1,2)] by blast
  have "timer_inv ?e1" using e(3) by (intro timer_inv_tick) (force simp: no_overdue_def)+
  moreover have "periods_ok ?e1" using e(3) by (simp add: no_overdue_def periods_ok_def periodic_def)
  ultimately have t2: "timer_inv s2" "periods_ok s2" using same_timersD [OF s2(4)] by simp_all
  have "user_runs idle user \<and> run_part idle 1 s2 \<and> settled s2" using assms(1) s2(2,3) by blast
  from run_timers.check_loop [OF this t2] obtain s' fired where s':
    "timer_check_loop (kernel_callback user) (rt_tick s2) s2 = Some (fired, s')" "run_part idle 1 s'" "settled s'"
    "timer_inv s'" "periods_ok s'" "\<forall>t \<in> set (timer_list s'). 2 \<le> time_left s' t" by blast
  let ?l = "rt_interrupt_leave s'"
  have "thread_inv ?l" using run_partD(1) [OF s'(2)] by (subst thread_inv_cong [where s = s']) (simp_all add: rt_interrupt_leave_def)
  then have "run_part idle 0 ?l" using s'(2) by (simp add: run_part_def idle_ready_def sem_inv_def rt_interrupt_leave_def)
  moreover have "settled ?l" using settled_cong [OF s'(3), of ?l] by (simp add: rt_interrupt_leave_def)
  moreover have "no_overdue s'" using s'(4-6) by (simp add: no_overdue_def)
  then have "no_overdue ?l" using no_overdue_same [of s' ?l] by (simp add: same_timers_def rt_interrupt_leave_def)
  moreover have "SysTick_Handler user s = Some ?l"
    using s2(1) s'(1) by (simp add: SysTick_Handler_def rt_tick_increase_slice rt_timer_check_def rt_tick_get_def)
  ultimately show ?thesis by (simp add: run_inv_def)
qed

text \<open>The contract for the kernel.\<close>

interpretation kernel_run: kernel_calls "\<lambda>s. user_runs idle user \<and> run_inv idle s" rt_current_thread "kernel_call idle" "SysTick_Handler user"
  for idle user
proof unfold_locales
  fix s f assume I: "user_runs idle user \<and> run_inv idle s" and f: "kernel_call idle s f"
  then have inv: "run_inv idle s" by simp
  have r: "run_part idle 0 s" "settled s" using inv by (simp_all add: run_inv_def)
  from f have "(\<exists>e s'. (\<forall>w. f w s = Some (e, s')) \<and> run_inv idle s') \<or>
      (\<exists>s0 k. (\<forall>w. f w s = k (w s0)) \<and> run_inv idle s0 \<and> rt_current_thread s0 \<noteq> rt_current_thread s \<and>
         (\<forall>s'. run_inv idle s' \<longrightarrow> (\<exists>e s''. k s' = Some (e, s'') \<and> run_inv idle s'')))"
  proof cases
    case yield
    obtain s' where s': "rt_thread_yield s = Some (RT_EOK, s')" "run_part idle 0 s'" "settled s'" "same_timers s s'"
      using yield_part [OF r] by blast
    then show ?thesis using yield inv no_overdue_same [OF s'(4)] by (auto simp: run_inv_def)
  next
    case (delay tick)
    let ?k = "\<lambda>s'. Some (RT_EOK, if th_error (threads s' (rt_current_thread s)) = - RT_ETIMEOUT
      then set_thread (rt_current_thread s) (\<lambda>t. t\<lparr>th_error := RT_EOK\<rparr>) s' else s')"
    obtain s0 where "run_inv idle s0" "rt_current_thread s0 \<noteq> rt_current_thread s" "\<And>w. rt_thread_delay w tick s = ?k (w s0)"
      using delay_outcome [OF inv delay(2-4)] by metis
    moreover have "\<forall>s'. run_inv idle s' \<longrightarrow> (\<exists>e s''. ?k s' = Some (e, s'') \<and> run_inv idle s'')"
      using run_inv_set_error by simp
    ultimately show ?thesis using delay(1) by (intro disjI2 exI [of _ s0] exI [of _ ?k]) simp
  next
    case suspend
    obtain s0 where "run_inv idle s0" "rt_current_thread s0 \<noteq> rt_current_thread s" "\<And>w. suspend_self w s = Some (RT_EOK, w s0)"
      using suspend_outcome [OF inv suspend(2)] by blast
    then show ?thesis using suspend(1) by (intro disjI2 exI [of _ s0] exI [of _ "\<lambda>x. Some (RT_EOK, x)"]) simp
  next
    case (resume t)
    have "resume_thread t w s = resume_thread t id s" for w by (simp add: resume_thread_def)
    then show ?thesis using resume resume_outcome [OF inv resume(2), of id] by metis
  next
    case (sem_take sem time)
    from sem_take_outcome [OF inv sem_take(2-5)] show ?thesis
    proof (elim disjE exE conjE)
      fix s0 assume "run_inv idle s0" "rt_current_thread s0 \<noteq> rt_current_thread s"
        "\<forall>w. rt_sem_take w sem time s = Some (th_error (threads (w s0) (rt_current_thread s)), w s0)"
      then show ?thesis
        using sem_take(1)
        by (intro disjI2 exI [of _ s0] exI [of _ "\<lambda>x. Some (th_error (threads x (rt_current_thread s)), x)"]) simp
    qed (use sem_take(1) in blast)
  next
    case (sem_release sem)
    then show ?thesis using sem_release_outcome [OF inv, of sem] by auto
  qed
  then show "(\<exists>e s'. (\<forall>w. f w s = Some (e, s')) \<and> user_runs idle user \<and> run_inv idle s') \<or>
      (\<exists>s0 k. (\<forall>w. f w s = k (w s0)) \<and> (user_runs idle user \<and> run_inv idle s0) \<and> rt_current_thread s0 \<noteq> rt_current_thread s \<and>
         (\<forall>s'. user_runs idle user \<and> run_inv idle s' \<longrightarrow> rt_current_thread s' = rt_current_thread s \<longrightarrow>
           (\<exists>e s''. k s' = Some (e, s'') \<and> user_runs idle user \<and> run_inv idle s'')))"
    using I by blast
next
  fix s assume "user_runs idle user \<and> run_inv idle s"
  then show "\<exists>s'. SysTick_Handler user s = Some s' \<and> user_runs idle user \<and> run_inv idle s'" using tick_outcome by blast
qed

abbreviation kernel_steps :: "ptr \<Rightarrow> (ptr \<Rightarrow> ptr \<Rightarrow> kstate \<Rightarrow> kstate option) \<Rightarrow> (ptr, kstate) config \<Rightarrow> (ptr, kstate) config \<Rightarrow> bool" where
  "kernel_steps idle user \<equiv> (run_step rt_current_thread (kernel_call idle) (SysTick_Handler user))\<^sup>*\<^sup>*"

section \<open>Properties\<close>

text \<open>
  C3. The running kernel stays consistent and runs the right thread.  From a consistent state with the idle thread ready and no call pending, in
  every state that any sequence of calls of the threads (yield, delay, suspension and resumption with their \<open>rt_schedule\<close>, taking and releasing
  semaphores) and tick interrupts leads to: the queues, bitmap and thread timers are consistent, the timer list is sorted and nothing on it overdue,
  the running thread is the first thread of the best ready queue, so that no ready thread of a better priority ever waits for it, and no
  semaphore has both a positive value and a waiting thread.
\<close>

theorem kernel_run_invariant:
  assumes "run_inv idle s0" "user_runs idle user" "kernel_steps idle user (s0, \<lambda>_. None) (s, pend)"
  shows "thread_inv s \<and> timer_inv s \<and> (\<forall>r \<in> set (timer_list s). 2 \<le> time_left s r) \<and>
    (\<exists>p ts. tqs s (Ready p) = rt_current_thread s # ts \<and> (\<forall>q < p. tqs s (Ready q) = [])) \<and>
    th_stat (threads s (rt_current_thread s)) = RT_THREAD_READY \<and>
    (\<forall>sem. 0 < sem_value (sems s sem) \<longrightarrow> tqs s (Susp sem) = [])"
proof -
  have "run_inv idle s"
    using kernel_run.invariant [OF assms(3)] assms(1,2) unfolding kernel_run.config_inv_def by blast
  then have r: "run_part idle 0 s" "settled s" "no_overdue s" by (simp_all add: run_inv_def)
  have "\<exists>p ts. tqs s (Ready p) = rt_current_thread s # ts \<and> (\<forall>q < p. tqs s (Ready q) = [])"
    using settledD [OF r(2) thread_invD(1) [OF run_partD(1) [OF r(1)]]] by metis
  moreover have "th_stat (threads s (rt_current_thread s)) = RT_THREAD_READY" using running [OF r(1,2)] by blast
  ultimately show ?thesis using r run_partD(1,3) [OF r(1)] by (auto simp: no_overdue_def sem_inv_def)
qed

lemma run_inv_two_started: "run_inv 0x200 two_started"
proof -
  have "unat (rt_ffs 0x88 - 1) = 3" by code_simp
  then have "settled two_started" by (simp add: settled_iff highest_ready_thread_def Let_def)
  moreover have "idle_ready 0x200 two_started" unfolding idle_ready_def by (rule exI [of _ 7]) simp
  ultimately show ?thesis
    using thread_inv_two_started no_overdue_two_started by (simp add: run_inv_def run_part_def sem_inv_def)
qed

lemma user_runs_skip: "user_runs idle (\<lambda>a p s. Some s)"
  by (simp add: user_runs_def user_ok_skip)

theorem kernel_run_invariant_witness:
  "\<exists>s. kernel_steps 0x200 (\<lambda>a p s. Some s) (two_started, \<lambda>_. None) (s, \<lambda>_. None) \<and> sem_value (sems s 0x500) = 1 \<and>
     tqs s (Susp 0x500) = []"
proof -
  let ?s = "set_sem 0x500 1 two_started"
  have "rt_sem_release 0x500 two_started = Some (RT_EOK, ?s)" by (simp add: rt_sem_release_def)
  then have "run_step rt_current_thread (kernel_call 0x200) (SysTick_Handler (\<lambda>a p s. Some s)) (two_started, \<lambda>_. None) (?s, \<lambda>_. None)"
    by (intro run_step.returns [where f = "\<lambda>w. rt_sem_release 0x500"]) (auto intro: kernel_call.sem_release)
  then have st: "kernel_steps 0x200 (\<lambda>a p s. Some s) (two_started, \<lambda>_. None) (?s, \<lambda>_. None)" by (rule r_into_rtranclp)
  have "0 < sem_value (sems ?s 0x500) \<longrightarrow> tqs ?s (Susp 0x500) = []"
    using kernel_run_invariant [OF run_inv_two_started user_runs_skip st] by blast
  then show ?thesis using st by (intro exI [of _ ?s]) simp
qed



end
