(* ===== verification/Mutex.thy ===== *)
theory Mutex
  imports Semaphore
begin

text \<open>
  The mutexes of \<open>src/src/ipc.c\<close> (\<open>rt_mutex_*\<close>): ownership, recursive taking, and priority
  inheritance.  \<open>mutex_inv\<close>: a mutex is either free, with value 1, hold 0 and nobody waiting, or it
  has an owner, which does not wait for it, and a positive hold.
\<close>

section \<open>The code\<close>

definition set_mutex :: "ptr \<Rightarrow> (rt_mutex \<Rightarrow> rt_mutex) \<Rightarrow> kstate \<Rightarrow> kstate" where
  "set_mutex m f s = s\<lparr>mutexes := (mutexes s)(m := f (mutexes s m))\<rparr>"

definition rt_mutex_init :: "ptr \<Rightarrow> u8 list \<Rightarrow> u8 \<Rightarrow> kstate \<Rightarrow> (rt_err_t \<times> kstate) option" where
  "rt_mutex_init mutex name flag s = do {
     RT_ASSERT (mutex \<noteq> RT_NULL);
     s \<leftarrow> rt_object_init (At mutex) RT_Object_Class_Mutex name s;
     let (_, s) = rt_ipc_object_init mutex s;
     let s = set_mutex mutex (\<lambda>m. m\<lparr>mtx_value := 1, mtx_owner := RT_NULL,
       mtx_original_priority := 0xff, mtx_hold := 0\<rparr>) s;
     let s = set_object (At mutex) (\<lambda>r. r\<lparr>ob_flag := flag\<rparr>) s;
     Some (RT_EOK, s)
   }"

definition rt_mutex_detach :: "ptr \<Rightarrow> kstate \<Rightarrow> (rt_err_t \<times> kstate) option" where
  "rt_mutex_detach mutex s = do {
     RT_ASSERT (mutex \<noteq> RT_NULL);
     s \<leftarrow> rt_ipc_list_resume_all (Susp mutex) s;
     s \<leftarrow> rt_object_detach (At mutex) s;
     Some (RT_EOK, s)
   }"

definition rt_mutex_take :: "world \<Rightarrow> ptr \<Rightarrow> rt_int32_t \<Rightarrow> kstate \<Rightarrow> (rt_err_t \<times> kstate) option" where
  "rt_mutex_take w mutex time s = do {
     RT_DEBUG_IN_THREAD_CONTEXT s;
     RT_ASSERT (mutex \<noteq> RT_NULL);
     let thread = rt_thread_self s;
     let s = set_thread thread (\<lambda>t. t\<lparr>th_error := RT_EOK\<rparr>) s;
     let m = mutexes s mutex;
     if mtx_owner m = thread
     then Some (RT_EOK, set_mutex mutex (\<lambda>m. m\<lparr>mtx_hold := mtx_hold m + 1\<rparr>) s)
     else if 0 < mtx_value m
     then Some (RT_EOK, set_mutex mutex (\<lambda>m. m\<lparr>mtx_value := mtx_value m - 1, mtx_owner := thread,
       mtx_original_priority := th_current_priority (threads s thread), mtx_hold := mtx_hold m + 1\<rparr>) s)
     else if time = 0
     then Some (- RT_ETIMEOUT, set_thread thread (\<lambda>t. t\<lparr>th_error := - RT_ETIMEOUT\<rparr>) s)
     else do {
       s \<leftarrow> (if th_current_priority (threads s thread) < th_current_priority (threads s (mtx_owner m))
            then do {
              (_, s) \<leftarrow> rt_thread_control (mtx_owner m) 2 (th_current_priority (threads s thread)) s;
              Some s
            }
            else Some s);
       s \<leftarrow> ipc_wait (Susp mutex) thread (ob_flag (objects s (At mutex))) time s;
       s \<leftarrow> schedule_switch w s;
       if th_error (threads s thread) \<noteq> RT_EOK
       then Some (th_error (threads s thread), s)
       else Some (RT_EOK, s)
     }
   }"

definition rt_mutex_release :: "ptr \<Rightarrow> kstate \<Rightarrow> (rt_err_t \<times> kstate) option" where
  "rt_mutex_release mutex s = do {
     RT_DEBUG_IN_THREAD_CONTEXT s;
     let thread = rt_thread_self s;
     if thread \<noteq> mtx_owner (mutexes s mutex)
     then Some (- RT_ERROR, set_thread thread (\<lambda>t. t\<lparr>th_error := - RT_ERROR\<rparr>) s)
     else do {
       let s = set_mutex mutex (\<lambda>m. m\<lparr>mtx_hold := mtx_hold m - 1\<rparr>) s;
       let m = mutexes s mutex;
       if mtx_hold m = 0
       then do {
         s \<leftarrow> (if mtx_original_priority m \<noteq> th_current_priority (threads s (mtx_owner m))
              then do {
                (_, s) \<leftarrow> rt_thread_control (mtx_owner m) 2 (mtx_original_priority m) s;
                Some s
              }
              else Some s);
         case tqs s (Susp mutex) of
           thread # _ \<Rightarrow> do {
             let s = set_mutex mutex (\<lambda>m. m\<lparr>mtx_owner := thread,
               mtx_original_priority := th_current_priority (threads s thread), mtx_hold := mtx_hold m + 1\<rparr>) s;
             (_, s) \<leftarrow> rt_ipc_list_resume (Susp mutex) s;
             s \<leftarrow> rt_schedule s;
             Some (RT_EOK, s)
           }
         | [] \<Rightarrow> Some (RT_EOK, set_mutex mutex (\<lambda>m. m\<lparr>mtx_value := mtx_value m + 1,
             mtx_owner := RT_NULL, mtx_original_priority := 0xff\<rparr>) s)
       }
       else Some (RT_EOK, s)
     }
   }"

definition rt_mutex_control :: "ptr \<Rightarrow> u8 \<Rightarrow> u32 \<Rightarrow> kstate \<Rightarrow> rt_err_t \<times> kstate" where
  "rt_mutex_control mutex cmd arg s = (- RT_ERROR, s)"

section \<open>The invariant\<close>

definition mutex_inv :: "ptr \<Rightarrow> kstate \<Rightarrow> bool" where
  "mutex_inv mutex s \<longleftrightarrow> (let m = mutexes s mutex in
     if mtx_owner m = RT_NULL
     then mtx_value m = 1 \<and> mtx_hold m = 0 \<and> tqs s (Susp mutex) = []
     else mtx_value m = 0 \<and> mtx_hold m \<noteq> 0 \<and> good s (mtx_owner m) \<and>
       unat (mtx_original_priority m) < 32 \<and> mtx_owner m \<notin> set (tqs s (Susp mutex)))"

lemmas mutex_inv_iff = mutex_inv_def [unfolded Let_def]

lemma mutexes_set_mutex [simp]:
  "mutexes (set_mutex m f s) = (mutexes s)(m := f (mutexes s m))"
  by (simp add: set_mutex_def)

lemma set_mutex_fields [simp]:
  "threads (set_mutex m f s) = threads s" "tqs (set_mutex m f s) = tqs s"
  "objects (set_mutex m f s) = objects s" "timers (set_mutex m f s) = timers s"
  "timer_list (set_mutex m f s) = timer_list s" "containers (set_mutex m f s) = containers s"
  "ready_group (set_mutex m f s) = ready_group s" "rt_tick (set_mutex m f s) = rt_tick s"
  "rt_current_thread (set_mutex m f s) = rt_current_thread s"
  "rt_interrupt_nest (set_mutex m f s) = rt_interrupt_nest s" "switches (set_mutex m f s) = switches s"
  "rt_scheduler_lock_nest (set_mutex m f s) = rt_scheduler_lock_nest s"
  by (simp_all add: set_mutex_def)

lemma thread_inv_set_mutex [simp]: "thread_inv (set_mutex m f s) = thread_inv s"
  by (rule thread_inv_cong) simp_all

lemma good_set_mutex [simp]: "good (set_mutex m f s) t = good s t"
  by (rule good_cong) simp_all

text \<open>The specification: the owner (\<open>0\<close> when free), how often it has taken the mutex, and the waiters.\<close>

type_synonym mutex_spec = "ptr \<times> nat \<times> ptr list"

definition abs_mutex :: "ptr \<Rightarrow> kstate \<Rightarrow> mutex_spec" where
  "abs_mutex mutex s =
     (mtx_owner (mutexes s mutex), unat (mtx_hold (mutexes s mutex)), tqs s (Susp mutex))"

definition spec_lock :: "(ptr list \<Rightarrow> ptr list) \<Rightarrow> ptr \<Rightarrow> mutex_spec \<Rightarrow> mutex_spec" where
  "spec_lock enq t = (\<lambda>(owner, hold, ws).
     if owner = t then (t, hold + 1, ws)
     else if owner = RT_NULL then (t, 1, ws)
     else (owner, hold, enq ws))"

definition spec_unlock :: "ptr \<Rightarrow> mutex_spec \<Rightarrow> mutex_spec" where
  "spec_unlock t = (\<lambda>(owner, hold, ws).
     if owner \<noteq> t then (owner, hold, ws)
     else if 1 < hold then (owner, hold - 1, ws)
     else case ws of [] \<Rightarrow> (RT_NULL, 0, []) | u # us \<Rightarrow> (u, 1, us))"

section \<open>Lemmas\<close>

lemma can_switchI:
  assumes "thread_inv s" "good s (rt_current_thread s)" "rt_scheduler_lock_nest s = 0"
    "u \<in> set (tqs s (Ready p))" "u \<noteq> rt_current_thread s"
  shows "can_switch s"
proof -
  have "ready_inv (suspended (rt_current_thread s) s)"
    by (rule ready_inv_suspended [OF thread_invD(1) [OF assms(1)] assms(2)])
  moreover have "u \<in> set (tqs (suspended (rt_current_thread s) s) (Ready p))"
    using assms(4,5) by (simp add: q_remove_def)
  ultimately have "bit (ready_group (suspended (rt_current_thread s) s)) p"
    using ready_invD(2) by (metis empty_iff list.set(1))
  then show ?thesis using assms(3) by (auto simp: can_switch_def)
qed

lemma can_switchD:
  assumes "thread_inv s" "good s (rt_current_thread s)" "can_switch s"
  obtains u p where "u \<in> set (tqs s (Ready p))" "u \<noteq> rt_current_thread s"
proof -
  let ?s = "suspended (rt_current_thread s) s"
  have "ready_inv ?s" by (rule ready_inv_suspended [OF thread_invD(1) [OF assms(1)] assms(2)])
  moreover obtain p where "bit (ready_group ?s) p"
    using assms(3) unfolding can_switch_def by (metis bit_eqI bit_0_eq bot_apply bot_bool_def)
  ultimately have "tqs ?s (Ready p) \<noteq> []" using ready_invD(2) by blast
  then obtain u where "u \<in> set (tqs ?s (Ready p))" by (cases "tqs ?s (Ready p)") auto
  then show ?thesis using that [of u p] by (simp add: q_remove_def)
qed

text \<open>Priority inheritance: the owner gets the better of its own and the caller's priority.\<close>

definition inherit :: "ptr \<Rightarrow> kstate \<Rightarrow> kstate option" where
  "inherit owner s =
     (if th_current_priority (threads s (rt_current_thread s)) < th_current_priority (threads s owner)
      then do {
        (_, s) \<leftarrow> rt_thread_control owner 2 (th_current_priority (threads s (rt_current_thread s))) s;
        Some s
      }
      else Some s)"

lemma inherit_total:
  assumes inv: "thread_inv s" "timer_inv s" "runnable s" "can_switch s"
    and o: "good s owner" "owner \<noteq> rt_current_thread s"
  obtains s' where "inherit owner s = Some s'" "thread_inv s'" "timer_inv s'" "runnable s'" "can_switch s'"
    "rt_current_thread s' = rt_current_thread s" "mutexes s' = mutexes s" "objects s' = objects s"
    "\<And>l. wait_list l \<Longrightarrow> tqs s' l = tqs s l"
    "\<And>t. t \<noteq> owner \<Longrightarrow> threads s' t = threads s t"
    "prio_of s' owner = min (prio_of s owner) (prio_of s (rt_current_thread s))" "good s' owner"
proof (cases "th_current_priority (threads s (rt_current_thread s)) < th_current_priority (threads s owner)")
  case False
  then show ?thesis
    using that [of s] assms by (simp add: inherit_def prio_of_def word_less_nat_alt)
next
  case True
  let ?c = "rt_current_thread s"
  let ?p = "th_current_priority (threads s ?c)"
  have c: "good s ?c" "unat ?p < 32" using inv(3) by (auto simp: runnable_def good_def prio_ok_def)
  from rt_thread_control_priority [OF inv(1) o(1) c(2)]
  obtain s' where s': "rt_thread_control owner 2 ?p s = Some (RT_EOK, s')" "thread_inv s'"
    "threads s' = (threads s)(owner := with_prio ?p (threads s owner))"
    "\<And>q. (\<And>n. q \<noteq> Ready n) \<Longrightarrow> q \<noteq> Defunct \<Longrightarrow> tqs s' q = tqs s q"
    "\<And>u n. u \<in> set (tqs s (Ready n)) \<Longrightarrow> \<exists>m. u \<in> set (tqs s' (Ready m))"
    "timer_list s' = timer_list s" "timers s' = timers s" "objects s' = objects s"
    "rt_current_thread s' = ?c" "mutexes s' = mutexes s" "rt_tick s' = rt_tick s"
    "rt_scheduler_lock_nest s' = rt_scheduler_lock_nest s" "rt_interrupt_nest s' = rt_interrupt_nest s"
    by blast
  have "timer_inv s'" using inv(2) by (subst timer_inv_cong [where s = s]) (simp_all add: s')
  moreover have g: "good s' ?c" "good s' owner"
    using c(1,2) o by (auto simp: good_def s' periodic_def prio_ok_def stack_ok_def)
  then have "runnable s'"
    using inv(3) o(2) by (auto simp: runnable_def in_thread_context_def s')
  moreover have "can_switch s'"
  proof -
    obtain u p where u: "u \<in> set (tqs s (Ready p))" "u \<noteq> ?c" by (rule can_switchD [OF inv(1) c(1) inv(4)])
    then obtain m where "u \<in> set (tqs s' (Ready m))" using s'(5) by blast
    then show ?thesis
      using can_switchI [OF s'(2)] g(1) u(2) inv(4) s'(9,12) by (auto simp: can_switch_def)
  qed
  moreover have "prio_of s' owner = min (prio_of s owner) (prio_of s ?c)"
    using True by (simp add: prio_of_def s' word_less_nat_alt)
  ultimately show ?thesis
    using that [of s'] True s' g(2) wait_listD by (simp add: inherit_def)
qed

lemma rt_mutex_take_contended:
  assumes "mutex \<noteq> RT_NULL" "time \<noteq> 0" "mtx_owner (mutexes s mutex) \<noteq> rt_current_thread s"
    "mtx_value (mutexes s mutex) = 0" "in_thread_context s"
  shows "rt_mutex_take w mutex time s =
    (let c = rt_current_thread s in do {
       s \<leftarrow> inherit (mtx_owner (mutexes s mutex)) (set_thread c (\<lambda>t. t\<lparr>th_error := RT_EOK\<rparr>) s);
       s \<leftarrow> ipc_wait (Susp mutex) c (ob_flag (objects s (At mutex))) time s;
       s \<leftarrow> schedule_switch w s;
       Some (th_error (threads s c), s)
     })"
proof -
  have e: "(if e \<noteq> RT_EOK then Some (e, s') else Some (RT_EOK, s')) = Some (e, s')" for e and s' :: kstate
    by simp
  show ?thesis
    using assms unfolding rt_mutex_take_def Let_def rt_thread_self_def e
    by (simp add: inherit_def cong: bind_option_cong)
qed

text \<open>Giving the processor away on a contended mutex: the state at the switch.\<close>

lemma rt_mutex_take_waits:
  assumes inv: "thread_inv s" "timer_inv s" "runnable s" "can_switch s" "mutex_inv mutex s"
    and m: "mutex \<noteq> RT_NULL" "fifo_or_prio mutex s" "time \<noteq> 0" "time_ok time"
    and o: "mtx_owner (mutexes s mutex) \<noteq> RT_NULL" "mtx_owner (mutexes s mutex) \<noteq> rt_current_thread s"
  obtains s0 where "thread_inv s0" "mutexes s0 = mutexes s"
    "rt_current_thread s0 \<noteq> rt_current_thread s" "mutex_inv mutex s0"
    "tqs s0 (Susp mutex) = enqueue (ob_flag (objects s (At mutex))) (threads s) (rt_current_thread s) (tqs s (Susp mutex))"
    "th_error (threads s0 (rt_current_thread s)) = RT_EOK"
    "prio_of s0 (mtx_owner (mutexes s mutex)) =
       min (prio_of s (mtx_owner (mutexes s mutex))) (prio_of s (rt_current_thread s))"
    "\<And>w. rt_mutex_take w mutex time s = Some (th_error (threads (w s0) (rt_current_thread s)), w s0)"
proof -
  let ?c = "rt_current_thread s" and ?o = "mtx_owner (mutexes s mutex)"
  let ?s = "set_thread ?c (\<lambda>t. t\<lparr>th_error := RT_EOK\<rparr>) s"
  have ow: "good s ?o" "mtx_value (mutexes s mutex) = 0" "?o \<notin> set (tqs s (Susp mutex))"
    using inv(5) o(1) by (simp_all add: mutex_inv_iff)
  have pre: "thread_inv ?s" "timer_inv ?s" "runnable ?s" "can_switch ?s" "good ?s ?o" "?o \<noteq> rt_current_thread ?s"
    using inv ow(1) o(2) by simp_all
  obtain s1 where s1: "inherit ?o ?s = Some s1" "thread_inv s1" "timer_inv s1" "runnable s1" "can_switch s1"
    "rt_current_thread s1 = ?c" "mutexes s1 = mutexes s" "objects s1 = objects s"
    "\<And>l. wait_list l \<Longrightarrow> tqs s1 l = tqs s l" "\<And>t. t \<noteq> ?o \<Longrightarrow> threads s1 t = threads ?s t"
    "prio_of s1 ?o = min (prio_of ?s ?o) (prio_of ?s ?c)" "good s1 ?o"
    by (rule inherit_total [OF pre]) simp
  have e0: "set_thread ?c (\<lambda>t. t\<lparr>th_error := RT_EOK\<rparr>) s1 = s1"
    using s1(10) [of ?c] o(2) by (simp add: set_thread_def fun_upd_idem)
  obtain s0 where s0: "rt_schedule (ipc_blocked (Susp mutex) mutex time s1) = Some s0" "thread_inv s0"
    "rt_current_thread s0 \<noteq> rt_current_thread s1" "tqs s0 = tqs (ipc_blocked (Susp mutex) mutex time s1)"
    "threads s0 = threads (ipc_blocked (Susp mutex) mutex time s1)"
    "\<And>w. schedule_switch w (ipc_blocked (Susp mutex) mutex time s1) = Some (w s0)"
    by (rule blocked_switch [OF s1(2-4) wait_list_simps(1) m(4) s1(5)]) blast
  have w: "rt_mutex_take w mutex time s = Some (th_error (threads (w s0) ?c), w s0)" for w
    using rt_mutex_take_contended [OF m(1,3) o(2) ow(2), of w] inv(3) s0(6) [of w] s1(1,6,8) e0
      ipc_wait_blocked [OF s1(4) _ m(4), of mutex "Susp mutex"] m(2)
    by (simp add: runnable_def fifo_or_prio_def)
  have "tqs s0 (Susp mutex) = enqueue (ob_flag (objects s (At mutex))) (threads s1) ?c (tqs s (Susp mutex))"
    using tqs_ipc_blocked(1) [OF s1(2,4) wait_list_simps(1)] by (simp add: s0(4) s1(6,8,9))
  also have "\<dots> = enqueue (ob_flag (objects s (At mutex))) (threads s) ?c (tqs s (Susp mutex))"
  proof -
    have "th_current_priority (threads s1 u) = th_current_priority (threads s u)"
      if "u \<in> insert ?c (set (tqs s (Susp mutex)))" for u
      using that ow(3) o(2) s1(10) [of u] by (cases "u = ?o") auto
    then show ?thesis unfolding enqueue_def by (metis prio_insert_cong)
  qed
  finally have q: "tqs s0 (Susp mutex) = \<dots>" .
  have mx: "mutexes s0 = mutexes s" using rt_schedule_fields [OF s0(1)] s1(7) by simp
  have th: "threads s0 = (threads s1)(?c := (threads s1 ?c)\<lparr>th_error := RT_EOK, th_stat := RT_THREAD_SUSPEND\<rparr>)"
    by (simp add: s0(5) ipc_blocked_thread s1(6))
  have "good s0 ?o"
    using s1(12) by (simp add: good_schedule [OF s0(1)])
  then have "mutex_inv mutex s0"
    using inv(5) o ow(3) by (auto simp: mutex_inv_iff mx q)
  moreover have "prio_of s0 ?o = min (prio_of s ?o) (prio_of s ?c)"
    using s1(11) o(2) by (simp add: th prio_of_def)
  ultimately show ?thesis using that [OF s0(2) mx _ _ q] s0(3) s1(6) w th by auto
qed

text \<open>The release that gives the mutex up: first the priority goes back, then the hand-over.\<close>

definition restore :: "ptr \<Rightarrow> u8 \<Rightarrow> kstate \<Rightarrow> kstate option" where
  "restore owner p s =
     (if p \<noteq> th_current_priority (threads s owner)
      then do { (_, s) \<leftarrow> rt_thread_control owner 2 p s; Some s }
      else Some s)"

lemma restore_total:
  assumes inv: "thread_inv s" and o: "good s owner" "unat p < 32"
  obtains s' where "restore owner p s = Some s'" "thread_inv s'" "mutexes s' = mutexes s"
    "\<And>l. wait_list l \<Longrightarrow> tqs s' l = tqs s l" "\<And>t. t \<noteq> owner \<Longrightarrow> threads s' t = threads s t"
    "prio_of s' owner = unat p" "\<And>t. th_error (threads s' t) = th_error (threads s t)"
proof (cases "p = th_current_priority (threads s owner)")
  case True
  then show ?thesis using that [of s] inv by (simp add: restore_def prio_of_def)
next
  case False
  from rt_thread_control_priority [OF inv o(1,2)]
  obtain s' where s': "rt_thread_control owner 2 p s = Some (RT_EOK, s')" "thread_inv s'"
    "threads s' = (threads s)(owner := with_prio p (threads s owner))"
    "\<And>q. (\<And>n. q \<noteq> Ready n) \<Longrightarrow> q \<noteq> Defunct \<Longrightarrow> tqs s' q = tqs s q"
    "\<And>u n. u \<in> set (tqs s (Ready n)) \<Longrightarrow> \<exists>m. u \<in> set (tqs s' (Ready m))"
    "timer_list s' = timer_list s" "timers s' = timers s" "objects s' = objects s"
    "rt_current_thread s' = rt_current_thread s" "mutexes s' = mutexes s" "rt_tick s' = rt_tick s"
    "rt_scheduler_lock_nest s' = rt_scheduler_lock_nest s" "rt_interrupt_nest s' = rt_interrupt_nest s"
    by blast
  then show ?thesis
    using that [of s'] False wait_listD by (simp add: restore_def prio_of_def)
qed

lemma rt_mutex_release_last_eq:
  assumes "in_thread_context s" "mtx_owner (mutexes s mutex) = rt_current_thread s"
    "mtx_hold (mutexes s mutex) = 1"
  shows "rt_mutex_release mutex s = do {
    s \<leftarrow> restore (rt_current_thread s) (mtx_original_priority (mutexes s mutex))
      (set_mutex mutex (\<lambda>m. m\<lparr>mtx_hold := mtx_hold m - 1\<rparr>) s);
    case tqs s (Susp mutex) of
      t # _ \<Rightarrow> do {
        (_, s) \<leftarrow> rt_ipc_list_resume (Susp mutex) (set_mutex mutex (\<lambda>m. m\<lparr>mtx_owner := t,
          mtx_original_priority := th_current_priority (threads s t), mtx_hold := mtx_hold m + 1\<rparr>) s);
        s \<leftarrow> rt_schedule s;
        Some (RT_EOK, s)
      }
    | [] \<Rightarrow> Some (RT_EOK, set_mutex mutex (\<lambda>m. m\<lparr>mtx_value := mtx_value m + 1, mtx_owner := RT_NULL,
        mtx_original_priority := 0xff\<rparr>) s)
   }"
  using assms unfolding rt_mutex_release_def Let_def rt_thread_self_def restore_def
  by (simp cong: bind_option_cong list.case_cong)

lemma rt_mutex_release_last:
  assumes inv: "thread_inv s" "mutex_inv mutex s" "in_thread_context s"
    and o: "mtx_owner (mutexes s mutex) = rt_current_thread s" "mtx_hold (mutexes s mutex) = 1"
  obtains s' where "rt_mutex_release mutex s = Some (RT_EOK, s')" "thread_inv s'" "mutex_inv mutex s'"
    "abs_mutex mutex s' = spec_unlock (rt_current_thread s) (abs_mutex mutex s)"
    "prio_of s' (rt_current_thread s) = unat (mtx_original_priority (mutexes s mutex))"
    "\<And>t ts. tqs s (Susp mutex) = t # ts \<Longrightarrow> th_stat (threads s' t) = RT_THREAD_READY \<and>
       th_error (threads s' t) = th_error (threads s t)"
proof -
  let ?c = "rt_current_thread s" and ?p = "mtx_original_priority (mutexes s mutex)"
  let ?s = "set_mutex mutex (\<lambda>m. m\<lparr>mtx_hold := mtx_hold m - 1\<rparr>) s"
  have ow: "good s ?c" "unat ?p < 32" "?c \<noteq> RT_NULL" "?c \<notin> set (tqs s (Susp mutex))" "mtx_value (mutexes s mutex) = 0"
    using inv(2,3) o(1) by (auto simp: mutex_inv_iff in_thread_context_def Let_def)
  obtain s1 where s1: "restore ?c ?p ?s = Some s1" "thread_inv s1" "mutexes s1 = mutexes ?s"
    "\<And>l. wait_list l \<Longrightarrow> tqs s1 l = tqs ?s l" "\<And>t. t \<noteq> ?c \<Longrightarrow> threads s1 t = threads ?s t"
    "prio_of s1 ?c = unat ?p" "\<And>t. th_error (threads s1 t) = th_error (threads ?s t)"
    by (rule restore_total [of ?s ?c ?p]) (use inv(1) ow in simp_all)
  show ?thesis
  proof (cases "tqs s (Susp mutex)")
    case Nil
    let ?s' = "set_mutex mutex (\<lambda>m. m\<lparr>mtx_value := mtx_value m + 1, mtx_owner := RT_NULL,
      mtx_original_priority := 0xff\<rparr>) s1"
    have "rt_mutex_release mutex s = Some (RT_EOK, ?s')"
      unfolding rt_mutex_release_last_eq [OF inv(3) o] using s1(1) Nil s1(4) [of "Susp mutex"] by simp
    then show ?thesis
      using that [of ?s'] Nil s1 o ow
      by (simp add: mutex_inv_iff abs_mutex_def spec_unlock_def prio_of_def)
  next
    case (Cons t ts)
    let ?s2 = "set_mutex mutex (\<lambda>m. m\<lparr>mtx_owner := t,
      mtx_original_priority := th_current_priority (threads s1 t), mtx_hold := mtx_hold m + 1\<rparr>) s1"
    have q: "tqs ?s2 (Susp mutex) = t # ts" using Cons s1(4) by simp
    have inv2: "thread_inv ?s2" using s1(2) by simp
    note r = rt_ipc_list_resume_eq [OF inv2 wait_list_simps(1) q]
    obtain s' where s': "rt_schedule (resumed t ?s2) = Some s'" "thread_inv s'"
      using rt_schedule_total [OF r(4,5)] by blast
    have f: "threads s' = threads (resumed t ?s2)" "mutexes s' = mutexes ?s2" "tqs s' = tqs (resumed t ?s2)"
      using rt_schedule_fields [OF s'(1)] by simp_all
    have g: "good s' t" using r(2) by (simp add: good_schedule [OF s'(1)])
    then have pt: "unat (th_current_priority (threads s1 t)) < 32"
      by (simp add: good_def prio_ok_def f)
    have "t \<notin> set ts"
      using wf_queuesD(1) [OF ready_invD(1) [OF thread_invD(1) [OF inv(1)]], of "Susp mutex"] Cons by simp
    then have "mutex_inv mutex s'"
      using g pt ow(5) r(6) by (simp add: mutex_inv_iff f s1(3) o(2)) (simp add: good_def)
    moreover have "rt_mutex_release mutex s = Some (RT_EOK, s')"
      unfolding rt_mutex_release_last_eq [OF inv(3) o] using s1(1) q s'(1) r(1) by simp
    moreover have "abs_mutex mutex s' = spec_unlock ?c (abs_mutex mutex s)"
      using Cons o r(6) by (simp add: abs_mutex_def spec_unlock_def f s1(3))
    moreover have "t \<noteq> ?c" using ow(4) Cons by auto
    then have "prio_of s' ?c = unat ?p" using s1(6) by (simp add: prio_of_def f)
    ultimately show ?thesis using that [OF _ s'(2)] Cons s1(7) by (simp add: f)
  qed
qed

lemma rt_mutex_take_no_wait:
  assumes "in_thread_context s" "mutex \<noteq> RT_NULL" "mtx_owner (mutexes s mutex) \<noteq> rt_current_thread s"
    "mtx_value (mutexes s mutex) = 0"
  shows "rt_mutex_take w mutex 0 s =
    Some (- RT_ETIMEOUT, set_thread (rt_current_thread s) (\<lambda>t. t\<lparr>th_error := - RT_ETIMEOUT\<rparr>) s)"
  using assms by (simp add: rt_mutex_take_def rt_thread_self_def Let_def set_thread_def)

section \<open>Properties\<close>

text \<open>
  C11. \<open>rt_mutex_take\<close> refines the lock specification, for every waiting time: the owner takes again and only counts, a free mutex
  goes to the caller at once, which then holds it once with its present priority remembered; a
  caller that finds another owner and gives the time 0 gets \<open>-RT_ETIMEOUT\<close>, also as its error code, and nothing else changes: it is not
  queued and the owner keeps its priority; with any other time it
  is queued, the owner inherits the better of the two priorities, another
  thread runs, and the call returns the error code found when the caller runs again.  The mutex
  invariant and the thread invariant hold afterwards.  The one exception is the owner that holds the mutex 255 times: its take
  succeeds, wraps the 8-bit count to 0 and breaks the invariant.  The caller is a ready thread outside interrupts; the queueing
  case supposes as well that another thread is ready and the scheduler not locked, that the object's flag is one of the two the kernel
  knows, and that a positive waiting time is below half the tick range.
\<close>

theorem rt_mutex_take_refines_lock:
  assumes "thread_inv s" "runnable s" "mutex_inv mutex s" "mutex \<noteq> RT_NULL"
    and "mtx_owner (mutexes s mutex) \<notin> {RT_NULL, rt_current_thread s} \<and> time \<noteq> 0 \<longrightarrow>
      timer_inv s \<and> can_switch s \<and> fifo_or_prio mutex s \<and> time_ok time"
  shows "\<exists>s0. thread_inv s0 \<and>
    (let c = rt_current_thread s; owner = mtx_owner (mutexes s mutex) in
     if owner = c \<and> mtx_hold (mutexes s mutex) = 255
     then (\<forall>w. rt_mutex_take w mutex time s = Some (RT_EOK, s0)) \<and> mtx_hold (mutexes s0 mutex) = 0 \<and> \<not> mutex_inv mutex s0
     else mutex_inv mutex s0 \<and>
       abs_mutex mutex s0 = spec_lock (if time = 0 then id
         else enqueue (ob_flag (objects s (At mutex))) (threads s) c) c (abs_mutex mutex s) \<and>
       (if owner = c \<or> owner = RT_NULL
        then (\<forall>w. rt_mutex_take w mutex time s = Some (RT_EOK, s0)) \<and>
          (owner = RT_NULL \<longrightarrow> unat (mtx_original_priority (mutexes s0 mutex)) = prio_of s c)
        else if time = 0
        then (\<forall>w. rt_mutex_take w mutex time s = Some (- RT_ETIMEOUT, s0)) \<and>
          s0 = set_thread c (\<lambda>t. t\<lparr>th_error := - RT_ETIMEOUT\<rparr>) s
        else rt_current_thread s0 \<noteq> c \<and> th_error (threads s0 c) = RT_EOK \<and>
          prio_of s0 owner = min (prio_of s owner) (prio_of s c) \<and>
          (\<forall>w. rt_mutex_take w mutex time s = Some (th_error (threads (w s0) c), w s0))))"
proof -
  let ?c = "rt_current_thread s" and ?o = "mtx_owner (mutexes s mutex)" and ?h = "mtx_hold (mutexes s mutex)"
  let ?s = "set_thread ?c (\<lambda>t. t\<lparr>th_error := RT_EOK\<rparr>) s"
  have c: "in_thread_context s" "good s ?c" "?c \<noteq> RT_NULL" "unat (th_current_priority (threads s ?c)) < 32"
    using assms(2) by (auto simp: runnable_def in_thread_context_def good_def prio_ok_def)
  consider "?o = ?c" "?h = 255" | "?o = ?c" "?h \<noteq> 255" | "?o = RT_NULL" | "?o \<noteq> RT_NULL" "?o \<noteq> ?c" "time = 0"
    | "?o \<noteq> RT_NULL" "?o \<noteq> ?c" "time \<noteq> 0" by blast
  then show ?thesis
  proof cases
    case 1
    then show ?thesis
      using c assms(1,4)
      by (intro exI [of _ "set_mutex mutex (\<lambda>m. m\<lparr>mtx_hold := mtx_hold m + 1\<rparr>) ?s"])
        (simp add: rt_mutex_take_def rt_thread_self_def mutex_inv_iff)
  next
    case 2
    let ?s0 = "set_mutex mutex (\<lambda>m. m\<lparr>mtx_hold := mtx_hold m + 1\<rparr>) ?s"
    have "rt_mutex_take w mutex time s = Some (RT_EOK, ?s0)" for w
      using 2 c assms(4) by (simp add: rt_mutex_take_def rt_thread_self_def)
    moreover have "unat ?h < 256" "unat ?h \<noteq> 255"
      using 2(2) unat_u8_less [of ?h] by (auto simp: word_unat_eq_iff)
    then have h: "unat (?h + 1) = unat ?h + 1" by (intro unat_inc) simp
    moreover from h have "?h + 1 \<noteq> 0" by (metis add_is_0 one_neq_zero unat_0)
    ultimately show ?thesis
      using 2 c assms(1,3)
      by (intro exI [of _ ?s0]) (simp add: mutex_inv_iff abs_mutex_def spec_lock_def Let_def)
  next
    case 3
    let ?s0 = "set_mutex mutex (\<lambda>m. m\<lparr>mtx_value := mtx_value m - 1, mtx_owner := ?c,
       mtx_original_priority := th_current_priority (threads s ?c), mtx_hold := mtx_hold m + 1\<rparr>) ?s"
    have "mtx_value (mutexes s mutex) = 1" "?h = 0" "tqs s (Susp mutex) = []"
      using 3 assms(3) by (simp_all add: mutex_inv_iff)
    moreover from this have "rt_mutex_take w mutex time s = Some (RT_EOK, ?s0)" for w
      using 3 c assms(4) by (simp add: rt_mutex_take_def rt_thread_self_def Let_def)
    ultimately show ?thesis
      using 3 c assms(1)
      by (intro exI [of _ ?s0]) (simp add: mutex_inv_iff abs_mutex_def spec_lock_def prio_of_def)
  next
    case 4
    then show ?thesis
      using c assms(1,3,4) rt_mutex_take_no_wait [of s mutex] by (intro exI [of _ "set_thread ?c (\<lambda>t. t\<lparr>th_error := - RT_ETIMEOUT\<rparr>) s"])
        (simp add: mutex_inv_iff abs_mutex_def spec_lock_def Let_def)
  next
    case 5
    then have h: "timer_inv s" "can_switch s" "fifo_or_prio mutex s" "time_ok time" using assms(5) by simp_all
    from rt_mutex_take_waits [OF assms(1) h(1) assms(2) h(2) assms(3,4) h(3) 5(3) h(4) 5(1,2)]
    obtain s0 where s0: "thread_inv s0" "mutexes s0 = mutexes s" "rt_current_thread s0 \<noteq> ?c" "mutex_inv mutex s0"
      "tqs s0 (Susp mutex) = enqueue (ob_flag (objects s (At mutex))) (threads s) ?c (tqs s (Susp mutex))"
      "th_error (threads s0 ?c) = RT_EOK" "prio_of s0 ?o = min (prio_of s ?o) (prio_of s ?c)"
      "\<And>w. rt_mutex_take w mutex time s = Some (th_error (threads (w s0) ?c), w s0)" by metis
    then show ?thesis using 5 by (intro exI [of _ s0]) (simp add: abs_mutex_def spec_lock_def Let_def)
  qed
qed

lemma timer_inv_set_mutex [simp]: "timer_inv (set_mutex m f s) = timer_inv s"
  by (rule timer_inv_cong) simp_all

lemma runnable_set_mutex [simp]: "runnable (set_mutex m f s) = runnable s"
  by (simp add: runnable_def in_thread_context_def)

lemma can_switch_set_mutex [simp]: "can_switch (set_mutex m f s) = can_switch s"
  by (simp add: can_switch_def suspended_def)

lemma fifo_set_mutex [simp]: "fifo_or_prio p (set_mutex m f s) = fifo_or_prio p s"
  by (simp add: fifo_or_prio_def)

text \<open>A mutex at \<open>0x600\<close> held by a thread of the example.\<close>

definition held_mutex :: "ptr \<Rightarrow> kstate" where
  "held_mutex t = set_mutex 0x600 (\<lambda>_. \<lparr>mtx_value = 0,
     mtx_original_priority = th_current_priority (threads two_started t), mtx_hold = 1, mtx_owner = t\<rparr>) two_started"

lemma mutex_inv_held: "mutex_inv 0x600 (held_mutex 0x100)" "mutex_inv 0x600 (held_mutex 0x200)"
  using good_two_started by (simp_all add: mutex_inv_iff held_mutex_def)

theorem rt_mutex_take_refines_lock_witness:
  "\<exists>s0. abs_mutex 0x600 s0 = (0x200, 1, [0x100]) \<and> prio_of s0 0x200 = 3 \<and>
     rt_mutex_take (\<lambda>_. s0) 0x600 (- 1) (held_mutex 0x200) = Some (RT_EOK, s0)"
proof -
  have "thread_inv (held_mutex 0x200)" "timer_inv (held_mutex 0x200)" "runnable (held_mutex 0x200)"
    "can_switch (held_mutex 0x200)" "fifo_or_prio 0x600 (held_mutex 0x200)" "time_ok (- 1)"
    using thread_inv_two_started timer_inv_two_started runnable_two_started can_switch_two_started
      fifo_two_started by (simp_all add: held_mutex_def time_ok_def)
  then show ?thesis
    using rt_mutex_take_refines_lock [of "held_mutex 0x200" "0x600" "- 1", OF _ _ mutex_inv_held(2)]
    by (auto simp: held_mutex_def abs_mutex_def spec_lock_def enqueue_def zero_object_def prio_of_def)
qed

text \<open>
  C12. \<open>rt_mutex_release\<close> refines the lock specification: a thread that is not the owner gets \<open>-RT_ERROR\<close>
  and the mutex does not change; the owner gives up one level, and with the last one it gets the
  priority back it had when it took the mutex, and the mutex goes to the first waiter, which is made
  ready with its error code untouched and holds it once, or becomes free.  The invariants hold
  afterwards.
\<close>

theorem rt_mutex_release_refines_lock:
  assumes "thread_inv s" "mutex_inv mutex s" "in_thread_context s"
  shows "\<exists>e s'. rt_mutex_release mutex s = Some (e, s') \<and> thread_inv s' \<and> mutex_inv mutex s' \<and>
    abs_mutex mutex s' = spec_unlock (rt_current_thread s) (abs_mutex mutex s) \<and>
    (e = (if mtx_owner (mutexes s mutex) = rt_current_thread s then RT_EOK else - RT_ERROR)) \<and>
    (mtx_owner (mutexes s mutex) = rt_current_thread s \<and> mtx_hold (mutexes s mutex) = 1 \<longrightarrow>
       prio_of s' (rt_current_thread s) = unat (mtx_original_priority (mutexes s mutex)) \<and>
       (\<forall>t ts. tqs s (Susp mutex) = t # ts \<longrightarrow> th_stat (threads s' t) = RT_THREAD_READY \<and>
          th_error (threads s' t) = th_error (threads s t)))"
proof -
  let ?c = "rt_current_thread s" and ?m = "mutexes s mutex"
  have c0: "?c \<noteq> RT_NULL" using assms(3) by (simp add: in_thread_context_def)
  consider "mtx_owner ?m \<noteq> ?c" | "mtx_owner ?m = ?c" "mtx_hold ?m = 1" | "mtx_owner ?m = ?c" "mtx_hold ?m \<noteq> 1"
    by blast
  then show ?thesis
  proof cases
    case 1
    then show ?thesis
      using assms by (auto simp: rt_mutex_release_def rt_thread_self_def abs_mutex_def spec_unlock_def mutex_inv_iff)
  next
    case 2
    obtain s' where "rt_mutex_release mutex s = Some (RT_EOK, s')" "thread_inv s'" "mutex_inv mutex s'"
      "abs_mutex mutex s' = spec_unlock ?c (abs_mutex mutex s)"
      "prio_of s' ?c = unat (mtx_original_priority ?m)"
      "\<And>t ts. tqs s (Susp mutex) = t # ts \<Longrightarrow> th_stat (threads s' t) = RT_THREAD_READY \<and>
         th_error (threads s' t) = th_error (threads s t)"
      by (rule rt_mutex_release_last [OF assms 2]) blast
    then show ?thesis using 2 by auto
  next
    case 3
    have h: "mtx_hold ?m \<noteq> 0" using 3 c0 assms(2) by (simp add: mutex_inv_iff)
    moreover have "unat (mtx_hold ?m) \<noteq> 0" "unat (mtx_hold ?m) \<noteq> 1" using h 3(2) by (simp_all add: word_unat_eq_iff)
    ultimately have "unat (mtx_hold ?m - 1) = unat (mtx_hold ?m) - 1" "mtx_hold ?m - 1 \<noteq> 0" "1 < unat (mtx_hold ?m)"
      using 3(2) by (simp_all add: unat_minus_one)
    then show ?thesis
      using 3 c0 assms by (simp add: rt_mutex_release_def rt_thread_self_def abs_mutex_def spec_unlock_def
          mutex_inv_iff)
  qed
qed

theorem rt_mutex_release_refines_lock_witness:
  "\<exists>s'. rt_mutex_release 0x600 (held_mutex 0x100) = Some (RT_EOK, s') \<and> abs_mutex 0x600 s' = (0, 0, [])"
proof -
  have "thread_inv (held_mutex 0x100)" "in_thread_context (held_mutex 0x100)"
    using thread_inv_two_started by (simp_all add: held_mutex_def in_thread_context_def)
  from rt_mutex_release_refines_lock [OF this(1) mutex_inv_held(1) this(2)]
  show ?thesis by (auto simp: held_mutex_def abs_mutex_def spec_unlock_def)
qed

text \<open>
  The 8-bit hold count wraps: the 256th nested take by the owner succeeds and leaves the count 0,
  so the release that matches it does not free the mutex, and the invariant is lost.
\<close>

lemma rt_mutex_take_hold_wraps_at_255:
  assumes "in_thread_context s" "mutex \<noteq> RT_NULL" "mtx_owner (mutexes s mutex) = rt_current_thread s"
    "mtx_hold (mutexes s mutex) = 255"
  shows "\<exists>s' s''. rt_mutex_take w mutex time s = Some (RT_EOK, s') \<and> mtx_hold (mutexes s' mutex) = 0 \<and>
    \<not> mutex_inv mutex s' \<and> rt_mutex_release mutex s' = Some (RT_EOK, s'') \<and> mtx_hold (mutexes s'' mutex) = 255"
  using assms by (simp add: rt_mutex_take_def rt_mutex_release_def rt_thread_self_def in_thread_context_def
      mutex_inv_iff)

end
