(* ===== verification/Event.thy ===== *)
theory Event
  imports Mutex
begin

text \<open>
  The event groups of \<open>src/src/ipc.c\<close> (\<open>rt_event_*\<close>).  A thread waits for all (\<open>AND\<close>) or any (\<open>OR\<close>)
  bits of a set, and may clear what it received (\<open>CLEAR\<close>).  \<open>rt_event_send\<close> walks the waiting list
  and hands the bits out one waiter after the other; \<open>deliver\<close> is its specification.  \<open>event_inv\<close>: no
  waiting thread's condition is met by the bits that are set.
\<close>

section \<open>The code\<close>

definition set_event :: "ptr \<Rightarrow> (u32 \<Rightarrow> u32) \<Rightarrow> kstate \<Rightarrow> kstate" where
  "set_event e f s = s\<lparr>events := (events s)(e := \<lparr>evt_set = f (evt_set (events s e))\<rparr>)\<rparr>"

definition rt_event_init :: "ptr \<Rightarrow> u8 list \<Rightarrow> u8 \<Rightarrow> kstate \<Rightarrow> (rt_err_t \<times> kstate) option" where
  "rt_event_init event name flag s = do {
     RT_ASSERT (event \<noteq> RT_NULL);
     s \<leftarrow> rt_object_init (At event) RT_Object_Class_Event name s;
     let s = set_object (At event) (\<lambda>r. r\<lparr>ob_flag := flag\<rparr>) s;
     let (_, s) = rt_ipc_object_init event s;
     Some (RT_EOK, set_event event (\<lambda>_. 0) s)
   }"

definition rt_event_detach :: "ptr \<Rightarrow> kstate \<Rightarrow> (rt_err_t \<times> kstate) option" where
  "rt_event_detach event s = do {
     RT_ASSERT (event \<noteq> RT_NULL);
     s \<leftarrow> rt_ipc_list_resume_all (Susp event) s;
     s \<leftarrow> rt_object_detach (At event) s;
     Some (RT_EOK, s)
   }"

text \<open>
  The walk of \<open>rt_event_send\<close> over the waiting list: \<open>n = n->next\<close> is taken before the thread at \<open>n\<close> is
  resumed, and resuming unlinks that thread only, so the walk visits the list as it was at the start.
  The boolean is \<open>need_schedule\<close>.
\<close>

fun event_send_loop :: "ptr \<Rightarrow> ptr list \<Rightarrow> kstate \<Rightarrow> (bool \<times> kstate) option" where
  "event_send_loop event [] s = Some (False, s)"
| "event_send_loop event (thread # ns) s = do {
     let info = th_event_info (threads s thread);
     let want = th_event_set (threads s thread);
     let have = evt_set (events s event);
     let (status, s) =
       (if info AND RT_EVENT_FLAG_AND \<noteq> 0
        then (if want AND have = want then RT_EOK else - RT_ERROR, s)
        else if info AND RT_EVENT_FLAG_OR \<noteq> 0
        then if want AND have \<noteq> 0
             then (RT_EOK, set_thread thread (\<lambda>t. t\<lparr>th_event_set := want AND have\<rparr>) s)
             else (- RT_ERROR, s)
        else (- RT_ERROR, s));
     if status = RT_EOK
     then do {
       let s = (if th_event_info (threads s thread) AND RT_EVENT_FLAG_CLEAR \<noteq> 0
         then set_event event (\<lambda>set. set AND NOT (th_event_set (threads s thread))) s else s);
       (_, s) \<leftarrow> rt_thread_resume thread s;
       (_, s) \<leftarrow> event_send_loop event ns s;
       Some (True, s)
     }
     else event_send_loop event ns s
   }"

definition rt_event_send :: "ptr \<Rightarrow> u32 \<Rightarrow> kstate \<Rightarrow> (rt_err_t \<times> kstate) option" where
  "rt_event_send event eset s = do {
     RT_ASSERT (event \<noteq> RT_NULL);
     if eset = 0 then Some (- RT_ERROR, s)
     else do {
       let s = set_event event (\<lambda>old. old OR eset) s;
       (need_schedule, s) \<leftarrow> (if tqs s (Susp event) \<noteq> []
         then event_send_loop event (tqs s (Susp event)) s else Some (False, s));
       s \<leftarrow> (if need_schedule then rt_schedule s else Some s);
       Some (RT_EOK, s)
     }
   }"

text \<open>The test at the start of \<open>rt_event_recv\<close>; \<open>RT_ASSERT(0)\<close> without an \<open>AND\<close> or \<open>OR\<close> option.\<close>

definition event_status :: "u8 \<Rightarrow> u32 \<Rightarrow> u32 \<Rightarrow> rt_err_t option" where
  "event_status option eset have =
     (if option AND RT_EVENT_FLAG_AND \<noteq> 0
      then Some (if have AND eset = eset then RT_EOK else - RT_ERROR)
      else if option AND RT_EVENT_FLAG_OR \<noteq> 0
      then Some (if have AND eset \<noteq> 0 then RT_EOK else - RT_ERROR)
      else None)"

text \<open>The second component is what is written to \<open>*recved\<close>, if anything.\<close>

definition rt_event_recv ::
  "world \<Rightarrow> ptr \<Rightarrow> u32 \<Rightarrow> u8 \<Rightarrow> rt_int32_t \<Rightarrow> kstate \<Rightarrow> (rt_err_t \<times> u32 option \<times> kstate) option" where
  "rt_event_recv w event eset option timeout s = do {
     RT_DEBUG_IN_THREAD_CONTEXT s;
     RT_ASSERT (event \<noteq> RT_NULL);
     if eset = 0 then Some (- RT_ERROR, None, s)
     else do {
       let thread = rt_thread_self s;
       let s = set_thread thread (\<lambda>t. t\<lparr>th_error := RT_EOK\<rparr>) s;
       let have = evt_set (events s event);
       status \<leftarrow> event_status option eset have;
       if status = RT_EOK
       then do {
         let s' = (if option AND RT_EVENT_FLAG_CLEAR \<noteq> 0 then set_event event (\<lambda>e. e AND NOT eset) s else s);
         Some (th_error (threads s' thread), Some (have AND eset), s')
       }
       else if timeout = 0
       then Some (- RT_ETIMEOUT, None, set_thread thread (\<lambda>t. t\<lparr>th_error := - RT_ETIMEOUT\<rparr>) s)
       else do {
         let s = set_thread thread (\<lambda>t. t\<lparr>th_event_set := eset, th_event_info := option\<rparr>) s;
         s \<leftarrow> ipc_wait (Susp event) thread (ob_flag (objects s (At event))) timeout s;
         s \<leftarrow> schedule_switch w s;
         if th_error (threads s thread) \<noteq> RT_EOK
         then Some (th_error (threads s thread), None, s)
         else Some (th_error (threads s thread), Some (th_event_set (threads s thread)), s)
       }
     }
   }"

definition rt_event_control :: "ptr \<Rightarrow> u8 \<Rightarrow> u32 \<Rightarrow> kstate \<Rightarrow> (rt_err_t \<times> kstate) option" where
  "rt_event_control event cmd arg s = do {
     RT_ASSERT (event \<noteq> RT_NULL);
     if cmd = RT_IPC_CMD_RESET
     then do {
       s \<leftarrow> rt_ipc_list_resume_all (Susp event) s;
       s \<leftarrow> rt_schedule (set_event event (\<lambda>_. 0) s);
       Some (RT_EOK, s)
     }
     else Some (- RT_ERROR, s)
   }"

section \<open>The specification\<close>

text \<open>A waiter: the thread, the bits it wants and its options.\<close>

type_synonym event_spec = "u32 \<times> (ptr \<times> u32 \<times> u8) list"

definition event_match :: "u8 \<Rightarrow> u32 \<Rightarrow> u32 \<Rightarrow> bool" where
  "event_match info want have \<longleftrightarrow>
     (if info AND RT_EVENT_FLAG_AND \<noteq> 0 then want AND have = want
      else info AND RT_EVENT_FLAG_OR \<noteq> 0 \<and> want AND have \<noteq> 0)"

definition received :: "u32 \<Rightarrow> u32 \<Rightarrow> u32" where
  "received want have = want AND have"

definition remaining :: "u8 \<Rightarrow> u32 \<Rightarrow> u32 \<Rightarrow> u32" where
  "remaining info want have = (if info AND RT_EVENT_FLAG_CLEAR \<noteq> 0 then have AND NOT want else have)"

text \<open>Serving the waiters in order: the bits left, who is served and with which bits, who still waits.\<close>

fun deliver :: "u32 \<Rightarrow> (ptr \<times> u32 \<times> u8) list \<Rightarrow> u32 \<times> (ptr \<times> u32) list \<times> (ptr \<times> u32 \<times> u8) list" where
  "deliver have [] = (have, [], [])"
| "deliver have ((t, want, info) # ws) =
     (if event_match info want have
      then let (left, served, rest) = deliver (remaining info want have) ws
           in (left, (t, received want have) # served, rest)
      else let (left, served, rest) = deliver have ws
           in (left, served, (t, want, info) # rest))"

definition waiter :: "kstate \<Rightarrow> ptr \<Rightarrow> ptr \<times> u32 \<times> u8" where
  "waiter s t = (t, th_event_set (threads s t), th_event_info (threads s t))"

definition abs_event :: "ptr \<Rightarrow> kstate \<Rightarrow> event_spec" where
  "abs_event event s = (evt_set (events s event), map (waiter s) (tqs s (Susp event)))"

definition event_inv :: "ptr \<Rightarrow> kstate \<Rightarrow> bool" where
  "event_inv event s \<longleftrightarrow> (\<forall>(t, want, info) \<in> set (snd (abs_event event s)).
     \<not> event_match info want (fst (abs_event event s)))"

section \<open>Lemmas\<close>

lemma events_set_event [simp]:
  "events (set_event e f s) = (events s)(e := \<lparr>evt_set = f (evt_set (events s e))\<rparr>)"
  by (simp add: set_event_def)

lemma set_event_fields [simp]:
  "threads (set_event m f s) = threads s" "tqs (set_event m f s) = tqs s"
  "objects (set_event m f s) = objects s" "timers (set_event m f s) = timers s"
  "timer_list (set_event m f s) = timer_list s" "containers (set_event m f s) = containers s"
  "ready_group (set_event m f s) = ready_group s" "rt_tick (set_event m f s) = rt_tick s"
  "rt_current_thread (set_event m f s) = rt_current_thread s"
  "rt_interrupt_nest (set_event m f s) = rt_interrupt_nest s" "switches (set_event m f s) = switches s"
  "rt_scheduler_lock_nest (set_event m f s) = rt_scheduler_lock_nest s"
  by (simp_all add: set_event_def)

lemma thread_inv_set_event [simp]: "thread_inv (set_event m f s) = thread_inv s"
  by (rule thread_inv_cong) simp_all

lemma good_set_event [simp]: "good (set_event m f s) t = good s t"
  by (rule good_cong) simp_all

lemma set_event_same: "f (evt_set (events s e)) = evt_set (events s e) \<Longrightarrow> set_event e f s = s"
  by (cases "events s e") (simp add: set_event_def fun_upd_idem)

lemma set_event_cong: "f (evt_set (events s e)) = g (evt_set (events s e)) \<Longrightarrow> set_event e f s = set_event e g s"
  by (simp add: set_event_def)

lemma thread_inv_set_wanted [simp]:
  "thread_inv (set_thread t (\<lambda>th. th\<lparr>th_event_set := v\<rparr>) s) = thread_inv s"
  "thread_inv (set_thread t (\<lambda>th. th\<lparr>th_event_set := v, th_event_info := i\<rparr>) s) = thread_inv s"
  by (rule thread_inv_set_thread; simp add: prio_ok_def stack_ok_def)+

lemma good_set_wanted [simp]:
  "good (set_thread u (\<lambda>th. th\<lparr>th_event_set := v\<rparr>) s) t = good s t"
  "good (set_thread u (\<lambda>th. th\<lparr>th_event_set := v, th_event_info := i\<rparr>) s) t = good s t"
  by (auto simp: good_def prio_ok_def stack_ok_def periodic_def)

lemma match_received: "event_match info want have \<Longrightarrow> info AND RT_EVENT_FLAG_AND \<noteq> 0 \<Longrightarrow> received want have = want"
  by (simp add: event_match_def received_def)

lemma and_not_and: "(have :: u32) AND NOT (want AND have) = have AND NOT want"
  by (rule bit_eqI) (auto simp: bit_simps)

text \<open>One round of the walk that serves its thread.\<close>

definition served :: "ptr \<Rightarrow> ptr \<Rightarrow> kstate \<Rightarrow> kstate" where
  "served event t s =
     (let (_, want, info) = waiter s t; have = evt_set (events s event) in
      resumed t (set_event event (\<lambda>_. remaining info want have)
        (set_thread t (\<lambda>th. th\<lparr>th_event_set := received want have\<rparr>) s)))"

lemma event_send_step:
  assumes inv: "thread_inv s" and t: "t \<in> set (tqs s (Susp event))"
  shows "event_send_loop event (t # ns) s =
    (if event_match (th_event_info (threads s t)) (th_event_set (threads s t)) (evt_set (events s event))
     then Option.bind (event_send_loop event ns (served event t s)) (\<lambda>(_, s). Some (True, s))
     else event_send_loop event ns s)"
proof -
  let ?i = "th_event_info (threads s t)" and ?w = "th_event_set (threads s t)" and ?h = "evt_set (events s event)"
  have g: "good s t" "th_stat (threads s t) = RT_THREAD_SUSPEND"
    using thread_invD(2,3) [OF inv t] by auto
  have r: "rt_thread_resume t (set_event event f (set_thread t (\<lambda>th. th\<lparr>th_event_set := v\<rparr>) s)) =
      Some (RT_EOK, resumed t (set_event event f (set_thread t (\<lambda>th. th\<lparr>th_event_set := v\<rparr>) s)))" for f v
    using g by (intro rt_thread_resume_eq) auto
  let ?s1 = "set_thread t (\<lambda>th. th\<lparr>th_event_set := received ?w ?h\<rparr>) s"
  have clear: "(if ?i AND RT_EVENT_FLAG_CLEAR \<noteq> 0
      then set_event event (\<lambda>set. set AND NOT (received ?w ?h)) ?s1 else ?s1) =
      set_event event (\<lambda>_. remaining ?i ?w ?h) ?s1"
  proof (cases "?i AND RT_EVENT_FLAG_CLEAR \<noteq> 0")
    case True
    then show ?thesis unfolding remaining_def received_def
      by (simp only: if_True not_False_eq_True) (rule set_event_cong, simp only: events_set_event set_thread_fields and_not_and)
  qed (simp add: remaining_def set_event_same)
  show ?thesis
  proof (cases "event_match ?i ?w ?h")
    case False
    then show ?thesis by (auto simp: event_match_def Let_def)
  next
    case True
    have id: "?s1 = s" if "?i AND RT_EVENT_FLAG_AND \<noteq> 0"
      using match_received [OF True that] by (simp add: set_thread_def fun_upd_idem)
    have "event_send_loop event (t # ns) s =
        Option.bind (rt_thread_resume t (if ?i AND RT_EVENT_FLAG_CLEAR \<noteq> 0
          then set_event event (\<lambda>set. set AND NOT (received ?w ?h)) ?s1 else ?s1))
          (\<lambda>(_, s). Option.bind (event_send_loop event ns s) (\<lambda>(_, s). Some (True, s)))"
    proof (cases "?i AND RT_EVENT_FLAG_AND \<noteq> 0")
      case a: True
      then show ?thesis using True match_received [OF True a]
        unfolding id [OF a] by (simp add: event_match_def Let_def)
    next
      case False
      then show ?thesis using True by (simp add: event_match_def received_def Let_def)
    qed
    then show ?thesis using True r by (simp add: clear served_def waiter_def Let_def)
  qed
qed

lemma deliver_waiter:
  "deliver have (waiter s t # ws) =
     (if event_match (th_event_info (threads s t)) (th_event_set (threads s t)) have
      then let (left, served, rest) = deliver (remaining (th_event_info (threads s t)) (th_event_set (threads s t)) have) ws
           in (left, (t, received (th_event_set (threads s t)) have) # served, rest)
      else let (left, served, rest) = deliver have ws in (left, served, waiter s t # rest))"
  by (simp add: waiter_def)

lemma deliver_served_in: "(t, got) \<in> set (fst (snd (deliver h ws))) \<Longrightarrow> t \<in> fst ` set ws"
  by (induction h ws rule: deliver.induct) (auto split: prod.splits if_splits)

lemma served_fields:
  assumes "thread_inv s" "t \<in> set (tqs s (Susp event))"
  shows "thread_inv (served event t s)" "ready_group (served event t s) \<noteq> 0"
    "evt_set (events (served event t s) event) =
       remaining (th_event_info (threads s t)) (th_event_set (threads s t)) (evt_set (events s event))"
    "threads (served event t s) = (threads s)(t := (threads s t)
       \<lparr>th_event_set := received (th_event_set (threads s t)) (evt_set (events s event)), th_stat := RT_THREAD_READY\<rparr>)"
    "\<And>l. wait_list l \<Longrightarrow> tqs (served event t s) l = removeAll t (tqs s l)"
proof -
  have g: "good s t" "th_stat (threads s t) = RT_THREAD_SUSPEND"
    using thread_invD(2,3) [OF assms] by auto
  let ?s = "set_event event (\<lambda>_. remaining (th_event_info (threads s t)) (th_event_set (threads s t)) (evt_set (events s event)))
        (set_thread t (\<lambda>th. th\<lparr>th_event_set := received (th_event_set (threads s t)) (evt_set (events s event))\<rparr>) s)"
  have s: "served event t s = resumed t ?s" by (simp add: served_def waiter_def Let_def)
  show "thread_inv (served event t s)" "ready_group (served event t s) \<noteq> 0"
    unfolding s using assms(1) g thread_inv_resumed [of ?s t] by simp_all
  show "evt_set (events (served event t s) event) =
       remaining (th_event_info (threads s t)) (th_event_set (threads s t)) (evt_set (events s event))"
    by (simp add: s)
  show "threads (served event t s) = (threads s)(t := (threads s t)
       \<lparr>th_event_set := received (th_event_set (threads s t)) (evt_set (events s event)), th_stat := RT_THREAD_READY\<rparr>)"
    by (simp add: s)
  show "tqs (served event t s) l = removeAll t (tqs s l)" if "wait_list l" for l
    using wait_listD(2) [OF that] by (simp add: s tqs_resumed)
qed

text \<open>The whole walk: it ends, and its effect is \<open>deliver\<close>.\<close>

lemma event_send_loop_deliver:
  assumes "thread_inv s" "distinct ns" "set ns \<subseteq> set (tqs s (Susp event))"
    "deliver (evt_set (events s event)) (map (waiter s) ns) = (left, wk, rest)"
  shows "\<exists>s'. event_send_loop event ns s = Some (wk \<noteq> [], s') \<and> thread_inv s' \<and>
    evt_set (events s' event) = left \<and>
    tqs s' (Susp event) = filter (\<lambda>t. t \<notin> fst ` set wk) (tqs s (Susp event)) \<and>
    (\<forall>t. threads s' t = (case map_of wk t of None \<Rightarrow> threads s t
       | Some got \<Rightarrow> (threads s t)\<lparr>th_event_set := got, th_stat := RT_THREAD_READY\<rparr>)) \<and>
    (wk \<noteq> [] \<or> ready_group s \<noteq> 0 \<longrightarrow> ready_group s' \<noteq> 0)"
  using assms
proof (induction ns arbitrary: s left wk rest)
  case Nil
  then show ?case by auto
next
  case (Cons t ns)
  let ?i = "th_event_info (threads s t)" and ?w = "th_event_set (threads s t)" and ?h = "evt_set (events s event)"
  have t: "t \<in> set (tqs s (Susp event))" using Cons.prems(3) by simp
  show ?case
  proof (cases "event_match ?i ?w ?h")
    case False
    then obtain rest' where d: "deliver ?h (map (waiter s) ns) = (left, wk, rest')"
      using Cons.prems(4) by (auto simp: deliver_waiter split: prod.splits)
    have "distinct ns" "set ns \<subseteq> set (tqs s (Susp event))" using Cons.prems by auto
    from Cons.IH [OF Cons.prems(1) this d] show ?thesis
      using False event_send_step [OF Cons.prems(1) t, of ns] by auto
  next
    case True
    let ?s = "served event t s"
    note f = served_fields [OF Cons.prems(1) t]
    have ns: "t \<notin> set ns" "distinct ns" using Cons.prems(2) by auto
    have m: "map (waiter ?s) ns = map (waiter s) ns" using ns(1) by (auto simp: waiter_def f)
    obtain wk' where d: "deliver (evt_set (events ?s event)) (map (waiter ?s) ns) = (left, wk', rest)"
      and w: "wk = (t, received ?w ?h) # wk'"
      using Cons.prems(4) True unfolding m f(3) by (auto simp: deliver_waiter split: prod.splits)
    have sub: "set ns \<subseteq> set (tqs ?s (Susp event))" using Cons.prems(3) ns(1) by (auto simp: f)
    from Cons.IH [OF f(1) ns(2) sub d] obtain s' where
      s': "event_send_loop event ns ?s = Some (wk' \<noteq> [], s')" "thread_inv s'" "evt_set (events s' event) = left"
      "tqs s' (Susp event) = filter (\<lambda>u. u \<notin> fst ` set wk') (tqs ?s (Susp event))"
      "\<forall>u. threads s' u = (case map_of wk' u of None \<Rightarrow> threads ?s u
        | Some got \<Rightarrow> (threads ?s u)\<lparr>th_event_set := got, th_stat := RT_THREAD_READY\<rparr>)"
      "wk' \<noteq> [] \<or> ready_group ?s \<noteq> 0 \<longrightarrow> ready_group s' \<noteq> 0" by blast
    have "t \<notin> fst ` set wk'"
    proof
      assume "t \<in> fst ` set wk'"
      then obtain got where "(t, got) \<in> set wk'" by auto
      then have "t \<in> fst ` set (map (waiter ?s) ns)"
        using deliver_served_in [of t got "evt_set (events ?s event)" "map (waiter ?s) ns"] d by simp
      then show False using ns(1) by (auto simp: waiter_def)
    qed
    then have "map_of wk' t = None" by (simp add: map_of_eq_None_iff)
    then have "threads s' u = (case map_of wk u of None \<Rightarrow> threads s u
        | Some got \<Rightarrow> (threads s u)\<lparr>th_event_set := got, th_stat := RT_THREAD_READY\<rparr>)" for u
      by (auto simp: w s'(5) f(4) split: option.splits)
    moreover have "tqs s' (Susp event) = filter (\<lambda>u. u \<notin> fst ` set wk) (tqs s (Susp event))"
      by (auto simp: w s'(4) f(5) removeAll_filter_not_eq intro: filter_cong)
    ultimately show ?thesis
      using True event_send_step [OF Cons.prems(1) t, of ns] s'(1,2,3,6) f(2) w by simp
  qed
qed

text \<open>Bits only go away while waiters are served, so nobody left waiting is satisfied at the end.\<close>

lemma remaining_sub: "bit (remaining info want have) n \<Longrightarrow> bit have n"
  by (auto simp: remaining_def bit_simps split: if_splits)

lemma event_match_mono:
  assumes "event_match info want few" "\<And>n. bit few n \<Longrightarrow> bit many n"
  shows "event_match info want many"
proof -
  have "want AND many = want" if "want AND few = want"
    using that assms(2) by (auto simp: bit_eq_iff bit_simps) 
  moreover have "want AND many \<noteq> 0" if "want AND few \<noteq> 0"
    using that assms(2) by (auto simp: bit_eq_iff bit_simps)
  ultimately show ?thesis using assms(1) by (auto simp: event_match_def split: if_splits)
qed

lemma deliver_left_sub: "bit (fst (deliver h ws)) n \<Longrightarrow> bit h n"
  by (induction h ws rule: deliver.induct) (auto split: prod.splits if_splits dest: remaining_sub)

lemma deliver_rest_unmatched:
  "(t, want, info) \<in> set (snd (snd (deliver h ws))) \<Longrightarrow> \<not> event_match info want (fst (deliver h ws))"
proof (induction h ws rule: deliver.induct)
  case (2 h u w i ws)
  show ?case
  proof (cases "event_match i w h")
    case False
    then show ?thesis
      using 2 event_match_mono [of i w "fst (deliver h ws)" h] deliver_left_sub [of h ws]
      by (auto split: prod.splits)
  qed (use 2 in \<open>auto split: prod.splits\<close>)
qed simp

lemma deliver_rest_filter:
  "distinct (map fst ws) \<Longrightarrow> snd (snd (deliver h ws)) = filter (\<lambda>w. fst w \<notin> fst ` set (fst (snd (deliver h ws)))) ws"
proof (induction h ws rule: deliver.induct)
  case (2 h u w i ws)
  have no: "u \<notin> fst ` set (fst (snd (deliver g ws)))" for g
    using deliver_served_in [of u _ g ws] 2(3) by fastforce
  have keep: "filter (\<lambda>x. fst x \<noteq> u \<and> P x) ws = filter P ws" for P
    using 2(3) by (intro filter_cong) force+
  show ?case using 2 no [of h] no [of "remaining i w h"] keep by (auto split: prod.splits simp: image_iff)
qed simp

lemma deliver_served_distinct: "distinct (map fst ws) \<Longrightarrow> distinct (map fst (fst (snd (deliver h ws))))"
proof (induction h ws rule: deliver.induct)
  case (2 h u w i ws)
  have "u \<notin> fst ` set (fst (snd (deliver g ws)))" for g
    using deliver_served_in [of u _ g ws] 2(3) by fastforce
  from this [of "remaining i w h"] show ?case using 2 by (auto split: prod.splits)
qed simp

lemma set_event_inv [simp]:
  "timer_inv (set_event m f s) = timer_inv s" "runnable (set_event m f s) = runnable s"
  "can_switch (set_event m f s) = can_switch s" "fifo_or_prio p (set_event m f s) = fifo_or_prio p s"
  by (rule timer_inv_cong) (simp_all add: runnable_def in_thread_context_def can_switch_def suspended_def fifo_or_prio_def)

section \<open>Properties\<close>

text \<open>
  C13. \<open>rt_event_send\<close> adds the bits and serves the waiters one after the other in list order: exactly
  those whose condition is met by the bits left when their turn comes become ready, with the bits they
  got in \<open>event_set\<close> and their error code untouched, the others stay in order; \<open>CLEAR\<close> takes bits away
  from the waiters behind.  Afterwards no waiting thread is satisfied by the bits that are set, and
  the thread invariant holds.  An empty set is refused.
\<close>

theorem rt_event_send_delivers:
  assumes "thread_inv s" "event \<noteq> RT_NULL"
  shows "rt_event_send event 0 s = Some (- RT_ERROR, s) \<and>
    (eset \<noteq> 0 \<longrightarrow>
      (case deliver (evt_set (events s event) OR eset) (map (waiter s) (tqs s (Susp event))) of (left, wk, rest) \<Rightarrow>
       \<exists>s'. rt_event_send event eset s = Some (RT_EOK, s') \<and> thread_inv s' \<and>
         abs_event event s' = (left, rest) \<and> event_inv event s' \<and>
         (\<forall>(t, got) \<in> set wk. th_stat (threads s' t) = RT_THREAD_READY \<and>
            th_event_set (threads s' t) = got \<and> th_error (threads s' t) = th_error (threads s t))))"
proof -
  let ?s = "set_event event (\<lambda>old. old OR eset) s" and ?ws = "map (waiter s) (tqs s (Susp event))"
  obtain left wk rest where d: "deliver (evt_set (events s event) OR eset) ?ws = (left, wk, rest)"
    by (metis prod.exhaust)
  have wf: "distinct (tqs s (Susp event))"
    using wf_queuesD(1) [OF ready_invD(1) [OF thread_invD(1) [OF assms(1)]]] .
  then have dm: "distinct (map fst ?ws)" by (simp add: waiter_def comp_def)
  have w: "map (waiter ?s) ts = map (waiter s) ts" for ts by (simp add: waiter_def)
  have inv: "thread_inv ?s" using assms(1) by simp
  from event_send_loop_deliver [OF inv wf, of event left wk rest]
  obtain s1 where s1: "event_send_loop event (tqs s (Susp event)) ?s = Some (wk \<noteq> [], s1)" "thread_inv s1"
    "evt_set (events s1 event) = left"
    "tqs s1 (Susp event) = filter (\<lambda>t. t \<notin> fst ` set wk) (tqs s (Susp event))"
    "\<And>t. threads s1 t = (case map_of wk t of None \<Rightarrow> threads s t
       | Some got \<Rightarrow> (threads s t)\<lparr>th_event_set := got, th_stat := RT_THREAD_READY\<rparr>)"
    "wk \<noteq> [] \<longrightarrow> ready_group s1 \<noteq> 0"
    using d by (auto simp: w cong: option.case_cong)
  obtain s' where s': "(if wk \<noteq> [] then rt_schedule s1 else Some s1) = Some s'" "thread_inv s'"
    "threads s' = threads s1" "tqs s' = tqs s1" "events s' = events s1"
    using schedule_if [OF s1(2), of "wk \<noteq> []"] s1(6) by blast
  have keep: "waiter s' t = waiter s t" if "t \<notin> fst ` set wk" for t
    using that by (simp add: waiter_def s' s1(5) map_of_eq_None_iff [symmetric])
  have "rest = filter (\<lambda>x. fst x \<notin> fst ` set wk) ?ws" using deliver_rest_filter [OF dm] d by (metis fst_conv snd_conv)
  also have "\<dots> = map (waiter s) (tqs s' (Susp event))"
    by (simp add: s' s1(4) filter_map comp_def waiter_def)
  also have "\<dots> = map (waiter s') (tqs s' (Susp event))" using keep by (auto simp: s'(4) s1(4))
  finally have a: "abs_event event s' = (left, rest)" by (simp add: abs_event_def s' s1(3))
  have "event_inv event s'"
    using deliver_rest_unmatched [of _ _ _ "evt_set (events s event) OR eset" ?ws] d
    by (auto simp: event_inv_def a)
  moreover have "th_stat (threads s' t) = RT_THREAD_READY \<and> th_event_set (threads s' t) = got \<and>
      th_error (threads s' t) = th_error (threads s t)" if "(t, got) \<in> set wk" for t got
  proof -
    have "distinct (map fst wk)" using deliver_served_distinct [OF dm] d by (metis fst_conv snd_conv)
    then show ?thesis using that by (simp add: s' s1(5))
  qed
  moreover have "rt_event_send event eset s = Some (RT_EOK, s')" if "eset \<noteq> 0"
  proof -
    have "rt_event_send event eset s = Option.bind (event_send_loop event (tqs s (Susp event)) ?s)
        (\<lambda>(n, s). Option.bind (if n then rt_schedule s else Some s) (\<lambda>s. Some (RT_EOK, s)))"
      using that assms(2) by (cases "tqs s (Susp event)") (simp_all add: rt_event_send_def Let_def)
    then show ?thesis using s1(1) s'(1) by simp
  qed
  ultimately show ?thesis using assms(2) s'(2) a by (auto simp: d rt_event_send_def)
qed

text \<open>In the example thread \<open>0x100\<close> waits for bits 1 and 2 of the event at \<open>0x700\<close>, bit 1 is there.\<close>

definition event_waiting :: kstate where
  "event_waiting = set_event 0x700 (\<lambda>_. 2) (parked (Susp 0x700) RT_IPC_FLAG_FIFO 0x100
     (set_thread 0x100 (\<lambda>t. t\<lparr>th_event_set := 6, th_event_info := 5\<rparr>) two_started))"

lemma event_waiting_ok: "thread_inv event_waiting"
  using thread_inv_two_started good_two_started(1) by (simp add: event_waiting_def thread_inv_parked)

theorem rt_event_send_delivers_witness:
  "\<exists>s'. rt_event_send 0x700 4 event_waiting = Some (RT_EOK, s') \<and> abs_event 0x700 s' = (0, []) \<and>
     th_stat (threads s' 0x100) = RT_THREAD_READY"
proof -
  have q: "tqs event_waiting (Susp 0x700) = [0x100]"
    by (simp add: event_waiting_def tqs_parked enqueue_def)
  have w: "waiter event_waiting 0x100 = (0x100, 6, 5)" "evt_set (events event_waiting 0x700) OR 4 = 6"
    by (simp_all add: event_waiting_def waiter_def)
  have "deliver 6 [(0x100, 6, 5)] = (0, [(0x100, 6)], [])"
    by (simp add: event_match_def remaining_def received_def)
  with rt_event_send_delivers [OF event_waiting_ok, of "0x700" 4] q w show ?thesis by auto
qed

text \<open>The caller of \<open>rt_event_recv\<close>, with what it waits for noted.\<close>

definition wanting :: "u32 \<Rightarrow> u8 \<Rightarrow> kstate \<Rightarrow> kstate" where
  "wanting eset opt s = set_thread (rt_current_thread s)
     (\<lambda>t. t\<lparr>th_error := RT_EOK, th_event_set := eset, th_event_info := opt\<rparr>) s"

lemma wanting_eq:
  "set_thread (rt_current_thread s) (\<lambda>t. t\<lparr>th_event_set := eset, th_event_info := opt\<rparr>)
     (set_thread (rt_current_thread s) (\<lambda>t. t\<lparr>th_error := RT_EOK\<rparr>) s) = wanting eset opt s"
  "set_thread (rt_current_thread s) (\<lambda>t. t\<lparr>th_error := RT_EOK\<rparr>) (wanting eset opt s) = wanting eset opt s"
  by (cases "threads s (rt_current_thread s)"; simp add: wanting_def set_thread_def)+

lemma wanting_fields [simp]:
  "rt_current_thread (wanting eset opt s) = rt_current_thread s" "objects (wanting eset opt s) = objects s"
  "tqs (wanting eset opt s) = tqs s" "events (wanting eset opt s) = events s"
  "fifo_or_prio p (wanting eset opt s) = fifo_or_prio p s" "timer_inv (wanting eset opt s) = timer_inv s"
  by (simp_all add: wanting_def fifo_or_prio_def)

lemma wanting_inv [simp]:
  "thread_inv (wanting eset opt s) = thread_inv s" "runnable (wanting eset opt s) = runnable s"
  "can_switch (wanting eset opt s) = can_switch s"
proof -
  show "thread_inv (wanting eset opt s) = thread_inv s"
    unfolding wanting_def by (rule thread_inv_set_thread) (simp_all add: prio_ok_def stack_ok_def)
  show "runnable (wanting eset opt s) = runnable s"
    by (auto simp: wanting_def runnable_def in_thread_context_def good_def prio_ok_def stack_ok_def periodic_def)
  show "can_switch (wanting eset opt s) = can_switch s"
    by (auto simp: wanting_def can_switch_def suspended_def)
qed

lemma event_status_eq:
  "event_status opt eset have =
     (if opt AND RT_EVENT_FLAG_AND \<noteq> 0 \<or> opt AND RT_EVENT_FLAG_OR \<noteq> 0
      then Some (if event_match opt eset have then RT_EOK else - RT_ERROR) else None)"
  by (simp add: event_status_def event_match_def and.commute)

lemma rt_event_recv_blocks:
  assumes "event \<noteq> RT_NULL" "eset \<noteq> 0" "timeout \<noteq> 0" "runnable s" "fifo_or_prio event s" "time_ok timeout"
    "opt AND RT_EVENT_FLAG_AND \<noteq> 0 \<or> opt AND RT_EVENT_FLAG_OR \<noteq> 0"
    "\<not> event_match opt eset (evt_set (events s event))"
  shows "rt_event_recv w event eset opt timeout s =
    Option.bind (schedule_switch w (ipc_blocked (Susp event) event timeout (wanting eset opt s)))
      (\<lambda>s'. let th = threads s' (rt_current_thread s) in
        Some (th_error th, if th_error th = RT_EOK then Some (th_event_set th) else None, s'))"
proof -
  let ?s = "wanting eset opt s" and ?h = "evt_set (events s event)"
  have c: "in_thread_context s" using assms(4) by (simp add: runnable_def)
  have w: "ipc_wait (Susp event) (rt_current_thread s) (ob_flag (objects s (At event))) timeout ?s =
      Some (ipc_blocked (Susp event) event timeout ?s)"
    using ipc_wait_blocked [of ?s event timeout "Susp event"] assms(4,5,6) by (simp add: wanting_eq(2))
  have st: "event_status opt eset ?h = Some (- RT_ERROR)"
    using assms(7,8) by (simp add: event_status_eq)
  have e: "(if e \<noteq> RT_EOK then Some (e, None, s') else Some (e, v, s')) =
      Some (e, if e = RT_EOK then v else None, s')" for e and s' :: kstate and v :: "u32 option" by simp
  show ?thesis
    using assms(1,2,3) c w st
    by (simp add: rt_event_recv_def rt_thread_self_def Let_def wanting_eq(1) e cong: bind_option_cong)
qed

text \<open>
  C14. \<open>rt_event_recv\<close>: a satisfied condition returns at once with the bits of the set that are there and
  clears them if asked to, without touching the waiting list; otherwise a zero timeout returns
  \<open>-RT_ETIMEOUT\<close> and any other queues the caller with its condition, keeps the invariant that no waiter
  is satisfied, switches to another thread, and returns the error code found at the end, with the bits
  that \<open>rt_event_send\<close> left in \<open>event_set\<close> when there is no error.
\<close>

theorem rt_event_recv_correct:
  assumes "thread_inv s" "timer_inv s" "runnable s" "can_switch s" "event_inv event s" "event \<noteq> RT_NULL"
    "fifo_or_prio event s" "time_ok timeout" "eset \<noteq> 0"
    "opt AND RT_EVENT_FLAG_AND \<noteq> 0 \<or> opt AND RT_EVENT_FLAG_OR \<noteq> 0"
  shows "\<exists>s0. thread_inv s0 \<and> event_inv event s0 \<and>
    (let c = rt_current_thread s; have = evt_set (events s event) in
     if event_match opt eset have
     then (\<forall>w. rt_event_recv w event eset opt timeout s = Some (RT_EOK, Some (received eset have), s0)) \<and>
       abs_event event s0 = (remaining opt eset have, snd (abs_event event s))
     else if timeout = 0
     then (\<forall>w. rt_event_recv w event eset opt timeout s = Some (- RT_ETIMEOUT, None, s0)) \<and>
       abs_event event s0 = abs_event event s
     else abs_event event s0 = (have, map (\<lambda>t. if t = c then (c, eset, opt) else waiter s t)
         (enqueue (ob_flag (objects s (At event))) (threads s) c (tqs s (Susp event)))) \<and>
       rt_current_thread s0 \<noteq> c \<and> th_error (threads s0 c) = RT_EOK \<and>
       (\<forall>w. rt_event_recv w event eset opt timeout s =
          (let th = threads (w s0) c in
           Some (th_error th, if th_error th = RT_EOK then Some (th_event_set th) else None, w s0))))"
proof -
  let ?c = "rt_current_thread s" and ?h = "evt_set (events s event)"
  let ?s = "set_thread ?c (\<lambda>t. t\<lparr>th_error := RT_EOK\<rparr>) s"
  have c: "in_thread_context s" using assms(3) by (simp add: runnable_def)
  have wt: "map (waiter (set_thread t (\<lambda>t. t\<lparr>th_error := e\<rparr>) s)) ts = map (waiter s) ts" for t e ts
    by (simp add: waiter_def)
  have ai: "snd (abs_event event s) = map (waiter s) (tqs s (Susp event))" by (simp add: abs_event_def)
  have less: "\<not> event_match i v (remaining opt eset ?h)" if "(t, v, i) \<in> set (snd (abs_event event s))" for t v i
    using that assms(5) event_match_mono [of i v "remaining opt eset ?h" ?h] remaining_sub
    by (auto simp: event_inv_def abs_event_def)
  consider "event_match opt eset ?h" | "\<not> event_match opt eset ?h" "timeout = 0" | "\<not> event_match opt eset ?h" "timeout \<noteq> 0"
    by blast
  then show ?thesis
  proof cases
    case 1
    let ?r = "set_event event (\<lambda>_. remaining opt eset ?h) ?s"
    have cl: "?r = (if opt AND RT_EVENT_FLAG_CLEAR \<noteq> 0 then set_event event (\<lambda>e. e AND NOT eset) ?s else ?s)"
      by (auto simp: remaining_def set_event_same intro: set_event_cong)
    have "rt_event_recv w event eset opt timeout s = Some (RT_EOK, Some (received eset ?h),
        if opt AND RT_EVENT_FLAG_CLEAR \<noteq> 0 then set_event event (\<lambda>e. e AND NOT eset) ?s else ?s)" for w
      using 1 c assms(6,9,10)
      by (simp add: rt_event_recv_def event_status_eq rt_thread_self_def Let_def received_def and.commute [of eset])
    from this [folded cl] have "rt_event_recv w event eset opt timeout s = Some (RT_EOK, Some (received eset ?h), ?r)"
      for w .
    moreover have "abs_event event ?r = (remaining opt eset ?h, snd (abs_event event s))"
      by (simp add: abs_event_def waiter_def)
    moreover from this less have "event_inv event ?r" by (auto simp: event_inv_def)
    ultimately show ?thesis using 1 assms(1) by (intro exI [of _ ?r]) simp
  next
    case 2
    let ?r = "set_thread ?c (\<lambda>t. t\<lparr>th_error := - RT_ETIMEOUT\<rparr>) ?s"
    have "rt_event_recv w event eset opt timeout s = Some (- RT_ETIMEOUT, None, ?r)" for w
      using 2 c assms(6,9,10)
      by (simp add: rt_event_recv_def event_status_eq rt_thread_self_def Let_def)
    moreover have a: "abs_event event ?r = abs_event event s" by (simp add: abs_event_def waiter_def)
    moreover have "event_inv event ?r" using assms(5) unfolding event_inv_def a .
    ultimately show ?thesis using 2 assms(1) by (intro exI [of _ ?r]) simp
  next
    case 3
    let ?w = "wanting eset opt s"
    have pre: "thread_inv ?w" "timer_inv ?w" "runnable ?w" "can_switch ?w" using assms(1-4) by simp_all
    obtain s0 where s0: "rt_schedule (ipc_blocked (Susp event) event timeout ?w) = Some s0" "thread_inv s0"
      "rt_current_thread s0 \<noteq> rt_current_thread ?w" "tqs s0 = tqs (ipc_blocked (Susp event) event timeout ?w)"
      "threads s0 = threads (ipc_blocked (Susp event) event timeout ?w)"
      "\<And>w. schedule_switch w (ipc_blocked (Susp event) event timeout ?w) = Some (w s0)"
      by (rule blocked_switch [OF pre(1-3) wait_list_simps(1) assms(8) pre(4)]) blast
    have q: "tqs s0 (Susp event) = enqueue (ob_flag (objects s (At event))) (threads s) ?c (tqs s (Susp event))"
      using tqs_ipc_blocked(1) [OF pre(1,3) wait_list_simps(1), of event _ timeout]
        enqueue_cong [of ?c "tqs s (Susp event)" "threads ?w" "threads s"]
      by (simp add: s0(4) wanting_def)
    have ev: "events s0 = events s" using rt_schedule_fields(9) [OF s0(1)] by simp
    have wt: "waiter s0 t = (if t = ?c then (?c, eset, opt) else waiter s t)" for t
      by (simp add: waiter_def s0(5) ipc_blocked_thread) (simp add: wanting_def)
    have a: "abs_event event s0 = (?h, map (\<lambda>t. if t = ?c then (?c, eset, opt) else waiter s t)
        (enqueue (ob_flag (objects s (At event))) (threads s) ?c (tqs s (Susp event))))"
      by (simp add: abs_event_def q ev wt)
    have "event_inv event s0"
      using assms(5) 3(1) unfolding event_inv_def a by (auto simp: abs_event_def waiter_def)
    moreover have "rt_event_recv w event eset opt timeout s = (let th = threads (w s0) ?c in
        Some (th_error th, if th_error th = RT_EOK then Some (th_event_set th) else None, w s0))" for w
      using rt_event_recv_blocks [OF assms(6,9) 3(2) assms(3,7,8,10) 3(1), of w] s0(6) [of w] by simp
    moreover have "th_error (threads s0 ?c) = RT_EOK" by (simp add: s0(5) ipc_blocked_thread)
    ultimately show ?thesis using 3 s0(2,3) a by (intro exI [of _ s0]) simp
  qed
qed

theorem rt_event_recv_correct_witness:
  "\<exists>s0. abs_event 0x700 s0 = (2, [(0x100, 6, 5)]) \<and>
     rt_event_recv (\<lambda>_. s0) 0x700 6 5 10 (set_event 0x700 (\<lambda>_. 2) two_started) = Some (RT_EOK, Some 6, s0)"
proof -
  let ?s = "set_event 0x700 (\<lambda>_. 2) two_started"
  have "thread_inv ?s" "timer_inv ?s" "runnable ?s" "can_switch ?s" "fifo_or_prio 0x700 ?s" "time_ok 10"
    using thread_inv_two_started timer_inv_two_started runnable_two_started can_switch_two_started fifo_two_started
    by (simp_all add: time_ok_def)
  moreover have "event_inv 0x700 ?s" by (simp add: event_inv_def abs_event_def)
  moreover have "\<not> event_match 5 6 2" by (simp add: event_match_def)
  ultimately obtain s0 where s0: "abs_event 0x700 s0 = (2, [(0x100, 6, 5)])" "th_error (threads s0 0x100) = RT_EOK"
    "\<forall>w. rt_event_recv w 0x700 6 5 10 ?s = (let th = threads (w s0) 0x100 in
       Some (th_error th, if th_error th = RT_EOK then Some (th_event_set th) else None, w s0))"
    using rt_event_recv_correct [of ?s "0x700" 10 6 5] by (auto simp: enqueue_def zero_object_def)
  then have "th_event_set (threads s0 0x100) = 6" by (auto simp: abs_event_def waiter_def)
  then show ?thesis using s0 by auto
qed

end
