(* ===== verification/Bounded_Fifo.thy ===== *)
theory Bounded_Fifo
  imports RT_Prelude
begin

text \<open>
  The contract the mailboxes, the message queues and the ring buffers of the system share, as a locale:
  a buffer of bounded capacity whose \<open>put\<close> appends a valid element or refuses and whose \<open>get\<close> takes the oldest element or
  refuses.  The client's facts, for any sequence of calls: nothing is lost, duplicated or reordered, and
  the bound is kept.  The theories Mailbox, Message_Queue and Ringbuffer interpret it on the code.
\<close>

datatype 'a fifo_op = Put 'a | Get

text \<open>A sequence of calls, with the elements accepted and the elements handed out.\<close>

fun fifo_run ::
  "('a \<Rightarrow> 's \<Rightarrow> 's option) \<Rightarrow> ('s \<Rightarrow> ('a \<times> 's) option) \<Rightarrow> 'a fifo_op list \<Rightarrow> 's \<Rightarrow> 'a list \<times> 'a list \<times> 's" where
  "fifo_run put get [] s = ([], [], s)"
| "fifo_run put get (Put x # os) s =
     (case put x s of
        None \<Rightarrow> fifo_run put get os s
      | Some s' \<Rightarrow> let (sent, got, s'') = fifo_run put get os s' in (x # sent, got, s''))"
| "fifo_run put get (Get # os) s =
     (case get s of
        None \<Rightarrow> fifo_run put get os s
      | Some (y, s') \<Rightarrow> let (sent, got, s'') = fifo_run put get os s' in (sent, y # got, s''))"

locale bounded_fifo =
  fixes inv :: "'s \<Rightarrow> bool"
    and contents :: "'s \<Rightarrow> 'a list"
    and capacity :: "'s \<Rightarrow> nat"
    and valid :: "'s \<Rightarrow> 'a \<Rightarrow> bool"
    and put :: "'a \<Rightarrow> 's \<Rightarrow> 's option"
    and get :: "'s \<Rightarrow> ('a \<times> 's) option"
  assumes bounded: "inv s \<Longrightarrow> length (contents s) \<le> capacity s"
    and put_refused: "inv s \<Longrightarrow> length (contents s) = capacity s \<or> \<not> valid s x \<Longrightarrow> put x s = None"
    and put_ok: "inv s \<Longrightarrow> length (contents s) < capacity s \<Longrightarrow> valid s x \<Longrightarrow>
      \<exists>s'. put x s = Some s' \<and> inv s' \<and> contents s' = contents s @ [x] \<and> capacity s' = capacity s \<and>
        valid s' = valid s"
    and get_refused: "inv s \<Longrightarrow> contents s = [] \<Longrightarrow> get s = None"
    and get_ok: "inv s \<Longrightarrow> contents s = y # ys \<Longrightarrow>
      \<exists>s'. get s = Some (y, s') \<and> inv s' \<and> contents s' = ys \<and> capacity s' = capacity s"
begin

abbreviation "run \<equiv> fifo_run put get"

lemma put_cases:
  assumes "inv s"
  obtains (Refused) "put x s = None"
  | (Stored) s' where "put x s = Some s'" "inv s'" "contents s' = contents s @ [x]"
      "capacity s' = capacity s" "length (contents s) < capacity s"
  using assms bounded put_refused put_ok by (metis le_neq_implies_less)

lemma get_cases:
  assumes "inv s"
  obtains (Empty) "get s = None" "contents s = []"
  | (Taken) y s' where "get s = Some (y, s')" "inv s'" "contents s = y # contents s'" "capacity s' = capacity s"
  using assms get_refused get_ok by (metis neq_Nil_conv)

lemma conservation:
  "inv s \<Longrightarrow> run os s = (sent, got, s') \<Longrightarrow>
     inv s' \<and> contents s @ sent = got @ contents s' \<and> length (contents s') \<le> capacity s \<and>
     capacity s' = capacity s"
proof (induction os arbitrary: s sent got)
  case Nil
  then show ?case using bounded by auto
next
  case (Cons opn os)
  show ?case
  proof (cases opn)
    case (Put x)
    from Cons(2) show ?thesis
    proof (cases rule: put_cases [where x = x])
      case (Stored s1)
      then obtain sent' where "run os s1 = (sent', got, s')" "sent = x # sent'"
        using Cons(3) Put by (auto split: prod.splits)
      then show ?thesis using Cons(1) [OF Stored(2)] Stored by force
    qed (use Cons Put in auto)
  next
    case Get
    from Cons(2) show ?thesis
    proof (cases rule: get_cases)
      case Empty
      then show ?thesis using Cons(1) [OF Cons(2), of sent got] Cons(3) Get by simp
    next
      case (Taken y s1)
      then obtain got' where "run os s1 = (sent, got', s')" "got = y # got'"
        using Cons(3) Get by (auto split: prod.splits)
      then show ?thesis using Cons(1) [OF Taken(2)] Taken by force
    qed
  qed
qed

lemma fill_and_drain:
  assumes "inv s" "contents s = []" "length xs \<le> capacity s" "\<forall>x \<in> set xs. valid s x"
  shows "\<exists>s'. run (map Put xs @ replicate (length xs) Get) s = (xs, xs, s') \<and> contents s' = []"
proof -
  have puts: "inv s \<Longrightarrow> length (contents s) + length xs \<le> capacity s \<Longrightarrow> \<forall>x \<in> set xs. valid s x \<Longrightarrow>
      \<exists>s'. inv s' \<and> contents s' = contents s @ xs \<and>
        (\<forall>os. run (map Put xs @ os) s = (let (a, b, c) = run os s' in (xs @ a, b, c)))" for s
  proof (induction xs arbitrary: s)
    case Nil
    then show ?case by (intro exI [of _ s]) (auto split: prod.splits)
  next
    case (Cons x xs)
    then obtain s1 where s1: "put x s = Some s1" "inv s1" "contents s1 = contents s @ [x]" "capacity s1 = capacity s"
      "valid s1 = valid s"
      using put_ok [of s x] by auto
    from Cons.IH [OF s1(2)] Cons.prems s1(3,4,5) obtain s2 where
      "inv s2" "contents s2 = contents s1 @ xs"
      "\<forall>os. run (map Put xs @ os) s1 = (let (a, b, c) = run os s2 in (xs @ a, b, c))" by auto
    then show ?case using s1 by (intro exI [of _ s2]) (auto split: prod.splits)
  qed
  have gets: "inv s \<Longrightarrow> contents s = xs \<Longrightarrow>
      \<exists>s'. run (replicate (length xs) Get) s = ([], xs, s') \<and> contents s' = []" for s
  proof (induction xs arbitrary: s)
    case (Cons x xs)
    then obtain s1 where "get s = Some (x, s1)" "inv s1" "contents s1 = xs" using get_ok by blast
    then show ?case using Cons.IH by fastforce
  qed simp
  from puts [OF assms(1)] assms(2,3,4) obtain s1 where
    "inv s1" "contents s1 = xs" "\<forall>os. run (map Put xs @ os) s = (let (a, b, c) = run os s1 in (xs @ a, b, c))"
    by auto
  then show ?thesis using gets [of s1] by auto
qed

end

section \<open>Reading a ring\<close>

text \<open>The \<open>k\<close> elements of an array of size \<open>n\<close> from index \<open>out\<close> on, going round.\<close>

definition ring :: "'a list \<Rightarrow> nat \<Rightarrow> nat \<Rightarrow> nat \<Rightarrow> 'a list" where
  "ring pool n out k = map (\<lambda>i. pool ! ((out + i) mod n)) [0..<k]"

lemma length_ring [simp]: "length (ring pool n out k) = k"
  by (simp add: ring_def)

lemma ring_0 [simp]: "ring pool n out 0 = []"
  by (simp add: ring_def)

lemma ring_index_inj:
  assumes "(out + i) mod n = (out + j) mod n" "i < n" "j < n"
  shows "i = (j :: nat)"
proof -
  have le: "a = b" if "(out + a) mod n = (out + b) mod n" "a < n" "b < n" "a \<le> b" for a b
  proof -
    have "n dvd (out + b) - (out + a)" using that by (metis mod_eq_dvd_iff_nat add_le_cancel_left)
    then show ?thesis using that nat_dvd_not_less [of "b - a" n] by (cases "a < b") auto
  qed
  show ?thesis using le [of i j] le [of j i] assms by linarith
qed

lemma ring_put:
  assumes "k < n" "length pool = n"
  shows "ring (pool[(out + k) mod n := x]) n out (Suc k) = ring pool n out k @ [x]"
proof -
  have "0 < n" using assms(1) by simp
  then have "pool[(out + k) mod n := x] ! ((out + i) mod n) = pool ! ((out + i) mod n)" if "i < k" for i
    using that ring_index_inj [of out k n i] assms by (intro nth_list_update_neq) auto
  then show ?thesis using assms \<open>0 < n\<close> by (auto simp: ring_def)
qed

lemma ring_get:
  assumes "out < n"
  shows "ring pool n out (Suc k) = pool ! out # ring pool n (Suc out mod n) k"
proof -
  have "[0..<Suc k] = 0 # map Suc [0..<k]" by (simp add: map_Suc_upt upt_conv_Cons del: upt_Suc)
  then show ?thesis using assms by (simp add: ring_def comp_def mod_simps del: upt_Suc)
qed

text \<open>\<open>if (++offset >= size) offset = 0\<close> is the step to the next index.\<close>

lemma wrap_offset:
  fixes off size :: "16 word"
  assumes "unat off < unat size"
  shows "unat (if size \<le> off + 1 then 0 else off + 1) = Suc (unat off) mod unat size"
proof -
  have "unat (off + 1) = unat off + 1"
    using assms unat_u16_less [of size] by (intro unat_inc) simp
  then show ?thesis using assms by (auto simp: word_le_nat_alt mod_Suc)
qed

end
