(* ===== verification/Mailbox.thy ===== *)
theory Mailbox
  imports Event Bounded_Fifo
begin

text \<open>
  The mailboxes of \<open>src/src/ipc.c\<close> (\<open>rt_mb_*\<close>): a ring of 32-bit mails with a list of waiting
  receivers and a list of waiting senders.  \<open>mb_contents\<close> reads the mails off the ring, oldest first.
  The non-blocking calls are a bounded FIFO (locale \<open>bounded_fifo\<close>, interpreted on the calls
  themselves with all they do to threads); the blocking ones queue the caller and go on when it is woken.
\<close>

section \<open>The code\<close>

definition set_mb :: "ptr \<Rightarrow> rt_mailbox \<Rightarrow> kstate \<Rightarrow> kstate" where
  "set_mb mb m s = s\<lparr>mailboxes := (mailboxes s)(mb := m)\<rparr>"

text \<open>\<open>msgs\<close> is the array at the address \<open>msgpool\<close> given to \<open>rt_mb_init\<close>.\<close>

definition rt_mb_init ::
  "ptr \<Rightarrow> u8 list \<Rightarrow> ptr \<Rightarrow> u32 list \<Rightarrow> rt_size_t \<Rightarrow> u8 \<Rightarrow> kstate \<Rightarrow> (rt_err_t \<times> kstate) option" where
  "rt_mb_init mb name msgpool msgs size0 flag s = do {
     RT_ASSERT (mb \<noteq> RT_NULL);
     s \<leftarrow> rt_object_init (At mb) RT_Object_Class_MailBox name s;
     let s = set_object (At mb) (\<lambda>r. r\<lparr>ob_flag := flag\<rparr>) s;
     let (_, s) = rt_ipc_object_init mb s;
     let s = set_mb mb \<lparr>mb_pool_addr = msgpool, mb_msg_pool = msgs, mb_size = ucast size0, mb_entry = 0,
       mb_in_offset = 0, mb_out_offset = 0\<rparr> s;
     Some (RT_EOK, s\<lparr>tqs := (tqs s)(SuspSender mb := [])\<rparr>)
   }"

definition rt_mb_detach :: "ptr \<Rightarrow> kstate \<Rightarrow> (rt_err_t \<times> kstate) option" where
  "rt_mb_detach mb s = do {
     RT_ASSERT (mb \<noteq> RT_NULL);
     s \<leftarrow> rt_ipc_list_resume_all (Susp mb) s;
     s \<leftarrow> rt_ipc_list_resume_all (SuspSender mb) s;
     s \<leftarrow> rt_object_detach (At mb) s;
     Some (RT_EOK, s)
   }"

text \<open>Storing a mail and fetching one; an offset beyond the array is a wild access, \<open>None\<close>.\<close>

definition mb_put :: "u32 \<Rightarrow> rt_mailbox \<Rightarrow> rt_mailbox option" where
  "mb_put value m =
     (if unat (mb_in_offset m) < length (mb_msg_pool m)
      then let m = m\<lparr>mb_msg_pool := (mb_msg_pool m)[unat (mb_in_offset m) := value]\<rparr>;
               m = m\<lparr>mb_in_offset := mb_in_offset m + 1\<rparr>;
               m = (if mb_size m \<le> mb_in_offset m then m\<lparr>mb_in_offset := 0\<rparr> else m)
           in Some (m\<lparr>mb_entry := mb_entry m + 1\<rparr>)
      else None)"

definition mb_get :: "rt_mailbox \<Rightarrow> (u32 \<times> rt_mailbox) option" where
  "mb_get m =
     (if unat (mb_out_offset m) < length (mb_msg_pool m)
      then let value = mb_msg_pool m ! unat (mb_out_offset m);
               m = m\<lparr>mb_out_offset := mb_out_offset m + 1\<rparr>;
               m = (if mb_size m \<le> mb_out_offset m then m\<lparr>mb_out_offset := 0\<rparr> else m)
           in Some (value, m\<lparr>mb_entry := mb_entry m - 1\<rparr>)
      else None)"

definition mb_full :: "ptr \<Rightarrow> kstate \<Rightarrow> bool" where
  "mb_full mb s \<longleftrightarrow> mb_entry (mailboxes s mb) = mb_size (mailboxes s mb)"

definition mb_empty :: "ptr \<Rightarrow> kstate \<Rightarrow> bool" where
  "mb_empty mb s \<longleftrightarrow> mb_entry (mailboxes s mb) = 0"

definition rt_mb_send_wait ::
  "world list \<Rightarrow> ptr \<Rightarrow> u32 \<Rightarrow> rt_int32_t \<Rightarrow> kstate \<Rightarrow> (rt_err_t \<times> kstate) option" where
  "rt_mb_send_wait ws mb value timeout s = do {
     RT_ASSERT (mb \<noteq> RT_NULL);
     let thread = rt_thread_self s;
     if mb_full mb s \<and> timeout = 0 then Some (- RT_EFULL, s)
     else do {
       r \<leftarrow> ipc_wait_loop (mb_full mb) (\<lambda>s. (- RT_EFULL, s)) (SuspSender mb) mb thread ws timeout s;
       (case r of
          Inl result \<Rightarrow> Some result
        | Inr s \<Rightarrow> do {
            m \<leftarrow> mb_put value (mailboxes s mb);
            s \<leftarrow> wake_one (Susp mb) (set_mb mb m s);
            Some (RT_EOK, s)
          })
     }
   }"

definition rt_mb_send :: "ptr \<Rightarrow> u32 \<Rightarrow> kstate \<Rightarrow> (rt_err_t \<times> kstate) option" where
  "rt_mb_send mb value s = rt_mb_send_wait [] mb value 0 s"

text \<open>The second component is what is written to \<open>*value\<close>, if anything.\<close>

definition rt_mb_recv ::
  "world list \<Rightarrow> ptr \<Rightarrow> rt_int32_t \<Rightarrow> kstate \<Rightarrow> (rt_err_t \<times> u32 option \<times> kstate) option" where
  "rt_mb_recv ws mb timeout s = do {
     RT_ASSERT (mb \<noteq> RT_NULL);
     let thread = rt_thread_self s;
     if mb_empty mb s \<and> timeout = 0 then Some (- RT_ETIMEOUT, None, s)
     else do {
       r \<leftarrow> ipc_wait_loop (mb_empty mb)
         (\<lambda>s. (- RT_ETIMEOUT, set_thread thread (\<lambda>t. t\<lparr>th_error := - RT_ETIMEOUT\<rparr>) s))
         (Susp mb) mb thread ws timeout s;
       (case r of
          Inl (e, s) \<Rightarrow> Some (e, None, s)
        | Inr s \<Rightarrow> do {
            (value, m) \<leftarrow> mb_get (mailboxes s mb);
            s \<leftarrow> wake_one (SuspSender mb) (set_mb mb m s);
            Some (RT_EOK, Some value, s)
          })
     }
   }"

definition rt_mb_control :: "ptr \<Rightarrow> u8 \<Rightarrow> u32 \<Rightarrow> kstate \<Rightarrow> (rt_err_t \<times> kstate) option" where
  "rt_mb_control mb cmd arg s = do {
     RT_ASSERT (mb \<noteq> RT_NULL);
     if cmd = RT_IPC_CMD_RESET
     then do {
       s \<leftarrow> rt_ipc_list_resume_all (Susp mb) s;
       s \<leftarrow> rt_ipc_list_resume_all (SuspSender mb) s;
       s \<leftarrow> rt_schedule (set_mb mb ((mailboxes s mb)\<lparr>mb_entry := 0, mb_in_offset := 0, mb_out_offset := 0\<rparr>) s);
       Some (RT_EOK, s)
     }
     else Some (- RT_ERROR, s)
   }"

section \<open>The ring as a queue\<close>

definition mb_contents :: "rt_mailbox \<Rightarrow> u32 list" where
  "mb_contents m = ring (mb_msg_pool m) (unat (mb_size m)) (unat (mb_out_offset m)) (unat (mb_entry m))"

definition mb_inv :: "rt_mailbox \<Rightarrow> bool" where
  "mb_inv m \<longleftrightarrow> 0 < unat (mb_size m) \<and> length (mb_msg_pool m) = unat (mb_size m) \<and>
     unat (mb_out_offset m) < unat (mb_size m) \<and> unat (mb_entry m) \<le> unat (mb_size m) \<and>
     unat (mb_in_offset m) = (unat (mb_out_offset m) + unat (mb_entry m)) mod unat (mb_size m)"

lemma mb_put_ok:
  assumes "mb_inv m" "mb_entry m \<noteq> mb_size m"
  shows "\<exists>m'. mb_put v m = Some m' \<and> mb_inv m' \<and> mb_contents m' = mb_contents m @ [v] \<and> mb_size m' = mb_size m"
proof -
  let ?n = "unat (mb_size m)" and ?o = "unat (mb_out_offset m)" and ?k = "unat (mb_entry m)"
  have m: "0 < ?n" "length (mb_msg_pool m) = ?n" "?o < ?n" "?k < ?n" "unat (mb_in_offset m) = (?o + ?k) mod ?n"
    using assms by (auto simp: mb_inv_def word_unat_eq_iff)
  have i: "unat (mb_in_offset m) < ?n" using m(1,5) by simp
  have e: "unat (mb_entry m + 1) = Suc ?k" using m(4) unat_u16_less [of "mb_size m"] by (subst unat_inc) simp_all
  let ?m = "m\<lparr>mb_msg_pool := (mb_msg_pool m)[unat (mb_in_offset m) := v],
    mb_in_offset := (if mb_size m \<le> mb_in_offset m + 1 then 0 else mb_in_offset m + 1), mb_entry := mb_entry m + 1\<rparr>"
  have "mb_put v m = Some ?m" using i m(2) by (simp add: mb_put_def)
  moreover have "mb_contents ?m = mb_contents m @ [v]"
    using ring_put [OF m(4,2)] by (simp add: mb_contents_def e m(5))
  moreover have "mb_inv ?m"
    using m e wrap_offset [OF i] by (simp add: mb_inv_def mod_Suc_eq)
  ultimately show ?thesis by simp
qed

lemma mb_get_ok:
  assumes "mb_inv m" "mb_entry m \<noteq> 0"
  shows "\<exists>v m'. mb_get m = Some (v, m') \<and> mb_inv m' \<and> mb_contents m = v # mb_contents m' \<and> mb_size m' = mb_size m"
proof -
  let ?n = "unat (mb_size m)" and ?o = "unat (mb_out_offset m)" and ?k = "unat (mb_entry m)"
  have m: "0 < ?n" "length (mb_msg_pool m) = ?n" "?o < ?n" "?k \<le> ?n" "unat (mb_in_offset m) = (?o + ?k) mod ?n"
    using assms by (auto simp: mb_inv_def)
  have e: "Suc (unat (mb_entry m - 1)) = ?k" using assms(2) by (simp add: unat_minus_one unat_gt_0)
  let ?m = "m\<lparr>mb_out_offset := (if mb_size m \<le> mb_out_offset m + 1 then 0 else mb_out_offset m + 1),
    mb_entry := mb_entry m - 1\<rparr>"
  have "mb_get m = Some (mb_msg_pool m ! ?o, ?m)" using m(2,3) by (simp add: mb_get_def)
  moreover have "mb_contents m = mb_msg_pool m ! ?o # mb_contents ?m"
    using ring_get [OF m(3), of "mb_msg_pool m" "unat (mb_entry m - 1)"] wrap_offset [OF m(3)]
    by (simp add: mb_contents_def e)
  moreover have "mb_inv ?m"
    using m e wrap_offset [OF m(3)] mod_add_left_eq [of "Suc ?o" ?n "unat (mb_entry m - 1)"]
    by (simp add: mb_inv_def) (metis add_Suc add_Suc_right)
  ultimately show ?thesis by simp
qed

lemma mb_contents_empty: "mb_entry m = 0 \<longleftrightarrow> mb_contents m = []"
  by (metis length_0_conv length_ring mb_contents_def unat_eq_zero)

lemma mb_contents_full: "mb_inv m \<Longrightarrow> mb_entry m = mb_size m \<longleftrightarrow> length (mb_contents m) = unat (mb_size m)"
  by (simp add: mb_contents_def word_unat_eq_iff)

lemma set_mb_fields [simp]:
  "threads (set_mb p m s) = threads s" "tqs (set_mb p m s) = tqs s" "objects (set_mb p m s) = objects s"
  "timers (set_mb p m s) = timers s" "timer_list (set_mb p m s) = timer_list s"
  "mailboxes (set_mb p m s) = (mailboxes s)(p := m)" "ready_group (set_mb p m s) = ready_group s"
  "rt_tick (set_mb p m s) = rt_tick s" "rt_current_thread (set_mb p m s) = rt_current_thread s"
  "rt_interrupt_nest (set_mb p m s) = rt_interrupt_nest s"
  "rt_scheduler_lock_nest (set_mb p m s) = rt_scheduler_lock_nest s"
  by (simp_all add: set_mb_def)

lemma thread_inv_set_mb [simp]: "thread_inv (set_mb p m s) = thread_inv s"
  by (rule thread_inv_cong) simp_all

section \<open>The calls\<close>

definition mb_ready :: "ptr \<Rightarrow> kstate \<Rightarrow> bool" where
  "mb_ready mb s \<longleftrightarrow> mb \<noteq> RT_NULL \<and> thread_inv s \<and> mb_inv (mailboxes s mb)"

lemma mb_store:
  assumes "thread_inv s" "mb_inv (mailboxes s mb)" "\<not> mb_full mb s"
  obtains m s' where "mb_put v (mailboxes s mb) = Some m" "wake_one (Susp mb) (set_mb mb m s) = Some s'"
    "thread_inv s'" "mb_inv (mailboxes s' mb)"
    "mb_contents (mailboxes s' mb) = mb_contents (mailboxes s mb) @ [v]"
    "mb_size (mailboxes s' mb) = mb_size (mailboxes s mb)" "tqs s' (Susp mb) = tl (tqs s (Susp mb))"
    "\<And>t ts. tqs s (Susp mb) = t # ts \<Longrightarrow> th_stat (threads s' t) = RT_THREAD_READY \<and>
       th_error (threads s' t) = th_error (threads s t)"
proof -
  obtain m where m: "mb_put v (mailboxes s mb) = Some m" "mb_inv m" "mb_contents m = mb_contents (mailboxes s mb) @ [v]"
    "mb_size m = mb_size (mailboxes s mb)"
    using mb_put_ok [OF assms(2)] assms(3) unfolding mb_full_def by blast
  have "thread_inv (set_mb mb m s)" using assms(1) by simp
  from wake_one_total [OF this wait_list_simps(1), of mb] show ?thesis using that [OF m(1)] m by auto
qed

lemma mb_fetch:
  assumes "thread_inv s" "mb_inv (mailboxes s mb)" "\<not> mb_empty mb s"
  obtains v m s' where "mb_get (mailboxes s mb) = Some (v, m)" "wake_one (SuspSender mb) (set_mb mb m s) = Some s'"
    "thread_inv s'" "mb_inv (mailboxes s' mb)"
    "mb_contents (mailboxes s mb) = v # mb_contents (mailboxes s' mb)"
    "mb_size (mailboxes s' mb) = mb_size (mailboxes s mb)" "tqs s' (SuspSender mb) = tl (tqs s (SuspSender mb))"
    "\<And>t ts. tqs s (SuspSender mb) = t # ts \<Longrightarrow> th_stat (threads s' t) = RT_THREAD_READY \<and>
       th_error (threads s' t) = th_error (threads s t)"
proof -
  obtain v m where m: "mb_get (mailboxes s mb) = Some (v, m)" "mb_inv m" "mb_contents (mailboxes s mb) = v # mb_contents m"
    "mb_size m = mb_size (mailboxes s mb)"
    using mb_get_ok [OF assms(2)] assms(3) unfolding mb_empty_def by blast
  have "thread_inv (set_mb mb m s)" using assms(1) by simp
  from wake_one_total [OF this wait_list_simps(2), of mb] show ?thesis using that [OF m(1)] m by auto
qed

lemma rt_mb_send_wait_free:
  "mb \<noteq> RT_NULL \<Longrightarrow> \<not> mb_full mb s \<Longrightarrow> mb_put v (mailboxes s mb) = Some m \<Longrightarrow>
     wake_one (Susp mb) (set_mb mb m s) = Some s' \<Longrightarrow> rt_mb_send_wait ws mb v timeout s = Some (RT_EOK, s')"
  by (simp add: rt_mb_send_wait_def)

lemma rt_mb_recv_free:
  "mb \<noteq> RT_NULL \<Longrightarrow> \<not> mb_empty mb s \<Longrightarrow> mb_get (mailboxes s mb) = Some (v, m) \<Longrightarrow>
     wake_one (SuspSender mb) (set_mb mb m s) = Some s' \<Longrightarrow> rt_mb_recv ws mb timeout s = Some (RT_EOK, Some v, s')"
  by (simp add: rt_mb_recv_def)

text \<open>The non-blocking calls as the operations of a bounded FIFO.\<close>

definition mb_try_send :: "ptr \<Rightarrow> u32 \<Rightarrow> kstate \<Rightarrow> kstate option" where
  "mb_try_send mb v s =
     (case rt_mb_send mb v s of Some (e, s') \<Rightarrow> if e = RT_EOK then Some s' else None | None \<Rightarrow> None)"

definition mb_try_recv :: "ptr \<Rightarrow> kstate \<Rightarrow> (u32 \<times> kstate) option" where
  "mb_try_recv mb s =
     (case rt_mb_recv [] mb 0 s of Some (e, Some v, s') \<Rightarrow> if e = RT_EOK then Some (v, s') else None | _ \<Rightarrow> None)"

interpretation mailbox_fifo: bounded_fifo "mb_ready mb" "\<lambda>s. mb_contents (mailboxes s mb)"
  "\<lambda>s. unat (mb_size (mailboxes s mb))" "\<lambda>_ _. True" "mb_try_send mb" "mb_try_recv mb" for mb
proof
  fix s :: kstate and v :: u32
  assume r: "mb_ready mb s"
  then have i: "mb \<noteq> RT_NULL" "thread_inv s" "mb_inv (mailboxes s mb)" by (simp_all add: mb_ready_def)
  let ?c = "mb_contents (mailboxes s mb)" and ?n = "unat (mb_size (mailboxes s mb))"
  show "length ?c \<le> ?n" using i(3) by (simp add: mb_contents_def mb_inv_def)
  show "mb_try_send mb v s = None" if "length ?c = ?n \<or> \<not> True"
    using that i mb_contents_full [OF i(3)] by (simp add: mb_try_send_def rt_mb_send_def rt_mb_send_wait_def mb_full_def)
  show "mb_try_recv mb s = None" if "?c = []"
    using that i by (simp add: mb_try_recv_def rt_mb_recv_def mb_empty_def mb_contents_empty)
  show "\<exists>s'. mb_try_send mb v s = Some s' \<and> mb_ready mb s' \<and> mb_contents (mailboxes s' mb) = ?c @ [v] \<and>
      unat (mb_size (mailboxes s' mb)) = ?n \<and> (\<lambda>_ _ :: u32. True) s' = (\<lambda>_ _. True) s" if "length ?c < ?n"
  proof -
    have f: "\<not> mb_full mb s" using that mb_contents_full [OF i(3)] by (auto simp: mb_full_def)
    show ?thesis
      by (rule mb_store [OF i(2,3) f, of v])
        (use i(1) rt_mb_send_wait_free [OF i(1) f] in \<open>auto simp: mb_try_send_def rt_mb_send_def mb_ready_def\<close>)
  qed
  show "\<exists>s'. mb_try_recv mb s = Some (y, s') \<and> mb_ready mb s' \<and> mb_contents (mailboxes s' mb) = ys \<and>
      unat (mb_size (mailboxes s' mb)) = ?n" if "?c = y # ys" for y ys
  proof -
    have f: "\<not> mb_empty mb s" using that by (simp add: mb_empty_def mb_contents_empty)
    show ?thesis
      by (rule mb_fetch [OF i(2,3) f])
        (use i(1) that rt_mb_recv_free [OF i(1) f] in \<open>auto simp: mb_try_recv_def mb_ready_def\<close>)
  qed
qed

section \<open>Properties\<close>

text \<open>
  C15. A mailbox is a bounded FIFO: over any sequence of \<open>rt_mb_send\<close> and non-waiting \<open>rt_mb_recv\<close> calls,
  whatever threads they wake, the mails that were there followed by those accepted are exactly the
  mails received followed by those still there; there are never more than \<open>size\<close>, and the invariants of
  the mailbox and of the threads hold at the end.
\<close>

theorem rt_mb_send_recv_fifo:
  assumes "mb_ready mb s" "fifo_run (mb_try_send mb) (mb_try_recv mb) calls s = (sent, got, s')"
  shows "mb_contents (mailboxes s mb) @ sent = got @ mb_contents (mailboxes s' mb) \<and>
    length (mb_contents (mailboxes s' mb)) \<le> unat (mb_size (mailboxes s mb)) \<and> mb_ready mb s'"
  using mailbox_fifo.conservation [OF assms] by simp

text \<open>A mailbox for two mails at \<open>0x800\<close> whose offsets are about to wrap.\<close>

definition demo_mailbox :: kstate where
  "demo_mailbox = set_mb 0x800 \<lparr>mb_pool_addr = 0x900, mb_msg_pool = [0, 0], mb_size = 2, mb_entry = 0,
     mb_in_offset = 1, mb_out_offset = 1\<rparr> two_started"

lemma demo_mailbox_ready: "mb_ready 0x800 demo_mailbox"
  using thread_inv_two_started by (simp add: mb_ready_def demo_mailbox_def mb_inv_def)

theorem rt_mb_send_recv_fifo_witness:
  "\<exists>s'. fifo_run (mb_try_send 0x800) (mb_try_recv 0x800) (map Put [7, 9] @ replicate 2 Get) demo_mailbox =
       ([7, 9], [7, 9], s') \<and> mb_contents (mailboxes demo_mailbox 0x800) @ [7, 9] = [7, 9] @ mb_contents (mailboxes s' 0x800)"
proof -
  have len: "length [7, 9 :: u32] = 2" by simp
  have "mb_contents (mailboxes demo_mailbox 0x800) = []" "2 \<le> unat (mb_size (mailboxes demo_mailbox 0x800))"
    by (simp_all add: demo_mailbox_def mb_contents_def)
  with mailbox_fifo.fill_and_drain [OF demo_mailbox_ready, of "[7, 9]", unfolded len]
  obtain s' where s': "fifo_run (mb_try_send 0x800) (mb_try_recv 0x800) (map Put [7, 9] @ replicate 2 Get) demo_mailbox =
       ([7, 9], [7, 9], s')" by blast
  then show ?thesis using rt_mb_send_recv_fifo [OF demo_mailbox_ready s'] by auto
qed

text \<open>
  The branches of the two calls that do not wait: on a full mailbox \<open>rt_mb_send\<close> returns \<open>-RT_EFULL\<close>
  and on an empty one \<open>rt_mb_recv\<close> with timeout 0 returns \<open>-RT_ETIMEOUT\<close>, changing nothing; otherwise
  (also for the waiting forms, with any timeout) the mail is appended, and the first waiting receiver
  made ready, or the oldest mail is taken, and the first waiting sender made ready, with the error
  code of the thread woken untouched.
\<close>

theorem rt_mb_send_recv_branches:
  assumes "mb_ready mb s"
  shows "(if mb_full mb s then rt_mb_send mb v s = Some (- RT_EFULL, s)
      else \<exists>s'. (\<forall>ws timeout. rt_mb_send_wait ws mb v timeout s = Some (RT_EOK, s')) \<and> mb_ready mb s' \<and>
        mb_contents (mailboxes s' mb) = mb_contents (mailboxes s mb) @ [v] \<and>
        tqs s' (Susp mb) = tl (tqs s (Susp mb)) \<and>
        (\<forall>t ts. tqs s (Susp mb) = t # ts \<longrightarrow> th_stat (threads s' t) = RT_THREAD_READY \<and>
           th_error (threads s' t) = th_error (threads s t))) \<and>
    (if mb_empty mb s then rt_mb_recv ws0 mb 0 s = Some (- RT_ETIMEOUT, None, s)
      else \<exists>s' m. (\<forall>ws timeout. rt_mb_recv ws mb timeout s = Some (RT_EOK, Some m, s')) \<and> mb_ready mb s' \<and>
        mb_contents (mailboxes s mb) = m # mb_contents (mailboxes s' mb) \<and>
        tqs s' (SuspSender mb) = tl (tqs s (SuspSender mb)) \<and>
        (\<forall>t ts. tqs s (SuspSender mb) = t # ts \<longrightarrow> th_stat (threads s' t) = RT_THREAD_READY \<and>
           th_error (threads s' t) = th_error (threads s t)))"
proof -
  have i: "mb \<noteq> RT_NULL" "thread_inv s" "mb_inv (mailboxes s mb)" using assms by (simp_all add: mb_ready_def)
  have "rt_mb_send mb v s = Some (- RT_EFULL, s)" if "mb_full mb s"
    using that i(1) by (simp add: rt_mb_send_def rt_mb_send_wait_def)
  moreover have "rt_mb_recv ws0 mb 0 s = Some (- RT_ETIMEOUT, None, s)" if "mb_empty mb s"
    using that i(1) by (simp add: rt_mb_recv_def)
  moreover have "\<exists>s'. (\<forall>ws timeout. rt_mb_send_wait ws mb v timeout s = Some (RT_EOK, s')) \<and> mb_ready mb s' \<and>
        mb_contents (mailboxes s' mb) = mb_contents (mailboxes s mb) @ [v] \<and>
        tqs s' (Susp mb) = tl (tqs s (Susp mb)) \<and>
        (\<forall>t ts. tqs s (Susp mb) = t # ts \<longrightarrow> th_stat (threads s' t) = RT_THREAD_READY \<and>
           th_error (threads s' t) = th_error (threads s t))" if f: "\<not> mb_full mb s"
  proof (rule mb_store [OF i(2,3) f, of v])
    fix m s'
    assume a: "mb_put v (mailboxes s mb) = Some m" "wake_one (Susp mb) (set_mb mb m s) = Some s'"
      "thread_inv s'" "mb_inv (mailboxes s' mb)" "mb_contents (mailboxes s' mb) = mb_contents (mailboxes s mb) @ [v]"
      "mb_size (mailboxes s' mb) = mb_size (mailboxes s mb)" "tqs s' (Susp mb) = tl (tqs s (Susp mb))"
      "\<And>t ts. tqs s (Susp mb) = t # ts \<Longrightarrow> th_stat (threads s' t) = RT_THREAD_READY \<and>
       th_error (threads s' t) = th_error (threads s t)"
    show ?thesis
      by (intro exI [of _ s'] conjI allI impI) (use a i(1) rt_mb_send_wait_free [OF i(1) f a(1,2)] in \<open>auto simp: mb_ready_def\<close>)
  qed
  moreover have "\<exists>s' m. (\<forall>ws timeout. rt_mb_recv ws mb timeout s = Some (RT_EOK, Some m, s')) \<and> mb_ready mb s' \<and>
        mb_contents (mailboxes s mb) = m # mb_contents (mailboxes s' mb) \<and>
        tqs s' (SuspSender mb) = tl (tqs s (SuspSender mb)) \<and>
        (\<forall>t ts. tqs s (SuspSender mb) = t # ts \<longrightarrow> th_stat (threads s' t) = RT_THREAD_READY \<and>
           th_error (threads s' t) = th_error (threads s t))" if f: "\<not> mb_empty mb s"
  proof (rule mb_fetch [OF i(2,3) f])
    fix x m s'
    assume a: "mb_get (mailboxes s mb) = Some (x, m)" "wake_one (SuspSender mb) (set_mb mb m s) = Some s'"
      "thread_inv s'" "mb_inv (mailboxes s' mb)" "mb_contents (mailboxes s mb) = x # mb_contents (mailboxes s' mb)"
      "mb_size (mailboxes s' mb) = mb_size (mailboxes s mb)" "tqs s' (SuspSender mb) = tl (tqs s (SuspSender mb))"
      "\<And>t ts. tqs s (SuspSender mb) = t # ts \<Longrightarrow> th_stat (threads s' t) = RT_THREAD_READY \<and>
       th_error (threads s' t) = th_error (threads s t)"
    show ?thesis
      by (intro exI [of _ s'] exI [of _ x] conjI allI impI)
        (use a i(1) rt_mb_recv_free [OF i(1) f a(1,2)] in \<open>auto simp: mb_ready_def\<close>)
  qed
  ultimately show ?thesis by simp
qed

theorem rt_mb_send_recv_branches_witness:
  "rt_mb_recv [] 0x800 0 demo_mailbox = Some (- RT_ETIMEOUT, None, demo_mailbox) \<and>
   (\<exists>s'. (\<forall>ws timeout. rt_mb_send_wait ws 0x800 5 timeout demo_mailbox = Some (RT_EOK, s')))"
proof -
  have "mb_empty 0x800 demo_mailbox" "\<not> mb_full 0x800 demo_mailbox"
    by (simp_all add: mb_empty_def mb_full_def demo_mailbox_def)
  with rt_mb_send_recv_branches [OF demo_mailbox_ready, of 5 "[]"] show ?thesis by auto
qed

text \<open>
  Waiting for a mail: \<open>rt_mb_recv\<close> on an empty mailbox queues the caller on \<open>suspend_thread\<close> as the
  flag says, another thread runs, and when the caller runs again in a state \<open>s1\<close>: an error code left in
  the thread is returned; a mail that is there is taken, the oldest one, and returned with \<open>RT_EOK\<close>; and
  when another receiver was faster and the time spent since has used up the timeout, \<open>-RT_ETIMEOUT\<close> is
  returned.
\<close>

theorem rt_mb_recv_waits:
  assumes "thread_inv s" "timer_inv s" "runnable s" "can_switch s" "fifo_or_prio mb s" "time_ok timeout"
    "timeout \<noteq> 0" "mb \<noteq> RT_NULL" "mb_empty mb s"
  shows "\<exists>s0. thread_inv s0 \<and> rt_current_thread s0 \<noteq> rt_current_thread s \<and> mailboxes s0 = mailboxes s \<and>
    th_error (threads s0 (rt_current_thread s)) = RT_EOK \<and>
    tqs s0 (Susp mb) = enqueue (ob_flag (objects s (At mb))) (threads s) (rt_current_thread s) (tqs s (Susp mb)) \<and>
    (\<forall>w ws. let s1 = w s0; e = th_error (threads s1 (rt_current_thread s)); r = rt_mb_recv (w # ws) mb timeout s in
      (e \<noteq> RT_EOK \<longrightarrow> r = Some (e, None, s1)) \<and>
      (e = RT_EOK \<and> mb_ready mb s1 \<and> \<not> mb_empty mb s1 \<longrightarrow>
        (\<exists>s2 v. r = Some (RT_EOK, Some v, s2) \<and> mb_ready mb s2 \<and>
           mb_contents (mailboxes s1 mb) = v # mb_contents (mailboxes s2 mb))) \<and>
      (e = RT_EOK \<and> mb_empty mb s1 \<and> retime timeout (rt_tick s1 - rt_tick s) = 0 \<longrightarrow>
        map_option fst r = Some (- RT_ETIMEOUT)))"
proof -
  let ?c = "rt_current_thread s"
  let ?x = "\<lambda>s. (- RT_ETIMEOUT, set_thread ?c (\<lambda>t. t\<lparr>th_error := - RT_ETIMEOUT\<rparr>) s)"
  obtain s0 where s0: "thread_inv s0" "rt_current_thread s0 \<noteq> ?c"
    "tqs s0 (Susp mb) = enqueue (ob_flag (objects s (At mb))) (threads s) ?c (tqs s (Susp mb))"
    "mailboxes s0 = mailboxes s" "mqs s0 = mqs s" "mq_nodes s0 = mq_nodes s"
    "th_error (threads s0 ?c) = RT_EOK"
    "\<And>w ws expired. ipc_wait_loop (mb_empty mb) expired (Susp mb) mb ?c (w # ws) timeout s =
      (if th_error (threads (w s0) ?c) \<noteq> RT_EOK then Some (Inl (th_error (threads (w s0) ?c), w s0))
       else ipc_wait_loop (mb_empty mb) expired (Susp mb) mb ?c ws (retime timeout (rt_tick (w s0) - rt_tick s)) (w s0))"
    by (rule ipc_wait_loop_round [where blocked = "mb_empty mb", OF assms(1-4) wait_list_simps(1) assms(9,7,5,6)]) blast
  have r: "rt_mb_recv (w # ws) mb timeout s = Option.bind
      (ipc_wait_loop (mb_empty mb) ?x (Susp mb) mb ?c (w # ws) timeout s)
      (\<lambda>r. case r of Inl (e, s) \<Rightarrow> Some (e, None, s)
        | Inr s \<Rightarrow> do { (value, m) \<leftarrow> mb_get (mailboxes s mb); s \<leftarrow> wake_one (SuspSender mb) (set_mb mb m s);
            Some (RT_EOK, Some value, s) })" for w ws
    using assms(7,8) by (simp add: rt_mb_recv_def rt_thread_self_def Let_def)
  have "let s1 = w s0; e = th_error (threads s1 ?c); r = rt_mb_recv (w # ws) mb timeout s in
      (e \<noteq> RT_EOK \<longrightarrow> r = Some (e, None, s1)) \<and>
      (e = RT_EOK \<and> mb_ready mb s1 \<and> \<not> mb_empty mb s1 \<longrightarrow>
        (\<exists>s2 v. r = Some (RT_EOK, Some v, s2) \<and> mb_ready mb s2 \<and>
           mb_contents (mailboxes s1 mb) = v # mb_contents (mailboxes s2 mb))) \<and>
      (e = RT_EOK \<and> mb_empty mb s1 \<and> retime timeout (rt_tick s1 - rt_tick s) = 0 \<longrightarrow>
        map_option fst r = Some (- RT_ETIMEOUT))" for w ws
  proof -
    have "\<exists>s2 v. rt_mb_recv (w # ws) mb timeout s = Some (RT_EOK, Some v, s2) \<and> mb_ready mb s2 \<and>
        mb_contents (mailboxes (w s0) mb) = v # mb_contents (mailboxes s2 mb)"
      if e: "th_error (threads (w s0) ?c) = RT_EOK" and i: "mb_ready mb (w s0)" and f: "\<not> mb_empty mb (w s0)"
    proof -
      have "thread_inv (w s0)" "mb_inv (mailboxes (w s0) mb)" using i by (simp_all add: mb_ready_def)
      from this f show ?thesis
        by (rule mb_fetch) (use e f i assms(8) in \<open>auto simp: r s0(8) mb_ready_def\<close>)
    qed
    then show ?thesis by (auto simp: r s0(8) ipc_wait_loop_expired)
  qed
  then show ?thesis using s0(1-4,7) by blast
qed

lemma set_mb_inv [simp]:
  "timer_inv (set_mb p m s) = timer_inv s" "runnable (set_mb p m s) = runnable s"
  "can_switch (set_mb p m s) = can_switch s" "fifo_or_prio q (set_mb p m s) = fifo_or_prio q s"
proof -
  have "good (set_mb p m s) t = good s t" for t by (rule good_cong) simp_all
  then show "runnable (set_mb p m s) = runnable s" by (simp add: runnable_def in_thread_context_def)
  show "timer_inv (set_mb p m s) = timer_inv s" by (rule timer_inv_cong) simp_all
qed (simp_all add: can_switch_def suspended_def fifo_or_prio_def)

theorem rt_mb_recv_waits_witness:
  "\<exists>s0 s2. tqs s0 (Susp 0x800) = [0x100] \<and>
     rt_mb_recv [\<lambda>_. set_mb 0x800 \<lparr>mb_pool_addr = 0x900, mb_msg_pool = [0, 42], mb_size = 2, mb_entry = 1, mb_in_offset = 0,
       mb_out_offset = 1\<rparr> s0] 0x800 10 demo_mailbox = Some (RT_EOK, Some 42, s2)"
proof -
  let ?m = "\<lparr>mb_pool_addr = 0x900, mb_msg_pool = [0, 42], mb_size = 2, mb_entry = 1, mb_in_offset = 0, mb_out_offset = 1\<rparr> :: rt_mailbox"
  have pre: "thread_inv demo_mailbox" "timer_inv demo_mailbox" "runnable demo_mailbox" "can_switch demo_mailbox"
    "fifo_or_prio 0x800 demo_mailbox" "time_ok 10" "mb_empty 0x800 demo_mailbox"
    using thread_inv_two_started timer_inv_two_started runnable_two_started can_switch_two_started fifo_two_started
    by (simp_all add: demo_mailbox_def time_ok_def mb_empty_def)
  have q: "enqueue (ob_flag (objects demo_mailbox (At 0x800))) (threads demo_mailbox)
      0x100 (tqs demo_mailbox (Susp 0x800)) = [0x100]"
    and c: "rt_current_thread demo_mailbox = 0x100"
    by (simp_all add: demo_mailbox_def enqueue_def zero_object_def)
  have ok: "mb_ready 0x800 (set_mb 0x800 ?m s0)" "\<not> mb_empty 0x800 (set_mb 0x800 ?m s0)"
    "mb_contents ?m = [42]" if "thread_inv s0" for s0
    using that by (simp_all add: mb_ready_def mb_inv_def mb_empty_def mb_contents_def ring_def)
  have "(10 :: rt_int32_t) \<noteq> 0" "(0x800 :: ptr) \<noteq> RT_NULL" by simp_all
  from rt_mb_recv_waits [OF pre(1-6) this pre(7)] show ?thesis
    unfolding c
  proof (elim exE conjE, goal_cases)
    case (1 s0)
    show ?case
      using q 1(4,5) ok [OF 1(1)] spec [OF spec [OF 1(6)], of "\<lambda>_. set_mb 0x800 ?m s0" "[]"] by (auto simp: Let_def)
  qed
qed

end
