(* ===== verification/Message_Queue.thy ===== *)
theory Message_Queue
  imports Mailbox
begin

text \<open>
  The message queues of \<open>src/src/ipc.c\<close> (\<open>rt_mq_*\<close>): fixed-size messages in nodes that are linked
  either into the queue (\<open>msg_queue_head\<close>, \<open>msg_queue_tail\<close>) or into the free list.  The nodes are in the
  store \<open>mq_nodes\<close>; \<open>rt_memcpy\<close> of a message is the copy of its bytes (its correctness is in theory
  Kservice).  \<open>mq_inv\<close>: both lists are well-formed, they share no node, together they have
  \<open>max_msgs\<close> nodes, and \<open>entry\<close> counts the queue.
\<close>

section \<open>The code\<close>

definition set_mq :: "ptr \<Rightarrow> (rt_messagequeue \<Rightarrow> rt_messagequeue) \<Rightarrow> kstate \<Rightarrow> kstate" where
  "set_mq mq f s = s\<lparr>mqs := (mqs s)(mq := f (mqs s mq))\<rparr>"

definition set_node :: "ptr \<Rightarrow> (rt_mq_message \<Rightarrow> rt_mq_message) \<Rightarrow> kstate \<Rightarrow> kstate" where
  "set_node p f s = s\<lparr>mq_nodes := (mq_nodes s)(p := f (mq_nodes s p))\<rparr>"

text \<open>\<open>sizeof(struct rt_mq_message)\<close> is 4; the free list is built from the first node to the last.\<close>

fun mq_init_free :: "nat \<Rightarrow> ptr \<Rightarrow> kstate \<Rightarrow> kstate" where
  "mq_init_free 0 mq s = s"
| "mq_init_free (Suc temp) mq s =
     (let s = mq_init_free temp mq s;
          head = mq_msg_pool (mqs s mq) + of_nat temp * (ucast (mq_msg_size (mqs s mq)) + 4);
          s = set_node head (\<lambda>m. m\<lparr>msg_next := mq_msg_queue_free (mqs s mq)\<rparr>) s
      in set_mq mq (\<lambda>q. q\<lparr>mq_msg_queue_free := head\<rparr>) s)"

definition rt_mq_init ::
  "ptr \<Rightarrow> u8 list \<Rightarrow> ptr \<Rightarrow> rt_size_t \<Rightarrow> rt_size_t \<Rightarrow> u8 \<Rightarrow> kstate \<Rightarrow> (rt_err_t \<times> kstate) option" where
  "rt_mq_init mq name msgpool msg_size pool_size flag s = do {
     RT_ASSERT (mq \<noteq> RT_NULL);
     s \<leftarrow> rt_object_init (At mq) RT_Object_Class_MessageQueue name s;
     let s = set_object (At mq) (\<lambda>r. r\<lparr>ob_flag := flag\<rparr>) s;
     let (_, s) = rt_ipc_object_init mq s;
     let s = set_mq mq (\<lambda>q. q\<lparr>mq_msg_pool := msgpool\<rparr>) s;
     let s = set_mq mq (\<lambda>q. q\<lparr>mq_msg_size := ucast (RT_ALIGN msg_size RT_ALIGN_SIZE)\<rparr>) s;
     let s = set_mq mq (\<lambda>q. q\<lparr>mq_max_msgs := ucast (pool_size div (ucast (mq_msg_size q) + 4))\<rparr>) s;
     let s = set_mq mq (\<lambda>q. q\<lparr>mq_msg_queue_head := RT_NULL, mq_msg_queue_tail := RT_NULL,
       mq_msg_queue_free := RT_NULL\<rparr>) s;
     let s = mq_init_free (unat (mq_max_msgs (mqs s mq))) mq s;
     let s = set_mq mq (\<lambda>q. q\<lparr>mq_entry := 0\<rparr>) s;
     Some (RT_EOK, s)
   }"

definition rt_mq_detach :: "ptr \<Rightarrow> kstate \<Rightarrow> (rt_err_t \<times> kstate) option" where
  "rt_mq_detach mq s = do {
     RT_ASSERT (mq \<noteq> RT_NULL);
     s \<leftarrow> rt_ipc_list_resume_all (Susp mq) s;
     s \<leftarrow> rt_object_detach (At mq) s;
     Some (RT_EOK, s)
   }"

text \<open>\<open>rt_memcpy(msg + 1, buffer, size)\<close>.\<close>

definition copy_in :: "u8 list \<Rightarrow> nat \<Rightarrow> rt_mq_message \<Rightarrow> rt_mq_message" where
  "copy_in buffer n m = m\<lparr>msg_payload := (\<lambda>i. if i < n then buffer ! i else msg_payload m i)\<rparr>"

definition copy_out :: "nat \<Rightarrow> rt_mq_message \<Rightarrow> u8 list" where
  "copy_out n m = map (msg_payload m) [0..<n]"

text \<open>A buffer is \<open>None\<close> for \<open>RT_NULL\<close>; reading beyond its end is a wild access.\<close>

definition rt_mq_send :: "ptr \<Rightarrow> u8 list option \<Rightarrow> rt_size_t \<Rightarrow> kstate \<Rightarrow> (rt_err_t \<times> kstate) option" where
  "rt_mq_send mq buffer n s = do {
     RT_ASSERT (mq \<noteq> RT_NULL);
     buffer \<leftarrow> buffer;
     RT_ASSERT (n \<noteq> 0);
     if ucast (mq_msg_size (mqs s mq)) < n then Some (- RT_ERROR, s)
     else do {
       let msg = mq_msg_queue_free (mqs s mq);
       if msg = RT_NULL then Some (- RT_EFULL, s)
       else do {
         let s = set_mq mq (\<lambda>q. q\<lparr>mq_msg_queue_free := msg_next (mq_nodes s msg)\<rparr>) s;
         let s = set_node msg (\<lambda>m. m\<lparr>msg_next := RT_NULL\<rparr>) s;
         RT_ASSERT (unat n \<le> length buffer);
         let s = set_node msg (copy_in buffer (unat n)) s;
         let s = (if mq_msg_queue_tail (mqs s mq) \<noteq> RT_NULL
                  then set_node (mq_msg_queue_tail (mqs s mq)) (\<lambda>m. m\<lparr>msg_next := msg\<rparr>) s else s);
         let s = set_mq mq (\<lambda>q. q\<lparr>mq_msg_queue_tail := msg\<rparr>) s;
         let s = (if mq_msg_queue_head (mqs s mq) = RT_NULL
                  then set_mq mq (\<lambda>q. q\<lparr>mq_msg_queue_head := msg\<rparr>) s else s);
         let s = set_mq mq (\<lambda>q. q\<lparr>mq_entry := mq_entry q + 1\<rparr>) s;
         s \<leftarrow> wake_one (Susp mq) s;
         Some (RT_EOK, s)
       }
     }
   }"

definition rt_mq_urgent :: "ptr \<Rightarrow> u8 list option \<Rightarrow> rt_size_t \<Rightarrow> kstate \<Rightarrow> (rt_err_t \<times> kstate) option" where
  "rt_mq_urgent mq buffer n s = do {
     RT_ASSERT (mq \<noteq> RT_NULL);
     buffer \<leftarrow> buffer;
     RT_ASSERT (n \<noteq> 0);
     if ucast (mq_msg_size (mqs s mq)) < n then Some (- RT_ERROR, s)
     else do {
       let msg = mq_msg_queue_free (mqs s mq);
       if msg = RT_NULL then Some (- RT_EFULL, s)
       else do {
         let s = set_mq mq (\<lambda>q. q\<lparr>mq_msg_queue_free := msg_next (mq_nodes s msg)\<rparr>) s;
         RT_ASSERT (unat n \<le> length buffer);
         let s = set_node msg (copy_in buffer (unat n)) s;
         let s = set_node msg (\<lambda>m. m\<lparr>msg_next := mq_msg_queue_head (mqs s mq)\<rparr>) s;
         let s = set_mq mq (\<lambda>q. q\<lparr>mq_msg_queue_head := msg\<rparr>) s;
         let s = (if mq_msg_queue_tail (mqs s mq) = RT_NULL
                  then set_mq mq (\<lambda>q. q\<lparr>mq_msg_queue_tail := msg\<rparr>) s else s);
         let s = set_mq mq (\<lambda>q. q\<lparr>mq_entry := mq_entry q + 1\<rparr>) s;
         s \<leftarrow> wake_one (Susp mq) s;
         Some (RT_EOK, s)
       }
     }
   }"

definition mq_empty :: "ptr \<Rightarrow> kstate \<Rightarrow> bool" where
  "mq_empty mq s \<longleftrightarrow> mq_entry (mqs s mq) = 0"

text \<open>The part of \<open>rt_mq_recv\<close> behind the waiting loop; a \<open>RT_NULL\<close> head would be a wild access.  The
  bytes are what is copied to the caller's buffer.\<close>

definition mq_take :: "ptr \<Rightarrow> rt_size_t \<Rightarrow> kstate \<Rightarrow> (u8 list \<times> kstate) option" where
  "mq_take mq n s = do {
     let msg = mq_msg_queue_head (mqs s mq);
     RT_ASSERT (msg \<noteq> RT_NULL);
     let s = set_mq mq (\<lambda>q. q\<lparr>mq_msg_queue_head := msg_next (mq_nodes s msg)\<rparr>) s;
     let s = (if mq_msg_queue_tail (mqs s mq) = msg
              then set_mq mq (\<lambda>q. q\<lparr>mq_msg_queue_tail := RT_NULL\<rparr>) s else s);
     let s = set_mq mq (\<lambda>q. q\<lparr>mq_entry := mq_entry q - 1\<rparr>) s;
     let msg_size = ucast (mq_msg_size (mqs s mq));
     let bytes = copy_out (unat (if msg_size < n then msg_size else n)) (mq_nodes s msg);
     let s = set_node msg (\<lambda>m. m\<lparr>msg_next := mq_msg_queue_free (mqs s mq)\<rparr>) s;
     let s = set_mq mq (\<lambda>q. q\<lparr>mq_msg_queue_free := msg\<rparr>) s;
     Some (bytes, s)
   }"

text \<open>Both calls that can wait test the context before or after the test for an expired timeout; a
  caller that gets there runs in thread context either way.\<close>

definition rt_mq_recv ::
  "world list \<Rightarrow> ptr \<Rightarrow> ptr \<Rightarrow> rt_size_t \<Rightarrow> rt_int32_t \<Rightarrow> kstate \<Rightarrow> (rt_err_t \<times> u8 list option \<times> kstate) option" where
  "rt_mq_recv ws mq buffer n timeout s = do {
     RT_ASSERT (mq \<noteq> RT_NULL);
     RT_ASSERT (buffer \<noteq> RT_NULL);
     RT_ASSERT (n \<noteq> 0);
     let thread = rt_thread_self s;
     if mq_empty mq s \<and> timeout = 0 then Some (- RT_ETIMEOUT, None, s)
     else do {
       r \<leftarrow> ipc_wait_loop (mq_empty mq)
         (\<lambda>s. (- RT_ETIMEOUT, set_thread thread (\<lambda>t. t\<lparr>th_error := - RT_ETIMEOUT\<rparr>) s))
         (Susp mq) mq thread ws timeout s;
       (case r of
          Inl (e, s) \<Rightarrow> Some (e, None, s)
        | Inr s \<Rightarrow> do { (bytes, s) \<leftarrow> mq_take mq n s; Some (RT_EOK, Some bytes, s) })
     }
   }"

text \<open>The loop of \<open>RT_IPC_CMD_RESET\<close> that moves the queued messages to the free list.\<close>

partial_function (option) mq_release_all :: "ptr \<Rightarrow> kstate \<Rightarrow> kstate option" where
  "mq_release_all mq s =
     (let msg = mq_msg_queue_head (mqs s mq) in
      if msg = RT_NULL then Some s
      else
        let s = set_mq mq (\<lambda>q. q\<lparr>mq_msg_queue_head := msg_next (mq_nodes s msg)\<rparr>) s;
            s = (if mq_msg_queue_tail (mqs s mq) = msg
                 then set_mq mq (\<lambda>q. q\<lparr>mq_msg_queue_tail := RT_NULL\<rparr>) s else s);
            s = set_node msg (\<lambda>m. m\<lparr>msg_next := mq_msg_queue_free (mqs s mq)\<rparr>) s;
            s = set_mq mq (\<lambda>q. q\<lparr>mq_msg_queue_free := msg\<rparr>) s
        in mq_release_all mq s)"

definition rt_mq_control :: "ptr \<Rightarrow> u8 \<Rightarrow> u32 \<Rightarrow> kstate \<Rightarrow> (rt_err_t \<times> kstate) option" where
  "rt_mq_control mq cmd arg s = do {
     RT_ASSERT (mq \<noteq> RT_NULL);
     if cmd = RT_IPC_CMD_RESET
     then do {
       s \<leftarrow> rt_ipc_list_resume_all (Susp mq) s;
       s \<leftarrow> mq_release_all mq s;
       s \<leftarrow> rt_schedule (set_mq mq (\<lambda>q. q\<lparr>mq_entry := 0\<rparr>) s);
       Some (RT_EOK, s)
     }
     else Some (- RT_ERROR, s)
   }"

section \<open>The two lists of nodes\<close>

fun path :: "(ptr \<Rightarrow> rt_mq_message) \<Rightarrow> ptr \<Rightarrow> ptr list \<Rightarrow> bool" where
  "path N p [] \<longleftrightarrow> p = RT_NULL"
| "path N p (x # xs) \<longleftrightarrow> p = x \<and> x \<noteq> RT_NULL \<and> path N (msg_next (N x)) xs"

text \<open>Following the links for at most \<open>n\<close> nodes.\<close>

fun mq_walk :: "(ptr \<Rightarrow> rt_mq_message) \<Rightarrow> nat \<Rightarrow> ptr \<Rightarrow> ptr list" where
  "mq_walk N 0 p = []"
| "mq_walk N (Suc n) p = (if p = RT_NULL then [] else p # mq_walk N n (msg_next (N p)))"

definition mq_used :: "ptr \<Rightarrow> kstate \<Rightarrow> ptr list" where
  "mq_used mq s = mq_walk (mq_nodes s) (unat (mq_max_msgs (mqs s mq))) (mq_msg_queue_head (mqs s mq))"

definition mq_free :: "ptr \<Rightarrow> kstate \<Rightarrow> ptr list" where
  "mq_free mq s = mq_walk (mq_nodes s) (unat (mq_max_msgs (mqs s mq))) (mq_msg_queue_free (mqs s mq))"

definition mq_rep :: "ptr \<Rightarrow> kstate \<Rightarrow> ptr list \<Rightarrow> ptr list \<Rightarrow> bool" where
  "mq_rep mq s us fs \<longleftrightarrow> (let q = mqs s mq in
     path (mq_nodes s) (mq_msg_queue_head q) us \<and> path (mq_nodes s) (mq_msg_queue_free q) fs \<and>
     distinct (us @ fs) \<and> mq_msg_queue_tail q = (if us = [] then RT_NULL else last us) \<and>
     unat (mq_entry q) = length us \<and> length us + length fs = unat (mq_max_msgs q))"

definition mq_inv :: "ptr \<Rightarrow> kstate \<Rightarrow> bool" where
  "mq_inv mq s \<longleftrightarrow> mq_rep mq s (mq_used mq s) (mq_free mq s)"

definition mq_contents :: "ptr \<Rightarrow> kstate \<Rightarrow> u8 list list" where
  "mq_contents mq s = map (\<lambda>p. copy_out (unat (mq_msg_size (mqs s mq))) (mq_nodes s p)) (mq_used mq s)"

section \<open>Lemmas\<close>

lemma set_mq_fields [simp]:
  "threads (set_mq p f s) = threads s" "tqs (set_mq p f s) = tqs s" "objects (set_mq p f s) = objects s"
  "timers (set_mq p f s) = timers s" "timer_list (set_mq p f s) = timer_list s"
  "mqs (set_mq p f s) = (mqs s)(p := f (mqs s p))" "mq_nodes (set_mq p f s) = mq_nodes s"
  "ready_group (set_mq p f s) = ready_group s" "rt_tick (set_mq p f s) = rt_tick s"
  "rt_current_thread (set_mq p f s) = rt_current_thread s"
  "rt_interrupt_nest (set_mq p f s) = rt_interrupt_nest s"
  "rt_scheduler_lock_nest (set_mq p f s) = rt_scheduler_lock_nest s"
  by (simp_all add: set_mq_def)

lemma set_node_fields [simp]:
  "threads (set_node p g s) = threads s" "tqs (set_node p g s) = tqs s" "objects (set_node p g s) = objects s"
  "timers (set_node p g s) = timers s" "timer_list (set_node p g s) = timer_list s"
  "mqs (set_node p g s) = mqs s" "mq_nodes (set_node p g s) = (mq_nodes s)(p := g (mq_nodes s p))"
  "ready_group (set_node p g s) = ready_group s" "rt_tick (set_node p g s) = rt_tick s"
  "rt_current_thread (set_node p g s) = rt_current_thread s"
  "rt_interrupt_nest (set_node p g s) = rt_interrupt_nest s"
  "rt_scheduler_lock_nest (set_node p g s) = rt_scheduler_lock_nest s"
  by (simp_all add: set_node_def)

lemma set_mq_twice: "set_mq p f (set_mq p g s) = set_mq p (\<lambda>q. f (g q)) s"
  by (simp add: set_mq_def)

lemma thread_inv_set_mq [simp]: "thread_inv (set_mq p f s) = thread_inv s"
  by (rule thread_inv_cong) simp_all

lemma thread_inv_set_node [simp]: "thread_inv (set_node p g s) = thread_inv s"
  by (rule thread_inv_cong) simp_all

lemma path_cong:
  "(\<And>x. x \<in> set xs \<Longrightarrow> msg_next (N x) = msg_next (M x)) \<Longrightarrow> path N p xs = path M p xs"
  by (induction xs arbitrary: p) auto

lemma path_upd [simp]: "x \<notin> set xs \<Longrightarrow> path (N(x := v)) p xs = path N p xs"
  by (rule path_cong) auto

lemma path_not_null: "path N p xs \<Longrightarrow> RT_NULL \<notin> set xs"
  by (induction xs arbitrary: p) auto

lemma path_head: "path N p xs \<Longrightarrow> p = (case xs of [] \<Rightarrow> RT_NULL | x # _ \<Rightarrow> x)"
  by (cases xs) auto

lemma path_append:
  assumes "path N p xs" "distinct xs" "x \<notin> set xs" "x \<noteq> RT_NULL" "xs \<noteq> []"
    "msg_next (M x) = RT_NULL" "msg_next (M (last xs)) = x"
    "\<And>y. y \<in> set xs \<Longrightarrow> y \<noteq> last xs \<Longrightarrow> msg_next (M y) = msg_next (N y)"
  shows "path M p (xs @ [x])"
  using assms
proof (induction xs arbitrary: p)
  case (Cons y ys)
  show ?case
  proof (cases "ys = []")
    case True
    then show ?thesis using Cons.prems by auto
  next
    case False
    then have "y \<noteq> last ys" using Cons.prems(2) by auto
    then have "msg_next (M y) = msg_next (N y)" using Cons.prems(8) [of y] False by simp
    moreover have "path M (msg_next (N y)) (ys @ [x])"
      using False Cons.prems by (intro Cons.IH) auto
    ultimately show ?thesis using Cons.prems(1) by simp
  qed
qed simp

lemma mq_walk_path: "path N p xs \<Longrightarrow> length xs \<le> n \<Longrightarrow> mq_walk N n p = xs"
proof (induction xs arbitrary: p n)
  case Nil
  then show ?case by (cases n) auto
next
  case (Cons x xs)
  then show ?case by (cases n) auto
qed

lemma mq_repD:
  assumes "mq_rep mq s us fs"
  shows "mq_used mq s = us" "mq_free mq s = fs" "mq_inv mq s"
    "mq_contents mq s = map (\<lambda>p. copy_out (unat (mq_msg_size (mqs s mq))) (mq_nodes s p)) us"
proof -
  show u: "mq_used mq s = us" "mq_free mq s = fs"
    using assms by (auto simp: mq_rep_def mq_used_def mq_free_def Let_def intro!: mq_walk_path)
  show "mq_inv mq s" using assms by (simp add: mq_inv_def u)
  show "mq_contents mq s = map (\<lambda>p. copy_out (unat (mq_msg_size (mqs s mq))) (mq_nodes s p)) us"
    by (simp add: mq_contents_def u)
qed

lemma mq_invE:
  assumes "mq_inv mq s"
  obtains us fs where "mq_rep mq s us fs" "mq_used mq s = us" "mq_free mq s = fs"
  using assms by (simp add: mq_inv_def)

lemma mq_empty_iff: "mq_inv mq s \<Longrightarrow> mq_empty mq s \<longleftrightarrow> mq_contents mq s = []"
  by (auto simp: mq_inv_def mq_empty_def mq_contents_def mq_rep_def Let_def word_unat_eq_iff)

lemma mq_rep_cong:
  "mqs s' mq = mqs s mq \<Longrightarrow> mq_nodes s' = mq_nodes s \<Longrightarrow> mq_rep mq s' us fs = mq_rep mq s us fs"
  by (simp add: mq_rep_def)

text \<open>The effect of the three operations on the queue and its nodes.\<close>

definition mq_appended :: "ptr \<Rightarrow> u8 list \<Rightarrow> nat \<Rightarrow> kstate \<Rightarrow> kstate" where
  "mq_appended mq b n s =
     (let q = mqs s mq; f = mq_msg_queue_free q; t = mq_msg_queue_tail q;
          N = (mq_nodes s)(f := copy_in b n ((mq_nodes s f)\<lparr>msg_next := RT_NULL\<rparr>))
      in s\<lparr>mq_nodes := (if t \<noteq> RT_NULL then N(t := (N t)\<lparr>msg_next := f\<rparr>) else N),
           mqs := (mqs s)(mq := q\<lparr>mq_msg_queue_free := msg_next (mq_nodes s f), mq_msg_queue_tail := f,
             mq_msg_queue_head := (if mq_msg_queue_head q = RT_NULL then f else mq_msg_queue_head q),
             mq_entry := mq_entry q + 1\<rparr>)\<rparr>)"

definition mq_pushed :: "ptr \<Rightarrow> u8 list \<Rightarrow> nat \<Rightarrow> kstate \<Rightarrow> kstate" where
  "mq_pushed mq b n s =
     (let q = mqs s mq; f = mq_msg_queue_free q
      in s\<lparr>mq_nodes := (mq_nodes s)(f := (copy_in b n (mq_nodes s f))\<lparr>msg_next := mq_msg_queue_head q\<rparr>),
           mqs := (mqs s)(mq := q\<lparr>mq_msg_queue_free := msg_next (mq_nodes s f), mq_msg_queue_head := f,
             mq_msg_queue_tail := (if mq_msg_queue_tail q = RT_NULL then f else mq_msg_queue_tail q),
             mq_entry := mq_entry q + 1\<rparr>)\<rparr>)"

definition mq_taken :: "ptr \<Rightarrow> kstate \<Rightarrow> kstate" where
  "mq_taken mq s =
     (let q = mqs s mq; h = mq_msg_queue_head q
      in s\<lparr>mq_nodes := (mq_nodes s)(h := (mq_nodes s h)\<lparr>msg_next := mq_msg_queue_free q\<rparr>),
           mqs := (mqs s)(mq := q\<lparr>mq_msg_queue_head := msg_next (mq_nodes s h),
             mq_msg_queue_tail := (if mq_msg_queue_tail q = h then RT_NULL else mq_msg_queue_tail q),
             mq_entry := mq_entry q - 1, mq_msg_queue_free := h\<rparr>)\<rparr>)"

lemma rt_mq_send_eq:
  assumes "mq \<noteq> RT_NULL" "n \<noteq> 0" "\<not> ucast (mq_msg_size (mqs s mq)) < n" "unat n \<le> length b"
  shows "rt_mq_send mq (Some b) n s =
    (if mq_msg_queue_free (mqs s mq) = RT_NULL then Some (- RT_EFULL, s)
     else Option.bind (wake_one (Susp mq) (mq_appended mq b (unat n) s)) (\<lambda>s. Some (RT_EOK, s)))"
  using assms
  by (simp add: rt_mq_send_def mq_appended_def set_mq_def set_node_def Let_def fun_upd_def cong: if_cong)

lemma rt_mq_urgent_eq:
  assumes "mq \<noteq> RT_NULL" "n \<noteq> 0" "\<not> ucast (mq_msg_size (mqs s mq)) < n" "unat n \<le> length b"
  shows "rt_mq_urgent mq (Some b) n s =
    (if mq_msg_queue_free (mqs s mq) = RT_NULL then Some (- RT_EFULL, s)
     else Option.bind (wake_one (Susp mq) (mq_pushed mq b (unat n) s)) (\<lambda>s. Some (RT_EOK, s)))"
  using assms
  by (simp add: rt_mq_urgent_def mq_pushed_def set_mq_def set_node_def Let_def fun_upd_def cong: if_cong)

lemma unat_ucast_u16: "unat (ucast (x :: u16) :: u32) = unat x"
  using unat_u16_less [of x] by (simp add: unsigned_ucast_eq take_bit_nat_eq_self_iff)

lemma mq_take_eq:
  assumes "mq_msg_queue_head (mqs s mq) \<noteq> RT_NULL"
  shows "mq_take mq n s =
     Some (copy_out (min (unat (mq_msg_size (mqs s mq))) (unat n)) (mq_nodes s (mq_msg_queue_head (mqs s mq))),
       mq_taken mq s)"
proof -
  have "unat (if ucast (mq_msg_size (mqs s mq)) < n then ucast (mq_msg_size (mqs s mq)) else n) =
      min (unat (mq_msg_size (mqs s mq))) (unat n)"
    by (simp add: word_less_nat_alt unat_ucast_u16)
  then show ?thesis
    using assms
    by (simp add: mq_take_def mq_taken_def set_mq_def set_node_def Let_def fun_upd_def cong: if_cong)
qed

text \<open>Each of them keeps the two lists.\<close>

lemma mq_rep_appended:
  assumes "mq_rep mq s us (f # fs)"
  shows "mq_rep mq (mq_appended mq b n s) (us @ [f]) fs"
    "p \<in> set us \<Longrightarrow> msg_payload (mq_nodes (mq_appended mq b n s) p) = msg_payload (mq_nodes s p)"
    "msg_payload (mq_nodes (mq_appended mq b n s) f) = msg_payload (copy_in b n (mq_nodes s f))"
    "mq_msg_queue_free (mqs s mq) = f" "f \<noteq> RT_NULL"
proof -
  let ?q = "mqs s mq" and ?N = "mq_nodes s" and ?M = "mq_nodes (mq_appended mq b n s)"
  have r: "path ?N (mq_msg_queue_head ?q) us" "mq_msg_queue_free ?q = f" "f \<noteq> RT_NULL" "path ?N (msg_next (?N f)) fs"
    "distinct us" "distinct fs" "f \<notin> set us" "f \<notin> set fs" "set us \<inter> set fs = {}"
    "mq_msg_queue_tail ?q = (if us = [] then RT_NULL else last us)" "unat (mq_entry ?q) = length us"
    "length us + Suc (length fs) = unat (mq_max_msgs ?q)"
    using assms by (auto simp: mq_rep_def Let_def)
  show "mq_msg_queue_free ?q = f" "f \<noteq> RT_NULL" by (fact r)+
  have t: "us \<noteq> [] \<Longrightarrow> last us \<noteq> RT_NULL" "us \<noteq> [] \<Longrightarrow> last us \<in> set us"
    using path_not_null [OF r(1)] by (metis last_in_set)+
  then have tf: "us \<noteq> [] \<Longrightarrow> last us \<noteq> f" using r(7) by auto
  have M: "?M f = copy_in b n ((?N f)\<lparr>msg_next := RT_NULL\<rparr>)"
    "us \<noteq> [] \<Longrightarrow> ?M (last us) = (?N (last us))\<lparr>msg_next := f\<rparr>"
    "p \<noteq> f \<Longrightarrow> us = [] \<or> p \<noteq> last us \<Longrightarrow> ?M p = ?N p" for p
    using r(2,10) t tf by (auto simp: mq_appended_def Let_def)
  show "msg_payload (?M p) = msg_payload (?N p)" if "p \<in> set us"
  proof -
    have "us \<noteq> []" "p \<noteq> f" using that r(7) by auto
    then show ?thesis using M(2) M(3) [of p] by (cases "p = last us") simp_all
  qed
  show "msg_payload (?M f) = msg_payload (copy_in b n (?N f))" by (simp add: M(1) copy_in_def cong: if_cong)
  have "path ?M (if mq_msg_queue_head ?q = RT_NULL then f else mq_msg_queue_head ?q) (us @ [f])"
  proof (cases "us = []")
    case True
    then show ?thesis using r(1,3) M(1) by (simp add: copy_in_def)
  next
    case False
    then have "mq_msg_queue_head ?q \<noteq> RT_NULL" using r(1) by (cases us) auto
    moreover have "path ?M (mq_msg_queue_head ?q) (us @ [f])"
    proof (rule path_append [OF r(1,5,7,3) False])
      show "msg_next (?M y) = msg_next (?N y)" if "y \<in> set us" "y \<noteq> last us" for y
        using that M(3) [of y] r(7) by (cases "y = f") auto
    qed (simp_all add: M False copy_in_def)
    ultimately show ?thesis by simp
  qed
  moreover have "path ?M (msg_next (?N f)) fs"
  proof -
    have "?M x = ?N x" if "x \<in> set fs" for x
      using that M(3) [of x] r(8,9) t(2) by (metis disjoint_iff)
    then have "path ?M (msg_next (?N f)) fs = path ?N (msg_next (?N f)) fs" by (intro path_cong) simp
    then show ?thesis using r(4) by simp
  qed
  moreover have "unat (mq_entry ?q + 1) = Suc (length us)"
    using r(11,12) unat_u16_less [of "mq_max_msgs ?q"] by (subst unat_inc) simp_all
  moreover have "mqs (mq_appended mq b n s) mq = ?q\<lparr>mq_msg_queue_free := msg_next (?N f), mq_msg_queue_tail := f,
      mq_msg_queue_head := (if mq_msg_queue_head ?q = RT_NULL then f else mq_msg_queue_head ?q), mq_entry := mq_entry ?q + 1\<rparr>"
    by (simp add: mq_appended_def Let_def r(2))
  ultimately show "mq_rep mq (mq_appended mq b n s) (us @ [f]) fs"
    using r(5-9,12) by (simp add: mq_rep_def Let_def)
qed

lemma mq_rep_pushed:
  assumes "mq_rep mq s us (f # fs)"
  shows "mq_rep mq (mq_pushed mq b n s) (f # us) fs"
    "p \<noteq> f \<Longrightarrow> mq_nodes (mq_pushed mq b n s) p = mq_nodes s p"
    "msg_payload (mq_nodes (mq_pushed mq b n s) f) = msg_payload (copy_in b n (mq_nodes s f))"
    "mq_msg_queue_free (mqs s mq) = f" "f \<noteq> RT_NULL"
proof -
  let ?q = "mqs s mq" and ?N = "mq_nodes s"
  have r: "path ?N (mq_msg_queue_head ?q) us" "mq_msg_queue_free ?q = f" "f \<noteq> RT_NULL" "path ?N (msg_next (?N f)) fs"
    "distinct us" "distinct fs" "f \<notin> set us" "f \<notin> set fs" "set us \<inter> set fs = {}"
    "mq_msg_queue_tail ?q = (if us = [] then RT_NULL else last us)" "unat (mq_entry ?q) = length us"
    "length us + Suc (length fs) = unat (mq_max_msgs ?q)"
    using assms by (auto simp: mq_rep_def Let_def)
  show "mq_msg_queue_free ?q = f" "f \<noteq> RT_NULL" by (fact r)+
  show "mq_nodes (mq_pushed mq b n s) p = ?N p" if "p \<noteq> f" using that r(2) by (simp add: mq_pushed_def Let_def)
  show "msg_payload (mq_nodes (mq_pushed mq b n s) f) = msg_payload (copy_in b n (?N f))"
    using r(2) by (simp add: mq_pushed_def Let_def)
  have "us \<noteq> [] \<Longrightarrow> last us \<noteq> RT_NULL" using path_not_null [OF r(1)] by (metis last_in_set)
  moreover have "unat (mq_entry ?q + 1) = Suc (length us)"
    using r(11,12) unat_u16_less [of "mq_max_msgs ?q"] by (subst unat_inc) simp_all
  ultimately show "mq_rep mq (mq_pushed mq b n s) (f # us) fs"
    using r by (auto simp: mq_rep_def mq_pushed_def Let_def)
qed

lemma mq_rep_taken:
  assumes "mq_rep mq s (h # us) fs"
  shows "mq_rep mq (mq_taken mq s) us (h # fs)"
    "msg_payload (mq_nodes (mq_taken mq s) p) = msg_payload (mq_nodes s p)"
    "mq_msg_queue_head (mqs s mq) = h" "h \<noteq> RT_NULL"
proof -
  let ?q = "mqs s mq" and ?N = "mq_nodes s"
  have r: "mq_msg_queue_head ?q = h" "h \<noteq> RT_NULL" "path ?N (msg_next (?N h)) us" "path ?N (mq_msg_queue_free ?q) fs"
    "distinct us" "distinct fs" "h \<notin> set us" "h \<notin> set fs" "set us \<inter> set fs = {}"
    "mq_msg_queue_tail ?q = last (h # us)" "unat (mq_entry ?q) = Suc (length us)"
    "Suc (length us + length fs) = unat (mq_max_msgs ?q)"
    using assms by (auto simp: mq_rep_def Let_def)
  show "mq_msg_queue_head ?q = h" "h \<noteq> RT_NULL" by (fact r)+
  show "msg_payload (mq_nodes (mq_taken mq s) p) = msg_payload (?N p)"
    by (simp add: mq_taken_def Let_def)
  have "us \<noteq> [] \<Longrightarrow> last us \<noteq> h" using r(7) by auto
  moreover have "unat (mq_entry ?q - 1) = length us"
    using r(11) by (subst unat_minus_one) auto
  ultimately show "mq_rep mq (mq_taken mq s) us (h # fs)"
    using r by (auto simp: mq_rep_def mq_taken_def Let_def)
qed

section \<open>The calls\<close>

definition mq_ready :: "ptr \<Rightarrow> kstate \<Rightarrow> bool" where
  "mq_ready mq s \<longleftrightarrow> mq \<noteq> RT_NULL \<and> thread_inv s \<and> mq_inv mq s \<and> mq_msg_size (mqs s mq) \<noteq> 0"

lemma mq_effect_inv [simp]:
  "thread_inv (mq_appended mq b n s) = thread_inv s" "thread_inv (mq_pushed mq b n s) = thread_inv s"
  "thread_inv (mq_taken mq s) = thread_inv s"
  by (rule thread_inv_cong; simp add: mq_appended_def mq_pushed_def mq_taken_def Let_def)+

lemma mq_effect_fields [simp]:
  "tqs (mq_appended mq b n s) = tqs s" "tqs (mq_pushed mq b n s) = tqs s" "tqs (mq_taken mq s) = tqs s"
  "threads (mq_appended mq b n s) = threads s" "threads (mq_pushed mq b n s) = threads s"
  "mq_msg_size (mqs (mq_appended mq b n s) mq) = mq_msg_size (mqs s mq)"
  "mq_msg_size (mqs (mq_pushed mq b n s) mq) = mq_msg_size (mqs s mq)"
  "mq_msg_size (mqs (mq_taken mq s) mq) = mq_msg_size (mqs s mq)"
  "mq_max_msgs (mqs (mq_appended mq b n s) mq) = mq_max_msgs (mqs s mq)"
  "mq_max_msgs (mqs (mq_pushed mq b n s) mq) = mq_max_msgs (mqs s mq)"
  "mq_max_msgs (mqs (mq_taken mq s) mq) = mq_max_msgs (mqs s mq)"
  by (simp_all add: mq_appended_def mq_pushed_def mq_taken_def Let_def)

text \<open>A message of \<open>n\<close> bytes in a node of \<open>k\<close> bytes: the rest is what the node held before.\<close>

lemma copy_out_cong: "msg_payload m = msg_payload m' \<Longrightarrow> copy_out k m = copy_out k m'"
  by (simp add: copy_out_def)

lemma take_copy_in: "n \<le> k \<Longrightarrow> n \<le> length b \<Longrightarrow> take n (copy_out k (copy_in b n m)) = take n b"
  by (rule nth_equalityI) (auto simp: copy_out_def copy_in_def)

lemma take_copy_out: "take n (copy_out k m) = copy_out (min k n) m"
  by (rule nth_equalityI) (auto simp: copy_out_def)

lemma length_copy_out [simp]: "length (copy_out k m) = k"
  by (simp add: copy_out_def)

lemma mq_full_iff:
  "mq_inv mq s \<Longrightarrow> mq_msg_queue_free (mqs s mq) = RT_NULL \<longleftrightarrow> length (mq_contents mq s) = unat (mq_max_msgs (mqs s mq))"
proof -
  assume "mq_inv mq s"
  then obtain us fs where r: "mq_rep mq s us fs" by (rule mq_invE)
  then have "mq_msg_queue_free (mqs s mq) = RT_NULL \<longleftrightarrow> fs = []" by (cases fs) (auto simp: mq_rep_def Let_def)
  then show ?thesis using r by (auto simp: mq_repD(4) [OF r]) (auto simp: mq_rep_def Let_def)
qed

text \<open>The hand-over at the end of a send, from the state with the message linked in.\<close>

lemma mq_handover:
  assumes "thread_inv s" "mq_rep mq s us fs"
  obtains s' where "wake_one (Susp mq) s = Some s'" "thread_inv s'" "mq_rep mq s' us fs" "mqs s' = mqs s"
    "mq_nodes s' = mq_nodes s" "tqs s' (Susp mq) = tl (tqs s (Susp mq))"
    "\<And>t ts. tqs s (Susp mq) = t # ts \<Longrightarrow> th_stat (threads s' t) = RT_THREAD_READY \<and>
       th_error (threads s' t) = th_error (threads s t)"
proof -
  from wake_one_total [OF assms(1) wait_list_simps(1), of mq]
  obtain s' where s': "wake_one (Susp mq) s = Some s'" "thread_inv s'" "mqs s' = mqs s" "mq_nodes s' = mq_nodes s"
    "tqs s' (Susp mq) = tl (tqs s (Susp mq))"
    "\<And>t ts. tqs s (Susp mq) = t # ts \<Longrightarrow> th_stat (threads s' t) = RT_THREAD_READY \<and>
       th_error (threads s' t) = th_error (threads s t)" by auto
  have "mq_rep mq s' us fs" using assms(2) s'(3,4) mq_rep_cong [of s' mq s] by simp
  then show ?thesis using that [OF s'(1,2)] s'(3-6) by blast
qed

text \<open>When a message can be stored: the queue is not full, the size is right and the buffer holds it.\<close>

definition mq_fits :: "ptr \<Rightarrow> u8 list \<Rightarrow> rt_size_t \<Rightarrow> kstate \<Rightarrow> bool" where
  "mq_fits mq b n s \<longleftrightarrow> length (mq_contents mq s) < unat (mq_max_msgs (mqs s mq)) \<and>
     0 < unat n \<and> unat n \<le> unat (mq_msg_size (mqs s mq)) \<and> unat n \<le> length b"

text \<open>A message was linked in: what the caller of either form of sending can rely on.\<close>

definition mq_stored :: "ptr \<Rightarrow> u8 list \<Rightarrow> rt_size_t \<Rightarrow> kstate \<Rightarrow> u8 list \<Rightarrow> kstate \<Rightarrow> bool" where
  "mq_stored mq b n s x s' \<longleftrightarrow> mq_ready mq s' \<and> take (unat n) x = take (unat n) b \<and>
     length x = unat (mq_msg_size (mqs s mq)) \<and> mq_msg_size (mqs s' mq) = mq_msg_size (mqs s mq) \<and>
     mq_max_msgs (mqs s' mq) = mq_max_msgs (mqs s mq) \<and> tqs s' (Susp mq) = tl (tqs s (Susp mq)) \<and>
     (\<forall>t ts. tqs s (Susp mq) = t # ts \<longrightarrow> th_stat (threads s' t) = RT_THREAD_READY \<and>
        th_error (threads s' t) = th_error (threads s t))"

lemma mq_fitsE:
  assumes "mq_ready mq s" "mq_fits mq b n s"
  obtains us f fs where "mq_rep mq s us (f # fs)" "n \<noteq> 0" "\<not> ucast (mq_msg_size (mqs s mq)) < n"
    "mq \<noteq> RT_NULL" "thread_inv s" "unat n \<le> length b"
proof -
  have i: "mq \<noteq> RT_NULL" "thread_inv s" "mq_inv mq s" using assms(1) by (simp_all add: mq_ready_def)
  have n: "n \<noteq> 0" "\<not> ucast (mq_msg_size (mqs s mq)) < n" "unat n \<le> length b"
    using assms(2) by (auto simp: mq_fits_def word_less_nat_alt unat_ucast_u16)
  obtain us fs where r: "mq_rep mq s us fs" using i(3) by (rule mq_invE)
  then obtain f gs where "fs = f # gs"
    using assms(2) by (cases fs) (auto simp: mq_fits_def mq_repD(4) [OF r] mq_rep_def Let_def)
  then show ?thesis using that r n i by blast
qed

lemma mq_send_ok:
  assumes "mq_ready mq s" "mq_fits mq b n s"
  obtains s' x where "rt_mq_send mq (Some b) n s = Some (RT_EOK, s')" "mq_stored mq b n s x s'"
    "mq_contents mq s' = mq_contents mq s @ [x]"
proof -
  obtain us f fs where r: "mq_rep mq s us (f # fs)" "n \<noteq> 0" "\<not> ucast (mq_msg_size (mqs s mq)) < n"
    "mq \<noteq> RT_NULL" "thread_inv s" "unat n \<le> length b" using mq_fitsE [OF assms] .
  note a = mq_rep_appended(1-3) [where b = b and n = "unat n", OF r(1)] mq_rep_appended(4,5) [OF r(1)]
  let ?s = "mq_appended mq b (unat n) s" and ?k = "unat (mq_msg_size (mqs s mq))"
  let ?x = "copy_out ?k (copy_in b (unat n) (mq_nodes s f))"
  have inv: "thread_inv ?s" using r(5) by simp
  obtain s' where s': "wake_one (Susp mq) ?s = Some s'" "thread_inv s'" "mq_rep mq s' (us @ [f]) fs" "mqs s' = mqs ?s"
    "mq_nodes s' = mq_nodes ?s" "tqs s' (Susp mq) = tl (tqs ?s (Susp mq))"
    "\<And>t ts. tqs ?s (Susp mq) = t # ts \<Longrightarrow> th_stat (threads s' t) = RT_THREAD_READY \<and>
       th_error (threads s' t) = th_error (threads ?s t)" using mq_handover [OF inv a(1)] by blast
  have "mq_contents mq s' = mq_contents mq s @ [?x]"
    using a(2,3) by (simp add: mq_repD(4) [OF s'(3)] mq_repD(4) [OF r(1)] s' copy_out_def)
  moreover have "rt_mq_send mq (Some b) n s = Some (RT_EOK, s')"
    using rt_mq_send_eq [OF r(4,2,3,6)] a(4,5) s'(1) by simp
  moreover have "mq_stored mq b n s ?x s'"
    using s' mq_repD(3) [OF s'(3)] assms r(4) by (simp add: mq_stored_def mq_ready_def mq_fits_def take_copy_in)
  ultimately show ?thesis using that by blast
qed

lemma mq_urgent_ok:
  assumes "mq_ready mq s" "mq_fits mq b n s"
  obtains s' x where "rt_mq_urgent mq (Some b) n s = Some (RT_EOK, s')" "mq_stored mq b n s x s'"
    "mq_contents mq s' = x # mq_contents mq s"
proof -
  obtain us f fs where r: "mq_rep mq s us (f # fs)" "n \<noteq> 0" "\<not> ucast (mq_msg_size (mqs s mq)) < n"
    "mq \<noteq> RT_NULL" "thread_inv s" "unat n \<le> length b" using mq_fitsE [OF assms] .
  note a = mq_rep_pushed(1-3) [where b = b and n = "unat n", OF r(1)] mq_rep_pushed(4,5) [OF r(1)]
  let ?s = "mq_pushed mq b (unat n) s" and ?k = "unat (mq_msg_size (mqs s mq))"
  let ?x = "copy_out ?k (copy_in b (unat n) (mq_nodes s f))"
  have inv: "thread_inv ?s" using r(5) by simp
  obtain s' where s': "wake_one (Susp mq) ?s = Some s'" "thread_inv s'" "mq_rep mq s' (f # us) fs" "mqs s' = mqs ?s"
    "mq_nodes s' = mq_nodes ?s" "tqs s' (Susp mq) = tl (tqs ?s (Susp mq))"
    "\<And>t ts. tqs ?s (Susp mq) = t # ts \<Longrightarrow> th_stat (threads s' t) = RT_THREAD_READY \<and>
       th_error (threads s' t) = th_error (threads ?s t)" using mq_handover [OF inv a(1)] by blast
  have "f \<notin> set us" using r(1) by (simp add: mq_rep_def Let_def)
  then have "map (\<lambda>p. copy_out ?k (mq_nodes ?s p)) us = map (\<lambda>p. copy_out ?k (mq_nodes s p)) us"
    using a(2) by (intro map_cong refl) metis
  then have "mq_contents mq s' = ?x # mq_contents mq s"
    using a(3) by (simp add: mq_repD(4) [OF s'(3)] mq_repD(4) [OF r(1)] s') (simp add: copy_out_def)
  moreover have "rt_mq_urgent mq (Some b) n s = Some (RT_EOK, s')"
    using rt_mq_urgent_eq [OF r(4,2,3,6)] a(4,5) s'(1) by simp
  moreover have "mq_stored mq b n s ?x s'"
    using s' mq_repD(3) [OF s'(3)] assms r(4) by (simp add: mq_stored_def mq_ready_def mq_fits_def take_copy_in)
  ultimately show ?thesis using that by blast
qed

lemma mq_recv_ok:
  assumes "mq_ready mq s" "mq_contents mq s = x # xs" "n \<noteq> 0" "buffer \<noteq> RT_NULL"
  obtains s' where "\<And>ws timeout. rt_mq_recv ws mq buffer n timeout s = Some (RT_EOK, Some (take (unat n) x), s')"
    "mq_take mq n s = Some (take (unat n) x, s')" "mq_ready mq s'" "mq_contents mq s' = xs"
    "mq_msg_size (mqs s' mq) = mq_msg_size (mqs s mq)" "mq_max_msgs (mqs s' mq) = mq_max_msgs (mqs s mq)"
    "tqs s' = tqs s"
proof -
  have i: "mq \<noteq> RT_NULL" "thread_inv s" "mq_inv mq s" using assms(1) by (simp_all add: mq_ready_def)
  obtain us fs where r: "mq_rep mq s us fs" using i(3) by (rule mq_invE)
  obtain h hs where us: "us = h # hs" using assms(2) by (cases us) (auto simp: mq_repD(4) [OF r])
  note a = mq_rep_taken [OF r [unfolded us]]
  let ?k = "unat (mq_msg_size (mqs s mq))"
  have x: "x = copy_out ?k (mq_nodes s h)" "xs = map (\<lambda>p. copy_out ?k (mq_nodes s p)) hs"
    using assms(2) by (auto simp: mq_repD(4) [OF r] us)
  have t: "mq_take mq n s = Some (take (unat n) x, mq_taken mq s)"
    using mq_take_eq [of s mq n] a(3,4) by (simp add: x take_copy_out)
  have "\<not> mq_empty mq s" using mq_empty_iff [OF i(3)] assms(2) by simp
  then have "rt_mq_recv ws mq buffer n timeout s = Some (RT_EOK, Some (take (unat n) x), mq_taken mq s)" for ws timeout
    using i(1) assms(3,4) t by (simp add: rt_mq_recv_def)
  moreover have "mq_contents mq (mq_taken mq s) = xs"
    using a(2) by (simp add: mq_repD(4) [OF a(1)] x copy_out_def)
  ultimately show ?thesis
    using that [of "mq_taken mq s"] t i mq_repD(3) [OF a(1)] assms(1) by (simp add: mq_ready_def)
qed

text \<open>Sending and receiving whole messages as the operations of a bounded FIFO.\<close>

definition mq_try_send :: "ptr \<Rightarrow> u8 list \<Rightarrow> kstate \<Rightarrow> kstate option" where
  "mq_try_send mq b s =
     (if length b = unat (mq_msg_size (mqs s mq))
      then case rt_mq_send mq (Some b) (of_nat (length b)) s of
          Some (e, s') \<Rightarrow> if e = RT_EOK then Some s' else None
        | None \<Rightarrow> None
      else None)"

definition mq_try_recv :: "ptr \<Rightarrow> ptr \<Rightarrow> kstate \<Rightarrow> (u8 list \<times> kstate) option" where
  "mq_try_recv mq buffer s =
     (case rt_mq_recv [] mq buffer (ucast (mq_msg_size (mqs s mq))) 0 s of
        Some (e, Some b, s') \<Rightarrow> if e = RT_EOK then Some (b, s') else None
      | _ \<Rightarrow> None)"

definition mq_usable :: "ptr \<Rightarrow> ptr \<Rightarrow> kstate \<Rightarrow> bool" where
  "mq_usable mq buffer s \<longleftrightarrow> mq_ready mq s \<and> buffer \<noteq> RT_NULL"

lemma mq_contents_length: "mq_inv mq s \<Longrightarrow> x \<in> set (mq_contents mq s) \<Longrightarrow> length x = unat (mq_msg_size (mqs s mq))"
  by (auto simp: mq_contents_def)

lemma mq_contents_bound: "mq_inv mq s \<Longrightarrow> length (mq_contents mq s) \<le> unat (mq_max_msgs (mqs s mq))"
proof -
  assume "mq_inv mq s"
  then obtain us fs where r: "mq_rep mq s us fs" by (rule mq_invE)
  then show ?thesis by (simp add: mq_repD(4) [OF r]) (simp add: mq_rep_def Let_def)
qed

lemma mq_stored_whole:
  "mq_stored mq b n s x s' \<Longrightarrow> length b = unat n \<Longrightarrow> unat n = unat (mq_msg_size (mqs s mq)) \<Longrightarrow> x = b"
  unfolding mq_stored_def by (metis order_refl take_all)

interpretation message_fifo: bounded_fifo "mq_usable mq buffer" "mq_contents mq"
  "\<lambda>s. unat (mq_max_msgs (mqs s mq))" "\<lambda>s x. length x = unat (mq_msg_size (mqs s mq))"
  "mq_try_send mq" "mq_try_recv mq buffer" for mq buffer
proof
  fix s :: kstate and x :: "u8 list"
  assume "mq_usable mq buffer s"
  then have r: "mq_ready mq s" "buffer \<noteq> RT_NULL" by (simp_all add: mq_usable_def)
  then have i: "mq \<noteq> RT_NULL" "thread_inv s" "mq_inv mq s" "mq_msg_size (mqs s mq) \<noteq> 0" by (simp_all add: mq_ready_def)
  let ?c = "mq_contents mq s" and ?n = "unat (mq_max_msgs (mqs s mq))" and ?k = "unat (mq_msg_size (mqs s mq))"
  have k: "0 < ?k" "?k < 65536" using i(4) unat_u16_less by (simp_all add: unat_gt_0)
  let ?u = "ucast (mq_msg_size (mqs s mq)) :: u32"
  have un: "unat ?u = ?k" by (rule unat_ucast_u16)
  then have u0: "?u \<noteq> 0" using k(1) by auto
  show "length ?c \<le> ?n" by (rule mq_contents_bound [OF i(3)])
  show "mq_try_send mq x s = None" if "length ?c = ?n \<or> length x \<noteq> ?k"
    using that rt_mq_send_eq [OF i(1) u0, of s x] un mq_full_iff [OF i(3)] by (auto simp: mq_try_send_def)
  show "mq_try_recv mq buffer s = None" if "?c = []"
    using that mq_empty_iff [OF i(3)] i(1) r(2) by (simp add: mq_try_recv_def rt_mq_recv_def split: option.splits)
      (simp add: RT_ASSERT_def)
  show "\<exists>s'. mq_try_send mq x s = Some s' \<and> mq_usable mq buffer s' \<and> mq_contents mq s' = ?c @ [x] \<and>
      unat (mq_max_msgs (mqs s' mq)) = ?n \<and>
      (\<lambda>x. length x = unat (mq_msg_size (mqs s' mq))) = (\<lambda>x. length x = ?k)" if "length ?c < ?n" "length x = ?k"
  proof -
    have "mq_fits mq x ?u s" using that k un by (simp add: mq_fits_def)
    from mq_send_ok [OF r(1) this] obtain s' y where
      s': "rt_mq_send mq (Some x) ?u s = Some (RT_EOK, s')" "mq_stored mq x ?u s y s'"
      "mq_contents mq s' = ?c @ [y]" .
    then show ?thesis using mq_stored_whole [OF s'(2)] that(2) un r(2)
      by (auto simp: mq_try_send_def mq_usable_def mq_stored_def)
  qed
  show "\<exists>s'. mq_try_recv mq buffer s = Some (y, s') \<and> mq_usable mq buffer s' \<and> mq_contents mq s' = ys \<and>
      unat (mq_max_msgs (mqs s' mq)) = ?n" if "?c = y # ys" for y ys
  proof -
    have l: "length y = ?k" using mq_contents_length [OF i(3), of y] that by simp
    from mq_recv_ok [OF r(1) that u0 r(2)] obtain s' where
      "\<And>ws timeout. rt_mq_recv ws mq buffer (ucast (mq_msg_size (mqs s mq))) timeout s =
         Some (RT_EOK, Some (take (unat (ucast (mq_msg_size (mqs s mq)) :: u32)) y), s')" "mq_ready mq s'"
      "mq_contents mq s' = ys" "mq_max_msgs (mqs s' mq) = mq_max_msgs (mqs s mq)" by blast
    then show ?thesis using l r(2) by (simp add: mq_try_recv_def mq_usable_def unat_ucast_u16)
  qed
qed

section \<open>Setting up and resetting\<close>

definition mq_node :: "ptr \<Rightarrow> u16 \<Rightarrow> nat \<Rightarrow> ptr" where
  "mq_node pool msg_size i = pool + of_nat i * (ucast msg_size + 4)"

lemma mq_init_free_fields:
  "mqs (mq_init_free n mq s) = (mqs s)(mq := (mqs s mq)\<lparr>mq_msg_queue_free :=
     (if n = 0 then mq_msg_queue_free (mqs s mq) else mq_node (mq_msg_pool (mqs s mq)) (mq_msg_size (mqs s mq)) (n - 1))\<rparr>)"
  "threads (mq_init_free n mq s) = threads s" "tqs (mq_init_free n mq s) = tqs s"
  "objects (mq_init_free n mq s) = objects s" "timers (mq_init_free n mq s) = timers s"
  "timer_list (mq_init_free n mq s) = timer_list s" "ready_group (mq_init_free n mq s) = ready_group s"
  by (induction n) (simp_all add: Let_def mq_node_def)

lemma mq_init_free_path:
  assumes "mq_msg_queue_free (mqs s mq) = RT_NULL"
    "\<And>i. i < n \<Longrightarrow> mq_node (mq_msg_pool (mqs s mq)) (mq_msg_size (mqs s mq)) i \<noteq> RT_NULL"
    "inj_on (mq_node (mq_msg_pool (mqs s mq)) (mq_msg_size (mqs s mq))) {..<n}"
  shows "path (mq_nodes (mq_init_free n mq s)) (mq_msg_queue_free (mqs (mq_init_free n mq s) mq))
     (rev (map (mq_node (mq_msg_pool (mqs s mq)) (mq_msg_size (mqs s mq))) [0..<n]))"
  using assms(2,3)
proof (induction n)
  case 0
  then show ?case using assms(1) by simp
next
  case (Suc n)
  let ?g = "mq_node (mq_msg_pool (mqs s mq)) (mq_msg_size (mqs s mq))"
  have "inj_on ?g {..<n}" using Suc.prems(2) by (rule inj_on_subset) auto
  moreover have "?g n \<notin> ?g ` {..<n}" using Suc.prems(2) by (simp add: lessThan_Suc)
  then have "?g n \<notin> set (rev (map ?g [0..<n]))" by auto
  moreover have "?g n \<noteq> RT_NULL" using Suc.prems(1) by simp
  moreover have "mq_init_free (Suc n) mq s = set_mq mq (\<lambda>q. q\<lparr>mq_msg_queue_free := ?g n\<rparr>)
      (set_node (?g n) (\<lambda>m. m\<lparr>msg_next := mq_msg_queue_free (mqs (mq_init_free n mq s) mq)\<rparr>) (mq_init_free n mq s))"
    by (simp add: Let_def mq_init_free_fields mq_node_def)
  moreover have "path ((mq_nodes (mq_init_free n mq s))(?g n := v)) (mq_msg_queue_free (mqs (mq_init_free n mq s) mq))
      (rev (map ?g [0..<n]))" for v
    by (rule path_upd [THEN iffD2]) (use calculation Suc.IH Suc.prems(1) in auto)
  ultimately show ?case by (simp del: mq_init_free.simps fun_upd_apply add: fun_upd_same)
qed

lemma unat_mq_node:
  assumes "unat pool + n * (unat msg_size + 4) < 2 ^ 32" "i < n"
  shows "unat (mq_node pool msg_size i) = unat pool + i * (unat msg_size + 4)"
proof -
  have "i * (unat msg_size + 4) \<le> n * (unat msg_size + 4)" using assms(2) by (intro mult_right_mono) auto
  then have b: "unat pool + i * (unat msg_size + 4) < 2 ^ 32" using assms(1) by linarith
  have "mq_node pool msg_size i = of_nat (unat pool + i * (unat msg_size + 4))"
    by (simp add: mq_node_def)
  then have "unat (mq_node pool msg_size i) = unat (of_nat (unat pool + i * (unat msg_size + 4)) :: u32)" by simp
  also have "\<dots> = unat pool + i * (unat msg_size + 4)" using b by (simp only: unsigned_of_nat) (simp add: take_bit_nat_eq_self_iff)
  finally show ?thesis .
qed

lemma mq_nodes_ok:
  assumes "0 < unat pool" "unat pool + n * (unat msg_size + 4) < 2 ^ 32"
  shows "i < n \<Longrightarrow> mq_node pool msg_size i \<noteq> RT_NULL" "inj_on (mq_node pool msg_size) {..<n}"
proof -
  show "mq_node pool msg_size i \<noteq> RT_NULL" if "i < n"
  proof
    assume "mq_node pool msg_size i = RT_NULL"
    then show False using unat_mq_node [OF assms(2) that] assms(1) by simp
  qed
  show "inj_on (mq_node pool msg_size) {..<n}"
  proof (rule inj_onI)
    fix i j assume "i \<in> {..<n}" "j \<in> {..<n}" "mq_node pool msg_size i = mq_node pool msg_size j"
    then have "unat pool + i * (unat msg_size + 4) = unat pool + j * (unat msg_size + 4)"
      using unat_mq_node [OF assms(2), of i] unat_mq_node [OF assms(2), of j] by (metis lessThan_iff)
    then have "i * (unat msg_size + 4) = j * (unat msg_size + 4)" by linarith
    then show "i = j" by (simp only: mult_cancel2) simp
  qed
qed

text \<open>The loop of the reset ends: each round moves one node from the queue to the free list.\<close>

lemma mq_release_all_path:
  assumes "path (mq_nodes s) (mq_msg_queue_head (mqs s mq)) us" "path (mq_nodes s) (mq_msg_queue_free (mqs s mq)) fs"
    "distinct (us @ fs)" "mq_msg_queue_tail (mqs s mq) = (if us = [] then RT_NULL else last us)"
  shows "\<exists>s'. mq_release_all mq s = Some s' \<and>
    path (mq_nodes s') (mq_msg_queue_free (mqs s' mq)) (rev us @ fs) \<and>
    mqs s' mq = (mqs s mq)\<lparr>mq_msg_queue_head := RT_NULL, mq_msg_queue_tail := RT_NULL,
      mq_msg_queue_free := mq_msg_queue_free (mqs s' mq)\<rparr> \<and>
    s' = s\<lparr>mqs := mqs s', mq_nodes := mq_nodes s'\<rparr>"
  using assms
proof (induction us arbitrary: s fs)
  case Nil
  then have "mq_release_all mq s = Some s" by (subst mq_release_all.simps) simp
  then show ?case using Nil by (cases "mqs s mq") auto
next
  case (Cons h us)
  let ?q = "mqs s mq" and ?N = "mq_nodes s"
  define s1 where "s1 = s\<lparr>mq_nodes := ?N(h := (?N h)\<lparr>msg_next := mq_msg_queue_free ?q\<rparr>),
    mqs := (mqs s)(mq := ?q\<lparr>mq_msg_queue_head := msg_next (?N h),
      mq_msg_queue_tail := (if mq_msg_queue_tail ?q = h then RT_NULL else mq_msg_queue_tail ?q),
      mq_msg_queue_free := h\<rparr>)\<rparr>"
  have h: "mq_msg_queue_head ?q = h" "h \<noteq> RT_NULL" "path ?N (msg_next (?N h)) us" "h \<notin> set us" "h \<notin> set fs"
    using Cons.prems by auto
  have step: "mq_release_all mq s = mq_release_all mq s1"
    using h(1,2) by (subst mq_release_all.simps)
      (simp add: s1_def set_mq_def set_node_def Let_def fun_upd_def cong: if_cong)
  have l: "us \<noteq> [] \<Longrightarrow> last us \<noteq> h" using h(4) by auto
  have "path (mq_nodes s1) (mq_msg_queue_head (mqs s1 mq)) us" using h by (simp add: s1_def)
  moreover have "path (mq_nodes s1) (mq_msg_queue_free (mqs s1 mq)) (h # fs)"
    using h Cons.prems(2) by (simp add: s1_def)
  moreover have "distinct (us @ h # fs)" using Cons.prems(3) by auto
  moreover have "mq_msg_queue_tail (mqs s1 mq) = (if us = [] then RT_NULL else last us)"
    using Cons.prems(4) l by (simp add: s1_def)
  ultimately obtain s' where s': "mq_release_all mq s1 = Some s'"
    "path (mq_nodes s') (mq_msg_queue_free (mqs s' mq)) (rev us @ h # fs)"
    "mqs s' mq = (mqs s1 mq)\<lparr>mq_msg_queue_head := RT_NULL, mq_msg_queue_tail := RT_NULL,
      mq_msg_queue_free := mq_msg_queue_free (mqs s' mq)\<rparr>"
    "s' = s1\<lparr>mqs := mqs s', mq_nodes := mq_nodes s'\<rparr>" using Cons.IH [of s1 "h # fs"] by blast
  have "s1\<lparr>mqs := m, mq_nodes := n\<rparr> = s\<lparr>mqs := m, mq_nodes := n\<rparr>" for m n by (simp add: s1_def)
  moreover have "(mqs s1 mq)\<lparr>mq_msg_queue_head := RT_NULL, mq_msg_queue_tail := RT_NULL, mq_msg_queue_free := p\<rparr> =
      ?q\<lparr>mq_msg_queue_head := RT_NULL, mq_msg_queue_tail := RT_NULL, mq_msg_queue_free := p\<rparr>" for p
    by (simp add: s1_def)
  ultimately show ?case using step s' by auto
qed

section \<open>Properties\<close>

text \<open>
  C16. A message queue is a bounded FIFO: over any sequence of \<open>rt_mq_send\<close> and non-waiting \<open>rt_mq_recv\<close>
  calls with whole messages, whatever threads they wake, the messages that were there followed by those
  accepted are exactly those received followed by those still there, byte for byte; there are never
  more than \<open>max_msgs\<close>, and the invariants of the queue's lists and of the threads hold at the end.
\<close>

theorem rt_mq_send_recv_fifo:
  assumes "mq_usable mq buffer s"
    "fifo_run (mq_try_send mq) (mq_try_recv mq buffer) calls s = (sent, got, s')"
  shows "mq_contents mq s @ sent = got @ mq_contents mq s' \<and>
    length (mq_contents mq s') \<le> unat (mq_max_msgs (mqs s mq)) \<and> mq_usable mq buffer s'"
  using message_fifo.conservation [OF assms] by simp

text \<open>A queue of two nodes for messages of four bytes at \<open>0x900\<close>.\<close>

definition demo_mq :: kstate where
  "demo_mq = set_mq 0x900 (\<lambda>_. \<lparr>mq_msg_pool = 0x1000, mq_msg_size = 4, mq_max_msgs = 2, mq_entry = 0,
      mq_msg_queue_head = 0, mq_msg_queue_tail = 0, mq_msg_queue_free = 0x1008\<rparr>)
    (set_node 0x1000 (\<lambda>m. m\<lparr>msg_next := 0\<rparr>) (set_node 0x1008 (\<lambda>m. m\<lparr>msg_next := 0x1000\<rparr>) two_started))"

lemma demo_mq_rep: "mq_rep 0x900 demo_mq [] [0x1008, 0x1000]"
  by (simp add: mq_rep_def demo_mq_def)

lemma demo_mq_usable: "mq_usable 0x900 0x2000 demo_mq"
  using thread_inv_two_started mq_repD(3) [OF demo_mq_rep]
  by (simp add: mq_usable_def mq_ready_def) (simp add: demo_mq_def)

lemma demo_mq_empty: "mq_contents 0x900 demo_mq = []"
  by (simp add: mq_repD(4) [OF demo_mq_rep])

theorem rt_mq_send_recv_fifo_witness:
  "\<exists>s'. fifo_run (mq_try_send 0x900) (mq_try_recv 0x900 0x2000) (map Put [[1, 2, 3, 4], [5, 6, 7, 8]] @ replicate 2 Get) demo_mq =
       ([[1, 2, 3, 4], [5, 6, 7, 8]], [[1, 2, 3, 4], [5, 6, 7, 8]], s') \<and> mq_contents 0x900 s' = []"
proof -
  have len: "length [[1, 2, 3, 4], [5, 6, 7, 8 :: u8]] = 2" by simp
  have "2 \<le> unat (mq_max_msgs (mqs demo_mq 0x900))"
    "\<forall>x \<in> set [[1, 2, 3, 4], [5, 6, 7, 8 :: u8]]. length x = unat (mq_msg_size (mqs demo_mq 0x900))"
    by (simp_all add: demo_mq_def)
  with message_fifo.fill_and_drain [OF demo_mq_usable demo_mq_empty, of "[[1, 2, 3, 4], [5, 6, 7, 8]]", unfolded len]
  obtain s' where s': "fifo_run (mq_try_send 0x900) (mq_try_recv 0x900 0x2000)
      (map Put [[1, 2, 3, 4], [5, 6, 7, 8]] @ replicate 2 Get) demo_mq =
      ([[1, 2, 3, 4], [5, 6, 7, 8]], [[1, 2, 3, 4], [5, 6, 7, 8]], s')" by blast
  then show ?thesis using rt_mq_send_recv_fifo [OF demo_mq_usable s'] demo_mq_empty by auto
qed

text \<open>
  The branches of the message queue calls: a message longer than \<open>msg_size\<close> is refused with
  \<open>-RT_ERROR\<close> and one for a full queue with \<open>-RT_EFULL\<close>, changing nothing; otherwise \<open>rt_mq_send\<close> puts
  it behind and \<open>rt_mq_urgent\<close> in front of the messages that are there, its \<open>n\<close> bytes first in the node,
  and the first waiting receiver becomes ready with its error code untouched (\<open>mq_stored\<close>).
  \<open>rt_mq_recv\<close> takes the first message and copies at most the size of the caller's buffer, with any
  timeout; on an empty queue with timeout 0 it returns \<open>-RT_ETIMEOUT\<close> and changes nothing.
\<close>

theorem rt_mq_branches:
  assumes "mq_ready mq s" "n \<noteq> 0" "unat n \<le> length b" "buffer \<noteq> RT_NULL"
  shows "(if unat (mq_msg_size (mqs s mq)) < unat n
      then rt_mq_send mq (Some b) n s = Some (- RT_ERROR, s) \<and> rt_mq_urgent mq (Some b) n s = Some (- RT_ERROR, s)
      else if length (mq_contents mq s) = unat (mq_max_msgs (mqs s mq))
      then rt_mq_send mq (Some b) n s = Some (- RT_EFULL, s) \<and> rt_mq_urgent mq (Some b) n s = Some (- RT_EFULL, s)
      else (\<exists>s' x. rt_mq_send mq (Some b) n s = Some (RT_EOK, s') \<and> mq_stored mq b n s x s' \<and>
          mq_contents mq s' = mq_contents mq s @ [x]) \<and>
        (\<exists>s' x. rt_mq_urgent mq (Some b) n s = Some (RT_EOK, s') \<and> mq_stored mq b n s x s' \<and>
          mq_contents mq s' = x # mq_contents mq s)) \<and>
    (case mq_contents mq s of
       [] \<Rightarrow> rt_mq_recv ws0 mq buffer n 0 s = Some (- RT_ETIMEOUT, None, s)
     | x # xs \<Rightarrow> \<exists>s'. (\<forall>ws timeout. rt_mq_recv ws mq buffer n timeout s = Some (RT_EOK, Some (take (unat n) x), s')) \<and>
         mq_ready mq s' \<and> mq_contents mq s' = xs)"
proof -
  have i: "mq \<noteq> RT_NULL" "mq_inv mq s" using assms(1) by (simp_all add: mq_ready_def)
  have big: "ucast (mq_msg_size (mqs s mq)) < n \<longleftrightarrow> unat (mq_msg_size (mqs s mq)) < unat n"
    by (simp add: word_less_nat_alt unat_ucast_u16)
  have full: "rt_mq_send mq (Some b) n s = Some (- RT_EFULL, s) \<and> rt_mq_urgent mq (Some b) n s = Some (- RT_EFULL, s)"
    if "\<not> unat (mq_msg_size (mqs s mq)) < unat n" "length (mq_contents mq s) = unat (mq_max_msgs (mqs s mq))"
    using that rt_mq_send_eq [OF i(1) assms(2) _ assms(3)] rt_mq_urgent_eq [OF i(1) assms(2) _ assms(3)]
      mq_full_iff [OF i(2)] big by simp
  have fits: "mq_fits mq b n s" if "\<not> unat (mq_msg_size (mqs s mq)) < unat n"
    "length (mq_contents mq s) \<noteq> unat (mq_max_msgs (mqs s mq))"
    using that mq_contents_bound [OF i(2)] assms(2,3) by (simp add: mq_fits_def unat_gt_0)
  have recv: "case mq_contents mq s of
       [] \<Rightarrow> rt_mq_recv ws0 mq buffer n 0 s = Some (- RT_ETIMEOUT, None, s)
     | x # xs \<Rightarrow> \<exists>s'. (\<forall>ws timeout. rt_mq_recv ws mq buffer n timeout s = Some (RT_EOK, Some (take (unat n) x), s')) \<and>
         mq_ready mq s' \<and> mq_contents mq s' = xs"
  proof (cases "mq_contents mq s")
    case Nil
    then show ?thesis using mq_empty_iff [OF i(2)] i(1) assms(2,4) by (simp add: rt_mq_recv_def)
  next
    case (Cons x xs)
    then show ?thesis using mq_recv_ok [OF assms(1) Cons assms(2,4)] by simp metis
  qed
  show ?thesis
  proof (cases "unat (mq_msg_size (mqs s mq)) < unat n")
    case True
    then show ?thesis using recv i(1) assms(2) big by (simp add: rt_mq_send_def rt_mq_urgent_def)
  next
    case small: False
    show ?thesis
    proof (cases "length (mq_contents mq s) = unat (mq_max_msgs (mqs s mq))")
      case True
      then show ?thesis using small full recv by simp
    next
      case False
      note f = fits [OF small False]
      have "\<exists>s' x. rt_mq_send mq (Some b) n s = Some (RT_EOK, s') \<and> mq_stored mq b n s x s' \<and>
          mq_contents mq s' = mq_contents mq s @ [x]" using mq_send_ok [OF assms(1) f] by blast
      moreover have "\<exists>s' x. rt_mq_urgent mq (Some b) n s = Some (RT_EOK, s') \<and> mq_stored mq b n s x s' \<and>
          mq_contents mq s' = x # mq_contents mq s" using mq_urgent_ok [OF assms(1) f] by blast
      ultimately show ?thesis using small False recv by simp
    qed
  qed
qed

theorem rt_mq_branches_witness:
  "rt_mq_recv [] 0x900 0x2000 3 0 demo_mq = Some (- RT_ETIMEOUT, None, demo_mq) \<and>
   (\<exists>s' x. rt_mq_urgent 0x900 (Some [1, 2, 3]) 3 demo_mq = Some (RT_EOK, s') \<and> mq_contents 0x900 s' = [x] \<and>
      take 3 x = [1, 2, 3])"
proof -
  have "mq_ready 0x900 demo_mq" using demo_mq_usable by (simp add: mq_usable_def)
  moreover have "unat (mq_msg_size (mqs demo_mq 0x900)) = 4" "unat (mq_max_msgs (mqs demo_mq 0x900)) = 2"
    by (simp_all add: demo_mq_def)
  ultimately show ?thesis
    using rt_mq_branches [of "0x900" demo_mq 3 "[1, 2, 3]" "0x2000" "[]"] demo_mq_empty
    by (auto simp: mq_stored_def)
qed

text \<open>All nodes of a pool on the free list: the common end of \<open>rt_mq_init\<close> and \<open>rt_mq_create\<close>.\<close>

lemma mq_init_free_rep:
  fixes mq s
  defines "pool \<equiv> mq_msg_pool (mqs s mq)" and "m \<equiv> mq_msg_size (mqs s mq)" and "n \<equiv> unat (mq_max_msgs (mqs s mq))"
  assumes "pool \<noteq> RT_NULL" "unat pool + n * (unat m + 4) < 2 ^ 32" "mq_msg_queue_free (mqs s mq) = RT_NULL"
    "mq_msg_queue_head (mqs s mq) = RT_NULL" "mq_msg_queue_tail (mqs s mq) = RT_NULL"
  defines "fs \<equiv> rev (map (mq_node pool m) [0..<n])" and "s' \<equiv> set_mq mq (\<lambda>q. q\<lparr>mq_entry := 0\<rparr>) (mq_init_free n mq s)"
  shows "mq_rep mq s' [] fs"
    "\<And>p. p \<in> set fs \<Longrightarrow> unat pool \<le> unat p \<and> unat p + 4 + unat m \<le> unat pool + n * (unat m + 4)"
proof -
  note node = unat_mq_node [OF assms(5)] mq_nodes_ok [OF _ assms(5)]
  have p0: "0 < unat pool" using assms(4) by (simp add: unat_gt_0)
  have "path (mq_nodes s') (mq_msg_queue_free (mqs s' mq)) fs"
    using mq_init_free_path [of s mq n] assms(6) node(2,3) [OF p0] by (simp add: fs_def s'_def pool_def m_def)
  moreover have "distinct fs" using node(3) [OF p0] by (simp add: fs_def distinct_map atLeast0LessThan)
  ultimately show "mq_rep mq s' [] fs"
    using assms(7,8) by (simp add: mq_rep_def mq_init_free_fields s'_def fs_def n_def)
  show "unat pool \<le> unat p \<and> unat p + 4 + unat m \<le> unat pool + n * (unat m + 4)" if p: "p \<in> set fs" for p
  proof -
    obtain i where i: "i < n" "p = mq_node pool m i" using p by (auto simp: fs_def)
    have "Suc i * (unat m + 4) \<le> n * (unat m + 4)" using i(1) by (intro mult_right_mono) auto
    then show ?thesis using node(1) [OF i(1)] i(2) by simp
  qed
qed

text \<open>
  \<open>rt_mq_init\<close> sets up a queue that satisfies the invariant: with a pool that does not reach the end
  of the address space and sizes that fit the 16-bit fields, the call succeeds, the queue is empty with
  no waiter, \<open>msg_size\<close> is the requested size rounded up to four, all
  \<open>pool_size / (msg_size + 4)\<close> nodes are free, and each of them with its message lies inside the pool.
\<close>

theorem rt_mq_init_establishes_inv:
  assumes "mq \<noteq> RT_NULL" "msgpool \<noteq> RT_NULL" "unat msgpool + unat pool_size < 2 ^ 32" "unat msg_size \<le> 65532"
    "unat pool_size div ((unat msg_size + 3) div 4 * 4 + 4) < 65536"
  shows "\<exists>s'. rt_mq_init mq name msgpool msg_size pool_size flag s = Some (RT_EOK, s') \<and> mq_inv mq s' \<and>
    mq_contents mq s' = [] \<and> tqs s' (Susp mq) = [] \<and>
    unat (mq_msg_size (mqs s' mq)) = (unat msg_size + 3) div 4 * 4 \<and>
    length (mq_free mq s') = unat pool_size div (unat (mq_msg_size (mqs s' mq)) + 4) \<and>
    (\<forall>p \<in> set (mq_free mq s'). unat msgpool \<le> unat p \<and>
       unat p + 4 + unat (mq_msg_size (mqs s' mq)) \<le> unat msgpool + unat pool_size)"
proof -
  let ?k = "(unat msg_size + 3) div 4 * 4" and ?m = "ucast (RT_ALIGN msg_size RT_ALIGN_SIZE) :: u16"
  let ?n = "unat pool_size div (?k + 4)"
  have k: "unat (RT_ALIGN msg_size 4) = ?k" using assms(4) by (intro RT_ALIGN_4) simp
  have "?k < 65536" using assms(4) by (simp add: less_mult_imp_div_less)
  then have m: "unat ?m = ?k" using k by (simp add: unsigned_ucast_eq take_bit_nat_eq_self)
  have "unat (ucast ?m + 4 :: u32) = ?k + 4"
    using unat_ucast_u16 [of ?m] m \<open>?k < 65536\<close> by (subst unat_add_lem [THEN iffD1]) simp_all
  then have x: "unat (ucast (pool_size div (ucast ?m + 4)) :: u16) = ?n"
    using assms(5) by (simp add: unsigned_ucast_eq unat_div take_bit_nat_eq_self)
  define f where "f = (\<lambda>q :: rt_messagequeue. q\<lparr>mq_msg_pool := msgpool, mq_msg_size := ?m,
    mq_max_msgs := ucast (pool_size div (ucast ?m + 4)), mq_msg_queue_head := RT_NULL,
    mq_msg_queue_tail := RT_NULL, mq_msg_queue_free := RT_NULL\<rparr>)"
  obtain s1 where s1: "rt_object_init (At mq) RT_Object_Class_MessageQueue name s = Some s1"
    using rt_object_init_Some [of "At mq" RT_Object_Class_MessageQueue name s] by simp
  define s2 where "s2 = set_mq mq f (snd (rt_ipc_object_init mq (set_object (At mq) (\<lambda>r. r\<lparr>ob_flag := flag\<rparr>) s1)))"
  let ?s' = "set_mq mq (\<lambda>q. q\<lparr>mq_entry := 0\<rparr>) (mq_init_free ?n mq s2)"
  have q: "mq_msg_pool (mqs s2 mq) = msgpool" "mq_msg_size (mqs s2 mq) = ?m" "mq_msg_queue_free (mqs s2 mq) = RT_NULL"
    "unat (mq_max_msgs (mqs s2 mq)) = ?n" "mq_msg_queue_head (mqs s2 mq) = RT_NULL"
    "mq_msg_queue_tail (mqs s2 mq) = RT_NULL" "tqs s2 (Susp mq) = []"
    using x by (simp_all add: s2_def f_def rt_ipc_object_init_def)
  have call: "rt_mq_init mq name msgpool msg_size pool_size flag s = Some (RT_EOK, ?s')"
    using assms(1) s1 q(4) by (simp add: rt_mq_init_def s2_def f_def Let_def rt_ipc_object_init_def set_mq_twice)
  have le: "?n * (?k + 4) \<le> unat pool_size" by (rule div_times_less_eq_dividend)
  let ?fs = "rev (map (mq_node msgpool ?m) [0..<?n])"
  note r = mq_init_free_rep [of s2 mq, unfolded q, OF assms(2) _ refl refl refl]
  have "unat msgpool + ?n * (unat ?m + 4) < 2 ^ 32" using assms(3) le unfolding m by linarith
  note r = r [OF this]
  have "unat msgpool \<le> unat p \<and> unat p + 4 + unat ?m \<le> unat msgpool + unat pool_size" if p: "p \<in> set ?fs" for p
    using r(2) [OF p] le unfolding m by linarith
  then show ?thesis
    using call mq_repD [OF r(1)] q m by (intro exI [of _ ?s']) (auto simp: mq_init_free_fields)
qed

theorem rt_mq_init_establishes_inv_witness:
  "\<exists>s'. rt_mq_init 0x900 [] 0x1000 10 100 RT_IPC_FLAG_FIFO two_started = Some (RT_EOK, s') \<and> mq_inv 0x900 s' \<and>
     length (mq_free 0x900 s') = 6"
proof -
  have "\<exists>s'. rt_mq_init 0x900 [] 0x1000 10 100 RT_IPC_FLAG_FIFO two_started = Some (RT_EOK, s') \<and> mq_inv 0x900 s' \<and>
    mq_contents 0x900 s' = [] \<and> tqs s' (Susp 0x900) = [] \<and>
    unat (mq_msg_size (mqs s' 0x900)) = (unat (10 :: u32) + 3) div 4 * 4 \<and>
    length (mq_free 0x900 s') = unat (100 :: u32) div (unat (mq_msg_size (mqs s' 0x900)) + 4) \<and>
    (\<forall>p \<in> set (mq_free 0x900 s'). unat (0x1000 :: u32) \<le> unat p \<and>
       unat p + 4 + unat (mq_msg_size (mqs s' 0x900)) \<le> unat (0x1000 :: u32) + unat (100 :: u32))"
    by (rule rt_mq_init_establishes_inv) simp_all
  then show ?thesis by auto
qed

text \<open>
  \<open>rt_mq_control(RT_IPC_CMD_RESET)\<close> terminates and empties the queue: from any state that satisfies the
  invariants, with a thread ready or waiting, both loops end; afterwards the queue holds no message,
  all \<open>max_msgs\<close> nodes are on the free list, the invariants hold, and every thread that waited is ready
  with error \<open>-RT_ERROR\<close>.
\<close>

theorem rt_mq_control_reset_terminates:
  assumes "mq_ready mq s" "ready_group s \<noteq> 0"
  shows "\<exists>s'. rt_mq_control mq RT_IPC_CMD_RESET arg s = Some (RT_EOK, s') \<and> mq_ready mq s' \<and>
    mq_contents mq s' = [] \<and> length (mq_free mq s') = unat (mq_max_msgs (mqs s mq)) \<and> tqs s' (Susp mq) = [] \<and>
    (\<forall>t \<in> set (tqs s (Susp mq)). th_stat (threads s' t) = RT_THREAD_READY \<and> th_error (threads s' t) = - RT_ERROR)"
proof -
  have i: "mq \<noteq> RT_NULL" "thread_inv s" "mq_inv mq s" "mq_msg_size (mqs s mq) \<noteq> 0" using assms(1) by (simp_all add: mq_ready_def)
  obtain s1 where s1: "rt_ipc_list_resume_all (Susp mq) s = Some s1" "thread_inv s1" "tqs s1 (Susp mq) = []"
    "\<forall>t. threads s1 t = (if t \<in> set (tqs s (Susp mq))
       then (threads s t)\<lparr>th_stat := RT_THREAD_READY, th_error := - RT_ERROR\<rparr> else threads s t)"
    "ready_group s1 \<noteq> 0" "mqs s1 = mqs s" "mq_nodes s1 = mq_nodes s"
    using rt_ipc_list_resume_all_total [OF i(2) wait_list_simps(1), of mq] assms(2) by auto
  obtain us fs where "mq_rep mq s us fs" using i(3) by (rule mq_invE)
  then have r: "mq_rep mq s1 us fs" using mq_rep_cong [of s1 mq s] s1(6,7) by simp
  then have p: "path (mq_nodes s1) (mq_msg_queue_head (mqs s1 mq)) us" "path (mq_nodes s1) (mq_msg_queue_free (mqs s1 mq)) fs"
    "distinct (us @ fs)" "mq_msg_queue_tail (mqs s1 mq) = (if us = [] then RT_NULL else last us)"
    "length us + length fs = unat (mq_max_msgs (mqs s1 mq))" by (simp_all add: mq_rep_def Let_def)
  from mq_release_all_path [OF p(1-4)] obtain s2 where s2: "mq_release_all mq s1 = Some s2"
    "path (mq_nodes s2) (mq_msg_queue_free (mqs s2 mq)) (rev us @ fs)"
    "mqs s2 mq = (mqs s1 mq)\<lparr>mq_msg_queue_head := RT_NULL, mq_msg_queue_tail := RT_NULL,
      mq_msg_queue_free := mq_msg_queue_free (mqs s2 mq)\<rparr>"
    "s2 = s1\<lparr>mqs := mqs s2, mq_nodes := mq_nodes s2\<rparr>" by blast
  define s3 where "s3 = set_mq mq (\<lambda>q. q\<lparr>mq_entry := 0\<rparr>) s2"
  have f: "threads s2 = threads s1" "tqs s2 = tqs s1" "ready_group s2 = ready_group s1" "objects s2 = objects s1"
    "timers s2 = timers s1" "timer_list s2 = timer_list s1" by (subst s2(4), simp)+
  have inv: "thread_inv s3" using s1(2) unfolding s3_def thread_inv_set_mq by (subst thread_inv_cong [where s = s1]) (simp_all add: f)
  have "ready_group s3 \<noteq> 0" using s1(5) by (simp add: s3_def f)
  from schedule_if [OF inv, of True] this obtain s' where s': "rt_schedule s3 = Some s'" "thread_inv s'"
    "threads s' = threads s3" "tqs s' = tqs s3" "mqs s' = mqs s3" "mq_nodes s' = mq_nodes s3" by auto
  have q: "mqs s3 mq = (mqs s1 mq)\<lparr>mq_msg_queue_head := RT_NULL, mq_msg_queue_tail := RT_NULL,
      mq_msg_queue_free := mq_msg_queue_free (mqs s2 mq), mq_entry := 0\<rparr>"
    using s2(3) by (simp add: s3_def)
  have r': "mq_rep mq s' [] (rev us @ fs)"
    using s2(2) p(3,5) by (simp add: mq_rep_def s'(5,6) q) (simp add: s3_def)
  have "rt_mq_control mq RT_IPC_CMD_RESET arg s = Some (RT_EOK, s')"
    using i(1) s1(1) s2(1) s'(1) by (simp add: rt_mq_control_def s3_def)
  then show ?thesis
    using mq_repD [OF r'] i(1,4) s'(2) p(5) s1(3,4,6) q
    by (intro exI [of _ s']) (simp add: mq_ready_def s' s3_def f)
qed

theorem rt_mq_control_reset_terminates_witness:
  "\<exists>s'. rt_mq_control 0x900 RT_IPC_CMD_RESET 0 demo_mq = Some (RT_EOK, s') \<and> mq_contents 0x900 s' = []"
proof -
  have "mq_ready 0x900 demo_mq" "ready_group demo_mq \<noteq> 0"
    using demo_mq_usable by (simp_all add: mq_usable_def demo_mq_def)
  from rt_mq_control_reset_terminates [OF this, of 0] show ?thesis by blast
qed

end
