(* ===== verification/Allocator.thy ===== *)
theory Allocator
  imports RT_Prelude
begin

text \<open>
  The contract of a memory allocator as a locale: \<open>alloc\<close> returns \<open>RT_NULL\<close> or a fresh area of at least the
  size asked for, \<open>release\<close> takes back an area that is live, and live areas never overlap.  The client's
  fact, for any sequence of calls in which only held pointers are released: every call returns, the areas
  held are pairwise disjoint and large enough, and nothing but them is live.  The theories Heap_Correct and
  Mempool interpret it on \<open>rt_malloc\<close>/\<open>rt_free\<close> and on \<open>rt_mp_alloc\<close>/\<open>rt_mp_free\<close>.
\<close>

text \<open>A client step: ask for \<open>n\<close> bytes, or give back the pointer at position \<open>i\<close> of those it holds.\<close>

datatype alloc_op = Alloc u32 | Release nat

fun alloc_run ::
  "(u32 \<Rightarrow> 's \<Rightarrow> (ptr \<times> 's) option) \<Rightarrow> (ptr \<Rightarrow> 's \<Rightarrow> 's option) \<Rightarrow>
   alloc_op list \<Rightarrow> (ptr \<times> u32) list \<Rightarrow> 's \<Rightarrow> ((ptr \<times> u32) list \<times> 's) option" where
  "alloc_run alloc release [] held s = Some (held, s)"
| "alloc_run alloc release (Alloc n # os) held s = do {
     (p, s) \<leftarrow> alloc n s;
     alloc_run alloc release os (if p = RT_NULL then held else (p, n) # held) s
   }"
| "alloc_run alloc release (Release i # os) held s =
     (if i < length held
      then do {
        s \<leftarrow> release (fst (held ! i)) s;
        alloc_run alloc release os (take i held @ drop (Suc i) held) s
      }
      else alloc_run alloc release os held s)"

text \<open>The areas of two pointers do not overlap.\<close>

definition apart :: "ptr \<Rightarrow> nat \<Rightarrow> ptr \<Rightarrow> nat \<Rightarrow> bool" where
  "apart p n q k \<longleftrightarrow> unat p + n \<le> unat q \<or> unat q + k \<le> unat p"

lemma apart_sym: "apart p n q k \<longleftrightarrow> apart q k p n"
  by (auto simp: apart_def)

lemma apart_mono: "apart p n q k \<Longrightarrow> n' \<le> n \<Longrightarrow> k' \<le> k \<Longrightarrow> apart p n' q k'"
  by (auto simp: apart_def)

locale allocator =
  fixes inv :: "'s \<Rightarrow> bool"
    and live :: "'s \<Rightarrow> ptr \<Rightarrow> nat option"
    and admissible :: "'s \<Rightarrow> u32 \<Rightarrow> bool"
    and alloc :: "u32 \<Rightarrow> 's \<Rightarrow> (ptr \<times> 's) option"
    and release :: "ptr \<Rightarrow> 's \<Rightarrow> 's option"
  assumes live_apart: "inv s \<Longrightarrow> live s p = Some n \<Longrightarrow> live s q = Some k \<Longrightarrow> p \<noteq> q \<Longrightarrow> apart p n q k"
    and alloc_law: "inv s \<Longrightarrow> admissible s sz \<Longrightarrow>
      \<exists>p s'. alloc sz s = Some (p, s') \<and> inv s' \<and> admissible s' = admissible s \<and>
        (p = RT_NULL \<and> live s' = live s \<or>
         p \<noteq> RT_NULL \<and> live s p = None \<and> (\<exists>k. unat sz \<le> k \<and> live s' = (live s)(p \<mapsto> k)))"
    and release_law: "inv s \<Longrightarrow> live s p = Some k \<Longrightarrow>
      \<exists>s'. release p s = Some s' \<and> inv s' \<and> admissible s' = admissible s \<and> live s' = (live s)(p := None)"
begin

abbreviation "run \<equiv> alloc_run alloc release"

text \<open>The client holds exactly the live areas, each as large as it asked for.\<close>

definition holds :: "(ptr \<times> u32) list \<Rightarrow> 's \<Rightarrow> bool" where
  "holds held s \<longleftrightarrow> distinct (map fst held) \<and> dom (live s) = set (map fst held) \<and>
     (\<forall>p n. (p, n) \<in> set held \<longrightarrow> (\<exists>k. unat n \<le> k \<and> live s p = Some k))"

lemma holds_apart:
  assumes "inv s" "holds held s" "(p, n) \<in> set held" "(q, k) \<in> set held" "p \<noteq> q"
  shows "apart p (unat n) q (unat k)"
proof -
  obtain n' k' where "unat n \<le> n'" "live s p = Some n'" "unat k \<le> k'" "live s q = Some k'"
    using assms(2-4) unfolding holds_def by meson
  then show ?thesis using live_apart [OF assms(1) _ _ assms(5)] apart_mono by blast
qed

lemma holds_alloc:
  assumes "holds held s" "live s p = None" "unat n \<le> k" "live s' = (live s)(p \<mapsto> k)"
  shows "holds ((p, n) # held) s'"
proof -
  have "p \<notin> fst ` set held" using assms(1,2) by (auto simp: holds_def)
  then show ?thesis using assms by (fastforce simp: holds_def)
qed

lemma holds_remove:
  assumes "holds (as @ (p, n) # bs) s" "live s' = (live s)(p := None)"
  shows "holds (as @ bs) s'"
proof -
  have d: "p \<notin> fst ` set (as @ bs)" using assms(1) by (auto simp: holds_def)
  then have "q \<noteq> p" if "(q, k) \<in> set (as @ bs)" for q k using that by force
  then show ?thesis using assms d by (auto simp: holds_def)
qed

lemma holds_release:
  assumes "holds held s" "i < length held" "live s' = (live s)(fst (held ! i) := None)"
  shows "holds (take i held @ drop (Suc i) held) s'"
proof -
  obtain p n where pn: "held ! i = (p, n)" by force
  have "held = take i held @ (p, n) # drop (Suc i) held"
    unfolding pn [symmetric] by (rule id_take_nth_drop [OF assms(2)])
  then have "holds (take i held @ (p, n) # drop (Suc i) held) s"
    by (rule subst [where P = "\<lambda>x. holds x s"]) (rule assms(1))
  then show ?thesis by (rule holds_remove) (use assms(3) pn in simp)
qed

lemma run_ok:
  assumes "inv s" "holds held s" "\<forall>n. Alloc n \<in> set os \<longrightarrow> admissible s n"
  shows "\<exists>held' s'. run os held s = Some (held', s') \<and> inv s' \<and> holds held' s'"
  using assms
proof (induction os arbitrary: held s)
  case (Cons a os)
  show ?case
  proof (cases a)
    case (Alloc n)
    then obtain p s1 where s1: "alloc n s = Some (p, s1)" "inv s1" "admissible s1 = admissible s"
      "p = RT_NULL \<and> live s1 = live s \<or>
       p \<noteq> RT_NULL \<and> live s p = None \<and> (\<exists>k. unat n \<le> k \<and> live s1 = (live s)(p \<mapsto> k))"
      using alloc_law [OF Cons.prems(1)] Cons.prems(3) by (metis list.set_intros(1))
    have "holds (if p = RT_NULL then held else (p, n) # held) s1"
    proof (cases "p = RT_NULL")
      case True
      then show ?thesis using s1(4) Cons.prems(2) by (simp add: holds_def)
    next
      case False
      then show ?thesis using s1(4) holds_alloc [OF Cons.prems(2)] by auto
    qed
    then show ?thesis using Cons.IH [OF s1(2)] Cons.prems(3) s1(1,3) Alloc by simp
  next
    case (Release i)
    show ?thesis
    proof (cases "i < length held")
      case True
      then have "fst (held ! i) \<in> dom (live s)" using Cons.prems(2) by (simp add: holds_def)
      then obtain s1 where s1: "release (fst (held ! i)) s = Some s1" "inv s1" "admissible s1 = admissible s"
        "live s1 = (live s)(fst (held ! i) := None)"
        using release_law [OF Cons.prems(1)] by blast
      have "holds (take i held @ drop (Suc i) held) s1" by (rule holds_release [OF Cons.prems(2) True s1(4)])
      then show ?thesis using Cons.IH [OF s1(2)] Cons.prems(3) s1(1,3) Release True by simp
    qed (use Cons Release in auto)
  qed
qed simp

text \<open>What a client can rely on.\<close>

lemma run_safe:
  assumes "inv s" "live s = Map.empty" "\<forall>n. Alloc n \<in> set os \<longrightarrow> admissible s n"
  shows "\<exists>held s'. run os [] s = Some (held, s') \<and> inv s' \<and> distinct (map fst held) \<and>
    dom (live s') = fst ` set held \<and>
    (\<forall>(p, n) \<in> set held. \<forall>(q, k) \<in> set held. p \<noteq> q \<longrightarrow> apart p (unat n) q (unat k))"
proof -
  have "holds [] s" using assms(2) by (simp add: holds_def)
  then obtain held s' where "run os [] s = Some (held, s')" "inv s'" "holds held s'"
    using run_ok [OF assms(1) _ assms(3)] by blast
  then show ?thesis using holds_apart [of s' held] by (auto simp: holds_def)
qed

end

end
