(* ===== verification/Mempool.thy ===== *)
theory Mempool
  imports Ipc Allocator
begin

text \<open>
  The memory pools of \<open>src/src/mempool.c\<close> (creation from the heap is in theory Create).  A block of a pool
  is preceded by one pointer: in a free block the link of the free list, in a block handed out the address of
  its pool.  These pointers are the store \<open>mp_links\<close>, by their address.

  \<open>mp_ok\<close>: the free list runs through distinct blocks of the pool, its length is \<open>block_free_count\<close>, and
  every other block names its pool.  The \<open>allocator\<close> contract is interpreted on \<open>rt_mp_alloc\<close> without
  waiting and \<open>rt_mp_free\<close>.
\<close>

section \<open>The code\<close>

definition set_mp :: "ptr \<Rightarrow> (rt_mempool \<Rightarrow> rt_mempool) \<Rightarrow> kstate \<Rightarrow> kstate" where
  "set_mp mp f s = s\<lparr>mempools := (mempools s)(mp := f (mempools s mp))\<rparr>"

definition set_link :: "ptr \<Rightarrow> ptr \<Rightarrow> kstate \<Rightarrow> kstate" where
  "set_link p q s = s\<lparr>mp_links := (mp_links s)(p := q)\<rparr>"

text \<open>The first \<open>n\<close> rounds of the loop that links the blocks.\<close>

primrec link_blocks :: "ptr \<Rightarrow> u32 \<Rightarrow> nat \<Rightarrow> (ptr \<Rightarrow> ptr) \<Rightarrow> ptr \<Rightarrow> ptr" where
  "link_blocks block_ptr step 0 l = l"
| "link_blocks block_ptr step (Suc n) l =
     (link_blocks block_ptr step n l)(block_ptr + of_nat n * step := block_ptr + (of_nat n + 1) * step)"

text \<open>The free list: all blocks in order, ended by \<open>RT_NULL\<close> in the last one.\<close>

definition mp_link_all :: "ptr \<Rightarrow> kstate \<Rightarrow> kstate" where
  "mp_link_all mp s =
     (let m = mempools s mp;
          step = mp_block_size m + 4;
          s = s\<lparr>mp_links := link_blocks (mp_start_address m) step (unat (mp_block_total_count m)) (mp_links s)\<rparr>;
          s = set_link (mp_start_address m + (mp_block_total_count m - 1) * step) RT_NULL s
      in set_mp mp (\<lambda>m. m\<lparr>mp_block_list := mp_start_address m\<rparr>) s)"

definition rt_mp_init :: "ptr \<Rightarrow> u8 list \<Rightarrow> ptr \<Rightarrow> rt_size_t \<Rightarrow> rt_size_t \<Rightarrow> kstate \<Rightarrow> (rt_err_t \<times> kstate) option" where
  "rt_mp_init mp name start sz block_size s = do {
     RT_ASSERT (mp \<noteq> RT_NULL);
     s \<leftarrow> rt_object_init (At mp) RT_Object_Class_MemPool name s;
     let s = set_mp mp (\<lambda>m. m\<lparr>mp_start_address := start, mp_size := RT_ALIGN_DOWN sz RT_ALIGN_SIZE\<rparr>) s;
     let block_size = RT_ALIGN block_size RT_ALIGN_SIZE;
     let s = set_mp mp (\<lambda>m. m\<lparr>mp_block_size := block_size\<rparr>) s;
     let s = set_mp mp (\<lambda>m. m\<lparr>mp_block_total_count := mp_size m div (mp_block_size m + 4)\<rparr>) s;
     let s = set_mp mp (\<lambda>m. m\<lparr>mp_block_free_count := mp_block_total_count m\<rparr>) s;
     let s = s\<lparr>tqs := (tqs s)(Susp mp := [])\<rparr>;
     let s = set_mp mp (\<lambda>m. m\<lparr>mp_suspend_thread_count := 0\<rparr>) s;
     Some (RT_EOK, mp_link_all mp s)
   }"

text \<open>The loop of \<open>rt_mp_detach\<close> and \<open>rt_mp_delete\<close> that wakes all waiters.\<close>

partial_function (option) mp_wake_all :: "ptr \<Rightarrow> kstate \<Rightarrow> kstate option" where
  "mp_wake_all mp s =
     (case tqs s (Susp mp) of
        [] \<Rightarrow> Some s
      | thread # _ \<Rightarrow>
          Option.bind (rt_thread_resume thread (set_thread thread (\<lambda>t. t\<lparr>th_error := - RT_ERROR\<rparr>) s))
            (\<lambda>(_, s). mp_wake_all mp
               (set_mp mp (\<lambda>m. m\<lparr>mp_suspend_thread_count := mp_suspend_thread_count m - 1\<rparr>) s)))"

definition rt_mp_detach :: "ptr \<Rightarrow> kstate \<Rightarrow> (rt_err_t \<times> kstate) option" where
  "rt_mp_detach mp s = do {
     RT_ASSERT (mp \<noteq> RT_NULL);
     s \<leftarrow> mp_wake_all mp s;
     s \<leftarrow> rt_object_detach (At mp) s;
     Some (RT_EOK, s)
   }"

text \<open>The waiting part of \<open>rt_mp_alloc\<close>; \<open>Inl\<close> is a return of \<open>RT_NULL\<close>, \<open>Inr\<close> the end of the loop.  Each
  round that gives the processor up takes the next of the worlds.\<close>

fun mp_wait_loop :: "ptr \<Rightarrow> ptr \<Rightarrow> world list \<Rightarrow> rt_int32_t \<Rightarrow> kstate \<Rightarrow> (kstate + kstate) option" where
  "mp_wait_loop mp thread ws time s =
     (if mp_block_free_count (mempools s mp) \<noteq> 0 then Some (Inr s)
      else if time = 0 then Some (Inl (rt_set_errno (- RT_ETIMEOUT) s))
      else (case ws of
          [] \<Rightarrow> None
        | w # ws \<Rightarrow> do {
            RT_DEBUG_NOT_IN_INTERRUPT s;
            let s = set_thread thread (\<lambda>t. t\<lparr>th_error := RT_EOK\<rparr>) s;
            (_, s) \<leftarrow> rt_thread_suspend thread s;
            let s = s\<lparr>tqs := q_insert_after (Susp mp) thread (tqs s)\<rparr>;
            let s = set_mp mp (\<lambda>m. m\<lparr>mp_suspend_thread_count := mp_suspend_thread_count m + 1\<rparr>) s;
            let before_sleep = rt_tick_get s;
            s \<leftarrow> (if 0 < sint time
                 then do {
                   (_, _, s) \<leftarrow> rt_timer_control (TmrOf thread) 0 time s;
                   (_, s) \<leftarrow> rt_timer_start (TmrOf thread) s;
                   Some s
                 }
                 else Some s);
            s \<leftarrow> schedule_switch w s;
            if th_error (threads s thread) \<noteq> RT_EOK then Some (Inl s)
            else mp_wait_loop mp thread ws (retime time (rt_tick_get s - before_sleep)) s
          }))"

declare mp_wait_loop.simps [simp del]

text \<open>Taking the first free block.\<close>

definition mp_take :: "ptr \<Rightarrow> kstate \<Rightarrow> (ptr \<times> kstate) option" where
  "mp_take mp s = do {
     let s = set_mp mp (\<lambda>m. m\<lparr>mp_block_free_count := mp_block_free_count m - 1\<rparr>) s;
     let block_ptr = mp_block_list (mempools s mp);
     RT_ASSERT (block_ptr \<noteq> RT_NULL);
     let s = set_mp mp (\<lambda>m. m\<lparr>mp_block_list := mp_links s block_ptr\<rparr>) s;
     let s = set_link block_ptr mp s;
     Some (block_ptr + 4, s)
   }"

definition rt_mp_alloc :: "world list \<Rightarrow> ptr \<Rightarrow> rt_int32_t \<Rightarrow> kstate \<Rightarrow> (ptr \<times> kstate) option" where
  "rt_mp_alloc ws mp time s = do {
     r \<leftarrow> mp_wait_loop mp (rt_thread_self s) ws time s;
     (case r of
        Inl s \<Rightarrow> Some (RT_NULL, s)
      | Inr s \<Rightarrow> mp_take mp s)
   }"

text \<open>With a positive \<open>suspend_thread_count\<close> the code takes the first thread of the list; on an empty list
  that is no thread.\<close>

definition rt_mp_free :: "ptr \<Rightarrow> kstate \<Rightarrow> kstate option" where
  "rt_mp_free block s =
     (let block_ptr = block - 4;
          mp = mp_links s block_ptr;
          s = set_mp mp (\<lambda>m. m\<lparr>mp_block_free_count := mp_block_free_count m + 1\<rparr>) s;
          s = set_link block_ptr (mp_block_list (mempools s mp)) s;
          s = set_mp mp (\<lambda>m. m\<lparr>mp_block_list := block_ptr\<rparr>) s
      in if 0 < mp_suspend_thread_count (mempools s mp)
         then (case tqs s (Susp mp) of
             [] \<Rightarrow> None
           | thread # _ \<Rightarrow> do {
               let s = set_thread thread (\<lambda>t. t\<lparr>th_error := RT_EOK\<rparr>) s;
               (_, s) \<leftarrow> rt_thread_resume thread s;
               let s = set_mp mp (\<lambda>m. m\<lparr>mp_suspend_thread_count := mp_suspend_thread_count m - 1\<rparr>) s;
               rt_schedule s
             })
         else Some s)"

section \<open>The invariant\<close>

lemma mempools_set [simp]:
  "mempools (set_mp mp f s) = (mempools s)(mp := f (mempools s mp))" "mempools (set_link p q s) = mempools s"
  "mp_links (set_mp mp f s) = mp_links s" "mp_links (set_link p q s) = (mp_links s)(p := q)"
  "tqs (set_mp mp f s) = tqs s" "tqs (set_link p q s) = tqs s"
  "threads (set_mp mp f s) = threads s" "threads (set_link p q s) = threads s"
  by (simp_all add: set_mp_def set_link_def)

fun fchain :: "(ptr \<Rightarrow> ptr) \<Rightarrow> ptr \<Rightarrow> ptr list \<Rightarrow> bool" where
  "fchain l p [] \<longleftrightarrow> p = RT_NULL"
| "fchain l p (b # bs) \<longleftrightarrow> p = b \<and> b \<noteq> RT_NULL \<and> fchain l (l b) bs"

fun fchain_list :: "nat \<Rightarrow> (ptr \<Rightarrow> ptr) \<Rightarrow> ptr \<Rightarrow> ptr list" where
  "fchain_list 0 l p = []"
| "fchain_list (Suc n) l p = (if p = RT_NULL then [] else p # fchain_list n l (l p))"

lemma fchain_cong: "(\<And>b. b \<in> set bs \<Longrightarrow> l' b = l b) \<Longrightarrow> fchain l' p bs = fchain l p bs"
  by (induction bs arbitrary: p) auto

lemma fchain_list_eq: "fchain l p bs \<Longrightarrow> length bs \<le> n \<Longrightarrow> fchain_list n l p = bs"
proof (induction n arbitrary: p bs)
  case (Suc n)
  then show ?case by (cases bs) auto
qed simp

definition mp_step :: "rt_mempool \<Rightarrow> u32" where
  "mp_step m = mp_block_size m + 4"

definition mp_block :: "rt_mempool \<Rightarrow> nat \<Rightarrow> ptr" where
  "mp_block m i = mp_start_address m + of_nat i * mp_step m"

definition pool :: "rt_mempool \<Rightarrow> ptr set" where
  "pool m = mp_block m ` {..<unat (mp_block_total_count m)}"

text \<open>The pool lies inside the address space, not at address 0.\<close>

definition mp_fits :: "rt_mempool \<Rightarrow> bool" where
  "mp_fits m \<longleftrightarrow> 0 < unat (mp_start_address m) \<and> unat (mp_step m) = unat (mp_block_size m) + 4 \<and>
     unat (mp_start_address m) + unat (mp_block_total_count m) * unat (mp_step m) < 2 ^ 32"

definition free_list :: "ptr \<Rightarrow> kstate \<Rightarrow> ptr list" where
  "free_list mp s = fchain_list (unat (mp_block_total_count (mempools s mp))) (mp_links s) (mp_block_list (mempools s mp))"

definition mp_ok :: "ptr \<Rightarrow> kstate \<Rightarrow> bool" where
  "mp_ok mp s \<longleftrightarrow> (let m = mempools s mp; fs = free_list mp s in
     mp_fits m \<and> fchain (mp_links s) (mp_block_list m) fs \<and> distinct fs \<and> set fs \<subseteq> pool m \<and>
     length fs = unat (mp_block_free_count m) \<and> (\<forall>b \<in> pool m - set fs. mp_links s b = mp))"

text \<open>The blocks handed out, each of \<open>block_size\<close> bytes.\<close>

definition mp_live :: "ptr \<Rightarrow> kstate \<Rightarrow> ptr \<Rightarrow> nat option" where
  "mp_live mp s p = (if p - 4 \<in> pool (mempools s mp) - set (free_list mp s)
     then Some (unat (mp_block_size (mempools s mp))) else None)"

lemma unat_of_nat_eq_id: "i < 2 ^ 32 \<Longrightarrow> unat (of_nat i :: u32) = i"
  by (simp add: unat_of_nat)

lemma mp_fitsD:
  assumes "mp_fits m"
  shows "0 < unat (mp_start_address m)" "unat (mp_step m) = unat (mp_block_size m) + 4"
    "unat (mp_start_address m) + unat (mp_block_total_count m) * unat (mp_step m) < 2 ^ 32"
  using assms unfolding mp_fits_def by blast+

lemma unat_mp_block:
  assumes "mp_fits m" "i < unat (mp_block_total_count m)"
  shows "unat (mp_block m i) = unat (mp_start_address m) + i * unat (mp_step m)"
    "unat (mp_block m i) + unat (mp_step m) < 2 ^ 32"
proof -
  have "Suc i * unat (mp_step m) \<le> unat (mp_block_total_count m) * unat (mp_step m)"
    using assms(2) by (intro mult_le_mono1) simp
  then have lt: "unat (mp_start_address m) + i * unat (mp_step m) + unat (mp_step m) < 2 ^ 32"
    using mp_fitsD(3) [OF assms(1)] by simp
  have i: "unat (of_nat i :: u32) = i"
    using assms(2) unat_u32_less [of "mp_block_total_count m"] by (simp add: unat_of_nat_eq_id)
  have "unat (of_nat i * mp_step m) = i * unat (mp_step m)"
    using lt i by (subst unat_mult_lem [THEN iffD1]) simp_all
  then show "unat (mp_block m i) = unat (mp_start_address m) + i * unat (mp_step m)"
    unfolding mp_block_def using lt by (subst unat_add_lem [THEN iffD1]) simp_all
  then show "unat (mp_block m i) + unat (mp_step m) < 2 ^ 32" using lt by simp
qed

lemma pool_props:
  assumes "mp_fits m" "b \<in> pool m"
  shows "b \<noteq> RT_NULL" "unat b + 4 + unat (mp_block_size m) < 2 ^ 32"
    "\<And>c. c \<in> pool m \<Longrightarrow> c \<noteq> b \<Longrightarrow> unat b + unat (mp_step m) \<le> unat c \<or> unat c + unat (mp_step m) \<le> unat b"
proof -
  obtain i where i: "b = mp_block m i" "i < unat (mp_block_total_count m)" using assms(2) by (auto simp: pool_def)
  note u = unat_mp_block [OF assms(1) i(2)]
  show "b \<noteq> RT_NULL" using u(1) i(1) mp_fitsD(1) [OF assms(1)] by auto
  show "unat b + 4 + unat (mp_block_size m) < 2 ^ 32" using u(2) i(1) mp_fitsD(2) [OF assms(1)] by simp
  fix c assume "c \<in> pool m" "c \<noteq> b"
  then obtain j where j: "c = mp_block m j" "j < unat (mp_block_total_count m)" "j \<noteq> i"
    using i(1) by (auto simp: pool_def)
  note v = unat_mp_block(1) [OF assms(1) j(2)]
  consider "Suc i \<le> j" | "Suc j \<le> i" using j(3) by linarith
  then show "unat b + unat (mp_step m) \<le> unat c \<or> unat c + unat (mp_step m) \<le> unat b"
  proof cases
    case 1
    then have "Suc i * unat (mp_step m) \<le> j * unat (mp_step m)" by (rule mult_le_mono1)
    then show ?thesis using u(1) v i(1) j(1) by simp
  next
    case 2
    then have "Suc j * unat (mp_step m) \<le> i * unat (mp_step m)" by (rule mult_le_mono1)
    then show ?thesis using u(1) v i(1) j(1) by simp
  qed
qed

lemma finite_pool: "finite (pool m)" "card (pool m) \<le> unat (mp_block_total_count m)"
  unfolding pool_def using card_image_le [of "{..<unat (mp_block_total_count m)}" "mp_block m"] by auto

lemma mp_okI:
  assumes "mp_fits (mempools s mp)" "fchain (mp_links s) (mp_block_list (mempools s mp)) fs" "distinct fs"
    "set fs \<subseteq> pool (mempools s mp)" "length fs = unat (mp_block_free_count (mempools s mp))"
    "\<And>b. b \<in> pool (mempools s mp) - set fs \<Longrightarrow> mp_links s b = mp"
  shows "mp_ok mp s" "free_list mp s = fs"
proof -
  have "length fs \<le> unat (mp_block_total_count (mempools s mp))"
    using distinct_card [OF assms(3)] card_mono [OF finite_pool(1) assms(4)] finite_pool(2) [of "mempools s mp"] by simp
  then show fl: "free_list mp s = fs" unfolding free_list_def by (rule fchain_list_eq [OF assms(2)])
  show "mp_ok mp s" using assms by (simp add: mp_ok_def Let_def fl)
qed

lemma mp_okD:
  assumes "mp_ok mp s"
  shows "mp_fits (mempools s mp)" "fchain (mp_links s) (mp_block_list (mempools s mp)) (free_list mp s)"
    "distinct (free_list mp s)" "set (free_list mp s) \<subseteq> pool (mempools s mp)"
    "length (free_list mp s) = unat (mp_block_free_count (mempools s mp))"
    "\<And>b. b \<in> pool (mempools s mp) - set (free_list mp s) \<Longrightarrow> mp_links s b = mp"
  using assms unfolding mp_ok_def Let_def by blast+

section \<open>Taking and giving back a block\<close>

text \<open>The state after the first free block was taken, and after block \<open>b\<close> was put back.\<close>

definition mp_taken :: "ptr \<Rightarrow> ptr \<Rightarrow> kstate \<Rightarrow> kstate" where
  "mp_taken mp b s = set_link b mp (set_mp mp (\<lambda>m. m\<lparr>mp_block_free_count := mp_block_free_count m - 1,
     mp_block_list := mp_links s b\<rparr>) s)"

definition mp_given :: "ptr \<Rightarrow> ptr \<Rightarrow> kstate \<Rightarrow> kstate" where
  "mp_given mp b s = set_mp mp (\<lambda>m. m\<lparr>mp_block_free_count := mp_block_free_count m + 1, mp_block_list := b\<rparr>)
     (set_link b (mp_block_list (mempools s mp)) s)"

lemma pool_cong: "mp_start_address m' = mp_start_address m \<Longrightarrow> mp_block_size m' = mp_block_size m \<Longrightarrow>
    mp_block_total_count m' = mp_block_total_count m \<Longrightarrow> pool m' = pool m \<and> mp_fits m' = mp_fits m"
  by (simp add: pool_def mp_fits_def mp_step_def mp_block_def [abs_def])

lemma mp_take_ok:
  assumes ok: "mp_ok mp s" and ne: "mp_block_free_count (mempools s mp) \<noteq> 0"
  obtains b fs where "free_list mp s = b # fs" "mp_take mp s = Some (b + 4, mp_taken mp b s)"
    "mp_ok mp (mp_taken mp b s)" "free_list mp (mp_taken mp b s) = fs" "b \<in> pool (mempools s mp)"
proof -
  note D = mp_okD [OF ok]
  have "free_list mp s \<noteq> []" using D(5) ne by (auto simp: unat_eq_zero)
  then obtain b fs where fl: "free_list mp s = b # fs" by (auto simp: neq_Nil_conv)
  let ?s = "mp_taken mp b s"
  have b: "mp_block_list (mempools s mp) = b" "b \<noteq> RT_NULL" "fchain (mp_links s) (mp_links s b) fs" "b \<notin> set fs"
    using D(2,3) fl by auto
  have p: "pool (mempools ?s mp) = pool (mempools s mp)" "mp_fits (mempools ?s mp) = mp_fits (mempools s mp)"
    using pool_cong [of "mempools ?s mp" "mempools s mp"] by (simp_all add: mp_taken_def)
  have "fchain (mp_links ?s) (mp_links s b) fs"
    using b(3,4) by (subst fchain_cong [where l = "mp_links s"]) (auto simp: mp_taken_def)
  moreover have "length fs = unat (mp_block_free_count (mempools s mp) - 1)"
    using D(5) fl ne by (simp add: unat_minus_one)
  moreover have "mp_links ?s c = mp" if "c \<in> pool (mempools s mp) - set fs" for c
    using that D(6) [of c] fl by (auto simp: mp_taken_def)
  ultimately have I: "mp_fits (mempools ?s mp)" "fchain (mp_links ?s) (mp_block_list (mempools ?s mp)) fs"
    "distinct fs" "set fs \<subseteq> pool (mempools ?s mp)" "length fs = unat (mp_block_free_count (mempools ?s mp))"
    "\<And>b. b \<in> pool (mempools ?s mp) - set fs \<Longrightarrow> mp_links ?s b = mp"
    using D(1,3,4) fl unfolding p by (simp_all add: mp_taken_def)
  have "mp_ok mp ?s" "free_list mp ?s = fs" by (rule mp_okI [OF I], assumption)+
  moreover have "mp_take mp s = Some (b + 4, ?s)"
    using b by (simp add: mp_take_def mp_taken_def Let_def set_mp_def set_link_def)
  moreover have "b \<in> pool (mempools s mp)" using D(4) fl by simp
  ultimately show ?thesis using that fl by blast
qed

lemma mp_given_ok:
  assumes ok: "mp_ok mp s" and b: "b \<in> pool (mempools s mp) - set (free_list mp s)"
  shows "mp_ok mp (mp_given mp b s)" "free_list mp (mp_given mp b s) = b # free_list mp s"
proof -
  note D = mp_okD [OF ok]
  let ?s = "mp_given mp b s" and ?fs = "free_list mp s"
  have p: "pool (mempools ?s mp) = pool (mempools s mp)" "mp_fits (mempools ?s mp) = mp_fits (mempools s mp)"
    using pool_cong [of "mempools ?s mp" "mempools s mp"] by (simp_all add: mp_given_def)
  have "fchain (mp_links ?s) (mp_block_list (mempools s mp)) ?fs"
    using D(2) b by (subst fchain_cong [where l = "mp_links s"]) (auto simp: mp_given_def)
  then have "fchain (mp_links ?s) b (b # ?fs)" using pool_props(1) [OF D(1), of b] b by (simp add: mp_given_def)
  moreover have "length (b # ?fs) = unat (mp_block_free_count (mempools s mp) + 1)"
  proof -
    have "card (set (b # ?fs)) = Suc (length ?fs)" using D(3) b by (simp add: distinct_card)
    moreover have "card (set (b # ?fs)) \<le> card (pool (mempools s mp))" using D(4) b by (intro card_mono finite_pool) auto
    ultimately have "unat (mp_block_free_count (mempools s mp)) + 1 < 2 ^ 32"
      using finite_pool(2) [of "mempools s mp"] D(5) unat_u32_less [of "mp_block_total_count (mempools s mp)"] by simp
    then show ?thesis using D(5) unat_inc [of "mp_block_free_count (mempools s mp)"] by simp
  qed
  ultimately have I: "mp_fits (mempools ?s mp)" "fchain (mp_links ?s) (mp_block_list (mempools ?s mp)) (b # ?fs)"
    "distinct (b # ?fs)" "set (b # ?fs) \<subseteq> pool (mempools ?s mp)"
    "length (b # ?fs) = unat (mp_block_free_count (mempools ?s mp))"
    "\<And>c. c \<in> pool (mempools ?s mp) - set (b # ?fs) \<Longrightarrow> mp_links ?s c = mp"
    using D(1,3,4,6) b unfolding p by (simp_all add: mp_given_def)
  show "mp_ok mp ?s" "free_list mp ?s = b # ?fs" by (rule mp_okI [OF I], assumption)+
qed

end
