(* ===== verification/Mempool_Props.thy ===== *)
theory Mempool_Props
  imports Mempool Semaphore
begin

text \<open>
  The properties of the memory pools of \<open>src/src/mempool.c\<close>: the pool as an allocator of blocks of one size
  (the interpretation of the \<open>allocator\<close> contract), and waiting for a block.
\<close>

section \<open>The allocator contract\<close>

text \<open>A well-formed pool without waiters.\<close>

definition mp_ready :: "ptr \<Rightarrow> kstate \<Rightarrow> bool" where
  "mp_ready mp s \<longleftrightarrow> mp_ok mp s \<and> mp_suspend_thread_count (mempools s mp) = 0"

lemma rt_mp_alloc_free_block:
  "mp_block_free_count (mempools s mp) \<noteq> 0 \<Longrightarrow> rt_mp_alloc ws mp time s = mp_take mp s"
  by (simp add: rt_mp_alloc_def mp_wait_loop.simps)

lemma rt_mp_alloc_none:
  "mp_block_free_count (mempools s mp) = 0 \<Longrightarrow> rt_mp_alloc ws mp 0 s = Some (RT_NULL, rt_set_errno (- RT_ETIMEOUT) s)"
  by (simp add: rt_mp_alloc_def mp_wait_loop.simps)

lemma set_errno_fields [simp]:
  "mempools (rt_set_errno e s) = mempools s" "mp_links (rt_set_errno e s) = mp_links s"
  by (simp_all add: rt_set_errno_def)

lemma mp_same:
  assumes "mempools s' = mempools s" "mp_links s' = mp_links s"
  shows "mp_ok mp s' = mp_ok mp s" "free_list mp s' = free_list mp s" "mp_live mp s' = mp_live mp s"
    "mp_ready mp s' = mp_ready mp s"
  using assms by (simp_all add: mp_ok_def free_list_def mp_live_def [abs_def] mp_ready_def cong: if_cong)

lemma mp_live_taken:
  assumes "mp_ok mp s" "free_list mp s = b # fs" "free_list mp (mp_taken mp b s) = fs"
  shows "mp_live mp s (b + 4) = None"
    "mp_live mp (mp_taken mp b s) = (mp_live mp s)(b + 4 \<mapsto> unat (mp_block_size (mempools s mp)))"
proof -
  have p: "pool (mempools (mp_taken mp b s) mp) = pool (mempools s mp)"
    using pool_cong [of "mempools (mp_taken mp b s) mp" "mempools s mp"] by (simp add: mp_taken_def)
  have bs: "mp_block_size (mempools (mp_taken mp b s) mp) = mp_block_size (mempools s mp)" by (simp add: mp_taken_def)
  show "mp_live mp s (b + 4) = None" by (simp add: mp_live_def assms(2))
  have "b \<in> pool (mempools s mp)" "b \<notin> set fs" using mp_okD(3,4) [OF assms(1)] assms(2) by auto
  then show "mp_live mp (mp_taken mp b s) = (mp_live mp s)(b + 4 \<mapsto> unat (mp_block_size (mempools s mp)))"
    unfolding mp_live_def fun_eq_iff p bs assms(2,3) by (auto simp: eq_diff_eq)
qed

lemma mp_live_given:
  assumes "mp_ok mp s" "b \<in> pool (mempools s mp) - set (free_list mp s)"
  shows "mp_live mp (mp_given mp b s) = (mp_live mp s)(b + 4 := None)"
proof -
  have p: "pool (mempools (mp_given mp b s) mp) = pool (mempools s mp)"
    using pool_cong [of "mempools (mp_given mp b s) mp" "mempools s mp"] by (simp add: mp_given_def)
  have bs: "mp_block_size (mempools (mp_given mp b s) mp) = mp_block_size (mempools s mp)" by (simp add: mp_given_def)
  show ?thesis
    unfolding mp_live_def fun_eq_iff p bs mp_given_ok(2) [OF assms] by (auto simp: eq_diff_eq)
qed

lemma rt_mp_free_given:
  assumes "mp_ok mp s" "p - 4 \<in> pool (mempools s mp) - set (free_list mp s)"
    "mp_suspend_thread_count (mempools s mp) = 0"
  shows "rt_mp_free p s = Some (mp_given mp (p - 4) s)"
  using mp_okD(6) [OF assms(1,2)] assms(3)
  by (simp add: rt_mp_free_def mp_given_def Let_def set_mp_def set_link_def)

lemma mp_live_apart:
  assumes "mp_ok mp s" "mp_live mp s p = Some n" "mp_live mp s q = Some k" "p \<noteq> q"
  shows "apart p n q k"
proof -
  let ?m = "mempools s mp"
  have f: "mp_fits ?m" by (rule mp_okD(1) [OF assms(1)])
  have p: "p - 4 \<in> pool ?m" "n = unat (mp_block_size ?m)" and q: "q - 4 \<in> pool ?m" "k = unat (mp_block_size ?m)"
    using assms(2,3) by (auto simp: mp_live_def split: if_splits)
  have u: "unat x = unat (x - 4) + 4" if "x - 4 \<in> pool ?m" for x
  proof -
    have "unat (x - 4 + 4) = unat (x - 4) + 4"
      using pool_props(2) [OF f that] unat_add_lem [of "x - 4" 4] by simp
    then show ?thesis by simp
  qed
  have "q - 4 \<noteq> p - 4" using assms(4) by simp
  from pool_props(3) [OF f p(1) q(1) this] show ?thesis
    using u [OF p(1)] u [OF q(1)] mp_fitsD(2) [OF f] p(2) q(2) by (auto simp: apart_def)
qed

interpretation pool_allocator: allocator "\<lambda>s. mp_ready mp s \<and> mp_block_total_count (mempools s mp) = total" "mp_live mp"
  "\<lambda>s n. n \<le> mp_block_size (mempools s mp)" "\<lambda>_. rt_mp_alloc [] mp 0" rt_mp_free for mp total
proof
  fix s p n q k
  assume "mp_ready mp s \<and> mp_block_total_count (mempools s mp) = total" "mp_live mp s p = Some n" "mp_live mp s q = Some k" "p \<noteq> q"
  then show "apart p n q k" by (auto simp: mp_ready_def intro: mp_live_apart)
next
  fix s sz
  assume rdy: "mp_ready mp s \<and> mp_block_total_count (mempools s mp) = total" and sz: "sz \<le> mp_block_size (mempools s mp)"
  then have ok: "mp_ok mp s" by (simp add: mp_ready_def)
  show "\<exists>p s'. rt_mp_alloc [] mp 0 s = Some (p, s') \<and> (mp_ready mp s' \<and> mp_block_total_count (mempools s' mp) = total) \<and>
      (\<lambda>n. n \<le> mp_block_size (mempools s' mp)) = (\<lambda>n. n \<le> mp_block_size (mempools s mp)) \<and>
      (p = RT_NULL \<and> mp_live mp s' = mp_live mp s \<or>
       p \<noteq> RT_NULL \<and> mp_live mp s p = None \<and> (\<exists>k. unat sz \<le> k \<and> mp_live mp s' = (mp_live mp s)(p \<mapsto> k)))"
  proof (cases "mp_block_free_count (mempools s mp) = 0")
    case True
    then show ?thesis using rdy rt_mp_alloc_none [OF True] mp_same [of "rt_set_errno (- RT_ETIMEOUT) s" s mp]
      by (intro exI [of _ RT_NULL] exI [of _ "rt_set_errno (- RT_ETIMEOUT) s"]) simp
  next
    case False
    obtain b fs where b: "free_list mp s = b # fs" "mp_take mp s = Some (b + 4, mp_taken mp b s)"
      "mp_ok mp (mp_taken mp b s)" "free_list mp (mp_taken mp b s) = fs" "b \<in> pool (mempools s mp)"
      by (rule mp_take_ok [OF ok False])
    have "unat (b + 4) = unat b + 4"
      using pool_props(2) [OF mp_okD(1) [OF ok] b(5)] by (subst unat_add_lem [THEN iffD1]) simp_all
    then have "b + 4 \<noteq> RT_NULL" by auto
    then show ?thesis
      using b rt_mp_alloc_free_block [OF False] mp_live_taken [OF ok b(1,4)] rdy sz
      by (intro exI [of _ "b + 4"] exI [of _ "mp_taken mp b s"])
         (auto simp: mp_ready_def mp_taken_def word_le_nat_alt)
  qed
next
  fix s p k
  assume rdy: "mp_ready mp s \<and> mp_block_total_count (mempools s mp) = total" and "mp_live mp s p = Some k"
  then have p: "mp_ok mp s" "p - 4 \<in> pool (mempools s mp) - set (free_list mp s)"
    by (auto simp: mp_ready_def mp_live_def split: if_splits)
  show "\<exists>s'. rt_mp_free p s = Some s' \<and> (mp_ready mp s' \<and> mp_block_total_count (mempools s' mp) = total) \<and>
      (\<lambda>n. n \<le> mp_block_size (mempools s' mp)) = (\<lambda>n. n \<le> mp_block_size (mempools s mp)) \<and>
      mp_live mp s' = (mp_live mp s)(p := None)"
    using rt_mp_free_given [OF p] mp_given_ok(1) [OF p] mp_live_given [OF p] rdy
    by (simp add: mp_ready_def mp_given_def)
qed

section \<open>Initialisation\<close>

lemma inj_mp_block: "mp_fits m \<Longrightarrow> inj_on (mp_block m) {..<unat (mp_block_total_count m)}"
proof (rule inj_onI)
  fix i j assume f: "mp_fits m" and ij: "i \<in> {..<unat (mp_block_total_count m)}" "j \<in> {..<unat (mp_block_total_count m)}"
    "mp_block m i = mp_block m j"
  then have "i * unat (mp_step m) = j * unat (mp_step m)"
    using unat_mp_block(1) [OF f, of i] unat_mp_block(1) [OF f, of j] by auto
  then show "i = j" using mp_fitsD(2) [OF f] by auto
qed

lemma link_blocks_nth:
  assumes "mp_fits m" "n \<le> unat (mp_block_total_count m)" "i < n"
  shows "link_blocks (mp_start_address m) (mp_step m) n l (mp_block m i) = mp_block m (Suc i)"
  using assms(2,3)
proof (induction n)
  case (Suc n)
  show ?case
  proof (cases "i = n")
    case True
    then show ?thesis by (simp add: mp_block_def add.commute)
  next
    case False
    have "mp_block m i \<noteq> mp_block m n"
      using inj_onD [OF inj_mp_block [OF assms(1)], of i n] False Suc.prems by auto
    then show ?thesis using Suc False by (simp add: mp_block_def)
  qed
qed simp

lemma fchain_blocks:
  assumes "\<And>i. Suc i < n \<Longrightarrow> l (mp_block m i) = mp_block m (Suc i)" "l (mp_block m (n - 1)) = RT_NULL"
    "\<And>i. i < n \<Longrightarrow> mp_block m i \<noteq> RT_NULL" "k < n"
  shows "fchain l (mp_block m k) (map (mp_block m) [k..<n])"
  using assms(4)
proof (induction "n - k" arbitrary: k)
  case (Suc d)
  then have up: "[k..<n] = k # [Suc k..<n]" by (simp add: upt_conv_Cons)
  show ?case
  proof (cases "Suc k < n")
    case True
    then show ?thesis using Suc.hyps(1) [of "Suc k"] Suc.hyps(2) assms(1) [of k] assms(3) [of k] up by simp
  next
    case False
    then have "n - 1 = k" "[Suc k..<n] = []" using Suc.prems by auto
    then show ?thesis using assms(2) assms(3) [of k] Suc.prems up by simp
  qed
qed simp

lemma mp_link_all_ok:
  assumes "mp_fits m" "0 < unat (mp_block_total_count m)" "mempools s mp = m"
    "mp_block_free_count m = mp_block_total_count m" "mp_suspend_thread_count m = 0"
  shows "mp_ready mp (mp_link_all mp s)" "mp_live mp (mp_link_all mp s) = Map.empty"
    "mempools (mp_link_all mp s) mp = m\<lparr>mp_block_list := mp_start_address m\<rparr>"
proof -
  let ?n = "unat (mp_block_total_count m)" and ?s = "mp_link_all mp s"
  let ?l = "link_blocks (mp_start_address m) (mp_step m) ?n (mp_links s)"
  have last: "mp_start_address m + (mp_block_total_count m - 1) * mp_step m = mp_block m (?n - 1)"
    using assms(2) by (simp add: mp_block_def of_nat_diff)
  show m': "mempools ?s mp = m\<lparr>mp_block_list := mp_start_address m\<rparr>"
    by (simp add: mp_link_all_def Let_def assms(3))
  have l: "mp_links ?s = ?l(mp_block m (?n - 1) := RT_NULL)"
    using last by (simp add: mp_link_all_def Let_def assms(3) mp_step_def)
  have p: "pool (mempools ?s mp) = pool m" "mp_fits (mempools ?s mp)"
    using pool_cong [of "mempools ?s mp" m] assms(1) m' by simp_all
  note inj = inj_mp_block [OF assms(1)]
  let ?fs = "map (mp_block m) [0..<?n]"
  have "mp_links ?s (mp_block m i) = mp_block m (Suc i)" if "Suc i < ?n" for i
    using that link_blocks_nth [OF assms(1), of ?n i "mp_links s"] inj_onD [OF inj, of i "?n - 1"]
    by (auto simp: l)
  moreover have "mp_links ?s (mp_block m (?n - 1)) = RT_NULL" by (simp add: l)
  moreover have "mp_block m i \<noteq> RT_NULL" if "i < ?n" for i
    using that pool_props(1) [OF assms(1)] by (auto simp: pool_def)
  ultimately have "fchain (mp_links ?s) (mp_block m 0) ?fs" using assms(2) by (rule fchain_blocks)
  then have c: "fchain (mp_links ?s) (mp_block_list (mempools ?s mp)) ?fs" by (simp add: m' mp_block_def)
  have d: "distinct ?fs" using inj by (simp add: distinct_map lessThan_atLeast0)
  have sub: "set ?fs = pool m" by (simp add: pool_def lessThan_atLeast0)
  have len: "length ?fs = unat (mp_block_free_count (mempools ?s mp))" by (simp add: m' assms(4))
  have ok: "mp_ok mp ?s" "free_list mp ?s = ?fs"
    by (rule mp_okI [OF p(2) c d _ len]; simp add: sub [simplified] p(1))+
  then show "mp_ready mp ?s" using m' assms(5) by (simp add: mp_ready_def)
  show "mp_live mp ?s = Map.empty"
    unfolding mp_live_def fun_eq_iff p(1) ok(2) sub by simp
qed

lemma rt_mp_init_ready:
  assumes "mp \<noteq> RT_NULL" "start \<noteq> RT_NULL" "unat start + unat (RT_ALIGN_DOWN sz 4) < 2 ^ 32" "unat bs \<le> 2 ^ 32 - 12"
    "unat (RT_ALIGN bs 4) + 4 \<le> unat (RT_ALIGN_DOWN sz 4)"
  shows "\<exists>s'. rt_mp_init mp name start sz bs s = Some (RT_EOK, s') \<and> mp_ready mp s' \<and> mp_live mp s' = Map.empty \<and>
    mp_block_size (mempools s' mp) = RT_ALIGN bs 4 \<and> mp_start_address (mempools s' mp) = start \<and>
    unat (mp_block_total_count (mempools s' mp)) = unat (RT_ALIGN_DOWN sz 4) div (unat (RT_ALIGN bs 4) + 4)"
proof -
  let ?sz = "RT_ALIGN_DOWN sz 4" and ?bs = "RT_ALIGN bs 4"
  have "unat ?bs \<le> 2 ^ 32 - 12" using RT_ALIGN_4 [of bs] assms(4) by simp
  then have st: "unat (?bs + 4) = unat ?bs + 4" by (subst unat_add_lem [THEN iffD1]) simp_all
  then have n: "unat (?sz div (?bs + 4)) = unat ?sz div (unat ?bs + 4)" by (simp add: unat_div)
  define m where "m = (mempools s mp)\<lparr>mp_start_address := start, mp_size := ?sz, mp_block_size := ?bs,
    mp_block_total_count := ?sz div (?bs + 4), mp_block_free_count := ?sz div (?bs + 4), mp_suspend_thread_count := 0\<rparr>"
  have "unat ?sz div (unat ?bs + 4) * (unat ?bs + 4) \<le> unat ?sz" by (rule div_times_less_eq_dividend)
  then have "unat start + unat ?sz div (unat ?bs + 4) * (unat ?bs + 4) < 2 ^ 32" using assms(3) by linarith
  then have "mp_fits m"
    using assms(2) st n by (simp add: mp_fits_def mp_step_def m_def unat_gt_0)
  moreover have "0 < unat (mp_block_total_count m)"
    using n assms(5) by (simp add: m_def div_greater_zero_iff)
  moreover obtain s0 where "rt_mp_init mp name start sz bs s = Some (RT_EOK, mp_link_all mp s0)" "mempools s0 mp = m"
  proof -
    obtain s1 where s1: "rt_object_init (At mp) RT_Object_Class_MemPool name s = Some s1" "mempools s1 = mempools s"
      using rt_object_init_Some [of "At mp" RT_Object_Class_MemPool name s] by simp
    define s0 where "s0 = s1\<lparr>tqs := (tqs s1)(Susp mp := []), mempools := (mempools s1)(mp := m)\<rparr>"
    have "rt_mp_init mp name start sz bs s = Some (RT_EOK, mp_link_all mp s0)"
      using assms(1) s1 by (simp add: rt_mp_init_def set_mp_def Let_def s0_def m_def)
    then show ?thesis using that [of s0] by (simp add: s0_def)
  qed
  ultimately show ?thesis
    using mp_link_all_ok [of m s0 mp] n by (simp add: m_def)
qed

section \<open>Counting\<close>

lemma mp_live_count:
  assumes "mp_ok mp s"
  shows "card (dom (mp_live mp s)) + unat (mp_block_free_count (mempools s mp)) = unat (mp_block_total_count (mempools s mp))"
proof -
  let ?m = "mempools s mp" and ?fs = "free_list mp s"
  note D = mp_okD [OF assms]
  have "dom (mp_live mp s) = (\<lambda>b. b + 4) ` (pool ?m - set ?fs)"
    by (force simp: mp_live_def image_iff split: if_splits)
  then have "card (dom (mp_live mp s)) = card (pool ?m - set ?fs)" by (simp add: card_image)
  also have "\<dots> = card (pool ?m) - length ?fs"
    using D(3,4) by (simp add: card_Diff_subset distinct_card)
  finally have "card (dom (mp_live mp s)) + length ?fs = card (pool ?m)"
    using card_mono [OF finite_pool(1) D(4)] distinct_card [OF D(3)] by simp
  moreover have "card (pool ?m) = unat (mp_block_total_count ?m)"
    unfolding pool_def by (simp add: card_image [OF inj_mp_block [OF D(1)]])
  ultimately show ?thesis using D(5) by simp
qed

section \<open>Waiting for a block\<close>

text \<open>The state in which \<open>rt_mp_alloc\<close> calls the scheduler: the caller is in front of the waiting list.\<close>

definition mp_parked :: "ptr \<Rightarrow> kstate \<Rightarrow> kstate" where
  "mp_parked mp s =
     (let t = rt_current_thread s;
          s = suspended t (set_thread t (\<lambda>th. th\<lparr>th_error := RT_EOK\<rparr>) s)
      in set_mp mp (\<lambda>m. m\<lparr>mp_suspend_thread_count := mp_suspend_thread_count m + 1\<rparr>)
           (s\<lparr>tqs := q_insert_after (Susp mp) t (tqs s)\<rparr>))"

definition mp_blocked :: "ptr \<Rightarrow> rt_int32_t \<Rightarrow> kstate \<Rightarrow> kstate" where
  "mp_blocked mp time s =
     (if 0 < sint time
      then started (TmrOf (rt_current_thread s))
             (set_timer (TmrOf (rt_current_thread s)) (\<lambda>r. r\<lparr>tm_init_tick := time\<rparr>) (mp_parked mp s))
      else mp_parked mp s)"

lemma set_mp_fields [simp]:
  "timers (set_mp p f s) = timers s" "objects (set_mp p f s) = objects s" "timer_list (set_mp p f s) = timer_list s"
  "ready_group (set_mp p f s) = ready_group s" "rt_current_thread (set_mp p f s) = rt_current_thread s"
  "rt_scheduler_lock_nest (set_mp p f s) = rt_scheduler_lock_nest s" "rt_tick (set_mp p f s) = rt_tick s"
  "rt_interrupt_nest (set_mp p f s) = rt_interrupt_nest s"
  by (simp_all add: set_mp_def)

lemma thread_inv_set_mp [simp]: "thread_inv (set_mp p f s) = thread_inv s"
  by (rule thread_inv_cong) simp_all

lemma mp_parked_fields:
  "rt_current_thread (mp_parked mp s) = rt_current_thread s" "rt_tick (mp_parked mp s) = rt_tick s"
  "rt_scheduler_lock_nest (mp_parked mp s) = rt_scheduler_lock_nest s"
  "rt_interrupt_nest (mp_parked mp s) = rt_interrupt_nest s"
  "ready_group (mp_parked mp s) = ready_group (suspended (rt_current_thread s) s)"
  "threads (mp_parked mp s) = (threads s)(rt_current_thread s :=
     (threads s (rt_current_thread s))\<lparr>th_error := RT_EOK, th_stat := RT_THREAD_SUSPEND\<rparr>)"
  "mempools (mp_parked mp s) = (mempools s)(mp := (mempools s mp)
     \<lparr>mp_suspend_thread_count := mp_suspend_thread_count (mempools s mp) + 1\<rparr>)"
  "mp_links (mp_parked mp s) = mp_links s"
  by (simp_all add: mp_parked_def Let_def ready_group_set_error)

lemma tqs_mp_parked:
  "tqs (mp_parked mp s) q = (if q = Susp mp then [rt_current_thread s] else []) @
     removeAll (rt_current_thread s) (tqs s q)"
  by (simp add: mp_parked_def Let_def q_insert_after_def q_remove_def)

lemma thread_inv_mp_parked:
  assumes "thread_inv s" "runnable s"
  shows "thread_inv (mp_parked mp s)"
proof -
  let ?t = "rt_current_thread s"
  let ?u = "suspended ?t (set_thread ?t (\<lambda>th. th\<lparr>th_error := RT_EOK\<rparr>) s)"
  have g: "good (set_thread ?t (\<lambda>th. th\<lparr>th_error := RT_EOK\<rparr>) s) ?t" using assms(2) by (simp add: runnable_def)
  note i = thread_inv_suspended [OF _ g]
  have inv: "thread_inv ?u" "unlinked ?t (tqs ?u)" using i(1,2) assms(1) by simp_all
  have "wf_queues (q_insert_after (Susp mp) ?t (tqs ?u))"
    using ready_invD(1) [OF thread_invD(1) [OF inv(1)]] inv(2) by (rule wf_queues_insert_after)
  then have "thread_inv (?u\<lparr>tqs := q_insert_after (Susp mp) ?t (tqs ?u)\<rparr>)"
    using g by (intro thread_inv_enqueue [OF inv(1), of ?t "Susp mp"]) (auto simp: q_insert_after_def)
  then show ?thesis by (simp add: mp_parked_def Let_def)
qed

lemma timer_inv_mp_parked: "timer_inv s \<Longrightarrow> timer_inv (mp_parked mp s)"
proof -
  assume "timer_inv s"
  then have "timer_inv (suspended (rt_current_thread s) (set_thread (rt_current_thread s) (\<lambda>th. th\<lparr>th_error := RT_EOK\<rparr>) s))"
    by (intro timer_inv_suspended) simp
  then show ?thesis
    by (subst timer_inv_cong [where s = "suspended (rt_current_thread s) (set_thread (rt_current_thread s) (\<lambda>th. th\<lparr>th_error := RT_EOK\<rparr>) s)"])
       (simp_all add: mp_parked_def Let_def)
qed

lemma good_mp_parked: "good (mp_parked mp s) t = good s t"
proof -
  let ?u = "suspended (rt_current_thread s) (set_thread (rt_current_thread s) (\<lambda>th. th\<lparr>th_error := RT_EOK\<rparr>) s)"
  have "good (mp_parked mp s) t = good ?u t" by (rule good_cong) (simp_all add: mp_parked_def Let_def)
  then show ?thesis by simp
qed

lemma thread_inv_mp_blocked:
  assumes "thread_inv s" "timer_inv s" "runnable s" "time_ok time"
  shows "thread_inv (mp_blocked mp time s)"
proof (cases "0 < sint time")
  case True
  let ?t = "rt_current_thread s"
  let ?s = "set_timer (TmrOf ?t) (\<lambda>r. r\<lparr>tm_init_tick := time\<rparr>) (mp_parked mp s)"
  have "thread_inv ?s" using thread_inv_mp_parked [OF assms(1,3)] by (simp add: thread_inv_set_init)
  moreover have "timer_inv ?s"
    using timer_inv_mp_parked [OF assms(2)] by (simp add: timer_inv_def time_left_set_init)
  moreover have "good ?s ?t" using assms(3) by (simp add: good_mp_parked runnable_def)
  ultimately have "thread_inv (started (TmrOf ?t) ?s)"
    using True assms(4) by (intro thread_inv_started) (auto simp: time_ok_def mp_parked_fields)
  then show ?thesis using True by (simp add: mp_blocked_def)
qed (use thread_inv_mp_parked [OF assms(1,3)] in \<open>simp add: mp_blocked_def\<close>)

lemma mp_blocked_fields:
  "rt_current_thread (mp_blocked mp time s) = rt_current_thread s"
  "rt_scheduler_lock_nest (mp_blocked mp time s) = rt_scheduler_lock_nest s"
  "rt_interrupt_nest (mp_blocked mp time s) = rt_interrupt_nest s"
  "ready_group (mp_blocked mp time s) = ready_group (suspended (rt_current_thread s) s)"
  "threads (mp_blocked mp time s) = threads (mp_parked mp s)" "tqs (mp_blocked mp time s) = tqs (mp_parked mp s)"
  "mempools (mp_blocked mp time s) = mempools (mp_parked mp s)" "mp_links (mp_blocked mp time s) = mp_links s"
  by (simp_all add: mp_blocked_def mp_parked_fields)

lemma mp_wait_loop_blocks:
  assumes "mp_block_free_count (mempools s mp) = 0" "time \<noteq> 0" "runnable s" "time_ok time"
  shows "mp_wait_loop mp (rt_current_thread s) (w # ws) time s =
    Option.bind (schedule_switch w (mp_blocked mp time s)) (\<lambda>s'.
      if th_error (threads s' (rt_current_thread s)) \<noteq> RT_EOK then Some (Inl s')
      else mp_wait_loop mp (rt_current_thread s) ws (retime time (rt_tick s' - rt_tick s)) s')"
proof -
  let ?t = "rt_current_thread s" and ?e = "set_thread (rt_current_thread s) (\<lambda>th. th\<lparr>th_error := RT_EOK\<rparr>) s"
  have g: "good ?e ?t" "th_stat (threads ?e ?t) = RT_THREAD_READY" "rt_interrupt_nest s = 0"
    using assms(3) by (simp_all add: runnable_def in_thread_context_def)
  then show ?thesis
    using assms(1,2,4) rt_thread_suspend_eq [OF g(1,2)]
    by (subst mp_wait_loop.simps, cases "0 < sint time")
       (simp_all add: RT_DEBUG_NOT_IN_INTERRUPT_def rt_tick_get_def Let_def mp_blocked_def mp_parked_def
          rt_timer_control_def rt_timer_start_eq time_ok_def cong: if_cong)
qed

lemma mp_blocked_switch:
  assumes "thread_inv s" "timer_inv s" "runnable s" "time_ok time" "can_switch s"
  obtains s0 where "rt_schedule (mp_blocked mp time s) = Some s0" "thread_inv s0"
    "rt_current_thread s0 \<noteq> rt_current_thread s" "\<And>w. schedule_switch w (mp_blocked mp time s) = Some (w s0)"
proof -
  let ?b = "mp_blocked mp time s"
  have inv: "thread_inv ?b" by (rule thread_inv_mp_blocked [OF assms(1-4)])
  obtain s0 where s0: "rt_schedule ?b = Some s0" "thread_inv s0"
    using rt_schedule_total [OF inv] assms(5) by (auto simp: can_switch_def mp_blocked_fields)
  have "\<exists>p. rt_current_thread s0 \<in> set (tqs ?b (Ready p))"
    using rt_schedule_current [OF thread_invD(1) [OF inv] s0(1)] assms(5) by (simp add: can_switch_def mp_blocked_fields)
  then have ne: "rt_current_thread s0 \<noteq> rt_current_thread s" by (auto simp: mp_blocked_fields tqs_mp_parked)
  have "schedule_switch w ?b = Some (w s0)" for w
    using s0(1) ne assms(3) by (simp add: schedule_switch_def runnable_def in_thread_context_def mp_blocked_fields)
  then show ?thesis using that [OF s0 ne] by simp
qed

text \<open>\<open>rt_mp_free\<close> with waiters.\<close>

lemma rt_mp_free_waiter:
  assumes "thread_inv s" "mp_links s (p - 4) = mp" "0 < mp_suspend_thread_count (mempools s mp)"
    "tqs s (Susp mp) = t # ts"
  shows "\<exists>s'. rt_mp_free p s = Some s' \<and> thread_inv s' \<and> tqs s' (Susp mp) = ts \<and>
    threads s' t = (threads s t)\<lparr>th_stat := RT_THREAD_READY, th_error := RT_EOK\<rparr> \<and>
    mempools s' mp = (mempools (mp_given mp (p - 4) s) mp)
      \<lparr>mp_suspend_thread_count := mp_suspend_thread_count (mempools s mp) - 1\<rparr> \<and>
    mp_links s' = mp_links (mp_given mp (p - 4) s)"
proof -
  let ?g = "mp_given mp (p - 4) s"
  let ?e = "set_thread t (\<lambda>th. th\<lparr>th_error := RT_EOK\<rparr>) ?g"
  have "thread_inv ?g = thread_inv s" by (rule thread_inv_cong) (simp_all add: mp_given_def set_link_def)
  then have inv: "thread_inv ?e" using assms(1) by simp
  have l: "tqs ?e (Susp mp) = t # ts" using assms(4) by (simp add: mp_given_def)
  note r = rt_ipc_list_resume_eq [OF inv wait_list_simps(1) l]
  let ?r = "set_mp mp (\<lambda>m. m\<lparr>mp_suspend_thread_count := mp_suspend_thread_count m - 1\<rparr>) (resumed t ?e)"
  have "thread_inv ?r" "ready_group ?r \<noteq> 0" using r(4,5) by simp_all
  then obtain s' where s': "rt_schedule ?r = Some s'" "thread_inv s'" using rt_schedule_total by blast
  have m: "mp_suspend_thread_count (mempools ?g mp) = mp_suspend_thread_count (mempools s mp)" by (simp add: mp_given_def)
  have g: "set_mp mp (\<lambda>m. m\<lparr>mp_block_list := p - 4\<rparr>) (set_link (p - 4)
      (mp_block_list (mempools (set_mp mp (\<lambda>m. m\<lparr>mp_block_free_count := mp_block_free_count m + 1\<rparr>) s) mp))
      (set_mp mp (\<lambda>m. m\<lparr>mp_block_free_count := mp_block_free_count m + 1\<rparr>) s)) = ?g"
    by (simp add: mp_given_def set_mp_def set_link_def)
  have "rt_mp_free p s = rt_schedule ?r"
    using assms(3,4) m l rt_thread_resume_eq [OF r(2,3)] unfolding rt_mp_free_def Let_def assms(2) g by simp
  then show ?thesis
    using s' r(6) rt_schedule_fields [OF s'(1)]
    by (intro exI [of _ s']) (simp add: mp_given_def)
qed

section \<open>Properties\<close>

text \<open>
  C20. Memory safety of a pool: \<open>rt_mp_init\<close> on a memory area inside the address space with room for at least
  one block makes a pool of \<open>size / (block_size + 4)\<close> blocks (both sizes aligned); then any sequence of
  \<open>rt_mp_alloc\<close> without waiting and of \<open>rt_mp_free\<close> of blocks still held returns, the blocks held are
  pairwise disjoint and of the block size, and their number and \<open>block_free_count\<close> always add up to the
  number of blocks.
\<close>

theorem rt_mp_alloc_free_safe:
  assumes "mp \<noteq> RT_NULL" "start \<noteq> RT_NULL" "unat start + unat (RT_ALIGN_DOWN sz 4) < 2 ^ 32" "unat bs \<le> 2 ^ 32 - 12"
    "unat (RT_ALIGN bs 4) + 4 \<le> unat (RT_ALIGN_DOWN sz 4)"
  shows "\<exists>s1. rt_mp_init mp name start sz bs s = Some (RT_EOK, s1) \<and>
    (\<forall>os. (\<forall>n. Alloc n \<in> set os \<longrightarrow> n \<le> RT_ALIGN bs 4) \<longrightarrow>
      (\<exists>held s'. alloc_run (\<lambda>_. rt_mp_alloc [] mp 0) rt_mp_free os [] s1 = Some (held, s') \<and> mp_ok mp s' \<and>
         distinct (map fst held) \<and>
         (\<forall>(p, n) \<in> set held. \<forall>(q, k) \<in> set held. p \<noteq> q \<longrightarrow> apart p (unat n) q (unat k)) \<and>
         length held + unat (mp_block_free_count (mempools s' mp)) =
           unat (RT_ALIGN_DOWN sz 4) div (unat (RT_ALIGN bs 4) + 4)))"
proof -
  obtain s1 where s1: "rt_mp_init mp name start sz bs s = Some (RT_EOK, s1)" "mp_ready mp s1" "mp_live mp s1 = Map.empty"
    "mp_block_size (mempools s1 mp) = RT_ALIGN bs 4"
    "unat (mp_block_total_count (mempools s1 mp)) = unat (RT_ALIGN_DOWN sz 4) div (unat (RT_ALIGN bs 4) + 4)"
    using rt_mp_init_ready [OF assms, of name s] by blast
  have "\<exists>held s'. alloc_run (\<lambda>_. rt_mp_alloc [] mp 0) rt_mp_free os [] s1 = Some (held, s') \<and> mp_ok mp s' \<and>
         distinct (map fst held) \<and>
         (\<forall>(p, n) \<in> set held. \<forall>(q, k) \<in> set held. p \<noteq> q \<longrightarrow> apart p (unat n) q (unat k)) \<and>
         length held + unat (mp_block_free_count (mempools s' mp)) =
           unat (RT_ALIGN_DOWN sz 4) div (unat (RT_ALIGN bs 4) + 4)"
    if ops: "\<forall>n. Alloc n \<in> set os \<longrightarrow> n \<le> RT_ALIGN bs 4" for os
  proof -
    obtain held s' where h: "alloc_run (\<lambda>_. rt_mp_alloc [] mp 0) rt_mp_free os [] s1 = Some (held, s')"
      "mp_ready mp s'" "mp_block_total_count (mempools s' mp) = mp_block_total_count (mempools s1 mp)"
      "distinct (map fst held)" "dom (mp_live mp s') = fst ` set held"
      "\<forall>(p, n) \<in> set held. \<forall>(q, k) \<in> set held. p \<noteq> q \<longrightarrow> apart p (unat n) q (unat k)"
      using pool_allocator.run_safe [of mp s1 "mp_block_total_count (mempools s1 mp)" os] s1(2-4) ops by auto
    have ok: "mp_ok mp s'" using h(2) by (simp add: mp_ready_def)
    have "card (dom (mp_live mp s')) = length held"
      using distinct_card [OF h(4)] h(5) by simp
    then have "length held + unat (mp_block_free_count (mempools s' mp)) =
        unat (RT_ALIGN_DOWN sz 4) div (unat (RT_ALIGN bs 4) + 4)"
      using mp_live_count [OF ok] h(3) s1(5) by simp
    with h(1,4,6) ok show ?thesis by blast
  qed
  with s1(1) show ?thesis by blast
qed

theorem rt_mp_alloc_free_safe_witness:
  "\<exists>s1 held s'. rt_mp_init 0x600 [109, 0] 0x2000 64 12 zero_state = Some (RT_EOK, s1) \<and>
     alloc_run (\<lambda>_. rt_mp_alloc [] 0x600 0) rt_mp_free [Alloc 12, Alloc 12, Release 1] [] s1 = Some (held, s') \<and>
     length held + unat (mp_block_free_count (mempools s' 0x600)) = 4"
proof -
  have a: "RT_ALIGN 12 4 = 12" "RT_ALIGN_DOWN 64 4 = 64" by (simp_all add: RT_ALIGN_def RT_ALIGN_DOWN_def)
  obtain s1 where s1: "rt_mp_init 0x600 [109, 0] 0x2000 64 12 zero_state = Some (RT_EOK, s1)"
    "\<forall>os. (\<forall>n. Alloc n \<in> set os \<longrightarrow> n \<le> 12) \<longrightarrow>
      (\<exists>held s'. alloc_run (\<lambda>_. rt_mp_alloc [] 0x600 0) rt_mp_free os [] s1 = Some (held, s') \<and>
         length held + unat (mp_block_free_count (mempools s' 0x600)) = 4)"
    using rt_mp_alloc_free_safe [of "0x600" "0x2000" 64 12 "[109, 0]" zero_state] unfolding a by fastforce
  from s1(2) [rule_format, of "[Alloc 12, Alloc 12, Release 1]"] show ?thesis using s1(1) by auto
qed

text \<open>
  Waiting for a block, and its flaw.  \<open>rt_mp_alloc\<close> on an exhausted pool puts the caller in front of the
  waiting list (the last to come is the first served), counts it in \<open>suspend_thread_count\<close> and gives up the
  processor; woken without an error it takes a block if there is one.  \<open>rt_mp_free\<close> with a waiter makes the
  first of the list ready and uncounts it.  But a waiter that comes back with an error, such as a timeout,
  returns without being uncounted; so once the list is empty and the count is positive, \<open>rt_mp_free\<close> takes
  the list head itself for a thread.
\<close>

theorem rt_mp_alloc_waits:
  assumes "thread_inv s" "timer_inv s" "runnable s" "can_switch s" "time \<noteq> 0" "time_ok time"
    "mp_block_free_count (mempools s mp) = 0"
  shows "\<exists>s0. thread_inv s0 \<and> rt_current_thread s0 \<noteq> rt_current_thread s \<and>
    tqs s0 (Susp mp) = rt_current_thread s # tqs s (Susp mp) \<and>
    mp_suspend_thread_count (mempools s0 mp) = mp_suspend_thread_count (mempools s mp) + 1 \<and>
    (\<forall>w ws. th_error (threads (w s0) (rt_current_thread s)) = RT_EOK \<longrightarrow>
       mp_block_free_count (mempools (w s0) mp) \<noteq> 0 \<longrightarrow> rt_mp_alloc (w # ws) mp time s = mp_take mp (w s0)) \<and>
    (\<forall>w ws. th_error (threads (w s0) (rt_current_thread s)) \<noteq> RT_EOK \<longrightarrow>
       rt_mp_alloc (w # ws) mp time s = Some (RT_NULL, w s0)) \<and>
    (\<forall>r p t ts. thread_inv r \<longrightarrow> mp_links r (p - 4) = mp \<longrightarrow> 0 < mp_suspend_thread_count (mempools r mp) \<longrightarrow>
       (tqs r (Susp mp) = t # ts \<longrightarrow> (\<exists>r'. rt_mp_free p r = Some r' \<and> thread_inv r' \<and> tqs r' (Susp mp) = ts \<and>
          threads r' t = (threads r t)\<lparr>th_stat := RT_THREAD_READY, th_error := RT_EOK\<rparr> \<and>
          mp_suspend_thread_count (mempools r' mp) = mp_suspend_thread_count (mempools r mp) - 1)) \<and>
       (tqs r (Susp mp) = [] \<longrightarrow> rt_mp_free p r = None))"
proof -
  let ?c = "rt_current_thread s"
  obtain s0 where s0: "rt_schedule (mp_blocked mp time s) = Some s0" "thread_inv s0" "rt_current_thread s0 \<noteq> ?c"
    "\<And>w. schedule_switch w (mp_blocked mp time s) = Some (w s0)"
    by (rule mp_blocked_switch [OF assms(1-3,6,4)]) blast
  have "?c \<notin> set (tqs s (Susp mp))"
    using ready_not_waiting [OF assms(1) wait_list_simps(1)] assms(3) by (simp add: runnable_def)
  then have q: "tqs s0 (Susp mp) = ?c # tqs s (Susp mp)"
    using rt_schedule_fields(4) [OF s0(1)] by (simp add: mp_blocked_fields tqs_mp_parked)
  have c: "mp_suspend_thread_count (mempools s0 mp) = mp_suspend_thread_count (mempools s mp) + 1"
    using rt_schedule_fields(13) [OF s0(1)] by (simp add: mp_blocked_fields mp_parked_fields)
  have call: "rt_mp_alloc (w # ws) mp time s =
      Option.bind (if th_error (threads (w s0) ?c) \<noteq> RT_EOK then Some (Inl (w s0))
         else mp_wait_loop mp ?c ws (retime time (rt_tick (w s0) - rt_tick s)) (w s0))
        (\<lambda>r. case r of Inl s \<Rightarrow> Some (RT_NULL, s) | Inr s \<Rightarrow> mp_take mp s)" for w ws
    using mp_wait_loop_blocks [OF assms(7,5,3,6)] s0(4) by (simp add: rt_mp_alloc_def rt_thread_self_def)
  have "rt_mp_alloc (w # ws) mp time s = mp_take mp (w s0)"
    if "th_error (threads (w s0) ?c) = RT_EOK" "mp_block_free_count (mempools (w s0) mp) \<noteq> 0" for w ws
    using that by (simp add: call mp_wait_loop.simps)
  moreover have "rt_mp_alloc (w # ws) mp time s = Some (RT_NULL, w s0)"
    if "th_error (threads (w s0) ?c) \<noteq> RT_EOK" for w ws using that by (simp add: call)
  moreover have "\<exists>r'. rt_mp_free p r = Some r' \<and> thread_inv r' \<and> tqs r' (Susp mp) = ts \<and>
      threads r' t = (threads r t)\<lparr>th_stat := RT_THREAD_READY, th_error := RT_EOK\<rparr> \<and>
      mp_suspend_thread_count (mempools r' mp) = mp_suspend_thread_count (mempools r mp) - 1"
    if "thread_inv r" "mp_links r (p - 4) = mp" "0 < mp_suspend_thread_count (mempools r mp)" "tqs r (Susp mp) = t # ts"
    for r p t ts
    using rt_mp_free_waiter [OF that] by force
  moreover have "rt_mp_free p r = None"
    if "mp_links r (p - 4) = mp" "0 < mp_suspend_thread_count (mempools r mp)" "tqs r (Susp mp) = []" for r p
    using that by (simp add: rt_mp_free_def Let_def)
  ultimately show ?thesis using s0(2,3) q c by (intro exI [of _ s0]) blast
qed

lemma two_started_mempools: "mempools two_started = mempools zero_state"
  by (simp add: two_started_def two_ready_eq two_threads_def)

theorem rt_mp_alloc_waits_witness:
  "\<exists>s0. tqs s0 (Susp 0x600) = [0x100] \<and> mp_suspend_thread_count (mempools s0 0x600) = 1 \<and>
     rt_mp_alloc [set_thread 0x100 (\<lambda>t. t\<lparr>th_error := - RT_ETIMEOUT\<rparr>)] 0x600 (- 1) two_started =
       Some (RT_NULL, set_thread 0x100 (\<lambda>t. t\<lparr>th_error := - RT_ETIMEOUT\<rparr>) s0)"
proof -
  have "time_ok (- 1)" by (simp add: time_ok_def)
  moreover have "mp_block_free_count (mempools two_started 0x600) = 0" "mp_suspend_thread_count (mempools two_started 0x600) = 0"
    by (simp_all add: two_started_mempools zero_state_def)
  ultimately show ?thesis
    using rt_mp_alloc_waits [OF thread_inv_two_started timer_inv_two_started runnable_two_started
        can_switch_two_started, of "- 1" "0x600"] by force
qed

end
