(* ===== verification/Mem.thy ===== *)
theory Mem
  imports Semaphore
begin

text \<open>
  The small-memory heap of \<open>src/src/mem.c\<close>: the routines themselves.  The headers \<open>struct heap_mem\<close> are
  the store \<open>hp_mem\<close> of the record \<open>heap\<close>, by their offset from \<open>heap_ptr\<close>; the pointers \<open>heap_end\<close> and
  \<open>lfree\<close> are such offsets, and a comparison of pointers compares the addresses \<open>heap_ptr + offset\<close>.
  The bytes behind the headers are a memory of their own (\<^typ>\<open>bytes\<close>), an argument of the two routines
  that touch them.  The body of each routine between \<open>rt_sem_take(&heap_sem)\<close> and \<open>rt_sem_release\<close> is a
  definition on the record \<open>heap\<close> alone; the routine adds the checks and the semaphore.

  The loops over the headers follow the offsets the headers hold and need not end, so they are partial
  functions: \<^const>\<open>None\<close> is a search that never ends.
\<close>

abbreviation (input) HEAP_MAGIC :: u16 where "HEAP_MAGIC \<equiv> 0x1ea0"
abbreviation (input) SIZEOF_STRUCT_MEM :: u32 where "SIZEOF_STRUCT_MEM \<equiv> 12"
abbreviation (input) MIN_SIZE_ALIGNED :: u32 where "MIN_SIZE_ALIGNED \<equiv> 12"

definition set_mem :: "u32 \<Rightarrow> (heap_mem \<Rightarrow> heap_mem) \<Rightarrow> heap \<Rightarrow> heap" where
  "set_mem p f h = h\<lparr>hp_mem := (hp_mem h)(p := f (hp_mem h p))\<rparr>"

lemma set_mem_fields [simp]:
  "hp_mem (set_mem p f h) = (hp_mem h)(p := f (hp_mem h p))" "heap_ptr (set_mem p f h) = heap_ptr h"
  "heap_end (set_mem p f h) = heap_end h" "lfree (set_mem p f h) = lfree h"
  "mem_size_aligned (set_mem p f h) = mem_size_aligned h" "used_mem (set_mem p f h) = used_mem h"
  "max_mem (set_mem p f h) = max_mem h"
  by (simp_all add: set_mem_def)

section \<open>Joining free neighbours\<close>

definition plug_forward :: "u32 \<Rightarrow> heap \<Rightarrow> heap" where
  "plug_forward mem h =
     (let nmem = hm_next (hp_mem h mem) in
      if mem \<noteq> nmem \<and> hm_used (hp_mem h nmem) = 0 \<and> nmem \<noteq> heap_end h
      then let h = (if lfree h = nmem then h\<lparr>lfree := mem\<rparr> else h);
               h = set_mem mem (\<lambda>m. m\<lparr>hm_next := hm_next (hp_mem h nmem)\<rparr>) h
           in set_mem (hm_next (hp_mem h nmem)) (\<lambda>m. m\<lparr>hm_prev := mem\<rparr>) h
      else h)"

definition plug_backward :: "u32 \<Rightarrow> heap \<Rightarrow> heap" where
  "plug_backward mem h =
     (let pmem = hm_prev (hp_mem h mem) in
      if pmem \<noteq> mem \<and> hm_used (hp_mem h pmem) = 0
      then let h = (if lfree h = mem then h\<lparr>lfree := pmem\<rparr> else h);
               h = set_mem pmem (\<lambda>m. m\<lparr>hm_next := hm_next (hp_mem h mem)\<rparr>) h
           in set_mem (hm_next (hp_mem h mem)) (\<lambda>m. m\<lparr>hm_prev := pmem\<rparr>) h
      else h)"

definition plug_holes :: "u32 \<Rightarrow> heap \<Rightarrow> heap option" where
  "plug_holes mem h = do {
     RT_ASSERT (heap_ptr h \<le> heap_ptr h + mem);
     RT_ASSERT (heap_ptr h + mem < heap_ptr h + heap_end h);
     RT_ASSERT (hm_used (hp_mem h mem) = 0);
     Some (plug_backward mem (plug_forward mem h))
   }"

section \<open>Initialisation\<close>

text \<open>\<open>"heap"\<close>, the name of the semaphore.\<close>

definition heap_sem_name :: "u8 list" where
  "heap_sem_name = [104, 101, 97, 112, 0]"

definition heap_init :: "u32 \<Rightarrow> u32 \<Rightarrow> heap \<Rightarrow> heap" where
  "heap_init begin_align end_align h =
     (let h = h\<lparr>mem_size_aligned := end_align - begin_align - 2 * SIZEOF_STRUCT_MEM\<rparr>;
          h = h\<lparr>heap_ptr := begin_align\<rparr>;
          h = set_mem 0 (\<lambda>m. m\<lparr>hm_magic := HEAP_MAGIC,
                hm_next := mem_size_aligned h + SIZEOF_STRUCT_MEM, hm_prev := 0, hm_used := 0\<rparr>) h;
          h = h\<lparr>heap_end := hm_next (hp_mem h 0)\<rparr>
      in set_mem (heap_end h) (\<lambda>m. m\<lparr>hm_magic := HEAP_MAGIC, hm_used := 1,
           hm_next := mem_size_aligned h + SIZEOF_STRUCT_MEM,
           hm_prev := mem_size_aligned h + SIZEOF_STRUCT_MEM\<rparr>) h)"

definition rt_system_heap_init :: "ptr \<Rightarrow> ptr \<Rightarrow> kstate \<Rightarrow> kstate option" where
  "rt_system_heap_init begin_addr end_addr s =
     (let begin_align = RT_ALIGN begin_addr RT_ALIGN_SIZE;
          end_align = RT_ALIGN_DOWN end_addr RT_ALIGN_SIZE
      in do {
        RT_DEBUG_NOT_IN_INTERRUPT s;
        if 2 * SIZEOF_STRUCT_MEM < end_align \<and> begin_align \<le> end_align - 2 * SIZEOF_STRUCT_MEM
        then do {
          let s = s\<lparr>kheap := heap_init begin_align end_align (kheap s)\<rparr>;
          (_, s) \<leftarrow> rt_sem_init (heap_sem s) heap_sem_name 1 RT_IPC_FLAG_FIFO s;
          Some (s\<lparr>kheap := (kheap s)\<lparr>lfree := 0\<rparr>\<rparr>)
        }
        else Some s
      })"

section \<open>\<open>rt_malloc\<close>\<close>

text \<open>The first free block from \<open>ptr\<close> on that holds \<open>size\<close> bytes.\<close>

partial_function (option) find_fit :: "heap \<Rightarrow> u32 \<Rightarrow> u32 \<Rightarrow> u32 option option" where
  "find_fit h sz ptr =
     (if ptr < mem_size_aligned h - sz
      then if hm_used (hp_mem h ptr) = 0 \<and> sz \<le> hm_next (hp_mem h ptr) - (ptr + SIZEOF_STRUCT_MEM)
           then Some (Some ptr)
           else find_fit h sz (hm_next (hp_mem h ptr))
      else Some None)"

text \<open>\<open>while (lfree->used && lfree != heap_end) lfree = &heap_ptr[lfree->next];\<close>\<close>

partial_function (option) next_free :: "heap \<Rightarrow> u32 \<Rightarrow> u32 option" where
  "next_free h p =
     (if hm_used (hp_mem h p) \<noteq> 0 \<and> p \<noteq> heap_end h then next_free h (hm_next (hp_mem h p)) else Some p)"

definition count_used :: "u32 \<Rightarrow> heap \<Rightarrow> heap" where
  "count_used n h =
     (let h = h\<lparr>used_mem := used_mem h + n\<rparr> in
      if max_mem h < used_mem h then h\<lparr>max_mem := used_mem h\<rparr> else h)"

text \<open>A new free block at \<open>ptr2\<close>, the rest of the block at \<open>ptr\<close>.\<close>

definition split_block :: "u32 \<Rightarrow> u32 \<Rightarrow> heap \<Rightarrow> heap" where
  "split_block ptr ptr2 h =
     (let h = set_mem ptr2 (\<lambda>m. m\<lparr>hm_magic := HEAP_MAGIC, hm_used := 0,
                hm_next := hm_next (hp_mem h ptr), hm_prev := ptr\<rparr>) h;
          h = set_mem ptr (\<lambda>m. m\<lparr>hm_next := ptr2\<rparr>) h
      in if hm_next (hp_mem h ptr2) \<noteq> mem_size_aligned h + SIZEOF_STRUCT_MEM
         then set_mem (hm_next (hp_mem h ptr2)) (\<lambda>m. m\<lparr>hm_prev := ptr2\<rparr>) h
         else h)"

definition take_block :: "u32 \<Rightarrow> u32 \<Rightarrow> heap \<Rightarrow> heap" where
  "take_block ptr sz h =
     (if sz + SIZEOF_STRUCT_MEM + MIN_SIZE_ALIGNED \<le> hm_next (hp_mem h ptr) - (ptr + SIZEOF_STRUCT_MEM)
      then count_used (sz + SIZEOF_STRUCT_MEM)
             (set_mem ptr (\<lambda>m. m\<lparr>hm_used := 1\<rparr>) (split_block ptr (ptr + SIZEOF_STRUCT_MEM + sz) h))
      else count_used (hm_next (hp_mem h ptr) - ptr) (set_mem ptr (\<lambda>m. m\<lparr>hm_used := 1\<rparr>) h))"

definition heap_malloc :: "u32 \<Rightarrow> heap \<Rightarrow> (u32 option \<times> heap) option" where
  "heap_malloc sz h = do {
     fit \<leftarrow> find_fit h sz (lfree h);
     (case fit of
        None \<Rightarrow> Some (None, h)
      | Some ptr \<Rightarrow> do {
          let h = take_block ptr sz h;
          let h = set_mem ptr (\<lambda>m. m\<lparr>hm_magic := HEAP_MAGIC\<rparr>) h;
          h \<leftarrow> (if ptr = lfree h
               then do {
                 p \<leftarrow> next_free h (lfree h);
                 RT_ASSERT (p = heap_end h \<or> hm_used (hp_mem h p) = 0);
                 Some (h\<lparr>lfree := p\<rparr>)
               }
               else Some h);
          Some (Some ptr, h)
        })
   }"

definition rt_malloc :: "world \<Rightarrow> rt_size_t \<Rightarrow> kstate \<Rightarrow> (ptr \<times> kstate) option" where
  "rt_malloc w sz s = do {
     RT_DEBUG_NOT_IN_INTERRUPT s;
     if sz = 0 then Some (RT_NULL, s)
     else let sz = RT_ALIGN sz RT_ALIGN_SIZE in
       if mem_size_aligned (kheap s) < sz then Some (RT_NULL, s)
       else let sz = (if sz < MIN_SIZE_ALIGNED then MIN_SIZE_ALIGNED else sz) in do {
         (_, s) \<leftarrow> rt_sem_take w (heap_sem s) (- 1) s;
         (found, h) \<leftarrow> heap_malloc sz (kheap s);
         let s = s\<lparr>kheap := h\<rparr>;
         (_, s) \<leftarrow> rt_sem_release (heap_sem s) s;
         (case found of
            None \<Rightarrow> Some (RT_NULL, s)
          | Some ptr \<Rightarrow> do {
              let mem = heap_ptr h + ptr;
              RT_ASSERT (mem + SIZEOF_STRUCT_MEM + sz \<le> heap_ptr h + heap_end h);
              RT_ASSERT ((mem + SIZEOF_STRUCT_MEM) mod RT_ALIGN_SIZE = 0);
              RT_ASSERT (mem AND (RT_ALIGN_SIZE - 1) = 0);
              Some (mem + SIZEOF_STRUCT_MEM, s)
            })
       }
   }"

section \<open>\<open>rt_free\<close>\<close>

definition heap_free :: "u32 \<Rightarrow> heap \<Rightarrow> heap option" where
  "heap_free mem h = do {
     RT_ASSERT (hm_used (hp_mem h mem) \<noteq> 0);
     RT_ASSERT (hm_magic (hp_mem h mem) = HEAP_MAGIC);
     let h = set_mem mem (\<lambda>m. m\<lparr>hm_used := 0, hm_magic := HEAP_MAGIC\<rparr>) h;
     let h = (if heap_ptr h + mem < heap_ptr h + lfree h then h\<lparr>lfree := mem\<rparr> else h);
     let h = h\<lparr>used_mem := used_mem h - (hm_next (hp_mem h mem) - mem)\<rparr>;
     plug_holes mem h
   }"

definition rt_free :: "world \<Rightarrow> ptr \<Rightarrow> kstate \<Rightarrow> kstate option" where
  "rt_free w rmem s = do {
     RT_DEBUG_NOT_IN_INTERRUPT s;
     if rmem = RT_NULL then Some s
     else do {
       RT_ASSERT (rmem AND (RT_ALIGN_SIZE - 1) = 0);
       RT_ASSERT (heap_ptr (kheap s) \<le> rmem \<and> rmem < heap_ptr (kheap s) + heap_end (kheap s));
       if rmem < heap_ptr (kheap s) \<or> heap_ptr (kheap s) + heap_end (kheap s) \<le> rmem then Some s
       else do {
         let mem = rmem - SIZEOF_STRUCT_MEM - heap_ptr (kheap s);
         (_, s) \<leftarrow> rt_sem_take w (heap_sem s) (- 1) s;
         h \<leftarrow> heap_free mem (kheap s);
         (_, s) \<leftarrow> rt_sem_release (heap_sem s) (s\<lparr>kheap := h\<rparr>);
         Some s
       }
     }
   }"

section \<open>\<open>rt_realloc\<close> and \<open>rt_calloc\<close>\<close>

text \<open>The part of \<open>rt_realloc\<close> under the semaphore: \<open>Inl h\<close> when the block is kept in place, \<open>Inr size\<close>
  when it has to move, with the size of its data.\<close>

definition heap_shrink :: "u32 \<Rightarrow> u32 \<Rightarrow> heap \<Rightarrow> (heap + u32) option" where
  "heap_shrink ptr newsize h =
     (let sz = hm_next (hp_mem h ptr) - ptr - SIZEOF_STRUCT_MEM in
      if sz = newsize then Some (Inl h)
      else if newsize + SIZEOF_STRUCT_MEM + 12 < sz
      then do {
        let h = h\<lparr>used_mem := used_mem h - (sz - newsize)\<rparr>;
        let ptr2 = ptr + SIZEOF_STRUCT_MEM + newsize;
        h \<leftarrow> plug_holes ptr2 (split_block ptr ptr2 h);
        Some (Inl h)
      }
      else Some (Inr sz))"

text \<open>The memory \<open>m\<close> holds the bytes at the moment of the copy; \<open>w1\<close>, \<open>w2\<close>, \<open>w3\<close> are what others do
  while the call waits for the semaphore, itself, in \<open>rt_malloc\<close> and in \<open>rt_free\<close>.\<close>

definition rt_realloc ::
  "world \<Rightarrow> world \<Rightarrow> world \<Rightarrow> ptr \<Rightarrow> rt_size_t \<Rightarrow> bytes \<Rightarrow> kstate \<Rightarrow> (ptr \<times> bytes \<times> kstate) option" where
  "rt_realloc w1 w2 w3 rmem newsize m s = do {
     RT_DEBUG_NOT_IN_INTERRUPT s;
     let newsize = RT_ALIGN newsize RT_ALIGN_SIZE;
     if mem_size_aligned (kheap s) < newsize then Some (RT_NULL, m, s)
     else if rmem = RT_NULL
     then do { (p, s) \<leftarrow> rt_malloc w2 newsize s; Some (p, m, s) }
     else do {
       (_, s) \<leftarrow> rt_sem_take w1 (heap_sem s) (- 1) s;
       if rmem < heap_ptr (kheap s) \<or> heap_ptr (kheap s) + heap_end (kheap s) \<le> rmem
       then do { (_, s) \<leftarrow> rt_sem_release (heap_sem s) s; Some (rmem, m, s) }
       else do {
         let ptr = rmem - SIZEOF_STRUCT_MEM - heap_ptr (kheap s);
         r \<leftarrow> heap_shrink ptr newsize (kheap s);
         (case r of
            Inl h \<Rightarrow> do {
              (_, s) \<leftarrow> rt_sem_release (heap_sem s) (s\<lparr>kheap := h\<rparr>);
              Some (rmem, m, s)
            }
          | Inr sz \<Rightarrow> do {
              (_, s) \<leftarrow> rt_sem_release (heap_sem s) s;
              (nmem, s) \<leftarrow> rt_malloc w2 newsize s;
              if nmem \<noteq> RT_NULL
              then do {
                let m = rt_memcpy nmem rmem (if sz < newsize then sz else newsize) m;
                s \<leftarrow> rt_free w3 rmem s;
                Some (nmem, m, s)
              }
              else Some (nmem, m, s)
            })
       }
     }
   }"

definition rt_calloc :: "world \<Rightarrow> rt_size_t \<Rightarrow> rt_size_t \<Rightarrow> bytes \<Rightarrow> kstate \<Rightarrow> (ptr \<times> bytes \<times> kstate) option" where
  "rt_calloc w count sz m s = do {
     RT_DEBUG_NOT_IN_INTERRUPT s;
     (p, s) \<leftarrow> rt_malloc w (count * sz) s;
     if p \<noteq> RT_NULL then Some (p, rt_memset p 0 (count * sz) m, s)
     else Some (p, m, s)
   }"

text \<open>\<open>rt_memory_info\<close> with three places to write to.\<close>

definition rt_memory_info :: "kstate \<Rightarrow> u32 \<times> u32 \<times> u32" where
  "rt_memory_info s = (mem_size_aligned (kheap s), used_mem (kheap s), max_mem (kheap s))"

end
