(* ===== verification/Heap_Blocks.thy ===== *)
theory Heap_Blocks
  imports Mem
begin

text \<open>
  The shape of the heap of \<open>src/src/mem.c\<close>: the headers tile the arena.  \<open>tiles\<close> follows the \<open>next\<close>
  offsets, \<open>linked\<close> the \<open>prev\<close> offsets; \<open>well_formed\<close> adds alignment, the magic numbers and the used
  flags; \<open>heap_ok\<close> adds that no two free blocks are neighbours, that \<open>lfree\<close> is a free block or the end,
  and that \<open>used_mem\<close> is the sum of the used blocks.  The three elementary changes of the code (marking a
  block, splitting one, joining two) keep the shape.
\<close>

section \<open>Tilings\<close>

fun tiles :: "(u32 \<Rightarrow> heap_mem) \<Rightarrow> u32 \<Rightarrow> u32 list \<Rightarrow> u32 \<Rightarrow> bool" where
  "tiles m p [] e \<longleftrightarrow> p = e"
| "tiles m p (b # bs) e \<longleftrightarrow> b = p \<and> unat b + 12 \<le> unat (hm_next (m b)) \<and> tiles m (hm_next (m b)) bs e"

fun linked :: "(u32 \<Rightarrow> heap_mem) \<Rightarrow> u32 \<Rightarrow> u32 list \<Rightarrow> bool" where
  "linked m q [] \<longleftrightarrow> True"
| "linked m q (b # bs) \<longleftrightarrow> hm_prev (m b) = q \<and> linked m b bs"

lemma tiles_append: "tiles m p (xs @ ys) e \<longleftrightarrow> (\<exists>q. tiles m p xs q \<and> tiles m q ys e)"
  by (induction xs arbitrary: p) auto

lemma tiles_length: "tiles m p bs e \<Longrightarrow> unat p + 12 * length bs \<le> unat e"
  by (induction bs arbitrary: p) fastforce+

lemma tiles_range:
  "tiles m p bs e \<Longrightarrow> b \<in> set bs \<Longrightarrow>
     unat p \<le> unat b \<and> unat b + 12 \<le> unat (hm_next (m b)) \<and> unat (hm_next (m b)) \<le> unat e"
proof (induction bs arbitrary: p)
  case (Cons c bs)
  have "unat (hm_next (m c)) \<le> unat e" using Cons.prems(1) tiles_length by fastforce
  then show ?case using Cons by fastforce
qed simp

lemma tiles_sorted: "tiles m p bs e \<Longrightarrow> sorted_wrt (\<lambda>a b. unat (hm_next (m a)) \<le> unat b) bs"
  by (induction bs arbitrary: p) (auto dest: tiles_range)

lemma tiles_distinct: "tiles m p bs e \<Longrightarrow> distinct bs"
proof (induction bs arbitrary: p)
  case (Cons c bs)
  have "c \<notin> set bs" using Cons.prems tiles_range [of m "hm_next (m c)" bs e c] by auto
  then show ?case using Cons by auto
qed simp

lemma tiles_end_notin: "tiles m p bs e \<Longrightarrow> e \<notin> set bs"
  using tiles_range [of m p bs e e] by auto

lemma tiles_cong: "(\<And>b. b \<in> set bs \<Longrightarrow> hm_next (m' b) = hm_next (m b)) \<Longrightarrow> tiles m' p bs e = tiles m p bs e"
  by (induction bs arbitrary: p) auto

lemma linked_cong: "(\<And>b. b \<in> set bs \<Longrightarrow> hm_prev (m' b) = hm_prev (m b)) \<Longrightarrow> linked m' q bs = linked m q bs"
  by (induction bs arbitrary: q) auto

lemma linked_append: "linked m q (xs @ ys) \<longleftrightarrow> linked m q xs \<and> linked m (last (q # xs)) ys"
  by (induction xs arbitrary: q) auto

lemma tiles_next: "tiles m p (xs @ b # ys) e \<Longrightarrow> hm_next (m b) = hd (ys @ [e])"
  by (induction xs arbitrary: p) (cases ys; auto)+

text \<open>Only one tiling has a given start and end, so it can be computed.\<close>

fun blocks_from :: "nat \<Rightarrow> (u32 \<Rightarrow> heap_mem) \<Rightarrow> u32 \<Rightarrow> u32 \<Rightarrow> u32 list" where
  "blocks_from 0 m p e = []"
| "blocks_from (Suc n) m p e = (if p = e then [] else p # blocks_from n m (hm_next (m p)) e)"

definition blocks :: "heap \<Rightarrow> u32 list" where
  "blocks h = blocks_from (unat (heap_end h)) (hp_mem h) 0 (heap_end h)"

lemma blocks_from_tiles: "tiles m p bs e \<Longrightarrow> length bs \<le> n \<Longrightarrow> blocks_from n m p e = bs"
proof (induction n arbitrary: p bs)
  case (Suc n)
  then show ?case using tiles_end_notin [OF Suc.prems(1)] by (cases bs) auto
qed simp

lemma blocks_eq: "tiles (hp_mem h) 0 bs (heap_end h) \<Longrightarrow> blocks h = bs"
  unfolding blocks_def using tiles_length [of "hp_mem h" 0 bs "heap_end h"] by (intro blocks_from_tiles) auto

section \<open>Well-formed headers\<close>

definition well_formed :: "(u32 \<Rightarrow> heap_mem) \<Rightarrow> u32 \<Rightarrow> u32 list \<Rightarrow> bool" where
  "well_formed m e bs \<longleftrightarrow> tiles m 0 bs e \<and> linked m 0 bs \<and>
     (\<forall>b \<in> set bs. 4 dvd unat b \<and> unat b + 12 < unat e \<and> hm_magic (m b) = HEAP_MAGIC \<and>
        hm_used (m b) \<in> {0, 1})"

lemma well_formedD:
  assumes "well_formed m e bs"
  shows "tiles m 0 bs e" "linked m 0 bs" "distinct bs" "e \<notin> set bs"
    "\<And>b. b \<in> set bs \<Longrightarrow> 4 dvd unat b"
    "\<And>b. b \<in> set bs \<Longrightarrow> hm_magic (m b) = HEAP_MAGIC"
    "\<And>b. b \<in> set bs \<Longrightarrow> hm_used (m b) = 0 \<or> hm_used (m b) = 1"
    "\<And>b. b \<in> set bs \<Longrightarrow> unat b + 12 \<le> unat (hm_next (m b))"
    "\<And>b. b \<in> set bs \<Longrightarrow> unat (hm_next (m b)) \<le> unat e"
    "\<And>b. b \<in> set bs \<Longrightarrow> unat b + 12 < unat e"
  using assms tiles_distinct tiles_end_notin tiles_range unfolding well_formed_def by blast+

text \<open>Marking: every header keeps its links and its magic number.\<close>

lemma well_formed_mark:
  assumes "well_formed m e bs"
    "\<And>b. b \<in> set bs \<Longrightarrow> hm_next (m' b) = hm_next (m b) \<and> hm_prev (m' b) = hm_prev (m b) \<and>
       hm_magic (m' b) = HEAP_MAGIC \<and> hm_used (m' b) \<in> {0, 1}"
  shows "well_formed m' e bs"
proof -
  have "tiles m' 0 bs e = tiles m 0 bs e" "linked m' 0 bs = linked m 0 bs"
    by (rule tiles_cong linked_cong; simp add: assms(2))+
  then show ?thesis using assms by (auto simp: well_formed_def)
qed

text \<open>Splitting block \<open>b\<close> at \<open>c\<close>.\<close>

lemma well_formed_split:
  assumes "well_formed m e (xs @ b # ys)"
    and c: "unat b + 12 \<le> unat c" "unat c + 12 < unat (hm_next (m b))" "4 dvd unat c"
    and b': "hm_next (m' b) = c" "hm_prev (m' b) = hm_prev (m b)" "hm_magic (m' b) = HEAP_MAGIC"
      "hm_used (m' b) \<in> {0, 1}"
    and c': "m' c = \<lparr>hm_magic = HEAP_MAGIC, hm_used = 0, hm_next = hm_next (m b), hm_prev = b\<rparr>"
    and ys: "ys \<noteq> [] \<Longrightarrow> m' (hd ys) = (m (hd ys))\<lparr>hm_prev := c\<rparr>"
      "\<And>d. d \<in> set xs \<or> d \<in> set (tl ys) \<Longrightarrow> m' d = m d"
  shows "well_formed m' e (xs @ b # c # ys)"
proof -
  note w = well_formedD [OF assms(1)]
  obtain q where t: "tiles m 0 xs q" "tiles m q (b # ys) e" using w(1) by (auto simp: tiles_append)
  have "tiles m' 0 xs q" using t(1) by (subst tiles_cong [where m = m]) (auto simp: ys(2))
  moreover have n: "hm_next (m' d) = hm_next (m d)" if "d \<in> set ys" for d
    using that ys by (cases ys) auto
  then have "tiles m' (hm_next (m b)) ys e" using t(2) by (subst tiles_cong [where m = m]) auto
  ultimately have "tiles m' 0 (xs @ b # c # ys) e" using t(2) b'(1) c c' by (auto simp: tiles_append)
  moreover have "linked m' 0 (xs @ b # c # ys)"
  proof -
    have "linked m 0 xs" "hm_prev (m b) = last (0 # xs)" "linked m b ys" using w(2) by (auto simp: linked_append)
    moreover have "linked m' 0 xs = linked m 0 xs" by (rule linked_cong) (simp add: ys(2))
    moreover have "linked m' c ys" if "linked m b ys"
    proof (cases ys)
      case (Cons y zs)
      have "linked m' y zs = linked m y zs" by (rule linked_cong) (simp add: ys(2) Cons)
      then show ?thesis using that ys(1) Cons by simp
    qed simp
    ultimately show ?thesis using b'(2) c' by (auto simp: linked_append)
  qed
  moreover have "4 dvd unat d \<and> unat d + 12 < unat e \<and> hm_magic (m' d) = HEAP_MAGIC \<and> hm_used (m' d) \<in> {0, 1}"
    if "d \<in> set (xs @ b # c # ys)" for d
  proof (cases "d = b \<or> d = c")
    case True
    then show ?thesis using c b' c' w(5) [of b] w(9) [of b] w(10) [of b] by auto
  next
    case False
    then have "d \<in> set (xs @ b # ys)" using that by auto
    moreover have "hm_magic (m' d) = hm_magic (m d) \<and> hm_used (m' d) = hm_used (m d)"
      using that False ys by (cases ys) auto
    ultimately show ?thesis using w(5,6,7,10) by auto
  qed
  ultimately show ?thesis by (simp add: well_formed_def)
qed

text \<open>Joining block \<open>b\<close> with its right neighbour \<open>c\<close>.\<close>

lemma well_formed_join:
  assumes "well_formed m e (xs @ b # c # ys)"
    and b': "m' b = (m b)\<lparr>hm_next := hm_next (m c)\<rparr>"
    and ys: "ys \<noteq> [] \<Longrightarrow> m' (hd ys) = (m (hd ys))\<lparr>hm_prev := b\<rparr>"
      "\<And>d. d \<in> set xs \<or> d \<in> set (tl ys) \<Longrightarrow> m' d = m d"
  shows "well_formed m' e (xs @ b # ys)"
proof -
  note w = well_formedD [OF assms(1)]
  obtain q where t: "tiles m 0 xs q" "tiles m q (b # c # ys) e" using w(1) by (auto simp: tiles_append)
  have "tiles m' 0 xs q" using t(1) by (subst tiles_cong [where m = m]) (auto simp: ys(2))
  moreover have "hm_next (m' d) = hm_next (m d)" if "d \<in> set ys" for d
    using that ys by (cases ys) auto
  then have "tiles m' (hm_next (m c)) ys e" using t(2) by (subst tiles_cong [where m = m]) auto
  ultimately have "tiles m' 0 (xs @ b # ys) e" using t(2) b' by (fastforce simp: tiles_append)
  moreover have "linked m' 0 (xs @ b # ys)"
  proof -
    have "linked m 0 xs" "hm_prev (m b) = last (0 # xs)" "linked m c ys" using w(2) by (auto simp: linked_append)
    moreover have "linked m' 0 xs = linked m 0 xs" by (rule linked_cong) (simp add: ys(2))
    moreover have "linked m' b ys" if "linked m c ys"
    proof (cases ys)
      case (Cons y zs)
      have "linked m' y zs = linked m y zs" by (rule linked_cong) (simp add: ys(2) Cons)
      then show ?thesis using that ys(1) Cons by simp
    qed simp
    ultimately show ?thesis using b' by (auto simp: linked_append)
  qed
  moreover have "4 dvd unat d \<and> unat d + 12 < unat e \<and> hm_magic (m' d) = HEAP_MAGIC \<and> hm_used (m' d) \<in> {0, 1}"
    if "d \<in> set (xs @ b # ys)" for d
  proof -
    have "hm_magic (m' d) = hm_magic (m d) \<and> hm_used (m' d) = hm_used (m d)"
      using that ys b' by (cases ys) auto
    then show ?thesis using that w(5,6,7,10) by auto
  qed
  ultimately show ?thesis by (simp add: well_formed_def)
qed

section \<open>The invariant\<close>

text \<open>The arena: aligned, inside the address space, with room for one block, and closed by a used header.\<close>

definition arena :: "heap \<Rightarrow> bool" where
  "arena h \<longleftrightarrow> heap_end h = mem_size_aligned h + SIZEOF_STRUCT_MEM \<and> 24 \<le> unat (heap_end h) \<and>
     unat (heap_end h) = unat (mem_size_aligned h) + 12 \<and>
     unat (heap_ptr h) + unat (heap_end h) + 12 < 2 ^ 32 \<and> 4 dvd unat (heap_ptr h) \<and>
     4 dvd unat (heap_end h) \<and> hm_used (hp_mem h (heap_end h)) = 1"

definition separated :: "(u32 \<Rightarrow> heap_mem) \<Rightarrow> u32 list \<Rightarrow> bool" where
  "separated m bs \<longleftrightarrow> successively (\<lambda>a b. hm_used (m a) \<noteq> 0 \<or> hm_used (m b) \<noteq> 0) bs"

definition used_bytes :: "(u32 \<Rightarrow> heap_mem) \<Rightarrow> u32 list \<Rightarrow> nat" where
  "used_bytes m bs = (\<Sum>b\<leftarrow>bs. if hm_used (m b) \<noteq> 0 then unat (hm_next (m b)) - unat b else 0)"

definition heap_core :: "heap \<Rightarrow> u32 list \<Rightarrow> bool" where
  "heap_core h bs \<longleftrightarrow> arena h \<and> well_formed (hp_mem h) (heap_end h) bs \<and> separated (hp_mem h) bs \<and>
     unat (used_mem h) = used_bytes (hp_mem h) bs"

definition lfree_ok :: "heap \<Rightarrow> u32 list \<Rightarrow> bool" where
  "lfree_ok h bs \<longleftrightarrow> lfree h = heap_end h \<or> lfree h \<in> set bs \<and> hm_used (hp_mem h (lfree h)) = 0"

definition heap_ok :: "heap \<Rightarrow> bool" where
  "heap_ok h \<longleftrightarrow> heap_core h (blocks h) \<and> lfree_ok h (blocks h)"

lemma heap_coreD:
  assumes "heap_core h bs"
  shows "arena h" "well_formed (hp_mem h) (heap_end h) bs" "separated (hp_mem h) bs"
    "unat (used_mem h) = used_bytes (hp_mem h) bs" "blocks h = bs"
  using assms well_formedD(1) blocks_eq unfolding heap_core_def by blast+

lemma heap_okI: "heap_core h bs \<Longrightarrow> lfree_ok h bs \<Longrightarrow> heap_ok h"
  using heap_coreD(5) by (simp add: heap_ok_def)

lemma used_bytes_append [simp]: "used_bytes m (xs @ ys) = used_bytes m xs + used_bytes m ys"
  by (simp add: used_bytes_def)

lemma used_bytes_Cons [simp]:
  "used_bytes m (b # bs) = (if hm_used (m b) \<noteq> 0 then unat (hm_next (m b)) - unat b else 0) + used_bytes m bs"
  by (simp add: used_bytes_def)

lemma used_bytes_Nil [simp]: "used_bytes m [] = 0"
  by (simp add: used_bytes_def)

lemma used_bytes_cong:
  "(\<And>b. b \<in> set bs \<Longrightarrow> hm_next (m' b) = hm_next (m b) \<and> hm_used (m' b) = hm_used (m b)) \<Longrightarrow>
     used_bytes m' bs = used_bytes m bs"
  unfolding used_bytes_def by (rule arg_cong [where f = sum_list]) (auto intro: map_cong)

lemma used_bytes_le: "tiles m p bs e \<Longrightarrow> used_bytes m bs + unat p \<le> unat e"
  by (induction bs arbitrary: p) fastforce+

lemma separated_Nil [simp]: "separated m []"
  by (simp add: separated_def)

lemma separated_Cons [simp]:
  "separated m (b # bs) \<longleftrightarrow> separated m bs \<and> (bs = [] \<or> hm_used (m b) \<noteq> 0 \<or> hm_used (m (hd bs)) \<noteq> 0)"
  by (cases bs) (auto simp: separated_def)

lemma separated_append:
  "separated m (xs @ ys) \<longleftrightarrow> separated m xs \<and> separated m ys \<and>
     (xs = [] \<or> ys = [] \<or> hm_used (m (last xs)) \<noteq> 0 \<or> hm_used (m (hd ys)) \<noteq> 0)"
  by (auto simp: separated_def successively_append_iff)

lemma separated_cong:
  "(\<And>b. b \<in> set bs \<Longrightarrow> hm_used (m' b) = hm_used (m b)) \<Longrightarrow> separated m' bs = separated m bs"
  unfolding separated_def by (rule successively_cong) auto

lemma unat_word_minus: "unat b \<le> unat (n :: u32) \<Longrightarrow> unat (n - b) = unat n - unat b"
  by (simp add: unat_sub word_le_nat_alt)

lemma unat_word_plus: "unat a + unat b < 2 ^ 32 \<Longrightarrow> unat (a + b :: u32) = unat a + unat b"
  by (subst unat_add_lem [THEN iffD1]) simp_all

lemma unat_word_plus_12: "unat a + 12 < 2 ^ 32 \<Longrightarrow> unat (a + 12 :: u32) = unat a + 12"
  using unat_word_plus [of a 12] by simp

lemma count_used_fields [simp]:
  "hp_mem (count_used n h) = hp_mem h" "heap_ptr (count_used n h) = heap_ptr h"
  "heap_end (count_used n h) = heap_end h" "lfree (count_used n h) = lfree h"
  "mem_size_aligned (count_used n h) = mem_size_aligned h" "used_mem (count_used n h) = used_mem h + n"
  by (simp_all add: count_used_def Let_def)

lemma split_block_fields [simp]:
  "heap_ptr (split_block p q h) = heap_ptr h" "heap_end (split_block p q h) = heap_end h"
  "lfree (split_block p q h) = lfree h" "mem_size_aligned (split_block p q h) = mem_size_aligned h"
  "used_mem (split_block p q h) = used_mem h" "max_mem (split_block p q h) = max_mem h"
  by (simp_all add: split_block_def Let_def)

text \<open>The headers after a split.\<close>

lemma split_block_mem:
  assumes "arena h" "well_formed (hp_mem h) (heap_end h) (xs @ b # ys)"
    and c: "unat b + 12 \<le> unat c" "unat c + 12 < unat (hm_next (hp_mem h b))"
  shows "hp_mem (split_block b c h) b = (hp_mem h b)\<lparr>hm_next := c\<rparr>"
    "hp_mem (split_block b c h) c =
       \<lparr>hm_magic = HEAP_MAGIC, hm_used = 0, hm_next = hm_next (hp_mem h b), hm_prev = b\<rparr>"
    "ys \<noteq> [] \<Longrightarrow> hp_mem (split_block b c h) (hd ys) = (hp_mem h (hd ys))\<lparr>hm_prev := c\<rparr>"
    "d \<in> set xs \<or> d \<in> set (tl ys) \<Longrightarrow> hp_mem (split_block b c h) d = hp_mem h d"
    "hp_mem (split_block b c h) (heap_end h) = hp_mem h (heap_end h)"
    "c \<notin> set (xs @ b # ys)"
proof -
  note w = well_formedD [OF assms(2)]
  have n: "hm_next (hp_mem h b) = hd (ys @ [heap_end h])" by (rule tiles_next [OF w(1)])
  have e: "heap_end h = mem_size_aligned h + 12" using assms(1) by (simp add: arena_def)
  have bc: "b \<noteq> c" "c \<noteq> hm_next (hp_mem h b)" using c by auto
  have srt: "sorted_wrt (\<lambda>a d. unat (hm_next (hp_mem h a)) \<le> unat d) (xs @ b # ys)" by (rule tiles_sorted [OF w(1)])
  have lo: "unat d + 12 \<le> unat b" if "d \<in> set xs" for d
    using that srt w(8) [of d] by (auto simp: sorted_wrt_append)
  have hi: "unat (hm_next (hp_mem h b)) \<le> unat d" if "d \<in> set ys" for d
    using that srt by (auto simp: sorted_wrt_append)
  have hi': "unat (hm_next (hp_mem h b)) < unat d" if "d \<in> set (tl ys)" for d
    using that srt n w(8) [of "hd ys"] by (cases ys) (auto simp: sorted_wrt_append)
  have be: "unat b + 24 \<le> unat (heap_end h)" using w(9) [of b] c by auto
  show "c \<notin> set (xs @ b # ys)" using lo [of c] hi [of c] c by auto
  have m: "hp_mem (split_block b c h) d =
      (if d = b then (hp_mem h b)\<lparr>hm_next := c\<rparr>
       else if d = c then \<lparr>hm_magic = HEAP_MAGIC, hm_used = 0, hm_next = hm_next (hp_mem h b), hm_prev = b\<rparr>
       else if ys \<noteq> [] \<and> d = hd ys then (hp_mem h d)\<lparr>hm_prev := c\<rparr> else hp_mem h d)" for d
    using bc c n e w(4) hi [of "hd ys"] by (cases ys) (auto simp: split_block_def Let_def)
  show "hp_mem (split_block b c h) b = (hp_mem h b)\<lparr>hm_next := c\<rparr>" by (simp add: m)
  show "hp_mem (split_block b c h) c =
       \<lparr>hm_magic = HEAP_MAGIC, hm_used = 0, hm_next = hm_next (hp_mem h b), hm_prev = b\<rparr>"
    using bc by (simp add: m)
  show "hp_mem (split_block b c h) (hd ys) = (hp_mem h (hd ys))\<lparr>hm_prev := c\<rparr>" if "ys \<noteq> []"
    using that hi [of "hd ys"] c by (auto simp: m)
  show "hp_mem (split_block b c h) d = hp_mem h d" if "d \<in> set xs \<or> d \<in> set (tl ys)"
    using that lo [of d] hi' [of d] c n by (auto simp: m)
  show "hp_mem (split_block b c h) (heap_end h) = hp_mem h (heap_end h)"
    using be c w(4) w(9) [of b] by (auto simp: m)
qed

end
