(* ===== verification/Heap_Ops.thy ===== *)
theory Heap_Ops
  imports Heap_Blocks Bounded_Fifo
begin

text \<open>
  The bodies of \<open>rt_malloc\<close>, \<open>rt_free\<close> and \<open>rt_realloc\<close> of \<open>src/src/mem.c\<close> on a well-formed heap: the block
  lists they produce, that their searches end, and that they keep the invariant \<^const>\<open>heap_ok\<close>.
\<close>

lemmas heap_wf = heap_coreD(2) [THEN well_formedD(1)] heap_coreD(2) [THEN well_formedD(2)]
  heap_coreD(2) [THEN well_formedD(3)] heap_coreD(2) [THEN well_formedD(4)]
  heap_coreD(2) [THEN well_formedD(5)] heap_coreD(2) [THEN well_formedD(6)]
  heap_coreD(2) [THEN well_formedD(7)] heap_coreD(2) [THEN well_formedD(8)]
  heap_coreD(2) [THEN well_formedD(9)] heap_coreD(2) [THEN well_formedD(10)]

lemma arenaD:
  assumes "arena h"
  shows "unat (heap_end h) = unat (mem_size_aligned h) + 12" "24 \<le> unat (heap_end h)"
    "unat (heap_ptr h) + unat (heap_end h) + 12 < 2 ^ 32" "4 dvd unat (heap_ptr h)" "4 dvd unat (heap_end h)"
    "hm_used (hp_mem h (heap_end h)) = 1"
  using assms unfolding arena_def by blast+

lemma arena_cong:
  assumes "heap_ptr h' = heap_ptr h" "heap_end h' = heap_end h" "mem_size_aligned h' = mem_size_aligned h"
    "hm_used (hp_mem h' (heap_end h)) = hm_used (hp_mem h (heap_end h))"
  shows "arena h' = arena h"
  unfolding arena_def assms ..

section \<open>Taking a block\<close>

definition splits :: "u32 \<Rightarrow> u32 \<Rightarrow> heap \<Rightarrow> bool" where
  "splits b sz h \<longleftrightarrow> sz + SIZEOF_STRUCT_MEM + MIN_SIZE_ALIGNED \<le> hm_next (hp_mem h b) - (b + SIZEOF_STRUCT_MEM)"

definition taken :: "u32 \<Rightarrow> u32 \<Rightarrow> heap \<Rightarrow> heap" where
  "taken b sz h = set_mem b (\<lambda>m. m\<lparr>hm_magic := HEAP_MAGIC\<rparr>) (take_block b sz h)"

lemma taken_fields [simp]:
  "heap_ptr (taken b sz h) = heap_ptr h" "heap_end (taken b sz h) = heap_end h"
  "lfree (taken b sz h) = lfree h" "mem_size_aligned (taken b sz h) = mem_size_aligned h"
  by (simp_all add: taken_def take_block_def)

text \<open>A block of \<open>sz\<close> bytes fits: what the word arithmetic of the code says in numbers.\<close>

lemma fits_nat:
  assumes "heap_core h bs" "b \<in> set bs"
  shows "unat (hm_next (hp_mem h b) - (b + SIZEOF_STRUCT_MEM)) = unat (hm_next (hp_mem h b)) - unat b - 12"
    "sz \<le> hm_next (hp_mem h b) - (b + SIZEOF_STRUCT_MEM) \<longleftrightarrow> unat b + 12 + unat sz \<le> unat (hm_next (hp_mem h b))"
    "unat (hm_next (hp_mem h b) - b) = unat (hm_next (hp_mem h b)) - unat b"
proof -
  note w = heap_wf(8,9) [OF assms(1,2)]
  have b: "unat (b + 12) = unat b + 12"
    using w unat_u32_less [of "heap_end h"] heap_coreD(1) [OF assms(1)] by (intro unat_word_plus_12) (simp add: arena_def)
  then show 1: "unat (hm_next (hp_mem h b) - (b + SIZEOF_STRUCT_MEM)) = unat (hm_next (hp_mem h b)) - unat b - 12"
    using w(1) by (subst unat_word_minus) simp_all
  show "sz \<le> hm_next (hp_mem h b) - (b + SIZEOF_STRUCT_MEM) \<longleftrightarrow> unat b + 12 + unat sz \<le> unat (hm_next (hp_mem h b))"
    using w(1) unfolding word_le_nat_alt 1 by linarith
  show "unat (hm_next (hp_mem h b) - b) = unat (hm_next (hp_mem h b)) - unat b"
    using w(1) by (intro unat_word_minus) simp
qed

lemma splits_nat:
  assumes "heap_core h bs" "b \<in> set bs" "sz \<le> mem_size_aligned h"
  shows "splits b sz h \<longleftrightarrow> unat b + 12 + unat sz + 24 \<le> unat (hm_next (hp_mem h b))"
proof -
  have "unat sz + 24 < 2 ^ 32"
    using assms(3) heap_coreD(1) [OF assms(1)] by (simp add: word_le_nat_alt arena_def)
  then have "unat (sz + 12 + 12) = unat sz + 24"
    using unat_word_plus_12 [of sz] unat_word_plus_12 [of "sz + 12"] by simp
  then show ?thesis using fits_nat(2) [OF assms(1,2), of "sz + 12 + 12"] by (simp add: splits_def)
qed

definition after_take :: "u32 \<Rightarrow> u32 \<Rightarrow> heap \<Rightarrow> u32 list" where
  "after_take b sz h = (if splits b sz h then [b, b + SIZEOF_STRUCT_MEM + sz] else [b])"

lemma taken_split:
  assumes core: "heap_core h (xs @ b # ys)" and free: "hm_used (hp_mem h b) = 0"
    and sz: "sz \<le> mem_size_aligned h" "4 dvd unat sz" and split: "splits b sz h"
  defines "c \<equiv> b + SIZEOF_STRUCT_MEM + sz"
  shows "heap_core (taken b sz h) (xs @ b # c # ys)" "hm_used (hp_mem (taken b sz h) b) = 1"
    "hm_next (hp_mem (taken b sz h) b) = c" "unat c = unat b + 12 + unat sz"
    "hm_used (hp_mem (taken b sz h) c) = 0" "hm_next (hp_mem (taken b sz h) c) = hm_next (hp_mem h b)"
    "c \<notin> set (xs @ b # ys)"
    "d \<in> set xs \<union> set ys \<Longrightarrow> hm_next (hp_mem (taken b sz h) d) = hm_next (hp_mem h d) \<and>
       hm_used (hp_mem (taken b sz h) d) = hm_used (hp_mem h d)"
proof -
  let ?m = "hp_mem h" and ?h = "taken b sz h"
  let ?m' = "hp_mem ?h"
  have b: "b \<in> set (xs @ b # ys)" by simp
  note w = heap_wf(8,9) [OF core b] and d = heap_wf(3) [OF core]
  note ar = heap_coreD(1) [OF core]
  have fit: "unat b + 12 + unat sz + 24 \<le> unat (hm_next (?m b))"
    using splits_nat [OF core b sz(1)] split by simp
  have lt: "unat b + 12 + unat sz < 2 ^ 32" using fit unat_u32_less [of "hm_next (?m b)"] by simp
  then have "unat (b + 12) = unat b + 12" by (intro unat_word_plus_12) simp
  then show c: "unat c = unat b + 12 + unat sz" unfolding c_def using lt by (subst unat_word_plus) simp_all
  note m = split_block_mem [OF ar heap_coreD(2) [OF core], of c]
  note m = m(1) m(2) m(3) m(4) m(5) m(6)
  have rng: "unat b + 12 \<le> unat c" "unat c + 12 < unat (hm_next (?m b))" using c fit by simp_all
  have bc: "b \<noteq> c" using c by auto
  show cn: "c \<notin> set (xs @ b # ys)" by (rule m(6) [OF rng])
  have m': "?m' = (hp_mem (split_block b c h))(b := (?m b)\<lparr>hm_next := c, hm_used := 1, hm_magic := HEAP_MAGIC\<rparr>)"
    using split m(1) [OF rng] by (simp add: taken_def take_block_def splits_def c_def)
  have b': "?m' b = (?m b)\<lparr>hm_next := c, hm_used := 1, hm_magic := HEAP_MAGIC\<rparr>" by (simp add: m')
  have c': "?m' c = \<lparr>hm_magic = HEAP_MAGIC, hm_used = 0, hm_next = hm_next (?m b), hm_prev = b\<rparr>"
    using m(2) [OF rng] bc by (simp add: m')
  have ys: "?m' (hd ys) = (?m (hd ys))\<lparr>hm_prev := c\<rparr>" if "ys \<noteq> []"
    using m(3) [OF rng that] d that by (cases ys) (auto simp: m')
  have rest: "?m' d = ?m d" if "d \<in> set xs \<or> d \<in> set (tl ys)" for d
    using m(4) [OF rng that] d that by (cases ys) (auto simp: m')
  show used: "hm_used (?m' b) = 1" "hm_next (?m' b) = c" "hm_used (?m' c) = 0" "hm_next (?m' c) = hm_next (?m b)"
    by (simp_all add: b' c')
  show keep: "hm_next (?m' d) = hm_next (?m d) \<and> hm_used (?m' d) = hm_used (?m d)" if "d \<in> set xs \<union> set ys" for d
    using that rest [of d] ys by (cases ys) auto
  have wf: "well_formed ?m' (heap_end h) (xs @ b # c # ys)"
    using ar heap_wf(5) [OF core b] sz(2) c
    by (intro well_formed_split [OF heap_coreD(2) [OF core] rng]) (simp_all add: b' c' ys rest)
  have "separated ?m' (xs @ b # c # ys)"
  proof -
    have "separated ?m' xs = separated ?m xs" "separated ?m' ys = separated ?m ys"
      by (rule separated_cong; use keep in simp)+
    moreover have "ys = [] \<or> hm_used (?m' (hd ys)) \<noteq> 0"
      using heap_coreD(3) [OF core] free keep [of "hd ys"] by (cases ys) (auto simp: separated_append)
    ultimately show ?thesis using heap_coreD(3) [OF core] used by (auto simp: separated_append)
  qed
  moreover have "unat (used_mem ?h) = used_bytes ?m' (xs @ b # c # ys)"
  proof -
    have "used_bytes ?m' xs = used_bytes ?m xs" "used_bytes ?m' ys = used_bytes ?m ys"
      by (rule used_bytes_cong; use keep in simp)+
    then have sum: "used_bytes ?m' (xs @ b # c # ys) = unat (used_mem h) + (12 + unat sz)"
      using used c free heap_coreD(4) [OF core] by simp
    have "unat (sz + 12) = unat sz + 12" using lt by (intro unat_word_plus_12) simp
    moreover have "used_bytes ?m' (xs @ b # c # ys) < 2 ^ 32"
      using used_bytes_le [OF well_formedD(1) [OF wf]] unat_u32_less [of "heap_end h"] by simp
    ultimately have "unat (used_mem h + (sz + 12)) = unat (used_mem h) + (12 + unat sz)"
      using sum by (subst unat_word_plus) simp_all
    then show ?thesis using split sum by (simp add: taken_def take_block_def splits_def)
  qed
  moreover have "arena ?h"
  proof -
    have "?m' (heap_end h) = ?m (heap_end h)"
      using m(5) [OF rng] heap_wf(4) [OF core] by (auto simp: m')
    then show ?thesis using ar by (subst arena_cong [of _ h]) simp_all
  qed
  ultimately show "heap_core ?h (xs @ b # c # ys)" using wf by (simp add: heap_core_def)
qed

lemma taken_whole:
  assumes core: "heap_core h (xs @ b # ys)" and free: "hm_used (hp_mem h b) = 0" and whole: "\<not> splits b sz h"
  shows "heap_core (taken b sz h) (xs @ b # ys)" "hm_used (hp_mem (taken b sz h) b) = 1"
    "hm_next (hp_mem (taken b sz h) b) = hm_next (hp_mem h b)"
    "d \<in> set xs \<union> set ys \<Longrightarrow> hm_next (hp_mem (taken b sz h) d) = hm_next (hp_mem h d) \<and>
       hm_used (hp_mem (taken b sz h) d) = hm_used (hp_mem h d)"
proof -
  let ?m = "hp_mem h" and ?h = "taken b sz h"
  let ?m' = "hp_mem ?h"
  have b: "b \<in> set (xs @ b # ys)" by simp
  note d = heap_wf(3) [OF core]
  have m': "?m' = ?m(b := (?m b)\<lparr>hm_used := 1, hm_magic := HEAP_MAGIC\<rparr>)"
    using whole by (simp add: taken_def take_block_def splits_def)
  show used: "hm_used (?m' b) = 1" "hm_next (?m' b) = hm_next (?m b)" by (simp_all add: m')
  show keep: "hm_next (?m' d) = hm_next (?m d) \<and> hm_used (?m' d) = hm_used (?m d)" if "d \<in> set xs \<union> set ys" for d
    using that d by (auto simp: m')
  have wf: "well_formed ?m' (heap_end h) (xs @ b # ys)"
    by (rule well_formed_mark [OF heap_coreD(2) [OF core]])
       (use heap_wf(6,7) [OF core] in \<open>auto simp: m'\<close>)
  have "separated ?m' (xs @ b # ys)"
  proof -
    have "separated ?m' xs = separated ?m xs" "separated ?m' ys = separated ?m ys"
      by (rule separated_cong; use keep in simp)+
    then show ?thesis using heap_coreD(3) [OF core] used by (auto simp: separated_append)
  qed
  moreover have "unat (used_mem ?h) = used_bytes ?m' (xs @ b # ys)"
  proof -
    have "used_bytes ?m' xs = used_bytes ?m xs" "used_bytes ?m' ys = used_bytes ?m ys"
      by (rule used_bytes_cong; use keep in simp)+
    then have sum: "used_bytes ?m' (xs @ b # ys) = unat (used_mem h) + (unat (hm_next (?m b)) - unat b)"
      using used free heap_coreD(4) [OF core] by simp
    moreover have "used_bytes ?m' (xs @ b # ys) < 2 ^ 32"
      using used_bytes_le [OF well_formedD(1) [OF wf]] unat_u32_less [of "heap_end h"] by simp
    ultimately have "unat (used_mem h + (hm_next (?m b) - b)) = unat (used_mem h) + (unat (hm_next (?m b)) - unat b)"
      using fits_nat(3) [OF core b] by (subst unat_word_plus) simp_all
    then show ?thesis using whole sum by (simp add: taken_def take_block_def splits_def)
  qed
  moreover have "arena ?h"
    using heap_coreD(1) [OF core] heap_wf(4) [OF core] by (subst arena_cong [of _ h]) (auto simp: m')
  ultimately show "heap_core ?h (xs @ b # ys)" using wf by (simp add: heap_core_def)
qed

lemma taken_core:
  assumes core: "heap_core h (xs @ b # ys)" and free: "hm_used (hp_mem h b) = 0"
    and sz: "sz \<le> mem_size_aligned h" "4 dvd unat sz" "unat b + 12 + unat sz \<le> unat (hm_next (hp_mem h b))"
  shows "heap_core (taken b sz h) (xs @ after_take b sz h @ ys)"
    "hm_used (hp_mem (taken b sz h) b) = 1"
    "unat b + 12 + unat sz \<le> unat (hm_next (hp_mem (taken b sz h) b))"
    "d \<in> set xs \<union> set ys \<Longrightarrow> hm_next (hp_mem (taken b sz h) d) = hm_next (hp_mem h d) \<and>
       hm_used (hp_mem (taken b sz h) d) = hm_used (hp_mem h d)"
    "d \<in> set (after_take b sz h) \<Longrightarrow> d = b \<or> hm_used (hp_mem (taken b sz h) d) = 0 \<and> d \<notin> set (xs @ b # ys)"
  by (cases "splits b sz h";
      use taken_split [OF core free sz(1,2)] taken_whole [OF core free] sz(3) in \<open>auto simp: after_take_def\<close>)+

section \<open>The searches end\<close>

text \<open>From a block on, the first fit is the first free block that is large enough, if it starts below the
  bound; the search ends because the offsets grow.\<close>

definition fit_at :: "heap \<Rightarrow> u32 \<Rightarrow> u32 \<Rightarrow> bool" where
  "fit_at h sz b \<longleftrightarrow> hm_used (hp_mem h b) = 0 \<and> unat b + 12 + unat sz \<le> unat (hm_next (hp_mem h b))"

lemma find_fit_tiles:
  assumes "heap_core h bs" "sz \<le> mem_size_aligned h"
    and "tiles (hp_mem h) p ys (heap_end h)" "set ys \<subseteq> set bs"
  shows "find_fit h sz p = Some (find (fit_at h sz) (takeWhile (\<lambda>b. unat b + unat sz < unat (mem_size_aligned h)) ys))"
  using assms(3,4)
proof (induction ys arbitrary: p)
  case Nil
  have "unat (mem_size_aligned h - sz) = unat (mem_size_aligned h) - unat sz"
    using assms(2) by (intro unat_word_minus) (simp add: word_le_nat_alt)
  then have "\<not> p < mem_size_aligned h - sz"
    using Nil arenaD(1) [OF heap_coreD(1) [OF assms(1)]] by (simp add: word_less_nat_alt)
  then show ?case by (subst find_fit.simps) simp
next
  case (Cons b ys)
  have "unat (mem_size_aligned h - sz) = unat (mem_size_aligned h) - unat sz"
    using assms(2) by (intro unat_word_minus) (simp add: word_le_nat_alt)
  then have lt: "b < mem_size_aligned h - sz \<longleftrightarrow> unat b + unat sz < unat (mem_size_aligned h)"
    by (auto simp: word_less_nat_alt)
  have "b \<in> set bs" using Cons.prems by simp
  then have fit: "sz \<le> hm_next (hp_mem h b) - (b + 12) \<longleftrightarrow> unat b + 12 + unat sz \<le> unat (hm_next (hp_mem h b))"
    by (rule fits_nat(2) [OF assms(1)])
  have "find_fit h sz (hm_next (hp_mem h b)) =
      Some (find (fit_at h sz) (takeWhile (\<lambda>b. unat b + unat sz < unat (mem_size_aligned h)) ys))"
    using Cons.prems by (intro Cons.IH) auto
  moreover have "p = b" using Cons.prems(1) by simp
  ultimately show ?case by (subst find_fit.simps) (simp add: lt fit fit_at_def)
qed

lemma next_free_tiles:
  assumes "tiles (hp_mem h) p ys (heap_end h)"
  shows "next_free h p = Some (case find (\<lambda>b. hm_used (hp_mem h b) = 0) ys of None \<Rightarrow> heap_end h | Some b \<Rightarrow> b)"
  using assms
proof (induction ys arbitrary: p)
  case Nil
  then show ?case by (subst next_free.simps) simp
next
  case (Cons b ys)
  have "next_free h (hm_next (hp_mem h b)) =
      Some (case find (\<lambda>b. hm_used (hp_mem h b) = 0) ys of None \<Rightarrow> heap_end h | Some b \<Rightarrow> b)"
    using Cons.prems by (intro Cons.IH) auto
  then show ?case using Cons.prems tiles_end_notin [OF Cons.prems] by (subst next_free.simps) auto
qed

section \<open>The body of \<open>rt_malloc\<close>\<close>

text \<open>The blocks from \<open>lfree\<close> on.\<close>

definition from_lfree :: "heap \<Rightarrow> u32 list" where
  "from_lfree h = dropWhile (\<lambda>b. b \<noteq> lfree h) (blocks h)"

definition first_fit :: "u32 \<Rightarrow> heap \<Rightarrow> u32 option" where
  "first_fit sz h =
     find (fit_at h sz) (takeWhile (\<lambda>b. unat b + unat sz < unat (mem_size_aligned h)) (from_lfree h))"

lemma from_lfree_tiles:
  assumes "heap_core h bs" "lfree_ok h bs"
  shows "tiles (hp_mem h) (lfree h) (from_lfree h) (heap_end h)" "set (from_lfree h) \<subseteq> set bs"
proof -
  note t = heap_wf(1) [OF assms(1)] and bs = heap_coreD(5) [OF assms(1)]
  show "set (from_lfree h) \<subseteq> set bs" unfolding from_lfree_def bs by (auto dest: set_dropWhileD)
  show "tiles (hp_mem h) (lfree h) (from_lfree h) (heap_end h)"
  proof (cases "lfree h \<in> set bs")
    case True
    then obtain xs ys where "bs = xs @ lfree h # ys" "lfree h \<notin> set xs" by (auto dest: split_list_first)
    then have "from_lfree h = lfree h # ys" "bs = xs @ lfree h # ys"
      by (auto simp: from_lfree_def bs dropWhile_append3)
    then show ?thesis using t by (auto simp: tiles_append)
  next
    case False
    then have "from_lfree h = []" by (auto simp: from_lfree_def bs dropWhile_eq_Nil_conv)
    then show ?thesis using False assms(2) by (simp add: lfree_ok_def)
  qed
qed

lemma first_fitD:
  assumes "heap_core h bs" "first_fit sz h = Some b"
  obtains xs ys where "bs = xs @ b # ys" "hm_used (hp_mem h b) = 0"
    "unat b + 12 + unat sz \<le> unat (hm_next (hp_mem h b))" "unat b + unat sz < unat (mem_size_aligned h)"
proof -
  have "b \<in> set (takeWhile (\<lambda>b. unat b + unat sz < unat (mem_size_aligned h)) (from_lfree h))" "fit_at h sz b"
    using assms(2) unfolding first_fit_def by (auto simp: find_Some_iff)
  then have "b \<in> set bs" "fit_at h sz b" "unat b + unat sz < unat (mem_size_aligned h)"
    using heap_coreD(5) [OF assms(1)] by (auto simp: from_lfree_def dest: set_takeWhileD set_dropWhileD)
  then show ?thesis using that split_list [of b bs] by (auto simp: fit_at_def)
qed

text \<open>Where \<open>lfree\<close> points after the block \<open>b\<close> was taken.\<close>

definition lfree_after :: "u32 \<Rightarrow> heap \<Rightarrow> u32 list \<Rightarrow> u32" where
  "lfree_after b h zs = (if b = lfree h
     then (case find (\<lambda>b. hm_used (hp_mem h b) = 0) zs of None \<Rightarrow> heap_end h | Some b \<Rightarrow> b) else lfree h)"

lemma heap_malloc_eq:
  assumes "heap_core h bs" "lfree_ok h bs" "sz \<le> mem_size_aligned h" "4 dvd unat sz"
  shows "heap_malloc sz h = Some (case first_fit sz h of
      None \<Rightarrow> (None, h)
    | Some b \<Rightarrow> (Some b, (taken b sz h)\<lparr>lfree :=
        lfree_after b (taken b sz h) (dropWhile (\<lambda>c. c \<noteq> b) (blocks (taken b sz h)))\<rparr>))"
proof -
  have f: "find_fit h sz (lfree h) = Some (first_fit sz h)"
    unfolding first_fit_def by (rule find_fit_tiles [OF assms(1,3) from_lfree_tiles [OF assms(1,2)]])
  show ?thesis
  proof (cases "first_fit sz h")
    case None
    then show ?thesis using f by (simp add: heap_malloc_def)
  next
    case (Some b)
    then obtain xs ys where b: "bs = xs @ b # ys" "hm_used (hp_mem h b) = 0"
      "unat b + 12 + unat sz \<le> unat (hm_next (hp_mem h b))" by (rule first_fitD [OF assms(1)])
    let ?h = "taken b sz h"
    note t = taken_core [OF assms(1) [unfolded b(1)] b(2) assms(3,4) b(3)]
    obtain zs where zs: "after_take b sz h = b # zs" by (cases "splits b sz h") (auto simp: after_take_def)
    have bl: "blocks ?h = xs @ b # zs @ ys" using heap_coreD(5) [OF t(1)] zs by simp
    then have dw: "dropWhile (\<lambda>c. c \<noteq> b) (blocks ?h) = b # zs @ ys"
      using heap_wf(3) [OF assms(1)] b(1) by (subst bl, subst dropWhile_append3) auto
    have ti: "tiles (hp_mem ?h) b (b # zs @ ys) (heap_end ?h)"
      using heap_wf(1) [OF t(1)] zs by (auto simp: tiles_append)
    let ?p = "case find (\<lambda>b. hm_used (hp_mem ?h b) = 0) (b # zs @ ys) of None \<Rightarrow> heap_end ?h | Some b \<Rightarrow> b"
    have "next_free ?h b = Some ?p" by (rule next_free_tiles [OF ti])
    moreover have "?p = heap_end ?h \<or> hm_used (hp_mem ?h ?p) = 0"
      by (auto split: option.splits simp: find_Some_iff)
    moreover have "heap_malloc sz h = do {
        h' \<leftarrow> (if b = lfree ?h
               then do { p \<leftarrow> next_free ?h (lfree ?h);
                         RT_ASSERT (p = heap_end ?h \<or> hm_used (hp_mem ?h p) = 0); Some (?h\<lparr>lfree := p\<rparr>) }
               else Some ?h);
        Some (Some b, h') }"
      using f Some by (simp add: heap_malloc_def taken_def Let_def)
    ultimately show ?thesis using Some dw
      by (auto simp: lfree_after_def)
  qed
qed

section \<open>The allocated areas\<close>

text \<open>\<open>live h\<close>: the pointers handed out and not yet freed, with the number of bytes behind each.\<close>

definition data_ptr :: "heap \<Rightarrow> u32 \<Rightarrow> ptr" where
  "data_ptr h b = heap_ptr h + b + SIZEOF_STRUCT_MEM"

definition live :: "heap \<Rightarrow> ptr \<Rightarrow> nat option" where
  "live h p = (let b = p - SIZEOF_STRUCT_MEM - heap_ptr h in
     if b \<in> set (blocks h) \<and> hm_used (hp_mem h b) \<noteq> 0
     then Some (unat (hm_next (hp_mem h b)) - unat b - 12) else None)"

lemma data_ptr_offset [simp]: "data_ptr h b - SIZEOF_STRUCT_MEM - heap_ptr h = b"
  by (simp add: data_ptr_def)

lemma data_ptr_eq_iff: "data_ptr h b = p \<longleftrightarrow> b = p - SIZEOF_STRUCT_MEM - heap_ptr h"
  by (auto simp: data_ptr_def)

lemma live_data_ptr:
  "live h (data_ptr h b) = (if b \<in> set (blocks h) \<and> hm_used (hp_mem h b) \<noteq> 0
     then Some (unat (hm_next (hp_mem h b)) - unat b - 12) else None)"
  by (simp add: live_def Let_def)

lemma live_cases:
  assumes "live h p = Some n"
  obtains b where "p = data_ptr h b" "b \<in> set (blocks h)" "hm_used (hp_mem h b) \<noteq> 0"
    "n = unat (hm_next (hp_mem h b)) - unat b - 12"
proof
  let ?b = "p - 12 - heap_ptr h"
  show "p = data_ptr h ?b" by (simp add: data_ptr_def)
qed (use assms in \<open>auto simp: live_def Let_def split: if_splits\<close>)

lemma sorted_wrt_memD:
  assumes "sorted_wrt P xs" "x \<in> set xs" "y \<in> set xs" "x \<noteq> y"
  shows "P x y \<or> P y x"
  using assms by (metis in_set_conv_nth linorder_neqE_nat sorted_wrt_nth_less)

lemma live_change:
  assumes "heap_ptr h' = heap_ptr h"
    and "\<And>d. d \<noteq> b \<Longrightarrow> d \<in> set (blocks h') \<and> hm_used (hp_mem h' d) \<noteq> 0 \<longleftrightarrow>
      d \<in> set (blocks h) \<and> hm_used (hp_mem h d) \<noteq> 0"
    and "\<And>d. d \<noteq> b \<Longrightarrow> d \<in> set (blocks h) \<Longrightarrow> hm_used (hp_mem h d) \<noteq> 0 \<Longrightarrow>
      hm_next (hp_mem h' d) = hm_next (hp_mem h d)"
  shows "live h' = (live h)(data_ptr h b := live h' (data_ptr h b))"
proof
  fix p
  show "live h' p = ((live h)(data_ptr h b := live h' (data_ptr h b))) p"
  proof (cases "p = data_ptr h b")
    case False
    then have "p - 12 - heap_ptr h \<noteq> b" using data_ptr_eq_iff [of h b p] by auto
    then show ?thesis using False assms by (simp add: live_def Let_def)
  qed simp
qed

lemma blocks_lfree [simp]: "blocks (h\<lparr>lfree := p\<rparr>) = blocks h"
  by (simp add: blocks_def)

lemma heap_core_lfree [simp]: "heap_core (h\<lparr>lfree := p\<rparr>) bs = heap_core h bs"
  by (simp add: heap_core_def arena_def)

lemma live_lfree [simp]: "live (h\<lparr>lfree := p\<rparr>) = live h"
  by (rule ext) (simp add: live_def Let_def)

lemma data_ptr_unat:
  assumes "heap_core h bs" "b \<in> set bs"
  shows "unat (data_ptr h b) = unat (heap_ptr h) + unat b + 12"
    "unat (data_ptr h b) + (unat (hm_next (hp_mem h b)) - unat b - 12) \<le> unat (heap_ptr h) + unat (heap_end h)"
    "4 dvd unat (data_ptr h b)"
proof -
  note ar = arenaD [OF heap_coreD(1) [OF assms(1)]] and w = heap_wf(8,9) [OF assms]
  have "unat (heap_ptr h) + unat b + 12 < 2 ^ 32" using ar(3) w by linarith
  then show 1: "unat (data_ptr h b) = unat (heap_ptr h) + unat b + 12"
    unfolding data_ptr_def using unat_word_plus [of "heap_ptr h" b] by (subst unat_word_plus_12) simp_all
  show "unat (data_ptr h b) + (unat (hm_next (hp_mem h b)) - unat b - 12) \<le> unat (heap_ptr h) + unat (heap_end h)"
    using 1 w by linarith
  have "4 dvd unat (heap_ptr h) + unat b + 12"
    using ar(4) heap_wf(5) [OF assms] by (intro dvd_add) simp_all
  then show "4 dvd unat (data_ptr h b)" by (simp add: 1)
qed

text \<open>Two areas never overlap; between them lies at least one header.\<close>

lemma live_disjoint:
  assumes "heap_ok h" "live h p = Some n" "live h q = Some k" "p \<noteq> q"
  shows "unat p + n + 12 \<le> unat q \<or> unat q + k + 12 \<le> unat p"
proof -
  have core: "heap_core h (blocks h)" using assms(1) by (simp add: heap_ok_def)
  obtain b where b: "p = data_ptr h b" "b \<in> set (blocks h)" "n = unat (hm_next (hp_mem h b)) - unat b - 12"
    by (rule live_cases [OF assms(2)])
  obtain c where c: "q = data_ptr h c" "c \<in> set (blocks h)" "k = unat (hm_next (hp_mem h c)) - unat c - 12"
    by (rule live_cases [OF assms(3)])
  have "b \<noteq> c" using b c assms(4) by auto
  moreover have "sorted_wrt (\<lambda>a b. unat (hm_next (hp_mem h a)) \<le> unat b) (blocks h)"
    by (rule tiles_sorted [OF heap_wf(1) [OF core]])
  ultimately have "unat (hm_next (hp_mem h b)) \<le> unat c \<or> unat (hm_next (hp_mem h c)) \<le> unat b"
    using b(2) c(2) sorted_wrt_memD by fastforce
  then show ?thesis
    using data_ptr_unat(1) [OF core b(2)] data_ptr_unat(1) [OF core c(2)] b c
      heap_wf(8) [OF core b(2)] heap_wf(8) [OF core c(2)] by auto
qed

lemma live_bounds:
  assumes "heap_ok h" "live h p = Some n"
  shows "unat (heap_ptr h) + 12 \<le> unat p" "unat p + n \<le> unat (heap_ptr h) + unat (heap_end h)" "4 dvd unat p"
proof -
  have core: "heap_core h (blocks h)" using assms(1) by (simp add: heap_ok_def)
  obtain b where "p = data_ptr h b" "b \<in> set (blocks h)" "n = unat (hm_next (hp_mem h b)) - unat b - 12"
    by (rule live_cases [OF assms(2)])
  then show "unat (heap_ptr h) + 12 \<le> unat p" "unat p + n \<le> unat (heap_ptr h) + unat (heap_end h)" "4 dvd unat p"
    using data_ptr_unat [OF core] by auto
qed

section \<open>\<open>rt_malloc\<close> keeps the invariant\<close>

lemma heap_malloc_ok:
  assumes ok: "heap_ok h" and sz: "sz \<le> mem_size_aligned h" "4 dvd unat sz"
  shows "\<exists>r h'. heap_malloc sz h = Some (r, h') \<and> heap_ok h' \<and> r = first_fit sz h \<and>
    heap_ptr h' = heap_ptr h \<and> heap_end h' = heap_end h \<and> mem_size_aligned h' = mem_size_aligned h \<and>
    (case r of None \<Rightarrow> h' = h
     | Some b \<Rightarrow> live h (data_ptr h b) = None \<and> b + SIZEOF_STRUCT_MEM + sz \<le> heap_end h \<and>
         (\<exists>k. unat sz \<le> k \<and> live h' = (live h)(data_ptr h b \<mapsto> k)))"
proof (cases "first_fit sz h")
  case None
  then show ?thesis using heap_malloc_eq [of h "blocks h" sz] assms by (simp add: heap_ok_def)
next
  case (Some b)
  have core: "heap_core h (blocks h)" and lf: "lfree_ok h (blocks h)" using ok by (simp_all add: heap_ok_def)
  obtain xs ys where b: "blocks h = xs @ b # ys" "hm_used (hp_mem h b) = 0"
    "unat b + 12 + unat sz \<le> unat (hm_next (hp_mem h b))" by (rule first_fitD [OF core Some])
  note core' = core [unfolded b(1)]
  let ?t = "taken b sz h"
  note t = taken_core [OF core' b(2) sz b(3)]
  define zs where "zs = dropWhile (\<lambda>c. c \<noteq> b) (blocks ?t)"
  let ?h = "?t\<lparr>lfree := lfree_after b ?t zs\<rparr>"
  have bl: "blocks ?t = xs @ after_take b sz h @ ys" by (rule heap_coreD(5) [OF t(1)])
  have bin: "b \<in> set (blocks ?t)" by (simp add: bl after_take_def)
  have zs: "set zs \<subseteq> set (blocks ?t)" unfolding zs_def by (auto dest: set_dropWhileD)
  have keep: "d \<in> set (blocks ?t) \<and> hm_used (hp_mem ?t d) \<noteq> 0 \<longleftrightarrow> d \<in> set (blocks h) \<and> hm_used (hp_mem h d) \<noteq> 0"
    if "d \<noteq> b" for d
    using that t(4) [of d] t(5) [of d] by (auto simp: bl b(1))
  have "lfree_ok ?h (blocks ?t)"
  proof (cases "b = lfree h")
    case True
    then show ?thesis using zs
      by (auto simp: lfree_ok_def lfree_after_def find_Some_iff split: option.splits)
  next
    case False
    then have "lfree h = heap_end h \<or> lfree h \<in> set xs \<union> set ys \<and> hm_used (hp_mem h (lfree h)) = 0"
      using lf b(1) by (auto simp: lfree_ok_def)
    then show ?thesis using False t(4) [of "lfree h"] by (auto simp: lfree_ok_def lfree_after_def bl)
  qed
  then have "heap_ok ?h" using t(1) bl by (intro heap_okI [of ?h "blocks ?t"]) simp_all
  moreover have "live ?t = (live h)(data_ptr h b := live ?t (data_ptr h b))"
    by (rule live_change) (simp, erule keep, use t(4) b(1) in auto)
  moreover have "live ?t (data_ptr h b) = Some (unat (hm_next (hp_mem ?t b)) - unat b - 12)"
    using live_data_ptr [of ?t b] bin t(2) by (simp add: data_ptr_def)
  moreover have "live h (data_ptr h b) = None" using b(2) by (simp add: live_data_ptr)
  moreover have "b + 12 + sz \<le> heap_end h"
  proof -
    have "unat b + 12 + unat sz \<le> unat (heap_end h)" using b(3) heap_wf(9) [OF core', of b] by simp
    moreover from this have "unat (b + 12 + sz) = unat b + 12 + unat sz"
      using unat_u32_less [of "heap_end h"] unat_word_plus_12 [of b] by (subst unat_word_plus) simp_all
    ultimately show ?thesis by (simp add: word_le_nat_alt)
  qed
  moreover have "unat sz \<le> unat (hm_next (hp_mem ?t b)) - unat b - 12" using t(3) by simp
  ultimately show ?thesis
    using heap_malloc_eq [OF core lf sz] Some by (auto simp: zs_def)
qed

end
