(* ===== verification/Heap_Free.thy ===== *)
theory Heap_Free
  imports Heap_Ops
begin

text \<open>
  \<open>plug_holes\<close>, and with it the bodies of \<open>rt_free\<close> and of the shrinking branch of \<open>rt_realloc\<close>
  (\<open>src/src/mem.c\<close>), on a well-formed heap: the freed block is joined with the free neighbours it has, the
  invariant holds again and no other area changes.
\<close>

section \<open>Joining\<close>

abbreviation free_head :: "(u32 \<Rightarrow> heap_mem) \<Rightarrow> u32 list \<Rightarrow> bool" where
  "free_head m bs \<equiv> bs \<noteq> [] \<and> hm_used (m (hd bs)) = 0"

text \<open>The writes of \<open>plug_holes\<close> for a block \<open>b\<close> and its right neighbour \<open>c\<close>.\<close>

definition joined :: "u32 \<Rightarrow> u32 \<Rightarrow> (u32 \<Rightarrow> heap_mem) \<Rightarrow> u32 \<Rightarrow> heap_mem" where
  "joined b c m = (let m' = m(b := (m b)\<lparr>hm_next := hm_next (m c)\<rparr>) in
     m'(hm_next (m c) := (m' (hm_next (m c)))\<lparr>hm_prev := b\<rparr>))"

lemma well_formed_joined:
  assumes wf: "well_formed m e (xs @ b # c # ys)"
  shows "well_formed (joined b c m) e (xs @ b # ys)"
proof -
  note w = well_formedD [OF wf]
  have n: "hm_next (m c) = hd (ys @ [e])"
    using tiles_next [of m 0 "xs @ [b]" c ys e] w(1) by simp
  show ?thesis
    by (rule well_formed_join [OF wf]; cases ys) (use w(3,4) n in \<open>auto simp: joined_def Let_def\<close>)
qed

lemma plug_forward_eq:
  assumes wf: "well_formed (hp_mem h) (heap_end h) (xs @ b # ys)"
  defines "h' \<equiv> plug_forward b h" and "j \<equiv> free_head (hp_mem h) ys"
  shows "well_formed (hp_mem h') (heap_end h) (xs @ b # (if j then tl ys else ys))"
    "hm_used (hp_mem h' d) = hm_used (hp_mem h d)"
    "d \<noteq> b \<Longrightarrow> hm_next (hp_mem h' d) = hm_next (hp_mem h d)"
    "heap_ptr h' = heap_ptr h \<and> heap_end h' = heap_end h \<and> mem_size_aligned h' = mem_size_aligned h \<and>
       used_mem h' = used_mem h \<and> max_mem h' = max_mem h"
    "lfree h' = (if j \<and> lfree h = hd ys then b else lfree h)"
proof -
  note w = well_formedD [OF wf]
  have n: "hm_next (hp_mem h b) = hd (ys @ [heap_end h])" by (rule tiles_next [OF w(1)])
  have nb: "hm_next (hp_mem h b) \<noteq> b" using w(8) [of b] by auto
  show "hm_used (hp_mem h' d) = hm_used (hp_mem h d)"
    by (simp add: h'_def plug_forward_def Let_def)
  show "hm_next (hp_mem h' d) = hm_next (hp_mem h d)" if "d \<noteq> b"
    using that by (simp add: h'_def plug_forward_def Let_def)
  show "heap_ptr h' = heap_ptr h \<and> heap_end h' = heap_end h \<and> mem_size_aligned h' = mem_size_aligned h \<and>
       used_mem h' = used_mem h \<and> max_mem h' = max_mem h"
    by (simp add: h'_def plug_forward_def Let_def)
  have j: "j \<longleftrightarrow> b \<noteq> hm_next (hp_mem h b) \<and> hm_used (hp_mem h (hm_next (hp_mem h b))) = 0 \<and>
      hm_next (hp_mem h b) \<noteq> heap_end h"
    using n nb w(4) by (cases ys) (auto simp: j_def)
  show "lfree h' = (if j \<and> lfree h = hd ys then b else lfree h)"
    using j n by (cases ys) (auto simp: h'_def plug_forward_def Let_def j_def)
  show "well_formed (hp_mem h') (heap_end h) (xs @ b # (if j then tl ys else ys))"
  proof (cases j)
    case False
    then show ?thesis using wf j by (auto simp: h'_def plug_forward_def Let_def)
  next
    case True
    then obtain c zs where ys: "ys = c # zs" by (auto simp: j_def neq_Nil_conv)
    have m': "hp_mem h' = joined b c (hp_mem h)"
      using True j n ys by (simp add: h'_def plug_forward_def Let_def joined_def)
    have "well_formed (hp_mem h') (heap_end h) (xs @ b # zs)"
      unfolding m' using wf ys by (intro well_formed_joined) simp
    then show ?thesis using True ys by simp
  qed
qed

lemma plug_backward_eq:
  assumes wf: "well_formed (hp_mem h) (heap_end h) (xs @ b # ys)"
  defines "h' \<equiv> plug_backward b h" and "j \<equiv> free_head (hp_mem h) (rev xs)"
  shows "well_formed (hp_mem h') (heap_end h) (xs @ (if j then ys else b # ys))"
    "hm_used (hp_mem h' d) = hm_used (hp_mem h d)"
    "hm_used (hp_mem h d) \<noteq> 0 \<Longrightarrow> hm_next (hp_mem h' d) = hm_next (hp_mem h d)"
    "heap_ptr h' = heap_ptr h \<and> heap_end h' = heap_end h \<and> mem_size_aligned h' = mem_size_aligned h \<and>
       used_mem h' = used_mem h \<and> max_mem h' = max_mem h"
    "lfree h' = (if j \<and> lfree h = b then last xs else lfree h)"
proof -
  note w = well_formedD [OF wf]
  have p: "hm_prev (hp_mem h b) = last (0 # xs)" using w(2) by (auto simp: linked_append)
  have b0: "b = 0" if "xs = []" using w(1) that by simp
  show "hm_used (hp_mem h' d) = hm_used (hp_mem h d)"
    by (simp add: h'_def plug_backward_def Let_def)
  show "hm_next (hp_mem h' d) = hm_next (hp_mem h d)" if "hm_used (hp_mem h d) \<noteq> 0"
    using that by (auto simp: h'_def plug_backward_def Let_def)
  show "heap_ptr h' = heap_ptr h \<and> heap_end h' = heap_end h \<and> mem_size_aligned h' = mem_size_aligned h \<and>
       used_mem h' = used_mem h \<and> max_mem h' = max_mem h"
    by (simp add: h'_def plug_backward_def Let_def)
  have j: "j \<longleftrightarrow> hm_prev (hp_mem h b) \<noteq> b \<and> hm_used (hp_mem h (hm_prev (hp_mem h b))) = 0"
    using p b0 w(3) by (cases xs rule: rev_cases) (auto simp: j_def)
  show "lfree h' = (if j \<and> lfree h = b then last xs else lfree h)"
    using j p by (cases xs rule: rev_cases) (auto simp: h'_def plug_backward_def Let_def j_def)
  show "well_formed (hp_mem h') (heap_end h) (xs @ (if j then ys else b # ys))"
  proof (cases j)
    case False
    then show ?thesis using wf j by (auto simp: h'_def plug_backward_def Let_def)
  next
    case True
    then obtain us a where xs: "xs = us @ [a]" by (cases xs rule: rev_cases) (auto simp: j_def)
    have m': "hp_mem h' = joined a b (hp_mem h)"
      using True j p xs by (simp add: h'_def plug_backward_def Let_def joined_def)
    have "well_formed (hp_mem h') (heap_end h) (us @ a # ys)"
      unfolding m' using wf xs by (intro well_formed_joined) simp
    then show ?thesis using True xs by simp
  qed
qed

section \<open>\<open>plug_holes\<close>\<close>

definition merged :: "(u32 \<Rightarrow> heap_mem) \<Rightarrow> u32 list \<Rightarrow> u32 \<Rightarrow> u32 list \<Rightarrow> u32 list" where
  "merged m xs b ys =
     xs @ (if free_head m (rev xs) then [] else [b]) @ (if free_head m ys then tl ys else ys)"

text \<open>Where a pointer to \<open>b\<close> or to its right neighbour has to point after the join.\<close>

definition redirect :: "(u32 \<Rightarrow> heap_mem) \<Rightarrow> u32 list \<Rightarrow> u32 \<Rightarrow> u32 list \<Rightarrow> u32 \<Rightarrow> u32" where
  "redirect m xs b ys l =
     (let l = (if free_head m ys \<and> l = hd ys then b else l)
      in if free_head m (rev xs) \<and> l = b then last xs else l)"

lemma merged_used:
  assumes "hm_used (m b) = 0"
  shows "filter (\<lambda>d. hm_used (m d) \<noteq> 0) (merged m xs b ys) = filter (\<lambda>d. hm_used (m d) \<noteq> 0) (xs @ b # ys)"
  using assms by (cases ys) (auto simp: merged_def)

lemma merged_mem:
  assumes "hm_used (m b) = 0" "hm_used (m d) \<noteq> 0"
  shows "d \<in> set (merged m xs b ys) \<longleftrightarrow> d \<in> set (xs @ b # ys)"
proof -
  have "d \<in> set bs \<longleftrightarrow> d \<in> set (filter (\<lambda>d. hm_used (m d) \<noteq> 0) bs)" for bs using assms(2) by simp
  then show ?thesis using merged_used [of m, OF assms(1)] by metis
qed

lemma merged_separated:
  assumes "separated m xs" "separated m ys" "hm_used (m b) = 0"
  shows "separated m (merged m xs b ys)"
  using assms by (cases ys; cases xs rule: rev_cases) (auto simp: merged_def separated_append hd_append)

lemma used_bytes_filter: "used_bytes m bs = used_bytes m (filter (\<lambda>d. hm_used (m d) \<noteq> 0) bs)"
  by (induction bs) auto

lemma used_bytes_same:
  assumes "filter (\<lambda>d. hm_used (m d) \<noteq> 0) bs' = filter (\<lambda>d. hm_used (m d) \<noteq> 0) bs"
    "\<And>d. hm_used (m' d) = hm_used (m d)" "\<And>d. hm_used (m d) \<noteq> 0 \<Longrightarrow> hm_next (m' d) = hm_next (m d)"
  shows "used_bytes m' bs' = used_bytes m bs"
proof -
  have "used_bytes m' bs' = used_bytes m' (filter (\<lambda>d. hm_used (m d) \<noteq> 0) bs)"
    using used_bytes_filter [of m' bs'] assms(1,2) by simp
  also have "\<dots> = used_bytes m (filter (\<lambda>d. hm_used (m d) \<noteq> 0) bs)"
    by (rule used_bytes_cong) (simp add: assms(2,3))
  finally show ?thesis using used_bytes_filter [of m bs] by simp
qed

lemma lfree_redirect:
  assumes "lfree_ok h (xs @ b # ys)" "hm_used (hp_mem h b) = 0" "distinct (xs @ b # ys)"
    "heap_end h \<notin> set (xs @ b # ys)" "heap_end h' = heap_end h"
    "lfree h' = redirect (hp_mem h) xs b ys (lfree h)" "\<And>d. hm_used (hp_mem h' d) = hm_used (hp_mem h d)"
  shows "lfree_ok h' (merged (hp_mem h) xs b ys)"
  using assms by (cases ys; cases xs rule: rev_cases)
    (auto simp: lfree_ok_def merged_def redirect_def Let_def)

lemma plug_holes_ok:
  assumes ar: "arena h" and wf: "well_formed (hp_mem h) (heap_end h) (xs @ b # ys)"
    and free: "hm_used (hp_mem h b) = 0" and sep: "separated (hp_mem h) xs" "separated (hp_mem h) ys"
    and used: "unat (used_mem h) = used_bytes (hp_mem h) (xs @ b # ys)"
  shows "\<exists>h'. plug_holes b h = Some h' \<and> heap_core h' (merged (hp_mem h) xs b ys) \<and>
    heap_ptr h' = heap_ptr h \<and> heap_end h' = heap_end h \<and> mem_size_aligned h' = mem_size_aligned h \<and>
    used_mem h' = used_mem h \<and> max_mem h' = max_mem h \<and>
    lfree h' = redirect (hp_mem h) xs b ys (lfree h) \<and>
    (\<forall>d. hm_used (hp_mem h' d) = hm_used (hp_mem h d)) \<and>
    (\<forall>d. hm_used (hp_mem h d) \<noteq> 0 \<longrightarrow> hm_next (hp_mem h' d) = hm_next (hp_mem h d))"
proof -
  let ?f = "plug_forward b h" and ?ys = "if free_head (hp_mem h) ys then tl ys else ys"
  let ?g = "plug_backward b ?f"
  note w = well_formedD [OF wf]
  note F = plug_forward_eq [OF wf]
  have "well_formed (hp_mem ?f) (heap_end ?f) (xs @ b # ?ys)" using F(1,4) by simp
  note B = plug_backward_eq [OF this]
  have wf': "well_formed (hp_mem ?g) (heap_end h) (merged (hp_mem h) xs b ys)"
  proof -
    have "merged (hp_mem h) xs b ys = xs @ (if free_head (hp_mem ?f) (rev xs) then ?ys else b # ?ys)"
      by (simp add: merged_def F(2))
    then show ?thesis using B(1) F(4) by metis
  qed
  have u: "hm_used (hp_mem ?g d) = hm_used (hp_mem h d)" for d using B(2) F(2) by simp
  have n: "hm_next (hp_mem ?g d) = hm_next (hp_mem h d)" if "hm_used (hp_mem h d) \<noteq> 0" for d
    using B(3) [of d] F(2) [of d] F(3) [of d] free that by auto
  have "separated (hp_mem ?g) (merged (hp_mem h) xs b ys)"
    using merged_separated [OF sep free] separated_cong [of _ "hp_mem ?g" "hp_mem h"] u by blast
  moreover have "used_bytes (hp_mem ?g) (merged (hp_mem h) xs b ys) = used_bytes (hp_mem h) (xs @ b # ys)"
    by (rule used_bytes_same [OF merged_used [of "hp_mem h", OF free]]) (simp_all add: u n)
  moreover have "arena ?g" using ar F(4) B(4) u by (subst arena_cong [of _ h]) simp_all
  ultimately have "heap_core ?g (merged (hp_mem h) xs b ys)"
    using wf' used F(4) B(4) by (simp add: heap_core_def)
  moreover have "plug_holes b h = Some ?g"
  proof -
    have "unat b < unat (heap_end h)" using w(8) [of b] w(9) [of b] by simp
    then show ?thesis using arenaD(3) [OF ar] free
      unat_word_plus [of "heap_ptr h" b] unat_word_plus [of "heap_ptr h" "heap_end h"]
      by (simp add: plug_holes_def word_le_nat_alt word_less_nat_alt)
  qed
  moreover have "lfree ?g = redirect (hp_mem h) xs b ys (lfree h)"
    using B(5) F(5) F(2) by (simp add: redirect_def Let_def)
  ultimately show ?thesis using u n F(4) B(4) by (intro exI [of _ ?g]) simp
qed

section \<open>The body of \<open>rt_free\<close>\<close>

text \<open>The block is marked free, \<open>lfree\<close> is lowered and the count is reduced.\<close>

definition unmarked :: "u32 \<Rightarrow> heap \<Rightarrow> heap" where
  "unmarked b h = (set_mem b (\<lambda>m. m\<lparr>hm_used := 0, hm_magic := HEAP_MAGIC\<rparr>) h)
     \<lparr>lfree := (if b < lfree h then b else lfree h), used_mem := used_mem h - (hm_next (hp_mem h b) - b)\<rparr>"

lemma unmarked_fields [simp]:
  "hp_mem (unmarked b h) = (hp_mem h)(b := (hp_mem h b)\<lparr>hm_used := 0, hm_magic := HEAP_MAGIC\<rparr>)"
  "heap_ptr (unmarked b h) = heap_ptr h" "heap_end (unmarked b h) = heap_end h"
  "mem_size_aligned (unmarked b h) = mem_size_aligned h" "max_mem (unmarked b h) = max_mem h"
  "lfree (unmarked b h) = (if b < lfree h then b else lfree h)"
  "used_mem (unmarked b h) = used_mem h - (hm_next (hp_mem h b) - b)"
  by (simp_all add: unmarked_def)

lemma heap_free_unmarked:
  assumes "heap_core h bs" "lfree_ok h bs" "b \<in> set bs" "hm_used (hp_mem h b) \<noteq> 0"
  shows "heap_free b h = plug_holes b (unmarked b h)"
proof -
  have "unat b \<le> unat (heap_end h)" "unat (lfree h) \<le> unat (heap_end h)"
    using assms(2) heap_wf(8,9) [OF assms(1)] assms(3) by (fastforce simp: lfree_ok_def)+
  then have "heap_ptr h + b < heap_ptr h + lfree h \<longleftrightarrow> b < lfree h"
    using arenaD(3) [OF heap_coreD(1) [OF assms(1)]]
      unat_word_plus [of "heap_ptr h" b] unat_word_plus [of "heap_ptr h" "lfree h"]
    by (simp add: word_less_nat_alt)
  then show ?thesis
    using assms(4) heap_wf(6) [OF assms(1,3)] by (simp add: heap_free_def Let_def unmarked_def set_mem_def)
qed

lemma heap_free_ok:
  assumes ok: "heap_ok h" and bl: "blocks h = xs @ b # ys" and used: "hm_used (hp_mem h b) \<noteq> 0"
  shows "\<exists>h'. heap_free b h = Some h' \<and> heap_ok h' \<and> blocks h' = merged (hp_mem h) xs b ys \<and>
    heap_ptr h' = heap_ptr h \<and> heap_end h' = heap_end h \<and> mem_size_aligned h' = mem_size_aligned h \<and>
    lfree h' = redirect (hp_mem h) xs b ys (if b < lfree h then b else lfree h) \<and>
    (\<forall>d. hm_used (hp_mem h' d) = (if d = b then 0 else hm_used (hp_mem h d))) \<and>
    unat (used_mem h) = unat (used_mem h') + (unat (hm_next (hp_mem h b)) - unat b) \<and>
    live h' = (live h)(data_ptr h b := None)"
proof -
  let ?u = "unmarked b h"
  have core: "heap_core h (xs @ b # ys)" and lf: "lfree_ok h (xs @ b # ys)"
    using ok bl by (simp_all add: heap_ok_def)
  have bin: "b \<in> set (xs @ b # ys)" by simp
  note w = heap_wf(3,4) [OF core]
  have wf: "well_formed (hp_mem ?u) (heap_end ?u) (xs @ b # ys)"
    unfolding unmarked_fields(3)
    by (rule well_formed_mark [OF heap_coreD(2) [OF core]]) (use heap_wf(6,7) [OF core] in auto)
  have keep: "hm_used (hp_mem ?u d) = hm_used (hp_mem h d) \<and> hm_next (hp_mem ?u d) = hm_next (hp_mem h d)"
    if "d \<in> set xs \<union> set ys" for d using that w(1) by auto
  have "separated (hp_mem ?u) xs = separated (hp_mem h) xs" "separated (hp_mem ?u) ys = separated (hp_mem h) ys"
    by (rule separated_cong; use keep in blast)+
  then have sep: "separated (hp_mem ?u) xs" "separated (hp_mem ?u) ys"
    using heap_coreD(3) [OF core] by (auto simp: separated_append)
  have "used_bytes (hp_mem ?u) xs = used_bytes (hp_mem h) xs" "used_bytes (hp_mem ?u) ys = used_bytes (hp_mem h) ys"
    by (rule used_bytes_cong; use keep in blast)+
  then have sum: "unat (used_mem h) = used_bytes (hp_mem ?u) (xs @ b # ys) + (unat (hm_next (hp_mem h b)) - unat b)"
    using heap_coreD(4) [OF core] used by simp
  then have ub: "unat (used_mem ?u) = used_bytes (hp_mem ?u) (xs @ b # ys)"
    using fits_nat(3) [OF core bin] unat_word_minus [of "hm_next (hp_mem h b) - b" "used_mem h"] by simp
  have ar: "arena ?u"
    using heap_coreD(1) [OF core] w(2) by (subst arena_cong [of _ h]) auto
  have free: "hm_used (hp_mem ?u b) = 0" by simp
  from plug_holes_ok [OF ar wf free sep ub] obtain h' where h': "plug_holes b ?u = Some h'" "heap_core h' (merged (hp_mem ?u) xs b ys)"
    "heap_ptr h' = heap_ptr h" "heap_end h' = heap_end h" "mem_size_aligned h' = mem_size_aligned h"
    "used_mem h' = used_mem ?u" "lfree h' = redirect (hp_mem ?u) xs b ys (lfree ?u)"
    "\<And>d. hm_used (hp_mem h' d) = hm_used (hp_mem ?u d)"
    "\<And>d. hm_used (hp_mem ?u d) \<noteq> 0 \<Longrightarrow> hm_next (hp_mem h' d) = hm_next (hp_mem ?u d)"
    unfolding unmarked_fields(2-5) by blast
  have fh: "free_head (hp_mem ?u) (rev xs) = free_head (hp_mem h) (rev xs)"
      "free_head (hp_mem ?u) ys = free_head (hp_mem h) ys"
    using keep [of "last xs"] keep [of "hd ys"] by (auto simp: hd_rev simp del: unmarked_fields)
  have m: "merged (hp_mem ?u) xs b ys = merged (hp_mem h) xs b ys"
    "redirect (hp_mem ?u) xs b ys l = redirect (hp_mem h) xs b ys l" for l
    unfolding merged_def redirect_def fh by simp_all
  have bl': "blocks h' = merged (hp_mem h) xs b ys" using heap_coreD(5) [OF h'(2)] m by simp
  have "lfree_ok ?u (xs @ b # ys)" using lf used by (auto simp: lfree_ok_def)
  then have "lfree_ok h' (merged (hp_mem ?u) xs b ys)"
    using w h'(4,7,8) by (intro lfree_redirect) simp_all
  then have "heap_ok h'" using heap_okI [OF h'(2)] by simp
  moreover have "live h' = (live h)(data_ptr h b := live h' (data_ptr h b))"
  proof (rule live_change [OF h'(3)])
    fix d assume "d \<noteq> b"
    then show "d \<in> set (blocks h') \<and> hm_used (hp_mem h' d) \<noteq> 0 \<longleftrightarrow> d \<in> set (blocks h) \<and> hm_used (hp_mem h d) \<noteq> 0"
      using merged_mem [of "hp_mem ?u" b d xs ys, OF free] m(1) h'(8) [of d] unfolding bl' bl by auto
  next
    fix d assume "d \<noteq> b" "hm_used (hp_mem h d) \<noteq> 0"
    then show "hm_next (hp_mem h' d) = hm_next (hp_mem h d)" using h'(9) [of d] by simp
  qed
  moreover have "live h' (data_ptr h b) = None"
    using h'(3,8) live_data_ptr [of h' b] by (simp add: data_ptr_def)
  ultimately show ?thesis
    using heap_free_unmarked [OF core lf bin used] h' bl' m(2) sum ub
    by (intro exI [of _ h']) simp
qed

section \<open>Shrinking in place\<close>

text \<open>The block \<open>b\<close> is cut at \<open>c\<close> and the rest becomes a free block.\<close>

lemma split_used:
  assumes core: "heap_core h (xs @ b # ys)" and used: "hm_used (hp_mem h b) \<noteq> 0"
    and c: "unat b + 12 \<le> unat c" "unat c + 12 < unat (hm_next (hp_mem h b))" "4 dvd unat c"
  defines "h' \<equiv> (split_block b c h)\<lparr>used_mem := used_mem h - (hm_next (hp_mem h b) - c)\<rparr>"
  shows "arena h'" "well_formed (hp_mem h') (heap_end h) (xs @ b # c # ys)"
    "separated (hp_mem h') (xs @ [b])" "separated (hp_mem h') ys"
    "unat (used_mem h') = used_bytes (hp_mem h') (xs @ b # c # ys)"
    "hm_used (hp_mem h' c) = 0" "hm_used (hp_mem h' b) = hm_used (hp_mem h b)" "hm_next (hp_mem h' b) = c"
    "\<And>d. d \<in> set xs \<union> set ys \<Longrightarrow>
       hm_used (hp_mem h' d) = hm_used (hp_mem h d) \<and> hm_next (hp_mem h' d) = hm_next (hp_mem h d)"
    "c \<notin> set (xs @ b # ys)" "unat (used_mem h') + (unat (hm_next (hp_mem h b)) - unat c) = unat (used_mem h)"
proof -
  let ?m = "hp_mem h" and ?m' = "hp_mem h'"
  have bin: "b \<in> set (xs @ b # ys)" by simp
  note m = split_block_mem [OF heap_coreD(1,2) [OF core] c(1,2)]
  have m': "?m' = hp_mem (split_block b c h)" by (simp add: h'_def)
  show "c \<notin> set (xs @ b # ys)" by (rule m(6))
  show "arena h'"
    using heap_coreD(1) [OF core] m(5) by (subst arena_cong [of _ h]) (simp_all add: h'_def)
  show wf: "well_formed ?m' (heap_end h) (xs @ b # c # ys)"
    unfolding m' by (rule well_formed_split [OF heap_coreD(2) [OF core] c])
      (use m heap_wf(6,7) [OF core bin] in simp_all)
  show u: "hm_used (?m' c) = 0" "hm_used (?m' b) = hm_used (?m b)" "hm_next (?m' b) = c" by (simp_all add: m' m(1,2))
  show keep: "hm_used (?m' d) = hm_used (?m d) \<and> hm_next (?m' d) = hm_next (?m d)"
    if "d \<in> set xs \<union> set ys" for d
    using that m(3) m(4) [of d] by (cases ys) (auto simp: m')
  have "separated ?m' xs = separated ?m xs" "separated ?m' ys = separated ?m ys"
    by (rule separated_cong; use keep in blast)+
  then show "separated ?m' (xs @ [b])" "separated ?m' ys"
    using heap_coreD(3) [OF core] used u(2) by (auto simp: separated_append)
  have "used_bytes ?m' xs = used_bytes ?m xs" "used_bytes ?m' ys = used_bytes ?m ys"
    by (rule used_bytes_cong; use keep in blast)+
  then have sum: "unat (used_mem h) = used_bytes ?m' (xs @ b # c # ys) + (unat (hm_next (?m b)) - unat c)"
    using heap_coreD(4) [OF core] used u c by simp
  then show "unat (used_mem h') = used_bytes ?m' (xs @ b # c # ys)"
    using c unat_word_minus [of c "hm_next (?m b)"] unat_word_minus [of "hm_next (?m b) - c" "used_mem h"]
    by (simp add: h'_def)
  then show "unat (used_mem h') + (unat (hm_next (?m b)) - unat c) = unat (used_mem h)" using sum by simp
qed

lemma split_block_used_mem:
  "split_block b c (h\<lparr>used_mem := u\<rparr>) = (split_block b c h)\<lparr>used_mem := u\<rparr>"
  by (simp add: split_block_def set_mem_def Let_def)

lemma heap_shrink_ok:
  assumes ok: "heap_ok h" and bl: "blocks h = xs @ b # ys" and used: "hm_used (hp_mem h b) \<noteq> 0"
    and n: "4 dvd unat n" "n \<le> mem_size_aligned h"
    and sm: "unat b + 12 + unat n + 24 < unat (hm_next (hp_mem h b))"
  shows "\<exists>h'. heap_shrink b n h = Some (Inl h') \<and> heap_ok h' \<and>
    heap_ptr h' = heap_ptr h \<and> heap_end h' = heap_end h \<and> mem_size_aligned h' = mem_size_aligned h \<and>
    live h' = (live h)(data_ptr h b \<mapsto> unat n) \<and>
    lfree h' = (if free_head (hp_mem h) ys \<and> lfree h = hd ys then b + SIZEOF_STRUCT_MEM + n else lfree h) \<and>
    b + SIZEOF_STRUCT_MEM + n \<in> set (blocks h') \<and> hm_used (hp_mem h' (b + SIZEOF_STRUCT_MEM + n)) = 0 \<and>
    unat (used_mem h') + (unat (hm_next (hp_mem h b)) - unat b - 12 - unat n) = unat (used_mem h)"
proof -
  have core: "heap_core h (xs @ b # ys)" and lf: "lfree_ok h (xs @ b # ys)"
    using ok bl by (simp_all add: heap_ok_def)
  have bin: "b \<in> set (xs @ b # ys)" by simp
  define c where "c = b + SIZEOF_STRUCT_MEM + n"
  have lt: "unat b + 12 + unat n < 2 ^ 32" using sm unat_u32_less [of "hm_next (hp_mem h b)"] by simp
  have b12: "unat (b + 12) = unat b + 12" using lt by (intro unat_word_plus_12) simp
  then have c: "unat c = unat b + 12 + unat n" unfolding c_def using lt by (subst unat_word_plus) simp_all
  have rng: "unat b + 12 \<le> unat c" "unat c + 12 < unat (hm_next (hp_mem h b))" "4 dvd unat c"
    using sm c n(1) heap_wf(5) [OF core bin] by simp_all
  let ?sz = "hm_next (hp_mem h b) - b - 12"
  have sz: "unat ?sz = unat (hm_next (hp_mem h b)) - unat b - 12"
    using fits_nat(1) [OF core bin] by (simp add: diff_diff_eq)
  define s where "s = (split_block b c h)\<lparr>used_mem := used_mem h - (hm_next (hp_mem h b) - c)\<rparr>"
  note S = split_used [OF core used rng, folded s_def]
  have sf: "heap_ptr s = heap_ptr h" "heap_end s = heap_end h" "mem_size_aligned s = mem_size_aligned h" "lfree s = lfree h"
    by (simp_all add: s_def)
  have "well_formed (hp_mem s) (heap_end s) ((xs @ [b]) @ c # ys)"
    "unat (used_mem s) = used_bytes (hp_mem s) ((xs @ [b]) @ c # ys)"
    using S(2,5) sf by simp_all
  from plug_holes_ok [OF S(1) this(1) S(6) S(3,4) this(2)] obtain h' where
    h': "plug_holes c s = Some h'" "heap_core h' (merged (hp_mem s) (xs @ [b]) c ys)"
    "heap_ptr h' = heap_ptr h" "heap_end h' = heap_end h" "mem_size_aligned h' = mem_size_aligned h"
    "lfree h' = redirect (hp_mem s) (xs @ [b]) c ys (lfree h)"
    "\<And>d. hm_used (hp_mem h' d) = hm_used (hp_mem s d)"
    "\<And>d. hm_used (hp_mem s d) \<noteq> 0 \<Longrightarrow> hm_next (hp_mem h' d) = hm_next (hp_mem s d)"
    "used_mem h' = used_mem s"
    unfolding sf by blast
  note bl' = heap_coreD(5) [OF h'(2)]
  have fh: "free_head (hp_mem s) ys = free_head (hp_mem h) ys" using S(9) [of "hd ys"] by auto
  have w: "distinct ((xs @ [b]) @ c # ys)" "heap_end s \<notin> set ((xs @ [b]) @ c # ys)"
    using well_formedD(3,4) [OF S(2)] sf(2) by simp_all
  have "lfree h = heap_end h \<or> lfree h \<in> set xs \<union> set ys \<and> hm_used (hp_mem h (lfree h)) = 0"
    using lf used by (auto simp: lfree_ok_def)
  then have "lfree_ok s ((xs @ [b]) @ c # ys)"
    using sf(2,4) S(9) [of "lfree h"] by (auto simp: lfree_ok_def)
  then have "lfree_ok h' (merged (hp_mem s) (xs @ [b]) c ys)"
    by (rule lfree_redirect [OF _ S(6) w]) (use h' sf in simp_all)
  then have "heap_ok h'" using heap_okI [OF h'(2)] by simp
  moreover have "live h' = (live h)(data_ptr h b := live h' (data_ptr h b))"
  proof (rule live_change [OF h'(3)])
    fix d assume d: "d \<noteq> b"
    show "d \<in> set (blocks h') \<and> hm_used (hp_mem h' d) \<noteq> 0 \<longleftrightarrow> d \<in> set (blocks h) \<and> hm_used (hp_mem h d) \<noteq> 0"
    proof (cases "d \<in> set xs \<union> set ys")
      case True
      then show ?thesis
        using merged_mem [of "hp_mem s" c d "xs @ [b]" ys, OF S(6)] h'(7) [of d] S(9) [OF True] d
        unfolding bl' bl by auto
    next
      case False
      then have "d \<notin> set (blocks h)" using d bl by auto
      moreover have "d \<in> set (blocks h') \<Longrightarrow> d = c"
        using False d unfolding bl' by (cases ys) (auto simp: merged_def split: if_splits)
      ultimately show ?thesis using h'(7) [of d] S(6) by auto
    qed
  next
    fix d assume "d \<noteq> b" "d \<in> set (blocks h)" "hm_used (hp_mem h d) \<noteq> 0"
    then show "hm_next (hp_mem h' d) = hm_next (hp_mem h d)" using h'(8) [of d] S(9) [of d] bl by auto
  qed
  moreover have "live h' (data_ptr h b) = Some (unat n)"
  proof -
    have "b \<in> set (blocks h')" using bl' by (simp add: merged_def)
    then show ?thesis
      using h'(3,7,8) S(7,8) used c live_data_ptr [of h' b] by (simp add: data_ptr_def)
  qed
  moreover have "lfree h' = (if free_head (hp_mem h) ys \<and> lfree h = hd ys then c else lfree h)"
    using h'(6) S(7) used unfolding redirect_def fh by simp
  moreover have "heap_shrink b n h = Some (Inl h')"
  proof -
    have "unat (n + 12 + 12) = unat n + 24"
      using sm unat_u32_less [of "hm_next (hp_mem h b)"] unat_word_plus_12 [of n] unat_word_plus_12 [of "n + 12"] by simp
    then have "?sz \<noteq> n" "n + 12 + 12 < ?sz" using sz sm by (auto simp: word_less_nat_alt)
    moreover have "plug_holes c ((split_block b c h)\<lparr>used_mem := used_mem h - (?sz - n)\<rparr>) = Some h'"
      using h'(1) by (simp add: s_def c_def diff_diff_eq add.assoc)
    ultimately show ?thesis
      by (simp add: heap_shrink_def Let_def split_block_used_mem c_def)
  qed
  moreover have "c \<in> set (blocks h')" "hm_used (hp_mem h' c) = 0"
    using bl' h'(7) S(6,7) used by (simp_all add: merged_def)
  moreover have "unat (used_mem h') + (unat (hm_next (hp_mem h b)) - unat b - 12 - unat n) = unat (used_mem h)"
    using S(11) h'(9) c by simp
  ultimately show ?thesis using h' by (intro exI [of _ h']) (simp add: c_def)
qed

end
