(* ===== verification/Heap_Correct.thy ===== *)
theory Heap_Correct
  imports Heap_Free Allocator
begin

text \<open>
  The heap of \<open>src/src/mem.c\<close> as its users see it: the routines with their checks and their semaphore, the
  interpretation of the \<open>allocator\<close> contract, and the properties.
\<close>

section \<open>The semaphore of the heap\<close>

text \<open>\<open>heap_ready\<close>: called from a thread, with the heap well formed and its semaphore free.\<close>

definition heap_ready :: "kstate \<Rightarrow> bool" where
  "heap_ready s \<longleftrightarrow> heap_ok (kheap s) \<and> rt_interrupt_nest s = 0 \<and> heap_sem s \<noteq> RT_NULL \<and>
     sem_value (sems s (heap_sem s)) = 1 \<and> tqs s (Susp (heap_sem s)) = []"

lemma heap_ready_kheap: "heap_ready s \<Longrightarrow> heap_ok h \<Longrightarrow> heap_ready (s\<lparr>kheap := h\<rparr>)"
  by (simp add: heap_ready_def)

lemma RT_DEBUG_NOT_IN_INTERRUPT_ready: "heap_ready s \<Longrightarrow> RT_DEBUG_NOT_IN_INTERRUPT s = Some ()"
  by (simp add: heap_ready_def RT_DEBUG_NOT_IN_INTERRUPT_def)

definition locked :: "kstate \<Rightarrow> kstate" where
  "locked s = set_sem (heap_sem s) 0 s"

lemma locked_fields [simp]: "kheap (locked s) = kheap s" "heap_sem (locked s) = heap_sem s"
  by (simp_all add: locked_def set_sem_def)

lemma heap_sem_take:
  assumes "heap_ready s"
  shows "rt_sem_take w (heap_sem s) (- 1) s = Some (RT_EOK, locked s)"
  using assms rt_sem_take_available [of "heap_sem s" s w "- 1"]
  by (simp add: heap_ready_def locked_def)

lemma heap_sem_release:
  assumes "heap_ready s"
  shows "rt_sem_release (heap_sem s) ((locked s)\<lparr>kheap := h\<rparr>) = Some (RT_EOK, s\<lparr>kheap := h\<rparr>)"
proof -
  have "(sems s)(heap_sem s := \<lparr>sem_value = 1\<rparr>) = sems s"
    using assms by (intro fun_upd_idem) (simp add: heap_ready_def)
  then show ?thesis
    using assms by (simp add: heap_ready_def rt_sem_release_def locked_def set_sem_def)
qed

lemma heap_sem_release':
  assumes "heap_ready s"
  shows "rt_sem_release (heap_sem s) (locked s) = Some (RT_EOK, s)"
proof -
  have "(locked s)\<lparr>kheap := kheap s\<rparr> = locked s" by (simp add: locked_def set_sem_def)
  moreover have "s\<lparr>kheap := kheap s\<rparr> = s" by simp
  ultimately show ?thesis using heap_sem_release [OF assms, of "kheap s"] by metis
qed

section \<open>\<open>rt_malloc\<close> and \<open>rt_free\<close>\<close>

lemma word_dvd_4: "4 dvd unat (x :: u32) \<Longrightarrow> x mod 4 = 0" "4 dvd unat (x :: u32) \<Longrightarrow> x AND 3 = 0"
proof -
  assume d: "4 dvd unat x"
  then show "x mod 4 = 0" by (simp add: word_arith_nat_mod)
  have "x AND 3 = take_bit 2 x" by (simp add: take_bit_eq_mask mask_eq_exp_minus_1)
  moreover have "unat (take_bit 2 x) = unat x mod 4" 
    using unsigned_take_bit_eq [where ?'a = nat, of 2 x] by (simp only: take_bit_eq_mod) simp
  ultimately show "x AND 3 = 0" using d by (simp add: unat_eq_zero [symmetric] del: unat_eq_zero)
qed

definition request :: "u32 \<Rightarrow> u32" where
  "request n = (if RT_ALIGN n 4 < 12 then 12 else RT_ALIGN n 4)"

lemma request_props:
  assumes "unat n \<le> 2 ^ 32 - 4" "RT_ALIGN n 4 \<le> mem_size_aligned h" "arena h"
  shows "request n \<le> mem_size_aligned h" "4 dvd unat (request n)" "unat n \<le> unat (request n)"
    "12 \<le> unat (request n)"
proof -
  have "12 \<le> unat (mem_size_aligned h)" using arenaD(1,2) [OF assms(3)] by simp
  then show "request n \<le> mem_size_aligned h" using assms(2) by (auto simp: request_def word_le_nat_alt)
  show "4 dvd unat (request n)" using RT_ALIGN_4_dvd [of n] by (simp add: request_def)
  have "unat n \<le> unat (RT_ALIGN n 4)" using RT_ALIGN_4 [OF assms(1)] by simp
  then show "unat n \<le> unat (request n)" "12 \<le> unat (request n)" by (auto simp: request_def word_less_nat_alt)
qed

lemma rt_malloc_ok:
  assumes rdy: "heap_ready s" and n: "unat n \<le> 2 ^ 32 - 4"
  defines "h \<equiv> kheap s"
  shows "\<exists>p h'. rt_malloc w n s = Some (p, s\<lparr>kheap := h'\<rparr>) \<and> heap_ok h' \<and>
    heap_ptr h' = heap_ptr h \<and> heap_end h' = heap_end h \<and> mem_size_aligned h' = mem_size_aligned h \<and>
    (if n = 0 \<or> mem_size_aligned h < RT_ALIGN n 4 \<or> first_fit (request n) h = None
     then p = RT_NULL \<and> h' = h
     else p = data_ptr h (the (first_fit (request n) h)) \<and> p \<noteq> RT_NULL \<and> 4 dvd unat p \<and>
       heap_malloc (request n) h = Some (first_fit (request n) h, h') \<and>
       live h p = None \<and> (\<exists>k. unat n \<le> k \<and> live h' = (live h)(p \<mapsto> k)))"
proof (cases "n = 0 \<or> mem_size_aligned h < RT_ALIGN n 4")
  case True
  then show ?thesis using rdy unfolding h_def
    by (intro exI [of _ RT_NULL] exI [of _ "kheap s"])
       (auto simp: rt_malloc_def RT_DEBUG_NOT_IN_INTERRUPT_ready heap_ready_def RT_DEBUG_NOT_IN_INTERRUPT_def)
next
  case False
  have ok: "heap_ok h" using rdy by (simp add: heap_ready_def h_def)
  then have ar: "arena h" using heap_coreD(1) by (auto simp: heap_ok_def)
  have "RT_ALIGN n 4 \<le> mem_size_aligned h" using False by auto
  note r = request_props [OF n this ar]
  obtain h' where h': "heap_malloc (request n) h = Some (first_fit (request n) h, h')" "heap_ok h'"
    "heap_ptr h' = heap_ptr h" "heap_end h' = heap_end h" "mem_size_aligned h' = mem_size_aligned h"
    "case first_fit (request n) h of None \<Rightarrow> h' = h
     | Some b \<Rightarrow> live h (data_ptr h b) = None \<and> b + SIZEOF_STRUCT_MEM + request n \<le> heap_end h \<and>
         (\<exists>k. unat (request n) \<le> k \<and> live h' = (live h)(data_ptr h b \<mapsto> k))"
    using heap_malloc_ok [OF ok r(1,2)] by blast
  have call: "rt_malloc w n s =
     (case first_fit (request n) h of None \<Rightarrow> Some (RT_NULL, s\<lparr>kheap := h'\<rparr>)
      | Some b \<Rightarrow> do {
          RT_ASSERT (heap_ptr h + b + 12 + request n \<le> heap_ptr h + heap_end h);
          RT_ASSERT ((heap_ptr h + b + 12) mod 4 = 0);
          RT_ASSERT ((heap_ptr h + b) AND 3 = 0);
          Some (heap_ptr h + b + 12, s\<lparr>kheap := h'\<rparr>) })"
    using False h'(1,3,4) heap_sem_release [OF rdy, of h'] heap_sem_take [OF rdy, of w]
      RT_DEBUG_NOT_IN_INTERRUPT_ready [OF rdy]
    unfolding h_def request_def rt_malloc_def Let_def
    by (simp cong: option.case_cong)
  show ?thesis
  proof (cases "first_fit (request n) h")
    case None
    then show ?thesis using call h' by (intro exI [of _ RT_NULL] exI [of _ h']) simp
  next
    case (Some b)
    have core: "heap_core h (blocks h)" using ok by (simp add: heap_ok_def)
    obtain xs ys where b: "blocks h = xs @ b # ys" "unat b + 12 + unat (request n) \<le> unat (hm_next (hp_mem h b))"
      by (rule first_fitD [OF core Some])
    have bin: "b \<in> set (blocks h)" using b(1) by simp
    note d = data_ptr_unat [OF core bin]
    have le: "unat b + 12 + unat (request n) \<le> unat (heap_end h)" using b(2) heap_wf(9) [OF core bin] by simp
    have "unat (heap_ptr h + b) = unat (heap_ptr h) + unat b"
      using le arenaD(3) [OF ar] by (intro unat_word_plus) simp
    then have "4 dvd unat (heap_ptr h + b)"
      using arenaD(4) [OF ar] heap_wf(5) [OF core bin] by (simp add: dvd_add)
    then have a3: "(heap_ptr h + b) AND 3 = 0" by (rule word_dvd_4)
    have a2: "(heap_ptr h + b + 12) mod 4 = 0" using word_dvd_4(1) [OF d(3)] by (simp add: data_ptr_def)
    have "unat (data_ptr h b + request n) = unat (data_ptr h b) + unat (request n)"
      by (rule unat_word_plus) (use d(1) le arenaD(3) [OF ar] in simp)
    moreover have "unat (heap_ptr h + heap_end h) = unat (heap_ptr h) + unat (heap_end h)"
      by (rule unat_word_plus) (use arenaD(3) [OF ar] in simp)
    ultimately have a1: "heap_ptr h + b + 12 + request n \<le> heap_ptr h + heap_end h"
      using d(1) le by (simp add: word_le_nat_alt data_ptr_def)
    have "data_ptr h b \<noteq> RT_NULL" using d(1) by auto
    moreover have "\<exists>k. unat n \<le> k \<and> live h' = (live h)(data_ptr h b \<mapsto> k)"
      using h'(6) Some r(3) by simp (metis le_trans)
    ultimately show ?thesis
      using call Some a1 a2 a3 h' False d(3) by (intro exI [of _ "data_ptr h b"] exI [of _ h']) (simp add: data_ptr_def)
  qed
qed

lemma rt_free_inside:
  assumes rdy: "heap_ready s" and p: "p \<noteq> RT_NULL" "p AND 3 = 0" "heap_ptr (kheap s) \<le> p"
    "p < heap_ptr (kheap s) + heap_end (kheap s)"
  shows "rt_free w p s =
    Option.bind (heap_free (p - SIZEOF_STRUCT_MEM - heap_ptr (kheap s)) (kheap s)) (\<lambda>h. Some (s\<lparr>kheap := h\<rparr>))"
proof -
  have "\<not> (p < heap_ptr (kheap s) \<or> heap_ptr (kheap s) + heap_end (kheap s) \<le> p)" using p(3,4) by auto
  then show ?thesis
    using p RT_DEBUG_NOT_IN_INTERRUPT_ready [OF rdy] heap_sem_take [OF rdy] heap_sem_release [OF rdy]
    by (simp add: rt_free_def cong: bind_option_cong)
qed

lemma live_inside:
  assumes "heap_ok h" "b \<in> set (blocks h)"
  shows "data_ptr h b \<noteq> RT_NULL" "data_ptr h b AND 3 = 0" "heap_ptr h \<le> data_ptr h b"
    "data_ptr h b < heap_ptr h + heap_end h"
proof -
  have core: "heap_core h (blocks h)" using assms(1) by (simp add: heap_ok_def)
  note d = data_ptr_unat [OF core assms(2)]
  have "unat (heap_ptr h + heap_end h) = unat (heap_ptr h) + unat (heap_end h)"
    by (rule unat_word_plus) (use arenaD(3) [OF heap_coreD(1) [OF core]] in simp)
  then show "data_ptr h b < heap_ptr h + heap_end h" "heap_ptr h \<le> data_ptr h b"
    using d(1) heap_wf(10) [OF core assms(2)] by (simp_all add: word_less_nat_alt word_le_nat_alt)
  show "data_ptr h b \<noteq> RT_NULL" using d(1) by auto
  show "data_ptr h b AND 3 = 0" by (rule word_dvd_4(2) [OF d(3)])
qed

lemma rt_free_call:
  assumes "heap_ready s" "p = data_ptr (kheap s) b" "b \<in> set (blocks (kheap s))"
  shows "rt_free w p s = Option.bind (heap_free b (kheap s)) (\<lambda>h. Some (s\<lparr>kheap := h\<rparr>))"
proof -
  have "heap_ok (kheap s)" using assms(1) by (simp add: heap_ready_def)
  from rt_free_inside [OF assms(1) live_inside [OF this assms(3)]] show ?thesis using assms(2) by simp
qed

section \<open>Freeing what was allocated\<close>

lemma neighbours_used:
  assumes "separated m (xs @ b # ys)" "hm_used (m b) = 0"
  shows "xs \<noteq> [] \<Longrightarrow> hm_used (m (last xs)) \<noteq> 0" "ys \<noteq> [] \<Longrightarrow> hm_used (m (hd ys)) \<noteq> 0"
  using assms by (auto simp: separated_append)

lemma tiles_next_unique:
  assumes "tiles m' 0 bs e" "tiles m 0 bs e" "b \<in> set bs"
  shows "hm_next (m' b) = hm_next (m b)"
proof -
  obtain xs ys where "bs = xs @ b # ys" using assms(3) by (meson split_list)
  then show ?thesis using tiles_next [of m' 0 xs b ys e] tiles_next [of m 0 xs b ys e] assms by simp
qed

lemma find_mem: "find P xs = Some x \<Longrightarrow> x \<in> set xs"
  by (auto simp: find_Some_iff)

lemma heap_malloc_free:
  assumes ok: "heap_ok h" and sz: "sz \<le> mem_size_aligned h" "4 dvd unat sz"
    and m: "heap_malloc sz h = Some (Some b, h1)"
  shows "\<exists>h2. heap_free b h1 = Some h2 \<and> heap_ok h2 \<and> blocks h2 = blocks h \<and> lfree h2 = lfree h \<and>
    used_mem h2 = used_mem h \<and> (\<forall>d \<in> set (blocks h). hm_used (hp_mem h2 d) = hm_used (hp_mem h d))"
proof -
  have core: "heap_core h (blocks h)" and lf: "lfree_ok h (blocks h)" using ok by (simp_all add: heap_ok_def)
  define t where "t = taken b sz h"
  have ff: "first_fit sz h = Some b" and h1: "h1 = t\<lparr>lfree := lfree_after b t (dropWhile (\<lambda>c. c \<noteq> b) (blocks t))\<rparr>"
    using heap_malloc_eq [OF core lf sz] m by (auto simp: t_def split: option.splits)
  have ok1: "heap_ok h1" using heap_malloc_ok [OF ok sz] m by auto
  obtain xs ys where b: "blocks h = xs @ b # ys" "hm_used (hp_mem h b) = 0"
    "unat b + 12 + unat sz \<le> unat (hm_next (hp_mem h b))" by (rule first_fitD [OF core ff])
  note core' = core [unfolded b(1)] and nb = neighbours_used [OF heap_coreD(3) [OF core [unfolded b(1)]] b(2)]
  note T = taken_core [OF core' b(2) sz b(3), folded t_def]
  obtain zs where zs: "after_take b sz h = b # zs" "zs = [] \<or> (\<exists>c. zs = [c])"
    by (cases "splits b sz h") (auto simp: after_take_def)
  have bl1: "blocks h1 = xs @ b # zs @ ys" using heap_coreD(5) [OF T(1)] h1 zs(1) by simp
  have m1: "hp_mem h1 = hp_mem t" "used_mem h1 = used_mem t" by (simp_all add: h1)
  have dist: "distinct (xs @ b # zs @ ys)" using heap_wf(3) [OF T(1)] zs(1) by simp
  have zf: "hm_used (hp_mem t d) = 0" if "d \<in> set zs" for d
    using T(5) [of d] that zs(1) dist by auto
  have "hm_used (hp_mem h1 b) \<noteq> 0" using T(2) m1 by simp
  from heap_free_ok [OF ok1 bl1 this] obtain h2 where h2: "heap_free b h1 = Some h2" "heap_ok h2"
    "blocks h2 = merged (hp_mem t) xs b (zs @ ys)"
    "lfree h2 = redirect (hp_mem t) xs b (zs @ ys) (if b < lfree h1 then b else lfree h1)"
    "\<And>d. hm_used (hp_mem h2 d) = (if d = b then 0 else hm_used (hp_mem t d))" "heap_end h2 = heap_end h1"
    unfolding m1 by blast
  have l: "\<not> free_head (hp_mem t) (rev xs)" using nb(1) T(4) [of "last xs"] by (auto simp: hd_rev)
  have r: "zs = [] \<Longrightarrow> \<not> free_head (hp_mem t) (zs @ ys)" using nb(2) T(4) [of "hd ys"] by auto
  have bl2: "blocks h2 = blocks h"
    using h2(3) l r zs(2) zf unfolding merged_def b(1) by auto
  have u2: "hm_used (hp_mem h2 d) = hm_used (hp_mem h d)" if "d \<in> set (blocks h)" for d
    using that h2(5) [of d] T(4) [of d] b(1,2) by auto
  have core2: "heap_core h2 (blocks h)" using h2(2) bl2 by (simp add: heap_ok_def)
  have e2: "heap_end h2 = heap_end h" using h2(6) by (simp add: h1 t_def)
  have "hm_next (hp_mem h2 d) = hm_next (hp_mem h d)" if "d \<in> set (blocks h)" for d
    by (rule tiles_next_unique [OF heap_wf(1) [OF core2, unfolded e2] heap_wf(1) [OF core] that])
  then have "used_bytes (hp_mem h2) (blocks h) = used_bytes (hp_mem h) (blocks h)"
    by (intro used_bytes_cong) (simp add: u2)
  then have "used_mem h2 = used_mem h"
    using heap_coreD(4) [OF core] heap_coreD(4) [OF core2] by (metis word_unat_eq_iff)
  moreover have "lfree h2 = lfree h"
  proof (cases "b = lfree h")
    case True
    have gt: "b < d" if "d \<in> set (zs @ ys) \<or> d = heap_end t" for d
    proof -
      have "b \<in> set (xs @ after_take b sz h @ ys)" by (simp add: zs(1))
      then have "unat b + 12 < unat (heap_end t)" "unat b + 12 \<le> unat (hm_next (hp_mem t b))"
        by (rule heap_wf(10,8) [OF T(1)])+
      moreover have "unat (hm_next (hp_mem t b)) \<le> unat d" if "d \<in> set (zs @ ys)"
        using that tiles_sorted [OF heap_wf(1) [OF T(1)]] zs(1) by (auto simp: sorted_wrt_append)
      ultimately show ?thesis using that by (auto simp: word_less_nat_alt)
    qed
    have "dropWhile (\<lambda>c. c \<noteq> b) (blocks t) = b # zs @ ys"
      using bl1 dist unfolding h1 blocks_lfree by (auto simp: dropWhile_append)
    then have "lfree h1 \<in> set (zs @ ys) \<or> lfree h1 = heap_end t"
      using True T(2) find_mem [of "\<lambda>b. hm_used (hp_mem t b) = 0" "zs @ ys"]
      by (auto simp: h1 lfree_after_def t_def split: option.splits)
    then have "b < lfree h1" by (rule gt)
    then show ?thesis using h2(4) l dist True by (cases "zs @ ys") (auto simp: redirect_def Let_def)
  next
    case False
    then have l1: "lfree h1 = lfree h" by (simp add: h1 lfree_after_def t_def)
    have "b \<in> set (from_lfree h)"
      using ff unfolding first_fit_def by (auto simp: find_Some_iff dest: set_takeWhileD nth_mem)
    then have lx: "lfree h \<in> set xs"
      using False b(1) heap_wf(3) [OF core'] by (rule_tac ccontr)
        (auto simp: from_lfree_def dropWhile_append dest: set_dropWhileD split: if_splits)
    then have "unat (lfree h) < unat b"
      using tiles_sorted [OF heap_wf(1) [OF core']] heap_wf(8) [OF core', of "lfree h"]
      by (auto simp: sorted_wrt_append)
    then have "\<not> b < lfree h" by (simp add: word_less_nat_alt)
    moreover have "lfree h \<notin> set (zs @ ys)" "lfree h \<noteq> b" using lx dist by auto
    ultimately show ?thesis using h2(4) l1 l by (cases "zs @ ys") (auto simp: redirect_def Let_def)
  qed
  ultimately show ?thesis using h2(1,2) bl2 u2 by blast
qed

section \<open>\<open>rt_free\<close> and \<open>rt_realloc\<close> of a live area\<close>

lemma rt_free_ok:
  assumes rdy: "heap_ready s" and l: "live (kheap s) p = Some k"
  shows "\<exists>h'. rt_free w p s = Some (s\<lparr>kheap := h'\<rparr>) \<and> heap_ok h' \<and> live h' = (live (kheap s))(p := None) \<and>
    heap_ptr h' = heap_ptr (kheap s) \<and> heap_end h' = heap_end (kheap s) \<and>
    mem_size_aligned h' = mem_size_aligned (kheap s)"
proof -
  have ok: "heap_ok (kheap s)" using rdy by (simp add: heap_ready_def)
  obtain b where b: "p = data_ptr (kheap s) b" "b \<in> set (blocks (kheap s))" "hm_used (hp_mem (kheap s) b) \<noteq> 0"
    by (rule live_cases [OF l])
  obtain xs ys where "blocks (kheap s) = xs @ b # ys" using b(2) by (meson split_list)
  from heap_free_ok [OF ok this b(3)] show ?thesis
    using rt_free_call [OF rdy b(1,2), of w] b(1) by auto
qed

text \<open>Shrinking counts the bytes as free; when \<open>lfree\<close> was at the end of the heap it stays there.\<close>

definition shrunk :: "nat \<Rightarrow> nat \<Rightarrow> heap \<Rightarrow> heap \<Rightarrow> bool" where
  "shrunk k n h h' \<longleftrightarrow> unat (used_mem h') + (k - n) = unat (used_mem h) \<and>
     (\<exists>c \<in> set (blocks h'). hm_used (hp_mem h' c) = 0) \<and>
     (lfree h = heap_end h \<longrightarrow> lfree h' = heap_end h')"

lemma heap_shrink_cases:
  assumes ok: "heap_ok h" and l: "live h p = Some k" and n: "4 dvd unat n" "n \<le> mem_size_aligned h"
  defines "b \<equiv> p - SIZEOF_STRUCT_MEM - heap_ptr h"
  shows "\<exists>r. heap_shrink b n h = Some r \<and>
    (if k = unat n then r = Inl h
     else if unat n + 24 < k
     then \<exists>h'. r = Inl h' \<and> heap_ok h' \<and> live h' = (live h)(p \<mapsto> unat n) \<and> shrunk k (unat n) h h'
     else \<exists>z. r = Inr z \<and> unat z = k)"
proof -
  obtain c where "p = data_ptr h c" "c \<in> set (blocks h)" "hm_used (hp_mem h c) \<noteq> 0"
    "k = unat (hm_next (hp_mem h c)) - unat c - 12" by (rule live_cases [OF l])
  moreover from this have "c = b" by (simp add: b_def)
  ultimately have b: "p = data_ptr h b" "b \<in> set (blocks h)" "hm_used (hp_mem h b) \<noteq> 0"
    "k = unat (hm_next (hp_mem h b)) - unat b - 12" by simp_all
  have core: "heap_core h (blocks h)" using ok by (simp add: heap_ok_def)
  have sz: "unat (hm_next (hp_mem h b) - b - 12) = k"
    using fits_nat(1) [OF core b(2)] b(4) by (simp add: diff_diff_eq)
  have lt: "unat n + 24 < 2 ^ 32"
    using n(2) arenaD(1,3) [OF heap_coreD(1) [OF core]] by (simp add: word_le_nat_alt)
  then have n24: "unat (n + 12 + 12) = unat n + 24"
    using unat_word_plus_12 [of n] unat_word_plus_12 [of "n + 12"] by simp
  obtain xs ys where bl: "blocks h = xs @ b # ys" using b(2) by (meson split_list)
  consider (same) "k = unat n" | (less) "unat n + 24 < k" | (other) "k \<noteq> unat n" "\<not> unat n + 24 < k" by blast
  then show ?thesis
  proof cases
    case same
    then have "hm_next (hp_mem h b) - b - 12 = n" using sz by (simp add: word_unat_eq_iff)
    then show ?thesis using same by (simp add: heap_shrink_def)
  next
    case less
    then have "unat b + 12 + unat n + 24 < unat (hm_next (hp_mem h b))" using b(4) by simp
    from heap_shrink_ok [OF ok bl b(3) n this] obtain h' where h': "heap_shrink b n h = Some (Inl h')" "heap_ok h'"
      "heap_end h' = heap_end h" "live h' = (live h)(p \<mapsto> unat n)"
      "lfree h' = (if free_head (hp_mem h) ys \<and> lfree h = hd ys then b + SIZEOF_STRUCT_MEM + n else lfree h)"
      "b + SIZEOF_STRUCT_MEM + n \<in> set (blocks h')" "hm_used (hp_mem h' (b + SIZEOF_STRUCT_MEM + n)) = 0"
      "unat (used_mem h') + (k - unat n) = unat (used_mem h)"
      unfolding b(1,4) by blast
    have "lfree h' = heap_end h'" if "lfree h = heap_end h"
      using h'(3,5) that heap_wf(4) [OF core] bl by (cases ys) auto
    then have "shrunk k (unat n) h h'" using h'(6-8) by (auto simp: shrunk_def)
    then show ?thesis using h' less by auto
  next
    case other
    then have "hm_next (hp_mem h b) - b - 12 \<noteq> n" "\<not> n + 12 + 12 < hm_next (hp_mem h b) - b - 12"
      using sz n24 by (auto simp: word_less_nat_alt)
    then show ?thesis using other sz by (simp add: heap_shrink_def Let_def)
  qed
qed

lemma live_fwd_safe:
  assumes "heap_ok h" "live h p = Some k" "live h q = Some j" "q \<noteq> p" "n \<le> k"
  shows "fwd_safe q p n"
proof -
  have "unat p + k \<le> 2 ^ 32"
    using live_bounds(2) [OF assms(1,2)] arenaD(3) heap_coreD(1) assms(1) by (fastforce simp: heap_ok_def)
  moreover have "unat p + k + 12 \<le> unat q \<or> unat q + j + 12 \<le> unat p"
    using live_disjoint [OF assms(1-3)] assms(4) by auto
  ultimately show ?thesis
    using assms(5) unat_word_minus [of p q] unat_minus_wrap [of q p] unat_u32_less [of p]
    by (cases "unat p \<le> unat q") (auto simp: fwd_safe_def)
qed

lemma realloc_move:
  assumes rdy: "heap_ready s" and l: "live (kheap s) p = Some k" and n: "unat n \<le> 2 ^ 32 - 4" and z: "unat z = k"
  shows "\<exists>q m' h'. do {
      (q, s) \<leftarrow> rt_malloc w2 n s;
      if q \<noteq> RT_NULL
      then do { let m = rt_memcpy q p (if z < n then z else n) m; s \<leftarrow> rt_free w3 p s; Some (q, m, s) }
      else Some (q, m, s) } = Some (q, m', s\<lparr>kheap := h'\<rparr>) \<and> heap_ok h' \<and>
    (q = RT_NULL \<and> h' = kheap s \<and> m' = m \<or>
     q \<noteq> RT_NULL \<and> live (kheap s) q = None \<and>
     (\<exists>j. unat n \<le> j \<and> live h' = (live (kheap s))(q \<mapsto> j, p := None)) \<and> m' = copy q p (min k (unat n)) m)"
proof -
  obtain q h1 where q: "rt_malloc w2 n s = Some (q, s\<lparr>kheap := h1\<rparr>)" "heap_ok h1"
    "q = RT_NULL \<and> h1 = kheap s \<or>
     q \<noteq> RT_NULL \<and> live (kheap s) q = None \<and> (\<exists>j. unat n \<le> j \<and> live h1 = (live (kheap s))(q \<mapsto> j))"
    using rt_malloc_ok [OF rdy n, of w2] by (auto split: if_splits)
  show ?thesis
  proof (cases "q = RT_NULL")
    case True
    then show ?thesis using q by (intro exI [of _ q] exI [of _ m] exI [of _ h1]) auto
  next
    case False
    then obtain j where j: "unat n \<le> j" "live h1 = (live (kheap s))(q \<mapsto> j)" "live (kheap s) q = None"
      using q(3) by auto
    have pq: "q \<noteq> p" using j(3) l by auto
    have l1: "live h1 p = Some k" "live h1 q = Some j" using j(2) l pq by auto
    let ?c = "if z < n then z else n"
    have c: "unat ?c = min k (unat n)" using z by (auto simp: word_less_nat_alt min_def)
    have "fwd_safe q p (unat ?c)" by (rule live_fwd_safe [OF q(2) l1 pq]) (simp add: c)
    then have cp: "rt_memcpy q p ?c m = copy q p (min k (unat n)) m" by (simp add: rt_memcpy_copy c)
    have "heap_ready (s\<lparr>kheap := h1\<rparr>)" by (rule heap_ready_kheap [OF rdy q(2)])
    from rt_free_ok [OF this, of p k w3] l1(1) obtain h2 where
      "rt_free w3 p (s\<lparr>kheap := h1\<rparr>) = Some (s\<lparr>kheap := h2\<rparr>)" "heap_ok h2" "live h2 = (live h1)(p := None)"
      by auto
    then show ?thesis
      using q(1) False cp j by (intro exI [of _ q] exI [of _ "copy q p (min k (unat n)) m"] exI [of _ h2]) auto
  qed
qed

lemma rt_realloc_ok:
  assumes rdy: "heap_ready s" and l: "live (kheap s) p = Some k" and n: "unat n \<le> 2 ^ 32 - 4"
  defines "h \<equiv> kheap s" and "n' \<equiv> unat (RT_ALIGN n 4)"
  shows "\<exists>q m' h'. rt_realloc w1 w2 w3 p n m s = Some (q, m', s\<lparr>kheap := h'\<rparr>) \<and> heap_ok h' \<and>
    (if unat (mem_size_aligned h) < n' then q = RT_NULL \<and> h' = h \<and> m' = m
     else if k = n' then q = p \<and> h' = h \<and> m' = m
     else if n' + 24 < k then q = p \<and> m' = m \<and> live h' = (live h)(p \<mapsto> n') \<and> shrunk k n' h h'
     else q = RT_NULL \<and> h' = h \<and> m' = m \<or>
       q \<noteq> RT_NULL \<and> live h q = None \<and> (\<exists>j. n' \<le> j \<and> live h' = (live h)(q \<mapsto> j, p := None)) \<and>
       m' = copy q p (min k n') m)"
proof -
  let ?n = "RT_ALIGN n 4"
  have ok: "heap_ok h" using rdy by (simp add: heap_ready_def h_def)
  have core: "heap_core h (blocks h)" using ok by (simp add: heap_ok_def)
  obtain b where b: "p = data_ptr h b" "b \<in> set (blocks h)" using live_cases [OF l [folded h_def]] by metis
  note i = live_inside [OF ok b(2), folded b(1)]
  have inside: "\<not> (p < heap_ptr h \<or> heap_ptr h + heap_end h \<le> p)" using i(3,4) by auto
  have p0: "p \<noteq> RT_NULL" by (rule i(1))
  show ?thesis
  proof (cases "mem_size_aligned h < ?n")
    case True
    then show ?thesis using ok RT_DEBUG_NOT_IN_INTERRUPT_ready [OF rdy] unfolding h_def
      by (intro exI [of _ RT_NULL] exI [of _ m] exI [of _ "kheap s"])
         (simp add: rt_realloc_def n'_def word_less_nat_alt h_def)
  next
    case False
    then have nle: "?n \<le> mem_size_aligned h" by simp
    obtain r where r: "heap_shrink (p - SIZEOF_STRUCT_MEM - heap_ptr h) ?n h = Some r"
      "if k = n' then r = Inl h
       else if n' + 24 < k then \<exists>h'. r = Inl h' \<and> heap_ok h' \<and> live h' = (live h)(p \<mapsto> n') \<and> shrunk k n' h h'
       else \<exists>z. r = Inr z \<and> unat z = k"
      using heap_shrink_cases [OF ok l [folded h_def] RT_ALIGN_4_dvd nle] unfolding n'_def by blast
    have call: "rt_realloc w1 w2 w3 p n m s = (case r of
         Inl h' \<Rightarrow> Some (p, m, s\<lparr>kheap := h'\<rparr>)
       | Inr z \<Rightarrow> do {
           (q, s) \<leftarrow> rt_malloc w2 ?n s;
           if q \<noteq> RT_NULL
           then do { let m = rt_memcpy q p (if z < ?n then z else ?n) m; s \<leftarrow> rt_free w3 p s; Some (q, m, s) }
           else Some (q, m, s) })"
      using False p0 inside r(1) RT_DEBUG_NOT_IN_INTERRUPT_ready [OF rdy] heap_sem_take [OF rdy, of w1]
        heap_sem_release [OF rdy] heap_sem_release' [OF rdy]
      by (simp add: rt_realloc_def h_def Let_def split: sum.split cong: if_cong)
    have le: "\<not> unat (mem_size_aligned h) < n'" using False by (simp add: n'_def word_less_nat_alt)
    consider (same) "k = n'" | (less) "n' + 24 < k" "k \<noteq> n'" | (move) "k \<noteq> n'" "\<not> n' + 24 < k" by blast
    then show ?thesis
    proof cases
      case same
      then show ?thesis using call r(2) ok le by (simp add: h_def)
    next
      case less
      then obtain h' where "r = Inl h'" "heap_ok h'" "live h' = (live h)(p \<mapsto> n')" "shrunk k n' h h'"
        using r(2) by auto
      then show ?thesis using call le less by (intro exI [of _ p] exI [of _ m] exI [of _ h']) simp
    next
      case move
      then obtain z where z: "r = Inr z" "unat z = k" using r(2) by auto
      have "unat ?n \<le> 2 ^ 32 - 4" using RT_ALIGN_4 [OF n] n by simp
      from realloc_move [OF rdy l this z(2), of w2 m w3, folded h_def n'_def] show ?thesis
        using call z(1) le move by auto
    qed
  qed
qed

end
