(* ===== verification/Heap_Props.thy ===== *)
theory Heap_Props
  imports Heap_Correct
begin

text \<open>
  The properties of the heap of \<open>src/src/mem.c\<close>, with the interpretation of the \<open>allocator\<close> contract on
  \<open>rt_malloc\<close> and \<open>rt_free\<close>.
\<close>

section \<open>The allocator contract\<close>

lemma unat_size_limit: "unat (n :: u32) \<le> 2 ^ 32 - 4 \<longleftrightarrow> n \<le> 0xfffffffc"
  by (simp add: word_le_nat_alt)

interpretation heap_allocator: allocator heap_ready "\<lambda>s. live (kheap s)" "\<lambda>_ n. n \<le> 0xfffffffc" "rt_malloc id" "rt_free id"
proof
  fix s p n q k
  assume "heap_ready s" "live (kheap s) p = Some n" "live (kheap s) q = Some k" "p \<noteq> q"
  then show "apart p n q k"
    using live_disjoint [of "kheap s" p n q k] by (auto simp: apart_def heap_ready_def)
next
  fix s and sz :: u32
  assume rdy: "heap_ready s" and sz: "sz \<le> 0xfffffffc"
  from sz have "unat sz \<le> 2 ^ 32 - 4" unfolding unat_size_limit .
  from rt_malloc_ok [OF rdy this, of id] obtain p h' where
    "rt_malloc id sz s = Some (p, s\<lparr>kheap := h'\<rparr>)" "heap_ok h'"
    "p = RT_NULL \<and> h' = kheap s \<or>
     p \<noteq> RT_NULL \<and> live (kheap s) p = None \<and> (\<exists>k. unat sz \<le> k \<and> live h' = (live (kheap s))(p \<mapsto> k))"
    by (auto split: if_splits)
  then show "\<exists>p s'. rt_malloc id sz s = Some (p, s') \<and> heap_ready s' \<and> (\<lambda>n. n \<le> 0xfffffffc) = (\<lambda>n. n \<le> (0xfffffffc :: u32)) \<and>
      (p = RT_NULL \<and> live (kheap s') = live (kheap s) \<or>
       p \<noteq> RT_NULL \<and> live (kheap s) p = None \<and> (\<exists>k. unat sz \<le> k \<and> live (kheap s') = (live (kheap s))(p \<mapsto> k)))"
    using heap_ready_kheap [OF rdy] by (intro exI [of _ p] exI [of _ "s\<lparr>kheap := h'\<rparr>"]) auto
next
  fix s p k
  assume rdy: "heap_ready s" and "live (kheap s) p = Some k"
  from rt_free_ok [OF this, of id] obtain h' where
    "rt_free id p s = Some (s\<lparr>kheap := h'\<rparr>)" "heap_ok h'" "live h' = (live (kheap s))(p := None)" by blast
  then show "\<exists>s'. rt_free id p s = Some s' \<and> heap_ready s' \<and> (\<lambda>n. n \<le> 0xfffffffc) = (\<lambda>n. n \<le> (0xfffffffc :: u32)) \<and>
      live (kheap s') = (live (kheap s))(p := None)"
    using heap_ready_kheap [OF rdy] by (intro exI [of _ "s\<lparr>kheap := h'\<rparr>"]) simp
qed

lemma heap_ready_arena: "heap_ready s \<Longrightarrow> arena (kheap s)"
  using heap_coreD(1) by (auto simp: heap_ready_def heap_ok_def)

section \<open>Initialisation\<close>

lemma heap_init_core:
  assumes "used_mem h = 0" "4 dvd unat b" "4 dvd unat e" "unat b + 36 \<le> unat e"
  defines "h' \<equiv> (heap_init b e h)\<lparr>lfree := 0\<rparr>"
  shows "heap_core h' [0]" "lfree_ok h' [0]" "hm_used (hp_mem h' 0) = 0"
    "mem_size_aligned h' = e - b - 24" "heap_ptr h' = b"
proof -
  let ?n = "e - b - 24"
  have n: "unat ?n = unat e - unat b - 24"
    using assms(4) unat_word_minus [of b e] unat_word_minus [of 24 "e - b"] by simp
  have e: "unat (?n + 12) = unat e - unat b - 12"
    using n assms(4) unat_u32_less [of e] by (subst unat_word_plus_12) simp_all
  have ne: "?n + 12 \<noteq> 0" using e assms(4) by auto
  have end_eq: "e - (12 + b) = ?n + 12" by simp
  have f: "heap_ptr h' = b" "heap_end h' = ?n + 12" "mem_size_aligned h' = ?n" "used_mem h' = 0" "lfree h' = 0"
    "hm_next (hp_mem h' 0) = ?n + 12" "hm_prev (hp_mem h' 0) = 0" "hm_used (hp_mem h' 0) = 0"
    "hm_magic (hp_mem h' 0) = HEAP_MAGIC" "hm_used (hp_mem h' (?n + 12)) = 1"
    using ne assms(1) unfolding h'_def heap_init_def Let_def by (simp_all del: diff_add_eq add: end_eq)
  then show "hm_used (hp_mem h' 0) = 0" "mem_size_aligned h' = e - b - 24" "heap_ptr h' = b" "lfree_ok h' [0]"
    by (simp_all add: lfree_ok_def)
  have "4 dvd unat e - unat b - 12" using assms(2-4) by (simp add: dvd_diff_nat)
  moreover have "tiles (hp_mem h') 0 [0] (heap_end h')" using f e assms(4) by simp
  ultimately show "heap_core h' [0]"
    using f n e assms(2,4) unat_u32_less [of e]
    by (auto simp: heap_core_def arena_def well_formed_def)
qed

lemma heap_init_ready:
  assumes "rt_interrupt_nest s = 0" "heap_sem s \<noteq> RT_NULL" "used_mem (kheap s) = 0"
    "unat (RT_ALIGN b 4) + 36 \<le> unat (RT_ALIGN_DOWN e 4)"
  shows "\<exists>s'. rt_system_heap_init b e s = Some s' \<and> heap_ready s' \<and> live (kheap s') = Map.empty \<and>
    blocks (kheap s') = [0] \<and> heap_ptr (kheap s') = RT_ALIGN b 4 \<and> lfree (kheap s') = 0 \<and>
    mem_size_aligned (kheap s') = RT_ALIGN_DOWN e 4 - RT_ALIGN b 4 - 24"
proof -
  let ?b = "RT_ALIGN b 4" and ?e = "RT_ALIGN_DOWN e 4"
  have e4: "4 dvd unat ?e" by (simp add: RT_ALIGN_DOWN_4 minus_mod_eq_mult_div)
  have "unat (?e - 24) = unat ?e - 24" using assms(4) unat_word_minus [of 24 ?e] by simp
  then have c: "24 < ?e" "?b \<le> ?e - 24" using assms(4) by (auto simp: word_less_nat_alt word_le_nat_alt)
  let ?h = "(heap_init ?b ?e (kheap s))\<lparr>lfree := 0\<rparr>"
  note H = heap_init_core [OF assms(3) RT_ALIGN_4_dvd [of b] e4 assms(4)]
  have ok: "heap_ok ?h" by (rule heap_okI [OF H(1,2)])
  have bl: "blocks ?h = [0]" by (rule heap_coreD(5) [OF H(1)])
  have "live ?h = Map.empty" using bl H(3) by (auto simp: live_def Let_def fun_eq_iff)
  then show ?thesis
    using c assms(1,2) ok bl H(4,5)
    by (simp add: rt_system_heap_init_def RT_DEBUG_NOT_IN_INTERRUPT_def rt_sem_init_def rt_object_init_def
        rt_object_get_information_def object_classes_def rt_ipc_object_init_def Let_def heap_ready_def set_object_def set_sem_def)
qed

text \<open>A state before the heap is set up, with the semaphore of the heap at \<open>0x500\<close>; the heap from \<open>0x1000\<close>
  to \<open>0x107c\<close>, one block of 100 bytes.\<close>

definition boot :: kstate where
  "boot = zero_state\<lparr>heap_sem := 0x500\<rparr>"

lemma boot_sel [simp]:
  "rt_interrupt_nest boot = 0" "heap_sem boot = 0x500" "used_mem (kheap boot) = 0"
  by (simp_all add: boot_def zero_state_def)

lemma boot_align: "RT_ALIGN 0x1000 4 = 0x1000" "RT_ALIGN_DOWN 0x107c 4 = 0x107c"
  by (simp_all add: RT_ALIGN_def RT_ALIGN_DOWN_def)

lemma boot_heap:
  obtains s where "rt_system_heap_init 0x1000 0x107c boot = Some s" "heap_ready s" "live (kheap s) = Map.empty"
    "blocks (kheap s) = [0]" "heap_ptr (kheap s) = 0x1000" "lfree (kheap s) = 0" "mem_size_aligned (kheap s) = 100"
  using heap_init_ready [of boot "0x1000" "0x107c"] by (auto simp: boot_align)

text \<open>Rounding up a size above \<open>0xfffffffc\<close> wraps to 0.\<close>

lemma rt_malloc_wraps:
  assumes "heap_ready s" "0xfffffffc < n"
  shows "rt_malloc w n s = rt_malloc w 12 s"
proof -
  have n: "4294967292 < unat n" using assms(2) by (simp add: word_less_nat_alt)
  have "unat (n + 3) = (unat n + 3) mod 4294967296" by (simp add: unat_word_ariths)
  also have "\<dots> = unat n + 3 - 4294967296" using n unat_u32_less [of n] by (simp add: le_mod_geq)
  finally have "unat (n + 3) < 3" using unat_u32_less [of n] by simp
  then have "RT_ALIGN n 4 = 0" by (simp add: RT_ALIGN_4_conv unat_eq_0 [symmetric] RT_ALIGN_DOWN_4 del: unat_eq_0)
  moreover have "RT_ALIGN 12 4 = 12" by (simp add: RT_ALIGN_def)
  moreover have "n \<noteq> 0" using n by auto
  moreover have "\<not> mem_size_aligned (kheap s) < 12"
    using arenaD(1,2) [OF heap_ready_arena [OF assms(1)]] by (simp add: word_less_nat_alt)
  ultimately show ?thesis by (simp add: rt_malloc_def)
qed

section \<open>Properties\<close>

text \<open>
  \<open>rt_system_heap_init\<close> builds a well-formed heap: from static storage that is zeroed, with at least 36
  bytes between the aligned ends, it leaves one free block that spans the arena, nothing allocated, and the
  semaphore of the heap free; an area of less than two headers is refused without any change.
\<close>

theorem rt_system_heap_init_correct:
  assumes "rt_interrupt_nest s = 0" "heap_sem s \<noteq> RT_NULL" "used_mem (kheap s) = 0"
  shows "(unat (RT_ALIGN b 4) + 36 \<le> unat (RT_ALIGN_DOWN e 4) \<longrightarrow>
      (\<exists>s'. rt_system_heap_init b e s = Some s' \<and> heap_ready s' \<and> live (kheap s') = Map.empty \<and>
         blocks (kheap s') = [0] \<and> mem_size_aligned (kheap s') = RT_ALIGN_DOWN e 4 - RT_ALIGN b 4 - 24)) \<and>
    (unat (RT_ALIGN_DOWN e 4) < unat (RT_ALIGN b 4) + 24 \<longrightarrow> rt_system_heap_init b e s = Some s)"
proof (intro conjI impI)
  assume "unat (RT_ALIGN b 4) + 36 \<le> unat (RT_ALIGN_DOWN e 4)"
  from heap_init_ready [OF assms this] show "\<exists>s'. rt_system_heap_init b e s = Some s' \<and> heap_ready s' \<and>
      live (kheap s') = Map.empty \<and> blocks (kheap s') = [0] \<and>
      mem_size_aligned (kheap s') = RT_ALIGN_DOWN e 4 - RT_ALIGN b 4 - 24" by blast
next
  let ?b = "RT_ALIGN b 4" and ?e = "RT_ALIGN_DOWN e 4"
  assume sm: "unat ?e < unat ?b + 24"
  have "\<not> (24 < ?e \<and> ?b \<le> ?e - 24)"
    using sm unat_word_minus [of 24 ?e] by (auto simp: word_less_nat_alt word_le_nat_alt)
  then show "rt_system_heap_init b e s = Some s"
    using assms(1) by (auto simp: rt_system_heap_init_def RT_DEBUG_NOT_IN_INTERRUPT_def)
qed

theorem rt_system_heap_init_correct_witness:
  "\<exists>s'. rt_system_heap_init 0x1000 0x107c boot = Some s' \<and> blocks (kheap s') = [0]"
  using rt_system_heap_init_correct [of boot "0x1000" "0x107c"] by (auto simp: boot_align)

text \<open>
  C17. Memory safety of \<open>rt_malloc\<close> and \<open>rt_free\<close>: on a fresh heap, any sequence of allocations and of
  releases of pointers still held runs to its end (no assertion fails, no search goes on for ever); the
  areas held at the end are pairwise disjoint and each as long as was asked for, they are exactly the live
  blocks, and the heap is well formed.
\<close>

theorem rt_malloc_free_safe:
  assumes "heap_ready s" "live (kheap s) = Map.empty" "\<forall>n. Alloc n \<in> set os \<longrightarrow> n \<le> 0xfffffffc"
  shows "\<exists>held s'. alloc_run (rt_malloc id) (rt_free id) os [] s = Some (held, s') \<and> heap_ready s' \<and>
    distinct (map fst held) \<and> dom (live (kheap s')) = fst ` set held \<and>
    (\<forall>(p, n) \<in> set held. \<forall>(q, k) \<in> set held. p \<noteq> q \<longrightarrow> apart p (unat n) q (unat k))"
  by (rule heap_allocator.run_safe [OF assms])

theorem rt_malloc_free_safe_witness:
  "\<exists>s held s'. rt_system_heap_init 0x1000 0x107c boot = Some s \<and>
     alloc_run (rt_malloc id) (rt_free id) [Alloc 16, Alloc 20, Release 1, Alloc 12] [] s = Some (held, s') \<and>
     heap_ready s'"
proof -
  obtain s where s: "rt_system_heap_init 0x1000 0x107c boot = Some s" "heap_ready s" "live (kheap s) = Map.empty"
    by (rule boot_heap)
  show ?thesis
    using rt_malloc_free_safe [OF s(2,3), of "[Alloc 16, Alloc 20, Release 1, Alloc 12]"] s(1) by auto
qed

text \<open>
  What \<open>rt_malloc\<close> returns: \<open>RT_NULL\<close> and no change for size 0, for a size above that of the arena and
  when no free block from \<open>lfree\<close> on that starts below the bound of the loop is long enough; otherwise the
  first such block, aligned, not live before, at least as long as asked for, and the only change to the live
  areas.  A request of more than \<open>0xfffffffc\<close> bytes is not refused: rounding it up wraps to 0, and the call
  is the same as a request for 12 bytes.
\<close>

theorem rt_malloc_first_fit:
  assumes "heap_ready s"
  shows "(n \<le> 0xfffffffc \<longrightarrow>
      (\<exists>p h'. rt_malloc w n s = Some (p, s\<lparr>kheap := h'\<rparr>) \<and> heap_ok h' \<and>
        (if n = 0 \<or> mem_size_aligned (kheap s) < RT_ALIGN n 4 \<or> first_fit (request n) (kheap s) = None
         then p = RT_NULL \<and> h' = kheap s
         else p = data_ptr (kheap s) (the (first_fit (request n) (kheap s))) \<and> p \<noteq> RT_NULL \<and> 4 dvd unat p \<and>
           live (kheap s) p = None \<and> (\<exists>k. unat n \<le> k \<and> live h' = (live (kheap s))(p \<mapsto> k))))) \<and>
    (0xfffffffc < n \<longrightarrow> rt_malloc w n s = rt_malloc w 12 s)"
proof (intro conjI impI)
  assume "n \<le> 0xfffffffc"
  then have "unat n \<le> 2 ^ 32 - 4" unfolding unat_size_limit .
  from rt_malloc_ok [OF assms this, of w]
  show "\<exists>p h'. rt_malloc w n s = Some (p, s\<lparr>kheap := h'\<rparr>) \<and> heap_ok h' \<and>
        (if n = 0 \<or> mem_size_aligned (kheap s) < RT_ALIGN n 4 \<or> first_fit (request n) (kheap s) = None
         then p = RT_NULL \<and> h' = kheap s
         else p = data_ptr (kheap s) (the (first_fit (request n) (kheap s))) \<and> p \<noteq> RT_NULL \<and> 4 dvd unat p \<and>
           live (kheap s) p = None \<and> (\<exists>k. unat n \<le> k \<and> live h' = (live (kheap s))(p \<mapsto> k)))"
    by (cases "n = 0 \<or> mem_size_aligned (kheap s) < RT_ALIGN n 4 \<or> first_fit (request n) (kheap s) = None")
       (simp_all only: if_True if_False, blast+)
qed (rule rt_malloc_wraps [OF assms])

lemma first_fit_boot:
  assumes "blocks (kheap s) = [0]" "lfree (kheap s) = 0" "mem_size_aligned (kheap s) = 100" "heap_ok (kheap s)"
    "live (kheap s) = Map.empty"
  shows "first_fit 16 (kheap s) = Some 0"
proof -
  have core: "heap_core (kheap s) [0]" using assms(1,4) by (simp add: heap_ok_def)
  have "hm_used (hp_mem (kheap s) 0) = 0"
    using live_data_ptr [of "kheap s" 0] assms(1,5) by (simp split: if_splits)
  moreover have "hm_next (hp_mem (kheap s) 0) = 112"
    using heap_wf(1) [OF core] heap_coreD(1) [OF core] assms(3) by (simp add: arena_def)
  ultimately show ?thesis
    using assms(1-3) by (simp add: first_fit_def from_lfree_def fit_at_def)
qed

lemma request_16: "request 16 = 16" "RT_ALIGN 16 4 = 16"
  by (simp_all add: request_def RT_ALIGN_def)

theorem rt_malloc_first_fit_witness:
  "\<exists>s h'. rt_system_heap_init 0x1000 0x107c boot = Some s \<and>
     rt_malloc id 16 s = Some (0x100c, s\<lparr>kheap := h'\<rparr>) \<and> live h' 0x100c \<noteq> None"
proof -
  obtain s where s: "rt_system_heap_init 0x1000 0x107c boot = Some s" "heap_ready s" "live (kheap s) = Map.empty"
    "blocks (kheap s) = [0]" "heap_ptr (kheap s) = 0x1000" "lfree (kheap s) = 0" "mem_size_aligned (kheap s) = 100"
    by (rule boot_heap)
  have "first_fit 16 (kheap s) = Some 0"
    using s by (intro first_fit_boot) (simp_all add: heap_ready_def)
  then show ?thesis
    using rt_malloc_first_fit [OF s(2), of 16 id] s by (auto simp: request_16 data_ptr_def)
qed

text \<open>
  C18. \<open>rt_free\<close> undoes \<open>rt_malloc\<close>: after an allocation that succeeded, freeing the pointer joins what was
  split, so that the list of blocks, their used flags, \<open>lfree\<close> and \<open>used_mem\<close> are what they were before.
\<close>

theorem rt_malloc_free_roundtrip:
  assumes "heap_ready s" "n \<le> 0xfffffffc" "rt_malloc w n s = Some (p, s1)" "p \<noteq> RT_NULL"
  shows "\<exists>h. rt_free w' p s1 = Some (s\<lparr>kheap := h\<rparr>) \<and> heap_ok h \<and> blocks h = blocks (kheap s) \<and>
    lfree h = lfree (kheap s) \<and> used_mem h = used_mem (kheap s) \<and> live h = live (kheap s) \<and>
    (\<forall>b \<in> set (blocks h). hm_used (hp_mem h b) = hm_used (hp_mem (kheap s) b))"
proof -
  let ?h = "kheap s"
  have ok: "heap_ok ?h" using assms(1) by (simp add: heap_ready_def)
  then have ar: "arena ?h" using heap_coreD(1) by (auto simp: heap_ok_def)
  have n: "unat n \<le> 2 ^ 32 - 4" using assms(2) unfolding unat_size_limit .
  from rt_malloc_ok [OF assms(1) n, of w] obtain h1 b k where h1: "s1 = s\<lparr>kheap := h1\<rparr>" "heap_ok h1"
    "p = data_ptr ?h b" "heap_ptr h1 = heap_ptr ?h" "RT_ALIGN n 4 \<le> mem_size_aligned ?h"
    "heap_malloc (request n) ?h = Some (Some b, h1)" "live ?h p = None" "live h1 = (live ?h)(p \<mapsto> k)"
    using assms(3,4) by (auto split: if_splits)
  note r = request_props(1,2) [OF n h1(5) ar]
  obtain h2 where h2: "heap_free b h1 = Some h2" "heap_ok h2" "blocks h2 = blocks ?h" "lfree h2 = lfree ?h"
    "used_mem h2 = used_mem ?h" "\<forall>d \<in> set (blocks ?h). hm_used (hp_mem h2 d) = hm_used (hp_mem ?h d)"
    using heap_malloc_free [OF ok r h1(6)] by blast
  have rdy: "heap_ready s1" using heap_ready_kheap [OF assms(1) h1(2)] h1(1) by simp
  have p: "p = data_ptr (kheap s1) b" using h1(1,3,4) by (simp add: data_ptr_def)
  moreover have "b \<in> set (blocks (kheap s1))"
    using h1(1,8) p live_data_ptr [of h1 b] by (auto split: if_splits)
  ultimately have free: "rt_free w' p s1 = Some (s\<lparr>kheap := h2\<rparr>)"
    using rt_free_call [OF rdy] h2(1) h1(1) by simp
  obtain h3 where h3: "rt_free w' p s1 = Some (s1\<lparr>kheap := h3\<rparr>)" "live h3 = (live h1)(p := None)"
    using rt_free_ok [OF rdy, of p k w'] h1(1,8) by auto
  have "kheap (s\<lparr>kheap := h2\<rparr>) = kheap (s1\<lparr>kheap := h3\<rparr>)" using free h3(1) by simp
  then have "live h2 = (live h1)(p := None)" using h3(2) by simp
  then have "live h2 = live ?h" using h1(7,8) by (auto simp: fun_eq_iff)
  then show ?thesis using free h2 by auto
qed

theorem rt_malloc_free_roundtrip_witness:
  "\<exists>s s1 h. rt_system_heap_init 0x1000 0x107c boot = Some s \<and> rt_malloc id 16 s = Some (0x100c, s1) \<and>
     rt_free id 0x100c s1 = Some (s\<lparr>kheap := h\<rparr>) \<and> blocks h = [0]"
proof -
  obtain s where s: "rt_system_heap_init 0x1000 0x107c boot = Some s" "heap_ready s" "live (kheap s) = Map.empty"
    "blocks (kheap s) = [0]" "heap_ptr (kheap s) = 0x1000" "lfree (kheap s) = 0" "mem_size_aligned (kheap s) = 100"
    by (rule boot_heap)
  have "first_fit 16 (kheap s) = Some 0"
    using s by (intro first_fit_boot) (simp_all add: heap_ready_def)
  then obtain s1 where "rt_malloc id 16 s = Some (0x100c, s1)"
    using rt_malloc_ok [OF s(2), of 16 id] s by (auto simp: request_16 data_ptr_def)
  then show ?thesis using rt_malloc_free_roundtrip [OF s(2), of 16 id "0x100c" s1 id] s by auto
qed

text \<open>
  What \<open>rt_free\<close> refuses: \<open>RT_NULL\<close> is ignored; a pointer that is not aligned or not inside the heap
  stops at an assertion; and so does a second \<open>rt_free\<close> of the same pointer right after the first.
\<close>

theorem rt_free_rejects:
  assumes "heap_ready s"
  shows "rt_free w RT_NULL s = Some s \<and>
    (p \<noteq> RT_NULL \<and> (p AND 3 \<noteq> 0 \<or> p < heap_ptr (kheap s) \<or> heap_ptr (kheap s) + heap_end (kheap s) \<le> p) \<longrightarrow>
       rt_free w p s = None) \<and>
    (live (kheap s) p \<noteq> None \<longrightarrow> (\<exists>s1. rt_free w p s = Some s1 \<and> rt_free w' p s1 = None))"
proof (intro conjI impI)
  have d: "RT_DEBUG_NOT_IN_INTERRUPT s = Some ()" by (rule RT_DEBUG_NOT_IN_INTERRUPT_ready [OF assms])
  then show "rt_free w RT_NULL s = Some s" by (simp add: rt_free_def)
  show "rt_free w p s = None"
    if "p \<noteq> RT_NULL \<and> (p AND 3 \<noteq> 0 \<or> p < heap_ptr (kheap s) \<or> heap_ptr (kheap s) + heap_end (kheap s) \<le> p)"
    using that d by (auto simp: rt_free_def RT_ASSERT_def)
next
  let ?h = "kheap s"
  have ok: "heap_ok ?h" using assms by (simp add: heap_ready_def)
  assume "live ?h p \<noteq> None"
  then obtain b where b: "p = data_ptr ?h b" "b \<in> set (blocks ?h)" "hm_used (hp_mem ?h b) \<noteq> 0"
    using live_cases by blast
  obtain xs ys where "blocks ?h = xs @ b # ys" using b(2) by (meson split_list)
  from heap_free_ok [OF ok this b(3)] obtain h' where h': "heap_free b ?h = Some h'" "heap_ok h'"
    "heap_ptr h' = heap_ptr ?h" "heap_end h' = heap_end ?h" "hm_used (hp_mem h' b) = 0" by auto
  have 1: "rt_free w p s = Some (s\<lparr>kheap := h'\<rparr>)" using rt_free_call [OF assms b(1,2)] h'(1) by simp
  note i = live_inside [OF ok b(2), folded b(1)]
  have "rt_free w' p (s\<lparr>kheap := h'\<rparr>) =
      Option.bind (heap_free b h') (\<lambda>h. Some (s\<lparr>kheap := h\<rparr>))"
    using rt_free_inside [OF heap_ready_kheap [OF assms h'(2)], of p w'] i h'(3,4) b(1) by simp
  then have "rt_free w' p (s\<lparr>kheap := h'\<rparr>) = None" using h'(5) by (simp add: heap_free_def RT_ASSERT_def)
  with 1 show "\<exists>s1. rt_free w p s = Some s1 \<and> rt_free w' p s1 = None" by blast
qed

theorem rt_free_rejects_witness:
  "\<exists>s. rt_system_heap_init 0x1000 0x107c boot = Some s \<and> rt_free id 0x100d s = None \<and> rt_free id 0x800 s = None"
proof -
  obtain s where s: "rt_system_heap_init 0x1000 0x107c boot = Some s" "heap_ready s" "heap_ptr (kheap s) = 0x1000"
    by (rule boot_heap)
  show ?thesis
    using rt_free_rejects [OF s(2), of id "0x100d"] rt_free_rejects [OF s(2), of id "0x800"] s(1,3) by auto
qed

text \<open>
  C19. \<open>rt_realloc\<close> of a live area of \<open>k\<close> bytes to \<open>n\<close> bytes (rounded up to \<open>n'\<close>), on every branch: more
  than the arena gives \<open>RT_NULL\<close>; the same size changes nothing; a much smaller size keeps the pointer,
  shortens the area to \<open>n'\<close>, counts the bytes cut off as free and leaves all bytes alone; otherwise the area moves to a fresh one, with the
  first \<open>min k n'\<close> bytes copied, no other byte changed and the old area freed, or, when there is no room,
  the call returns \<open>RT_NULL\<close> and the old area stays.  The heap stays well formed.
\<close>

theorem rt_realloc_correct:
  assumes "heap_ready s" "live (kheap s) p = Some k" "n \<le> 0xfffffffc" "n' = unat (RT_ALIGN n 4)"
  shows "\<exists>q m' h'. rt_realloc w1 w2 w3 p n m s = Some (q, m', s\<lparr>kheap := h'\<rparr>) \<and> heap_ok h' \<and>
    (if unat (mem_size_aligned (kheap s)) < n' then q = RT_NULL \<and> h' = kheap s \<and> m' = m
     else if k = n' then q = p \<and> h' = kheap s \<and> m' = m
     else if n' + 24 < k then q = p \<and> m' = m \<and> live h' = (live (kheap s))(p \<mapsto> n') \<and> shrunk k n' (kheap s) h'
     else q = RT_NULL \<and> h' = kheap s \<and> m' = m \<or>
       q \<noteq> RT_NULL \<and> live (kheap s) q = None \<and> (\<exists>j. n' \<le> j \<and> live h' = (live (kheap s))(q \<mapsto> j, p := None)) \<and>
       (\<forall>a. m' a = (if unat (a - q) < min k n' then m (p + (a - q)) else m a)))"
proof -
  have "unat n \<le> 2 ^ 32 - 4" using assms(3) unfolding unat_size_limit .
  from rt_realloc_ok [OF assms(1,2) this, of w1 w2 w3 m] show ?thesis
    unfolding assms(4) [symmetric] copy_def fun_eq_iff [of "_ :: bytes"] by blast
qed

text \<open>A heap whose one block, of 100 bytes at \<open>0x100c\<close>, is in use.\<close>

definition full_heap :: heap where
  "full_heap = \<lparr>hp_mem = (\<lambda>p. if p = 0 then \<lparr>hm_magic = HEAP_MAGIC, hm_used = 1, hm_next = 112, hm_prev = 0\<rparr>
       else \<lparr>hm_magic = HEAP_MAGIC, hm_used = 1, hm_next = 112, hm_prev = 112\<rparr>),
     heap_ptr = 0x1000, heap_end = 112, lfree = 112, mem_size_aligned = 100, used_mem = 112, max_mem = 112\<rparr>"

definition full_state :: kstate where
  "full_state = boot\<lparr>kheap := full_heap, sems := (\<lambda>_. \<lparr>sem_value = 1\<rparr>)\<rparr>"

lemma full_state_props:
  "heap_ready full_state" "live (kheap full_state) 0x100c = Some 100" "lfree (kheap full_state) = heap_end (kheap full_state)"
  "mem_size_aligned (kheap full_state) = 100"
proof -
  have core: "heap_core full_heap [0]"
    by (simp add: full_heap_def heap_core_def arena_def well_formed_def)
  have "blocks full_heap = [0]" by (rule heap_coreD(5) [OF core])
  then show "live (kheap full_state) 0x100c = Some 100"
    by (simp add: full_state_def live_def Let_def) (simp add: full_heap_def)
  have "heap_ok full_heap" by (rule heap_okI [OF core]) (simp add: lfree_ok_def full_heap_def)
  then show "heap_ready full_state" by (simp add: heap_ready_def full_state_def boot_def)
  show "lfree (kheap full_state) = heap_end (kheap full_state)" "mem_size_aligned (kheap full_state) = 100"
    by (simp_all add: full_state_def full_heap_def)
qed

theorem rt_realloc_correct_witness:
  "\<exists>h'. rt_realloc id id id 0x100c 12 (\<lambda>_. 7) full_state = Some (0x100c, \<lambda>_. 7, full_state\<lparr>kheap := h'\<rparr>) \<and>
     live h' 0x100c = Some 12"
proof -
  have a: "(12 :: nat) = unat (RT_ALIGN 12 4)" by (simp add: RT_ALIGN_def)
  obtain q m' h' where
    "rt_realloc id id id 0x100c 12 (\<lambda>_. 7) full_state = Some (q, m', full_state\<lparr>kheap := h'\<rparr>)"
    "q = 0x100c \<and> m' = (\<lambda>_. 7) \<and> live h' = (live (kheap full_state))(0x100c \<mapsto> 12) \<and>
       shrunk 100 12 (kheap full_state) h'"
    using rt_realloc_correct [OF full_state_props(1,2) _ a, of id id id "\<lambda>_. 7"]
    unfolding full_state_props(4) by (simp del: fun_upd_apply) blast
  then show ?thesis by (intro exI [of _ h']) simp
qed

lemma first_fit_end:
  assumes "heap_ok h" "lfree h = heap_end h"
  shows "first_fit sz h = None"
proof -
  have "heap_end h \<notin> set (blocks h)" using heap_wf(4) assms(1) by (auto simp: heap_ok_def)
  then have "from_lfree h = []" using assms(2) by (auto simp: from_lfree_def dropWhile_eq_Nil_conv)
  then show ?thesis by (simp add: first_fit_def)
qed

text \<open>
  \<open>rt_realloc\<close> does not lower \<open>lfree\<close>: when the heap was full and a block is shortened in place, more
  than 24 bytes become free and are counted as such, but \<open>lfree\<close> still points to the end of the heap, so
  every following \<open>rt_malloc\<close> returns \<open>RT_NULL\<close>.
\<close>

theorem rt_realloc_hides_freed_memory:
  assumes "heap_ready s" "live (kheap s) p = Some k" "n \<le> 0xfffffffc" "unat (RT_ALIGN n 4) + 24 < k"
    "RT_ALIGN n 4 \<le> mem_size_aligned (kheap s)" "lfree (kheap s) = heap_end (kheap s)"
  shows "\<exists>s'. rt_realloc w1 w2 w3 p n m s = Some (p, m, s') \<and>
    unat (used_mem (kheap s')) + 24 < unat (used_mem (kheap s)) \<and>
    (\<exists>c \<in> set (blocks (kheap s')). hm_used (hp_mem (kheap s') c) = 0) \<and>
    (\<forall>w z. z \<le> 0xfffffffc \<longrightarrow> rt_malloc w z s' = Some (RT_NULL, s'))"
proof -
  let ?n = "unat (RT_ALIGN n 4)"
  have "unat n \<le> 2 ^ 32 - 4" using assms(3) unfolding unat_size_limit .
  moreover have "\<not> unat (mem_size_aligned (kheap s)) < ?n" using assms(5) by (simp add: word_le_nat_alt)
  moreover have "k \<noteq> ?n" using assms(4) by simp
  ultimately obtain h' where h': "rt_realloc w1 w2 w3 p n m s = Some (p, m, s\<lparr>kheap := h'\<rparr>)" "heap_ok h'"
    "shrunk k ?n (kheap s) h'"
    using rt_realloc_ok [OF assms(1,2), of n w1 w2 w3 m] assms(4) by auto
  let ?s = "s\<lparr>kheap := h'\<rparr>"
  have rdy: "heap_ready ?s" by (rule heap_ready_kheap [OF assms(1) h'(2)])
  have "lfree h' = heap_end h'" using h'(3) assms(6) by (simp add: shrunk_def)
  then have ff: "first_fit z h' = None" for z by (rule first_fit_end [OF h'(2)])
  have "rt_malloc w z ?s = Some (RT_NULL, ?s)" if "z \<le> 0xfffffffc" for w z
  proof -
    have "unat z \<le> 2 ^ 32 - 4" using that unfolding unat_size_limit .
    from rt_malloc_ok [OF rdy this, of w] show ?thesis by (auto simp: ff)
  qed
  then show ?thesis using h'(1,3) assms(4) by (intro exI [of _ ?s]) (auto simp: shrunk_def)
qed

theorem rt_realloc_hides_freed_memory_witness:
  "\<exists>s'. rt_realloc id id id 0x100c 12 (\<lambda>_. 7) full_state = Some (0x100c, \<lambda>_. 7, s') \<and>
     unat (used_mem (kheap s')) + 24 < 112 \<and> rt_malloc id 8 s' = Some (RT_NULL, s')"
proof -
  have "RT_ALIGN 12 4 = 12" by (simp add: RT_ALIGN_def)
  moreover have "unat (used_mem (kheap full_state)) = 112" by (simp add: full_state_def full_heap_def)
  ultimately show ?thesis
    using rt_realloc_hides_freed_memory [OF full_state_props(1,2) _ _ _ full_state_props(3), of 12 id id id "\<lambda>_. 7"]
      full_state_props(4) by auto
qed

end
