(* ===== verification/Create.thy ===== *)
theory Create
  imports Message_Queue Mutex Event Mempool_Props Heap_Props
begin

text \<open>
  Kernel objects that live on the heap: \<open>rt_object_allocate\<close> and \<open>rt_object_delete\<close> of \<open>src/src/object.c\<close>, the
  \<open>create\<close> and \<open>delete\<close> routines of \<open>src/src/ipc.c\<close>, \<open>src/src/mempool.c\<close>, \<open>src/src/timer.c\<close> and
  \<open>src/src/thread.c\<close>, and the idle thread of \<open>src/src/idle.c\<close>, which frees the threads that ended.

  A routine that calls the heap takes one world for each call of \<open>rt_malloc\<close> and \<open>rt_free\<close>: what the rest of
  the system does when the call has to wait for the heap semaphore.  The address a control block gets is the
  one \<open>rt_malloc\<close> returns; its fields are what the stores hold at that address, so fields the code does not
  set keep what was there before.
\<close>

section \<open>Objects\<close>

text \<open>\<open>sizeof\<close> the control blocks of the nine classes on a 32-bit processor (pointers, enumerations and
  \<open>rt_err_t\<close> of four bytes), as listed in \<open>rt_object_container\<close>.\<close>

definition object_size :: "u8 \<Rightarrow> u32" where
  "object_size type = ([128, 32, 36, 32, 48, 52, 56, 68, 44] ! unat type)"

definition rt_object_allocate :: "world \<Rightarrow> u8 \<Rightarrow> u8 list \<Rightarrow> kstate \<Rightarrow> (ptr \<times> kstate) option" where
  "rt_object_allocate w type name s = do {
     RT_DEBUG_NOT_IN_INTERRUPT s;
     information \<leftarrow> rt_object_get_information type;
     (object, s) \<leftarrow> rt_malloc w (object_size type) s;
     if object = RT_NULL then Some (RT_NULL, s)
     else do {
       let s = set_object (At object) (\<lambda>r. r\<lparr>ob_type := type\<rparr>) s;
       let s = set_object (At object) (\<lambda>r. r\<lparr>ob_flag := 0\<rparr>) s;
       let s = set_object (At object) (\<lambda>r. r\<lparr>ob_name := name_copy RT_NAME_MAX name\<rparr>) s;
       Some (object, s\<lparr>containers := q_insert_after information (At object) (containers s)\<rparr>)
     }
   }"

definition rt_object_delete :: "world \<Rightarrow> ptr \<Rightarrow> kstate \<Rightarrow> kstate option" where
  "rt_object_delete w object s = do {
     RT_ASSERT (object \<noteq> RT_NULL);
     RT_ASSERT (ob_type (objects s (At object)) AND RT_Object_Class_Static = 0);
     let s = s\<lparr>containers := q_remove (At object) (containers s)\<rparr>;
     rt_free w object s
   }"

section \<open>Semaphores, mutexes and events\<close>

definition rt_sem_create :: "world \<Rightarrow> u8 list \<Rightarrow> u32 \<Rightarrow> u8 \<Rightarrow> kstate \<Rightarrow> (ptr \<times> kstate) option" where
  "rt_sem_create w name value flag s = do {
     RT_DEBUG_NOT_IN_INTERRUPT s;
     (sem, s) \<leftarrow> rt_object_allocate w RT_Object_Class_Semaphore name s;
     if sem = RT_NULL then Some (sem, s)
     else do {
       let (_, s) = rt_ipc_object_init sem s;
       let s = set_sem sem (ucast value) s;
       Some (sem, set_object (At sem) (\<lambda>r. r\<lparr>ob_flag := flag\<rparr>) s)
     }
   }"

definition rt_sem_delete :: "world \<Rightarrow> ptr \<Rightarrow> kstate \<Rightarrow> (rt_err_t \<times> kstate) option" where
  "rt_sem_delete w sem s = do {
     RT_DEBUG_NOT_IN_INTERRUPT s;
     RT_ASSERT (sem \<noteq> RT_NULL);
     s \<leftarrow> rt_ipc_list_resume_all (Susp sem) s;
     s \<leftarrow> rt_object_delete w sem s;
     Some (RT_EOK, s)
   }"

definition rt_mutex_create :: "world \<Rightarrow> u8 list \<Rightarrow> u8 \<Rightarrow> kstate \<Rightarrow> (ptr \<times> kstate) option" where
  "rt_mutex_create w name flag s = do {
     RT_DEBUG_NOT_IN_INTERRUPT s;
     (mutex, s) \<leftarrow> rt_object_allocate w RT_Object_Class_Mutex name s;
     if mutex = RT_NULL then Some (mutex, s)
     else do {
       let (_, s) = rt_ipc_object_init mutex s;
       let s = set_mutex mutex (\<lambda>m. m\<lparr>mtx_value := 1, mtx_owner := RT_NULL,
         mtx_original_priority := 0xff, mtx_hold := 0\<rparr>) s;
       Some (mutex, set_object (At mutex) (\<lambda>r. r\<lparr>ob_flag := flag\<rparr>) s)
     }
   }"

definition rt_mutex_delete :: "world \<Rightarrow> ptr \<Rightarrow> kstate \<Rightarrow> (rt_err_t \<times> kstate) option" where
  "rt_mutex_delete w mutex s = do {
     RT_DEBUG_NOT_IN_INTERRUPT s;
     RT_ASSERT (mutex \<noteq> RT_NULL);
     s \<leftarrow> rt_ipc_list_resume_all (Susp mutex) s;
     s \<leftarrow> rt_object_delete w mutex s;
     Some (RT_EOK, s)
   }"

definition rt_event_create :: "world \<Rightarrow> u8 list \<Rightarrow> u8 \<Rightarrow> kstate \<Rightarrow> (ptr \<times> kstate) option" where
  "rt_event_create w name flag s = do {
     RT_DEBUG_NOT_IN_INTERRUPT s;
     (event, s) \<leftarrow> rt_object_allocate w RT_Object_Class_Event name s;
     if event = RT_NULL then Some (event, s)
     else do {
       let s = set_object (At event) (\<lambda>r. r\<lparr>ob_flag := flag\<rparr>) s;
       let (_, s) = rt_ipc_object_init event s;
       Some (event, set_event event (\<lambda>_. 0) s)
     }
   }"

definition rt_event_delete :: "world \<Rightarrow> ptr \<Rightarrow> kstate \<Rightarrow> (rt_err_t \<times> kstate) option" where
  "rt_event_delete w event s = do {
     RT_ASSERT (event \<noteq> RT_NULL);
     RT_DEBUG_NOT_IN_INTERRUPT s;
     s \<leftarrow> rt_ipc_list_resume_all (Susp event) s;
     s \<leftarrow> rt_object_delete w event s;
     Some (RT_EOK, s)
   }"

section \<open>Mailboxes, message queues and memory pools\<close>

text \<open>\<open>words\<close> is what the area allocated for the mails holds.\<close>

definition rt_mb_create ::
  "world \<Rightarrow> world \<Rightarrow> world \<Rightarrow> u32 list \<Rightarrow> u8 list \<Rightarrow> rt_size_t \<Rightarrow> u8 \<Rightarrow> kstate \<Rightarrow> (ptr \<times> kstate) option" where
  "rt_mb_create w1 w2 w3 words name size0 flag s = do {
     RT_DEBUG_NOT_IN_INTERRUPT s;
     (mb, s) \<leftarrow> rt_object_allocate w1 RT_Object_Class_MailBox name s;
     if mb = RT_NULL then Some (mb, s)
     else do {
       let s = set_object (At mb) (\<lambda>r. r\<lparr>ob_flag := flag\<rparr>) s;
       let (_, s) = rt_ipc_object_init mb s;
       let s = set_mb mb ((mailboxes s mb)\<lparr>mb_size := ucast size0\<rparr>) s;
       (pool, s) \<leftarrow> rt_malloc w2 (ucast (mb_size (mailboxes s mb)) * 4) s;
       let s = set_mb mb ((mailboxes s mb)\<lparr>mb_pool_addr := pool, mb_msg_pool := words\<rparr>) s;
       if mb_pool_addr (mailboxes s mb) = RT_NULL
       then do {
         s \<leftarrow> rt_object_delete w3 mb s;
         Some (RT_NULL, s)
       }
       else do {
         let s = set_mb mb ((mailboxes s mb)\<lparr>mb_entry := 0, mb_in_offset := 0, mb_out_offset := 0\<rparr>) s;
         Some (mb, s\<lparr>tqs := (tqs s)(SuspSender mb := [])\<rparr>)
       }
     }
   }"

definition rt_mb_delete :: "world \<Rightarrow> world \<Rightarrow> ptr \<Rightarrow> kstate \<Rightarrow> (rt_err_t \<times> kstate) option" where
  "rt_mb_delete w1 w2 mb s = do {
     RT_DEBUG_NOT_IN_INTERRUPT s;
     RT_ASSERT (mb \<noteq> RT_NULL);
     s \<leftarrow> rt_ipc_list_resume_all (Susp mb) s;
     s \<leftarrow> rt_ipc_list_resume_all (SuspSender mb) s;
     s \<leftarrow> rt_free w1 (mb_pool_addr (mailboxes s mb)) s;
     s \<leftarrow> rt_object_delete w2 mb s;
     Some (RT_EOK, s)
   }"

definition rt_mq_delete :: "world \<Rightarrow> world \<Rightarrow> ptr \<Rightarrow> kstate \<Rightarrow> (rt_err_t \<times> kstate) option" where
  "rt_mq_delete w1 w2 mq s = do {
     RT_DEBUG_NOT_IN_INTERRUPT s;
     RT_ASSERT (mq \<noteq> RT_NULL);
     s \<leftarrow> rt_ipc_list_resume_all (Susp mq) s;
     s \<leftarrow> rt_free w1 (mq_msg_pool (mqs s mq)) s;
     s \<leftarrow> rt_object_delete w2 mq s;
     Some (RT_EOK, s)
   }"

definition rt_mq_create ::
  "world \<Rightarrow> world \<Rightarrow> world \<Rightarrow> world \<Rightarrow> u8 list \<Rightarrow> rt_size_t \<Rightarrow> rt_size_t \<Rightarrow> u8 \<Rightarrow> kstate \<Rightarrow> (ptr \<times> kstate) option" where
  "rt_mq_create w1 w2 w3 w4 name msg_size max_msgs flag s = do {
     RT_DEBUG_NOT_IN_INTERRUPT s;
     (mq, s) \<leftarrow> rt_object_allocate w1 RT_Object_Class_MessageQueue name s;
     if mq = RT_NULL then Some (mq, s)
     else do {
       let s = set_object (At mq) (\<lambda>r. r\<lparr>ob_flag := flag\<rparr>) s;
       let (_, s) = rt_ipc_object_init mq s;
       let s = set_mq mq (\<lambda>q. q\<lparr>mq_msg_size := ucast (RT_ALIGN msg_size RT_ALIGN_SIZE)\<rparr>) s;
       let s = set_mq mq (\<lambda>q. q\<lparr>mq_max_msgs := ucast max_msgs\<rparr>) s;
       (pool, s) \<leftarrow> rt_malloc w2 ((ucast (mq_msg_size (mqs s mq)) + 4) * ucast (mq_max_msgs (mqs s mq))) s;
       let s = set_mq mq (\<lambda>q. q\<lparr>mq_msg_pool := pool\<rparr>) s;
       if mq_msg_pool (mqs s mq) = RT_NULL
       then do {
         (_, s) \<leftarrow> rt_mq_delete w3 w4 mq s;
         Some (RT_NULL, s)
       }
       else do {
         let s = set_mq mq (\<lambda>q. q\<lparr>mq_msg_queue_head := RT_NULL, mq_msg_queue_tail := RT_NULL\<rparr>) s;
         let s = set_mq mq (\<lambda>q. q\<lparr>mq_msg_queue_free := RT_NULL\<rparr>) s;
         let s = mq_init_free (unat (mq_max_msgs (mqs s mq))) mq s;
         Some (mq, set_mq mq (\<lambda>q. q\<lparr>mq_entry := 0\<rparr>) s)
       }
     }
   }"

definition rt_mp_create ::
  "world \<Rightarrow> world \<Rightarrow> world \<Rightarrow> u8 list \<Rightarrow> rt_size_t \<Rightarrow> rt_size_t \<Rightarrow> kstate \<Rightarrow> (ptr \<times> kstate) option" where
  "rt_mp_create w1 w2 w3 name block_count block_size s = do {
     RT_DEBUG_NOT_IN_INTERRUPT s;
     (mp, s) \<leftarrow> rt_object_allocate w1 RT_Object_Class_MemPool name s;
     if mp = RT_NULL then Some (RT_NULL, s)
     else do {
       let block_size = RT_ALIGN block_size RT_ALIGN_SIZE;
       let s = set_mp mp (\<lambda>m. m\<lparr>mp_block_size := block_size\<rparr>) s;
       let s = set_mp mp (\<lambda>m. m\<lparr>mp_size := (block_size + 4) * block_count\<rparr>) s;
       (start, s) \<leftarrow> rt_malloc w2 ((block_size + 4) * block_count) s;
       let s = set_mp mp (\<lambda>m. m\<lparr>mp_start_address := start\<rparr>) s;
       if mp_start_address (mempools s mp) = RT_NULL
       then do {
         s \<leftarrow> rt_object_delete w3 mp s;
         Some (RT_NULL, s)
       }
       else do {
         let s = set_mp mp (\<lambda>m. m\<lparr>mp_block_total_count := block_count\<rparr>) s;
         let s = set_mp mp (\<lambda>m. m\<lparr>mp_block_free_count := mp_block_total_count m\<rparr>) s;
         let s = s\<lparr>tqs := (tqs s)(Susp mp := [])\<rparr>;
         let s = set_mp mp (\<lambda>m. m\<lparr>mp_suspend_thread_count := 0\<rparr>) s;
         Some (mp, mp_link_all mp s)
       }
     }
   }"

definition rt_mp_delete :: "world \<Rightarrow> world \<Rightarrow> ptr \<Rightarrow> kstate \<Rightarrow> (rt_err_t \<times> kstate) option" where
  "rt_mp_delete w1 w2 mp s = do {
     RT_DEBUG_NOT_IN_INTERRUPT s;
     RT_ASSERT (mp \<noteq> RT_NULL);
     s \<leftarrow> mp_wake_all mp s;
     s \<leftarrow> rt_free w1 (mp_start_address (mempools s mp)) s;
     s \<leftarrow> rt_object_delete w2 mp s;
     Some (RT_EOK, s)
   }"

section \<open>Timers and threads\<close>

definition rt_timer_create ::
  "world \<Rightarrow> u8 list \<Rightarrow> timeout_fn \<Rightarrow> ptr \<Rightarrow> rt_tick_t \<Rightarrow> u8 \<Rightarrow> kstate \<Rightarrow> (ptr \<times> kstate) option" where
  "rt_timer_create w name timeout parameter time flag s = do {
     (timer, s) \<leftarrow> rt_object_allocate w RT_Object_Class_Timer name s;
     if timer = RT_NULL then Some (RT_NULL, s)
     else Some (timer, rt_timer_init' (At timer) timeout parameter time flag s)
   }"

definition rt_timer_delete :: "world \<Rightarrow> ptr \<Rightarrow> kstate \<Rightarrow> (rt_err_t \<times> kstate) option" where
  "rt_timer_delete w timer s = do {
     RT_ASSERT (timer \<noteq> RT_NULL);
     let s = rt_timer_remove (At timer) s;
     s \<leftarrow> rt_object_delete w timer s;
     Some (- RT_EOK, s)
   }"

definition rt_thread_create ::
  "world \<Rightarrow> world \<Rightarrow> world \<Rightarrow> u8 list \<Rightarrow> ptr \<Rightarrow> ptr \<Rightarrow> u32 \<Rightarrow> u8 \<Rightarrow> u32 \<Rightarrow> kstate \<Rightarrow> (ptr \<times> kstate) option" where
  "rt_thread_create w1 w2 w3 name entry parameter stack_size priority tick s = do {
     (thread, s) \<leftarrow> rt_object_allocate w1 RT_Object_Class_Thread name s;
     if thread = RT_NULL then Some (RT_NULL, s)
     else do {
       (stack_start, s) \<leftarrow> rt_malloc w2 stack_size s;
       if stack_start = RT_NULL
       then do {
         s \<leftarrow> rt_object_delete w3 thread s;
         Some (RT_NULL, s)
       }
       else do {
         (_, s) \<leftarrow> rt_thread_init' thread entry parameter stack_start stack_size priority tick s;
         Some (thread, s)
       }
     }
   }"

section \<open>The idle thread\<close>

text \<open>
  \<open>rt_thread_idle_excute\<close>: the cleanup functions of threads are functions of the application,
  \<open>cleanup f t\<close> the call of the one at address \<open>f\<close> for thread \<open>t\<close>; \<open>ws\<close> numbers the worlds of the calls of
  \<open>rt_free\<close>.  The second look at the list, with interrupts off, sees what the first saw.
\<close>

partial_function (option) rt_thread_idle_excute ::
  "(ptr \<Rightarrow> ptr \<Rightarrow> kstate \<Rightarrow> kstate) \<Rightarrow> (nat \<Rightarrow> world) \<Rightarrow> nat \<Rightarrow> kstate \<Rightarrow> kstate option" where
  "rt_thread_idle_excute cleanup ws k s =
     (case tqs s Defunct of
        [] \<Rightarrow> Some s
      | thread # _ \<Rightarrow>
          Option.bind (RT_DEBUG_NOT_IN_INTERRUPT s) (\<lambda>_.
            let s = s\<lparr>tqs := q_remove thread (tqs s)\<rparr>;
                f = th_cleanup (threads s thread);
                s = (if f \<noteq> RT_NULL then cleanup f thread s else s)
            in Option.bind (rt_object_is_systemobject (At thread) s) (\<lambda>sys.
                 if sys then Some s
                 else Option.bind (rt_free (ws k) (th_stack_addr (threads s thread)) s) (\<lambda>s.
                      Option.bind (rt_object_delete (ws (Suc k)) thread s) (\<lambda>s.
                      rt_thread_idle_excute cleanup ws (Suc (Suc k)) s)))))"

abbreviation (input) IDLE_THREAD_STACK_SIZE :: u32 where "IDLE_THREAD_STACK_SIZE \<equiv> 256"

text \<open>\<open>"tidle"\<close>; \<open>idle\<close> and \<open>rt_thread_stack\<close> are the addresses of the statics, \<open>entry\<close> that of
  \<open>rt_thread_idle_entry\<close>.\<close>

definition idle_name :: "u8 list" where
  "idle_name = [116, 105, 100, 108, 101, 0]"

definition rt_thread_idle_init :: "ptr \<Rightarrow> ptr \<Rightarrow> ptr \<Rightarrow> kstate \<Rightarrow> kstate option" where
  "rt_thread_idle_init idle entry rt_thread_stack s = do {
     (_, s) \<leftarrow> rt_thread_init idle idle_name entry RT_NULL rt_thread_stack IDLE_THREAD_STACK_SIZE
       (of_nat RT_THREAD_PRIORITY_MAX - 1) 32 s;
     (_, s) \<leftarrow> rt_thread_startup idle s;
     Some s
   }"

end
