(* ===== verification/Create_Inv.thy ===== *)
theory Create_Inv
  imports Create
begin

text \<open>
  The invariant of the dynamic kernel objects, \<open>dyn_inv\<close>: the heap is well formed and its semaphore free, the
  thread lists are consistent, and nothing dangles: every control block on the heap that is registered in an
  object container, queued in a thread list or in the timer list is an area the heap has handed out.  Lemmas:
  what allocating, initialising, waking waiters and freeing keep of it.
\<close>

section \<open>The invariant\<close>

definition hlive :: "kstate \<Rightarrow> ptr \<Rightarrow> nat option" where
  "hlive s = live (kheap s)"

definition in_heap :: "kstate \<Rightarrow> ptr \<Rightarrow> bool" where
  "in_heap s p \<longleftrightarrow> heap_ptr (kheap s) \<le> p \<and> p < heap_ptr (kheap s) + heap_end (kheap s)"

text \<open>Threads that some list or the timer list knows.\<close>

definition queued :: "kstate \<Rightarrow> ptr \<Rightarrow> bool" where
  "queued s t \<longleftrightarrow> (\<exists>q. t \<in> set (tqs s q)) \<or> TmrOf t \<in> set (timer_list s)"

definition registered :: "kstate \<Rightarrow> oref \<Rightarrow> bool" where
  "registered s r \<longleftrightarrow> (\<exists>c. r \<in> set (containers s c))"

definition registry_ok :: "kstate \<Rightarrow> bool" where
  "registry_ok s \<longleftrightarrow> wf_queues (containers s) \<and>
     (\<forall>p. in_heap s p \<longrightarrow>
        (registered s (At p) \<longrightarrow> hlive s p \<noteq> None) \<and>
        (queued s p \<longrightarrow> At p \<in> set (containers s 0)) \<and>
        (registered s (TmrOf p) \<longrightarrow> At p \<in> set (containers s 0)) \<and>
        (At p \<in> set (timer_list s) \<longrightarrow> At p \<in> set (containers s 8)))"

definition dyn_inv :: "kstate \<Rightarrow> bool" where
  "dyn_inv s \<longleftrightarrow> heap_ready s \<and> thread_inv s \<and> \<not> in_heap s (heap_sem s) \<and> registry_ok s"

lemma dyn_invD:
  assumes "dyn_inv s"
  shows "heap_ready s" "thread_inv s" "\<not> in_heap s (heap_sem s)" "wf_queues (containers s)"
    "in_heap s p \<Longrightarrow> registered s (At p) \<Longrightarrow> hlive s p \<noteq> None"
    "in_heap s p \<Longrightarrow> queued s p \<Longrightarrow> At p \<in> set (containers s 0)"
    "in_heap s p \<Longrightarrow> registered s (TmrOf p) \<Longrightarrow> At p \<in> set (containers s 0)"
    "in_heap s p \<Longrightarrow> At p \<in> set (timer_list s) \<Longrightarrow> At p \<in> set (containers s 8)"
    "RT_DEBUG_NOT_IN_INTERRUPT s = Some ()"
  using assms by (auto simp: dyn_inv_def registry_ok_def RT_DEBUG_NOT_IN_INTERRUPT_ready)

lemma live_in_heap:
  assumes "heap_ok (kheap s)" "hlive s p \<noteq> None"
  shows "in_heap s p" "p \<noteq> RT_NULL"
proof -
  from assms(2) obtain n where "live (kheap s) p = Some n" by (auto simp: hlive_def)
  then show "in_heap s p" "p \<noteq> RT_NULL"
    by (auto elim!: live_cases simp: in_heap_def live_inside [OF assms(1)])
qed

lemma dyn_live_in_heap: "dyn_inv s \<Longrightarrow> hlive s p \<noteq> None \<Longrightarrow> in_heap s p \<and> p \<noteq> RT_NULL"
  using live_in_heap [of s p] by (simp add: dyn_inv_def heap_ready_def)

text \<open>A fresh address is known to no list.\<close>

lemma fresh_unknown:
  assumes "dyn_inv s" "in_heap s p" "hlive s p = None"
  shows "\<not> registered s (At p)" "\<not> queued s p" "\<not> registered s (TmrOf p)" "At p \<notin> set (timer_list s)"
  using assms dyn_invD(5-8) [OF assms(1,2)] by (auto simp: registered_def)

text \<open>An object of a class other than threads and timers is in no thread or timer list.\<close>

lemma class_unlinked:
  assumes "dyn_inv s" "hlive s p \<noteq> None" "At p \<in> set (containers s c)" "c \<noteq> 0"
  shows "\<not> queued s p" "\<not> registered s (TmrOf p)" "c \<noteq> 8 \<Longrightarrow> At p \<notin> set (timer_list s)"
  using assms(3,4) dyn_invD(6-8) [OF assms(1), of p] dyn_live_in_heap [OF assms(1,2)]
    wf_queuesD(2) [OF dyn_invD(4) [OF assms(1)], of "At p" c] by blast+

section \<open>Changes at one address\<close>

definition only_at :: "ptr \<Rightarrow> kstate \<Rightarrow> kstate \<Rightarrow> bool" where
  "only_at p s s' \<longleftrightarrow> kheap s' = kheap s \<and> heap_sem s' = heap_sem s \<and> containers s' = containers s \<and>
     rt_interrupt_nest s' = rt_interrupt_nest s \<and> timer_list s' = timer_list s \<and> ready_group s' = ready_group s \<and>
     (\<forall>q. tqs s' q = tqs s q \<or> q \<in> {Susp p, SuspSender p} \<and> tqs s' q = []) \<and>
     (\<forall>r. r \<noteq> At p \<and> r \<noteq> TmrOf p \<longrightarrow> objects s' r = objects s r \<and> timers s' r = timers s r) \<and>
     (\<forall>t. t \<noteq> p \<longrightarrow> threads s' t = threads s t \<and> sems s' t = sems s t \<and> mailboxes s' t = mailboxes s t \<and>
        mqs s' t = mqs s t \<and> mempools s' t = mempools s t \<and> mutexes s' t = mutexes s t \<and> events s' t = events s t)"

lemma only_at_trans: "only_at p s s1 \<Longrightarrow> only_at p s1 s2 \<Longrightarrow> only_at p s s2"
  unfolding only_at_def by (simp, metis)

text \<open>The thread invariant looks at queued threads only.\<close>

lemma thread_inv_local:
  assumes inv: "thread_inv s" and rg: "ready_group s' = ready_group s"
    and tq: "\<And>q. tqs s' q = tqs s q \<or> (\<forall>p. q \<noteq> Ready p) \<and> tqs s' q = []"
    and tl: "set (timer_list s') \<subseteq> set (timer_list s)"
    and th: "\<And>t. queued s t \<Longrightarrow> threads s' t = threads s t \<and> timers s' (TmrOf t) = timers s (TmrOf t) \<and>
      ob_flag (objects s' (TmrOf t)) = ob_flag (objects s (TmrOf t))"
    and tm: "\<And>p. At p \<in> set (timer_list s) \<Longrightarrow> timers s' (At p) = timers s (At p)"
  shows "thread_inv s'"
proof -
  have sub: "t \<in> set (tqs s q)" if "t \<in> set (tqs s' q)" for t q using tq [of q] that by auto
  have good: "good s' t = good s t" "activated s' (TmrOf t) = activated s (TmrOf t)" if "queued s t" for t
    using th [OF that] by (simp_all add: good_def periodic_def activated_def)
  have l: "queued s t" if "t \<in> set (tqs s q)" for t q using that by (auto simp: queued_def)
  note D = thread_invD [OF inv]
  show ?thesis
  proof (rule thread_invI)
    have "wf_queues (tqs s')"
    proof (rule wf_queuesI)
      show "distinct (tqs s' h)" for h using tq [of h] wf_queuesD(1) [OF ready_invD(1) [OF D(1)]] by auto
      show "h = h'" if "e \<in> set (tqs s' h)" "e \<in> set (tqs s' h')" for h h' e
        using sub that wf_queuesD(2) [OF ready_invD(1) [OF D(1)]] by blast
    qed
    moreover have "tqs s' (Ready p) = tqs s (Ready p)" for p using tq [of "Ready p"] by auto
    ultimately show "ready_inv s'" using D(1) th [OF l] rg by (simp add: ready_inv_def)
  next
    show "good s' t" if "t \<in> set (tqs s' q)" "q \<noteq> Defunct" for t q
      using D(2) [OF sub [OF that(1)] that(2)] good(1) [OF l [OF sub [OF that(1)]]] by simp
    show "th_stat (threads s' t) = RT_THREAD_SUSPEND" if "t \<in> set (tqs s' q)" "q \<noteq> Defunct" "\<And>p. q \<noteq> Ready p" for t q
      using D(3) [OF sub [OF that(1)] that(2,3)] th [OF l [OF sub [OF that(1)]]] by simp
    show "good s' t \<and> th_stat (threads s' t) = RT_THREAD_SUSPEND \<and> activated s' (TmrOf t)"
      if "TmrOf t \<in> set (timer_list s')" for t
    proof -
      have t: "TmrOf t \<in> set (timer_list s)" using that tl by blast
      then have "queued s t" by (simp add: queued_def)
      then show ?thesis using D(4) [OF t] good th by simp
    qed
    show "tm_timeout_func (timers s' (At p)) \<noteq> Thread_timeout" if "At p \<in> set (timer_list s')" for p
      using D(5) [of p] tm [of p] tl that by auto
  qed
qed

lemma only_at_fields:
  assumes "only_at p s s'"
  shows "kheap s' = kheap s" "heap_sem s' = heap_sem s" "containers s' = containers s"
    "rt_interrupt_nest s' = rt_interrupt_nest s" "timer_list s' = timer_list s" "hlive s' = hlive s"
    "in_heap s' = in_heap s" "registered s' = registered s" "queued s' t \<Longrightarrow> queued s t"
proof -
  have "t \<in> set (tqs s q)" if "t \<in> set (tqs s' q)" for q
    using assms that unfolding only_at_def by (metis empty_iff list.set(1))
  then show "queued s' t \<Longrightarrow> queued s t" using assms by (auto simp: queued_def only_at_def)
qed (use assms in \<open>auto simp: only_at_def hlive_def in_heap_def registered_def fun_eq_iff\<close>)

lemma dyn_inv_only_at_other:
  assumes inv: "dyn_inv s" and oa: "only_at p s s'" and p: "p \<noteq> heap_sem s" "\<not> queued s p" "At p \<notin> set (timer_list s)"
  shows "dyn_inv s'"
proof -
  note f = only_at_fields [OF oa]
  have "heap_ready s'"
    using dyn_invD(1) [OF inv] p(1) oa unfolding heap_ready_def only_at_def by (metis empty_iff insert_iff tq.inject(2) tq.distinct(7))
  moreover have "thread_inv s'"
  proof (rule thread_inv_local [OF dyn_invD(2) [OF inv]])
    show "ready_group s' = ready_group s" using oa by (simp add: only_at_def)
    show "tqs s' q = tqs s q \<or> (\<forall>p. q \<noteq> Ready p) \<and> tqs s' q = []" for q
      using oa unfolding only_at_def by blast
    show "threads s' t = threads s t \<and> timers s' (TmrOf t) = timers s (TmrOf t) \<and>
      ob_flag (objects s' (TmrOf t)) = ob_flag (objects s (TmrOf t))" if "queued s t" for t
      using oa that p(2) by (cases "t = p") (auto simp: only_at_def)
    show "timers s' (At q) = timers s (At q)" if "At q \<in> set (timer_list s)" for q
      using oa that p(3) by (cases "q = p") (auto simp: only_at_def)
  qed (simp add: f)
  moreover have "registry_ok s'"
    using inv f(9) unfolding dyn_inv_def registry_ok_def f by blast
  ultimately show ?thesis using dyn_invD(3) [OF inv] f by (simp add: dyn_inv_def)
qed

lemma dyn_inv_only_at:
  assumes "dyn_inv s" "only_at p s s'" "hlive s p \<noteq> None" "\<not> queued s p" "At p \<notin> set (timer_list s)"
  shows "dyn_inv s'"
proof -
  have "p \<noteq> heap_sem s" using dyn_live_in_heap [OF assms(1,3)] dyn_invD(3) [OF assms(1)] by auto
  then show ?thesis by (rule dyn_inv_only_at_other [OF assms(1,2) _ assms(4,5)])
qed

section \<open>Allocating and freeing\<close>

text \<open>Only the heap changes, and live areas that are registered stay live.\<close>

lemma dyn_inv_kheap:
  assumes inv: "dyn_inv s" and h: "heap_ok h" "heap_ptr h = heap_ptr (kheap s)" "heap_end h = heap_end (kheap s)"
    and l: "\<And>p. registered s (At p) \<Longrightarrow> live (kheap s) p \<noteq> None \<Longrightarrow> live h p \<noteq> None"
  shows "dyn_inv (s\<lparr>kheap := h\<rparr>)"
proof -
  let ?s = "s\<lparr>kheap := h\<rparr>"
  have "in_heap ?s = in_heap s" "registered ?s = registered s" "queued ?s = queued s"
    using h by (auto simp: in_heap_def registered_def queued_def fun_eq_iff)
  moreover have "hlive ?s p \<noteq> None" if "in_heap s p" "registered s (At p)" for p
    using l [OF that(2)] dyn_invD(5) [OF inv that] by (simp add: hlive_def)
  moreover have "thread_inv ?s = thread_inv s" by (rule thread_inv_cong) simp_all
  ultimately show ?thesis
    using inv heap_ready_kheap [OF dyn_invD(1) [OF inv] h(1)] by (simp add: dyn_inv_def registry_ok_def)
qed

lemma live_below:
  assumes "heap_ok h" "live h p = Some k"
  shows "unat p + k < 2 ^ 32"
proof -
  have core: "heap_core h (blocks h)" using assms(1) by (simp add: heap_ok_def)
  from assms(2) obtain b where "p = data_ptr h b" "b \<in> set (blocks h)" "k = unat (hm_next (hp_mem h b)) - unat b - 12"
    by (rule live_cases)
  then show ?thesis using data_ptr_unat(2) [OF core] arenaD(3) [OF heap_coreD(1) [OF core]] by fastforce
qed

text \<open>When \<open>rt_malloc\<close> finds no room, and the heap it leaves.\<close>

definition alloc_fails :: "u32 \<Rightarrow> heap \<Rightarrow> bool" where
  "alloc_fails n h \<longleftrightarrow> n = 0 \<or> mem_size_aligned h < RT_ALIGN n RT_ALIGN_SIZE \<or> first_fit (request n) h = None"

definition after_alloc :: "u32 \<Rightarrow> heap \<Rightarrow> heap" where
  "after_alloc n h = (if alloc_fails n h then h else snd (the (heap_malloc (request n) h)))"

lemma malloc_dyn:
  assumes inv: "dyn_inv s" and n: "n \<le> 0xfffffffc"
  shows "\<exists>p h'. rt_malloc w n s = Some (p, s\<lparr>kheap := h'\<rparr>) \<and> dyn_inv (s\<lparr>kheap := h'\<rparr>) \<and>
    in_heap (s\<lparr>kheap := h'\<rparr>) = in_heap s \<and>
    (p = RT_NULL \<and> h' = kheap s \<or>
     p \<noteq> RT_NULL \<and> n \<noteq> 0 \<and> in_heap s p \<and> hlive s p = None \<and>
       (\<exists>k \<ge> unat n. live h' = (hlive s)(p \<mapsto> k) \<and> unat p + k < 2 ^ 32)) \<and>
    (p = RT_NULL \<longleftrightarrow> alloc_fails n (kheap s)) \<and> h' = after_alloc n (kheap s)"
proof -
  from n have "unat n \<le> 2 ^ 32 - 4" unfolding unat_size_limit .
  from rt_malloc_ok [OF dyn_invD(1) [OF inv] this, of w] obtain p h' where
    m: "rt_malloc w n s = Some (p, s\<lparr>kheap := h'\<rparr>)" "heap_ok h'" "heap_ptr h' = heap_ptr (kheap s)"
      "heap_end h' = heap_end (kheap s)"
      "p = RT_NULL \<and> h' = kheap s \<or>
       p \<noteq> RT_NULL \<and> n \<noteq> 0 \<and> live (kheap s) p = None \<and> (\<exists>k \<ge> unat n. live h' = (live (kheap s))(p \<mapsto> k))"
      "p = RT_NULL \<longleftrightarrow> alloc_fails n (kheap s)" "h' = after_alloc n (kheap s)"
    by (cases "alloc_fails n (kheap s)") (auto 0 4 simp: alloc_fails_def after_alloc_def)
  have ih: "in_heap (s\<lparr>kheap := h'\<rparr>) = in_heap s" using m(3,4) by (simp add: in_heap_def fun_eq_iff)
  have "dyn_inv (s\<lparr>kheap := h'\<rparr>)"
    by (rule dyn_inv_kheap [OF inv m(2-4)]) (use m(5) in \<open>auto split: if_splits\<close>)
  moreover have "in_heap s p" if "p \<noteq> RT_NULL"
  proof -
    have "hlive (s\<lparr>kheap := h'\<rparr>) p \<noteq> None" using m(5) that by (auto simp: hlive_def)
    then have "in_heap (s\<lparr>kheap := h'\<rparr>) p" using live_in_heap(1) m(2) by simp
    then show ?thesis by (simp add: ih)
  qed
  moreover have "unat p + k < 2 ^ 32" if "live h' p = Some k" for k using live_below [OF m(2) that] .
  ultimately show ?thesis using m ih by (intro exI [of _ p] exI [of _ h']) (auto simp: hlive_def)
qed

lemma free_dyn:
  assumes inv: "dyn_inv s" and l: "hlive s p = Some k" and r: "\<not> registered s (At p)"
  shows "\<exists>h'. rt_free w p s = Some (s\<lparr>kheap := h'\<rparr>) \<and> dyn_inv (s\<lparr>kheap := h'\<rparr>) \<and>
    in_heap (s\<lparr>kheap := h'\<rparr>) = in_heap s \<and> live h' = (hlive s)(p := None)"
proof -
  from rt_free_ok [OF dyn_invD(1) [OF inv], of p k w] l obtain h' where
    f: "rt_free w p s = Some (s\<lparr>kheap := h'\<rparr>)" "heap_ok h'" "live h' = (live (kheap s))(p := None)"
      "heap_ptr h' = heap_ptr (kheap s)" "heap_end h' = heap_end (kheap s)"
    by (auto simp: hlive_def)
  have "dyn_inv (s\<lparr>kheap := h'\<rparr>)"
    by (rule dyn_inv_kheap [OF inv f(2,4,5)]) (use f(3) r in auto)
  then show ?thesis using f by (auto simp: hlive_def in_heap_def fun_eq_iff)
qed

lemma free_null: "dyn_inv s \<Longrightarrow> rt_free w RT_NULL s = Some s"
  by (simp add: rt_free_def dyn_invD(9))

text \<open>Registering a live object that nothing knows yet, and taking one out.\<close>

lemma dyn_inv_register:
  assumes inv: "dyn_inv s" and p: "hlive s p \<noteq> None" "\<not> registered s (At p)"
  shows "dyn_inv (s\<lparr>containers := q_insert_after c (At p) (containers s)\<rparr>)"
proof -
  let ?s = "s\<lparr>containers := q_insert_after c (At p) (containers s)\<rparr>"
  have u: "unlinked (At p) (containers s)" using p(2) by (auto simp: registered_def unlinked_def)
  have "registered ?s r \<longleftrightarrow> registered s r \<or> r = At p" for r by (auto simp: registered_def q_insert_after_def)
  moreover have "set (containers s d) \<subseteq> set (containers ?s d)" for d by (auto simp: q_insert_after_def)
  moreover have "in_heap ?s = in_heap s" "hlive ?s = hlive s" "queued ?s = queued s"
    by (auto simp: in_heap_def hlive_def queued_def fun_eq_iff)
  moreover have "thread_inv ?s = thread_inv s" by (rule thread_inv_cong) simp_all
  moreover have "heap_ready ?s = heap_ready s" by (simp add: heap_ready_def)
  moreover have "wf_queues (containers ?s)" using dyn_invD(4) [OF inv] u by auto
  ultimately show ?thesis using inv p(1) unfolding dyn_inv_def registry_ok_def by fastforce
qed

lemma dyn_inv_unregister:
  assumes inv: "dyn_inv s" and p: "\<not> queued s p" "\<not> registered s (TmrOf p)" "At p \<notin> set (timer_list s)"
  shows "dyn_inv (s\<lparr>containers := q_remove (At p) (containers s)\<rparr>)"
proof -
  let ?s = "s\<lparr>containers := q_remove (At p) (containers s)\<rparr>"
  have "registered ?s r \<longleftrightarrow> registered s r \<and> r \<noteq> At p" for r by (auto simp: registered_def q_remove_def)
  moreover have "At r \<in> set (containers ?s d) \<longleftrightarrow> At r \<in> set (containers s d) \<and> r \<noteq> p" for r d
    by (auto simp: q_remove_def)
  moreover have "in_heap ?s = in_heap s" "hlive ?s = hlive s" "queued ?s = queued s"
    by (auto simp: in_heap_def hlive_def queued_def fun_eq_iff)
  moreover have "thread_inv ?s = thread_inv s" by (rule thread_inv_cong) simp_all
  moreover have "heap_ready ?s = heap_ready s" by (simp add: heap_ready_def)
  moreover have "wf_queues (containers ?s)" using dyn_invD(4) [OF inv] by auto
  ultimately show ?thesis using inv p unfolding dyn_inv_def registry_ok_def by auto
qed

section \<open>\<open>rt_object_allocate\<close> and \<open>rt_object_delete\<close>\<close>

lemma object_size_small: "unat type < 9 \<Longrightarrow> object_size type \<le> 0xfffffffc \<and> 0 < object_size type"
proof -
  assume "unat type < 9"
  then have "object_size type \<in> set [128, 32, 36, 32, 48, 52, 56, 68, 44]"
    unfolding object_size_def by (intro nth_mem) simp
  then show ?thesis by auto
qed

definition fresh_object :: "u8 \<Rightarrow> u8 list \<Rightarrow> rt_object" where
  "fresh_object type name = \<lparr>ob_name = name_copy RT_NAME_MAX name, ob_type = type, ob_flag = 0\<rparr>"

lemma allocate_dyn:
  assumes inv: "dyn_inv s" and t: "unat type < 9"
  obtains (Failed) "rt_object_allocate w type name s = Some (RT_NULL, s)" "alloc_fails (object_size type) (kheap s)"
  | (Allocated) p s' where "rt_object_allocate w type name s = Some (p, s')" "dyn_inv s'" "p \<noteq> RT_NULL"
      "in_heap s p" "hlive s p = None" "\<exists>k \<ge> unat (object_size type). hlive s' = (hlive s)(p \<mapsto> k)"
      "containers s' = q_insert_after (unat type) (At p) (containers s)"
      "\<exists>h. s' = s\<lparr>kheap := h, objects := (objects s)(At p := fresh_object type name),
         containers := q_insert_after (unat type) (At p) (containers s)\<rparr>"
      "\<not> queued s' p" "At p \<notin> set (timer_list s')" "\<not> registered s' (TmrOf p)" "in_heap s' = in_heap s"
      "\<not> alloc_fails (object_size type) (kheap s)" "kheap s' = after_alloc (object_size type) (kheap s)"
proof -
  from malloc_dyn [OF inv, of "object_size type" w] object_size_small [OF t] obtain p h where
    m: "rt_malloc w (object_size type) s = Some (p, s\<lparr>kheap := h\<rparr>)" "dyn_inv (s\<lparr>kheap := h\<rparr>)"
      "in_heap (s\<lparr>kheap := h\<rparr>) = in_heap s"
      "p = RT_NULL \<and> h = kheap s \<or>
       p \<noteq> RT_NULL \<and> in_heap s p \<and> hlive s p = None \<and> (\<exists>k \<ge> unat (object_size type). live h = (hlive s)(p \<mapsto> k))"
      "p = RT_NULL \<longleftrightarrow> alloc_fails (object_size type) (kheap s)" "h = after_alloc (object_size type) (kheap s)"
    by blast
  show thesis
  proof (cases "p = RT_NULL")
    case True
    then have "rt_object_allocate w type name s = Some (RT_NULL, s)"
      using m t by (auto simp: rt_object_allocate_def dyn_invD(9) [OF inv] rt_object_get_information_def object_classes_def)
    then show ?thesis by (rule Failed) (use m(5) True in simp)
  next
    case False
    let ?s1 = "s\<lparr>kheap := h\<rparr>"
    let ?s2 = "?s1\<lparr>objects := (objects s)(At p := fresh_object type name)\<rparr>"
    let ?s3 = "?s2\<lparr>containers := q_insert_after (unat type) (At p) (containers s)\<rparr>"
    have p: "in_heap s p" "hlive s p = None" "hlive ?s1 p \<noteq> None" using m(4) False by (auto simp: hlive_def)
    note u = fresh_unknown [OF inv p(1,2)]
    have eqs: "queued ?s3 p = queued s p" "queued ?s1 p = queued s p" "registered ?s2 (At p) = registered s (At p)"
      "hlive ?s2 = hlive ?s1" "hlive ?s3 = hlive ?s1" "in_heap ?s3 = in_heap ?s1"
      by (auto simp: queued_def registered_def hlive_def in_heap_def fun_eq_iff)
    have "only_at p ?s1 ?s2" by (simp add: only_at_def)
    then have "dyn_inv ?s2" using dyn_inv_only_at [OF m(2) _ p(3)] u eqs by simp
    from dyn_inv_register [OF this, of p "unat type"] have d: "dyn_inv ?s3" using u p(3) eqs by simp
    have "(objects s (At p))\<lparr>ob_type := type, ob_flag := 0, ob_name := name_copy RT_NAME_MAX name\<rparr> = fresh_object type name"
      by (cases "objects s (At p)") (simp add: fresh_object_def)
    then have call: "rt_object_allocate w type name s = Some (p, ?s3)"
      using m(1) t False
      by (simp add: rt_object_allocate_def dyn_invD(9) [OF inv] rt_object_get_information_def object_classes_def
          set_object_def)
    show ?thesis
    proof (rule Allocated [OF call d False p(1,2)])
      show "\<exists>k\<ge>unat (object_size type). hlive ?s3 = (hlive s)(p \<mapsto> k)" using m(4) False by (auto simp: hlive_def)
      show "\<exists>h. ?s3 = s\<lparr>kheap := h, objects := (objects s)(At p := fresh_object type name),
         containers := q_insert_after (unat type) (At p) (containers s)\<rparr>" by (intro exI [of _ h]) simp
      show "\<not> registered ?s3 (TmrOf p)" using u(3) by (auto simp: registered_def q_insert_after_def)
      show "in_heap ?s3 = in_heap s" using eqs(6) m(3) by simp
    qed (use u eqs m(5,6) False in simp_all)
  qed
qed

lemma delete_dyn:
  assumes inv: "dyn_inv s" and l: "hlive s p = Some k" and st: "ob_type (objects s (At p)) AND 0x80 = 0"
    and u: "\<not> queued s p" "\<not> registered s (TmrOf p)" "At p \<notin> set (timer_list s)"
  shows "\<exists>h'. rt_object_delete w p s = Some (s\<lparr>containers := q_remove (At p) (containers s), kheap := h'\<rparr>) \<and>
    dyn_inv (s\<lparr>containers := q_remove (At p) (containers s), kheap := h'\<rparr>) \<and> live h' = (hlive s)(p := None)"
proof -
  let ?s = "s\<lparr>containers := q_remove (At p) (containers s)\<rparr>"
  have "p \<noteq> RT_NULL" using dyn_live_in_heap [OF inv, of p] l by simp
  moreover have "dyn_inv ?s" by (rule dyn_inv_unregister [OF inv u])
  moreover have "hlive ?s = hlive s" "\<not> registered ?s (At p)" by (auto simp: hlive_def registered_def q_remove_def)
  ultimately show ?thesis
    using free_dyn [of ?s p k w] l st by (auto simp: rt_object_delete_def)
qed

section \<open>Waking the waiters\<close>

lemma waking_dyn:
  assumes inv: "dyn_inv s" and t: "thread_inv s'" and w: "waking_frame s s'" and c: "containers s' = containers s"
    and r: "sems s' (heap_sem s) = sems s (heap_sem s)" "tqs s' (Susp (heap_sem s)) = tqs s (Susp (heap_sem s))"
      "rt_interrupt_nest s' = rt_interrupt_nest s"
  shows "dyn_inv s'" "hlive s' = hlive s" "in_heap s' = in_heap s" "registered s' = registered s"
    "queued s' p \<Longrightarrow> queued s p" "set (timer_list s') \<subseteq> set (timer_list s)"
proof -
  note f = w [unfolded waking_frame_def]
  show e: "hlive s' = hlive s" "in_heap s' = in_heap s" "registered s' = registered s"
    "queued s' p \<Longrightarrow> queued s p" "set (timer_list s') \<subseteq> set (timer_list s)" for p
    using f c by (auto simp: hlive_def in_heap_def registered_def queued_def fun_eq_iff)
  have "heap_ready s'" using dyn_invD(1) [OF inv] f r by (simp add: heap_ready_def)
  moreover have "registry_ok s'"
    unfolding registry_ok_def e(1-3) c
    using dyn_invD(4-8) [OF inv] e(4,5) by (simp add: subset_iff)
  ultimately show "dyn_inv s'" using t dyn_invD(3) [OF inv] e(2) f by (simp add: dyn_inv_def)
qed

lemma resume_all_dyn:
  assumes inv: "dyn_inv s" and l: "wait_list l" "l \<noteq> Susp (heap_sem s)"
  obtains s' where "rt_ipc_list_resume_all l s = Some s'" "dyn_inv s'" "hlive s' = hlive s"
    "containers s' = containers s" "mailboxes s' = mailboxes s" "mqs s' = mqs s" "waking_frame s s'"
    "\<And>t. threads s' t = (if t \<in> set (tqs s l)
       then (threads s t)\<lparr>th_stat := RT_THREAD_READY, th_error := - RT_ERROR\<rparr> else threads s t)"
    "heap_sem s' = heap_sem s"
proof -
  from rt_ipc_list_resume_all_total [OF dyn_invD(2) [OF inv] l(1)] obtain s' where s':
    "rt_ipc_list_resume_all l s = Some s'" "thread_inv s'" "waking_frame s s'" "containers s' = containers s"
    "sems s' = sems s" "tqs s' (Susp (heap_sem s)) = tqs s (Susp (heap_sem s))" "rt_interrupt_nest s' = rt_interrupt_nest s"
    "mailboxes s' = mailboxes s" "mqs s' = mqs s"
    "\<forall>t. threads s' t = (if t \<in> set (tqs s l)
       then (threads s t)\<lparr>th_stat := RT_THREAD_READY, th_error := - RT_ERROR\<rparr> else threads s t)"
    using l by (metis wait_list_simps(1))
  note d = waking_dyn [OF inv s'(2,3,4) _ s'(6,7)]
  show thesis
    by (rule that [OF s'(1)]) (use s' d in \<open>auto simp: waking_frame_def\<close>)
qed

lemma set_mp_more [simp]:
  "containers (set_mp mp f s) = containers s" "sems (set_mp mp f s) = sems s" "mailboxes (set_mp mp f s) = mailboxes s"
  "mqs (set_mp mp f s) = mqs s" "mutexes (set_mp mp f s) = mutexes s" "events (set_mp mp f s) = events s"
  "kheap (set_mp mp f s) = kheap s" "heap_sem (set_mp mp f s) = heap_sem s" "threads (set_mp mp f s) = threads s"
  by (simp_all add: set_mp_def)

lemma mp_wake_all_total:
  assumes "thread_inv s"
  shows "\<exists>s'. mp_wake_all mp s = Some s' \<and> thread_inv s' \<and> containers s' = containers s \<and> sems s' = sems s \<and>
    (\<forall>q. wait_list q \<and> q \<noteq> Susp mp \<longrightarrow> tqs s' q = tqs s q) \<and> rt_interrupt_nest s' = rt_interrupt_nest s \<and>
    waking_frame (s\<lparr>mempools := mempools s'\<rparr>) s' \<and> mailboxes s' = mailboxes s \<and> mqs s' = mqs s \<and>
    (\<forall>p. p \<noteq> mp \<longrightarrow> mempools s' p = mempools s p) \<and>
    mp_start_address (mempools s' mp) = mp_start_address (mempools s mp)"
  using assms
proof (induction "tqs s (Susp mp)" arbitrary: s)
  case Nil
  then show ?case by (subst mp_wake_all.simps) (auto simp: waking_frame_def)
next
  case (Cons t ts)
  let ?s = "set_thread t (\<lambda>th. th\<lparr>th_error := - RT_ERROR\<rparr>) s"
  let ?d = "set_mp mp (\<lambda>m. m\<lparr>mp_suspend_thread_count := mp_suspend_thread_count m - 1\<rparr>)"
  have inv: "thread_inv ?s" using Cons(3) by simp
  have l: "tqs ?s (Susp mp) = t # ts" using Cons(2) by simp
  note r = rt_ipc_list_resume_eq [OF inv wait_list_simps(1) l]
  have other: "t \<notin> set (tqs s q)" if "q \<noteq> Susp mp" for q
    using that wf_queuesD(2) [OF ready_invD(1) [OF thread_invD(1) [OF Cons(3)]], of t "Susp mp" q] Cons(2)
    by (metis list.set_intros(1))
  have step: "mp_wake_all mp s = mp_wake_all mp (?d (resumed t ?s))"
    using Cons(2) [symmetric] rt_thread_resume_eq [OF r(2,3)] by (subst mp_wake_all.simps) simp
  have "ts = tqs (?d (resumed t ?s)) (Susp mp)" "thread_inv (?d (resumed t ?s))" using r(4,6) by simp_all
  from Cons(1) [OF this] obtain s' where s':
    "mp_wake_all mp (?d (resumed t ?s)) = Some s'" "thread_inv s'" "containers s' = containers s" "sems s' = sems s"
    "\<forall>q. wait_list q \<and> q \<noteq> Susp mp \<longrightarrow> tqs s' q = tqs (resumed t ?s) q"
    "rt_interrupt_nest s' = rt_interrupt_nest s" "waking_frame ((?d (resumed t ?s))\<lparr>mempools := mempools s'\<rparr>) s'"
    "mailboxes s' = mailboxes s" "mqs s' = mqs s"
    "\<forall>p. p \<noteq> mp \<longrightarrow> mempools s' p = mempools s p"
    "mp_start_address (mempools s' mp) = mp_start_address (mempools s mp)"
    by auto
  have "waking_frame ?s (resumed t ?s)" by (rule waking_frame_resumed [of t ?s "Susp mp"]) (use l in simp)
  then have "waking_frame (s\<lparr>mempools := mempools s'\<rparr>) ((?d (resumed t ?s))\<lparr>mempools := mempools s'\<rparr>)"
    by (simp add: waking_frame_def set_mp_def)
  from waking_frame_trans [OF this s'(7)] have fr: "waking_frame (s\<lparr>mempools := mempools s'\<rparr>) s'" .
  have "tqs s' q = tqs s q" if "wait_list q \<and> q \<noteq> Susp mp" for q
    using that s'(5) other [of q] wait_listD(2) [of q] by (auto simp: tqs_resumed)
  then show ?case using step s' fr by auto
qed

lemma dyn_inv_mempools: "dyn_inv s \<Longrightarrow> dyn_inv (s\<lparr>mempools := m\<rparr>)"
proof -
  assume inv: "dyn_inv s"
  let ?s = "s\<lparr>mempools := m\<rparr>"
  have "thread_inv ?s = thread_inv s" by (rule thread_inv_cong) simp_all
  moreover have "heap_ready ?s = heap_ready s" "hlive ?s = hlive s" "in_heap ?s = in_heap s" "registered ?s = registered s"
    "queued ?s = queued s"
    by (simp_all add: heap_ready_def hlive_def in_heap_def registered_def queued_def fun_eq_iff)
  ultimately show ?thesis using inv by (simp add: dyn_inv_def registry_ok_def)
qed

lemma mp_wake_all_dyn:
  assumes inv: "dyn_inv s" and p: "mp \<noteq> heap_sem s"
  obtains s' where "mp_wake_all mp s = Some s'" "dyn_inv s'" "hlive s' = hlive s" "containers s' = containers s"
    "waking_frame (s\<lparr>mempools := mempools s'\<rparr>) s'" "\<And>p. p \<noteq> mp \<Longrightarrow> mempools s' p = mempools s p"
    "mp_start_address (mempools s' mp) = mp_start_address (mempools s mp)"
    "mailboxes s' = mailboxes s" "mqs s' = mqs s"
proof -
  from mp_wake_all_total [OF dyn_invD(2) [OF inv], of mp] obtain s' where s':
    "mp_wake_all mp s = Some s'" "thread_inv s'" "containers s' = containers s" "sems s' = sems s"
    "\<forall>q. wait_list q \<and> q \<noteq> Susp mp \<longrightarrow> tqs s' q = tqs s q" "rt_interrupt_nest s' = rt_interrupt_nest s"
    "waking_frame (s\<lparr>mempools := mempools s'\<rparr>) s'" "\<And>p. p \<noteq> mp \<Longrightarrow> mempools s' p = mempools s p"
    "mp_start_address (mempools s' mp) = mp_start_address (mempools s mp)" "mailboxes s' = mailboxes s" "mqs s' = mqs s"
    by blast
  have "tqs s' (Susp (heap_sem s)) = tqs s (Susp (heap_sem s))" using s'(5) p by (simp add: wait_list_simps)
  then have "dyn_inv s'"
    using waking_dyn(1) [OF dyn_inv_mempools [OF inv], of s' "mempools s'"] s' by simp
  moreover have "hlive s' = hlive s" using s'(7) by (simp add: waking_frame_def hlive_def)
  ultimately show thesis using that s' by blast
qed

section \<open>After start-up\<close>

text \<open>Setting up the heap, here with an arena of 4 KB, establishes the invariant when nothing is registered yet and
  no thread or timer in use lies in the arena.\<close>

lemma heap_init_dyn:
  assumes z: "rt_interrupt_nest s0 = 0" "heap_sem s0 = 0x500" "kheap s0 = kheap boot" "containers s0 = (\<lambda>_. [])"
    and inv: "thread_inv s0" and t: "tqs s0 (Susp 0x500) = []" "timer_list s0 = []"
    and out: "\<And>p. 0x1000 \<le> p \<Longrightarrow> p < 0x1ff4 \<Longrightarrow> \<not> queued s0 p"
  obtains s where "rt_system_heap_init 0x1000 0x2000 s0 = Some s" "dyn_inv s" "hlive s = Map.empty"
    "kheap s = (heap_init 0x1000 0x2000 (kheap boot))\<lparr>lfree := 0\<rparr>" "blocks (kheap s) = [0]"
    "threads s = threads s0" "tqs s = tqs s0" "ready_group s = ready_group s0" "heap_sem s = 0x500"
    "containers s = (\<lambda>_. [])(1 := [At 0x500])" "timer_list s = []"
proof -
  have al: "RT_ALIGN 0x1000 4 = 0x1000" "RT_ALIGN_DOWN 0x2000 4 = 0x2000"
    by (simp_all add: RT_ALIGN_def RT_ALIGN_DOWN_def)
  obtain s where s: "rt_system_heap_init 0x1000 0x2000 s0 = Some s" "heap_ready s" "live (kheap s) = Map.empty"
    "blocks (kheap s) = [0]"
    using heap_init_ready [of s0 "0x1000" "0x2000"] z by (auto simp: al)
  have f: "tqs s = tqs s0" "timer_list s = []" "containers s = (\<lambda>_. [])(1 := [At 0x500])" "ready_group s = ready_group s0"
    "threads s = threads s0" "heap_sem s = 0x500" "kheap s = (heap_init 0x1000 0x2000 (kheap boot))\<lparr>lfree := 0\<rparr>"
    "timers s = timers s0" "r \<noteq> At 0x500 \<Longrightarrow> objects s r = objects s0 r" for r
    using s(1) z t by (auto simp: rt_system_heap_init_def al RT_DEBUG_NOT_IN_INTERRUPT_def rt_sem_init_def rt_object_init_def
        rt_object_get_information_def object_classes_def rt_ipc_object_init_def Let_def set_object_def set_sem_def
        q_insert_after_def fun_eq_iff)
  have h: "heap_ptr (kheap s) = 0x1000" "heap_end (kheap s) = 0xff4" unfolding f(7) by (simp_all add: heap_init_def Let_def)
  then have "\<not> in_heap s 0x500" by (simp add: in_heap_def)
  moreover have "\<not> queued s p" if "in_heap s p" for p using out [of p] that h t(2) f(1,2) by (simp add: in_heap_def queued_def)
  moreover have "thread_inv s" by (rule thread_inv_local [OF inv]) (use f t(2) in auto)
  ultimately have "dyn_inv s" using s(2) f by (auto simp: dyn_inv_def registry_ok_def registered_def wf_queues_def)
  then show thesis using that s f by (simp add: hlive_def)
qed

text \<open>The state of theory Heap_Props before start-up.\<close>

lemma boot_dyn:
  obtains s where "rt_system_heap_init 0x1000 0x2000 boot = Some s" "dyn_inv s" "hlive s = Map.empty"
    "kheap s = (heap_init 0x1000 0x2000 (kheap boot))\<lparr>lfree := 0\<rparr>" "blocks (kheap s) = [0]"
    "threads s = threads boot" "tqs s = tqs boot" "ready_group s = 0" "heap_sem s = 0x500"
    "containers s = (\<lambda>_. [])(1 := [At 0x500])" "timer_list s = []"
proof (rule heap_init_dyn [of boot])
  have b: "tqs boot = (\<lambda>_. [])" "timer_list boot = []" "containers boot = (\<lambda>_. [])" "ready_group boot = 0"
    by (simp_all add: boot_def)
  then show "thread_inv boot" "containers boot = (\<lambda>_. [])" "tqs boot (Susp 0x500) = []" "timer_list boot = []"
    "\<not> queued boot p" for p
    by (auto simp: thread_inv_def ready_inv_def waiting_lists_ok_def thread_timers_ok_def wf_queues_def queued_def)
qed (use that in \<open>simp_all add: boot_def\<close>)

lemma boot_room:
  assumes "kheap s = (heap_init 0x1000 0x2000 (kheap boot))\<lparr>lfree := 0\<rparr>" "blocks (kheap s) = [0]"
    "n \<in> {32, 128}"
  shows "\<not> alloc_fails n (kheap s)" "first_fit (request n) (kheap s) = Some 0"
proof -
  have h: "lfree (kheap s) = 0" "mem_size_aligned (kheap s) = 0xfe8" "hm_used (hp_mem (kheap s) 0) = 0"
    "hm_next (hp_mem (kheap s) 0) = 0xff4"
    unfolding assms(1) by (simp_all add: heap_init_def Let_def)
  have n: "request n = n" "RT_ALIGN n 4 = n" using assms(3) by (auto simp: request_def RT_ALIGN_def)
  show f: "first_fit (request n) (kheap s) = Some 0"
    using h assms(2,3) by (auto simp: n first_fit_def from_lfree_def fit_at_def)
  then show "\<not> alloc_fails n (kheap s)" using n h assms(3) by (auto simp: alloc_fails_def)
qed

end
