(* ===== verification/Object_Life.thy ===== *)
theory Object_Life
  imports Create_Inv
begin

text \<open>
  The life of dynamic kernel objects as a contract: \<open>create\<close> returns \<open>RT_NULL\<close> and takes nothing, or a fresh
  registered object with the areas it owns; \<open>delete\<close> gives all of them back and takes the object out of its
  container.  The client's facts, for any sequence of calls over objects of all kinds: every call returns,
  what is live is what was live before and what the objects held own, no two of them share an area, and
  when all are deleted nothing has leaked.  The locale is interpreted on the six kinds of IPC objects and
  memory pools and on timers.
\<close>

section \<open>The contract\<close>

text \<open>The areas of an object: its control block and the area it allocated besides, if any.\<close>

definition areas :: "('r \<Rightarrow> kstate \<Rightarrow> ptr \<Rightarrow> ptr option) \<Rightarrow> kstate \<Rightarrow> 'r \<Rightarrow> ptr \<Rightarrow> ptr set" where
  "areas room s r p = insert p (set_option (room r s p))"

definition owns :: "('r \<Rightarrow> nat) \<Rightarrow> ('r \<Rightarrow> kstate \<Rightarrow> ptr \<Rightarrow> ptr option) \<Rightarrow> 'r \<Rightarrow> kstate \<Rightarrow> ptr \<Rightarrow> bool" where
  "owns cls room r s p \<longleftrightarrow> At p \<in> set (containers s (cls r)) \<and> ob_type (objects s (At p)) = of_nat (cls r) \<and>
     areas room s r p \<subseteq> dom (hlive s) \<and> (\<forall>a. room r s p = Some a \<longrightarrow> a \<noteq> p \<and> \<not> registered s (At a))"

definition held_areas :: "('r \<Rightarrow> kstate \<Rightarrow> ptr \<Rightarrow> ptr option) \<Rightarrow> ('r \<times> ptr) list \<Rightarrow> kstate \<Rightarrow> ptr set" where
  "held_areas room held s = (\<Union>rp \<in> set held. areas room s (fst rp) (snd rp))"

lemma held_areas_iff: "a \<in> held_areas room held s \<longleftrightarrow> (\<exists>r p. (r, p) \<in> set held \<and> a \<in> areas room s r p)"
  by (force simp: held_areas_def)

text \<open>What the calls keep of other objects.\<close>

definition keeps :: "('r \<Rightarrow> kstate \<Rightarrow> ptr \<Rightarrow> ptr option) \<Rightarrow> ptr set \<Rightarrow> kstate \<Rightarrow> kstate \<Rightarrow> bool" where
  "keeps room X s s' \<longleftrightarrow> (\<forall>q. q \<in> X \<longrightarrow>
     ob_type (objects s' (At q)) = ob_type (objects s (At q)) \<and> (\<forall>r. room r s' q = room r s q))"

datatype 'r life_op = Create 'r | Delete nat

fun life_run ::
  "('r \<Rightarrow> kstate \<Rightarrow> (ptr \<times> kstate) option) \<Rightarrow> ('r \<Rightarrow> ptr \<Rightarrow> kstate \<Rightarrow> (rt_err_t \<times> kstate) option) \<Rightarrow>
   'r life_op list \<Rightarrow> ('r \<times> ptr) list \<Rightarrow> kstate \<Rightarrow> (('r \<times> ptr) list \<times> kstate) option" where
  "life_run create delete [] held s = Some (held, s)"
| "life_run create delete (Create r # os) held s = do {
     (p, s) \<leftarrow> create r s;
     life_run create delete os (if p = RT_NULL then held else (r, p) # held) s
   }"
| "life_run create delete (Delete i # os) held s =
     (if i < length held
      then do {
        (_, s) \<leftarrow> delete (fst (held ! i)) (snd (held ! i)) s;
        life_run create delete os (take i held @ drop (Suc i) held) s
      }
      else life_run create delete os held s)"

locale dynamic_objects =
  fixes create :: "'r \<Rightarrow> kstate \<Rightarrow> (ptr \<times> kstate) option"
    and delete :: "'r \<Rightarrow> ptr \<Rightarrow> kstate \<Rightarrow> (rt_err_t \<times> kstate) option"
    and cls :: "'r \<Rightarrow> nat"
    and room :: "'r \<Rightarrow> kstate \<Rightarrow> ptr \<Rightarrow> ptr option"
    and admissible :: "'r \<Rightarrow> bool"
  assumes create_law: "dyn_inv s \<Longrightarrow> admissible r \<Longrightarrow>
      \<exists>p s'. create r s = Some (p, s') \<and> dyn_inv s' \<and> keeps room (dom (hlive s)) s s' \<and>
        (if p = RT_NULL then hlive s' = hlive s \<and> containers s' = containers s
         else areas room s' r p \<inter> dom (hlive s) = {} \<and> dom (hlive s') = dom (hlive s) \<union> areas room s' r p \<and>
           containers s' = q_insert_after (cls r) (At p) (containers s) \<and> owns cls room r s' p)"
    and delete_law: "dyn_inv s \<Longrightarrow> owns cls room r s p \<Longrightarrow>
      \<exists>s'. delete r p s = Some (RT_EOK, s') \<and> dyn_inv s' \<and> keeps room (- areas room s r p) s s' \<and>
        dom (hlive s') = dom (hlive s) - areas room s r p \<and> containers s' = q_remove (At p) (containers s)"
begin

definition holds :: "ptr set \<Rightarrow> ('r \<times> ptr) list \<Rightarrow> kstate \<Rightarrow> bool" where
  "holds base held s \<longleftrightarrow> distinct (map snd held) \<and>
     (\<forall>r p. (r, p) \<in> set held \<longrightarrow> owns cls room r s p \<and> areas room s r p \<inter> base = {}) \<and>
     (\<forall>r p r' p'. (r, p) \<in> set held \<longrightarrow> (r', p') \<in> set held \<longrightarrow> p' \<noteq> p \<longrightarrow>
        areas room s r p \<inter> areas room s r' p' = {}) \<and>
     dom (hlive s) = base \<union> held_areas room held s"

lemma holdsD:
  assumes "holds base held s"
  shows "distinct (map snd held)" "(r, p) \<in> set held \<Longrightarrow> owns cls room r s p"
    "(r, p) \<in> set held \<Longrightarrow> areas room s r p \<inter> base = {}"
    "(r, p) \<in> set held \<Longrightarrow> (r', p') \<in> set held \<Longrightarrow> p' \<noteq> p \<Longrightarrow> areas room s r p \<inter> areas room s r' p' = {}"
    "dom (hlive s) = base \<union> held_areas room held s"
  using assms by (simp_all add: holds_def)

lemma holdsI:
  assumes "distinct (map snd held)" "\<And>r p. (r, p) \<in> set held \<Longrightarrow> owns cls room r s p"
    "\<And>r p. (r, p) \<in> set held \<Longrightarrow> areas room s r p \<inter> base = {}"
    "\<And>r p r' p'. (r, p) \<in> set held \<Longrightarrow> (r', p') \<in> set held \<Longrightarrow> p' \<noteq> p \<Longrightarrow> areas room s r p \<inter> areas room s r' p' = {}"
    "dom (hlive s) = base \<union> held_areas room held s"
  shows "holds base held s"
  using assms by (simp add: holds_def)

text \<open>The objects of a list keep their areas, and so does the list.\<close>

lemma held_areas_cong:
  "(\<And>r p. (r, p) \<in> set held \<Longrightarrow> areas room s' r p = areas room s r p) \<Longrightarrow> held_areas room held s' = held_areas room held s"
  unfolding set_eq_iff held_areas_iff by blast

lemma areas_keeps: "keeps room X s s' \<Longrightarrow> p \<in> X \<Longrightarrow> areas room s' r p = areas room s r p"
  by (simp add: keeps_def areas_def)

lemma owns_mem: "owns cls room r s p \<Longrightarrow> p \<in> dom (hlive s)"
  by (auto simp: owns_def areas_def)

lemma owns_keeps:
  assumes "owns cls room r s p" "keeps room X s s'" "p \<in> X" "areas room s r p \<subseteq> dom (hlive s')"
    "At p \<in> set (containers s' (cls r))" "\<And>a. room r s p = Some a \<Longrightarrow> \<not> registered s' (At a)"
  shows "owns cls room r s' p"
  using assms by (auto simp: owns_def keeps_def areas_def)

lemma holds_create:
  assumes h: "holds base held s" and k: "keeps room (dom (hlive s)) s s'"
    and n: "areas room s' r p \<inter> dom (hlive s) = {}" "dom (hlive s') = dom (hlive s) \<union> areas room s' r p"
      "containers s' = q_insert_after (cls r) (At p) (containers s)" "owns cls room r s' p"
  shows "holds base ((r, p) # held) s'"
proof -
  note H = holdsD [OF h]
  have sub: "areas room s r' p' \<subseteq> dom (hlive s)" if "(r', p') \<in> set held" for r' p'
    using H(2) [OF that] by (simp add: owns_def)
  have same: "areas room s' r' p' = areas room s r' p'" if "(r', p') \<in> set held" for r' p'
    by (rule areas_keeps [OF k owns_mem [OF H(2) [OF that]]])
  have ne: "p' \<noteq> p" if "(r', p') \<in> set held" for r' p'
    using owns_mem [OF H(2) [OF that]] n(1) by (auto simp: areas_def)
  have own: "owns cls room r' s' p'" if m: "(r', p') \<in> set held" for r' p'
  proof (rule owns_keeps [OF H(2) [OF m] k owns_mem [OF H(2) [OF m]]])
    show "At p' \<in> set (containers s' (cls r'))" using H(2) [OF m] n(3) by (auto simp: owns_def q_insert_after_def)
    show "\<not> registered s' (At a)" if "room r' s p' = Some a" for a
    proof -
      have "a \<noteq> p" using sub [OF m] that n(1) by (auto simp: areas_def)
      then show ?thesis using H(2) [OF m] that n(3) by (auto simp: owns_def registered_def q_insert_after_def split: if_splits)
    qed
  qed (use sub [OF m] n(2) in auto)
  show ?thesis
  proof (rule holdsI)
    show "distinct (map snd ((r, p) # held))" using H(1) ne by fastforce
    show "owns cls room r' s' p'" if "(r', p') \<in> set ((r, p) # held)" for r' p' using that own n(4) by auto
    show "areas room s' r' p' \<inter> base = {}" if "(r', p') \<in> set ((r, p) # held)" for r' p'
    proof (cases "(r', p') = (r, p)")
      case True
      then show ?thesis using n(1) H(5) by auto
    next
      case False
      then have "(r', p') \<in> set held" using that by auto
      then show ?thesis using H(3) same by metis
    qed
    show "areas room s' r1 p1 \<inter> areas room s' r2 p2 = {}"
      if q: "(r1, p1) \<in> set ((r, p) # held)" "(r2, p2) \<in> set ((r, p) # held)" "p2 \<noteq> p1" for r1 p1 r2 p2
    proof -
      have x: "areas room s' r p \<inter> areas room s' r' p' = {}" if "(r', p') \<in> set held" for r' p'
        using sub [OF that] same [OF that] n(1) by blast
      have y: "areas room s' r1 p1 \<inter> areas room s' r2 p2 = {}" if "(r1, p1) \<in> set held" "(r2, p2) \<in> set held"
        using H(4) [OF that \<open>p2 \<noteq> p1\<close>] same [OF that(1)] same [OF that(2)] by simp
      consider "r1 = r" "p1 = p" "(r2, p2) \<in> set held" | "(r1, p1) \<in> set held" "r2 = r" "p2 = p"
        | "(r1, p1) \<in> set held" "(r2, p2) \<in> set held" using q by auto
      then show ?thesis
      proof cases
        case 2
        then show ?thesis using x [of r1 p1] by blast
      qed (use x y in simp_all)
    qed
    have "held_areas room ((r, p) # held) s' = areas room s' r p \<union> held_areas room held s"
      using held_areas_cong [of held s' s] same by (simp add: held_areas_def)
    then show "dom (hlive s') = base \<union> held_areas room ((r, p) # held) s'" using n(2) H(5) by auto
  qed
qed

lemma holds_same:
  assumes h: "holds base held s" and k: "keeps room (dom (hlive s)) s s'" and e: "hlive s' = hlive s" "containers s' = containers s"
  shows "holds base held s'"
proof -
  note H = holdsD [OF h]
  have same: "areas room s' r p = areas room s r p" if "(r, p) \<in> set held" for r p
    by (rule areas_keeps [OF k owns_mem [OF H(2) [OF that]]])
  have own: "owns cls room r s' p" if "(r, p) \<in> set held" for r p
    by (rule owns_keeps [OF H(2) [OF that] k owns_mem [OF H(2) [OF that]]])
      (use H(2) [OF that] e in \<open>auto simp: owns_def registered_def\<close>)
  show ?thesis
    by (rule holdsI) (use H own same e(1) held_areas_cong [of held s' s] in simp_all)
qed

lemma holds_delete:
  assumes h: "holds base (as @ (r, p) # bs) s" and k: "keeps room (- areas room s r p) s s'"
    and d: "dom (hlive s') = dom (hlive s) - areas room s r p" "containers s' = q_remove (At p) (containers s)"
  shows "holds base (as @ bs) s'"
proof -
  note H = holdsD [OF h]
  have m: "(r', p') \<in> set (as @ (r, p) # bs)" if "(r', p') \<in> set (as @ bs)" for r' p' using that by auto
  have ne: "p' \<noteq> p" if "(r', p') \<in> set (as @ bs)" for r' p' using H(1) that by force
  have dis: "areas room s r' p' \<inter> areas room s r p = {}" if "(r', p') \<in> set (as @ bs)" for r' p'
    using H(4) [OF m [OF that], of r p] ne [OF that] by auto
  have out: "p' \<in> - areas room s r p" if "(r', p') \<in> set (as @ bs)" for r' p'
    using dis [OF that] by (auto simp: areas_def)
  have same: "areas room s' r' p' = areas room s r' p'" if "(r', p') \<in> set (as @ bs)" for r' p'
    by (rule areas_keeps [OF k out [OF that]])
  have own: "owns cls room r' s' p'" if t: "(r', p') \<in> set (as @ bs)" for r' p'
    by (rule owns_keeps [OF H(2) [OF m [OF t]] k out [OF t]])
      (use H(2) [OF m [OF t]] d dis [OF t] ne [OF t] in \<open>auto simp: owns_def q_remove_def registered_def\<close>)
  have "held_areas room (as @ (r, p) # bs) s = areas room s r p \<union> held_areas room (as @ bs) s"
    by (auto simp: held_areas_def)
  moreover have "areas room s r p \<inter> held_areas room (as @ bs) s = {}"
    using dis by (fastforce simp: held_areas_def)
  ultimately have "dom (hlive s') = base \<union> held_areas room (as @ bs) s"
    using d(1) H(3) [of r p] H(5) by auto
  then show ?thesis
    by (intro holdsI) (use H(1) H(3,4) [OF m] m own same held_areas_cong [of "as @ bs" s' s] in auto)
qed

lemma run_ok:
  assumes "dyn_inv s" "holds base held s" "\<forall>r. Create r \<in> set os \<longrightarrow> admissible r"
  shows "\<exists>held' s'. life_run create delete os held s = Some (held', s') \<and> dyn_inv s' \<and> holds base held' s'"
  using assms
proof (induction os arbitrary: held s)
  case (Cons a os)
  show ?case
  proof (cases a)
    case (Create r)
    then obtain p s1 where s1: "create r s = Some (p, s1)" "dyn_inv s1" "keeps room (dom (hlive s)) s s1"
      "if p = RT_NULL then hlive s1 = hlive s \<and> containers s1 = containers s
       else areas room s1 r p \<inter> dom (hlive s) = {} \<and> dom (hlive s1) = dom (hlive s) \<union> areas room s1 r p \<and>
         containers s1 = q_insert_after (cls r) (At p) (containers s) \<and> owns cls room r s1 p"
      using create_law [OF Cons.prems(1)] Cons.prems(3) by (metis list.set_intros(1))
    have "holds base (if p = RT_NULL then held else (r, p) # held) s1"
    proof (cases "p = RT_NULL")
      case True
      then show ?thesis using s1(4) holds_same [OF Cons.prems(2) s1(3)] by simp
    next
      case False
      then show ?thesis using s1(4) holds_create [OF Cons.prems(2) s1(3)] by simp
    qed
    then show ?thesis using Cons.IH [OF s1(2)] Cons.prems(3) s1(1) Create by simp
  next
    case (Delete i)
    show ?thesis
    proof (cases "i < length held")
      case True
      obtain r p where rp: "held ! i = (r, p)" by force
      have split: "held = take i held @ (r, p) # drop (Suc i) held"
        using id_take_nth_drop [OF True] rp by simp
      then have h: "holds base (take i held @ (r, p) # drop (Suc i) held) s" using Cons.prems(2) by metis
      have "owns cls room r s p" using h by (auto simp: holds_def)
      from delete_law [OF Cons.prems(1) this] obtain s1 where s1: "delete r p s = Some (RT_EOK, s1)" "dyn_inv s1"
        "keeps room (- areas room s r p) s s1" "dom (hlive s1) = dom (hlive s) - areas room s r p"
        "containers s1 = q_remove (At p) (containers s)" by blast
      from Cons.IH [OF s1(2) holds_delete [OF h s1(3-5)]] show ?thesis
        using Cons.prems(3) s1(1) Delete True rp by simp
    qed (use Cons Delete in auto)
  qed
qed simp

text \<open>What a client can rely on.\<close>

lemma run_no_leak:
  assumes "dyn_inv s" "\<forall>r. Create r \<in> set os \<longrightarrow> admissible r"
  shows "\<exists>held s'. life_run create delete os [] s = Some (held, s') \<and> dyn_inv s' \<and>
    distinct (map snd held) \<and> (\<forall>r p. (r, p) \<in> set held \<longrightarrow> owns cls room r s' p) \<and>
    (\<forall>r p r' p'. (r, p) \<in> set held \<longrightarrow> (r', p') \<in> set held \<longrightarrow> p' \<noteq> p \<longrightarrow>
       areas room s' r p \<inter> areas room s' r' p' = {}) \<and>
    dom (hlive s') = dom (hlive s) \<union> held_areas room held s' \<and> held_areas room held s' \<inter> dom (hlive s) = {}"
proof -
  have "holds (dom (hlive s)) [] s" by (simp add: holds_def held_areas_def)
  from run_ok [OF assms(1) this assms(2)] obtain held s' where
    r: "life_run create delete os [] s = Some (held, s')" "dyn_inv s'" "holds (dom (hlive s)) held s'" by blast
  have "held_areas room held s' \<inter> dom (hlive s) = {}"
    using holdsD(3) [OF r(3)] by (fastforce simp: held_areas_def)
  then show ?thesis using r holdsD [OF r(3)] by blast
qed

end

end
