(* ===== verification/Create_Props.thy ===== *)
theory Create_Props
  imports Object_Life
begin

text \<open>
  The kernel objects that live on the heap obey the contract of theory Object_Life: the interpretation on the
  \<open>create\<close> and \<open>delete\<close> routines of theory Create, and the properties.
\<close>

section \<open>Objects of all kinds\<close>

text \<open>A call of one of the \<open>create\<close> routines, with its arguments.\<close>

datatype object_kind =
    Sem "u8 list" u32 u8
  | Mutex "u8 list" u8
  | Event "u8 list" u8
  | Mb "u32 list" "u8 list" u32 u8
  | Mq "u8 list" u32 u32 u8
  | Mp "u8 list" u32 u32
  | Timer "u8 list" timeout_fn ptr rt_tick_t u8

fun create_object :: "world \<Rightarrow> object_kind \<Rightarrow> kstate \<Rightarrow> (ptr \<times> kstate) option" where
  "create_object w (Sem name value flag) s = rt_sem_create w name value flag s"
| "create_object w (Mutex name flag) s = rt_mutex_create w name flag s"
| "create_object w (Event name flag) s = rt_event_create w name flag s"
| "create_object w (Mb words name n flag) s = rt_mb_create w w w words name n flag s"
| "create_object w (Mq name n k flag) s = rt_mq_create w w w w name n k flag s"
| "create_object w (Mp name k n) s = rt_mp_create w w w name k n s"
| "create_object w (Timer name f param time flag) s = rt_timer_create w name f param time flag s"

fun delete_object :: "world \<Rightarrow> object_kind \<Rightarrow> ptr \<Rightarrow> kstate \<Rightarrow> (rt_err_t \<times> kstate) option" where
  "delete_object w (Sem _ _ _) p s = rt_sem_delete w p s"
| "delete_object w (Mutex _ _) p s = rt_mutex_delete w p s"
| "delete_object w (Event _ _) p s = rt_event_delete w p s"
| "delete_object w (Mb _ _ _ _) p s = rt_mb_delete w w p s"
| "delete_object w (Mq _ _ _ _) p s = rt_mq_delete w w p s"
| "delete_object w (Mp _ _ _) p s = rt_mp_delete w w p s"
| "delete_object w (Timer _ _ _ _ _) p s = rt_timer_delete w p s"

fun object_class :: "object_kind \<Rightarrow> nat" where
  "object_class (Sem _ _ _) = 1"
| "object_class (Mutex _ _) = 2"
| "object_class (Event _ _) = 3"
| "object_class (Mb _ _ _ _) = 4"
| "object_class (Mq _ _ _ _) = 5"
| "object_class (Mp _ _ _) = 6"
| "object_class (Timer _ _ _ _ _) = 8"

fun object_room :: "object_kind \<Rightarrow> kstate \<Rightarrow> ptr \<Rightarrow> ptr option" where
  "object_room (Mb _ _ _ _) s p = Some (mb_pool_addr (mailboxes s p))"
| "object_room (Mq _ _ _ _) s p = Some (mq_msg_pool (mqs s p))"
| "object_room (Mp _ _ _) s p = Some (mp_start_address (mempools s p))"
| "object_room _ s p = None"

text \<open>The blocks of a memory pool fit into 32-bit memory.\<close>

fun object_admissible :: "object_kind \<Rightarrow> bool" where
  "object_admissible (Mp _ k n) \<longleftrightarrow> (unat (RT_ALIGN n RT_ALIGN_SIZE) + 4) * unat k < 2 ^ 32"
| "object_admissible _ \<longleftrightarrow> True"

text \<open>The size of the second area, and when one of the areas of an object cannot be had.\<close>

fun object_extra :: "object_kind \<Rightarrow> u32 option" where
  "object_extra (Mb _ _ n _) = Some (ucast (ucast n :: u16) * 4)"
| "object_extra (Mq _ n k _) = Some ((ucast (ucast (RT_ALIGN n RT_ALIGN_SIZE) :: u16) + 4) * ucast (ucast k :: u16))"
| "object_extra (Mp _ k n) = Some ((RT_ALIGN n RT_ALIGN_SIZE + 4) * k)"
| "object_extra _ = None"

definition no_room :: "object_kind \<Rightarrow> heap \<Rightarrow> bool" where
  "no_room k h \<longleftrightarrow> (let n = object_size (of_nat (object_class k)) in
     alloc_fails n h \<or> (case object_extra k of None \<Rightarrow> False | Some m \<Rightarrow> alloc_fails m (after_alloc n h)))"

section \<open>Creation\<close>

lemma room_only_at: "only_at p s s' \<Longrightarrow> q \<noteq> p \<Longrightarrow> object_room r s' q = object_room r s q"
  by (cases r) (simp_all add: only_at_def)

lemma keeps_only_at: "only_at p s s' \<Longrightarrow> p \<notin> X \<Longrightarrow> keeps object_room X s s'"
  unfolding keeps_def
proof (intro allI impI)
  fix q assume "only_at p s s'" "p \<notin> X" "q \<in> X"
  moreover from this have "q \<noteq> p" by blast
  ultimately show "ob_type (objects s' (At q)) = ob_type (objects s (At q)) \<and> (\<forall>r. object_room r s' q = object_room r s q)"
    using room_only_at [of p s s' q] by (simp add: only_at_def)
qed

lemma keeps_trans: "keeps room X s s1 \<Longrightarrow> keeps room X s1 s2 \<Longrightarrow> keeps room X s s2"
  by (simp add: keeps_def)

lemma keeps_subset: "keeps room X s s' \<Longrightarrow> Y \<subseteq> X \<Longrightarrow> keeps room Y s s'"
  by (auto simp: keeps_def)

lemma room_cong:
  "mailboxes s' = mailboxes s \<Longrightarrow> mqs s' = mqs s \<Longrightarrow> mempools s' = mempools s \<Longrightarrow> object_room r s' = object_room r s"
  by (cases r) (simp_all add: fun_eq_iff)

text \<open>What a new object looks like: named and flagged as asked for, with no waiter, and in the state its class
  starts in.\<close>

fun established :: "object_kind \<Rightarrow> ptr \<Rightarrow> kstate \<Rightarrow> bool" where
  "established (Sem name value flag) p s \<longleftrightarrow> objects s (At p) = (fresh_object 1 name)\<lparr>ob_flag := flag\<rparr> \<and>
     sem_value (sems s p) = ucast value \<and> tqs s (Susp p) = []"
| "established (Mutex name flag) p s \<longleftrightarrow> objects s (At p) = (fresh_object 2 name)\<lparr>ob_flag := flag\<rparr> \<and>
     mutex_inv p s \<and> mtx_owner (mutexes s p) = RT_NULL"
| "established (Event name flag) p s \<longleftrightarrow> objects s (At p) = (fresh_object 3 name)\<lparr>ob_flag := flag\<rparr> \<and>
     evt_set (events s p) = 0 \<and> tqs s (Susp p) = []"
| "established (Mb words name n flag) p s \<longleftrightarrow> objects s (At p) = (fresh_object 4 name)\<lparr>ob_flag := flag\<rparr> \<and>
     mb_size (mailboxes s p) = ucast n \<and> tqs s (Susp p) = [] \<and> tqs s (SuspSender p) = [] \<and>
     (length words = unat (ucast n :: u16) \<longrightarrow> mb_inv (mailboxes s p) \<and> mb_contents (mailboxes s p) = [])"
| "established (Mq name n k flag) p s \<longleftrightarrow> objects s (At p) = (fresh_object 5 name)\<lparr>ob_flag := flag\<rparr> \<and>
     mq_msg_size (mqs s p) = ucast (RT_ALIGN n RT_ALIGN_SIZE) \<and> tqs s (Susp p) = [] \<and>
     mq_inv p s \<and> mq_contents p s = [] \<and> length (mq_free p s) = unat (ucast k :: u16) \<and>
     (\<forall>x \<in> set (mq_free p s). unat (mq_msg_pool (mqs s p)) \<le> unat x \<and> unat x + 4 + unat (mq_msg_size (mqs s p)) \<le>
        unat (mq_msg_pool (mqs s p)) + unat (ucast k :: u16) * (unat (mq_msg_size (mqs s p)) + 4))"
| "established (Mp name k n) p s \<longleftrightarrow> objects s (At p) = fresh_object 6 name \<and> tqs s (Susp p) = [] \<and>
     mp_block_size (mempools s p) = RT_ALIGN n RT_ALIGN_SIZE \<and> mp_block_total_count (mempools s p) = k \<and>
     (object_admissible (Mp name k n) \<longrightarrow> mp_ready p s \<and> mp_live p s = Map.empty)"
| "established (Timer name f param time flag) p s \<longleftrightarrow>
     objects s (At p) = (fresh_object 8 name)\<lparr>ob_flag := flag AND NOT RT_TIMER_FLAG_ACTIVATED\<rparr> \<and>
     timers s (At p) = \<lparr>tm_timeout_func = f, tm_parameter = param, tm_init_tick = time, tm_timeout_tick = 0\<rparr>"

text \<open>The law of \<open>create\<close>, for one kind and one call.\<close>

definition created :: "object_kind \<Rightarrow> kstate \<Rightarrow> ptr \<Rightarrow> kstate \<Rightarrow> bool" where
  "created k s p s' \<longleftrightarrow> dyn_inv s' \<and> (p = RT_NULL \<longleftrightarrow> no_room k (kheap s)) \<and>
     (p \<noteq> RT_NULL \<longrightarrow> established k p s') \<and> keeps object_room (dom (hlive s)) s s' \<and>
     (if p = RT_NULL then hlive s' = hlive s \<and> containers s' = containers s
      else areas object_room s' k p \<inter> dom (hlive s) = {} \<and> dom (hlive s') = dom (hlive s) \<union> areas object_room s' k p \<and>
        containers s' = q_insert_after (object_class k) (At p) (containers s) \<and>
        owns object_class object_room k s' p)"

lemma created_failed:
  "dyn_inv s \<Longrightarrow> alloc_fails (object_size (of_nat (object_class k))) (kheap s) \<Longrightarrow> created k s RT_NULL s"
  by (simp add: created_def keeps_def no_room_def)

text \<open>Allocation of the control block, then fields of the new object.\<close>

lemma create_plain:
  assumes inv: "dyn_inv s" and cls: "unat type < 9" "object_class k = unat type"
    and k: "\<And>s p. object_room k s p = None" "object_extra k = None"
    and init: "\<And>p s. only_at p s (init p s)" "\<And>p s. ob_type (objects (init p s) (At p)) = ob_type (objects s (At p))"
    and est: "\<And>p s. objects s (At p) = fresh_object type name \<Longrightarrow> established k p (init p s)"
  shows "\<exists>p s'. do { (p, s) \<leftarrow> rt_object_allocate w type name s;
      if p = RT_NULL then Some (RT_NULL, s) else Some (p, init p s) } = Some (p, s') \<and> created k s p s'"
  using inv cls(1)
proof (cases rule: allocate_dyn [where w = w and name = name])
  case Failed
  moreover have "object_size (of_nat (object_class k)) = object_size type" using cls(2) by simp
  ultimately show ?thesis using created_failed [OF inv, of k] by auto
next
  case (Allocated p s1)
  have oa: "only_at p s1 (init p s1)" by (rule init)
  note f = only_at_fields [OF oa]
  have lv: "hlive s1 p \<noteq> None" "dom (hlive s1) = dom (hlive s) \<union> {p}" using Allocated(6) by auto
  have "dyn_inv (init p s1)" by (rule dyn_inv_only_at [OF Allocated(2) oa lv(1) Allocated(9,10)])
  moreover have "p \<notin> dom (hlive s)" using Allocated(5) by auto
  moreover from this have "keeps object_room (dom (hlive s)) s s1"
    using Allocated(8) room_cong [of s1 s] unfolding keeps_def by auto
  with keeps_only_at [OF oa \<open>p \<notin> dom (hlive s)\<close>] have "keeps object_room (dom (hlive s)) s (init p s1)"
    by (meson keeps_trans)
  moreover have "ob_type (objects (init p s1) (At p)) = of_nat (object_class k)"
    using init(2) [of p s1] Allocated(8) cls(2) by (auto simp: fresh_object_def)
  moreover have "established k p (init p s1)" using est Allocated(8) by auto
  ultimately have "created k s p (init p s1)"
    using Allocated(3,7,13) lv f k cls(2) by (auto simp: created_def areas_def owns_def q_insert_after_def no_room_def)
  then show ?thesis using Allocated(1,3) by auto
qed

text \<open>The same with a second area for the object; when it cannot be had the control block is given back.\<close>

lemma create_roomy:
  assumes inv: "dyn_inv s" and cls: "unat type < 9" "object_class k = unat type" "type AND 0x80 = 0" and n: "n \<le> 0xfffffffc"
    and i1: "\<And>p s. only_at p s (init1 p s)" "\<And>p s. ob_type (objects (init1 p s) (At p)) = ob_type (objects s (At p))"
    and i2: "\<And>a p s. only_at p s (init2 a p s)" "\<And>a p s. ob_type (objects (init2 a p s) (At p)) = ob_type (objects s (At p))"
    and i3: "\<And>p s. only_at p s (init3 p s)" "\<And>p s. ob_type (objects (init3 p s) (At p)) = ob_type (objects s (At p))"
    and k: "\<And>a p s. object_room k (init3 p (init2 a p s)) p = Some a" "object_extra k = Some n"
    and est: "\<And>p s a h. objects s (At p) = fresh_object type name \<Longrightarrow> a \<noteq> RT_NULL \<Longrightarrow> n \<noteq> 0 \<Longrightarrow>
      unat a + unat n < 2 ^ 32 \<Longrightarrow> established k p (init3 p (init2 a p ((init1 p s)\<lparr>kheap := h\<rparr>)))"
    and fail: "\<And>p s0. dyn_inv (init2 RT_NULL p (init1 p s0)) \<Longrightarrow> p \<noteq> RT_NULL \<Longrightarrow>
      give_up p (init2 RT_NULL p (init1 p s0)) =
        do { s \<leftarrow> rt_object_delete w3 p (init2 RT_NULL p (init1 p s0)); Some (RT_NULL, s) }"
  shows "\<exists>p s'. do { (p, s) \<leftarrow> rt_object_allocate w1 type name s;
      if p = RT_NULL then Some (RT_NULL, s)
      else do {
        (a, s) \<leftarrow> rt_malloc w2 n (init1 p s);
        if a = RT_NULL then give_up p (init2 a p s) else Some (p, init3 p (init2 a p s))
      } } = Some (p, s') \<and> created k s p s'"
  using inv cls(1)
proof (cases rule: allocate_dyn [where w = w1 and name = name])
  case Failed
  moreover have "object_size (of_nat (object_class k)) = object_size type" using cls(2) by simp
  ultimately show ?thesis using created_failed [OF inv, of k] by auto
next
  case (Allocated p s1)
  let ?s2 = "init1 p s1"
  have p: "p \<notin> dom (hlive s)" using Allocated(5) by auto
  obtain n1 where l1: "hlive s1 = (hlive s)(p \<mapsto> n1)" using Allocated(6) by auto
  have k1: "keeps object_room (dom (hlive s)) s s1"
    using Allocated(8) p room_cong [of s1 s] unfolding keeps_def by auto
  have t1: "ob_type (objects s1 (At p)) = type" using Allocated(8) by (auto simp: fresh_object_def)
  have oa2: "only_at p s1 ?s2" by (rule i1)
  note f2 = only_at_fields [OF oa2]
  have inv2: "dyn_inv ?s2" by (rule dyn_inv_only_at [OF Allocated(2) oa2 _ Allocated(9,10)]) (simp add: l1)
  have q2: "\<not> queued ?s2 p" "At p \<notin> set (timer_list ?s2)" "\<not> registered ?s2 (TmrOf p)"
    using Allocated(9-11) f2(5,8,9) by auto
  from malloc_dyn [OF inv2 n, of w2] obtain a h where
    m: "rt_malloc w2 n ?s2 = Some (a, ?s2\<lparr>kheap := h\<rparr>)" "dyn_inv (?s2\<lparr>kheap := h\<rparr>)"
      "a = RT_NULL \<and> h = kheap ?s2 \<or>
       a \<noteq> RT_NULL \<and> n \<noteq> 0 \<and> in_heap ?s2 a \<and> hlive ?s2 a = None \<and>
         (\<exists>k \<ge> unat n. live h = (hlive ?s2)(a \<mapsto> k) \<and> unat a + k < 2 ^ 32)"
      "a = RT_NULL \<longleftrightarrow> alloc_fails n (kheap ?s2)" by blast
  have room: "no_room k (kheap s) \<longleftrightarrow> a = RT_NULL"
    using Allocated(13,14) m(4) f2(1) k(2) cls(2) by (simp add: no_room_def)
  show ?thesis
  proof (cases "a = RT_NULL")
    case True
    then have "?s2\<lparr>kheap := h\<rparr> = ?s2" using m(3) by simp
    let ?s4 = "init2 RT_NULL p ?s2"
    have oa: "only_at p s1 ?s4" using only_at_trans [OF oa2 i2(1)] .
    note f = only_at_fields [OF oa]
    have inv4: "dyn_inv ?s4" by (rule dyn_inv_only_at [OF Allocated(2) oa _ Allocated(9,10)]) (simp add: l1)
    have "ob_type (objects ?s4 (At p)) AND 0x80 = 0" using i1(2) i2(2) t1 cls(3) by simp
    from delete_dyn [OF inv4 _ this, of n1 w3] obtain h5 where
      d: "rt_object_delete w3 p ?s4 = Some (?s4\<lparr>containers := q_remove (At p) (containers ?s4), kheap := h5\<rparr>)"
        "dyn_inv (?s4\<lparr>containers := q_remove (At p) (containers ?s4), kheap := h5\<rparr>)" "live h5 = (hlive ?s4)(p := None)"
      using f(6,8,9) l1 Allocated(9-11) f(5) by auto
    let ?s5 = "?s4\<lparr>containers := q_remove (At p) (containers ?s4), kheap := h5\<rparr>"
    have "hlive ?s5 = hlive s" using d(3) f(6) l1 Allocated(5) by (auto simp: hlive_def fun_eq_iff)
    moreover have "containers ?s5 = containers s"
      using f(3) Allocated(7) fresh_unknown(1) [OF inv Allocated(4,5)]
      by (simp add: q_remove_insert_after unlinked_def registered_def)
    moreover have "keeps object_room (dom (hlive s)) ?s4 ?s5" using room_cong [of ?s5 ?s4] by (simp add: keeps_def)
    then have "keeps object_room (dom (hlive s)) s ?s5"
      using k1 keeps_only_at [OF oa p] by (meson keeps_trans)
    ultimately have "created k s RT_NULL ?s5" using d(2) room True by (simp add: created_def)
    then show ?thesis using Allocated(1,3) m(1) \<open>?s2\<lparr>kheap := h\<rparr> = ?s2\<close> True fail [OF inv4 Allocated(3)] d(1) by auto
  next
    case False
    let ?s3 = "?s2\<lparr>kheap := h\<rparr>"
    let ?s5 = "init3 p (init2 a p ?s3)"
    obtain n2 where a: "in_heap ?s2 a" "hlive ?s2 a = None" "live h = (hlive ?s2)(a \<mapsto> n2)"
      "unat n \<le> n2" "unat a + n2 < 2 ^ 32" "n \<noteq> 0" using m(3) False by auto
    have oa: "only_at p ?s3 ?s5" using only_at_trans [OF i2(1) i3(1)] .
    note f = only_at_fields [OF oa]
    have "\<not> queued ?s3 p" using q2(1) by (simp add: queued_def)
    then have "dyn_inv ?s5"
      using q2(2) f2(6) l1 a(3) by (intro dyn_inv_only_at [OF m(2) oa]) (auto simp: hlive_def)
    moreover have ne: "a \<noteq> p" "hlive s a = None" using a(2) f2(6) l1 by (auto split: if_splits)
    moreover have dm: "dom (hlive ?s5) = dom (hlive s) \<union> {p, a}"
      using f(6) a(3) f2(6) l1 by (auto simp: hlive_def)
    moreover have "keeps object_room (dom (hlive s)) ?s2 ?s3" using room_cong [of ?s3 ?s2] by (simp add: keeps_def)
    then have "keeps object_room (dom (hlive s)) s ?s5"
      using k1 keeps_only_at [OF oa2 p] keeps_only_at [OF oa p] by (meson keeps_trans)
    moreover have "containers ?s5 = q_insert_after (object_class k) (At p) (containers s)"
      using f(3) f2(3) Allocated(7) cls(2) by simp
    moreover have "\<not> registered ?s5 (At a)"
      using fresh_unknown(1) [OF inv2 a(1,2)] f(8) by (simp add: registered_def)
    moreover have "ob_type (objects ?s5 (At p)) = of_nat (object_class k)"
      using i1(2) i2(2) i3(2) t1 cls(2) by simp
    moreover have "areas object_room ?s5 k p = {p, a}" using k by (simp add: areas_def)
    moreover have "established k p ?s5"
    proof (rule est)
      show "objects s1 (At p) = fresh_object type name" using Allocated(8) by auto
      show "unat a + unat n < 2 ^ 32" using a(4,5) by linarith
    qed (use False a(6) in simp_all)
    ultimately have "created k s p ?s5"
      using Allocated(3) p k(1) room False by (auto simp: created_def owns_def q_insert_after_def)
    then show ?thesis using Allocated(1,3) m(1) False by auto
  qed
qed

lemma word_multiple_4: "4 dvd unat (n :: u32) \<Longrightarrow> n \<le> 0xfffffffc"
proof -
  assume d: "4 dvd unat n"
  have "unat n < 4 * 1073741824" using unsigned_less [of n] by simp
  then have "unat n \<le> 4 * 1073741823" using d by (auto simp: dvd_def)
  then show ?thesis by (simp add: word_le_nat_alt)
qed

lemma dvd_mod_pow2: "4 dvd (x :: nat) \<Longrightarrow> 2 \<le> k \<Longrightarrow> 4 dvd x mod 2 ^ k"
  by (intro dvd_mod) (auto simp: le_Suc_ex dest!: le_Suc_ex simp: power_add)

lemma unat_ucast_to_16: "unat (ucast (x :: u32) :: u16) = unat x mod 2 ^ 16"
  by transfer (simp add: take_bit_eq_mod nat_mod_distrib)

lemma room_sizes:
  "ucast (a :: u16) * 4 \<le> (0xfffffffc :: u32)"
  "(ucast (ucast (RT_ALIGN n 4) :: u16) + 4) * ucast (b :: u16) \<le> (0xfffffffc :: u32)"
  "(RT_ALIGN n 4 + 4) * c \<le> (0xfffffffc :: u32)"
proof -
  have m: "(x + 4) * y \<le> (0xfffffffc :: u32)" if "4 dvd unat x" for x y
  proof -
    have "unat ((x + 4) * y) = ((unat x + 4) * unat y) mod 2 ^ 32"
      by (simp add: unat_word_ariths mod_simps)
    moreover have "4 dvd (unat x + 4) * unat y" using that by simp
    ultimately show ?thesis using dvd_mod_pow2 [of _ 32] by (intro word_multiple_4) simp
  qed
  show "(RT_ALIGN n 4 + 4) * c \<le> (0xfffffffc :: u32)" by (rule m [OF RT_ALIGN_4_dvd])
  have "4 dvd unat (ucast (ucast (RT_ALIGN n 4) :: u16) :: u32)"
    unfolding unat_ucast_u16 unat_ucast_to_16 by (rule dvd_mod_pow2 [OF RT_ALIGN_4_dvd]) simp
  then show "(ucast (ucast (RT_ALIGN n 4) :: u16) + 4) * ucast (b :: u16) \<le> (0xfffffffc :: u32)" by (rule m)
  show "ucast (a :: u16) * 4 \<le> (0xfffffffc :: u32)"
  proof (rule word_multiple_4)
    have "unat (ucast a * (4 :: u32)) = (unat (ucast a :: u32) * 4) mod 2 ^ 32" by (simp add: unat_word_ariths)
    then show "4 dvd unat (ucast a * (4 :: u32))" using dvd_mod_pow2 [of _ 32] by simp
  qed
qed

lemma mq_room_size:
  fixes k :: u16 and n :: u32
  defines "m \<equiv> ucast (RT_ALIGN n 4) :: u16"
  shows "unat ((ucast m + 4) * ucast k :: u32) = unat k * (unat m + 4)"
proof -
  have "4 dvd unat (RT_ALIGN n 4) mod 2 ^ 16" using RT_ALIGN_4_dvd by (rule dvd_mod_pow2) simp
  then have "4 dvd unat m" unfolding m_def unat_ucast_to_16 .
  then have "unat m \<le> 65532" using unat_u16_less [of m] by (auto simp: dvd_def)
  then have b: "(unat m + 4) * unat k \<le> 65536 * 65535" using unat_u16_less [of k] by (intro mult_mono) simp_all
  have "unat (ucast m + 4 :: u32) = unat m + 4"
    using \<open>unat m \<le> 65532\<close> by (subst unat_add_lem [THEN iffD1]) (simp_all add: unat_ucast_u16)
  then show ?thesis using b by (subst unat_mult_lem [THEN iffD1]) (simp_all add: unat_ucast_u16 mult.commute)
qed

section \<open>The creation routines\<close>

lemmas setter_defs = set_sem_def set_mutex_def set_event_def set_mb_def set_mq_def set_mp_def set_object_def
  set_timer_def set_flag_def rt_ipc_object_init_def

lemma create_sem:
  assumes "dyn_inv s"
  shows "\<exists>p s'. rt_sem_create w name value flag s = Some (p, s') \<and> created (Sem name value flag) s p s'"
proof -
  let ?init = "\<lambda>p s. set_object (At p) (\<lambda>r. r\<lparr>ob_flag := flag\<rparr>) (set_sem p (ucast value) (snd (rt_ipc_object_init p s)))"
  have call: "rt_sem_create w name value flag s = do { (p, s) \<leftarrow> rt_object_allocate w 1 name s;
      if p = RT_NULL then Some (RT_NULL, s) else Some (p, ?init p s) }"
    by (simp add: rt_sem_create_def dyn_invD(9) [OF assms] rt_ipc_object_init_def cong: if_cong)
  show ?thesis unfolding call
    by (rule create_plain [OF assms]) (simp_all add: only_at_def setter_defs)
qed

lemma create_mutex:
  assumes "dyn_inv s"
  shows "\<exists>p s'. rt_mutex_create w name flag s = Some (p, s') \<and> created (Mutex name flag) s p s'"
proof -
  let ?init = "\<lambda>p s. set_object (At p) (\<lambda>r. r\<lparr>ob_flag := flag\<rparr>) (set_mutex p (\<lambda>m. m\<lparr>mtx_value := 1, mtx_owner := RT_NULL,
         mtx_original_priority := 0xff, mtx_hold := 0\<rparr>) (snd (rt_ipc_object_init p s)))"
  have call: "rt_mutex_create w name flag s = do { (p, s) \<leftarrow> rt_object_allocate w 2 name s;
      if p = RT_NULL then Some (RT_NULL, s) else Some (p, ?init p s) }"
    by (simp add: rt_mutex_create_def dyn_invD(9) [OF assms] rt_ipc_object_init_def cong: if_cong)
  show ?thesis unfolding call
    by (rule create_plain [OF assms]) (simp_all add: only_at_def setter_defs mutex_inv_iff)
qed

lemma create_event:
  assumes "dyn_inv s"
  shows "\<exists>p s'. rt_event_create w name flag s = Some (p, s') \<and> created (Event name flag) s p s'"
proof -
  let ?init = "\<lambda>p s. set_event p (\<lambda>_. 0) (snd (rt_ipc_object_init p (set_object (At p) (\<lambda>r. r\<lparr>ob_flag := flag\<rparr>) s)))"
  have call: "rt_event_create w name flag s = do { (p, s) \<leftarrow> rt_object_allocate w 3 name s;
      if p = RT_NULL then Some (RT_NULL, s) else Some (p, ?init p s) }"
    by (simp add: rt_event_create_def dyn_invD(9) [OF assms] rt_ipc_object_init_def cong: if_cong)
  show ?thesis unfolding call
    by (rule create_plain [OF assms]) (simp_all add: only_at_def setter_defs)
qed

lemma create_timer:
  assumes "dyn_inv s"
  shows "\<exists>p s'. rt_timer_create w name f param time flag s = Some (p, s') \<and> created (Timer name f param time flag) s p s'"
proof -
  let ?init = "\<lambda>p. rt_timer_init' (At p) f param time flag"
  have call: "rt_timer_create w name f param time flag s = do { (p, s) \<leftarrow> rt_object_allocate w 8 name s;
      if p = RT_NULL then Some (RT_NULL, s) else Some (p, ?init p s) }"
    by (simp add: rt_timer_create_def)
  show ?thesis unfolding call
    by (rule create_plain [OF assms]) (simp_all add: only_at_def setter_defs rt_timer_init'_def Let_def)
qed

lemma create_mb:
  assumes "dyn_inv s"
  shows "\<exists>p s'. rt_mb_create w1 w2 w3 words name n flag s = Some (p, s') \<and> created (Mb words name n flag) s p s'"
proof -
  let ?i1 = "\<lambda>p s. set_mb p ((mailboxes s p)\<lparr>mb_size := ucast n\<rparr>)
    (snd (rt_ipc_object_init p (set_object (At p) (\<lambda>r. r\<lparr>ob_flag := flag\<rparr>) s)))"
  let ?i2 = "\<lambda>a p s. set_mb p ((mailboxes s p)\<lparr>mb_pool_addr := a, mb_msg_pool := words\<rparr>) s"
  let ?i3 = "\<lambda>p s. (set_mb p ((mailboxes s p)\<lparr>mb_entry := 0, mb_in_offset := 0, mb_out_offset := 0\<rparr>) s)
    \<lparr>tqs := (tqs s)(SuspSender p := [])\<rparr>"
  let ?give_up = "\<lambda>p s. do { s \<leftarrow> rt_object_delete w3 p s; Some (RT_NULL, s) }"
  have call: "rt_mb_create w1 w2 w3 words name n flag s = do { (p, s) \<leftarrow> rt_object_allocate w1 4 name s;
      if p = RT_NULL then Some (RT_NULL, s)
      else do {
        (a, s) \<leftarrow> rt_malloc w2 (ucast (ucast n :: u16) * 4) (?i1 p s);
        if a = RT_NULL then ?give_up p (?i2 a p s) else Some (p, ?i3 p (?i2 a p s)) } }"
    by (simp add: rt_mb_create_def dyn_invD(9) [OF assms] rt_ipc_object_init_def set_mb_def cong: if_cong)
  have "unat (ucast n :: u16) > 0" if "(ucast (ucast n :: u16) :: u32) * 4 \<noteq> 0"
    using that by (cases "(ucast n :: u16) = 0") (simp_all add: unat_gt_0)
  then show ?thesis unfolding call
    by (intro create_roomy [OF assms, of 4 "Mb words name n flag" _ ?i1 ?i2 ?i3 name ?give_up])
      (simp_all add: room_sizes only_at_def setter_defs mb_inv_def mb_contents_def)
qed

lemma create_mp:
  assumes "dyn_inv s"
  shows "\<exists>p s'. rt_mp_create w1 w2 w3 name k n s = Some (p, s') \<and> created (Mp name k n) s p s'"
proof -
  let ?n = "RT_ALIGN n RT_ALIGN_SIZE"
  let ?i1 = "\<lambda>p s. set_mp p (\<lambda>m. m\<lparr>mp_size := (?n + 4) * k\<rparr>) (set_mp p (\<lambda>m. m\<lparr>mp_block_size := ?n\<rparr>) s)"
  let ?i2 = "\<lambda>a p s. set_mp p (\<lambda>m. m\<lparr>mp_start_address := a\<rparr>) s"
  let ?i3' = "\<lambda>p s. set_mp p (\<lambda>m. m\<lparr>mp_suspend_thread_count := 0\<rparr>)
    ((set_mp p (\<lambda>m. m\<lparr>mp_block_free_count := mp_block_total_count m\<rparr>)
      (set_mp p (\<lambda>m. m\<lparr>mp_block_total_count := k\<rparr>) s))\<lparr>tqs := (tqs s)(Susp p := [])\<rparr>)"
  let ?i3 = "\<lambda>p s. mp_link_all p (?i3' p s)"
  let ?give_up = "\<lambda>p s. do { s \<leftarrow> rt_object_delete w3 p s; Some (RT_NULL, s) }"
  have call: "rt_mp_create w1 w2 w3 name k n s = do { (p, s) \<leftarrow> rt_object_allocate w1 6 name s;
      if p = RT_NULL then Some (RT_NULL, s)
      else do {
        (a, s) \<leftarrow> rt_malloc w2 ((?n + 4) * k) (?i1 p s);
        if a = RT_NULL then ?give_up p (?i2 a p s) else Some (p, ?i3 p (?i2 a p s)) } }"
    by (simp add: rt_mp_create_def dyn_invD(9) [OF assms] set_mp_def Let_def cong: if_cong)
  show ?thesis unfolding call
  proof (rule create_roomy [OF assms, of 6 "Mp name k n" _ ?i1 ?i2 ?i3 name ?give_up])
    fix p a and s :: kstate and h
    assume 1: "objects s (At p) = fresh_object 6 name" "a \<noteq> RT_NULL" "(?n + 4) * k \<noteq> 0" "unat a + unat ((?n + 4) * k) < 2 ^ 32"
    let ?s = "?i3' p (?i2 a p ((?i1 p s)\<lparr>kheap := h\<rparr>))"
    have f: "objects (mp_link_all p ?s) = objects s" "tqs (mp_link_all p ?s) (Susp p) = []"
      "mempools (mp_link_all p ?s) p = (mempools ?s p)\<lparr>mp_block_list := mp_start_address (mempools ?s p)\<rparr>"
      by (simp_all add: mp_link_all_def set_mp_def set_link_def Let_def)
    have "mp_ready p (mp_link_all p ?s) \<and> mp_live p (mp_link_all p ?s) = Map.empty" if "object_admissible (Mp name k n)"
    proof -
      let ?m = "mempools ?s p"
      have "0 < unat k" using 1(3) by (cases "k = 0") (simp_all add: unat_gt_0)
      moreover from this that have "(unat ?n + 4) * 1 < 2 ^ 32"
        by (intro le_less_trans [OF mult_le_mono2 [of 1 "unat k" "unat ?n + 4"]]) simp_all
      then have n4: "unat (?n + 4) = unat ?n + 4" by (simp add: unat_word_ariths)
      then have "unat ((?n + 4) * k) = (unat ?n + 4) * unat k" using that by (simp add: unat_word_ariths)
      then have "mp_fits ?m" using 1(2,4) n4 by (simp add: mp_fits_def mp_step_def unat_gt_0 mult.commute)
      ultimately show ?thesis using mp_link_all_ok [of ?m ?s p] by simp
    qed
    then show "established (Mp name k n) p (mp_link_all p ?s)" using 1(1) f by simp
  qed (simp_all add: room_sizes only_at_def setter_defs mp_link_all_def set_link_def Let_def)
qed

lemma mq_init_free_only_at:
  "only_at p s (mq_init_free n p s) \<and> objects (mq_init_free n p s) = objects s \<and>
     mq_msg_pool (mqs (mq_init_free n p s) p) = mq_msg_pool (mqs s p)"
proof (induction n)
  case (Suc n)
  let ?s = "mq_init_free n p s"
  have "only_at p ?s (mq_init_free (Suc n) p s)" by (simp add: only_at_def set_mq_def set_node_def Let_def)
  with only_at_trans Suc have "only_at p s (mq_init_free (Suc n) p s)" by blast
  then show ?case using Suc by (simp add: set_mq_def set_node_def Let_def)
qed (simp add: only_at_def)

text \<open>The last part of \<open>rt_mq_create\<close>, with the area in place.\<close>

definition mq_set_up :: "ptr \<Rightarrow> kstate \<Rightarrow> kstate" where
  "mq_set_up p s = set_mq p (\<lambda>q. q\<lparr>mq_entry := 0\<rparr>) (mq_init_free (unat (mq_max_msgs (mqs s p))) p
    (set_mq p (\<lambda>q. q\<lparr>mq_msg_queue_free := RT_NULL\<rparr>)
      (set_mq p (\<lambda>q. q\<lparr>mq_msg_queue_head := RT_NULL, mq_msg_queue_tail := RT_NULL\<rparr>) s)))"

lemma mq_set_up_only_at:
  "only_at p s (mq_set_up p s)" "objects (mq_set_up p s) = objects s"
  "mq_msg_pool (mqs (mq_set_up p s) p) = mq_msg_pool (mqs s p)"
proof -
  let ?s = "set_mq p (\<lambda>q. q\<lparr>mq_msg_queue_free := RT_NULL\<rparr>)
    (set_mq p (\<lambda>q. q\<lparr>mq_msg_queue_head := RT_NULL, mq_msg_queue_tail := RT_NULL\<rparr>) s)"
  note f = mq_init_free_only_at [of p ?s "unat (mq_max_msgs (mqs s p))"]
  have "only_at p s ?s" by (simp add: only_at_def set_mq_def)
  moreover have "only_at p s' (set_mq p (\<lambda>q. q\<lparr>mq_entry := 0\<rparr>) s')" for s' by (simp add: only_at_def set_mq_def)
  ultimately show "only_at p s (mq_set_up p s)" using f only_at_trans unfolding mq_set_up_def by blast
  show "objects (mq_set_up p s) = objects s" "mq_msg_pool (mqs (mq_set_up p s) p) = mq_msg_pool (mqs s p)"
    using f by (simp_all add: set_mq_def mq_set_up_def)
qed

lemma mq_set_up_ok:
  fixes p s
  defines "a \<equiv> mq_msg_pool (mqs s p)" and "m \<equiv> mq_msg_size (mqs s p)" and "k \<equiv> mq_max_msgs (mqs s p)"
  assumes "a \<noteq> RT_NULL" "unat a + unat k * (unat m + 4) < 2 ^ 32"
  shows "mq_inv p (mq_set_up p s)" "mq_contents p (mq_set_up p s) = []" "length (mq_free p (mq_set_up p s)) = unat k"
    "\<And>x. x \<in> set (mq_free p (mq_set_up p s)) \<Longrightarrow> unat a \<le> unat x \<and> unat x + 4 + unat m \<le> unat a + unat k * (unat m + 4)"
    "mq_msg_size (mqs (mq_set_up p s) p) = m" "tqs (mq_set_up p s) = tqs s"
proof -
  let ?s = "set_mq p (\<lambda>q. q\<lparr>mq_msg_queue_free := RT_NULL\<rparr>)
    (set_mq p (\<lambda>q. q\<lparr>mq_msg_queue_head := RT_NULL, mq_msg_queue_tail := RT_NULL\<rparr>) s)"
  have q: "mq_msg_pool (mqs ?s p) = a" "mq_msg_size (mqs ?s p) = m" "mq_max_msgs (mqs ?s p) = k"
    by (simp_all add: a_def m_def k_def)
  have r: "mq_rep p (mq_set_up p s) [] (rev (map (mq_node a m) [0..<unat k]))"
    and i: "\<And>x. x \<in> set (rev (map (mq_node a m) [0..<unat k])) \<Longrightarrow>
      unat a \<le> unat x \<and> unat x + 4 + unat m \<le> unat a + unat k * (unat m + 4)"
    using mq_init_free_rep [of ?s p, unfolded q, OF assms(4,5)] by (simp_all add: mq_set_up_def k_def)
  show "mq_inv p (mq_set_up p s)" "mq_contents p (mq_set_up p s) = []" "length (mq_free p (mq_set_up p s)) = unat k"
    using mq_repD [OF r] by simp_all
  show "unat a \<le> unat x \<and> unat x + 4 + unat m \<le> unat a + unat k * (unat m + 4)" if "x \<in> set (mq_free p (mq_set_up p s))" for x
    using that i mq_repD(2) [OF r] by simp
  show "mq_msg_size (mqs (mq_set_up p s) p) = m" "tqs (mq_set_up p s) = tqs s"
    by (simp_all add: mq_set_up_def mq_init_free_fields m_def)
qed

lemma create_mq:
  assumes "dyn_inv s"
  shows "\<exists>p s'. rt_mq_create w1 w2 w3 w4 name n k flag s = Some (p, s') \<and> created (Mq name n k flag) s p s'"
proof -
  let ?m = "ucast (RT_ALIGN n 4) :: u16"
  let ?k = "ucast k :: u16"
  let ?i1 = "\<lambda>p s. set_mq p (\<lambda>q. q\<lparr>mq_max_msgs := ?k\<rparr>) (set_mq p (\<lambda>q. q\<lparr>mq_msg_size := ?m\<rparr>)
    (snd (rt_ipc_object_init p (set_object (At p) (\<lambda>r. r\<lparr>ob_flag := flag\<rparr>) s))))"
  let ?i2 = "\<lambda>a p s. set_mq p (\<lambda>q. q\<lparr>mq_msg_pool := a\<rparr>) s"
  let ?give_up = "\<lambda>p s. do { (_, s) \<leftarrow> rt_mq_delete w3 w4 p s; Some (RT_NULL, s) }"
  let ?n = "(ucast ?m + 4) * ucast ?k :: u32"
  have call: "rt_mq_create w1 w2 w3 w4 name n k flag s = do { (p, s) \<leftarrow> rt_object_allocate w1 5 name s;
      if p = RT_NULL then Some (RT_NULL, s)
      else do {
        (a, s) \<leftarrow> rt_malloc w2 ?n (?i1 p s);
        if a = RT_NULL then ?give_up p (?i2 a p s) else Some (p, mq_set_up p (?i2 a p s)) } }"
    by (simp add: rt_mq_create_def mq_set_up_def dyn_invD(9) [OF assms] rt_ipc_object_init_def set_mq_def Let_def cong: if_cong)
  have give_up: "?give_up p (?i2 RT_NULL p (?i1 p s)) =
      do { s \<leftarrow> rt_object_delete w4 p (?i2 RT_NULL p (?i1 p s)); Some (RT_NULL, s) }"
    if "dyn_inv (?i2 RT_NULL p (?i1 p s))" "p \<noteq> RT_NULL" for p s
  proof -
    let ?s = "?i2 RT_NULL p (?i1 p s)"
    have "rt_ipc_list_resume_all (Susp p) ?s = Some ?s"
      by (subst rt_ipc_list_resume_all.simps) (simp add: setter_defs)
    then show ?thesis
      using that dyn_invD(9) [OF that(1)] free_null [OF that(1)] by (simp add: rt_mq_delete_def)
  qed
  have size: "unat ?n = unat ?k * (unat ?m + 4)" by (rule mq_room_size)
  show ?thesis unfolding call
  proof (rule create_roomy [OF assms, of 5 "Mq name n k flag" _ ?i1 ?i2 mq_set_up name ?give_up])
    show "object_room (Mq name n k flag) (mq_set_up p (?i2 a p s)) p = Some a" for a p s
      using mq_set_up_only_at(3) [of p "?i2 a p s"] by (simp add: set_mq_def)
    show "ob_type (objects (mq_set_up p s) (At p)) = ob_type (objects s (At p))" for p s
      by (simp only: mq_set_up_only_at(2))
    fix p a and s :: kstate and h
    assume 1: "objects s (At p) = fresh_object 5 name" "a \<noteq> RT_NULL" "unat a + unat ?n < 2 ^ 32"
    let ?s = "?i2 a p ((?i1 p s)\<lparr>kheap := h\<rparr>)"
    have q: "mq_msg_pool (mqs ?s p) = a" "mq_msg_size (mqs ?s p) = ?m" "mq_max_msgs (mqs ?s p) = ?k" by simp_all
    have "unat a + unat ?k * (unat ?m + 4) < 2 ^ 32" using 1(3) size by linarith
    note ok = mq_set_up_ok [of ?s p, unfolded q, OF 1(2) this]
    show "established (Mq name n k flag) p (mq_set_up p ?s)"
      using ok mq_set_up_only_at(2,3) [of p ?s] 1(1) q(1) by (simp add: setter_defs)
  qed (rule mq_set_up_only_at(1) give_up | simp add: room_sizes only_at_def setter_defs)+
qed

section \<open>Deletion\<close>

lemma dyn_inv_timer_remove: "dyn_inv s \<Longrightarrow> dyn_inv (rt_timer_remove r s)"
proof -
  assume inv: "dyn_inv s"
  let ?s = "rt_timer_remove r s"
  have "hlive ?s = hlive s" "in_heap ?s = in_heap s" "registered ?s = registered s" "heap_ready ?s = heap_ready s"
    "containers ?s = containers s" "heap_sem ?s = heap_sem s"
    by (simp_all add: rt_timer_remove_def hlive_def in_heap_def registered_def heap_ready_def fun_eq_iff)
  moreover have "queued s t" if "queued ?s t" for t using that by (auto simp: rt_timer_remove_def queued_def)
  moreover have "set (timer_list ?s) \<subseteq> set (timer_list s)" by (auto simp: rt_timer_remove_def)
  ultimately show ?thesis
    using inv thread_inv_timer_remove [of s r] unfolding dyn_inv_def registry_ok_def by auto
qed

definition deleted :: "object_kind \<Rightarrow> kstate \<Rightarrow> ptr \<Rightarrow> kstate \<Rightarrow> bool" where
  "deleted k s p s' \<longleftrightarrow> dyn_inv s' \<and> keeps object_room (- areas object_room s k p) s s' \<and>
     dom (hlive s') = dom (hlive s) - areas object_room s k p \<and> containers s' = q_remove (At p) (containers s)"

text \<open>The state after the waiters were woken.\<close>

definition roused :: "kstate \<Rightarrow> kstate \<Rightarrow> bool" where
  "roused s s' \<longleftrightarrow> dyn_inv s' \<and> hlive s' = hlive s \<and> containers s' = containers s \<and> heap_sem s' = heap_sem s \<and>
     (\<forall>q. ob_type (objects s' (At q)) = ob_type (objects s (At q))) \<and> (\<forall>r. object_room r s' = object_room r s)"

lemma roused_trans: "roused s s1 \<Longrightarrow> roused s1 s2 \<Longrightarrow> roused s s2"
  by (simp add: roused_def)

lemma owns_fields:
  assumes "dyn_inv s" "owns object_class object_room k s p"
  shows "\<exists>n. hlive s p = Some n" "p \<noteq> RT_NULL" "p \<noteq> heap_sem s" "ob_type (objects s (At p)) AND 0x80 = 0"
proof -
  show l: "\<exists>n. hlive s p = Some n" using assms(2) by (auto simp: owns_def areas_def)
  then show "p \<noteq> RT_NULL" "p \<noteq> heap_sem s"
    using dyn_live_in_heap [OF assms(1), of p] dyn_invD(3) [OF assms(1)] by auto
  show "ob_type (objects s (At p)) AND 0x80 = 0" using assms(2) by (cases k) (simp_all add: owns_def)
qed

lemma owns_roused: "owns object_class object_room k s p \<Longrightarrow> roused s s1 \<Longrightarrow> owns object_class object_room k s1 p"
  by (simp add: owns_def roused_def areas_def registered_def)

lemma delete_control_block:
  assumes inv: "dyn_inv s" and o: "owns object_class object_room k s p" and t: "At p \<notin> set (timer_list s)"
    and l: "hlive s p = Some n"
  shows "\<exists>s'. rt_object_delete w p s = Some s' \<and> dyn_inv s' \<and> hlive s' = (hlive s)(p := None) \<and>
    containers s' = q_remove (At p) (containers s) \<and> objects s' = objects s \<and> (\<forall>r. object_room r s' = object_room r s)"
proof -
  have "At p \<in> set (containers s (object_class k))" "object_class k \<noteq> 0" using o by (cases k; simp add: owns_def)+
  from class_unlinked [OF inv _ this] l have u: "\<not> queued s p" "\<not> registered s (TmrOf p)" by simp_all
  from delete_dyn [OF inv l owns_fields(4) [OF inv o] u t, of w] show ?thesis
    by (auto simp: hlive_def intro!: room_cong)
qed

lemma delete_plain:
  assumes o: "owns object_class object_room k s p" and r: "roused s s1" and t: "At p \<notin> set (timer_list s1)"
    and k: "\<And>s. object_room k s p = None"
  shows "\<exists>s'. rt_object_delete w p s1 = Some s' \<and> deleted k s p s'"
proof -
  have inv: "dyn_inv s1" using r by (simp add: roused_def)
  note o1 = owns_roused [OF o r]
  obtain n where n: "hlive s1 p = Some n" using owns_fields(1) [OF inv o1] by blast
  from delete_control_block [OF inv o1 t n, of w] r k show ?thesis
    by (auto simp: deleted_def roused_def keeps_def areas_def)
qed

lemma delete_roomy:
  assumes o: "owns object_class object_room k s p" and r: "roused s s1" and t: "At p \<notin> set (timer_list s1)"
    and a: "object_room k s1 p = Some a"
  shows "\<exists>s'. do { s \<leftarrow> rt_free w1 a s1; rt_object_delete w2 p s } = Some s' \<and> deleted k s p s'"
proof -
  have inv: "dyn_inv s1" using r by (simp add: roused_def)
  note o1 = owns_roused [OF o r]
  have a1: "a \<noteq> p" "\<not> registered s1 (At a)" "\<exists>n. hlive s1 a = Some n" using o1 a by (auto simp: owns_def areas_def)
  then obtain h where f: "rt_free w1 a s1 = Some (s1\<lparr>kheap := h\<rparr>)" "dyn_inv (s1\<lparr>kheap := h\<rparr>)" "live h = (hlive s1)(a := None)"
    using free_dyn [OF inv] by blast
  let ?s2 = "s1\<lparr>kheap := h\<rparr>"
  have room: "object_room r ?s2 = object_room r s1" for r by (rule room_cong) simp_all
  obtain n where n: "hlive s1 p = Some n" using owns_fields(1) [OF inv o1] by blast
  then have n2: "hlive ?s2 p = Some n" using f(3) a1(1) by (simp add: hlive_def)
  have u: "\<not> queued ?s2 p" "\<not> registered ?s2 (TmrOf p)"
    using class_unlinked [OF inv, of p "object_class k"] n o1
    by (cases k; simp add: owns_def queued_def registered_def)+
  have "ob_type (objects ?s2 (At p)) AND 0x80 = 0" using owns_fields(4) [OF inv o1] by simp
  from delete_dyn [OF f(2) n2 this u, of w2] t obtain h' where
    d: "rt_object_delete w2 p ?s2 = Some (?s2\<lparr>containers := q_remove (At p) (containers ?s2), kheap := h'\<rparr>)"
      "dyn_inv (?s2\<lparr>containers := q_remove (At p) (containers ?s2), kheap := h'\<rparr>)" "live h' = (hlive ?s2)(p := None)" by auto
  let ?s3 = "?s2\<lparr>containers := q_remove (At p) (containers ?s2), kheap := h'\<rparr>"
  have "object_room r ?s3 = object_room r s1" for r by (rule room_cong) simp_all
  then have "keeps object_room X s ?s3" for X using r by (simp add: keeps_def roused_def)
  moreover have "dom (hlive ?s3) = dom (hlive s) - areas object_room s k p"
    using d(3) f(3) r a by (auto simp: roused_def hlive_def areas_def split: if_splits)
  ultimately have "deleted k s p ?s3" using d(2) r by (simp add: deleted_def roused_def)
  then show ?thesis using f(1) d(1) by auto
qed

text \<open>Waking the waiters of an object.\<close>

lemma rouse:
  assumes inv: "dyn_inv s" and p: "p \<noteq> heap_sem s"
  shows "\<exists>s'. rt_ipc_list_resume_all (Susp p) s = Some s' \<and> roused s s'"
    "\<exists>s'. rt_ipc_list_resume_all (SuspSender p) s = Some s' \<and> roused s s'"
    "\<exists>s'. mp_wake_all p s = Some s' \<and> roused s s'"
proof -
  have *: "roused s s'" if "dyn_inv s'" "hlive s' = hlive s" "containers s' = containers s" "mailboxes s' = mailboxes s"
    "mqs s' = mqs s" "waking_frame s s'" "heap_sem s' = heap_sem s" for s'
    using that room_cong [of s' s] by (auto simp: roused_def waking_frame_def)
  show "\<exists>s'. rt_ipc_list_resume_all (Susp p) s = Some s' \<and> roused s s'"
    by (rule resume_all_dyn [OF inv, of "Susp p"]) (use p * in \<open>auto simp: wait_list_simps\<close>)
  show "\<exists>s'. rt_ipc_list_resume_all (SuspSender p) s = Some s' \<and> roused s s'"
    by (rule resume_all_dyn [OF inv, of "SuspSender p"]) (use * in \<open>auto simp: wait_list_simps\<close>)
  obtain s' where s': "mp_wake_all p s = Some s'" "dyn_inv s'" "hlive s' = hlive s" "containers s' = containers s"
    "waking_frame (s\<lparr>mempools := mempools s'\<rparr>) s'" "\<And>q. q \<noteq> p \<Longrightarrow> mempools s' q = mempools s q"
    "mp_start_address (mempools s' p) = mp_start_address (mempools s p)" "mailboxes s' = mailboxes s" "mqs s' = mqs s"
    by (rule mp_wake_all_dyn [OF inv p]) blast
  have "mp_start_address (mempools s' q) = mp_start_address (mempools s q)" for q using s'(6,7) by (cases "q = p") simp_all
  then have "object_room r s' = object_room r s" for r using s'(8,9) by (cases r) (simp_all add: fun_eq_iff)
  then have "roused s s'" using s'(2-5) by (simp add: roused_def waking_frame_def)
  then show "\<exists>s'. mp_wake_all p s = Some s' \<and> roused s s'" using s'(1) by blast
qed

lemma not_in_timer_list:
  assumes "roused s s1" "owns object_class object_room k s p" "object_class k \<noteq> 8"
  shows "At p \<notin> set (timer_list s1)"
proof -
  have inv: "dyn_inv s1" using assms(1) by (simp add: roused_def)
  have o: "owns object_class object_room k s1 p" by (rule owns_roused [OF assms(2,1)])
  obtain n where "hlive s1 p = Some n" using owns_fields(1) [OF inv o] by blast
  then show ?thesis
    using class_unlinked(3) [OF inv, of p "object_class k"] o assms(3) by (cases k) (simp_all add: owns_def)
qed

lemma delete_law_object:
  assumes inv: "dyn_inv s" and o: "owns object_class object_room k s p"
  shows "\<exists>s'. delete_object w k p s = Some (RT_EOK, s') \<and> deleted k s p s'"
proof -
  note f = owns_fields [OF inv o]
  note nt = not_in_timer_list [OF _ o]
  obtain s1 where s1: "rt_ipc_list_resume_all (Susp p) s = Some s1" "roused s s1" using rouse(1) [OF inv f(3)] by blast
  have plain: "\<exists>s'. rt_object_delete w p s1 = Some s' \<and> deleted k s p s'"
    if "object_class k \<noteq> 8" "\<And>s. object_room k s p = None"
    by (rule delete_plain [OF o s1(2) nt [OF s1(2) that(1)] that(2)])
  show ?thesis
  proof (cases k)
    case (Mb words name n flag)
    have "p \<noteq> heap_sem s1" "dyn_inv s1" using s1(2) f(3) by (simp_all add: roused_def)
    then obtain s2 where s2: "rt_ipc_list_resume_all (SuspSender p) s1 = Some s2" "roused s s2"
      using rouse(2) roused_trans [OF s1(2)] by blast
    show ?thesis
      using delete_roomy [OF o s2(2) nt [OF s2(2)], of "mb_pool_addr (mailboxes s2 p)" w w] Mb s1(1) s2(1) f(2)
      by (auto simp: rt_mb_delete_def dyn_invD(9) [OF inv] bind_eq_Some_conv)
  next
    case (Mq name n m flag)
    then show ?thesis
      using delete_roomy [OF o s1(2) nt [OF s1(2)], of "mq_msg_pool (mqs s1 p)" w w] s1(1) f(2)
      by (auto simp: rt_mq_delete_def dyn_invD(9) [OF inv] bind_eq_Some_conv)
  next
    case (Mp name n m)
    obtain s2 where s2: "mp_wake_all p s = Some s2" "roused s s2" using rouse(3) [OF inv f(3)] by blast
    show ?thesis
      using delete_roomy [OF o s2(2) nt [OF s2(2)], of "mp_start_address (mempools s2 p)" w w] Mp s2(1) f(2)
      by (auto simp: rt_mp_delete_def dyn_invD(9) [OF inv] bind_eq_Some_conv)
  next
    case (Timer name g param time flag)
    let ?s = "rt_timer_remove (At p) s"
    have "roused s ?s"
      using inv dyn_inv_timer_remove [OF inv] room_cong [of ?s s] by (simp add: roused_def rt_timer_remove_def hlive_def)
    moreover have "At p \<notin> set (timer_list ?s)" by (simp add: rt_timer_remove_def)
    ultimately show ?thesis
      using delete_plain [OF o, of ?s w] Timer f(2) by (auto simp: rt_timer_delete_def bind_eq_Some_conv)
  qed (use plain s1(1) f(2) in \<open>auto simp: rt_sem_delete_def rt_mutex_delete_def rt_event_delete_def dyn_invD(9) [OF inv]
    bind_eq_Some_conv\<close>)
qed

section \<open>The contract holds\<close>

lemma create_law_object:
  assumes "dyn_inv s"
  shows "\<exists>p s'. create_object w k s = Some (p, s') \<and> created k s p s'"
  using create_sem [OF assms] create_mutex [OF assms] create_event [OF assms] create_mb [OF assms]
    create_mq [OF assms] create_mp [OF assms] create_timer [OF assms]
  by (cases k) simp_all

interpretation kernel_objects: dynamic_objects "create_object w" "delete_object w" object_class object_room object_admissible
  for w
proof (unfold_locales, goal_cases)
  case (1 s k)
  from create_law_object [OF 1(1), of w k] show ?case unfolding created_def by blast
next
  case (2 s k p)
  from delete_law_object [OF 2, of w] show ?case unfolding deleted_def by blast
qed

section \<open>Properties\<close>

text \<open>
  \<open>rt_sem_create\<close>, \<open>rt_mutex_create\<close>, \<open>rt_event_create\<close>, \<open>rt_mb_create\<close>, \<open>rt_mq_create\<close>, \<open>rt_mp_create\<close> and
  \<open>rt_timer_create\<close> return, and keep the invariant of the dynamic objects.  They return \<open>RT_NULL\<close> exactly when
  the heap has no room for the control block or for the second area, and then no area is kept and no object
  registered, even when the control block had been allocated already.  Otherwise the object is new, in the
  initial state of its class, registered, and its areas are the only new live ones.  The blocks of a memory pool
  must not overflow 32 bits: \<open>rt_mp_create\<close> does not check this, and would link blocks beyond its area.
\<close>

theorem create_object_correct:
  assumes "dyn_inv s" "object_admissible k"
  shows "\<exists>p s'. create_object w k s = Some (p, s') \<and> dyn_inv s' \<and> (p = RT_NULL \<longleftrightarrow> no_room k (kheap s)) \<and>
    (if p = RT_NULL then hlive s' = hlive s \<and> containers s' = containers s
     else established k p s' \<and> areas object_room s' k p \<inter> dom (hlive s) = {} \<and>
       dom (hlive s') = dom (hlive s) \<union> areas object_room s' k p \<and>
       containers s' = q_insert_after (object_class k) (At p) (containers s))"
  using create_law_object [OF assms(1), of w k] unfolding created_def by (metis (full_types))

theorem create_object_correct_witness:
  "\<exists>s p s'. rt_system_heap_init 0x1000 0x2000 boot = Some s \<and>
     create_object id (Sem [115] 3 0) s = Some (p, s') \<and> p \<noteq> RT_NULL \<and> sem_value (sems s' p) = 3"
proof -
  obtain s where s: "rt_system_heap_init 0x1000 0x2000 boot = Some s" "dyn_inv s"
    "kheap s = (heap_init 0x1000 0x2000 (kheap boot))\<lparr>lfree := 0\<rparr>" "blocks (kheap s) = [0]" by (rule boot_dyn)
  have "\<not> no_room (Sem [115] 3 0) (kheap s)" using boot_room [OF s(3,4), of 32] by (simp add: no_room_def object_size_def)
  then show ?thesis using create_object_correct [OF s(2), of "Sem [115] 3 0" id] s(1) by auto
qed

text \<open>
  C27. No leak and no dangling object: after any sequence of creations and deletions of kernel objects, all of
  which return, the areas the heap has handed out are those it had before and those of the objects still
  held; these objects are registered under their class, and no two of them share an area.  As before,
  the blocks of a memory pool must not overflow 32 bits.
\<close>

theorem dynamic_objects_no_leak:
  assumes "dyn_inv s" "\<forall>k. Create k \<in> set os \<longrightarrow> object_admissible k"
  shows "\<exists>held s'. life_run (create_object w) (delete_object w) os [] s = Some (held, s') \<and> dyn_inv s' \<and>
    distinct (map snd held) \<and> (\<forall>k p. (k, p) \<in> set held \<longrightarrow> owns object_class object_room k s' p) \<and>
    (\<forall>k p k' p'. (k, p) \<in> set held \<longrightarrow> (k', p') \<in> set held \<longrightarrow> p' \<noteq> p \<longrightarrow>
       areas object_room s' k p \<inter> areas object_room s' k' p' = {}) \<and>
    dom (hlive s') = dom (hlive s) \<union> held_areas object_room held s' \<and>
    held_areas object_room held s' \<inter> dom (hlive s) = {}"
  using assms by (rule kernel_objects.run_no_leak)

theorem dynamic_objects_no_leak_witness:
  "\<exists>s held s'. rt_system_heap_init 0x1000 0x2000 boot = Some s \<and>
     life_run (create_object id) (delete_object id)
       [Create (Mp [112] 4 8), Create (Mq [113] 8 2 0), Delete 1, Create (Sem [115] 0 0)] [] s = Some (held, s') \<and>
     dom (hlive s') = held_areas object_room held s'"
proof -
  obtain s where s: "rt_system_heap_init 0x1000 0x2000 boot = Some s" "dyn_inv s" "hlive s = Map.empty" by (rule boot_dyn)
  show ?thesis
    using dynamic_objects_no_leak [OF s(2),
      of "[Create (Mp [112] 4 8), Create (Mq [113] 8 2 0), Delete 1, Create (Sem [115] 0 0)]" id] s(1,3)
    by (auto simp: RT_ALIGN_def)
qed

end
