(* ===== verification/Thread_Life.thy ===== *)
theory Thread_Life
  imports Create_Props
begin

text \<open>
  Threads on the heap, from \<open>rt_thread_create\<close> through \<open>rt_thread_startup\<close> and \<open>rt_thread_delete\<close> to the idle
  thread, which frees the stack and the control block.  The lemmas say what each step does to the invariant
  of the dynamic objects, to the live areas of the heap and to the object containers.
\<close>

section \<open>The idle thread\<close>

definition stack_of :: "kstate \<Rightarrow> ptr \<Rightarrow> ptr" where
  "stack_of s t = th_stack_addr (threads s t)"

text \<open>A thread whose control block and stack are areas of the heap of their own.\<close>

definition heap_thread :: "kstate \<Rightarrow> ptr \<Rightarrow> bool" where
  "heap_thread s t \<longleftrightarrow> hlive s t \<noteq> None \<and> hlive s (stack_of s t) \<noteq> None \<and> stack_of s t \<noteq> t \<and>
     \<not> registered s (At (stack_of s t)) \<and> ob_type (objects s (At t)) = RT_Object_Class_Thread \<and>
     th_cleanup (threads s t) = RT_NULL"

text \<open>One that is closed as well: its timer is detached.\<close>

definition reclaimable :: "kstate \<Rightarrow> ptr \<Rightarrow> bool" where
  "reclaimable s t \<longleftrightarrow> heap_thread s t \<and> \<not> registered s (TmrOf t) \<and> TmrOf t \<notin> set (timer_list s)"

lemma dyn_inv_undefunct:
  assumes inv: "dyn_inv s" and t: "t \<in> set (tqs s Defunct)"
  shows "dyn_inv (s\<lparr>tqs := q_remove t (tqs s)\<rparr>)"
proof -
  let ?s = "s\<lparr>tqs := q_remove t (tqs s)\<rparr>"
  have wf: "wf_queues (tqs s)" by (rule ready_invD(1) [OF thread_invD(1) [OF dyn_invD(2) [OF inv]]])
  have other: "t \<notin> set (tqs s q)" if "q \<noteq> Defunct" for q using wf_queuesD(2) [OF wf t, of q] that by auto
  have tq: "tqs ?s q = tqs s q" if "q \<noteq> Defunct" for q using other [OF that] by (simp add: q_remove_def)
  have "thread_inv ?s"
  proof (rule thread_invI)
    show "ready_inv ?s" by (rule ready_inv_q_remove [OF thread_invD(1) [OF dyn_invD(2) [OF inv]] other]) simp
    show "good ?s u" if "u \<in> set (tqs ?s q)" "q \<noteq> Defunct" for u q
      using thread_invD(2) [OF dyn_invD(2) [OF inv], of u q] that tq by (simp add: good_def periodic_def)
    show "th_stat (threads ?s u) = RT_THREAD_SUSPEND" if "u \<in> set (tqs ?s q)" "q \<noteq> Defunct" "\<And>p. q \<noteq> Ready p" for u q
      using thread_invD(3) [OF dyn_invD(2) [OF inv], of u q] that tq by simp
  qed (use thread_invD(4,5) [OF dyn_invD(2) [OF inv]] in \<open>auto simp: good_def periodic_def activated_def\<close>)
  moreover have "heap_ready ?s = heap_ready s" using tq by (simp add: heap_ready_def)
  moreover have "queued s p" if "queued ?s p" for p using that by (auto simp: queued_def q_remove_def)
  moreover have "in_heap ?s = in_heap s" "hlive ?s = hlive s" "registered ?s = registered s"
    by (auto simp: in_heap_def hlive_def registered_def fun_eq_iff)
  ultimately show ?thesis using inv by (auto simp: dyn_inv_def registry_ok_def)
qed

text \<open>What one round of the loop leaves when it frees thread \<open>t\<close>.\<close>

definition freed :: "ptr \<Rightarrow> kstate \<Rightarrow> kstate \<Rightarrow> bool" where
  "freed t s s' \<longleftrightarrow> dyn_inv s' \<and> (\<exists>h. s' = s\<lparr>tqs := q_remove t (tqs s), containers := q_remove (At t) (containers s), kheap := h\<rparr>) \<and>
     hlive s' = (hlive s)(stack_of s t := None, t := None)"

lemma idle_step:
  assumes inv: "dyn_inv s" and d: "tqs s Defunct = t # ts" and r: "reclaimable s t"
  shows "\<exists>s'. rt_thread_idle_excute cleanup ws k s = rt_thread_idle_excute cleanup ws (Suc (Suc k)) s' \<and> freed t s s'"
proof -
  let ?s = "s\<lparr>tqs := q_remove t (tqs s)\<rparr>" and ?a = "stack_of s t"
  note r' = r [unfolded reclaimable_def heap_thread_def]
  have t: "t \<in> set (tqs s Defunct)" using d by simp
  have inv1: "dyn_inv ?s" by (rule dyn_inv_undefunct [OF inv t])
  obtain n m where l: "hlive s t = Some n" "hlive s ?a = Some m" using r' by auto
  have eqs: "hlive ?s = hlive s" "registered ?s = registered s" by (auto simp: hlive_def registered_def fun_eq_iff)
  from free_dyn [OF inv1, of ?a m "ws k"] l r' eqs obtain h where
    f: "rt_free (ws k) ?a ?s = Some (?s\<lparr>kheap := h\<rparr>)" "dyn_inv (?s\<lparr>kheap := h\<rparr>)" "live h = (hlive s)(?a := None)" by auto
  let ?s2 = "?s\<lparr>kheap := h\<rparr>"
  have c0: "At t \<in> set (containers s 0)"
    using dyn_invD(6) [OF inv, of t] dyn_live_in_heap [OF inv, of t] l t by (auto simp: queued_def)
  have "At t \<notin> set (timer_list s)"
    using dyn_invD(8) [OF inv, of t] dyn_live_in_heap [OF inv, of t] l c0
      wf_queuesD(2) [OF dyn_invD(4) [OF inv], of "At t" 0 8] by auto
  moreover have "\<not> queued ?s2 t" using r' by (auto simp: queued_def q_remove_def)
  moreover have "\<not> registered ?s2 (TmrOf t)" using r' by (simp add: registered_def)
  moreover have "hlive ?s2 t = Some n" using f(3) l r' by (auto simp: hlive_def)
  ultimately obtain h' where
    e: "rt_object_delete (ws (Suc k)) t ?s2 = Some (?s2\<lparr>containers := q_remove (At t) (containers ?s2), kheap := h'\<rparr>)"
      "dyn_inv (?s2\<lparr>containers := q_remove (At t) (containers ?s2), kheap := h'\<rparr>)" "live h' = (hlive ?s2)(t := None)"
    using delete_dyn [OF f(2), of t n "ws (Suc k)"] r' by auto
  let ?s3 = "?s2\<lparr>containers := q_remove (At t) (containers ?s2), kheap := h'\<rparr>"
  have "t \<noteq> RT_NULL" using dyn_live_in_heap [OF inv, of t] l by simp
  then have "rt_thread_idle_excute cleanup ws k s = rt_thread_idle_excute cleanup ws (Suc (Suc k)) ?s3"
    using d r' dyn_invD(9) [OF inv] f(1) e(1)
    by (subst rt_thread_idle_excute.simps) (simp add: rt_object_is_systemobject_def stack_of_def)
  moreover have "freed t s ?s3" using e(2,3) f(3) by (auto simp: freed_def hlive_def)
  ultimately show ?thesis by blast
qed

lemma reclaimable_freed:
  assumes inv: "dyn_inv s" and f: "freed t s s'" and u: "reclaimable s u" "u \<in> set (tqs s Defunct)" "u \<noteq> t"
    "stack_of s u \<noteq> stack_of s t" and t: "t \<in> set (tqs s Defunct)" "reclaimable s t"
  shows "reclaimable s' u"
proof -
  have reg: "registered s (At p)" if "p \<in> set (tqs s Defunct)" "hlive s p \<noteq> None" for p
    using dyn_invD(6) [OF inv, of p] dyn_live_in_heap [OF inv that(2)] that(1) by (auto simp: queued_def registered_def)
  have "stack_of s u \<noteq> t" "stack_of s t \<noteq> u"
    using reg [OF t(1)] reg [OF u(2)] u(1) t(2) by (auto simp: reclaimable_def heap_thread_def)
  then show ?thesis
    using f u by (auto simp: freed_def reclaimable_def heap_thread_def stack_of_def registered_def q_remove_def)
qed

text \<open>The threads of the list up to the first static one are freed.\<close>

lemma idle_run:
  assumes "dyn_inv s" "tqs s Defunct = ds @ rest" "distinct (map (stack_of s) ds)" "\<forall>t \<in> set ds. reclaimable s t"
  shows "\<exists>s' k'. rt_thread_idle_excute cleanup ws k s = rt_thread_idle_excute cleanup ws k' s' \<and> dyn_inv s' \<and>
    tqs s' = (tqs s)(Defunct := rest) \<and> hlive s' = hlive s |` (- (set ds \<union> stack_of s ` set ds)) \<and>
    (\<forall>c. containers s' c = filter (\<lambda>r. r \<notin> At ` set ds) (containers s c)) \<and>
    (\<exists>q c h. s' = s\<lparr>tqs := q, containers := c, kheap := h\<rparr>)"
  using assms
proof (induction ds arbitrary: s k)
  case Nil
  have "s = s\<lparr>tqs := tqs s, containers := containers s, kheap := kheap s\<rparr>" by simp
  then have "\<exists>q c h. s = s\<lparr>tqs := q, containers := c, kheap := h\<rparr>" by blast
  then show ?case using Nil by (intro exI [of _ s] exI [of _ k]) auto
next
  case (Cons t ds)
  have d: "tqs s Defunct = t # (ds @ rest)" using Cons.prems(2) by simp
  have wf: "wf_queues (tqs s)" by (rule ready_invD(1) [OF thread_invD(1) [OF dyn_invD(2) [OF Cons.prems(1)]]])
  have td: "t \<in> set (tqs s Defunct)" "t \<notin> set (ds @ rest)" using d wf_queuesD(1) [OF wf, of Defunct] by auto
  obtain s1 where s1: "rt_thread_idle_excute cleanup ws k s = rt_thread_idle_excute cleanup ws (Suc (Suc k)) s1" "freed t s s1"
    using idle_step [OF Cons.prems(1) d, of cleanup ws k] Cons.prems(4) by auto
  then obtain h where s1': "s1 = s\<lparr>tqs := q_remove t (tqs s), containers := q_remove (At t) (containers s), kheap := h\<rparr>"
    "dyn_inv s1" "hlive s1 = (hlive s)(stack_of s t := None, t := None)" by (auto simp: freed_def)
  have tq: "q_remove t (tqs s) = (tqs s)(Defunct := ds @ rest)"
    using wf_queuesD(2) [OF wf td(1)] td(2) d by (auto simp: q_remove_def fun_eq_iff intro!: removeAll_id)
  have st: "stack_of s1 = stack_of s" by (simp add: s1'(1) stack_of_def fun_eq_iff)
  have "\<forall>u \<in> set ds. reclaimable s1 u"
  proof
    fix u assume u: "u \<in> set ds"
    then have "stack_of s u \<noteq> stack_of s t" using Cons.prems(3) by (auto simp: image_iff)
    then show "reclaimable s1 u"
      using reclaimable_freed [OF Cons.prems(1) s1(2)] u td Cons.prems(2,4) by auto
  qed
  moreover have "tqs s1 Defunct = ds @ rest" "distinct (map (stack_of s1) ds)"
    using Cons.prems(3) tq st by (simp_all add: s1'(1))
  ultimately obtain s' k' where
    s': "rt_thread_idle_excute cleanup ws (Suc (Suc k)) s1 = rt_thread_idle_excute cleanup ws k' s'" "dyn_inv s'"
      "tqs s' = (tqs s1)(Defunct := rest)" "hlive s' = hlive s1 |` (- (set ds \<union> stack_of s ` set ds))"
      "\<forall>c. containers s' c = filter (\<lambda>r. r \<notin> At ` set ds) (containers s1 c)"
      "\<exists>q c h. s' = s1\<lparr>tqs := q, containers := c, kheap := h\<rparr>"
    using Cons.IH [OF s1'(2), of "Suc (Suc k)"] unfolding st by blast
  have "hlive s' = hlive s |` (- (set (t # ds) \<union> stack_of s ` set (t # ds)))"
    unfolding s'(4) s1'(3) by (auto simp: restrict_map_def fun_eq_iff)
  moreover have "containers s' c = filter (\<lambda>r. r \<notin> At ` set (t # ds)) (containers s c)" for c
    using s'(5) by (auto simp: s1'(1) q_remove_def removeAll_filter_not_eq intro: filter_cong)
  moreover have "tqs s' = (tqs s)(Defunct := rest)" using s'(3) tq by (simp add: s1'(1))
  moreover have "\<exists>q c h. s' = s\<lparr>tqs := q, containers := c, kheap := h\<rparr>" using s'(6) by (auto simp: s1'(1))
  moreover have "rt_thread_idle_excute cleanup ws k s = rt_thread_idle_excute cleanup ws k' s'" using s1(1) s'(1) by simp
  ultimately show ?case using s'(2) by blast
qed

text \<open>A static thread ends the call.\<close>

lemma idle_static:
  assumes "dyn_inv s" "tqs s Defunct = t # ts" "ob_type (objects s (At t)) AND 0x80 \<noteq> 0"
    and c: "\<And>f u s. ob_type (objects (cleanup f u s) (At u)) = ob_type (objects s (At u))" and t: "t \<noteq> RT_NULL"
  shows "rt_thread_idle_excute cleanup ws k s =
    (let s1 = s\<lparr>tqs := q_remove t (tqs s)\<rparr>; f = th_cleanup (threads s t) in Some (if f \<noteq> RT_NULL then cleanup f t s1 else s1))"
  using assms(2,3) dyn_invD(9) [OF assms(1)] t
  by (subst rt_thread_idle_excute.simps) (simp add: rt_object_is_systemobject_def Let_def c)

lemma idle_empty: "tqs s Defunct = [] \<Longrightarrow> rt_thread_idle_excute cleanup ws k s = Some s"
  by (subst rt_thread_idle_excute.simps) simp

section \<open>Deletion\<close>

text \<open>A thread that was started: its number mask is that of its priority.\<close>

lemma rt_thread_delete_eq:
  assumes "t \<noteq> RT_NULL" "prio_ok (threads s t)"
  shows "rt_thread_delete t s = Some (RT_EOK,
    (set_thread t (\<lambda>th. th\<lparr>th_stat := RT_THREAD_CLOSE\<rparr>) (rt_timer_remove (TmrOf t) (the (rt_schedule_remove_thread t s))))
      \<lparr>containers := q_remove (TmrOf t) (containers s), tqs := q_insert_after Defunct t (q_remove t (tqs s))\<rparr>)"
  using assms
  by (simp add: rt_thread_delete_def rt_schedule_remove_thread_eq prio_ok_def rt_timer_detach_def rt_object_detach_def
      set_thread_def rt_timer_remove_def)

lemma delete_thread_dyn:
  assumes inv: "dyn_inv s" and t: "hlive s t \<noteq> None" "At t \<in> set (containers s 0)" "prio_ok (threads s t)"
  shows "\<exists>s'. rt_thread_delete t s = Some (RT_EOK, s') \<and> dyn_inv s' \<and> hlive s' = hlive s \<and>
    containers s' = q_remove (TmrOf t) (containers s) \<and> tqs s' = q_insert_after Defunct t (q_remove t (tqs s)) \<and>
    objects s' = objects s \<and> threads s' = (threads s)(t := (threads s t)\<lparr>th_stat := RT_THREAD_CLOSE\<rparr>) \<and>
    timer_list s' = removeAll (TmrOf t) (timer_list s)"
proof -
  let ?p = "unat (th_current_priority (threads s t))"
  have t0: "t \<noteq> RT_NULL" "in_heap s t" using dyn_live_in_heap [OF inv t(1)] by auto
  have p: "?p < 32" using t(3) by (simp add: prio_ok_def)
  note eq = rt_schedule_remove_thread_eq [OF t0(1) p]
  define s1 where "s1 = the (rt_schedule_remove_thread t s)"
  have s1: "rt_schedule_remove_thread t s = Some s1" "tqs s1 = q_remove t (tqs s)" "threads s1 = threads s"
    "timers s1 = timers s" "objects s1 = objects s" "timer_list s1 = timer_list s" "kheap s1 = kheap s"
    "heap_sem s1 = heap_sem s" "sems s1 = sems s" "rt_interrupt_nest s1 = rt_interrupt_nest s" "containers s1 = containers s"
    unfolding s1_def eq by simp_all
  define s' where "s' = (set_thread t (\<lambda>th. th\<lparr>th_stat := RT_THREAD_CLOSE\<rparr>) (rt_timer_remove (TmrOf t) s1))
    \<lparr>containers := q_remove (TmrOf t) (containers s), tqs := q_insert_after Defunct t (q_remove t (tqs s))\<rparr>"
  have call: "rt_thread_delete t s = Some (RT_EOK, s')"
    unfolding s'_def s1_def by (rule rt_thread_delete_eq [OF t0(1) t(3)])
  have f: "tqs s' = q_insert_after Defunct t (q_remove t (tqs s))" "containers s' = q_remove (TmrOf t) (containers s)"
    "threads s' = (threads s)(t := (threads s t)\<lparr>th_stat := RT_THREAD_CLOSE\<rparr>)" "objects s' = objects s" "timers s' = timers s"
    "timer_list s' = removeAll (TmrOf t) (timer_list s)" "kheap s' = kheap s" "heap_sem s' = heap_sem s" "sems s' = sems s"
    "rt_interrupt_nest s' = rt_interrupt_nest s" "ready_group s' = ready_group s1"
    by (simp_all add: s'_def set_thread_def rt_timer_remove_def s1)
  have tq: "set (tqs s' q) = (if q = Defunct then insert t (set (tqs s q)) else set (tqs s q) - {t})" for q
    by (auto simp: f q_insert_after_def q_remove_def)
  have ti: "thread_inv s'"
  proof (rule thread_invI)
    have r1: "ready_inv s1" by (rule ready_inv_remove [OF thread_invD(1) [OF dyn_invD(2) [OF inv]] t(3) s1(1)])
    have "wf_queues (tqs s')" unfolding f(1) using ready_invD(1) [OF r1] s1(2) by auto
    moreover have "tqs s' (Ready r) = tqs s1 (Ready r)" for r by (simp add: f(1) s1(2) q_insert_after_def)
    moreover have "u \<noteq> t" if "u \<in> set (tqs s1 (Ready r))" for u r using that by (auto simp: s1(2) q_remove_def)
    ultimately show "ready_inv s'"
      using r1 unfolding ready_inv_def f(3,11) by (auto simp: s1(3))
  next
    fix u q assume u: "u \<in> set (tqs s' q)" "q \<noteq> Defunct"
    then have v: "u \<in> set (tqs s q)" "u \<noteq> t" by (simp_all add: tq)
    then show "good s' u" using thread_invD(2) [OF dyn_invD(2) [OF inv] v(1) u(2)] by (simp add: good_def periodic_def f)
    show "th_stat (threads s' u) = RT_THREAD_SUSPEND" if "\<And>p. q \<noteq> Ready p"
      using thread_invD(3) [OF dyn_invD(2) [OF inv] v(1) u(2) that] v(2) by (simp add: f)
  next
    show "good s' u \<and> th_stat (threads s' u) = RT_THREAD_SUSPEND \<and> activated s' (TmrOf u)"
      if "TmrOf u \<in> set (timer_list s')" for u
      using thread_invD(4) [OF dyn_invD(2) [OF inv], of u] that by (auto simp: f good_def periodic_def activated_def)
    show "tm_timeout_func (timers s' (At p)) \<noteq> Thread_timeout" if "At p \<in> set (timer_list s')" for p
      using thread_invD(5) [OF dyn_invD(2) [OF inv], of p] that by (simp add: f)
  qed
  have eqs: "hlive s' = hlive s" "in_heap s' = in_heap s" by (auto simp: hlive_def in_heap_def f fun_eq_iff)
  have "heap_ready s'" using dyn_invD(1) [OF inv] by (simp add: heap_ready_def f q_insert_after_def q_remove_def)
  moreover have "registry_ok s'" unfolding registry_ok_def eqs
  proof (intro conjI allI impI)
    show "wf_queues (containers s')" unfolding f(2) using dyn_invD(4) [OF inv] by blast
    fix p assume p: "in_heap s p"
    have c: "At p \<in> set (containers s' c) \<longleftrightarrow> At p \<in> set (containers s c)" for c by (simp add: f q_remove_def)
    show "hlive s p \<noteq> None" if "registered s' (At p)" using that dyn_invD(5) [OF inv p] c by (auto simp: registered_def)
    show "At p \<in> set (containers s' 0)" if q: "queued s' p"
    proof (cases "p = t")
      case False
      then have "queued s p" using q tq by (auto simp: queued_def f split: if_splits)
      then show ?thesis using dyn_invD(6) [OF inv p] c by simp
    qed (use t(2) c in simp)
    show "At p \<in> set (containers s' 0)" if "registered s' (TmrOf p)"
      using that dyn_invD(7) [OF inv p] c by (auto simp: registered_def f q_remove_def)
    show "At p \<in> set (containers s' 8)" if "At p \<in> set (timer_list s')"
      using that dyn_invD(8) [OF inv p] c by (simp add: f)
  qed
  ultimately have "dyn_inv s'" using ti dyn_invD(3) [OF inv] by (simp add: dyn_inv_def eqs f)
  then show ?thesis using call f eqs by blast
qed

section \<open>Creation\<close>

text \<open>What \<open>_rt_thread_init\<close> makes of the control block at \<open>p\<close>; the number mask is not set.\<close>

definition thread_made :: "ptr \<Rightarrow> ptr \<Rightarrow> ptr \<Rightarrow> ptr \<Rightarrow> u32 \<Rightarrow> u8 \<Rightarrow> u32 \<Rightarrow> kstate \<Rightarrow> kstate" where
  "thread_made p entry parameter stack_start stack_size priority tick s =
     s\<lparr>threads := (threads s)(p := (threads s p)\<lparr>th_entry := entry, th_parameter := parameter, th_stack_addr := stack_start,
         th_stack_size := ucast stack_size,
         th_sp := rt_hw_stack_init (stack_start + ucast (ucast stack_size :: u16) - 4),
         th_init_priority := priority, th_current_priority := priority, th_init_tick := tick, th_remaining_tick := tick,
         th_error := RT_EOK, th_stat := RT_THREAD_INIT, th_cleanup := 0, th_user_data := 0\<rparr>),
       objects := (objects s)(TmrOf p := \<lparr>ob_name = name_copy RT_NAME_MAX (ob_name (objects s (At p))),
         ob_type = RT_Object_Class_Timer OR RT_Object_Class_Static, ob_flag = 0\<rparr>),
       timers := (timers s)(TmrOf p := \<lparr>tm_timeout_func = Thread_timeout, tm_parameter = p, tm_init_tick = 0,
         tm_timeout_tick = 0\<rparr>)\<rparr>"

lemma rt_thread_init'_eq:
  assumes "unat priority < 32"
  shows "rt_thread_init' p entry parameter stack_start stack_size priority tick s =
    Some (RT_EOK, (thread_made p entry parameter stack_start stack_size priority tick s)
      \<lparr>containers := q_insert_after 8 (TmrOf p) (containers s)\<rparr>)"
proof -
  have o: "x\<lparr>ob_type := a, ob_name := b, ob_flag := c\<rparr> = \<lparr>ob_name = b, ob_type = a, ob_flag = c\<rparr>" for a b c and x :: rt_object
    by (cases x) simp
  then show ?thesis
    using assms
    by (cases s) (simp add: o rt_thread_init'_def thread_made_def rt_timer_init_def rt_object_init_def rt_timer_init'_def
      rt_object_get_information_def object_classes_def set_thread_def set_object_def set_timer_def set_flag_def)
qed

lemma dyn_inv_register_timer:
  assumes inv: "dyn_inv s" and p: "At p \<in> set (containers s 0)" "\<not> registered s (TmrOf p)"
  shows "dyn_inv (s\<lparr>containers := q_insert_after 8 (TmrOf p) (containers s)\<rparr>)"
proof -
  let ?s = "s\<lparr>containers := q_insert_after 8 (TmrOf p) (containers s)\<rparr>"
  have u: "unlinked (TmrOf p) (containers s)" using p(2) by (auto simp: registered_def unlinked_def)
  have "registered ?s r \<longleftrightarrow> registered s r \<or> r = TmrOf p" for r
    by (auto simp: registered_def q_insert_after_def) metis+
  moreover have "At q \<in> set (containers ?s d) \<longleftrightarrow> At q \<in> set (containers s d)" for q d by (auto simp: q_insert_after_def)
  moreover have "in_heap ?s = in_heap s" "hlive ?s = hlive s" "queued ?s = queued s"
    by (auto simp: in_heap_def hlive_def queued_def fun_eq_iff)
  moreover have "thread_inv ?s = thread_inv s" by (rule thread_inv_cong) simp_all
  moreover have "heap_ready ?s = heap_ready s" by (simp add: heap_ready_def)
  moreover have "wf_queues (containers ?s)" using dyn_invD(4) [OF inv] u by auto
  ultimately show ?thesis using inv p unfolding dyn_inv_def registry_ok_def by auto
qed

lemma thread_made_only_at: "only_at p s (thread_made p entry parameter a n priority tick s)"
  by (simp add: only_at_def thread_made_def)

text \<open>No room for the control block or for the stack.\<close>

definition no_thread_room :: "u32 \<Rightarrow> heap \<Rightarrow> bool" where
  "no_thread_room n h \<longleftrightarrow> alloc_fails 128 h \<or> alloc_fails n (after_alloc 128 h)"

lemma create_thread_dyn:
  assumes inv: "dyn_inv s" and prio: "unat priority < 32" and n: "n \<le> 0xfffffffc"
  obtains (Failed) s' where "rt_thread_create w1 w2 w3 name entry parameter n priority tick s = Some (RT_NULL, s')"
      "dyn_inv s'" "hlive s' = hlive s" "containers s' = containers s" "no_thread_room n (kheap s)"
  | (Made) p a s0 s' where "rt_thread_create w1 w2 w3 name entry parameter n priority tick s = Some (p, s')" "dyn_inv s'"
      "p \<noteq> RT_NULL" "a \<noteq> p" "{p, a} \<inter> dom (hlive s) = {}" "\<exists>i j. hlive s' = (hlive s)(p \<mapsto> i, a \<mapsto> j)"
      "\<not> registered s' (At a)" "unat a + unat n < 2 ^ 32" "\<not> no_thread_room n (kheap s)"
      "\<exists>h. s0 = s\<lparr>kheap := h, objects := (objects s)(At p := fresh_object 0 name)\<rparr>"
      "s' = (thread_made p entry parameter a n priority tick s0)
        \<lparr>containers := q_insert_after 8 (TmrOf p) (q_insert_after 0 (At p) (containers s))\<rparr>"
      "\<not> queued s' p" "\<not> registered s (TmrOf p)" "\<not> registered s (At p)" "in_heap s' = in_heap s"
proof -
  have sz: "object_size 0 = 128" by (simp add: object_size_def)
  have z: "unat (0 :: u8) < 9" by simp
  show thesis using inv z
  proof (cases rule: allocate_dyn [where w = w1 and name = name])
    case f: Failed
    then show ?thesis
      by (intro Failed [OF _ inv]) (simp_all add: rt_thread_create_def no_thread_room_def sz)
  next
    case (Allocated p s1)
    obtain n1 where l1: "hlive s1 = (hlive s)(p \<mapsto> n1)" using Allocated(6) by auto
    from malloc_dyn [OF Allocated(2) n, of w2] obtain a h where
      m: "rt_malloc w2 n s1 = Some (a, s1\<lparr>kheap := h\<rparr>)" "dyn_inv (s1\<lparr>kheap := h\<rparr>)"
        "a = RT_NULL \<and> h = kheap s1 \<or>
         a \<noteq> RT_NULL \<and> n \<noteq> 0 \<and> in_heap s1 a \<and> hlive s1 a = None \<and>
           (\<exists>k \<ge> unat n. live h = (hlive s1)(a \<mapsto> k) \<and> unat a + k < 2 ^ 32)"
        "a = RT_NULL \<longleftrightarrow> alloc_fails n (kheap s1)" "in_heap (s1\<lparr>kheap := h\<rparr>) = in_heap s1" by blast
    have room: "no_thread_room n (kheap s) \<longleftrightarrow> a = RT_NULL"
      using Allocated(13,14) m(4) by (simp add: no_thread_room_def sz)
    have fu: "\<not> registered s (At p)" "\<not> registered s (TmrOf p)" using fresh_unknown [OF inv Allocated(4,5)] by auto
    show ?thesis
    proof (cases "a = RT_NULL")
      case True
      then have e: "s1\<lparr>kheap := h\<rparr> = s1" using m(3) by simp
      have "ob_type (objects s1 (At p)) AND 0x80 = 0" using Allocated(8) by (auto simp: fresh_object_def)
      from delete_dyn [OF Allocated(2) _ this Allocated(9,11,10), of n1 w3] l1 obtain h5 where
        d: "rt_object_delete w3 p s1 = Some (s1\<lparr>containers := q_remove (At p) (containers s1), kheap := h5\<rparr>)"
          "dyn_inv (s1\<lparr>containers := q_remove (At p) (containers s1), kheap := h5\<rparr>)" "live h5 = (hlive s1)(p := None)" by auto
      show ?thesis
      proof (rule Failed)
        show "rt_thread_create w1 w2 w3 name entry parameter n priority tick s =
          Some (RT_NULL, s1\<lparr>containers := q_remove (At p) (containers s1), kheap := h5\<rparr>)"
          using Allocated(1,3) m(1) e True d(1) by (simp add: rt_thread_create_def)
        show "hlive (s1\<lparr>containers := q_remove (At p) (containers s1), kheap := h5\<rparr>) = hlive s"
          using d(3) l1 Allocated(5) by (auto simp: hlive_def fun_eq_iff)
        show "containers (s1\<lparr>containers := q_remove (At p) (containers s1), kheap := h5\<rparr>) = containers s"
          using Allocated(7) fu(1) by (simp add: q_remove_insert_after unlinked_def registered_def)
      qed (use d(2) room True in simp_all)
    next
      case False
      then obtain k where k: "in_heap s1 a" "hlive s1 a = None" "k \<ge> unat n" "live h = (hlive s1)(a \<mapsto> k)" "unat a + k < 2 ^ 32"
        using m(3) by auto
      let ?s2 = "s1\<lparr>kheap := h\<rparr>"
      let ?s3 = "thread_made p entry parameter a n priority tick ?s2"
      let ?s' = "?s3\<lparr>containers := q_insert_after 8 (TmrOf p) (containers ?s2)\<rparr>"
      obtain h1 where s1: "s1 = s\<lparr>kheap := h1, objects := (objects s)(At p := fresh_object 0 name),
         containers := q_insert_after 0 (At p) (containers s)\<rparr>" using Allocated(8) by auto
      have q2: "\<not> queued ?s2 p" using Allocated(9) by (simp add: queued_def)
      have l2: "hlive ?s2 p \<noteq> None" using k(4) l1 by (simp add: hlive_def)
      note oa = thread_made_only_at [of p ?s2 entry parameter a n priority tick]
      note f = only_at_fields [OF oa]
      have inv3: "dyn_inv ?s3" by (rule dyn_inv_only_at [OF m(2) oa l2 q2]) (use Allocated(10) in simp)
      have nr: "\<not> registered ?s3 (TmrOf p)" unfolding f(8) using Allocated(11) by (simp add: registered_def)
      have "dyn_inv (?s3\<lparr>containers := q_insert_after 8 (TmrOf p) (containers ?s3)\<rparr>)"
        by (rule dyn_inv_register_timer [OF inv3 _ nr]) (simp add: f(3) Allocated(7) q_insert_after_def)
      then have inv': "dyn_inv ?s'" unfolding f(3) .
      have "\<not> queued ?s3 p" using f(9) [of p] q2 by blast
      then have q': "\<not> queued ?s' p" by (simp add: queued_def)
      show ?thesis
      proof (rule Made [OF _ inv' Allocated(3)])
        show "rt_thread_create w1 w2 w3 name entry parameter n priority tick s = Some (p, ?s')"
          using Allocated(1,3) m(1) False rt_thread_init'_eq [OF prio] by (simp add: rt_thread_create_def)
        show "a \<noteq> p" "{p, a} \<inter> dom (hlive s) = {}" using k(2) l1 Allocated(5) by (auto split: if_splits)
        show "\<exists>i j. hlive ?s' = (hlive s)(p \<mapsto> i, a \<mapsto> j)"
          using k(4) l1 by (intro exI [of _ n1] exI [of _ k]) (simp add: hlive_def thread_made_def)
        show "\<not> registered ?s' (At a)"
          using fresh_unknown(1) [OF Allocated(2) k(1,2)] by (auto simp: registered_def q_insert_after_def split: if_splits)
        show "unat a + unat n < 2 ^ 32" using k(3,5) by linarith
        show "\<exists>h'. s\<lparr>kheap := h, objects := (objects s)(At p := fresh_object 0 name)\<rparr> =
          s\<lparr>kheap := h', objects := (objects s)(At p := fresh_object 0 name)\<rparr>" by blast
        show "?s' = (thread_made p entry parameter a n priority tick (s\<lparr>kheap := h, objects := (objects s)(At p := fresh_object 0 name)\<rparr>))
          \<lparr>containers := q_insert_after 8 (TmrOf p) (q_insert_after 0 (At p) (containers s))\<rparr>"
          by (simp add: s1 thread_made_def)
        show "in_heap ?s' = in_heap s" using m(5) Allocated(12) by (simp add: in_heap_def thread_made_def fun_eq_iff)
      qed (use room False q' fu in auto)
    qed
  qed
qed

section \<open>Start\<close>

definition startable :: "kstate \<Rightarrow> ptr \<Rightarrow> bool" where
  "startable s t \<longleftrightarrow> t \<noteq> RT_NULL \<and> th_stat (threads s t) = RT_THREAD_INIT \<and> unat (th_init_priority (threads s t)) < 32 \<and>
     stack_ok (threads s t) \<and> tm_timeout_func (timers s (TmrOf t)) = Thread_timeout \<and>
     tm_parameter (timers s (TmrOf t)) = t \<and> ob_flag (objects s (TmrOf t)) = 0 \<and> \<not> queued s t"

lemma startup_dyn:
  assumes inv: "dyn_inv s" and t: "startable s t" "At t \<in> set (containers s 0)"
  shows "\<exists>s'. rt_thread_startup t s = Some (RT_EOK, s') \<and> dyn_inv s' \<and> good s' t \<and> hlive s' = hlive s \<and>
    containers s' = containers s \<and> objects s' = objects s \<and> timer_list s' = timer_list s \<and>
    tqs s' = q_insert_before (Ready (unat (th_init_priority (threads s t)))) t (tqs s) \<and>
    threads s' = (threads s)(t := (threads s t)\<lparr>th_current_priority := th_init_priority (threads s t),
      th_number_mask := push_bit (unat (th_init_priority (threads s t))) 1, th_stat := RT_THREAD_READY\<rparr>)"
proof -
  let ?p = "th_init_priority (threads s t)"
  let ?s1 = "s\<lparr>threads := (threads s)(t := (threads s t)\<lparr>th_current_priority := ?p,
      th_number_mask := push_bit (unat ?p) 1, th_stat := RT_THREAD_SUSPEND\<rparr>)\<rparr>"
  note T = t(1) [unfolded startable_def]
  have "prio_ok (threads ?s1 t)" "stack_ok (threads ?s1 t)"
    using T by (simp_all add: prio_ok_def stack_ok_def)
  then have g: "good ?s1 t" "th_stat (threads ?s1 t) = RT_THREAD_SUSPEND" using T by (simp_all add: good_def periodic_def)
  have i1: "thread_inv ?s1"
    by (rule thread_inv_local [OF dyn_invD(2) [OF inv]]) (use T in auto)
  have na: "timer_stopped (TmrOf t) ?s1 = ?s1" using T by (simp add: timer_stopped_def activated_def)
  let ?s2 = "woken t ?s1"
  have r: "rt_thread_resume t ?s1 = Some (RT_EOK, ?s2)" "thread_inv ?s2" "ready_group ?s2 \<noteq> 0"
    using rt_thread_resume_eq [OF g] thread_inv_resumed [OF i1 g] unfolding resumed_def na by blast+
  have u: "q_remove t (tqs s) = tqs s" using T by (intro q_remove_unlinked) (auto simp: unlinked_def queued_def)
  obtain s' where s': "(if rt_thread_self ?s2 \<noteq> RT_NULL then rt_schedule ?s2 else Some ?s2) = Some s'" "thread_inv s'"
    using rt_schedule_total [OF r(2,3)] r(2) by (cases "rt_thread_self ?s2 = RT_NULL") auto
  have fl: "objects s' = objects s" "containers s' = containers s" "timers s' = timers s" "timer_list s' = timer_list s"
    "sems s' = sems s" "kheap s' = kheap s" "heap_sem s' = heap_sem s" "rt_interrupt_nest s' = rt_interrupt_nest s"
    "threads s' = threads ?s2" "tqs s' = q_insert_before (Ready (unat ?p)) t (tqs s)"
    using s'(1) rt_schedule_fields [of ?s2 s'] u by (auto split: if_splits simp: woken_def)
  have "good s' t" using g(1) by (simp add: good_def periodic_def fl prio_ok_def stack_ok_def)
  moreover have "rt_thread_startup t s = Some (RT_EOK, s')"
    using T r(1) s'(1) by (simp add: rt_thread_startup_def set_thread_def split: if_splits)
  moreover have eqs: "hlive s' = hlive s" "in_heap s' = in_heap s" "registered s' = registered s"
    by (auto simp: hlive_def in_heap_def registered_def fl fun_eq_iff)
  moreover have "heap_ready s'" using dyn_invD(1) [OF inv] by (simp add: heap_ready_def fl q_insert_before_def)
  moreover have "queued s q \<or> q = t" if "queued s' q" for q
    using that by (auto simp: queued_def fl q_insert_before_def split: if_splits)
  then have "registry_ok s'" using inv t(2) unfolding registry_ok_def dyn_inv_def eqs fl by blast
  ultimately show ?thesis using s'(2) dyn_invD(3) [OF inv] fl by (auto simp: dyn_inv_def)
qed

text \<open>The stack of a new thread.\<close>

lemma stack_made:
  fixes a n :: u32
  assumes "unat a + unat n < 2 ^ 32" "72 \<le> unat n" "unat n < 2 ^ 16"
  shows "a < rt_hw_stack_init (a + ucast (ucast n :: u16) - 4)"
    "rt_hw_stack_init (a + ucast (ucast n :: u16) - 4) \<le> a + ucast (ucast n :: u16)"
proof -
  have c: "ucast (ucast n :: u16) = n"
    unfolding word_unat_eq_iff unat_ucast_u16 unat_ucast_to_16 using assms(3) by simp
  have s: "unat (a + n) = unat a + unat n" using assms(1) by (simp add: unat_word_ariths)
  let ?d = "RT_ALIGN_DOWN (a + n) 8"
  have d: "unat ?d = unat (a + n) - unat (a + n) mod 8"
    unfolding RT_ALIGN_DOWN_def using unat_and_not_mask [of 3 "a + n"] by (simp add: mask_eq_exp_minus_1)
  then have "unat a + unat n < unat ?d + 8" "unat ?d \<le> unat a + unat n"
    using s mod_less_divisor [of 8 "unat (a + n)"] by linarith+
  moreover from this have "unat (?d - 64) = unat ?d - 64"
    using assms(2) unat_word_minus [of 64 ?d] by simp
  ultimately show "a < rt_hw_stack_init (a + ucast (ucast n :: u16) - 4)"
    "rt_hw_stack_init (a + ucast (ucast n :: u16) - 4) \<le> a + ucast (ucast n :: u16)"
    unfolding c rt_hw_stack_init_def using s assms(2) by (simp_all add: word_less_nat_alt word_le_nat_alt)
qed

text \<open>A created thread: on the heap, not yet started, and not queued.\<close>

lemma made_thread:
  assumes s': "s' = (thread_made p entry parameter a n priority tick s0)
      \<lparr>containers := q_insert_after 8 (TmrOf p) (q_insert_after 0 (At p) c)\<rparr>"
    and s0: "s0 = s\<lparr>kheap := h, objects := (objects s)(At p := fresh_object 0 name)\<rparr>"
  shows "stack_of s' p = a" "th_stat (threads s' p) = RT_THREAD_INIT" "th_init_priority (threads s' p) = priority"
    "th_current_priority (threads s' p) = priority" "th_number_mask (threads s' p) = th_number_mask (threads s p)"
    "objects s' (At p) = fresh_object 0 name" "ob_flag (objects s' (TmrOf p)) = 0" "th_cleanup (threads s' p) = RT_NULL"
    "tm_timeout_func (timers s' (TmrOf p)) = Thread_timeout" "tm_parameter (timers s' (TmrOf p)) = p"
    "th_entry (threads s' p) = entry" "th_parameter (threads s' p) = parameter" "th_init_tick (threads s' p) = tick"
    "th_stack_size (threads s' p) = ucast n" "th_sp (threads s' p) = rt_hw_stack_init (a + ucast (ucast n :: u16) - 4)"
    "tqs s' = tqs s" "timer_list s' = timer_list s" "ready_group s' = ready_group s" "At p \<in> set (containers s' 0)"
    "TmrOf p \<in> set (containers s' 8)"
  unfolding s' s0 by (simp_all add: thread_made_def stack_of_def q_insert_after_def)

lemma made_startable:
  assumes "dyn_inv s'" "p \<noteq> RT_NULL" "\<not> queued s' p" "unat a + unat n < 2 ^ 32" "72 \<le> unat n" "unat n < 2 ^ 16" "unat priority < 32"
    and s': "s' = (thread_made p entry parameter a n priority tick s0)
      \<lparr>containers := q_insert_after 8 (TmrOf p) (q_insert_after 0 (At p) c)\<rparr>"
    and s0: "s0 = s\<lparr>kheap := h, objects := (objects s)(At p := fresh_object 0 name)\<rparr>"
  shows "startable s' p"
proof -
  note M = made_thread [OF s' s0]
  have "stack_ok (threads s' p)"
    using stack_made [OF assms(4-6)] M(1,14,15) by (simp add: stack_ok_def stack_of_def)
  then show ?thesis using assms(2,3,7) M by (simp add: startable_def)
qed

section \<open>Room after start-up\<close>

lemma boot_thread_room:
  assumes s: "kheap s = (heap_init 0x1000 0x2000 (kheap boot))\<lparr>lfree := 0\<rparr>" "blocks (kheap s) = [0]" and n: "n \<in> {256, 2048}"
  shows "\<not> no_thread_room n (kheap s)"
proof -
  let ?h = "kheap s"
  have h: "hp_mem ?h = (\<lambda>_. \<lparr>hm_magic = 0, hm_used = 0, hm_next = 0, hm_prev = 0\<rparr>)
      (0 := \<lparr>hm_magic = HEAP_MAGIC, hm_used = 0, hm_next = 0xff4, hm_prev = 0\<rparr>,
       0xff4 := \<lparr>hm_magic = HEAP_MAGIC, hm_used = 1, hm_next = 0xff4, hm_prev = 0xff4\<rparr>)"
    "lfree ?h = 0" "mem_size_aligned ?h = 0xfe8" "heap_end ?h = 0xff4" "used_mem ?h = 0" "max_mem ?h = 0"
    unfolding s(1) by (simp_all add: heap_init_def Let_def set_mem_def boot_def zero_state_def fun_eq_iff)
  define h2 where "h2 = set_mem 0 (\<lambda>m. m\<lparr>hm_magic := HEAP_MAGIC\<rparr>) (take_block 0 128 ?h)"
  have f2: "hp_mem h2 = (hp_mem ?h)(0 := \<lparr>hm_magic = HEAP_MAGIC, hm_used = 1, hm_next = 140, hm_prev = 0\<rparr>,
      140 := \<lparr>hm_magic = HEAP_MAGIC, hm_used = 0, hm_next = 0xff4, hm_prev = 0\<rparr>)"
    "lfree h2 = 0" "mem_size_aligned h2 = 0xfe8" "heap_end h2 = 0xff4"
    unfolding h2_def by (simp_all add: take_block_def split_block_def count_used_def set_mem_def h Let_def fun_eq_iff)
  have "find_fit ?h 128 0 = Some (Some 0)" by (subst find_fit.simps) (simp add: h)
  moreover have "next_free h2 0 = Some 140"
    by (subst next_free.simps, subst next_free.simps) (simp add: f2)
  moreover have "lfree (take_block 0 128 ?h) = 0" using f2(2) by (simp add: h2_def set_mem_def)
  ultimately have m: "heap_malloc 128 ?h = Some (Some 0, h2\<lparr>lfree := 140\<rparr>)"
    using f2 h(2) by (simp add: heap_malloc_def Let_def flip: h2_def)
  have r: "request 128 = 128" "request n = n" "RT_ALIGN n 4 = n" using n by (auto simp: request_def RT_ALIGN_def)
  have a: "after_alloc 128 ?h = h2\<lparr>lfree := 140\<rparr>" using boot_room(1) [OF s, of 128] m r by (simp add: after_alloc_def)
  have "blocks (h2\<lparr>lfree := 140\<rparr>) = [0, 140]" by (rule blocks_eq) (simp add: f2)
  then have "first_fit n (h2\<lparr>lfree := 140\<rparr>) = Some 140" using f2 n by (auto simp: first_fit_def from_lfree_def fit_at_def)
  then show ?thesis using boot_room(1) [OF s, of 128] r f2 n by (auto simp: no_thread_room_def a alloc_fails_def)
qed

text \<open>The life of a thread up to its place in the list of dead threads.\<close>

lemma thread_life:
  assumes "dyn_inv s" "unat priority < 32" "72 \<le> unat n" "unat n < 2 ^ 16" "\<not> no_thread_room n (kheap s)" "tqs s Defunct = []"
  obtains p a i j s1 s2 s3 where "rt_thread_create w1 w2 w3 name entry parameter n priority tick s = Some (p, s1)" "p \<noteq> RT_NULL"
    "rt_thread_startup p s1 = Some (RT_EOK, s2)" "rt_thread_delete p s2 = Some (RT_EOK, s3)" "dyn_inv s3"
    "reclaimable s3 p" "stack_of s3 p = a" "tqs s3 = (tqs s)(Defunct := [p])" "{p, a} \<inter> dom (hlive s) = {}"
    "hlive s3 = (hlive s)(p \<mapsto> i, a \<mapsto> j)" "containers s3 = q_insert_after 0 (At p) (containers s)"
    "\<forall>c. At p \<notin> set (containers s c)"
proof -
  have n: "n \<le> 0xfffffffc" using assms(4) by (simp add: word_le_nat_alt)
  show thesis using assms(1,2) n
  proof (cases rule: create_thread_dyn [where ?w1.0 = w1 and ?w2.0 = w2 and ?w3.0 = w3 and name = name and entry = entry
      and parameter = parameter and tick = tick])
    case (Made p a s0 s1)
    obtain h where s0: "s0 = s\<lparr>kheap := h, objects := (objects s)(At p := fresh_object 0 name)\<rparr>" using Made(10) by blast
    note M = made_thread [OF Made(11) s0]
    have st: "startable s1 p" by (rule made_startable [OF Made(2,3,12,8) assms(3,4,2) Made(11) s0])
    obtain i j where l: "hlive s1 = (hlive s)(p \<mapsto> i, a \<mapsto> j)" using Made(6) by blast
    have c1: "containers s1 = q_insert_after 8 (TmrOf p) (q_insert_after 0 (At p) (containers s))" unfolding Made(11) by simp
    obtain s2 where s2: "rt_thread_startup p s1 = Some (RT_EOK, s2)" "dyn_inv s2" "good s2 p" "hlive s2 = hlive s1"
      "containers s2 = containers s1" "objects s2 = objects s1" "timer_list s2 = timer_list s1"
      "tqs s2 = q_insert_before (Ready (unat priority)) p (tqs s)" "stack_of s2 p = a" "th_cleanup (threads s2 p) = RT_NULL"
      using startup_dyn [OF Made(2) st M(19)] M(1,3,8,16) by (auto simp: stack_of_def)
    have "hlive s2 p \<noteq> None" "At p \<in> set (containers s2 0)" "prio_ok (threads s2 p)"
      using s2(3-5) l M(19) by (auto simp: good_def)
    from delete_thread_dyn [OF s2(2) this] obtain s3 where s3: "rt_thread_delete p s2 = Some (RT_EOK, s3)" "dyn_inv s3"
      "hlive s3 = hlive s1" "containers s3 = q_remove (TmrOf p) (containers s2)"
      "tqs s3 = q_insert_after Defunct p (q_remove p (tqs s2))" "objects s3 = objects s2"
      "threads s3 = (threads s2)(p := (threads s2 p)\<lparr>th_stat := RT_THREAD_CLOSE\<rparr>)"
      "timer_list s3 = removeAll (TmrOf p) (timer_list s2)" using s2(4) by auto
    have un: "unlinked p (tqs s)" using Made(12) M(16) by (auto simp: queued_def unlinked_def)
    have tq3: "tqs s3 = (tqs s)(Defunct := [p])"
      using s3(5) s2(8) un assms(6) by (auto simp: q_insert_after_def q_insert_before_def q_remove_def unlinked_def fun_eq_iff)
    have fr: "At p \<notin> set (containers s c)" "TmrOf p \<notin> set (containers s c)" for c
      using Made(13,14) by (auto simp: registered_def)
    have "\<not> registered s3 (At a)" "\<not> registered s3 (TmrOf p)"
      using Made(7) s3(4) s2(5) by (auto simp: registered_def q_remove_def)
    moreover have "stack_of s3 p = a" "th_cleanup (threads s3 p) = RT_NULL" using s2(9,10) s3(7) by (auto simp: stack_of_def)
    ultimately have R: "reclaimable s3 p" and st3: "stack_of s3 p = a"
      using l s3(3,6,8) s2(6) M(6) Made(4) by (auto simp: reclaimable_def heap_thread_def fresh_object_def)
    have C: "containers s3 = q_insert_after 0 (At p) (containers s)"
      using s3(4) s2(5) c1 fr by (auto simp: fun_eq_iff q_remove_def q_insert_after_def)
    have H: "hlive s3 = (hlive s)(p \<mapsto> i, a \<mapsto> j)" using s3(3) l by simp
    show thesis by (rule that [OF Made(1,3) s2(1) s3(1,2) R st3 tq3 Made(5) H C]) (simp add: fr)
  qed (use assms(5) in auto)
qed

section \<open>Properties\<close>

text \<open>
  \<open>rt_thread_create\<close> returns, with \<open>RT_NULL\<close> exactly when the heap has no room for the control block or for the
  stack, and then nothing stays allocated or registered.  Otherwise the new thread has its control block and its
  stack in two new areas, is registered together with its timer, and waits in state \<open>RT_THREAD_INIT\<close>; a stack of
  72 to 65535 bytes leaves the stack pointer inside the stack, and \<open>rt_thread_startup\<close> puts the thread at the end of the
  ready queue of its priority.  All of it keeps the invariant.
\<close>

theorem rt_thread_create_startup:
  assumes "dyn_inv s" "unat priority < 32" "72 \<le> unat n" "unat n < 2 ^ 16"
  shows "\<exists>p s1. rt_thread_create w1 w2 w3 name entry parameter n priority tick s = Some (p, s1) \<and> dyn_inv s1 \<and>
    (p = RT_NULL \<longleftrightarrow> no_thread_room n (kheap s)) \<and>
    (if p = RT_NULL then hlive s1 = hlive s \<and> containers s1 = containers s
     else heap_thread s1 p \<and> {p, stack_of s1 p} \<inter> dom (hlive s) = {} \<and>
       dom (hlive s1) = dom (hlive s) \<union> {p, stack_of s1 p} \<and>
       containers s1 = q_insert_after 8 (TmrOf p) (q_insert_after 0 (At p) (containers s)) \<and>
       th_stat (threads s1 p) = RT_THREAD_INIT \<and> stack_ok (threads s1 p) \<and>
       (\<exists>s2. rt_thread_startup p s1 = Some (RT_EOK, s2) \<and> dyn_inv s2 \<and> good s2 p \<and>
         th_stat (threads s2 p) = RT_THREAD_READY \<and> tqs s2 = q_insert_before (Ready (unat priority)) p (tqs s)))"
proof -
  have n: "n \<le> 0xfffffffc" using assms(4) by (simp add: word_le_nat_alt)
  show ?thesis using assms(1,2) n
  proof (cases rule: create_thread_dyn [where ?w1.0 = w1 and ?w2.0 = w2 and ?w3.0 = w3 and name = name and entry = entry
      and parameter = parameter and tick = tick])
    case (Made p a s0 s')
    obtain h where s0: "s0 = s\<lparr>kheap := h, objects := (objects s)(At p := fresh_object 0 name)\<rparr>" using Made(10) by blast
    note M = made_thread [OF Made(11) s0]
    have st: "startable s' p"
      by (rule made_startable [OF Made(2,3,12,8) assms(3,4,2) Made(11) s0])
    have "heap_thread s' p"
      using Made(4,6,7) M(1,6,8) by (auto simp: heap_thread_def fresh_object_def)
    moreover have "dom (hlive s') = dom (hlive s) \<union> {p, a}" using Made(6) by auto
    moreover have "containers s' = q_insert_after 8 (TmrOf p) (q_insert_after 0 (At p) (containers s))"
      unfolding Made(11) by simp
    moreover from startup_dyn [OF Made(2) st M(19)] have "\<exists>s2. rt_thread_startup p s' = Some (RT_EOK, s2) \<and> dyn_inv s2 \<and> good s2 p \<and>
         th_stat (threads s2 p) = RT_THREAD_READY \<and> tqs s2 = q_insert_before (Ready (unat priority)) p (tqs s)"
      using M(3,16) by auto
    moreover have "stack_ok (threads s' p)" using st by (simp add: startable_def)
    ultimately show ?thesis using Made(1-3,5,9) M(1,2) by (intro exI [of _ p] exI [of _ s']) simp
  qed auto
qed

theorem rt_thread_create_startup_witness:
  "\<exists>s p s1 s2. rt_system_heap_init 0x1000 0x2000 boot = Some s \<and>
     rt_thread_create id id id [116] 0x8000 0 256 20 10 s = Some (p, s1) \<and> p \<noteq> RT_NULL \<and>
     rt_thread_startup p s1 = Some (RT_EOK, s2) \<and> tqs s2 (Ready 20) = [p]"
proof -
  obtain s where s: "rt_system_heap_init 0x1000 0x2000 boot = Some s" "dyn_inv s"
    "kheap s = (heap_init 0x1000 0x2000 (kheap boot))\<lparr>lfree := 0\<rparr>" "blocks (kheap s) = [0]" "tqs s = tqs boot" by (rule boot_dyn)
  show ?thesis
    using rt_thread_create_startup [OF s(2), of 20 256 id id id "[116]" "0x8000" 0 10] boot_thread_room [OF s(3,4), of 256] s(1,5)
    by (auto simp: boot_def q_insert_before_def)
qed

text \<open>
  C28. The life of a dynamic thread leaves no trace: create it, start it, delete it and let the idle thread run.  Every
  step returns, and at the end the live areas of the heap, the object containers and the thread lists are what they
  were before.
\<close>

theorem rt_thread_life_roundtrip:
  assumes "dyn_inv s" "unat priority < 32" "72 \<le> unat n" "unat n < 2 ^ 16" "\<not> no_thread_room n (kheap s)" "tqs s Defunct = []"
  shows "\<exists>p s1 s2 s3 s4. rt_thread_create w1 w2 w3 name entry parameter n priority tick s = Some (p, s1) \<and> p \<noteq> RT_NULL \<and>
    rt_thread_startup p s1 = Some (RT_EOK, s2) \<and> rt_thread_delete p s2 = Some (RT_EOK, s3) \<and>
    rt_thread_idle_excute cleanup ws k s3 = Some s4 \<and>
    dyn_inv s4 \<and> hlive s4 = hlive s \<and> containers s4 = containers s \<and> tqs s4 = tqs s"
proof -
  obtain p a i j s1 s2 s3 where L: "rt_thread_create w1 w2 w3 name entry parameter n priority tick s = Some (p, s1)" "p \<noteq> RT_NULL"
    "rt_thread_startup p s1 = Some (RT_EOK, s2)" "rt_thread_delete p s2 = Some (RT_EOK, s3)" "dyn_inv s3"
    "reclaimable s3 p" "stack_of s3 p = a" "tqs s3 = (tqs s)(Defunct := [p])" "{p, a} \<inter> dom (hlive s) = {}"
    "hlive s3 = (hlive s)(p \<mapsto> i, a \<mapsto> j)" "containers s3 = q_insert_after 0 (At p) (containers s)"
    "\<forall>c. At p \<notin> set (containers s c)"
    by (rule thread_life [OF assms, of w1 w2 w3 name entry parameter tick])
  from idle_run [OF L(5), of "[p]" "[]" cleanup ws k] L(6) obtain s4 k' where s4:
    "rt_thread_idle_excute cleanup ws k s3 = rt_thread_idle_excute cleanup ws k' s4" "dyn_inv s4"
    "tqs s4 = (tqs s3)(Defunct := [])" "hlive s4 = hlive s3 |` (- {p, a})"
    "\<forall>c. containers s4 c = filter (\<lambda>r. r \<noteq> At p) (containers s3 c)"
    using L(7,8) by (auto simp: insert_commute)
  have "rt_thread_idle_excute cleanup ws k s3 = Some s4" using s4(1,3) idle_empty [of s4] by simp
  moreover have "hlive s4 = hlive s" using s4(4) L(9,10) by (auto simp: restrict_map_def fun_eq_iff)
  moreover have "containers s4 = containers s"
    using s4(5) L(11,12) by (auto simp: fun_eq_iff q_insert_after_def filter_id_conv)
  moreover have "tqs s4 = tqs s" using s4(3) L(8) assms(6) by (simp add: fun_upd_idem_iff)
  ultimately show ?thesis using L(1-4) s4(2) by blast
qed

theorem rt_thread_life_roundtrip_witness:
  "\<exists>s p s1 s2 s3 s4. rt_system_heap_init 0x1000 0x2000 boot = Some s \<and>
     rt_thread_create id id id [116] 0x8000 0 256 20 10 s = Some (p, s1) \<and> p \<noteq> RT_NULL \<and>
     rt_thread_startup p s1 = Some (RT_EOK, s2) \<and> rt_thread_delete p s2 = Some (RT_EOK, s3) \<and>
     rt_thread_idle_excute (\<lambda>_ _. id) (\<lambda>_. id) 0 s3 = Some s4 \<and> hlive s4 = Map.empty"
proof -
  obtain s where s: "rt_system_heap_init 0x1000 0x2000 boot = Some s" "dyn_inv s" "hlive s = Map.empty"
    "kheap s = (heap_init 0x1000 0x2000 (kheap boot))\<lparr>lfree := 0\<rparr>" "blocks (kheap s) = [0]" "tqs s = tqs boot" by (rule boot_dyn)
  have d: "tqs s Defunct = []" using s(6) by (simp add: boot_def)
  show ?thesis
    using rt_thread_life_roundtrip [OF s(2), of 20 256 id id id "[116]" "0x8000" 0 10 "\<lambda>_ _. id" "\<lambda>_. id" 0]
      boot_thread_room [OF s(4,5), of 256] s(1,3) d by fastforce
qed

text \<open>
  C29. \<open>rt_thread_idle_excute\<close> ends.  It frees the threads of the list of dead threads up to the first static one, each with
  its control block and its stack, takes them out of the object container, and keeps the invariant.  A static thread
  ends the call: it is taken off the list, its cleanup function is called, and it stays registered, as do the
  threads behind it in the list.
\<close>

theorem rt_thread_idle_excute_frees:
  assumes "dyn_inv s" "tqs s Defunct = ds @ rest" "distinct (map (stack_of s) ds)" "\<forall>t \<in> set ds. reclaimable s t"
    and "\<forall>t ts. rest = t # ts \<longrightarrow> t \<noteq> RT_NULL \<and> ob_type (objects s (At t)) AND 0x80 \<noteq> 0"
    and "\<forall>f u s. ob_type (objects (cleanup f u s) (At u)) = ob_type (objects s (At u))"
  shows "\<exists>s'. dyn_inv s' \<and> tqs s' = (tqs s)(Defunct := rest) \<and>
    hlive s' = hlive s |` (- (set ds \<union> stack_of s ` set ds)) \<and>
    (\<forall>c. containers s' c = filter (\<lambda>r. r \<notin> At ` set ds) (containers s c)) \<and>
    rt_thread_idle_excute cleanup ws k s =
      (case rest of [] \<Rightarrow> Some s'
       | t # ts \<Rightarrow> let s1 = s'\<lparr>tqs := q_remove t (tqs s')\<rparr>; f = th_cleanup (threads s t)
                 in Some (if f \<noteq> RT_NULL then cleanup f t s1 else s1))"
proof -
  from idle_run [OF assms(1-4), of cleanup ws k] obtain s' k' where
    s': "rt_thread_idle_excute cleanup ws k s = rt_thread_idle_excute cleanup ws k' s'" "dyn_inv s'"
      "tqs s' = (tqs s)(Defunct := rest)" "hlive s' = hlive s |` (- (set ds \<union> stack_of s ` set ds))"
      "\<forall>c. containers s' c = filter (\<lambda>r. r \<notin> At ` set ds) (containers s c)" "objects s' = objects s" "threads s' = threads s"
    by auto
  have "rt_thread_idle_excute cleanup ws k' s' =
      (case rest of [] \<Rightarrow> Some s'
       | t # ts \<Rightarrow> let s1 = s'\<lparr>tqs := q_remove t (tqs s')\<rparr>; f = th_cleanup (threads s t)
                 in Some (if f \<noteq> RT_NULL then cleanup f t s1 else s1))"
  proof (cases rest)
    case Nil
    then show ?thesis using idle_empty [of s'] s'(3) by simp
  next
    case (Cons t ts)
    then show ?thesis
      using idle_static [OF s'(2), of t ts cleanup ws k'] s'(3,6,7) assms(5,6) by simp
  qed
  then show ?thesis using s' by auto
qed

theorem rt_thread_idle_excute_frees_witness:
  "\<exists>s t s'. tqs s Defunct = [t] \<and> hlive s t \<noteq> None \<and> rt_thread_idle_excute (\<lambda>_ _. id) (\<lambda>_. id) 0 s = Some s' \<and>
     tqs s' Defunct = [] \<and> hlive s' t = None"
proof -
  obtain s0 where s: "dyn_inv s0" "kheap s0 = (heap_init 0x1000 0x2000 (kheap boot))\<lparr>lfree := 0\<rparr>" "blocks (kheap s0) = [0]"
    "tqs s0 = tqs boot" by (rule boot_dyn)
  have d: "tqs s0 Defunct = []" using s(4) by (simp add: boot_def)
  obtain p s where L: "dyn_inv s" "reclaimable s p" "tqs s = (tqs s0)(Defunct := [p])"
    by (rule thread_life [OF s(1), of 20 256 id id id "[116]" "0x8000" 0 10]) (use boot_thread_room [OF s(2,3), of 256] d in auto)
  have "hlive s p \<noteq> None" using L(2) by (simp add: reclaimable_def heap_thread_def)
  moreover obtain s' where "rt_thread_idle_excute (\<lambda>_ _. id) (\<lambda>_. id) 0 s = Some s'" "tqs s' Defunct = []" "hlive s' p = None"
    using rt_thread_idle_excute_frees [OF L(1), of "[p]" "[]" "\<lambda>_ _. id" "\<lambda>_. id" 0] L(2,3) by (auto simp: restrict_map_def)
  moreover have "tqs s Defunct = [p]" using L(3) by simp
  ultimately show ?thesis by blast
qed

text \<open>
  C30. A thread that was never started must not be deleted: neither \<open>rt_thread_create\<close> nor \<open>rt_thread_init\<close> sets the number
  mask, so \<open>rt_thread_delete\<close> clears in the bitmap of ready priorities whatever bits the memory of the control block held.
  When one of them belongs to a ready queue with threads, these are lost to the scheduler.
\<close>

theorem rt_thread_delete_unstarted_corrupts:
  assumes "dyn_inv s" "unat priority < 32" "n \<le> 0xfffffffc"
    and "rt_thread_create w1 w2 w3 name entry parameter n priority tick s = Some (p, s1)" "p \<noteq> RT_NULL"
    and "tqs s (Ready (unat priority)) = []" "tqs s (Ready q) \<noteq> []" "bit (th_number_mask (threads s p)) q"
  shows "\<exists>s2. rt_thread_delete p s1 = Some (RT_EOK, s2) \<and> tqs s2 (Ready q) = tqs s (Ready q) \<and>
    \<not> bit (ready_group s2) q \<and> \<not> ready_inv s2"
  using assms(1-3)
proof (cases rule: create_thread_dyn [where ?w1.0 = w1 and ?w2.0 = w2 and ?w3.0 = w3 and name = name and entry = entry
      and parameter = parameter and tick = tick])
  case (Made p' a s0 s')
  then have [simp]: "p' = p" "s' = s1" using assms(4) by auto
  obtain h where s0: "s0 = s\<lparr>kheap := h, objects := (objects s)(At p := fresh_object 0 name)\<rparr>" using Made(10) by auto
  note M = made_thread [OF Made(11), unfolded \<open>p' = p\<close> \<open>s' = s1\<close>, OF s0]
  have un: "p \<notin> set (tqs s r)" for r using Made(12) M(16) by (auto simp: queued_def)
  define s2 where "s2 = snd (the (rt_thread_delete p s1))"
  have d: "rt_thread_delete p s1 = Some (RT_EOK, s2)" "ready_group s2 = ready_group s1 AND NOT (th_number_mask (threads s p))"
    "tqs s2 (Ready q) = tqs s (Ready q)"
    unfolding s2_def using assms(2,5,6) un M(4,5,16)
    by (simp_all add: rt_thread_delete_def rt_schedule_remove_thread_eq rt_timer_detach_def rt_object_detach_def
        set_thread_def rt_timer_remove_def q_remove_def q_insert_after_def)
  have "\<not> bit (ready_group s2) q" using assms(8) unfolding d(2) by (simp add: bit_and_iff bit_not_iff)
  moreover from this have "\<not> ready_inv s2" using ready_invD(2) [of s2 q] d(3) assms(7) by auto
  ultimately show ?thesis using d(1,3) by blast
qed (use assms(4,5) in auto)

text \<open>Two ready threads, of priorities 3 and 7, and memory that holds ones.\<close>

definition dirty_boot :: kstate where
  "dirty_boot = two_started\<lparr>heap_sem := 0x500, kheap := kheap boot,
     threads := (\<lambda>p. if p \<in> {0x100, 0x200} then threads two_started p else (threads two_started p)\<lparr>th_number_mask := - 1\<rparr>)\<rparr>"

lemma thread_inv_dirty_boot: "thread_inv dirty_boot"
  by (rule thread_inv_local [OF thread_inv_two_started])
     (auto simp: dirty_boot_def queued_def split: if_splits)

theorem rt_thread_delete_unstarted_corrupts_witness:
  "\<exists>s p s1 s2. rt_system_heap_init 0x1000 0x2000 dirty_boot = Some s \<and> ready_inv s \<and>
     rt_thread_create id id id [116] 0x8000 0 256 20 10 s = Some (p, s1) \<and> p \<noteq> RT_NULL \<and>
     rt_thread_delete p s1 = Some (RT_EOK, s2) \<and> tqs s2 (Ready 3) = [0x100] \<and> \<not> bit (ready_group s2) 3"
proof -
  have z: "rt_interrupt_nest dirty_boot = 0" "heap_sem dirty_boot = 0x500" "kheap dirty_boot = kheap boot"
    "containers dirty_boot = (\<lambda>_. [])" "tqs dirty_boot (Susp 0x500) = []" "timer_list dirty_boot = []"
    by (simp_all add: dirty_boot_def)
  have out: "\<not> queued dirty_boot p" if "0x1000 \<le> p" for p using that by (auto simp: dirty_boot_def queued_def split: if_splits)
  obtain s where s: "rt_system_heap_init 0x1000 0x2000 dirty_boot = Some s" "dyn_inv s"
    "kheap s = (heap_init 0x1000 0x2000 (kheap boot))\<lparr>lfree := 0\<rparr>" "blocks (kheap s) = [0]" "threads s = threads dirty_boot"
    "tqs s = tqs dirty_boot"
    by (rule heap_init_dyn [OF z(1-4) thread_inv_dirty_boot z(5,6) out])
  obtain p s1 where c: "rt_thread_create id id id [116] 0x8000 0 256 20 10 s = Some (p, s1)" "p \<noteq> RT_NULL" "\<not> queued s1 p"
    "tqs s1 = tqs s"
  proof (rule create_thread_dyn [OF s(2), of 20 256 id id id "[116]" "0x8000" 0 10])
    fix p a s0 s'
    assume 1: "rt_thread_create id id id [116] 0x8000 0 256 20 10 s = Some (p, s')" "p \<noteq> RT_NULL" "\<not> queued s' p"
      "s' = (thread_made p 0x8000 0 a 256 20 10 s0)\<lparr>containers := q_insert_after 8 (TmrOf p) (q_insert_after 0 (At p) (containers s))\<rparr>"
      "\<exists>h. s0 = s\<lparr>kheap := h, objects := (objects s)(At p := fresh_object 0 [116])\<rparr>"
    then have "tqs s' = tqs s" using made_thread(16) [OF 1(4)] by blast
    then show thesis using that 1 by blast
  qed (use boot_thread_room [OF s(3,4), of 256] in auto)
  have tq: "tqs s (Ready 20) = []" "tqs s (Ready 3) = [0x100]" using s(6) by (simp_all add: dirty_boot_def)
  have "0x100 \<in> set (tqs s1 (Ready 3))" "0x200 \<in> set (tqs s1 (Ready 7))" using c(4) s(6) by (simp_all add: dirty_boot_def)
  then have "p \<noteq> 0x100" "p \<noteq> 0x200" using c(3) by (auto simp: queued_def)
  then have b: "bit (th_number_mask (threads s p)) 3" using s(5) by (simp add: dirty_boot_def)
  show ?thesis
    using rt_thread_delete_unstarted_corrupts [OF s(2) _ _ c(1,2) _ _ b] tq s(1) c thread_invD(1) [OF dyn_invD(2) [OF s(2)]] by auto
qed

end
