(* ===== verification/Startup.thy ===== *)
theory Startup
  imports Kernel_Run Thread_Life
begin

text \<open>
  \<open>src/src/components.c\<close> with \<open>RT_USING_USER_MAIN\<close>: from the entry of the program to the first thread.  The tables of initialisation functions that the linker
  collects and \<open>rt_hw_board_init\<close>, which sets up the heap as the comment asks, are arguments; \<open>rt_show_version\<close> only prints, and
  \<open>rt_system_timer_thread_init\<close> is empty without soft timers.
\<close>

section \<open>The code\<close>

text \<open>The two loops over parts of the table of initialisation functions; their results are ignored.\<close>

fun run_inits :: "('s \<Rightarrow> (u32 \<times> 's) option) list \<Rightarrow> 's \<Rightarrow> 's option" where
  "run_inits [] s = Some s"
| "run_inits (fn # fns) s = do { (_, s) \<leftarrow> fn s; run_inits fns s }"

definition rt_components_board_init :: "('s \<Rightarrow> (u32 \<times> 's) option) list \<Rightarrow> 's \<Rightarrow> 's option" where
  "rt_components_board_init board_fns s = run_inits board_fns s"

definition rt_components_init :: "('s \<Rightarrow> (u32 \<times> 's) option) list \<Rightarrow> 's \<Rightarrow> 's option" where
  "rt_components_init fns s = run_inits fns s"

definition main_thread_entry :: "('s \<Rightarrow> (u32 \<times> 's) option) list \<Rightarrow> ('s \<Rightarrow> (u32 \<times> 's) option) \<Rightarrow> 's \<Rightarrow> 's option" where
  "main_thread_entry fns main s = do {
     s \<leftarrow> rt_components_init fns s;
     (_, s) \<leftarrow> main s;
     Some s
   }"

text \<open>The name is \<open>main\<close>; a third of the 32 priorities is 10.\<close>

definition main_name :: "u8 list" where
  "main_name = [109, 97, 105, 110, 0]"

definition rt_application_init :: "world \<Rightarrow> world \<Rightarrow> world \<Rightarrow> ptr \<Rightarrow> kstate \<Rightarrow> kstate option" where
  "rt_application_init w1 w2 w3 main_entry s = do {
     (tid, s) \<leftarrow> rt_thread_create w1 w2 w3 main_name main_entry RT_NULL 2048 (of_nat (RT_THREAD_PRIORITY_MAX div 3)) 20 s;
     RT_ASSERT (tid \<noteq> RT_NULL);
     (_, s) \<leftarrow> rt_thread_startup tid s;
     Some s
   }"

definition rtthread_startup ::
  "(kstate \<Rightarrow> kstate option) \<Rightarrow> world \<Rightarrow> world \<Rightarrow> world \<Rightarrow> ptr \<Rightarrow> ptr \<Rightarrow> ptr \<Rightarrow> ptr \<Rightarrow> kstate \<Rightarrow> kstate option" where
  "rtthread_startup board_init w1 w2 w3 main_entry idle idle_entry rt_thread_stack s = do {
     s \<leftarrow> board_init s;
     let s = rt_system_timer_init s;
     let s = rt_system_scheduler_init s;
     s \<leftarrow> rt_application_init w1 w2 w3 main_entry s;
     s \<leftarrow> rt_thread_idle_init idle idle_entry rt_thread_stack s;
     rt_system_scheduler_start s
   }"

section \<open>Lemmas\<close>

text \<open>Starting a thread before the scheduler runs.\<close>

lemma startup_eq:
  assumes "startable s t" "rt_current_thread s = RT_NULL"
  shows "rt_thread_startup t s = Some (RT_EOK, woken t (s\<lparr>threads := (threads s)(t := (threads s t)
      \<lparr>th_current_priority := th_init_priority (threads s t),
       th_number_mask := push_bit (unat (th_init_priority (threads s t))) 1, th_stat := RT_THREAD_SUSPEND\<rparr>)\<rparr>))"
proof -
  let ?s1 = "s\<lparr>threads := (threads s)(t := (threads s t)\<lparr>th_current_priority := th_init_priority (threads s t),
       th_number_mask := push_bit (unat (th_init_priority (threads s t))) 1, th_stat := RT_THREAD_SUSPEND\<rparr>)\<rparr>"
  note T = assms(1) [unfolded startable_def]
  have "prio_ok (threads ?s1 t)" "stack_ok (threads ?s1 t)" using T by (simp_all add: prio_ok_def stack_ok_def)
  then have g: "good ?s1 t" "th_stat (threads ?s1 t) = RT_THREAD_SUSPEND" using T by (simp_all add: good_def periodic_def)
  have na: "timer_stopped (TmrOf t) ?s1 = ?s1" using T by (simp add: timer_stopped_def activated_def)
  have "rt_thread_resume t ?s1 = Some (RT_EOK, woken t ?s1)"
    using rt_thread_resume_eq [OF g] unfolding resumed_def na by blast
  then show ?thesis using T assms(2) by (simp add: rt_thread_startup_def set_thread_def rt_thread_self_def woken_def)
qed

text \<open>While the kernel starts, no thread runs and nothing waits.\<close>

definition booting :: "kstate \<Rightarrow> bool" where
  "booting s \<longleftrightarrow> dyn_inv s \<and> rt_current_thread s = RT_NULL \<and> rt_scheduler_lock_nest s = 0 \<and> timer_list s = [] \<and>
     (\<forall>q. (\<forall>p. q \<noteq> Ready p) \<longrightarrow> tqs s q = [])"

lemma startup_boot:
  assumes "booting s" "startable s t" "At t \<in> set (containers s 0)"
  obtains s' where "rt_thread_startup t s = Some (RT_EOK, s')" "booting s'" "good s' t"
    "tqs s' = q_insert_before (Ready (unat (th_init_priority (threads s t)))) t (tqs s)"
    "containers s' = containers s" "kheap s' = kheap s" "heap_sem s' = heap_sem s" "\<And>u. th_entry (threads s' u) = th_entry (threads s u)"
proof -
  have b: "dyn_inv s" "rt_current_thread s = RT_NULL" "\<not> queued s t"
    using assms(1,2) by (simp_all add: booting_def startable_def)
  note e = startup_eq [OF assms(2) b(2)]
  have u: "q_remove t (tqs s) = tqs s" using b(3) by (intro q_remove_unlinked) (auto simp: unlinked_def queued_def)
  obtain s' where s': "rt_thread_startup t s = Some (RT_EOK, s')" "dyn_inv s'" "good s' t"
    "tqs s' = q_insert_before (Ready (unat (th_init_priority (threads s t)))) t (tqs s)" "containers s' = containers s"
    using startup_dyn [OF b(1) assms(2,3)] by blast
  have f: "rt_current_thread s' = RT_NULL" "rt_scheduler_lock_nest s' = rt_scheduler_lock_nest s" "timer_list s' = timer_list s"
    "kheap s' = kheap s" "heap_sem s' = heap_sem s" "th_entry (threads s' u) = th_entry (threads s u)" for u
    using s'(1) b(2) unfolding e by (auto simp: woken_def)
  then have "booting s'" using assms(1) s'(2,4) by (simp add: booting_def q_insert_before_def)
  then show ?thesis using that s'(1,3,4,5) f by blast
qed

text \<open>A thread made of static memory.\<close>

lemma static_thread_boot:
  assumes inv: "booting s" and t: "t \<noteq> RT_NULL" "\<not> in_heap s t" "t \<noteq> heap_sem s" "\<not> queued s t"
      "\<not> registered s (At t)" "\<not> registered s (TmrOf t)"
    and p: "unat priority < 32" "a \<noteq> RT_NULL" "unat a + unat n < 2 ^ 32" "72 \<le> unat n" "unat n < 2 ^ 16"
  obtains s' where "rt_thread_init t name entry parameter a n priority tick s = Some (RT_EOK, s')" "booting s'" "startable s' t"
    "At t \<in> set (containers s' 0)" "tqs s' = tqs s" "th_init_priority (threads s' t) = priority" "th_entry (threads s' t) = entry"
    "\<And>u. u \<noteq> t \<Longrightarrow> threads s' u = threads s u"
proof -
  have b: "dyn_inv s" "timer_list s = []" using inv by (simp_all add: booting_def)
  let ?o = "set_object (At t) (ob_name_update (\<lambda>_. name_copy RT_NAME_MAX name))
    (set_object (At t) (ob_type_update (\<lambda>_. RT_Object_Class_Thread OR RT_Object_Class_Static)) s)"
  let ?m = "thread_made t entry parameter a n priority tick ?o"
  let ?c = "q_insert_after 8 (TmrOf t) (q_insert_after 0 (At t) (containers s))"
  let ?s = "?m\<lparr>containers := ?c\<rparr>"
  have call: "rt_thread_init t name entry parameter a n priority tick s = Some (RT_EOK, ?s)"
    using t(1) p(2) rt_thread_init'_eq [OF p(1)]
    by (simp add: rt_thread_init_def rt_object_init_def rt_object_get_information_def object_classes_def thread_made_def Let_def set_object_def)
  have oa: "only_at t s ?m" by (auto simp: only_at_def thread_made_def set_object_def)
  have "dyn_inv ?m" by (rule dyn_inv_only_at_other [OF b(1) oa t(3,4)]) (simp add: b(2))
  moreover have "registered ?s r \<longleftrightarrow> registered ?m r \<or> r \<in> {At t, TmrOf t}" for r
    using only_at_fields(3) [OF oa] by (auto simp: registered_def q_insert_after_def) metis+
  moreover have "unlinked (At t) (containers s)" "unlinked (TmrOf t) (q_insert_after 0 (At t) (containers s))"
    using t(5,6) by (auto simp: unlinked_def registered_def q_insert_after_def)
  then have "wf_queues ?c" using dyn_invD(4) [OF b(1)] by auto
  moreover have "in_heap ?s = in_heap ?m" "hlive ?s = hlive ?m" "queued ?s = queued ?m" "\<not> in_heap ?m t"
    using t(2) by (auto simp: in_heap_def hlive_def queued_def fun_eq_iff thread_made_def set_object_def)
  moreover have "thread_inv ?s = thread_inv ?m" by (rule thread_inv_cong) simp_all
  moreover have "heap_ready ?s = heap_ready ?m" by (simp add: heap_ready_def)
  moreover have "At q \<in> set (containers ?m d) \<Longrightarrow> At q \<in> set (containers ?s d)" for q d
    using only_at_fields(3) [OF oa] by (auto simp: q_insert_after_def)
  ultimately have inv': "dyn_inv ?s" unfolding dyn_inv_def registry_ok_def by auto
  then have "booting ?s" using inv by (simp add: booting_def thread_made_def set_object_def)
  moreover have "stack_ok (threads ?s t)" using stack_made [OF p(3-5)] by (simp add: stack_ok_def thread_made_def)
  then have "startable ?s t" using t(1,4) p(1) by (simp add: startable_def thread_made_def queued_def set_object_def)
  ultimately show ?thesis
    using that [OF call] by (simp add: thread_made_def set_object_def q_insert_after_def)
qed

text \<open>A thread on the heap.\<close>

lemma heap_thread_boot:
  assumes inv: "booting s" and room: "\<not> no_thread_room n (kheap s)" and p: "unat priority < 32" "72 \<le> unat n" "unat n < 2 ^ 16"
  obtains t s' where "rt_thread_create w1 w2 w3 name entry parameter n priority tick s = Some (t, s')" "t \<noteq> RT_NULL" "booting s'"
    "startable s' t" "At t \<in> set (containers s' 0)" "in_heap s' t" "in_heap s' = in_heap s" "heap_sem s' = heap_sem s" "tqs s' = tqs s"
    "th_init_priority (threads s' t) = priority" "th_entry (threads s' t) = entry"
    "\<And>r. registered s' r \<longleftrightarrow> registered s r \<or> r \<in> {At t, TmrOf t}"
proof -
  have b: "dyn_inv s" using inv by (simp add: booting_def)
  have n: "n \<le> 0xfffffffc" using p(3) by (simp add: word_le_nat_alt)
  show ?thesis using b p(1) n
  proof (cases rule: create_thread_dyn [where ?w1.0 = w1 and ?w2.0 = w2 and ?w3.0 = w3 and name = name and entry = entry
      and parameter = parameter and tick = tick])
    case (Failed s')
    then show ?thesis using room by simp
  next
    case (Made t a s0 s')
    obtain h where s0: "s0 = s\<lparr>kheap := h, objects := (objects s)(At t := fresh_object 0 name)\<rparr>" using Made(10) by blast
    note M = made_thread [OF Made(11) s0]
    have "booting s'" using inv Made(2) unfolding Made(11) s0 by (simp add: booting_def thread_made_def)
    moreover have "startable s' t" by (rule made_startable [OF Made(2,3,12,8) p(2,3,1) Made(11) s0])
    moreover have "hlive s' t \<noteq> None" using Made(6) by auto
    then have "in_heap s' t" using dyn_live_in_heap [OF Made(2)] by blast
    moreover have "registered s' r \<longleftrightarrow> registered s r \<or> r \<in> {At t, TmrOf t}" for r
      unfolding Made(11) by (auto simp: registered_def q_insert_after_def) metis+
    moreover note Made(15)
    ultimately show ?thesis using that [OF Made(1,3)] M unfolding Made(11) s0 by (simp add: thread_made_def)
  qed
qed

text \<open>What \<open>rt_hw_board_init\<close> has to leave behind: a heap with its semaphore, no thread and no list in use, and nothing of the idle thread registered.\<close>

definition board_ready :: "ptr \<Rightarrow> kstate \<Rightarrow> bool" where
  "board_ready idle s \<longleftrightarrow> heap_ready s \<and> \<not> in_heap s (heap_sem s) \<and> wf_queues (containers s) \<and>
     (\<forall>p. in_heap s p \<longrightarrow> (registered s (At p) \<longrightarrow> hlive s p \<noteq> None) \<and> \<not> registered s (TmrOf p)) \<and>
     (\<forall>q. (\<forall>p < 32. q \<noteq> Ready p) \<and> q \<noteq> Defunct \<longrightarrow> tqs s q = []) \<and>
     idle \<noteq> RT_NULL \<and> \<not> in_heap s idle \<and> idle \<noteq> heap_sem s \<and> \<not> registered s (At idle) \<and> \<not> registered s (TmrOf idle)"

lemma inits_booting:
  assumes "board_ready idle s"
  defines "s1 \<equiv> rt_system_scheduler_init (rt_system_timer_init s)"
  shows "booting s1" "tqs s1 = (\<lambda>_. [])" "kheap s1 = kheap s" "heap_sem s1 = heap_sem s" "registered s1 = registered s"
    "in_heap s1 = in_heap s"
proof -
  have q: "tqs s1 q = []" for q
    using assms(1) by (cases q) (simp_all add: s1_def rt_system_scheduler_init_def rt_system_timer_init_def board_ready_def)
  then show tq: "tqs s1 = (\<lambda>_. [])" by auto
  have f: "timer_list s1 = []" "ready_group s1 = 0" "rt_current_thread s1 = RT_NULL" "rt_scheduler_lock_nest s1 = 0"
    "containers s1 = containers s" "kheap s1 = kheap s" "heap_sem s1 = heap_sem s" "sems s1 = sems s"
    "rt_interrupt_nest s1 = rt_interrupt_nest s"
    by (simp_all add: s1_def rt_system_scheduler_init_def rt_system_timer_init_def)
  then show e: "kheap s1 = kheap s" "heap_sem s1 = heap_sem s" "registered s1 = registered s" "in_heap s1 = in_heap s"
    by (simp_all add: registered_def in_heap_def fun_eq_iff)
  have "thread_inv s1"
    using q f(1,2) by (simp add: thread_inv_def ready_inv_def waiting_lists_ok_def thread_timers_ok_def wf_queues_def)
  moreover have "heap_ready s1" using assms(1) f q by (simp add: board_ready_def heap_ready_def)
  moreover have "hlive s1 = hlive s" by (simp add: hlive_def f)
  moreover have "\<not> queued s1 p" for p using q f(1) by (simp add: queued_def)
  ultimately have "dyn_inv s1"
    using assms(1) e f(1) unfolding dyn_inv_def registry_ok_def board_ready_def by (simp add: f(5))
  then show "booting s1" using f q by (simp add: booting_def)
qed

lemma scheduler_start_runs:
  assumes "booting s" "tqs s = (\<lambda>_. [])(Ready 10 := [m], Ready 31 := [idle])"
  obtains s' where "rt_system_scheduler_start s = Some s'" "run_inv idle s'" "rt_current_thread s' = m" "tqs s' = tqs s"
    "threads s' = threads s" "switches s' = (0, m) # switches s"
proof -
  have inv: "thread_inv s" "rt_interrupt_nest s = 0"
    using assms(1) dyn_invD(1,2) [of s] by (simp_all add: booting_def heap_ready_def)
  have "first_ready (tqs s) 0 32 = Some (10, m)" unfolding assms(2) by (subst first_ready_Some) auto
  then obtain w where w: "highest_ready_thread s = Some (w, m)"
    using highest_ready_thread_first_ready [OF thread_invD(1) [OF inv(1)]] by auto
  let ?s = "s\<lparr>rt_current_thread := m, switches := (0, m) # switches s\<rparr>"
  have "rt_system_scheduler_start s = Some ?s" using w by (simp add: rt_system_scheduler_start_def)
  moreover have "highest_ready_thread ?s = highest_ready_thread s" by (simp add: highest_ready_thread_def Let_def)
  then have "settled ?s" using w assms(1) by (simp add: settled_iff booting_def)
  moreover have "thread_inv ?s" using inv(1) by (subst thread_inv_cong [where s = s]) simp_all
  moreover have "idle_ready idle ?s" unfolding idle_ready_def by (rule exI [of _ 31]) (simp add: assms(2))
  ultimately show ?thesis
    using that [of ?s] assms inv(2)
    by (simp add: run_inv_def run_part_def booting_def sem_inv_def no_overdue_def timer_inv_def periods_ok_def)
qed

section \<open>Properties\<close>

text \<open>
  C5. Starting up.  When the board leaves a heap with room for the main thread, \<open>rtthread_startup\<close> reaches the first context switch, to the main
  thread, which runs \<open>main_thread_entry\<close> at priority 10; the idle thread is ready at priority 31 and no other thread exists.  The state is
  consistent in the sense of \<open>run_inv\<close>, so that the properties of the running kernel hold from there on.  Without room the assertion in \<open>rt_application_init\<close> stops
  the system.
\<close>

theorem rtthread_startup_runs:
  assumes "board_init s = Some sb" "board_ready idle sb" "rt_thread_stack \<noteq> RT_NULL" "unat rt_thread_stack + 256 < 2 ^ 32"
  shows "if no_thread_room 2048 (kheap sb)
    then rtthread_startup board_init w1 w2 w3 main_entry idle idle_entry rt_thread_stack s = None
    else \<exists>s' m. rtthread_startup board_init w1 w2 w3 main_entry idle idle_entry rt_thread_stack s = Some s' \<and> run_inv idle s' \<and>
      rt_current_thread s' = m \<and> th_entry (threads s' m) = main_entry \<and>
      tqs s' = (\<lambda>_. [])(Ready 10 := [m], Ready 31 := [idle]) \<and> th_entry (threads s' idle) = idle_entry \<and>
      (\<exists>rest. switches s' = (0, m) # rest)"
proof -
  let ?s1 = "rt_system_scheduler_init (rt_system_timer_init sb)"
  note s1 = inits_booting [OF assms(2)]
  have d1: "dyn_inv ?s1" using s1(1) by (simp add: booting_def)
  note B = assms(2) [unfolded board_ready_def]
  show ?thesis
  proof (cases "no_thread_room 2048 (kheap sb)")
    case True
    from d1 have "\<exists>s2. rt_thread_create w1 w2 w3 main_name main_entry RT_NULL 2048 10 20 ?s1 = Some (RT_NULL, s2)"
      by (rule create_thread_dyn [where ?w1.0 = w1 and ?w2.0 = w2 and ?w3.0 = w3 and name = main_name and entry = main_entry and
          parameter = RT_NULL and n = 2048 and priority = 10 and tick = 20]) (use True s1(3) in simp_all)
    then show ?thesis using True assms(1) by (auto simp: rtthread_startup_def rt_application_init_def RT_ASSERT_def)
  next
    case False
    obtain m s2 where s2: "rt_thread_create w1 w2 w3 main_name main_entry RT_NULL 2048 10 20 ?s1 = Some (m, s2)" "m \<noteq> RT_NULL"
      "booting s2" "startable s2 m" "At m \<in> set (containers s2 0)" "in_heap s2 m" "in_heap s2 = in_heap ?s1"
      "heap_sem s2 = heap_sem ?s1" "tqs s2 = tqs ?s1" "th_init_priority (threads s2 m) = 10" "th_entry (threads s2 m) = main_entry"
      "\<And>r. registered s2 r \<longleftrightarrow> registered ?s1 r \<or> r \<in> {At m, TmrOf m}"
      by (rule heap_thread_boot [OF s1(1), of 2048 10 w1 w2 w3 main_name main_entry RT_NULL 20]) (use False s1(3) in auto)
    obtain s3 where s3: "rt_thread_startup m s2 = Some (RT_EOK, s3)" "booting s3" "tqs s3 = (\<lambda>_. [])(Ready 10 := [m])"
      "containers s3 = containers s2" "kheap s3 = kheap s2" "heap_sem s3 = heap_sem s2" "th_entry (threads s3 m) = main_entry"
      by (rule startup_boot [OF s2(3-5)]) (use s2(9-11) s1(2) in \<open>auto simp: q_insert_before_def\<close>)
    have ne: "idle \<noteq> m" using B s2(6,7) s1(6) by auto
    obtain s4 where s4: "rt_thread_init idle idle_name idle_entry RT_NULL rt_thread_stack 256 31 32 s3 = Some (RT_EOK, s4)"
      "booting s4" "startable s4 idle" "At idle \<in> set (containers s4 0)" "tqs s4 = tqs s3" "th_init_priority (threads s4 idle) = 31"
      "th_entry (threads s4 idle) = idle_entry" "\<And>u. u \<noteq> idle \<Longrightarrow> threads s4 u = threads s3 u"
    proof (rule static_thread_boot [OF s3(2), of idle 31 rt_thread_stack 256 idle_name idle_entry RT_NULL 32])
      show "\<not> in_heap s3 idle" using B s2(7) s1(6) s3(5) by (simp add: in_heap_def fun_eq_iff)
      show "\<not> registered s3 (At idle)" "\<not> registered s3 (TmrOf idle)"
        using B ne s2(12) s1(5) s3(4) by (auto simp: registered_def)
      show "\<not> queued s3 idle" using ne s3(2,3) by (auto simp: queued_def booting_def)
    qed (use B s2(8) s1(4) s3(6) assms(3,4) in auto)
    obtain s5 where s5: "rt_thread_startup idle s4 = Some (RT_EOK, s5)" "booting s5"
      "tqs s5 = (\<lambda>_. [])(Ready 10 := [m], Ready 31 := [idle])" "th_entry (threads s5 u) = th_entry (threads s4 u)" for u
      by (rule startup_boot [OF s4(2-4)]) (use s4(5,6) s3(3) in \<open>auto simp: q_insert_before_def\<close>)
    obtain s6 where s6: "rt_system_scheduler_start s5 = Some s6" "run_inv idle s6" "rt_current_thread s6 = m" "tqs s6 = tqs s5"
      "threads s6 = threads s5" "switches s6 = (0, m) # switches s5" using scheduler_start_runs [OF s5(2,3)] by blast
    have "rtthread_startup board_init w1 w2 w3 main_entry idle idle_entry rt_thread_stack s = Some s6"
      using assms(1) s2(1,2) s3(1) s4(1) s5(1) s6(1)
      by (simp add: rtthread_startup_def rt_application_init_def rt_thread_idle_init_def Let_def)
    then show ?thesis using False s6 s5(3,4) s4(7,8) s3(7) ne by auto
  qed
qed

theorem rtthread_startup_runs_witness:
  "\<exists>s' m. rtthread_startup (rt_system_heap_init 0x1000 0x2000) id id id 0x8000 0x300 0x8100 0x400 boot = Some s' \<and>
     rt_current_thread s' = m \<and> th_entry (threads s' m) = 0x8000 \<and> run_inv 0x300 s'"
proof -
  obtain s where s: "rt_system_heap_init 0x1000 0x2000 boot = Some s" "dyn_inv s" "hlive s = Map.empty"
    "kheap s = (heap_init 0x1000 0x2000 (kheap boot))\<lparr>lfree := 0\<rparr>" "blocks (kheap s) = [0]" "tqs s = tqs boot"
    "heap_sem s = 0x500" "containers s = (\<lambda>_. [])(1 := [At 0x500])"
    by (rule boot_dyn)
  have h: "heap_ptr (kheap s) = 0x1000" "heap_end (kheap s) = 0xff4" unfolding s(4) by (simp_all add: heap_init_def Let_def)
  have "tqs s = (\<lambda>_. [])" using s(6) by (simp add: boot_def)
  moreover have "\<not> in_heap s 0x300" "\<not> in_heap s 0x500" using h by (simp_all add: in_heap_def)
  ultimately have b: "board_ready 0x300 s"
    using s(2,7,8) dyn_invD(1,4,5) [OF s(2)] by (auto simp: board_ready_def registered_def split: if_splits)
  have "\<not> no_thread_room 2048 (kheap s)" using boot_thread_room [OF s(4,5), of 2048] by simp
  then show ?thesis
    using rtthread_startup_runs [of "rt_system_heap_init 0x1000 0x2000", OF s(1) b, of "0x400" id id id "0x8000" "0x8100"] by auto
qed

end
