(* ===== verification/Ringbuffer.thy ===== *)
theory Ringbuffer
  imports Bounded_Fifo
begin

text \<open>
  The ring buffer of \<open>src/components/drivers/src/ringbuffer.c\<close> and
  \<open>src/components/drivers/include/rtdevice.h\<close>, which the serial drivers and the pipes put their bytes in.
  The C code computes in \<open>int\<close> and stores into bit fields: the numbers of the model are integers, reduced
  modulo \<open>2^15\<close> where an index is stored and modulo \<open>2^16\<close> where a length is; a mirror bit is a truth value.
  The memory behind \<open>buffer_ptr\<close> and behind the \<open>ptr\<close> arguments are lists of bytes, and an access outside of
  them, undefined in C, is \<^const>\<open>None\<close>.

  The ring buffer is a bounded queue of bytes (the interpretation of \<open>bounded_fifo\<close>), and the block
  operations move as many bytes as fit or are there.
\<close>

section \<open>The code\<close>

record rt_ringbuffer =
  rb_buffer :: "u8 list"
  rb_read_mirror :: bool
  rb_read_index :: int
  rb_write_mirror :: bool
  rb_write_index :: int
  rb_size :: int

datatype rt_ringbuffer_state = RT_RINGBUFFER_EMPTY | RT_RINGBUFFER_FULL | RT_RINGBUFFER_HALFFULL

text \<open>\<open>memcpy\<close> into the buffer at index \<open>i\<close>, and out of an area from index \<open>i\<close> on.\<close>

definition blit :: "int \<Rightarrow> u8 list \<Rightarrow> u8 list \<Rightarrow> u8 list option" where
  "blit i xs buf =
     (if 0 \<le> i \<and> nat i + length xs \<le> length buf
      then Some (take (nat i) buf @ xs @ drop (nat i + length xs) buf) else None)"

definition slice :: "int \<Rightarrow> int \<Rightarrow> u8 list \<Rightarrow> u8 list option" where
  "slice i n xs = (if 0 \<le> i \<and> 0 \<le> n \<and> nat i + nat n \<le> length xs then Some (take (nat n) (drop (nat i) xs)) else None)"

definition rt_ringbuffer_init :: "u8 list \<Rightarrow> int \<Rightarrow> rt_ringbuffer option" where
  "rt_ringbuffer_init pool sz = do {
     RT_ASSERT (0 < sz);
     Some \<lparr>rb_buffer = pool, rb_read_mirror = False, rb_read_index = 0, rb_write_mirror = False,
       rb_write_index = 0, rb_size = sz - sz mod 4\<rparr>
   }"

definition rt_ringbuffer_get_size :: "rt_ringbuffer \<Rightarrow> int" where
  "rt_ringbuffer_get_size rb = rb_size rb mod 2 ^ 16"

definition rt_ringbuffer_status :: "rt_ringbuffer \<Rightarrow> rt_ringbuffer_state" where
  "rt_ringbuffer_status rb =
     (if rb_read_index rb = rb_write_index rb
      then if rb_read_mirror rb = rb_write_mirror rb then RT_RINGBUFFER_EMPTY else RT_RINGBUFFER_FULL
      else RT_RINGBUFFER_HALFFULL)"

definition rt_ringbuffer_data_len :: "rt_ringbuffer \<Rightarrow> int" where
  "rt_ringbuffer_data_len rb =
     (case rt_ringbuffer_status rb of
        RT_RINGBUFFER_EMPTY \<Rightarrow> 0
      | RT_RINGBUFFER_FULL \<Rightarrow> rb_size rb mod 2 ^ 16
      | RT_RINGBUFFER_HALFFULL \<Rightarrow>
          (if rb_read_index rb < rb_write_index rb then rb_write_index rb - rb_read_index rb
           else rb_size rb - (rb_read_index rb - rb_write_index rb)) mod 2 ^ 16)"

definition rt_ringbuffer_space_len :: "rt_ringbuffer \<Rightarrow> int" where
  "rt_ringbuffer_space_len rb = rb_size rb - rt_ringbuffer_data_len rb"

text \<open>The two copies of \<open>rt_ringbuffer_put\<close> and \<open>rt_ringbuffer_put_force\<close>, and the new write position.\<close>

definition put_block :: "u8 list \<Rightarrow> int \<Rightarrow> rt_ringbuffer \<Rightarrow> rt_ringbuffer option" where
  "put_block ptr len rb =
     (if len < rb_size rb - rb_write_index rb
      then do {
        xs \<leftarrow> slice 0 len ptr;
        buf \<leftarrow> blit (rb_write_index rb) xs (rb_buffer rb);
        Some (rb\<lparr>rb_buffer := buf, rb_write_index := (rb_write_index rb + len) mod 2 ^ 15\<rparr>)
      }
      else do {
        let n = rb_size rb - rb_write_index rb;
        xs \<leftarrow> slice 0 n ptr;
        buf \<leftarrow> blit (rb_write_index rb) xs (rb_buffer rb);
        ys \<leftarrow> slice n (len - n) ptr;
        buf \<leftarrow> blit 0 ys buf;
        Some (rb\<lparr>rb_buffer := buf, rb_write_mirror := \<not> rb_write_mirror rb,
          rb_write_index := (len - n) mod 2 ^ 15\<rparr>)
      })"

definition rt_ringbuffer_put :: "u8 list \<Rightarrow> int \<Rightarrow> rt_ringbuffer \<Rightarrow> (int \<times> rt_ringbuffer) option" where
  "rt_ringbuffer_put ptr len rb =
     (let sz = rt_ringbuffer_space_len rb mod 2 ^ 16 in
      if sz = 0 then Some (0, rb)
      else let len = (if sz < len then sz else len) in do {
        rb \<leftarrow> put_block ptr len rb;
        Some (len, rb)
      })"

definition rt_ringbuffer_put_force :: "u8 list \<Rightarrow> int \<Rightarrow> rt_ringbuffer \<Rightarrow> (int \<times> rt_ringbuffer) option" where
  "rt_ringbuffer_put_force ptr len rb =
     (let space = rt_ringbuffer_space_len rb mod 2 ^ 16;
          len = (if space < len then rb_size rb mod 2 ^ 16 else len);
          flip = \<not> len < rb_size rb - rb_write_index rb
      in do {
        rb \<leftarrow> put_block ptr len rb;
        Some (len,
          if space < len
          then rb\<lparr>rb_read_mirror := (if flip then \<not> rb_read_mirror rb else rb_read_mirror rb),
                 rb_read_index := rb_write_index rb\<rparr>
          else rb)
      })"

definition rt_ringbuffer_get :: "int \<Rightarrow> rt_ringbuffer \<Rightarrow> (u8 list \<times> rt_ringbuffer) option" where
  "rt_ringbuffer_get len rb =
     (let sz = rt_ringbuffer_data_len rb in
      if sz = 0 then Some ([], rb)
      else let len = (if sz < len then sz else len) in
        if len < rb_size rb - rb_read_index rb
        then do {
          xs \<leftarrow> slice (rb_read_index rb) len (rb_buffer rb);
          Some (xs, rb\<lparr>rb_read_index := (rb_read_index rb + len) mod 2 ^ 15\<rparr>)
        }
        else do {
          let n = rb_size rb - rb_read_index rb;
          xs \<leftarrow> slice (rb_read_index rb) n (rb_buffer rb);
          ys \<leftarrow> slice 0 (len - n) (rb_buffer rb);
          Some (xs @ ys, rb\<lparr>rb_read_mirror := \<not> rb_read_mirror rb, rb_read_index := (len - n) mod 2 ^ 15\<rparr>)
        })"

text \<open>Storing a byte and moving the write position; the second component tells that the mirror flips.\<close>

definition put_byte :: "u8 \<Rightarrow> rt_ringbuffer \<Rightarrow> (bool \<times> rt_ringbuffer) option" where
  "put_byte ch rb = do {
     buf \<leftarrow> blit (rb_write_index rb) [ch] (rb_buffer rb);
     let rb = rb\<lparr>rb_buffer := buf\<rparr>;
     if rb_write_index rb = rb_size rb - 1
     then Some (True, rb\<lparr>rb_write_mirror := \<not> rb_write_mirror rb, rb_write_index := 0\<rparr>)
     else Some (False, rb\<lparr>rb_write_index := (rb_write_index rb + 1) mod 2 ^ 15\<rparr>)
   }"

definition rt_ringbuffer_putchar :: "u8 \<Rightarrow> rt_ringbuffer \<Rightarrow> (int \<times> rt_ringbuffer) option" where
  "rt_ringbuffer_putchar ch rb =
     (if rt_ringbuffer_space_len rb = 0 then Some (0, rb)
      else do { (_, rb) \<leftarrow> put_byte ch rb; Some (1, rb) })"

definition rt_ringbuffer_putchar_force :: "u8 \<Rightarrow> rt_ringbuffer \<Rightarrow> (int \<times> rt_ringbuffer) option" where
  "rt_ringbuffer_putchar_force ch rb =
     (let old_state = rt_ringbuffer_status rb in do {
        (flip, rb) \<leftarrow> put_byte ch rb;
        Some (1,
          if old_state = RT_RINGBUFFER_FULL
          then rb\<lparr>rb_read_mirror := (if flip then \<not> rb_read_mirror rb else rb_read_mirror rb),
                 rb_read_index := rb_write_index rb\<rparr>
          else rb)
      })"

definition rt_ringbuffer_getchar :: "rt_ringbuffer \<Rightarrow> (u8 option \<times> rt_ringbuffer) option" where
  "rt_ringbuffer_getchar rb =
     (if rt_ringbuffer_data_len rb = 0 then Some (None, rb)
      else do {
        xs \<leftarrow> slice (rb_read_index rb) 1 (rb_buffer rb);
        Some (Some (hd xs),
          if rb_read_index rb = rb_size rb - 1
          then rb\<lparr>rb_read_mirror := \<not> rb_read_mirror rb, rb_read_index := 0\<rparr>
          else rb\<lparr>rb_read_index := (rb_read_index rb + 1) mod 2 ^ 15\<rparr>)
      })"

section \<open>The invariant and the contents\<close>

definition rb_inv :: "rt_ringbuffer \<Rightarrow> bool" where
  "rb_inv rb \<longleftrightarrow> 0 < rb_size rb \<and> rb_size rb < 2 ^ 15 \<and> nat (rb_size rb) \<le> length (rb_buffer rb) \<and>
     0 \<le> rb_read_index rb \<and> rb_read_index rb < rb_size rb \<and>
     0 \<le> rb_write_index rb \<and> rb_write_index rb < rb_size rb \<and>
     (if rb_read_mirror rb = rb_write_mirror rb then rb_read_index rb \<le> rb_write_index rb
      else rb_write_index rb \<le> rb_read_index rb)"

definition rb_count :: "rt_ringbuffer \<Rightarrow> nat" where
  "rb_count rb = nat (if rb_read_mirror rb = rb_write_mirror rb then rb_write_index rb - rb_read_index rb
     else rb_size rb - (rb_read_index rb - rb_write_index rb))"

definition rb_contents :: "rt_ringbuffer \<Rightarrow> u8 list" where
  "rb_contents rb = ring (rb_buffer rb) (nat (rb_size rb)) (nat (rb_read_index rb)) (rb_count rb)"

lemma length_rb_contents [simp]: "length (rb_contents rb) = rb_count rb"
  by (simp add: rb_contents_def)

lemma rb_invD:
  assumes "rb_inv rb"
  shows "0 < rb_size rb" "rb_size rb < 2 ^ 15" "nat (rb_size rb) \<le> length (rb_buffer rb)"
    "0 \<le> rb_read_index rb" "rb_read_index rb < rb_size rb" "0 \<le> rb_write_index rb" "rb_write_index rb < rb_size rb"
    "rb_read_mirror rb = rb_write_mirror rb \<Longrightarrow> rb_read_index rb \<le> rb_write_index rb"
    "rb_read_mirror rb \<noteq> rb_write_mirror rb \<Longrightarrow> rb_write_index rb \<le> rb_read_index rb"
  using assms by (auto simp: rb_inv_def)

lemma rb_data_len: "rb_inv rb \<Longrightarrow> rt_ringbuffer_data_len rb = int (rb_count rb)"
  by (auto simp: rb_inv_def rt_ringbuffer_data_len_def rt_ringbuffer_status_def rb_count_def split: if_splits)

lemma rb_count_le: "rb_inv rb \<Longrightarrow> int (rb_count rb) \<le> rb_size rb"
  using rb_invD [of rb] by (auto simp: rb_count_def)

lemma rb_space_len: "rb_inv rb \<Longrightarrow> rt_ringbuffer_space_len rb = rb_size rb - int (rb_count rb)"
  by (simp add: rt_ringbuffer_space_len_def rb_data_len)

lemma rb_space_mod:
  "rb_inv rb \<Longrightarrow> rt_ringbuffer_space_len rb mod 2 ^ 16 = rb_size rb - int (rb_count rb)"
  using rb_space_len [of rb] rb_count_le [of rb] rb_invD(2) [of rb] by simp

lemma rb_status_full: "rb_inv rb \<Longrightarrow> rt_ringbuffer_status rb = RT_RINGBUFFER_FULL \<longleftrightarrow> int (rb_count rb) = rb_size rb"
  using rb_invD [of rb] by (auto simp: rt_ringbuffer_status_def rb_count_def)

lemma rb_write_position:
  assumes "rb_inv rb"
  shows "nat (rb_write_index rb) = (nat (rb_read_index rb) + rb_count rb) mod nat (rb_size rb)"
proof (cases "rb_read_mirror rb = rb_write_mirror rb")
  case True
  then have "nat (rb_read_index rb) + rb_count rb = nat (rb_write_index rb)"
    using rb_invD [OF assms] by (simp add: rb_count_def)
  then show ?thesis using rb_invD [OF assms] by simp
next
  case False
  then have "nat (rb_read_index rb) + rb_count rb = nat (rb_write_index rb) + nat (rb_size rb)"
    using rb_invD [OF assms] by (simp add: rb_count_def)
  then show ?thesis using rb_invD [OF assms] by simp
qed

section \<open>Writing a block\<close>

lemma blit_Some:
  "0 \<le> i \<Longrightarrow> nat i + length xs \<le> length buf \<Longrightarrow>
     blit i xs buf = Some (take (nat i) buf @ xs @ drop (nat i + length xs) buf)"
  by (simp add: blit_def)

lemma slice_Some:
  "0 \<le> i \<Longrightarrow> 0 \<le> n \<Longrightarrow> nat i + nat n \<le> length xs \<Longrightarrow> slice i n xs = Some (take (nat n) (drop (nat i) xs))"
  by (simp add: slice_def)

text \<open>The bytes of the buffer after \<open>len\<close> bytes were written from position \<open>w\<close> on, going round.\<close>

lemma put_block_ok:
  assumes inv: "rb_inv rb" and len: "0 \<le> len" "len \<le> rb_size rb" "nat len \<le> length ptr"
  defines "n \<equiv> nat (rb_size rb)" and "w \<equiv> nat (rb_write_index rb)" and "k \<equiv> nat len"
  obtains buf where
    "put_block ptr len rb = Some (rb\<lparr>rb_buffer := buf,
       rb_write_mirror := (rb_write_mirror rb \<noteq> (rb_size rb \<le> rb_write_index rb + len)),
       rb_write_index := int ((w + k) mod n)\<rparr>)"
    "length buf = length (rb_buffer rb)"
    "\<And>j. j < k \<Longrightarrow> buf ! ((w + j) mod n) = ptr ! j"
    "\<And>j. k \<le> j \<Longrightarrow> j < n \<Longrightarrow> buf ! ((w + j) mod n) = rb_buffer rb ! ((w + j) mod n)"
proof -
  note D = rb_invD [OF inv]
  have n: "rb_size rb = int n" "rb_write_index rb = int w" "len = int k" "w < n" "k \<le> n" "n \<le> length (rb_buffer rb)"
    "n < 32768" "k \<le> length ptr"
    using D len by (simp_all add: n_def w_def k_def nat_le_iff)
  show ?thesis
  proof (cases "w + k < n")
    case True
    let ?buf = "take w (rb_buffer rb) @ take k ptr @ drop (w + k) (rb_buffer rb)"
    have "put_block ptr len rb = Some (rb\<lparr>rb_buffer := ?buf, rb_write_index := int (w + k)\<rparr>)"
      using True n by (simp add: put_block_def slice_Some blit_Some)
    moreover have "?buf ! ((w + j) mod n) = ptr ! j" if "j < k" for j
      using that True n by (simp add: nth_append)
    moreover have "?buf ! ((w + j) mod n) = rb_buffer rb ! ((w + j) mod n)" if "k \<le> j" "j < n" for j
      using that True n by (cases "w + j < n") (auto simp: nth_append mod_if)
    ultimately show ?thesis using True n that [of ?buf] by simp
  next
    case False
    define c where "c = n - w"
    have c: "c \<le> k" "0 < c" "w + c = n" "k - c \<le> w" using False n by (auto simp: c_def)
    define d where "d = k - c"
    have d: "d \<le> w" "k = c + d" using c by (simp_all add: d_def)
    define b1 where "b1 = take w (rb_buffer rb) @ take c ptr @ drop n (rb_buffer rb)"
    have l1: "length b1 = length (rb_buffer rb)" using n c by (simp add: b1_def)
    have b1_old: "b1 ! i = rb_buffer rb ! i" if "i < w" for i
      using that n by (simp add: b1_def nth_append)
    have b1_new: "b1 ! i = ptr ! (i - w)" if "w \<le> i" "i < n" for i
    proof -
      have "i - w < c" using that c by simp
      then show ?thesis using that n c by (simp add: b1_def nth_append)
    qed
    define buf where "buf = take d (drop c ptr) @ drop d b1"
    have buf_new: "buf ! i = ptr ! (c + i)" if "i < d" for i
      using that n d by (simp add: buf_def nth_append)
    have buf_old: "buf ! i = b1 ! i" if "d \<le> i" for i
      using that n d l1 by (simp add: buf_def nth_append)
    have lb: "length buf = length (rb_buffer rb)" using n d l1 by (simp add: buf_def)
    have "put_block ptr len rb = Some (rb\<lparr>rb_buffer := buf, rb_write_mirror := \<not> rb_write_mirror rb,
        rb_write_index := int d\<rparr>)"
    proof -
      have i: "rb_size rb - rb_write_index rb = int c" "len - int c = int d" "\<not> len < int c"
        using n c d by auto
      have s1: "slice 0 (int c) ptr = Some (take c ptr)" using n c d by (simp add: slice_def)
      have s2: "slice (int c) (int d) ptr = Some (take d (drop c ptr))"
        using n c d by (simp add: slice_def)
      have b1: "blit (rb_write_index rb) (take c ptr) (rb_buffer rb) = Some b1"
        using n c d by (simp add: blit_def b1_def)
      have b2: "blit 0 (take d (drop c ptr)) b1 = Some buf"
        using n c d l1 by (simp add: blit_def buf_def)
      have "int d mod 2 ^ 15 = int d" using n c d by simp
      then show ?thesis unfolding put_block_def Let_def i using i(3) s1 s2 b1 b2 by simp
    qed
    moreover have "(w + k) mod n = d" using False n c d by (auto simp: mod_if)
    moreover have "buf ! ((w + j) mod n) = ptr ! j" if "j < k" for j
    proof (cases "w + j < n")
      case True
      then show ?thesis using buf_old [of "w + j"] b1_new [of "w + j"] d by simp
    next
      case False
      then have "(w + j) mod n = j - c" "c \<le> j" "j - c < d"
        using that n c d by (auto simp: mod_if)
      then show ?thesis using buf_new by simp
    qed
    moreover have "buf ! ((w + j) mod n) = rb_buffer rb ! ((w + j) mod n)" if "k \<le> j" "j < n" for j
    proof -
      have "(w + j) mod n = j - c" "d \<le> j - c" "j - c < w"
        using that False n c d by (auto simp: mod_if)
      then show ?thesis using buf_old b1_old by simp
    qed
    ultimately show ?thesis using False n that [of buf] lb by simp
  qed
qed

lemma ring_append:
  assumes "c + k \<le> n" "\<And>j. j < k \<Longrightarrow> buf ! ((r + c + j) mod n) = xs ! j"
    and "\<And>i. i < c \<Longrightarrow> buf ! ((r + i) mod n) = old ! ((r + i) mod n)" "k \<le> length xs"
  shows "ring buf n r (c + k) = ring old n r c @ take k xs"
proof (intro nth_equalityI)
  fix i assume "i < length (ring buf n r (c + k))"
  then show "ring buf n r (c + k) ! i = (ring old n r c @ take k xs) ! i"
    using assms(2) [of "i - c"] assms(3) [of i] assms(4)
    by (cases "i < c") (auto simp: ring_def nth_append add.assoc simp del: upt_Suc)
qed (use assms in simp)

lemma ring_drop:
  assumes "j \<le> k"
  shows "drop j (ring pool n r k) = ring pool n ((r + j) mod n) (k - j)"
    and "take j (ring pool n r k) = ring pool n r j"
  using assms by (auto simp: ring_def list_eq_iff_nth_eq mod_simps add.assoc)

lemma put_block_contents:
  assumes inv: "rb_inv rb" and len: "0 \<le> len" "int (rb_count rb) + len \<le> rb_size rb" "nat len \<le> length ptr"
  shows "\<exists>rb'. put_block ptr len rb = Some rb' \<and> rb_inv rb' \<and> rb_size rb' = rb_size rb \<and>
    rb_contents rb' = rb_contents rb @ take (nat len) ptr"
proof -
  note D = rb_invD [OF inv]
  define n where "n = nat (rb_size rb)"
  define w where "w = nat (rb_write_index rb)"
  define r where "r = nat (rb_read_index rb)"
  define k where "k = nat len"
  define c where "c = rb_count rb"
  have N: "rb_size rb = int n" "rb_write_index rb = int w" "rb_read_index rb = int r" "len = int k"
    "c + k \<le> n" "k \<le> length ptr" "w < n" "r < n"
    using D len by (auto simp: n_def w_def r_def k_def c_def)
  have w: "w = (r + c) mod n" using rb_write_position [OF inv] by (simp add: n_def w_def r_def c_def)
  have "len \<le> rb_size rb" using N by simp
  from put_block_ok [OF inv len(1) this len(3)] obtain buf where
    put: "put_block ptr len rb = Some (rb\<lparr>rb_buffer := buf,
       rb_write_mirror := (rb_write_mirror rb \<noteq> (rb_size rb \<le> rb_write_index rb + len)),
       rb_write_index := int ((w + k) mod n)\<rparr>)"
    and buf: "length buf = length (rb_buffer rb)"
      "\<And>j. j < k \<Longrightarrow> buf ! ((w + j) mod n) = ptr ! j"
      "\<And>j. k \<le> j \<Longrightarrow> j < n \<Longrightarrow> buf ! ((w + j) mod n) = rb_buffer rb ! ((w + j) mod n)"
    unfolding n_def w_def k_def by blast
  define rb' where "rb' = rb\<lparr>rb_buffer := buf,
       rb_write_mirror := (rb_write_mirror rb \<noteq> (rb_size rb \<le> rb_write_index rb + len)),
       rb_write_index := int ((w + k) mod n)\<rparr>"
  have wk: "(w + k) mod n = (if w + k < n then w + k else w + k - n)" using N by (simp add: mod_if)
  have c_eq: "c = (if rb_read_mirror rb = rb_write_mirror rb then w - r else n - (r - w))"
    "rb_read_mirror rb = rb_write_mirror rb \<Longrightarrow> r \<le> w" "rb_read_mirror rb \<noteq> rb_write_mirror rb \<Longrightarrow> w \<le> r"
    using D N by (auto simp: c_def rb_count_def)
  have fields: "rb_size rb' = int n" "rb_read_index rb' = int r" "rb_buffer rb' = buf"
    "rb_write_index rb' = (if w + k < n then int (w + k) else int (w + k - n))"
    "rb_read_mirror rb' = rb_read_mirror rb" "rb_write_mirror rb' = (rb_write_mirror rb \<noteq> (n \<le> w + k))"
    "n \<le> length buf" "n < 32768" "0 < n"
    using N D wk buf(1) by (simp_all add: rb'_def) linarith
  have "rb_inv rb' \<and> rb_count rb' = c + k"
  proof (cases "rb_read_mirror rb = rb_write_mirror rb")
    case True
    then have "r \<le> w" "c = w - r" using c_eq by simp_all
    then show ?thesis using True N(5,7,8) fields
      by (cases "w + k < n") (simp_all add: rb_inv_def rb_count_def, linarith?)
  next
    case False
    then have "w \<le> r" "c = n - (r - w)" using c_eq by simp_all
    then show ?thesis using False N(5,7,8) fields
      by (cases "w + k < n") (simp_all add: rb_inv_def rb_count_def, linarith?)
  qed
  then have "rb_inv rb'" and cnt: "rb_count rb' = c + k" by simp_all
  note this(1)
  moreover have "rb_contents rb' = rb_contents rb @ take k ptr"
  proof -
    have old: "buf ! ((r + i) mod n) = rb_buffer rb ! ((r + i) mod n)" if "i < c" for i
    proof -
      have "(r + i) mod n = (w + (n - c + i)) mod n"
      proof -
        have "(w + (n - c + i)) mod n = (r + c + (n - c + i)) mod n" by (simp add: w mod_simps)
        also have "r + c + (n - c + i) = n + (r + i)" using N by simp
        finally show ?thesis by simp
      qed
      then show ?thesis using buf(3) [of "n - c + i"] that N by simp
    qed
    have new: "buf ! ((r + c + j) mod n) = ptr ! j" if "j < k" for j
      using buf(2) [OF that] by (simp add: w mod_simps)
    from ring_append [OF N(5) new old N(6)] show ?thesis
      by (simp add: rb_contents_def cnt fields c_def flip: n_def r_def)
  qed
  ultimately show ?thesis using put by (intro exI [of _ rb']) (simp add: rb'_def k_def)
qed

section \<open>Reading a block\<close>

lemma slice_ring:
  assumes "rb_inv rb" "0 \<le> len" "rb_read_index rb + len \<le> rb_size rb"
  shows "slice (rb_read_index rb) len (rb_buffer rb) =
    Some (ring (rb_buffer rb) (nat (rb_size rb)) (nat (rb_read_index rb)) (nat len))"
proof -
  have "nat (rb_read_index rb) + nat len \<le> nat (rb_size rb)" using assms rb_invD [OF assms(1)] by linarith
  then show ?thesis using assms rb_invD [OF assms(1)]
    by (auto simp: slice_def ring_def list_eq_iff_nth_eq)
qed

text \<open>Moving the read position past \<open>k\<close> bytes drops them.\<close>

definition advance_read :: "nat \<Rightarrow> rt_ringbuffer \<Rightarrow> rt_ringbuffer" where
  "advance_read k rb =
     (if rb_read_index rb + int k < rb_size rb then rb\<lparr>rb_read_index := rb_read_index rb + int k\<rparr>
      else rb\<lparr>rb_read_mirror := \<not> rb_read_mirror rb, rb_read_index := rb_read_index rb + int k - rb_size rb\<rparr>)"

lemma advance_read_ok:
  assumes inv: "rb_inv rb" and k: "k \<le> rb_count rb"
  shows "rb_inv (advance_read k rb)" "rb_size (advance_read k rb) = rb_size rb"
    "rb_contents (advance_read k rb) = drop k (rb_contents rb)"
proof -
  note D = rb_invD [OF inv]
  have *: "rb_inv (advance_read k rb) \<and> rb_count (advance_read k rb) = rb_count rb - k"
    using D k rb_count_le [OF inv]
    by (cases "rb_read_mirror rb = rb_write_mirror rb"; cases "rb_read_index rb + int k < rb_size rb")
      (simp_all add: advance_read_def rb_inv_def rb_count_def, linarith+)
  then show "rb_inv (advance_read k rb)" ..
  show "rb_size (advance_read k rb) = rb_size rb" by (simp add: advance_read_def)
  have "nat (rb_read_index (advance_read k rb)) = (nat (rb_read_index rb) + k) mod nat (rb_size rb)"
  proof (cases "rb_read_index rb + int k < rb_size rb")
    case True
    then have "nat (rb_read_index rb + int k) = nat (rb_read_index rb) + k" "nat (rb_read_index rb) + k < nat (rb_size rb)"
      using D by linarith+
    then show ?thesis using True by (simp add: advance_read_def)
  next
    case False
    then have "nat (rb_read_index rb) + k = nat (rb_read_index rb + int k - rb_size rb) + nat (rb_size rb)"
      "nat (rb_read_index rb + int k - rb_size rb) < nat (rb_size rb)"
      using D k rb_count_le [OF inv] by linarith+
    then show ?thesis using False by (simp add: advance_read_def)
  qed
  moreover have "rb_buffer (advance_read k rb) = rb_buffer rb" "rb_size (advance_read k rb) = rb_size rb"
    by (simp_all add: advance_read_def)
  ultimately show "rb_contents (advance_read k rb) = drop k (rb_contents rb)"
    using * by (simp add: rb_contents_def ring_drop(1) [OF k])
qed

lemma rt_ringbuffer_get_advance:
  assumes inv: "rb_inv rb" and len: "0 \<le> len" and c: "0 < rb_count rb"
  defines "k \<equiv> min (nat len) (rb_count rb)"
  shows "rt_ringbuffer_get len rb = Some (take k (rb_contents rb), advance_read k rb)"
proof -
  note D = rb_invD [OF inv]
  define n where "n = nat (rb_size rb)"
  define r where "r = nat (rb_read_index rb)"
  have N: "rb_size rb = int n" "rb_read_index rb = int r" "k \<le> n" "r < n" "n \<le> length (rb_buffer rb)" "n < 32768"
    using D rb_count_le [OF inv] by (auto simp: n_def r_def k_def)
  have len_eq: "(if rt_ringbuffer_data_len rb < len then rt_ringbuffer_data_len rb else len) = int k"
    using inv len by (simp add: rb_data_len k_def)
  have "take k (rb_contents rb) = ring (rb_buffer rb) n r k"
    by (simp add: rb_contents_def ring_drop k_def n_def r_def)
  moreover have "rt_ringbuffer_get len rb = Some (ring (rb_buffer rb) n r k, advance_read k rb)"
  proof (cases "r + k < n")
    case True
    then have "slice (int r) (int k) (rb_buffer rb) = Some (ring (rb_buffer rb) n r k)"
      using slice_ring [OF inv, of "int k"] N by simp
    then show ?thesis using True N c inv
      unfolding rt_ringbuffer_get_def Let_def len_eq by (simp add: rb_data_len advance_read_def)
  next
    case wraps: False
    define a where "a = n - r"
    define d where "d = k - a"
    have a: "r + a = n" "k = a + d" "d \<le> n" using wraps N by (auto simp: a_def d_def)
    have s1: "slice (int r) (int a) (rb_buffer rb) = Some (ring (rb_buffer rb) n r a)"
      using slice_ring [OF inv, of "int a"] N a by simp
    have s2: "slice 0 (int d) (rb_buffer rb) = Some (ring (rb_buffer rb) n 0 d)"
      using N a by (auto simp: slice_def ring_def list_eq_iff_nth_eq)
    have "ring (rb_buffer rb) n r k = ring (rb_buffer rb) n r a @ ring (rb_buffer rb) n 0 d"
      using ring_drop [of a k "rb_buffer rb" n r] a append_take_drop_id [of a "ring (rb_buffer rb) n r k"] by simp
    moreover have i: "rb_size rb - rb_read_index rb = int a" "int k - int a = int d"
      and "\<not> int k < int a" "int r + int k - int n = int d" "int d mod 2 ^ 15 = int d"
      using a N by auto
    ultimately show ?thesis using s1 s2 wraps N(2-) c inv
      unfolding rt_ringbuffer_get_def Let_def len_eq i by (simp add: rb_data_len advance_read_def N(1))
  qed
  ultimately show ?thesis by simp
qed

lemma rt_ringbuffer_get_contents:
  assumes inv: "rb_inv rb" and len: "0 \<le> len"
  defines "k \<equiv> min (nat len) (rb_count rb)"
  shows "\<exists>rb'. rt_ringbuffer_get len rb = Some (take k (rb_contents rb), rb') \<and> rb_inv rb' \<and>
    rb_size rb' = rb_size rb \<and> rb_contents rb' = drop k (rb_contents rb)"
proof (cases "rb_count rb = 0")
  case True
  then have "rb_contents rb = []" by (metis length_0_conv length_rb_contents)
  then show ?thesis using inv True by (simp add: rt_ringbuffer_get_def rb_data_len)
next
  case False
  then show ?thesis
    using rt_ringbuffer_get_advance [OF inv len] advance_read_ok [OF inv, of k] by (auto simp: k_def)
qed

section \<open>The operations on the contents\<close>

lemma rt_ringbuffer_put_contents:
  assumes inv: "rb_inv rb" and len: "0 \<le> len" "nat len \<le> length ptr"
  defines "k \<equiv> min (nat len) (nat (rb_size rb) - rb_count rb)"
  shows "\<exists>rb'. rt_ringbuffer_put ptr len rb = Some (int k, rb') \<and> rb_inv rb' \<and> rb_size rb' = rb_size rb \<and>
    rb_contents rb' = rb_contents rb @ take k ptr"
proof -
  note sp = rb_space_mod [OF inv]
  show ?thesis
  proof (cases "rb_size rb = int (rb_count rb)")
    case True
    then show ?thesis using inv unfolding rt_ringbuffer_put_def Let_def sp by (simp add: k_def)
  next
    case False
    have k: "(if rb_size rb - int (rb_count rb) < len then rb_size rb - int (rb_count rb) else len) = int k"
      using rb_count_le [OF inv] len by (auto simp: k_def)
    have "0 \<le> int k" "int (rb_count rb) + int k \<le> rb_size rb" "nat (int k) \<le> length ptr"
      using rb_count_le [OF inv] len by (auto simp: k_def)
    from put_block_contents [OF inv this] show ?thesis
      using False unfolding rt_ringbuffer_put_def Let_def sp k by auto
  qed
qed

lemma put_byte_block:
  assumes "rb_inv rb"
  shows "put_byte ch rb = map_option (Pair (rb_size rb \<le> rb_write_index rb + 1)) (put_block [ch] 1 rb)"
proof -
  have "rb_write_index rb = rb_size rb - 1 \<longleftrightarrow> \<not> 1 < rb_size rb - rb_write_index rb" using rb_invD(7) [OF assms] by presburger
  then show ?thesis using rb_invD [OF assms]
    by (auto simp: put_byte_def put_block_def slice_def blit_def Let_def map_option_case split: option.splits)
qed

lemma rt_ringbuffer_putchar_full:
  "rb_inv rb \<Longrightarrow> rb_size rb = int (rb_count rb) \<Longrightarrow> rt_ringbuffer_putchar ch rb = Some (0, rb)"
  by (simp add: rt_ringbuffer_putchar_def rb_space_len)

lemma rt_ringbuffer_putchar_contents:
  assumes inv: "rb_inv rb" and space: "int (rb_count rb) < rb_size rb"
  shows "\<exists>rb'. rt_ringbuffer_putchar ch rb = Some (1, rb') \<and> rb_inv rb' \<and> rb_size rb' = rb_size rb \<and>
    rb_contents rb' = rb_contents rb @ [ch]"
  using put_block_contents [OF inv, of 1 "[ch]"] space
  by (auto simp: rt_ringbuffer_putchar_def rb_space_len inv put_byte_block)

lemma rt_ringbuffer_getchar_block:
  assumes inv: "rb_inv rb"
  shows "rt_ringbuffer_getchar rb =
    map_option (\<lambda>(xs, rb'). (if xs = [] then None else Some (hd xs), rb')) (rt_ringbuffer_get 1 rb)"
proof (cases "rb_count rb = 0")
  case True
  then show ?thesis by (simp add: rt_ringbuffer_getchar_def rt_ringbuffer_get_def rb_data_len inv)
next
  case False
  have "rb_read_index rb = rb_size rb - 1 \<longleftrightarrow> \<not> 1 < rb_size rb - rb_read_index rb" using rb_invD(5) [OF inv] by presburger
  then show ?thesis using False rb_invD [OF inv]
    by (auto simp: rt_ringbuffer_getchar_def rt_ringbuffer_get_def rb_data_len inv slice_def Let_def)
qed

lemma rt_ringbuffer_getchar_contents:
  assumes inv: "rb_inv rb"
  shows "rb_contents rb = [] \<Longrightarrow> rt_ringbuffer_getchar rb = Some (None, rb)"
    and "rb_contents rb = ch # cs \<Longrightarrow>
      \<exists>rb'. rt_ringbuffer_getchar rb = Some (Some ch, rb') \<and> rb_inv rb' \<and> rb_size rb' = rb_size rb \<and> rb_contents rb' = cs"
proof -
  have len: "rb_count rb = length (rb_contents rb)" by simp
  show "rt_ringbuffer_getchar rb = Some (None, rb)" if "rb_contents rb = []"
    using that len inv by (simp add: rt_ringbuffer_getchar_def rb_data_len)
  show "\<exists>rb'. rt_ringbuffer_getchar rb = Some (Some ch, rb') \<and> rb_inv rb' \<and> rb_size rb' = rb_size rb \<and> rb_contents rb' = cs"
    if cs: "rb_contents rb = ch # cs"
  proof -
    have "min (nat 1) (rb_count rb) = 1" using cs len by simp
    then obtain rb' where "rt_ringbuffer_get 1 rb = Some ([ch], rb')" "rb_inv rb'" "rb_size rb' = rb_size rb"
      "rb_contents rb' = cs"
      using rt_ringbuffer_get_contents [OF inv, of 1] cs by auto
    then show ?thesis by (simp add: rt_ringbuffer_getchar_block [OF inv])
  qed
qed

text \<open>Putting a byte by force into a full buffer is taking one byte out and putting the new one.\<close>

lemma rt_ringbuffer_putchar_force_full:
  assumes inv: "rb_inv rb" and full: "int (rb_count rb) = rb_size rb"
  shows "rt_ringbuffer_putchar_force ch rb =
    (case rt_ringbuffer_getchar rb of Some (_, rb') \<Rightarrow> rt_ringbuffer_putchar ch rb' | None \<Rightarrow> None)"
proof -
  note D = rb_invD [OF inv]
  have st: "rt_ringbuffer_status rb = RT_RINGBUFFER_FULL" using rb_status_full [OF inv] full by simp
  then have same: "rb_read_index rb = rb_write_index rb" by (simp add: rt_ringbuffer_status_def split: if_splits)
  have c: "rb_count rb \<noteq> 0" using full D by simp
  have sp: "rb_size rb \<noteq> int (rb_count rb1)" if "rt_ringbuffer_getchar rb = Some (x, rb1)" for x rb1
  proof -
    obtain y ys where "rb_contents rb = y # ys" using c by (metis length_rb_contents list.size(3) neq_Nil_conv)
    from rt_ringbuffer_getchar_contents(2) [OF inv this] this that
    have "rb_contents rb = y # rb_contents rb1" by auto
    then have "rb_count rb = Suc (rb_count rb1)" by (metis length_rb_contents length_Cons)
    then show ?thesis using full by simp
  qed
  obtain x rb1 where get: "rt_ringbuffer_getchar rb = Some (x, rb1)" "rb_inv rb1" "rb_size rb1 = rb_size rb"
    using rt_ringbuffer_getchar_contents [OF inv] inv by (cases "rb_contents rb") auto
  have rb1: "rb1 = (if rb_read_index rb = rb_size rb - 1
      then rb\<lparr>rb_read_mirror := \<not> rb_read_mirror rb, rb_read_index := 0\<rparr>
      else rb\<lparr>rb_read_index := (rb_read_index rb + 1) mod 2 ^ 15\<rparr>)"
    using get(1) c by (auto simp: rt_ringbuffer_getchar_def rb_data_len inv split: bind_splits)
  have "rt_ringbuffer_putchar ch rb1 = do { (_, rb) \<leftarrow> put_byte ch rb1; Some (1, rb) }"
    using sp [OF get(1)] get by (simp add: rt_ringbuffer_putchar_def rb_space_len)
  moreover have "Suc (nat (rb_write_index rb)) \<le> length (rb_buffer rb)" using D(3,6,7) by linarith
  ultimately show ?thesis
    using st same get(1) D(6)
    by (cases "rb_write_index rb = rb_size rb - 1") (auto simp: rt_ringbuffer_putchar_force_def put_byte_def rb1 blit_def)
qed

lemma rt_ringbuffer_putchar_force_contents:
  assumes inv: "rb_inv rb"
  shows "\<exists>rb'. rt_ringbuffer_putchar_force ch rb = Some (1, rb') \<and> rb_inv rb' \<and> rb_size rb' = rb_size rb \<and>
    rb_contents rb' = (if int (rb_count rb) = rb_size rb then tl (rb_contents rb) else rb_contents rb) @ [ch]"
proof (cases "int (rb_count rb) = rb_size rb")
  case True
  then have "length (rb_contents rb) \<noteq> 0" using rb_invD(1) [OF inv] by simp
  then have "rb_contents rb \<noteq> []" by (simp del: length_rb_contents)
  then obtain x xs where xs: "rb_contents rb = x # xs" by (meson neq_Nil_conv)
  from rt_ringbuffer_getchar_contents(2) [OF inv xs] obtain rb1 where
    get: "rt_ringbuffer_getchar rb = Some (Some x, rb1)" "rb_inv rb1" "rb_size rb1 = rb_size rb" "rb_contents rb1 = xs"
    by blast
  then have "int (rb_count rb1) < rb_size rb1"
    using True xs length_rb_contents [of rb] length_rb_contents [of rb1] by (simp del: length_rb_contents)
  from rt_ringbuffer_putchar_contents [OF get(2) this] show ?thesis
    using True xs get by (auto simp: rt_ringbuffer_putchar_force_full inv)
next
  case False
  then have "int (rb_count rb) < rb_size rb" "rt_ringbuffer_status rb \<noteq> RT_RINGBUFFER_FULL"
    using rb_count_le [OF inv] rb_status_full [OF inv] by auto
  then show ?thesis using put_block_contents [OF inv, of 1 "[ch]"] False
    by (auto simp: rt_ringbuffer_putchar_force_def put_byte_block inv)
qed

text \<open>
  A block put by force: when it fits it is appended; into a buffer with less room the code writes
  \<open>buffer_size\<close> bytes from the write position on and flips both mirrors, which leaves a full buffer of the
  first bytes when the mirrors differed, and an \<^emph>\<open>empty\<close> one when they agreed.
\<close>

lemma rt_ringbuffer_put_force_fits:
  assumes inv: "rb_inv rb" and len: "0 \<le> len" "nat len \<le> length ptr" "int (rb_count rb) + len \<le> rb_size rb"
  shows "\<exists>rb'. rt_ringbuffer_put_force ptr len rb = Some (len, rb') \<and> rb_inv rb' \<and> rb_size rb' = rb_size rb \<and>
    rb_contents rb' = rb_contents rb @ take (nat len) ptr"
proof -
  note sp = rb_space_mod [OF inv]
  have "\<not> rb_size rb - int (rb_count rb) < len" using len by simp
  then show ?thesis using put_block_contents [OF inv len(1,3,2)]
    unfolding rt_ringbuffer_put_force_def Let_def sp by auto
qed

lemma rt_ringbuffer_put_force_over:
  assumes inv: "rb_inv rb" and len: "rb_size rb < int (rb_count rb) + len" "0 < rb_count rb"
    and ptr: "nat (rb_size rb) \<le> length ptr"
  shows "\<exists>rb'. rt_ringbuffer_put_force ptr len rb = Some (rb_size rb, rb') \<and> rb_inv rb' \<and> rb_size rb' = rb_size rb \<and>
    rb_contents rb' = (if rb_read_mirror rb = rb_write_mirror rb then [] else take (nat (rb_size rb)) ptr)"
proof -
  note D = rb_invD [OF inv]
  define n where "n = nat (rb_size rb)"
  define w where "w = nat (rb_write_index rb)"
  have N: "rb_size rb = int n" "rb_write_index rb = int w" "w < n" "n \<le> length (rb_buffer rb)" "n < 32768"
    using D by (auto simp: n_def w_def)
  note sp = rb_space_mod [OF inv]
  have "0 \<le> rb_size rb" using D(1) by simp
  from put_block_ok [OF inv this order_refl ptr] obtain buf where
    "put_block ptr (rb_size rb) rb = Some (rb\<lparr>rb_buffer := buf,
       rb_write_mirror := (rb_write_mirror rb \<noteq> (rb_size rb \<le> rb_write_index rb + rb_size rb)),
       rb_write_index := int ((w + n) mod n)\<rparr>)"
    and buf: "length buf = length (rb_buffer rb)" "\<And>j. j < n \<Longrightarrow> buf ! ((w + j) mod n) = ptr ! j"
    unfolding w_def n_def by metis
  then have put: "put_block ptr (int n) rb = Some (rb\<lparr>rb_buffer := buf,
       rb_write_mirror := \<not> rb_write_mirror rb, rb_write_index := int w\<rparr>)"
    using N by simp
  define rb' where "rb' = rb\<lparr>rb_buffer := buf, rb_write_mirror := \<not> rb_write_mirror rb, rb_write_index := int w,
    rb_read_mirror := \<not> rb_read_mirror rb, rb_read_index := int w\<rparr>"
  have "rb_size rb mod 2 ^ 16 = int n" "rb_size rb - int (rb_count rb) < len" "int n - int (rb_count rb) < int n"
    "\<not> int n < int n - int w" using N len by simp_all
  then have "rt_ringbuffer_put_force ptr len rb = Some (int n, rb')"
    using put N unfolding rt_ringbuffer_put_force_def Let_def sp by (simp add: rb'_def)
  moreover have "rb_inv rb'" using N buf(1) by (simp add: rb_inv_def rb'_def)
  moreover have "ring buf n w n = take n ptr"
    using buf(2) ptr N(1) by (auto simp: ring_def list_eq_iff_nth_eq)
  then have "rb_contents rb' = (if rb_read_mirror rb = rb_write_mirror rb then [] else take n ptr)"
    using N by (auto simp: rb_contents_def rb_count_def rb'_def)
  ultimately show ?thesis using N by (simp add: rb'_def)
qed

lemma put_block_short:
  assumes inv: "rb_inv rb" and ptr: "length ptr < nat (rb_size rb)"
  shows "put_block ptr (rb_size rb) rb = None"
proof -
  note D = rb_invD [OF inv]
  define n where "n = rb_size rb - rb_write_index rb"
  have n: "\<not> rb_size rb < n" "0 < n" using D by (auto simp: n_def)
  have "slice n (rb_size rb - n) ptr = None" using ptr n D by (simp add: slice_def)
  then show ?thesis using n unfolding put_block_def by (simp add: Let_def flip: n_def split: bind_splits)
qed

lemma rt_ringbuffer_put_force_short:
  assumes inv: "rb_inv rb" and len: "rb_size rb < int (rb_count rb) + len" and ptr: "length ptr < nat (rb_size rb)"
  shows "rt_ringbuffer_put_force ptr len rb = None"
proof -
  note sp = rb_space_mod [OF inv]
  have "rb_size rb mod 2 ^ 16 = rb_size rb" "rb_size rb - int (rb_count rb) < len"
    using rb_invD [OF inv] len by simp_all
  then show ?thesis using put_block_short [OF inv ptr]
    unfolding rt_ringbuffer_put_force_def Let_def sp by simp
qed

section \<open>The ring buffer is a bounded queue\<close>

text \<open>The calls as a client sees them: refused (0 returned) or done.\<close>

definition rb_put :: "u8 \<Rightarrow> rt_ringbuffer \<Rightarrow> rt_ringbuffer option" where
  "rb_put ch rb = (case rt_ringbuffer_putchar ch rb of Some (n, rb') \<Rightarrow> if n = 1 then Some rb' else None | None \<Rightarrow> None)"

definition rb_get :: "rt_ringbuffer \<Rightarrow> (u8 \<times> rt_ringbuffer) option" where
  "rb_get rb = (case rt_ringbuffer_getchar rb of Some (Some ch, rb') \<Rightarrow> Some (ch, rb') | _ \<Rightarrow> None)"

interpretation ring_fifo: bounded_fifo rb_inv rb_contents "\<lambda>rb. nat (rb_size rb)" "\<lambda>_ _. True" rb_put rb_get
proof (unfold_locales, goal_cases)
  case (1 rb)
  then show ?case using rb_count_le [of rb] by simp
next
  case (2 rb ch)
  then have "rb_size rb = int (rb_count rb)" using rb_invD(1) [of rb] by simp
  then show ?case using 2 by (simp add: rb_put_def rt_ringbuffer_putchar_full)
next
  case (3 rb ch)
  then have "int (rb_count rb) < rb_size rb" by simp
  from rt_ringbuffer_putchar_contents [OF 3(1) this, of ch] show ?case by (auto simp: rb_put_def)
next
  case (4 rb)
  then show ?case by (simp add: rb_get_def rt_ringbuffer_getchar_contents)
next
  case (5 rb y ys)
  from rt_ringbuffer_getchar_contents(2) [OF this] show ?case by (auto simp: rb_get_def)
qed

lemma rt_ringbuffer_init_inv:
  assumes "4 \<le> sz" "sz < 2 ^ 15" "nat sz \<le> length pool"
  obtains rb where "rt_ringbuffer_init pool sz = Some rb" "rb_inv rb" "rb_contents rb = []" "rb_size rb = sz - sz mod 4"
proof -
  have "0 < sz - sz mod 4" using assms pos_mod_bound [of 4 sz] by linarith
  moreover have "sz - sz mod 4 \<le> sz" using assms by simp
  then have "sz - sz mod 4 < 2 ^ 15" "nat (sz - sz mod 4) \<le> length pool" using assms by linarith+
  ultimately show ?thesis using assms that
    by (auto simp: rt_ringbuffer_init_def RT_ASSERT_def rb_inv_def rb_contents_def rb_count_def)
qed

text \<open>
  C21.  The ring buffer is a bounded queue of bytes: on a buffer set up by \<open>rt_ringbuffer_init\<close> over
  \<open>4 \<le> sz < 2^15\<close> bytes, whatever sequence of \<open>rt_ringbuffer_putchar\<close> and \<open>rt_ringbuffer_getchar\<close> calls is
  made, the bytes got followed by the bytes still inside are the bytes put, in order, at most
  \<open>RT_ALIGN_DOWN(sz, 4)\<close> of them are inside, and that many bytes put into the fresh buffer are all accepted and come
  out in their order.
\<close>

theorem rt_ringbuffer_fifo:
  assumes "4 \<le> sz" "sz < 2 ^ 15" "nat sz \<le> length pool" "rt_ringbuffer_init pool sz = Some rb"
  shows "(\<forall>os sent got rb'. fifo_run rb_put rb_get os rb = (sent, got, rb') \<longrightarrow>
      sent = got @ rb_contents rb' \<and> int (length (rb_contents rb')) \<le> sz - sz mod 4) \<and>
    (\<forall>xs. int (length xs) \<le> sz - sz mod 4 \<longrightarrow>
      (\<exists>rb'. fifo_run rb_put rb_get (map Put xs @ replicate (length xs) Get) rb = (xs, xs, rb') \<and> rb_contents rb' = []))"
proof (intro conjI allI impI)
  have rb: "rb_inv rb" "rb_contents rb = []" "rb_size rb = sz - sz mod 4"
    using rt_ringbuffer_init_inv [OF assms(1-3)] assms(4) by auto
  show "sent = got @ rb_contents rb'" "int (length (rb_contents rb')) \<le> sz - sz mod 4"
    if run: "fifo_run rb_put rb_get os rb = (sent, got, rb')" for os sent got rb'
    using ring_fifo.conservation [OF rb(1) run] rb rb_invD(1) [OF rb(1)] by auto
  show "\<exists>rb'. fifo_run rb_put rb_get (map Put xs @ replicate (length xs) Get) rb = (xs, xs, rb') \<and> rb_contents rb' = []"
    if "int (length xs) \<le> sz - sz mod 4" for xs
    using ring_fifo.fill_and_drain [OF rb(1,2), of xs] that rb(3) by auto
qed

theorem rt_ringbuffer_fifo_witness:
  "\<exists>rb rb'. rt_ringbuffer_init (replicate 8 0) 6 = Some rb \<and>
     fifo_run rb_put rb_get (map Put [1, 2, 3] @ replicate (length [1, 2, 3 :: u8]) Get) rb = ([1, 2, 3], [1, 2, 3], rb') \<and>
     int (length (rb_contents rb')) \<le> 4"
proof -
  have p: "(4 :: int) \<le> 6" "(6 :: int) < 2 ^ 15" "nat 6 \<le> length (replicate 8 (0 :: u8))" by simp_all
  obtain rb where rb: "rt_ringbuffer_init (replicate 8 0) 6 = Some rb"
    by (simp add: rt_ringbuffer_init_def RT_ASSERT_def)
  have "int (length [1, 2, 3 :: u8]) \<le> 6 - 6 mod 4" by simp
  with rt_ringbuffer_fifo [OF p rb] obtain rb' where
    run: "fifo_run rb_put rb_get (map Put [1, 2, 3] @ replicate (length [1, 2, 3 :: u8]) Get) rb = ([1, 2, 3], [1, 2, 3], rb')"
    by blast
  with rt_ringbuffer_fifo [OF p rb] have "int (length (rb_contents rb')) \<le> 6 - 6 mod 4" by blast
  then have "int (length (rb_contents rb')) \<le> 4" by simp
  then show ?thesis using rb run by blast
qed

text \<open>
   The block operations on a ring buffer in order: \<open>rt_ringbuffer_put\<close> appends as many bytes of the block as
  fit and returns their number; \<open>rt_ringbuffer_get\<close> hands out as many of the oldest bytes as asked for and
  present; \<open>rt_ringbuffer_putchar_force\<close> always stores its byte and drops the oldest one of a full buffer.  Each keeps the invariant.
\<close>

theorem rt_ringbuffer_blocks:
  assumes "rb_inv rb"
  shows "(\<forall>ptr len. 0 \<le> len \<and> nat len \<le> length ptr \<longrightarrow>
      (\<exists>rb'. rt_ringbuffer_put ptr len rb = Some (int (min (nat len) (nat (rb_size rb) - length (rb_contents rb))), rb') \<and>
        rb_inv rb' \<and> rb_contents rb' = rb_contents rb @ take (min (nat len) (nat (rb_size rb) - length (rb_contents rb))) ptr)) \<and>
    (\<forall>len. 0 \<le> len \<longrightarrow>
      (\<exists>rb'. rt_ringbuffer_get len rb = Some (take (nat len) (rb_contents rb), rb') \<and>
        rb_inv rb' \<and> rb_contents rb' = drop (nat len) (rb_contents rb))) \<and>
    (\<forall>ch. \<exists>rb'. rt_ringbuffer_putchar_force ch rb = Some (1, rb') \<and> rb_inv rb' \<and>
        rb_contents rb' = (if length (rb_contents rb) = nat (rb_size rb) then tl (rb_contents rb) else rb_contents rb) @ [ch])"
proof (intro conjI allI impI)
  show "\<exists>rb'. rt_ringbuffer_put ptr len rb = Some (int (min (nat len) (nat (rb_size rb) - length (rb_contents rb))), rb') \<and>
        rb_inv rb' \<and> rb_contents rb' = rb_contents rb @ take (min (nat len) (nat (rb_size rb) - length (rb_contents rb))) ptr"
    if "0 \<le> len \<and> nat len \<le> length ptr" for ptr len
    using rt_ringbuffer_put_contents [OF assms, of len ptr] that by auto
  show "\<exists>rb'. rt_ringbuffer_get len rb = Some (take (nat len) (rb_contents rb), rb') \<and>
        rb_inv rb' \<and> rb_contents rb' = drop (nat len) (rb_contents rb)" if "0 \<le> len" for len
  proof -
    have "take (min (nat len) (rb_count rb)) (rb_contents rb) = take (nat len) (rb_contents rb)"
      "drop (min (nat len) (rb_count rb)) (rb_contents rb) = drop (nat len) (rb_contents rb)"
      by (simp_all add: min_def)
    then show ?thesis using rt_ringbuffer_get_contents [OF assms that] by auto
  qed
  show "\<exists>rb'. rt_ringbuffer_putchar_force ch rb = Some (1, rb') \<and> rb_inv rb' \<and>
        rb_contents rb' = (if length (rb_contents rb) = nat (rb_size rb) then tl (rb_contents rb) else rb_contents rb) @ [ch]" for ch
    using rt_ringbuffer_putchar_force_contents [OF assms, of ch] rb_invD(1) [OF assms] by auto
qed

definition rb_example :: rt_ringbuffer where
  "rb_example = \<lparr>rb_buffer = [10, 11, 12, 13], rb_read_mirror = False, rb_read_index = 1, rb_write_mirror = False,
     rb_write_index = 3, rb_size = 4\<rparr>"

lemma rb_example_inv: "rb_inv rb_example" "rb_contents rb_example = [11, 12]"
  by (simp_all add: rb_inv_def rb_example_def rb_contents_def rb_count_def ring_def upt_rec)

theorem rt_ringbuffer_blocks_witness:
  "\<exists>rb1 rb2 rb3. rt_ringbuffer_put [1, 2, 3] 3 rb_example = Some (2, rb1) \<and> rb_contents rb1 = [11, 12, 1, 2] \<and>
     rt_ringbuffer_get 1 rb_example = Some ([11], rb2) \<and> rb_contents rb2 = [12] \<and>
     rt_ringbuffer_putchar_force 9 rb1 = Some (1, rb3) \<and> rb_contents rb3 = [12, 1, 2, 9]"
proof -
  have sz: "rb_size rb_example = 4" by (simp add: rb_example_def)
  have c: "rb_count rb_example = 2" using rb_example_inv(2) length_rb_contents [of rb_example] by simp
  note blocks = rt_ringbuffer_blocks [THEN conjunct1, THEN spec, THEN spec, THEN mp]
    rt_ringbuffer_blocks [THEN conjunct2, THEN conjunct1, THEN spec, THEN mp]
    rt_ringbuffer_blocks [THEN conjunct2, THEN conjunct2, THEN spec]
  obtain rb1 where rb1: "rt_ringbuffer_put [1, 2, 3] 3 rb_example = Some (2, rb1)" "rb_inv rb1" "rb_contents rb1 = [11, 12, 1, 2]"
    using blocks(1) [OF rb_example_inv(1), of 3 "[1, 2, 3]"] c sz by (auto simp: rb_example_inv(2))
  have "rb_size rb1 = 4"
    using rt_ringbuffer_put_contents [OF rb_example_inv(1), of 3 "[1, 2, 3]"] rb1 sz by auto
  moreover have "rb_count rb1 = 4" using rb1(3) length_rb_contents [of rb1] by simp
  ultimately show ?thesis
    using rb1 blocks(2) [OF rb_example_inv(1), of 1] blocks(3) [OF rb1(2), of 9]
    by (auto simp: rb_example_inv(2))
qed

text \<open>
   \<open>rt_ringbuffer_put_force\<close>: a block that fits is appended.  A block that does not fit is treated as one of
  \<open>buffer_size\<close> bytes: when the caller's area is shorter the copy reads beyond it (undefined); when it is long
  enough the call reports \<open>buffer_size\<close> bytes stored, but both mirrors flip, and when they agreed before (the
  stored bytes do not go round) the buffer is \<^emph>\<open>empty\<close> afterwards, old and new bytes lost; only when they
  differed does it hold the bytes reported.
\<close>

theorem rt_ringbuffer_put_force_behaviour:
  assumes inv: "rb_inv rb" and len: "0 \<le> len"
  shows "(int (length (rb_contents rb)) + len \<le> rb_size rb \<and> nat len \<le> length ptr \<longrightarrow>
      (\<exists>rb'. rt_ringbuffer_put_force ptr len rb = Some (len, rb') \<and> rb_contents rb' = rb_contents rb @ take (nat len) ptr)) \<and>
    (rb_size rb < int (length (rb_contents rb)) + len \<and> length ptr < nat (rb_size rb) \<longrightarrow>
      rt_ringbuffer_put_force ptr len rb = None) \<and>
    (rb_size rb < int (length (rb_contents rb)) + len \<and> nat (rb_size rb) \<le> length ptr \<and> rb_contents rb \<noteq> [] \<longrightarrow>
      (\<exists>rb'. rt_ringbuffer_put_force ptr len rb = Some (rb_size rb, rb') \<and>
        rb_contents rb' = (if rb_read_mirror rb = rb_write_mirror rb then [] else take (nat (rb_size rb)) ptr)))"
proof (intro conjI impI; elim conjE)
  show "\<exists>rb'. rt_ringbuffer_put_force ptr len rb = Some (len, rb') \<and> rb_contents rb' = rb_contents rb @ take (nat len) ptr"
    if "int (length (rb_contents rb)) + len \<le> rb_size rb" "nat len \<le> length ptr"
    using rt_ringbuffer_put_force_fits [OF inv len that(2)] that(1) by auto
  show "\<exists>rb'. rt_ringbuffer_put_force ptr len rb = Some (rb_size rb, rb') \<and>
        rb_contents rb' = (if rb_read_mirror rb = rb_write_mirror rb then [] else take (nat (rb_size rb)) ptr)"
    if "rb_size rb < int (length (rb_contents rb)) + len" "nat (rb_size rb) \<le> length ptr" "rb_contents rb \<noteq> []"
  proof -
    have "0 < rb_count rb" using that(3) by (metis length_greater_0_conv length_rb_contents)
    then show ?thesis using rt_ringbuffer_put_force_over [OF inv _ _ that(2), of len] that(1) by auto
  qed
  show "rt_ringbuffer_put_force ptr len rb = None"
    if "rb_size rb < int (length (rb_contents rb)) + len" "length ptr < nat (rb_size rb)"
    using rt_ringbuffer_put_force_short [OF inv] that by simp
qed

theorem rt_ringbuffer_put_force_behaviour_witness:
  "rt_ringbuffer_put_force [1, 2, 3] 3 rb_example = None \<and>
   (\<exists>rb'. rt_ringbuffer_put_force [1, 2, 3, 4] 3 rb_example = Some (4, rb') \<and> rb_contents rb' = []) \<and>
   (\<exists>rb'. rt_ringbuffer_put_force [1, 2, 3, 4] 2 rb_example = Some (2, rb') \<and> rb_contents rb' = [11, 12, 1, 2])"
proof -
  have sz: "rb_size rb_example = 4" "rb_read_mirror rb_example = rb_write_mirror rb_example" by (simp_all add: rb_example_def)
  have c: "rb_count rb_example = 2" using rb_example_inv(2) length_rb_contents [of rb_example] by simp
  show ?thesis
    using rt_ringbuffer_put_force_behaviour [OF rb_example_inv(1), of 3 "[1, 2, 3]"]
      rt_ringbuffer_put_force_behaviour [OF rb_example_inv(1), of 3 "[1, 2, 3, 4]"]
      rt_ringbuffer_put_force_behaviour [OF rb_example_inv(1), of 2 "[1, 2, 3, 4]"] sz c
    by (auto simp: rb_example_inv(2))
qed

end
