(* ===== verification/Driver_State.thy ===== *)
theory Driver_State
  imports Create
begin

text \<open>
  The data of the device framework (\<open>struct rt_device\<close> of \<open>src/include/rtdef.h\<close>; completions, data queues and work queues of
  \<open>src/components/drivers/include/rtdevice.h\<close>) beside the kernel state, and what the code of the framework does to give up
  the processor.

  The framework switches interrupts off and on itself; \<open>primask\<close> is the processor's mask, so that a path which leaves them
  off is seen.  The functions of drivers and applications the framework calls are arguments of the operations, by the address that
  the structures hold; \<open>hw\<close> is the state these functions keep, \<open>mem\<close> the bytes of the buffers the framework hands over.
\<close>

section \<open>Structures\<close>

abbreviation (input) RT_EEMPTY :: rt_err_t where "RT_EEMPTY \<equiv> 4"
abbreviation (input) RT_ENOMEM :: rt_err_t where "RT_ENOMEM \<equiv> 5"
abbreviation (input) RT_ENOSYS :: rt_err_t where "RT_ENOSYS \<equiv> 6"
abbreviation (input) RT_EBUSY :: rt_err_t where "RT_EBUSY \<equiv> 7"

record rt_device =
  dev_type :: u32
  dev_flag :: u16
  dev_open_flag :: u16
  dev_ref_count :: u8
  dev_device_id :: u8
  dev_rx_indicate :: ptr
  dev_tx_complete :: ptr
  dev_init :: ptr
  dev_open :: ptr
  dev_close :: ptr
  dev_read :: ptr
  dev_write :: ptr
  dev_control :: ptr
  dev_user_data :: ptr

text \<open>The suspended list of a completion or of the consumers of a data queue at address \<open>p\<close> is \<open>Susp p\<close>, the list of the producers
  \<open>SuspSender p\<close>.  \<open>dq_items\<close> is the array of pairs of a pointer and a size at the address \<open>dq_queue\<close>.\<close>

record rt_data_queue =
  dq_size :: u16
  dq_lwm :: u16
  dq_waiting_lwm :: bool
  dq_get_index :: u16
  dq_put_index :: u16
  dq_queue :: ptr
  dq_items :: "(ptr \<times> rt_size_t) list"
  dq_evt_notify :: ptr

record rt_work =
  work_func :: ptr
  work_data :: ptr

record 'd drv =
  kern :: kstate
  primask :: bool
  completions :: "ptr \<Rightarrow> u32"
  data_queues :: "ptr \<Rightarrow> rt_data_queue"
  works :: "ptr \<Rightarrow> rt_work"
  work_lists :: "(ptr, ptr) queues"
  work_threads :: "ptr \<Rightarrow> ptr"
  devices :: "ptr \<Rightarrow> rt_device"
  console_device :: ptr
  mem :: bytes
  hw :: 'd

section \<open>Interrupts and scheduling\<close>

definition rt_hw_interrupt_disable :: "'d drv \<Rightarrow> bool \<times> 'd drv" where
  "rt_hw_interrupt_disable d = (primask d, d\<lparr>primask := True\<rparr>)"

definition rt_hw_interrupt_enable :: "bool \<Rightarrow> 'd drv \<Rightarrow> 'd drv" where
  "rt_hw_interrupt_enable level d = d\<lparr>primask := level\<rparr>"

text \<open>\<open>rt_schedule\<close> by a thread that goes on when it is chosen again, as \<open>schedule_switch\<close> of the kernel.\<close>

type_synonym 'd dworld = "'d drv \<Rightarrow> 'd drv"

definition schedule_drv :: "'d dworld \<Rightarrow> 'd drv \<Rightarrow> 'd drv option" where
  "schedule_drv w d = do {
     s' \<leftarrow> rt_schedule (kern d);
     Some (if rt_current_thread s' \<noteq> rt_current_thread (kern d) \<and> rt_interrupt_nest (kern d) = 0
           then w (d\<lparr>kern := s'\<rparr>) else d\<lparr>kern := s'\<rparr>)
   }"

text \<open>The two halves of waiting: onto the list, and the timer of the thread for a positive timeout.\<close>

definition suspend_on :: "tq \<Rightarrow> ptr \<Rightarrow> kstate \<Rightarrow> kstate option" where
  "suspend_on list thread s = do {
     (_, s) \<leftarrow> rt_thread_suspend thread s;
     Some (s\<lparr>tqs := q_insert_before list thread (tqs s)\<rparr>)
   }"

definition start_timeout :: "ptr \<Rightarrow> rt_int32_t \<Rightarrow> kstate \<Rightarrow> kstate option" where
  "start_timeout thread timeout s =
     (if 0 < sint timeout
      then do {
        (_, _, s) \<leftarrow> rt_timer_control (TmrOf thread) 0 timeout s;
        (_, s) \<leftarrow> rt_timer_start (TmrOf thread) s;
        Some s
      }
      else Some s)"

section \<open>Lemmas\<close>

lemmas interrupt_defs = rt_hw_interrupt_disable_def rt_hw_interrupt_enable_def

lemma drv_update_same [simp]: "d\<lparr>kern := kern d\<rparr> = d" "d\<lparr>primask := primask d\<rparr> = d"
  by simp_all

text \<open>Waiting is what the IPC objects of the kernel do with \<open>RT_IPC_FLAG_FIFO\<close>, so the states are those of theory Ipc.\<close>

lemma suspend_on_eq:
  assumes "good s t" "th_stat (threads s t) = RT_THREAD_READY"
  shows "suspend_on l t s = Some (parked l RT_IPC_FLAG_FIFO t s)"
  using rt_ipc_list_suspend_eq [OF assms, of RT_IPC_FLAG_FIFO l]
  by (auto simp: suspend_on_def rt_ipc_list_suspend_def split: option.splits bind_splits)

lemma start_timeout_eq:
  "time_ok time \<Longrightarrow> start_timeout t time (parked l flag t s) = Some (waiting l flag time t s)"
  by (auto simp: start_timeout_def rt_timer_control_def rt_timer_start_eq waiting_def time_ok_def)

text \<open>The caller resets its error, goes onto the list and starts its timer.\<close>

lemma wait_on_eq:
  assumes "runnable s" "time_ok time"
  shows "suspend_on l (rt_current_thread s) (set_thread (rt_current_thread s) (\<lambda>t. t\<lparr>th_error := RT_EOK\<rparr>) s) =
      Some (parked l RT_IPC_FLAG_FIFO (rt_current_thread s) (set_thread (rt_current_thread s) (\<lambda>t. t\<lparr>th_error := RT_EOK\<rparr>) s))"
    "start_timeout (rt_current_thread s) time
       (parked l RT_IPC_FLAG_FIFO (rt_current_thread s) (set_thread (rt_current_thread s) (\<lambda>t. t\<lparr>th_error := RT_EOK\<rparr>) s)) =
      Some (blocked_on l RT_IPC_FLAG_FIFO time s)"
  using assms by (auto intro!: suspend_on_eq simp: runnable_def blocked_on_def start_timeout_eq)

text \<open>The switch: the caller is switched out and goes on in the state the world makes of that.\<close>

lemma drv_switch:
  fixes d :: "'d drv"
  assumes "thread_inv (kern d)" "timer_inv (kern d)" "runnable (kern d)" "wait_list l" "time_ok time" "can_switch (kern d)"
  obtains s0 where "thread_inv s0" "rt_current_thread s0 \<noteq> rt_current_thread (kern d)"
    "tqs s0 l = tqs (kern d) l @ [rt_current_thread (kern d)]"
    "\<forall>q. wait_list q \<and> q \<noteq> l \<longrightarrow> tqs s0 q = tqs (kern d) q"
    "th_error (threads s0 (rt_current_thread (kern d))) = RT_EOK"
    "\<forall>w (e :: 'd drv). kern e = blocked_on l RT_IPC_FLAG_FIFO time (kern d) \<longrightarrow> schedule_drv w e = Some (w (e\<lparr>kern := s0\<rparr>))"
proof -
  let ?b = "blocked_on l RT_IPC_FLAG_FIFO time (kern d)"
  obtain s0 where s0: "rt_schedule ?b = Some s0" "thread_inv s0" "rt_current_thread s0 \<noteq> rt_current_thread (kern d)"
    "tqs s0 = tqs ?b" "threads s0 = threads ?b"
    using blocked_switch [OF assms(1-6), of RT_IPC_FLAG_FIFO] by metis
  have n: "rt_interrupt_nest (kern d) = 0" using assms(3) by (simp add: runnable_def in_thread_context_def)
  show ?thesis
  proof (rule that [OF s0(2,3)])
    show "tqs s0 l = tqs (kern d) l @ [rt_current_thread (kern d)]"
      using tqs_ipc_blocked(1) [OF assms(1,3,4), of RT_IPC_FLAG_FIFO time] by (simp add: s0(4) enqueue_def)
    show "\<forall>q. wait_list q \<and> q \<noteq> l \<longrightarrow> tqs s0 q = tqs (kern d) q"
      using tqs_ipc_blocked(2) [OF assms(1,3,4)] by (simp add: s0(4))
    show "th_error (threads s0 (rt_current_thread (kern d))) = RT_EOK" by (simp add: s0(5) ipc_blocked_thread)
    show "\<forall>w (e :: 'd drv). kern e = ?b \<longrightarrow> schedule_drv w e = Some (w (e\<lparr>kern := s0\<rparr>))"
      using s0(1,3) n by (simp add: schedule_drv_def)
  qed
qed

text \<open>Waking the first thread of a list and scheduling.\<close>

lemma drv_wake:
  assumes "thread_inv s" "wait_list l" "tqs s l = t # ts"
  obtains s' where "rt_thread_resume t s = Some (RT_EOK, resumed t s)" "rt_schedule (resumed t s) = Some s'" "thread_inv s'"
    "tqs s' l = ts" "th_stat (threads s' t) = RT_THREAD_READY" "th_error (threads s' t) = th_error (threads s t)"
    "\<forall>q. wait_list q \<and> q \<noteq> l \<longrightarrow> tqs s' q = tqs s q"
proof -
  note r = rt_ipc_list_resume_eq [OF assms]
  obtain s' where s': "rt_schedule (resumed t s) = Some s'" "thread_inv s'" using rt_schedule_total [OF r(4,5)] by blast
  have "t \<notin> set (tqs s q)" if "q \<noteq> l" for q
    using that wf_queuesD(2) [OF ready_invD(1) [OF thread_invD(1) [OF assms(1)]], of t l q] assms(3) by auto
  then have "\<forall>q. wait_list q \<and> q \<noteq> l \<longrightarrow> tqs s' q = tqs s q"
    using rt_schedule_fields [OF s'(1)] wait_listD(2) by (auto simp: tqs_resumed)
  with that [OF rt_thread_resume_eq [OF r(2,3)] s'] show ?thesis
    using r(6) rt_schedule_fields [OF s'(1)] by simp
qed

text \<open>The zeroed data of the framework, for concrete states.\<close>

definition zero_drv :: "kstate \<Rightarrow> unit drv" where
  "zero_drv s = \<lparr>kern = s, primask = False, completions = (\<lambda>_. 0),
     data_queues = (\<lambda>_. \<lparr>dq_size = 0, dq_lwm = 0, dq_waiting_lwm = False, dq_get_index = 0, dq_put_index = 0, dq_queue = 0,
       dq_items = [], dq_evt_notify = 0\<rparr>),
     works = (\<lambda>_. \<lparr>work_func = 0, work_data = 0\<rparr>), work_lists = (\<lambda>_. []), work_threads = (\<lambda>_. 0),
     devices = (\<lambda>_. \<lparr>dev_type = 0, dev_flag = 0, dev_open_flag = 0, dev_ref_count = 0, dev_device_id = 0,
       dev_rx_indicate = 0, dev_tx_complete = 0, dev_init = 0, dev_open = 0, dev_close = 0, dev_read = 0, dev_write = 0,
       dev_control = 0, dev_user_data = 0\<rparr>),
     console_device = 0, mem = (\<lambda>_. 0), hw = ()\<rparr>"

lemma zero_drv_sel [simp]:
  "kern (zero_drv s) = s" "primask (zero_drv s) = False" "completions (zero_drv s) p = 0" "console_device (zero_drv s) = 0"
  by (simp_all add: zero_drv_def)

end
