(* ===== verification/Completion.thy ===== *)
theory Completion
  imports Driver_State
begin

text \<open>
  \<open>src/components/drivers/src/completion.c\<close>: a flag one thread can wait for and another thread or an interrupt sets.
\<close>

section \<open>The code\<close>

abbreviation (input) RT_COMPLETED :: u32 where "RT_COMPLETED \<equiv> 1"
abbreviation (input) RT_UNCOMPLETED :: u32 where "RT_UNCOMPLETED \<equiv> 0"

definition set_flag_of :: "ptr \<Rightarrow> u32 \<Rightarrow> 'd drv \<Rightarrow> 'd drv" where
  "set_flag_of completion flag d = d\<lparr>completions := (completions d)(completion := flag)\<rparr>"

definition rt_completion_init :: "ptr \<Rightarrow> 'd drv \<Rightarrow> 'd drv option" where
  "rt_completion_init completion d = do {
     RT_ASSERT (completion \<noteq> RT_NULL);
     let (level, d) = rt_hw_interrupt_disable d;
     let d = set_flag_of completion RT_UNCOMPLETED d;
     let d = d\<lparr>kern := (kern d)\<lparr>tqs := (tqs (kern d))(Susp completion := [])\<rparr>\<rparr>;
     Some (rt_hw_interrupt_enable level d)
   }"

definition rt_completion_wait :: "'d dworld \<Rightarrow> ptr \<Rightarrow> rt_int32_t \<Rightarrow> 'd drv \<Rightarrow> (rt_err_t \<times> 'd drv) option" where
  "rt_completion_wait w completion timeout d = do {
     RT_ASSERT (completion \<noteq> RT_NULL);
     let thread = rt_thread_self (kern d);
     let (level, d) = rt_hw_interrupt_disable d;
     if completions d completion \<noteq> RT_COMPLETED
     then do {
       RT_ASSERT (tqs (kern d) (Susp completion) = []);
       if timeout = 0 then Some (- RT_ETIMEOUT, rt_hw_interrupt_enable level d)
       else do {
         let s = set_thread thread (\<lambda>t. t\<lparr>th_error := RT_EOK\<rparr>) (kern d);
         s \<leftarrow> suspend_on (Susp completion) thread s;
         RT_DEBUG_NOT_IN_INTERRUPT s;
         s \<leftarrow> start_timeout thread timeout s;
         let d = rt_hw_interrupt_enable level (d\<lparr>kern := s\<rparr>);
         d \<leftarrow> schedule_drv w d;
         let result = th_error (threads (kern d) thread);
         let (level, d) = rt_hw_interrupt_disable d;
         Some (result, rt_hw_interrupt_enable level (set_flag_of completion RT_UNCOMPLETED d))
       }
     }
     else Some (RT_EOK, rt_hw_interrupt_enable level (set_flag_of completion RT_UNCOMPLETED d))
   }"

definition rt_completion_done :: "ptr \<Rightarrow> 'd drv \<Rightarrow> 'd drv option" where
  "rt_completion_done completion d = do {
     RT_ASSERT (completion \<noteq> RT_NULL);
     if completions d completion = RT_COMPLETED then Some d
     else do {
       let (level, d) = rt_hw_interrupt_disable d;
       let d = set_flag_of completion RT_COMPLETED d;
       (case tqs (kern d) (Susp completion) of
          thread # _ \<Rightarrow> do {
            (_, s) \<leftarrow> rt_thread_resume thread (kern d);
            let d = rt_hw_interrupt_enable level (d\<lparr>kern := s\<rparr>);
            s \<leftarrow> rt_schedule (kern d);
            Some (d\<lparr>kern := s\<rparr>)
          }
        | [] \<Rightarrow> Some (rt_hw_interrupt_enable level d))
     }
   }"

section \<open>Lemmas\<close>

lemma set_flag_of_fields [simp]:
  "kern (set_flag_of c f d) = kern d" "primask (set_flag_of c f d) = primask d"
  "completions (set_flag_of c f d) = (completions d)(c := f)"
  by (simp_all add: set_flag_of_def)

lemma set_flag_of_mask [simp]: "(set_flag_of c f (d\<lparr>primask := b\<rparr>))\<lparr>primask := b'\<rparr> = set_flag_of c f (d\<lparr>primask := b'\<rparr>)"
  by (simp add: set_flag_of_def)

lemma done_first:
  assumes "completion \<noteq> RT_NULL" "completions d completion \<noteq> RT_COMPLETED" "tqs (kern d) (Susp completion) = []"
  shows "rt_completion_done completion d = Some (set_flag_of completion RT_COMPLETED d)"
  using assms by (auto simp: rt_completion_done_def interrupt_defs Let_def set_flag_of_def)

lemma wait_completed:
  assumes "completion \<noteq> RT_NULL" "completions d completion = RT_COMPLETED"
  shows "rt_completion_wait w completion timeout d = Some (RT_EOK, set_flag_of completion RT_UNCOMPLETED d)"
  using assms by (simp add: rt_completion_wait_def interrupt_defs Let_def)

lemma wait_no_time:
  assumes "completion \<noteq> RT_NULL" "completions d completion \<noteq> RT_COMPLETED" "tqs (kern d) (Susp completion) = []"
  shows "rt_completion_wait w completion 0 d = Some (- RT_ETIMEOUT, d)"
  using assms by (simp add: rt_completion_wait_def interrupt_defs Let_def)

lemma wait_blocks:
  assumes "completion \<noteq> RT_NULL" "completions d completion \<noteq> RT_COMPLETED" "tqs (kern d) (Susp completion) = []"
    "timeout \<noteq> 0" "runnable (kern d)" "time_ok timeout"
  shows "rt_completion_wait w completion timeout d =
    Option.bind (schedule_drv w (d\<lparr>kern := blocked_on (Susp completion) RT_IPC_FLAG_FIFO timeout (kern d)\<rparr>))
      (\<lambda>d'. Some (th_error (threads (kern d') (rt_current_thread (kern d))), set_flag_of completion RT_UNCOMPLETED d'))"
proof -
  have "RT_DEBUG_NOT_IN_INTERRUPT (parked l f t (set_thread u g (kern d))) = Some ()" for l f t u g
    using assms(5) by (simp add: RT_DEBUG_NOT_IN_INTERRUPT_def runnable_def in_thread_context_def)
  then show ?thesis
    using assms(1-4) wait_on_eq [OF assms(5,6)]
    by (simp add: rt_completion_wait_def interrupt_defs Let_def rt_thread_self_def)
qed

section \<open>Properties\<close>

text \<open>
  C23. A completion hands over exactly one event.  A thread that waits for it before it is done becomes the only thread on its list and
  is switched out; \<open>rt_completion_done\<close> in that state makes the thread ready again with error \<open>RT_EOK\<close>.  Its call returns the error it
  has when it runs again and clears the flag, also after a timeout: an event that comes between the timeout and the return is lost.  When the event comes first, the first wait returns \<open>RT_EOK\<close> at once and clears the flag, a second one
  with no timeout returns \<open>-RT_ETIMEOUT\<close>; doing it twice is doing it once.  All calls leave the interrupt mask as they found it.
\<close>

theorem rt_completion_handshake:
  fixes d :: "'d drv"
  assumes "thread_inv (kern d)" "timer_inv (kern d)" "runnable (kern d)" "can_switch (kern d)" "completion \<noteq> RT_NULL"
    and "completions d completion \<noteq> RT_COMPLETED" "tqs (kern d) (Susp completion) = []" "timeout \<noteq> 0" "time_ok timeout"
  shows "(\<exists>d0 d1. kern d0 \<noteq> kern d \<and> tqs (kern d0) (Susp completion) = [rt_current_thread (kern d)] \<and>
      rt_current_thread (kern d0) \<noteq> rt_current_thread (kern d) \<and> primask d0 = primask d \<and>
      rt_completion_done completion d0 = Some d1 \<and> thread_inv (kern d1) \<and> primask d1 = primask d \<and>
      th_stat (threads (kern d1) (rt_current_thread (kern d))) = RT_THREAD_READY \<and>
      tqs (kern d1) (Susp completion) = [] \<and> completions d1 completion = RT_COMPLETED \<and>
      th_error (threads (kern d1) (rt_current_thread (kern d))) = RT_EOK \<and>
      (\<forall>w. rt_completion_wait w completion timeout d =
        Some (th_error (threads (kern (w d0)) (rt_current_thread (kern d))), set_flag_of completion RT_UNCOMPLETED (w d0)))) \<and>
    (\<exists>d1. rt_completion_done completion d = Some d1 \<and> rt_completion_done completion d1 = Some d1 \<and> kern d1 = kern d \<and>
      (\<forall>w. rt_completion_wait w completion timeout d1 = Some (RT_EOK, set_flag_of completion RT_UNCOMPLETED d) \<and>
        rt_completion_wait w completion 0 (set_flag_of completion RT_UNCOMPLETED d) =
          Some (- RT_ETIMEOUT, set_flag_of completion RT_UNCOMPLETED d)))"
proof (rule conjI)
  let ?c = "rt_current_thread (kern d)" and ?l = "Susp completion"
  obtain s0 where s0: "thread_inv s0" "rt_current_thread s0 \<noteq> ?c" "tqs s0 ?l = [?c]" "th_error (threads s0 ?c) = RT_EOK"
    "\<forall>w (e :: 'd drv). kern e = blocked_on ?l RT_IPC_FLAG_FIFO timeout (kern d) \<longrightarrow> schedule_drv w e = Some (w (e\<lparr>kern := s0\<rparr>))"
    by (rule drv_switch [OF assms(1-3) wait_list_simps(1) [of completion] assms(9,4)]) (use assms(7) in auto)
  let ?d0 = "d\<lparr>kern := s0\<rparr>"
  obtain s1 where s1: "rt_thread_resume ?c s0 = Some (RT_EOK, resumed ?c s0)" "rt_schedule (resumed ?c s0) = Some s1" "thread_inv s1"
    "tqs s1 ?l = []" "th_stat (threads s1 ?c) = RT_THREAD_READY" "th_error (threads s1 ?c) = th_error (threads s0 ?c)"
    by (rule drv_wake [OF s0(1) wait_list_simps(1) s0(3)]) blast
  let ?d1 = "set_flag_of completion RT_COMPLETED (d\<lparr>kern := s1\<rparr>)"
  have "rt_completion_done completion ?d0 = Some ?d1"
    using s0(3) s1(1,2) assms(5,6) by (simp add: rt_completion_done_def interrupt_defs Let_def set_flag_of_def)
  moreover have "rt_completion_wait w completion timeout d =
      Some (th_error (threads (kern (w ?d0)) ?c), set_flag_of completion RT_UNCOMPLETED (w ?d0))" for w
    using wait_blocks [OF assms(5-8,3,9), of w] s0(5) by simp
  ultimately show "\<exists>d0 d1. kern d0 \<noteq> kern d \<and> tqs (kern d0) ?l = [?c] \<and> rt_current_thread (kern d0) \<noteq> ?c \<and>
      primask d0 = primask d \<and> rt_completion_done completion d0 = Some d1 \<and> thread_inv (kern d1) \<and> primask d1 = primask d \<and>
      th_stat (threads (kern d1) ?c) = RT_THREAD_READY \<and> tqs (kern d1) ?l = [] \<and> completions d1 completion = RT_COMPLETED \<and>
      th_error (threads (kern d1) ?c) = RT_EOK \<and>
      (\<forall>w. rt_completion_wait w completion timeout d =
        Some (th_error (threads (kern (w d0)) ?c), set_flag_of completion RT_UNCOMPLETED (w d0)))"
    using s0(2-4) s1(3-6) assms(7) by (intro exI [of _ ?d0] exI [of _ ?d1]) auto
  let ?e = "set_flag_of completion RT_COMPLETED d"
  have "rt_completion_done completion ?e = Some ?e" using assms(5) by (simp add: rt_completion_done_def)
  moreover have "rt_completion_wait w completion timeout ?e = Some (RT_EOK, set_flag_of completion RT_UNCOMPLETED d)" for w
    using wait_completed [of completion ?e w timeout] assms(5) by (simp add: set_flag_of_def)
  moreover have "rt_completion_wait w completion 0 (set_flag_of completion RT_UNCOMPLETED d) =
      Some (- RT_ETIMEOUT, set_flag_of completion RT_UNCOMPLETED d)" for w
    by (rule wait_no_time) (use assms(5,7) in simp_all)
  ultimately show "\<exists>d1. rt_completion_done completion d = Some d1 \<and> rt_completion_done completion d1 = Some d1 \<and> kern d1 = kern d \<and>
      (\<forall>w. rt_completion_wait w completion timeout d1 = Some (RT_EOK, set_flag_of completion RT_UNCOMPLETED d) \<and>
        rt_completion_wait w completion 0 (set_flag_of completion RT_UNCOMPLETED d) =
          Some (- RT_ETIMEOUT, set_flag_of completion RT_UNCOMPLETED d))"
    using done_first [OF assms(5-7)] by auto
qed

theorem rt_completion_handshake_witness:
  "\<exists>d0 d1. tqs (kern d0) (Susp 0x900) = [0x100] \<and> rt_completion_done 0x900 d0 = Some d1 \<and>
     rt_completion_wait (\<lambda>_. d1) 0x900 5 (zero_drv two_started) = Some (RT_EOK, set_flag_of 0x900 RT_UNCOMPLETED d1)"
proof -
  let ?d = "zero_drv two_started"
  have "runnable two_started" "can_switch two_started" "timer_inv two_started"
    by (rule runnable_two_started can_switch_two_started timer_inv_two_started)+
  then show ?thesis
    using rt_completion_handshake [of ?d "0x900" 5] thread_inv_two_started
    by (auto simp: zero_drv_def time_ok_def)
qed

end
