(* ===== verification/Data_Queue.thy ===== *)
theory Data_Queue
  imports Driver_State Bounded_Fifo
begin

text \<open>
  \<open>src/components/drivers/src/dataqueue.c\<close>: a ring of pointers to blocks of data, with a list of waiting consumers, a list of
  waiting producers and a low-water mark.  The indices run through all 16-bit numbers; the slot is their low part.
\<close>

section \<open>The code\<close>

abbreviation (input) RT_DATAQUEUE_EVENT_POP :: u32 where "RT_DATAQUEUE_EVENT_POP \<equiv> 1"
abbreviation (input) RT_DATAQUEUE_EVENT_PUSH :: u32 where "RT_DATAQUEUE_EVENT_PUSH \<equiv> 2"
abbreviation (input) RT_DATAQUEUE_EVENT_LWM :: u32 where "RT_DATAQUEUE_EVENT_LWM \<equiv> 3"

definition set_dq :: "ptr \<Rightarrow> (rt_data_queue \<Rightarrow> rt_data_queue) \<Rightarrow> 'd drv \<Rightarrow> 'd drv" where
  "set_dq q f d = d\<lparr>data_queues := (data_queues d)(q := f (data_queues d q))\<rparr>"

text \<open>The notification of the application, and \<open>items\<close>, what the allocated array holds.\<close>

type_synonym 'd notify_fn = "ptr \<Rightarrow> ptr \<Rightarrow> u32 \<Rightarrow> 'd drv \<Rightarrow> 'd drv option"

definition rt_data_queue_init ::
  "world \<Rightarrow> (ptr \<times> rt_size_t) list \<Rightarrow> ptr \<Rightarrow> u16 \<Rightarrow> u16 \<Rightarrow> ptr \<Rightarrow> 'd drv \<Rightarrow> (rt_err_t \<times> 'd drv) option" where
  "rt_data_queue_init w items queue sz lwm evt_notify d = do {
     RT_ASSERT (queue \<noteq> RT_NULL);
     let d = set_dq queue (\<lambda>q. q\<lparr>dq_evt_notify := evt_notify, dq_size := sz, dq_lwm := lwm, dq_waiting_lwm := False,
       dq_get_index := 0, dq_put_index := 0\<rparr>) d;
     let d = d\<lparr>kern := (kern d)\<lparr>tqs := (tqs (kern d))(SuspSender queue := [], Susp queue := [])\<rparr>\<rparr>;
     (p, s) \<leftarrow> rt_malloc w (8 * ucast sz) (kern d);
     let d = set_dq queue (\<lambda>q. q\<lparr>dq_queue := p, dq_items := items\<rparr>) (d\<lparr>kern := s\<rparr>);
     if p = RT_NULL then Some (- RT_ENOMEM, d) else Some (RT_EOK, d)
   }"

text \<open>\<open>put_index - get_index == size\<close> is computed with integers of 32 bits.\<close>

definition dq_full :: "rt_data_queue \<Rightarrow> bool" where
  "dq_full q \<longleftrightarrow> uint (dq_put_index q) - uint (dq_get_index q) = uint (dq_size q)"

definition dq_empty :: "rt_data_queue \<Rightarrow> bool" where
  "dq_empty q \<longleftrightarrow> dq_get_index q = dq_put_index q"

text \<open>The slot an index denotes, with the \<open>mask\<close> computed from the size at the entry of a call, before any waiting;
  \<open>None\<close> is an access outside the array.\<close>

definition dq_slot :: "u16 \<Rightarrow> rt_data_queue \<Rightarrow> u16 \<Rightarrow> nat option" where
  "dq_slot msk q index =
     (let i = unat (index AND msk) in if i < length (dq_items q) then Some i else None)"

text \<open>
  The waiting loops of \<open>push\<close> and \<open>pop\<close>, with one world for every time the thread gives up the processor.  \<open>level\<close> is the
  interrupt state to restore; \<open>Inl\<close> is the way to \<open>__exit\<close> with an error, \<open>Inr\<close> the end of the loop.
\<close>

definition dq_wait_round :: "'d dworld \<Rightarrow> tq \<Rightarrow> ptr \<Rightarrow> rt_int32_t \<Rightarrow> bool \<Rightarrow> 'd drv \<Rightarrow> (rt_err_t \<times> bool \<times> 'd drv) option" where
  "dq_wait_round w list thread timeout level d = do {
     RT_DEBUG_NOT_IN_INTERRUPT (kern d);
     let s = set_thread thread (\<lambda>t. t\<lparr>th_error := RT_EOK\<rparr>) (kern d);
     s \<leftarrow> suspend_on list thread s;
     s \<leftarrow> start_timeout thread timeout s;
     let d = rt_hw_interrupt_enable level (d\<lparr>kern := s\<rparr>);
     d \<leftarrow> schedule_drv w d;
     let result = th_error (threads (kern d) thread);
     let (level, d) = rt_hw_interrupt_disable d;
     Some (result, level, d)
   }"

fun push_wait ::
  "'d dworld list \<Rightarrow> ptr \<Rightarrow> ptr \<Rightarrow> rt_int32_t \<Rightarrow> bool \<Rightarrow> 'd drv \<Rightarrow> ((rt_err_t \<times> bool \<times> 'd drv) + (bool \<times> 'd drv)) option" where
  "push_wait ws queue thread timeout level d =
     (if \<not> dq_full (data_queues d queue) then Some (Inr (level, d))
      else do {
        let d = set_dq queue (\<lambda>q. q\<lparr>dq_waiting_lwm := True\<rparr>) d;
        if timeout = 0 then Some (Inl (- RT_ETIMEOUT, level, d))
        else (case ws of
            [] \<Rightarrow> None
          | w # ws \<Rightarrow> do {
              (result, level, d) \<leftarrow> dq_wait_round w (SuspSender queue) thread timeout level d;
              if result \<noteq> RT_EOK then Some (Inl (result, level, d)) else push_wait ws queue thread timeout level d
            })
      })"

fun pop_wait ::
  "'d dworld list \<Rightarrow> ptr \<Rightarrow> ptr \<Rightarrow> rt_int32_t \<Rightarrow> bool \<Rightarrow> 'd drv \<Rightarrow> ((rt_err_t \<times> bool \<times> 'd drv) + (bool \<times> 'd drv)) option" where
  "pop_wait ws queue thread timeout level d =
     (if \<not> dq_empty (data_queues d queue) then Some (Inr (level, d))
      else if timeout = 0 then Some (Inl (- RT_ETIMEOUT, level, d))
      else (case ws of
          [] \<Rightarrow> None
        | w # ws \<Rightarrow> do {
            (result, level, d) \<leftarrow> dq_wait_round w (Susp queue) thread timeout level d;
            if result \<noteq> RT_EOK then Some (Inl (result, level, d)) else pop_wait ws queue thread timeout level d
          }))"

declare push_wait.simps [simp del] pop_wait.simps [simp del]

definition dq_notify :: "'d notify_fn \<Rightarrow> ptr \<Rightarrow> u32 \<Rightarrow> 'd drv \<Rightarrow> 'd drv option" where
  "dq_notify notify queue event d =
     (let f = dq_evt_notify (data_queues d queue) in if f \<noteq> RT_NULL then notify f queue event d else Some d)"

definition rt_data_queue_push ::
  "'d notify_fn \<Rightarrow> 'd dworld list \<Rightarrow> ptr \<Rightarrow> ptr \<Rightarrow> rt_size_t \<Rightarrow> rt_int32_t \<Rightarrow> 'd drv \<Rightarrow> (rt_err_t \<times> 'd drv) option" where
  "rt_data_queue_push notify ws queue data data_size timeout d = do {
     RT_ASSERT (queue \<noteq> RT_NULL);
     let thread = rt_thread_self (kern d);
     let msk = dq_size (data_queues d queue) - 1;
     let (level, d) = rt_hw_interrupt_disable d;
     r \<leftarrow> push_wait ws queue thread timeout level d;
     (case r of
        Inl (result, level, d) \<Rightarrow> Some (result, rt_hw_interrupt_enable level d)
      | Inr (level, d) \<Rightarrow> do {
          i \<leftarrow> dq_slot msk (data_queues d queue) (dq_put_index (data_queues d queue));
          let d = set_dq queue (\<lambda>q. q\<lparr>dq_items := (dq_items q)[i := (data, data_size)]\<rparr>) d;
          let d = set_dq queue (\<lambda>q. q\<lparr>dq_put_index := dq_put_index q + 1\<rparr>) d;
          (case tqs (kern d) (Susp queue) of
             thread # _ \<Rightarrow> do {
               (_, s) \<leftarrow> rt_thread_resume thread (kern d);
               let d = rt_hw_interrupt_enable level (d\<lparr>kern := s\<rparr>);
               s \<leftarrow> rt_schedule (kern d);
               Some (RT_EOK, d\<lparr>kern := s\<rparr>)
             }
           | [] \<Rightarrow> do {
               d \<leftarrow> dq_notify notify queue RT_DATAQUEUE_EVENT_PUSH (rt_hw_interrupt_enable level d);
               Some (RT_EOK, d)
             })
        })
   }"

text \<open>The result of \<open>rt_data_queue_pop\<close>: the error code and what is written to \<open>*data_ptr\<close> and \<open>*size\<close>
  (asserted not to be \<open>RT_NULL\<close>), if anything.  \<open>w\<close>
  is the world of the scheduling behind a wake-up.\<close>

definition rt_data_queue_pop ::
  "'d notify_fn \<Rightarrow> 'd dworld \<Rightarrow> 'd dworld list \<Rightarrow> ptr \<Rightarrow> rt_int32_t \<Rightarrow> 'd drv \<Rightarrow>
     (rt_err_t \<times> (ptr \<times> rt_size_t) option \<times> 'd drv) option" where
  "rt_data_queue_pop notify w ws queue timeout d = do {
     RT_ASSERT (queue \<noteq> RT_NULL);
     let thread = rt_thread_self (kern d);
     let msk = dq_size (data_queues d queue) - 1;
     let (level, d) = rt_hw_interrupt_disable d;
     r \<leftarrow> pop_wait ws queue thread timeout level d;
     (case r of
        Inl (result, level, d) \<Rightarrow> Some (result, None, rt_hw_interrupt_enable level d)
      | Inr (level, d) \<Rightarrow> do {
          i \<leftarrow> dq_slot msk (data_queues d queue) (dq_get_index (data_queues d queue));
          let item = dq_items (data_queues d queue) ! i;
          let d = set_dq queue (\<lambda>q. q\<lparr>dq_get_index := dq_get_index q + 1\<rparr>) d;
          let q = data_queues d queue;
          if dq_waiting_lwm q \<and> uint (dq_put_index q) - uint (dq_get_index q) \<le> uint (dq_lwm q)
          then do {
            let d = set_dq queue (\<lambda>q. q\<lparr>dq_waiting_lwm := False\<rparr>) d;
            d \<leftarrow> (case tqs (kern d) (SuspSender queue) of
               thread # _ \<Rightarrow> do {
                 (_, s) \<leftarrow> rt_thread_resume thread (kern d);
                 schedule_drv w (rt_hw_interrupt_enable level (d\<lparr>kern := s\<rparr>))
               }
             | [] \<Rightarrow> Some d);
            d \<leftarrow> dq_notify notify queue RT_DATAQUEUE_EVENT_LWM d;
            Some (RT_EOK, Some item, d)
          }
          else do {
            d \<leftarrow> dq_notify notify queue RT_DATAQUEUE_EVENT_POP (rt_hw_interrupt_enable level d);
            Some (RT_EOK, Some item, d)
          }
        })
   }"

definition rt_data_queue_peak :: "ptr \<Rightarrow> 'd drv \<Rightarrow> (rt_err_t \<times> (ptr \<times> rt_size_t) option \<times> 'd drv) option" where
  "rt_data_queue_peak queue d = do {
     RT_ASSERT (queue \<noteq> RT_NULL);
     let msk = dq_size (data_queues d queue) - 1;
     let (level, d) = rt_hw_interrupt_disable d;
     if dq_empty (data_queues d queue) then Some (- RT_EEMPTY, None, rt_hw_interrupt_enable level d)
     else do {
       i \<leftarrow> dq_slot msk (data_queues d queue) (dq_get_index (data_queues d queue));
       Some (RT_EOK, Some (dq_items (data_queues d queue) ! i), rt_hw_interrupt_enable level d)
     }
   }"

text \<open>The two loops wake the threads as \<open>rt_ipc_list_resume_all\<close> does.\<close>

definition rt_data_queue_reset :: "ptr \<Rightarrow> 'd drv \<Rightarrow> 'd drv option" where
  "rt_data_queue_reset queue d = do {
     let s = rt_enter_critical (kern d);
     s \<leftarrow> rt_ipc_list_resume_all (Susp queue) s;
     s \<leftarrow> rt_ipc_list_resume_all (SuspSender queue) s;
     s \<leftarrow> rt_exit_critical s;
     s \<leftarrow> rt_schedule s;
     Some (d\<lparr>kern := s\<rparr>)
   }"

section \<open>The ring as a queue\<close>

definition dq_count :: "rt_data_queue \<Rightarrow> nat" where
  "dq_count q = unat (dq_put_index q - dq_get_index q)"

definition dq_contents :: "rt_data_queue \<Rightarrow> (ptr \<times> rt_size_t) list" where
  "dq_contents q = ring (dq_items q) (unat (dq_size q)) (unat (dq_get_index q) mod unat (dq_size q)) (dq_count q)"

text \<open>The size is a power of two, for which the code relies on its caller.\<close>

definition dq_shape :: "rt_data_queue \<Rightarrow> bool" where
  "dq_shape q \<longleftrightarrow> (\<exists>b. unat (dq_size q) = 2 ^ b) \<and> length (dq_items q) = unat (dq_size q)"

definition dq_inv :: "rt_data_queue \<Rightarrow> bool" where
  "dq_inv q \<longleftrightarrow> dq_shape q \<and> dq_count q \<le> unat (dq_size q)"

definition dq_stored :: "ptr \<times> rt_size_t \<Rightarrow> rt_data_queue \<Rightarrow> rt_data_queue" where
  "dq_stored x q = q\<lparr>dq_items := (dq_items q)[unat (dq_put_index q) mod unat (dq_size q) := x], dq_put_index := dq_put_index q + 1\<rparr>"

definition dq_fetched :: "rt_data_queue \<Rightarrow> rt_data_queue" where
  "dq_fetched q = q\<lparr>dq_get_index := dq_get_index q + 1\<rparr>"

lemma length_dq_contents [simp]: "length (dq_contents q) = dq_count q"
  by (simp add: dq_contents_def)

lemma and_size_minus_1:
  fixes x sz :: u16
  assumes "unat sz = 2 ^ b"
  shows "unat (x AND (sz - 1)) = unat x mod unat sz"
proof -
  have "sz = of_nat (unat sz)" by simp
  then have "sz = 2 ^ b" using assms by (simp only: of_nat_power of_nat_numeral)
  then have "x AND (sz - 1) = take_bit b x" by (simp add: take_bit_eq_mask mask_eq_exp_minus_1)
  then have "unat (x AND (sz - 1)) = take_bit b (unat x)" by (simp only: unsigned_take_bit_eq)
  then show ?thesis using assms by (simp only: take_bit_eq_mod)
qed

lemma dq_shapeD:
  assumes "dq_shape q"
  shows "0 < unat (dq_size q)" "unat (dq_size q) dvd 65536" "length (dq_items q) = unat (dq_size q)"
    "dq_slot (dq_size q - 1) q i = Some (unat i mod unat (dq_size q))"
proof -
  obtain b where b: "unat (dq_size q) = 2 ^ b" using assms by (auto simp: dq_shape_def)
  then have "(2 :: nat) ^ b < 2 ^ 16" using unat_u16_less [of "dq_size q"] by simp
  then have "b < 16" by (rule power_less_imp_less_exp [rotated]) simp
  then have "b \<le> 16" by simp
  then show "unat (dq_size q) dvd 65536" using le_imp_power_dvd [of b 16 "2 :: nat"] b by simp
  show p: "0 < unat (dq_size q)" using b by simp
  show l: "length (dq_items q) = unat (dq_size q)" using assms by (simp add: dq_shape_def)
  show "dq_slot (dq_size q - 1) q i = Some (unat i mod unat (dq_size q))"
    using and_size_minus_1 [OF b, of i] l p by (simp add: dq_slot_def Let_def)
qed

lemma dq_invD: "dq_inv q \<Longrightarrow> dq_shape q" "dq_inv q \<Longrightarrow> dq_count q \<le> unat (dq_size q)"
  by (simp_all add: dq_inv_def)

lemma put_slot:
  assumes "dq_inv q"
  shows "unat (dq_put_index q) mod unat (dq_size q) =
    (unat (dq_get_index q) mod unat (dq_size q) + dq_count q) mod unat (dq_size q)"
proof -
  have "unat (dq_get_index q + (dq_put_index q - dq_get_index q)) = (unat (dq_get_index q) + dq_count q) mod 65536"
    unfolding dq_count_def by (subst unat_word_ariths(1)) simp
  then have "unat (dq_put_index q) = (unat (dq_get_index q) + dq_count q) mod 65536" by simp
  then show ?thesis using dq_shapeD(2) [OF dq_invD(1) [OF assms]] by (simp add: mod_mod_cancel mod_simps)
qed

lemma dq_full_iff:
  assumes "dq_inv q"
  shows "dq_full q \<longleftrightarrow> dq_count q = unat (dq_size q) \<and> dq_get_index q \<le> dq_put_index q"
proof (cases "dq_get_index q \<le> dq_put_index q")
  case True
  then have le: "unat (dq_get_index q) \<le> unat (dq_put_index q)" "dq_count q = unat (dq_put_index q) - unat (dq_get_index q)"
    by (simp_all add: dq_count_def unat_sub word_le_nat_alt)
  then have "uint (dq_put_index q) - uint (dq_get_index q) = int (dq_count q)" by (simp add: of_nat_diff)
  moreover have "uint (dq_size q) = int (unat (dq_size q))" by simp
  ultimately show ?thesis using True unfolding dq_full_def by (metis of_nat_eq_iff)
next
  case False
  then have "uint (dq_put_index q) < uint (dq_get_index q)" by (simp add: word_le_def)
  then have "uint (dq_put_index q) - uint (dq_get_index q) \<noteq> uint (dq_size q)" using uint_ge_0 [of "dq_size q"] by linarith
  then show ?thesis using False by (simp add: dq_full_def)
qed

lemma dq_stored_ok:
  assumes "dq_inv q" "dq_count q < unat (dq_size q)"
  shows "dq_inv (dq_stored x q)" "dq_contents (dq_stored x q) = dq_contents q @ [x]" "dq_count (dq_stored x q) = Suc (dq_count q)"
proof -
  have "Suc (dq_count q) < 65536" using assms(2) unat_u16_less [of "dq_size q"] by simp
  moreover have "dq_put_index (dq_stored x q) - dq_get_index (dq_stored x q) = (dq_put_index q - dq_get_index q) + 1"
    by (simp add: dq_stored_def)
  ultimately show c: "dq_count (dq_stored x q) = Suc (dq_count q)"
    unfolding dq_count_def by (simp only: unat_word_ariths(1)) simp
  then show "dq_inv (dq_stored x q)" using assms by (simp add: dq_inv_def dq_shape_def) (simp add: dq_stored_def)
  have "dq_contents (dq_stored x q) = ring ((dq_items q)[unat (dq_put_index q) mod unat (dq_size q) := x]) (unat (dq_size q))
      (unat (dq_get_index q) mod unat (dq_size q)) (Suc (dq_count q))"
    unfolding dq_contents_def c by (simp add: dq_stored_def)
  then show "dq_contents (dq_stored x q) = dq_contents q @ [x]"
    using ring_put [OF assms(2) dq_shapeD(3) [OF dq_invD(1) [OF assms(1)]]] put_slot [OF assms(1)] by (simp add: dq_contents_def)
qed

lemma dq_fetched_ok:
  assumes "dq_inv q" "0 < dq_count q"
  shows "dq_inv (dq_fetched q)" "dq_count q = Suc (dq_count (dq_fetched q))"
    "dq_contents q = dq_items q ! (unat (dq_get_index q) mod unat (dq_size q)) # dq_contents (dq_fetched q)"
proof -
  have "dq_put_index (dq_fetched q) - dq_get_index (dq_fetched q) = (dq_put_index q - dq_get_index q) - 1"
    by (simp add: dq_fetched_def)
  moreover have "dq_put_index q - dq_get_index q \<noteq> 0" using assms(2) by (auto simp: dq_count_def)
  ultimately show c: "dq_count q = Suc (dq_count (dq_fetched q))"
    using assms(2) by (simp add: dq_count_def unat_minus_one)
  then show "dq_inv (dq_fetched q)" using assms by (simp add: dq_inv_def dq_shape_def) (simp add: dq_fetched_def)
  have "unat (dq_get_index q + 1) mod unat (dq_size q) = Suc (unat (dq_get_index q)) mod unat (dq_size q)"
    using dq_shapeD(2) [OF dq_invD(1) [OF assms(1)]] by (simp add: unat_word_ariths(1) mod_mod_cancel)
  then show "dq_contents q = dq_items q ! (unat (dq_get_index q) mod unat (dq_size q)) # dq_contents (dq_fetched q)"
    using ring_get [of "unat (dq_get_index q) mod unat (dq_size q)" "unat (dq_size q)"] dq_shapeD(1) [OF dq_invD(1) [OF assms(1)]] c
    by (simp add: dq_contents_def mod_Suc_eq) (simp add: dq_fetched_def)
qed

section \<open>The calls\<close>

lemma set_dq_fields [simp]:
  "kern (set_dq q f d) = kern d" "primask (set_dq q f d) = primask d"
  "data_queues (set_dq q f d) = (data_queues d)(q := f (data_queues d q))"
  by (simp_all add: set_dq_def)

text \<open>No producer waits, and no notification is asked for.\<close>

definition dq_ready :: "ptr \<Rightarrow> 'd drv \<Rightarrow> bool" where
  "dq_ready queue d \<longleftrightarrow> queue \<noteq> RT_NULL \<and> thread_inv (kern d) \<and> dq_evt_notify (data_queues d queue) = RT_NULL \<and>
     tqs (kern d) (SuspSender queue) = []"

lemma push_room:
  assumes "dq_ready queue d" "dq_shape (data_queues d queue)" "\<not> dq_full (data_queues d queue)"
  shows "\<exists>d'. rt_data_queue_push notify ws queue p n timeout d = Some (RT_EOK, d') \<and> dq_ready queue d' \<and>
    data_queues d' queue = dq_stored (p, n) (data_queues d queue) \<and> primask d' = primask d"
proof -
  have r: "queue \<noteq> RT_NULL" "thread_inv (kern d)" "dq_evt_notify (data_queues d queue) = RT_NULL"
    "tqs (kern d) (SuspSender queue) = []" using assms(1) by (simp_all add: dq_ready_def)
  note slot = dq_shapeD(4) [OF assms(2)]
  show ?thesis
  proof (cases "tqs (kern d) (Susp queue)")
    case Nil
    then show ?thesis
      using r slot assms(3)
      by (auto simp: rt_data_queue_push_def push_wait.simps interrupt_defs Let_def dq_notify_def dq_ready_def dq_stored_def)
  next
    case (Cons t ts)
    obtain s' where s': "rt_thread_resume t (kern d) = Some (RT_EOK, resumed t (kern d))"
      "rt_schedule (resumed t (kern d)) = Some s'" "thread_inv s'" "tqs s' (SuspSender queue) = []"
      by (rule drv_wake [OF r(2) wait_list_simps(1) Cons]) (use r(4) in auto)
    then show ?thesis
      using Cons r slot assms(3)
      by (auto simp: rt_data_queue_push_def push_wait.simps interrupt_defs Let_def dq_ready_def dq_stored_def)
  qed
qed

lemma push_refused:
  assumes "dq_ready queue d" "dq_full (data_queues d queue)"
  shows "rt_data_queue_push notify ws queue p n 0 d =
    Some (- RT_ETIMEOUT, set_dq queue (\<lambda>q. q\<lparr>dq_waiting_lwm := True\<rparr>) d)"
  using assms by (simp add: rt_data_queue_push_def push_wait.simps interrupt_defs Let_def dq_ready_def set_dq_def)

text \<open>\<open>dq_low\<close>: the pop reaches the low-water mark a refused push asked for.\<close>

definition dq_low :: "rt_data_queue \<Rightarrow> bool" where
  "dq_low q \<longleftrightarrow> dq_waiting_lwm q \<and> uint (dq_put_index q) - uint (dq_get_index q + 1) \<le> uint (dq_lwm q)"

lemma pop_some:
  assumes "dq_ready queue d" "dq_shape (data_queues d queue)" "\<not> dq_empty (data_queues d queue)"
  shows "\<exists>d'. rt_data_queue_pop notify w ws queue timeout d = Some (RT_EOK,
      Some (dq_items (data_queues d queue) ! (unat (dq_get_index (data_queues d queue)) mod unat (dq_size (data_queues d queue)))), d') \<and>
    kern d' = kern d \<and> primask d' = (primask d \<or> dq_low (data_queues d queue)) \<and>
    data_queues d' queue = (dq_fetched (data_queues d queue))
      \<lparr>dq_waiting_lwm := dq_waiting_lwm (data_queues d queue) \<and> \<not> dq_low (data_queues d queue)\<rparr>"
  using assms dq_shapeD(4) [OF assms(2)]
  by (auto simp: rt_data_queue_pop_def pop_wait.simps interrupt_defs Let_def dq_ready_def dq_notify_def dq_low_def dq_fetched_def)

lemma pop_none:
  assumes "dq_ready queue d" "dq_empty (data_queues d queue)"
  shows "rt_data_queue_pop notify w ws queue 0 d = Some (- RT_ETIMEOUT, None, d)"
  using assms by (simp add: rt_data_queue_pop_def pop_wait.simps interrupt_defs Let_def dq_ready_def)

section \<open>Sequences of calls\<close>

text \<open>A sequence of calls that do not wait, with the items accepted and the items handed out, and what a queue of bounded length
  does with them.\<close>

fun dq_run ::
  "'d notify_fn \<Rightarrow> 'd dworld \<Rightarrow> ptr \<Rightarrow> (ptr \<times> rt_size_t) fifo_op list \<Rightarrow> 'd drv \<Rightarrow>
     ((ptr \<times> rt_size_t) list \<times> (ptr \<times> rt_size_t) list \<times> 'd drv) option" where
  "dq_run notify w queue [] d = Some ([], [], d)"
| "dq_run notify w queue (Put x # os) d = do {
     (e, d) \<leftarrow> rt_data_queue_push notify [] queue (fst x) (snd x) 0 d;
     (sent, got, d) \<leftarrow> dq_run notify w queue os d;
     Some (if e = RT_EOK then x # sent else sent, got, d)
   }"
| "dq_run notify w queue (Get # os) d = do {
     (e, y, d) \<leftarrow> rt_data_queue_pop notify w [] queue 0 d;
     (sent, got, d) \<leftarrow> dq_run notify w queue os d;
     Some (sent, case y of Some y \<Rightarrow> y # got | None \<Rightarrow> got, d)
   }"

fun bounded_queue :: "nat \<Rightarrow> 'a fifo_op list \<Rightarrow> 'a list \<Rightarrow> 'a list \<times> 'a list \<times> 'a list" where
  "bounded_queue n [] xs = ([], [], xs)"
| "bounded_queue n (Put x # os) xs =
     (if length xs < n then let (sent, got, ys) = bounded_queue n os (xs @ [x]) in (x # sent, got, ys)
      else bounded_queue n os xs)"
| "bounded_queue n (Get # os) xs =
     (case xs of
        [] \<Rightarrow> bounded_queue n os []
      | x # xs \<Rightarrow> let (sent, got, ys) = bounded_queue n os xs in (sent, x # got, ys))"

definition puts :: "'a fifo_op list \<Rightarrow> nat" where
  "puts os = length (filter (\<lambda>x. x \<noteq> Get) os)"

lemma puts_simps [simp]: "puts [] = 0" "puts (Put x # os) = Suc (puts os)" "puts (Get # os) = puts os"
  by (simp_all add: puts_def)

lemma puts_more [simp]:
  "puts (xs @ ys) = puts xs + puts ys" "puts (replicate n (Put a)) = n" "puts (concat (replicate n [Put a, Get])) = n"
proof -
  show a: "puts (xs @ ys) = puts xs + puts ys" for xs ys :: "'a fifo_op list" by (simp add: puts_def)
  show "puts (replicate n (Put a)) = n" "puts (concat (replicate n [Put a, Get])) = n" by (induction n) (simp_all add: a)
qed

lemma dq_update_waiting [simp]:
  "dq_inv (q\<lparr>dq_waiting_lwm := b\<rparr>) = dq_inv q" "dq_contents (q\<lparr>dq_waiting_lwm := b\<rparr>) = dq_contents q"
  "dq_count (q\<lparr>dq_waiting_lwm := b\<rparr>) = dq_count q" "dq_full (q\<lparr>dq_waiting_lwm := b\<rparr>) = dq_full q"
  by (simp_all add: dq_inv_def dq_shape_def dq_contents_def dq_count_def dq_full_def)

lemma dq_stored_fields [simp]:
  "dq_size (dq_stored x q) = dq_size q" "dq_get_index (dq_stored x q) = dq_get_index q"
  "dq_put_index (dq_stored x q) = dq_put_index q + 1" "dq_evt_notify (dq_stored x q) = dq_evt_notify q"
  "dq_shape (dq_stored x q) = dq_shape q"
  by (simp_all add: dq_stored_def dq_shape_def)

lemma dq_fetched_fields [simp]:
  "dq_size (dq_fetched q) = dq_size q" "dq_get_index (dq_fetched q) = dq_get_index q + 1"
  "dq_put_index (dq_fetched q) = dq_put_index q" "dq_evt_notify (dq_fetched q) = dq_evt_notify q"
  by (simp_all add: dq_fetched_def)

lemma dq_empty_iff: "dq_empty q \<longleftrightarrow> dq_count q = 0"
  by (auto simp: dq_empty_def dq_count_def unat_eq_0)

text \<open>One call on a queue with room, and one on a queue with data.\<close>

lemma run_put:
  assumes "dq_ready queue d" "dq_inv (data_queues d queue)" "dq_count (data_queues d queue) < unat (dq_size (data_queues d queue))"
  obtains d' where "dq_ready queue d'" "data_queues d' queue = dq_stored x (data_queues d queue)"
    "dq_run notify w queue (Put x # os) d =
       map_option (\<lambda>(sent, got, d). (x # sent, got, d)) (dq_run notify w queue os d')"
proof -
  have "\<not> dq_full (data_queues d queue)" using assms(2,3) by (simp add: dq_full_iff)
  from push_room [OF assms(1) dq_invD(1) [OF assms(2)] this, of notify "[]" "fst x" "snd x" 0]
  obtain d' where "rt_data_queue_push notify [] queue (fst x) (snd x) 0 d = Some (RT_EOK, d')" "dq_ready queue d'"
    "data_queues d' queue = dq_stored x (data_queues d queue)" by auto
  then show ?thesis using that [of d'] by (cases "dq_run notify w queue os d'") auto
qed

lemma run_get:
  assumes "dq_ready queue d" "dq_inv (data_queues d queue)" "0 < dq_count (data_queues d queue)"
  obtains d' b where "dq_ready queue d'" "data_queues d' queue = (dq_fetched (data_queues d queue))\<lparr>dq_waiting_lwm := b\<rparr>"
    "dq_run notify w queue (Get # os) d =
       map_option (\<lambda>(sent, got, d'). (sent, hd (dq_contents (data_queues d queue)) # got, d')) (dq_run notify w queue os d')"
proof -
  have "\<not> dq_empty (data_queues d queue)" using assms(3) by (simp add: dq_empty_iff)
  from pop_some [OF assms(1) dq_invD(1) [OF assms(2)] this, of notify w "[]" 0] dq_fetched_ok(3) [OF assms(2,3)]
  obtain d' where d': "rt_data_queue_pop notify w [] queue 0 d = Some (RT_EOK, Some (hd (dq_contents (data_queues d queue))), d')"
    "kern d' = kern d" "data_queues d' queue = (dq_fetched (data_queues d queue))
      \<lparr>dq_waiting_lwm := dq_waiting_lwm (data_queues d queue) \<and> \<not> dq_low (data_queues d queue)\<rparr>" by auto
  have "dq_ready queue d'" using assms(1) d'(2,3) by (simp add: dq_ready_def)
  then show ?thesis using that [OF _ d'(3)] d'(1) by (cases "dq_run notify w queue os d'") auto
qed

lemma dq_run_refines:
  assumes "dq_ready queue d" "dq_inv (data_queues d queue)" "dq_get_index (data_queues d queue) \<le> dq_put_index (data_queues d queue)"
    "unat (dq_put_index (data_queues d queue)) + puts os < 2 ^ 16"
  shows "\<exists>sent got d'. dq_run notify w queue os d = Some (sent, got, d') \<and> dq_inv (data_queues d' queue) \<and>
    bounded_queue (unat (dq_size (data_queues d queue))) os (dq_contents (data_queues d queue)) =
      (sent, got, dq_contents (data_queues d' queue))"
  using assms
proof (induction os arbitrary: d)
  case (Cons opn os)
  let ?q = "data_queues d queue"
  note inv = Cons.prems(2)
  show ?case
  proof (cases opn)
    case (Put x)
    show ?thesis
    proof (cases "dq_count ?q < unat (dq_size ?q)")
      case True
      obtain d' where d': "dq_ready queue d'" "data_queues d' queue = dq_stored x ?q"
        "dq_run notify w queue (Put x # os) d = map_option (\<lambda>(sent, got, d). (x # sent, got, d)) (dq_run notify w queue os d')"
        by (rule run_put [OF Cons.prems(1) inv True])
      have u: "unat (dq_put_index ?q + 1) = Suc (unat (dq_put_index ?q))" using Cons.prems(4) Put by (subst unat_inc) simp_all
      have "dq_get_index ?q \<le> dq_put_index ?q + 1" using Cons.prems(3) u by (simp add: word_le_nat_alt)
      with Cons.IH [OF d'(1)] d' u Cons.prems(4) Put dq_stored_ok [OF inv True, of x] True show ?thesis
        by (auto split: prod.splits)
    next
      case False
      then have "dq_full ?q" using inv dq_invD(2) [OF inv] Cons.prems(3) by (simp add: dq_full_iff)
      from push_refused [OF Cons.prems(1) this, of notify "[]" "fst x" "snd x"] show ?thesis
        using Cons.IH [of "set_dq queue (\<lambda>q. q\<lparr>dq_waiting_lwm := True\<rparr>) d"] Cons.prems Put False
        by (auto simp: dq_ready_def)
    qed
  next
    case Get
    show ?thesis
    proof (cases "0 < dq_count ?q")
      case True
      obtain d' b where d': "dq_ready queue d'" "data_queues d' queue = (dq_fetched ?q)\<lparr>dq_waiting_lwm := b\<rparr>"
        "dq_run notify w queue (Get # os) d =
          map_option (\<lambda>(sent, got, d'). (sent, hd (dq_contents ?q) # got, d')) (dq_run notify w queue os d')"
        by (rule run_get [OF Cons.prems(1) inv True])
      have "dq_get_index ?q < dq_put_index ?q"
        using True Cons.prems(3) by (auto simp: dq_count_def le_less)
      then have "dq_get_index ?q + 1 \<le> dq_put_index ?q" by (rule inc_le)
      with Cons.IH [OF d'(1)] d' Cons.prems(4) Get dq_fetched_ok [OF inv True] show ?thesis
        by (auto split: prod.splits)
    next
      case False
      then have e: "dq_empty ?q" "dq_contents ?q = []" by (simp_all add: dq_empty_iff flip: length_0_conv)
      from pop_none [OF Cons.prems(1) e(1), of notify w "[]"] Cons.IH [OF Cons.prems(1-3)] Cons.prems(4) Get e(2) show ?thesis
        by auto
    qed
  qed
qed simp

text \<open>Pushing and popping in turn moves the indices on; pushing what there is room for moves the put index on.\<close>

lemma dq_run_append:
  "dq_run notify w queue (xs @ ys) d = Option.bind (dq_run notify w queue xs d)
     (\<lambda>(a, b, d'). map_option (\<lambda>(a', b', e). (a @ a', b @ b', e)) (dq_run notify w queue ys d'))"
proof (induction xs arbitrary: d)
  case Nil
  then show ?case by (cases "dq_run notify w queue ys d") auto
next
  case (Cons opn xs)
  then show ?case
    by (cases opn) (auto split: bind_splits option.splits simp: map_option_case)
qed

lemma run_pairs:
  assumes "dq_ready queue d" "dq_inv (data_queues d queue)" "dq_count (data_queues d queue) = 0"
  shows "\<exists>d'. dq_run notify w queue (concat (replicate k [Put x, Get])) d = Some (replicate k x, replicate k x, d') \<and>
    dq_ready queue d' \<and> dq_inv (data_queues d' queue) \<and> dq_count (data_queues d' queue) = 0 \<and>
    dq_size (data_queues d' queue) = dq_size (data_queues d queue) \<and>
    dq_get_index (data_queues d' queue) = dq_get_index (data_queues d queue) + of_nat k"
  using assms
proof (induction k arbitrary: d)
  case (Suc k)
  let ?q = "data_queues d queue" and ?os = "concat (replicate k [Put x, Get])"
  have room: "dq_count ?q < unat (dq_size ?q)" using dq_shapeD(1) [OF dq_invD(1) [OF Suc.prems(2)]] Suc.prems(3) by simp
  note st = dq_stored_ok [OF Suc.prems(2) room, of x]
  obtain d1 where d1: "dq_ready queue d1" "data_queues d1 queue = dq_stored x ?q"
    "dq_run notify w queue (Put x # Get # ?os) d =
       map_option (\<lambda>(sent, got, d). (x # sent, got, d)) (dq_run notify w queue (Get # ?os) d1)"
    by (rule run_put [OF Suc.prems(1,2) room])
  have "0 < dq_count (dq_stored x ?q)" using st(3) by simp
  note ft = dq_fetched_ok [OF st(1) this]
  obtain d2 b where d2: "dq_ready queue d2" "data_queues d2 queue = (dq_fetched (dq_stored x ?q))\<lparr>dq_waiting_lwm := b\<rparr>"
    "dq_run notify w queue (Get # ?os) d1 =
       map_option (\<lambda>(sent, got, d'). (sent, hd (dq_contents (dq_stored x ?q)) # got, d')) (dq_run notify w queue ?os d2)"
    using run_get [OF d1(1), of notify w ?os] st(1,3) d1(2) by auto
  have "dq_contents ?q = []" using Suc.prems(3) by (simp flip: length_0_conv)
  then have hd: "hd (dq_contents (dq_stored x ?q)) = x" using st(2) by simp
  have "dq_inv (data_queues d2 queue)" "dq_count (data_queues d2 queue) = 0"
    "dq_size (data_queues d2 queue) = dq_size ?q" "dq_get_index (data_queues d2 queue) = dq_get_index ?q + 1"
    using ft st(3) Suc.prems(3) d2(2) by simp_all
  with Suc.IH [OF d2(1)] obtain d' where
    "dq_run notify w queue ?os d2 = Some (replicate k x, replicate k x, d')" "dq_ready queue d'" "dq_inv (data_queues d' queue)"
    "dq_count (data_queues d' queue) = 0" "dq_size (data_queues d' queue) = dq_size ?q"
    "dq_get_index (data_queues d' queue) = dq_get_index ?q + 1 + of_nat k" by auto
  then show ?case using d1(3) d2(3) hd by (auto simp: algebra_simps)
qed simp

lemma run_puts:
  assumes "dq_ready queue d" "dq_inv (data_queues d queue)"
    "dq_count (data_queues d queue) + length xs \<le> unat (dq_size (data_queues d queue))"
  shows "\<exists>d'. dq_run notify w queue (map Put xs) d = Some (xs, [], d') \<and>
    dq_ready queue d' \<and> dq_inv (data_queues d' queue) \<and>
    dq_contents (data_queues d' queue) = dq_contents (data_queues d queue) @ xs \<and>
    dq_size (data_queues d' queue) = dq_size (data_queues d queue) \<and>
    dq_get_index (data_queues d' queue) = dq_get_index (data_queues d queue) \<and>
    dq_put_index (data_queues d' queue) = dq_put_index (data_queues d queue) + of_nat (length xs)"
  using assms
proof (induction xs arbitrary: d)
  case (Cons x xs)
  let ?q = "data_queues d queue"
  have room: "dq_count ?q < unat (dq_size ?q)" using Cons.prems(3) by simp
  note st = dq_stored_ok [OF Cons.prems(2) room, of x]
  obtain d1 where d1: "dq_ready queue d1" "data_queues d1 queue = dq_stored x ?q"
    "dq_run notify w queue (Put x # map Put xs) d =
       map_option (\<lambda>(sent, got, d). (x # sent, got, d)) (dq_run notify w queue (map Put xs) d1)"
    by (rule run_put [OF Cons.prems(1,2) room])
  from Cons.IH [OF d1(1)] d1(2) st Cons.prems(3) show ?case
    using d1(3) by (auto simp: algebra_simps)
qed simp

section \<open>Properties\<close>

text \<open>
  C22. A data queue whose size is a power of two is a bounded queue: for every sequence of calls of \<open>rt_data_queue_push\<close> and
  \<open>rt_data_queue_pop\<close> that do not wait, the items accepted, the items handed out and the items left are those of a queue of at most \<open>size\<close> items
  that refuses a push when it is full and a pop when it is empty, as long as the put index does not pass 65535.
\<close>

theorem rt_data_queue_refines_queue:
  assumes "dq_ready queue d" "dq_inv (data_queues d queue)" "dq_get_index (data_queues d queue) \<le> dq_put_index (data_queues d queue)"
    and "unat (dq_put_index (data_queues d queue)) + puts os < 2 ^ 16"
  shows "\<exists>sent got d'. dq_run notify w queue os d = Some (sent, got, d') \<and> dq_inv (data_queues d' queue) \<and>
    bounded_queue (unat (dq_size (data_queues d queue))) os (dq_contents (data_queues d queue)) =
      (sent, got, dq_contents (data_queues d' queue))"
  by (rule dq_run_refines [OF assms])

text \<open>
  Beyond that the queue overruns: from every empty queue there is a sequence of calls, each of them accepted, that fills it with \<open>size\<close> copies
  of an item \<open>a\<close> and after which \<open>rt_data_queue_push\<close> of any \<open>x\<close> still returns \<open>RT_EOK\<close> and the next \<open>rt_data_queue_pop\<close> returns
  \<open>x\<close> in place of the oldest item.  The put index has passed 65535 and the get index has not: their difference, taken
  in 32 bits, is negative.
\<close>

theorem rt_data_queue_overruns:
  assumes "dq_ready queue d" "dq_inv (data_queues d queue)" "dq_contents (data_queues d queue) = []"
  shows "\<exists>os sent got d1 d2 d3. dq_run notify w queue os d = Some (sent, got, d1) \<and> length sent = puts os \<and>
    dq_contents (data_queues d1 queue) = replicate (unat (dq_size (data_queues d queue))) a \<and>
    rt_data_queue_push notify [] queue (fst x) (snd x) 0 d1 = Some (RT_EOK, d2) \<and>
    rt_data_queue_pop notify w [] queue 0 d2 = Some (RT_EOK, Some x, d3)"
proof -
  let ?q = "data_queues d queue" let ?n = "unat (dq_size ?q)"
  let ?k = "unat (- 1 - dq_get_index ?q)" let ?os = "concat (replicate ?k [Put a, Get]) @ map Put (replicate ?n a)"
  have c0: "dq_count ?q = 0" using assms(3) by (metis length_dq_contents list.size(3))
  obtain e where e: "dq_run notify w queue (concat (replicate ?k [Put a, Get])) d = Some (replicate ?k a, replicate ?k a, e)"
    "dq_ready queue e" "dq_inv (data_queues e queue)" "dq_count (data_queues e queue) = 0" "dq_size (data_queues e queue) = dq_size ?q"
    "dq_get_index (data_queues e queue) = - 1"
    using run_pairs [OF assms(1,2) c0, of notify w ?k a] by auto
  have p: "dq_put_index (data_queues e queue) = - 1" using e(4,6) dq_empty_iff [of "data_queues e queue"] by (simp add: dq_empty_def)
  obtain d1 where d1: "dq_run notify w queue (map Put (replicate ?n a)) e = Some (replicate ?n a, [], d1)" "dq_ready queue d1"
    "dq_inv (data_queues d1 queue)" "dq_contents (data_queues d1 queue) = replicate ?n a" "dq_size (data_queues d1 queue) = dq_size ?q"
    "dq_get_index (data_queues d1 queue) = - 1" "dq_put_index (data_queues d1 queue) = dq_size ?q - 1"
    using run_puts [OF e(2,3), of "replicate ?n a" notify w] e(4-6) p by (auto simp flip: length_0_conv)
  note sh = dq_shapeD [OF dq_invD(1) [OF d1(3)], unfolded d1(5)]
  have "?n \<noteq> 65535"
  proof
    assume "?n = 65535"
    then have "(65535 :: nat) dvd 65536" using sh(2) by (simp only:)
    then show False by simp
  qed
  moreover have m1: "unat (- 1 :: u16) = 65535" by (simp add: unsigned_minus_1_eq_mask mask_eq_exp_minus_1)
  ultimately have ne: "dq_size ?q \<noteq> - 1" "dq_size ?q \<noteq> 0" using sh(1) by auto
  have "unat (dq_size ?q - 1) < 65535"
    using unat_minus_one [OF ne(2)] sh(1) unat_u16_less [of "dq_size ?q"] by simp
  then have nf: "\<not> dq_full (data_queues d1 queue)"
    using d1(3,6,7) m1 by (auto simp: dq_full_iff word_le_nat_alt)
  obtain d2 where d2: "rt_data_queue_push notify [] queue (fst x) (snd x) 0 d1 = Some (RT_EOK, d2)" "dq_ready queue d2"
    "data_queues d2 queue = dq_stored x (data_queues d1 queue)"
    using push_room [OF d1(2) dq_invD(1) [OF d1(3)] nf, of notify "[]" "fst x" "snd x" 0] by auto
  have "dq_count (data_queues d1 queue) = ?n" using d1(4) by (metis length_dq_contents length_replicate)
  then have "unat (dq_put_index (data_queues d1 queue)) mod ?n = unat (dq_get_index (data_queues d1 queue)) mod ?n"
    using put_slot [OF d1(3)] d1(5) by simp
  then have hd: "dq_items (dq_stored x (data_queues d1 queue)) ! (unat (dq_get_index (data_queues d1 queue)) mod ?n) = x"
    using sh(1,3) d1(5) by (simp add: dq_stored_def)
  have "\<not> dq_empty (data_queues d2 queue)" "dq_shape (data_queues d2 queue)"
    using d2(3) d1(6,7) ne dq_invD(1) [OF d1(3)] by (auto simp: dq_empty_def)
  from pop_some [OF d2(2) this(2,1), of notify w "[]" 0] obtain d3
    where "rt_data_queue_pop notify w [] queue 0 d2 = Some (RT_EOK, Some x, d3)" using d2(3) hd d1(5) by auto
  moreover have "dq_run notify w queue ?os d = Some (replicate ?k a @ replicate ?n a, replicate ?k a, d1)"
    using e(1) d1(1) by (simp add: dq_run_append)
  ultimately show ?thesis using d1(4) d2(1)
    by (intro exI [of _ ?os] exI [of _ "replicate ?k a @ replicate ?n a"] exI [of _ "replicate ?k a"] exI) auto
qed

text \<open>
  \<open>rt_data_queue_pop\<close> can leave the interrupts disabled: a push that a full queue refuses without waiting returns \<open>-RT_ETIMEOUT\<close> and
  restores the interrupt state; the next pop hands out the oldest item and, when it reaches the low-water mark with no producer waiting,
  returns with interrupts off although they were on.
\<close>

theorem rt_data_queue_pop_interrupts:
  assumes "dq_ready queue d" "dq_inv (data_queues d queue)" "dq_get_index (data_queues d queue) \<le> dq_put_index (data_queues d queue)"
    and "length (dq_contents (data_queues d queue)) = unat (dq_size (data_queues d queue))"
  shows "\<exists>d1 d2. rt_data_queue_push notify [] queue p n 0 d = Some (- RT_ETIMEOUT, d1) \<and> primask d1 = primask d \<and>
    rt_data_queue_pop notify w [] queue 0 d1 = Some (RT_EOK, Some (hd (dq_contents (data_queues d queue))), d2) \<and>
    primask d2 = (primask d \<or> unat (dq_size (data_queues d queue)) \<le> Suc (unat (dq_lwm (data_queues d queue))))"
proof -
  let ?q = "data_queues d queue" let ?d1 = "set_dq queue (\<lambda>q. q\<lparr>dq_waiting_lwm := True\<rparr>) d"
  let ?q1 = "?q\<lparr>dq_waiting_lwm := True\<rparr>"
  note sh = dq_shapeD [OF dq_invD(1) [OF assms(2)]]
  have "dq_full ?q" using assms by (simp add: dq_full_iff)
  note push = push_refused [OF assms(1) this]
  have r1: "dq_ready queue ?d1" "dq_inv (data_queues ?d1 queue)" "0 < dq_count ?q1" "\<not> dq_empty (data_queues ?d1 queue)"
    using assms sh(1) by (simp_all add: dq_ready_def dq_empty_iff)
  have hd: "hd (dq_contents ?q) = dq_items ?q ! (unat (dq_get_index ?q) mod unat (dq_size ?q))"
    using dq_fetched_ok(3) [OF r1(2)] r1(3) by simp
  have lt: "unat (dq_get_index ?q) < unat (dq_put_index ?q)" "unat (dq_put_index ?q) - unat (dq_get_index ?q) = unat (dq_size ?q)"
    using assms(3,4) sh(1) by (auto simp: dq_count_def unat_sub word_le_nat_alt)
  then have "unat (dq_get_index ?q + 1) = Suc (unat (dq_get_index ?q))"
    using unat_u16_less [of "dq_put_index ?q"] by (subst unat_inc) simp_all
  moreover have u: "uint x = int (unat x)" for x :: u16 by simp
  ultimately have "uint (dq_get_index ?q + 1) = 1 + uint (dq_get_index ?q)" by (simp only: u of_nat_Suc)
  moreover have "uint (dq_put_index ?q) = uint (dq_get_index ?q) + uint (dq_size ?q)" using lt unfolding u by linarith
  ultimately have "dq_low ?q1 \<longleftrightarrow> uint (dq_size ?q) \<le> 1 + uint (dq_lwm ?q)" by (auto simp: dq_low_def)
  also have "\<dots> \<longleftrightarrow> unat (dq_size ?q) \<le> Suc (unat (dq_lwm ?q))" unfolding u by linarith
  finally show ?thesis
    using push [of notify "[]" p n] pop_some [OF r1(1) dq_invD(1) [OF r1(2)] r1(4), of notify w "[]" 0] hd by auto
qed

text \<open>An empty data queue of four items at \<open>0x900\<close>, and the same queue with four items.\<close>

definition demo_dq :: "unit drv" where
  "demo_dq = set_dq 0x900 (\<lambda>q. q\<lparr>dq_size := 4, dq_lwm := 3, dq_items := replicate 4 (0, 0)\<rparr>) (zero_drv two_started)"

definition demo_dq_full :: "unit drv" where
  "demo_dq_full = set_dq 0x900 (\<lambda>q. q\<lparr>dq_items := [(1, 1), (2, 2), (3, 3), (4, 4)], dq_put_index := 4\<rparr>) demo_dq"

lemma demo_dq_ok:
  "dq_ready 0x900 demo_dq" "dq_inv (data_queues demo_dq 0x900)" "dq_contents (data_queues demo_dq 0x900) = []"
  "dq_ready 0x900 demo_dq_full" "dq_inv (data_queues demo_dq_full 0x900)" "length (dq_contents (data_queues demo_dq_full 0x900)) = 4"
  using thread_inv_two_started
  by (auto simp: demo_dq_full_def demo_dq_def dq_ready_def dq_inv_def dq_shape_def dq_count_def zero_drv_def dq_contents_def
      intro: exI [of _ 2])

theorem rt_data_queue_refines_queue_witness:
  "\<exists>d'. dq_run (\<lambda>_ _ _. Some) id 0x900 [Put (1, 2), Put (3, 4), Get] demo_dq = Some ([(1, 2), (3, 4)], [(1, 2)], d') \<and>
     dq_contents (data_queues d' 0x900) = [(3, 4)]"
proof -
  have q: "unat (dq_size (data_queues demo_dq 0x900)) = 4" "dq_get_index (data_queues demo_dq 0x900) = 0"
    "dq_put_index (data_queues demo_dq 0x900) = 0" by (simp_all add: demo_dq_def zero_drv_def)
  then show ?thesis
    using rt_data_queue_refines_queue [OF demo_dq_ok(1,2), of "[Put (1, 2), Put (3, 4), Get]" "\<lambda>_ _ _. Some" id] demo_dq_ok(3)
    by auto
qed

theorem rt_data_queue_overruns_witness:
  "\<exists>os sent got d1 d2 d3. dq_run (\<lambda>_ _ _. Some) id 0x900 os demo_dq = Some (sent, got, d1) \<and>
     dq_contents (data_queues d1 0x900) = replicate 4 (1, 1) \<and>
     rt_data_queue_push (\<lambda>_ _ _. Some) [] 0x900 2 2 0 d1 = Some (RT_EOK, d2) \<and>
     rt_data_queue_pop (\<lambda>_ _ _. Some) id [] 0x900 0 d2 = Some (RT_EOK, Some (2, 2), d3)"
proof -
  have q: "unat (dq_size (data_queues demo_dq 0x900)) = 4" by (simp add: demo_dq_def)
  show ?thesis
    using rt_data_queue_overruns [OF demo_dq_ok(1-3), of "\<lambda>_ _ _. Some" id "(1, 1)" "(2, 2)"] unfolding q by (metis fst_conv snd_conv)
qed

theorem rt_data_queue_pop_interrupts_witness:
  "primask demo_dq_full = False \<and>
   (\<exists>d1 d2. rt_data_queue_push (\<lambda>_ _ _. Some) [] 0x900 5 5 0 demo_dq_full = Some (- RT_ETIMEOUT, d1) \<and>
     rt_data_queue_pop (\<lambda>_ _ _. Some) id [] 0x900 0 d1 = Some (RT_EOK, Some (1, 1), d2) \<and> primask d2)"
proof -
  have q: "unat (dq_size (data_queues demo_dq_full 0x900)) = 4" "dq_get_index (data_queues demo_dq_full 0x900) = 0"
    "hd (dq_contents (data_queues demo_dq_full 0x900)) = (1, 1)" "unat (dq_lwm (data_queues demo_dq_full 0x900)) = 3"
    "primask demo_dq_full = False"
    by (simp_all add: demo_dq_full_def demo_dq_def zero_drv_def dq_contents_def dq_count_def ring_def upt_rec)
  then show ?thesis
    using rt_data_queue_pop_interrupts [OF demo_dq_ok(4,5), of "\<lambda>_ _ _. Some" 5 5 id] demo_dq_ok(6) by auto
qed

end
