(* ===== verification/Printf.thy ===== *)
theory Printf
  imports Kservice
begin

text \<open>
  Formatted output, \<open>print_number\<close>, \<open>rt_vsnprintf\<close> and the functions around it of \<open>src/src/kservice.c\<close>, over the
  byte memory of theory Kservice: the format, the strings it prints and the buffer are bytes at addresses, so
  that what overlaps is seen.  The variable arguments are a list of 32-bit words.

  The specification is \<open>render\<close>, a function on lists from the format and the arguments to the text.  The call
  \<open>rt_vsnprintf\<close> is proved to return, to leave the text cut to the size of the buffer and ended by a NUL, and to write nowhere
  else.

  The conversions of floating-point numbers (\<open>flt\<close> and what it calls) are not modelled: \<open>flt\<close> is a parameter, and \<open>render\<close> has
  no value for formats that use it.  \<open>RT_PRINTF_PRECISION\<close> is defined, \<open>RT_PRINTF_SPECIAL\<close> and \<open>RT_PRINTF_LONGLONG\<close> are not.  A signed overflow of a number in the format, undefined in C, is \<open>None\<close>.
\<close>

section \<open>The code\<close>

abbreviation (input) ZEROPAD :: u8 where "ZEROPAD \<equiv> 1"
abbreviation (input) SIGN :: u8 where "SIGN \<equiv> 2"
abbreviation (input) PLUS :: u8 where "PLUS \<equiv> 4"
abbreviation (input) SPACE :: u8 where "SPACE \<equiv> 8"
abbreviation (input) LEFT :: u8 where "LEFT \<equiv> 16"
abbreviation (input) SPECIAL :: u8 where "SPECIAL \<equiv> 32"
abbreviation (input) LARGE :: u8 where "LARGE \<equiv> 64"

text \<open>\<open>if (str <= end) *str = c; ++ str;\<close>\<close>

type_synonym out = "ptr \<times> bytes"

definition emit :: "ptr \<Rightarrow> u8 \<Rightarrow> out \<Rightarrow> out" where
  "emit end c st = (fst st + 1, if fst st \<le> end then (snd st)(fst st := c) else snd st)"

text \<open>\<open>while (size-- > 0) ...\<close>, with the value \<open>size\<close> has behind the loop.\<close>

function pad :: "ptr \<Rightarrow> u8 \<Rightarrow> int \<Rightarrow> out \<Rightarrow> int \<times> out" where
  "pad end c sz st = (if sz > 0 then pad end c (sz - 1) (emit end c st) else (sz - 1, st))"
  by auto
termination by (relation "measure (\<lambda>(_, _, sz, _). nat sz)") auto

definition small_digits :: "u8 list" where
  "small_digits = [48, 49, 50, 51, 52, 53, 54, 55, 56, 57, 97, 98, 99, 100, 101, 102]"

definition large_digits :: "u8 list" where
  "large_digits = [48, 49, 50, 51, 52, 53, 54, 55, 56, 57, 65, 66, 67, 68, 69, 70]"

text \<open>\<open>while (num != 0) tmp[i++] = digits[divide(&num, base)];\<close>: the digits in \<open>tmp\<close>, the last one first.\<close>

lemma divide_less: "n \<noteq> 0 \<Longrightarrow> unat (snd (divide n base)) < unat n"
  by (auto simp: divide_def unat_div word_neq_0_conv word_less_nat_alt)

function num_digits :: "u8 list \<Rightarrow> u32 \<Rightarrow> u32 \<Rightarrow> u8 list" where
  "num_digits digits base num =
     (if num = 0 then []
      else let (d, num') = divide num base in (digits ! unat d) # num_digits digits base num')"
  by auto
termination
  by (relation "measure (\<lambda>(_, _, n). unat n)") (simp, metis divide_less in_measure case_prod_conv snd_conv)

text \<open>\<open>while (i < precision--) ...\<close> and \<open>while (i-- > 0) ... tmp[i] ...\<close>\<close>

function zeros :: "ptr \<Rightarrow> int \<Rightarrow> int \<Rightarrow> out \<Rightarrow> out" where
  "zeros end i precision st = (if i < precision then zeros end i (precision - 1) (emit end 48 st) else st)"
  by auto
termination by (relation "measure (\<lambda>(_, i, p, _). nat (p - i))") auto

fun put_tmp :: "ptr \<Rightarrow> u8 list \<Rightarrow> nat \<Rightarrow> out \<Rightarrow> out" where
  "put_tmp end tmp 0 st = st"
| "put_tmp end tmp (Suc i) st = put_tmp end tmp i (emit end (tmp ! i) st)"

text \<open>The output of the digits in \<open>tmp\<close>: blanks, sign, padding, zeros of the precision, digits, blanks.  The field size and the
  precision, \<open>int\<close> in the source, are unbounded here: the two differ only for fields or precisions next to \<open>2\<^sup>3\<^sup>1\<close>, where the
  source would overflow.\<close>

definition put_number :: "ptr \<Rightarrow> u8 \<Rightarrow> u8 list \<Rightarrow> int \<Rightarrow> int \<Rightarrow> u8 \<Rightarrow> out \<Rightarrow> out" where
  "put_number end sign tmp sz precision type st =
     (let i = length tmp;
          precision = (if int i > precision then int i else precision);
          sz = sz - precision;
          (sz, st) = (if type AND (ZEROPAD OR LEFT) = 0
            then pad end 32 (if sign \<noteq> 0 \<and> sz > 0 then sz - 1 else sz) st else (sz, st));
          (sz, st) = (if sign \<noteq> 0 then (if fst st \<le> end then sz - 1 else sz, emit end sign st) else (sz, st));
          (sz, st) = (if type AND LEFT = 0 then pad end (if type AND ZEROPAD \<noteq> 0 then 48 else 32) sz st else (sz, st));
          st = zeros end (int i) precision st;
          st = put_tmp end tmp i st
      in snd (pad end 32 sz st))"

definition print_number :: "ptr \<Rightarrow> u32 \<Rightarrow> u32 \<Rightarrow> int \<Rightarrow> int \<Rightarrow> u8 \<Rightarrow> out \<Rightarrow> out" where
  "print_number end num base s precision type st =
     (let sz = s;
          digits = (if type AND LARGE \<noteq> 0 then large_digits else small_digits);
          type = (if type AND LEFT \<noteq> 0 then type AND NOT ZEROPAD else type);
          (sign, num) = (if type AND SIGN \<noteq> 0
            then if num <s 0 then (45, - num)
                 else if type AND PLUS \<noteq> 0 then (43, num)
                 else if type AND SPACE \<noteq> 0 then (32, num) else (0, num)
            else (0, num));
          tmp = (if num = 0 then [48] else num_digits digits base num)
      in put_number end sign tmp sz precision type st)"

text \<open>The parts of a conversion specification.  Positions in the format are addresses; \<open>flags_loop\<close> also skips the \<open>%\<close>.\<close>

definition isdigit :: "u8 \<Rightarrow> bool" where
  "isdigit c \<longleftrightarrow> c - 48 < 10"

partial_function (option) flags_loop :: "bytes \<Rightarrow> ptr \<Rightarrow> u8 \<Rightarrow> (ptr \<times> u8) option" where
  "flags_loop m fmt flags =
     (let fmt = fmt + 1 in
      if m fmt = 45 then flags_loop m fmt (flags OR LEFT)
      else if m fmt = 43 then flags_loop m fmt (flags OR PLUS)
      else if m fmt = 32 then flags_loop m fmt (flags OR SPACE)
      else if m fmt = 35 then flags_loop m fmt (flags OR SPECIAL)
      else if m fmt = 48 then flags_loop m fmt (flags OR ZEROPAD)
      else Some (fmt, flags))"

partial_function (option) skip_atoi :: "bytes \<Rightarrow> ptr \<Rightarrow> int \<Rightarrow> (ptr \<times> int) option" where
  "skip_atoi m s i =
     (if isdigit (m s)
      then let i = i * 10 + uint (m s) - 48 in if i < 2 ^ 31 then skip_atoi m (s + 1) i else None
      else Some (s, i))"

fun va_arg :: "u32 list \<Rightarrow> (u32 \<times> u32 list) option" where
  "va_arg [] = None"
| "va_arg (a # args) = Some (a, args)"

definition get_width :: "bytes \<Rightarrow> ptr \<Rightarrow> u8 \<Rightarrow> u32 list \<Rightarrow> (ptr \<times> u8 \<times> int \<times> u32 list) option" where
  "get_width m fmt flags args =
     (if isdigit (m fmt) then do { (fmt, w) \<leftarrow> skip_atoi m fmt 0; Some (fmt, flags, w, args) }
      else if m fmt = 42
      then do {
        (a, args) \<leftarrow> va_arg args;
        if sint a < 0
        then if a = 0x80000000 then None else Some (fmt + 1, flags OR LEFT, - sint a, args)
        else Some (fmt + 1, flags, sint a, args)
      }
      else Some (fmt, flags, - 1, args))"

definition get_precision :: "bytes \<Rightarrow> ptr \<Rightarrow> u32 list \<Rightarrow> (ptr \<times> int \<times> u32 list) option" where
  "get_precision m fmt args =
     (if m fmt = 46
      then do {
        let fmt = fmt + 1;
        (fmt, p, args) \<leftarrow>
          (if isdigit (m fmt) then do { (fmt, p) \<leftarrow> skip_atoi m fmt 0; Some (fmt, p, args) }
           else if m fmt = 42 then do { (a, args) \<leftarrow> va_arg args; Some (fmt + 1, sint a, args) }
           else Some (fmt, - 1, args));
        Some (fmt, if p < 0 then 0 else p, args)
      }
      else Some (fmt, - 1, args))"

definition get_qualifier :: "bytes \<Rightarrow> ptr \<Rightarrow> ptr \<times> u8" where
  "get_qualifier m fmt = (if m fmt = 104 \<or> m fmt = 108 then (fmt + 1, m fmt) else (fmt, 0))"

text \<open>\<open>while (--field_width > 0) ...\<close> of \<open>%c\<close>, and \<open>while (len < field_width--) ...\<close> of \<open>%s\<close>.\<close>

function pad_char :: "ptr \<Rightarrow> int \<Rightarrow> out \<Rightarrow> int \<times> out" where
  "pad_char end w st = (if w - 1 > 0 then pad_char end (w - 1) (emit end 32 st) else (w - 1, st))"
  by auto
termination by (relation "measure (\<lambda>(_, w, _). nat w)") auto

function pad_str :: "ptr \<Rightarrow> int \<Rightarrow> int \<Rightarrow> out \<Rightarrow> int \<times> out" where
  "pad_str end len w st = (if len < w then pad_str end len (w - 1) (emit end 32 st) else (w - 1, st))"
  by auto
termination by (relation "measure (\<lambda>(_, len, w, _). nat (w - len))") auto

definition convert_char :: "ptr \<Rightarrow> u8 \<Rightarrow> int \<Rightarrow> u32 list \<Rightarrow> out \<Rightarrow> (u32 list \<times> out) option" where
  "convert_char end flags w args st = do {
     let (w, st) = (if flags AND LEFT = 0 then pad_char end w st else (w, st));
     (a, args) \<leftarrow> va_arg args;
     Some (args, snd (pad_char end w (emit end (ucast a) st)))
   }"

text \<open>\<open>"(NULL)"\<close>; a string is read byte by byte while the buffer is written.\<close>

definition null_text :: "u8 list" where
  "null_text = [40, 78, 85, 76, 76, 41]"

fun put_str :: "ptr \<Rightarrow> ptr \<Rightarrow> nat \<Rightarrow> nat \<Rightarrow> out \<Rightarrow> out" where
  "put_str end s i 0 st = st"
| "put_str end s i (Suc n) st =
     put_str end s (Suc i) n (emit end (if s = RT_NULL then null_text ! i else snd st (s + of_nat i)) st)"

definition convert_str :: "ptr \<Rightarrow> u8 \<Rightarrow> int \<Rightarrow> int \<Rightarrow> u32 list \<Rightarrow> out \<Rightarrow> (u32 list \<times> out) option" where
  "convert_str end flags w precision args st = do {
     (s, args) \<leftarrow> va_arg args;
     n \<leftarrow> (if s = RT_NULL then Some 6 else rt_strlen (snd st) s);
     let len = sint n;
     let len = (if precision > 0 \<and> len > precision then precision else len);
     let (w, st) = (if flags AND LEFT = 0 then pad_str end len w st else (w, st));
     let st = put_str end s 0 (nat len) st;
     Some (args, snd (pad_str end len w st))
   }"

text \<open>The integer argument: 16 bits after \<open>h\<close>, sign-extended for \<open>%d\<close>.\<close>

definition int_arg :: "u8 \<Rightarrow> u8 \<Rightarrow> u32 \<Rightarrow> u32" where
  "int_arg qualifier flags a =
     (if qualifier = 104
      then let num = (ucast a :: u16) in if flags AND SIGN \<noteq> 0 then scast num else ucast num
      else a)"

type_synonym flt_fn = "ptr \<Rightarrow> int \<Rightarrow> int \<Rightarrow> u8 \<Rightarrow> u8 \<Rightarrow> u32 list \<Rightarrow> out \<Rightarrow> (u32 list \<times> out) option"

text \<open>The \<open>switch\<close> over the conversion at \<open>fmt\<close>; the result is the position the \<open>for\<close> loop goes on behind.\<close>

definition convert ::
  "flt_fn \<Rightarrow> ptr \<Rightarrow> ptr \<Rightarrow> u8 \<Rightarrow> int \<Rightarrow> int \<Rightarrow> u8 \<Rightarrow> u32 list \<Rightarrow> out \<Rightarrow> (ptr \<times> u32 list \<times> out) option" where
  "convert flt end fmt flags w precision qualifier args st =
     (let c = snd st fmt;
          number = (\<lambda>base flags. do {
            (a, args) \<leftarrow> va_arg args;
            Some (fmt, args, print_number end (int_arg qualifier flags a) base w precision flags st) })
      in if c = 99 then do { (args, st) \<leftarrow> convert_char end flags w args st; Some (fmt, args, st) }
         else if c = 115 then do { (args, st) \<leftarrow> convert_str end flags w precision args st; Some (fmt, args, st) }
         else if c = 112 then do {
           let (w, flags) = (if w = - 1 then (8, flags OR ZEROPAD) else (w, flags));
           (a, args) \<leftarrow> va_arg args;
           Some (fmt, args, print_number end a 16 w precision flags st) }
         else if c = 37 then Some (fmt, args, emit end 37 st)
         else if c = 111 then number 8 flags
         else if c = 88 then number 16 (flags OR LARGE)
         else if c = 120 then number 16 flags
         else if c = 100 \<or> c = 105 then number 10 (flags OR SIGN)
         else if c = 117 then number 10 flags
         else if c \<in> {69, 71, 101, 102, 103} then do {
           (args, st) \<leftarrow> flt end w precision c (flags OR SIGN) args st; Some (fmt, args, st) }
         else let st = emit end 37 st in
           if c \<noteq> 0 then Some (fmt, args, emit end c st) else Some (fmt - 1, args, st))"

partial_function (option) vsn_loop :: "flt_fn \<Rightarrow> ptr \<Rightarrow> ptr \<Rightarrow> u32 list \<Rightarrow> out \<Rightarrow> out option" where
  "vsn_loop flt end fmt args st =
     (if snd st fmt = 0 then Some st
      else if snd st fmt \<noteq> 37 then vsn_loop flt end (fmt + 1) args (emit end (snd st fmt) st)
      else Option.bind (flags_loop (snd st) fmt 0) (\<lambda>(fmt, flags).
           Option.bind (get_width (snd st) fmt flags args) (\<lambda>(fmt, flags, w, args).
           Option.bind (get_precision (snd st) fmt args) (\<lambda>(fmt, precision, args).
           let (fmt, qualifier) = get_qualifier (snd st) fmt in
           Option.bind (convert flt end fmt flags w precision qualifier args st) (\<lambda>(fmt, args, st).
           vsn_loop flt end (fmt + 1) args st)))))"

definition rt_vsnprintf :: "flt_fn \<Rightarrow> ptr \<Rightarrow> rt_size_t \<Rightarrow> ptr \<Rightarrow> u32 list \<Rightarrow> bytes \<Rightarrow> (rt_int32_t \<times> bytes) option" where
  "rt_vsnprintf flt buf sz fmt args m =
     (let end = buf + sz - 1;
          end = (if end < buf then - 1 else end)
      in do {
        (str, m) \<leftarrow> vsn_loop flt end fmt args (buf, m);
        Some (str - buf, if str \<le> end then m(str := 0) else m(end := 0))
      })"

definition rt_snprintf :: "flt_fn \<Rightarrow> ptr \<Rightarrow> rt_size_t \<Rightarrow> ptr \<Rightarrow> u32 list \<Rightarrow> bytes \<Rightarrow> (rt_int32_t \<times> bytes) option" where
  "rt_snprintf flt buf sz fmt args m = rt_vsnprintf flt buf sz fmt args m"

definition rt_vsprintf :: "flt_fn \<Rightarrow> ptr \<Rightarrow> ptr \<Rightarrow> u32 list \<Rightarrow> bytes \<Rightarrow> (rt_int32_t \<times> bytes) option" where
  "rt_vsprintf flt buf format args m = rt_vsnprintf flt buf (- 1) format args m"

definition rt_sprintf :: "flt_fn \<Rightarrow> ptr \<Rightarrow> ptr \<Rightarrow> u32 list \<Rightarrow> bytes \<Rightarrow> (rt_int32_t \<times> bytes) option" where
  "rt_sprintf flt buf format args m = rt_vsprintf flt buf format args m"

section \<open>The text of a format\<close>

text \<open>A number: sign, padding, digits.  A sign that falls behind the end of the buffer is not counted (\<open>counted\<close>), so the padding
  behind it is one too long.\<close>

definition sign_and_value :: "u8 \<Rightarrow> u32 \<Rightarrow> u8 list \<times> u32" where
  "sign_and_value flags num =
     (if flags AND SIGN = 0 then ([], num)
      else if num <s 0 then ([45], - num)
      else if flags AND PLUS \<noteq> 0 then ([43], num)
      else if flags AND SPACE \<noteq> 0 then ([32], num) else ([], num))"

definition digits_text :: "u32 \<Rightarrow> u8 \<Rightarrow> u32 \<Rightarrow> u8 list" where
  "digits_text base flags num =
     (if num = 0 then [48] else rev (num_digits (if flags AND LARGE \<noteq> 0 then large_digits else small_digits) base num))"

definition number_text :: "bool \<Rightarrow> u32 \<Rightarrow> u32 \<Rightarrow> int \<Rightarrow> int \<Rightarrow> u8 \<Rightarrow> u8 list" where
  "number_text counted num base w precision flags =
     (let (sign, value) = sign_and_value flags num;
          ds = digits_text base flags value;
          body = replicate (nat precision - length ds) 48 @ ds;
          room = w - int (length body)
      in if flags AND LEFT \<noteq> 0
         then sign @ body @ replicate (nat (if counted then room - int (length sign) else room)) 32
         else if flags AND ZEROPAD \<noteq> 0
         then sign @ replicate (nat (if counted then room - int (length sign) else room)) 48 @ body
         else replicate (nat (room - int (length sign))) 32 @ sign @ body)"

text \<open>The parts of a conversion specification, on lists.\<close>

definition flag_bit :: "u8 \<Rightarrow> u8 option" where
  "flag_bit c = (if c = 45 then Some LEFT else if c = 43 then Some PLUS else if c = 32 then Some SPACE
     else if c = 35 then Some SPECIAL else if c = 48 then Some ZEROPAD else None)"

fun parse_flags :: "u8 list \<Rightarrow> u8 \<Rightarrow> u8 \<times> u8 list" where
  "parse_flags [] f = (f, [])"
| "parse_flags (c # cs) f = (case flag_bit c of Some b \<Rightarrow> parse_flags cs (f OR b) | None \<Rightarrow> (f, c # cs))"

fun parse_num :: "u8 list \<Rightarrow> int \<Rightarrow> (int \<times> u8 list) option" where
  "parse_num [] i = Some (i, [])"
| "parse_num (c # cs) i =
     (if isdigit c then let i = i * 10 + uint c - 48 in if i < 2 ^ 31 then parse_num cs i else None
      else Some (i, c # cs))"

definition first :: "u8 list \<Rightarrow> u8" where
  "first cs = (case cs of [] \<Rightarrow> 0 | c # _ \<Rightarrow> c)"

definition parse_width :: "u8 list \<Rightarrow> u8 \<Rightarrow> u32 list \<Rightarrow> (u8 \<times> int \<times> u32 list \<times> u8 list) option" where
  "parse_width cs f args =
     (if isdigit (first cs) then do { (w, cs) \<leftarrow> parse_num cs 0; Some (f, w, args, cs) }
      else if first cs = 42
      then do {
        (a, args) \<leftarrow> va_arg args;
        if a = 0x80000000 then None
        else Some (if sint a < 0 then f OR LEFT else f, \<bar>sint a\<bar>, args, tl cs)
      }
      else Some (f, - 1, args, cs))"

definition parse_precision :: "u8 list \<Rightarrow> u32 list \<Rightarrow> (int \<times> u32 list \<times> u8 list) option" where
  "parse_precision cs args =
     (if first cs = 46
      then let cs = tl cs in
        if isdigit (first cs) then do { (p, cs) \<leftarrow> parse_num cs 0; Some (p, args, cs) }
        else if first cs = 42 then do { (a, args) \<leftarrow> va_arg args; Some (max 0 (sint a), args, tl cs) }
        else Some (0, args, cs)
      else Some (- 1, args, cs))"

definition parse_qualifier :: "u8 list \<Rightarrow> u8 \<times> u8 list" where
  "parse_qualifier cs = (if first cs = 104 \<or> first cs = 108 then (first cs, tl cs) else (0, cs))"

text \<open>The text of one conversion; \<open>S\<close> gives the strings behind the pointers and \<open>k\<close> says how many bytes fit.\<close>

definition char_text :: "u8 \<Rightarrow> int \<Rightarrow> u32 \<Rightarrow> u8 list" where
  "char_text flags w a = (let blanks = replicate (nat (w - 1)) 32 in if flags AND LEFT = 0 then blanks @ [ucast a] else ucast a # blanks)"

definition str_text :: "u8 \<Rightarrow> int \<Rightarrow> int \<Rightarrow> u8 list \<Rightarrow> u8 list" where
  "str_text flags w precision t =
     (let t = (if precision > 0 then take (nat precision) t else t); blanks = replicate (nat (w - int (length t))) 32
      in if flags AND LEFT = 0 then blanks @ t else t @ blanks)"

definition string_arg :: "(ptr \<rightharpoonup> u8 list) \<Rightarrow> ptr \<Rightarrow> u8 list option" where
  "string_arg S s = (if s = RT_NULL then Some null_text else S s)"

definition conv_text ::
  "(ptr \<rightharpoonup> u8 list) \<Rightarrow> nat \<Rightarrow> u8 \<Rightarrow> int \<Rightarrow> int \<Rightarrow> u8 \<Rightarrow> u32 list \<Rightarrow> u8 \<Rightarrow> (u8 list \<times> u32 list) option" where
  "conv_text S k f w p q args c =
     (let number = (\<lambda>base f. do { (a, args) \<leftarrow> va_arg args; Some (number_text (0 < k) (int_arg q f a) base w p f, args) })
      in if c = 99 then do { (a, args) \<leftarrow> va_arg args; Some (char_text f w a, args) }
         else if c = 115 then do { (a, args) \<leftarrow> va_arg args; t \<leftarrow> string_arg S a; Some (str_text f w p t, args) }
         else if c = 112 then do {
           (a, args) \<leftarrow> va_arg args;
           Some (if w = - 1 then number_text (0 < k) a 16 8 p (f OR ZEROPAD) else number_text (0 < k) a 16 w p f, args) }
         else if c = 37 then Some ([37], args)
         else if c = 111 then number 8 f
         else if c = 88 then number 16 (f OR LARGE)
         else if c = 120 then number 16 f
         else if c = 100 \<or> c = 105 then number 10 (f OR SIGN)
         else if c = 117 then number 10 f
         else if c \<in> {69, 71, 101, 102, 103} then None
         else Some (if c = 0 then [37] else [37, c], args))"

lemma parse_flags_length: "length (snd (parse_flags cs f)) \<le> length cs"
  by (induction cs f rule: parse_flags.induct) (auto split: option.split)

lemma parse_num_length: "parse_num cs i = Some (n, cs') \<Longrightarrow> length cs' \<le> length cs"
  by (induction cs i rule: parse_num.induct) (auto split: if_splits simp: Let_def)

lemma va_arg_eq_Some: "va_arg args = Some (a, args') \<longleftrightarrow> args = a # args'"
  by (cases args) auto

lemma parse_width_length:
  assumes "parse_width cs f args = Some (f', w, args', cs')"
  shows "length cs' \<le> length cs"
proof (cases "isdigit (first cs)")
  case True
  then show ?thesis using assms by (auto simp: parse_width_def bind_eq_Some_conv dest: parse_num_length)
next
  case False
  then have "cs' = cs \<or> cs' = tl cs"
    using assms unfolding parse_width_def by (cases args) (simp_all split: if_splits)
  then show ?thesis by auto
qed

lemma parse_precision_length: "parse_precision cs args = Some (p, args', cs') \<Longrightarrow> length cs' \<le> length cs"
  by (fastforce simp: parse_precision_def bind_eq_Some_conv Let_def split: if_splits dest: parse_num_length)

lemma parse_qualifier_length: "length (snd (parse_qualifier cs)) \<le> length cs"
  by (simp add: parse_qualifier_def)

text \<open>A whole specification behind its \<open>%\<close>: its text, and what remains of the arguments and of the format.\<close>

definition spec_text ::
  "(ptr \<rightharpoonup> u8 list) \<Rightarrow> nat \<Rightarrow> u8 list \<Rightarrow> u32 list \<Rightarrow> (u8 list \<times> u32 list \<times> u8 list) option" where
  "spec_text S k cs args = do {
     let (f, cs) = parse_flags cs 0;
     (f, w, args, cs) \<leftarrow> parse_width cs f args;
     (p, args, cs) \<leftarrow> parse_precision cs args;
     let (q, cs) = parse_qualifier cs;
     (t, args) \<leftarrow> conv_text S k f w p q args (first cs);
     Some (t, args, tl cs)
   }"

lemma spec_text_cases:
  assumes "spec_text S k cs args = Some (t, args', cs')"
  obtains f cs1 f2 w args2 cs2 p args3 cs3 q cs4 where "parse_flags cs 0 = (f, cs1)" "parse_width cs1 f args = Some (f2, w, args2, cs2)"
    "parse_precision cs2 args2 = Some (p, args3, cs3)" "parse_qualifier cs3 = (q, cs4)"
    "conv_text S k f2 w p q args3 (first cs4) = Some (t, args')" "cs' = tl cs4"
proof -
  obtain f cs1 where 1: "parse_flags cs 0 = (f, cs1)" by force
  then obtain f2 w args2 cs2 p args3 cs3 where 2: "parse_width cs1 f args = Some (f2, w, args2, cs2)"
    "parse_precision cs2 args2 = Some (p, args3, cs3)"
    using assms by (auto simp: spec_text_def bind_eq_Some_conv)
  moreover obtain q cs4 where 3: "parse_qualifier cs3 = (q, cs4)" by force
  ultimately show thesis using assms 1 that by (auto simp: spec_text_def bind_eq_Some_conv)
qed

lemma spec_text_length: "spec_text S k cs args = Some (t, args', cs') \<Longrightarrow> length cs' \<le> length cs"
proof (erule spec_text_cases)
  fix f cs1 f2 w args2 cs2 p args3 cs3 q cs4
  assume "parse_flags cs 0 = (f, cs1)" "parse_width cs1 f args = Some (f2, w, args2, cs2)"
    "parse_precision cs2 args2 = Some (p, args3, cs3)" "parse_qualifier cs3 = (q, cs4)" "cs' = tl cs4"
  then show "length cs' \<le> length cs"
    using parse_flags_length [of cs 0] parse_width_length [of cs1 f args] parse_precision_length [of cs2 args2]
      parse_qualifier_length [of cs3] by fastforce
qed

function render :: "(ptr \<rightharpoonup> u8 list) \<Rightarrow> nat \<Rightarrow> u8 list \<Rightarrow> u32 list \<Rightarrow> u8 list option" where
  "render S k [] args = Some []"
| "render S k (c # cs) args =
     (if c \<noteq> 37 then map_option (Cons c) (render S (k - 1) cs args)
      else case spec_text S k cs args of
        None \<Rightarrow> None
      | Some (t, args, cs) \<Rightarrow> map_option ((@) t) (render S (k - length t) cs args))"
  by pat_completeness auto
termination by (relation "measure (\<lambda>(_, _, cs, _). length cs)") (auto dest: spec_text_length simp: less_Suc_eq_le)

section \<open>What the loops print\<close>

lemma pad_eq: "pad end c sz st = (if sz > 0 then - 1 else sz - 1, fold (emit end) (replicate (nat sz) c) st)"
proof (induction "end" c sz st rule: pad.induct)
  case (1 e c sz st)
  show ?case
  proof (cases "sz > 0")
    case True
    then have "nat sz = Suc (nat (sz - 1))" by simp
    then show ?thesis using True 1 by (subst pad.simps) auto
  qed simp
qed

lemma zeros_eq: "zeros end i p st = fold (emit end) (replicate (nat (p - i)) 48) st"
proof (induction "end" i p st rule: zeros.induct)
  case (1 e i p st)
  show ?case
  proof (cases "i < p")
    case True
    then have "nat (p - i) = Suc (nat (p - 1 - i))" by simp
    then show ?thesis using True 1 by (subst zeros.simps) auto
  qed simp
qed

lemma put_tmp_eq: "i \<le> length tmp \<Longrightarrow> put_tmp end tmp i st = fold (emit end) (rev (take i tmp)) st"
  by (induction i arbitrary: st) (auto simp: take_Suc_conv_app_nth)

lemma pad_char_eq: "pad_char end w st = (if w > 1 then 0 else w - 1, fold (emit end) (replicate (nat (w - 1)) 32) st)"
proof (induction "end" w st rule: pad_char.induct)
  case (1 e w st)
  show ?case
  proof (cases "w > 1")
    case True
    then have "nat (w - 1) = Suc (nat (w - 1 - 1))" by simp
    then show ?thesis using True 1 by (subst pad_char.simps) auto
  qed simp
qed

lemma pad_str_eq:
  "pad_str end len w st = (if len < w then len - 1 else w - 1, fold (emit end) (replicate (nat (w - len)) 32) st)"
proof (induction "end" len w st rule: pad_str.induct)
  case (1 e len w st)
  show ?case
  proof (cases "len < w")
    case True
    then have "nat (w - len) = Suc (nat (w - 1 - len))" by simp
    then show ?thesis using True 1 by (subst pad_str.simps) auto
  qed simp
qed

declare pad.simps [simp del] zeros.simps [simp del] pad_char.simps [simp del] pad_str.simps [simp del] num_digits.simps [simp del]

lemma flags_without_zeropad:
  fixes f :: u8
  shows "(f AND NOT 1) AND 16 = f AND 16" "(f AND NOT 1) AND 1 = 0" "(f AND NOT 1) AND 2 = f AND 2" "(f AND NOT 1) AND 4 = f AND 4"
    "(f AND NOT 1) AND 8 = f AND 8" "f AND 17 = 0 \<longleftrightarrow> f AND 16 = 0 \<and> f AND 1 = 0"
proof -
  have "f AND 17 = (f AND 16) OR (f AND 1)"
    unfolding bit.conj_disj_distrib [symmetric] by simp
  then show "f AND 17 = 0 \<longleftrightarrow> f AND 16 = 0 \<and> f AND 1 = 0" by (simp add: or_eq_0_iff)
qed (simp_all add: and.assoc)

lemma sign_and_value_code:
  fixes type :: u8
  assumes "type AND 2 = flags AND 2" "type AND 4 = flags AND 4" "type AND 8 = flags AND 8"
  shows "(if type AND SIGN \<noteq> 0
    then if num <s 0 then (45, - num) else if type AND PLUS \<noteq> 0 then (43, num) else if type AND SPACE \<noteq> 0 then (32, num) else (0, num)
    else (0, num)) = (first (fst (sign_and_value flags num)), snd (sign_and_value flags num))"
  using assms by (simp add: sign_and_value_def first_def)

lemma sign_shape: "fst (sign_and_value flags num) = [] \<or> (\<exists>c. fst (sign_and_value flags num) = [c] \<and> c \<noteq> 0)"
  by (simp add: sign_and_value_def)

lemma print_number_eq:
  "print_number end num base s precision flags st =
     (let (sign, v) = sign_and_value flags num
      in put_number end (first sign) (rev (digits_text base flags v)) s precision
        (if flags AND LEFT \<noteq> 0 then flags AND NOT ZEROPAD else flags) st)"
proof -
  let ?t = "if flags AND LEFT \<noteq> 0 then flags AND NOT ZEROPAD else flags"
  have t: "?t AND 2 = flags AND 2" "?t AND 4 = flags AND 4" "?t AND 8 = flags AND 8"
    by (cases "flags AND 16 = 0"; simp add: and.assoc)+
  show ?thesis
    unfolding print_number_def Let_def sign_and_value_code [OF t] digits_text_def by (simp add: case_prod_beta)
qed

definition number_body :: "int \<Rightarrow> u8 list \<Rightarrow> u8 list" where
  "number_body precision ds = replicate (nat precision - length ds) 48 @ ds"

lemma number_body_length: "(if int (length ds) > precision then int (length ds) else precision) = int (length (number_body precision ds))"
  by (auto simp: number_body_def)

lemma put_number_emits:
  assumes sign: "sign = [] \<or> (\<exists>c. sign = [c] \<and> c \<noteq> 0)"
  shows "type AND LEFT \<noteq> 0 \<Longrightarrow> type AND ZEROPAD = 0 \<Longrightarrow> put_number end (first sign) (rev ds) w precision type st = fold (emit end)
      (sign @ number_body precision ds @ replicate (nat (if fst st \<le> end then w - int (length (number_body precision ds)) - int (length sign)
        else w - int (length (number_body precision ds)))) 32) st"
    "type AND LEFT = 0 \<Longrightarrow> type AND ZEROPAD \<noteq> 0 \<Longrightarrow> put_number end (first sign) (rev ds) w precision type st = fold (emit end)
      (sign @ replicate (nat (if fst st \<le> end then w - int (length (number_body precision ds)) - int (length sign)
        else w - int (length (number_body precision ds)))) 48 @ number_body precision ds) st"
    "type AND LEFT = 0 \<Longrightarrow> type AND ZEROPAD = 0 \<Longrightarrow> put_number end (first sign) (rev ds) w precision type st = fold (emit end)
      (replicate (nat (w - int (length (number_body precision ds)) - int (length sign))) 32 @ sign @ number_body precision ds) st"
proof -
  let ?n = "int (length (number_body precision ds))"
  have body: "put_tmp end (rev ds) (length ds) (zeros end (int (length ds)) ?n st) = fold (emit end) (number_body precision ds) st" for st
  proof -
    have "nat (?n - int (length ds)) = nat precision - length ds" by (simp add: number_body_def)
    then show ?thesis by (simp add: zeros_eq put_tmp_eq number_body_def)
  qed
  note defs = put_number_def Let_def length_rev number_body_length flags_without_zeropad(6)
  show "put_number end (first sign) (rev ds) w precision type st = fold (emit end)
      (sign @ number_body precision ds @ replicate (nat (if fst st \<le> end then w - ?n - int (length sign) else w - ?n)) 32) st"
    if "type AND LEFT \<noteq> 0" "type AND ZEROPAD = 0"
    using that sign by (auto simp: first_def defs body pad_eq)
  show "put_number end (first sign) (rev ds) w precision type st = fold (emit end)
      (sign @ replicate (nat (if fst st \<le> end then w - ?n - int (length sign) else w - ?n)) 48 @ number_body precision ds) st"
    if "type AND LEFT = 0" "type AND ZEROPAD \<noteq> 0"
    using that sign by (auto simp: first_def defs body pad_eq)
  show "put_number end (first sign) (rev ds) w precision type st = fold (emit end)
      (replicate (nat (w - ?n - int (length sign))) 32 @ sign @ number_body precision ds) st"
    if "type AND LEFT = 0" "type AND ZEROPAD = 0"
    using that sign by (auto simp: first_def defs body pad_eq)
qed

lemma print_number_emits:
  "print_number end num base s precision flags st = fold (emit end) (number_text (fst st \<le> end) num base s precision flags) st"
proof -
  obtain sign v where sv: "sign_and_value flags num = (sign, v)" by force
  have sh: "sign = [] \<or> (\<exists>c. sign = [c] \<and> c \<noteq> 0)" using sign_shape [of flags num] sv by simp
  note p = put_number_emits [OF sh, where ds = "digits_text base flags v" and w = s and precision = precision and st = st]
  note n = number_text_def sv number_body_def [symmetric] Let_def
  show ?thesis
  proof (cases "flags AND LEFT = 0")
    case True
    then show ?thesis using p(2,3) [of flags] unfolding print_number_eq by (cases "flags AND ZEROPAD = 0") (simp_all add: n)
  next
    case False
    moreover have "(flags AND NOT 1) AND 16 \<noteq> 0" "(flags AND NOT 1) AND 1 = 0" using False flags_without_zeropad(1,2) [of flags] by metis+
    ultimately show ?thesis using p(1) [of "flags AND NOT ZEROPAD"] unfolding print_number_eq by (simp add: n)
  qed
qed

section \<open>Memory\<close>

text \<open>A string in memory, NUL included, outside of the area \<open>B\<close> that is written.\<close>

fun cstring :: "ptr set \<Rightarrow> bytes \<Rightarrow> ptr \<Rightarrow> u8 list \<Rightarrow> bool" where
  "cstring B m p [] \<longleftrightarrow> m p = 0 \<and> p \<notin> B"
| "cstring B m p (c # cs) \<longleftrightarrow> m p = c \<and> c \<noteq> 0 \<and> p \<notin> B \<and> cstring B m (p + 1) cs"

lemma cstring_cong: "(\<And>a. a \<notin> B \<Longrightarrow> m' a = m a) \<Longrightarrow> cstring B m' p cs = cstring B m p cs"
  by (induction cs arbitrary: p) auto

lemma cstring_first: "cstring B m p cs \<Longrightarrow> m p = first cs"
  by (cases cs) (simp_all add: first_def)

lemma cstring_tl: "cstring B m p cs \<Longrightarrow> first cs \<noteq> 0 \<Longrightarrow> cstring B m (p + 1) (tl cs)"
  by (cases cs) (simp_all add: first_def)

lemma cstring_nth: "cstring B m p cs \<Longrightarrow> i < length cs \<Longrightarrow> m (p + of_nat i) = cs ! i"
proof (induction cs arbitrary: p i)
  case (Cons c cs)
  show ?case
  proof (cases i)
    case (Suc j)
    have "p + of_nat (Suc j) = (p + 1) + of_nat j" by simp
    then show ?thesis using Cons.IH [of "p + 1" j] Cons.prems Suc by (simp add: add.assoc)
  qed (use Cons.prems in simp)
qed simp

lemma strlen_scan_eq: "cstring B m p cs \<Longrightarrow> strlen_scan m p = Some (p + of_nat (length cs))"
proof (induction cs arbitrary: p)
  case Nil
  then show ?case by (subst strlen_scan.simps) simp
next
  case (Cons c cs)
  then show ?case by (subst strlen_scan.simps) (simp add: algebra_simps)
qed

lemma rt_strlen_eq: "cstring B m p cs \<Longrightarrow> rt_strlen m p = Some (of_nat (length cs))"
  by (simp add: rt_strlen_def strlen_scan_eq)

text \<open>What a sequence of \<open>emit\<close> does.\<close>

lemma fst_emits: "fst (fold (emit end) xs st) = fst st + of_nat (length xs)"
  by (induction xs arbitrary: st) (simp_all add: emit_def algebra_simps)

lemma snd_emits:
  assumes "unat str + length xs < 2 ^ 32"
  shows "snd (fold (emit end) xs (str, m)) =
    (\<lambda>a. if unat str \<le> unat a \<and> unat a < unat str + length xs \<and> a \<le> end then xs ! (unat a - unat str) else m a)"
  using assms
proof (induction xs arbitrary: str m)
  case (Cons x xs)
  have s: "unat (str + 1) = unat str + 1" using Cons.prems by (simp add: unat_word_ariths)
  let ?m = "if str \<le> end then m(str := x) else m"
  have "snd (fold (emit end) (x # xs) (str, m)) = snd (fold (emit end) xs (str + 1, ?m))" by (simp add: emit_def)
  also have "\<dots> = (\<lambda>a. if unat (str + 1) \<le> unat a \<and> unat a < unat (str + 1) + length xs \<and> a \<le> end
      then xs ! (unat a - unat (str + 1)) else ?m a)"
    by (rule Cons.IH) (use Cons.prems s in simp)
  also have "\<dots> = (\<lambda>a. if unat str \<le> unat a \<and> unat a < unat str + length (x # xs) \<and> a \<le> end
      then (x # xs) ! (unat a - unat str) else m a)"
  proof
    fix a
    show "(if unat (str + 1) \<le> unat a \<and> unat a < unat (str + 1) + length xs \<and> a \<le> end
      then xs ! (unat a - unat (str + 1)) else ?m a) = (if unat str \<le> unat a \<and> unat a < unat str + length (x # xs) \<and> a \<le> end
      then (x # xs) ! (unat a - unat str) else m a)"
    proof (cases "a = str")
      case False
      then have "unat a \<noteq> unat str" by (simp add: word_unat_eq_iff)
      then have "unat str \<le> unat a \<longleftrightarrow> unat (str + 1) \<le> unat a" "unat str \<le> unat a \<Longrightarrow> unat a - unat str = Suc (unat a - unat (str + 1))"
        using s by auto
      then show ?thesis using s False by auto
    qed (use s in simp)
  qed
  finally show ?case .
qed (auto simp: fun_eq_iff)

lemma emits_outside:
  assumes "unat str + length xs < 2 ^ 32" "a \<notin> {b. str \<le> b \<and> b \<le> end}"
  shows "snd (fold (emit end) xs (str, m)) a = m a"
  using assms by (auto simp: snd_emits word_le_nat_alt)

lemma put_str_emits:
  assumes "\<forall>j < n. (if s = RT_NULL then null_text ! (i + j) else m (s + of_nat (i + j))) = t ! j"
    "s \<noteq> RT_NULL \<longrightarrow> (\<forall>j < n. s + of_nat (i + j) \<notin> {b. str \<le> b \<and> b \<le> end})" "n = length t" "unat str + n < 2 ^ 32"
  shows "put_str end s i n (str, m) = fold (emit end) t (str, m)"
  using assms
proof (induction n arbitrary: i str m t)
  case (Suc n)
  obtain x xs where t: "t = x # xs" "length xs = n" using Suc.prems(3) by (cases t) auto
  have x: "(if s = RT_NULL then null_text ! i else m (s + of_nat i)) = x" using Suc.prems(1) t by (auto dest!: spec [of _ 0])
  have u: "unat (str + 1) = unat str + 1" using Suc.prems(4) by (simp add: unat_word_ariths)
  then have le: "str \<le> str + 1" by (simp add: word_le_nat_alt)
  let ?m = "if str \<le> end then m(str := x) else m"
  have e: "emit end x (str, m) = (str + 1, ?m)" by (simp add: emit_def)
  have "put_str end s (Suc i) n (str + 1, ?m) = fold (emit end) xs (str + 1, ?m)"
  proof (rule Suc.IH)
    show "s \<noteq> RT_NULL \<longrightarrow> (\<forall>j < n. s + of_nat (Suc i + j) \<notin> {b. str + 1 \<le> b \<and> b \<le> end})"
    proof (intro impI allI)
      fix j assume "s \<noteq> RT_NULL" "j < n"
      then have "s + of_nat (i + Suc j) \<notin> {b. str \<le> b \<and> b \<le> end}" using Suc.prems(2) by (metis Suc_less_eq)
      then show "s + of_nat (Suc i + j) \<notin> {b. str + 1 \<le> b \<and> b \<le> end}" using le by (auto intro: order_trans)
    qed
    show "\<forall>j < n. (if s = RT_NULL then null_text ! (Suc i + j) else ?m (s + of_nat (Suc i + j))) = xs ! j"
    proof (intro allI impI)
      fix j assume j: "j < n"
      then have 1: "(if s = RT_NULL then null_text ! (i + Suc j) else m (s + of_nat (i + Suc j))) = xs ! j"
        using Suc.prems(1) [rule_format, of "Suc j"] t by simp
      have "s + of_nat (i + Suc j) \<noteq> str \<or> \<not> str \<le> end" if "s \<noteq> RT_NULL"
        using Suc.prems(2) that j by (metis (mono_tags, lifting) Suc_less_eq mem_Collect_eq order_refl)
      then show "(if s = RT_NULL then null_text ! (Suc i + j) else ?m (s + of_nat (Suc i + j))) = xs ! j"
        using 1 by (auto split: if_splits)
    qed
  qed (use t u Suc.prems(4) in simp_all)
  then show ?case unfolding put_str.simps snd_conv x t(1) by (simp add: e)
qed simp

section \<open>The code prints the text\<close>

text \<open>The strings behind the arguments, outside of the buffer.\<close>

definition strings_ok :: "ptr set \<Rightarrow> bytes \<Rightarrow> (ptr \<rightharpoonup> u8 list) \<Rightarrow> bool" where
  "strings_ok B m S \<longleftrightarrow> (\<forall>s t. S s = Some t \<longrightarrow> cstring B m s t \<and> length t < 2 ^ 31)"

lemma strings_ok_cong: "(\<And>a. a \<notin> B \<Longrightarrow> m' a = m a) \<Longrightarrow> strings_ok B m' S = strings_ok B m S"
  using cstring_cong [of B m' m] by (auto simp: strings_ok_def)

lemma cstring_outside: "cstring B m p cs \<Longrightarrow> i \<le> length cs \<Longrightarrow> p + of_nat i \<notin> B"
proof (induction cs arbitrary: p i)
  case (Cons c cs)
  show ?case
  proof (cases i)
    case (Suc j)
    have "p + of_nat (Suc j) = (p + 1) + of_nat j" by simp
    then show ?thesis using Cons.IH [of "p + 1" j] Cons.prems Suc by (simp add: add.assoc)
  qed (use Cons.prems in simp)
qed simp

lemma sint_of_nat_small: "n < 2 ^ 31 \<Longrightarrow> sint (of_nat n :: u32) = int n"
  by (simp add: signed_of_nat signed_take_bit_int_eq_self_iff)

lemma convert_str_sim:
  assumes s: "strings_ok B m S" "string_arg S a = Some t" and B: "B = {b. lo \<le> b \<and> b \<le> end}" "lo \<le> str"
    and n: "unat str + length (str_text f w p t) < 2 ^ 32"
  shows "convert_str end f w p (a # args) (str, m) = Some (args, fold (emit end) (str_text f w p t) (str, m))"
proof -
  have len: "(if a = RT_NULL then Some 6 else rt_strlen m a) = Some (of_nat (length t))" "length t < 2 ^ 31"
    using s rt_strlen_eq [of B m a t] by (auto simp: string_arg_def strings_ok_def null_text_def split: if_splits)
  define u where "u = (if p > 0 then take (nat p) t else t)"
  have ul: "(if p > 0 \<and> int (length t) > p then p else int (length t)) = int (length u)" by (auto simp: u_def)
  have nth: "u ! j = t ! j" "j < length t" if "j < length u" for j using that by (auto simp: u_def split: if_splits)
  have call: "convert_str end f w p (a # args) (str, m) =
      (let (w, st) = (if f AND LEFT = 0 then pad_str end (int (length u)) w (str, m) else (w, (str, m)))
       in Some (args, snd (pad_str end (int (length u)) w (put_str end a 0 (length u) st))))"
    unfolding convert_str_def va_arg.simps bind.bind_lunit prod.case snd_conv len(1) Let_def sint_of_nat_small [OF len(2)] ul nat_int
    by simp
  let ?bl = "replicate (nat (w - int (length u))) (32 :: u8)"
  have tx: "str_text f w p t = (if f AND LEFT = 0 then ?bl @ u else u @ ?bl)" by (simp add: str_text_def u_def Let_def)
  have put: "put_str end a 0 (length u) (str1, m1) = fold (emit end) u (str1, m1)"
    if "\<And>b. b \<notin> B \<Longrightarrow> m1 b = m b" "lo \<le> str1" "unat str1 + length u < 2 ^ 32" for str1 m1
  proof (rule put_str_emits)
    have out: "a + of_nat j \<notin> B \<and> m (a + of_nat j) = t ! j" if "a \<noteq> RT_NULL" "j < length u" for j
      using s that nth(2) [OF that(2)] cstring_outside [of B m a t j] cstring_nth [of B m a t j]
      by (auto simp: string_arg_def strings_ok_def)
    show "\<forall>j<length u. (if a = RT_NULL then null_text ! (0 + j) else m1 (a + of_nat (0 + j))) = u ! j"
      using out that(1) nth s(2) by (auto simp: string_arg_def)
    show "a \<noteq> RT_NULL \<longrightarrow> (\<forall>j<length u. a + of_nat (0 + j) \<notin> {b. str1 \<le> b \<and> b \<le> end})"
      using out that(2) by (fastforce simp: B(1) intro: order_trans)
  qed (use that in simp_all)
  show ?thesis
  proof (cases "f AND LEFT = 0")
    case True
    let ?st = "fold (emit end) ?bl (str, m)"
    have l: "unat str + length ?bl + length u < 2 ^ 32" using n True by (simp add: tx)
    then have u1: "unat (str + of_nat (length ?bl)) = unat str + length ?bl" by (simp add: unat_word_ariths unat_of_nat)
    have "put_str end a 0 (length u) (fst ?st, snd ?st) = fold (emit end) u (fst ?st, snd ?st)"
    proof (rule put)
      show "snd ?st b = m b" if "b \<notin> B" for b
        using emits_outside [of str ?bl b "end" m] l that B by (auto intro: order_trans)
      show "lo \<le> fst ?st" "unat (fst ?st) + length u < 2 ^ 32"
        using u1 l B(2) by (simp_all add: fst_emits word_le_nat_alt del: fold_replicate)
    qed
    then show ?thesis using True unfolding tx call by (simp add: pad_str_eq)
  next
    case False
    have "put_str end a 0 (length u) (str, m) = fold (emit end) u (str, m)"
      by (rule put) (use B n False in \<open>simp_all add: tx\<close>)
    then show ?thesis using False unfolding tx call by (simp add: pad_str_eq)
  qed
qed

lemma convert_char_sim: "convert_char end f w (a # args) st = Some (args, fold (emit end) (char_text f w a) st)"
  by (simp add: convert_char_def char_text_def pad_char_eq Let_def)

lemma flags_loop_sim:
  "cstring B m (p + 1) cs \<Longrightarrow>
     \<exists>p'. flags_loop m p f = Some (p', fst (parse_flags cs f)) \<and> cstring B m p' (snd (parse_flags cs f))"
proof (induction cs arbitrary: p f)
  case Nil
  then show ?case by (subst flags_loop.simps) (simp add: Let_def)
next
  case (Cons c cs)
  have m: "m (p + 1) = c" "c \<noteq> 0" "cstring B m (p + 1 + 1) cs" using Cons.prems by simp_all
  show ?case
  proof (cases "flag_bit c")
    case None
    then have "flags_loop m p f = Some (p + 1, f)"
      using m(1) by (subst flags_loop.simps) (simp add: Let_def flag_bit_def split: if_splits)
    then show ?thesis using None Cons.prems by auto
  next
    case (Some b)
    then have "flags_loop m p f = flags_loop m (p + 1) (f OR b)"
      using m(1) by (subst flags_loop.simps) (auto simp: Let_def flag_bit_def split: if_splits)
    then show ?thesis using Cons.IH [OF m(3), of "f OR b"] Some by auto
  qed
qed

lemma skip_atoi_sim:
  "cstring B m p cs \<Longrightarrow> parse_num cs i = Some (n, cs') \<Longrightarrow> \<exists>p'. skip_atoi m p i = Some (p', n) \<and> cstring B m p' cs'"
proof (induction cs arbitrary: p i)
  case Nil
  then show ?case by (subst skip_atoi.simps) (simp add: isdigit_def)
next
  case (Cons c cs)
  then have m: "m p = c" "cstring B m (p + 1) cs" by simp_all
  show ?case
  proof (cases "isdigit c")
    case True
    then have i: "i * 10 + uint c - 48 < 2 ^ 31" "parse_num cs (i * 10 + uint c - 48) = Some (n, cs')"
      using Cons.prems(2) by (simp_all add: Let_def split: if_splits)
    have "skip_atoi m p i = skip_atoi m (p + 1) (i * 10 + uint c - 48)"
      using True i(1) m(1) by (subst skip_atoi.simps) (simp add: Let_def)
    then show ?thesis using Cons.IH [OF m(2) i(2)] by simp
  next
    case False
    then show ?thesis using Cons.prems m(1) by (subst skip_atoi.simps) auto
  qed
qed

lemma isdigit_0 [simp]: "\<not> isdigit 0"
  by (simp add: isdigit_def)

lemma get_width_sim:
  assumes c: "cstring B m p cs" and w: "parse_width cs f args = Some (f', w, args', cs')"
  shows "\<exists>p'. get_width m p f args = Some (p', f', w, args') \<and> cstring B m p' cs'"
proof -
  note mp = cstring_first [OF c]
  consider "isdigit (first cs)" | "\<not> isdigit (first cs)" "first cs = 42" | "\<not> isdigit (first cs)" "first cs \<noteq> 42" by blast
  then show ?thesis
  proof cases
    case 1
    then obtain n where "parse_num cs 0 = Some (w, cs')" "f' = f" "args' = args" using w by (auto simp: parse_width_def bind_eq_Some_conv)
    then show ?thesis using skip_atoi_sim [OF c] 1 mp by (fastforce simp: get_width_def)
  next
    case 2
    then obtain a rest where args: "args = a # rest" using w by (cases args) (simp_all add: parse_width_def)
    with 2 w have "a \<noteq> 0x80000000"
      "Some (if sint a < 0 then f OR LEFT else f, \<bar>sint a\<bar>, rest, tl cs) = Some (f', w, args', cs')"
      unfolding parse_width_def by (simp_all split: if_split_asm)
    moreover from 2 mp args this(1) have "get_width m p f args = Some (p + 1, if sint a < 0 then f OR LEFT else f, \<bar>sint a\<bar>, rest)"
      by (simp add: get_width_def)
    moreover have "cstring B m (p + 1) (tl cs)" using cstring_tl [OF c] 2 by simp
    ultimately show ?thesis by simp
  next
    case 3
    then show ?thesis using w mp c by (auto simp: parse_width_def get_width_def)
  qed
qed

lemma isdigit_uint: "isdigit c \<Longrightarrow> 48 \<le> uint c"
proof (rule ccontr)
  assume d: "isdigit c" "\<not> 48 \<le> uint c"
  have "uint (c - 48) = (uint c - 48) mod 256" by (simp add: uint_word_ariths)
  also have "\<dots> = (uint c - 48 + 256) mod 256" by (simp only: mod_add_self2)
  also have "\<dots> = uint c + 208" using d(2) uint_ge_0 [of c] by (subst mod_pos_pos_trivial) auto
  finally show False using d(1) uint_ge_0 [of c] by (simp add: isdigit_def word_less_def)
qed

lemma parse_num_nonneg: "0 \<le> i \<Longrightarrow> parse_num cs i = Some (n, cs') \<Longrightarrow> 0 \<le> n"
proof (induction cs i rule: parse_num.induct)
  case (2 c cs i)
  then show ?case using isdigit_uint [of c] by (auto simp: Let_def split: if_splits)
qed simp

lemma get_precision_sim:
  assumes c: "cstring B m p cs" and w: "parse_precision cs args = Some (n, args', cs')"
  shows "\<exists>p'. get_precision m p args = Some (p', n, args') \<and> cstring B m p' cs'"
proof (cases "first cs = 46")
  case False
  then show ?thesis using w c cstring_first [OF c] by (simp add: parse_precision_def get_precision_def)
next
  case True
  then have c1: "cstring B m (p + 1) (tl cs)" using cstring_tl [OF c] by simp
  note mp = cstring_first [OF c] cstring_first [OF c1]
  consider "isdigit (first (tl cs))" | "\<not> isdigit (first (tl cs))" "first (tl cs) = 42"
    | "\<not> isdigit (first (tl cs))" "first (tl cs) \<noteq> 42" by blast
  then show ?thesis
  proof cases
    case 1
    then obtain k where n: "parse_num (tl cs) 0 = Some (n, cs')" "args' = args"
      using w True by (auto simp: parse_precision_def bind_eq_Some_conv)
    have "0 \<le> n" by (rule parse_num_nonneg [OF _ n(1)]) simp
    then show ?thesis using skip_atoi_sim [OF c1 n(1)] 1 mp True n(2) by (fastforce simp: get_precision_def)
  next
    case 2
    then obtain a rest where args: "args = a # rest" using w True by (cases args) (simp_all add: parse_precision_def)
    with 2 w True have "Some (max 0 (sint a), rest, tl (tl cs)) = Some (n, args', cs')"
      unfolding parse_precision_def by simp
    moreover from 2 mp args True have "get_precision m p args = Some (p + 1 + 1, max 0 (sint a), rest)"
      by (simp add: get_precision_def max_def)
    moreover have "cstring B m (p + 1 + 1) (tl (tl cs))" using cstring_tl [OF c1] 2 by simp
    ultimately show ?thesis by simp
  next
    case 3
    then show ?thesis using w mp c1 True by (auto simp: parse_precision_def get_precision_def)
  qed
qed

lemma get_qualifier_sim:
  assumes c: "cstring B m p cs"
  shows "snd (get_qualifier m p) = fst (parse_qualifier cs)" "cstring B m (fst (get_qualifier m p)) (snd (parse_qualifier cs))"
  using cstring_first [OF c] cstring_tl [OF c] c by (auto simp: get_qualifier_def parse_qualifier_def)

lemma convert_sim:
  assumes c: "cstring B m p cs" and t: "conv_text S k f w pr q args (first cs) = Some (t, args')"
    and s: "strings_ok B m S" and B: "B = {b. lo \<le> b \<and> b \<le> end}" "lo \<le> str"
    and n: "unat str + length t < 2 ^ 32" and k: "k = unat end + 1 - unat str"
  shows "convert flt end p f w pr q args (str, m) = Some (if cs = [] then p - 1 else p, args', fold (emit end) t (str, m))"
proof -
  note mp = cstring_first [OF c]
  have e: "first cs = 0 \<longleftrightarrow> cs = []" using c by (cases cs) (auto simp: first_def)
  have k0: "0 < k \<longleftrightarrow> str \<le> end" using k by (auto simp: word_le_nat_alt)
  have num: "print_number end x b w pr g (str, m) = fold (emit end) (number_text (0 < k) x b w pr g) (str, m)" for x b w g
    unfolding k0 using print_number_emits [of "end" x b w pr g "(str, m)"] by simp
  show ?thesis
  proof (cases "first cs = 115")
    case True
    then obtain a where "args = a # args'" "\<exists>u. string_arg S a = Some u \<and> t = str_text f w pr u"
      using t by (cases args) (auto simp: conv_text_def bind_eq_Some_conv)
    then show ?thesis
      using True e convert_str_sim [OF s _ B] n mp by (auto simp: convert_def)
  next
    case False
    note defs = convert_def conv_text_def mp num convert_char_sim
    from False consider (Char) "first cs = 99" | (Ptr) "first cs = 112" | (Percent) "first cs = 37" | (Oct) "first cs = 111"
      | (Large) "first cs = 88" | (Hex) "first cs = 120" | (Dec) "first cs = 100 \<or> first cs = 105" | (Unsigned) "first cs = 117"
      | (Other) "first cs \<notin> {99, 115, 112, 37, 111, 88, 120, 100, 105, 117}" by blast
    then show ?thesis
    proof cases
      case Ptr
      then show ?thesis using t e by (cases args; cases "w = - 1") (simp_all add: defs)
    next
      case Other
      then show ?thesis using t e by (auto simp: defs split: if_split_asm)
    qed (use t e in \<open>cases args; auto simp: defs\<close>)+
  qed
qed

lemma spec_sim:
  assumes c: "cstring B m p (37 # cs)" and t: "spec_text S k cs args = Some (t, args', cs')"
    and s: "strings_ok B m S" and B: "B = {b. lo \<le> b \<and> b \<le> end}" "lo \<le> str"
    and n: "unat str + length t < 2 ^ 32" and k: "k = unat end + 1 - unat str"
  shows "\<exists>p'. vsn_loop flt end p args (str, m) = vsn_loop flt end p' args' (fold (emit end) t (str, m)) \<and> cstring B m p' cs'"
  using t
proof (rule spec_text_cases)
  fix f cs1 f2 w args2 cs2 pr args3 cs3 q cs4
  assume 1: "parse_flags cs 0 = (f, cs1)" "parse_width cs1 f args = Some (f2, w, args2, cs2)"
    "parse_precision cs2 args2 = Some (pr, args3, cs3)" "parse_qualifier cs3 = (q, cs4)"
    "conv_text S k f2 w pr q args3 (first cs4) = Some (t, args')" "cs' = tl cs4"
  have c0: "cstring B m (p + 1) cs" "m p = 37" using c by simp_all
  obtain p1 where p1: "flags_loop m p 0 = Some (p1, f)" "cstring B m p1 cs1" using flags_loop_sim [OF c0(1), of 0] 1(1) by auto
  obtain p2 where p2: "get_width m p1 f args = Some (p2, f2, w, args2)" "cstring B m p2 cs2" using get_width_sim [OF p1(2) 1(2)] by auto
  obtain p3 where p3: "get_precision m p2 args2 = Some (p3, pr, args3)" "cstring B m p3 cs3" using get_precision_sim [OF p2(2) 1(3)] by auto
  obtain p4 where p4: "get_qualifier m p3 = (p4, q)" "cstring B m p4 cs4"
    using get_qualifier_sim [OF p3(2)] 1(4) by (cases "get_qualifier m p3") auto
  let ?p = "if cs4 = [] then p4 - 1 else p4"
  have "convert flt end p4 f2 w pr q args3 (str, m) = Some (?p, args', fold (emit end) t (str, m))"
    by (rule convert_sim [OF p4(2) 1(5) s B n k])
  then have "vsn_loop flt end p args (str, m) = vsn_loop flt end (?p + 1) args' (fold (emit end) t (str, m))"
    using c0(2) p1(1) p2(1) p3(1) p4(1) by (subst vsn_loop.simps) simp
  moreover have "cstring B m (?p + 1) cs'" using p4(2) 1(6) by (cases cs4) auto
  ultimately show ?thesis by blast
qed

lemma emits_keep:
  assumes "B = {b. lo \<le> b \<and> b \<le> end}" "lo \<le> str" "unat str + length t < 2 ^ 32"
  shows "fst (fold (emit end) t (str, m)) = str + of_nat (length t)" "lo \<le> str + of_nat (length t)"
    "unat (str + of_nat (length t)) = unat str + length t"
    "a \<notin> B \<Longrightarrow> snd (fold (emit end) t (str, m)) a = m a"
proof -
  show u: "unat (str + of_nat (length t)) = unat str + length t" using assms(3) by (simp add: unat_word_ariths unat_of_nat)
  then show "lo \<le> str + of_nat (length t)" using assms(2) by (simp add: word_le_nat_alt)
  show "a \<notin> B \<Longrightarrow> snd (fold (emit end) t (str, m)) a = m a"
    using emits_outside [OF assms(3), of a "end" m] assms(1,2) by (auto intro: order_trans)
qed (simp add: fst_emits)

lemma vsn_loop_sim:
  assumes "render S k cs args = Some text0" "cstring B m p cs" "strings_ok B m S" "B = {b. lo \<le> b \<and> b \<le> end}" "lo \<le> str"
    "unat str + length text0 < 2 ^ 32" "k = unat end + 1 - unat str"
  shows "vsn_loop flt end p args (str, m) = Some (fold (emit end) text0 (str, m))"
  using assms
proof (induction S k cs args arbitrary: p str m text0 rule: render.induct)
  case (1 S k args)
  then show ?case by (subst vsn_loop.simps) simp
next
  case (2 S k c cs args)
  show ?case
  proof (cases "c = 37")
    case False
    then obtain u where u: "render S (k - 1) cs args = Some u" "text0 = c # u" using "2.prems"(1) by auto
    have cs: "m p = c" "c \<noteq> 0" "cstring B m (p + 1) cs" using "2.prems"(2) by simp_all
    let ?st = "emit end c (str, m)"
    have n: "unat str + length [c] < 2 ^ 32" using "2.prems"(6) u(2) by simp
    note K = emits_keep [OF "2.prems"(4,5) n, simplified]
    have keep: "\<And>a. a \<notin> B \<Longrightarrow> snd ?st a = m a" by (rule K(4))
    have "vsn_loop flt end (p + 1) args (str + 1, snd ?st) = Some (fold (emit end) u (str + 1, snd ?st))"
    proof (rule "2.IH"(1) [OF False u(1)])
      show "cstring B (snd ?st) (p + 1) cs" "strings_ok B (snd ?st) S"
        using cs(3) "2.prems"(3) cstring_cong [OF keep] strings_ok_cong [OF keep] by simp_all
      show "unat (str + 1) + length u < 2 ^ 32" "k - 1 = unat end + 1 - unat (str + 1)"
        using K(3) "2.prems"(6,7) u(2) by simp_all
    qed (use "2.prems" K(2) in simp_all)
    moreover have "?st = (str + 1, snd ?st)" by (simp add: emit_def)
    ultimately show ?thesis using cs False u(2) by (subst vsn_loop.simps) simp
  next
    case True
    then obtain t args' cs' u where t: "spec_text S k cs args = Some (t, args', cs')" "render S (k - length t) cs' args' = Some u"
      "text0 = t @ u" using "2.prems"(1) by (auto split: option.splits)
    have n: "unat str + length t < 2 ^ 32" using "2.prems"(6) t(3) by simp
    obtain p' where p': "vsn_loop flt end p args (str, m) = vsn_loop flt end p' args' (fold (emit end) t (str, m))" "cstring B m p' cs'"
      using spec_sim [OF _ t(1) "2.prems"(3-5) n "2.prems"(7), of p] "2.prems"(2) True by blast
    let ?st = "fold (emit end) t (str, m)"
    note K = emits_keep [OF "2.prems"(4,5) n]
    have "vsn_loop flt end p' args' (str + of_nat (length t), snd ?st) = Some (fold (emit end) u (str + of_nat (length t), snd ?st))"
    proof (rule "2.IH"(2) [OF _ t(1) refl refl t(2)])
      show "cstring B (snd ?st) p' cs'" "strings_ok B (snd ?st) S"
        using p'(2) "2.prems"(3) cstring_cong [OF K(4)] strings_ok_cong [OF K(4)] by simp_all
      show "unat (str + of_nat (length t)) + length u < 2 ^ 32" "k - length t = unat end + 1 - unat (str + of_nat (length t))"
        using K(3) "2.prems"(6,7) t(3) by simp_all
    qed (use "2.prems"(4) K(2) True in simp_all)
    moreover have "?st = (str + of_nat (length t), snd ?st)" using K(1) by (simp add: prod_eq_iff)
    ultimately show ?thesis using p'(1) t(3) by simp
  qed
qed

section \<open>Digits\<close>

definition digit_value :: "u8 \<Rightarrow> nat" where
  "digit_value c = (if c \<le> 57 then unat c - 48 else if c \<le> 70 then unat c - 55 else unat c - 87)"

definition radix :: "u32 \<Rightarrow> nat" where
  "radix base = (if base = 10 then 10 else 16)"

lemma divide_nat: "unat (fst (divide n base)) = unat n mod radix base" "unat (snd (divide n base)) = unat n div radix base"
  by (simp_all add: divide_def radix_def unat_div unat_mod)

lemma digit_tables: "d < 16 \<Longrightarrow> digit_value (small_digits ! d) = d" "d < 16 \<Longrightarrow> digit_value (large_digits ! d) = d"
proof -
  have "\<forall>d \<in> set [0..<16]. digit_value (small_digits ! d) = d \<and> digit_value (large_digits ! d) = d"
    by (simp add: upt_rec small_digits_def large_digits_def digit_value_def)
  then show "d < 16 \<Longrightarrow> digit_value (small_digits ! d) = d" "d < 16 \<Longrightarrow> digit_value (large_digits ! d) = d" by auto
qed

lemma num_digits_step:
  "num \<noteq> 0 \<Longrightarrow> num_digits digits base num =
     (digits ! (unat num mod radix base)) # num_digits digits base (snd (divide num base))"
  by (subst num_digits.simps) (simp add: case_prod_beta Let_def divide_nat)

lemma num_digits_value:
  assumes "digits = small_digits \<or> digits = large_digits"
  shows "foldr (\<lambda>c v. digit_value c + radix base * v) (num_digits digits base num) 0 = unat num"
proof (induction num rule: measure_induct_rule [where f = unat])
  case (less num)
  show ?case
  proof (cases "num = 0")
    case False
    have "unat num mod radix base < 16" by (simp add: radix_def) (use mod_less_divisor [of 10 "unat num"] in linarith)
    then have "digit_value (digits ! (unat num mod radix base)) = unat num mod radix base" using assms digit_tables by auto
    then show ?thesis
      using less [OF divide_less [OF False]] False divide_nat(2) [of num base] by (simp add: num_digits_step [OF False])
  qed (simp add: num_digits.simps)
qed

lemma num_digits_length: "unat num < radix base ^ n \<Longrightarrow> length (num_digits digits base num) \<le> n"
proof (induction n arbitrary: num)
  case 0
  then have "num = 0" by (simp add: unat_eq_zero)
  then show ?case by (simp add: num_digits.simps)
next
  case (Suc n)
  show ?case
  proof (cases "num = 0")
    case False
    have "0 < radix base" by (simp add: radix_def)
    then have "unat (snd (divide num base)) < radix base ^ n"
      using Suc.prems by (simp add: divide_nat less_mult_imp_div_less mult.commute)
    then show ?thesis using Suc.IH by (simp add: num_digits_step [OF False])
  qed (simp add: num_digits.simps)
qed

section \<open>Properties\<close>

text \<open>
  The digits \<open>print_number\<close> computes: at most 10, so that \<open>tmp[16]\<close> holds them, and read from the last to the first they
  are the number in base 10, or for every other base in base 16, in either of the two tables.  So \<open>%o\<close> prints hexadecimal digits.
\<close>

theorem num_digits_correct:
  assumes "digits = small_digits \<or> digits = large_digits"
  shows "length (num_digits digits base num) \<le> 10 \<and>
    foldr (\<lambda>c v. digit_value c + (if base = 10 then 10 else 16) * v) (num_digits digits base num) 0 = unat num"
proof -
  have "unat num < 4294967296" using unsigned_less [of num] by simp
  then have "unat num < radix base ^ 10" by (simp add: radix_def)
  then show ?thesis using num_digits_length num_digits_value [OF assms, of base num] unfolding radix_def by blast
qed

theorem num_digits_correct_witness:
  "length (num_digits small_digits 8 64) \<le> 10 \<and>
     foldr (\<lambda>c v. digit_value c + 16 * v) (num_digits small_digits 8 64) 0 = 64"
  using num_digits_correct [of small_digits 8 64] by simp

lemma bytes_at_map: "bytes_at m p n = map (\<lambda>i. m (p + of_nat i)) [0..<n]"
proof (induction n arbitrary: p)
  case (Suc n)
  have "[0..<Suc n] = 0 # map Suc [0..<n]" by (simp add: map_Suc_upt upt_conv_Cons del: upt_Suc)
  then show ?case using Suc [of "p + 1"] by (simp add: comp_def add.assoc del: upt_Suc)
qed simp

lemma vsnprintf_buffer:
  assumes "render S (unat sz) xs args = Some out" "cstring B m fmt xs" "strings_ok B m S"
    and "B = {a. buf \<le> a \<and> a \<le> buf + sz - 1}" "sz \<noteq> 0" "unat buf + unat sz \<le> 2 ^ 32" "unat buf + length out < 2 ^ 32"
  shows "\<exists>m'. rt_vsnprintf flt buf sz fmt args m = Some (of_nat (length out), m') \<and>
    bytes_at m' buf (min (length out) (unat sz - 1) + 1) = take (unat sz - 1) out @ [0] \<and>
    (\<forall>a. a \<notin> B \<longrightarrow> m' a = m a)"
proof -
  let ?e = "buf + sz - 1" and ?str = "buf + of_nat (length out)"
  have s0: "0 < unat sz" using assms(5) by (simp add: unat_gt_0)
  have "unat (sz - 1) = unat sz - 1" using assms(5) by (simp add: unat_minus_one)
  then have ue: "unat ?e = unat buf + unat sz - 1"
    using assms(6) s0 unat_word_ariths(1) [of buf "sz - 1"] by (simp add: add_diff_eq)
  have le: "\<not> ?e < buf" using ue s0 by (simp add: word_less_nat_alt)
  have us: "unat ?str = unat buf + length out" using assms(7) by (simp add: unat_word_ariths unat_of_nat)
  let ?st = "fold (emit ?e) out (buf, m)"
  have loop: "vsn_loop flt ?e fmt args (buf, m) = Some ?st"
    by (rule vsn_loop_sim [OF assms(1-4) order_refl assms(7)]) (use ue s0 in simp)
  have st: "fst ?st = ?str" "snd ?st = (\<lambda>a. if unat buf \<le> unat a \<and> unat a < unat buf + length out \<and> a \<le> ?e
      then out ! (unat a - unat buf) else m a)"
    using snd_emits [OF assms(7)] by (simp_all add: fst_emits)
  let ?z = "if ?str \<le> ?e then ?str else ?e"
  let ?m = "(snd ?st)(?z := 0)"
  have call: "rt_vsnprintf flt buf sz fmt args m = Some (of_nat (length out), ?m)"
    using le loop st(1) by (cases ?st) (simp add: rt_vsnprintf_def Let_def)
  let ?k = "min (length out) (unat sz - 1)"
  have z: "unat ?z = unat buf + ?k" using us ue s0 by (auto simp: word_le_nat_alt)
  have mem: "?m (buf + of_nat i) = (take (unat sz - 1) out @ [0]) ! i" if "i < ?k + 1" for i
  proof -
    have ui: "unat (buf + of_nat i) = unat buf + i"
      using that assms(6,7) s0 by (simp add: unat_word_ariths unat_of_nat)
    show ?thesis
    proof (cases "i = ?k")
      case True
      then have "buf + of_nat i = ?z" using ui z by (simp add: word_unat_eq_iff)
      then show ?thesis using True by (simp add: nth_append min_def)
    next
      case False
      then have i: "i < length out" "i < unat sz - 1" using that by auto
      have "buf + of_nat i \<noteq> ?z"
      proof
        assume "buf + of_nat i = ?z"
        then have "unat (buf + of_nat i) = unat ?z" by (rule arg_cong)
        then show False using ui z False by linarith
      qed
      moreover have "unat buf + i \<le> unat buf + unat sz - 1" using i by simp
      ultimately show ?thesis using i ui ue st(2) by (simp add: nth_append word_le_nat_alt)
    qed
  qed
  have "bytes_at ?m buf (?k + 1) = take (unat sz - 1) out @ [0]"
    unfolding bytes_at_map by (rule nth_equalityI) (use mem in \<open>auto simp del: upt_Suc fun_upd_apply\<close>)
  moreover have "?m a = m a" if "a \<notin> B" for a
  proof -
    have "a \<noteq> ?z" using that assms(4) z ue s0 by (auto simp: word_le_nat_alt)
    then show ?thesis using that assms(4) st(2) by (auto simp: word_le_nat_alt)
  qed
  ultimately show ?thesis using call by blast
qed

text \<open>
  C39. \<open>rt_vsnprintf\<close> with a buffer of \<open>sz > 0\<close> bytes that contains neither the format nor a string it prints: the call
  returns the length of the text that \<open>render\<close> gives for the format and the arguments, leaves in the buffer the first
  \<open>sz - 1\<close> bytes of it and a NUL behind them, and writes nowhere else.
\<close>

theorem rt_vsnprintf_renders:
  assumes "render S (unat sz) xs args = Some out" "cstring B m fmt xs" "strings_ok B m S"
    and "B = {a. buf \<le> a \<and> a \<le> buf + sz - 1}" "sz \<noteq> 0" "unat buf + unat sz \<le> 2 ^ 32" "unat buf + length out < 2 ^ 32"
  shows "\<exists>m'. rt_vsnprintf flt buf sz fmt args m = Some (of_nat (length out), m') \<and>
    bytes_at m' buf (min (length out) (unat sz - 1) + 1) = take (unat sz - 1) out @ [0] \<and>
    (\<forall>a. a \<notin> B \<longrightarrow> m' a = m a)"
  by (rule vsnprintf_buffer [OF assms])

theorem rt_vsnprintf_renders_witness:
  "\<exists>m'. rt_vsnprintf (\<lambda>_ _ _ _ _ _ _. None) 0x200 8 0x100 [- 5] ((\<lambda>_. 0)(0x100 := 91, 0x101 := 37, 0x102 := 51, 0x103 := 100, 0x104 := 93)) = Some (5, m') \<and>
     bytes_at m' 0x200 6 = [91, 32, 45, 53, 93, 0] \<and> m' 0x208 = 0"
proof -
  let ?m = "(\<lambda>_. 0)(0x100 := 91, 0x101 := 37, 0x102 := 51, 0x103 := 100, 0x104 := 93) :: u32 \<Rightarrow> u8"
    and ?B = "{a :: u32. 0x200 \<le> a \<and> a \<le> 0x200 + 8 - 1}"
  have "render (\<lambda>_. None) (unat (8 :: u32)) [91, 37, 51, 100, 93] [- 5] = Some [91, 32, 45, 53, 93]" by code_simp
  moreover have "cstring ?B ?m 0x100 [91, 37, 51, 100, 93]" by simp
  moreover have "strings_ok ?B ?m (\<lambda>_. None)" by (simp add: strings_ok_def)
  ultimately obtain m' where m': "rt_vsnprintf (\<lambda>_ _ _ _ _ _ _. None) 0x200 8 0x100 [- 5] ?m = Some (of_nat (length [91, 32, 45, 53, 93 :: u8]), m')"
    "bytes_at m' 0x200 (min (length [91, 32, 45, 53, 93 :: u8]) (unat (8 :: u32) - 1) + 1) = take (unat (8 :: u32) - 1) [91, 32, 45, 53, 93] @ [0]"
    "\<forall>a. a \<notin> ?B \<longrightarrow> m' a = ?m a"
    using rt_vsnprintf_renders [where S = "\<lambda>_. None" and sz = 8 and xs = "[91, 37, 51, 100, 93]" and args = "[- 5]"
      and out = "[91, 32, 45, 53, 93]" and B = ?B and m = ?m and fmt = "0x100" and buf = "0x200" and flt = "\<lambda>_ _ _ _ _ _ _. None"] by auto
  have "m' 0x208 = 0" using m'(3) [rule_format, of "0x208"] by simp
  moreover have "(6 :: nat) = Suc (Suc (Suc (Suc (Suc (Suc 0)))))" by simp
  then have "bytes_at m' 0x200 6 = [91, 32, 45, 53, 93, 0]" using m'(2) by (simp only: bytes_at.simps) simp
  ultimately show ?thesis using m'(1) by auto
qed

end
