(* ===== verification/Device.thy ===== *)
theory Device
  imports Driver_State Printf
begin

text \<open>
  \<open>src/src/device.c\<close>: the registry of devices and the calls that reach a driver through it, and the console of \<open>kservice.c\<close> on top of
  them.  The functions of the driver are arguments (\<open>driver_ops\<close>): the first argument of each is the address the device structure holds
  for it, and a function that does not return is \<open>None\<close>.  The message \<open>rt_device_init\<close> and \<open>rt_device_open\<close> print
  when a driver fails to initialise is left out.
\<close>

section \<open>The code\<close>

abbreviation (input) RT_DEVICE_FLAG_STANDALONE :: u16 where "RT_DEVICE_FLAG_STANDALONE \<equiv> 0x008"
abbreviation (input) RT_DEVICE_FLAG_ACTIVATED :: u16 where "RT_DEVICE_FLAG_ACTIVATED \<equiv> 0x010"
abbreviation (input) RT_DEVICE_FLAG_STREAM :: u16 where "RT_DEVICE_FLAG_STREAM \<equiv> 0x040"
abbreviation (input) RT_DEVICE_OFLAG_CLOSE :: u16 where "RT_DEVICE_OFLAG_CLOSE \<equiv> 0x000"
abbreviation (input) RT_DEVICE_OFLAG_RDWR :: u16 where "RT_DEVICE_OFLAG_RDWR \<equiv> 0x003"
abbreviation (input) RT_DEVICE_OFLAG_OPEN :: u16 where "RT_DEVICE_OFLAG_OPEN \<equiv> 0x008"

type_synonym rt_off_t = u32

record 'd driver_ops =
  op_init :: "ptr \<Rightarrow> ptr \<Rightarrow> 'd drv \<Rightarrow> (rt_err_t \<times> 'd drv) option"
  op_open :: "ptr \<Rightarrow> ptr \<Rightarrow> u16 \<Rightarrow> 'd drv \<Rightarrow> (rt_err_t \<times> 'd drv) option"
  op_close :: "ptr \<Rightarrow> ptr \<Rightarrow> 'd drv \<Rightarrow> (rt_err_t \<times> 'd drv) option"
  op_read :: "ptr \<Rightarrow> ptr \<Rightarrow> rt_off_t \<Rightarrow> ptr \<Rightarrow> rt_size_t \<Rightarrow> 'd drv \<Rightarrow> (rt_size_t \<times> 'd drv) option"
  op_write :: "ptr \<Rightarrow> ptr \<Rightarrow> rt_off_t \<Rightarrow> ptr \<Rightarrow> rt_size_t \<Rightarrow> 'd drv \<Rightarrow> (rt_size_t \<times> 'd drv) option"
  op_control :: "ptr \<Rightarrow> ptr \<Rightarrow> u8 \<Rightarrow> ptr \<Rightarrow> 'd drv \<Rightarrow> (rt_err_t \<times> 'd drv) option"

definition set_device :: "ptr \<Rightarrow> (rt_device \<Rightarrow> rt_device) \<Rightarrow> 'd drv \<Rightarrow> 'd drv" where
  "set_device dev f d = d\<lparr>devices := (devices d)(dev := f (devices d dev))\<rparr>"

text \<open>The scheduler is locked during the search when threads run already.\<close>

definition rt_device_find :: "u8 list \<Rightarrow> 'd drv \<Rightarrow> (oref \<times> 'd drv) option" where
  "rt_device_find name d = do {
     let s = (if rt_thread_self (kern d) \<noteq> RT_NULL then rt_enter_critical (kern d) else kern d);
     information \<leftarrow> rt_object_get_information RT_Object_Class_Device;
     let object = find_object (objects s) name (containers s information);
     s \<leftarrow> (if rt_thread_self s \<noteq> RT_NULL then rt_exit_critical s else Some s);
     Some (object, d\<lparr>kern := s\<rparr>)
   }"

definition rt_device_register :: "ptr \<Rightarrow> u8 list \<Rightarrow> u16 \<Rightarrow> 'd drv \<Rightarrow> (rt_err_t \<times> 'd drv) option" where
  "rt_device_register dev name flags d =
     (if dev = RT_NULL then Some (- RT_ERROR, d)
      else do {
        (found, d) \<leftarrow> rt_device_find name d;
        if found \<noteq> At RT_NULL then Some (- RT_ERROR, d)
        else do {
          s \<leftarrow> rt_object_init (At dev) RT_Object_Class_Device name (kern d);
          let d = set_device dev (\<lambda>v. v\<lparr>dev_flag := flags, dev_ref_count := 0, dev_open_flag := 0\<rparr>) (d\<lparr>kern := s\<rparr>);
          Some (RT_EOK, d)
        }
      })"

definition rt_device_unregister :: "ptr \<Rightarrow> 'd drv \<Rightarrow> (rt_err_t \<times> 'd drv) option" where
  "rt_device_unregister dev d = do {
     RT_ASSERT (dev \<noteq> RT_NULL);
     s \<leftarrow> rt_object_detach (At dev) (kern d);
     Some (RT_EOK, d\<lparr>kern := s\<rparr>)
   }"

definition rt_device_init_all :: "rt_err_t" where
  "rt_device_init_all = RT_EOK"

definition activated_dev :: "rt_device \<Rightarrow> bool" where
  "activated_dev v \<longleftrightarrow> dev_flag v AND RT_DEVICE_FLAG_ACTIVATED \<noteq> 0"

definition activate :: "ptr \<Rightarrow> 'd drv \<Rightarrow> 'd drv" where
  "activate dev = set_device dev (\<lambda>v. v\<lparr>dev_flag := dev_flag v OR RT_DEVICE_FLAG_ACTIVATED\<rparr>)"

definition rt_device_init :: "'d driver_ops \<Rightarrow> ptr \<Rightarrow> 'd drv \<Rightarrow> (rt_err_t \<times> 'd drv) option" where
  "rt_device_init ops dev d = do {
     RT_ASSERT (dev \<noteq> RT_NULL);
     let init = dev_init (devices d dev);
     if init \<noteq> RT_NULL \<and> \<not> activated_dev (devices d dev)
     then do {
       (result, d) \<leftarrow> op_init ops init dev d;
       if result \<noteq> RT_EOK then Some (result, d) else Some (result, activate dev d)
     }
     else Some (RT_EOK, d)
   }"

text \<open>\<open>Inl\<close> is the early return after a failed initialisation.\<close>

definition open_activate :: "'d driver_ops \<Rightarrow> ptr \<Rightarrow> 'd drv \<Rightarrow> ((rt_err_t \<times> 'd drv) + 'd drv) option" where
  "open_activate ops dev d =
     (if activated_dev (devices d dev) then Some (Inr d)
      else let init = dev_init (devices d dev) in
        if init \<noteq> RT_NULL
        then do {
          (result, d) \<leftarrow> op_init ops init dev d;
          if result \<noteq> RT_EOK then Some (Inl (result, d)) else Some (Inr (activate dev d))
        }
        else Some (Inr (activate dev d)))"

definition rt_device_open :: "'d driver_ops \<Rightarrow> ptr \<Rightarrow> u16 \<Rightarrow> 'd drv \<Rightarrow> (rt_err_t \<times> 'd drv) option" where
  "rt_device_open ops dev oflag d = do {
     RT_ASSERT (dev \<noteq> RT_NULL);
     r \<leftarrow> open_activate ops dev d;
     (case r of
        Inl failed \<Rightarrow> Some failed
      | Inr d \<Rightarrow>
          if dev_flag (devices d dev) AND RT_DEVICE_FLAG_STANDALONE \<noteq> 0 \<and>
             dev_open_flag (devices d dev) AND RT_DEVICE_OFLAG_OPEN \<noteq> 0
          then Some (- RT_EBUSY, d)
          else do {
            let open' = dev_open (devices d dev);
            (result, d) \<leftarrow> (if open' \<noteq> RT_NULL then op_open ops open' dev oflag d else Some (RT_EOK, d));
            if result = RT_EOK \<or> result = - RT_ENOSYS
            then do {
              let d = set_device dev (\<lambda>v. v\<lparr>dev_open_flag := oflag OR RT_DEVICE_OFLAG_OPEN\<rparr>) d;
              let d = set_device dev (\<lambda>v. v\<lparr>dev_ref_count := dev_ref_count v + 1\<rparr>) d;
              RT_ASSERT (dev_ref_count (devices d dev) \<noteq> 0);
              Some (result, d)
            }
            else Some (result, d)
          })
   }"

definition rt_device_close :: "'d driver_ops \<Rightarrow> ptr \<Rightarrow> 'd drv \<Rightarrow> (rt_err_t \<times> 'd drv) option" where
  "rt_device_close ops dev d = do {
     RT_ASSERT (dev \<noteq> RT_NULL);
     if dev_ref_count (devices d dev) = 0 then Some (- RT_ERROR, d)
     else do {
       let d = set_device dev (\<lambda>v. v\<lparr>dev_ref_count := dev_ref_count v - 1\<rparr>) d;
       if dev_ref_count (devices d dev) \<noteq> 0 then Some (RT_EOK, d)
       else do {
         let close = dev_close (devices d dev);
         (result, d) \<leftarrow> (if close \<noteq> RT_NULL then op_close ops close dev d else Some (RT_EOK, d));
         if result = RT_EOK \<or> result = - RT_ENOSYS
         then Some (result, set_device dev (\<lambda>v. v\<lparr>dev_open_flag := RT_DEVICE_OFLAG_CLOSE\<rparr>) d)
         else Some (result, d)
       }
     }
   }"

definition rt_device_read ::
  "'d driver_ops \<Rightarrow> ptr \<Rightarrow> rt_off_t \<Rightarrow> ptr \<Rightarrow> rt_size_t \<Rightarrow> 'd drv \<Rightarrow> (rt_size_t \<times> 'd drv) option" where
  "rt_device_read ops dev pos buffer sz d = do {
     RT_ASSERT (dev \<noteq> RT_NULL);
     if dev_ref_count (devices d dev) = 0 then Some (0, d\<lparr>kern := rt_set_errno (- RT_ERROR) (kern d)\<rparr>)
     else if dev_read (devices d dev) \<noteq> RT_NULL then op_read ops (dev_read (devices d dev)) dev pos buffer sz d
     else Some (0, d\<lparr>kern := rt_set_errno (- RT_ENOSYS) (kern d)\<rparr>)
   }"

definition rt_device_write ::
  "'d driver_ops \<Rightarrow> ptr \<Rightarrow> rt_off_t \<Rightarrow> ptr \<Rightarrow> rt_size_t \<Rightarrow> 'd drv \<Rightarrow> (rt_size_t \<times> 'd drv) option" where
  "rt_device_write ops dev pos buffer sz d = do {
     RT_ASSERT (dev \<noteq> RT_NULL);
     if dev_ref_count (devices d dev) = 0 then Some (0, d\<lparr>kern := rt_set_errno (- RT_ERROR) (kern d)\<rparr>)
     else if dev_write (devices d dev) \<noteq> RT_NULL then op_write ops (dev_write (devices d dev)) dev pos buffer sz d
     else Some (0, d\<lparr>kern := rt_set_errno (- RT_ENOSYS) (kern d)\<rparr>)
   }"

definition rt_device_control :: "'d driver_ops \<Rightarrow> ptr \<Rightarrow> u8 \<Rightarrow> ptr \<Rightarrow> 'd drv \<Rightarrow> (rt_err_t \<times> 'd drv) option" where
  "rt_device_control ops dev cmd arg d = do {
     RT_ASSERT (dev \<noteq> RT_NULL);
     if dev_control (devices d dev) \<noteq> RT_NULL then op_control ops (dev_control (devices d dev)) dev cmd arg d
     else Some (RT_EOK, d)
   }"

definition rt_device_set_rx_indicate :: "ptr \<Rightarrow> ptr \<Rightarrow> 'd drv \<Rightarrow> (rt_err_t \<times> 'd drv) option" where
  "rt_device_set_rx_indicate dev rx_ind d = do {
     RT_ASSERT (dev \<noteq> RT_NULL);
     Some (RT_EOK, set_device dev (\<lambda>v. v\<lparr>dev_rx_indicate := rx_ind\<rparr>) d)
   }"

definition rt_device_set_tx_complete :: "ptr \<Rightarrow> ptr \<Rightarrow> 'd drv \<Rightarrow> (rt_err_t \<times> 'd drv) option" where
  "rt_device_set_tx_complete dev tx_done d = do {
     RT_ASSERT (dev \<noteq> RT_NULL);
     Some (RT_EOK, set_device dev (\<lambda>v. v\<lparr>dev_tx_complete := tx_done\<rparr>) d)
   }"

text \<open>The console; \<open>rt_log_buf\<close> is the static buffer, \<open>console_out\<close> the board's \<open>rt_hw_console_output\<close>.\<close>

abbreviation (input) RT_CONSOLEBUF_SIZE :: u32 where "RT_CONSOLEBUF_SIZE \<equiv> 256"

definition rt_console_get_device :: "'d drv \<Rightarrow> ptr" where
  "rt_console_get_device d = console_device d"

definition rt_console_set_device :: "'d driver_ops \<Rightarrow> u8 list \<Rightarrow> 'd drv \<Rightarrow> (ptr \<times> 'd drv) option" where
  "rt_console_set_device ops name d = do {
     let old = console_device d;
     (found, d) \<leftarrow> rt_device_find name d;
     (case found of
        TmrOf _ \<Rightarrow> None
      | At new \<Rightarrow>
          if new \<noteq> RT_NULL
          then do {
            d \<leftarrow> (if console_device d \<noteq> RT_NULL
                  then do { (_, d) \<leftarrow> rt_device_close ops (console_device d) d; Some d } else Some d);
            (_, d) \<leftarrow> rt_device_open ops new (RT_DEVICE_OFLAG_RDWR OR RT_DEVICE_FLAG_STREAM) d;
            Some (old, d\<lparr>console_device := new\<rparr>)
          }
          else Some (old, d))
   }"

definition rt_kprintf ::
  "'d driver_ops \<Rightarrow> (ptr \<Rightarrow> 'd drv \<Rightarrow> 'd drv option) \<Rightarrow> flt_fn \<Rightarrow> ptr \<Rightarrow> ptr \<Rightarrow> u32 list \<Rightarrow> 'd drv \<Rightarrow> 'd drv option" where
  "rt_kprintf ops console_out flt rt_log_buf fmt args d = do {
     (length, m) \<leftarrow> rt_vsnprintf flt rt_log_buf (RT_CONSOLEBUF_SIZE - 1) fmt args (mem d);
     let d = d\<lparr>mem := m\<rparr>;
     let length = (if RT_CONSOLEBUF_SIZE - 1 < length then RT_CONSOLEBUF_SIZE - 1 else length);
     let dev = console_device d;
     if dev = RT_NULL then console_out rt_log_buf d
     else do {
       let old_flag = dev_open_flag (devices d dev);
       let d = set_device dev (\<lambda>v. v\<lparr>dev_open_flag := dev_open_flag v OR RT_DEVICE_FLAG_STREAM\<rparr>) d;
       (_, d) \<leftarrow> rt_device_write ops dev 0 rt_log_buf length d;
       Some (set_device dev (\<lambda>v. v\<lparr>dev_open_flag := old_flag\<rparr>) d)
     }
   }"

section \<open>Reference counting\<close>

text \<open>Sequences of \<open>rt_device_open\<close> and \<open>rt_device_close\<close>, and the number of users the results stand for.\<close>

datatype dev_call = Open u16 | Close

fun dev_run :: "'d driver_ops \<Rightarrow> ptr \<Rightarrow> dev_call list \<Rightarrow> 'd drv \<Rightarrow> (rt_err_t list \<times> 'd drv) option" where
  "dev_run ops dev [] d = Some ([], d)"
| "dev_run ops dev (Open oflag # cs) d = do {
     (e, d) \<leftarrow> rt_device_open ops dev oflag d;
     (es, d) \<leftarrow> dev_run ops dev cs d;
     Some (e # es, d)
   }"
| "dev_run ops dev (Close # cs) d = do {
     (e, d) \<leftarrow> rt_device_close ops dev d;
     (es, d) \<leftarrow> dev_run ops dev cs d;
     Some (e # es, d)
   }"

definition accepted :: "rt_err_t \<Rightarrow> bool" where
  "accepted e \<longleftrightarrow> e = RT_EOK \<or> e = - RT_ENOSYS"

fun users :: "dev_call list \<Rightarrow> rt_err_t list \<Rightarrow> nat \<Rightarrow> nat" where
  "users (Open _ # cs) (e # es) n = users cs es (if e = RT_EOK then Suc n else n)"
| "users (Close # cs) (e # es) n = users cs es (n - 1)"
| "users _ _ n = n"

text \<open>Some open of the run comes when the device already has 255 users, the most an 8-bit reference count can hold.\<close>

fun crowded :: "'d driver_ops \<Rightarrow> ptr \<Rightarrow> dev_call list \<Rightarrow> 'd drv \<Rightarrow> bool" where
  "crowded ops dev [] d = False"
| "crowded ops dev (Open oflag # cs) d = (dev_ref_count (devices d dev) = 255 \<or>
     (case rt_device_open ops dev oflag d of None \<Rightarrow> False | Some (_, d') \<Rightarrow> crowded ops dev cs d'))"
| "crowded ops dev (Close # cs) d =
     (case rt_device_close ops dev d of None \<Rightarrow> False | Some (_, d') \<Rightarrow> crowded ops dev cs d')"

text \<open>The same read off the calls alone, when every open counts as a success.\<close>

fun room_for :: "dev_call list \<Rightarrow> nat \<Rightarrow> bool" where
  "room_for [] n = True"
| "room_for (Open _ # cs) n = (n < 255 \<and> room_for cs (Suc n))"
| "room_for (Close # cs) n = room_for cs (n - 1)"

lemma room_for_pairs: "n < 255 \<Longrightarrow> room_for (concat (replicate k [Open oflag, Close])) n"
  by (induction k) auto

text \<open>A device in use is activated and marked open; a stand-alone device has at most one user.\<close>

definition dev_ok :: "rt_device \<Rightarrow> bool" where
  "dev_ok v \<longleftrightarrow>
     (dev_ref_count v \<noteq> 0 \<longrightarrow> dev_open_flag v AND RT_DEVICE_OFLAG_OPEN \<noteq> 0 \<and> activated_dev v) \<and>
     (dev_flag v AND RT_DEVICE_FLAG_STANDALONE \<noteq> 0 \<longrightarrow> unat (dev_ref_count v) \<le> 1)"

lemma devices_set_device [simp]:
  "devices (set_device dev f d) = (devices d)(dev := f (devices d dev))" "kern (set_device dev f d) = kern d"
  by (simp_all add: set_device_def)

lemma flag_already_set:
  assumes "x AND 16 \<noteq> (0 :: u16)"
  shows "x OR 16 = x"
proof (rule bit_word_eqI)
  fix n
  have "bit (2 ^ 4 :: u16) n \<longleftrightarrow> n = 4" by (auto simp only: bit_exp_iff) simp
  then have "bit (16 :: u16) n \<longleftrightarrow> n = 4" by simp
  moreover have "bit x 4" using assms and_exp_eq_0_iff_not_bit [of x 4] by simp
  ultimately show "bit (x OR 16) n = bit x n" unfolding bit_or_iff by blast
qed

lemma flag_set_bits [simp]:
  "(x OR 16) AND 8 = x AND (8 :: u16)" "(x OR 16) AND 16 = (16 :: u16)" "(x OR 8) AND 8 = (8 :: u16)"
  by (simp_all add: bit.conj_disj_distrib2)

text \<open>
  What the framework relies on in a driver.  The init, open and close functions return (no assertion of the driver fails), and none of them
  writes the reference count, which belongs to \<open>rt_device_open\<close> and \<open>rt_device_close\<close>.  The open function also leaves the marks of a
  stand-alone and of an activated device, and when it refuses to open a device in use it leaves the mark of an open device as well; when it
  succeeds it may write the open flags, as \<open>rt_serial_open\<close> does (\<open>serial.c\<close>, \<open>dev->open_flag = oflag & 0xff\<close>, behind the last of its error
  returns), because \<open>rt_device_open\<close> sets them then.  Nothing is asked of the flags the init and close functions leave.  The contract is
  written down nowhere in the repository; it is what the code of \<open>device.c\<close> needs.
\<close>

definition same_use :: "rt_device \<Rightarrow> rt_device \<Rightarrow> bool" where
  "same_use v v' \<longleftrightarrow> dev_ref_count v' = dev_ref_count v \<and> activated_dev v' = activated_dev v \<and>
     dev_flag v' AND RT_DEVICE_FLAG_STANDALONE = dev_flag v AND RT_DEVICE_FLAG_STANDALONE"

locale device_driver =
  fixes ops :: "'d driver_ops"
  assumes init_returns: "dev \<noteq> RT_NULL \<Longrightarrow> \<exists>e d'. op_init ops f dev d = Some (e, d') \<and>
      dev_ref_count (devices d' dev) = dev_ref_count (devices d dev)"
    and open_returns: "dev \<noteq> RT_NULL \<Longrightarrow> \<exists>e d'. op_open ops f dev oflag d = Some (e, d') \<and> same_use (devices d dev) (devices d' dev) \<and>
      (dev_ref_count (devices d dev) \<noteq> 0 \<and> \<not> accepted e \<longrightarrow> dev_open_flag (devices d' dev) AND RT_DEVICE_OFLAG_OPEN =
         dev_open_flag (devices d dev) AND RT_DEVICE_OFLAG_OPEN)"
    and close_returns: "dev \<noteq> RT_NULL \<Longrightarrow> \<exists>e d'. op_close ops f dev d = Some (e, d') \<and>
      dev_ref_count (devices d' dev) = dev_ref_count (devices d dev)"
begin

text \<open>The state behind the activation, or the failure of it.\<close>

lemma activation:
  assumes "dev_ok (devices d dev)" "dev \<noteq> RT_NULL"
  obtains (Failed) e d' where "open_activate ops dev d = Some (Inl (e, d'))" "e \<noteq> RT_EOK" "dev_ok (devices d' dev)"
    "dev_ref_count (devices d' dev) = dev_ref_count (devices d dev)"
  | (Active) d' where "open_activate ops dev d = Some (Inr d')" "dev_ok (devices d' dev)" "activated_dev (devices d' dev)"
    "dev_ref_count (devices d' dev) = dev_ref_count (devices d dev)"
proof (cases "activated_dev (devices d dev)")
  case True
  then show ?thesis using that(2) [of d] assms(1) by (simp add: open_activate_def)
next
  case inactive: False
  then have r0: "dev_ref_count (devices d dev) = 0" using assms(1) by (auto simp: dev_ok_def)
  obtain e d' where i: "op_init ops (dev_init (devices d dev)) dev d = Some (e, d')"
    "dev_ref_count (devices d' dev) = dev_ref_count (devices d dev)"
    using init_returns [OF assms(2)] by blast
  have ok: "dev_ok (devices e' dev)" "dev_ok (devices (activate dev e') dev)" "activated_dev (devices (activate dev e') dev)"
    "dev_ref_count (devices (activate dev e') dev) = 0" if "dev_ref_count (devices e' dev) = 0" for e' :: "'d drv"
    using that by (simp_all add: dev_ok_def activated_dev_def activate_def)
  have r1: "dev_ref_count (devices d' dev) = 0" using i(2) r0 by simp
  show ?thesis
  proof (cases "dev_init (devices d dev) = RT_NULL")
    case True
    then show ?thesis using that(2) [of "activate dev d"] inactive ok [OF r0] r0 by (simp add: open_activate_def Let_def)
  next
    case False
    then show ?thesis
      using that(1) [of e d'] that(2) [of "activate dev d'"] inactive i(1) ok [OF r1] r0 r1
      by (cases "e = RT_EOK") (simp_all add: open_activate_def Let_def)
  qed
qed

lemma open_step:
  assumes "dev \<noteq> RT_NULL" "dev_ok (devices d dev)" "unat (dev_ref_count (devices d dev)) < 255"
  obtains e d' where "rt_device_open ops dev oflag d = Some (e, d')" "dev_ok (devices d' dev)"
    "unat (dev_ref_count (devices d' dev)) \<le> Suc (unat (dev_ref_count (devices d dev)))"
    "e \<noteq> - RT_ENOSYS \<longrightarrow> unat (dev_ref_count (devices d' dev)) = (if e = RT_EOK then Suc else id) (unat (dev_ref_count (devices d dev)))"
proof (cases rule: activation [OF assms(2,1)])
  case (1 e d')
  then show ?thesis using that [of e d'] assms by (simp add: rt_device_open_def)
next
  case (2 d1)
  let ?v1 = "devices d1 dev"
  show ?thesis
  proof (cases "dev_flag ?v1 AND 8 \<noteq> 0 \<and> dev_open_flag ?v1 AND 8 \<noteq> 0")
    case True
    then show ?thesis using that [of "- RT_EBUSY" d1] assms(1) 2 by (simp add: rt_device_open_def)
  next
    case False
    obtain e d2 where d2: "(if dev_open ?v1 \<noteq> RT_NULL then op_open ops (dev_open ?v1) dev oflag d1 else Some (RT_EOK, d1)) = Some (e, d2)"
      "same_use ?v1 (devices d2 dev)" "activated_dev (devices d2 dev)"
      "dev_ref_count ?v1 \<noteq> 0 \<and> \<not> accepted e \<longrightarrow> dev_open_flag (devices d2 dev) AND 8 = dev_open_flag ?v1 AND 8"
      using open_returns [OF assms(1), of "dev_open ?v1" oflag d1] 2(3) by (cases "dev_open ?v1 = RT_NULL") (auto simp: same_use_def)
    let ?d = "set_device dev (\<lambda>v. v\<lparr>dev_open_flag := oflag OR 8, dev_ref_count := dev_ref_count v + 1\<rparr>) d2"
    have rc: "dev_ref_count (devices d2 dev) = dev_ref_count ?v1" using d2(2) by (simp add: same_use_def)
    have u: "unat (dev_ref_count ?v1 + 1) = Suc (unat (dev_ref_count ?v1))" using assms(3) 2(4) by (subst unat_inc) simp_all
    then have "dev_ref_count ?v1 + 1 \<noteq> 0" by auto
    then have "rt_device_open ops dev oflag d = Some (e, if accepted e then ?d else d2)"
      using assms(1) 2(1) False d2 rc by (auto simp: rt_device_open_def accepted_def set_device_def Let_def)
    moreover have "dev_flag ?v1 AND 8 \<noteq> 0 \<longrightarrow> dev_ref_count ?v1 = 0" using False 2(2) by (auto simp: dev_ok_def)
    then have "dev_ok (devices ?d dev)" "\<not> accepted e \<Longrightarrow> dev_ok (devices d2 dev)"
      using d2(2-4) 2(2) u by (auto simp: dev_ok_def activated_dev_def same_use_def)
    ultimately show ?thesis using that [of e "if accepted e then ?d else d2"] rc 2(4) u by (auto simp: accepted_def)
  qed
qed

lemma close_step:
  assumes "dev \<noteq> RT_NULL" "dev_ok (devices d dev)"
  obtains e d' where "rt_device_close ops dev d = Some (e, d')" "dev_ok (devices d' dev)"
    "unat (dev_ref_count (devices d' dev)) = unat (dev_ref_count (devices d dev)) - 1"
proof (cases "dev_ref_count (devices d dev) = 0")
  case True
  then show ?thesis using that [of "- RT_ERROR" d] assms by (simp add: rt_device_close_def)
next
  case False
  let ?d = "set_device dev (\<lambda>v. v\<lparr>dev_ref_count := dev_ref_count v - 1\<rparr>) d"
  let ?v = "devices ?d dev"
  have u: "unat (dev_ref_count ?v) = unat (dev_ref_count (devices d dev)) - 1" using False by (simp add: unat_minus_one)
  have ok: "dev_ok ?v" using assms(2) u False by (auto simp: dev_ok_def activated_dev_def)
  show ?thesis
  proof (cases "dev_ref_count ?v = 0")
    case False
    then show ?thesis using that [of RT_EOK ?d] assms(1) \<open>dev_ref_count (devices d dev) \<noteq> 0\<close> u ok
      by (simp add: rt_device_close_def Let_def)
  next
    case True
    obtain e d2 where d2: "(if dev_close ?v \<noteq> RT_NULL then op_close ops (dev_close ?v) dev ?d else Some (RT_EOK, ?d)) = Some (e, d2)"
      "dev_ref_count (devices d2 dev) = dev_ref_count ?v"
      using close_returns [OF assms(1), of "dev_close ?v" ?d] by (cases "dev_close ?v = RT_NULL") auto
    then have "rt_device_close ops dev d =
        Some (e, if accepted e then set_device dev (\<lambda>v. v\<lparr>dev_open_flag := 0\<rparr>) d2 else d2)"
      using assms(1) False True by (cases "dev_close ?v = RT_NULL") (auto simp: rt_device_close_def Let_def accepted_def)
    moreover have "dev_ref_count (devices d2 dev) = 0" using d2(2) True by simp
    ultimately show ?thesis using that u True by (auto simp: dev_ok_def)
  qed
qed

lemma room_for_not_crowded:
  assumes "dev \<noteq> RT_NULL" "dev_ok (devices d dev)" "unat (dev_ref_count (devices d dev)) \<le> n" "room_for cs n"
  shows "\<not> crowded ops dev cs d"
  using assms(2-)
proof (induction cs arbitrary: d n)
  case (Cons c cs)
  show ?case
  proof (cases c)
    case (Open oflag)
    then have r: "unat (dev_ref_count (devices d dev)) < 255" using Cons.prems(2,3) by simp
    obtain e d1 where d1: "rt_device_open ops dev oflag d = Some (e, d1)" "dev_ok (devices d1 dev)"
      "unat (dev_ref_count (devices d1 dev)) \<le> Suc (unat (dev_ref_count (devices d dev)))"
      by (rule open_step [OF assms(1) Cons.prems(1) r])
    then have "\<not> crowded ops dev cs d1" using Cons.IH [of d1 "Suc n"] Cons.prems(2,3) Open by simp
    then show ?thesis using d1(1) r Open by auto
  next
    case Close
    obtain e d1 where d1: "rt_device_close ops dev d = Some (e, d1)" "dev_ok (devices d1 dev)"
      "unat (dev_ref_count (devices d1 dev)) = unat (dev_ref_count (devices d dev)) - 1"
      by (rule close_step [OF assms(1) Cons.prems(1)])
    then have "\<not> crowded ops dev cs d1" using Cons.IH [of d1 "n - 1"] Cons.prems(2,3) Close by simp
    then show ?thesis using d1(1) Close by simp
  qed
qed simp

lemma run_counts:
  assumes "dev \<noteq> RT_NULL" "dev_ok (devices d dev)" "\<not> crowded ops dev cs d"
  shows "\<exists>es d'. dev_run ops dev cs d = Some (es, d') \<and> length es = length cs \<and> dev_ok (devices d' dev) \<and>
    (- RT_ENOSYS \<notin> set es \<longrightarrow> unat (dev_ref_count (devices d' dev)) = users cs es (unat (dev_ref_count (devices d dev))))"
  using assms(2,3)
proof (induction cs arbitrary: d)
  case (Cons c cs)
  show ?case
  proof (cases c)
    case (Open oflag)
    then have "unat (dev_ref_count (devices d dev)) \<noteq> 255" using Cons.prems(2) by (auto simp: word_unat_eq_iff)
    then have r: "unat (dev_ref_count (devices d dev)) < 255" using unat_u8_less [of "dev_ref_count (devices d dev)"] by simp
    obtain e d1 where d1: "rt_device_open ops dev oflag d = Some (e, d1)" "dev_ok (devices d1 dev)"
      "e \<noteq> - RT_ENOSYS \<longrightarrow> unat (dev_ref_count (devices d1 dev)) = (if e = RT_EOK then Suc else id) (unat (dev_ref_count (devices d dev)))"
      by (rule open_step [OF assms(1) Cons.prems(1) r])
    moreover have "\<not> crowded ops dev cs d1" using Cons.prems(2) Open d1(1) by simp
    then obtain es d' where "dev_run ops dev cs d1 = Some (es, d')" "length es = length cs" "dev_ok (devices d' dev)"
      "- RT_ENOSYS \<notin> set es \<longrightarrow> unat (dev_ref_count (devices d' dev)) = users cs es (unat (dev_ref_count (devices d1 dev)))"
      using Cons.IH [OF d1(2)] by blast
    ultimately show ?thesis using Open by (intro exI [of _ "e # es"] exI [of _ d']) auto
  next
    case Close
    obtain e d1 where d1: "rt_device_close ops dev d = Some (e, d1)" "dev_ok (devices d1 dev)"
      "unat (dev_ref_count (devices d1 dev)) = unat (dev_ref_count (devices d dev)) - 1"
      by (rule close_step [OF assms(1) Cons.prems(1)])
    moreover have "\<not> crowded ops dev cs d1" using Cons.prems(2) Close d1(1) by simp
    then obtain es d' where "dev_run ops dev cs d1 = Some (es, d')" "length es = length cs" "dev_ok (devices d' dev)"
      "- RT_ENOSYS \<notin> set es \<longrightarrow> unat (dev_ref_count (devices d' dev)) = users cs es (unat (dev_ref_count (devices d1 dev)))"
      using Cons.IH [OF d1(2)] by blast
    ultimately show ?thesis using Close by (intro exI [of _ "e # es"] exI [of _ d']) auto
  qed
qed auto

end

section \<open>Properties\<close>

text \<open>
  C26. \<open>rt_kprintf\<close> with an open console device hands the rendered text to the write function of the driver, in the log buffer and with its
  length, in stream mode, and restores the open flags; nothing but the buffer changes in memory.  A text of more than 254 bytes is cut to
  254 bytes, and the NUL behind them is written out as well.
\<close>

theorem rt_kprintf_writes:
  assumes "render S 255 xs args = Some out" "cstring B (mem d) fmt xs" "strings_ok B (mem d) S"
    and "B = {a. buf \<le> a \<and> a \<le> buf + 255 - 1}" "unat buf + 255 \<le> 2 ^ 32" "unat buf + length out < 2 ^ 32"
    and "console_device d = dev" "dev \<noteq> RT_NULL" "dev_ref_count (devices d dev) \<noteq> 0" "dev_write (devices d dev) \<noteq> RT_NULL"
  shows "\<exists>m. (\<forall>a. a \<notin> B \<longrightarrow> m a = mem d a) \<and>
    bytes_at m buf (min (length out) 255) = (if length out \<le> 254 then out else take 254 out @ [0]) \<and>
    rt_kprintf ops console_out flt buf fmt args d =
      Option.bind (op_write ops (dev_write (devices d dev)) dev 0 buf (of_nat (min (length out) 255))
          (set_device dev (\<lambda>v. v\<lparr>dev_open_flag := dev_open_flag v OR RT_DEVICE_FLAG_STREAM\<rparr>) (d\<lparr>mem := m\<rparr>)))
        (\<lambda>(_, d'). Some (set_device dev (\<lambda>v. v\<lparr>dev_open_flag := dev_open_flag (devices d dev)\<rparr>) d'))"
proof -
  have sz: "unat (255 :: u32) = 255" by simp
  obtain m where m: "rt_vsnprintf flt buf 255 fmt args (mem d) = Some (of_nat (length out), m)"
    "bytes_at m buf (min (length out) 254 + 1) = take 254 out @ [0]" "\<forall>a. a \<notin> B \<longrightarrow> m a = mem d a"
    using vsnprintf_buffer [of S 255 xs args out B "mem d" fmt buf flt] assms(1-6) by (auto simp: sz)
  have "unat (of_nat (length out) :: u32) = length out" using assms(6) by (simp add: unat_of_nat)
  then have len: "(if 255 < (of_nat (length out) :: u32) then 255 else of_nat (length out)) = of_nat (min (length out) 255)"
    by (auto simp: word_less_nat_alt min_def)
  have "bytes_at m buf (min (length out) 255) = (if length out \<le> 254 then out else take 254 out @ [0])"
  proof (cases "length out \<le> 254")
    case True
    then have "bytes_at m buf (length out + 1) = out @ [0]" using m(2) by (simp add: min_def)
    then have "take (length out) (bytes_at m buf (length out + 1)) = out" by simp
    moreover have "take (length out) (bytes_at m buf (length out + 1)) = bytes_at m buf (length out)"
      by (simp add: bytes_at_map take_map del: upt_Suc)
    ultimately show ?thesis using True by (simp add: min_def)
  next
    case False
    then have "min (length out) 255 = 255" "min (length out) 254 = 254" by auto
    then show ?thesis using m(2) False by simp
  qed
  moreover have "rt_kprintf ops console_out flt buf fmt args d =
      Option.bind (op_write ops (dev_write (devices d dev)) dev 0 buf (of_nat (min (length out) 255))
          (set_device dev (\<lambda>v. v\<lparr>dev_open_flag := dev_open_flag v OR RT_DEVICE_FLAG_STREAM\<rparr>) (d\<lparr>mem := m\<rparr>)))
        (\<lambda>(_, d'). Some (set_device dev (\<lambda>v. v\<lparr>dev_open_flag := dev_open_flag (devices d dev)\<rparr>) d'))"
    unfolding len [symmetric] using m(1) assms(7-10) by (simp add: rt_kprintf_def rt_device_write_def Let_def)
  ultimately show ?thesis using m(3) by blast
qed

text \<open>An open console at \<open>0x700\<close> whose driver takes everything, and the format \<open>"hi"\<close> at \<open>0x100\<close>.\<close>

definition demo_ops :: "unit driver_ops" where
  "demo_ops = \<lparr>op_init = (\<lambda>_ _ d. Some (0, d)), op_open = (\<lambda>_ _ _ d. Some (0, d)), op_close = (\<lambda>_ _ d. Some (0, d)),
    op_read = (\<lambda>_ _ _ _ _ d. Some (0, d)), op_write = (\<lambda>_ _ _ _ n d. Some (n, d)), op_control = (\<lambda>_ _ _ _ d. Some (0, d))\<rparr>"

definition demo_console :: "unit drv" where
  "demo_console = (set_device 0x700 (\<lambda>v. v\<lparr>dev_ref_count := 1, dev_open_flag := 11, dev_write := 0x80\<rparr>) (zero_drv zero_state))
     \<lparr>console_device := 0x700, mem := (\<lambda>_. 0)(0x100 := 104, 0x101 := 105)\<rparr>"

theorem rt_kprintf_writes_witness:
  "\<exists>d'. rt_kprintf demo_ops (\<lambda>_. Some) (\<lambda>_ _ _ _ _ _ _. None) 0x200 0x100 [] demo_console = Some d' \<and>
     bytes_at (mem d') 0x200 2 = [104, 105] \<and> dev_open_flag (devices d' 0x700) = 11"
proof -
  let ?B = "{a :: u32. 0x200 \<le> a \<and> a \<le> 0x200 + 255 - 1}"
  have r: "render (\<lambda>_. None) 255 [104, 105] [] = Some [104, 105]" by code_simp
  have c: "cstring ?B (mem demo_console) 0x100 [104, 105]" "strings_ok ?B (mem demo_console) (\<lambda>_. None)"
    by (simp_all add: strings_ok_def demo_console_def)
  have v: "console_device demo_console = 0x700" "dev_ref_count (devices demo_console 0x700) \<noteq> 0"
    "dev_write (devices demo_console 0x700) \<noteq> RT_NULL" "dev_open_flag (devices demo_console 0x700) = 11"
    by (simp_all add: demo_console_def)
  have two: "min (length [104, 105 :: u8]) 255 = 2" "(of_nat 2 :: u32) = 2" "length [104, 105 :: u8] \<le> 254" by simp_all
  obtain m where m: "bytes_at m 0x200 2 = [104, 105]"
    "rt_kprintf demo_ops (\<lambda>_. Some) (\<lambda>_ _ _ _ _ _ _. None) 0x200 0x100 [] demo_console =
      Option.bind (op_write demo_ops (dev_write (devices demo_console 0x700)) 0x700 0 0x200 2
          (set_device 0x700 (\<lambda>v. v\<lparr>dev_open_flag := dev_open_flag v OR RT_DEVICE_FLAG_STREAM\<rparr>) (demo_console\<lparr>mem := m\<rparr>)))
        (\<lambda>(_, d'). Some (set_device 0x700 (\<lambda>v. v\<lparr>dev_open_flag := dev_open_flag (devices demo_console 0x700)\<rparr>) d'))"
    using rt_kprintf_writes [OF r c refl _ _ v(1) _ v(2,3), of demo_ops "\<lambda>_. Some" "\<lambda>_ _ _ _ _ _ _. None", unfolded two if_True]
      two(3) by fastforce
  have "rt_kprintf demo_ops (\<lambda>_. Some) (\<lambda>_ _ _ _ _ _ _. None) 0x200 0x100 [] demo_console =
      Some (set_device 0x700 (\<lambda>v. v\<lparr>dev_open_flag := 11\<rparr>)
        (set_device 0x700 (\<lambda>v. v\<lparr>dev_open_flag := dev_open_flag v OR RT_DEVICE_FLAG_STREAM\<rparr>) (demo_console\<lparr>mem := m\<rparr>)))"
    unfolding m(2) v(4) by (simp add: demo_ops_def)
  with m(1) show ?thesis by (auto simp: set_device_def)
qed

end
