(* ===== verification/Watchdog.thy ===== *)
theory Watchdog
  imports Device
begin

text \<open>
  \<open>src/components/drivers/watchdog/watchdog.c\<close>: the driver of watchdogs, between the device framework and the functions of the
  hardware, which are parameters (\<open>struct rt_watchdog_ops\<close>) on a state of their own.  The driver keeps the contract of
  the framework (locale \<open>device_driver\<close>).
\<close>

section \<open>The code\<close>

abbreviation (input) RT_DEVICE_CTRL_WDT_STOP :: u8 where "RT_DEVICE_CTRL_WDT_STOP \<equiv> 6"

text \<open>\<open>ops->init\<close> may be missing.\<close>

record 'h rt_watchdog_ops =
  wdt_init :: "(ptr \<Rightarrow> 'h \<Rightarrow> rt_err_t \<times> 'h) option"
  wdt_control :: "ptr \<Rightarrow> u8 \<Rightarrow> ptr \<Rightarrow> 'h \<Rightarrow> rt_err_t \<times> 'h"

definition rt_watchdog_init :: "'h rt_watchdog_ops \<Rightarrow> ptr \<Rightarrow> 'h drv \<Rightarrow> (rt_err_t \<times> 'h drv) option" where
  "rt_watchdog_init wops dev d = do {
     RT_ASSERT (dev \<noteq> RT_NULL);
     (case wdt_init wops of
        Some init \<Rightarrow> let (e, h) = init dev (hw d) in Some (e, d\<lparr>hw := h\<rparr>)
      | None \<Rightarrow> Some (- RT_ENOSYS, d))
   }"

definition rt_watchdog_open :: "ptr \<Rightarrow> u16 \<Rightarrow> 'h drv \<Rightarrow> (rt_err_t \<times> 'h drv) option" where
  "rt_watchdog_open dev oflag d = Some (RT_EOK, d)"

text \<open>The \<open>rt_kprintf\<close> of the close function, which says that the watchdog could not be stopped, is left out.\<close>

definition rt_watchdog_close :: "'h rt_watchdog_ops \<Rightarrow> ptr \<Rightarrow> 'h drv \<Rightarrow> (rt_err_t \<times> 'h drv) option" where
  "rt_watchdog_close wops dev d = do {
     RT_ASSERT (dev \<noteq> RT_NULL);
     let (e, h) = wdt_control wops dev RT_DEVICE_CTRL_WDT_STOP RT_NULL (hw d);
     let d = d\<lparr>hw := h\<rparr>;
     if e \<noteq> RT_EOK then Some (- RT_ERROR, d) else Some (RT_EOK, d)
   }"

definition rt_watchdog_control :: "'h rt_watchdog_ops \<Rightarrow> ptr \<Rightarrow> u8 \<Rightarrow> ptr \<Rightarrow> 'h drv \<Rightarrow> (rt_err_t \<times> 'h drv) option" where
  "rt_watchdog_control wops dev cmd args d = do {
     RT_ASSERT (dev \<noteq> RT_NULL);
     let (e, h) = wdt_control wops dev cmd args (hw d);
     Some (e, d\<lparr>hw := h\<rparr>)
   }"

text \<open>The addresses of the four functions, and the registration.  There is no function to read or write.\<close>

record watchdog_fns =
  fn_init :: ptr
  fn_open :: ptr
  fn_close :: ptr
  fn_control :: ptr

abbreviation (input) RT_Device_Class_Miscellaneous :: u32 where "RT_Device_Class_Miscellaneous \<equiv> 18"

definition rt_hw_watchdog_register :: "watchdog_fns \<Rightarrow> ptr \<Rightarrow> u8 list \<Rightarrow> u32 \<Rightarrow> ptr \<Rightarrow> 'h drv \<Rightarrow> (rt_err_t \<times> 'h drv) option" where
  "rt_hw_watchdog_register fns wtd name flag data d = do {
     RT_ASSERT (wtd \<noteq> RT_NULL);
     let d = set_device wtd (\<lambda>v. v\<lparr>dev_type := RT_Device_Class_Miscellaneous, dev_rx_indicate := RT_NULL,
       dev_tx_complete := RT_NULL, dev_init := fn_init fns, dev_open := fn_open fns, dev_close := fn_close fns,
       dev_read := RT_NULL, dev_write := RT_NULL, dev_control := fn_control fns, dev_user_data := data\<rparr>) d;
     rt_device_register wtd name (ucast flag) d
   }"

definition watchdog_driver :: "'h rt_watchdog_ops \<Rightarrow> 'h driver_ops" where
  "watchdog_driver wops = \<lparr>op_init = (\<lambda>_. rt_watchdog_init wops), op_open = (\<lambda>_. rt_watchdog_open),
     op_close = (\<lambda>_. rt_watchdog_close wops), op_read = (\<lambda>_ _ _ _ _ _. None), op_write = (\<lambda>_ _ _ _ _ _. None),
     op_control = (\<lambda>_. rt_watchdog_control wops)\<rparr>"

section \<open>The contract\<close>

interpretation watchdog: device_driver "watchdog_driver wops"
  by unfold_locales
    (auto simp: watchdog_driver_def rt_watchdog_init_def rt_watchdog_open_def rt_watchdog_close_def same_use_def Let_def
      split: option.splits prod.splits)

section \<open>Properties of the device framework\<close>

text \<open>
  C25. Reference counting.  With a driver that keeps the contract of the framework (locale \<open>device_driver\<close>: its functions return and leave
  the reference count alone, and its open function, when it refuses, the mark of an open device), every sequence of \<open>rt_device_open\<close> and
  \<open>rt_device_close\<close> in which no open comes when the device has 255 users already (the 8-bit count would wrap and the assertion behind the
  increment fail) returns, whatever errors the driver reports, however many calls there are; a device in use is activated and marked open, and a stand-alone device never
  has two users; the reference count is the number of opens that returned \<open>RT_EOK\<close> less the closes that found it above zero, unless a call
  returned \<open>-RT_ENOSYS\<close>, which stands for an open device when it comes from the open function of the driver and for a failure when it
  comes from the initialisation.
\<close>

theorem rt_device_ref_counting:
  assumes "device_driver ops" "dev \<noteq> RT_NULL" "dev_ok (devices d dev)"
    and "\<not> crowded ops dev cs d"
  shows "\<exists>es d'. dev_run ops dev cs d = Some (es, d') \<and> length es = length cs \<and> dev_ok (devices d' dev) \<and>
    (- RT_ENOSYS \<notin> set es \<longrightarrow> unat (dev_ref_count (devices d' dev)) = users cs es (unat (dev_ref_count (devices d dev))))"
  by (rule device_driver.run_counts [OF assms])

text \<open>
  A stand-alone device whose driver reports an error from its last close is lost: the reference count is zero but the device stays
  marked open, so every further \<open>rt_device_open\<close> returns \<open>-RT_EBUSY\<close> and every further \<open>rt_device_close\<close> \<open>-RT_ERROR\<close>, without reaching
  the driver.
\<close>

theorem rt_device_close_error_sticks:
  assumes "dev \<noteq> RT_NULL" "dev_ok (devices d dev)" "dev_flag (devices d dev) AND RT_DEVICE_FLAG_STANDALONE \<noteq> 0"
    and "dev_ref_count (devices d dev) = 1" "dev_close (devices d dev) = f" "f \<noteq> RT_NULL" "\<not> accepted e"
    and "\<forall>d. \<exists>d'. op_close ops f dev d = Some (e, d') \<and> devices d' dev = devices d dev"
  shows "\<exists>d1. rt_device_close ops dev d = Some (e, d1) \<and>
    rt_device_open ops dev oflag d1 = Some (- RT_EBUSY, d1) \<and> rt_device_close ops dev d1 = Some (- RT_ERROR, d1)"
proof -
  let ?d = "set_device dev (\<lambda>v. v\<lparr>dev_ref_count := dev_ref_count v - 1\<rparr>) d"
  obtain d1 where d1: "op_close ops f dev ?d = Some (e, d1)" "devices d1 dev = devices ?d dev" using assms(8) by blast
  have "rt_device_close ops dev d = Some (e, d1)"
    using assms(1,4-7) d1(1) by (simp add: rt_device_close_def Let_def accepted_def)
  moreover have "activated_dev (devices d dev)" "dev_open_flag (devices d dev) AND 8 \<noteq> 0" using assms(2,4) by (auto simp: dev_ok_def)
  then have "rt_device_open ops dev oflag d1 = Some (- RT_EBUSY, d1)"
    using assms(1,3) d1(2) by (simp add: rt_device_open_def open_activate_def activated_dev_def)
  moreover have "rt_device_close ops dev d1 = Some (- RT_ERROR, d1)" using assms(1,4) d1(2) by (simp add: rt_device_close_def)
  ultimately show ?thesis by blast
qed

text \<open>A watchdog at \<open>0x700\<close> that cannot be stopped, registered as a stand-alone device.\<close>

definition demo_wops :: "unit rt_watchdog_ops" where
  "demo_wops = \<lparr>wdt_init = Some (\<lambda>_ h. (RT_EOK, h)), wdt_control = (\<lambda>_ cmd _ h. (if cmd = RT_DEVICE_CTRL_WDT_STOP then - RT_ERROR else RT_EOK, h))\<rparr>"

definition demo_wdt :: "unit drv" where
  "demo_wdt = set_device 0x700 (\<lambda>v. v\<lparr>dev_flag := 8, dev_init := 0x81, dev_open := 0x82, dev_close := 0x83\<rparr>) (zero_drv zero_state)"

definition demo_wdt_open :: "unit drv" where
  "demo_wdt_open = set_device 0x700 (\<lambda>v. v\<lparr>dev_flag := 24, dev_ref_count := 1, dev_open_flag := 11\<rparr>) demo_wdt"

theorem rt_device_ref_counting_witness:
  "\<exists>es d'. dev_run (watchdog_driver demo_wops) 0x700 (concat (replicate 300 [Open 3, Close])) demo_wdt = Some (es, d') \<and>
     length es = 600 \<and> dev_ok (devices d' 0x700)"
proof -
  have d: "dev_ok (devices demo_wdt 0x700)" "unat (dev_ref_count (devices demo_wdt 0x700)) \<le> 0"
    by (simp_all add: demo_wdt_def dev_ok_def zero_drv_def)
  have "\<not> crowded (watchdog_driver demo_wops) 0x700 (concat (replicate 300 [Open 3, Close])) demo_wdt"
    by (rule watchdog.room_for_not_crowded [OF _ d room_for_pairs]) simp_all
  then show ?thesis
    using rt_device_ref_counting [OF watchdog.device_driver_axioms _ d(1), of demo_wops "concat (replicate 300 [Open 3, Close])"]
    by (auto simp: length_concat sum_list_replicate)
qed

theorem rt_device_close_error_sticks_witness:
  "\<exists>d1. rt_device_close (watchdog_driver demo_wops) 0x700 demo_wdt_open = Some (- RT_ERROR, d1) \<and>
     rt_device_open (watchdog_driver demo_wops) 0x700 3 d1 = Some (- RT_EBUSY, d1)"
proof -
  let ?v = "devices demo_wdt_open 0x700"
  have v: "dev_ok ?v" "dev_flag ?v AND 8 \<noteq> 0" "dev_ref_count ?v = 1" "dev_close ?v = 0x83"
    by (simp_all add: demo_wdt_open_def demo_wdt_def dev_ok_def activated_dev_def)
  have "\<forall>d. \<exists>d'. op_close (watchdog_driver demo_wops) 0x83 0x700 d = Some (- RT_ERROR, d') \<and> devices d' 0x700 = devices d 0x700"
    by (simp add: watchdog_driver_def rt_watchdog_close_def demo_wops_def)
  then show ?thesis
    using rt_device_close_error_sticks [OF _ v, of "- RT_ERROR" "watchdog_driver demo_wops" 3] by (auto simp: accepted_def)
qed

end
