(* ===== verification/Workqueue.thy ===== *)
theory Workqueue
  imports Driver_State
begin

text \<open>
  \<open>src/components/drivers/src/workqueue.c\<close>: a thread that calls the functions of the works other threads submit.  The list of a
  work queue and the nodes inside the works are the queues \<open>work_lists\<close>; \<open>work_threads\<close> is the field \<open>work_thread\<close>.  The
  functions of the works are functions of the application: \<open>call f work data\<close> is the call of the one at address \<open>f\<close>.
\<close>

section \<open>The code\<close>

text \<open>\<open>rt_list_init\<close> of the node: the work is on no list.\<close>

definition rt_work_init :: "ptr \<Rightarrow> ptr \<Rightarrow> ptr \<Rightarrow> 'd drv \<Rightarrow> 'd drv" where
  "rt_work_init work func data d = d\<lparr>works := (works d)(work := \<lparr>work_func = func, work_data = data\<rparr>)\<rparr>"

text \<open>One turn of the loop of the work thread.  The head of an empty list is no work: taking it for one is \<open>None\<close>.  Nothing holds off other
  threads and interrupts between the test of the list and the suspension: \<open>wi\<close> is what they do there.  \<open>ws\<close> is what they do while the
  thread is suspended, \<open>we\<close> while it is preempted at the end of the critical section.\<close>

definition exit_critical_drv :: "'d dworld \<Rightarrow> 'd drv \<Rightarrow> 'd drv option" where
  "exit_critical_drv w d = do {
     s' \<leftarrow> rt_exit_critical (kern d);
     Some (if rt_current_thread s' \<noteq> rt_current_thread (kern d) \<and> rt_interrupt_nest (kern d) = 0
           then w (d\<lparr>kern := s'\<rparr>) else d\<lparr>kern := s'\<rparr>)
   }"

definition workqueue_turn ::
  "(ptr \<Rightarrow> ptr \<Rightarrow> ptr \<Rightarrow> 'd drv \<Rightarrow> 'd drv option) \<Rightarrow> 'd dworld \<Rightarrow> 'd dworld \<Rightarrow> 'd dworld \<Rightarrow> ptr \<Rightarrow> 'd drv \<Rightarrow> 'd drv option" where
  "workqueue_turn call wi ws we queue d = do {
     d \<leftarrow> (if work_lists d queue = []
           then do {
             let d = wi d;
             (_, s) \<leftarrow> rt_thread_suspend (rt_thread_self (kern d)) (kern d);
             schedule_drv ws (d\<lparr>kern := s\<rparr>)
           }
           else Some d);
     let d = d\<lparr>kern := rt_enter_critical (kern d)\<rparr>;
     (case work_lists d queue of
        [] \<Rightarrow> None
      | work # _ \<Rightarrow> do {
          let d = d\<lparr>work_lists := q_remove work (work_lists d)\<rparr>;
          d \<leftarrow> exit_critical_drv we d;
          call (work_func (works d work)) work (work_data (works d work)) d
        })
   }"

text \<open>The size of \<open>struct rt_workqueue\<close> is 12; \<open>entry\<close> is the address of \<open>_workqueue_thread_entry\<close>.\<close>

definition rt_workqueue_create ::
  "world \<Rightarrow> world \<Rightarrow> world \<Rightarrow> world \<Rightarrow> world \<Rightarrow> ptr \<Rightarrow> u8 list \<Rightarrow> u16 \<Rightarrow> u8 \<Rightarrow> 'd drv \<Rightarrow> (ptr \<times> 'd drv) option" where
  "rt_workqueue_create w0 w1 w2 w3 w4 entry name stack_size priority d = do {
     (queue, s) \<leftarrow> rt_malloc w0 12 (kern d);
     let d = d\<lparr>kern := s\<rparr>;
     if queue = RT_NULL then Some (queue, d)
     else do {
       let d = d\<lparr>work_lists := (work_lists d)(queue := [])\<rparr>;
       (thread, s) \<leftarrow> rt_thread_create w1 w2 w3 name entry queue (ucast stack_size) priority 10 (kern d);
       let d = d\<lparr>kern := s, work_threads := (work_threads d)(queue := thread)\<rparr>;
       if thread = RT_NULL
       then do {
         s \<leftarrow> rt_free w4 queue (kern d);
         Some (RT_NULL, d\<lparr>kern := s\<rparr>)
       }
       else do {
         (_, s) \<leftarrow> rt_thread_startup (work_threads d queue) (kern d);
         Some (queue, d\<lparr>kern := s\<rparr>)
       }
     }
   }"

definition rt_workqueue_destroy :: "world \<Rightarrow> ptr \<Rightarrow> 'd drv \<Rightarrow> (rt_err_t \<times> 'd drv) option" where
  "rt_workqueue_destroy w queue d = do {
     RT_ASSERT (queue \<noteq> RT_NULL);
     (_, s) \<leftarrow> rt_thread_delete (work_threads d queue) (kern d);
     s \<leftarrow> rt_free w queue s;
     Some (RT_EOK, d\<lparr>kern := s\<rparr>)
   }"

text \<open>Inserting after the last node of the list is inserting before its head.\<close>

definition rt_workqueue_dowork :: "'d dworld \<Rightarrow> ptr \<Rightarrow> ptr \<Rightarrow> 'd drv \<Rightarrow> (rt_err_t \<times> 'd drv) option" where
  "rt_workqueue_dowork w queue work d = do {
     RT_ASSERT (queue \<noteq> RT_NULL);
     RT_ASSERT (work \<noteq> RT_NULL);
     let d = d\<lparr>kern := rt_enter_critical (kern d)\<rparr>;
     let d = d\<lparr>work_lists := q_remove work (work_lists d)\<rparr>;
     let d = d\<lparr>work_lists := q_insert_before queue work (work_lists d)\<rparr>;
     if th_stat (threads (kern d) (work_threads d queue)) \<noteq> RT_THREAD_READY
     then do {
       d \<leftarrow> exit_critical_drv w d;
       (_, s) \<leftarrow> rt_thread_resume (work_threads d queue) (kern d);
       s \<leftarrow> rt_schedule s;
       Some (RT_EOK, d\<lparr>kern := s\<rparr>)
     }
     else do {
       d \<leftarrow> exit_critical_drv w d;
       Some (RT_EOK, d)
     }
   }"

definition rt_workqueue_cancel_work :: "'d dworld \<Rightarrow> ptr \<Rightarrow> ptr \<Rightarrow> 'd drv \<Rightarrow> (rt_err_t \<times> 'd drv) option" where
  "rt_workqueue_cancel_work w queue work d = do {
     RT_ASSERT (queue \<noteq> RT_NULL);
     RT_ASSERT (work \<noteq> RT_NULL);
     let d = d\<lparr>kern := rt_enter_critical (kern d)\<rparr>;
     let d = d\<lparr>work_lists := q_remove work (work_lists d)\<rparr>;
     d \<leftarrow> exit_critical_drv w d;
     Some (RT_EOK, d)
   }"

section \<open>Lemmas\<close>

lemma critical_section:
  assumes "settled (kern d)"
  shows "exit_critical_drv w (d\<lparr>kern := rt_enter_critical (kern d), work_lists := l\<rparr>) = Some (d\<lparr>work_lists := l\<rparr>)"
  using exit_enter_critical [OF assms] by (simp add: exit_critical_drv_def) (simp add: rt_enter_critical_def)

lemma enter_critical_threads [simp]: "threads (rt_enter_critical s) = threads s"
  by (simp add: rt_enter_critical_def)

text \<open>\<open>with_work\<close> is the table of lists with the work at the end of that of the queue.\<close>

definition with_work :: "ptr \<Rightarrow> ptr \<Rightarrow> 'd drv \<Rightarrow> (ptr, ptr) queues" where
  "with_work queue work d = q_insert_before queue work (q_remove work (work_lists d))"

lemma with_work_eq:
  "with_work queue work d q = removeAll work (work_lists d q) @ (if q = queue then [work] else [])"
  by (simp add: with_work_def q_insert_before_def q_remove_def)

lemma dowork_ready:
  assumes "settled (kern d)" "queue \<noteq> RT_NULL" "work \<noteq> RT_NULL"
    and "th_stat (threads (kern d) (work_threads d queue)) = RT_THREAD_READY"
  shows "rt_workqueue_dowork w queue work d = Some (RT_EOK, d\<lparr>work_lists := with_work queue work d\<rparr>)"
  using assms by (simp add: rt_workqueue_dowork_def Let_def critical_section with_work_def)

lemma dowork_suspended:
  assumes "thread_inv (kern d)" "settled (kern d)" "queue \<noteq> RT_NULL" "work \<noteq> RT_NULL"
    and "good (kern d) (work_threads d queue)" "th_stat (threads (kern d) (work_threads d queue)) = RT_THREAD_SUSPEND"
  obtains s' where "rt_workqueue_dowork w queue work d = Some (RT_EOK, d\<lparr>kern := s', work_lists := with_work queue work d\<rparr>)"
    "rt_schedule (resumed (work_threads d queue) (kern d)) = Some s'" "thread_inv s'" "settled s'"
proof -
  let ?t = "work_threads d queue" and ?s = "kern d"
  obtain s' where s': "rt_schedule (resumed ?t ?s) = Some s'" "thread_inv s'"
    using rt_schedule_total [OF thread_inv_resumed [OF assms(1,5,6)]] by blast
  have "settled s'" using settled_schedule [OF _ s'(1)] assms(2) by (simp add: settled_def)
  moreover have "rt_workqueue_dowork w queue work d = Some (RT_EOK, d\<lparr>kern := s', work_lists := with_work queue work d\<rparr>)"
    using assms(2-4,6) s'(1) rt_thread_resume_eq [OF assms(5,6)]
    by (simp add: rt_workqueue_dowork_def Let_def critical_section with_work_def)
  ultimately show ?thesis using that s' by blast
qed

lemma cancel_work_eq:
  assumes "settled (kern d)" "queue \<noteq> RT_NULL" "work \<noteq> RT_NULL"
  shows "rt_workqueue_cancel_work w queue work d = Some (RT_EOK, d\<lparr>work_lists := q_remove work (work_lists d)\<rparr>)"
  using assms by (simp add: rt_workqueue_cancel_work_def Let_def critical_section)

lemma turn_takes_first:
  assumes "settled (kern d)" "work_lists d queue = work # rest"
  shows "workqueue_turn call wi ws we queue d =
    call (work_func (works d work)) work (work_data (works d work)) (d\<lparr>work_lists := q_remove work (work_lists d)\<rparr>)"
  using assms by (simp add: workqueue_turn_def Let_def critical_section)

text \<open>A worker that finds its list empty is switched out, waiting on no list and for no time, and does not test the list again when it goes on.\<close>

lemma turn_suspends:
  fixes d :: "'d drv"
  assumes "work_lists d queue = []" "thread_inv (kern (wi d))" "runnable (kern (wi d))" "can_switch (kern (wi d))"
  obtains s0 where "thread_inv s0" "settled s0" "rt_current_thread s0 \<noteq> rt_current_thread (kern (wi d))"
    "threads s0 = threads (suspended (rt_current_thread (kern (wi d))) (kern (wi d)))" "\<And>t. good s0 t = good (kern (wi d)) t"
    "unlinked (rt_current_thread (kern (wi d))) (tqs s0)" "TmrOf (rt_current_thread (kern (wi d))) \<notin> set (timer_list s0)"
    "\<And>call ws we. workqueue_turn call wi ws we queue d =
       (if work_lists (ws ((wi d)\<lparr>kern := s0\<rparr>)) queue = [] then None
        else workqueue_turn call wi ws we queue (ws ((wi d)\<lparr>kern := s0\<rparr>)))"
proof -
  let ?s = "kern (wi d)" let ?c = "rt_current_thread ?s" let ?b = "suspended ?c ?s"
  have c: "good ?s ?c" "th_stat (threads ?s ?c) = RT_THREAD_READY" "rt_interrupt_nest ?s = 0"
    using assms(3) by (simp_all add: runnable_def in_thread_context_def)
  note b = thread_inv_suspended [OF assms(2) c(1)]
  obtain s0 where s0: "rt_schedule ?b = Some s0" "thread_inv s0"
    using rt_schedule_total [OF b(1)] assms(4) by (auto simp: can_switch_def)
  note f = rt_schedule_fields [OF s0(1)]
  have lock: "rt_scheduler_lock_nest ?b = 0" using assms(4) by (simp add: can_switch_def)
  have ne: "rt_current_thread s0 \<noteq> ?c"
    using rt_schedule_current [OF thread_invD(1) [OF b(1)] s0(1) lock] b(2) by (auto simp: unlinked_def)
  have sch: "schedule_drv ws ((wi d)\<lparr>kern := ?b\<rparr>) = Some (ws ((wi d)\<lparr>kern := s0\<rparr>))" for ws
    using s0(1) ne c(3) by (simp add: schedule_drv_def)
  have "workqueue_turn call wi ws we queue d =
       (if work_lists (ws ((wi d)\<lparr>kern := s0\<rparr>)) queue = [] then None
        else workqueue_turn call wi ws we queue (ws ((wi d)\<lparr>kern := s0\<rparr>)))" for call ws we
    using assms(1) sch rt_thread_suspend_eq [OF c(1,2)]
    by (simp add: workqueue_turn_def Let_def rt_thread_self_def)
  then show ?thesis
    using that [OF s0(2) settled_schedule [OF lock s0(1)] ne] f b(2,3) good_schedule [OF s0(1)] by simp
qed

section \<open>Properties\<close>

text \<open>
  C24. A submitted work is queued and the worker made to run.  With the scheduler not locked and no switch pending,
  \<open>rt_workqueue_dowork\<close> returns \<open>RT_EOK\<close> with the work as the last of the list of the queue and of no other list, wherever it was before.
  A ready worker is left as it is.  A suspended one becomes ready, as the last of its priority, and its timer is stopped; it is taken off whatever
  list it waits on, also when it is not waiting for works but for something inside the function of an earlier work.  Every turn of the
  worker with a work queued takes the first one off the list and calls its function with its data.
\<close>

theorem rt_workqueue_dowork_queues:
  assumes "thread_inv (kern d)" "settled (kern d)" "queue \<noteq> RT_NULL" "work \<noteq> RT_NULL"
    and "good (kern d) (work_threads d queue)"
    and "th_stat (threads (kern d) (work_threads d queue)) \<in> {RT_THREAD_READY, RT_THREAD_SUSPEND}"
  shows "\<exists>d'. rt_workqueue_dowork w queue work d = Some (RT_EOK, d') \<and> thread_inv (kern d') \<and> settled (kern d') \<and>
    work_lists d' = (\<lambda>q. removeAll work (work_lists d q) @ (if q = queue then [work] else [])) \<and>
    th_stat (threads (kern d') (work_threads d queue)) = RT_THREAD_READY \<and>
    (if th_stat (threads (kern d) (work_threads d queue)) = RT_THREAD_READY then kern d' = kern d
     else last (tqs (kern d') (Ready (unat (th_current_priority (threads (kern d) (work_threads d queue)))))) = work_threads d queue \<and>
       TmrOf (work_threads d queue) \<notin> set (timer_list (kern d')) \<and>
       (\<forall>l. wait_list l \<longrightarrow> work_threads d queue \<notin> set (tqs (kern d') l))) \<and>
    (\<forall>call wi ws we first rest. work_lists d' queue = first # rest \<longrightarrow> workqueue_turn call wi ws we queue d' =
       call (work_func (works d' first)) first (work_data (works d' first))
         (d'\<lparr>work_lists := (\<lambda>q. removeAll first (work_lists d' q))\<rparr>))"
proof -
  let ?t = "work_threads d queue" and ?s = "kern d"
  have l: "with_work queue work d = (\<lambda>q. removeAll work (work_lists d q) @ (if q = queue then [work] else []))"
    by (rule ext) (rule with_work_eq)
  note turn = turn_takes_first [unfolded q_remove_def]
  show ?thesis
  proof (cases "th_stat (threads ?s ?t) = RT_THREAD_READY")
    case True
    let ?d = "d\<lparr>work_lists := with_work queue work d\<rparr>"
    have "settled (kern ?d)" using assms(2) by simp
    then show ?thesis
      using dowork_ready [OF assms(2-4) True, of w] assms(1) True turn [of ?d queue] by (intro exI [of _ ?d]) (simp add: l)
  next
    case False
    then have sus: "th_stat (threads ?s ?t) = RT_THREAD_SUSPEND" using assms(6) by simp
    obtain s' where s': "rt_workqueue_dowork w queue work d = Some (RT_EOK, d\<lparr>kern := s', work_lists := with_work queue work d\<rparr>)"
      "rt_schedule (resumed ?t ?s) = Some s'" "thread_inv s'" "settled s'"
      using dowork_suspended [OF assms(1-5) sus] by blast
    let ?d = "d\<lparr>kern := s', work_lists := with_work queue work d\<rparr>"
    have st: "threads s' = threads (resumed ?t ?s)" "tqs s' = tqs (resumed ?t ?s)" "timer_list s' = timer_list (resumed ?t ?s)"
      using rt_schedule_fields [OF s'(2)] by simp_all
    have "TmrOf ?t \<notin> set (timer_list s')"
      using thread_invD(4) [OF s'(3), of ?t] by (auto simp: st(1))
    moreover have "\<forall>l. wait_list l \<longrightarrow> ?t \<notin> set (tqs s' l)"
      using ready_not_waiting [OF s'(3)] by (simp add: st(1))
    moreover have "settled (kern ?d)" using s'(4) by simp
    ultimately show ?thesis
      using s'(1,3) False turn [of ?d queue] by (intro exI [of _ ?d]) (simp add: l st(1,2) tqs_resumed)
  qed
qed

lemma settled_two_started: "settled two_started"
proof -
  have "unat (rt_ffs 0x88 - 1) = 3" by code_simp
  then show ?thesis by (simp add: settled_def rt_schedule_def highest_ready_thread_def Let_def)
qed

definition demo_wq :: "unit drv" where
  "demo_wq = (zero_drv two_started)\<lparr>work_threads := (\<lambda>_. 0x100)\<rparr>"

lemma demo_wq: "kern demo_wq = two_started" "work_threads demo_wq q = 0x100" "work_lists demo_wq q = []"
  by (simp_all add: demo_wq_def zero_drv_def)

theorem rt_workqueue_dowork_queues_witness:
  "\<exists>d'. rt_workqueue_dowork id 0x900 0x904 demo_wq = Some (RT_EOK, d') \<and> kern d' = two_started \<and> work_lists d' 0x900 = [0x904] \<and>
     work_lists d' 0x980 = [] \<and> workqueue_turn (\<lambda>f work data d. Some d) id id id 0x900 d' = Some (d'\<lparr>work_lists := (\<lambda>q. [])\<rparr>)"
proof -
  have "thread_inv (kern demo_wq)" "settled (kern demo_wq)" "good (kern demo_wq) (work_threads demo_wq 0x900)"
    using thread_inv_two_started good_two_started(1) settled_two_started by (simp_all add: demo_wq)
  then obtain d' where "rt_workqueue_dowork id 0x900 0x904 demo_wq = Some (RT_EOK, d')" "kern d' = two_started"
    "work_lists d' = (\<lambda>q. if q = 0x900 then [0x904] else [])"
    "workqueue_turn (\<lambda>f work data d. Some d) id id id 0x900 d' = Some (d'\<lparr>work_lists := (\<lambda>q. removeAll 0x904 (work_lists d' q))\<rparr>)"
    using rt_workqueue_dowork_queues [of demo_wq "0x900" "0x904" id] by (auto simp: demo_wq)
  then show ?thesis by (auto intro: exI [of _ d'] simp: fun_eq_iff)
qed

lemma wake_then_cancel:
  fixes d :: "'d drv"
  assumes "thread_inv (kern d)" "runnable (kern d)" "can_switch (kern d)" "settled (kern d)" "queue \<noteq> RT_NULL" "work \<noteq> RT_NULL"
    and "work_threads d queue = rt_current_thread (kern d)" "work_lists d queue = []"
  shows "\<exists>d0 d1 d2. th_stat (threads (kern d0) (work_threads d queue)) = RT_THREAD_SUSPEND \<and>
      rt_current_thread (kern d0) \<noteq> work_threads d queue \<and>
      (\<forall>w. rt_workqueue_dowork w queue work d0 = Some (RT_EOK, d1)) \<and> work_lists d1 queue = [work] \<and>
      th_stat (threads (kern d1) (work_threads d queue)) = RT_THREAD_READY \<and>
      (\<forall>w. rt_workqueue_cancel_work w queue work d1 = Some (RT_EOK, d2)) \<and> work_lists d2 queue = [] \<and>
      th_stat (threads (kern d2) (work_threads d queue)) = RT_THREAD_READY \<and>
      (\<forall>call ws we. workqueue_turn call id ws we queue d =
        (if work_lists (ws d0) queue = [] then None else workqueue_turn call id ws we queue (ws d0)))"
proof -
  let ?c = "rt_current_thread (kern d)"
  obtain s0 where s0: "thread_inv s0" "settled s0" "rt_current_thread s0 \<noteq> ?c" "threads s0 = threads (suspended ?c (kern d))"
    "good s0 ?c" "\<And>call ws we. workqueue_turn call id ws we queue d = (if work_lists (ws (d\<lparr>kern := s0\<rparr>)) queue = [] then None
       else workqueue_turn call id ws we queue (ws (d\<lparr>kern := s0\<rparr>)))"
    by (rule turn_suspends [of d queue id]) (use assms in \<open>auto simp: runnable_def\<close>)
  let ?d0 = "d\<lparr>kern := s0\<rparr>"
  have d0: "thread_inv (kern ?d0)" "settled (kern ?d0)" "good (kern ?d0) (work_threads ?d0 queue)"
    "th_stat (threads (kern ?d0) (work_threads ?d0 queue)) = RT_THREAD_SUSPEND"
    using s0(1-5) assms(7) by simp_all
  obtain s' where s': "rt_schedule (resumed (work_threads ?d0 queue) (kern ?d0)) = Some s'" "settled s'"
    using dowork_suspended [OF d0(1,2) assms(5,6) d0(3,4)] by blast
  let ?d1 = "?d0\<lparr>kern := s', work_lists := with_work queue work ?d0\<rparr>"
  have w: "rt_workqueue_dowork w queue work ?d0 = Some (RT_EOK, ?d1)" for w
    using dowork_suspended [OF d0(1,2) assms(5,6) d0(3,4), of w] s'(1) by (metis option.inject)
  have "settled (kern ?d1)" using s'(2) by simp
  note cancel = cancel_work_eq [OF this assms(5,6)]
  show ?thesis
    using s0(3) d0(4) w cancel s0(6) assms(7,8) rt_schedule_fields(3) [OF s'(1)]
    by (intro exI [of _ ?d0] exI [of _ ?d1] exI [of _ "?d1\<lparr>work_lists := q_remove work (work_lists ?d1)\<rparr>"] conjI)
      (simp_all add: with_work_eq q_remove_def)
qed

lemma wake_up_lost:
  fixes d :: "'d drv"
  assumes "thread_inv (kern d)" "runnable (kern d)" "can_switch (kern d)" "settled (kern d)" "queue \<noteq> RT_NULL" "work \<noteq> RT_NULL"
    and "work_threads d queue = rt_current_thread (kern d)" "work_lists d queue = []"
  shows "\<exists>d1 e. (\<forall>w. rt_workqueue_dowork w queue work d = Some (RT_EOK, d1)) \<and> work_lists d1 queue = [work] \<and> kern d1 = kern d \<and>
      work_lists e queue = [work] \<and> th_stat (threads (kern e) (work_threads d queue)) = RT_THREAD_SUSPEND \<and>
      unlinked (work_threads d queue) (tqs (kern e)) \<and> TmrOf (work_threads d queue) \<notin> set (timer_list (kern e)) \<and>
      rt_current_thread (kern e) \<noteq> work_threads d queue \<and>
      (\<forall>call ws we. workqueue_turn call (\<lambda>_. d1) ws we queue d =
        (if work_lists (ws e) queue = [] then None else workqueue_turn call (\<lambda>_. d1) ws we queue (ws e)))"
proof -
  let ?c = "rt_current_thread (kern d)" let ?d1 = "d\<lparr>work_lists := with_work queue work d\<rparr>"
  have "th_stat (threads (kern d) (work_threads d queue)) = RT_THREAD_READY"
    using assms(2,7) by (simp add: runnable_def)
  note w = dowork_ready [OF assms(4-6) this]
  obtain s0 where s0: "rt_current_thread s0 \<noteq> ?c" "threads s0 = threads (suspended ?c (kern d))" "unlinked ?c (tqs s0)"
    "TmrOf ?c \<notin> set (timer_list s0)"
    "\<And>call ws we. workqueue_turn call (\<lambda>_. ?d1) ws we queue d = (if work_lists (ws (?d1\<lparr>kern := s0\<rparr>)) queue = [] then None
       else workqueue_turn call (\<lambda>_. ?d1) ws we queue (ws (?d1\<lparr>kern := s0\<rparr>)))"
    by (rule turn_suspends [of d queue "\<lambda>_. ?d1"]) (use assms in auto)
  show ?thesis
    using s0 w assms(7,8) by (intro exI [of _ ?d1] exI [of _ "?d1\<lparr>kern := s0\<rparr>"] conjI) (simp_all add: with_work_eq)
qed

text \<open>
  The worker and its clients can lose works and misread the list.  A worker that finds the list empty is switched out in a state from
  which \<open>rt_workqueue_dowork\<close> makes it ready with the work queued, and in every state in which it goes on with a work queued its turn is as one that
  found it at once.  (1) When \<open>rt_workqueue_cancel_work\<close> takes the work back before the worker runs, it returns \<open>RT_EOK\<close> and leaves the worker ready with
  an empty list, and the worker, which does not test the list again, takes the head of the list for a work (\<open>None\<close>); so it does when anything else makes it ready.  (2) When the work is
  submitted between the worker's test of the list and its suspension, the client sees a ready worker and returns \<open>RT_EOK\<close>, and the worker is
  suspended with the work queued, waiting on no list and with no timer running.
\<close>

theorem rt_workqueue_wakeups:
  fixes d :: "'d drv"
  assumes "thread_inv (kern d)" "runnable (kern d)" "can_switch (kern d)" "settled (kern d)" "queue \<noteq> RT_NULL" "work \<noteq> RT_NULL"
    and "work_threads d queue = rt_current_thread (kern d)" "work_lists d queue = []"
  shows "(\<exists>d0 d1 d2. th_stat (threads (kern d0) (work_threads d queue)) = RT_THREAD_SUSPEND \<and>
      rt_current_thread (kern d0) \<noteq> work_threads d queue \<and>
      (\<forall>w. rt_workqueue_dowork w queue work d0 = Some (RT_EOK, d1)) \<and> work_lists d1 queue = [work] \<and>
      th_stat (threads (kern d1) (work_threads d queue)) = RT_THREAD_READY \<and>
      (\<forall>w. rt_workqueue_cancel_work w queue work d1 = Some (RT_EOK, d2)) \<and> work_lists d2 queue = [] \<and>
      th_stat (threads (kern d2) (work_threads d queue)) = RT_THREAD_READY \<and>
      (\<forall>call ws we. workqueue_turn call id ws we queue d =
        (if work_lists (ws d0) queue = [] then None else workqueue_turn call id ws we queue (ws d0)))) \<and>
    (\<exists>d1 e. (\<forall>w. rt_workqueue_dowork w queue work d = Some (RT_EOK, d1)) \<and> work_lists d1 queue = [work] \<and> kern d1 = kern d \<and>
      work_lists e queue = [work] \<and> th_stat (threads (kern e) (work_threads d queue)) = RT_THREAD_SUSPEND \<and>
      unlinked (work_threads d queue) (tqs (kern e)) \<and> TmrOf (work_threads d queue) \<notin> set (timer_list (kern e)) \<and>
      rt_current_thread (kern e) \<noteq> work_threads d queue \<and>
      (\<forall>call ws we. workqueue_turn call (\<lambda>_. d1) ws we queue d =
        (if work_lists (ws e) queue = [] then None else workqueue_turn call (\<lambda>_. d1) ws we queue (ws e))))"
  by (intro conjI wake_then_cancel [OF assms] wake_up_lost [OF assms])

theorem rt_workqueue_wakeups_witness:
  "\<exists>d1 e. rt_workqueue_dowork id 0x900 0x904 demo_wq = Some (RT_EOK, d1) \<and> work_lists e 0x900 = [0x904] \<and>
     th_stat (threads (kern e) 0x100) = RT_THREAD_SUSPEND \<and> unlinked 0x100 (tqs (kern e)) \<and>
     (\<forall>call. workqueue_turn call (\<lambda>_. d1) id id 0x900 demo_wq = workqueue_turn call (\<lambda>_. d1) id id 0x900 e)"
proof -
  have "thread_inv (kern demo_wq)" "runnable (kern demo_wq)" "can_switch (kern demo_wq)" "settled (kern demo_wq)"
    "work_threads demo_wq 0x900 = rt_current_thread (kern demo_wq)" "work_lists demo_wq 0x900 = []"
    using thread_inv_two_started runnable_two_started can_switch_two_started settled_two_started by (simp_all add: demo_wq)
  from conjunct2 [OF rt_workqueue_wakeups [OF this(1-4) _ _ this(5,6), of "0x904"]] show ?thesis
    by (simp add: demo_wq) force
qed

end
