(* ===== verification/Kservice_Str.thy ===== *)
theory Kservice_Str
  imports Heap_Props "HOL-Library.Sublist"
begin

text \<open>
  The rest of the string and memory services of \<open>src/src/kservice.c\<close>: the substring search, the comparison
  without regard to case, and the services on top of the heap of \<open>src/src/mem.c\<close>: the copy of a string in
  fresh memory and the aligned allocation with its release.

  A C string is related to the list of its bytes by \<open>cstring_at\<close>; the reference of \<open>rt_strstr\<close> is the first
  position at which the one list is a prefix of the rest of the other.
\<close>

section \<open>Strings\<close>

text \<open>\<open>while (l1 >= l2) { l1--; if (!rt_memcmp(s1, s2, l2)) return s1; s1++; }\<close>, with \<open>l1\<close> and \<open>l2\<close> of
  type \<open>int\<close>.\<close>

function strstr_loop :: "bytes \<Rightarrow> int \<Rightarrow> int \<Rightarrow> ptr \<Rightarrow> ptr \<Rightarrow> ptr" where
  "strstr_loop m l1 l2 s1 s2 =
     (if l2 \<le> l1
      then if rt_memcmp s1 s2 (word_of_int l2) m = 0 then s1
           else strstr_loop m (l1 - 1) l2 (s1 + 1) s2
      else RT_NULL)"
  by auto
termination by (relation "measure (\<lambda>(_, l1, l2, _). nat (l1 - l2 + 1))") auto

declare strstr_loop.simps [simp del]

definition rt_strstr :: "bytes \<Rightarrow> ptr \<Rightarrow> ptr \<Rightarrow> ptr option" where
  "rt_strstr m s1 s2 = do {
     l2 \<leftarrow> rt_strlen m s2;
     if l2 = 0 then Some s1
     else do {
       l1 \<leftarrow> rt_strlen m s1;
       Some (strstr_loop m (sint l1) (sint l2) s1 s2)
     }
   }"

text \<open>\<open>if (ca >= 'A' && ca <= 'Z') ca += 'a' - 'A';\<close> on a byte.\<close>

definition to_lower :: "u8 \<Rightarrow> u8" where
  "to_lower c = (if 65 \<le> c \<and> c \<le> 90 then c + (97 - 65) else c)"

partial_function (option) rt_strcasecmp :: "bytes \<Rightarrow> ptr \<Rightarrow> ptr \<Rightarrow> u32 option" where
  "rt_strcasecmp m a b =
     (let ca = to_lower (m a); cb = to_lower (m b) in
      if ca = cb \<and> ca \<noteq> 0 then rt_strcasecmp m (a + 1) (b + 1)
      else Some (ucast ca - ucast cb))"

text \<open>At \<open>p\<close> stands a C string with the bytes \<open>xs\<close>.\<close>

fun cstring_at :: "bytes \<Rightarrow> ptr \<Rightarrow> u8 list \<Rightarrow> bool" where
  "cstring_at m p [] \<longleftrightarrow> m p = 0"
| "cstring_at m p (x # xs) \<longleftrightarrow> x \<noteq> 0 \<and> m p = x \<and> cstring_at m (p + 1) xs"

lemma cstring_strlen_scan: "cstring_at m p xs \<Longrightarrow> strlen_scan m p = Some (p + of_nat (length xs))"
proof (induction xs arbitrary: p)
  case Nil
  then show ?case by (subst strlen_scan.simps) simp
next
  case (Cons x xs)
  then show ?case by (subst strlen_scan.simps) (simp add: add.assoc)
qed

lemma cstring_strlen: "cstring_at m p xs \<Longrightarrow> rt_strlen m p = Some (of_nat (length xs))"
  by (simp add: rt_strlen_def cstring_strlen_scan)

lemma cstring_bytes_at:
  "cstring_at m p xs \<longleftrightarrow> 0 \<notin> set xs \<and> bytes_at m p (Suc (length xs)) = xs @ [0]"
  by (induction xs arbitrary: p) (auto simp: add.assoc)

lemma cstring_take: "cstring_at m p xs \<Longrightarrow> n \<le> length xs \<Longrightarrow> bytes_at m p n = take n xs"
proof (induction xs arbitrary: p n)
  case (Cons x xs)
  then show ?case by (cases n) auto
qed simp

lemma cstring_drop: "cstring_at m p (x # xs) \<Longrightarrow> cstring_at m (p + 1) xs"
  by simp

text \<open>The reference of \<open>rt_strstr\<close>.\<close>

definition first_occurrence :: "u8 list \<Rightarrow> u8 list \<Rightarrow> nat option" where
  "first_occurrence xs ys = find (\<lambda>i. prefix ys (drop i xs)) [0..<Suc (length xs)]"

lemma find_Suc: "find P [Suc 0..<Suc n] = map_option Suc (find (\<lambda>i. P (Suc i)) [0..<n])"
proof -
  have "find P (map Suc xs) = map_option Suc (find (\<lambda>i. P (Suc i)) xs)" for xs by (induction xs) auto
  then show ?thesis using map_Suc_upt [of 0 n] by (metis)
qed

lemma first_occurrence_Nil: "first_occurrence [] ys = (if ys = [] then Some 0 else None)"
  by (simp add: first_occurrence_def)

lemma first_occurrence_Cons:
  "first_occurrence (x # xs) ys = (if prefix ys (x # xs) then Some 0 else map_option Suc (first_occurrence xs ys))"
proof -
  have "[0..<Suc (length (x # xs))] = 0 # [Suc 0..<Suc (Suc (length xs))]"
    using upt_conv_Cons [of 0 "Suc (length (x # xs))"] by (simp del: upt_Suc)
  then show ?thesis
    unfolding first_occurrence_def
    by (simp only: find.simps find_Suc) (simp del: upt_Suc)
qed

lemma memcmp_prefix:
  assumes "cstring_at m p xs" "cstring_at m q ys" "length ys \<le> length xs" "length ys < 2 ^ 32"
  shows "rt_memcmp p q (word_of_int (int (length ys))) m = 0 \<longleftrightarrow> prefix ys xs"
proof -
  have "unat (word_of_int (int (length ys)) :: u32) = length ys"
    using unat_of_nat_u32 [OF assms(4)] by simp
  then have "rt_memcmp p q (word_of_int (int (length ys))) m = 0 \<longleftrightarrow> take (length ys) xs = ys"
    unfolding rt_memcmp_def memcmp_loop_0 using cstring_take [OF assms(1,3)] cstring_take [OF assms(2)] by simp
  then show ?thesis using assms(3) by (metis prefix_def append_eq_conv_conj)
qed

lemma first_occurrence_short: "length xs < length ys \<Longrightarrow> first_occurrence xs ys = None"
  by (induction xs) (auto simp: first_occurrence_Nil first_occurrence_Cons dest: prefix_length_le)

lemma strstr_loop_first:
  assumes "cstring_at m p xs" "cstring_at m q ys" "ys \<noteq> []" "length ys < 2 ^ 32"
  shows "strstr_loop m (int (length xs)) (int (length ys)) p q =
    (case first_occurrence xs ys of None \<Rightarrow> RT_NULL | Some i \<Rightarrow> p + of_nat i)"
  using assms(1)
proof (induction xs arbitrary: p)
  case Nil
  then show ?case using assms(3) by (subst strstr_loop.simps) (simp add: first_occurrence_Nil)
next
  case (Cons x xs)
  show ?case
  proof (cases "length ys \<le> length (x # xs)")
    case True
    from Cons.IH [OF cstring_drop [OF Cons.prems]] memcmp_prefix [OF Cons.prems assms(2) True assms(4)] True
    show ?thesis
      by (subst strstr_loop.simps) (auto simp: first_occurrence_Cons add.assoc split: option.split)
  next
    case False
    then show ?thesis
      using first_occurrence_short [of "x # xs" ys] by (subst strstr_loop.simps) simp
  qed
qed

lemma to_lower_zero [simp]: "to_lower 0 = 0"
  by (simp add: to_lower_def)

lemma to_lower_0 [simp]: "to_lower c = 0 \<longleftrightarrow> c = 0"
proof -
  have "c + 32 \<noteq> 0" if "c \<le> 90"
  proof
    assume "c + 32 = 0"
    then have "unat (c + 32) = 0" by simp
    then show False using that by (subst (asm) unat_add_lem [THEN iffD1]) (simp_all add: word_le_nat_alt)
  qed
  then show ?thesis by (auto simp: to_lower_def)
qed

lemma byte_difference:
  fixes c d :: u8
  defines "r \<equiv> ucast c - ucast d :: u32"
  shows "r = 0 \<longleftrightarrow> c = d" "sint r < 0 \<longleftrightarrow> c < d"
proof -
  have b: "uint c < 256" "uint d < 256" "0 \<le> uint c" "0 \<le> uint d"
    using unsigned_less [of c, where ?'a = int] unsigned_less [of d, where ?'a = int] by simp_all
  have "r = word_of_int (uint c - uint d)"
    unfolding r_def by simp
  then have "sint r = signed_take_bit 31 (uint c - uint d)" by (simp only: signed_of_int) simp
  then have r: "sint r = uint c - uint d"
    by (subst (asm) signed_take_bit_int_eq_self) (use b in \<open>linarith | simp\<close>)+
  show "sint r < 0 \<longleftrightarrow> c < d" unfolding r by (simp add: word_less_def)
  show "r = 0 \<longleftrightarrow> c = d" using r by (metis right_minus_eq signed_0 unsigned_word_eqI r_def)
qed

lemma strcasecmp_lex:
  assumes "cstring_at m p xs" "cstring_at m q ys"
  shows "\<exists>r. rt_strcasecmp m p q = Some r \<and> (r = 0 \<longleftrightarrow> map to_lower xs = map to_lower ys) \<and>
    (sint r < 0 \<longleftrightarrow> ord_class.lexordp (map to_lower xs) (map to_lower ys))"
  using assms
proof (induction xs arbitrary: p q ys)
  case Nil
  then show ?case
    using byte_difference [of 0 "to_lower (m q)"]
    by (cases ys) (subst rt_strcasecmp.simps, simp add: Let_def word_gt_0)+
next
  case (Cons x xs)
  show ?case
  proof (cases "\<exists>y ys'. ys = y # ys' \<and> to_lower x = to_lower y")
    case True
    then obtain y ys' where y: "ys = y # ys'" "to_lower x = to_lower y" by blast
    then show ?thesis
      using Cons.IH [of "p + 1" "q + 1" ys'] Cons.prems by (subst rt_strcasecmp.simps) (simp add: Let_def)
  next
    case False
    then have "to_lower x \<noteq> to_lower (m q)" using Cons.prems by (cases ys) auto
    moreover have "to_lower (m q) = (case ys of [] \<Rightarrow> 0 | y # _ \<Rightarrow> to_lower y)"
      using Cons.prems by (cases ys) auto
    ultimately show ?thesis
      using Cons.prems byte_difference [of "to_lower x" "to_lower (m q)"]
      by (subst rt_strcasecmp.simps) (auto simp: Let_def split: list.splits)
  qed
qed

section \<open>Strings in the heap\<close>

definition rt_strdup :: "world \<Rightarrow> ptr \<Rightarrow> bytes \<Rightarrow> kstate \<Rightarrow> (ptr \<times> bytes \<times> kstate) option" where
  "rt_strdup w str m s = do {
     n \<leftarrow> rt_strlen m str;
     let len = n + 1;
     (tmp, s) \<leftarrow> rt_malloc w len s;
     if tmp = RT_NULL then Some (RT_NULL, m, s)
     else Some (tmp, rt_memcpy tmp str len m, s)
   }"

text \<open>The bytes from \<open>p\<close> on, \<open>n\<close> of them, do not belong to the free memory of the heap: they are outside of
  it or in a live area.\<close>

definition not_free :: "heap \<Rightarrow> ptr \<Rightarrow> nat \<Rightarrow> bool" where
  "not_free h p n \<longleftrightarrow> unat p + n \<le> unat (heap_ptr h) \<or>
     unat (heap_ptr h) + unat (heap_end h) \<le> unat p \<and> unat p + n \<le> 2 ^ 32 \<or>
     (\<exists>q k. live h q = Some k \<and> unat q \<le> unat p \<and> unat p + n \<le> unat q + k)"

lemma fwd_safe_apart:
  assumes "apart q k p n" "n \<le> k" "unat p + n \<le> 2 ^ 32"
  shows "fwd_safe q p n"
  using assms unat_word_minus [of p q] unat_minus_wrap [of q p] unat_u32_less [of p]
  by (cases "unat p \<le> unat q") (auto simp: fwd_safe_def apart_def)

text \<open>A fresh area of the heap: what \<open>rt_malloc\<close> promises of a pointer other than \<open>RT_NULL\<close>.\<close>

definition fresh :: "heap \<Rightarrow> heap \<Rightarrow> ptr \<Rightarrow> nat \<Rightarrow> bool" where
  "fresh h h' p k \<longleftrightarrow> heap_ok h' \<and> heap_ptr h' = heap_ptr h \<and> heap_end h' = heap_end h \<and> p \<noteq> RT_NULL \<and>
     4 dvd unat p \<and> live h p = None \<and> live h' = (live h)(p \<mapsto> k)"

lemma rt_malloc_cases:
  assumes "heap_ready s" "unat n \<le> 2 ^ 32 - 4"
  obtains "rt_malloc w n s = Some (RT_NULL, s)"
  | p h' k where "rt_malloc w n s = Some (p, s\<lparr>kheap := h'\<rparr>)" "fresh (kheap s) h' p k" "unat n \<le> k"
proof -
  from rt_malloc_ok [OF assms, of w] obtain p h' where
    "rt_malloc w n s = Some (p, s\<lparr>kheap := h'\<rparr>)" "heap_ok h'" "heap_ptr h' = heap_ptr (kheap s)" "heap_end h' = heap_end (kheap s)"
    "p = RT_NULL \<and> h' = kheap s \<or> p \<noteq> RT_NULL \<and> 4 dvd unat p \<and>
     live (kheap s) p = None \<and> (\<exists>k. unat n \<le> k \<and> live h' = (live (kheap s))(p \<mapsto> k))"
    by (auto split: if_splits)
  then show ?thesis using that by (auto simp: fresh_def)
qed

lemma fresh_top: "fresh h h' p k \<Longrightarrow> unat p + k < 2 ^ 32 - 12"
  using live_bounds(2) [of h' p k] arenaD(3) heap_coreD(1) by (fastforce simp: fresh_def heap_ok_def)

lemma fresh_apart:
  assumes "fresh h h' p k" "not_free h q n"
  shows "apart p k q n" "unat q + n \<le> 2 ^ 32"
proof -
  have l: "heap_ok h'" "live h' p = Some k" and eq: "heap_ptr h' = heap_ptr h" "heap_end h' = heap_end h"
    using assms(1) by (auto simp: fresh_def)
  have top: "unat (heap_ptr h) + unat (heap_end h) < 2 ^ 32"
    using arenaD(3) [OF heap_coreD(1)] l(1) eq by (fastforce simp: heap_ok_def)
  note b = live_bounds(1,2) [OF l, unfolded eq]
  from assms(2) consider "unat q + n \<le> unat (heap_ptr h)"
    | "unat (heap_ptr h) + unat (heap_end h) \<le> unat q" "unat q + n \<le> 2 ^ 32"
    | r j where "live h r = Some j" "unat r \<le> unat q" "unat q + n \<le> unat r + j"
    unfolding not_free_def by blast
  then have "apart p k q n \<and> unat q + n \<le> 2 ^ 32"
  proof cases
    case (3 r j)
    then have r: "live h' r = Some j" "r \<noteq> p" using assms(1) by (auto simp: fresh_def)
    from live_disjoint [OF l r(1)] live_bounds(2) [OF l(1) r(1)] r(2) 3 eq top
    show ?thesis by (auto simp: apart_def)
  qed (use b top in \<open>auto simp: apart_def\<close>)
  then show "apart p k q n" "unat q + n \<le> 2 ^ 32" by simp_all
qed

lemma rt_strdup_copies:
  assumes rdy: "heap_ready s" and str: "cstring_at m p xs" "Suc (length xs) \<le> 2 ^ 32 - 4"
    and nf: "not_free (kheap s) p (Suc (length xs))"
  shows "rt_strdup w p m s = Some (RT_NULL, m, s) \<or>
    (\<exists>q m' h' k. rt_strdup w p m s = Some (q, m', s\<lparr>kheap := h'\<rparr>) \<and> fresh (kheap s) h' q k \<and>
       Suc (length xs) \<le> k \<and> cstring_at m' q xs \<and> (\<forall>a. Suc (length xs) \<le> unat (a - q) \<longrightarrow> m' a = m a))"
proof -
  let ?n = "of_nat (length xs) + 1 :: u32"
  have n: "unat ?n = Suc (length xs)"
    using unat_of_nat_u32 [of "Suc (length xs)"] str(2) by (simp add: add.commute)
  then have "unat ?n \<le> 2 ^ 32 - 4" using str(2) by simp
  from rt_malloc_cases [OF rdy this, of w] show ?thesis
  proof cases
    case 1
    then show ?thesis by (simp add: rt_strdup_def cstring_strlen [OF str(1)])
  next
    case (2 q h' k)
    have fwd: "fwd_safe q p (unat ?n)"
      using fresh_apart [OF 2(2) nf] 2(3) by (intro fwd_safe_apart [of q k]) (simp_all add: n)
    let ?m = "copy q p (Suc (length xs)) m"
    have "rt_strdup w p m s = Some (q, ?m, s\<lparr>kheap := h'\<rparr>)"
      using 2(1,2) by (simp add: rt_strdup_def cstring_strlen [OF str(1)] rt_memcpy_copy [OF fwd] n fresh_def)
    moreover have "cstring_at ?m q xs"
      using str bytes_at_copy [of "Suc (length xs)" q p m] unfolding cstring_bytes_at by simp
    moreover have "\<forall>a. Suc (length xs) \<le> unat (a - q) \<longrightarrow> ?m a = m a" by (simp add: copy_def)
    ultimately show ?thesis using 2(2,3) n by auto
  qed
qed

section \<open>Aligned allocation\<close>

definition rt_malloc_align ::
  "world \<Rightarrow> rt_size_t \<Rightarrow> rt_size_t \<Rightarrow> bytes \<Rightarrow> kstate \<Rightarrow> (ptr \<times> bytes \<times> kstate) option" where
  "rt_malloc_align w sz align m s =
     (let align = (align + 3) AND NOT 3;
          align_size = ((sz + 3) AND NOT 3) + align
      in do {
        (ptr, s) \<leftarrow> rt_malloc w align_size s;
        if ptr \<noteq> RT_NULL
        then let align_ptr = (if ptr AND (align - 1) = 0 then ptr + align
                              else (ptr + (align - 1)) AND NOT (align - 1))
             in Some (align_ptr, store32 (align_ptr - 4) ptr m, s)
        else Some (ptr, m, s)
      })"

definition rt_free_align :: "world \<Rightarrow> ptr \<Rightarrow> bytes \<Rightarrow> kstate \<Rightarrow> kstate option" where
  "rt_free_align w ptr m s = (let real_ptr = load32 m (ptr - 4) in rt_free w real_ptr s)"

lemma load32_store32: "load32 (store32 p v m) p = v"
proof -
  have "load32 (store32 p v m) p =
      ucast (ucast v :: u8) OR push_bit 8 (ucast (ucast (drop_bit 8 v) :: u8)) OR
      push_bit 16 (ucast (ucast (drop_bit 16 v) :: u8)) OR push_bit 24 (ucast (ucast (drop_bit 24 v) :: u8))"
    by (simp add: load32_def store32_def)
  also have "\<dots> = v"
  proof (rule bit_word_eqI)
    fix n
    assume "n < LENGTH(32)"
    then have "n < 8 \<or> 8 \<le> n \<and> n < 16 \<or> 16 \<le> n \<and> n < 24 \<or> 24 \<le> n \<and> n < 32" by auto
    then show "bit (ucast (ucast v :: u8) OR push_bit 8 (ucast (ucast (drop_bit 8 v) :: u8)) OR
        push_bit 16 (ucast (ucast (drop_bit 16 v) :: u8)) OR push_bit 24 (ucast (ucast (drop_bit 24 v) :: u8)) :: u32) n = bit v n"
      by (elim disjE conjE) (simp_all add: bit_simps, auto)
  qed
  finally show ?thesis .
qed

lemma load32_cong: "bytes_at m p 4 = bytes_at m' p 4 \<Longrightarrow> load32 m p = load32 m' p"
  by (simp add: load32_def bytes_at_numeral add.assoc)

lemma store32_outside: "4 \<le> unat (a - p) \<Longrightarrow> store32 p v m a = m a"
  by (auto simp: store32_def)

text \<open>The aligned pointer: the next multiple of \<open>2 ^ k\<close> above \<open>p\<close>.\<close>

lemma align_ptr_correct:
  fixes p :: ptr
  assumes k: "2 \<le> k" "k < 32" and p: "4 dvd unat p" "unat p + 2 ^ k < 2 ^ 32"
  defines "q \<equiv> if p AND (2 ^ k - 1) = 0 then p + 2 ^ k else (p + (2 ^ k - 1)) AND NOT (2 ^ k - 1)"
  shows "2 ^ k dvd unat q" "unat p + 4 \<le> unat q" "unat q \<le> unat p + 2 ^ k"
proof -
  have m: "(2 ^ k - 1 :: u32) = mask k" by (simp add: mask_eq_exp_minus_1)
  have k2: "unat (2 ^ k :: u32) = 2 ^ k"
    using unat_of_nat_u32 [of "2 ^ k"] power_strict_increasing [OF k(2), of "2 :: nat"] by simp
  have km: "unat (2 ^ k - 1 :: u32) = 2 ^ k - 1" using k2 k(2) by (subst unat_minus_one) auto
  have four: "(4 :: nat) dvd 2 ^ k" using k(1) le_imp_power_dvd [of 2 k "2 :: nat"] by simp
  have al: "p AND (2 ^ k - 1) = 0 \<longleftrightarrow> 2 ^ k dvd unat p"
    unfolding m take_bit_eq_mask [symmetric]
    by (metis dvd_eq_mod_eq_0 take_bit_eq_mod unat_eq_0 unsigned_take_bit_eq)
  have "2 ^ k dvd unat q \<and> unat p + 4 \<le> unat q \<and> unat q \<le> unat p + 2 ^ k"
  proof (cases "2 ^ k dvd unat p")
    case True
    then have "unat q = unat p + 2 ^ k" using al p(2) k2 by (simp add: q_def unat_word_plus)
    then show ?thesis using True four by (auto dest: dvd_imp_le)
  next
    case False
    let ?x = "unat p + (2 ^ k - 1)"
    have "unat (p + (2 ^ k - 1)) = ?x" using p(2) km by (subst unat_word_plus) simp_all
    then have q: "unat q = ?x - ?x mod 2 ^ k"
      using False al k(2) unat_and_not_mask [of k "p + (2 ^ k - 1)"] by (simp add: q_def m)
    have "2 ^ k dvd unat q" unfolding q by (simp add: minus_mod_eq_mult_div)
    moreover have "unat q \<le> unat p + 2 ^ k" unfolding q by simp
    moreover have "?x mod 2 ^ k \<le> 2 ^ k - 1" by (simp add: less_Suc_eq_le [symmetric])
    then have "unat p \<le> unat q" unfolding q by linarith
    moreover have "unat p \<noteq> unat q" using False calculation(1) by auto
    moreover have "4 dvd unat q" using four calculation(1) by (rule dvd_trans)
    then have "unat p < unat q \<Longrightarrow> unat p + 4 \<le> unat q" using p(1) by presburger
    ultimately show ?thesis by linarith
  qed
  then show "2 ^ k dvd unat q" "unat p + 4 \<le> unat q" "unat q \<le> unat p + 2 ^ k" by simp_all
qed

text \<open>\<open>rt_malloc_align\<close>: no room, or an aligned pointer into a fresh area that holds the bytes asked for behind
  it, with the address of that area in the word before it.\<close>

lemma rt_malloc_align_cases:
  assumes rdy: "heap_ready s" and k: "2 \<le> k" "k < 32" and n: "unat sz + 2 ^ k \<le> 2 ^ 32 - 4"
  obtains "rt_malloc_align w sz (2 ^ k) m s = Some (RT_NULL, m, s)"
  | p q h' j where "rt_malloc_align w sz (2 ^ k) m s = Some (p, store32 (p - 4) q m, s\<lparr>kheap := h'\<rparr>)"
      "fresh (kheap s) h' q j" "2 ^ k dvd unat p" "unat q + 4 \<le> unat p" "unat p + unat sz \<le> unat q + j"
proof -
  have k2: "unat (2 ^ k :: u32) = 2 ^ k"
    using unat_of_nat_u32 [of "2 ^ k"] power_strict_increasing [OF k(2), of "2 :: nat"] by simp
  have four: "(4 :: nat) dvd 2 ^ k" using k(1) le_imp_power_dvd [of 2 k "2 :: nat"] by simp
  have al: "(x + 3) AND NOT 3 = RT_ALIGN x 4" for x :: u32 by (simp add: RT_ALIGN_def add.commute)
  have "unat (RT_ALIGN (2 ^ k) 4) = (2 ^ k + 3) div 4 * 4"
    using RT_ALIGN_4 [of "2 ^ k"] n k2 by simp
  also have "\<dots> = 2 ^ k" using four by (auto elim!: dvdE)
  finally have a: "RT_ALIGN (2 ^ k) 4 = 2 ^ k" using k2 by (simp add: word_unat_eq_iff)
  let ?n = "RT_ALIGN sz 4 + 2 ^ k"
  have sz: "unat (RT_ALIGN sz 4) = (unat sz + 3) div 4 * 4" using RT_ALIGN_4 [of sz] n by simp
  have dv: "4 dvd unat (RT_ALIGN sz 4) + 2 ^ k" using RT_ALIGN_4_dvd four by simp
  have "unat (RT_ALIGN sz 4) + 2 ^ k < 2 ^ 32" using sz n dv by (auto elim!: dvdE)
  then have n': "unat ?n = unat (RT_ALIGN sz 4) + 2 ^ k" "unat ?n \<le> 2 ^ 32 - 4"
    using dv k2 by (auto simp: unat_word_plus elim!: dvdE)
  from rt_malloc_cases [OF rdy n'(2), of w] show thesis
  proof cases
    case 1
    then have "rt_malloc_align w sz (2 ^ k) m s = Some (RT_NULL, m, s)"
      unfolding rt_malloc_align_def al a Let_def by simp
    then show thesis by (rule that(1))
  next
    case (2 q h' j)
    have top: "unat q + 2 ^ k < 2 ^ 32" using fresh_top [OF 2(2)] 2(3) n'(1) by simp
    define p where "p = (if q AND (2 ^ k - 1) = 0 then q + 2 ^ k else (q + (2 ^ k - 1)) AND NOT (2 ^ k - 1))"
    have q: "4 dvd unat q" "q \<noteq> RT_NULL" using 2(2) by (auto simp: fresh_def)
    note P = align_ptr_correct [OF k q(1) top, folded p_def]
    have "rt_malloc_align w sz (2 ^ k) m s = Some (p, store32 (p - 4) q m, s\<lparr>kheap := h'\<rparr>)"
      using 2(1) q(2) unfolding rt_malloc_align_def al a Let_def p_def by simp
    moreover have "unat p + unat sz \<le> unat q + j" using P(3) 2(3) n'(1) sz by linarith
    ultimately show thesis using that(2) 2(2) P(1,2) by blast
  qed
qed

lemma rt_free_align_fresh:
  assumes "heap_ready s" "fresh (kheap s) h' q j" "load32 m (p - 4) = q"
  shows "\<exists>h''. rt_free_align w p m (s\<lparr>kheap := h'\<rparr>) = Some (s\<lparr>kheap := h''\<rparr>) \<and> heap_ok h'' \<and> live h'' = live (kheap s)"
proof -
  have "heap_ready (s\<lparr>kheap := h'\<rparr>)" "live h' q = Some j" "(live h')(q := None) = live (kheap s)"
    using assms(1,2) heap_ready_kheap by (auto simp: fresh_def fun_eq_iff)
  then show ?thesis using rt_free_ok [of "s\<lparr>kheap := h'\<rparr>" q j w] assms(3) by (auto simp: rt_free_align_def)
qed

section \<open>Properties\<close>

text \<open>
  \<open>rt_strstr\<close> returns the address of the first occurrence of the second string in the first one, and
  \<open>RT_NULL\<close> when there is none; \<open>rt_strcasecmp\<close> ends, its result is 0 exactly when the strings are equal up
  to case, and read as a signed number it is negative exactly when the first string comes first in the
  lexicographic order of the lower-case strings.
\<close>

theorem rt_strstr_strcasecmp_correct:
  assumes "cstring_at m p xs" "cstring_at m q ys" "length xs < 2 ^ 31" "length ys < 2 ^ 31"
  shows "rt_strstr m p q = Some (case first_occurrence xs ys of None \<Rightarrow> RT_NULL | Some i \<Rightarrow> p + of_nat i) \<and>
    (\<exists>r. rt_strcasecmp m p q = Some r \<and> (r = 0 \<longleftrightarrow> map to_lower xs = map to_lower ys) \<and>
      (sint r < 0 \<longleftrightarrow> ord_class.lexordp (map to_lower xs) (map to_lower ys)))"
proof (rule conjI [OF _ strcasecmp_lex [OF assms(1,2)]])
  have s: "sint (of_nat n :: u32) = int n" if "n < 2 ^ 31" for n
    using that by (simp add: signed_of_nat signed_take_bit_int_eq_self)
  have "unat (of_nat (length ys) :: u32) = length ys" by (rule unat_of_nat_u32) (use assms(4) in simp)
  then have z: "of_nat (length ys) = (0 :: u32) \<longleftrightarrow> ys = []"
    unfolding unat_eq_0 [symmetric] by (simp only: length_0_conv)
  show "rt_strstr m p q = Some (case first_occurrence xs ys of None \<Rightarrow> RT_NULL | Some i \<Rightarrow> p + of_nat i)"
  proof (cases "ys = []")
    case True
    then show ?thesis
      using cstring_strlen [OF assms(2)] by (cases xs) (simp_all add: rt_strstr_def first_occurrence_Nil first_occurrence_Cons)
  next
    case False
    with strstr_loop_first [OF assms(1,2) False] assms(3,4) show ?thesis
      by (simp add: rt_strstr_def cstring_strlen [OF assms(1)] cstring_strlen [OF assms(2)] s z)
  qed
qed

text \<open>The strings \<open>"abcab"\<close> at \<open>0x100\<close> and \<open>"CA"\<close>, \<open>"ca"\<close> at \<open>0x200\<close> and \<open>0x300\<close>.\<close>

definition sample_bytes :: bytes where
  "sample_bytes = (\<lambda>_. 0)(0x100 := 97, 0x101 := 98, 0x102 := 99, 0x103 := 97, 0x104 := 98,
     0x200 := 67, 0x201 := 65, 0x300 := 99, 0x301 := 97)"

lemma sample_strings:
  "cstring_at sample_bytes 0x100 [97, 98, 99, 97, 98]" "cstring_at sample_bytes 0x200 [67, 65]"
  "cstring_at sample_bytes 0x300 [99, 97]"
  by (simp_all add: sample_bytes_def)

theorem rt_strstr_strcasecmp_correct_witness:
  "rt_strstr sample_bytes 0x100 0x300 = Some 0x102 \<and> rt_strstr sample_bytes 0x100 0x200 = Some RT_NULL \<and>
   rt_strcasecmp sample_bytes 0x200 0x300 = Some 0"
proof -
  have "first_occurrence [97, 98, 99, 97, 98] [99, 97] = Some 2" "first_occurrence [97, 98, 99, 97, 98] [67, 65] = None"
    "map to_lower [67, 65] = map to_lower [99, 97]"
    by (simp_all add: first_occurrence_Cons first_occurrence_Nil to_lower_def)
  then show ?thesis
    using rt_strstr_strcasecmp_correct [OF sample_strings(1,3)] rt_strstr_strcasecmp_correct [OF sample_strings(1,2)]
      rt_strstr_strcasecmp_correct [OF sample_strings(2,3)] by auto
qed

text \<open>
  \<open>rt_strdup\<close> of a string that is not in free memory of the heap: \<open>RT_NULL\<close> and no change, or a fresh area
  with a copy of the string, every byte outside of the copy as before.
\<close>

theorem rt_strdup_correct:
  assumes "heap_ready s" "cstring_at m p xs" "Suc (length xs) \<le> 2 ^ 32 - 4" "not_free (kheap s) p (Suc (length xs))"
  shows "rt_strdup w p m s = Some (RT_NULL, m, s) \<or>
    (\<exists>q m' h' k. rt_strdup w p m s = Some (q, m', s\<lparr>kheap := h'\<rparr>) \<and> fresh (kheap s) h' q k \<and>
       Suc (length xs) \<le> k \<and> cstring_at m' q xs \<and> (\<forall>a. Suc (length xs) \<le> unat (a - q) \<longrightarrow> m' a = m a))"
  by (rule rt_strdup_copies [OF assms])

theorem rt_strdup_correct_witness:
  "\<exists>s q m' s'. rt_system_heap_init 0x1000 0x107c boot = Some s \<and>
     rt_strdup id 0x100 sample_bytes s = Some (q, m', s') \<and> (q = RT_NULL \<or> cstring_at m' q [97, 98, 99, 97, 98])"
proof -
  obtain s where s: "rt_system_heap_init 0x1000 0x107c boot = Some s" "heap_ready s" "heap_ptr (kheap s) = 0x1000"
    by (rule boot_heap)
  then have "not_free (kheap s) 0x100 (Suc (length [97, 98, 99, 97, 98 :: u8]))" by (simp add: not_free_def)
  from rt_strdup_correct [OF s(2) sample_strings(1) _ this, of id] s(1) show ?thesis by auto
qed

text \<open>
  C37. \<open>rt_malloc_align\<close> and \<open>rt_free_align\<close>, for an alignment of \<open>2 ^ k\<close> bytes, at least 4: the call returns
  \<open>RT_NULL\<close> and changes nothing, or a pointer that is a multiple of \<open>2 ^ k\<close> with all the bytes asked for,
  and the word before them, inside one fresh area of the heap, and only that word is written.  As long as
  the client leaves that word alone, \<open>rt_free_align\<close> finds the area again and frees it, so that the live
  areas are what they were before.
\<close>

theorem rt_malloc_align_roundtrip:
  assumes "heap_ready s" "2 \<le> k" "k < 32" "unat sz + 2 ^ k \<le> 2 ^ 32 - 4"
  shows "rt_malloc_align w sz (2 ^ k) m s = Some (RT_NULL, m, s) \<or>
    (\<exists>p m' h' q j. rt_malloc_align w sz (2 ^ k) m s = Some (p, m', s\<lparr>kheap := h'\<rparr>) \<and> heap_ok h' \<and> 2 ^ k dvd unat p \<and>
       live (kheap s) q = None \<and> live h' = (live (kheap s))(q \<mapsto> j) \<and>
       unat q \<le> unat (p - 4) \<and> unat p + unat sz \<le> unat q + j \<and>
       (\<forall>a. 4 \<le> unat (a - (p - 4)) \<longrightarrow> m' a = m a) \<and>
       (\<forall>m''. bytes_at m'' (p - 4) 4 = bytes_at m' (p - 4) 4 \<longrightarrow>
          (\<exists>h''. rt_free_align w' p m'' (s\<lparr>kheap := h'\<rparr>) = Some (s\<lparr>kheap := h''\<rparr>) \<and> heap_ok h'' \<and>
             live h'' = live (kheap s))))"
  using rt_malloc_align_cases [OF assms, of w m]
proof cases
  case (2 p q h' j)
  let ?m = "store32 (p - 4) q m"
  have "\<exists>h''. rt_free_align w' p m'' (s\<lparr>kheap := h'\<rparr>) = Some (s\<lparr>kheap := h''\<rparr>) \<and> heap_ok h'' \<and> live h'' = live (kheap s)"
    if "bytes_at m'' (p - 4) 4 = bytes_at ?m (p - 4) 4" for m''
    using load32_cong [OF that] by (intro rt_free_align_fresh [OF assms(1) 2(2)]) (simp add: load32_store32)
  moreover have "unat q \<le> unat (p - 4)" using 2(4) unat_word_minus [of 4 p] by simp
  ultimately show ?thesis
    using 2 store32_outside [of _ "p - 4" q m]
    by (intro disjI2 exI [of _ p] exI [of _ ?m] exI [of _ h'] exI [of _ q] exI [of _ j]) (auto simp: fresh_def)
qed simp

text \<open>On the heap of 100 bytes at \<open>0x1000\<close>, 20 bytes aligned to 32: the fresh area is at \<open>0x100c\<close>.\<close>

lemma rt_malloc_align_boot:
  assumes "heap_ready s" "blocks (kheap s) = [0]" "lfree (kheap s) = 0" "mem_size_aligned (kheap s) = 100"
    "live (kheap s) = Map.empty" "heap_ptr (kheap s) = 0x1000"
  shows "\<exists>s'. rt_malloc_align w 20 (2 ^ 5) m s = Some (0x1020, store32 0x101c 0x100c m, s')"
proof -
  have core: "heap_core (kheap s) [0]" using assms(1,2) by (simp add: heap_ok_def heap_ready_def)
  have "hm_used (hp_mem (kheap s) 0) = 0"
    using live_data_ptr [of "kheap s" 0] assms(2,5) by (simp split: if_splits)
  moreover have "hm_next (hp_mem (kheap s) 0) = 112"
    using heap_wf(1) [OF core] heap_coreD(1) [OF core] assms(4) by (simp add: arena_def)
  ultimately have "first_fit 52 (kheap s) = Some 0"
    using assms(2-4) by (simp add: first_fit_def from_lfree_def fit_at_def)
  then obtain s' where "rt_malloc w 52 s = Some (0x100c, s')"
    using rt_malloc_ok [OF assms(1), of 52 w] assms(4,6) by (auto simp: request_def RT_ALIGN_def data_ptr_def)
  then show ?thesis by (simp add: rt_malloc_align_def Let_def)
qed

theorem rt_malloc_align_roundtrip_witness:
  "\<exists>s s' s'' m'. rt_system_heap_init 0x1000 0x107c boot = Some s \<and>
     rt_malloc_align id 20 32 (\<lambda>_. 0) s = Some (0x1020, m', s') \<and> live (kheap s') \<noteq> Map.empty \<and>
     rt_free_align id 0x1020 m' s' = Some s'' \<and> live (kheap s'') = Map.empty"
proof -
  obtain s where s: "rt_system_heap_init 0x1000 0x107c boot = Some s" "heap_ready s" "live (kheap s) = Map.empty"
    "blocks (kheap s) = [0]" "heap_ptr (kheap s) = 0x1000" "lfree (kheap s) = 0" "mem_size_aligned (kheap s) = 100"
    by (rule boot_heap)
  let ?m = "store32 0x101c 0x100c (\<lambda>_. 0)"
  obtain s1 where s1: "rt_malloc_align id 20 (2 ^ 5) (\<lambda>_. 0) s = Some (0x1020, ?m, s1)"
    using rt_malloc_align_boot [OF s(2,4,6,7,3,5)] by blast
  with rt_malloc_align_roundtrip [OF s(2), of 5 20 id "\<lambda>_. 0" id] obtain h' q j where
    h': "s1 = s\<lparr>kheap := h'\<rparr>" "live h' = (live (kheap s))(q \<mapsto> j)"
    and free: "\<forall>m''. bytes_at m'' (0x1020 - 4) 4 = bytes_at ?m (0x1020 - 4) 4 \<longrightarrow>
      (\<exists>h''. rt_free_align id 0x1020 m'' s1 = Some (s\<lparr>kheap := h''\<rparr>) \<and> live h'' = live (kheap s))"
    by (simp del: bytes_at.simps) blast
  from free [THEN spec, of ?m] obtain h'' where
    "rt_free_align id 0x1020 ?m s1 = Some (s\<lparr>kheap := h''\<rparr>)" "live h'' = live (kheap s)" by blast
  then show ?thesis
    using s(1,3) s1 h' by (intro exI [of _ s] exI [of _ s1] exI [of _ "s\<lparr>kheap := h''\<rparr>"] exI [of _ ?m]) auto
qed

end
