(* ===== verification/Cvt.thy ===== *)
theory Cvt
  imports RT_Prelude "HOL-Library.Multiset"
begin

text \<open>
  The sorting routines \<open>bubble16\<close> and \<open>bubble32\<close> of \<open>src/bsp/stm32f10x-curer/drivers/cvt.c\<close>, which the
  curer's output thread filters its measurements with.  The two differ in the type of the elements only;
  the array is a list, and the loops run over indices as in the source.
\<close>

section \<open>The routines\<close>

text \<open>The inner loop \<open>for (j = 0; j < len - 1 - i; j++)\<close> from \<open>j\<close> on, with \<open>n = len - 1 - i\<close> and the flag
  \<open>unchange\<close>; \<open>out_of_order\<close> is \<open>>\<close> for ascending and \<open><\<close> for descending order.\<close>

function bubble_inner :: "('a \<Rightarrow> 'a \<Rightarrow> bool) \<Rightarrow> nat \<Rightarrow> nat \<Rightarrow> bool \<Rightarrow> 'a list \<Rightarrow> bool \<times> 'a list" where
  "bubble_inner out_of_order n j unchange src =
     (if j < n
      then if out_of_order (src ! j) (src ! (j + 1))
           then bubble_inner out_of_order n (j + 1) False (src[j := src ! (j + 1), j + 1 := src ! j])
           else bubble_inner out_of_order n (j + 1) unchange src
      else (unchange, src))"
  by auto
termination by (relation "measure (\<lambda>(_, n, j, _). n - j)") auto

text \<open>The outer loop \<open>for (i = 0; i < len; i++)\<close> from \<open>i\<close> on.\<close>

function bubble_outer :: "('a \<Rightarrow> 'a \<Rightarrow> bool) \<Rightarrow> nat \<Rightarrow> nat \<Rightarrow> 'a list \<Rightarrow> 'a list" where
  "bubble_outer out_of_order len i src =
     (if i < len
      then let (unchange, src) = bubble_inner out_of_order (len - 1 - i) 0 True src
           in if unchange then src else bubble_outer out_of_order len (i + 1) src
      else src)"
  by auto
termination by (relation "measure (\<lambda>(_, len, i, _). len - i)") auto

declare bubble_inner.simps [simp del] bubble_outer.simps [simp del]

definition bubble16 :: "u16 list \<Rightarrow> u8 \<Rightarrow> u8 \<Rightarrow> u16 list" where
  "bubble16 src len up_down =
     (if up_down = 0 then bubble_outer (>) (unat len) 0 src else bubble_outer (<) (unat len) 0 src)"

definition bubble32 :: "u32 list \<Rightarrow> u8 \<Rightarrow> u8 \<Rightarrow> u32 list" where
  "bubble32 src len up_down =
     (if up_down = 0 then bubble_outer (>) (unat len) 0 src else bubble_outer (<) (unat len) 0 src)"

section \<open>The loops sort\<close>

lemma mset_exchange: "Suc j < length xs \<Longrightarrow> mset (xs[j := xs ! Suc j, Suc j := xs ! j]) = mset xs"
  using mset_swap [of "Suc j" xs j] by (simp add: list_update_swap)

lemma bubble_inner_mset:
  "n < length xs \<Longrightarrow> mset (snd (bubble_inner gt n j u xs)) = mset xs"
proof (induction gt n j u xs rule: bubble_inner.induct)
  case (1 gt n j u xs)
  then show ?case by (subst bubble_inner.simps) (auto simp: mset_exchange)
qed

lemma bubble_inner_length [simp]: "length (snd (bubble_inner gt n j u xs)) = length xs"
proof (induction gt n j u xs rule: bubble_inner.induct)
  case (1 gt n j u xs)
  then show ?case by (subst bubble_inner.simps) auto
qed

text \<open>The elements up to \<open>n\<close> stay among themselves, the others stay in place.\<close>

lemma bubble_inner_all:
  assumes "\<forall>a \<le> n. Q (xs ! a)" "n < length xs"
  shows "\<forall>a \<le> n. Q (snd (bubble_inner gt n j u xs) ! a)"
  using assms
proof (induction gt n j u xs rule: bubble_inner.induct)
  case (1 gt n j u xs)
  show ?case
  proof (cases "j < n \<and> gt (xs ! j) (xs ! (j + 1))")
    case True
    moreover have "\<forall>a \<le> n. Q (xs[j := xs ! (j + 1), j + 1 := xs ! j] ! a)"
      using 1(3,4) True by (simp add: nth_list_update)
    ultimately show ?thesis using 1(1) 1(4) by (subst bubble_inner.simps) simp
  next
    case False
    then show ?thesis using 1(2-4) by (subst bubble_inner.simps) simp
  qed
qed

lemma bubble_inner_rest: "n < b \<Longrightarrow> snd (bubble_inner gt n j u xs) ! b = xs ! b"
proof (induction gt n j u xs rule: bubble_inner.induct)
  case (1 gt n j u xs)
  then show ?case by (subst bubble_inner.simps) auto
qed

text \<open>A round that reports no change has made none, and neighbours are in order.\<close>

lemma bubble_inner_unchange:
  assumes "fst (bubble_inner gt n j u xs)"
  shows "u \<and> snd (bubble_inner gt n j u xs) = xs \<and> (\<forall>i. j \<le> i \<and> i < n \<longrightarrow> \<not> gt (xs ! i) (xs ! Suc i))"
  using assms
proof (induction gt n j u xs rule: bubble_inner.induct)
  case (1 gt n j u xs)
  show ?case
  proof (cases "j < n")
    case True
    have le: "\<not> gt (xs ! j) (xs ! (j + 1))"
    proof
      assume gt: "gt (xs ! j) (xs ! (j + 1))"
      then have "fst (bubble_inner gt n (j + 1) False (xs[j := xs ! (j + 1), j + 1 := xs ! j]))"
        using 1(3) True by (subst (asm) bubble_inner.simps) simp
      from 1(1) [OF True gt this] show False by simp
    qed
    have "bubble_inner gt n j u xs = bubble_inner gt n (j + 1) u xs"
      using le True by (subst bubble_inner.simps) simp
    moreover have "i = j \<or> j + 1 \<le> i" if "j \<le> i" for i using that by auto
    ultimately show ?thesis using 1(2) [OF True le] 1(3) le by (metis Suc_eq_plus1)
  next
    case False
    then have "bubble_inner gt n j u xs = (u, xs)" by (subst bubble_inner.simps) simp
    then show ?thesis using 1(3) False by auto
  qed
qed

text \<open>Any strict order \<open>gt\<close> whose complement is transitive serves, so the proof covers both directions of
  both routines.\<close>

locale sorting_order =
  fixes gt :: "'a \<Rightarrow> 'a \<Rightarrow> bool"
  assumes gt_asym: "gt x y \<Longrightarrow> \<not> gt y x"
    and le_trans: "\<not> gt x y \<Longrightarrow> \<not> gt y z \<Longrightarrow> \<not> gt x z"
begin

abbreviation "ordered \<equiv> sorted_wrt (\<lambda>x y. \<not> gt x y)"

lemma inner_max:
  assumes "n < length xs" "j \<le> n" "\<forall>i < j. \<not> gt (xs ! i) (xs ! j)"
  shows "\<forall>i < n. \<not> gt (snd (bubble_inner gt n j u xs) ! i) (snd (bubble_inner gt n j u xs) ! n)"
  using assms
proof (induction "n - j" arbitrary: j u xs)
  case 0
  then show ?case by (subst (1 2) bubble_inner.simps) simp
next
  case (Suc k)
  let ?ys = "xs[j := xs ! (j + 1), j + 1 := xs ! j]"
  have j: "j < n" "k = n - (j + 1)" using Suc(2) by simp_all
  show ?case
  proof (cases "gt (xs ! j) (xs ! (j + 1))")
    case True
    have "\<forall>i < j + 1. \<not> gt (?ys ! i) (?ys ! (j + 1))"
      using Suc(3,5) j(1) gt_asym [OF True] by (auto simp: nth_list_update less_Suc_eq)
    from Suc(1) [OF j(2), of ?ys False] this j(1) Suc(3) show ?thesis
      using True by (subst (1 2) bubble_inner.simps) simp
  next
    case False
    then have "\<forall>i < j + 1. \<not> gt (xs ! i) (xs ! (j + 1))"
      using Suc(5) le_trans by (metis less_Suc_eq Suc_eq_plus1)
    from Suc(1) [OF j(2), of xs u] this j(1) Suc(3) show ?thesis
      using False by (subst (1 2) bubble_inner.simps) simp
  qed
qed

text \<open>Before round \<open>i\<close>, the last \<open>i\<close> elements are in their final places.\<close>

definition settled_from :: "nat \<Rightarrow> 'a list \<Rightarrow> bool" where
  "settled_from k xs \<longleftrightarrow> (\<forall>a b. a < b \<and> k \<le> b \<and> b < length xs \<longrightarrow> \<not> gt (xs ! a) (xs ! b))"

lemma settled_from_0: "settled_from 0 xs \<Longrightarrow> ordered xs"
  by (simp add: settled_from_def sorted_wrt_iff_nth_less)

lemma settled_from_round:
  assumes "settled_from (Suc n) xs" "n < length xs"
  shows "settled_from n (snd (bubble_inner gt n 0 True xs))"
  unfolding settled_from_def
proof (intro allI impI, elim conjE)
  let ?ys = "snd (bubble_inner gt n 0 True xs)"
  fix a b
  assume ab: "a < b" "n \<le> b" "b < length ?ys"
  show "\<not> gt (?ys ! a) (?ys ! b)"
  proof (cases "b = n")
    case True
    then show ?thesis using inner_max [OF assms(2), of 0 True] ab(1) by simp
  next
    case False
    then have "n < b" using ab(2) by simp
    note b = this bubble_inner_rest [OF this, of gt 0 True xs]
    show ?thesis
    proof (cases "a \<le> n")
      case True
      have "\<forall>a \<le> n. \<not> gt (xs ! a) (xs ! b)" using assms(1) b ab(3) by (auto simp: settled_from_def)
      from bubble_inner_all [of n "\<lambda>x. \<not> gt x (xs ! b)", OF this assms(2)] True b(2) show ?thesis by simp
    next
      case False
      then show ?thesis using assms(1) b ab(1,3) bubble_inner_rest [of n a gt 0 True xs] by (simp add: settled_from_def)
    qed
  qed
qed

lemma settled_from_unchange:
  assumes "settled_from (Suc n) xs" "n < length xs" "\<forall>i < n. \<not> gt (xs ! i) (xs ! Suc i)"
  shows "ordered xs"
  unfolding sorted_wrt_iff_nth_less
proof (intro allI impI)
  fix a b
  assume "a < b" "b < length xs"
  then show "\<not> gt (xs ! a) (xs ! b)"
  proof (induction b)
    case (Suc b)
    show ?case
    proof (cases "n < Suc b")
      case True
      then show ?thesis using assms(1) Suc(2,3) by (simp add: settled_from_def)
    next
      case False
      then have "\<not> gt (xs ! b) (xs ! Suc b)" using assms(3) by simp
      then show ?thesis using Suc le_trans by (metis Suc_lessD less_Suc_eq)
    qed
  qed simp
qed

lemma outer_sorts:
  assumes "len = length xs" "settled_from (len - i) xs" "i \<le> len"
  shows "ordered (bubble_outer gt len i xs) \<and> mset (bubble_outer gt len i xs) = mset xs"
  using assms
proof (induction "len - i" arbitrary: i xs)
  case 0
  then show ?case using settled_from_0 by (subst (1 2) bubble_outer.simps) simp
next
  case (Suc k)
  define n where "n = len - 1 - i"
  have i: "i < len" "Suc n = len - i" "n < length xs" using Suc(2,3) by (simp_all add: n_def)
  obtain u ys where r: "bubble_inner gt n 0 True xs = (u, ys)" by force
  have m: "mset ys = mset xs" "length ys = length xs"
    using bubble_inner_mset [OF i(3), of gt 0 True] bubble_inner_length [of gt n 0 True xs] r by simp_all
  have st: "settled_from (Suc n) xs" using Suc(4) i(2) by simp
  have step: "bubble_outer gt len i xs = (if u then ys else bubble_outer gt len (Suc i) ys)"
    using i(1) r unfolding n_def by (subst bubble_outer.simps) simp
  show ?case
  proof (cases u)
    case True
    then have "ys = xs" "\<forall>j < n. \<not> gt (xs ! j) (xs ! Suc j)"
      using bubble_inner_unchange [of gt n 0 True xs] r by simp_all
    then show ?thesis using settled_from_unchange [OF st i(3)] True step by simp
  next
    case False
    have "settled_from (len - Suc i) ys" using settled_from_round [OF st i(3)] r by (simp add: n_def)
    from Suc(1) [of "Suc i" ys] this m Suc(2,3) i(1) show ?thesis using False step by simp
  qed
qed

lemma bubble_sorts:
  "ordered (bubble_outer gt (length xs) 0 xs) \<and> mset (bubble_outer gt (length xs) 0 xs) = mset xs"
  by (rule outer_sorts) (auto simp: settled_from_def)

end

interpretation ascending: sorting_order "(>) :: 'a :: linorder \<Rightarrow> 'a \<Rightarrow> bool"
  by unfold_locales auto

interpretation descending: sorting_order "(<) :: 'a :: linorder \<Rightarrow> 'a \<Rightarrow> bool"
  by unfold_locales auto

section \<open>Properties\<close>

text \<open>
  C36. \<open>bubble16\<close> sorts, early exit included: for an array of at most 255 elements the result with
  \<open>up_down\<close> 0 is the ascending list of the same elements, and with any other value the descending one.
  So the element in the middle, which the output thread takes for the measured current, is the median of
  the samples.  \<open>bubble32\<close> does the same on words.
\<close>

theorem bubble_sorts_correct:
  assumes "length xs \<le> 255" "length ys \<le> 255"
  shows "bubble16 xs (of_nat (length xs)) d = (if d = 0 then sort xs else rev (sort xs)) \<and>
    bubble32 ys (of_nat (length ys)) d = (if d = 0 then sort ys else rev (sort ys))"
proof -
  have len: "unat (of_nat n :: u8) = n" if "n \<le> 255" for n
    using that by (simp add: unat_of_nat take_bit_nat_eq_self)
  have up: "bubble_outer (>) (length zs) 0 zs = sort zs" for zs :: "('a :: len) word list"
    using ascending.bubble_sorts [of zs] by (intro properties_for_sort [symmetric]) (simp_all add: not_less)
  have down: "bubble_outer (<) (length zs) 0 zs = rev (sort zs)" for zs :: "('a :: len) word list"
  proof -
    let ?r = "bubble_outer (<) (length zs) 0 zs"
    have "sorted (rev ?r)" "mset (rev ?r) = mset zs"
      using descending.bubble_sorts [of zs] by (simp_all add: not_less sorted_wrt_rev)
    then have "rev ?r = sort zs" using properties_for_sort by metis
    then show ?thesis by (metis rev_rev_ident)
  qed
  show ?thesis using assms by (simp add: bubble16_def bubble32_def len up down)
qed

theorem bubble_sorts_correct_witness:
  "bubble16 [2500, 2440, 2900] 3 0 = [2440, 2500, 2900] \<and> bubble32 [7, 9] 2 1 = [9, 7]"
  using bubble_sorts_correct [of "[2500, 2440, 2900]" "[7, 9]" 0]
    bubble_sorts_correct [of "[2500, 2440, 2900]" "[7, 9]" 1] by simp

end
