(* ===== verification/Curer.thy ===== *)
theory Curer
  imports Cvt
begin

text \<open>
  The light wave curer, the application this tree was made for (\<open>src/bsp/stm32f10x-curer/applications\<close>, built
  with \<open>RT_USING_LIGHT_WAVE_CURER\<close>): the button thread of \<open>light_wave_curer_button.c\<close>, the output thread of
  \<open>light_wave_curer_output.c\<close>, the callbacks of their software and hardware timers, and what the display
  thread of \<open>light_wave_curer_display.c\<close> does to the variables it shares with them.

  The record \<open>curer\<close> holds the shared variables \<open>lct\<close> (\<open>lwc_cure_t\<close>, without the segments and digits of the display) and
  \<open>lff\<close>, the other global variables, the flags the button thread keeps from turn to turn, and the requests
  made to the kernel and the drivers so far, oldest first.  What the drivers answer is the record \<open>curer_drv\<close>.

  The threads are endless loops; a definition is one turn of the loop.  A turn waits in several places, and
  other threads and interrupts run there: the argument \<open>w\<close> says what they do to the state, \<open>w n\<close> at the
  \<open>n\<close>-th place.  A \<open>while(1)\<close> after an error of a driver, and an access outside of a table, is \<^const>\<open>None\<close>.
\<close>

section \<open>State\<close>

datatype cure_mod = SET_TIMER | LASER_CURE | HEAT_CURE | IONICE_CURE | FUNCTION

datatype hwtimer = TIMER1 | TIMER2 | TIMER3 | TIMER4 | TIMER6

datatype channel = HWTIMER_BASE | HWTIMER_CH1 | HWTIMER_CH2 | HWTIMER_CH3 | HWTIMER_CH4

datatype app_timer = Timerdec | Timertip | Timermusic | Timer_shutdown | Timerions

datatype pin = PC13_SPEAKER_CTRL | PD2_BEEP | PB5_IONTHERAPY_RLY | PB12_IONTHERAPY_PWR | PB13_IONTHERAPY_CRL1
  | PB14_IONTHERAPY_CRL2

text \<open>Frequencies are in tenths of a hertz, times in seconds, delays in ticks.\<close>

datatype curer_request = Event_send u32 | Timer_start app_timer | Timer_stop app_timer | Pin_write pin bool | Voice u8
  | Hw_start hwtimer channel | Hw_stop hwtimer channel | Set_duty hwtimer channel u32 | Set_freq hwtimer nat
  | Hw_write hwtimer channel nat | Clear_overflow hwtimer | Delay nat

record curer =
  button_rl :: u8
  button_dyds :: u8
  button_jg :: u8
  button_sd :: u8
  button_lzlf :: u8
  button_jy :: u8
  button_gn :: u8
  button_zl1 :: u8
  button_zl2 :: u8
  flag_base_timer_status :: u8
  power_ok :: u8
  tmr_value :: u8
  tmr_lock :: u8
  lway :: "cure_mod \<Rightarrow> u8"
  lcf :: "cure_mod \<Rightarrow> u8"
  ion_force :: u8
  ion_force_overtimes :: u8
  fm_idx :: u8
  func_idx :: u8
  fm_switch :: u8
  tmr_init_val :: u32
  tmr_count_dec :: u32
  tmr_count_tip :: u32
  music_play_wait :: u16
  flag_force_voice_play :: u8
  ion_count :: u16
  flag_tmrval_start :: u8
  flag_voice_close :: u8
  flag_voice_tip_enable :: u8
  requests :: "curer_request list"

text \<open>What the drivers answer: the reload value of a timer or an error, the result of setting a duty cycle,
  \<open>timer6->channel_lock[TMR_CH_BASE]\<close>, whether \<open>rt_device_write\<close> of a time succeeds, whether the detector of
  the ion therapy reads low, the samples of the current, \<open>tmr_count\<close> of the display, whether the frequency
  of timer 4 is positive, and \<open>timer1->overflow[HWTIMER_BASE]\<close>.\<close>

record curer_drv =
  autoreload :: "hwtimer \<Rightarrow> channel \<Rightarrow> rt_err_t \<times> u32"
  duty_err :: "hwtimer \<Rightarrow> channel \<Rightarrow> u32 \<Rightarrow> rt_err_t"
  base_locked :: bool
  time_written :: bool
  dect_low :: bool
  adc_convert :: "u16 list"
  tmr_count :: u16
  timer4_freq_positive :: bool
  timer1_overflow :: u32

abbreviation (input) LWC_ACTIVED :: u8 where "LWC_ACTIVED \<equiv> 1"
abbreviation (input) LWC_INACTIVE :: u8 where "LWC_INACTIVE \<equiv> 0"
abbreviation (input) LWC_BASE_TIMER_IDLE :: u8 where "LWC_BASE_TIMER_IDLE \<equiv> 0x00"
abbreviation (input) LWC_BASE_TIMER_READY :: u8 where "LWC_BASE_TIMER_READY \<equiv> 0x55"
abbreviation (input) LWC_BASE_TIMER_RUNNING :: u8 where "LWC_BASE_TIMER_RUNNING \<equiv> 0xAA"

abbreviation (input) TIMER_FINISH_CLOSE :: u32 where "TIMER_FINISH_CLOSE \<equiv> 0x0001"
abbreviation (input) DEVICE_POWER_CLOSE :: u32 where "DEVICE_POWER_CLOSE \<equiv> 0x0002"
abbreviation (input) DEVICE_FORCE_CLOSE :: u32 where "DEVICE_FORCE_CLOSE \<equiv> 0x0004"
abbreviation (input) RLJG_BUTTON_UPDATE :: u32 where "RLJG_BUTTON_UPDATE \<equiv> 0x0008"
abbreviation (input) GNZL_BUTTON_UPDATE :: u32 where "GNZL_BUTTON_UPDATE \<equiv> 0x0010"
abbreviation (input) LASER_CURE_CLOSE :: u32 where "LASER_CURE_CLOSE \<equiv> 0x0020"
abbreviation (input) HEAT_CURE_CLOSE :: u32 where "HEAT_CURE_CLOSE \<equiv> 0x0040"
abbreviation (input) ION_FUNC_START :: u32 where "ION_FUNC_START \<equiv> 0x0200"
abbreviation (input) ION_TIME_UPDATE :: u32 where "ION_TIME_UPDATE \<equiv> 0x0400"
abbreviation (input) ION_CURE_CLOSE :: u32 where "ION_CURE_CLOSE \<equiv> 0x0800"
abbreviation (input) TIMER_MUSIC_PLAY :: u32 where "TIMER_MUSIC_PLAY \<equiv> 0x4000"

abbreviation (input) TMR_CH_BASE :: channel where "TMR_CH_BASE \<equiv> HWTIMER_BASE"
abbreviation (input) TMR_CH_LASER_PWM :: channel where "TMR_CH_LASER_PWM \<equiv> HWTIMER_CH4"
abbreviation (input) TMR_CH_HEAT_PWM :: channel where "TMR_CH_HEAT_PWM \<equiv> HWTIMER_CH3"
abbreviation (input) TMR_CH_CUREI_PWM :: channel where "TMR_CH_CUREI_PWM \<equiv> HWTIMER_CH3"
abbreviation (input) TMR_CH_CUREII_PWM :: channel where "TMR_CH_CUREII_PWM \<equiv> HWTIMER_CH4"
abbreviation (input) TMR_CH_CUREI_FREQ :: channel where "TMR_CH_CUREI_FREQ \<equiv> HWTIMER_CH3"
abbreviation (input) TMR_CH_CUREII_FREQ :: channel where "TMR_CH_CUREII_FREQ \<equiv> HWTIMER_CH4"

definition req :: "curer_request \<Rightarrow> curer \<Rightarrow> curer" where
  "req r s = s\<lparr>requests := requests s @ [r]\<rparr>"

definition set_lway :: "cure_mod \<Rightarrow> u8 \<Rightarrow> curer \<Rightarrow> curer" where
  "set_lway m v s = s\<lparr>lway := (lway s)(m := v)\<rparr>"

definition set_lcf :: "cure_mod \<Rightarrow> u8 \<Rightarrow> curer \<Rightarrow> curer" where
  "set_lcf m v s = s\<lparr>lcf := (lcf s)(m := v)\<rparr>"

text \<open>\<open>rt_device_write(dev_xtp, ...)\<close> of the phrase \<open>0x5A + n\<close>, unless the voice is off, or unless it is off
  or the audio programme runs.\<close>

definition say :: "u8 \<Rightarrow> curer \<Rightarrow> curer" where
  "say n s = (if flag_voice_close s = 0 then req (Voice (0x5A + n)) s else s)"

definition say_unless_audio :: "u8 \<Rightarrow> curer \<Rightarrow> curer" where
  "say_unless_audio n s = (if flag_voice_close s = 0 \<and> button_gn s \<noteq> 10 then req (Voice (0x5A + n)) s else s)"

text \<open>\<open>rt_thread_delay(n)\<close>.\<close>

definition sleep :: "(curer \<Rightarrow> curer) \<Rightarrow> nat \<Rightarrow> curer \<Rightarrow> curer" where
  "sleep w n s = w (req (Delay n) s)"

section \<open>Timer callbacks of the button module\<close>

definition timeout_dec :: "curer \<Rightarrow> curer" where
  "timeout_dec s =
     (if 0 < tmr_init_val s - tmr_count_dec s
      then let s = s\<lparr>tmr_count_dec := tmr_count_dec s + 1\<rparr>
           in s\<lparr>tmr_value := ucast ((tmr_init_val s - tmr_count_dec s) div 60 + 1)\<rparr>
      else req (Event_send TIMER_FINISH_CLOSE) (s\<lparr>tmr_count_dec := 0\<rparr>))"

definition timeout_tip :: "curer \<Rightarrow> curer" where
  "timeout_tip s =
     (let s = s\<lparr>tmr_count_tip := tmr_count_tip s + 1\<rparr>
      in if 9 < tmr_count_tip s then s\<lparr>tmr_count_tip := 0\<rparr> else s)"

definition timeout_shutdown :: "curer \<Rightarrow> curer" where
  "timeout_shutdown s = req (Event_send DEVICE_FORCE_CLOSE) s"

text \<open>Start or stop the two frequency channels of timer 4 by the strengths set.\<close>

definition switch_cure_freq :: "curer \<Rightarrow> curer" where
  "switch_cure_freq s =
     (let s = req (if 0 < button_zl1 s then Hw_start TIMER4 TMR_CH_CUREI_FREQ else Hw_stop TIMER4 TMR_CH_CUREI_FREQ) s
      in req (if 0 < button_zl2 s then Hw_start TIMER4 TMR_CH_CUREII_FREQ else Hw_stop TIMER4 TMR_CH_CUREII_FREQ) s)"

text \<open>\<open>hwq.freq = timer1->overflow[HWTIMER_BASE]/4\<close> is a whole number of hertz.\<close>

definition timeout_music :: "curer_drv \<Rightarrow> curer \<Rightarrow> curer" where
  "timeout_music d s =
     (let s = s\<lparr>music_play_wait := music_play_wait s + 1\<rparr>;
          s = (if 160 < music_play_wait s
               then req (Event_send TIMER_MUSIC_PLAY) (s\<lparr>music_play_wait := 0\<rparr>) else s);
          freq = timer1_overflow d div 4;
          s = req (Clear_overflow TIMER1) s
      in if 1 \<le> freq \<and> button_gn s = 10
         then switch_cure_freq (req (Set_freq TIMER6 (10 * unat freq)) s)
         else let s = req (Hw_stop TIMER6 TMR_CH_BASE) s;
                  s = req (Hw_stop TIMER4 TMR_CH_CUREI_FREQ) s
              in req (Hw_stop TIMER4 TMR_CH_CUREII_FREQ) s)"

section \<open>The button thread\<close>

text \<open>The start of the countdown, at the head of the loop.\<close>

definition start_countdown :: "(curer \<Rightarrow> curer) \<Rightarrow> curer \<Rightarrow> curer" where
  "start_countdown w s =
     (if tmr_lock s = 1 \<and> flag_tmrval_start s = 0
      then let s = req (Timer_stop Timerdec) s;
               s = (if 1 \<le> button_lzlf s then s\<lparr>tmr_value := 30\<rparr> else s);
               s = s\<lparr>tmr_init_val := ucast (tmr_value s) * 60\<rparr>;
               s = s\<lparr>tmr_count_dec := 0\<rparr>;
               s = req (Timer_start Timerdec) s;
               s = s\<lparr>flag_tmrval_start := 1\<rparr>
           in if 1 \<le> button_lzlf s
              then let s = req (Timer_start Timerions) s
                   in if flag_voice_close s = 0
                      then let s = req (Voice (0x5A + 3)) s;
                               s = sleep w 1000 s
                           in req (Voice (0x5A + 64)) s
                      else s
              else s
      else s)"

text \<open>\<open>case RT_EVENT_LWC_DEVICE_POWER_CLOSE\<close>.\<close>

definition button_power_close :: "curer \<Rightarrow> curer" where
  "button_power_close s =
     (let s = req (Timer_stop Timertip) s;
          s = s\<lparr>flag_force_voice_play := 0\<rparr>;
          s = (if flag_voice_close s = 0 \<and> tmr_lock s = 1 then req (Voice (0x5A + 31)) s else s);
          s = s\<lparr>flag_voice_close := 0\<rparr>;
          s = req (Pin_write PC13_SPEAKER_CTRL True) s;
          s = req (Timer_stop Timerdec) s;
          s = req (Timer_stop Timerions) s;
          s = req (Timer_stop Timermusic) s;
          s = s\<lparr>flag_tmrval_start := 0, button_dyds := 0, tmr_lock := 0, tmr_value := 0\<rparr>;
          s = set_lcf IONICE_CURE LWC_INACTIVE s
      in set_lway SET_TIMER LWC_INACTIVE s)"

text \<open>\<open>case RT_EVENT_LWC_ION_TIME_UPDATE\<close>.\<close>

definition button_ion_time_update :: "(curer \<Rightarrow> curer) \<Rightarrow> curer \<Rightarrow> curer" where
  "button_ion_time_update w s =
     (let s = req (Timer_stop Timerdec) s;
          s = s\<lparr>tmr_value := 30\<rparr>;
          s = s\<lparr>tmr_init_val := ucast (tmr_value s) * 60\<rparr>;
          s = s\<lparr>tmr_count_dec := 0\<rparr>;
          s = req (Timer_start Timerdec) s;
          s = req (Timer_start Timerions) s
      in if flag_voice_close s = 0
         then let s = req (Voice (0x5A + 3)) s;
                  s = sleep w 1000 s
              in req (Voice (0x5A + 64)) s
         else s)"

definition button_event :: "(curer \<Rightarrow> curer) \<Rightarrow> u32 \<Rightarrow> curer \<Rightarrow> curer" where
  "button_event w recv_event s =
     (if recv_event = DEVICE_POWER_CLOSE then button_power_close s
      else if recv_event = ION_TIME_UPDATE then button_ion_time_update w s
      else if recv_event = TIMER_MUSIC_PLAY
      then if button_gn s = 10 then req (Voice (0x5A + 41)) s else s
      else s)"

subsection \<open>The buttons\<close>

text \<open>\<open>case BUTTON_DY_DS\<close>: power and duration.\<close>

definition set_duration :: "(curer \<Rightarrow> curer) \<Rightarrow> u8 \<Rightarrow> u8 \<Rightarrow> curer \<Rightarrow> curer" where
  "set_duration w minutes n s =
     (let s = s\<lparr>tmr_value := minutes\<rparr>
      in if flag_voice_close s = 0
         then let s = req (Voice (0x5A + n)) s;
                  s = sleep w 1000 s
              in req (Voice (0x5A + 4)) s
         else s)"

definition button_dy_ds :: "(curer \<Rightarrow> curer) \<Rightarrow> curer \<Rightarrow> curer" where
  "button_dy_ds w s =
     (if tmr_lock s = 0
      then let s = s\<lparr>button_dyds := button_dyds s + 1\<rparr>;
               s = (if 4 < button_dyds s then if tmr_lock s = 0 then s\<lparr>button_dyds := 2\<rparr> else s else s);
               s = (if button_dyds s = 1 then say 62 (set_lway SET_TIMER LWC_ACTIVED s) else s);
               s = (if button_dyds s = 2 then set_duration w 10 1 s
                    else if button_dyds s = 3 then set_duration w 20 2 s
                    else if button_dyds s = 4 then set_duration w 30 3 s
                    else s)
           in req (Timer_start Timer_shutdown) s
      else req (Event_send DEVICE_FORCE_CLOSE) s)"

text \<open>\<open>case BUTTON_JG\<close>: the laser.\<close>

definition button_laser :: "curer \<Rightarrow> curer" where
  "button_laser s =
     (if 1 < button_dyds s \<and> lcf s IONICE_CURE = LWC_INACTIVE
      then let s = s\<lparr>tmr_lock := 1, button_jg := button_jg s + 1\<rparr>;
               s = (if 3 < button_jg s
                    then let s = say_unless_audio 28 s;
                             s = s\<lparr>button_jg := 0\<rparr>;
                             s = set_lway LASER_CURE LWC_INACTIVE s;
                             s = req (Event_send LASER_CURE_CLOSE) s
                         in req (Timer_start Timer_shutdown) s
                    else if button_jg s = 1
                    then req (Timer_stop Timer_shutdown) (say_unless_audio 49 (set_lway LASER_CURE LWC_ACTIVED s))
                    else if button_jg s = 2 then req (Timer_stop Timer_shutdown) (say_unless_audio 50 s)
                    else if button_jg s = 3 then req (Timer_stop Timer_shutdown) (say_unless_audio 51 s)
                    else s)
           in req (Event_send RLJG_BUTTON_UPDATE) s
      else s)"

text \<open>\<open>case BUTTON_RL\<close>: heat.\<close>

definition button_heat :: "curer \<Rightarrow> curer" where
  "button_heat s =
     (if 1 < button_dyds s \<and> lcf s IONICE_CURE = LWC_INACTIVE
      then let s = s\<lparr>tmr_lock := 1, button_rl := button_rl s + 1\<rparr>;
               s = (if 3 < button_rl s
                    then let s = say_unless_audio 8 s;
                             s = s\<lparr>button_rl := 0\<rparr>;
                             s = set_lway HEAT_CURE LWC_INACTIVE s;
                             s = req (Event_send HEAT_CURE_CLOSE) s
                         in req (Timer_start Timer_shutdown) s
                    else if button_rl s = 1
                    then req (Timer_stop Timer_shutdown) (set_lway HEAT_CURE LWC_ACTIVED (say_unless_audio 5 s))
                    else if button_rl s = 2 then req (Timer_stop Timer_shutdown) (say_unless_audio 6 s)
                    else if button_rl s = 3 then req (Timer_stop Timer_shutdown) (say_unless_audio 7 s)
                    else s)
           in req (Event_send RLJG_BUTTON_UPDATE) s
      else s)"

text \<open>\<open>case BUTTON_LZLF\<close>: the ion therapy.\<close>

definition button_ion :: "curer \<Rightarrow> curer" where
  "button_ion s =
     (if 1 \<le> button_dyds s
      then let s = s\<lparr>button_lzlf := button_lzlf s + 1\<rparr> in
        if 3 < button_lzlf s
        then let s = say 67 s;
                 s = s\<lparr>button_lzlf := 0, ion_force := 0\<rparr>;
                 s = req (Event_send ION_CURE_CLOSE) s;
                 s = set_lcf IONICE_CURE LWC_INACTIVE s;
                 s = set_lway IONICE_CURE LWC_INACTIVE s
             in req (Timer_start Timer_shutdown) s
        else if button_lzlf s = 1
        then let s = (if tmr_lock s = 1 \<and> lcf s IONICE_CURE = LWC_INACTIVE
                      then req (Event_send ION_FUNC_START) s
                      else set_lcf IONICE_CURE LWC_ACTIVED (s\<lparr>tmr_lock := 1\<rparr>));
                 s = set_lway IONICE_CURE LWC_ACTIVED s
             in req (Timer_stop Timer_shutdown) (say 64 s)
        else if button_lzlf s = 2 then req (Timer_stop Timer_shutdown) (say 65 s)
        else if button_lzlf s = 3 then req (Timer_stop Timer_shutdown) (say 66 s)
        else s
      else s)"

text \<open>\<open>case BUTTON_GN\<close>: the programme.  The phrases of the programmes 1 to 10.\<close>

definition programme_voice :: "u8 \<Rightarrow> u8" where
  "programme_voice gn = (if gn = 1 then 9 else if gn = 2 then 10 else if gn = 3 then 14 else if gn = 4 then 15
     else if gn = 5 then 12 else if gn = 6 then 17 else if gn = 7 then 13 else if gn = 8 then 42
     else if gn = 9 then 43 else 38)"

definition button_programme :: "curer \<Rightarrow> curer" where
  "button_programme s =
     (if 1 < button_dyds s \<and> lcf s IONICE_CURE = LWC_INACTIVE
      then let s = s\<lparr>button_gn := button_gn s + 1\<rparr>;
               s = (if 10 < button_gn s then s\<lparr>button_gn := 1\<rparr> else s);
               s = (if 1 \<le> button_gn s \<and> button_gn s \<le> 10
                    then let s = s\<lparr>button_zl1 := 0, button_zl2 := 0\<rparr>;
                             s = (if button_gn s = 1 then set_lway FUNCTION LWC_ACTIVED s else s)
                         in say (programme_voice (button_gn s)) s
                    else s);
               s = s\<lparr>tmr_count_tip := 0, flag_voice_tip_enable := 1\<rparr>
           in req (Event_send GNZL_BUTTON_UPDATE) s
      else s)"

text \<open>\<open>case BUTTON_SD\<close>: lock or cycle.\<close>

definition button_lock :: "curer \<Rightarrow> curer" where
  "button_lock s =
     (if 1 < button_dyds s \<and> (1 \<le> button_zl1 s \<or> 1 \<le> button_zl2 s) \<and> lcf s IONICE_CURE = LWC_INACTIVE
      then let s = s\<lparr>button_sd := button_sd s + 1\<rparr>
           in if 1 < button_sd s then say 30 (s\<lparr>button_sd := 0\<rparr>) else say 29 s
      else s)"

text \<open>\<open>case BUTTON_JY\<close>: mute.\<close>

definition button_mute :: "(curer \<Rightarrow> curer) \<Rightarrow> curer \<Rightarrow> curer" where
  "button_mute w s =
     (if 1 \<le> button_dyds s
      then let s = s\<lparr>button_jy := button_jy s + 1\<rparr> in
        if 1 < button_jy s
        then let s = s\<lparr>flag_voice_close := 0, button_jy := 0\<rparr>;
                 s = req (Pin_write PC13_SPEAKER_CTRL True) s
             in if button_gn s \<noteq> 10 then sleep w 1000 (req (Voice (0x5A + 39)) s) else s
        else let s = s\<lparr>flag_voice_close := 1\<rparr>;
                 s = (if button_gn s \<noteq> 10 then sleep w 2000 (req (Voice (0x5A + 40)) s) else s)
             in req (Pin_write PC13_SPEAKER_CTRL False) s
      else s)"

text \<open>\<open>case BUTTON_ZL1_INC\<close>, \<open>case BUTTON_ZL2_INC\<close>: more strength.\<close>

definition ready_base_timer :: "curer \<Rightarrow> curer" where
  "ready_base_timer s = (if flag_base_timer_status s \<noteq> LWC_BASE_TIMER_RUNNING
     then s\<lparr>flag_base_timer_status := LWC_BASE_TIMER_READY\<rparr> else s)"

definition button_zl1_inc :: "curer \<Rightarrow> curer" where
  "button_zl1_inc s =
     (if 1 < button_dyds s \<and> lcf s IONICE_CURE = LWC_INACTIVE
      then if lway s FUNCTION = LWC_ACTIVED
           then let s = s\<lparr>tmr_lock := 1\<rparr>;
                    s = (if button_zl1 s < 23
                         then req (Timer_stop Timer_shutdown) (say_unless_audio 19 (s\<lparr>button_zl1 := button_zl1 s + 1\<rparr>))
                         else s);
                    s = (if button_zl1 s = 1 then ready_base_timer s else s)
                in req (Event_send GNZL_BUTTON_UPDATE) s
           else s
      else s)"

definition button_zl2_inc :: "curer \<Rightarrow> curer" where
  "button_zl2_inc s =
     (if 1 < button_dyds s \<and> lcf s IONICE_CURE = LWC_INACTIVE
      then if lway s FUNCTION = LWC_ACTIVED
           then let s = s\<lparr>tmr_lock := 1\<rparr>;
                    s = (if button_zl2 s < 23
                         then req (Timer_stop Timer_shutdown) (say_unless_audio 21 (s\<lparr>button_zl2 := button_zl2 s + 1\<rparr>))
                         else s);
                    s = (if button_zl2 s = 1 then ready_base_timer s else s)
                in req (Event_send GNZL_BUTTON_UPDATE) s
           else s
      else s)"

text \<open>\<open>case BUTTON_ZL1_DEC\<close>, \<open>case BUTTON_ZL2_DEC\<close>: less strength.\<close>

definition button_zl1_dec :: "curer \<Rightarrow> curer" where
  "button_zl1_dec s =
     (if 1 < button_dyds s \<and> lcf s IONICE_CURE = LWC_INACTIVE
      then let s = (if lway s FUNCTION = LWC_ACTIVED
                    then let s = s\<lparr>tmr_lock := 1\<rparr>;
                             s = (if 0 < button_zl1 s
                                  then req (Timer_stop Timer_shutdown) (say_unless_audio 20 (s\<lparr>button_zl1 := button_zl1 s - 1\<rparr>))
                                  else s)
                         in req (Event_send GNZL_BUTTON_UPDATE) s
                    else s);
               s = (if button_zl1 s = 0 \<and> button_zl2 s = 0 then req (Timer_start Timer_shutdown) s else s)
           in if button_zl1 s = 0 then s\<lparr>flag_voice_tip_enable := 0\<rparr> else s
      else s)"

definition button_zl2_dec :: "curer \<Rightarrow> curer" where
  "button_zl2_dec s =
     (if 1 < button_dyds s \<and> lcf s IONICE_CURE = LWC_INACTIVE
      then let s = (if lway s FUNCTION = LWC_ACTIVED
                    then let s = s\<lparr>tmr_lock := 1\<rparr>;
                             s = (if 0 < button_zl2 s
                                  then req (Timer_stop Timer_shutdown) (say_unless_audio 22 (s\<lparr>button_zl2 := button_zl2 s - 1\<rparr>))
                                  else s)
                         in req (Event_send GNZL_BUTTON_UPDATE) s
                    else s);
               s = (if button_zl1 s = 0 \<and> button_zl2 s = 0 then req (Timer_start Timer_shutdown) s else s)
           in if button_zl2 s = 0 then s\<lparr>flag_voice_tip_enable := 0\<rparr> else s
      else s)"

text \<open>\<open>switch(val)\<close>, with the button values of \<open>light_wave_curer.h\<close>.\<close>

definition button_pressed :: "(curer \<Rightarrow> curer) \<Rightarrow> u8 \<Rightarrow> curer \<Rightarrow> curer" where
  "button_pressed w val s =
     (if val = 0x12 then button_dy_ds w s
      else if val = 0x22 then button_laser s
      else if val = 0x11 then button_heat s
      else if val = 0x24 then button_ion s
      else if val = 0x32 then button_programme s
      else if val = 0x28 then button_lock s
      else if val = 0x31 then button_mute w s
      else if val = 0x14 then button_zl1_inc s
      else if val = 0x18 then button_zl2_inc s
      else if val = 0x34 then button_zl1_dec s
      else if val = 0x38 then button_zl2_dec s
      else s)"

text \<open>The hint to set a strength, at the end of the loop.\<close>

definition voice_tip :: "curer \<Rightarrow> curer" where
  "voice_tip s =
     (if flag_force_voice_play s = 1 \<and> button_gn s \<noteq> 10 \<and> flag_voice_tip_enable s = 1
      then if flag_voice_close s = 0
           then if 9 \<le> tmr_count_tip s
                then req (Voice (0x5A + 18)) (req (Timer_stop Timertip) (s\<lparr>tmr_count_tip := 0, flag_force_voice_play := 0\<rparr>))
                else s
           else s\<lparr>flag_force_voice_play := 0\<rparr>
      else s)"

text \<open>One turn of the loop of \<open>lwc_button_thread_entry\<close>: \<open>recv\<close> is the outcome of \<open>rt_event_recv\<close> and \<open>val\<close> the
  button that is read.\<close>

definition lwc_button_turn :: "(nat \<Rightarrow> curer \<Rightarrow> curer) \<Rightarrow> u32 option \<Rightarrow> u8 \<Rightarrow> curer \<Rightarrow> curer" where
  "lwc_button_turn w recv val s =
     (let s = start_countdown (w 0) s;
          s = w 1 s;
          s = (case recv of None \<Rightarrow> s | Some recv_event \<Rightarrow> button_event (w 2) recv_event s);
          s = w 3 s;
          s = button_pressed (w 4) val s;
          s = sleep (w 5) 100 s
      in voice_tip s)"

section \<open>The display thread\<close>

text \<open>The branch of \<open>seglcd_display\<close> that switches the display off resets the buttons, the duration and the
  therapies; everything else it does goes to the segments of the display.\<close>

definition display_off :: "curer \<Rightarrow> curer" where
  "display_off s =
     (let s = s\<lparr>power_ok := 0, tmr_value := 0\<rparr>;
          s = s\<lparr>button_rl := 0, button_dyds := 0, button_jg := 0, button_sd := 0, button_lzlf := 0, button_jy := 0,
                button_gn := 0, button_zl1 := 0, button_zl2 := 0, flag_base_timer_status := 0\<rparr>;
          s = s\<lparr>tmr_value := 0, tmr_lock := 0\<rparr>
      in s\<lparr>lway := (\<lambda>_. 0)\<rparr>)"

text \<open>One turn of the loop of \<open>lwc_display_thread_entry\<close>.\<close>

definition lwc_display_turn :: "(nat \<Rightarrow> curer \<Rightarrow> curer) \<Rightarrow> curer \<Rightarrow> curer" where
  "lwc_display_turn w s =
     (let s = (if power_ok s = 0 \<and> button_dyds s = 1 then sleep (w 0) 1000 (s\<lparr>power_ok := 1\<rparr>)
               else if power_ok s = 1 then if lway s SET_TIMER = LWC_ACTIVED then s else display_off s
               else s)
      in sleep (w 1) 100 s)"

end
