(* ===== verification/Curer_Output.thy ===== *)
theory Curer_Output
  imports Curer
begin

text \<open>
  The output side of the curer, \<open>light_wave_curer_output.c\<close>: the thread that turns events into requests to
  the hardware timers and pins, the strengths it sets, the ion therapy, and the callbacks of timer 6.
\<close>

section \<open>Duty cycles\<close>

text \<open>Read the reload value, set the duty cycle \<open>f tval\<close>: the block the output routines repeat.  The first
  component is \<open>err\<close>; the routines return when it is not \<open>RT_EOK\<close>.\<close>

definition set_duty :: "curer_drv \<Rightarrow> hwtimer \<Rightarrow> channel \<Rightarrow> (nat \<Rightarrow> nat) \<Rightarrow> curer \<Rightarrow> rt_err_t \<times> curer" where
  "set_duty d t c f s =
     (let (err, v) = autoreload d t c in
      if err \<noteq> RT_EOK then (err, s)
      else let tval = (ucast v :: u16);
               v = of_nat (f (unat tval))
           in (duty_err d t c v, req (Set_duty t c v) s))"

text \<open>The laser or heat half of \<open>lwc_cure_timer3_output\<close>, by the level \<open>lvl\<close> of its button.\<close>

definition level_output :: "curer_drv \<Rightarrow> cure_mod \<Rightarrow> channel \<Rightarrow> u8 \<Rightarrow> curer \<Rightarrow> rt_err_t \<times> curer" where
  "level_output d m c lvl s =
     (if lway s m = LWC_ACTIVED
      then if tmr_lock s = 1
           then let s = (if lcf s m = LWC_INACTIVE then set_lcf m LWC_ACTIVED s else s) in
             if lvl = 1
             then let (err, s) = set_duty d TIMER3 c (\<lambda>tval. tval * 1 div 3) s
                  in if err \<noteq> RT_EOK then (err, s) else (err, req (Hw_start TIMER3 c) s)
             else if lvl = 2 then set_duty d TIMER3 c (\<lambda>tval. tval * 2 div 3) s
             else if lvl = 3 then set_duty d TIMER3 c (\<lambda>tval. tval * 3 div 3) s
             else (RT_EOK, s)
           else (RT_EOK, s)
      else (RT_EOK, s))"

definition lwc_cure_timer3_output :: "curer_drv \<Rightarrow> curer \<Rightarrow> rt_err_t \<times> curer" where
  "lwc_cure_timer3_output d s =
     (let (err, s) = level_output d LASER_CURE TMR_CH_LASER_PWM (button_jg s) s
      in if err \<noteq> RT_EOK then (err, s) else level_output d HEAT_CURE TMR_CH_HEAT_PWM (button_rl s) s)"

text \<open>One channel of \<open>lwc_cure_timer2_output\<close>: \<open>tval/5 + zl*(tval - tval/5)/23\<close>.\<close>

definition strength_duty :: "u8 \<Rightarrow> nat \<Rightarrow> nat" where
  "strength_duty zl tval = tval div 5 + unat zl * (tval - tval div 5) div 23"

definition strength_output :: "curer_drv \<Rightarrow> channel \<Rightarrow> u8 \<Rightarrow> curer \<Rightarrow> rt_err_t \<times> curer" where
  "strength_output d c zl s =
     (if 0 < zl
      then let (err, s) = set_duty d TIMER2 c (strength_duty zl) s
           in if err \<noteq> RT_EOK then (err, s)
              else (err, if zl = 1 then req (Hw_start TIMER2 c) s else s)
      else (RT_EOK, req (Hw_stop TIMER2 c) s))"

definition lwc_cure_timer2_output :: "curer_drv \<Rightarrow> curer \<Rightarrow> rt_err_t \<times> curer" where
  "lwc_cure_timer2_output d s =
     (if lway s FUNCTION = LWC_ACTIVED
      then if tmr_lock s = 1
           then let s = (if lcf s FUNCTION = LWC_INACTIVE then set_lcf FUNCTION LWC_ACTIVED s else s);
                    (err, s) = strength_output d TMR_CH_CUREI_PWM (button_zl1 s) s
                in if err \<noteq> RT_EOK then (err, s)
                   else strength_output d TMR_CH_CUREII_PWM (button_zl2 s) s
           else (RT_EOK, s)
      else (RT_EOK, s))"

text \<open>One channel of \<open>lwc_cure_timer4_output\<close>: at strength 1 the channel starts, and the base timer with it if
  it is ready; a failed \<open>rt_device_write\<close> spins.\<close>

definition freq_output :: "curer_drv \<Rightarrow> channel \<Rightarrow> u8 \<Rightarrow> curer \<Rightarrow> curer option" where
  "freq_output d c zl s =
     (if 0 < zl
      then if zl = 1
           then let s = req (Hw_start TIMER4 c) s in
             if flag_base_timer_status s = LWC_BASE_TIMER_READY
             then let s = s\<lparr>flag_base_timer_status := LWC_BASE_TIMER_RUNNING\<rparr>
                  in if \<not> base_locked d
                     then if time_written d then Some (req (Hw_write TIMER6 TMR_CH_BASE 1) s) else None
                     else Some s
             else Some s
           else Some s
      else Some (req (Hw_stop TIMER4 c) s))"

definition lwc_cure_timer4_output :: "curer_drv \<Rightarrow> curer \<Rightarrow> curer option" where
  "lwc_cure_timer4_output d s =
     (if lway s FUNCTION = LWC_ACTIVED
      then if tmr_lock s = 1
           then do {
             let s = (if lcf s FUNCTION = LWC_INACTIVE then set_lcf FUNCTION LWC_ACTIVED s else s);
             s \<leftarrow> freq_output d TMR_CH_CUREI_FREQ (button_zl1 s) s;
             freq_output d TMR_CH_CUREII_FREQ (button_zl2 s) s
           }
           else Some s
      else Some s)"

section \<open>The ion therapy\<close>

definition ion_pins :: "bool \<Rightarrow> bool \<Rightarrow> curer \<Rightarrow> curer" where
  "ion_pins crl1 crl2 s =
     (let s = req (Pin_write PB12_IONTHERAPY_PWR True) s;
          s = req (Pin_write PB13_IONTHERAPY_CRL1 crl1) s;
          s = req (Pin_write PB14_IONTHERAPY_CRL2 crl2) s;
          s = req (Pin_write PB5_IONTHERAPY_RLY (\<not> ion_count s < 600)) s
      in req (Pin_write PD2_BEEP False) s)"

text \<open>\<open>lc->ion_force\<close>, a signed byte, from the measured current.  \<open>x * 12.0 / 402\<close> cut to an integer is
  \<open>x * 12 div 402\<close>: the quotient of two small integers is not rounded up to the next integer.\<close>

definition ion_force_of :: "u16 \<Rightarrow> u8" where
  "ion_force_of adc =
     (let force = (if 0 < int (unat adc) - 2440 then of_nat ((unat adc - 2440) * 12 div 402) else 0) :: u8
      in if 12 < sint force then 12 else if 10 \<le> sint force then 11 else if sint force \<le> 0 then 0 else force)"

definition beep :: "curer_drv \<Rightarrow> curer \<Rightarrow> curer" where
  "beep d s =
     (if tmr_count d \<le> 100 \<or> 200 \<le> tmr_count d \<and> tmr_count d \<le> 300 \<or> 400 \<le> tmr_count d \<and> tmr_count d \<le> 500
      then req (Pin_write PD2_BEEP True) s else req (Pin_write PD2_BEEP False) s)"

text \<open>\<open>flag_beep_warning\<close> is not initialised, but its bit 0, the only one tested, is set or cleared on every
  path before the test.\<close>

definition lwc_cure_ion_output :: "curer_drv \<Rightarrow> u16 \<Rightarrow> curer \<Rightarrow> curer" where
  "lwc_cure_ion_output d adc s =
     (if lway s IONICE_CURE = LWC_ACTIVED
      then if tmr_lock s = 1
           then let s = (if lcf s IONICE_CURE = LWC_INACTIVE
                         then req (Timer_start Timerions) (set_lcf IONICE_CURE LWC_ACTIVED s) else s);
                    (warning, s) =
                      (if button_lzlf s = 1 \<and> dect_low d then (False, ion_pins True True s)
                       else if button_lzlf s = 2 \<and> dect_low d then (False, ion_pins False True s)
                       else if button_lzlf s = 3 \<and> dect_low d then (False, ion_pins True False s)
                       else (True, s));
                    s = s\<lparr>ion_force := ion_force_of adc\<rparr>;
                    s = (if 2842 + 100 < adc then s\<lparr>ion_force_overtimes := ion_force_overtimes s + 1\<rparr>
                         else if adc < 2770 then s\<lparr>ion_force_overtimes := 0\<rparr>
                         else s);
                    s = (if warning
                         then let s = req (Pin_write PB12_IONTHERAPY_PWR False) s;
                                  s = req (Pin_write PB13_IONTHERAPY_CRL1 False) s;
                                  s = req (Pin_write PB14_IONTHERAPY_CRL2 False) s
                              in beep d s
                         else s);
                    s = (if 30 < sint (ion_force_overtimes s) then beep d s else s)
                in if 120 < sint (ion_force_overtimes s) then req (Event_send DEVICE_FORCE_CLOSE) s else s
           else s
      else s)"

definition timeout_ionswtich :: "curer \<Rightarrow> curer" where
  "timeout_ionswtich s = (if ion_count s < 1200 - 1 then s\<lparr>ion_count := ion_count s + 1\<rparr> else s\<lparr>ion_count := 0\<rparr>)"

section \<open>The output thread\<close>

definition stop_therapies :: "curer \<Rightarrow> curer" where
  "stop_therapies s =
     (let s = s\<lparr>button_jg := 0\<rparr>;
          s = set_lcf LASER_CURE LWC_INACTIVE (set_lway LASER_CURE LWC_INACTIVE s);
          s = req (Hw_stop TIMER3 TMR_CH_LASER_PWM) s;
          s = s\<lparr>button_rl := 0\<rparr>;
          s = set_lcf HEAT_CURE LWC_INACTIVE (set_lway HEAT_CURE LWC_INACTIVE s);
          s = req (Hw_stop TIMER3 TMR_CH_HEAT_PWM) s;
          s = s\<lparr>button_gn := 0, button_zl1 := 0, button_zl2 := 0\<rparr>;
          s = set_lcf FUNCTION LWC_INACTIVE (set_lway FUNCTION LWC_INACTIVE s);
          s = req (Hw_stop TIMER2 TMR_CH_CUREI_PWM) s;
          s = req (Hw_stop TIMER2 TMR_CH_CUREII_PWM) s;
          s = req (Hw_stop TIMER4 TMR_CH_CUREI_FREQ) s;
          s = req (Hw_stop TIMER4 TMR_CH_CUREII_FREQ) s
      in req (Hw_stop TIMER6 TMR_CH_BASE) s)"

definition stop_ion :: "curer \<Rightarrow> curer" where
  "stop_ion s =
     (let s = req (Timer_stop Timerions) s;
          s = req (Pin_write PB12_IONTHERAPY_PWR False) s;
          s = req (Pin_write PB13_IONTHERAPY_CRL1 False) s;
          s = req (Pin_write PB14_IONTHERAPY_CRL2 False) s;
          s = req (Pin_write PB5_IONTHERAPY_RLY False) s
      in req (Pin_write PD2_BEEP False) s)"

text \<open>\<open>case RT_EVENT_LWC_TIMER_FINISH_CLOSE\<close> and \<open>case RT_EVENT_LWC_DEVICE_FORCE_CLOSE\<close>.\<close>

definition output_close :: "curer \<Rightarrow> curer" where
  "output_close s =
     (let s = stop_therapies s;
          s = req (Hw_stop TIMER1 HWTIMER_CH1) s;
          s = s\<lparr>button_lzlf := 0\<rparr>;
          s = set_lcf IONICE_CURE LWC_INACTIVE (set_lway IONICE_CURE LWC_INACTIVE s);
          s = stop_ion s;
          s = s\<lparr>ion_force_overtimes := 0\<rparr>
      in req (Event_send DEVICE_POWER_CLOSE) s)"

text \<open>\<open>case RT_EVENT_LWC_GNZL_BUTTON_UPDATE\<close>.\<close>

definition output_programme :: "curer_drv \<Rightarrow> (curer \<Rightarrow> curer) \<Rightarrow> curer \<Rightarrow> curer option" where
  "output_programme d w s =
     (let s = (if button_gn s \<le> 9 \<and> button_zl1 s = 0 \<and> button_zl2 s = 0
               then let s = req (Timer_start Timertip) s;
                        s = s\<lparr>flag_force_voice_play := 1\<rparr>;
                        s = req (Timer_stop Timermusic) s
                    in req (Hw_stop TIMER1 HWTIMER_CH1) s
               else if button_gn s = 10
               then let s = req (Timer_start Timermusic) s;
                        s = req (Hw_start TIMER1 HWTIMER_CH1) s
                    in if button_zl1 s = 0 \<and> button_zl2 s = 0
                       then req (Event_send TIMER_MUSIC_PLAY) (sleep w 2000 s) else s
               else s);
          s = (if button_zl1 s = 0 \<and> button_zl2 s = 0
               then req (Hw_stop TIMER6 TMR_CH_BASE) (s\<lparr>flag_base_timer_status := LWC_BASE_TIMER_IDLE\<rparr>)
               else s);
          (err, s) = lwc_cure_timer2_output d s
      in lwc_cure_timer4_output d s)"

definition output_event :: "curer_drv \<Rightarrow> (curer \<Rightarrow> curer) \<Rightarrow> u32 \<Rightarrow> curer \<Rightarrow> curer option" where
  "output_event d w recv_event s =
     (if recv_event = TIMER_FINISH_CLOSE \<or> recv_event = DEVICE_FORCE_CLOSE then Some (output_close s)
      else if recv_event = RLJG_BUTTON_UPDATE then Some (snd (lwc_cure_timer3_output d s))
      else if recv_event = GNZL_BUTTON_UPDATE then output_programme d w s
      else if recv_event = LASER_CURE_CLOSE then Some (req (Hw_stop TIMER3 TMR_CH_LASER_PWM) s)
      else if recv_event = HEAT_CURE_CLOSE then Some (req (Hw_stop TIMER3 TMR_CH_HEAT_PWM) s)
      else if recv_event = ION_FUNC_START
      then let s = stop_therapies s;
               s = set_lcf IONICE_CURE LWC_ACTIVED s
           in Some (req (Event_send ION_TIME_UPDATE) s)
      else if recv_event = ION_CURE_CLOSE then Some (set_lcf IONICE_CURE LWC_INACTIVE (stop_ion s))
      else Some s)"

text \<open>One turn of the loop of \<open>lwc_output_thread_entry\<close>: \<open>recv\<close> is the outcome of \<open>rt_event_recv\<close>.\<close>

definition lwc_output_turn :: "curer_drv \<Rightarrow> (nat \<Rightarrow> curer \<Rightarrow> curer) \<Rightarrow> u32 option \<Rightarrow> curer \<Rightarrow> curer option" where
  "lwc_output_turn d w recv s = do {
     let adc_valid = bubble16 (adc_convert d) 32 0 ! 16;
     let s = w 0 s;
     s \<leftarrow> (case recv of None \<Rightarrow> Some s | Some recv_event \<Rightarrow> output_event d (w 1) recv_event s);
     let s = lwc_cure_ion_output d adc_valid s;
     Some (sleep (w 2) 10 s)
   }"

section \<open>Callbacks of the hardware timers\<close>

definition timer3_timeout_cb :: "curer \<Rightarrow> curer" where
  "timer3_timeout_cb s = req (Event_send TIMER_FINISH_CLOSE) s"

text \<open>The frequencies of the programmes, in tenths of a hertz.\<close>

definition freq :: "nat list list" where
  "freq = [[250, 160, 80, 45, 5, 60], [500, 250, 120, 50, 60, 15], [80, 45, 20, 50, 60, 15], [60, 30, 20, 5, 15, 20],
    [50, 15, 35, 5, 85, 25], [15, 45, 5, 5, 40, 20], [50, 10, 5, 5, 25, 15], [5, 7, 60, 15, 95, 15]]"

definition rt_device_hwtimer_hook :: "curer_drv \<Rightarrow> curer \<Rightarrow> curer" where
  "rt_device_hwtimer_hook d s =
     (let s = (if 0 < button_gn s \<and> button_gn s \<le> 10 then s\<lparr>fm_switch := NOT (fm_switch s) AND 1\<rparr>
               else s\<lparr>fm_switch := 0\<rparr>)
      in if fm_switch s = 1 \<and> timer4_freq_positive d
         then if button_gn s \<le> 9 then switch_cure_freq s else s
         else req (Hw_stop TIMER4 TMR_CH_CUREII_FREQ) (req (Hw_stop TIMER4 TMR_CH_CUREI_FREQ) s))"

text \<open>The programme of the next period: \<open>switch(lct.lreg.btn.button_gn)\<close>.\<close>

definition next_programme :: "curer \<Rightarrow> curer" where
  "next_programme s =
     (if button_gn s = 1
      then let s = (if 5 < fm_idx s
                    then let s = s\<lparr>fm_idx := 0\<rparr>
                         in if button_sd s = 0 then s\<lparr>func_idx := func_idx s + 1\<rparr> else s
                    else s)
           in if 7 < func_idx s then s\<lparr>func_idx := 0\<rparr> else s
      else if 2 \<le> button_gn s \<and> button_gn s \<le> 10 then s\<lparr>func_idx := button_gn s - 2\<rparr>
      else s)"

definition advance_programme :: "curer \<Rightarrow> curer" where
  "advance_programme s = next_programme (if button_sd s = 0 then s\<lparr>fm_idx := fm_idx s + 1\<rparr> else s)"

text \<open>\<open>2*freq[lff.func_idx][lff.fm_idx]\<close>.  With the audio programme \<open>hwq.freq\<close> is not set before it is tested;
  \<open>garbage\<close> is what the stack holds there.\<close>

definition timer6_freq :: "nat \<Rightarrow> curer \<Rightarrow> nat option" where
  "timer6_freq garbage s =
     (if button_gn s \<le> 9
      then if unat (func_idx s) < length freq \<and> unat (fm_idx s) < 6
           then Some (2 * freq ! unat (func_idx s) ! unat (fm_idx s)) else None
      else Some garbage)"

definition retune :: "nat \<Rightarrow> curer \<Rightarrow> curer" where
  "retune f s =
     (if 0 < f then req (Set_freq TIMER6 f) s
      else req (Hw_stop TIMER4 TMR_CH_CUREII_FREQ) (req (Hw_stop TIMER4 TMR_CH_CUREI_FREQ) s))"

definition timer6_timeout_cb :: "nat \<Rightarrow> curer_drv \<Rightarrow> curer \<Rightarrow> curer option" where
  "timer6_timeout_cb garbage d s =
     (if 0 < button_gn s \<and> button_gn s \<le> 10
      then do {
        let s = (if 5 < fm_idx s then s\<lparr>fm_idx := 0\<rparr> else s);
        f \<leftarrow> timer6_freq garbage s;
        let s = advance_programme (retune f s);
        if button_gn s \<le> 9
        then if time_written d
             then Some (req (Hw_write TIMER6 (if 0 < f then HWTIMER_BASE else TMR_CH_CUREII_FREQ) 10) s)
             else None
        else Some s
      }
      else Some s)"

end
