(* ===== verification/Curer_Props.thy ===== *)
theory Curer_Props
  imports Curer_Output Event
begin

text \<open>
  Properties of the curer: the ranges of its variables in every reachable state, what closing the device
  does, how long a treatment lasts, and two errors, events that are lost when they arrive together and an
  access outside of the table of frequencies.
\<close>

section \<open>Ranges\<close>

text \<open>\<open>R t c\<close> bounds the reload values read from the driver for the timer \<open>t\<close> and its channel \<open>c\<close>, and thereby the duty cycles asked for on
  that channel of that timer.\<close>

type_synonym reload_bounds = "hwtimer \<Rightarrow> channel \<Rightarrow> nat"

definition curer_inv :: "reload_bounds \<Rightarrow> curer \<Rightarrow> bool" where
  "curer_inv R s \<longleftrightarrow>
     button_rl s \<le> 3 \<and> button_dyds s \<le> 4 \<and> button_jg s \<le> 3 \<and> button_sd s \<le> 1 \<and> button_lzlf s \<le> 3 \<and>
     button_jy s \<le> 1 \<and> button_gn s \<le> 10 \<and> button_zl1 s \<le> 23 \<and> button_zl2 s \<le> 23 \<and> tmr_lock s \<le> 1 \<and>
     (\<forall>m. lway s m \<le> 1) \<and> (\<forall>m. lcf s m \<le> 1) \<and> ion_force s \<le> 12 \<and> fm_idx s \<le> 6 \<and> func_idx s \<le> 8 \<and>
     fm_switch s \<le> 1 \<and> tmr_value s \<le> 30 \<and> tmr_init_val s \<le> 1800 \<and> tmr_count_dec s \<le> tmr_init_val s \<and>
     tmr_count_tip s \<le> 9 \<and> music_play_wait s \<le> 160 \<and> ion_count s \<le> 1199 \<and>
     (\<forall>t c v. Set_duty t c v \<in> set (requests s) \<longrightarrow> unat v \<le> R t c)"

lemma req_fields [simp]:
  "button_rl (req r s) = button_rl s" "button_dyds (req r s) = button_dyds s" "button_jg (req r s) = button_jg s"
  "button_sd (req r s) = button_sd s" "button_lzlf (req r s) = button_lzlf s" "button_jy (req r s) = button_jy s"
  "button_gn (req r s) = button_gn s" "button_zl1 (req r s) = button_zl1 s" "button_zl2 (req r s) = button_zl2 s"
  "flag_base_timer_status (req r s) = flag_base_timer_status s" "tmr_value (req r s) = tmr_value s"
  "tmr_lock (req r s) = tmr_lock s" "lway (req r s) = lway s" "lcf (req r s) = lcf s" "ion_force (req r s) = ion_force s"
  "ion_force_overtimes (req r s) = ion_force_overtimes s" "fm_idx (req r s) = fm_idx s" "func_idx (req r s) = func_idx s"
  "fm_switch (req r s) = fm_switch s" "tmr_init_val (req r s) = tmr_init_val s" "tmr_count_dec (req r s) = tmr_count_dec s"
  "tmr_count_tip (req r s) = tmr_count_tip s" "music_play_wait (req r s) = music_play_wait s"
  "flag_force_voice_play (req r s) = flag_force_voice_play s" "ion_count (req r s) = ion_count s"
  "flag_tmrval_start (req r s) = flag_tmrval_start s" "flag_voice_close (req r s) = flag_voice_close s"
  "flag_voice_tip_enable (req r s) = flag_voice_tip_enable s" "power_ok (req r s) = power_ok s" "requests (req r s) = requests s @ [r]"
  by (simp_all add: req_def)

text \<open>Requests and the updates of single variables keep the ranges.\<close>

lemma inv_req [simp]:
  "curer_inv R (req r s) \<longleftrightarrow> curer_inv R s \<and> (case r of Set_duty t c v \<Rightarrow> unat v \<le> R t c | _ \<Rightarrow> True)"
  by (cases r) (auto simp: curer_inv_def)

lemma inv_updates:
  assumes "curer_inv R s"
  shows "v \<le> 3 \<Longrightarrow> curer_inv R (s\<lparr>button_rl := v\<rparr>)" "v \<le> 4 \<Longrightarrow> curer_inv R (s\<lparr>button_dyds := v\<rparr>)"
    "v \<le> 3 \<Longrightarrow> curer_inv R (s\<lparr>button_jg := v\<rparr>)" "v \<le> 1 \<Longrightarrow> curer_inv R (s\<lparr>button_sd := v\<rparr>)"
    "v \<le> 3 \<Longrightarrow> curer_inv R (s\<lparr>button_lzlf := v\<rparr>)" "v \<le> 1 \<Longrightarrow> curer_inv R (s\<lparr>button_jy := v\<rparr>)"
    "v \<le> 10 \<Longrightarrow> curer_inv R (s\<lparr>button_gn := v\<rparr>)" "v \<le> 23 \<Longrightarrow> curer_inv R (s\<lparr>button_zl1 := v\<rparr>)"
    "v \<le> 23 \<Longrightarrow> curer_inv R (s\<lparr>button_zl2 := v\<rparr>)" "v \<le> 1 \<Longrightarrow> curer_inv R (s\<lparr>tmr_lock := v\<rparr>)"
    "v \<le> 1 \<Longrightarrow> curer_inv R (set_lway m v s)" "v \<le> 1 \<Longrightarrow> curer_inv R (set_lcf m v s)"
    "v \<le> 12 \<Longrightarrow> curer_inv R (s\<lparr>ion_force := v\<rparr>)" "v \<le> 6 \<Longrightarrow> curer_inv R (s\<lparr>fm_idx := v\<rparr>)"
    "v \<le> 8 \<Longrightarrow> curer_inv R (s\<lparr>func_idx := v\<rparr>)" "v \<le> 1 \<Longrightarrow> curer_inv R (s\<lparr>fm_switch := v\<rparr>)"
    "v \<le> 30 \<Longrightarrow> curer_inv R (s\<lparr>tmr_value := v\<rparr>)" "t \<le> tmr_init_val s \<Longrightarrow> curer_inv R (s\<lparr>tmr_count_dec := t\<rparr>)"
    "t \<le> 1800 \<Longrightarrow> curer_inv R (s\<lparr>tmr_init_val := t, tmr_count_dec := 0\<rparr>)"
    "t \<le> 9 \<Longrightarrow> curer_inv R (s\<lparr>tmr_count_tip := t\<rparr>)" "k \<le> 160 \<Longrightarrow> curer_inv R (s\<lparr>music_play_wait := k\<rparr>)"
    "k \<le> 1199 \<Longrightarrow> curer_inv R (s\<lparr>ion_count := k\<rparr>)" "curer_inv R (s\<lparr>flag_base_timer_status := v\<rparr>)"
    "curer_inv R (s\<lparr>ion_force_overtimes := v\<rparr>)" "curer_inv R (s\<lparr>flag_force_voice_play := v\<rparr>)"
    "curer_inv R (s\<lparr>flag_tmrval_start := v\<rparr>)" "curer_inv R (s\<lparr>flag_voice_close := v\<rparr>)"
    "curer_inv R (s\<lparr>flag_voice_tip_enable := v\<rparr>)" "curer_inv R (s\<lparr>power_ok := v\<rparr>)"
  using assms by (simp_all add: curer_inv_def set_lway_def set_lcf_def)

text \<open>What the lemmas on the turns need of the others: that they keep the ranges.  It is no assumption of the properties: what the others do
  is a run of the same steps (\<open>curer_step\<close>), and that they keep the ranges is proved together with it (\<open>inv_step\<close>).\<close>

definition rely :: "reload_bounds \<Rightarrow> (curer \<Rightarrow> curer) \<Rightarrow> bool" where
  "rely R w \<longleftrightarrow> (\<forall>s. curer_inv R s \<longrightarrow> curer_inv R (w s))"

lemma inv_sleep: "rely R w \<Longrightarrow> curer_inv R s \<Longrightarrow> curer_inv R (sleep w n s)"
  by (simp add: rely_def sleep_def)

lemma inv_say: "curer_inv R s \<Longrightarrow> curer_inv R (say n s)" "curer_inv R s \<Longrightarrow> curer_inv R (say_unless_audio n s)"
  by (simp_all add: say_def say_unless_audio_def)

lemma word_dec_le: "0 < x \<Longrightarrow> x \<le> y \<Longrightarrow> x - 1 \<le> (y :: u8)"
  by (simp add: word_le_nat_alt word_less_nat_alt unat_minus_one unat_gt_0)

subsection \<open>The button thread\<close>

lemma inv_timeouts:
  assumes "curer_inv R s"
  shows "curer_inv R (timeout_tip s)" "curer_inv R (timeout_shutdown s)" "curer_inv R (timeout_music d s)"
  using assms
  by (auto simp: timeout_tip_def timeout_shutdown_def timeout_music_def switch_cure_freq_def Let_def not_less
      intro!: inv_updates)

lemma inv_timeout_dec:
  assumes "curer_inv R s"
  shows "curer_inv R (timeout_dec s)"
proof (cases "0 < tmr_init_val s - tmr_count_dec s")
  case True
  let ?n = "tmr_init_val s - (tmr_count_dec s + 1)"
  have "tmr_count_dec s \<le> tmr_init_val s" "tmr_init_val s \<le> 1800" "tmr_init_val s \<noteq> tmr_count_dec s"
    using assms True by (auto simp: curer_inv_def)
  then have "tmr_count_dec s < tmr_init_val s" "tmr_init_val s \<le> 1800" by simp_all
  then have nat: "unat (tmr_count_dec s) < unat (tmr_init_val s)" "unat (tmr_init_val s) \<le> 1800"
    by (simp_all add: word_le_nat_alt word_less_nat_alt)
  then have inc: "unat (tmr_count_dec s + 1) = unat (tmr_count_dec s) + 1" by (intro unat_inc) simp
  then have le: "tmr_count_dec s + 1 \<le> tmr_init_val s" using nat by (simp add: word_le_nat_alt)
  then have "unat ?n = unat (tmr_init_val s) - (unat (tmr_count_dec s) + 1)" by (simp add: unat_sub inc)
  then have "unat ?n \<le> 1799" using nat by simp
  then have "unat (?n div 60) \<le> 29" by (simp add: unat_div)
  then have "unat (?n div 60 + 1) \<le> 30" by (subst unat_inc) simp_all
  then have "unat (ucast (?n div 60 + 1) :: u8) \<le> 30"
    unfolding unsigned_ucast_eq by (rule order_trans [OF take_bit_nat_less_eq_self])
  then have "ucast (?n div 60 + 1) \<le> (30 :: u8)" by (simp add: word_le_nat_alt)
  then show ?thesis using assms le True by (simp add: timeout_dec_def Let_def inv_updates)
qed (use assms in \<open>simp add: timeout_dec_def inv_updates\<close>)

lemma inv_D:
  assumes "curer_inv R s"
  shows "button_gn s \<le> 10" "button_zl1 s \<le> 23" "button_zl2 s \<le> 23" "tmr_value s \<le> 30" "button_lzlf s \<le> 3"
    "fm_idx s \<le> 6" "func_idx s \<le> 8" "\<And>m. lway s m \<le> 1" "\<And>m. lcf s m \<le> 1"
  using assms by (simp_all add: curer_inv_def)

lemma countdown_range: "v \<le> (30 :: u8) \<Longrightarrow> ucast v * 60 \<le> (1800 :: u32)"
  by (simp add: word_le_nat_alt unat_word_ariths unsigned_ucast_eq take_bit_nat_def)

lemma inv_start_countdown:
  assumes "rely R w" "curer_inv R s"
  shows "curer_inv R (start_countdown w s)"
  using assms inv_D(4) [OF assms(2)]
  by (auto simp: start_countdown_def Let_def intro!: inv_updates inv_sleep countdown_range)

lemma inv_button_event:
  assumes "rely R w" "curer_inv R s"
  shows "curer_inv R (button_event w ev s)"
  using assms
  by (auto simp: button_event_def button_power_close_def button_ion_time_update_def Let_def
      intro!: inv_updates inv_sleep)

lemma inv_button_dy_ds:
  assumes "rely R w" "curer_inv R s"
  shows "curer_inv R (button_dy_ds w s)"
  using assms
  by (auto simp: button_dy_ds_def set_duration_def Let_def not_less intro!: inv_updates inv_sleep inv_say)

lemma inv_button_mute:
  assumes "rely R w" "curer_inv R s"
  shows "curer_inv R (button_mute w s)"
  using assms by (auto simp: button_mute_def Let_def not_less intro!: inv_updates inv_sleep)

text \<open>The handlers that count up before they look.\<close>

lemmas request_defs = say_def say_unless_audio_def set_lway_def set_lcf_def req_def

lemma inv_button_counts:
  assumes "curer_inv R s"
  shows "curer_inv R (button_laser s)" "curer_inv R (button_heat s)" "curer_inv R (button_ion s)"
    "curer_inv R (button_lock s)"
  using assms
  by (auto simp: button_laser_def button_heat_def button_ion_def button_lock_def Let_def not_less request_defs
      curer_inv_def)

lemma inv_button_programme: "curer_inv R s \<Longrightarrow> curer_inv R (button_programme s)"
  by (auto simp: button_programme_def Let_def not_less intro!: inv_updates inv_say)

lemma inv_button_strength:
  assumes "curer_inv R s"
  shows "curer_inv R (button_zl1_inc s)" "curer_inv R (button_zl2_inc s)" "curer_inv R (button_zl1_dec s)"
    "curer_inv R (button_zl2_dec s)"
  using assms inv_D(2,3) [OF assms]
  by (auto simp: button_zl1_inc_def button_zl2_inc_def button_zl1_dec_def button_zl2_dec_def ready_base_timer_def Let_def
      intro!: inv_updates inv_say inc_le word_dec_le)

lemma inv_button_pressed:
  assumes "rely R w" "curer_inv R s"
  shows "curer_inv R (button_pressed w val s)"
  using assms inv_button_counts inv_button_programme inv_button_strength inv_button_dy_ds inv_button_mute
  by (simp add: button_pressed_def)

lemma inv_voice_tip: "curer_inv R s \<Longrightarrow> curer_inv R (voice_tip s)"
  by (auto simp: voice_tip_def intro!: inv_updates)

lemma inv_button_turn:
  assumes "\<forall>n. rely R (w n)" "curer_inv R s"
  shows "curer_inv R (lwc_button_turn w recv val s)"
  using assms inv_start_countdown inv_button_event inv_button_pressed inv_voice_tip inv_sleep
  by (auto simp: lwc_button_turn_def Let_def rely_def split: option.split)

lemma inv_display_turn:
  assumes "\<forall>n. rely R (w n)" "curer_inv R s"
  shows "curer_inv R (lwc_display_turn w s)"
proof -
  have "curer_inv R (display_off s)" using assms(2) by (simp add: display_off_def curer_inv_def)
  then show ?thesis using assms by (auto simp: lwc_display_turn_def Let_def intro!: inv_sleep inv_updates)
qed

subsection \<open>The output thread\<close>

text \<open>The driver of each timer reports, for each channel, a reload value of at most \<open>R\<close> there.\<close>

definition reloads_below :: "reload_bounds \<Rightarrow> curer_drv \<Rightarrow> bool" where
  "reloads_below R d \<longleftrightarrow> (\<forall>t c. unat (ucast (snd (autoreload d t c)) :: u16) \<le> R t c)"

lemma strength_duty_bounds:
  assumes "zl \<le> 23"
  shows "tval div 5 \<le> strength_duty zl tval" "strength_duty zl tval \<le> tval"
proof -
  show "tval div 5 \<le> strength_duty zl tval" by (simp add: strength_duty_def)
  have "unat zl * (tval - tval div 5) \<le> 23 * (tval - tval div 5)"
    using assms by (intro mult_right_mono) (simp_all add: word_le_nat_alt)
  then have "unat zl * (tval - tval div 5) div 23 \<le> 23 * (tval - tval div 5) div 23" by (rule div_le_mono)
  also have "\<dots> = tval - tval div 5" by simp
  finally have "strength_duty zl tval \<le> tval div 5 + (tval - tval div 5)"
    unfolding strength_duty_def by (rule add_left_mono)
  then show "strength_duty zl tval \<le> tval" by simp
qed

lemma inv_set_duty:
  assumes "curer_inv R s" "reloads_below R d" "\<And>n. f n \<le> n"
  shows "curer_inv R (snd (set_duty d t c f s))"
proof -
  let ?v = "unat (ucast (snd (autoreload d t c)) :: u16)"
  have v: "?v \<le> R t c" using assms(2) by (simp add: reloads_below_def)
  have "unat (of_nat (f ?v) :: u32) = f ?v"
    using assms(3) [of ?v] unat_u16_less [of "ucast (snd (autoreload d t c))"]
    by (simp add: unat_of_nat take_bit_nat_eq_self)
  then have "unat (of_nat (f ?v) :: u32) \<le> R t c" using assms(3) [of ?v] v by simp
  then show ?thesis using assms(1) by (auto simp: set_duty_def Let_def case_prod_beta)
qed

lemma inv_level_output:
  assumes "curer_inv R s" "reloads_below R d"
  shows "curer_inv R (snd (level_output d m c lvl s))"
proof -
  let ?s = "if lcf s m = LWC_INACTIVE then set_lcf m LWC_ACTIVED s else s"
  have "curer_inv R ?s" using assms(1) by (simp add: inv_updates)
  then show ?thesis
    using inv_set_duty [OF _ assms(2), of ?s _ TIMER3 c] assms(1)
    by (auto simp: level_output_def Let_def case_prod_beta)
qed

lemma inv_timer3_output:
  assumes "curer_inv R s" "reloads_below R d"
  shows "curer_inv R (snd (lwc_cure_timer3_output d s))"
  using inv_level_output [OF _ assms(2)] assms(1) by (simp add: lwc_cure_timer3_output_def case_prod_beta)

lemma inv_strength_output:
  assumes "curer_inv R s" "reloads_below R d" "zl \<le> 23"
  shows "curer_inv R (snd (strength_output d c zl s))"
  using inv_set_duty [OF assms(1,2) strength_duty_bounds(2) [OF assms(3)], of TIMER2 c] assms(1)
  by (auto simp: strength_output_def case_prod_beta)

lemma strength_output_zl [simp]:
  "button_zl1 (snd (strength_output d c zl s)) = button_zl1 s" "button_zl2 (snd (strength_output d c zl s)) = button_zl2 s"
  by (simp_all add: strength_output_def set_duty_def case_prod_beta Let_def)

lemma inv_timer2_output:
  assumes "curer_inv R s" "reloads_below R d"
  shows "curer_inv R (snd (lwc_cure_timer2_output d s))"
proof -
  let ?s = "if lcf s FUNCTION = LWC_INACTIVE then set_lcf FUNCTION LWC_ACTIVED s else s"
  let ?t = "snd (strength_output d TMR_CH_CUREI_PWM (button_zl1 ?s) ?s)"
  have "curer_inv R ?s" using assms(1) by (simp add: inv_updates)
  then have "curer_inv R ?t" using inv_D(2) by (intro inv_strength_output assms(2)) auto
  then show ?thesis
    using inv_strength_output [OF _ assms(2), of ?t "button_zl2 ?t"] inv_D(3) [of R ?t] assms(1)
    by (simp only: lwc_cure_timer2_output_def case_prod_beta Let_def) simp
qed

lemma inv_freq_output: "freq_output d c zl s = Some s' \<Longrightarrow> curer_inv R s \<Longrightarrow> curer_inv R s'"
  by (auto simp: freq_output_def Let_def inv_updates split: if_splits)

lemma inv_timer4_output: "lwc_cure_timer4_output d s = Some s' \<Longrightarrow> curer_inv R s \<Longrightarrow> curer_inv R s'"
  by (auto simp: lwc_cure_timer4_output_def Let_def inv_updates bind_Some_conv dest!: inv_freq_output [where R = R] split: if_splits)

lemma ion_force_range: "ion_force_of adc \<le> 12"
proof -
  have "f \<le> 12" if f: "\<not> 10 \<le> sint f" "\<not> sint f \<le> 0" for f :: u8
  proof -
    have "word_of_int (sint f) = f" by simp
    then have "uint f = take_bit 8 (sint f)" by (metis uint_word_of_int_eq len_bit0 len_num1 mult_2 numeral_Bit0 one_add_one)
    then show ?thesis using f by (simp add: word_le_def take_bit_int_eq_self)
  qed
  then show ?thesis by (auto simp: ion_force_of_def Let_def)
qed

lemma inv_ion_pins: "curer_inv R (ion_pins a b s) = curer_inv R s" "curer_inv R (beep d s) = curer_inv R s"
  by (simp_all add: ion_pins_def beep_def Let_def)

lemma inv_ion_output: "curer_inv R s \<Longrightarrow> curer_inv R (lwc_cure_ion_output d adc s)"
  by (auto simp: lwc_cure_ion_output_def Let_def inv_ion_pins intro!: inv_updates ion_force_range)

lemma inv_stop: "curer_inv R s \<Longrightarrow> curer_inv R (stop_therapies s)" "curer_inv R s \<Longrightarrow> curer_inv R (stop_ion s)"
  by (auto simp: stop_therapies_def stop_ion_def Let_def intro!: inv_updates)

lemma inv_output_programme:
  assumes "output_programme d w s = Some s'" "curer_inv R s" "rely R w" "reloads_below R d"
  shows "curer_inv R s'"
proof -
  obtain s1 where "lwc_cure_timer4_output d (snd (lwc_cure_timer2_output d s1)) = Some s'" "curer_inv R s1"
    using assms(1) unfolding output_programme_def Let_def case_prod_beta
    by (rule that) (use assms(2,3) in \<open>auto intro!: inv_updates inv_sleep\<close>)
  then show ?thesis using inv_timer4_output inv_timer2_output assms(4) by blast
qed

lemma inv_output_event:
  assumes "output_event d w ev s = Some s'" "curer_inv R s" "rely R w" "reloads_below R d"
  shows "curer_inv R s'"
  using assms inv_output_programme [OF _ assms(2-4)] inv_timer3_output [OF assms(2,4)]
  by (auto simp: output_event_def output_close_def Let_def inv_updates inv_stop split: if_splits)

lemma inv_output_turn:
  assumes "lwc_output_turn d w recv s = Some s'" "curer_inv R s" "\<forall>n. rely R (w n)" "reloads_below R d"
  shows "curer_inv R s'"
proof -
  have "curer_inv R (w 0 s)" using assms(2,3) by (simp add: rely_def)
  then show ?thesis
    using assms(1,3) inv_output_event [OF _ _ _ assms(4)] inv_ion_output inv_sleep
    by (fastforce simp: lwc_output_turn_def Let_def bind_Some_conv split: option.splits)
qed

lemma inv_hook: "curer_inv R s \<Longrightarrow> curer_inv R (rt_device_hwtimer_hook d s)"
proof -
  have "NOT x AND 1 \<le> (1 :: u8)" for x by (simp add: word_and_le1)
  then show "curer_inv R s \<Longrightarrow> curer_inv R (rt_device_hwtimer_hook d s)"
    by (auto simp: rt_device_hwtimer_hook_def switch_cure_freq_def Let_def intro!: inv_updates)
qed

lemma inv_next_programme:
  assumes "curer_inv R s"
  shows "curer_inv R (next_programme s)"
proof -
  have "x \<le> 8" if "\<not> 7 < x" for x :: u8 using that by (simp add: word_le_nat_alt word_less_nat_alt)
  moreover have "button_gn s - 2 \<le> 8" if "2 \<le> button_gn s"
    using that inv_D(1) [OF assms] by (simp add: word_le_nat_alt unat_sub)
  ultimately show ?thesis
    using assms by (auto simp: next_programme_def Let_def curer_inv_def)
qed

lemma inv_advance_retune:
  assumes "curer_inv R s" "\<not> 5 < fm_idx s"
  shows "curer_inv R (advance_programme (retune f s))"
proof -
  have "fm_idx s + 1 \<le> 6" using assms(2) by (intro inc_le) (simp add: word_le_nat_alt word_less_nat_alt)
  then show ?thesis
    using assms(1) by (auto simp: advance_programme_def retune_def intro!: inv_next_programme inv_updates)
qed

lemma inv_timer6:
  assumes "timer6_timeout_cb g d s = Some s'" "curer_inv R s"
  shows "curer_inv R s'"
proof -
  let ?s = "if 5 < fm_idx s then s\<lparr>fm_idx := 0\<rparr> else s"
  have "curer_inv R (advance_programme (retune f ?s))" for f
    by (rule inv_advance_retune) (use assms(2) in \<open>auto intro!: inv_updates\<close>)
  then show ?thesis
    using assms by (auto simp: timer6_timeout_cb_def Let_def bind_Some_conv split: if_splits)
qed

subsection \<open>Reachable states\<close>

text \<open>
  One step: a turn of a thread, or a callback of a timer.  What happens while a thread waits within its turn (\<open>w n\<close>, at its \<open>n\<close>th waiting
  point) is a finite run of such steps, from whatever state the thread leaves.  Between two waiting points the statements of a turn are not
  interrupted: pre-emption there is not modelled.
\<close>

inductive curer_step :: "reload_bounds \<Rightarrow> curer \<Rightarrow> curer \<Rightarrow> bool" for R where
  Button: "\<forall>n s. (curer_step R)\<^sup>*\<^sup>* s (w n s) \<Longrightarrow> curer_step R s (lwc_button_turn w recv val s)"
| Output: "\<forall>n s. (curer_step R)\<^sup>*\<^sup>* s (w n s) \<Longrightarrow> reloads_below R d \<Longrightarrow> lwc_output_turn d w recv s = Some s' \<Longrightarrow> curer_step R s s'"
| Display: "\<forall>n s. (curer_step R)\<^sup>*\<^sup>* s (w n s) \<Longrightarrow> curer_step R s (lwc_display_turn w s)"
| Dec: "curer_step R s (timeout_dec s)"
| Tip: "curer_step R s (timeout_tip s)"
| Shutdown: "curer_step R s (timeout_shutdown s)"
| Music: "curer_step R s (timeout_music d s)"
| Ion: "curer_step R s (timeout_ionswtich s)"
| Timer3: "curer_step R s (timer3_timeout_cb s)"
| Hook: "curer_step R s (rt_device_hwtimer_hook d s)"
| Timer6: "timer6_timeout_cb g d s = Some s' \<Longrightarrow> curer_step R s s'"

lemma rely_run:
  assumes "\<forall>n s. (\<lambda>a b. curer_step R a b \<and> (curer_inv R a \<longrightarrow> curer_inv R b))\<^sup>*\<^sup>* s (w n s)"
  shows "\<forall>n. rely R (w n)"
  unfolding rely_def
proof (intro allI impI)
  fix n s
  assume "curer_inv R s"
  with assms [rule_format, of s n] show "curer_inv R (w n s)" by (induction rule: rtranclp_induct) auto
qed

lemma inv_step: "curer_step R s s' \<Longrightarrow> curer_inv R s \<Longrightarrow> curer_inv R s'"
proof (induction rule: curer_step.induct)
  case (Button w s recv val)
  show ?case by (rule inv_button_turn [OF rely_run [OF Button(1)] Button(2)])
next
  case (Output w d recv s s')
  show ?case by (rule inv_output_turn [OF Output(3,4) rely_run [OF Output(1)] Output(2)])
next
  case (Display w s)
  show ?case by (rule inv_display_turn [OF rely_run [OF Display(1)] Display(2)])
next
  case (Ion s)
  then show ?case by (auto simp: timeout_ionswtich_def intro!: inv_updates inc_le [THEN order_trans])
qed (auto simp: timer3_timeout_cb_def intro: inv_timeout_dec inv_timeouts inv_hook inv_timer6)

text \<open>All variables zero: static storage, and the initial values of the flags of the button thread.\<close>

definition curer_start :: curer where
  "curer_start = \<lparr>button_rl = 0, button_dyds = 0, button_jg = 0, button_sd = 0, button_lzlf = 0, button_jy = 0,
     button_gn = 0, button_zl1 = 0, button_zl2 = 0, flag_base_timer_status = 0, power_ok = 0, tmr_value = 0, tmr_lock = 0,
     lway = (\<lambda>_. 0), lcf = (\<lambda>_. 0), ion_force = 0, ion_force_overtimes = 0, fm_idx = 0, func_idx = 0, fm_switch = 0,
     tmr_init_val = 0, tmr_count_dec = 0, tmr_count_tip = 0, music_play_wait = 0, flag_force_voice_play = 0,
     ion_count = 0, flag_tmrval_start = 0, flag_voice_close = 0, flag_voice_tip_enable = 0, requests = []\<rparr>"

lemma inv_start: "curer_inv R curer_start"
  by (simp add: curer_inv_def curer_start_def)

lemma inv_reachable: "(curer_step R)\<^sup>*\<^sup>* curer_start s \<Longrightarrow> curer_inv R s"
  by (induction rule: rtranclp_induct) (auto intro: inv_start inv_step)

section \<open>What the requests do\<close>

text \<open>The state of a channel and of a pin after a sequence of requests, both off at first.\<close>

definition hw_step :: "hwtimer \<Rightarrow> channel \<Rightarrow> curer_request \<Rightarrow> bool \<Rightarrow> bool" where
  "hw_step t c r b = (case r of Hw_start t' c' \<Rightarrow> (t' = t \<and> c' = c) \<or> b
     | Hw_write t' c' _ \<Rightarrow> (t' = t \<and> c' = c) \<or> b
     | Hw_stop t' c' \<Rightarrow> \<not> (t' = t \<and> c' = c) \<and> b
     | _ \<Rightarrow> b)"

definition hw_on :: "hwtimer \<Rightarrow> channel \<Rightarrow> curer_request list \<Rightarrow> bool" where
  "hw_on t c rs = fold (hw_step t c) rs False"

definition pin_step :: "pin \<Rightarrow> curer_request \<Rightarrow> bool \<Rightarrow> bool" where
  "pin_step p r b = (case r of Pin_write p' v \<Rightarrow> if p' = p then v else b | _ \<Rightarrow> b)"

definition pin_high :: "pin \<Rightarrow> curer_request list \<Rightarrow> bool" where
  "pin_high p rs = fold (pin_step p) rs False"

text \<open>The event bits sent.\<close>

definition sent :: "curer_request list \<Rightarrow> u32" where
  "sent rs = fold (\<lambda>r b. case r of Event_send e \<Rightarrow> b OR e | _ \<Rightarrow> b) rs 0"

lemma hw_on_append [simp]: "hw_on t c (rs @ rs') = fold (hw_step t c) rs' (hw_on t c rs)"
  by (simp add: hw_on_def)

lemma pin_high_append [simp]: "pin_high p (rs @ rs') = fold (pin_step p) rs' (pin_high p rs)"
  by (simp add: pin_high_def)

text \<open>The outputs that treat a patient: laser, heat, the two currents with their frequency and the base timer
  that switches them; and the pins of the ion therapy.\<close>

definition therapy_channels :: "(hwtimer \<times> channel) list" where
  "therapy_channels = [(TIMER3, TMR_CH_LASER_PWM), (TIMER3, TMR_CH_HEAT_PWM), (TIMER2, TMR_CH_CUREI_PWM),
     (TIMER2, TMR_CH_CUREII_PWM), (TIMER4, TMR_CH_CUREI_FREQ), (TIMER4, TMR_CH_CUREII_FREQ), (TIMER6, TMR_CH_BASE)]"

definition ion_outputs :: "pin list" where
  "ion_outputs = [PB12_IONTHERAPY_PWR, PB13_IONTHERAPY_CRL1, PB14_IONTHERAPY_CRL2, PB5_IONTHERAPY_RLY]"

definition all_off :: "curer \<Rightarrow> bool" where
  "all_off s \<longleftrightarrow> list_all (\<lambda>(t, c). \<not> hw_on t c (requests s)) therapy_channels \<and>
     list_all (\<lambda>p. \<not> pin_high p (requests s)) ion_outputs"

lemmas off_defs = all_off_def therapy_channels_def ion_outputs_def hw_step_def pin_step_def

lemma set_lway_lcf_fields [simp]:
  "requests (set_lway m v s) = requests s" "requests (set_lcf m v s) = requests s"
  "lway (set_lway m v s) = (lway s)(m := v)" "lcf (set_lway m v s) = lcf s"
  "lway (set_lcf m v s) = lway s" "lcf (set_lcf m v s) = (lcf s)(m := v)"
  "tmr_lock (set_lway m v s) = tmr_lock s" "tmr_lock (set_lcf m v s) = tmr_lock s"
  by (simp_all add: set_lway_def set_lcf_def)

lemma output_close_off: "all_off (output_close s)" "lway (output_close s) IONICE_CURE = LWC_INACTIVE"
  by (simp_all add: output_close_def stop_therapies_def stop_ion_def Let_def off_defs)

lemma output_close_idle:
  "button_jg (output_close s) = 0" "button_rl (output_close s) = 0" "button_gn (output_close s) = 0"
  "button_zl1 (output_close s) = 0" "button_zl2 (output_close s) = 0" "button_lzlf (output_close s) = 0"
  "m \<noteq> SET_TIMER \<Longrightarrow> lway (output_close s) m = LWC_INACTIVE \<and> lcf (output_close s) m = LWC_INACTIVE"
  "last (requests (output_close s)) = Event_send DEVICE_POWER_CLOSE"
  by (cases m; simp add: output_close_def stop_therapies_def stop_ion_def Let_def set_lway_def set_lcf_def)+

lemma power_close_requests:
  "hw_on t c (requests (button_power_close s)) = hw_on t c (requests s)"
  "p \<noteq> PC13_SPEAKER_CTRL \<Longrightarrow> pin_high p (requests (button_power_close s)) = pin_high p (requests s)"
  by (simp_all add: button_power_close_def Let_def set_lway_def set_lcf_def hw_step_def pin_step_def)

lemma power_close_idle:
  "button_dyds (button_power_close s) = 0" "tmr_lock (button_power_close s) = 0"
  "flag_tmrval_start (button_power_close s) = 0" "lway (button_power_close s) SET_TIMER = LWC_INACTIVE"
  by (simp_all add: button_power_close_def Let_def set_lway_def set_lcf_def)

lemma ion_pins_requests:
  "hw_on t c (requests (ion_pins a b s)) = hw_on t c (requests s)" "hw_on t c (requests (beep d s)) = hw_on t c (requests s)"
  by (simp_all add: ion_pins_def beep_def Let_def hw_step_def)

lemma ion_output_requests: "hw_on t c (requests (lwc_cure_ion_output d adc s)) = hw_on t c (requests s)"
  by (simp add: lwc_cure_ion_output_def Let_def ion_pins_requests hw_step_def case_prod_beta
      if_distrib [of "\<lambda>s. hw_on t c (requests s)"] if_distrib [of snd] cong: if_cong split del: if_split)

section \<open>The countdown\<close>

lemma countdown_steps:
  assumes "tmr_count_dec s = 0" "k \<le> unat (tmr_init_val s)" "tmr_init_val s \<le> 1800"
  shows "tmr_count_dec ((timeout_dec ^^ k) s) = of_nat k \<and> tmr_init_val ((timeout_dec ^^ k) s) = tmr_init_val s \<and>
    requests ((timeout_dec ^^ k) s) = requests s \<and>
    (0 < k \<longrightarrow> tmr_value ((timeout_dec ^^ k) s) = of_nat ((unat (tmr_init_val s) - k) div 60 + 1))"
  using assms(2)
proof (induction k)
  case (Suc k)
  let ?t = "(timeout_dec ^^ k) s" and ?n = "unat (tmr_init_val s)"
  have n: "?n \<le> 1800" using assms(3) by (simp add: word_le_nat_alt)
  have t: "tmr_count_dec ?t = of_nat k" "tmr_init_val ?t = tmr_init_val s" "requests ?t = requests s"
    using Suc by simp_all
  have d: "tmr_init_val s - of_nat j = of_nat (?n - j)" if "j \<le> ?n" for j
    using that by (simp add: of_nat_diff)
  have u: "unat (of_nat j :: u32) = j" if "j \<le> ?n" for j
    using that n by (simp add: unat_of_nat take_bit_nat_eq_self)
  have "0 < tmr_init_val ?t - tmr_count_dec ?t"
    unfolding t(1,2) using d [of k] u [of "?n - k"] Suc(2) by (simp add: word_less_nat_alt)
  then have "timeout_dec ?t = ?t\<lparr>tmr_count_dec := of_nat (Suc k),
      tmr_value := ucast ((tmr_init_val s - of_nat (Suc k)) div 60 + 1)\<rparr>"
    by (simp add: timeout_dec_def Let_def t add.commute)
  moreover have "(tmr_init_val s - of_nat (Suc k)) div 60 = (of_nat ((?n - Suc k) div 60) :: u32)"
    using d [of "Suc k"] u [of "?n - Suc k"] u [of "(?n - Suc k) div 60"] Suc(2) div_le_dividend [of "?n - Suc k" 60]
    by (simp only: word_unat_eq_iff) (simp add: unat_div)
  then have "(tmr_init_val s - of_nat (Suc k)) div 60 + 1 = (of_nat ((?n - Suc k) div 60 + 1) :: u32)"
    by (simp only: of_nat_add of_nat_1)
  moreover have "ucast (of_nat ((?n - Suc k) div 60 + 1) :: u32) = (of_nat ((?n - Suc k) div 60 + 1) :: u8)"
    using n by (simp only: unsigned_of_nat) (simp add: take_bit_nat_eq_self)
  ultimately have "timeout_dec ?t = ?t\<lparr>tmr_count_dec := of_nat (Suc k), tmr_value := of_nat ((?n - Suc k) div 60 + 1)\<rparr>"
    by (simp only:)
  then show ?case using t by simp
qed (use assms in simp)

text \<open>A driver for the witnesses: every call succeeds, reload value 9999.\<close>

definition good_drv :: curer_drv where
  "good_drv = \<lparr>autoreload = (\<lambda>_ _. (RT_EOK, 9999)), duty_err = (\<lambda>_ _ _. RT_EOK), base_locked = False, time_written = True,
     dect_low = True, adc_convert = replicate 32 2440, tmr_count = 0, timer4_freq_positive = True, timer1_overflow = 0\<rparr>"

text \<open>The same with the reload value 100 at timer 3; a press of a button; and a treatment with the laser: the duration pressed twice, the
  laser once.\<close>

definition laser_drv :: curer_drv where
  "laser_drv = good_drv\<lparr>autoreload := (\<lambda>t _. (RT_EOK, if t = TIMER3 then 100 else 9999))\<rparr>"

definition laser_reloads :: reload_bounds where
  "laser_reloads t c = (if t = TIMER3 then 100 else 9999)"

definition press :: "u8 \<Rightarrow> curer \<Rightarrow> curer" where
  "press val s = lwc_button_turn (\<lambda>_ s. s) None val s"

definition laser_pressed :: curer where
  "laser_pressed = press 0x22 (press 0x12 (press 0x12 curer_start))"

lemma reloads_laser_drv: "reloads_below laser_reloads laser_drv"
  by (simp add: reloads_below_def laser_reloads_def laser_drv_def)

lemma press_step: "curer_step R s (press val s)"
  unfolding press_def by (rule Button) simp

lemma press_reachable: "(curer_step R)\<^sup>*\<^sup>* curer_start s \<Longrightarrow> (curer_step R)\<^sup>*\<^sup>* curer_start (press val s)"
  by (erule rtranclp.rtrancl_into_rtrancl) (rule press_step)

lemma laser_pressed_reachable: "(curer_step R)\<^sup>*\<^sup>* curer_start laser_pressed"
  unfolding laser_pressed_def by (intro press_reachable rtranclp.rtrancl_refl)

lemma laser_pressed_fields:
  "lway laser_pressed LASER_CURE = LWC_ACTIVED" "tmr_lock laser_pressed = 1" "button_jg laser_pressed = 1"
  "lway laser_pressed IONICE_CURE = 0"  "lway laser_pressed HEAT_CURE = 0" "lcf laser_pressed LASER_CURE = 0"
  by (simp_all add: laser_pressed_def press_def lwc_button_turn_def start_countdown_def button_pressed_def button_dy_ds_def button_laser_def
      set_duration_def say_def say_unless_audio_def sleep_def voice_tip_def curer_start_def Let_def set_lway_def req_def)

lemma laser_output:
  "\<exists>s. lwc_output_turn laser_drv (\<lambda>_ s. s) (Some RLJG_BUTTON_UPDATE) laser_pressed = Some s \<and>
     Set_duty TIMER3 TMR_CH_LASER_PWM 33 \<in> set (requests s)"
  by (simp add: lwc_output_turn_def output_event_def lwc_cure_timer3_output_def level_output_def set_duty_def laser_pressed_fields
      laser_drv_def good_drv_def lwc_cure_ion_output_def Let_def sleep_def set_lcf_def)

section \<open>Properties\<close>

text \<open>
  C31. In every state the curer can reach, from its start, by turns of its three threads and callbacks of
  its timers in any order, and with any such turns and callbacks wherever a turn waits, every level, programme, strength and counter is
  within its range: strengths of at most 23, programmes of at most 10, a treatment of at most 30 minutes, table indices of at most 6 and 8;
  and on no channel of no timer a duty cycle was ever asked for above the reload values read for that channel of that timer (\<open>R t c\<close> is
  any bound of those; with one reload value throughout, that value).  A turn is interrupted at its waiting points only.
\<close>

theorem curer_ranges:
  assumes "(curer_step R)\<^sup>*\<^sup>* curer_start s"
  shows "curer_inv R s"
  by (rule inv_reachable [OF assms])

theorem curer_ranges_witness:
  "\<exists>s. curer_inv laser_reloads s \<and> Set_duty TIMER3 TMR_CH_LASER_PWM 33 \<in> set (requests s)"
proof -
  obtain s where s: "lwc_output_turn laser_drv (\<lambda>_ s. s) (Some RLJG_BUTTON_UPDATE) laser_pressed = Some s"
    "Set_duty TIMER3 TMR_CH_LASER_PWM 33 \<in> set (requests s)" using laser_output by blast
  have "curer_step laser_reloads laser_pressed s" by (rule Output [OF _ reloads_laser_drv s(1)]) simp
  with laser_pressed_reachable have "(curer_step laser_reloads)\<^sup>*\<^sup>* curer_start s" by (rule rtranclp.rtrancl_into_rtrancl)
  from curer_ranges [OF this] s(2) show ?thesis by blast
qed

text \<open>
  C32. Closing the device: whatever the state, when the output thread receives the end of the countdown or the
  order to close, alone, it leaves every therapy output off (laser, heat, both currents with their
  frequencies and base timer, the pins of the ion therapy), all buttons and therapies reset, and an event
  for the button thread, which, when it receives it, leaves the device off and the countdown stopped.
\<close>

theorem curer_close_stops_all:
  assumes "ev = TIMER_FINISH_CLOSE \<or> ev = DEVICE_FORCE_CLOSE"
  shows "\<exists>s'. lwc_output_turn d w (Some ev) s = Some (sleep (w 2) 10 s') \<and> all_off s' \<and>
    last (requests s') = Event_send DEVICE_POWER_CLOSE \<and> button_jg s' = 0 \<and> button_rl s' = 0 \<and> button_gn s' = 0 \<and>
    button_zl1 s' = 0 \<and> button_zl2 s' = 0 \<and> button_lzlf s' = 0 \<and>
    (\<forall>m. m \<noteq> SET_TIMER \<longrightarrow> lway s' m = LWC_INACTIVE \<and> lcf s' m = LWC_INACTIVE) \<and>
    all_off (button_event w' DEVICE_POWER_CLOSE s') \<and> button_dyds (button_event w' DEVICE_POWER_CLOSE s') = 0 \<and>
    tmr_lock (button_event w' DEVICE_POWER_CLOSE s') = 0 \<and> Timer_stop Timerdec \<in> set (requests (button_event w' DEVICE_POWER_CLOSE s'))"
proof (intro exI conjI)
  let ?s = "output_close (w 0 s)"
  show "lwc_output_turn d w (Some ev) s = Some (sleep (w 2) 10 ?s)"
    using assms output_close_off(2) [of "w 0 s"]
    by (auto simp: lwc_output_turn_def output_event_def lwc_cure_ion_output_def)
  have e: "button_event w' DEVICE_POWER_CLOSE ?s = button_power_close ?s" by (simp add: button_event_def)
  show "all_off (button_event w' DEVICE_POWER_CLOSE ?s)"
    using output_close_off(1) [of "w 0 s"]
    by (simp add: e all_off_def power_close_requests ion_outputs_def)
  show "Timer_stop Timerdec \<in> set (requests (button_event w' DEVICE_POWER_CLOSE ?s))"
    by (simp add: e button_power_close_def Let_def)
  show "\<forall>m. m \<noteq> SET_TIMER \<longrightarrow> lway ?s m = LWC_INACTIVE \<and> lcf ?s m = LWC_INACTIVE"
    using output_close_idle(7) by blast
qed (simp_all add: output_close_off output_close_idle button_event_def power_close_idle)

text \<open>Laser at level 3, running.\<close>

definition laser_state :: curer where
  "laser_state = (set_lway LASER_CURE 1 curer_start)\<lparr>button_dyds := 2, tmr_lock := 1, button_jg := 3,
     requests := [Hw_start TIMER3 TMR_CH_LASER_PWM]\<rparr>"

theorem curer_close_stops_all_witness:
  "hw_on TIMER3 TMR_CH_LASER_PWM (requests laser_state) \<and>
   (\<exists>s'. lwc_output_turn good_drv (\<lambda>_ s. s) (Some DEVICE_FORCE_CLOSE) laser_state = Some s' \<and>
     \<not> hw_on TIMER3 TMR_CH_LASER_PWM (requests s'))"
proof -
  obtain s' where "lwc_output_turn good_drv (\<lambda>_ s. s) (Some DEVICE_FORCE_CLOSE) laser_state = Some (sleep (\<lambda>s. s) 10 s')"
    "all_off s'"
    using curer_close_stops_all [of DEVICE_FORCE_CLOSE good_drv "\<lambda>_ s. s" laser_state] by blast
  then show ?thesis
    by (auto simp: laser_state_def all_off_def therapy_channels_def sleep_def hw_on_def hw_step_def)
qed

text \<open>
  C33. A treatment ends: once the countdown of \<open>n\<close> minutes has started, the timer callback shows the minutes
  left, rounded up, and sends nothing for \<open>60 n\<close> periods of a second; the next period sends the event that
  closes the device.
\<close>

theorem curer_treatment_ends:
  assumes "tmr_lock s = 1" "flag_tmrval_start s = 0" "button_lzlf s = 0" "tmr_value s \<le> 30"
    and s1: "s1 = start_countdown w s" and n: "n = unat (tmr_value s)"
  shows "Timer_start Timerdec \<in> set (requests s1) \<and>
    (\<forall>k \<le> 60 * n. requests ((timeout_dec ^^ k) s1) = requests s1 \<and>
       (0 < k \<longrightarrow> tmr_value ((timeout_dec ^^ k) s1) = of_nat ((60 * n - k) div 60 + 1))) \<and>
    requests ((timeout_dec ^^ Suc (60 * n)) s1) = requests s1 @ [Event_send TIMER_FINISH_CLOSE]"
proof -
  have i: "tmr_init_val s1 = ucast (tmr_value s) * 60" "tmr_count_dec s1 = 0" "Timer_start Timerdec \<in> set (requests s1)"
    using assms(1-3) by (simp_all add: s1 start_countdown_def Let_def)
  have "n \<le> 30" using assms(4) n by (simp add: word_le_nat_alt)
  then have u: "unat (tmr_init_val s1) = 60 * n" "tmr_init_val s1 \<le> 1800"
    using n countdown_range [OF assms(4)] i(1) by (simp_all add: unat_word_ariths unsigned_ucast_eq take_bit_nat_eq_self)
  note c = countdown_steps [OF i(2) _ u(2), unfolded u(1)]
  let ?t = "(timeout_dec ^^ (60 * n)) s1"
  have "of_nat (60 * n) = tmr_init_val s1" unfolding u(1) [symmetric] by simp
  then have "tmr_init_val ?t - tmr_count_dec ?t = 0" using c [of "60 * n"] by simp
  then have "requests (timeout_dec ?t) = requests ?t @ [Event_send TIMER_FINISH_CLOSE]"
    by (simp add: timeout_dec_def)
  then show ?thesis using c i(3) by simp
qed

definition ten_minutes :: curer where
  "ten_minutes = curer_start\<lparr>button_dyds := 2, tmr_value := 10, tmr_lock := 1\<rparr>"

theorem curer_treatment_ends_witness:
  "Event_send TIMER_FINISH_CLOSE \<in> set (requests ((timeout_dec ^^ 601) (start_countdown id ten_minutes)))"
  using curer_treatment_ends [of ten_minutes "start_countdown id ten_minutes" id 10]
  by (simp add: ten_minutes_def curer_start_def)

text \<open>The bits the output thread waits for, and those it acts on.\<close>

definition output_mask :: u32 where
  "output_mask = 0x0a7d"

definition handled_events :: "u32 list" where
  "handled_events = [TIMER_FINISH_CLOSE, DEVICE_FORCE_CLOSE, RLJG_BUTTON_UPDATE, GNZL_BUTTON_UPDATE, LASER_CURE_CLOSE,
     HEAT_CURE_CLOSE, ION_FUNC_START, ION_CURE_CLOSE]"

lemma unhandled_event: "ev \<notin> set handled_events \<Longrightarrow> output_event d w ev s = Some s"
  by (auto simp: handled_events_def output_event_def)

lemma fourth_laser_press:
  assumes "1 < button_dyds s" "lcf s IONICE_CURE = LWC_INACTIVE" "button_jg s = 3"
  shows "button_jg (button_laser s) = 0" "lway (button_laser s) LASER_CURE = LWC_INACTIVE"
    "\<exists>v. requests (button_laser s) = requests s @ v @ [Event_send LASER_CURE_CLOSE, Timer_start Timer_shutdown,
       Event_send RLJG_BUTTON_UPDATE] \<and> (v = [] \<or> v = [Voice (0x5A + 28)])"
  using assms by (auto simp: button_laser_def Let_def say_unless_audio_def set_lway_def req_def)

lemma level_output_requests:
  assumes "c \<noteq> c'"
  shows "hw_on t c' (requests (snd (level_output d m c lvl s))) = hw_on t c' (requests s)"
  using assms by (simp add: level_output_def set_duty_def Let_def case_prod_beta hw_step_def)

lemma ion_output_lway: "lway (lwc_cure_ion_output d adc s) = lway s"
  by (simp add: lwc_cure_ion_output_def Let_def ion_pins_def beep_def case_prod_beta
      if_distrib [of lway] if_distrib [of snd] cong: if_cong split del: if_split)

text \<open>
  C34. Events that arrive together are lost: \<open>switch(recv_event)\<close> knows single bits only, and \<open>rt_event_recv\<close>
  clears all the bits it returns.  The fourth press of the laser button switches the laser off in the
  variables and sends two events; when the output thread takes both at once, it does nothing, and the laser
  goes on shining.  Only when it takes them one after the other does the laser stop.  In the same way the
  end of the countdown together with any other event closes nothing.
\<close>

theorem curer_events_lost:
  assumes "1 < button_dyds s" "lcf s IONICE_CURE = LWC_INACTIVE" "button_jg s = 3"
    and s1: "s1 = button_laser s" and ev: "ev = received output_mask (sent (drop (length (requests s)) (requests s1)))"
  shows "button_jg s1 = 0 \<and> lway s1 LASER_CURE = LWC_INACTIVE \<and> ev = LASER_CURE_CLOSE OR RLJG_BUTTON_UPDATE \<and>
    (\<exists>s2. lwc_output_turn d (\<lambda>_ s. s) (Some ev) s1 = Some s2 \<and>
       hw_on TIMER3 TMR_CH_LASER_PWM (requests s2) = hw_on TIMER3 TMR_CH_LASER_PWM (requests s)) \<and>
    (\<exists>s2 s3. lwc_output_turn d (\<lambda>_ s. s) (Some LASER_CURE_CLOSE) s1 = Some s2 \<and>
       lwc_output_turn d (\<lambda>_ s. s) (Some RLJG_BUTTON_UPDATE) s2 = Some s3 \<and>
       \<not> hw_on TIMER3 TMR_CH_LASER_PWM (requests s3)) \<and>
    (\<forall>w s e. e \<noteq> TIMER_FINISH_CLOSE \<and> bit e 0 \<longrightarrow> output_event d w e s = Some s)"
proof (intro conjI)
  let ?adc = "bubble16 (adc_convert d) 32 0 ! 16"
  note f = fourth_laser_press [OF assms(1-3), folded s1]
  show "button_jg s1 = 0" "lway s1 LASER_CURE = LWC_INACTIVE" by (rule f)+
  have ev': "ev = 0x28"
    using f(3) by (auto simp: ev sent_def received_def output_mask_def)
  then show "ev = LASER_CURE_CLOSE OR RLJG_BUTTON_UPDATE" by simp
  have "output_event d w ev s1 = Some s1" for w by (rule unhandled_event) (simp add: ev' handled_events_def)
  then have "lwc_output_turn d (\<lambda>_ s. s) (Some ev) s1 = Some (sleep (\<lambda>s. s) 10 (lwc_cure_ion_output d ?adc s1))"
    by (simp add: lwc_output_turn_def)
  moreover have "hw_on TIMER3 TMR_CH_LASER_PWM (requests s1) = hw_on TIMER3 TMR_CH_LASER_PWM (requests s)"
    using f(3) by (auto simp: hw_step_def)
  ultimately show "\<exists>s2. lwc_output_turn d (\<lambda>_ s. s) (Some ev) s1 = Some s2 \<and>
       hw_on TIMER3 TMR_CH_LASER_PWM (requests s2) = hw_on TIMER3 TMR_CH_LASER_PWM (requests s)"
    by (simp add: sleep_def ion_output_requests hw_step_def)
  define s2 where "s2 = sleep (\<lambda>s. s) 10 (lwc_cure_ion_output d ?adc (req (Hw_stop TIMER3 TMR_CH_LASER_PWM) s1))"
  have s2: "lway s2 LASER_CURE = LWC_INACTIVE" "\<not> hw_on TIMER3 TMR_CH_LASER_PWM (requests s2)"
    using f(2) by (simp_all add: s2_def sleep_def ion_output_lway ion_output_requests hw_step_def)
  have t2: "lwc_output_turn d (\<lambda>_ s. s) (Some LASER_CURE_CLOSE) s1 = Some s2"
    by (simp add: lwc_output_turn_def output_event_def s2_def)
  let ?s3 = "snd (level_output d HEAT_CURE TMR_CH_HEAT_PWM (button_rl s2) s2)"
  have "snd (lwc_cure_timer3_output d s2) = ?s3"
    using s2(1) by (simp add: lwc_cure_timer3_output_def level_output_def)
  then have t3: "lwc_output_turn d (\<lambda>_ s. s) (Some RLJG_BUTTON_UPDATE) s2 =
      Some (sleep (\<lambda>s. s) 10 (lwc_cure_ion_output d ?adc ?s3))"
    by (simp add: lwc_output_turn_def output_event_def)
  show "\<exists>s2 s3. lwc_output_turn d (\<lambda>_ s. s) (Some LASER_CURE_CLOSE) s1 = Some s2 \<and>
       lwc_output_turn d (\<lambda>_ s. s) (Some RLJG_BUTTON_UPDATE) s2 = Some s3 \<and>
       \<not> hw_on TIMER3 TMR_CH_LASER_PWM (requests s3)"
    using t2 t3 s2(2) by (auto simp: sleep_def ion_output_requests level_output_requests hw_step_def)
  show "\<forall>w s e. e \<noteq> TIMER_FINISH_CLOSE \<and> bit e 0 \<longrightarrow> output_event d w e s = Some s"
  proof (intro allI impI)
    fix w s and e :: u32
    assume e: "e \<noteq> TIMER_FINISH_CLOSE \<and> bit e 0"
    show "output_event d w e s = Some s"
      by (rule unhandled_event) (use e in \<open>auto simp: handled_events_def\<close>)
  qed
qed

theorem curer_events_lost_witness:
  "\<exists>s2. lwc_output_turn good_drv (\<lambda>_ s. s) (Some 0x28) (button_laser laser_state) = Some s2 \<and>
     button_jg (button_laser laser_state) = 0 \<and> hw_on TIMER3 TMR_CH_LASER_PWM (requests s2)"
proof -
  have "1 < button_dyds laser_state" "lcf laser_state IONICE_CURE = LWC_INACTIVE" "button_jg laser_state = 3"
    "hw_on TIMER3 TMR_CH_LASER_PWM (requests laser_state)"
    by (simp_all add: laser_state_def curer_start_def set_lway_def hw_on_def hw_step_def)
  then show ?thesis using curer_events_lost [of laser_state "button_laser laser_state" _ good_drv] by auto
qed

lemma timer6_freq_None:
  assumes "curer_inv R s" "\<not> 5 < fm_idx s"
  shows "timer6_freq g s = None \<longleftrightarrow> button_gn s \<le> 9 \<and> func_idx s = 8"
proof -
  have "func_idx s \<le> 8" using assms(1) by (rule inv_D)
  then have "unat (func_idx s) < 8 \<longleftrightarrow> func_idx s \<noteq> 8"
    by (simp add: word_le_nat_alt word_unat_eq_iff) arith
  moreover have "unat (fm_idx s) < 6" using assms(2) by (simp add: word_less_nat_alt)
  moreover have "length freq = 8" by (simp add: freq_def)
  ultimately show ?thesis by (simp add: timer6_freq_def)
qed

lemma advance_retune_gn [simp]: "button_gn (advance_programme (retune f s)) = button_gn s"
  "button_dyds (advance_programme (retune f s)) = button_dyds s" "lcf (advance_programme (retune f s)) = lcf s"
  by (simp_all add: advance_programme_def next_programme_def retune_def Let_def)

lemma timer6_None:
  assumes "curer_inv R s" "time_written d"
  shows "timer6_timeout_cb g d s = None \<longleftrightarrow> 0 < button_gn s \<and> button_gn s \<le> 9 \<and> func_idx s = 8"
proof -
  let ?s = "if 5 < fm_idx s then s\<lparr>fm_idx := 0\<rparr> else s"
  have "curer_inv R ?s" "\<not> 5 < fm_idx ?s" using assms(1) by (auto intro!: inv_updates)
  note f = timer6_freq_None [OF this, of g]
  have fields: "button_gn ?s = button_gn s" "func_idx ?s = func_idx s" by simp_all
  have le: "button_gn s \<le> 10" if "button_gn s \<le> 9" using that by (simp add: word_le_nat_alt)
  show ?thesis
    using f assms(2) le unfolding fields timer6_timeout_cb_def Let_def
    by (cases "timer6_freq g ?s") (auto simp: fields)
qed

text \<open>
  C35. The table of frequencies: in a state within the ranges, and when the timer accepts its new time, the
  callback of timer 6 fails exactly when a programme from 1 to 9 is set and the row index is 8, one past the
  table.  That happens: the audio programme leaves the index at 8, the next press of the programme button
  goes on to programme 1 and does not reset it, and the callback that follows reads past the table.
\<close>

theorem curer_frequency_index:
  assumes "curer_inv R s" "time_written d"
  shows "(timer6_timeout_cb g d s = None \<longleftrightarrow> 0 < button_gn s \<and> button_gn s \<le> 9 \<and> func_idx s = 8) \<and>
    (button_gn s = 10 \<and> 1 < button_dyds s \<and> lcf s IONICE_CURE = LWC_INACTIVE \<longrightarrow>
      (\<exists>s'. timer6_timeout_cb g d s = Some s' \<and> button_gn (button_programme s') = 1 \<and>
         timer6_timeout_cb g d (button_programme s') = None))"
proof (intro conjI impI)
  show "timer6_timeout_cb g d s = None \<longleftrightarrow> 0 < button_gn s \<and> button_gn s \<le> 9 \<and> func_idx s = 8"
    by (rule timer6_None [OF assms])
  assume a: "button_gn s = 10 \<and> 1 < button_dyds s \<and> lcf s IONICE_CURE = LWC_INACTIVE"
  let ?s = "if 5 < fm_idx s then s\<lparr>fm_idx := 0\<rparr> else s"
  let ?t = "advance_programme (retune g ?s)"
  have t: "timer6_timeout_cb g d s = Some ?t" using a by (simp add: timer6_timeout_cb_def timer6_freq_def Let_def)
  then have inv: "curer_inv R (button_programme ?t)" using inv_timer6 inv_button_programme assms(1) by blast
  have "func_idx ?t = 8"
    using a by (simp add: advance_programme_def next_programme_def retune_def Let_def)
  then have p: "button_gn (button_programme ?t) = 1" "func_idx (button_programme ?t) = 8"
    using a by (simp_all add: button_programme_def Let_def say_def set_lway_def)
  then have "timer6_timeout_cb g d (button_programme ?t) = None" by (subst timer6_None [OF inv assms(2)]) simp
  then show "\<exists>s'. timer6_timeout_cb g d s = Some s' \<and> button_gn (button_programme s') = 1 \<and>
      timer6_timeout_cb g d (button_programme s') = None" using t p(1) by blast
qed

theorem curer_frequency_index_witness:
  "\<exists>s'. timer6_timeout_cb 0 good_drv (curer_start\<lparr>button_dyds := 2, button_gn := 10\<rparr>) = Some s' \<and>
     timer6_timeout_cb 0 good_drv (button_programme s') = None"
proof -
  let ?s = "curer_start\<lparr>button_dyds := 2, button_gn := 10\<rparr>"
  have "curer_inv (\<lambda>_ _. 0) ?s" "time_written good_drv"
    by (simp_all add: curer_inv_def curer_start_def good_drv_def)
  from curer_frequency_index [OF this, of 0] show ?thesis by (auto simp: curer_start_def)
qed

end
