(* ===== verification/Spec2Isabelle.thy ===== *)
theory Spec2Isabelle
  imports Startup Ringbuffer Completion Data_Queue Watchdog Workqueue Kservice_Str Curer_Props
begin

text \<open>
  \<^bold>\<open>The kernel of RT-Thread 2.1.0 and the light wave curer.\<close>  A model of the kernel in \<open>src/src\<close>, of its device
  framework, of the services for drivers in \<open>src/components/drivers/src\<close>, and of the application in
  \<open>src/bsp/stm32f10x-curer/applications\<close>, translated function by function from the C sources, with the theorems that
  make it correct.

  \<^bold>\<open>The program.\<close>  RT-Thread is a preemptive real-time kernel.  The scheduler (\<open>scheduler.c\<close>) keeps one ready
  queue per priority and a bitmap of the queues that are not empty; threads (\<open>thread.c\<close>) move between the ready
  queues, the waiting lists of the IPC objects and the list of dead threads; timers (\<open>timer.c\<close>), driven by the
  tick interrupt (\<open>clock.c\<close>), wake threads that wait with a timeout; semaphores, mutexes, events, mailboxes and
  message queues (\<open>ipc.c\<close>) and memory pools (\<open>mempool.c\<close>) suspend and resume threads through common waiting lists;
  the heap (\<open>mem.c\<close>) serves the objects created at run time, which \<open>object.c\<close> registers by class; the idle
  thread (\<open>idle.c\<close>) frees the threads that ended.  All of them use the lists of \<open>rtservice.h\<close> and the routines of
  \<open>kservice.c\<close>.  Devices (\<open>device.c\<close>) are objects with the functions of a driver, opened and closed by reference
  counting; the console of \<open>rt_kprintf\<close> is one of them.  Ring buffers, completions, data queues and work queues
  (\<open>components/drivers/src\<close>) carry data and wake-ups between drivers, interrupts and threads.  The light wave curer, the
  application of this tree, is a therapy device: a button thread turns presses into events, an output thread turns
  events into requests to hardware timers and pins, a display thread shows the state, and timers end the treatment.

  \<^bold>\<open>Configuration.\<close>  \<open>src/bsp/stm32f10x-curer/rtconfig.h\<close>: a 32-bit Cortex-M3, 32 priorities, 1000 ticks a second,
  names of 8 bytes, alignment 4, one timer list level, the small-memory heap, \<open>RT_DEBUG\<close> with its assertions.
  Modules, soft timers, slab and memheap are configured out, and hooks are unset.

  \<^bold>\<open>State.\<close>  \<open>kstate\<close> of theory Kernel_State is one record: a store per kind of control block from addresses to
  records with the fields of the C structures (\<open>objects\<close>, \<open>threads\<close>, \<open>timers\<close>, \<open>sems\<close>, \<open>mutexes\<close>, \<open>events\<close>, \<open>mailboxes\<close>,
  \<open>mqs\<close>, \<open>mempools\<close>), the nodes and links inside memory pools and message queues (\<open>mq_nodes\<close>, \<open>mp_links\<close>), the heap
  (\<open>kheap\<close>), the intrusive lists (\<open>tqs\<close> for threads, \<open>containers\<close> for objects, \<open>timer_list\<close>), and the global variables
  of the sources.  A control block inside another one has an address of its own kind: \<open>TmrOf t\<close> is the timer of thread
  \<open>t\<close>.  The lists are queues of addresses; theory Rt_List shows that the pointer operations of \<open>rtservice.h\<close>
  implement exactly these queues.  Integers keep their width: they are machine words and wrap.

  \<^bold>\<open>Calls.\<close>  A function of the kernel is a function from the state to an optional result and state.  \<open>None\<close> is a call
  that does not return: a failed \<open>RT_ASSERT\<close>, an access outside an array, or a loop that does not end
  (\<open>partial_function\<close>), so that a theorem that a call equals \<open>Some\<close> also says that it returns; no fuel is used.  Where a
  thread gives up the processor, in \<open>rt_schedule\<close>, it goes on in a state that a parameter of type \<open>world\<close> makes of the
  present one: what all other threads and interrupts did in the meantime, about which nothing is assumed unless a
  theorem says so.  Sections with interrupts disabled are single steps; interrupts between the statements of a
  call outside of such sections are not modelled.  The context switches a call asks the processor for are recorded in
  \<open>switches\<close>.

  \<^bold>\<open>Theories.\<close>
    \<^item> RT_Prelude: integer types, \<open>RT_ASSERT\<close>, \<open>RT_ALIGN\<close>, rule collections, lemmas on words and options.
    \<^item> Rt_List: the lists of \<open>rtservice.h\<close> on pointers and as queues; the locale \<open>list_service\<close>, interpreted on both,
      carries the refinement.
    \<^item> Kservice: memory and string routines, \<open>__rt_ffs\<close> of \<open>kservice.c\<close>, each with what it computes, overlapping areas and
      wrap-around included.
    \<^item> Kservice_Str: the rest of \<open>kservice.c\<close>: substring search, comparison without case, copies of strings and aligned areas on
      the heap.
    \<^item> Printf: formatted output of \<open>kservice.c\<close>; \<open>rt_vsnprintf\<close> refines the function \<open>render\<close> from formats and arguments to
      texts, and stays in its buffer.
    \<^item> Kernel_State, Object: the state, and \<open>object.c\<close>: containers, static objects, lookup by name.
    \<^item> Scheduler: \<open>scheduler.c\<close>; invariant \<open>ready_inv\<close> (the bitmap tells the non-empty queues), and the locale
      \<open>priority_table\<close>, interpreted on the ready queues: the thread chosen is the first of the best queue.
    \<^item> Timer: \<open>timer.c\<close>; invariant \<open>timer_inv\<close> (the list is sorted by time left, through the wrap-around of the tick), and the
      locale \<open>timeout_handler\<close>, the contract under which \<open>rt_timer_check\<close> expires exactly the due timers.
    \<^item> Thread: \<open>thread.c\<close>, \<open>clock.c\<close>, \<open>irq.c\<close> and the initial stack of \<open>cpuport.c\<close>; invariant \<open>thread_inv\<close> of threads, queues and
      thread timers; \<open>rt_thread_timeout\<close> meets the contract of the timers, and
      \<open>user_ok\<close> is the contract of the timeout functions of applications, which leaves out those that start or stop timers or wake threads
      whose timers run.
    \<^item> Ipc, Semaphore, Mutex, Event: the waiting lists and the first three objects of \<open>ipc.c\<close>, each as a refinement of what
      it promises, for every waiting time: a counting semaphore, a recursive lock with priority inheritance, delivery of events in order.
    \<^item> Bounded_Fifo, Mailbox, Message_Queue: the locale \<open>bounded_fifo\<close>, and its interpretations on the ring of mails and on
      the chained messages.
    \<^item> Mem, Heap_Blocks, Heap_Ops, Heap_Free, Heap_Correct, Heap_Props: \<open>mem.c\<close>; the headers tile the arena (\<open>heap_core\<close>), the
      live areas are disjoint (\<open>live\<close>); the locale \<open>allocator\<close> of theory Allocator is interpreted on \<open>rt_malloc\<close> and \<open>rt_free\<close>.
    \<^item> Mempool, Mempool_Props: \<open>mempool.c\<close>; \<open>allocator\<close> interpreted on \<open>rt_mp_alloc\<close> and \<open>rt_mp_free\<close>.
    \<^item> Create, Create_Inv, Object_Life, Create_Props: the routines that create and delete objects on the heap; invariant
      \<open>dyn_inv\<close> (every registered, queued or ticking control block in the arena is a live area); the locale
      \<open>dynamic_objects\<close>, interpreted on the \<open>create\<close> and \<open>delete\<close> routines of seven classes: no leak, nothing dangling.
    \<^item> Thread_Life: threads on the heap from creation to the idle thread of \<open>idle.c\<close>.
    \<^item> Kernel_Run: the running system.  The relation \<open>run_step\<close> interleaves the calls of all threads, as the scheduler chooses them, and tick
      interrupts; the locale \<open>kernel_calls\<close> proves that states stay well formed and nothing gets stuck from what each call
      promises, and is interpreted on the calls of \<open>thread.c\<close> and of the semaphores.  The running thread is always the best one.  Mutexes are left out
      because of what theory Mutex shows: \<open>rt_mutex_release\<close> can leave a better thread waiting.
    \<^item> Startup: \<open>components.c\<close>, from the entry of the program to the first thread, where \<open>Kernel_Run\<close> takes over.
    \<^item> Ringbuffer: \<open>components/drivers/src/ringbuffer.c\<close>, where \<open>bounded_fifo\<close> is interpreted once more.
    \<^item> Driver_State: the record \<open>drv\<close>, the kernel state with the data of the framework, the interrupt mask and the state of the
      drivers; giving up the processor and waking on top of the lemmas of theory Ipc.
    \<^item> Completion, Data_Queue, Workqueue: \<open>completion.c\<close>, \<open>dataqueue.c\<close> and \<open>workqueue.c\<close>; what each hands over, and the schedules and
      sequences of calls in which they lose it.
    \<^item> Device: \<open>device.c\<close> and the console of \<open>kservice.c\<close>; the locale \<open>device_driver\<close> is what the reference counting needs of a
      driver: its functions return and leave the reference count alone, and an open function that refuses leaves the device marked open.
    \<^item> Watchdog: \<open>watchdog.c\<close>, the driver on which \<open>device_driver\<close> is interpreted, for any functions of the hardware that keep a state of their own.
    \<^item> Cvt: the sorting routines of \<open>drivers/cvt.c\<close> equal the library's \<open>sort\<close>; the locale \<open>sorting_order\<close> is interpreted on both
      directions.
    \<^item> Curer, Curer_Output, Curer_Props: the application, on a state of its own, the record \<open>curer\<close>: its variables and the requests it made to kernel
      and drivers.  One definition per button, event and callback; a turn of a thread's loop is a step, and what others do while it waits is an
      argument; for the reachable states (\<open>curer_step\<close>) it is itself a run of such steps.  Turns are interrupted at their waiting points only.  Ranges of all variables in every reachable state, what closing the device switches off, the length of a
      treatment; and events that are lost when they arrive together, where \<open>received\<close> of theory Event is what \<open>rt_event_recv\<close> returns.

  \<^bold>\<open>Not modelled.\<close>  The conversion of floating-point numbers (\<open>flt\<close>, a parameter of \<open>rt_vsnprintf\<close>).  The functions of
  drivers other than the watchdog, which the framework calls through pointers: they are arguments of the
  operations.  The set-up of devices before the loops of the curer's threads, and the segments of its display.  The endless loops of the idle thread around
  \<open>rt_thread_idle_excute\<close> and of the work thread around \<open>workqueue_turn\<close>.  Slab, memheap, modules, soft timers: not in this configuration.  The contents of thread
  stacks and the assembler of the processor ports; the boards, vendor libraries, file systems, network stacks, shell
  and graphics under \<open>src/bsp\<close> and \<open>src/components\<close>, which use the kernel or are third-party code.
\<close>

end
